(* ===== verification/Prelude.thy ===== *)
theory Prelude
  imports Main "HOL-Library.Word"
begin

text \<open>
  What every component shares: the machine integer types, the failures of the C code as
  values, the sequencing of fallible steps, 32-bit \<open>int\<close> arithmetic with its overflow, and
  byte memory with bounds-checked \<open>memcpy\<close>, \<open>memmove\<close> and \<open>memcmp\<close>. The collection
  \<open>cmem\<close> holds the rewrite rules that discharge the checks of in-bounds accesses.
\<close>

unbundle bit_operations_syntax

named_theorems cmem "in-bounds memory accesses and in-range integer steps"

type_synonym u8 = "8 word"
type_synonym u16 = "16 word"
type_synonym u32 = "32 word"
type_synonym u64 = "64 word"
type_synonym bytes = "8 word list"

subsection \<open>Failures as values\<close>

text \<open>
  A failing \<open>assert\<close>, an access outside an allocation, a signed overflow (undefined in C), a division by zero and a
  loop that never leaves are failures; every operation that can fail returns
  \<open>cerr + 'a\<close>. \<open>NotANumber\<close> stands for a floating-point operation without a real result, such as a division by zero or the
  root of a negative number. The C code goes on with an infinity or a NaN there; the model stops.
\<close>

datatype cerr = AssertFail | OutOfBounds | IntOverflow | DivByZero | Diverges | NotANumber

fun bindE :: "'e + 'a \<Rightarrow> ('a \<Rightarrow> 'e + 'b) \<Rightarrow> 'e + 'b" where
  "bindE (Inl e) f = Inl e"
| "bindE (Inr a) f = f a"

definition assertE :: "bool \<Rightarrow> cerr + unit" where
  "assertE b = (if b then Inr () else Inl AssertFail)"

lemma assertE_True [simp]: "b \<Longrightarrow> assertE b = Inr ()"
  by (simp add: assertE_def)

lemma assertE_False [simp]: "\<not> b \<Longrightarrow> assertE b = Inl AssertFail"
  by (simp add: assertE_def)

lemma bindE_Inr_iff: "bindE m f = Inr b \<longleftrightarrow> (\<exists>a. m = Inr a \<and> f a = Inr b)"
  by (cases m) auto

lemma bindE_InrE [elim!]:
  assumes "bindE m f = Inr b"
  obtains a where "m = Inr a" "f a = Inr b"
  using assms by (auto simp: bindE_Inr_iff)

lemma assertE_InrE [elim!]: "assertE b = Inr u \<Longrightarrow> (b \<Longrightarrow> P) \<Longrightarrow> P"
  by (auto simp: assertE_def split: if_splits)

lemma bindE_cong [fundef_cong]:
  "m = m' \<Longrightarrow> (\<And>a. m' = Inr a \<Longrightarrow> f a = g a) \<Longrightarrow> bindE m f = bindE m' g"
  by (cases m') auto

lemma bindE_assoc: "bindE (bindE m f) g = bindE m (\<lambda>a. bindE (f a) g)"
  by (cases m) auto

fun foldE :: "('s \<Rightarrow> 'a \<Rightarrow> 'e + 's) \<Rightarrow> 'a list \<Rightarrow> 's \<Rightarrow> 'e + 's" where
  "foldE f [] s = Inr s"
| "foldE f (x # xs) s = bindE (f s x) (foldE f xs)"

lemma foldE_append: "foldE f (xs @ ys) s = bindE (foldE f xs s) (foldE f ys)"
  by (induction xs arbitrary: s) (auto simp: bindE_assoc intro!: bindE_cong)

lemma foldE_map: "foldE f (map g xs) s = foldE (\<lambda>s x. f s (g x)) xs s"
  by (induction xs arbitrary: s) (auto intro!: bindE_cong)

text \<open>An invariant of every step of a fallible fold holds at its end.\<close>

lemma foldE_inv:
  assumes "I s" and "foldE f xs s = Inr t"
    and "\<And>s x t. I s \<Longrightarrow> x \<in> set xs \<Longrightarrow> f s x = Inr t \<Longrightarrow> I t"
  shows "I t"
  using assms
proof (induction xs arbitrary: s)
  case (Cons x xs)
  from Cons.prems(2) obtain u where u: "f s x = Inr u" "foldE f xs u = Inr t" by auto
  have "I u" using Cons.prems(3) [OF Cons.prems(1) _ u(1)] by simp
  with u(2) show ?case using Cons.IH Cons.prems(3) by (metis list.set_intros(2))
qed simp

lemma bindE_Inr_right [simp]: "bindE m Inr = m"
  by (cases m) auto

subsection \<open>Signed 32-bit arithmetic\<close>

definition INT_MAX :: int where
  "INT_MAX = 2147483647"

definition INT_MIN :: int where
  "INT_MIN = - 2147483648"

definition cint :: "int \<Rightarrow> cerr + int" where
  "cint x = (if INT_MIN \<le> x \<and> x \<le> INT_MAX then Inr x else Inl IntOverflow)"

lemma cint_ok [cmem]: "INT_MIN \<le> x \<Longrightarrow> x \<le> INT_MAX \<Longrightarrow> cint x = Inr x"
  by (simp add: cint_def)

lemma cint_InrE [elim!]: "cint x = Inr y \<Longrightarrow> (y = x \<Longrightarrow> x \<le> INT_MAX \<Longrightarrow> P) \<Longrightarrow> P"
  by (auto simp: cint_def split: if_splits)

subsection \<open>Byte memory\<close>

text \<open>
  An allocation is its list of bytes. Offsets and lengths are integers, as a negative index
  times an unsigned element size points below the allocation.
\<close>

definition mem_read :: "'b list \<Rightarrow> int \<Rightarrow> int \<Rightarrow> cerr + 'b list" where
  "mem_read d off n =
     (if 0 \<le> off \<and> 0 \<le> n \<and> off + n \<le> int (length d)
      then Inr (take (nat n) (drop (nat off) d)) else Inl OutOfBounds)"

definition mem_write :: "'b list \<Rightarrow> int \<Rightarrow> 'b list \<Rightarrow> cerr + 'b list" where
  "mem_write d off bs =
     (if 0 \<le> off \<and> off + int (length bs) \<le> int (length d)
      then Inr (take (nat off) d @ bs @ drop (nat off + length bs) d) else Inl OutOfBounds)"

text \<open>\<open>memmove\<close> within one allocation: the source is read before it is overwritten.\<close>

definition mem_move :: "'b list \<Rightarrow> int \<Rightarrow> int \<Rightarrow> int \<Rightarrow> cerr + 'b list" where
  "mem_move d dst src n = bindE (mem_read d src n) (mem_write d dst)"

text \<open>
  \<open>realloc\<close> keeps the common prefix; the bytes it adds are indeterminate, which the argument
  \<open>junk\<close> stands for: every theorem holds for each choice of it.
\<close>

definition mem_realloc :: "(nat \<Rightarrow> 'b) \<Rightarrow> 'b list \<Rightarrow> nat \<Rightarrow> 'b list" where
  "mem_realloc junk d n = take n d @ map junk [length d..<n]"

lemma length_mem_realloc [simp]: "length (mem_realloc junk d n) = n"
  by (simp add: mem_realloc_def min_def)

lemma take_mem_realloc: "m \<le> length d \<Longrightarrow> m \<le> n \<Longrightarrow> take m (mem_realloc junk d n) = take m d"
  by (simp add: mem_realloc_def min_def)

lemma mem_read_ok [cmem]:
  "0 \<le> off \<Longrightarrow> 0 \<le> n \<Longrightarrow> off + n \<le> int (length d) \<Longrightarrow>
   mem_read d off n = Inr (take (nat n) (drop (nat off) d))"
  by (simp add: mem_read_def)

lemma mem_write_ok [cmem]:
  "0 \<le> off \<Longrightarrow> off + int (length bs) \<le> int (length d) \<Longrightarrow>
   mem_write d off bs = Inr (take (nat off) d @ bs @ drop (nat off + length bs) d)"
  by (simp add: mem_write_def)

lemma mem_read_nat:
  "off + n \<le> length d \<Longrightarrow> mem_read d (int off) (int n) = Inr (take n (drop off d))"
  by (simp add: mem_read_def)

lemma mem_write_nat:
  "off + length bs \<le> length d \<Longrightarrow>
   mem_write d (int off) bs = Inr (take off d @ bs @ drop (off + length bs) d)"
  by (simp add: mem_write_def)

lemma length_mem_write: "mem_write d off bs = Inr d' \<Longrightarrow> length d' = length d"
  by (auto simp: mem_write_def split: if_splits)

subsection \<open>Arrays of elements\<close>

definition arr_get :: "'a list \<Rightarrow> nat \<Rightarrow> cerr + 'a" where
  "arr_get xs i = (if i < length xs then Inr (xs ! i) else Inl OutOfBounds)"

definition arr_set :: "'a list \<Rightarrow> nat \<Rightarrow> 'a \<Rightarrow> cerr + 'a list" where
  "arr_set xs i x = (if i < length xs then Inr (xs[i := x]) else Inl OutOfBounds)"

lemma arr_get_ok [cmem]: "i < length xs \<Longrightarrow> arr_get xs i = Inr (xs ! i)"
  by (simp add: arr_get_def)

lemma arr_set_ok [cmem]: "i < length xs \<Longrightarrow> arr_set xs i x = Inr (xs[i := x])"
  by (simp add: arr_set_def)

lemma arr_get_InrE [elim!]: "arr_get xs i = Inr x \<Longrightarrow> (i < length xs \<Longrightarrow> x = xs ! i \<Longrightarrow> P) \<Longrightarrow> P"
  by (auto simp: arr_get_def split: if_splits)

lemma arr_set_InrE [elim!]: "arr_set xs i x = Inr ys \<Longrightarrow> (i < length xs \<Longrightarrow> ys = xs[i := x] \<Longrightarrow> P) \<Longrightarrow> P"
  by (auto simp: arr_set_def split: if_splits)

text \<open>Indices computed as \<open>int\<close> may be negative.\<close>

definition vget :: "'v list \<Rightarrow> int \<Rightarrow> cerr + 'v" where
  "vget vs i = (if 0 \<le> i then arr_get vs (nat i) else Inl OutOfBounds)"

definition vset :: "'v list \<Rightarrow> int \<Rightarrow> 'v \<Rightarrow> cerr + 'v list" where
  "vset vs i v = (if 0 \<le> i then arr_set vs (nat i) v else Inl OutOfBounds)"

lemma vget_InrE [elim!]:
  "vget vs i = Inr v \<Longrightarrow> (0 \<le> i \<Longrightarrow> nat i < length vs \<Longrightarrow> v = vs ! nat i \<Longrightarrow> P) \<Longrightarrow> P"
  by (auto simp: vget_def split: if_splits)

lemma vget_ok [cmem]: "i < length vs \<Longrightarrow> vget vs (int i) = Inr (vs ! i)"
  by (simp add: vget_def cmem)

lemma vset_ok [cmem]: "i < length vs \<Longrightarrow> vset vs (int i) v = Inr (vs[i := v])"
  by (simp add: vset_def cmem)

subsection \<open>Chunks of a byte buffer\<close>

text \<open>The \<open>n\<close> consecutive elements of \<open>w\<close> bytes at the front of a buffer.\<close>

definition chunks :: "nat \<Rightarrow> nat \<Rightarrow> 'b list \<Rightarrow> 'b list list" where
  "chunks w n d = map (\<lambda>i. take w (drop (i * w) d)) [0..<n]"

lemma length_chunks [simp]: "length (chunks w n d) = n"
  by (simp add: chunks_def)

lemma nth_chunks [simp]: "i < n \<Longrightarrow> chunks w n d ! i = take w (drop (i * w) d)"
  by (simp add: chunks_def)

lemma chunk_bounds: "i < n \<Longrightarrow> i * w + w \<le> n * (w::nat)"
  by (metis Suc_leI add.commute mult_Suc mult_le_mono1)

lemma length_nth_chunks: "i < n \<Longrightarrow> n * w \<le> length d \<Longrightarrow> length (chunks w n d ! i) = w"
  using chunk_bounds [of i n w] by simp

lemma chunks_take: "n * w \<le> m \<Longrightarrow> chunks w n (take m d) = chunks w n d"
proof (rule nth_equalityI)
  fix i assume a: "n * w \<le> m" "i < length (chunks w n (take m d))"
  then have "i * w + w \<le> m" using chunk_bounds [of i n w] by simp
  with a show "chunks w n (take m d) ! i = chunks w n d ! i"
    by (simp add: drop_take min_def)
qed simp

lemma chunks_cong_take:
  "take (n * w) d = take (n * w) d' \<Longrightarrow> chunks w n d = chunks w n d'"
  using chunks_take [of n w "n * w" d] chunks_take [of n w "n * w" d'] by simp

lemma chunks_Suc: "chunks w (Suc n) d = chunks w n d @ [take w (drop (n * w) d)]"
  by (simp add: chunks_def)

lemma chunks_append_one:
  assumes "length d = n * w" "length p = w"
  shows "chunks w (Suc n) (d @ p @ r) = chunks w n d @ [p]"
proof -
  have "chunks w n (d @ p @ r) = chunks w n d"
    using assms by (intro chunks_cong_take) simp
  then show ?thesis using assms by (simp add: chunks_Suc)
qed

lemma chunks_append:
  assumes "length d = n * w"
  shows "chunks w (n + m) (d @ r) = chunks w n d @ chunks w m r"
proof (rule nth_equalityI)
  fix i assume i: "i < length (chunks w (n + m) (d @ r))"
  show "chunks w (n + m) (d @ r) ! i = (chunks w n d @ chunks w m r) ! i"
  proof (cases "i < n")
    case True
    then have "i * w + w \<le> n * w" by (rule chunk_bounds)
    with True i assms show ?thesis by (simp add: nth_append)
  next
    case False
    then have "n * w \<le> i * w" by (intro mult_le_mono1) simp
    with False i assms show ?thesis
      by (simp add: nth_append diff_mult_distrib)
  qed
qed simp

lemma chunks_drop: "chunks w n (drop (k * w) d) = drop k (chunks w (k + n) d)"
  by (rule nth_equalityI) (auto simp: add_mult_distrib algebra_simps)

lemma take_chunks: "k \<le> n \<Longrightarrow> take k (chunks w n d) = chunks w k d"
  by (rule nth_equalityI) auto

text \<open>
  A list of elements that all take \<open>w\<close> bytes, and its concatenation: offsets that are multiples
  of \<open>w\<close> cut the concatenation where they cut the list.
\<close>

definition uniform :: "nat \<Rightarrow> 'b list list \<Rightarrow> bool" where
  "uniform w xs = (\<forall>x \<in> set xs. length x = w)"

lemma uniform_simps [simp]:
  "uniform w []"
  "uniform w (x # xs) \<longleftrightarrow> length x = w \<and> uniform w xs"
  "uniform w (xs @ ys) \<longleftrightarrow> uniform w xs \<and> uniform w ys"
  by (auto simp: uniform_def)

lemma uniform_sub:
  "uniform w xs \<Longrightarrow> uniform w (take n xs)" "uniform w xs \<Longrightarrow> uniform w (drop n xs)"
  by (auto simp: uniform_def dest: in_set_takeD in_set_dropD)

lemma uniform_nth: "uniform w xs \<Longrightarrow> i < length xs \<Longrightarrow> length (xs ! i) = w"
  by (simp add: uniform_def)

lemma uniform_chunks: "n * w \<le> length d \<Longrightarrow> uniform w (chunks w n d)"
  by (auto simp: uniform_def in_set_conv_nth simp del: nth_chunks intro: length_nth_chunks)

lemma length_concat_uniform: "uniform w xs \<Longrightarrow> length (concat xs) = length xs * w"
  by (induction xs) auto

lemma take_concat_uniform: "uniform w xs \<Longrightarrow> take (i * w) (concat xs) = concat (take i xs)"
proof (induction xs arbitrary: i)
  case (Cons x xs)
  then show ?case by (cases i) auto
qed simp

lemma drop_concat_uniform: "uniform w xs \<Longrightarrow> drop (i * w) (concat xs) = concat (drop i xs)"
proof (induction xs arbitrary: i)
  case (Cons x xs)
  then show ?case by (cases i) auto
qed simp

lemma chunks_concat: "uniform w xs \<Longrightarrow> n = length xs \<Longrightarrow> chunks w n (concat xs @ r) = xs"
proof (induction xs arbitrary: r n rule: rev_induct)
  case (snoc x xs)
  then have "chunks w (Suc (length xs)) (concat xs @ x @ r) = chunks w (length xs) (concat xs) @ [x]"
    by (intro chunks_append_one) (auto simp: length_concat_uniform)
  with snoc.IH [of "length xs" "[]"] snoc.prems show ?case by simp
qed (simp add: chunks_def)

lemma concat_chunks:
  assumes "n * w \<le> length d"
  shows "d = concat (chunks w n d) @ drop (n * w) d"
  using assms
proof (induction n)
  case (Suc n)
  then have "d = concat (chunks w n d) @ drop (n * w) d" by simp
  moreover have "drop (n * w) d = take w (drop (n * w) d) @ drop (Suc n * w) d"
    by (metis append_take_drop_id drop_drop mult_Suc)
  ultimately show ?case by (simp add: chunks_Suc)
qed (simp add: chunks_def)

subsection \<open>Smearing the top bit of a 32-bit word\<close>

lemma bit_word32_less: "bit (x :: 32 word) n \<Longrightarrow> n < 32"
  using bit_imp_le_length [of x n] by simp

lemma signed_drop_bit_nonneg:
  "\<not> bit (v :: 32 word) 31 \<Longrightarrow> signed_drop_bit n v = drop_bit n v"
  by (rule bit_word_eqI) (auto simp: bit_signed_drop_bit_iff bit_drop_bit_eq dest: bit_word32_less)

text \<open>\<open>y\<close> has a bit wherever \<open>x\<close> has one within the next \<open>a\<close> positions.\<close>

definition smeared :: "nat \<Rightarrow> 32 word \<Rightarrow> 32 word \<Rightarrow> bool" where
  "smeared a x y = (\<forall>i. bit y i = (\<exists>j<a. bit x (i + j)))"

lemma ex_less_twice: "(\<exists>j<2 * a. P j) = ((\<exists>j<a. P j) \<or> (\<exists>j<a. P (a + j)))" for a :: nat
proof
  assume "\<exists>j<2 * a. P j"
  then obtain j where j: "j < 2 * a" "P j" by blast
  show "(\<exists>j<a. P j) \<or> (\<exists>j<a. P (a + j))"
  proof (cases "j < a")
    case False
    then have "j = a + (j - a)" "j - a < a" using j(1) by auto
    then show ?thesis using j(2) by metis
  qed (use j in blast)
next
  assume "(\<exists>j<a. P j) \<or> (\<exists>j<a. P (a + j))"
  then show "\<exists>j<2 * a. P j"
  proof
    assume "\<exists>j<a. P j"
    then obtain j where "j < a" "P j" by blast
    then show ?thesis by (intro exI [of _ j]) simp
  next
    assume "\<exists>j<a. P (a + j)"
    then obtain j where "j < a" "P (a + j)" by blast
    then show ?thesis by (intro exI [of _ "a + j"]) simp
  qed
qed

lemma smeared_step:
  assumes s: "smeared a x y" and x: "\<not> bit x 31"
  shows "smeared (2 * a) x (y OR signed_drop_bit a y)"
proof -
  have "\<not> bit y 31"
  proof
    assume "bit y 31"
    then obtain j where "bit x (31 + j)" using s unfolding smeared_def by blast
    then show False using bit_word32_less [of x "31 + j"] x by simp
  qed
  then have eq: "signed_drop_bit a y = drop_bit a y" by (rule signed_drop_bit_nonneg)
  show ?thesis
    unfolding smeared_def ex_less_twice
    using s by (auto simp: smeared_def eq bit_or_iff bit_drop_bit_eq ac_simps)
qed

lemma smeared_top:
  assumes s: "smeared 32 x y" and x: "x \<noteq> 0"
  obtains k where "k < 32" "2 ^ k \<le> unat x" "unat x < 2 ^ Suc k" "y = mask (Suc k)"
proof -
  define k where "k = (GREATEST n. bit x n)"
  have ex: "\<exists>n. bit x n" using x by (metis bit_0_eq bit_eqI bot_apply bot_bool_def)
  have bk: "bit x k" and gk: "\<And>n. bit x n \<Longrightarrow> n \<le> k"
    using GreatestI_ex_nat [OF ex, of 32] Greatest_le_nat [of "bit x" _ 32] bit_word32_less [of x]
    unfolding k_def by (auto simp: less_imp_le)
  have k: "k < 32" using bk by (rule bit_word32_less)
  have bits: "bit y i \<longleftrightarrow> i \<le> k" for i
  proof
    assume "bit y i"
    then show "i \<le> k" using s gk unfolding smeared_def by (metis add_leD1)
  next
    assume "i \<le> k"
    then show "bit y i" using s bk k unfolding smeared_def
      by (auto intro!: exI [of _ "k - i"])
  qed
  have "y = mask (Suc k)"
    by (rule bit_word_eqI) (simp add: bits bit_mask_iff less_Suc_eq_le)
  moreover have "unat x < 2 ^ Suc k"
  proof -
    have "x = take_bit (Suc k) x"
      by (rule bit_word_eqI) (auto simp: bit_take_bit_iff less_Suc_eq_le dest: gk)
    then have "unat x = take_bit (Suc k) (unat x)" by (metis unsigned_take_bit_eq)
    then show ?thesis by (metis take_bit_nat_less_exp)
  qed
  moreover have "2 ^ k \<le> unat x"
  proof (rule ccontr)
    assume "\<not> 2 ^ k \<le> unat x"
    then have "\<not> bit (unat x) k" by (simp add: bit_iff_odd)
    then show False using bk k by (simp add: bit_unsigned_iff)
  qed
  ultimately show thesis using k that by blast
qed

end
