(* ===== verification/ZArray.thy ===== *)
theory ZArray
  imports Prelude "HOL-Library.Multiset"
begin

text \<open>
  The resizable array of \<open>common/zarray.h\<close> and \<open>common/zarray.c\<close>, down to its bytes:
  \<open>za_data\<close> is the allocation, of \<open>alloc * el_sz\<close> bytes, whose first \<open>size\<close> elements are in
  use. \<open>zarray_list\<close> reads the elements off the bytes; each operation is shown to act on that
  list as its documentation says, without an access outside the allocation. Pointers
  to the structure are never null here; pointers into it (\<open>zarray_get_volatile\<close>) are byte
  offsets.
\<close>

record zarray =
  za_el_sz :: nat
  za_size :: int
  za_alloc :: int
  za_data :: bytes

definition zarray_create :: "nat \<Rightarrow> cerr + zarray" where
  "zarray_create el_sz =
     bindE (assertE (0 < el_sz)) (\<lambda>_.
     Inr \<lparr>za_el_sz = el_sz, za_size = 0, za_alloc = 0, za_data = []\<rparr>)"

text \<open>\<open>free\<close>, then every field zeroed.\<close>

definition zarray_destroy :: "zarray \<Rightarrow> zarray" where
  "zarray_destroy za = \<lparr>za_el_sz = 0, za_size = 0, za_alloc = 0, za_data = []\<rparr>"

definition zarray_copy :: "(nat \<Rightarrow> u8) \<Rightarrow> zarray \<Rightarrow> cerr + zarray" where
  "zarray_copy junk za =
     bindE (mem_read (za_data za) 0 (za_size za * int (za_el_sz za))) (\<lambda>bs.
     bindE (mem_write (mem_realloc junk [] (nat (za_alloc za) * za_el_sz za)) 0 bs) (\<lambda>d.
     Inr \<lparr>za_el_sz = za_el_sz za, za_size = za_size za, za_alloc = za_alloc za, za_data = d\<rparr>))"

text \<open>The shifts of a signed \<open>int\<close> are arithmetic.\<close>

definition iceillog2 :: "32 word \<Rightarrow> 32 word" where
  "iceillog2 v0 =
     (let v = v0 - 1;
          v = v OR signed_drop_bit 1 v;
          v = v OR signed_drop_bit 2 v;
          v = v OR signed_drop_bit 4 v;
          v = v OR signed_drop_bit 8 v;
          v = v OR signed_drop_bit 16 v
      in v + 1)"

definition zarray_copy_subset :: "(nat \<Rightarrow> u8) \<Rightarrow> zarray \<Rightarrow> int \<Rightarrow> int \<Rightarrow> cerr + zarray" where
  "zarray_copy_subset junk za start_idx end_idx_exclusive =
     bindE (cint (end_idx_exclusive - start_idx)) (\<lambda>size.
     let alloc = sint (iceillog2 (word_of_int size)); w = int (za_el_sz za) in
     bindE (mem_read (za_data za) (start_idx * w) (size * w)) (\<lambda>bs.
     bindE (mem_write (mem_realloc junk [] (nat alloc * za_el_sz za)) 0 bs) (\<lambda>d.
     Inr \<lparr>za_el_sz = za_el_sz za, za_size = size, za_alloc = alloc, za_data = d\<rparr>)))"

text \<open>The doubling loop of \<open>zarray_ensure_capacity\<close>.\<close>

function zarray_grow :: "int \<Rightarrow> int \<Rightarrow> cerr + int" where
  "zarray_grow alloc capacity =
     (if alloc < capacity
      then bindE (cint (alloc * 2)) (\<lambda>a. zarray_grow (if a < 8 then 8 else a) capacity)
      else Inr alloc)"
  by pat_completeness auto
termination
  by (relation "measure (\<lambda>(alloc, capacity). nat (capacity - alloc))") auto

declare zarray_grow.simps [simp del]

definition zarray_ensure_capacity :: "(nat \<Rightarrow> u8) \<Rightarrow> zarray \<Rightarrow> int \<Rightarrow> cerr + zarray" where
  "zarray_ensure_capacity junk za capacity =
     (if capacity \<le> za_alloc za then Inr za
      else bindE (zarray_grow (za_alloc za) capacity) (\<lambda>a.
           Inr (za\<lparr>za_alloc := a,
                   za_data := mem_realloc junk (za_data za) (nat a * za_el_sz za)\<rparr>)))"

definition zarray_add :: "(nat \<Rightarrow> u8) \<Rightarrow> zarray \<Rightarrow> bytes \<Rightarrow> cerr + zarray" where
  "zarray_add junk za p =
     bindE (cint (za_size za + 1)) (\<lambda>c.
     bindE (zarray_ensure_capacity junk za c) (\<lambda>za.
     bindE (mem_read p 0 (int (za_el_sz za))) (\<lambda>bs.
     bindE (mem_write (za_data za) (za_size za * int (za_el_sz za)) bs) (\<lambda>d.
     Inr (za\<lparr>za_data := d, za_size := za_size za + 1\<rparr>)))))"

definition zarray_get :: "zarray \<Rightarrow> int \<Rightarrow> cerr + bytes" where
  "zarray_get za idx =
     bindE (assertE (0 \<le> idx)) (\<lambda>_.
     bindE (assertE (idx < za_size za)) (\<lambda>_.
     mem_read (za_data za) (idx * int (za_el_sz za)) (int (za_el_sz za))))"

definition zarray_get_volatile :: "zarray \<Rightarrow> int \<Rightarrow> cerr + int" where
  "zarray_get_volatile za idx =
     bindE (assertE (0 \<le> idx)) (\<lambda>_.
     bindE (assertE (idx < za_size za)) (\<lambda>_.
     Inr (idx * int (za_el_sz za))))"

definition zarray_truncate :: "zarray \<Rightarrow> int \<Rightarrow> cerr + zarray" where
  "zarray_truncate za sz = bindE (assertE (sz \<le> za_size za)) (\<lambda>_. Inr (za\<lparr>za_size := sz\<rparr>))"

definition zarray_remove_index :: "zarray \<Rightarrow> int \<Rightarrow> bool \<Rightarrow> cerr + zarray" where
  "zarray_remove_index za idx shuffle =
     bindE (assertE (0 \<le> idx)) (\<lambda>_.
     bindE (assertE (idx < za_size za)) (\<lambda>_.
     let w = int (za_el_sz za) in
     if shuffle then
       bindE (if idx < za_size za - 1
              then bindE (mem_read (za_data za) ((za_size za - 1) * w) w)
                     (mem_write (za_data za) (idx * w))
              else Inr (za_data za)) (\<lambda>d.
       Inr (za\<lparr>za_data := d, za_size := za_size za - 1\<rparr>))
     else
       let ncopy = za_size za - idx - 1 in
       bindE (if 0 < ncopy then mem_move (za_data za) (idx * w) ((idx + 1) * w) (ncopy * w)
              else Inr (za_data za)) (\<lambda>d.
       Inr (za\<lparr>za_data := d, za_size := za_size za - 1\<rparr>))))"

text \<open>
  The scan shared by \<open>zarray_remove_value\<close>, \<open>zarray_contains\<close> and \<open>zarray_index_of\<close>: the
  first index from \<open>idx\<close> whose bytes equal \<open>p\<close>, or \<open>-1\<close>.
\<close>

function zarray_scan :: "zarray \<Rightarrow> bytes \<Rightarrow> int \<Rightarrow> cerr + int" where
  "zarray_scan za p idx =
     (if idx < za_size za
      then bindE (mem_read (za_data za) (idx * int (za_el_sz za)) (int (za_el_sz za))) (\<lambda>e.
           bindE (mem_read p 0 (int (za_el_sz za))) (\<lambda>p'.
           if p' = e then Inr idx else zarray_scan za p (idx + 1)))
      else Inr (-1))"
  by pat_completeness auto
termination
  by (relation "measure (\<lambda>(za, p, idx). nat (za_size za - idx))") auto

declare zarray_scan.simps [simp del]

definition zarray_index_of :: "zarray \<Rightarrow> bytes \<Rightarrow> cerr + int" where
  "zarray_index_of za p = zarray_scan za p 0"

definition zarray_contains :: "zarray \<Rightarrow> bytes \<Rightarrow> cerr + int" where
  "zarray_contains za p = bindE (zarray_scan za p 0) (\<lambda>i. Inr (if i = -1 then 0 else 1))"

definition zarray_remove_value :: "zarray \<Rightarrow> bytes \<Rightarrow> bool \<Rightarrow> cerr + zarray \<times> int" where
  "zarray_remove_value za p shuffle =
     bindE (zarray_scan za p 0) (\<lambda>i.
     if i = -1 then Inr (za, 0)
     else bindE (zarray_remove_index za i shuffle) (\<lambda>za'. Inr (za', 1)))"

definition zarray_insert :: "(nat \<Rightarrow> u8) \<Rightarrow> zarray \<Rightarrow> int \<Rightarrow> bytes \<Rightarrow> cerr + zarray" where
  "zarray_insert junk za idx p =
     bindE (assertE (0 \<le> idx)) (\<lambda>_.
     bindE (assertE (idx \<le> za_size za)) (\<lambda>_.
     bindE (cint (za_size za + 1)) (\<lambda>c.
     bindE (zarray_ensure_capacity junk za c) (\<lambda>za.
     let w = int (za_el_sz za); ncopy = za_size za - idx in
     bindE (mem_move (za_data za) ((idx + 1) * w) (idx * w) (ncopy * w)) (\<lambda>d.
     bindE (mem_read p 0 w) (\<lambda>bs.
     bindE (mem_write d (idx * w) bs) (\<lambda>d.
     Inr (za\<lparr>za_data := d, za_size := za_size za + 1\<rparr>))))))))"

text \<open>The result pairs the array with the bytes copied to \<open>outp\<close>.\<close>

definition zarray_set :: "zarray \<Rightarrow> int \<Rightarrow> bytes \<Rightarrow> cerr + zarray \<times> bytes" where
  "zarray_set za idx p =
     bindE (assertE (0 \<le> idx)) (\<lambda>_.
     bindE (assertE (idx < za_size za)) (\<lambda>_.
     let w = int (za_el_sz za) in
     bindE (mem_read (za_data za) (idx * w) w) (\<lambda>old.
     bindE (mem_read p 0 w) (\<lambda>bs.
     bindE (mem_write (za_data za) (idx * w) bs) (\<lambda>d.
     Inr (za\<lparr>za_data := d\<rparr>, old))))))"

text \<open>\<open>zarray_map\<close>: the callback may rewrite the element it is given.\<close>

function zarray_map_from :: "(bytes \<Rightarrow> bytes) \<Rightarrow> zarray \<Rightarrow> int \<Rightarrow> cerr + zarray" where
  "zarray_map_from f za idx =
     (if idx < za_size za
      then let w = int (za_el_sz za) in
           bindE (mem_read (za_data za) (idx * w) w) (\<lambda>e.
           bindE (mem_write (za_data za) (idx * w) (f e)) (\<lambda>d.
           zarray_map_from f (za\<lparr>za_data := d\<rparr>) (idx + 1)))
      else Inr za)"
  by pat_completeness auto
termination
  by (relation "measure (\<lambda>(f, za, idx). nat (za_size za - idx))") auto

declare zarray_map_from.simps [simp del]

definition zarray_map :: "(bytes \<Rightarrow> bytes) \<Rightarrow> zarray \<Rightarrow> cerr + zarray" where
  "zarray_map f za = zarray_map_from f za 0"

definition zarray_clear :: "zarray \<Rightarrow> zarray" where
  "zarray_clear za = za\<lparr>za_size := 0\<rparr>"

definition zarray_add_range :: "(nat \<Rightarrow> u8) \<Rightarrow> zarray \<Rightarrow> zarray \<Rightarrow> int \<Rightarrow> int \<Rightarrow> cerr + zarray" where
  "zarray_add_range junk dest source start end =
     bindE (assertE (za_el_sz dest = za_el_sz source)) (\<lambda>_.
     bindE (assertE (0 \<le> start)) (\<lambda>_.
     bindE (assertE (end \<le> za_size source)) (\<lambda>_.
     if start = end then Inr dest
     else
     bindE (assertE (start < end)) (\<lambda>_.
     bindE (cint (za_size dest + (end - start))) (\<lambda>c.
     bindE (zarray_ensure_capacity junk dest c) (\<lambda>dest.
     let w = int (za_el_sz dest); count = end - start in
     bindE (mem_read (za_data source) (start * w) (count * w)) (\<lambda>bs.
     bindE (mem_write (za_data dest) (za_size dest * w) bs) (\<lambda>d.
     Inr (dest\<lparr>za_data := d, za_size := za_size dest + count\<rparr>)))))))))"

subsection \<open>Invariant and contents\<close>

definition zarray_inv :: "zarray \<Rightarrow> bool" where
  "zarray_inv za \<longleftrightarrow>
     0 < za_el_sz za \<and> 0 \<le> za_size za \<and> za_size za \<le> za_alloc za \<and> za_alloc za \<le> INT_MAX \<and>
     length (za_data za) = nat (za_alloc za) * za_el_sz za"

definition zarray_list :: "zarray \<Rightarrow> bytes list" where
  "zarray_list za = chunks (za_el_sz za) (nat (za_size za)) (za_data za)"

text \<open>An array in terms of its elements \<open>xs\<close> and the bytes \<open>r\<close> behind them.\<close>

definition zarray_rep :: "zarray \<Rightarrow> bytes list \<Rightarrow> bytes \<Rightarrow> bool" where
  "zarray_rep za xs r \<longleftrightarrow>
     0 < za_el_sz za \<and> za_size za = int (length xs) \<and> uniform (za_el_sz za) xs \<and>
     za_size za \<le> za_alloc za \<and> za_alloc za \<le> INT_MAX \<and>
     za_data za = concat xs @ r \<and>
     length (concat xs) + length r = nat (za_alloc za) * za_el_sz za"

lemma zarray_rep_list: "zarray_rep za xs r \<Longrightarrow> zarray_list za = xs"
  by (simp add: zarray_rep_def zarray_list_def chunks_concat)

lemma zarray_rep_inv: "zarray_rep za xs r \<Longrightarrow> zarray_inv za"
  unfolding zarray_rep_def zarray_inv_def by auto

lemma zarray_inv_rep:
  assumes "zarray_inv za"
  obtains r where "zarray_rep za (zarray_list za) r"
proof -
  let ?w = "za_el_sz za" and ?n = "nat (za_size za)"
  have le: "?n * ?w \<le> length (za_data za)"
    using assms by (simp add: zarray_inv_def mult_le_mono1 nat_mono)
  let ?r = "drop (?n * ?w) (za_data za)"
  have "length (concat (chunks ?w ?n (za_data za))) + length ?r = length (za_data za)"
    using concat_chunks [OF le] by (metis length_append)
  then have "zarray_rep za (zarray_list za) ?r"
    using assms concat_chunks [OF le] uniform_chunks [OF le]
    by (simp add: zarray_inv_def zarray_rep_def zarray_list_def)
  then show thesis by (rule that)
qed

lemma zarray_size_list: "zarray_inv za \<Longrightarrow> za_size za = int (length (zarray_list za))"
  by (simp add: zarray_inv_def zarray_list_def)

lemma zarray_list_uniform: "zarray_inv za \<Longrightarrow> uniform (za_el_sz za) (zarray_list za)"
  by (erule zarray_inv_rep) (simp add: zarray_rep_def)

subsection \<open>Reading and writing elements\<close>

lemma mem_read_elem:
  assumes "uniform w xs" "i < length xs"
  shows "mem_read (concat xs @ r) (int i * int w) (int w) = Inr (xs ! i)"
proof -
  have "i * w + w \<le> length (concat xs @ r)"
    using chunk_bounds [OF assms(2), of w] assms(1) by (simp add: length_concat_uniform)
  note mem_read_nat [OF this]
  also have "take w (drop (i * w) (concat xs @ r)) = chunks w (length xs) (concat xs @ r) ! i"
    using assms(2) by simp
  finally show ?thesis using assms(1) by (simp add: chunks_concat)
qed

lemma mem_read_elems:
  assumes "uniform w xs" "i + n \<le> length xs"
  shows "mem_read (concat xs @ r) (int i * int w) (int n * int w) = Inr (concat (take n (drop i xs)))"
proof -
  have "(i + n) * w \<le> length xs * w" using assms(2) by (rule mult_le_mono1)
  then have le: "i * w + n * w \<le> length (concat xs)"
    using assms(1) by (simp add: length_concat_uniform add_mult_distrib)
  then have "mem_read (concat xs @ r) (int (i * w)) (int (n * w))
      = Inr (take (n * w) (drop (i * w) (concat xs)))"
    by (subst mem_read_nat) auto
  then show ?thesis
    using assms(1) by (simp add: drop_concat_uniform take_concat_uniform uniform_sub)
qed

text \<open>Elements \<open>ys\<close> written from index \<open>i\<close> on, possibly past the last element in use.\<close>

lemma mem_write_elems:
  assumes "uniform w xs" "uniform w ys" "i \<le> length xs"
    and fit: "(i + length ys) * w \<le> length (concat xs @ r)"
  shows "mem_write (concat xs @ r) (int i * int w) (concat ys) =
    Inr (concat (take i xs @ ys @ drop (i + length ys) xs) @ drop ((i + length ys - length xs) * w) r)"
proof -
  have [simp]: "length (concat xs) = length xs * w" "length (concat ys) = length ys * w"
    using assms by (simp_all add: length_concat_uniform)
  have 1: "i * w - length xs * w = 0" using assms(3) by simp
  have 2: "i * w + length ys * w - length xs * w = (i + length ys - length xs) * w"
    by (simp add: add_mult_distrib diff_mult_distrib)
  have 3: "drop (i * w + length ys * w) (concat xs) = concat (drop (i + length ys) xs)"
    using drop_concat_uniform [OF assms(1), of "i + length ys"] by (simp add: add_mult_distrib)
  have "mem_write (concat xs @ r) (int (i * w)) (concat ys) =
      Inr (take (i * w) (concat xs) @ concat ys @ concat (drop (i + length ys) xs) @
           drop ((i + length ys - length xs) * w) r)"
    using fit by (subst mem_write_nat) (auto simp: 1 2 3 add_mult_distrib)
  then show ?thesis using assms(1) by (simp add: take_concat_uniform)
qed

lemma mem_write_elem:
  assumes "uniform w xs" "length p = w" "i < length xs"
  shows "mem_write (concat xs @ r) (int i * int w) p = Inr (concat (xs[i := p]) @ r)"
proof -
  have "(i + 1) * w \<le> length xs * w" using assms(3) by (intro mult_le_mono1) simp
  then have "(i + length [p]) * w \<le> length (concat xs @ r)"
    using assms(1) by (simp add: length_concat_uniform)
  from mem_write_elems [OF assms(1) _ _ this] assms show ?thesis
    by (simp add: upd_conv_take_nth_drop)
qed

lemma uniform_update: "uniform w xs \<Longrightarrow> length p = w \<Longrightarrow> uniform w (xs[i := p])"
  by (auto simp: uniform_def dest!: set_update_subset_insert [THEN subsetD])

subsection \<open>Growing\<close>

definition zarray_limit :: nat where
  "zarray_limit = 1073741824"

text \<open>
  Doubling from any non-negative capacity reaches every request up to \<open>2 ^ 30\<close> without overflow,
  and overshoots by less than a factor of two (or allocates the minimum of eight).
\<close>

lemma zarray_grow_ok:
  assumes "0 \<le> alloc" "alloc < capacity" "capacity \<le> int zarray_limit"
  shows "\<exists>a. zarray_grow alloc capacity = Inr a \<and> capacity \<le> a \<and> a \<le> max 8 (2 * capacity - 1)"
  using assms
proof (induction alloc capacity rule: zarray_grow.induct)
  case (1 alloc capacity)
  let ?a = "if alloc * 2 < 8 then 8 else alloc * 2"
  have step: "cint (alloc * 2) = Inr (alloc * 2)"
    using "1.prems" by (intro cint_ok) (auto simp: INT_MIN_def INT_MAX_def zarray_limit_def)
  show ?case
  proof (cases "?a < capacity")
    case True
    have "0 \<le> ?a" using "1.prems"(1) by simp
    from "1.IH" [OF "1.prems"(2) step this True "1.prems"(3)] step "1.prems"(2)
    show ?thesis by (simp add: zarray_grow.simps [of alloc capacity])
  next
    case False
    then have "zarray_grow ?a capacity = Inr ?a" using zarray_grow.simps [of ?a capacity] by (simp only: if_False)
    then have "zarray_grow alloc capacity = Inr ?a"
      using step "1.prems"(2) by (simp add: zarray_grow.simps [of alloc capacity])
    with False "1.prems" show ?thesis by auto
  qed
qed

lemma zarray_ensure_capacity_rep:
  assumes rep: "zarray_rep za xs r" and c: "c \<le> int zarray_limit"
  shows "\<exists>za' r'. zarray_ensure_capacity junk za c = Inr za' \<and> zarray_rep za' xs r' \<and>
    za_el_sz za' = za_el_sz za \<and> c \<le> za_alloc za'"
proof (cases "c \<le> za_alloc za")
  case True
  with rep show ?thesis by (auto simp: zarray_ensure_capacity_def)
next
  case False
  let ?w = "za_el_sz za"
  have "0 \<le> za_alloc za" using rep by (simp add: zarray_rep_def)
  then obtain a where a: "zarray_grow (za_alloc za) c = Inr a" "c \<le> a" "a \<le> max 8 (2 * c - 1)"
    using zarray_grow_ok [of "za_alloc za" c] False c by auto
  have le: "a \<le> INT_MAX" using a(3) c by (auto simp: INT_MAX_def zarray_limit_def)
  have mono: "nat (za_alloc za) * ?w \<le> nat a * ?w"
    using False a(2) by (intro mult_le_mono1) simp
  have len: "length (concat xs @ r) \<le> nat a * ?w"
    using rep mono by (simp add: zarray_rep_def)
  have "mem_realloc junk (concat xs @ r) (nat a * ?w)
      = concat xs @ r @ map junk [length (concat xs @ r)..<nat a * ?w]"
    using len by (simp add: mem_realloc_def)
  moreover have "length (mem_realloc junk (za_data za) (nat a * ?w)) = nat a * ?w" by simp
  ultimately have "zarray_rep (za\<lparr>za_alloc := a, za_data := mem_realloc junk (za_data za) (nat a * ?w)\<rparr>) xs
      (r @ map junk [length (concat xs @ r)..<nat a * ?w])"
    using rep False a(2) le len unfolding zarray_rep_def by simp
  moreover have "zarray_ensure_capacity junk za c
      = Inr (za\<lparr>za_alloc := a, za_data := mem_realloc junk (za_data za) (nat a * ?w)\<rparr>)"
    using a(1) False by (simp add: zarray_ensure_capacity_def)
  ultimately show ?thesis using a(2) by (simp del: length_append) blast
qed

subsection \<open>The operations on the contents\<close>

lemma zarray_rep_fit:
  assumes "zarray_rep za xs r" "int n \<le> za_alloc za"
  shows "n * za_el_sz za \<le> length (concat xs @ r)"
proof -
  have "n * za_el_sz za \<le> nat (za_alloc za) * za_el_sz za" using assms(2) by (intro mult_le_mono1) simp
  then show ?thesis using assms(1) by (simp add: zarray_rep_def)
qed

lemma zarray_create_ok:
  "0 < w \<Longrightarrow> \<exists>za. zarray_create w = Inr za \<and> zarray_inv za \<and> za_el_sz za = w \<and> zarray_list za = []"
  by (simp add: zarray_create_def zarray_inv_def zarray_list_def chunks_def INT_MAX_def)

lemma zarray_rep_write:
  assumes "zarray_rep za xs r" "uniform (za_el_sz za) ys" "concat ys @ s = d"
    and "length d = length (za_data za)" "int (length ys) \<le> za_alloc za"
  shows "zarray_rep (za\<lparr>za_data := d, za_size := int (length ys)\<rparr>) ys s"
  using assms by (auto simp: zarray_rep_def)

lemma mem_read_arg: "length p = w \<Longrightarrow> mem_read p 0 (int w) = Inr p"
  using mem_read_nat [of 0 w p] by simp

text \<open>
  Room for one more element: the elements, a stale one \<open>g\<close> behind them, and the rest; whatever
  list of that many elements is then written there is the new contents.
\<close>

lemma zarray_reserve:
  assumes inv: "zarray_inv za" and "length (zarray_list za) < zarray_limit"
  obtains zb g r where
    "cint (za_size za + 1) = Inr (za_size za + 1)"
    "zarray_ensure_capacity junk za (za_size za + 1) = Inr zb"
    "za_el_sz zb = za_el_sz za" "za_size zb = int (length (zarray_list za))"
    "za_data zb = concat (zarray_list za @ [g]) @ r"
    "uniform (za_el_sz za) (zarray_list za @ [g])"
    "\<forall>ys. uniform (za_el_sz za) ys \<longrightarrow> length ys = Suc (length (zarray_list za)) \<longrightarrow>
       zarray_rep (zb\<lparr>za_data := concat ys @ r, za_size := int (length ys)\<rparr>) ys r"
proof -
  let ?xs = "zarray_list za" and ?c = "za_size za + 1" and ?n = "length (zarray_list za)" and ?w = "za_el_sz za"
  obtain r0 where "zarray_rep za ?xs r0" using inv by (rule zarray_inv_rep)
  moreover have c: "?c \<le> int zarray_limit" using assms by (simp add: zarray_size_list)
  ultimately obtain zb r where zb: "zarray_ensure_capacity junk za ?c = Inr zb" "zarray_rep zb ?xs r"
      "za_el_sz zb = ?w" "?c \<le> za_alloc zb"
    using zarray_ensure_capacity_rep by blast
  have alloc: "int (Suc ?n) \<le> za_alloc zb" using zb(4) inv by (simp add: zarray_size_list)
  have u: "uniform ?w ?xs" using zb by (simp add: zarray_rep_def)
  then have "?w \<le> length r"
    using zarray_rep_fit [OF zb(2) alloc] zb(3) by (simp add: length_concat_uniform)
  then have g: "uniform ?w (?xs @ [take ?w r])" using u by simp
  have "cint ?c = Inr ?c"
    using c inv by (intro cint_ok) (auto simp: zarray_inv_def INT_MIN_def INT_MAX_def zarray_limit_def)
  moreover have "zarray_rep (zb\<lparr>za_data := concat ys @ drop ?w r, za_size := int (length ys)\<rparr>) ys (drop ?w r)"
    if ys: "uniform ?w ys" "length ys = Suc ?n" for ys
    using that zb u alloc \<open>?w \<le> length r\<close> by (auto simp: zarray_rep_def length_concat_uniform)
  ultimately show thesis
    using zb g by (intro that [of zb "take ?w r" "drop ?w r"]) (auto simp: zarray_rep_def)
qed

lemma zarray_add_ok:
  assumes "zarray_inv za" "length p = za_el_sz za" "length (zarray_list za) < zarray_limit"
  shows "\<exists>za'. zarray_add junk za p = Inr za' \<and> zarray_inv za' \<and> za_el_sz za' = za_el_sz za \<and>
    zarray_list za' = zarray_list za @ [p]"
proof -
  let ?xs = "zarray_list za"
  obtain zb g r where zb:
    "cint (za_size za + 1) = Inr (za_size za + 1)"
    "zarray_ensure_capacity junk za (za_size za + 1) = Inr zb"
    "za_el_sz zb = za_el_sz za" "za_size zb = int (length ?xs)"
    "za_data zb = concat (?xs @ [g]) @ r" "uniform (za_el_sz za) (?xs @ [g])"
    "\<forall>ys. uniform (za_el_sz za) ys \<longrightarrow> length ys = Suc (length ?xs) \<longrightarrow>
       zarray_rep (zb\<lparr>za_data := concat ys @ r, za_size := int (length ys)\<rparr>) ys r"
    using assms(1,3) by (rule zarray_reserve [where junk = junk])
  have rep: "zarray_rep (zb\<lparr>za_data := concat (?xs @ [p]) @ r, za_size := int (length (?xs @ [p]))\<rparr>) (?xs @ [p]) r"
    using zb(6) assms(2) by (intro zb(7) [rule_format]) auto
  have "mem_write (za_data zb) (za_size zb * int (za_el_sz zb)) p = Inr (concat (?xs @ [p]) @ r)"
    using mem_write_elem [OF zb(6) assms(2), of "length ?xs" r] by (simp add: zb(3-5))
  then have "zarray_add junk za p = Inr (zb\<lparr>za_data := concat (?xs @ [p]) @ r, za_size := int (length (?xs @ [p]))\<rparr>)"
    using zb(1,2) by (simp add: zarray_add_def mem_read_arg assms(2) zb(3,4) add.commute)
  with zarray_rep_inv [OF rep] zarray_rep_list [OF rep] zb(3) show ?thesis by simp
qed

lemma zarray_index_bounds:
  "zarray_inv za \<Longrightarrow> i < length (zarray_list za) \<Longrightarrow> int i < za_size za"
  by (simp add: zarray_size_list)

lemma zarray_get_ok:
  assumes "zarray_inv za" "i < length (zarray_list za)"
  shows "zarray_get za (int i) = Inr (zarray_list za ! i)"
proof -
  obtain r where r: "zarray_rep za (zarray_list za) r" using assms(1) by (rule zarray_inv_rep)
  with assms mem_read_elem [of "za_el_sz za" "zarray_list za" i r] show ?thesis
    by (simp add: zarray_get_def zarray_rep_def)
qed

lemma zarray_set_ok:
  assumes "zarray_inv za" "i < length (zarray_list za)" "length p = za_el_sz za"
  shows "\<exists>za'. zarray_set za (int i) p = Inr (za', zarray_list za ! i) \<and> zarray_inv za' \<and>
    za_el_sz za' = za_el_sz za \<and> zarray_list za' = (zarray_list za)[i := p]"
proof -
  let ?xs = "zarray_list za"
  obtain r where r: "zarray_rep za ?xs r" using assms(1) by (rule zarray_inv_rep)
  then have u: "uniform (za_el_sz za) ?xs" by (simp add: zarray_rep_def)
  note w = mem_write_elem [OF u assms(3,2), of r]
  let ?d = "concat (?xs[i := p]) @ r"
  have "length ?d = length (za_data za)"
    using length_mem_write [OF w] r by (simp add: zarray_rep_def)
  then have "zarray_rep (za\<lparr>za_data := ?d, za_size := int (length (?xs[i := p]))\<rparr>) (?xs[i := p]) r"
    using r u assms(3) by (intro zarray_rep_write) (auto simp: zarray_rep_def uniform_update)
  note res = zarray_rep_inv [OF this] zarray_rep_list [OF this]
  have "za\<lparr>za_data := ?d, za_size := int (length (?xs[i := p]))\<rparr> = za\<lparr>za_data := ?d\<rparr>"
    using assms(1) by (simp add: zarray_size_list)
  with res have "zarray_inv (za\<lparr>za_data := ?d\<rparr>)" "zarray_list (za\<lparr>za_data := ?d\<rparr>) = ?xs[i := p]" by simp_all
  moreover have "zarray_set za (int i) p = Inr (za\<lparr>za_data := ?d\<rparr>, ?xs ! i)"
    using r w assms mem_read_elem [OF u assms(2), of r]
    by (simp add: zarray_set_def zarray_rep_def cmem)
  ultimately show ?thesis by simp
qed

text \<open>
  Removal: with \<open>shuffle\<close> the last element fills the hole, otherwise the tail moves down.
\<close>

definition list_remove :: "'a list \<Rightarrow> nat \<Rightarrow> bool \<Rightarrow> 'a list" where
  "list_remove xs i shuffle =
     (if shuffle then butlast (xs[i := last xs]) else take i xs @ drop (Suc i) xs)"

lemma uniform_list_remove: "uniform w xs \<Longrightarrow> uniform w (list_remove xs i s)"
  by (cases "xs = []") (auto simp: list_remove_def uniform_sub uniform_def
        dest!: in_set_butlastD set_update_subset_insert [THEN subsetD] in_set_takeD in_set_dropD)

lemma length_list_remove: "i < length xs \<Longrightarrow> length (list_remove xs i s) = length xs - 1"
  by (simp add: list_remove_def)

lemma mset_list_remove: "i < length xs \<Longrightarrow> mset (list_remove xs i s) = mset xs - {#xs ! i#}"
proof (cases s)
  case False
  assume i: "i < length xs"
  from arg_cong [OF id_take_nth_drop [OF i], of mset] False show ?thesis by (simp add: list_remove_def)
next
  case True
  assume i: "i < length xs"
  then have ne: "xs \<noteq> []" by auto
  have "mset (xs[i := last xs]) = add_mset (last xs) (mset xs - {#xs ! i#})" using i by (rule mset_update)
  moreover have "last (xs[i := last xs]) = last xs" using ne i by (simp add: last_list_update)
  moreover have "xs[i := last xs] = butlast (xs[i := last xs]) @ [last (xs[i := last xs])]"
    using ne by simp
  ultimately have "mset (butlast (xs[i := last xs])) = mset xs - {#xs ! i#}"
    by (metis add_mset_add_mset_same_iff mset.simps(2) mset_append add.commute add_mset_add_single mset_single_iff_right)
  with True show ?thesis by (simp add: list_remove_def)
qed

lemma zarray_rep_shrink:
  assumes "zarray_rep za (xs @ ys) r"
  shows "zarray_rep (za\<lparr>za_size := int (length xs)\<rparr>) xs (concat ys @ r)"
  using assms by (auto simp: zarray_rep_def)

lemma uniform_last: "uniform w xs \<Longrightarrow> xs \<noteq> [] \<Longrightarrow> length (last xs) = w"
  by (simp add: uniform_def)

text \<open>What is left of the elements, and behind them the one that fell out of use.\<close>

definition removal_bytes :: "bytes list \<Rightarrow> nat \<Rightarrow> bool \<Rightarrow> bytes list" where
  "removal_bytes xs i shuffle =
     (if shuffle then xs[i := last xs] else take i xs @ drop (Suc i) xs @ [last xs])"

lemma removal_bytes:
  assumes "i < length xs"
  shows "removal_bytes xs i shuffle = list_remove xs i shuffle @ [last (removal_bytes xs i shuffle)]"
    and "length (removal_bytes xs i shuffle) = length xs"
    and "uniform w xs \<Longrightarrow> uniform w (removal_bytes xs i shuffle)"
proof -
  have ne: "xs \<noteq> []" using assms by auto
  then show "removal_bytes xs i shuffle = list_remove xs i shuffle @ [last (removal_bytes xs i shuffle)]"
    by (simp add: removal_bytes_def list_remove_def)
  show "length (removal_bytes xs i shuffle) = length xs"
    using assms by (auto simp: removal_bytes_def)
  show "uniform w xs \<Longrightarrow> uniform w (removal_bytes xs i shuffle)"
    using ne by (simp add: removal_bytes_def uniform_sub uniform_update uniform_last)
qed

lemma removal_bytes_last: "xs \<noteq> [] \<Longrightarrow> removal_bytes xs (length xs - 1) shuffle = xs"
  by (cases xs rule: rev_cases) (auto simp: removal_bytes_def)

lemma mem_shuffle_elem:
  assumes u: "uniform w xs" and i: "i < length xs"
  shows "bindE (mem_read (concat xs @ r) (int (length xs - 1) * int w) (int w))
      (mem_write (concat xs @ r) (int i * int w)) = Inr (concat (removal_bytes xs i True) @ r)"
proof -
  have ne: "xs \<noteq> []" using i by auto
  have "mem_read (concat xs @ r) (int (length xs - 1) * int w) (int w) = Inr (last xs)"
    using mem_read_elem [OF u, of "length xs - 1" r] ne by (simp add: last_conv_nth)
  moreover have "mem_write (concat xs @ r) (int i * int w) (last xs) = Inr (concat (xs[i := last xs]) @ r)"
    using mem_write_elem [OF u _ i, of "last xs" r] u ne by (simp add: uniform_last)
  ultimately show ?thesis by (simp add: removal_bytes_def)
qed

lemma mem_compact_elem:
  assumes u: "uniform w xs" and i: "Suc i < length xs"
  shows "mem_move (concat xs @ r) (int i * int w) (int (Suc i) * int w) (int (length xs - Suc i) * int w)
    = Inr (concat (removal_bytes xs i False) @ r)"
proof -
  let ?t = "drop (Suc i) xs"
  have ne: "xs \<noteq> []" using i by auto
  have rd: "mem_read (concat xs @ r) (int (Suc i) * int w) (int (length xs - Suc i) * int w) = Inr (concat ?t)"
    using mem_read_elems [OF u, of "Suc i" "length xs - Suc i" r] i by simp
  have "(i + length ?t) * w \<le> length xs * w" using i by (intro mult_le_mono1) simp
  then have fit: "(i + length ?t) * w \<le> length (concat xs @ r)"
    using u by (metis length_append length_concat_uniform trans_le_add1)
  have "i + length ?t = length xs - 1" using i by simp
  then have "drop (i + length ?t) xs = [last xs]"
    using ne by (metis append_butlast_last_id append_eq_conv_conj length_butlast)
  then have "mem_write (concat xs @ r) (int i * int w) (concat ?t)
      = Inr (concat (take i xs @ ?t @ [last xs]) @ r)"
    using mem_write_elems [OF u uniform_sub(2) [OF u] _ fit] i by simp
  with rd show ?thesis by (simp add: mem_move_def removal_bytes_def)
qed

lemma zarray_remove_index_ok:
  assumes inv: "zarray_inv za" and i: "i < length (zarray_list za)"
  shows "\<exists>za'. zarray_remove_index za (int i) shuffle = Inr za' \<and> zarray_inv za' \<and>
    za_el_sz za' = za_el_sz za \<and> zarray_list za' = list_remove (zarray_list za) i shuffle"
proof -
  let ?xs = "zarray_list za" and ?w = "za_el_sz za" and ?n = "length (zarray_list za)"
  obtain r where r: "zarray_rep za ?xs r" using inv by (rule zarray_inv_rep)
  then have u: "uniform ?w ?xs" and d: "za_data za = concat ?xs @ r" and sz: "za_size za = int ?n"
    by (simp_all add: zarray_rep_def)
  define ys where "ys = removal_bytes ?xs i shuffle"
  note ys = removal_bytes [OF i, where shuffle = shuffle, folded ys_def]
  let ?d = "concat ys @ r"
  have last: "ys = ?xs" if "i = ?n - 1"
    using removal_bytes_last [of ?xs shuffle] that i unfolding ys_def by fastforce
  have conv: "int ?n - 1 = int (?n - 1)" "int i + 1 = int (Suc i)" "int ?n - int i - 1 = int (?n - Suc i)"
    using i by auto
  note shuffled = mem_shuffle_elem [OF u i, of r, folded conv]
    and compacted = mem_compact_elem [OF u, of i r, folded conv]
  have "zarray_remove_index za (int i) shuffle = Inr (za\<lparr>za_data := ?d, za_size := int (?n - 1)\<rparr>)"
  proof (cases "Suc i < ?n")
    case True
    then show ?thesis using sz shuffled compacted [OF True]
      by (cases shuffle) (simp_all add: zarray_remove_index_def d ys_def)
  next
    case False
    with i last have "\<not> int i < int ?n - 1" "\<not> 0 < int ?n - int i - 1" "ys = ?xs" by auto
    then show ?thesis using i sz by (simp add: zarray_remove_index_def Let_def d)
  qed
  moreover have "length ?d = length (za_data za)"
    using u ys(2) ys(3) [OF u] by (simp add: d length_concat_uniform)
  then have "zarray_rep (za\<lparr>za_data := ?d, za_size := int (length ys)\<rparr>) (list_remove ?xs i shuffle @ [last ys]) r"
    using r u ys(2,3) by (subst ys(1) [symmetric], intro zarray_rep_write) (auto simp: zarray_rep_def)
  from zarray_rep_shrink [OF this] have
    "zarray_rep (za\<lparr>za_data := ?d, za_size := int (?n - 1)\<rparr>) (list_remove ?xs i shuffle) (last ys @ r)"
    using i by (simp add: length_list_remove)
  ultimately show ?thesis using zarray_rep_inv zarray_rep_list by fastforce
qed

lemma zarray_scan_ok:
  assumes inv: "zarray_inv za" and p: "length p = za_el_sz za" and i: "i \<le> length (zarray_list za)"
  shows "zarray_scan za p (int i) =
    Inr (case find (\<lambda>k. zarray_list za ! k = p) [i..<length (zarray_list za)] of
           None \<Rightarrow> -1 | Some k \<Rightarrow> int k)"
  using i
proof (induction "length (zarray_list za) - i" arbitrary: i)
  case 0
  then show ?case using inv by (simp add: zarray_scan.simps [of za p "int i"] zarray_size_list)
next
  case (Suc n)
  obtain r where r: "zarray_rep za (zarray_list za) r" using inv by (rule zarray_inv_rep)
  have i: "i < length (zarray_list za)" using Suc(2) by simp
  have "mem_read (za_data za) (int i * int (za_el_sz za)) (int (za_el_sz za)) = Inr (zarray_list za ! i)"
    using mem_read_elem [of "za_el_sz za" "zarray_list za" i r] r i by (simp add: zarray_rep_def)
  moreover have "zarray_scan za p (int (Suc i)) =
      Inr (case find (\<lambda>k. zarray_list za ! k = p) [Suc i..<length (zarray_list za)] of
           None \<Rightarrow> -1 | Some k \<Rightarrow> int k)"
    using Suc i by (intro Suc.hyps(1)) simp_all
  moreover have "[i..<length (zarray_list za)] = i # [Suc i..<length (zarray_list za)]"
    using i by (rule upt_conv_Cons)
  ultimately show ?case
    using i inv p by (auto simp: zarray_scan.simps [of za p "int i"] zarray_size_list mem_read_arg add.commute)
qed

lemma find_index:
  assumes "find (\<lambda>k. xs ! k = p) [0..<length xs] = Some k"
  shows "k < length xs" "xs ! k = p" "\<forall>j<k. xs ! j \<noteq> p"
  using assms by (auto simp: find_Some_iff)

lemma find_no_index: "find (\<lambda>k. xs ! k = p) [0..<length xs] = None \<longleftrightarrow> p \<notin> set xs"
  by (auto simp: find_None_iff in_set_conv_nth)

lemma remove1_index:
  assumes "k < length xs" "xs ! k = p" "\<forall>j<k. xs ! j \<noteq> p"
  shows "remove1 p xs = take k xs @ drop (Suc k) xs"
proof -
  have "p \<notin> set (take k xs)" using assms(1,3) by (auto simp: in_set_conv_nth)
  then have "remove1 p (take k xs @ xs ! k # drop (Suc k) xs) = take k xs @ drop (Suc k) xs"
    using assms(2) by (simp add: remove1_append)
  then show ?thesis using id_take_nth_drop [OF assms(1)] by simp
qed

lemma zarray_contains_ok:
  "zarray_inv za \<Longrightarrow> length p = za_el_sz za \<Longrightarrow>
   zarray_contains za p = Inr (if p \<in> set (zarray_list za) then 1 else 0)"
  using zarray_scan_ok [of za p 0] find_no_index [of "zarray_list za" p]
  by (auto simp: zarray_contains_def split: option.splits)

lemma zarray_index_of_ok:
  assumes "zarray_inv za" "length p = za_el_sz za"
  shows "\<exists>i. zarray_index_of za p = Inr i \<and>
    (if p \<in> set (zarray_list za)
     then 0 \<le> i \<and> nat i < length (zarray_list za) \<and> zarray_list za ! nat i = p \<and>
          (\<forall>j < nat i. zarray_list za ! j \<noteq> p)
     else i = -1)"
proof (cases "find (\<lambda>k. zarray_list za ! k = p) [0..<length (zarray_list za)]")
  case None
  with zarray_scan_ok [of za p 0] assms find_no_index [of "zarray_list za" p] show ?thesis
    by (simp add: zarray_index_of_def)
next
  case (Some k)
  note k = find_index [OF Some]
  then have "p \<in> set (zarray_list za)" by auto
  with zarray_scan_ok [of za p 0] assms Some k show ?thesis by (simp add: zarray_index_of_def)
qed

text \<open>The first equal element goes; with compaction this is \<open>remove1\<close>.\<close>

lemma zarray_remove_value_ok:
  assumes inv: "zarray_inv za" and p: "length p = za_el_sz za"
  shows "\<exists>za'. zarray_remove_value za p shuffle
      = Inr (za', if p \<in> set (zarray_list za) then 1 else 0) \<and> zarray_inv za' \<and>
    za_el_sz za' = za_el_sz za \<and> mset (zarray_list za') = mset (zarray_list za) - {#p#} \<and>
    (\<not> shuffle \<longrightarrow> zarray_list za' = remove1 p (zarray_list za))"
proof (cases "find (\<lambda>k. zarray_list za ! k = p) [0..<length (zarray_list za)]")
  case None
  then have "p \<notin> set (zarray_list za)" by (simp add: find_no_index)
  moreover have "zarray_remove_value za p shuffle = Inr (za, 0)"
    using zarray_scan_ok [OF inv p, of 0] None by (simp add: zarray_remove_value_def)
  ultimately show ?thesis using inv by (simp add: remove1_idem)
next
  case (Some k)
  note k = find_index [OF Some]
  have "zarray_scan za p 0 = Inr (int k)" using zarray_scan_ok [OF inv p, of 0] Some by simp
  moreover obtain za' where "zarray_remove_index za (int k) shuffle = Inr za'" "zarray_inv za'"
    "za_el_sz za' = za_el_sz za" "zarray_list za' = list_remove (zarray_list za) k shuffle"
    using zarray_remove_index_ok [OF inv k(1)] by blast
  moreover have "p \<in> set (zarray_list za)" using k by auto
  ultimately show ?thesis
    using mset_list_remove [OF k(1), of shuffle] remove1_index [OF k] k(2)
    by (auto simp: zarray_remove_value_def list_remove_def)
qed

lemma zarray_insert_ok:
  assumes inv: "zarray_inv za" and p: "length p = za_el_sz za" and i: "i \<le> length (zarray_list za)"
    and "length (zarray_list za) < zarray_limit"
  shows "\<exists>za'. zarray_insert junk za (int i) p = Inr za' \<and> zarray_inv za' \<and> za_el_sz za' = za_el_sz za \<and>
    zarray_list za' = take i (zarray_list za) @ p # drop i (zarray_list za)"
proof -
  let ?xs = "zarray_list za" and ?w = "int (za_el_sz za)" and ?n = "length (zarray_list za)"
  obtain zb g r where zb:
    "cint (za_size za + 1) = Inr (za_size za + 1)"
    "zarray_ensure_capacity junk za (za_size za + 1) = Inr zb"
    "za_el_sz zb = za_el_sz za" "za_size zb = int (length ?xs)"
    "za_data zb = concat (?xs @ [g]) @ r" and u: "uniform (za_el_sz za) (?xs @ [g])"
    and fill: "\<forall>ys. uniform (za_el_sz za) ys \<longrightarrow> length ys = Suc (length ?xs) \<longrightarrow>
       zarray_rep (zb\<lparr>za_data := concat ys @ r, za_size := int (length ys)\<rparr>) ys r"
    using inv assms(4) by (rule zarray_reserve [where junk = junk])
  let ?t = "drop i ?xs" and ?ys = "take i ?xs @ p # drop i ?xs"
  define zs where "zs = take (Suc i) (?xs @ [g]) @ ?t"
  have rd: "mem_read (za_data zb) (int i * ?w) (int (?n - i) * ?w) = Inr (concat ?t)"
    using mem_read_elems [OF u, of i "?n - i" r] i by (simp add: zb(5))
  have "(Suc i + length ?t) * za_el_sz za \<le> length (concat (?xs @ [g]) @ r)"
    using length_concat_uniform [OF u] i by simp
  from mem_write_elems [OF u _ _ this]
  have "mem_write (za_data zb) (int (Suc i) * ?w) (concat ?t) = Inr (concat zs @ r)"
    using i u by (simp add: zb(5) zs_def uniform_sub)
  moreover have "mem_write (concat zs @ r) (int i * ?w) p = Inr (concat ?ys @ r)"
    using mem_write_elem [of "za_el_sz za" zs p i r] u p i
    by (simp add: zs_def uniform_sub list_update_append take_Suc_conv_app_nth)
  ultimately have "zarray_insert junk za (int i) p = Inr (zb\<lparr>za_data := concat ?ys @ r, za_size := int (length ?ys)\<rparr>)"
    using zb(1-4) rd i p inv
    by (simp add: zarray_insert_def Let_def mem_move_def mem_read_arg zarray_size_list add.commute)
  moreover have rep: "zarray_rep (zb\<lparr>za_data := concat ?ys @ r, za_size := int (length ?ys)\<rparr>) ?ys r"
    using u p i by (intro fill [rule_format]) (simp_all add: uniform_sub)
  ultimately show ?thesis using zarray_rep_inv [OF rep] zarray_rep_list [OF rep] zb(3) by simp
qed

lemma zarray_add_range_ok:
  assumes dest: "zarray_inv dest" and src: "zarray_inv source" and w: "za_el_sz dest = za_el_sz source"
    and se: "s \<le> e" "e \<le> length (zarray_list source)"
    and lim: "length (zarray_list dest) + (e - s) \<le> zarray_limit"
  shows "\<exists>za'. zarray_add_range junk dest source (int s) (int e) = Inr za' \<and> zarray_inv za' \<and>
    za_el_sz za' = za_el_sz dest \<and>
    zarray_list za' = zarray_list dest @ take (e - s) (drop s (zarray_list source))"
proof (cases "s = e")
  case True
  with dest src w se show ?thesis by (simp add: zarray_add_range_def zarray_size_list)
next
  case False
  let ?xs = "zarray_list dest" and ?ys = "take (e - s) (drop s (zarray_list source))"
  let ?c = "za_size dest + (int e - int s)" and ?w = "za_el_sz dest"
  obtain r0 where "zarray_rep dest ?xs r0" using dest by (rule zarray_inv_rep)
  moreover have c: "?c \<le> int zarray_limit" using dest lim se by (simp add: zarray_size_list)
  ultimately obtain zb r where zb: "zarray_ensure_capacity junk dest ?c = Inr zb" "zarray_rep zb ?xs r"
      "za_el_sz zb = ?w" "?c \<le> za_alloc zb"
    using zarray_ensure_capacity_rep by blast
  obtain r' where r': "zarray_rep source (zarray_list source) r'" using src by (rule zarray_inv_rep)
  have us: "uniform ?w (zarray_list source)" and u: "uniform ?w ?xs"
    using r' zb w by (simp_all add: zarray_rep_def)
  have ny: "length ?ys = e - s" using se by simp
  have alloc: "int (length (?xs @ ?ys)) \<le> za_alloc zb"
    using zb(4) dest se ny by (simp add: zarray_size_list)
  have "mem_read (za_data source) (int s * int ?w) (int (e - s) * int ?w) = Inr (concat ?ys)"
    using mem_read_elems [OF us, of s "e - s" r'] se r' by (simp add: zarray_rep_def)
  moreover have wr: "mem_write (za_data zb) (za_size zb * int ?w) (concat ?ys)
      = Inr (concat (?xs @ ?ys) @ drop (length ?ys * ?w) r)"
    using mem_write_elems [OF u uniform_sub(1) [OF uniform_sub(2) [OF us]] order_refl, of "e - s" s r]
      zarray_rep_fit [OF zb(2) alloc] zb(2,3) by (simp add: zarray_rep_def)
  moreover have "cint ?c = Inr ?c"
    using c dest se by (intro cint_ok) (auto simp: zarray_inv_def INT_MIN_def INT_MAX_def zarray_limit_def)
  moreover have "za_size zb + (int e - int s) = int (length (?xs @ ?ys))"
    using zb(2) ny se by (simp add: zarray_rep_def)
  ultimately have "zarray_add_range junk dest source (int s) (int e)
      = Inr (zb\<lparr>za_data := concat (?xs @ ?ys) @ drop (length ?ys * ?w) r, za_size := int (length (?xs @ ?ys))\<rparr>)"
    using zb(1,3) w se False src by (simp add: zarray_add_range_def Let_def zarray_size_list)
  moreover have rep: "zarray_rep (zb\<lparr>za_data := concat (?xs @ ?ys) @ drop (length ?ys * ?w) r,
      za_size := int (length (?xs @ ?ys))\<rparr>) (?xs @ ?ys) (drop (length ?ys * ?w) r)"
    using zb(2,3) u us alloc length_mem_write [OF wr]
    by (intro zarray_rep_write) (auto simp: uniform_sub)
  ultimately show ?thesis using zarray_rep_inv [OF rep] zarray_rep_list [OF rep] zb(3) by simp
qed

lemma zarray_truncate_ok:
  assumes "zarray_inv za" "n \<le> length (zarray_list za)"
  shows "\<exists>za'. zarray_truncate za (int n) = Inr za' \<and> zarray_inv za' \<and> za_el_sz za' = za_el_sz za \<and>
    zarray_list za' = take n (zarray_list za)"
proof -
  obtain r where "zarray_rep za (take n (zarray_list za) @ drop n (zarray_list za)) r"
    using assms(1) by (auto elim: zarray_inv_rep)
  from zarray_rep_shrink [OF this] have
    "zarray_rep (za\<lparr>za_size := int n\<rparr>) (take n (zarray_list za)) (concat (drop n (zarray_list za)) @ r)"
    using assms(2) by simp
  with zarray_rep_inv zarray_rep_list assms show ?thesis
    by (simp add: zarray_truncate_def zarray_size_list)
qed

lemma zarray_clear_ok: "zarray_inv za \<Longrightarrow> zarray_inv (zarray_clear za) \<and> zarray_list (zarray_clear za) = []"
  by (auto simp: zarray_clear_def zarray_inv_def zarray_list_def chunks_def)

lemma zarray_map_from_ok:
  assumes "zarray_inv za" "i \<le> length (zarray_list za)" "\<And>e. length (f e) = length e"
  shows "\<exists>za'. zarray_map_from f za (int i) = Inr za' \<and> zarray_inv za' \<and> za_el_sz za' = za_el_sz za \<and>
    zarray_list za' = take i (zarray_list za) @ map f (drop i (zarray_list za))"
  using assms(1,2)
proof (induction "length (zarray_list za) - i" arbitrary: za i)
  case 0
  then show ?case by (simp add: zarray_map_from.simps [of f za "int i"] zarray_size_list)
next
  case (Suc n)
  let ?xs = "zarray_list za" and ?w = "za_el_sz za"
  obtain r where r: "zarray_rep za ?xs r" using Suc.prems(1) by (rule zarray_inv_rep)
  have i: "i < length ?xs" using Suc(2) by simp
  have u: "uniform ?w ?xs" and d: "za_data za = concat ?xs @ r" using r by (simp_all add: zarray_rep_def)
  have fl: "length (f (?xs ! i)) = ?w" using uniform_nth [OF u i] assms(3) by simp
  let ?za = "za\<lparr>za_data := concat (?xs[i := f (?xs ! i)]) @ r\<rparr>"
  have step: "zarray_map_from f za (int i) = zarray_map_from f ?za (int (Suc i))"
    using mem_read_elem [OF u i, of r] mem_write_elem [OF u fl i, of r] i Suc.prems(1)
    by (simp add: zarray_map_from.simps [of f za "int i"] Let_def d zarray_size_list add.commute)
  obtain za' where "zarray_set za (int i) (f (?xs ! i)) = Inr (za', ?xs ! i)" "zarray_inv za'"
      "za_el_sz za' = ?w" "zarray_list za' = ?xs[i := f (?xs ! i)]"
    using zarray_set_ok [OF Suc.prems(1) i fl] by blast
  moreover have "zarray_set za (int i) (f (?xs ! i)) = Inr (?za, ?xs ! i)"
    using mem_read_elem [OF u i, of r] mem_write_elem [OF u fl i, of r] i Suc.prems(1) fl
    by (simp add: zarray_set_def Let_def d zarray_size_list mem_read_arg)
  ultimately have za: "zarray_inv ?za" "za_el_sz ?za = ?w" "zarray_list ?za = ?xs[i := f (?xs ! i)]" by auto
  have "n = length (zarray_list ?za) - Suc i" "Suc i \<le> length (zarray_list ?za)"
    using Suc(2) i by (simp_all add: za(3))
  from Suc.hyps(1) [OF this(1) za(1) this(2)]
  obtain zc where "zarray_map_from f ?za (int (Suc i)) = Inr zc" "zarray_inv zc" "za_el_sz zc = ?w"
      "zarray_list zc = take (Suc i) (?xs[i := f (?xs ! i)]) @ map f (drop (Suc i) (?xs[i := f (?xs ! i)]))"
    unfolding za(2,3) by blast
  moreover have "drop i ?xs = ?xs ! i # drop (Suc i) ?xs" using i by (simp add: Cons_nth_drop_Suc)
  ultimately show ?case using i step by (simp add: take_Suc_conv_app_nth)
qed

subsection \<open>Rounding up to a power of two\<close>

lemma smeared_1: "smeared 1 x x"
  by (simp add: smeared_def)

lemma iceillog2_smeared:
  assumes "\<not> bit (v - 1) 31"
  shows "\<exists>y. iceillog2 v = y + 1 \<and> smeared 32 (v - 1) y"
proof -
  note step = smeared_step [OF _ assms]
  define y1 where "y1 = (v - 1) OR signed_drop_bit 1 (v - 1)"
  define y2 where "y2 = y1 OR signed_drop_bit 2 y1"
  define y3 where "y3 = y2 OR signed_drop_bit 4 y2"
  define y4 where "y4 = y3 OR signed_drop_bit 8 y3"
  define y5 where "y5 = y4 OR signed_drop_bit 16 y4"
  have "smeared 2 (v - 1) y1" using step [OF smeared_1] by (simp add: y1_def)
  from step [OF this] have "smeared 4 (v - 1) y2" by (simp add: y2_def)
  from step [OF this] have "smeared 8 (v - 1) y3" by (simp add: y3_def)
  from step [OF this] have "smeared 16 (v - 1) y4" by (simp add: y4_def)
  from step [OF this] have "smeared 32 (v - 1) y5" by (simp add: y5_def)
  then show ?thesis
    unfolding iceillog2_def Let_def y5_def y4_def y3_def y2_def y1_def by blast
qed

lemma iceillog2_power:
  assumes "0 < m" "m \<le> zarray_limit"
  shows "\<exists>k. unat (iceillog2 (of_nat m)) = 2 ^ k \<and> m \<le> 2 ^ k \<and> 2 ^ k < 2 * m"
proof -
  let ?x = "of_nat m - 1 :: 32 word"
  have "?x = of_nat (m - 1)" using assms(1) by simp
  moreover have lt: "m - 1 < 2 ^ 31" using assms(2) by (simp add: zarray_limit_def)
  ultimately have x: "unat ?x = m - 1" by (simp add: unat_of_nat take_bit_nat_eq_self)
  have "\<not> bit (unat ?x) 31" unfolding x bit_iff_odd using lt by simp
  then have "\<not> bit ?x 31" by (simp add: bit_unsigned_iff)
  then obtain y where y: "iceillog2 (of_nat m) = y + 1" "smeared 32 ?x y"
    using iceillog2_smeared by blast
  show ?thesis
  proof (cases "?x = 0")
    case True
    then have "m = 1" using x assms(1) by simp
    moreover have "y = 0" using y(2) True by (intro bit_word_eqI) (simp add: smeared_def)
    ultimately show ?thesis using y(1) by (intro exI [of _ 0]) simp
  next
    case False
    from smeared_top [OF y(2) this] obtain k where
      k: "k < 32" "2 ^ k \<le> m - 1" "m - 1 < 2 ^ Suc k" "y = mask (Suc k)" unfolding x by blast
    have "(2::nat) ^ k < 2 ^ 30" using k(2) assms by (simp add: zarray_limit_def)
    then have "k < 30" by (simp only: power_strict_increasing_iff)
    have "y + 1 = 2 ^ Suc k" by (simp only: k(4) mask_eq_exp_minus_1) simp
    moreover have "unat ((2 :: 32 word) ^ Suc k) = 2 ^ Suc k"
    proof -
      have "(2 :: nat) ^ Suc k < 2 ^ 32" using \<open>k < 30\<close> by (intro power_strict_increasing) auto
      then have "unat (of_nat (2 ^ Suc k) :: 32 word) = 2 ^ Suc k"
        by (intro of_nat_inverse [OF refl]) simp
      then show ?thesis by simp
    qed
    ultimately show ?thesis using k(2,3) assms(1) y(1) by (intro exI [of _ "Suc k"]) auto
  qed
qed

lemma sint_power_small: "k \<le> 30 \<Longrightarrow> unat (v :: 32 word) = 2 ^ k \<Longrightarrow> sint v = 2 ^ k"
proof -
  assume k: "k \<le> 30" and v: "unat v = 2 ^ k"
  have "(2::nat) ^ k \<le> 2 ^ 30" using k by (intro power_increasing) auto
  then have "unat v < 2 ^ 31" by (simp add: v)
  then have "int (unat v) < 2 ^ 31" by (metis of_nat_less_iff of_nat_numeral of_nat_power)
  then have "uint v < 2 ^ 31" "- (2 ^ 31) \<le> uint v" by (simp_all add: order_trans [OF _ uint_ge_0])
  then have "signed_take_bit 31 (uint v) = uint v" by (metis signed_take_bit_int_eq_self)
  then have "sint v = int (unat v)" by (simp add: sint_uint)
  then show ?thesis by (simp only: v) simp
qed

lemma mem_fill:
  assumes "length bs \<le> n"
  shows "mem_write (mem_realloc junk [] n) 0 bs = Inr (bs @ map junk [length bs..<n])"
  using mem_write_nat [of 0 bs "mem_realloc junk [] n"] assms
  by (simp add: mem_realloc_def drop_map)

lemma zarray_fill_fits:
  assumes "uniform w xs" "int (length xs) \<le> a"
  shows "length (concat xs) \<le> nat a * w"
proof -
  have "length xs \<le> nat a" using assms(2) by arith
  then show ?thesis using assms(1) by (simp add: length_concat_uniform)
qed

lemma zarray_rep_fill:
  assumes "0 < w" "uniform w xs" "int (length xs) \<le> a" "a \<le> INT_MAX"
  shows "zarray_rep \<lparr>za_el_sz = w, za_size = int (length xs), za_alloc = a,
      za_data = concat xs @ map junk [length (concat xs)..<nat a * w]\<rparr> xs
      (map junk [length (concat xs)..<nat a * w])"
  using assms zarray_fill_fits [OF assms(2,3)] by (auto simp: zarray_rep_def)

lemma zarray_copy_ok:
  assumes "zarray_inv za"
  shows "\<exists>zb. zarray_copy junk za = Inr zb \<and> zarray_inv zb \<and> za_el_sz zb = za_el_sz za \<and>
    zarray_list zb = zarray_list za"
proof -
  let ?xs = "zarray_list za" and ?w = "za_el_sz za"
  obtain r where r: "zarray_rep za ?xs r" using assms by (rule zarray_inv_rep)
  then have u: "uniform ?w ?xs" and d: "za_data za = concat ?xs @ r" by (simp_all add: zarray_rep_def)
  have rep: "zarray_rep \<lparr>za_el_sz = ?w, za_size = int (length ?xs), za_alloc = za_alloc za,
      za_data = concat ?xs @ map junk [length (concat ?xs)..<nat (za_alloc za) * ?w]\<rparr> ?xs
      (map junk [length (concat ?xs)..<nat (za_alloc za) * ?w])"
    and le: "length (concat ?xs) \<le> nat (za_alloc za) * ?w"
    using zarray_rep_fill [OF _ u, of "za_alloc za" junk] zarray_fill_fits [OF u, of "za_alloc za"] r
    by (simp_all add: zarray_rep_def)
  have "mem_read (za_data za) 0 (za_size za * int ?w) = Inr (concat ?xs)"
    using mem_read_elems [OF u, of 0 "length ?xs" r] assms by (simp add: d zarray_size_list)
  then have "zarray_copy junk za = Inr \<lparr>za_el_sz = ?w, za_size = int (length ?xs), za_alloc = za_alloc za,
      za_data = concat ?xs @ map junk [length (concat ?xs)..<nat (za_alloc za) * ?w]\<rparr>"
    using mem_fill [OF le, of junk] assms by (simp add: zarray_copy_def zarray_size_list)
  then show ?thesis using zarray_rep_inv [OF rep] zarray_rep_list [OF rep] by simp
qed

lemma iceillog2_alloc:
  assumes "n \<le> zarray_limit"
  shows "int n \<le> sint (iceillog2 (word_of_int (int n))) \<and> sint (iceillog2 (word_of_int (int n))) \<le> INT_MAX"
proof (cases "n = 0")
  case True
  have "iceillog2 (word_of_int 0) = 0" by (simp add: iceillog2_def)
  with True show ?thesis by (simp add: INT_MAX_def)
next
  case False
  then obtain k where k: "unat (iceillog2 (of_nat n)) = 2 ^ k" "n \<le> 2 ^ k" "2 ^ k < 2 * n"
    using iceillog2_power [of n] assms by auto
  have "(2::nat) ^ k < 2 ^ 31" using k(3) assms by (simp add: zarray_limit_def)
  then have "k < 31" by (simp only: power_strict_increasing_iff)
  then have s: "sint (iceillog2 (of_nat n)) = 2 ^ k" using k(1) by (intro sint_power_small) auto
  have "int n \<le> 2 ^ k" using k(2) by (metis of_nat_le_iff of_nat_numeral of_nat_power)
  moreover have "(2::int) ^ k < 2 ^ 31" using \<open>k < 31\<close> by (intro power_strict_increasing) auto
  ultimately show ?thesis using s by (simp add: INT_MAX_def)
qed

lemma zarray_copy_subset_ok:
  assumes inv: "zarray_inv za" and se: "s \<le> e" "e \<le> length (zarray_list za)" "e - s \<le> zarray_limit"
  shows "\<exists>zb. zarray_copy_subset junk za (int s) (int e) = Inr zb \<and> zarray_inv zb \<and>
    za_el_sz zb = za_el_sz za \<and> zarray_list zb = take (e - s) (drop s (zarray_list za))"
proof -
  let ?xs = "zarray_list za" and ?w = "za_el_sz za" and ?ys = "take (e - s) (drop s (zarray_list za))"
  obtain r where r: "zarray_rep za ?xs r" using inv by (rule zarray_inv_rep)
  then have u: "uniform ?w ?xs" and d: "za_data za = concat ?xs @ r" and w: "0 < ?w" by (simp_all add: zarray_rep_def)
  define a where "a = sint (iceillog2 (word_of_int (int (e - s))))"
  have len: "length ?ys = e - s" using se by simp
  have a: "int (length ?ys) \<le> a" "a \<le> INT_MAX" using iceillog2_alloc [OF se(3)] by (auto simp: len a_def)
  have uy: "uniform ?w ?ys" using u by (simp add: uniform_sub)
  note fill = zarray_rep_fill [OF w uy a, of junk]
  have "mem_read (za_data za) (int s * int ?w) (int (e - s) * int ?w) = Inr (concat ?ys)"
    using mem_read_elems [OF u, of s "e - s" r] se by (simp add: d)
  moreover have "cint (int e - int s) = Inr (int (e - s))"
    using se by (subst cint_ok) (auto simp: INT_MIN_def INT_MAX_def zarray_limit_def)
  ultimately have "zarray_copy_subset junk za (int s) (int e) = Inr \<lparr>za_el_sz = ?w, za_size = int (length ?ys),
      za_alloc = a, za_data = concat ?ys @ map junk [length (concat ?ys)..<nat a * ?w]\<rparr>"
    using mem_fill [OF zarray_fill_fits [OF uy a(1)], of junk] len by (simp add: zarray_copy_subset_def Let_def a_def del: of_nat_diff)
  then show ?thesis using zarray_rep_inv [OF fill] zarray_rep_list [OF fill] by simp
qed

subsection \<open>The growable-list interface\<close>

text \<open>
  What the users of an array rely on when they only collect elements: it starts empty and
  \<open>push\<close> appends. The provider bounds how many elements fit.
\<close>

locale collector =
  fixes create :: "nat \<Rightarrow> cerr + 'v" and push :: "'v \<Rightarrow> bytes \<Rightarrow> cerr + 'v"
    and elems :: "'v \<Rightarrow> bytes list" and width :: "'v \<Rightarrow> nat" and inv :: "'v \<Rightarrow> bool" and limit :: nat
  assumes create_ok: "0 < w \<Longrightarrow> \<exists>v. create w = Inr v \<and> inv v \<and> width v = w \<and> elems v = []"
    and push_ok: "inv v \<Longrightarrow> length p = width v \<Longrightarrow> length (elems v) < limit \<Longrightarrow>
      \<exists>v'. push v p = Inr v' \<and> inv v' \<and> width v' = width v \<and> elems v' = elems v @ [p]"
begin

lemma push_list:
  assumes "inv v" "uniform (width v) ps" "length (elems v) + length ps \<le> limit"
  shows "\<exists>v'. foldE push ps v = Inr v' \<and> inv v' \<and> width v' = width v \<and> elems v' = elems v @ ps"
  using assms
proof (induction ps arbitrary: v)
  case (Cons p ps)
  then obtain u where u: "push v p = Inr u" "inv u" "width u = width v" "elems u = elems v @ [p]"
    using push_ok [of v p] by auto
  with Cons.prems have "uniform (width u) ps" "length (elems u) + length ps \<le> limit" by simp_all
  from Cons.IH [OF u(2) this] u show ?case by auto
qed simp

lemma collect:
  assumes "0 < w" "uniform w ps" "length ps \<le> limit"
  shows "\<exists>v. bindE (create w) (foldE push ps) = Inr v \<and> inv v \<and> width v = w \<and> elems v = ps"
proof -
  obtain v where "create w = Inr v" "inv v" "width v = w" "elems v = []" using create_ok assms(1) by blast
  with push_list [of v ps] assms show ?thesis by auto
qed

end

interpretation za: collector zarray_create "zarray_add junk" zarray_list za_el_sz zarray_inv zarray_limit
  for junk
  by unfold_locales (simp_all add: zarray_create_ok zarray_add_ok)

subsection \<open>Sequences of operations\<close>

text \<open>
  A client's calls on one array, and what each is to do to the list of elements. A call outside
  its contract (an index out of range, an element of the wrong width, an array at its size
  limit) has no specified effect.
\<close>

datatype zop =
  ZAdd bytes | ZInsert nat bytes | ZSet nat bytes | ZRemove nat bool | ZRemoveValue bytes |
  ZTruncate nat | ZClear

fun zop_spec :: "nat \<Rightarrow> bytes list \<Rightarrow> zop \<Rightarrow> bytes list option" where
  "zop_spec w xs (ZAdd p) =
     (if length p = w \<and> length xs < zarray_limit then Some (xs @ [p]) else None)"
| "zop_spec w xs (ZInsert i p) =
     (if length p = w \<and> length xs < zarray_limit \<and> i \<le> length xs
      then Some (take i xs @ p # drop i xs) else None)"
| "zop_spec w xs (ZSet i p) = (if length p = w \<and> i < length xs then Some (xs[i := p]) else None)"
| "zop_spec w xs (ZRemove i s) = (if i < length xs then Some (list_remove xs i s) else None)"
| "zop_spec w xs (ZRemoveValue p) = (if length p = w then Some (remove1 p xs) else None)"
| "zop_spec w xs (ZTruncate n) = (if n \<le> length xs then Some (take n xs) else None)"
| "zop_spec w xs ZClear = Some []"

fun zop_run :: "(nat \<Rightarrow> u8) \<Rightarrow> zarray \<Rightarrow> zop \<Rightarrow> cerr + zarray" where
  "zop_run junk za (ZAdd p) = zarray_add junk za p"
| "zop_run junk za (ZInsert i p) = zarray_insert junk za (int i) p"
| "zop_run junk za (ZSet i p) = bindE (zarray_set za (int i) p) (\<lambda>(za', _). Inr za')"
| "zop_run junk za (ZRemove i s) = zarray_remove_index za (int i) s"
| "zop_run junk za (ZRemoveValue p) = bindE (zarray_remove_value za p False) (\<lambda>(za', _). Inr za')"
| "zop_run junk za (ZTruncate n) = zarray_truncate za (int n)"
| "zop_run junk za ZClear = Inr (zarray_clear za)"

fun zops_spec :: "nat \<Rightarrow> bytes list \<Rightarrow> zop list \<Rightarrow> bytes list option" where
  "zops_spec w xs [] = Some xs"
| "zops_spec w xs (z # zs) = (case zop_spec w xs z of None \<Rightarrow> None | Some ys \<Rightarrow> zops_spec w ys zs)"

lemma zop_refines:
  assumes "zarray_inv za" "zop_spec (za_el_sz za) (zarray_list za) z = Some ys"
  shows "\<exists>za'. zop_run junk za z = Inr za' \<and> zarray_inv za' \<and> za_el_sz za' = za_el_sz za \<and> zarray_list za' = ys"
proof (cases z)
  case (ZSet i p)
  with assms zarray_set_ok [of za i p] show ?thesis by (auto split: if_splits)
next
  case (ZRemoveValue p)
  with assms zarray_remove_value_ok [of za p False] show ?thesis by (auto split: if_splits)
next
  case ZClear
  with assms zarray_clear_ok [of za] show ?thesis by (simp add: zarray_clear_def)
qed (use assms in \<open>auto simp: zarray_add_ok zarray_insert_ok zarray_remove_index_ok zarray_truncate_ok
       split: if_splits\<close>)

lemma zops_refine:
  assumes "zarray_inv za" "zops_spec (za_el_sz za) (zarray_list za) zs = Some ys"
  shows "\<exists>za'. foldE (zop_run junk) zs za = Inr za' \<and> zarray_inv za' \<and> zarray_list za' = ys"
  using assms
proof (induction zs arbitrary: za)
  case (Cons z zs)
  then obtain xs where xs: "zop_spec (za_el_sz za) (zarray_list za) z = Some xs"
      "zops_spec (za_el_sz za) xs zs = Some ys"
    by (auto split: option.splits)
  obtain zb where "zop_run junk za z = Inr zb" "zarray_inv zb" "za_el_sz zb = za_el_sz za" "zarray_list zb = xs"
    using zop_refines [OF Cons.prems(1) xs(1)] by blast
  with Cons.IH [of zb] xs(2) show ?case by simp
qed simp

subsection \<open>Properties\<close>

text \<open>C23: Any sequence of calls on a new array, each within its contract, runs without a failed assertion, an
  access outside the buffer or an overflow, and leaves exactly the list of elements that the
  sequence of list operations gives.\<close>

theorem zarray_ops_correct:
  assumes "0 < w" "zops_spec w [] zs = Some ys"
  shows "\<exists>za. bindE (zarray_create w) (foldE (zop_run junk) zs) = Inr za \<and> zarray_inv za \<and> zarray_list za = ys"
proof -
  obtain za where "zarray_create w = Inr za" "zarray_inv za" "za_el_sz za = w" "zarray_list za = []"
    using zarray_create_ok [OF assms(1)] by blast
  with zops_refine [of za zs ys junk] assms(2) show ?thesis by simp
qed

lemma zarray_ops_correct_witness:
  "\<exists>za. bindE (zarray_create 2) (foldE (zop_run (\<lambda>_. 0)) [ZAdd [1, 2], ZInsert 0 [3, 4], ZAdd [5, 6], ZRemove 1 False])
     = Inr za \<and> zarray_inv za \<and> zarray_list za = [[3, 4], [5, 6]]"
  by (rule zarray_ops_correct) (simp_all add: zarray_limit_def list_remove_def)

text \<open>Copying a range of an array copies exactly the elements of the range, into an array with room for them
  although its capacity is computed by the bit-smearing \<open>iceillog2\<close>.\<close>

theorem zarray_copy_subset_correct:
  assumes "zarray_inv za" "s \<le> e" "e \<le> length (zarray_list za)" "e - s \<le> zarray_limit"
  shows "\<exists>zb. zarray_copy_subset junk za (int s) (int e) = Inr zb \<and> zarray_inv zb \<and>
    za_el_sz zb = za_el_sz za \<and> zarray_list zb = take (e - s) (drop s (zarray_list za))"
  by (rule zarray_copy_subset_ok [OF assms])

lemma zarray_copy_subset_correct_witness:
  "\<exists>zb. zarray_copy_subset (\<lambda>_. 0) \<lparr>za_el_sz = 1, za_size = 3, za_alloc = 4, za_data = [7, 8, 9, 0]\<rparr> (int 1) (int 3) = Inr zb \<and>
    zarray_inv zb \<and> za_el_sz zb = za_el_sz \<lparr>za_el_sz = 1, za_size = 3, za_alloc = 4, za_data = [7, 8, 9, 0]\<rparr> \<and>
    zarray_list zb = take (3 - 1) (drop 1 (zarray_list \<lparr>za_el_sz = 1, za_size = 3, za_alloc = 4, za_data = [7, 8, 9, 0]\<rparr>))"
  by (rule zarray_copy_subset_correct)
    (simp_all add: zarray_inv_def zarray_list_def zarray_limit_def INT_MAX_def)

text \<open>\<open>iceillog2\<close> is the smallest power of two that is not below its argument, up to the size limit.\<close>

theorem iceillog2_correct:
  assumes "0 < m" "m \<le> zarray_limit"
  shows "\<exists>k. unat (iceillog2 (of_nat m)) = 2 ^ k \<and> m \<le> 2 ^ k \<and> 2 ^ k < 2 * m"
  by (rule iceillog2_power) (use assms in auto)

lemma iceillog2_correct_witness: "\<exists>k. unat (iceillog2 (of_nat 5)) = 2 ^ k \<and> 5 \<le> (2::nat) ^ k \<and> (2::nat) ^ k < 2 * 5"
  by (rule iceillog2_correct) (simp_all add: zarray_limit_def)

end
