(* ===== verification/UnionFind.thy ===== *)
theory UnionFind
  imports Prelude
begin

text \<open>
  The disjoint-set forest of \<open>common/unionfind.h\<close>, which the detector uses to segment the image.
  Nodes are numbers; \<open>uf_parent\<close> and \<open>uf_size\<close> are the two halves of the one allocation of the
  code. A parent of \<open>0xffffffff\<close> marks a node not yet touched. The two loops of
  \<open>unionfind_get_representative\<close> follow parents and would not end on a cycle: they take fuel, one
  more than the number of nodes, and are shown never to run out of it on a forest.
\<close>

definition UF_NONE :: nat where
  "UF_NONE = 4294967295"

record unionfind =
  uf_maxid :: nat
  uf_parent :: "nat list"
  uf_size :: "nat list"

text \<open>\<open>maxid + 1\<close> is computed in 32 bits.\<close>

definition unionfind_create :: "nat \<Rightarrow> unionfind" where
  "unionfind_create maxid =
     (let n = (maxid + 1) mod 2 ^ 32
      in \<lparr>uf_maxid = maxid, uf_parent = replicate n UF_NONE, uf_size = replicate n 0\<rparr>)"

fun uf_chase :: "nat \<Rightarrow> nat list \<Rightarrow> nat \<Rightarrow> cerr + nat" where
  "uf_chase 0 p root = Inl Diverges"
| "uf_chase (Suc fuel) p root =
     bindE (arr_get p root) (\<lambda>q. if q \<noteq> root then uf_chase fuel p q else Inr root)"

fun uf_collapse :: "nat \<Rightarrow> nat list \<Rightarrow> nat \<Rightarrow> nat \<Rightarrow> cerr + nat list" where
  "uf_collapse 0 p nd root = Inl Diverges"
| "uf_collapse (Suc fuel) p nd root =
     bindE (arr_get p nd) (\<lambda>tmp.
     if tmp \<noteq> root
     then bindE (arr_set p nd root) (\<lambda>p. uf_collapse fuel p tmp root)
     else Inr p)"

definition unionfind_get_representative :: "unionfind \<Rightarrow> nat \<Rightarrow> cerr + unionfind \<times> nat" where
  "unionfind_get_representative uf nd =
     (let fuel = Suc (length (uf_parent uf)) in
      bindE (arr_get (uf_parent uf) nd) (\<lambda>root.
      if root = UF_NONE
      then bindE (arr_set (uf_parent uf) nd nd) (\<lambda>p. Inr (uf\<lparr>uf_parent := p\<rparr>, nd))
      else
        bindE (uf_chase fuel (uf_parent uf) root) (\<lambda>root.
        bindE (uf_collapse fuel (uf_parent uf) nd root) (\<lambda>p.
        Inr (uf\<lparr>uf_parent := p\<rparr>, root)))))"

definition unionfind_get_set_size :: "unionfind \<Rightarrow> nat \<Rightarrow> cerr + unionfind \<times> nat" where
  "unionfind_get_set_size uf nd =
     bindE (unionfind_get_representative uf nd) (\<lambda>(uf, repid).
     bindE (arr_get (uf_size uf) repid) (\<lambda>s. Inr (uf, (s + 1) mod 2 ^ 32)))"

definition unionfind_connect :: "unionfind \<Rightarrow> nat \<Rightarrow> nat \<Rightarrow> cerr + unionfind \<times> nat" where
  "unionfind_connect uf aid bid =
     bindE (unionfind_get_representative uf aid) (\<lambda>(uf, aroot).
     bindE (unionfind_get_representative uf bid) (\<lambda>(uf, broot).
     if aroot = broot then Inr (uf, aroot)
     else
       bindE (arr_get (uf_size uf) aroot) (\<lambda>sa.
       bindE (arr_get (uf_size uf) broot) (\<lambda>sb.
       let asize = (sa + 1) mod 2 ^ 32; bsize = (sb + 1) mod 2 ^ 32 in
       if asize > bsize then
         bindE (arr_set (uf_parent uf) broot aroot) (\<lambda>p.
         bindE (arr_set (uf_size uf) aroot ((sa + bsize) mod 2 ^ 32)) (\<lambda>s.
         Inr (uf\<lparr>uf_parent := p, uf_size := s\<rparr>, aroot)))
       else
         bindE (arr_set (uf_parent uf) aroot broot) (\<lambda>p.
         bindE (arr_set (uf_size uf) broot ((sb + asize) mod 2 ^ 32)) (\<lambda>s.
         Inr (uf\<lparr>uf_parent := p, uf_size := s\<rparr>, broot)))))))"

subsection \<open>Roots\<close>

inductive uf_root :: "nat list \<Rightarrow> nat \<Rightarrow> nat \<Rightarrow> bool" for p where
  self: "i < length p \<Longrightarrow> p ! i = i \<Longrightarrow> uf_root p i i"
| up: "i < length p \<Longrightarrow> p ! i \<noteq> i \<Longrightarrow> p ! i \<noteq> UF_NONE \<Longrightarrow> uf_root p (p ! i) r \<Longrightarrow> uf_root p i r"

lemma uf_root_bounds: "uf_root p i r \<Longrightarrow> i < length p \<and> r < length p \<and> p ! r = r"
  by (induction rule: uf_root.induct) auto

lemma uf_root_det: "uf_root p i r \<Longrightarrow> uf_root p i s \<Longrightarrow> r = s"
proof (induction arbitrary: s rule: uf_root.induct)
  case (self i)
  from self.prems show ?case by cases (use self in auto)
next
  case (up i r)
  from up.prems show ?case by cases (use up in blast)+
qed

text \<open>Redirecting a node to its own root moves no root.\<close>

lemma uf_root_compress:
  assumes "uf_root p i r" "uf_root p nd root" "p ! nd \<noteq> nd" "length p \<le> UF_NONE"
  shows "uf_root (p[nd := root]) i r"
  using assms
proof (induction rule: uf_root.induct)
  case (self i)
  then have "nd \<noteq> i" by (auto simp: UF_NONE_def)
  with self show ?case by - (rule uf_root.self, auto)
next
  case (up i r)
  have IH: "uf_root (p[nd := root]) (p ! i) r" using up by simp
  show ?case
  proof (cases "i = nd")
    case True
    have r: "uf_root p i r" by (rule uf_root.up [OF up(1-4)])
    then have "r = root" using up.prems(1) True uf_root_det by blast
    have b: "root < length p" "p ! root = root" using uf_root_bounds [OF up.prems(1)] by auto
    have "root \<noteq> nd" using b(2) up.prems(2) by metis
    moreover have "uf_root (p[nd := root]) root root"
      using b \<open>root \<noteq> nd\<close> by - (rule uf_root.self, auto)
    moreover have at: "p[nd := root] ! i = root" using True up(1) by simp
    ultimately have "uf_root (p[nd := root]) i root"
      using True up(1) up.prems(3) b(1) by - (rule uf_root.up, simp_all add: at)
    then show ?thesis using \<open>r = root\<close> by simp
  next
    case False
    then show ?thesis using up IH by - (rule uf_root.up, auto)
  qed
qed

text \<open>Linking root \<open>b\<close> below root \<open>a\<close> sends the nodes of \<open>b\<close> to \<open>a\<close> and moves no other.\<close>

lemma uf_root_link:
  assumes "uf_root p i r" "a < length p" "b < length p" "p ! a = a" "p ! b = b" "a \<noteq> b" "length p \<le> UF_NONE"
  shows "uf_root (p[b := a]) i (if r = b then a else r)"
  using assms
proof (induction rule: uf_root.induct)
  case (self i)
  have a: "uf_root (p[b := a]) a a" using self by - (rule uf_root.self, auto)
  show ?case
  proof (cases "i = b")
    case True
    have at: "p[b := a] ! b = a" using self.prems(2) by simp
    have "uf_root (p[b := a]) b a"
      using self.prems a by - (rule uf_root.up, simp_all add: at)
    then show ?thesis using True by simp
  next
    case False
    then have "uf_root (p[b := a]) i i" using self by - (rule uf_root.self, auto)
    then show ?thesis using False by simp
  qed
next
  case (up i r)
  then have "i \<noteq> b" by auto
  with up show ?case by - (rule uf_root.up, auto)
qed

text \<open>Initialising an untouched node adds a root.\<close>

lemma uf_root_touch:
  assumes "uf_root p i r" "p ! nd = UF_NONE" "length p \<le> UF_NONE"
  shows "uf_root (p[nd := nd]) i r"
  using assms
proof (induction rule: uf_root.induct)
  case (self i)
  then have "nd \<noteq> i" by (auto simp: UF_NONE_def)
  with self show ?case by - (rule uf_root.self, auto)
next
  case (up i r)
  then have "p[nd := nd] ! i = p ! i" by (metis nth_list_update_neq)
  with up show ?case by - (rule uf_root.up, simp_all)
qed

subsection \<open>Forests\<close>

text \<open>
  A rank that grows towards the root excludes cycles; every parent is a touched node.
\<close>

definition uf_ranked :: "(nat \<Rightarrow> nat) \<Rightarrow> nat list \<Rightarrow> bool" where
  "uf_ranked rk p \<longleftrightarrow>
     (\<forall>i < length p. p ! i \<noteq> UF_NONE \<longrightarrow>
        p ! i < length p \<and> p ! (p ! i) \<noteq> UF_NONE \<and> (p ! i \<noteq> i \<longrightarrow> rk i < rk (p ! i)))"

text \<open>How many nodes rank above \<open>i\<close>: what a step up the tree decreases.\<close>

definition above :: "(nat \<Rightarrow> nat) \<Rightarrow> nat list \<Rightarrow> nat \<Rightarrow> nat" where
  "above rk p i = card {j. j < length p \<and> rk i < rk j}"

lemma above_less:
  assumes "j < length p" "rk i < rk j"
  shows "above rk p j < above rk p i"
  unfolding above_def by (rule psubset_card_mono) (use assms in auto)

lemma above_bound: "i < length p \<Longrightarrow> above rk p i < length p"
proof -
  assume "i < length p"
  then have "{j. j < length p \<and> rk i < rk j} \<subset> {..<length p}" by auto
  from psubset_card_mono [OF _ this] show ?thesis by (simp add: above_def)
qed

lemma uf_chase_root:
  assumes "uf_ranked rk p" "i < length p" "p ! i \<noteq> UF_NONE" "above rk p i < fuel"
  shows "\<exists>r. uf_chase fuel p i = Inr r \<and> uf_root p i r \<and> rk i \<le> rk r \<and> p ! r \<noteq> UF_NONE"
  using assms(2-4)
proof (induction fuel arbitrary: i)
  case (Suc fuel)
  show ?case
  proof (cases "p ! i = i")
    case True
    with Suc.prems show ?thesis by (auto simp: cmem intro: uf_root.self)
  next
    case False
    have q: "p ! i < length p" "p ! (p ! i) \<noteq> UF_NONE" "rk i < rk (p ! i)"
      using assms(1) Suc.prems False unfolding uf_ranked_def by blast+
    have "above rk p (p ! i) < fuel" using above_less [OF q(1,3)] Suc.prems(3) by simp
    from Suc.IH [OF q(1,2) this] obtain r where
      "uf_chase fuel p (p ! i) = Inr r" "uf_root p (p ! i) r" "rk (p ! i) \<le> rk r" "p ! r \<noteq> UF_NONE"
      by blast
    with Suc.prems False q(3) show ?thesis by (auto simp: cmem intro: uf_root.up)
  qed
qed simp

lemma uf_root_rank_le:
  assumes "uf_ranked rk p" "uf_root p i r" "p ! r \<noteq> UF_NONE"
  shows "rk i \<le> rk r"
  using assms(2,1,3)
proof (induction rule: uf_root.induct)
  case (up i r)
  then have "rk i < rk (p ! i)" unfolding uf_ranked_def by blast
  with up show ?case by simp
qed simp

text \<open>
  Path compression keeps the ranking and every root, and runs within the same fuel. The node it
  starts from lies below \<open>root\<close>.
\<close>

lemma uf_ranked_compress:
  assumes "uf_ranked rk p" "uf_root p nd root" "p ! root \<noteq> UF_NONE" "rk nd < rk root"
  shows "uf_ranked rk (p[nd := root])"
  using assms uf_root_bounds [OF assms(2)] unfolding uf_ranked_def
  by (auto simp: nth_list_update)

lemma uf_collapse_ok:
  assumes "uf_ranked rk p" "uf_root p nd root" "p ! nd \<noteq> UF_NONE" "p ! root \<noteq> UF_NONE" "rk nd \<le> rk root"
    and "length p \<le> UF_NONE" "above rk p nd < fuel"
  shows "\<exists>p'. uf_collapse fuel p nd root = Inr p' \<and> length p' = length p \<and> uf_ranked rk p' \<and>
    (\<forall>i. p' ! i = UF_NONE \<longleftrightarrow> p ! i = UF_NONE) \<and> (\<forall>i r. uf_root p i r \<longrightarrow> uf_root p' i r)"
  using assms
proof (induction fuel arbitrary: p nd)
  case (Suc fuel)
  have nd: "nd < length p" and rt: "root < length p" "p ! root = root" "root \<noteq> UF_NONE"
    using uf_root_bounds [OF Suc.prems(2)] Suc.prems(4) by auto
  show ?case
  proof (cases "p ! nd = root")
    case True
    with Suc.prems nd show ?thesis by (auto simp: cmem)
  next
    case False
    then have ne: "p ! nd \<noteq> nd" "nd \<noteq> root"
      using Suc.prems(2) rt uf_root_det [OF uf_root.self [of nd p]] nd by metis+
    have up: "uf_root p (p ! nd) root"
      using Suc.prems(2) ne by cases auto
    let ?p = "p[nd := root]" and ?q = "p ! nd"
    have q: "?q < length p" "p ! ?q \<noteq> UF_NONE" "rk nd < rk ?q"
      using Suc.prems(1,3) nd ne(1) unfolding uf_ranked_def by blast+
    have qr: "?q \<noteq> nd" "rk ?q \<le> rk root"
      using ne(1) uf_root_rank_le [OF Suc.prems(1) up Suc.prems(4)] by auto
    have lt: "rk nd < rk root" using q(3) qr(2) by simp
    have rk: "uf_ranked rk ?p" by (rule uf_ranked_compress [OF Suc.prems(1,2,4) lt])
    have keep: "uf_root ?p i r" if "uf_root p i r" for i r
      by (rule uf_root_compress [OF that Suc.prems(2) ne(1) Suc.prems(6)])
    have ab: "above rk ?p ?q < fuel"
      using above_less [OF q(1,3)] Suc.prems(7) by (simp add: above_def)
    have "\<exists>p'. uf_collapse fuel ?p ?q root = Inr p' \<and> length p' = length ?p \<and> uf_ranked rk p' \<and>
        (\<forall>i. p' ! i = UF_NONE \<longleftrightarrow> ?p ! i = UF_NONE) \<and> (\<forall>i r. uf_root ?p i r \<longrightarrow> uf_root p' i r)"
      using q qr rt ne Suc.prems(6) ab rk by (intro Suc.IH keep [OF up]) auto
    then show ?thesis using Suc.prems(3) rt keep nd False ne
      by (auto simp: cmem nth_list_update)
  qed
qed simp

subsection \<open>The partition a forest stands for\<close>

text \<open>The representative of a node: an untouched node stands for itself.\<close>

definition uf_rep :: "unionfind \<Rightarrow> nat \<Rightarrow> nat" where
  "uf_rep uf i =
     (if uf_parent uf ! i = UF_NONE then i
      else case uf_chase (Suc (length (uf_parent uf))) (uf_parent uf) i of Inr r \<Rightarrow> r | Inl _ \<Rightarrow> i)"

definition uf_class :: "unionfind \<Rightarrow> nat \<Rightarrow> nat set" where
  "uf_class uf r = {i. i < length (uf_parent uf) \<and> uf_rep uf i = r}"

definition uf_forest :: "unionfind \<Rightarrow> bool" where
  "uf_forest uf \<longleftrightarrow>
     length (uf_size uf) = length (uf_parent uf) \<and> length (uf_parent uf) \<le> UF_NONE \<and>
     (\<exists>rk. uf_ranked rk (uf_parent uf))"

definition uf_inv :: "unionfind \<Rightarrow> bool" where
  "uf_inv uf \<longleftrightarrow> uf_forest uf \<and>
     (\<forall>r < length (uf_parent uf). uf_rep uf r = r \<longrightarrow> uf_size uf ! r + 1 = card (uf_class uf r))"

lemma uf_rep_untouched: "uf_parent uf ! i = UF_NONE \<Longrightarrow> uf_rep uf i = i"
  by (simp add: uf_rep_def)

lemma uf_forest_chase:
  assumes "uf_forest uf" "i < length (uf_parent uf)" "uf_parent uf ! i \<noteq> UF_NONE"
  shows "uf_chase (Suc (length (uf_parent uf))) (uf_parent uf) i = Inr (uf_rep uf i)"
    and "uf_root (uf_parent uf) i (uf_rep uf i)"
proof -
  obtain rk where rk: "uf_ranked rk (uf_parent uf)" using assms(1) unfolding uf_forest_def by blast
  have "above rk (uf_parent uf) i < Suc (length (uf_parent uf))"
    using above_bound [OF assms(2), of rk] by simp
  from uf_chase_root [OF rk assms(2,3) this] obtain r where
    "uf_chase (Suc (length (uf_parent uf))) (uf_parent uf) i = Inr r" "uf_root (uf_parent uf) i r" by blast
  moreover from this(1) have "uf_rep uf i = r" using assms(3) unfolding uf_rep_def by simp
  ultimately show "uf_chase (Suc (length (uf_parent uf))) (uf_parent uf) i = Inr (uf_rep uf i)"
    "uf_root (uf_parent uf) i (uf_rep uf i)" by simp_all
qed

lemma uf_root_rep:
  assumes "uf_forest uf" "uf_root (uf_parent uf) i r"
  shows "uf_rep uf i = r"
proof -
  have i: "i < length (uf_parent uf)" using uf_root_bounds [OF assms(2)] by simp
  have "uf_parent uf ! i \<noteq> UF_NONE"
    using assms by (auto elim: uf_root.cases simp: uf_forest_def)
  from uf_forest_chase(2) [OF assms(1) i this] show ?thesis using assms(2) uf_root_det by blast
qed

lemma uf_rep_bound: "uf_forest uf \<Longrightarrow> i < length (uf_parent uf) \<Longrightarrow> uf_rep uf i < length (uf_parent uf)"
  using uf_forest_chase(2) [of uf i] uf_root_bounds uf_rep_untouched [of uf i]
  by (cases "uf_parent uf ! i = UF_NONE") fastforce+

lemma uf_rep_idem:
  assumes "uf_forest uf" "i < length (uf_parent uf)"
  shows "uf_rep uf (uf_rep uf i) = uf_rep uf i"
proof (cases "uf_parent uf ! i = UF_NONE")
  case False
  from uf_root_bounds [OF uf_forest_chase(2) [OF assms False]]
  show ?thesis using assms(1) by (intro uf_root_rep uf_root.self) auto
qed (simp add: uf_rep_untouched)

text \<open>An update that keeps roots and touched nodes apart from one it may touch keeps the partition.\<close>

lemma uf_rep_cong:
  assumes "uf_forest uf" "uf_forest uf'" "length (uf_parent uf') = length (uf_parent uf)"
    and "\<And>i r. uf_root (uf_parent uf) i r \<Longrightarrow> uf_root (uf_parent uf') i r"
    and "\<And>i. i < length (uf_parent uf) \<Longrightarrow> uf_parent uf ! i = UF_NONE \<Longrightarrow> uf_rep uf' i = i"
    and "i < length (uf_parent uf)"
  shows "uf_rep uf' i = uf_rep uf i"
proof (cases "uf_parent uf ! i = UF_NONE")
  case True
  with assms(5,6) show ?thesis by (simp add: uf_rep_untouched)
next
  case False
  from assms(4) [OF uf_forest_chase(2) [OF assms(1,6) False]] show ?thesis
    by (intro uf_root_rep assms(2))
qed

lemma uf_inv_cong:
  assumes "uf_inv uf" "uf_forest uf'" "uf_size uf' = uf_size uf" "length (uf_parent uf') = length (uf_parent uf)"
    and "\<And>i. i < length (uf_parent uf) \<Longrightarrow> uf_rep uf' i = uf_rep uf i"
  shows "uf_inv uf'"
  using assms unfolding uf_inv_def uf_class_def by (auto cong: conj_cong)

subsection \<open>The operations on the partition\<close>

lemma uf_create_ok:
  assumes "maxid < UF_NONE"
  shows "uf_inv (unionfind_create maxid)" "length (uf_parent (unionfind_create maxid)) = Suc maxid"
    and "\<And>i. i \<le> maxid \<Longrightarrow> uf_rep (unionfind_create maxid) i = i"
proof -
  let ?uf = "unionfind_create maxid"
  have n: "(maxid + 1) mod 2 ^ 32 = Suc maxid" using assms by (simp add: UF_NONE_def)
  then have p: "uf_parent ?uf = replicate (Suc maxid) UF_NONE" "uf_size ?uf = replicate (Suc maxid) 0"
    by (simp_all only: unionfind_create_def Let_def unionfind.simps)
  then show len: "length (uf_parent ?uf) = Suc maxid" by simp
  have nth: "uf_parent ?uf ! i = UF_NONE" if "i \<le> maxid" for i
    unfolding p using that by (subst nth_replicate) auto
  show rep: "uf_rep ?uf i = i" if "i \<le> maxid" for i
    using nth [OF that] by (rule uf_rep_untouched)
  have "uf_forest ?uf"
    using nth assms unfolding uf_forest_def uf_ranked_def len by (simp add: p(2) less_Suc_eq_le)
  moreover have "uf_class ?uf r = {r}" if "r \<le> maxid" for r
    using rep that unfolding uf_class_def len by (auto simp: less_Suc_eq_le)
  moreover have "uf_size ?uf ! r = 0" if "r \<le> maxid" for r
    unfolding p using that by (subst nth_replicate) auto
  ultimately show "uf_inv ?uf" unfolding uf_inv_def len by (simp add: less_Suc_eq_le)
qed

definition uf_same :: "unionfind \<Rightarrow> unionfind \<Rightarrow> bool" where
  "uf_same uf uf' \<longleftrightarrow> length (uf_parent uf') = length (uf_parent uf) \<and>
     (\<forall>i < length (uf_parent uf). uf_rep uf' i = uf_rep uf i)"

lemma get_representative_touch:
  assumes "uf_inv uf" "nd < length (uf_parent uf)" "uf_parent uf ! nd = UF_NONE"
  defines "uf' \<equiv> uf\<lparr>uf_parent := (uf_parent uf)[nd := nd]\<rparr>"
  shows "uf_inv uf' \<and> uf_same uf uf' \<and> uf_parent uf' ! nd = nd"
proof -
  let ?p = "uf_parent uf"
  have f: "uf_forest uf" using assms(1) by (simp add: uf_inv_def)
  then obtain rk where rk: "uf_ranked rk ?p" and n: "length ?p \<le> UF_NONE" unfolding uf_forest_def by blast
  have "uf_ranked rk (?p[nd := nd])"
    using rk assms(2,3) n unfolding uf_ranked_def by (auto simp: nth_list_update)
  then have f': "uf_forest uf'" using f unfolding uf_forest_def uf'_def by auto
  have rep: "uf_rep uf' i = uf_rep uf i" if "i < length ?p" for i
  proof (rule uf_rep_cong [OF f f' _ _ _ that])
    fix i assume i: "i < length ?p" "?p ! i = UF_NONE"
    show "uf_rep uf' i = i"
    proof (cases "i = nd")
      case True
      then show ?thesis using assms(2) by (intro uf_root_rep f' uf_root.self) (auto simp: uf'_def)
    next
      case False
      then show ?thesis using i by (intro uf_rep_untouched) (auto simp: uf'_def)
    qed
  qed (use uf_root_touch [OF _ assms(3) n] in \<open>auto simp: uf'_def\<close>)
  have "uf_inv uf'" by (rule uf_inv_cong [OF assms(1) f' _ _ rep]) (simp_all add: uf'_def)
  then show ?thesis using rep assms(2) by (simp add: uf_same_def uf'_def)
qed

lemma get_representative_ok:
  assumes "uf_inv uf" "nd < length (uf_parent uf)"
  shows "\<exists>uf'. unionfind_get_representative uf nd = Inr (uf', uf_rep uf nd) \<and> uf_inv uf' \<and> uf_same uf uf' \<and>
    (\<forall>i. uf_parent uf ! i \<noteq> UF_NONE \<longrightarrow> uf_parent uf' ! i \<noteq> UF_NONE) \<and> uf_parent uf' ! nd \<noteq> UF_NONE"
proof (cases "uf_parent uf ! nd = UF_NONE")
  case True
  from get_representative_touch [OF assms True] assms True show ?thesis
    by (auto simp: unionfind_get_representative_def Let_def cmem uf_rep_untouched nth_list_update uf_inv_def uf_forest_def)
next
  case False
  let ?p = "uf_parent uf" and ?r = "uf_rep uf nd"
  have f: "uf_forest uf" using assms(1) by (simp add: uf_inv_def)
  then obtain rk where rk: "uf_ranked rk ?p" and n: "length ?p \<le> UF_NONE" unfolding uf_forest_def by blast
  have root: "uf_root ?p nd ?r" using uf_forest_chase(2) [OF f assms(2) False] .
  have q: "?p ! nd < length ?p" "?p ! (?p ! nd) \<noteq> UF_NONE" using rk assms(2) False unfolding uf_ranked_def by blast+
  have "uf_root ?p (?p ! nd) ?r" using root by cases (use uf_root.self root in fastforce)+
  then have chase: "uf_chase (Suc (length ?p)) ?p (?p ! nd) = Inr ?r"
    using uf_forest_chase [OF f q] uf_root_det by metis
  have r: "?p ! ?r \<noteq> UF_NONE" using uf_root_bounds [OF root] n by auto
  have "above rk ?p nd < Suc (length ?p)" using above_bound [OF assms(2), of rk] by simp
  from uf_collapse_ok [OF rk root False r uf_root_rank_le [OF rk root r] n this] obtain p' where
    p': "uf_collapse (Suc (length ?p)) ?p nd ?r = Inr p'" "length p' = length ?p" "uf_ranked rk p'"
      "\<forall>i. p' ! i = UF_NONE \<longleftrightarrow> ?p ! i = UF_NONE" "\<forall>i r. uf_root ?p i r \<longrightarrow> uf_root p' i r" by blast
  let ?uf = "uf\<lparr>uf_parent := p'\<rparr>"
  have f': "uf_forest ?uf" using f p'(2,3) unfolding uf_forest_def by auto
  have rep: "uf_rep ?uf i = uf_rep uf i" if "i < length ?p" for i
    by (rule uf_rep_cong [OF f f' _ _ _ that]) (use p' in \<open>auto simp: uf_rep_untouched\<close>)
  have "uf_inv ?uf" by (rule uf_inv_cong [OF assms(1) f' _ _ rep]) (simp_all add: p')
  then show ?thesis
    using rep p' assms(2) False chase by (auto simp: unionfind_get_representative_def Let_def cmem uf_same_def)
qed

lemma uf_class_finite: "finite (uf_class uf r)"
  by (simp add: uf_class_def)

lemma uf_class_bound: "card (uf_class uf r) \<le> length (uf_parent uf)"
  by (rule order_trans [OF card_mono [of "{..<length (uf_parent uf)}"]]) (auto simp: uf_class_def)

lemma get_set_size_ok:
  assumes "uf_inv uf" "nd < length (uf_parent uf)"
  shows "\<exists>uf'. unionfind_get_set_size uf nd = Inr (uf', card (uf_class uf (uf_rep uf nd))) \<and>
    uf_inv uf' \<and> uf_same uf uf'"
proof -
  obtain uf' where uf': "unionfind_get_representative uf nd = Inr (uf', uf_rep uf nd)" "uf_inv uf'" "uf_same uf uf'"
    using get_representative_ok [OF assms] by blast
  have f: "uf_forest uf" using assms(1) by (simp add: uf_inv_def)
  let ?r = "uf_rep uf nd"
  have r: "?r < length (uf_parent uf')" "uf_rep uf' ?r = ?r"
    using uf'(3) uf_rep_bound [OF f assms(2)] uf_rep_idem [OF f assms(2)] by (simp_all add: uf_same_def)
  have "uf_class uf' ?r = uf_class uf ?r" using uf'(3) by (auto simp: uf_class_def uf_same_def)
  with r uf'(2) have "uf_size uf' ! ?r + 1 = card (uf_class uf ?r)" by (auto simp: uf_inv_def)
  moreover have "card (uf_class uf ?r) < 2 ^ 32"
    using uf_class_bound [of uf ?r] f by (simp add: uf_forest_def UF_NONE_def)
  moreover have "length (uf_size uf') = length (uf_parent uf')" using uf'(2) by (simp add: uf_inv_def uf_forest_def)
  ultimately show ?thesis using uf' r(1) by (auto simp: unionfind_get_set_size_def cmem)
qed

subsection \<open>Joining two sets\<close>

lemma uf_ranked_link:
  assumes f: "uf_forest uf" and rk: "uf_ranked rk (uf_parent uf)"
    and ab: "a < length (uf_parent uf)" "b < length (uf_parent uf)" "uf_parent uf ! a = a" "uf_parent uf ! b = b" "a \<noteq> b"
  shows "uf_ranked (\<lambda>x. rk x + (if uf_rep uf x = a then Suc (rk b) else 0)) ((uf_parent uf)[b := a])"
proof -
  let ?p = "uf_parent uf"
  have n: "length ?p \<le> UF_NONE" using f by (simp add: uf_forest_def)
  have a: "uf_rep uf a = a" "uf_rep uf b = b" using ab f by (auto intro!: uf_root_rep uf_root.self)
  have same: "uf_rep uf (?p ! i) = uf_rep uf i" if i: "i < length ?p" "?p ! i \<noteq> UF_NONE" for i
  proof -
    have "uf_root ?p (?p ! i) (uf_rep uf i)"
      using uf_forest_chase(2) [OF f i] by cases (use uf_forest_chase(2) [OF f i] in auto)
    then show ?thesis by (rule uf_root_rep [OF f])
  qed
  show ?thesis
    unfolding uf_ranked_def
  proof (intro allI impI)
    fix i assume "i < length (?p[b := a])" "?p[b := a] ! i \<noteq> UF_NONE"
    then have i: "i < length ?p" "i \<noteq> b \<Longrightarrow> ?p ! i \<noteq> UF_NONE" by auto
    have ne: "a \<noteq> UF_NONE" using ab(1) n by simp
    show "?p[b := a] ! i < length (?p[b := a]) \<and> ?p[b := a] ! (?p[b := a] ! i) \<noteq> UF_NONE \<and>
        (?p[b := a] ! i \<noteq> i \<longrightarrow>
          rk i + (if uf_rep uf i = a then Suc (rk b) else 0)
          < rk (?p[b := a] ! i) + (if uf_rep uf (?p[b := a] ! i) = a then Suc (rk b) else 0))"
    proof (cases "i = b")
      case True
      then show ?thesis using ab a ne by simp
    next
      case False
      have "?p ! i < length ?p" "?p ! (?p ! i) \<noteq> UF_NONE" "?p ! i \<noteq> i \<Longrightarrow> rk i < rk (?p ! i)"
        using rk i(1) i(2) [OF False] unfolding uf_ranked_def by blast+
      then show ?thesis using False ne ab(2) same [OF i(1) i(2) [OF False]] by (auto simp: nth_list_update)
    qed
  qed
qed

text \<open>What linking root \<open>b\<close> below root \<open>a\<close> does, with the sizes brought up to date.\<close>

lemma uf_link_ok:
  assumes inv: "uf_inv uf"
    and ab: "a < length (uf_parent uf)" "b < length (uf_parent uf)" "uf_parent uf ! a = a" "uf_parent uf ! b = b" "a \<noteq> b"
  defines "uf' \<equiv> uf\<lparr>uf_parent := (uf_parent uf)[b := a],
    uf_size := (uf_size uf)[a := (uf_size uf ! a + (uf_size uf ! b + 1) mod 2 ^ 32) mod 2 ^ 32]\<rparr>"
  shows "uf_inv uf' \<and> (\<forall>i < length (uf_parent uf). uf_rep uf' i = (if uf_rep uf i = b then a else uf_rep uf i))"
proof -
  let ?p = "uf_parent uf"
  have f: "uf_forest uf" and n: "length ?p \<le> UF_NONE" and ls: "length (uf_size uf) = length ?p"
    using inv by (simp_all add: uf_inv_def uf_forest_def)
  then obtain rk where rk: "uf_ranked rk ?p" unfolding uf_forest_def by blast
  have f': "uf_forest uf'"
    using f uf_ranked_link [OF f rk ab] unfolding uf_forest_def uf'_def by auto
  have rep: "uf_rep uf' i = (if uf_rep uf i = b then a else uf_rep uf i)" if i: "i < length ?p" for i
  proof (cases "?p ! i = UF_NONE")
    case True
    then have "i \<noteq> b" using ab(2,4) n by auto
    with True show ?thesis by (simp add: uf_rep_untouched uf'_def)
  next
    case False
    from uf_root_link [OF uf_forest_chase(2) [OF f i False] ab n] show ?thesis
      by (intro uf_root_rep f') (simp add: uf'_def)
  qed
  have reps: "uf_rep uf a = a" "uf_rep uf b = b" using ab f by (auto intro!: uf_root_rep uf_root.self)
  have ca: "uf_class uf' a = uf_class uf a \<union> uf_class uf b"
    using rep by (auto simp: uf_class_def uf'_def)
  have sa: "uf_size uf ! a + 1 = card (uf_class uf a)" "uf_size uf ! b + 1 = card (uf_class uf b)"
    using inv ab reps by (auto simp: uf_inv_def)
  have "uf_class uf a \<inter> uf_class uf b = {}" using ab(5) by (auto simp: uf_class_def)
  then have card: "card (uf_class uf' a) = card (uf_class uf a) + card (uf_class uf b)"
    unfolding ca by (intro card_Un_disjoint uf_class_finite)
  then have "card (uf_class uf a) + card (uf_class uf b) \<le> length ?p"
    using uf_class_bound [of uf' a] by (simp add: uf'_def)
  then have lt: "uf_size uf ! a + (uf_size uf ! b + 1) < 2 ^ 32" using sa n by (simp add: UF_NONE_def)
  have "uf_size uf' ! r + 1 = card (uf_class uf' r)" if r: "r < length ?p" "uf_rep uf' r = r" for r
  proof (cases "r = a")
    case True
    then show ?thesis using card sa lt ab(1) ls by (simp add: uf'_def)
  next
    case False
    with r rep have "uf_rep uf r = r" "r \<noteq> b" by (auto split: if_splits)
    moreover have "uf_class uf' r = uf_class uf r"
      using False \<open>r \<noteq> b\<close> rep by (auto simp: uf_class_def uf'_def)
    ultimately show ?thesis using inv r(1) False by (simp add: uf_inv_def uf'_def)
  qed
  then have "uf_inv uf'" using f' unfolding uf_inv_def by (simp add: uf'_def)
  with rep show ?thesis by blast
qed

definition uf_joined :: "unionfind \<Rightarrow> nat \<Rightarrow> nat \<Rightarrow> unionfind \<Rightarrow> bool" where
  "uf_joined uf a b uf' \<longleftrightarrow>
     length (uf_parent uf') = length (uf_parent uf) \<and>
     (\<forall>i < length (uf_parent uf). \<forall>j < length (uf_parent uf).
        uf_rep uf' i = uf_rep uf' j \<longleftrightarrow>
          uf_rep uf i = uf_rep uf j \<or>
          uf_rep uf i = uf_rep uf a \<and> uf_rep uf j = uf_rep uf b \<or>
          uf_rep uf i = uf_rep uf b \<and> uf_rep uf j = uf_rep uf a)"

lemma uf_root_touched:
  "uf_forest uf \<Longrightarrow> i < length (uf_parent uf) \<Longrightarrow> uf_parent uf ! i \<noteq> UF_NONE \<Longrightarrow>
   uf_parent uf ! uf_rep uf i = uf_rep uf i"
  using uf_root_bounds [OF uf_forest_chase(2)] by blast

lemma connect_ok:
  assumes inv: "uf_inv uf" and a: "aid < length (uf_parent uf)" and b: "bid < length (uf_parent uf)"
  shows "\<exists>uf' r. unionfind_connect uf aid bid = Inr (uf', r) \<and> uf_inv uf' \<and> uf_joined uf aid bid uf' \<and>
    r = uf_rep uf' aid \<and> r = uf_rep uf' bid"
proof -
  obtain u where u: "unionfind_get_representative uf aid = Inr (u, uf_rep uf aid)" "uf_inv u" "uf_same uf u"
      "uf_parent u ! aid \<noteq> UF_NONE"
    using get_representative_ok [OF inv a] by blast
  obtain v where v: "unionfind_get_representative u bid = Inr (v, uf_rep u bid)" "uf_inv v" "uf_same u v"
      "uf_parent v ! aid \<noteq> UF_NONE" "uf_parent v ! bid \<noteq> UF_NONE"
    using get_representative_ok [OF u(2), of bid] u(3,4) b by (auto simp: uf_same_def)
  let ?a = "uf_rep uf aid" and ?b = "uf_rep uf bid"
  have len: "length (uf_parent v) = length (uf_parent uf)" and rep: "\<And>i. i < length (uf_parent uf) \<Longrightarrow> uf_rep v i = uf_rep uf i"
    and ub: "uf_rep u bid = ?b"
    using u(3) v(3) b by (auto simp: uf_same_def)
  have fv: "uf_forest v" using v(2) by (simp add: uf_inv_def)
  show ?thesis
  proof (cases "?a = ?b")
    case True
    then have "unionfind_connect uf aid bid = Inr (v, ?a)" using u(1) v(1) ub by (simp add: unionfind_connect_def)
    moreover have "uf_joined uf aid bid v" using True len rep by (auto simp: uf_joined_def)
    ultimately show ?thesis using v(2) rep a b True by auto
  next
    case False
    have ra: "uf_parent v ! ?a = ?a" "uf_parent v ! ?b = ?b" "?a < length (uf_parent v)" "?b < length (uf_parent v)"
      using uf_root_touched [OF fv _ v(4)] uf_root_touched [OF fv _ v(5)] rep a b len
        uf_rep_bound [OF fv, of aid] uf_rep_bound [OF fv, of bid] by auto
    have ls: "length (uf_size v) = length (uf_parent v)" using fv by (simp add: uf_forest_def)
    let ?ab = "v\<lparr>uf_parent := (uf_parent v)[?b := ?a],
        uf_size := (uf_size v)[?a := (uf_size v ! ?a + (uf_size v ! ?b + 1) mod 2 ^ 32) mod 2 ^ 32]\<rparr>"
    let ?ba = "v\<lparr>uf_parent := (uf_parent v)[?a := ?b],
        uf_size := (uf_size v)[?b := (uf_size v ! ?b + (uf_size v ! ?a + 1) mod 2 ^ 32) mod 2 ^ 32]\<rparr>"
    note ab = uf_link_ok [OF v(2) ra(3,4,1,2) False] and ba = uf_link_ok [OF v(2) ra(4,3,2,1) False [symmetric]]
    have res: "unionfind_connect uf aid bid =
        (if (uf_size v ! ?a + 1) mod 2 ^ 32 > (uf_size v ! ?b + 1) mod 2 ^ 32 then Inr (?ab, ?a) else Inr (?ba, ?b))"
      using u(1) v(1) ub False ra ls by (simp add: unionfind_connect_def Let_def cmem)
    have "uf_joined uf aid bid ?ab" "uf_rep ?ab aid = ?a" "uf_rep ?ab bid = ?a"
      using ab rep a b len unfolding uf_joined_def by auto
    moreover have "uf_joined uf aid bid ?ba" "uf_rep ?ba aid = ?b" "uf_rep ?ba bid = ?b"
      using ba rep a b len unfolding uf_joined_def by auto
    ultimately show ?thesis using res ab ba by (auto split: if_splits)
  qed
qed

subsection \<open>The interface\<close>

text \<open>
  What the image segmentation relies on: queries answer from a partition of the nodes and, though
  they compress paths, leave it as it is.
\<close>

locale partition =
  fixes get_rep :: "'s \<Rightarrow> nat \<Rightarrow> 'e + 's \<times> nat" and get_size :: "'s \<Rightarrow> nat \<Rightarrow> 'e + 's \<times> nat"
    and ok :: "'s \<Rightarrow> bool" and nodes :: "'s \<Rightarrow> nat" and rep :: "'s \<Rightarrow> nat \<Rightarrow> nat" and size :: "'s \<Rightarrow> nat \<Rightarrow> nat"
  assumes get_rep: "ok s \<Longrightarrow> i < nodes s \<Longrightarrow> \<exists>t. get_rep s i = Inr (t, rep s i) \<and> ok t \<and> nodes t = nodes s \<and>
      (\<forall>j < nodes s. rep t j = rep s j \<and> size t j = size s j)"
    and get_size: "ok s \<Longrightarrow> i < nodes s \<Longrightarrow> \<exists>t. get_size s i = Inr (t, size s i) \<and> ok t \<and> nodes t = nodes s \<and>
      (\<forall>j < nodes s. rep t j = rep s j \<and> size t j = size s j)"
    and rep_node: "ok s \<Longrightarrow> i < nodes s \<Longrightarrow> rep s i < nodes s \<and> size s (rep s i) = size s i"
begin

lemma rep_then_size:
  assumes "ok s" "i < nodes s"
  shows "\<exists>t u. get_rep s i = Inr (t, rep s i) \<and> get_size t (rep s i) = Inr (u, size s i) \<and> ok u \<and> nodes u = nodes s \<and>
    (\<forall>j < nodes s. rep u j = rep s j \<and> size u j = size s j)"
proof -
  obtain t where t: "get_rep s i = Inr (t, rep s i)" "ok t" "nodes t = nodes s" "\<forall>j < nodes s. rep t j = rep s j \<and> size t j = size s j"
    using get_rep [OF assms] by blast
  have r: "rep s i < nodes t" "size t (rep s i) = size s i" using rep_node [OF assms] t(3,4) by simp_all
  show ?thesis using get_size [OF t(2) r(1)] t r(2) by auto
qed

lemma two_reps:
  assumes "ok s" "i < nodes s" "j < nodes s"
  shows "\<exists>t u. get_rep s i = Inr (t, rep s i) \<and> get_rep t j = Inr (u, rep s j)"
proof -
  obtain t where t: "get_rep s i = Inr (t, rep s i)" "ok t" "nodes t = nodes s" "\<forall>j < nodes s. rep t j = rep s j \<and> size t j = size s j"
    using get_rep [OF assms(1,2)] by blast
  then show ?thesis using get_rep [OF t(2), of j] assms(3) by auto
qed

end

text \<open>The size of the set of a node.\<close>

definition csize :: "unionfind \<Rightarrow> nat \<Rightarrow> nat" where
  "csize uf i = card (uf_class uf (uf_rep uf i))"

lemma uf_same_iff:
  "uf_same uf u \<longleftrightarrow> length (uf_parent u) = length (uf_parent uf) \<and>
     (\<forall>j < length (uf_parent uf). uf_rep u j = uf_rep uf j \<and> csize u j = csize uf j)"
  by (auto simp: uf_same_def csize_def uf_class_def intro!: arg_cong [where f = card])

interpretation ufp: partition unionfind_get_representative unionfind_get_set_size uf_inv "\<lambda>uf. length (uf_parent uf)" uf_rep csize
proof
  fix uf i assume i: "uf_inv uf" "i < length (uf_parent uf)"
  show "\<exists>t. unionfind_get_representative uf i = Inr (t, uf_rep uf i) \<and> uf_inv t \<and> length (uf_parent t) = length (uf_parent uf) \<and>
      (\<forall>j < length (uf_parent uf). uf_rep t j = uf_rep uf j \<and> csize t j = csize uf j)"
    using get_representative_ok [OF i] unfolding uf_same_iff by blast
  show "\<exists>t. unionfind_get_set_size uf i = Inr (t, csize uf i) \<and> uf_inv t \<and> length (uf_parent t) = length (uf_parent uf) \<and>
      (\<forall>j < length (uf_parent uf). uf_rep t j = uf_rep uf j \<and> csize t j = csize uf j)"
    using get_set_size_ok [OF i] unfolding uf_same_iff csize_def by blast
  have f: "uf_forest uf" using i(1) by (simp add: uf_inv_def)
  show "uf_rep uf i < length (uf_parent uf) \<and> csize uf (uf_rep uf i) = csize uf i"
    using uf_rep_bound [OF f i(2)] uf_rep_idem [OF f i(2)] by (simp add: csize_def)
qed

subsection \<open>Any sequence of joins\<close>

text \<open>
  After any calls \<open>unionfind_connect\<close> from an empty structure, two nodes have the same
  representative exactly when the joined pairs link them: the equivalence closure.
\<close>

definition pairs_closure :: "(nat \<times> nat) list \<Rightarrow> (nat \<times> nat) set" where
  "pairs_closure es = (set es \<union> (set es)\<inverse>)\<^sup>*"

definition connect_step :: "unionfind \<Rightarrow> nat \<times> nat \<Rightarrow> cerr + unionfind" where
  "connect_step uf e = bindE (unionfind_connect uf (fst e) (snd e)) (\<lambda>(uf', _). Inr uf')"

lemma pairs_closure_sym: "(x, y) \<in> pairs_closure es \<Longrightarrow> (y, x) \<in> pairs_closure es"
  unfolding pairs_closure_def
  by (metis Un_commute converse_Un converse_converse rtrancl_converseD rtrancl_converseI)

lemma pairs_closure_trans:
  "(x, y) \<in> pairs_closure es \<Longrightarrow> (y, z) \<in> pairs_closure es \<Longrightarrow> (x, z) \<in> pairs_closure es"
  unfolding pairs_closure_def by (rule rtrancl_trans)

lemma pairs_closure_mono: "(x, y) \<in> pairs_closure es \<Longrightarrow> (x, y) \<in> pairs_closure (es @ [e])"
  unfolding pairs_closure_def by (rule rtrancl_mono [THEN subsetD]) auto

lemma pairs_closure_snoc:
  "(x, y) \<in> pairs_closure (es @ [(a, b)]) \<longleftrightarrow>
     (x, y) \<in> pairs_closure es \<or>
     (x, a) \<in> pairs_closure es \<and> (b, y) \<in> pairs_closure es \<or>
     (x, b) \<in> pairs_closure es \<and> (a, y) \<in> pairs_closure es" (is "?l \<longleftrightarrow> ?r x y")
proof
  let ?E = "set es \<union> (set es)\<inverse>"
  assume ?l
  then have "(x, y) \<in> (?E \<union> {(a, b), (b, a)})\<^sup>*"
    unfolding pairs_closure_def by (rule rtrancl_mono [THEN subsetD, rotated]) auto
  then show "?r x y"
  proof (induction rule: rtrancl_induct)
    case base
    show ?case by (simp add: pairs_closure_def)
  next
    case (step y z)
    have edge: "(y, z) \<in> pairs_closure es \<or> y = a \<and> z = b \<or> y = b \<and> z = a"
      using step(2) by (auto simp: pairs_closure_def)
    have refl: "(u, u) \<in> pairs_closure es" for u by (simp add: pairs_closure_def)
    note tr = pairs_closure_trans [of _ _ es]
    from edge show ?case
    proof (elim disjE conjE)
      assume "(y, z) \<in> pairs_closure es"
      with step(3) show ?thesis using tr [of x y z] tr [of b y z] tr [of a y z] by argo
    next
      assume "y = a" "z = b"
      with step(3) show ?thesis using refl [of b] by blast
    next
      assume "y = b" "z = a"
      with step(3) show ?thesis using refl [of a] by blast
    qed
  qed
next
  have ab: "(a, b) \<in> pairs_closure (es @ [(a, b)])" by (simp add: pairs_closure_def r_into_rtrancl)
  assume "?r x y"
  then show ?l
  proof (elim disjE conjE)
    assume "(x, a) \<in> pairs_closure es" "(b, y) \<in> pairs_closure es"
    from this [THEN pairs_closure_mono] show ?l using ab pairs_closure_trans by blast
  next
    assume "(x, b) \<in> pairs_closure es" "(a, y) \<in> pairs_closure es"
    from this [THEN pairs_closure_mono] show ?l using pairs_closure_sym [OF ab] pairs_closure_trans by blast
  qed (rule pairs_closure_mono)
qed

lemma connects_ok:
  assumes "maxid < UF_NONE" "\<forall>(a, b) \<in> set es. a \<le> maxid \<and> b \<le> maxid"
  shows "\<exists>uf. foldE connect_step es (unionfind_create maxid) = Inr uf \<and> uf_inv uf \<and>
    length (uf_parent uf) = Suc maxid \<and>
    (\<forall>i \<le> maxid. \<forall>j \<le> maxid. uf_rep uf i = uf_rep uf j \<longleftrightarrow> (i, j) \<in> pairs_closure es)"
  using assms(2)
proof (induction es rule: rev_induct)
  case Nil
  have "(i, j) \<in> pairs_closure [] \<longleftrightarrow> i = j" for i j by (simp add: pairs_closure_def)
  with uf_create_ok [OF assms(1)] show ?case by simp
next
  case (snoc e es)
  obtain a b where e: "e = (a, b)" by (cases e)
  from snoc obtain uf where uf: "foldE connect_step es (unionfind_create maxid) = Inr uf" "uf_inv uf"
      "length (uf_parent uf) = Suc maxid"
      "\<And>i j. i \<le> maxid \<Longrightarrow> j \<le> maxid \<Longrightarrow> uf_rep uf i = uf_rep uf j \<longleftrightarrow> (i, j) \<in> pairs_closure es" by auto
  have ab: "a \<le> maxid" "b \<le> maxid" using snoc.prems e by auto
  then obtain uf' r where uf': "unionfind_connect uf a b = Inr (uf', r)" "uf_inv uf'" "uf_joined uf a b uf'"
    using connect_ok [OF uf(2), of a b] uf(3) by (auto simp: less_Suc_eq_le)
  have "uf_rep uf' i = uf_rep uf' j \<longleftrightarrow> (i, j) \<in> pairs_closure (es @ [(a, b)])" if "i \<le> maxid" "j \<le> maxid" for i j
  proof -
    have "uf_rep uf' i = uf_rep uf' j \<longleftrightarrow> uf_rep uf i = uf_rep uf j \<or>
          uf_rep uf i = uf_rep uf a \<and> uf_rep uf j = uf_rep uf b \<or>
          uf_rep uf i = uf_rep uf b \<and> uf_rep uf j = uf_rep uf a"
      using uf'(3) that by (simp add: uf_joined_def uf(3) less_Suc_eq_le)
    then show ?thesis
      using that ab pairs_closure_sym [of j] pairs_closure_sym [of _ j]
      by (auto simp: uf(4) pairs_closure_snoc)
  qed
  moreover have "connect_step uf e = Inr uf'" using uf'(1) e by (simp add: connect_step_def)
  then have "foldE connect_step (es @ [e]) (unionfind_create maxid) = Inr uf'"
    using uf(1) by (simp add: foldE_append)
  moreover have "length (uf_parent uf') = Suc maxid" using uf'(3) uf(3) by (simp add: uf_joined_def)
  ultimately show ?case using uf'(2) e by blast
qed

subsection \<open>Property\<close>

text \<open>C22: After any sequence of \<open>unionfind_connect\<close> calls on nodes of a new structure, two nodes have the same
  representative exactly when the joined pairs link them, and the set size the structure reports
  for a node is the number of nodes in its class.\<close>

theorem unionfind_partition:
  assumes "maxid < UF_NONE" "\<forall>(a, b) \<in> set es. a \<le> maxid \<and> b \<le> maxid" "i \<le> maxid"
  shows "\<exists>uf. foldE connect_step es (unionfind_create maxid) = Inr uf \<and>
    (\<forall>j \<le> maxid. \<exists>u v x y. unionfind_get_representative uf i = Inr (u, x) \<and>
       unionfind_get_representative u j = Inr (v, y) \<and> (x = y \<longleftrightarrow> (i, j) \<in> pairs_closure es)) \<and>
    (\<exists>u. unionfind_get_set_size uf i = Inr (u, card {j. j \<le> maxid \<and> (i, j) \<in> pairs_closure es}))"
proof -
  obtain uf where uf: "foldE connect_step es (unionfind_create maxid) = Inr uf" "uf_inv uf"
      "length (uf_parent uf) = Suc maxid"
      "\<And>i j. i \<le> maxid \<Longrightarrow> j \<le> maxid \<Longrightarrow> uf_rep uf i = uf_rep uf j \<longleftrightarrow> (i, j) \<in> pairs_closure es"
    using connects_ok [OF assms(1,2)] by blast
  have "\<exists>u v x y. unionfind_get_representative uf i = Inr (u, x) \<and>
       unionfind_get_representative u j = Inr (v, y) \<and> (x = y \<longleftrightarrow> (i, j) \<in> pairs_closure es)" if j: "j \<le> maxid" for j
  proof -
    obtain u where u: "unionfind_get_representative uf i = Inr (u, uf_rep uf i)" "uf_inv u" "uf_same uf u"
      using get_representative_ok [OF uf(2), of i] uf(3) assms(3) by auto
    obtain v where v: "unionfind_get_representative u j = Inr (v, uf_rep u j)"
      using get_representative_ok [OF u(2), of j] u(3) uf(3) j by (auto simp: uf_same_def)
    have "uf_rep u j = uf_rep uf j" using u(3) uf(3) j by (auto simp: uf_same_def)
    then show ?thesis using u v uf(4) [OF assms(3) j] by auto
  qed
  moreover have "\<exists>u. unionfind_get_set_size uf i = Inr (u, card (uf_class uf (uf_rep uf i)))"
    using get_set_size_ok [OF uf(2), of i] uf(3) assms(3) by auto
  moreover have "uf_class uf (uf_rep uf i) = {j. j \<le> maxid \<and> (i, j) \<in> pairs_closure es}"
    using uf(3) by (auto simp: uf_class_def less_Suc_eq_le simp flip: uf(4) [OF assms(3)])
  ultimately show ?thesis using uf(1) by auto
qed

lemma unionfind_partition_witness:
  "\<exists>uf. foldE connect_step [(0, 1), (2, 1)] (unionfind_create 3) = Inr uf \<and>
    (\<forall>j \<le> 3. \<exists>u v x y. unionfind_get_representative uf 0 = Inr (u, x) \<and>
       unionfind_get_representative u j = Inr (v, y) \<and> (x = y \<longleftrightarrow> (0, j) \<in> pairs_closure [(0, 1), (2, 1)])) \<and>
    (\<exists>u. unionfind_get_set_size uf 0 = Inr (u, card {j. j \<le> 3 \<and> (0, j) \<in> pairs_closure [(0, 1), (2, 1)]}))"
  by (rule unionfind_partition) (simp_all add: UF_NONE_def)

end
