(* ===== verification/WorkerPool.thy ===== *)
theory WorkerPool
  imports Prelude "HOL-Library.Multiset"
begin

text \<open>
  The thread pool of \<open>common/workerpool.c\<close>, which runs the row and chunk tasks of the detector. Its threads and the
  caller of \<open>workerpool_run\<close> are a step relation. What a thread does between taking the mutex and giving it up (or
  waiting on a condition, which gives it up) is one step, since the other threads touch that state only with the mutex;
  what the caller does without the mutex, resetting \<open>end_count\<close> and \<open>taskspos\<close>, are steps of their own.
\<close>

subsection \<open>The pool\<close>

text \<open>
  Where a thread is: about to lock the mutex, in \<open>pthread_cond_wait\<close>, woken from it and about to get the mutex back,
  holding a task (\<open>None\<close> is the null function that asks it to exit), or at its end. The caller is outside, at the
  three stages of \<open>workerpool_run\<close> around its wait, or in \<open>workerpool_destroy\<close>.
\<close>

datatype 'a worker = Ready | Waiting | Woken | Holding "'a option" | Exited

datatype caller = Idle | Called | Zeroed | Blocked | Notified | Passed | Destroying | Joining | Gone

record 'a workerpool =
  wp_nthreads :: int
  wp_tasks :: "'a option list"
  wp_taskspos :: nat
  wp_threads :: "'a worker list"
  wp_end_count :: int
  wp_caller :: caller
  wp_calls :: "'a list"

definition workerpool_create :: "int \<Rightarrow> cerr + 'a workerpool" where
  "workerpool_create nthreads =
     bindE (assertE (nthreads > 0)) (\<lambda>_.
     Inr \<lparr>wp_nthreads = nthreads, wp_tasks = [], wp_taskspos = 0,
       wp_threads = (if nthreads > 1 then replicate (nat nthreads) Ready else []),
       wp_end_count = 0, wp_caller = Idle, wp_calls = []\<rparr>)"

definition workerpool_get_nthreads :: "'a workerpool \<Rightarrow> int" where
  "workerpool_get_nthreads wp = wp_nthreads wp"

definition workerpool_add_task :: "'a workerpool \<Rightarrow> 'a option \<Rightarrow> 'a workerpool" where
  "workerpool_add_task wp t = wp\<lparr>wp_tasks := wp_tasks wp @ [t]\<rparr>"

text \<open>\<open>pthread_cond_broadcast\<close> on the two conditions.\<close>

fun wake :: "'a worker \<Rightarrow> 'a worker" where
  "wake Waiting = Woken"
| "wake t = t"

definition broadcast_startcond :: "'a workerpool \<Rightarrow> 'a workerpool" where
  "broadcast_startcond wp = wp\<lparr>wp_threads := map wake (wp_threads wp)\<rparr>"

definition broadcast_endcond :: "'a workerpool \<Rightarrow> 'a workerpool" where
  "broadcast_endcond wp = wp\<lparr>wp_caller := (if wp_caller wp = Blocked then Notified else wp_caller wp)\<rparr>"

subsection \<open>A thread\<close>

text \<open>With the mutex: take the next task, or count this thread as done and wait.\<close>

definition worker_lock :: "nat \<Rightarrow> 'a workerpool \<Rightarrow> 'a workerpool" where
  "worker_lock i wp =
     (if wp_taskspos wp = length (wp_tasks wp)
      then broadcast_endcond (wp\<lparr>wp_end_count := wp_end_count wp + 1, wp_threads := (wp_threads wp)[i := Waiting]\<rparr>)
      else wp\<lparr>wp_taskspos := wp_taskspos wp + 1, wp_threads := (wp_threads wp)[i := Holding (wp_tasks wp ! wp_taskspos wp)]\<rparr>)"

text \<open>Without it: leave on the null function, otherwise call it.\<close>

definition worker_call :: "nat \<Rightarrow> 'a option \<Rightarrow> 'a workerpool \<Rightarrow> 'a workerpool" where
  "worker_call i task wp =
     (case task of
        None \<Rightarrow> wp\<lparr>wp_threads := (wp_threads wp)[i := Exited]\<rparr>
      | Some a \<Rightarrow> wp\<lparr>wp_threads := (wp_threads wp)[i := Ready], wp_calls := wp_calls wp @ [a]\<rparr>)"

subsection \<open>The caller\<close>

definition workerpool_run :: "'a workerpool \<Rightarrow> 'a workerpool" where
  "workerpool_run wp = wp\<lparr>wp_caller := Called, wp_calls := []\<rparr>"

text \<open>The condition of the loop around \<open>pthread_cond_wait\<close>.\<close>

definition run_check :: "'a workerpool \<Rightarrow> 'a workerpool" where
  "run_check wp = wp\<lparr>wp_caller := (if wp_end_count wp < wp_nthreads wp then Blocked else Passed)\<rparr>"

definition workerpool_destroy :: "'a workerpool \<Rightarrow> 'a workerpool" where
  "workerpool_destroy wp =
     (foldl workerpool_add_task wp (replicate (nat (wp_nthreads wp)) None))\<lparr>wp_caller := Destroying\<rparr>"

fun run_step :: "caller \<Rightarrow> 'a workerpool \<Rightarrow> 'a workerpool option" where
  "run_step Called wp = Some (wp\<lparr>wp_end_count := 0, wp_caller := Zeroed\<rparr>)"
| "run_step Zeroed wp = Some (run_check (broadcast_startcond wp))"
| "run_step Notified wp = Some (run_check wp)"
| "run_step Passed wp = Some (wp\<lparr>wp_taskspos := 0, wp_tasks := [], wp_caller := Idle\<rparr>)"
| "run_step Destroying wp = Some ((broadcast_startcond wp)\<lparr>wp_caller := Joining\<rparr>)"
| "run_step Joining wp = (if list_all (\<lambda>t. case t of Exited \<Rightarrow> True | _ \<Rightarrow> False) (wp_threads wp) then Some (wp\<lparr>wp_caller := Gone\<rparr>) else None)"
| "run_step _ wp = None"

text \<open>A pool of one thread runs the tasks itself; calling a null function is a failure.\<close>

definition workerpool_run_single :: "'a workerpool \<Rightarrow> cerr + 'a workerpool" where
  "workerpool_run_single wp =
     bindE (foldE (\<lambda>wp i. case wp_tasks wp ! i of None \<Rightarrow> Inl OutOfBounds | Some a \<Rightarrow> Inr (wp\<lparr>wp_calls := wp_calls wp @ [a]\<rparr>))
       [0..<length (wp_tasks wp)] (wp\<lparr>wp_calls := []\<rparr>)) (\<lambda>wp.
     Inr (wp\<lparr>wp_tasks := []\<rparr>))"

text \<open>
  The steps of the whole. \<open>spurious\<close> says whether \<open>pthread_cond_wait\<close> may also return without a signal, which POSIX
  allows. Taking a task at a position past the end fails an assertion of \<open>zarray_get_volatile\<close>; the relation has no such step.
\<close>

inductive wp_step :: "bool \<Rightarrow> 'a workerpool \<Rightarrow> 'a workerpool \<Rightarrow> bool" for spurious where
  lock: "\<lbrakk>i < length (wp_threads wp); wp_threads wp ! i = Ready \<or> wp_threads wp ! i = Woken; wp_taskspos wp \<le> length (wp_tasks wp)\<rbrakk> \<Longrightarrow>
    wp_step spurious wp (worker_lock i wp)"
| call: "\<lbrakk>i < length (wp_threads wp); wp_threads wp ! i = Holding task\<rbrakk> \<Longrightarrow> wp_step spurious wp (worker_call i task wp)"
| caller: "run_step (wp_caller wp) wp = Some wp' \<Longrightarrow> wp_step spurious wp wp'"
| spurious: "\<lbrakk>spurious; i < length (wp_threads wp); wp_threads wp ! i = Waiting\<rbrakk> \<Longrightarrow>
    wp_step spurious wp (wp\<lparr>wp_threads := (wp_threads wp)[i := Woken]\<rparr>)"

inductive_cases wp_stepE: "wp_step sp wp wp'"

subsection \<open>Sums over the threads\<close>

lemma sum_list_update_cancel:
  fixes f :: "'b \<Rightarrow> 'c::cancel_comm_monoid_add"
  assumes "i < length xs"
  shows "sum_list (map f (xs[i := x])) + f (xs ! i) = sum_list (map f xs) + f x"
  using assms
proof (induction xs arbitrary: i)
  case (Cons y ys)
  then show ?case by (cases i) (simp_all add: ac_simps)
qed simp

fun hold :: "'a worker \<Rightarrow> 'a multiset" where
  "hold (Holding (Some a)) = {#a#}"
| "hold _ = {#}"

fun waits :: "'a worker \<Rightarrow> nat" where
  "waits Waiting = 1"
| "waits _ = 0"

definition held :: "'a worker list \<Rightarrow> 'a multiset" where
  "held ths = sum_list (map hold ths)"

definition waiting :: "'a worker list \<Rightarrow> nat" where
  "waiting ths = sum_list (map waits ths)"

lemma held_update: "i < length ths \<Longrightarrow> held (ths[i := t]) + hold (ths ! i) = held ths + hold t"
  by (simp add: held_def sum_list_update_cancel)

lemma waiting_update: "i < length ths \<Longrightarrow> waiting (ths[i := t]) + waits (ths ! i) = waiting ths + waits t"
  by (simp add: waiting_def sum_list_update_cancel)

lemma waiting_le: "waiting ths \<le> length ths"
proof (induction ths)
  case (Cons t ths)
  have "waits t \<le> 1" by (cases t) simp_all
  then show ?case using Cons by (simp add: waiting_def)
qed (simp add: waiting_def)

lemma all_waiting: "waiting ths = length ths \<longleftrightarrow> set ths \<subseteq> {Waiting}"
proof (induction ths)
  case (Cons t ths)
  then show ?case using waiting_le [of ths] by (cases t) (auto simp: waiting_def)
qed (simp add: waiting_def)

lemma held_waiting: "set ths \<subseteq> {Waiting} \<Longrightarrow> held ths = {#}"
  by (induction ths) (simp_all add: held_def)

subsection \<open>A run\<close>

text \<open>A pool that no thread is at work in: the state in which \<open>workerpool_run\<close> expects it.\<close>

definition quiet :: "nat \<Rightarrow> 'a workerpool \<Rightarrow> bool" where
  "quiet n wp \<longleftrightarrow> wp_nthreads wp = int n \<and> length (wp_threads wp) = n \<and> set (wp_threads wp) \<subseteq> {Waiting} \<and> wp_taskspos wp = 0"

text \<open>
  The invariant of a run: while the caller waits, the tasks taken are those called and those held, a thread that waits
  has seen the end of the tasks, and \<open>end_count\<close> is the number of the threads that wait.
\<close>

definition working :: "nat \<Rightarrow> 'a list \<Rightarrow> 'a workerpool \<Rightarrow> bool" where
  "working n ts wp \<longleftrightarrow>
     wp_nthreads wp = int n \<and> length (wp_threads wp) = n \<and> wp_tasks wp = map Some ts \<and> wp_taskspos wp \<le> length ts \<and>
     Exited \<notin> set (wp_threads wp) \<and> Holding None \<notin> set (wp_threads wp) \<and>
     wp_end_count wp = int (waiting (wp_threads wp)) \<and>
     (Waiting \<in> set (wp_threads wp) \<longrightarrow> wp_taskspos wp = length ts) \<and>
     mset (wp_calls wp) + held (wp_threads wp) = mset (take (wp_taskspos wp) ts)"

fun run_inv :: "caller \<Rightarrow> nat \<Rightarrow> 'a list \<Rightarrow> 'a workerpool \<Rightarrow> bool" where
  "run_inv Called n ts wp \<longleftrightarrow> quiet n wp \<and> wp_tasks wp = map Some ts \<and> wp_calls wp = []"
| "run_inv Zeroed n ts wp \<longleftrightarrow> quiet n wp \<and> wp_tasks wp = map Some ts \<and> wp_calls wp = [] \<and> wp_end_count wp = 0"
| "run_inv Blocked n ts wp \<longleftrightarrow> working n ts wp \<and> waiting (wp_threads wp) < n"
| "run_inv Notified n ts wp \<longleftrightarrow> working n ts wp"
| "run_inv Passed n ts wp \<longleftrightarrow> working n ts wp \<and> waiting (wp_threads wp) = n"
| "run_inv Idle n ts wp \<longleftrightarrow> quiet n wp \<and> wp_tasks wp = [] \<and> mset (wp_calls wp) = mset ts"
| "run_inv _ n ts wp \<longleftrightarrow> False"

abbreviation in_run :: "nat \<Rightarrow> 'a list \<Rightarrow> 'a workerpool \<Rightarrow> bool" where
  "in_run n ts wp \<equiv> run_inv (wp_caller wp) n ts wp"

text \<open>A thread that steps is not waiting, so the caller waits or has just been notified.\<close>

lemma step_working:
  assumes "in_run n ts wp" "i < length (wp_threads wp)" "wp_threads wp ! i \<noteq> Waiting"
  shows "wp_caller wp = Blocked \<or> wp_caller wp = Notified" "working n ts wp"
proof -
  have nw: "\<not> set (wp_threads wp) \<subseteq> {Waiting}" using assms(2,3) nth_mem by blast
  have "waiting (wp_threads wp) \<noteq> length (wp_threads wp)" using nw all_waiting by blast
  then show "wp_caller wp = Blocked \<or> wp_caller wp = Notified" "working n ts wp"
    using assms(1) nw by (cases "wp_caller wp"; simp add: quiet_def working_def)+
qed

lemma lock_take:
  assumes w: "working n ts wp" and i: "i < length (wp_threads wp)" "wp_threads wp ! i = Ready \<or> wp_threads wp ! i = Woken"
    and pos: "wp_taskspos wp < length ts"
  shows "working n ts (worker_lock i wp)" "waiting (wp_threads (worker_lock i wp)) = waiting (wp_threads wp)"
proof -
  let ?t = "Holding (Some (ts ! wp_taskspos wp))"
  have eq: "worker_lock i wp = wp\<lparr>wp_taskspos := wp_taskspos wp + 1, wp_threads := (wp_threads wp)[i := ?t]\<rparr>"
    using w pos by (simp add: worker_lock_def working_def)
  have wt: "waiting ((wp_threads wp)[i := ?t]) = waiting (wp_threads wp)" using waiting_update [OF i(1), of ?t] i(2) by auto
  then show "waiting (wp_threads (worker_lock i wp)) = waiting (wp_threads wp)" unfolding eq by simp
  have "held ((wp_threads wp)[i := ?t]) = held (wp_threads wp) + {#ts ! wp_taskspos wp#}" using held_update [OF i(1), of ?t] i(2) by auto
  moreover have "mset (take (wp_taskspos wp + 1) ts) = mset (take (wp_taskspos wp) ts) + {#ts ! wp_taskspos wp#}"
    using pos by (simp add: take_Suc_conv_app_nth)
  moreover have "Waiting \<notin> set (wp_threads wp)" using w pos by (auto simp: working_def)
  moreover have "set ((wp_threads wp)[i := ?t]) \<subseteq> insert ?t (set (wp_threads wp))" by (rule set_update_subset_insert)
  ultimately show "working n ts (worker_lock i wp)"
    using w pos wt unfolding eq working_def by (auto simp flip: add.assoc)
qed

lemma lock_wait:
  assumes w: "working n ts wp" and i: "i < length (wp_threads wp)" "wp_threads wp ! i = Ready \<or> wp_threads wp ! i = Woken"
    and pos: "wp_taskspos wp = length ts"
  shows "working n ts (worker_lock i wp)" "waiting (wp_threads (worker_lock i wp)) = waiting (wp_threads wp) + 1"
    "wp_caller (worker_lock i wp) = (if wp_caller wp = Blocked then Notified else wp_caller wp)"
proof -
  have eq: "worker_lock i wp = broadcast_endcond (wp\<lparr>wp_end_count := wp_end_count wp + 1, wp_threads := (wp_threads wp)[i := Waiting]\<rparr>)"
    using w pos by (simp add: worker_lock_def working_def)
  show "wp_caller (worker_lock i wp) = (if wp_caller wp = Blocked then Notified else wp_caller wp)"
    unfolding eq by (simp add: broadcast_endcond_def)
  have wt: "waiting ((wp_threads wp)[i := Waiting]) = waiting (wp_threads wp) + 1" using waiting_update [OF i(1), of Waiting] i(2) by auto
  then show "waiting (wp_threads (worker_lock i wp)) = waiting (wp_threads wp) + 1" unfolding eq by (simp add: broadcast_endcond_def)
  have "held ((wp_threads wp)[i := Waiting]) = held (wp_threads wp)" using held_update [OF i(1), of Waiting] i(2) by auto
  moreover have "set ((wp_threads wp)[i := Waiting]) \<subseteq> insert Waiting (set (wp_threads wp))" by (rule set_update_subset_insert)
  ultimately show "working n ts (worker_lock i wp)"
    using w pos wt unfolding eq working_def broadcast_endcond_def by auto
qed

lemma call_working:
  assumes w: "working n ts wp" and i: "i < length (wp_threads wp)" "wp_threads wp ! i = Holding task"
  shows "working n ts (worker_call i task wp)" "waiting (wp_threads (worker_call i task wp)) = waiting (wp_threads wp)"
    "wp_caller (worker_call i task wp) = wp_caller wp"
proof -
  obtain a where a: "task = Some a"
  proof (cases task)
    case None
    then have "Holding None \<in> set (wp_threads wp)" using i nth_mem by metis
    then show thesis using w by (simp add: working_def)
  qed
  have eq: "worker_call i task wp = wp\<lparr>wp_threads := (wp_threads wp)[i := Ready], wp_calls := wp_calls wp @ [a]\<rparr>" by (simp add: worker_call_def a)
  show "wp_caller (worker_call i task wp) = wp_caller wp" unfolding eq by simp
  have wt: "waiting ((wp_threads wp)[i := Ready]) = waiting (wp_threads wp)" using waiting_update [OF i(1), of Ready] i(2) by simp
  then show "waiting (wp_threads (worker_call i task wp)) = waiting (wp_threads wp)" unfolding eq by simp
  have "held ((wp_threads wp)[i := Ready]) + {#a#} = held (wp_threads wp)" using held_update [OF i(1), of Ready] i(2) a by simp
  then have "mset (wp_calls wp @ [a]) + held ((wp_threads wp)[i := Ready]) = mset (wp_calls wp) + held (wp_threads wp)"
    by (metis add.assoc add.commute mset_append mset_single_iff)
  moreover have "set ((wp_threads wp)[i := Ready]) \<subseteq> insert Ready (set (wp_threads wp))" by (rule set_update_subset_insert)
  ultimately show "working n ts (worker_call i task wp)"
    using w wt unfolding eq working_def by auto
qed

text \<open>The caller's own steps.\<close>

lemma wake_all: "set ths \<subseteq> {Waiting} \<Longrightarrow> map wake ths = replicate (length ths) Woken"
  by (induction ths) simp_all

lemma sum_list_replicate_zero: "f x = 0 \<Longrightarrow> sum_list (map f (replicate n x)) = (0 :: 'b::comm_monoid_add)"
  by (induction n) simp_all

lemma begin_working:
  assumes "quiet n wp" "wp_tasks wp = map Some ts" "wp_calls wp = []" "wp_end_count wp = 0"
  shows "working n ts (broadcast_startcond wp)" "wp_threads (broadcast_startcond wp) = replicate n Woken"
proof -
  show th: "wp_threads (broadcast_startcond wp) = replicate n Woken"
    using assms(1) wake_all [of "wp_threads wp"] by (simp add: broadcast_startcond_def quiet_def)
  have "waiting (replicate n (Woken :: 'a worker)) = 0" "held (replicate n (Woken :: 'a worker)) = {#}"
    unfolding waiting_def held_def by (rule sum_list_replicate_zero; simp)+
  moreover have "wp_threads (broadcast_startcond wp) = map wake (wp_threads wp)" by (simp add: broadcast_startcond_def)
  ultimately show "working n ts (broadcast_startcond wp)"
    using assms th unfolding working_def broadcast_startcond_def quiet_def by auto
qed

lemma passed_quiet:
  assumes "working n ts wp" "waiting (wp_threads wp) = n" "1 \<le> n"
  shows "set (wp_threads wp) \<subseteq> {Waiting}" "wp_taskspos wp = length ts" "mset (wp_calls wp) = mset ts"
proof -
  show s: "set (wp_threads wp) \<subseteq> {Waiting}" using assms(1,2) all_waiting unfolding working_def by blast
  have "wp_threads wp \<noteq> []" using assms(1,3) by (auto simp: working_def)
  then have "Waiting \<in> set (wp_threads wp)" using s by (cases "wp_threads wp") auto
  then show "wp_taskspos wp = length ts" using assms(1) by (simp add: working_def)
  then show "mset (wp_calls wp) = mset ts" using assms(1) held_waiting [OF s] by (simp add: working_def)
qed

lemma check_working:
  assumes "working n ts wp"
  shows "in_run n ts (run_check wp)" "wp_caller (run_check wp) \<in> {Blocked, Passed}"
    "wp_threads (run_check wp) = wp_threads wp" "wp_tasks (run_check wp) = wp_tasks wp" "wp_taskspos (run_check wp) = wp_taskspos wp"
proof -
  have "working n ts (wp\<lparr>wp_caller := c\<rparr>)" for c using assms by (simp add: working_def)
  moreover have "waiting (wp_threads wp) \<le> n" using assms waiting_le by (auto simp: working_def)
  ultimately show "in_run n ts (run_check wp)" using assms by (auto simp: run_check_def working_def)
qed (simp_all add: run_check_def)

text \<open>What is left to do, with the weight of each thread and of the caller.\<close>

fun weight :: "'a worker \<Rightarrow> nat" where
  "weight (Holding _) = 2"
| "weight Ready = 1"
| "weight Woken = 1"
| "weight _ = 0"

fun caller_weight :: "nat \<Rightarrow> caller \<Rightarrow> nat" where
  "caller_weight n Called = 2 * n + 4"
| "caller_weight n Zeroed = 2 * n + 3"
| "caller_weight n Notified = 2"
| "caller_weight n Blocked = 1"
| "caller_weight n Passed = 1"
| "caller_weight n _ = 0"

definition left :: "nat \<Rightarrow> 'a workerpool \<Rightarrow> nat" where
  "left n wp = 2 * (3 * (length (wp_tasks wp) - wp_taskspos wp) + sum_list (map weight (wp_threads wp))) + caller_weight n (wp_caller wp)"

lemma weight_update: "i < length ths \<Longrightarrow> sum_list (map weight (ths[i := t])) + weight (ths ! i) = sum_list (map weight ths) + weight t"
  by (rule sum_list_update_cancel)

lemma caller_step:
  assumes inv: "in_run n ts wp" and n: "1 \<le> n" and st: "run_step (wp_caller wp) wp = Some wp'"
  shows "in_run n ts wp'" "left n wp' < left n wp"
proof -
  have 1: "in_run n ts wp' \<and> left n wp' < left n wp"
  proof (cases "wp_caller wp")
    case Called
    then show ?thesis using inv st by (auto simp: quiet_def left_def)
  next
    case Zeroed
    let ?b = "broadcast_startcond wp"
    have q: "quiet n wp" "wp_tasks wp = map Some ts" "wp_calls wp = []" "wp_end_count wp = 0" using inv Zeroed by simp_all
    note b = begin_working [OF q]
    note c = check_working [OF b(1)]
    have wp': "wp' = run_check ?b" using st Zeroed by simp
    have "sum_list (map weight (replicate n (Woken :: 'a worker))) = n" by (simp add: sum_list_replicate)
    moreover have "wp_tasks ?b = wp_tasks wp" "wp_taskspos ?b = wp_taskspos wp" by (simp_all add: broadcast_startcond_def)
    ultimately have "left n wp' < left n wp" using c(2-5) b(2) Zeroed unfolding wp' left_def by auto
    then show ?thesis using c(1) unfolding wp' by simp
  next
    case Notified
    have w: "working n ts wp" using inv Notified by simp
    note c = check_working [OF w]
    have wp': "wp' = run_check wp" using st Notified by simp
    have "left n wp' < left n wp" using c(2-5) Notified unfolding wp' left_def by auto
    then show ?thesis using c(1) unfolding wp' by simp
  next
    case Passed
    have w: "working n ts wp" "waiting (wp_threads wp) = n" using inv Passed by simp_all
    note p = passed_quiet [OF w n]
    have wp': "wp' = wp\<lparr>wp_taskspos := 0, wp_tasks := [], wp_caller := Idle\<rparr>" using st Passed by simp
    have "in_run n ts wp'" using w p unfolding wp' by (simp add: working_def quiet_def)
    moreover have "left n wp' < left n wp" using w p(2) Passed unfolding wp' by (simp add: left_def working_def)
    ultimately show ?thesis by simp
  qed (use inv st in simp_all)
  show "in_run n ts wp'" "left n wp' < left n wp" using 1 by simp_all
qed

lemma run_inv_step:
  assumes inv: "in_run n ts wp" and n: "1 \<le> n" and st: "wp_step False wp wp'"
  shows "in_run n ts wp' \<and> left n wp' < left n wp"
  using st
proof (cases rule: wp_step.cases)
  case (lock i)
  have nw: "wp_threads wp ! i \<noteq> Waiting" using lock(3) by auto
  note w = step_working [OF inv lock(2) nw]
  have tp: "wp_taskspos wp \<le> length ts" and tl: "wp_tasks wp = map Some ts" using w(2) by (simp_all add: working_def)
  have wi: "weight (wp_threads wp ! i) = 1" using lock(3) by auto
  show ?thesis
  proof (cases "wp_taskspos wp = length ts")
    case True
    note l = lock_wait [OF w(2) lock(2,3) True]
    have th: "wp_threads wp' = (wp_threads wp)[i := Waiting]" "wp_tasks wp' = wp_tasks wp" "wp_taskspos wp' = wp_taskspos wp"
      using True tl unfolding lock(1) by (simp_all add: worker_lock_def broadcast_endcond_def)
    have "in_run n ts wp'" using l(1,3) w(1) unfolding lock(1) by auto
    moreover have "left n wp' < left n wp"
      using weight_update [OF lock(2), of Waiting] wi l(3) w(1) th unfolding lock(1) left_def by auto
    ultimately show ?thesis by simp
  next
    case False
    then have lt: "wp_taskspos wp < length ts" using tp by simp
    note l = lock_take [OF w(2) lock(2,3) lt]
    have th: "wp_threads wp' = (wp_threads wp)[i := Holding (wp_tasks wp ! wp_taskspos wp)]" "wp_tasks wp' = wp_tasks wp"
      "wp_taskspos wp' = wp_taskspos wp + 1" "wp_caller wp' = wp_caller wp"
      using False tl unfolding lock(1) by (simp_all add: worker_lock_def)
    have "in_run n ts wp'" using l w(1) inv th(4) unfolding lock(1) by auto
    moreover have "left n wp' < left n wp"
      using weight_update [OF lock(2), of "Holding (wp_tasks wp ! wp_taskspos wp)"] wi lt th tl unfolding left_def by simp
    ultimately show ?thesis by simp
  qed
next
  case (call i task)
  have nw: "wp_threads wp ! i \<noteq> Waiting" using call(3) by simp
  note w = step_working [OF inv call(2) nw]
  note c = call_working [OF w(2) call(2,3)]
  have "in_run n ts wp'" using c w(1) inv unfolding call(1) by auto
  moreover have "left n wp' < left n wp"
    using weight_update [OF call(2), of Ready] weight_update [OF call(2), of Exited] call(3)
    unfolding call(1) left_def worker_call_def by (auto split: option.split)
  ultimately show ?thesis by simp
next
  case caller
  then show ?thesis using caller_step [OF inv n] by simp
qed simp

lemma run_progress:
  assumes "in_run n ts wp" "wp_caller wp \<noteq> Idle"
  shows "\<exists>wp'. wp_step sp wp wp'"
proof (cases "wp_caller wp = Blocked")
  case True
  then have w: "working n ts wp" "waiting (wp_threads wp) < n" using assms(1) by simp_all
  then obtain th where "th \<in> set (wp_threads wp)" "th \<noteq> Waiting" using all_waiting [of "wp_threads wp"] by (auto simp: working_def)
  then obtain i where i: "i < length (wp_threads wp)" "wp_threads wp ! i \<noteq> Waiting" by (metis in_set_conv_nth)
  show ?thesis
  proof (cases "wp_threads wp ! i")
    case (Holding task)
    then show ?thesis using call [OF i(1)] by blast
  next
    case Exited
    then have "Exited \<in> set (wp_threads wp)" using i(1) nth_mem by metis
    then show ?thesis using w(1) by (simp add: working_def)
  qed (use lock [OF i(1)] i(2) w(1) in \<open>auto simp: working_def\<close>)
next
  case False
  have "run_step (wp_caller wp) wp \<noteq> None" using False assms by (cases "wp_caller wp") simp_all
  then show ?thesis using caller by blast
qed

text \<open>The tasks are added and \<open>workerpool_run\<close> is called.\<close>

definition run_tasks :: "'a workerpool \<Rightarrow> 'a list \<Rightarrow> 'a workerpool" where
  "run_tasks wp ts = workerpool_run (foldl workerpool_add_task wp (map Some ts))"

lemma add_tasks: "foldl workerpool_add_task wp fs = wp\<lparr>wp_tasks := wp_tasks wp @ fs\<rparr>"
  by (induction fs arbitrary: wp) (simp_all add: workerpool_add_task_def)

lemma run_start:
  assumes "quiet n wp" "wp_tasks wp = []"
  shows "in_run n ts (run_tasks wp ts)" "left n (run_tasks wp ts) = 6 * length ts + 2 * n + 4"
proof -
  have "sum_list (map weight (wp_threads wp)) = 0"
  proof -
    have "map weight (wp_threads wp) = map (\<lambda>_. 0) (wp_threads wp)" using assms(1) by (auto simp: quiet_def)
    then show ?thesis by (simp only: sum_list_0)
  qed
  then show "in_run n ts (run_tasks wp ts)" "left n (run_tasks wp ts) = 6 * length ts + 2 * n + 4"
    using assms by (simp_all add: run_tasks_def workerpool_run_def add_tasks quiet_def left_def)
qed

lemma run_steps:
  assumes "(wp_step False ^^ k) (run_tasks wp ts) wp'" "quiet n wp" "wp_tasks wp = []" "1 \<le> n"
  shows "in_run n ts wp' \<and> left n wp' + k \<le> 6 * length ts + 2 * n + 4"
  using assms(1)
proof (induction k arbitrary: wp')
  case 0
  then show ?case using run_start [OF assms(2,3), of ts] by auto
next
  case (Suc k)
  then obtain v where v: "(wp_step False ^^ k) (run_tasks wp ts) v" "wp_step False v wp'" by auto
  have i: "in_run n ts v" "left n v + k \<le> 6 * length ts + 2 * n + 4" using Suc.IH [OF v(1)] by simp_all
  from run_inv_step [OF i(1) assms(4) v(2)] i(2) show ?case by simp
qed

lemma run_reach:
  assumes "(wp_step False)\<^sup>*\<^sup>* (run_tasks wp ts) wp'" "quiet n wp" "wp_tasks wp = []" "1 \<le> n"
  shows "in_run n ts wp'"
  using run_steps [OF _ assms(2-4)] rtranclp_imp_relpowp [OF assms(1)] by blast

lemma run_ends:
  assumes "in_run n ts wp" "1 \<le> n"
  shows "\<exists>wp'. (wp_step False)\<^sup>*\<^sup>* wp wp' \<and> in_run n ts wp' \<and> wp_caller wp' = Idle"
  using assms(1)
proof (induction "left n wp" arbitrary: wp rule: less_induct)
  case less
  show ?case
  proof (cases "wp_caller wp = Idle")
    case False
    obtain v where v: "wp_step False wp v" using run_progress [OF less.prems False] by blast
    then have "in_run n ts v" "left n v < left n wp" using run_inv_step [OF less.prems assms(2)] by simp_all
    from less.hyps [OF this(2,1)] v show ?thesis by (meson converse_rtranclp_into_rtranclp)
  qed (use less.prems in blast)
qed

subsection \<open>The order of the tasks\<close>

text \<open>The orders in which a pool may call the tasks it is given.\<close>

definition pool_order :: "int \<Rightarrow> 'a list \<Rightarrow> 'a list \<Rightarrow> bool" where
  "pool_order nthreads ts os \<longleftrightarrow>
     (\<exists>wp wp'. wp_nthreads wp = nthreads \<and> wp_tasks wp = [] \<and> wp_calls wp' = os \<and>
        (if nthreads > 1
         then quiet (nat nthreads) wp \<and> (wp_step False)\<^sup>*\<^sup>* (run_tasks wp ts) wp' \<and> wp_caller wp' = Idle
         else workerpool_run_single (foldl workerpool_add_task wp (map Some ts)) = Inr wp'))"

lemma run_single:
  assumes "wp_tasks wp = map Some ts"
  shows "workerpool_run_single wp = Inr (wp\<lparr>wp_calls := ts, wp_tasks := []\<rparr>)"
proof -
  let ?f = "\<lambda>wp i. case wp_tasks wp ! i of None \<Rightarrow> Inl OutOfBounds | Some a \<Rightarrow> Inr (wp\<lparr>wp_calls := wp_calls wp @ [a]\<rparr>)"
  have "foldE ?f [k..<k + m] (wp\<lparr>wp_calls := cs\<rparr>) = Inr (wp\<lparr>wp_calls := cs @ take m (drop k ts)\<rparr>)" if "k + m \<le> length ts" for k m cs
    using that
  proof (induction m arbitrary: k cs)
    case (Suc m)
    have "[k..<k + Suc m] = k # [Suc k..<Suc k + m]" by (simp add: upt_conv_Cons)
    moreover have "take (Suc m) (drop k ts) = ts ! k # take m (drop (Suc k) ts)" using Suc.prems by (simp add: Cons_nth_drop_Suc [symmetric])
    ultimately show ?case using Suc.IH [of "Suc k" "cs @ [ts ! k]"] Suc.prems assms by simp
  qed simp
  from this [of 0 "length ts" "[]"] assms show ?thesis by (simp add: workerpool_run_single_def)
qed

lemma pool_order_mset:
  assumes "pool_order nthreads ts os"
  shows "mset os = mset ts"
proof -
  obtain wp wp' where w: "wp_tasks wp = []" "wp_calls wp' = os"
    and r: "if nthreads > 1 then quiet (nat nthreads) wp \<and> (wp_step False)\<^sup>*\<^sup>* (run_tasks wp ts) wp' \<and> wp_caller wp' = Idle
      else workerpool_run_single (foldl workerpool_add_task wp (map Some ts)) = Inr wp'"
    using assms unfolding pool_order_def by blast
  show ?thesis
  proof (cases "nthreads > 1")
    case True
    then have q: "quiet (nat nthreads) wp" "(wp_step False)\<^sup>*\<^sup>* (run_tasks wp ts) wp'" "wp_caller wp' = Idle" "1 \<le> nat nthreads" using r by auto
    from run_reach [OF q(2,1) w(1) q(4)] q(3) w(2) show ?thesis by simp
  next
    case False
    then show ?thesis using r w run_single [of "foldl workerpool_add_task wp (map Some ts)" ts] by (auto simp: add_tasks)
  qed
qed

lemma pool_order_single:
  assumes "nthreads \<le> 1"
  shows "pool_order nthreads ts ts"
proof -
  define wp where "wp = \<lparr>wp_nthreads = nthreads, wp_tasks = [] :: 'a option list, wp_taskspos = 0,
    wp_threads = [], wp_end_count = 0, wp_caller = Idle, wp_calls = []\<rparr>"
  show ?thesis
    unfolding pool_order_def using assms run_single [of "foldl workerpool_add_task wp (map Some ts)" ts]
    by (intro exI [of _ wp] exI) (auto simp: wp_def add_tasks)
qed

lemma pool_order_ex: "\<exists>os. pool_order nthreads ts os"
proof (cases "nthreads > 1")
  case True
  define wp where "wp = \<lparr>wp_nthreads = nthreads, wp_tasks = [] :: 'a option list, wp_taskspos = 0,
    wp_threads = replicate (nat nthreads) Waiting, wp_end_count = 0, wp_caller = Idle, wp_calls = []\<rparr>"
  have q: "quiet (nat nthreads) wp" "wp_tasks wp = []" using True by (auto simp: quiet_def wp_def)
  have "1 \<le> nat nthreads" using True by simp
  from run_ends [OF run_start(1) [OF q] this, of ts] obtain wp' where
    "(wp_step False)\<^sup>*\<^sup>* (run_tasks wp ts) wp'" "wp_caller wp' = Idle" by blast
  then have "pool_order nthreads ts (wp_calls wp')"
    unfolding pool_order_def using q True by (intro exI [of _ wp] exI [of _ wp']) (simp add: wp_def)
  then show ?thesis by blast
next
  case False
  then show ?thesis using pool_order_single [of nthreads ts] by auto
qed

lemma pool_schedule: "\<exists>f. \<forall>ts. pool_order nthreads ts (f ts)"
  by (rule choice) (simp add: pool_order_ex)

subsection \<open>The end of the pool\<close>

text \<open>Every thread takes one of the null tasks, whose number is that of the threads.\<close>

fun woken :: "'a worker \<Rightarrow> nat" where
  "woken Woken = 1"
| "woken _ = 0"

definition leaving :: "nat \<Rightarrow> 'a workerpool \<Rightarrow> bool" where
  "leaving n wp \<longleftrightarrow> length (wp_threads wp) = n \<and> wp_tasks wp = replicate n None \<and>
     set (wp_threads wp) \<subseteq> {Woken, Holding None, Exited} \<and> wp_taskspos wp + sum_list (map woken (wp_threads wp)) = n"

definition end_inv :: "nat \<Rightarrow> 'a workerpool \<Rightarrow> bool" where
  "end_inv n wp \<longleftrightarrow>
     wp_caller wp = Destroying \<and> quiet n wp \<and> wp_tasks wp = replicate n None \<or>
     wp_caller wp = Joining \<and> leaving n wp \<or>
     wp_caller wp = Gone \<and> wp_threads wp = replicate n Exited"

fun exit_weight :: "'a worker \<Rightarrow> nat" where
  "exit_weight Woken = 2"
| "exit_weight (Holding _) = 1"
| "exit_weight _ = 0"

definition end_left :: "nat \<Rightarrow> 'a workerpool \<Rightarrow> nat" where
  "end_left n wp = sum_list (map exit_weight (wp_threads wp)) +
     (case wp_caller wp of Destroying \<Rightarrow> 2 * n + 2 | Joining \<Rightarrow> 1 | _ \<Rightarrow> 0)"

lemma all_exited: "list_all (\<lambda>t. case t of Exited \<Rightarrow> True | _ \<Rightarrow> False) ths \<longleftrightarrow> ths = replicate (length ths) Exited"
proof (induction ths)
  case (Cons t ths)
  then show ?case by (cases t) auto
qed simp

lemma end_inv_step:
  assumes inv: "end_inv n wp" and st: "wp_step False wp wp'"
  shows "end_inv n wp' \<and> end_left n wp' < end_left n wp"
  using st
proof (cases rule: wp_step.cases)
  case (lock i)
  have th: "wp_threads wp ! i \<in> set (wp_threads wp)" using lock(2) by simp
  then have l: "leaving n wp" "wp_caller wp = Joining" using inv lock(3) unfolding end_inv_def quiet_def by auto
  then have w: "wp_threads wp ! i = Woken" using lock(3) th unfolding leaving_def by auto
  note u = sum_list_update_cancel [OF lock(2), of woken "Holding None", unfolded w]
    sum_list_update_cancel [OF lock(2), of exit_weight "Holding None", unfolded w]
  have pos: "wp_taskspos wp < n" using l(1) u(1) unfolding leaving_def by simp
  then have eq: "wp' = wp\<lparr>wp_taskspos := wp_taskspos wp + 1, wp_threads := (wp_threads wp)[i := Holding None]\<rparr>"
    using l(1) unfolding lock(1) worker_lock_def leaving_def by simp
  have "set ((wp_threads wp)[i := Holding None]) \<subseteq> insert (Holding None) (set (wp_threads wp))" by (rule set_update_subset_insert)
  then have "leaving n wp'" using l(1) u(1) unfolding eq leaving_def by auto
  then show ?thesis using l(2) u(2) unfolding end_inv_def eq end_left_def by simp
next
  case (call i task)
  have th: "wp_threads wp ! i \<in> set (wp_threads wp)" using call(2) by simp
  then have l: "leaving n wp" "wp_caller wp = Joining" using inv call(3) unfolding end_inv_def quiet_def by auto
  then have w: "task = None" using call(3) th unfolding leaving_def by auto
  note u = sum_list_update_cancel [OF call(2), of woken Exited, unfolded call(3)]
    sum_list_update_cancel [OF call(2), of exit_weight Exited, unfolded call(3)]
  have eq: "wp' = wp\<lparr>wp_threads := (wp_threads wp)[i := Exited]\<rparr>" unfolding call(1) w worker_call_def by simp
  have "set ((wp_threads wp)[i := Exited]) \<subseteq> insert Exited (set (wp_threads wp))" by (rule set_update_subset_insert)
  then have "leaving n wp'" using l(1) u(1) unfolding eq leaving_def by auto
  then show ?thesis using l(2) u(2) unfolding end_inv_def eq end_left_def by simp
next
  case caller
  show ?thesis
  proof (cases "wp_caller wp = Destroying")
    case True
    then have q: "quiet n wp" "wp_tasks wp = replicate n None" using inv by (simp_all add: end_inv_def)
    have eq: "wp' = (broadcast_startcond wp)\<lparr>wp_caller := Joining\<rparr>" using caller True by simp
    have th: "wp_threads wp' = replicate n Woken" using wake_all [of "wp_threads wp"] q(1) unfolding eq by (simp add: broadcast_startcond_def quiet_def)
    have "leaving n wp'" using q th unfolding leaving_def eq by (auto simp: broadcast_startcond_def quiet_def sum_list_replicate)
    then show ?thesis using True th unfolding end_inv_def end_left_def eq by (simp add: sum_list_replicate)
  next
    case False
    then have J: "wp_caller wp = Joining" "leaving n wp" using caller inv by (auto simp: end_inv_def)
    then have th: "wp' = wp\<lparr>wp_caller := Gone\<rparr>" "wp_threads wp = replicate n Exited"
      using caller by (simp_all add: all_exited leaving_def split: if_splits)
    then show ?thesis using J unfolding end_inv_def end_left_def by simp
  qed
qed simp

lemma end_progress:
  assumes "end_inv n wp" "wp_caller wp \<noteq> Gone"
  shows "\<exists>wp'. wp_step sp wp wp'"
proof (cases "wp_caller wp = Joining \<and> wp_threads wp \<noteq> replicate n Exited")
  case True
  then have l: "leaving n wp" using assms(1) by (auto simp: end_inv_def)
  then have "\<not> (\<forall>t \<in> set (wp_threads wp). t = Exited)" using True by (auto simp: leaving_def intro: replicate_eqI)
  then obtain i where i: "i < length (wp_threads wp)" "wp_threads wp ! i \<noteq> Exited" by (metis in_set_conv_nth)
  then have "wp_threads wp ! i = Woken \<or> wp_threads wp ! i = Holding None" using l nth_mem unfolding leaving_def by blast
  moreover have "wp_taskspos wp \<le> length (wp_tasks wp)" using l by (simp add: leaving_def)
  ultimately show ?thesis using lock [OF i(1)] call [OF i(1)] by metis
next
  case False
  have "run_step (wp_caller wp) wp \<noteq> None"
    using False assms unfolding end_inv_def by (auto simp: all_exited leaving_def)
  then show ?thesis using caller by blast
qed

lemma end_start:
  assumes "quiet n wp" "wp_tasks wp = []"
  shows "end_inv n (workerpool_destroy wp)" "end_left n (workerpool_destroy wp) = 2 * n + 2"
proof -
  have "sum_list (map exit_weight (wp_threads wp)) = 0"
  proof -
    have "map exit_weight (wp_threads wp) = map (\<lambda>_. 0) (wp_threads wp)" using assms(1) by (auto simp: quiet_def)
    then show ?thesis by (simp only: sum_list_0)
  qed
  then show "end_inv n (workerpool_destroy wp)" "end_left n (workerpool_destroy wp) = 2 * n + 2"
    using assms by (simp_all add: workerpool_destroy_def add_tasks end_inv_def quiet_def end_left_def)
qed

lemma end_steps:
  assumes "(wp_step False ^^ k) (workerpool_destroy wp) wp'" "quiet n wp" "wp_tasks wp = []"
  shows "end_inv n wp' \<and> end_left n wp' + k \<le> 2 * n + 2"
  using assms(1)
proof (induction k arbitrary: wp')
  case 0
  then show ?case using end_start [OF assms(2,3)] by auto
next
  case (Suc k)
  then obtain v where v: "(wp_step False ^^ k) (workerpool_destroy wp) v" "wp_step False v wp'" by auto
  have i: "end_inv n v" "end_left n v + k \<le> 2 * n + 2" using Suc.IH [OF v(1)] by simp_all
  from end_inv_step [OF i(1) v(2)] i(2) show ?case by simp
qed

subsection \<open>The start of the pool\<close>

text \<open>Left alone, the threads of a new pool end up waiting; only then is the pool as a run expects it.\<close>

lemma created_settles:
  assumes "workerpool_create nthreads = Inr wp0" "nthreads > 1" "(wp_step False)\<^sup>*\<^sup>* wp0 wp" "\<nexists>wp'. wp_step False wp wp'"
  shows "quiet (nat nthreads) wp" "wp_tasks wp = []"
proof -
  let ?inv = "\<lambda>wp. wp_nthreads wp = nthreads \<and> length (wp_threads wp) = nat nthreads \<and> set (wp_threads wp) \<subseteq> {Ready, Waiting} \<and>
    wp_taskspos wp = 0 \<and> wp_tasks wp = [] \<and> wp_caller wp = Idle"
  have "?inv wp0" using assms(1,2) by (auto simp: workerpool_create_def)
  with assms(3) have inv: "?inv wp"
  proof (induction rule: rtranclp_induct)
    case (step v v')
    have i: "?inv v" using step by simp
    from step(2) show ?case
    proof (cases rule: wp_step.cases)
      case (lock j)
      then have "v' = broadcast_endcond (v\<lparr>wp_end_count := wp_end_count v + 1, wp_threads := (wp_threads v)[j := Waiting]\<rparr>)"
        using i by (simp add: worker_lock_def)
      then show ?thesis using i set_update_subset_insert [of "wp_threads v" j Waiting] by (auto simp: broadcast_endcond_def)
    next
      case (call j task)
      then have "Holding task \<in> set (wp_threads v)" using nth_mem by metis
      then show ?thesis using i by auto
    qed (use i in simp_all)
  qed
  have "Ready \<notin> set (wp_threads wp)"
  proof
    assume "Ready \<in> set (wp_threads wp)"
    then obtain j where "j < length (wp_threads wp)" "wp_threads wp ! j = Ready" by (metis in_set_conv_nth)
    then show False using lock [of j wp False] assms(4) inv by auto
  qed
  then show "quiet (nat nthreads) wp" "wp_tasks wp = []" using inv assms(2) by (auto simp: quiet_def)
qed

text \<open>Steps one after the other.\<close>

lemma then_lock:
  "(wp_step sp)\<^sup>*\<^sup>* s wp \<Longrightarrow> i < length (wp_threads wp) \<Longrightarrow> wp_threads wp ! i = Ready \<or> wp_threads wp ! i = Woken \<Longrightarrow>
    wp_taskspos wp \<le> length (wp_tasks wp) \<Longrightarrow> (wp_step sp)\<^sup>*\<^sup>* s (worker_lock i wp)"
  by (blast intro: rtranclp.rtrancl_into_rtrancl lock)

lemma then_caller: "(wp_step sp)\<^sup>*\<^sup>* s wp \<Longrightarrow> run_step (wp_caller wp) wp = Some wp' \<Longrightarrow> (wp_step sp)\<^sup>*\<^sup>* s wp'"
  by (blast intro: rtranclp.rtrancl_into_rtrancl caller)

lemma then_spurious: "(wp_step True)\<^sup>*\<^sup>* s wp \<Longrightarrow> i < length (wp_threads wp) \<Longrightarrow> wp_threads wp ! i = Waiting \<Longrightarrow>
    (wp_step True)\<^sup>*\<^sup>* s (wp\<lparr>wp_threads := (wp_threads wp)[i := Woken]\<rparr>)"
  by (blast intro: rtranclp.rtrancl_into_rtrancl spurious)

subsection \<open>Properties\<close>

text \<open>C16: In a pool whose threads all wait, and without spurious wakeups, \<open>workerpool_run\<close> returns only when every task
  has been called exactly once, and leaves the pool as it found it, ready for the next run. Whenever the caller touches the
  shared fields without the mutex, all threads wait.\<close>

theorem workerpool_run_correct:
  assumes "quiet n wp" "2 \<le> n" "wp_tasks wp = []" "(wp_step False)\<^sup>*\<^sup>* (run_tasks wp ts) wp'"
  shows "(wp_caller wp' = Idle \<longrightarrow> mset (wp_calls wp') = mset ts \<and> quiet n wp' \<and> wp_tasks wp' = []) \<and>
    (wp_caller wp' \<in> {Called, Zeroed, Passed} \<longrightarrow> set (wp_threads wp') \<subseteq> {Waiting})"
proof -
  have n: "1 \<le> n" using assms(2) by simp
  have i: "in_run n ts wp'" using run_reach [OF assms(4,1,3) n] .
  have "set (wp_threads wp') \<subseteq> {Waiting}" if "wp_caller wp' = Passed" using passed_quiet(1) [OF _ _ n] i that by auto
  then show ?thesis using i by (cases "wp_caller wp'") (simp_all add: quiet_def)
qed

text \<open>C17: A run never gets stuck and takes at most \<open>6 * length ts + 2 * n + 4\<close> steps, in whatever order the threads are
  scheduled: as long as the caller has not returned some thread can go on, so no signal is lost.\<close>

theorem workerpool_run_terminates:
  assumes "quiet n wp" "2 \<le> n" "wp_tasks wp = []" "(wp_step False ^^ k) (run_tasks wp ts) wp'"
  shows "k \<le> 6 * length ts + 2 * n + 4 \<and> (wp_caller wp' \<noteq> Idle \<longrightarrow> (\<exists>wp''. wp_step False wp' wp''))"
proof -
  have "in_run n ts wp' \<and> left n wp' + k \<le> 6 * length ts + 2 * n + 4" using run_steps [OF assms(4,1,3)] assms(2) by simp
  then show ?thesis using run_progress by fastforce
qed

text \<open>C33: \<open>workerpool_destroy\<close> makes every thread take one null task and exit: it gets the mutex and joins the threads after
  at most \<open>2 * n + 2\<close> steps, none of them gets stuck before, and at the end all have exited.\<close>

theorem workerpool_destroy_joins:
  assumes "quiet n wp" "wp_tasks wp = []" "(wp_step False ^^ k) (workerpool_destroy wp) wp'"
  shows "k \<le> 2 * n + 2 \<and> (wp_caller wp' \<noteq> Gone \<longrightarrow> (\<exists>wp''. wp_step False wp' wp'')) \<and>
    (wp_caller wp' = Gone \<longrightarrow> wp_threads wp' = replicate n Exited)"
proof -
  have i: "end_inv n wp'" "end_left n wp' + k \<le> 2 * n + 2" using end_steps [OF assms(3,1,2)] by simp_all
  then show ?thesis using end_progress by (fastforce simp: end_inv_def)
qed

text \<open>C40: \<open>end_count\<close> counts how often threads found no task, not which: a thread of a new pool that first waits between
  the reset of \<open>end_count\<close> and the broadcast is counted twice, as is a thread with a spurious wakeup. Then
  \<open>workerpool_run\<close> returns and clears the tasks while another thread still holds one.\<close>

theorem workerpool_run_early:
  "\<exists>wp. bindE (workerpool_create 2) (\<lambda>wp0. Inr (run_tasks wp0 [a])) = Inr wp \<and>
    (\<exists>wp'. (wp_step False)\<^sup>*\<^sup>* wp wp' \<and> wp_caller wp' = Idle \<and> wp_calls wp' = [] \<and> wp_tasks wp' = [] \<and> Holding (Some a) \<in> set (wp_threads wp')) \<and>
   (\<exists>wp0 wp'. quiet 2 wp0 \<and> wp_tasks wp0 = [] \<and> (wp_step True)\<^sup>*\<^sup>* (run_tasks wp0 [a]) wp' \<and>
     wp_caller wp' = Idle \<and> wp_calls wp' = [] \<and> Holding (Some a) \<in> set (wp_threads wp'))"
proof -
  define P where "P pos ths e c = \<lparr>wp_nthreads = 2, wp_tasks = [Some a], wp_taskspos = pos, wp_threads = ths, wp_end_count = e, wp_caller = c, wp_calls = []\<rparr>"
    for pos ths e c
  note S = P_def worker_lock_def broadcast_endcond_def broadcast_startcond_def run_check_def run_tasks_def workerpool_run_def workerpool_add_task_def numeral_2_eq_2
  define Q where "Q = \<lparr>wp_nthreads = 2, wp_tasks = [] :: 'a option list, wp_taskspos = 0, wp_threads = [Waiting, Waiting], wp_end_count = 0,
    wp_caller = Idle, wp_calls = []\<rparr>"
  let ?h = "Holding (Some a)"
  let ?wp = "P 0 [Ready, Ready] 0 Called"
  have "(wp_step False)\<^sup>*\<^sup>* ?wp (P 0 [Ready, Ready] 0 Zeroed)" by (rule then_caller [OF rtranclp.rtrancl_refl]) (simp add: S)
  from then_lock [OF this, of 1] have "(wp_step False)\<^sup>*\<^sup>* ?wp (P 1 [Ready, ?h] 0 Zeroed)" by (simp add: S)
  from then_lock [OF this, of 0] have "(wp_step False)\<^sup>*\<^sup>* ?wp (P 1 [Waiting, ?h] 1 Zeroed)" by (simp add: S)
  from then_caller [OF this] have "(wp_step False)\<^sup>*\<^sup>* ?wp (P 1 [Woken, ?h] 1 Blocked)" by (simp add: S)
  from then_lock [OF this, of 0] have "(wp_step False)\<^sup>*\<^sup>* ?wp (P 1 [Waiting, ?h] 2 Notified)" by (simp add: S)
  from then_caller [OF this] have "(wp_step False)\<^sup>*\<^sup>* ?wp (P 1 [Waiting, ?h] 2 Passed)" by (simp add: S)
  from then_caller [OF this] have late: "(wp_step False)\<^sup>*\<^sup>* ?wp ((P 0 [Waiting, ?h] 2 Idle)\<lparr>wp_tasks := []\<rparr>)" by (simp add: S)
  have new: "bindE (workerpool_create 2) (\<lambda>wp0. Inr (run_tasks wp0 [a])) = Inr ?wp" by (simp add: S workerpool_create_def)
  let ?v = "run_tasks Q [a]"
  have v: "?v = P 0 [Waiting, Waiting] 0 Called" by (simp add: Q_def S)
  have "(wp_step True)\<^sup>*\<^sup>* ?v (P 0 [Waiting, Waiting] 0 Zeroed)" unfolding v by (rule then_caller [OF rtranclp.rtrancl_refl]) (simp add: S)
  from then_caller [OF this] have "(wp_step True)\<^sup>*\<^sup>* ?v (P 0 [Woken, Woken] 0 Blocked)" by (simp add: P_def broadcast_startcond_def run_check_def)
  from then_lock [OF this, of 1] have "(wp_step True)\<^sup>*\<^sup>* ?v (P 1 [Woken, ?h] 0 Blocked)" by (simp add: P_def worker_lock_def)
  from then_lock [OF this, of 0] have "(wp_step True)\<^sup>*\<^sup>* ?v (P 1 [Waiting, ?h] 1 Notified)" by (simp add: P_def worker_lock_def broadcast_endcond_def)
  from then_spurious [OF this, of 0] have "(wp_step True)\<^sup>*\<^sup>* ?v (P 1 [Woken, ?h] 1 Notified)" by (simp add: P_def)
  from then_lock [OF this, of 0] have "(wp_step True)\<^sup>*\<^sup>* ?v (P 1 [Waiting, ?h] 2 Notified)" by (simp add: P_def worker_lock_def broadcast_endcond_def)
  from then_caller [OF this] have "(wp_step True)\<^sup>*\<^sup>* ?v (P 1 [Waiting, ?h] 2 Passed)" by (simp add: P_def run_check_def)
  from then_caller [OF this] have "(wp_step True)\<^sup>*\<^sup>* ?v ((P 0 [Waiting, ?h] 2 Idle)\<lparr>wp_tasks := []\<rparr>)" by (simp add: P_def)
  moreover have "quiet 2 Q" "wp_tasks Q = []" by (simp_all add: Q_def quiet_def)
  ultimately have spur: "\<exists>wp0 wp'. quiet 2 wp0 \<and> wp_tasks wp0 = [] \<and> (wp_step True)\<^sup>*\<^sup>* (run_tasks wp0 [a]) wp' \<and>
     wp_caller wp' = Idle \<and> wp_calls wp' = [] \<and> Holding (Some a) \<in> set (wp_threads wp')"
    by (intro exI [of _ Q] exI [of _ "(P 0 [Waiting, ?h] 2 Idle)\<lparr>wp_tasks := []\<rparr>"]) (simp add: P_def)
  show ?thesis
    by (intro exI [of _ ?wp] conjI new spur exI [of _ "(P 0 [Waiting, ?h] 2 Idle)\<lparr>wp_tasks := []\<rparr>"] late) (simp_all add: P_def)
qed

subsection \<open>Witnesses\<close>

definition two_threads :: "nat workerpool" where
  "two_threads = \<lparr>wp_nthreads = 2, wp_tasks = [], wp_taskspos = 0, wp_threads = [Waiting, Waiting], wp_end_count = 2, wp_caller = Idle, wp_calls = []\<rparr>"

lemma two_quiet: "quiet 2 two_threads" "wp_tasks two_threads = []"
  by (simp_all add: quiet_def two_threads_def)

lemma workerpool_run_correct_witness:
  "\<exists>wp'. (wp_step False)\<^sup>*\<^sup>* (run_tasks two_threads [7, 8, 9]) wp' \<and> wp_caller wp' = Idle \<and> mset (wp_calls wp') = {#7, 8, 9#}"
proof -
  obtain wp' where wp': "(wp_step False)\<^sup>*\<^sup>* (run_tasks two_threads [7, 8, 9]) wp'" "wp_caller wp' = Idle"
    using run_ends [OF run_start(1) [OF two_quiet]] by auto
  from workerpool_run_correct [OF two_quiet(1) order_refl two_quiet(2) wp'(1)] wp' show ?thesis by auto
qed

lemma workerpool_run_terminates_witness:
  "\<exists>wp'. (wp_step False ^^ 0) (run_tasks two_threads [7, 8, 9]) wp' \<and> (\<exists>wp''. wp_step False wp' wp'')"
  using workerpool_run_terminates [OF two_quiet(1) order_refl two_quiet(2), of 0 "[7, 8, 9]" "run_tasks two_threads [7, 8, 9]"]
  by (simp add: run_tasks_def workerpool_run_def)

lemma workerpool_destroy_joins_witness:
  "\<exists>wp'. (wp_step False ^^ 0) (workerpool_destroy two_threads) wp' \<and> (\<exists>wp''. wp_step False wp' wp'')"
  using workerpool_destroy_joins [OF two_quiet, of 0 "workerpool_destroy two_threads"]
  by (simp add: workerpool_destroy_def)

end
