(* ===== verification/Matd.thy ===== *)
theory Matd
  imports Complex_Main Prelude
begin

text \<open>
  The matrices of \<open>common/matd.c\<close>: their layout, access to the elements and the arithmetic. The code computes in floats; the
  elements are here those of an ordered field, without rounding.

  \<open>mat r c f\<close> is the matrix whose element in row \<open>i\<close> and column \<open>j\<close> is \<open>f i j\<close>. The lemmas say what the operations do to such
  matrices, so that they can be used as rewrite rules.
\<close>

named_theorems matd "what the operations do to matrices given by their elements"

subsection \<open>Floating-point operations\<close>

definition fdiv :: "'f::field \<Rightarrow> 'f \<Rightarrow> cerr + 'f" where
  "fdiv x y = (if y = 0 then Inl NotANumber else Inr (x / y))"

lemma fdiv_ok [cmem]: "y \<noteq> 0 \<Longrightarrow> fdiv x y = Inr (x / y)"
  by (simp add: fdiv_def)

lemma fdiv_InrE [elim!]: "fdiv x y = Inr z \<Longrightarrow> (y \<noteq> 0 \<Longrightarrow> z = x / y \<Longrightarrow> P) \<Longrightarrow> P"
  by (auto simp: fdiv_def split: if_splits)

subsection \<open>Layout\<close>

record 'f matd =
  matd_nrows :: nat
  matd_ncols :: nat
  matd_data :: "'f list"

definition MATD_EL :: "'f matd \<Rightarrow> nat \<Rightarrow> nat \<Rightarrow> cerr + 'f" where
  "MATD_EL m row col = arr_get (matd_data m) (row * matd_ncols m + col)"

text \<open>An assignment to \<open>MATD_EL\<close>.\<close>

definition matd_el_set :: "'f matd \<Rightarrow> nat \<Rightarrow> nat \<Rightarrow> 'f \<Rightarrow> cerr + 'f matd" where
  "matd_el_set m row col v = bindE (arr_set (matd_data m) (row * matd_ncols m + col) v) (\<lambda>d. Inr (m\<lparr>matd_data := d\<rparr>))"

definition matd_create_scalar :: "'f \<Rightarrow> 'f matd" where
  "matd_create_scalar v = \<lparr>matd_nrows = 0, matd_ncols = 0, matd_data = [v]\<rparr>"

definition matd_create :: "int \<Rightarrow> int \<Rightarrow> cerr + 'f::linordered_field matd" where
  "matd_create rows cols =
     bindE (assertE (rows \<ge> 0)) (\<lambda>_. bindE (assertE (cols \<ge> 0)) (\<lambda>_.
     if rows = 0 \<or> cols = 0 then Inr (matd_create_scalar 0)
     else bindE (cint (rows * cols)) (\<lambda>n.
       Inr \<lparr>matd_nrows = nat rows, matd_ncols = nat cols, matd_data = replicate (nat n) 0\<rparr>)))"

definition matd_create_data :: "int \<Rightarrow> int \<Rightarrow> 'f::linordered_field list \<Rightarrow> cerr + 'f matd" where
  "matd_create_data rows cols dat =
     (if rows = 0 \<or> cols = 0 then bindE (arr_get dat 0) (\<lambda>v. Inr (matd_create_scalar v))
      else bindE (matd_create rows cols) (\<lambda>m.
        foldE (\<lambda>m i. bindE (arr_get dat i) (\<lambda>v. bindE (arr_set (matd_data m) i v) (\<lambda>d. Inr (m\<lparr>matd_data := d\<rparr>))))
          [0..<nat (rows * cols)] m))"

definition matd_identity :: "int \<Rightarrow> cerr + 'f::linordered_field matd" where
  "matd_identity n =
     (if n = 0 then Inr (matd_create_scalar 1)
      else bindE (matd_create n n) (\<lambda>m. foldE (\<lambda>m i. matd_el_set m i i 1) [0..<nat n] m))"

definition matd_is_scalar :: "'f matd \<Rightarrow> bool" where
  "matd_is_scalar a \<longleftrightarrow> matd_ncols a \<le> 1 \<and> matd_nrows a \<le> 1"

definition matd_get :: "'f matd \<Rightarrow> nat \<Rightarrow> nat \<Rightarrow> cerr + 'f" where
  "matd_get m row col =
     bindE (assertE (\<not> matd_is_scalar m)) (\<lambda>_. bindE (assertE (row < matd_nrows m)) (\<lambda>_. bindE (assertE (col < matd_ncols m)) (\<lambda>_.
     MATD_EL m row col)))"

definition matd_copy :: "'f::linordered_field matd \<Rightarrow> cerr + 'f matd" where
  "matd_copy m =
     bindE (matd_create (int (matd_nrows m)) (int (matd_ncols m))) (\<lambda>x.
     if matd_is_scalar m
     then bindE (arr_get (matd_data m) 0) (\<lambda>v. bindE (arr_set (matd_data x) 0 v) (\<lambda>d. Inr (x\<lparr>matd_data := d\<rparr>)))
     else bindE (mem_read (matd_data m) 0 (int (matd_ncols m * matd_nrows m))) (\<lambda>bs.
       bindE (mem_write (matd_data x) 0 bs) (\<lambda>d. Inr (x\<lparr>matd_data := d\<rparr>))))"

subsection \<open>Arithmetic\<close>

text \<open>The two loops over the elements of the matrix that is made.\<close>

definition matd_fill :: "(nat \<Rightarrow> nat \<Rightarrow> cerr + 'f) \<Rightarrow> 'f matd \<Rightarrow> cerr + 'f matd" where
  "matd_fill val m =
     foldE (\<lambda>m i. foldE (\<lambda>m j. bindE (val i j) (\<lambda>v. matd_el_set m i j v)) [0..<matd_ncols m] m) [0..<matd_nrows m] m"

definition matd_scale :: "'f::linordered_field matd \<Rightarrow> 'f \<Rightarrow> cerr + 'f matd" where
  "matd_scale a s =
     (if matd_is_scalar a then bindE (arr_get (matd_data a) 0) (\<lambda>v. Inr (matd_create_scalar (v * s)))
      else bindE (matd_create (int (matd_nrows a)) (int (matd_ncols a))) (matd_fill (\<lambda>i j. bindE (MATD_EL a i j) (\<lambda>v. Inr (s * v)))))"

definition matd_multiply :: "'f::linordered_field matd \<Rightarrow> 'f matd \<Rightarrow> cerr + 'f matd" where
  "matd_multiply a b =
     (if matd_is_scalar a then bindE (arr_get (matd_data a) 0) (\<lambda>v. matd_scale b v)
      else if matd_is_scalar b then bindE (arr_get (matd_data b) 0) (\<lambda>v. matd_scale a v)
      else
        bindE (assertE (matd_ncols a = matd_nrows b)) (\<lambda>_.
        bindE (matd_create (int (matd_nrows a)) (int (matd_ncols b))) (matd_fill (\<lambda>i j.
          foldE (\<lambda>acc k. bindE (MATD_EL a i k) (\<lambda>x. bindE (MATD_EL b k j) (\<lambda>y. Inr (acc + x * y)))) [0..<matd_ncols a] 0))))"

definition matd_add :: "'f::linordered_field matd \<Rightarrow> 'f matd \<Rightarrow> cerr + 'f matd" where
  "matd_add a b =
     bindE (assertE (matd_nrows a = matd_nrows b)) (\<lambda>_. bindE (assertE (matd_ncols a = matd_ncols b)) (\<lambda>_.
     if matd_is_scalar a
     then bindE (arr_get (matd_data a) 0) (\<lambda>x. bindE (arr_get (matd_data b) 0) (\<lambda>y. Inr (matd_create_scalar (x + y))))
     else bindE (matd_create (int (matd_nrows a)) (int (matd_ncols a))) (matd_fill (\<lambda>i j.
       bindE (MATD_EL a i j) (\<lambda>x. bindE (MATD_EL b i j) (\<lambda>y. Inr (x + y)))))))"

definition matd_subtract :: "'f::linordered_field matd \<Rightarrow> 'f matd \<Rightarrow> cerr + 'f matd" where
  "matd_subtract a b =
     bindE (assertE (matd_nrows a = matd_nrows b)) (\<lambda>_. bindE (assertE (matd_ncols a = matd_ncols b)) (\<lambda>_.
     if matd_is_scalar a
     then bindE (arr_get (matd_data a) 0) (\<lambda>x. bindE (arr_get (matd_data b) 0) (\<lambda>y. Inr (matd_create_scalar (x - y))))
     else bindE (matd_create (int (matd_nrows a)) (int (matd_ncols a))) (matd_fill (\<lambda>i j.
       bindE (MATD_EL a i j) (\<lambda>x. bindE (MATD_EL b i j) (\<lambda>y. Inr (x - y)))))))"

text \<open>The transpose fills its result along the rows of the argument.\<close>

definition matd_transpose :: "'f::linordered_field matd \<Rightarrow> cerr + 'f matd" where
  "matd_transpose a =
     (if matd_is_scalar a then bindE (arr_get (matd_data a) 0) (\<lambda>v. Inr (matd_create_scalar v))
      else bindE (matd_create (int (matd_ncols a)) (int (matd_nrows a))) (\<lambda>m.
        foldE (\<lambda>m i. foldE (\<lambda>m j. bindE (MATD_EL a i j) (\<lambda>v. matd_el_set m j i v)) [0..<matd_ncols a] m) [0..<matd_nrows a] m))"

subsection \<open>Matrices given by their elements\<close>

definition mat :: "nat \<Rightarrow> nat \<Rightarrow> (nat \<Rightarrow> nat \<Rightarrow> 'f) \<Rightarrow> 'f matd" where
  "mat r c f = \<lparr>matd_nrows = r, matd_ncols = c, matd_data = map (\<lambda>p. f (p div c) (p mod c)) [0..<r * c]\<rparr>"

definition upd :: "(nat \<Rightarrow> nat \<Rightarrow> 'f) \<Rightarrow> nat \<Rightarrow> nat \<Rightarrow> 'f \<Rightarrow> nat \<Rightarrow> nat \<Rightarrow> 'f" where
  "upd f i j v = (\<lambda>k l. if k = i \<and> l = j then v else f k l)"

lemma mat_dims [simp]: "matd_nrows (mat r c f) = r" "matd_ncols (mat r c f) = c"
  by (simp_all add: mat_def)

lemma mat_cong: "r = r' \<Longrightarrow> c = c' \<Longrightarrow> (\<And>i j. i < r \<Longrightarrow> j < c \<Longrightarrow> f i j = g i j) \<Longrightarrow> mat r c f = mat r' c' g"
proof -
  assume a: "r = r'" "c = c'" "\<And>i j. i < r \<Longrightarrow> j < c \<Longrightarrow> f i j = g i j"
  have "f (p div c) (p mod c) = g (p div c) (p mod c)" if "p < r * c" for p
  proof -
    have "0 < c" using that by (cases c) simp_all
    then show ?thesis using that by (intro a(3)) (simp_all add: less_mult_imp_div_less)
  qed
  then show ?thesis using a(1,2) by (simp add: mat_def)
qed

lemma el_index: "i < r \<Longrightarrow> j < c \<Longrightarrow> i * c + j < r * (c::nat)"
proof -
  assume "i < r" "j < c"
  then have "i * c + j < Suc i * c" by simp
  also have "\<dots> \<le> r * c" using \<open>i < r\<close> by (intro mult_le_mono1) simp
  finally show ?thesis .
qed

lemma mat_el [matd]: "i < r \<Longrightarrow> j < c \<Longrightarrow> MATD_EL (mat r c f) i j = Inr (f i j)"
  using el_index [of i r j c] by (simp add: MATD_EL_def mat_def arr_get_def)

lemma mat_el_set [matd]: "i < r \<Longrightarrow> j < c \<Longrightarrow> matd_el_set (mat r c f) i j v = Inr (mat r c (upd f i j v))"
proof -
  assume i: "i < r" "j < c"
  have "(map (\<lambda>p. f (p div c) (p mod c)) [0..<r * c])[i * c + j := v] = map (\<lambda>p. upd f i j v (p div c) (p mod c)) [0..<r * c]"
  proof (rule nth_equalityI, simp)
    fix p assume p: "p < length ((map (\<lambda>p. f (p div c) (p mod c)) [0..<r * c])[i * c + j := v])"
    show "(map (\<lambda>p. f (p div c) (p mod c)) [0..<r * c])[i * c + j := v] ! p = map (\<lambda>p. upd f i j v (p div c) (p mod c)) [0..<r * c] ! p"
    proof (cases "p = i * c + j")
      case True
      then show ?thesis using p i by (simp add: upd_def)
    next
      case False
      then have "\<not> (p div c = i \<and> p mod c = j)" using div_mult_mod_eq [of p c] by auto
      then show ?thesis using p False by (auto simp: upd_def)
    qed
  qed
  then show ?thesis using el_index [OF i] by (simp add: matd_el_set_def mat_def arr_set_def)
qed

text \<open>A matrix as the code makes them, with fewer than \<open>2 ^ 31\<close> elements.\<close>

definition dims_ok :: "nat \<Rightarrow> nat \<Rightarrow> bool" where
  "dims_ok r c \<longleftrightarrow> 0 < r \<and> 0 < c \<and> r * c < 2 ^ 31"

lemma mat_create [matd]: "dims_ok r c \<Longrightarrow> matd_create (int r) (int c) = Inr (mat r c (\<lambda>_ _. 0))"
proof -
  assume d: "dims_ok r c"
  then have "int r * int c \<le> INT_MAX" by (simp add: dims_ok_def INT_MAX_def flip: of_nat_mult)
  moreover have "INT_MIN \<le> int r * int c" by (rule order_trans [of _ 0]) (simp_all add: INT_MIN_def)
  ultimately show ?thesis using d
    by (simp add: matd_create_def mat_def dims_ok_def cmem map_replicate_const flip: of_nat_mult)
qed

text \<open>A loop whose steps each replace the elements of a block of their own, by values that depend on the old ones of this block and
  on elements the loop leaves alone.\<close>

lemma fold_parts:
  assumes xs: "distinct xs" and disj: "\<And>x y. x \<in> set xs \<Longrightarrow> y \<in> set xs \<Longrightarrow> x \<noteq> y \<Longrightarrow> blk x \<inter> blk y = {}"
    and step: "\<And>x g. x \<in> set xs \<Longrightarrow> (\<And>i j. (i, j) \<in> blk x \<or> (\<forall>y \<in> set xs. (i, j) \<notin> blk y) \<Longrightarrow> g i j = f i j) \<Longrightarrow>
      step (m g) x = Inr (m (\<lambda>i j. if (i, j) \<in> blk x then h i j (g i j) else g i j))"
  shows "foldE step xs (m f) = Inr (m (\<lambda>i j. if \<exists>x \<in> set xs. (i, j) \<in> blk x then h i j (f i j) else f i j))"
proof -
  have "foldE step ys (m g) = Inr (m (\<lambda>i j. if \<exists>x \<in> set ys. (i, j) \<in> blk x then h i j (g i j) else g i j))"
    if "set ys \<subseteq> set xs" "distinct ys" "\<And>i j. (\<exists>y \<in> set ys. (i, j) \<in> blk y) \<or> (\<forall>y \<in> set xs. (i, j) \<notin> blk y) \<Longrightarrow> g i j = f i j" for ys g
    using that
  proof (induction ys arbitrary: g)
    case (Cons y ys)
    let ?g = "\<lambda>i j. if (i, j) \<in> blk y then h i j (g i j) else g i j"
    have y: "y \<in> set xs" "y \<notin> set ys" "set ys \<subseteq> set xs" using Cons.prems by auto
    have dis: "(i, j) \<in> blk y \<Longrightarrow> x \<in> set ys \<Longrightarrow> (i, j) \<notin> blk x" for i j x
      using disj [of y x] y by (metis IntI empty_iff subsetD)
    then have eq: "(\<lambda>i j. if \<exists>x \<in> set ys. (i, j) \<in> blk x then h i j (?g i j) else ?g i j) =
        (\<lambda>i j. if \<exists>x \<in> set (y # ys). (i, j) \<in> blk x then h i j (g i j) else g i j)" by (intro ext) auto
    have "step (m g) y = Inr (m ?g)" by (rule step [OF y(1)]) (auto intro: Cons.prems(3))
    then have "foldE step (y # ys) (m g) = foldE step ys (m ?g)" by simp
    also have "\<dots> = Inr (m (\<lambda>i j. if \<exists>x \<in> set ys. (i, j) \<in> blk x then h i j (?g i j) else ?g i j))"
      using y Cons.prems(2) dis by (intro Cons.IH) (auto intro: Cons.prems(3))
    finally show ?case unfolding eq .
  qed simp
  then show ?thesis using xs by blast
qed

lemmas fold_blocks = fold_parts [where m = "mat r c" for r c]

lemma upd_block: "upd f i j v = (\<lambda>k l. if (k, l) \<in> {(i, j)} then v else f k l)"
  by (intro ext) (simp add: upd_def)

lemma foldE_single: "foldE f [x] = (\<lambda>s. f s x)"
  by (rule ext) (metis bindE_Inr_right ext foldE.simps)

lemma foldE_upt_Suc: "m \<le> n \<Longrightarrow> foldE f [m..<Suc n] s = bindE (foldE f [m..<n] s) (\<lambda>t. f t n)"
  by (simp add: foldE_append foldE_single del: foldE.simps)

lemma mat_fill [matd]:
  assumes "\<And>i j. i < r \<Longrightarrow> j < c \<Longrightarrow> val i j = Inr (g i j)"
  shows "matd_fill val (mat r c f) = Inr (mat r c g)"
proof -
  have row: "foldE (\<lambda>m j. bindE (val i j) (\<lambda>v. matd_el_set m i j v)) [0..<c] (mat r c f) =
      Inr (mat r c (\<lambda>k l. if \<exists>j \<in> set [0..<c]. (k, l) \<in> {(i, j)} then g k l else f k l))" if "i < r" for i f
    using that assms by (intro fold_blocks) (auto simp: matd upd_block intro!: mat_cong)
  have "matd_fill val (mat r c f) = Inr (mat r c (\<lambda>k l. if \<exists>i \<in> set [0..<r]. (k, l) \<in> {i} \<times> {..<c} then g k l else f k l))"
    unfolding matd_fill_def mat_dims(1) by (intro fold_blocks) (auto simp: row intro!: mat_cong)
  then show ?thesis by (auto intro!: mat_cong)
qed

text \<open>A loop that adds up products.\<close>

lemma foldE_sum_from:
  assumes "m \<le> n" "\<And>k acc. m \<le> k \<Longrightarrow> k < n \<Longrightarrow> step acc k = Inr (acc + t k)"
  shows "foldE step [m..<n] a = Inr (a + (\<Sum>k=m..<n. t k :: 'f::comm_monoid_add))"
  using assms
proof (induction n rule: dec_induct)
  case (step n)
  then show ?case by (subst foldE_upt_Suc) (simp_all add: add.assoc)
qed simp

lemma foldE_sum: "(\<And>k acc. k < n \<Longrightarrow> step acc k = Inr (acc + t k)) \<Longrightarrow> foldE step [0..<n] a = Inr (a + (\<Sum>k<n. t k :: 'f::comm_monoid_add))"
  unfolding lessThan_atLeast0 by (rule foldE_sum_from) simp_all

text \<open>A matrix of more than one element; a smaller one counts as a scalar.\<close>

definition big :: "nat \<Rightarrow> nat \<Rightarrow> bool" where
  "big r c \<longleftrightarrow> 1 < r \<or> 1 < c"

lemma scalar_mat [simp]: "matd_is_scalar (mat r c f) \<longleftrightarrow> \<not> big r c"
  by (auto simp: matd_is_scalar_def big_def)

lemma mat_get [matd]: "i < r \<Longrightarrow> j < c \<Longrightarrow> big r c \<Longrightarrow> matd_get (mat r c f) i j = Inr (f i j)"
  by (simp add: matd_get_def matd)

lemma mat_scale [matd]: "dims_ok r c \<Longrightarrow> big r c \<Longrightarrow> matd_scale (mat r c f) s = Inr (mat r c (\<lambda>i j. s * f i j))"
  unfolding matd_scale_def scalar_mat mat_dims by (simp add: mat_create) (rule mat_fill, simp add: matd)

lemma mat_multiply [matd]:
  assumes "dims_ok r c" "big r k" "big k c"
  shows "matd_multiply (mat r k f) (mat k c g) = Inr (mat r c (\<lambda>i j. \<Sum>l<k. f i l * g l j))"
proof -
  have "foldE (\<lambda>acc l. bindE (MATD_EL (mat r k f) i l) (\<lambda>x. bindE (MATD_EL (mat k c g) l j) (\<lambda>y. Inr (acc + x * y)))) [0..<k] 0 =
      Inr (\<Sum>l<k. f i l * g l j)" if "i < r" "j < c" for i j
    using that by (subst foldE_sum [where t = "\<lambda>l. f i l * g l j"]) (simp_all add: matd)
  then show ?thesis using assms(2,3) unfolding matd_multiply_def scalar_mat mat_dims
    by (simp add: mat_create [OF assms(1)]) (rule mat_fill, simp)
qed

lemma mat_add [matd]:
  "dims_ok r c \<Longrightarrow> big r c \<Longrightarrow> matd_add (mat r c f) (mat r c g) = Inr (mat r c (\<lambda>i j. f i j + g i j))"
  unfolding matd_add_def scalar_mat mat_dims by (simp add: mat_create) (rule mat_fill, simp add: matd)

lemma mat_subtract [matd]:
  "dims_ok r c \<Longrightarrow> big r c \<Longrightarrow> matd_subtract (mat r c f) (mat r c g) = Inr (mat r c (\<lambda>i j. f i j - g i j))"
  unfolding matd_subtract_def scalar_mat mat_dims by (simp add: mat_create) (rule mat_fill, simp add: matd)

lemma dims_swap: "dims_ok r c \<Longrightarrow> dims_ok c r"
  by (simp add: dims_ok_def mult.commute)

lemma mat_transpose [matd]:
  assumes "dims_ok r c" "big r c"
  shows "matd_transpose (mat r c f) = Inr (mat c r (\<lambda>i j. f j i))"
proof -
  have row: "foldE (\<lambda>m j. bindE (MATD_EL (mat r c f) i j) (\<lambda>v. matd_el_set m j i v)) [0..<c] (mat c r h) =
      Inr (mat c r (\<lambda>k l. if \<exists>j \<in> set [0..<c]. (k, l) \<in> {(j, i)} then f l k else h k l))" if "i < r" for i h
    using that by (intro fold_blocks) (auto simp: matd upd_block intro!: mat_cong)
  have "foldE (\<lambda>m i. foldE (\<lambda>m j. bindE (MATD_EL (mat r c f) i j) (\<lambda>v. matd_el_set m j i v)) [0..<c] m) [0..<r] (mat c r (\<lambda>_ _. 0)) =
      Inr (mat c r (\<lambda>k l. if \<exists>i \<in> set [0..<r]. (k, l) \<in> {..<c} \<times> {i} then f l k else 0))"
    by (intro fold_blocks) (auto simp: row intro!: mat_cong)
  also have "\<dots> = Inr (mat c r (\<lambda>i j. f j i))" by (auto intro!: mat_cong)
  finally show ?thesis using assms(2) by (simp add: matd_transpose_def mat_create [OF dims_swap [OF assms(1)]])
qed

lemma mat_identity [matd]:
  assumes "dims_ok n n"
  shows "matd_identity (int n) = Inr (mat n n (\<lambda>i j. if i = j then 1 else 0 :: 'f::linordered_field))"
proof -
  have "foldE (\<lambda>m i. matd_el_set m i i 1) [0..<n] (mat n n (\<lambda>_ _. 0 :: 'f)) =
      Inr (mat n n (\<lambda>i j. if \<exists>k \<in> set [0..<n]. (i, j) \<in> {(k, k)} then 1 else 0))"
    by (intro fold_blocks) (auto simp: matd upd_block intro!: mat_cong)
  also have "\<dots> = Inr (mat n n (\<lambda>i j. if i = j then 1 else 0))" by (auto intro!: mat_cong)
  finally show ?thesis using assms by (simp add: matd_identity_def mat_create [OF assms] dims_ok_def)
qed

lemma mat_copy [matd]:
  assumes "dims_ok r c"
  shows "matd_copy (mat r c f) = Inr (mat r c f)"
proof (cases "big r c")
  case False
  then have "r = 1" "c = 1" using assms by (simp_all add: dims_ok_def big_def)
  then show ?thesis using mat_create [OF assms, where 'a = 'a] by (simp add: matd_copy_def mat_def matd_is_scalar_def arr_get_def arr_set_def)
next
  case True
  have l: "length (matd_data (mat r c f)) = r * c" for f :: "nat \<Rightarrow> nat \<Rightarrow> 'a" by (simp add: mat_def)
  have "mem_read (matd_data (mat r c f)) 0 (int (c * r)) = Inr (matd_data (mat r c f))"
    using mem_read_nat [of 0 "c * r" "matd_data (mat r c f)"] by (simp add: l)
  moreover have "mem_write (matd_data (mat r c (\<lambda>_ _. 0))) 0 (matd_data (mat r c f)) = Inr (matd_data (mat r c f))"
    using mem_write_nat [of 0 "matd_data (mat r c f)" "matd_data (mat r c (\<lambda>_ _. 0))"] by (simp add: l)
  ultimately show ?thesis using True by (simp add: matd_copy_def mat_create [OF assms])
qed

lemma create_data_ok [matd]:
  assumes "dims_ok r c" "length dat = r * c"
  shows "matd_create_data (int r) (int c) dat = Inr (mat r c (\<lambda>i j. dat ! (i * c + j)))"
proof -
  let ?f = "\<lambda>m i. bindE (arr_get dat i) (\<lambda>v. bindE (arr_set (matd_data m) i v) (\<lambda>d. Inr (m\<lparr>matd_data := d\<rparr>)))"
  have step: "foldE ?f [0..<n] m = Inr (m\<lparr>matd_data := take n dat @ drop n (matd_data m)\<rparr>)"
    if "n \<le> length dat" "length (matd_data m) = length dat" for n m
    using that(1)
  proof (induction n)
    case (Suc n)
    have "(take n dat @ drop n (matd_data m))[n := dat ! n] = take (Suc n) dat @ drop (Suc n) (matd_data m)"
      using Suc.prems that(2) by (simp add: list_update_append take_Suc_conv_app_nth flip: Cons_nth_drop_Suc)
    then show ?case unfolding foldE_upt_Suc [OF le0] using Suc that(2) by (simp add: arr_get_def arr_set_def)
  qed simp
  have nz: "r \<noteq> 0" "c \<noteq> 0" "nat (int r * int c) = r * c" using assms(1) by (simp_all add: dims_ok_def flip: of_nat_mult)
  have "foldE ?f [0..<r * c] (mat r c (\<lambda>_ _. 0)) = Inr (mat r c (\<lambda>i j. dat ! (i * c + j)))"
    by (subst step) (auto simp: mat_def assms(2) intro: nth_equalityI)
  then show ?thesis using nz assms by (simp add: matd_create_data_def mat_create)
qed

end
