(* ===== verification/MatdPlu.thy ===== *)
theory MatdPlu
  imports Matd
begin

text \<open>
  The decomposition of a square matrix into a permutation, a lower and an upper triangular matrix (\<open>matd_plu\<close> of
  \<open>common/matd.c\<close>), and what is built on it: the solution of linear equations and the inverse.
\<close>

subsection \<open>The code\<close>

definition MATD_EPS :: "'f::linordered_field" where
  "MATD_EPS = 1 / 10 ^ 8"

record 'f matd_plu_t =
  plu_singular :: bool
  plu_piv :: "nat list"
  plu_pivsign :: int
  plu_lu :: "'f matd"

text \<open>Column \<open>j\<close>: from every element a dot product is subtracted.\<close>

definition plu_dot :: "'f::linordered_field matd \<Rightarrow> nat \<Rightarrow> nat \<Rightarrow> cerr + 'f" where
  "plu_dot lu i j =
     (let kmax = (if i < j then i else j) in
      foldE (\<lambda>acc k. bindE (MATD_EL lu i k) (\<lambda>x. bindE (MATD_EL lu k j) (\<lambda>y. Inr (acc + x * y)))) [0..<kmax] 0)"

definition plu_column :: "nat \<Rightarrow> 'f::linordered_field matd \<Rightarrow> nat \<Rightarrow> cerr + 'f matd" where
  "plu_column nrows lu j =
     foldE (\<lambda>lu i. bindE (plu_dot lu i j) (\<lambda>acc. bindE (MATD_EL lu i j) (\<lambda>v. matd_el_set lu i j (v - acc)))) [0..<nrows] lu"

definition plu_pivot :: "'f::linordered_field matd \<Rightarrow> nat \<Rightarrow> cerr + nat" where
  "plu_pivot lu j =
     foldE (\<lambda>p i. bindE (MATD_EL lu i j) (\<lambda>x. bindE (MATD_EL lu p j) (\<lambda>y. Inr (if \<bar>x\<bar> > \<bar>y\<bar> then i else p))))
       [j + 1..<matd_nrows lu] j"

definition plu_swap :: "'f matd \<Rightarrow> nat \<Rightarrow> nat \<Rightarrow> cerr + 'f matd" where
  "plu_swap lu p j =
     (let row = (\<lambda>i. int (i * matd_ncols lu)); n = int (matd_ncols lu) in
      bindE (mem_read (matd_data lu) (row p) n) (\<lambda>tmp.
      bindE (mem_read (matd_data lu) (row j) n) (\<lambda>bs. bindE (mem_write (matd_data lu) (row p) bs) (\<lambda>d.
      bindE (mem_write d (row j) tmp) (\<lambda>d. Inr (lu\<lparr>matd_data := d\<rparr>))))))"

definition plu_exchange :: "'f matd_plu_t \<Rightarrow> nat \<Rightarrow> nat \<Rightarrow> cerr + 'f matd_plu_t" where
  "plu_exchange mlu p j =
     (if p \<noteq> j then
        bindE (plu_swap (plu_lu mlu) p j) (\<lambda>lu.
        bindE (arr_get (plu_piv mlu) p) (\<lambda>k. bindE (arr_get (plu_piv mlu) j) (\<lambda>v.
        bindE (arr_set (plu_piv mlu) p v) (\<lambda>piv. bindE (arr_set piv j k) (\<lambda>piv.
        Inr (mlu\<lparr>plu_lu := lu, plu_piv := piv, plu_pivsign := - plu_pivsign mlu\<rparr>))))))
      else Inr mlu)"

text \<open>The elements below the pivot are divided by it unless it is zero.\<close>

definition plu_divide :: "'f::linordered_field matd \<Rightarrow> 'f \<Rightarrow> nat \<Rightarrow> cerr + 'f matd" where
  "plu_divide lu LUjj j =
     (if j < matd_ncols lu \<and> j < matd_nrows lu \<and> LUjj \<noteq> 0
      then bindE (fdiv 1 LUjj) (\<lambda>LUjj.
        foldE (\<lambda>lu i. bindE (MATD_EL lu i j) (\<lambda>v. matd_el_set lu i j (v * LUjj))) [j + 1..<matd_nrows lu] lu)
      else Inr lu)"

definition plu_step :: "nat \<Rightarrow> 'f::linordered_field matd_plu_t \<Rightarrow> nat \<Rightarrow> cerr + 'f matd_plu_t" where
  "plu_step nrows mlu j =
     bindE (plu_column nrows (plu_lu mlu) j) (\<lambda>lu.
     bindE (plu_pivot lu j) (\<lambda>p.
     bindE (plu_exchange (mlu\<lparr>plu_lu := lu\<rparr>) p j) (\<lambda>mlu.
     bindE (MATD_EL (plu_lu mlu) j j) (\<lambda>LUjj.
     bindE (plu_divide (plu_lu mlu) LUjj j) (\<lambda>lu.
     Inr (mlu\<lparr>plu_singular := (plu_singular mlu \<or> \<bar>LUjj\<bar> < MATD_EPS), plu_lu := lu\<rparr>))))))"

definition matd_plu :: "'f::linordered_field matd \<Rightarrow> cerr + 'f matd_plu_t" where
  "matd_plu a =
     bindE (matd_copy a) (\<lambda>lu. bindE (assertE (matd_nrows a = matd_ncols a)) (\<lambda>_.
     foldE (plu_step (matd_nrows a)) [0..<matd_ncols a]
       \<lparr>plu_singular = False, plu_piv = [0..<matd_nrows a], plu_pivsign = 1, plu_lu = lu\<rparr>))"

definition matd_plu_det :: "'f::linordered_field matd_plu_t \<Rightarrow> cerr + 'f" where
  "matd_plu_det mlu =
     (let lu = plu_lu mlu; det = of_int (plu_pivsign mlu) in
      if matd_nrows lu = matd_ncols lu
      then foldE (\<lambda>det i. bindE (MATD_EL lu i i) (\<lambda>v. Inr (det * v))) [0..<matd_ncols lu] det
      else Inr det)"

definition matd_plu_p :: "'f::linordered_field matd_plu_t \<Rightarrow> cerr + 'f matd" where
  "matd_plu_p mlu =
     (let n = matd_nrows (plu_lu mlu) in
      bindE (matd_create (int n) (int n)) (foldE (\<lambda>P i. bindE (arr_get (plu_piv mlu) i) (\<lambda>k. matd_el_set P k i 1)) [0..<n]))"

definition matd_plu_l :: "'f::linordered_field matd_plu_t \<Rightarrow> cerr + 'f matd" where
  "matd_plu_l mlu =
     (let lu = plu_lu mlu in
      bindE (matd_create (int (matd_nrows lu)) (int (matd_ncols lu))) (foldE (\<lambda>L i.
        bindE (matd_el_set L i i 1) (foldE (\<lambda>L j. bindE (MATD_EL lu i j) (\<lambda>v. matd_el_set L i j v)) [0..<i])) [0..<matd_nrows lu]))"

definition matd_plu_u :: "'f::linordered_field matd_plu_t \<Rightarrow> cerr + 'f matd" where
  "matd_plu_u mlu =
     (let lu = plu_lu mlu; n = matd_ncols lu in
      bindE (matd_create (int n) (int n)) (foldE (\<lambda>U i.
        foldE (\<lambda>U j. if i \<le> j then bindE (MATD_EL lu i j) (\<lambda>v. matd_el_set U i j v) else Inr U) [0..<n] U) [0..<n]))"

text \<open>Row \<open>i\<close> plus row \<open>k\<close> times a factor.\<close>

definition row_add :: "nat \<Rightarrow> 'f::linordered_field matd \<Rightarrow> nat \<Rightarrow> nat \<Rightarrow> 'f \<Rightarrow> cerr + 'f matd" where
  "row_add cols x i k LUik =
     foldE (\<lambda>x t. bindE (MATD_EL x i t) (\<lambda>v. bindE (MATD_EL x k t) (\<lambda>w. matd_el_set x i t (v + w * LUik)))) [0..<cols] x"

definition plu_permute :: "'f matd_plu_t \<Rightarrow> 'f matd \<Rightarrow> 'f matd \<Rightarrow> nat \<Rightarrow> cerr + 'f matd" where
  "plu_permute mlu b x i =
     bindE (arr_get (plu_piv mlu) i) (\<lambda>k.
     bindE (mem_read (matd_data b) (int (k * matd_ncols b)) (int (matd_ncols b))) (\<lambda>bs.
     bindE (mem_write (matd_data x) (int (i * matd_ncols x)) bs) (\<lambda>d. Inr (x\<lparr>matd_data := d\<rparr>))))"

definition plu_forward :: "'f::linordered_field matd \<Rightarrow> nat \<Rightarrow> 'f matd \<Rightarrow> nat \<Rightarrow> cerr + 'f matd" where
  "plu_forward lu cols x k =
     foldE (\<lambda>x i. bindE (MATD_EL lu i k) (\<lambda>v. row_add cols x i k (- v))) [k + 1..<matd_nrows lu] x"

definition plu_back :: "'f::linordered_field matd \<Rightarrow> nat \<Rightarrow> 'f matd \<Rightarrow> nat \<Rightarrow> cerr + 'f matd" where
  "plu_back lu cols x k =
     bindE (MATD_EL lu k k) (\<lambda>v. bindE (fdiv 1 v) (\<lambda>LUkk.
     bindE (foldE (\<lambda>x t. bindE (MATD_EL x k t) (\<lambda>w. matd_el_set x k t (w * LUkk))) [0..<cols] x) (\<lambda>x.
     foldE (\<lambda>x i. bindE (MATD_EL lu i k) (\<lambda>v. row_add cols x i k (- v))) [0..<k] x)))"

definition matd_plu_solve :: "'f::linordered_field matd_plu_t \<Rightarrow> 'f matd \<Rightarrow> cerr + 'f matd" where
  "matd_plu_solve mlu b =
     (let lu = plu_lu mlu in
      bindE (matd_copy b) (\<lambda>x.
      bindE (foldE (plu_permute mlu b) [0..<matd_nrows lu] x) (\<lambda>x.
      bindE (foldE (plu_forward lu (matd_ncols b)) [0..<matd_nrows lu] x) (\<lambda>x.
      foldE (plu_back lu (matd_ncols b)) (rev [0..<matd_ncols lu]) x))))"

definition matd_solve :: "'f::linordered_field matd \<Rightarrow> 'f matd \<Rightarrow> cerr + 'f matd" where
  "matd_solve A b = bindE (matd_plu A) (\<lambda>mlu. matd_plu_solve mlu b)"

text \<open>\<open>None\<close> is \<open>NULL\<close>.\<close>

definition matd_inverse :: "'f::linordered_field matd \<Rightarrow> cerr + 'f matd option" where
  "matd_inverse x =
     bindE (assertE (matd_nrows x = matd_ncols x)) (\<lambda>_.
     if matd_is_scalar x then
       bindE (arr_get (matd_data x) 0) (\<lambda>v.
       if v = 0 then Inr None else bindE (fdiv 1 v) (\<lambda>w. Inr (Some (matd_create_scalar w))))
     else if matd_nrows x = 1 then
       bindE (arr_get (matd_data x) 0) (\<lambda>det.
       if det = 0 then Inr None
       else bindE (fdiv 1 det) (\<lambda>invdet. bindE (matd_create 1 1) (\<lambda>m. bindE (matd_el_set m 0 0 (1 * invdet)) (\<lambda>m. Inr (Some m)))))
     else if matd_nrows x = 2 then
       bindE (arr_get (matd_data x) 0) (\<lambda>x0. bindE (arr_get (matd_data x) 1) (\<lambda>x1.
       bindE (arr_get (matd_data x) 2) (\<lambda>x2. bindE (arr_get (matd_data x) 3) (\<lambda>x3.
       let det = x0 * x3 - x1 * x2 in
       if det = 0 then Inr None
       else
         bindE (fdiv 1 det) (\<lambda>invdet. bindE (matd_create 2 2) (\<lambda>m.
         bindE (MATD_EL x 1 1) (\<lambda>v. bindE (matd_el_set m 0 0 (v * invdet)) (\<lambda>m.
         bindE (MATD_EL x 0 1) (\<lambda>v. bindE (matd_el_set m 0 1 (- v * invdet)) (\<lambda>m.
         bindE (MATD_EL x 1 0) (\<lambda>v. bindE (matd_el_set m 1 0 (- v * invdet)) (\<lambda>m.
         bindE (MATD_EL x 0 0) (\<lambda>v. bindE (matd_el_set m 1 1 (v * invdet)) (\<lambda>m.
         Inr (Some m)))))))))))))))
     else
       bindE (matd_plu x) (\<lambda>plu.
       if \<not> plu_singular plu
       then bindE (matd_identity (int (matd_nrows x))) (\<lambda>ident. bindE (matd_plu_solve plu ident) (\<lambda>inv. Inr (Some inv)))
       else Inr None))"

subsection \<open>What the loops of the decomposition do\<close>

definition swp :: "nat \<Rightarrow> nat \<Rightarrow> nat \<Rightarrow> nat" where
  "swp p j i = (if i = p then j else if i = j then p else i)"

lemma take_drop_row: "i < r \<Longrightarrow> mem_read (matd_data (mat r c f)) (int (i * c)) (int c) = Inr (map (f i) [0..<c])"
proof -
  assume i: "i < r"
  then have "i * c + c \<le> r * c" by (metis Suc_leI add.commute mult_Suc mult_le_mono1)
  then have "mem_read (matd_data (mat r c f)) (int (i * c)) (int c) = Inr (take c (drop (i * c) (matd_data (mat r c f))))"
    by (intro mem_read_nat) (simp add: mat_def)
  moreover have "take c (drop (i * c) (matd_data (mat r c f))) = map (f i) [0..<c]"
    by (rule nth_equalityI) (use \<open>i * c + c \<le> r * c\<close> in \<open>auto simp: mat_def nth_drop [OF add_leD1]\<close>)
  ultimately show ?thesis by simp
qed

lemma write_row:
  assumes i: "i < r"
  shows "mem_write (matd_data (mat r c f)) (int (i * c)) (map g [0..<c]) = Inr (matd_data (mat r c (\<lambda>k l. if k = i then g l else f k l)))"
proof -
  let ?d = "matd_data (mat r c f)" and ?e = "matd_data (mat r c (\<lambda>k l. if k = i then g l else f k l))"
  have b: "i * c + c \<le> r * c" using i by (metis Suc_leI add.commute mult_Suc mult_le_mono1)
  have "mem_write ?d (int (i * c)) (map g [0..<c]) = Inr (take (i * c) ?d @ map g [0..<c] @ drop (i * c + c) ?d)"
    using mem_write_nat [of "i * c" "map g [0..<c]" ?d] b by (simp add: mat_def)
  moreover have "take (i * c) ?d @ map g [0..<c] @ drop (i * c + c) ?d = ?e"
  proof (rule nth_equalityI)
    show "length (take (i * c) ?d @ map g [0..<c] @ drop (i * c + c) ?d) = length ?e" using b by (simp add: mat_def)
    fix p assume "p < length (take (i * c) ?d @ map g [0..<c] @ drop (i * c + c) ?d)"
    then have p: "p < r * c" using b by (simp add: mat_def)
    then have c: "0 < c" by (cases c) simp_all
    consider "p < i * c" | "i * c \<le> p" "p < i * c + c" | "i * c + c \<le> p" by linarith
    then show "(take (i * c) ?d @ map g [0..<c] @ drop (i * c + c) ?d) ! p = ?e ! p"
    proof cases
      case 1
      then have "p div c < i" using less_mult_imp_div_less by blast
      then show ?thesis using 1 p by (simp add: mat_def nth_append)
    next
      case 2
      then have "p div c = i" "p mod c = p - i * c" using c by (auto simp: div_nat_eqI mult.commute modulo_nat_def)
      moreover have "min (r * c) (i * c) = i * c" "p - i * c < c" using b 2 by simp_all
      ultimately show ?thesis using 2 p by (simp add: mat_def nth_append)
    next
      case 3
      then have "i < p div c" using c by (metis Suc_le_lessD add.commute div_le_mono div_mult_self_is_m less_eq_Suc_le mult_Suc)
      moreover have "min (r * c) (i * c) = i * c" "\<not> p - i * c < c" "i * c + c + (p - i * c - c) = p" using b 3 by simp_all
      ultimately show ?thesis using p b by (simp add: mat_def nth_append)
    qed
  qed
  ultimately show ?thesis by simp
qed

lemma swap_ok:
  assumes "p < r" "j < r"
  shows "plu_swap (mat r c f) p j = Inr (mat r c (\<lambda>i. f (swp p j i)))"
proof -
  have "(\<lambda>k l. if k = j then f p l else (if k = p then f j l else f k l)) = (\<lambda>i. f (swp p j i))"
    by (intro ext) (auto simp: swp_def)
  moreover have "mat r c f\<lparr>matd_data := matd_data (mat r c g)\<rparr> = mat r c g" for g by (simp add: mat_def)
  ultimately show ?thesis
    by (simp add: plu_swap_def Let_def take_drop_row write_row assms del: of_nat_mult)
qed

lemma dot_ok:
  assumes "i < r" "j < c" "i < c" "j < r"
  shows "plu_dot (mat r c f) i j = Inr (\<Sum>k<min i j. f i k * f k j)"
proof -
  have "(if i < j then i else j) = min i j" by simp
  then show ?thesis using assms unfolding plu_dot_def Let_def
    by (subst foldE_sum [where t = "\<lambda>k. f i k * f k j"]) (auto simp: matd)
qed

lemma column_ok:
  assumes "j < n"
  obtains u where "plu_column n (mat n n f) j = Inr (mat n n (\<lambda>k l. if l = j then u k else f k l))"
    "\<forall>i < n. u i = f i j - (\<Sum>k<min i j. f i k * u k)"
proof -
  let ?g = "\<lambda>m u k l. if l = j \<and> k < m then u k else f k l"
  have "\<exists>u. foldE (\<lambda>lu i. bindE (plu_dot lu i j) (\<lambda>acc. bindE (MATD_EL lu i j) (\<lambda>v. matd_el_set lu i j (v - acc)))) [0..<m] (mat n n f) =
      Inr (mat n n (?g m u)) \<and> (\<forall>i<m. u i = f i j - (\<Sum>k<min i j. f i k * u k))" if "m \<le> n" for m
    using that
  proof (induction m)
    case (Suc m)
    then obtain u where u: "foldE (\<lambda>lu i. bindE (plu_dot lu i j) (\<lambda>acc. bindE (MATD_EL lu i j) (\<lambda>v. matd_el_set lu i j (v - acc)))) [0..<m] (mat n n f) =
      Inr (mat n n (?g m u))" "\<And>i. i < m \<Longrightarrow> u i = f i j - (\<Sum>k<min i j. f i k * u k)" by auto
    define w where "w = u(m := f m j - (\<Sum>k<min m j. f m k * u k))"
    have "(\<Sum>k<min m j. ?g m u m k * ?g m u k j) = (\<Sum>k<min m j. f m k * u k)" by (intro sum.cong) auto
    moreover have "upd (?g m u) m j (f m j - (\<Sum>k<min m j. f m k * u k)) = ?g (Suc m) w" by (intro ext) (auto simp: upd_def w_def)
    moreover have "w i = f i j - (\<Sum>k<min i j. f i k * w k)" if "i < Suc m" for i
    proof -
      have "(\<Sum>k<min i j. f i k * w k) = (\<Sum>k<min i j. f i k * u k)" using that by (intro sum.cong) (auto simp: w_def)
      then show ?thesis using u(2) [of i] that by (auto simp: w_def less_Suc_eq)
    qed
    ultimately show ?case unfolding foldE_upt_Suc [OF le0] u(1)
      using Suc.prems assms by (intro exI [of _ w]) (simp add: dot_ok matd)
  qed simp
  from this [of n] obtain u where u: "plu_column n (mat n n f) j = Inr (mat n n (?g n u))" "\<And>i. i < n \<Longrightarrow> u i = f i j - (\<Sum>k<min i j. f i k * u k)"
    by (auto simp: plu_column_def)
  then show thesis by (intro that [of u]) (auto intro!: mat_cong)
qed

lemma pivot_ok:
  assumes "j < n"
  obtains p where "plu_pivot (mat n n f) j = Inr p" "j \<le> p" "p < n" "\<And>i. j \<le> i \<Longrightarrow> i < n \<Longrightarrow> \<bar>f i j\<bar> \<le> \<bar>f p j\<bar>"
proof -
  let ?step = "\<lambda>p i. bindE (MATD_EL (mat n n f) i j) (\<lambda>x. bindE (MATD_EL (mat n n f) p j) (\<lambda>y. Inr (if \<bar>x\<bar> > \<bar>y\<bar> then i else p)))"
  have "\<exists>p. foldE ?step [j + 1..<m] j = Inr p \<and> j \<le> p \<and> p < m \<and> (\<forall>i. j \<le> i \<longrightarrow> i < m \<longrightarrow> \<bar>f i j\<bar> \<le> \<bar>f p j\<bar>)"
    if "j + 1 \<le> m" "m \<le> n" for m
    using that
  proof (induction m rule: dec_induct)
    case base
    then show ?case by (auto simp: less_Suc_eq)
  next
    case (step m)
    then obtain p where p: "foldE ?step [j + 1..<m] j = Inr p" "j \<le> p" "p < m" "\<And>i. j \<le> i \<Longrightarrow> i < m \<Longrightarrow> \<bar>f i j\<bar> \<le> \<bar>f p j\<bar>" by auto
    have "foldE ?step [j + 1..<Suc m] j = ?step p m" using p(1) step(1) by (subst foldE_upt_Suc) simp_all
    also have "\<dots> = Inr (if \<bar>f m j\<bar> > \<bar>f p j\<bar> then m else p)" using step p(2,3) assms by (simp add: matd)
    finally have e: "foldE ?step [j + 1..<Suc m] j = Inr (if \<bar>f m j\<bar> > \<bar>f p j\<bar> then m else p)" .
    have "\<bar>f i j\<bar> \<le> \<bar>f (if \<bar>f m j\<bar> > \<bar>f p j\<bar> then m else p) j\<bar>" if "j \<le> i" "i < Suc m" for i
      using that p(4) [of i] by (auto simp: less_Suc_eq intro: order_trans less_imp_le)
    then show ?case using e p(2,3) step by auto
  qed
  from this [of n] assms show thesis by (auto simp: plu_pivot_def intro: that)
qed

lemma divide_ok:
  assumes "j < n"
  shows "plu_divide (mat n n f) v j = Inr (mat n n (\<lambda>k l. if l = j \<and> j < k \<and> v \<noteq> 0 then f k l / v else f k l))"
proof (cases "v = 0")
  case False
  have "foldE (\<lambda>lu i. bindE (MATD_EL lu i j) (\<lambda>w. matd_el_set lu i j (w * (1 / v)))) [j + 1..<n] (mat n n f) =
      Inr (mat n n (\<lambda>k l. if \<exists>i \<in> set [j + 1..<n]. (k, l) \<in> {(i, j)} then f k l * (1 / v) else f k l))"
    using assms by (intro fold_blocks) (auto simp: matd upd_block intro!: mat_cong)
  then show ?thesis using assms False by (auto simp: plu_divide_def cmem intro!: mat_cong)
qed (auto simp: plu_divide_def intro!: mat_cong)

lemma swp_less: "p < n \<Longrightarrow> j < n \<Longrightarrow> i < n \<Longrightarrow> swp p j i < n"
  by (simp add: swp_def)

lemma exchange_ok:
  assumes "p < n" "j < n" "length piv = n"
  shows "plu_exchange \<lparr>plu_singular = s, plu_piv = piv, plu_pivsign = sg, plu_lu = mat n n f\<rparr> p j =
    Inr \<lparr>plu_singular = s, plu_piv = map (\<lambda>i. piv ! swp p j i) [0..<n], plu_pivsign = (if p = j then sg else - sg),
      plu_lu = mat n n (\<lambda>i. f (swp p j i))\<rparr>"
proof -
  have e: "piv[p := piv ! j, j := piv ! p] = map (\<lambda>i. piv ! swp p j i) [0..<n]"
    by (rule nth_equalityI) (use assms in \<open>auto simp: swp_def nth_list_update\<close>)
  show ?thesis
  proof (cases "p = j")
    case True
    then have "swp p j i = i" for i by (simp add: swp_def)
    then show ?thesis using True assms(3) map_nth [of piv] by (simp add: plu_exchange_def)
  next
    case False
    then show ?thesis using assms e by (simp add: plu_exchange_def swap_ok cmem)
  qed
qed

text \<open>The element of the product of the two triangular matrices that \<open>f\<close> holds.\<close>

definition plu_prod :: "(nat \<Rightarrow> nat \<Rightarrow> 'f::linordered_field) \<Rightarrow> nat \<Rightarrow> nat \<Rightarrow> 'f" where
  "plu_prod f i l = (\<Sum>k<min i l. f i k * f k l) + (if i \<le> l then f i l else f i l * f l l)"

text \<open>After \<open>j\<close> columns: the rows are permuted, the first columns decomposed, the others as they were.\<close>

definition plu_inv :: "(nat \<Rightarrow> nat \<Rightarrow> 'f::linordered_field) \<Rightarrow> nat \<Rightarrow> nat \<Rightarrow> nat list \<Rightarrow> (nat \<Rightarrow> nat \<Rightarrow> 'f) \<Rightarrow> bool" where
  "plu_inv a n j piv f \<longleftrightarrow> length piv = n \<and> distinct piv \<and> set piv = {..<n} \<and>
     (\<forall>i < n. \<forall>l < n. a (piv ! i) l = (if l < j then plu_prod f i l else f i l)) \<and>
     (\<forall>i < n. \<forall>l < j. l < i \<longrightarrow> \<bar>f i l\<bar> \<le> 1)"

lemma inv_start: "plu_inv a n 0 [0..<n] a"
  by (auto simp: plu_inv_def)

text \<open>The rows permuted, for \<open>j \<le> p\<close>.\<close>

lemma inv_swap:
  assumes v: "plu_inv a n j piv f" and p: "j \<le> p" "p < n"
  shows "plu_inv a n j (map (\<lambda>i. piv ! swp p j i) [0..<n]) (\<lambda>i. f (swp p j i))"
proof -
  let ?s = "swp p j" and ?piv = "map (\<lambda>i. piv ! swp p j i) [0..<n]"
  have s: "?s i < n" "?s (?s i) = i" if "i < n" for i using that p by (auto simp: swp_def)
  have low: "?s i = i" if "i < j" for i using that p by (auto simp: swp_def)
  have high: "j \<le> ?s i \<longleftrightarrow> j \<le> i" for i using p by (auto simp: swp_def)
  have "distinct ?piv" using v s by (auto simp: plu_inv_def distinct_map inj_on_def nth_eq_iff_index_eq) metis
  moreover have "set ?piv = {..<n}"
  proof -
    have "set ?piv \<subseteq> set piv" using v s by (auto simp: plu_inv_def)
    moreover have "card (set ?piv) = n" using distinct_card [OF \<open>distinct ?piv\<close>] by simp
    ultimately show ?thesis using v by (metis card_lessThan card_subset_eq finite_lessThan plu_inv_def)
  qed
  moreover have "plu_prod (\<lambda>i. f (?s i)) i l = plu_prod f (?s i) l" if "l < j" for i l
  proof (cases "i < j")
    case True
    then show ?thesis using low that unfolding plu_prod_def by (auto intro!: sum.cong)
  next
    case False
    then have "min i l = l" "min (?s i) l = l" "\<not> i \<le> l" "\<not> ?s i \<le> l" using that high [of i] by auto
    then show ?thesis using low that unfolding plu_prod_def by (auto intro!: sum.cong)
  qed
  moreover have "\<bar>f (?s i) l\<bar> \<le> 1" if "i < n" "l < j" "l < i" for i l
    using v s(1) [OF that(1)] that high [of i] low [of i] unfolding plu_inv_def by (metis not_less order_less_le_trans)
  ultimately show ?thesis using v s(1) by (auto simp: plu_inv_def)
qed

text \<open>A column decomposed, once its pivot is the largest.\<close>

lemma inv_column:
  assumes v: "plu_inv a n j piv f" and j: "j < n"
    and u: "\<And>i. i < n \<Longrightarrow> u i = f i j - (\<Sum>k<min i j. f i k * u k)"
    and big: "\<And>i. j \<le> i \<Longrightarrow> i < n \<Longrightarrow> \<bar>u i\<bar> \<le> \<bar>u j\<bar>"
  shows "plu_inv a n (Suc j) piv (\<lambda>k l. if l = j then if j < k \<and> u j \<noteq> 0 then u k / u j else u k else f k l)" (is "plu_inv a n _ piv ?f")
proof -
  have "plu_prod ?f i l = plu_prod f i l" if "l < j" for i l
    using that unfolding plu_prod_def by (auto intro!: sum.cong)
  moreover have "plu_prod ?f i j = f i j" if "i < n" for i
  proof -
    have s: "(\<Sum>k<min i j. ?f i k * ?f k j) = (\<Sum>k<min i j. f i k * u k)" by (intro sum.cong) auto
    have "u i / u j * u j = u i" if "u j \<noteq> 0" using that by simp
    moreover have "u i = 0" if "u j = 0" "j < i" using big [of i] that \<open>i < n\<close> by simp
    ultimately show ?thesis using u [OF that] unfolding plu_prod_def s by (auto split: if_splits)
  qed
  moreover have "\<bar>?f i j\<bar> \<le> 1" if "i < n" "j < i" for i
    using big [of i] that by (auto simp: abs_divide divide_le_eq_1)
  ultimately show ?thesis using v by (auto simp: plu_inv_def less_Suc_eq)
qed

lemma plu_step_ok:
  assumes v: "plu_inv a n j piv f" and j: "j < n" and sing: "s \<longleftrightarrow> (\<exists>l < j. \<bar>f l l\<bar> < MATD_EPS)"
  obtains piv' f' s' sg' where
    "plu_step n \<lparr>plu_singular = s, plu_piv = piv, plu_pivsign = sg, plu_lu = mat n n f\<rparr> j =
      Inr \<lparr>plu_singular = s', plu_piv = piv', plu_pivsign = sg', plu_lu = mat n n f'\<rparr>"
    "plu_inv a n (Suc j) piv' f'" "s' \<longleftrightarrow> (\<exists>l < Suc j. \<bar>f' l l\<bar> < MATD_EPS)"
proof -
  obtain u where u: "plu_column n (mat n n f) j = Inr (mat n n (\<lambda>k l. if l = j then u k else f k l))"
    "\<forall>i < n. u i = f i j - (\<Sum>k<min i j. f i k * u k)" by (rule column_ok [OF j])
  obtain p where p: "plu_pivot (mat n n (\<lambda>k l. if l = j then u k else f k l)) j = Inr p" "j \<le> p" "p < n"
    "\<And>i. j \<le> i \<Longrightarrow> i < n \<Longrightarrow> \<bar>u i\<bar> \<le> \<bar>u p\<bar>" by (rule pivot_ok [OF j, of "\<lambda>k l. if l = j then u k else f k l"]) auto
  let ?s = "swp p j" let ?u = "\<lambda>i. u (?s i)"
  let ?piv = "map (\<lambda>i. piv ! ?s i) [0..<n]" and ?g = "\<lambda>k l. if l = j then ?u k else f (?s k) l"
    and ?f = "\<lambda>k l. if l = j then if j < k \<and> ?u j \<noteq> 0 then ?u k / ?u j else ?u k else f (?s k) l"
  have low: "?s i = i" if "i < j" for i using that p(2) by (auto simp: swp_def)
  have high: "j \<le> ?s i \<longleftrightarrow> j \<le> i" for i using p(2) by (auto simp: swp_def)
  have sn: "?s i < n" if "i < n" for i using swp_less [OF p(3) j that] .
  have uj: "?u j = u p" using p(2) by (auto simp: swp_def)
  have "?u i = f (?s i) j - (\<Sum>k<min i j. f (?s i) k * ?u k)" if "i < n" for i
  proof -
    have m: "min (?s i) j = min i j" using high [of i] low [of i] by (cases "i < j") (auto simp: min_def)
    have "(\<Sum>k<min i j. f (?s i) k * ?u k) = (\<Sum>k<min i j. f (?s i) k * u k)" by (intro sum.cong) (auto simp: low)
    then show ?thesis using u(2) sn [OF that] m by simp
  qed
  moreover have "\<bar>?u i\<bar> \<le> \<bar>?u j\<bar>" if "j \<le> i" "i < n" for i unfolding uj using p(4) high sn that by simp
  ultimately have inv: "plu_inv a n (Suc j) ?piv ?f"
    by (intro inv_column [OF inv_swap [OF v p(2,3)] j]) simp_all
  have ex: "plu_exchange \<lparr>plu_singular = s, plu_piv = piv, plu_pivsign = sg, plu_lu = mat n n (\<lambda>k l. if l = j then u k else f k l)\<rparr> p j =
      Inr \<lparr>plu_singular = s, plu_piv = ?piv, plu_pivsign = (if p = j then sg else - sg), plu_lu = mat n n ?g\<rparr>"
    by (subst exchange_ok [OF p(3) j]) (use v in \<open>simp_all add: plu_inv_def\<close>)
  have "mat n n (\<lambda>k l. if l = j \<and> j < k \<and> ?u j \<noteq> 0 then ?g k l / ?u j else ?g k l) = mat n n ?f" by (intro mat_cong) auto
  then have dv: "plu_divide (mat n n ?g) (?u j) j = Inr (mat n n ?f)" using divide_ok [OF j, of ?g "?u j"] by simp
  have "plu_step n \<lparr>plu_singular = s, plu_piv = piv, plu_pivsign = sg, plu_lu = mat n n f\<rparr> j =
      Inr \<lparr>plu_singular = (s \<or> \<bar>?u j\<bar> < MATD_EPS), plu_piv = ?piv, plu_pivsign = (if p = j then sg else - sg), plu_lu = mat n n ?f\<rparr>"
    using dv by (simp add: plu_step_def u(1) p(1) ex mat_el [OF j j])
  moreover have "(s \<or> \<bar>?u j\<bar> < MATD_EPS) \<longleftrightarrow> (\<exists>l < Suc j. \<bar>?f l l\<bar> < MATD_EPS)"
    unfolding sing by (auto simp: less_Suc_eq low)
  ultimately show thesis using inv by (intro that) blast+
qed

lemma plu_ok:
  assumes d: "dims_ok n n"
  obtains piv f s sg where "matd_plu (mat n n a) = Inr \<lparr>plu_singular = s, plu_piv = piv, plu_pivsign = sg, plu_lu = mat n n f\<rparr>"
    "plu_inv a n n piv f" "s \<longleftrightarrow> (\<exists>l < n. \<bar>f l l\<bar> < MATD_EPS)"
proof -
  let ?start = "\<lparr>plu_singular = False, plu_piv = [0..<n], plu_pivsign = 1, plu_lu = mat n n a\<rparr>"
  have "\<exists>piv f s sg. foldE (plu_step n) [0..<j] ?start = Inr \<lparr>plu_singular = s, plu_piv = piv, plu_pivsign = sg, plu_lu = mat n n f\<rparr> \<and>
      plu_inv a n j piv f \<and> (s \<longleftrightarrow> (\<exists>l < j. \<bar>f l l\<bar> < MATD_EPS))" if "j \<le> n" for j
    using that
  proof (induction j)
    case (Suc j)
    then obtain piv f s sg where 1: "foldE (plu_step n) [0..<j] ?start = Inr \<lparr>plu_singular = s, plu_piv = piv, plu_pivsign = sg, plu_lu = mat n n f\<rparr>"
      "plu_inv a n j piv f" "s \<longleftrightarrow> (\<exists>l < j. \<bar>f l l\<bar> < MATD_EPS)" by auto
    have "j < n" using Suc.prems by simp
    obtain piv' f' s' sg' where
      "plu_step n \<lparr>plu_singular = s, plu_piv = piv, plu_pivsign = sg, plu_lu = mat n n f\<rparr> j =
        Inr \<lparr>plu_singular = s', plu_piv = piv', plu_pivsign = sg', plu_lu = mat n n f'\<rparr>"
      "plu_inv a n (Suc j) piv' f'" "s' \<longleftrightarrow> (\<exists>l < Suc j. \<bar>f' l l\<bar> < MATD_EPS)"
      by (rule plu_step_ok [OF 1(2) \<open>j < n\<close> 1(3), of sg])
    then show ?case unfolding foldE_upt_Suc [OF le0] 1(1) bindE.simps by blast
  next
    case 0
    show ?case by (rule exI [of _ "[0..<n]"], rule exI [of _ a], rule exI [of _ False]) (simp add: inv_start)
  qed
  from this [of n] show thesis by (auto simp: matd_plu_def mat_copy [OF d] intro: that)
qed

subsection \<open>The three factors\<close>

definition lower :: "(nat \<Rightarrow> nat \<Rightarrow> 'f::linordered_field) \<Rightarrow> nat \<Rightarrow> nat \<Rightarrow> 'f" where
  "lower f i j = (if i = j then 1 else if j < i then f i j else 0)"

definition upper :: "(nat \<Rightarrow> nat \<Rightarrow> 'f::linordered_field) \<Rightarrow> nat \<Rightarrow> nat \<Rightarrow> 'f" where
  "upper f i j = (if i \<le> j then f i j else 0)"

lemma prod_lower_upper:
  assumes "i < n" "l < n"
  shows "plu_prod f i l = (\<Sum>k<n. lower f i k * upper f k l)"
proof -
  let ?m = "min i l"
  have "(\<Sum>k<n. lower f i k * upper f k l) = (\<Sum>k<Suc ?m. lower f i k * upper f k l)"
    using assms by (intro sum.mono_neutral_right) (auto simp: lower_def upper_def)
  also have "\<dots> = (\<Sum>k<?m. lower f i k * upper f k l) + lower f i ?m * upper f ?m l" by simp
  also have "(\<Sum>k<?m. lower f i k * upper f k l) = (\<Sum>k<?m. f i k * f k l)"
    by (intro sum.cong) (auto simp: lower_def upper_def)
  also have "lower f i ?m * upper f ?m l = (if i \<le> l then f i l else f i l * f l l)"
    by (auto simp: lower_def upper_def min_def)
  finally show ?thesis unfolding plu_prod_def by simp
qed

lemma plu_l_ok:
  assumes "dims_ok n n"
  shows "matd_plu_l \<lparr>plu_singular = s, plu_piv = piv, plu_pivsign = sg, plu_lu = mat n n f\<rparr> = Inr (mat n n (lower f))"
proof -
  have row: "bindE (matd_el_set (mat n n g) i i 1) (foldE (\<lambda>L j. bindE (MATD_EL (mat n n f) i j) (\<lambda>v. matd_el_set L i j v)) [0..<i]) =
      Inr (mat n n (\<lambda>k l. if (k, l) \<in> {i} \<times> {..i} then lower f k l else g k l))" if i: "i < n" for i g
  proof -
    have "foldE (\<lambda>L j. bindE (MATD_EL (mat n n f) i j) (\<lambda>v. matd_el_set L i j v)) [0..<i] (mat n n (upd g i i 1)) =
        Inr (mat n n (\<lambda>k l. if \<exists>j \<in> set [0..<i]. (k, l) \<in> {(i, j)} then lower f k l else upd g i i 1 k l))"
      using i by (intro fold_blocks) (auto simp: matd upd_block lower_def intro!: mat_cong)
    also have "\<dots> = Inr (mat n n (\<lambda>k l. if (k, l) \<in> {i} \<times> {..i} then lower f k l else g k l))"
      by (auto simp: upd_def lower_def intro!: mat_cong)
    finally show ?thesis using i by (simp add: matd)
  qed
  have "foldE (\<lambda>L i. bindE (matd_el_set L i i 1) (foldE (\<lambda>L j. bindE (MATD_EL (mat n n f) i j) (\<lambda>v. matd_el_set L i j v)) [0..<i]))
      [0..<n] (mat n n (\<lambda>_ _. 0)) = Inr (mat n n (\<lambda>k l. if \<exists>i \<in> set [0..<n]. (k, l) \<in> {i} \<times> {..i} then lower f k l else 0))"
    by (intro fold_blocks) (auto simp: row intro!: mat_cong)
  also have "\<dots> = Inr (mat n n (lower f))" by (auto simp: lower_def intro!: mat_cong)
  finally show ?thesis using mat_create [OF assms, where 'a = 'a] by (simp add: matd_plu_l_def)
qed

lemma plu_u_ok:
  assumes "dims_ok n n"
  shows "matd_plu_u \<lparr>plu_singular = s, plu_piv = piv, plu_pivsign = sg, plu_lu = mat n n f\<rparr> = Inr (mat n n (upper f))"
proof -
  have row: "foldE (\<lambda>U j. if i \<le> j then bindE (MATD_EL (mat n n f) i j) (\<lambda>v. matd_el_set U i j v) else Inr U) [0..<n] (mat n n g) =
      Inr (mat n n (\<lambda>k l. if (k, l) \<in> {i} \<times> {i..<n} then upper f k l else g k l))" if "i < n" for i g
  proof -
    have "foldE (\<lambda>U j. if i \<le> j then bindE (MATD_EL (mat n n f) i j) (\<lambda>v. matd_el_set U i j v) else Inr U) [0..<n] (mat n n g) =
      Inr (mat n n (\<lambda>k l. if \<exists>j \<in> set [0..<n]. (k, l) \<in> (if i \<le> j then {(i, j)} else {}) then upper f k l else g k l))"
      using that by (intro fold_blocks) (auto simp: matd upd_block upper_def intro!: mat_cong)
    moreover have "(\<exists>j \<in> set [0..<n]. (k, l) \<in> (if i \<le> j then {(i, j)} else {})) \<longleftrightarrow> (k, l) \<in> {i} \<times> {i..<n}" for k l
      by (auto split: if_splits)
    ultimately show ?thesis by simp
  qed
  have "foldE (\<lambda>U i. foldE (\<lambda>U j. if i \<le> j then bindE (MATD_EL (mat n n f) i j) (\<lambda>v. matd_el_set U i j v) else Inr U) [0..<n] U)
      [0..<n] (mat n n (\<lambda>_ _. 0)) = Inr (mat n n (\<lambda>k l. if \<exists>i \<in> set [0..<n]. (k, l) \<in> {i} \<times> {i..<n} then upper f k l else 0))"
    by (intro fold_blocks) (auto simp: row intro!: mat_cong split: if_splits)
  also have "\<dots> = Inr (mat n n (upper f))" by (auto simp: upper_def intro!: mat_cong)
  finally show ?thesis using mat_create [OF assms, where 'a = 'a] by (simp add: matd_plu_u_def Let_def)
qed

lemma plu_p_ok:
  assumes "dims_ok n n" "length piv = n" "distinct piv" "set piv = {..<n}"
  shows "matd_plu_p \<lparr>plu_singular = s, plu_piv = piv, plu_pivsign = sg, plu_lu = mat n n f\<rparr> =
    Inr (mat n n (\<lambda>i j. if i = piv ! j then 1 else 0))"
proof -
  have p: "piv ! i < n" if "i < n" for i using assms that nth_mem [of i piv] by auto
  have "foldE (\<lambda>P i. bindE (arr_get piv i) (\<lambda>k. matd_el_set P k i 1)) [0..<n] (mat n n (\<lambda>_ _. 0)) =
      Inr (mat n n (\<lambda>k l. if \<exists>i \<in> set [0..<n]. (k, l) \<in> {(piv ! i, i)} then 1 else 0))"
    using p assms(2) by (intro fold_blocks) (auto simp: matd cmem upd_block intro!: mat_cong)
  also have "\<dots> = Inr (mat n n (\<lambda>i j. if i = piv ! j then 1 else 0))" by (auto intro!: mat_cong)
  finally show ?thesis using mat_create [OF assms(1), where 'a = 'a] by (simp add: matd_plu_p_def)
qed

text \<open>C27: Every square matrix of at least two rows, singular or not, is decomposed: the product of the permutation matrix, of a
  lower triangular matrix with ones on its diagonal and nothing larger below it, and of an upper triangular matrix is the
  matrix that was given. It is reported singular exactly when a pivot is below \<open>MATD_EPS\<close>.\<close>

theorem matd_plu_correct:
  fixes a :: "nat \<Rightarrow> nat \<Rightarrow> 'f::linordered_field"
  assumes n: "dims_ok n n" "1 < n"
  shows "\<exists>mlu P l u LU. matd_plu (mat n n a) = Inr mlu \<and> matd_plu_p mlu = Inr P \<and> matd_plu_l mlu = Inr (mat n n l) \<and>
    matd_plu_u mlu = Inr (mat n n u) \<and> matd_multiply (mat n n l) (mat n n u) = Inr LU \<and> matd_multiply P LU = Inr (mat n n a) \<and>
    (\<forall>i < n. \<forall>j < n. \<bar>l i j\<bar> \<le> 1 \<and> (i = j \<longrightarrow> l i j = 1) \<and> (i < j \<longrightarrow> l i j = 0) \<and> (j < i \<longrightarrow> u i j = 0)) \<and>
    (plu_singular mlu \<longleftrightarrow> (\<exists>i < n. \<bar>u i i\<bar> < MATD_EPS))"
proof -
  obtain piv f s sg where plu: "matd_plu (mat n n a) = Inr \<lparr>plu_singular = s, plu_piv = piv, plu_pivsign = sg, plu_lu = mat n n f\<rparr>"
    "plu_inv a n n piv f" "s \<longleftrightarrow> (\<exists>l < n. \<bar>f l l\<bar> < MATD_EPS)" by (rule plu_ok [OF n(1)])
  have piv: "length piv = n" "distinct piv" "set piv = {..<n}" and el: "\<And>i l. i < n \<Longrightarrow> l < n \<Longrightarrow> a (piv ! i) l = plu_prod f i l"
    and small: "\<And>i l. i < n \<Longrightarrow> l < i \<Longrightarrow> \<bar>f i l\<bar> \<le> 1" using plu(2) by (simp_all add: plu_inv_def)
  have b: "big n n" using n(2) by (simp add: big_def)
  have "mat n n (\<lambda>i j. \<Sum>k<n. (if i = piv ! k then 1 else 0) * (\<Sum>m<n. lower f k m * upper f m j)) = mat n n a"
  proof (rule mat_cong)
    fix i j assume i: "i < n" "j < n"
    then obtain k where k: "k < n" "piv ! k = i" using piv by (metis in_set_conv_nth lessThan_iff)
    have "i = piv ! m \<longleftrightarrow> m = k" if "m < n" for m using nth_eq_iff_index_eq [OF piv(2), of m k] k piv(1) that by metis
    then have "(\<Sum>m<n. (if i = piv ! m then 1 else 0) * (\<Sum>q<n. lower f m q * upper f q j)) = (\<Sum>m<n. if m = k then \<Sum>q<n. lower f m q * upper f q j else 0)"
      by (intro sum.cong) simp_all
    also have "\<dots> = a i j" using el [OF k(1) i(2)] prod_lower_upper [OF k(1) i(2), of f] k by simp
    finally show "(\<Sum>m<n. (if i = piv ! m then 1 else 0) * (\<Sum>q<n. lower f m q * upper f q j)) = a i j" .
  qed simp_all
  then have P: "matd_multiply (mat n n (\<lambda>i j. if i = piv ! j then 1 else 0)) (mat n n (\<lambda>i j. \<Sum>k<n. lower f i k * upper f k j)) = Inr (mat n n a)"
    by (subst mat_multiply [OF n(1) b b]) (rule arg_cong [of _ _ Inr])
  have tri: "\<forall>i < n. \<forall>j < n. \<bar>lower f i j\<bar> \<le> 1 \<and> (i = j \<longrightarrow> lower f i j = 1) \<and> (i < j \<longrightarrow> lower f i j = 0) \<and> (j < i \<longrightarrow> upper f i j = 0)"
    using small by (auto simp: lower_def upper_def)
  have sing: "plu_singular \<lparr>plu_singular = s, plu_piv = piv, plu_pivsign = sg, plu_lu = mat n n f\<rparr> \<longleftrightarrow> (\<exists>i < n. \<bar>upper f i i\<bar> < MATD_EPS)"
    using plu(3) by (simp add: upper_def)
  show ?thesis
    by (intro exI conjI) (rule plu(1) plu_p_ok [OF n(1) piv] plu_l_ok [OF n(1)] plu_u_ok [OF n(1)] mat_multiply [OF n(1) b b] P tri sing)+
qed

lemma matd_plu_correct_witness:
  "\<exists>mlu P l u LU. matd_plu (mat 2 2 (\<lambda>i j. of_nat (i + j) :: rat)) = Inr mlu \<and> matd_plu_p mlu = Inr P \<and>
    matd_plu_l mlu = Inr (mat 2 2 l) \<and> matd_plu_u mlu = Inr (mat 2 2 u) \<and> matd_multiply (mat 2 2 l) (mat 2 2 u) = Inr LU \<and>
    matd_multiply P LU = Inr (mat 2 2 (\<lambda>i j. of_nat (i + j)))"
proof -
  have "dims_ok 2 2" "1 < (2 :: nat)" by (simp_all add: dims_ok_def)
  from matd_plu_correct [OF this, of "\<lambda>i j. of_nat (i + j) :: rat"] show ?thesis by blast
qed

subsection \<open>Solving linear equations\<close>

lemma row_add_ok:
  assumes "i < r" "k < r" "i \<noteq> k"
  shows "row_add c (mat r c g) i k v = Inr (mat r c (\<lambda>p q. if (p, q) \<in> {i} \<times> {..<c} then g p q + g k q * v else g p q))"
proof -
  have "row_add c (mat r c g) i k v =
      Inr (mat r c (\<lambda>p q. if \<exists>t \<in> set [0..<c]. (p, q) \<in> {(i, t)} then g p q + g k q * v else g p q))"
    unfolding row_add_def using assms by (intro fold_blocks) (auto simp: matd upd_block intro!: mat_cong)
  then show ?thesis by (auto intro!: mat_cong)
qed

lemma permute_ok:
  assumes "length piv = n" "set piv = {..<n}"
  shows "foldE (plu_permute \<lparr>plu_singular = s, plu_piv = piv, plu_pivsign = sg, plu_lu = lu\<rparr> (mat n c b)) [0..<n] (mat n c x) =
    Inr (mat n c (\<lambda>p q. b (piv ! p) q))"
proof -
  have k: "piv ! i < n" if "i < n" for i using nth_mem [of i piv] assms that by auto
  have set: "mat n c g\<lparr>matd_data := matd_data (mat n c h)\<rparr> = mat n c h" for g h :: "nat \<Rightarrow> nat \<Rightarrow> 'a" by (simp add: mat_def)
  have "plu_permute \<lparr>plu_singular = s, plu_piv = piv, plu_pivsign = sg, plu_lu = lu\<rparr> (mat n c b) (mat n c g) i =
      Inr (mat n c (\<lambda>p q. if p = i then b (piv ! i) q else g p q))" if "i < n" for i g
    using that k assms(1) by (simp add: plu_permute_def arr_get_ok take_drop_row write_row set del: of_nat_mult)
  then have "foldE (plu_permute \<lparr>plu_singular = s, plu_piv = piv, plu_pivsign = sg, plu_lu = lu\<rparr> (mat n c b)) [0..<n] (mat n c x) =
      Inr (mat n c (\<lambda>p q. if \<exists>i \<in> set [0..<n]. (p, q) \<in> {i} \<times> {..<c} then b (piv ! p) q else x p q))"
    by (intro fold_blocks) (auto intro!: mat_cong)
  then show ?thesis by (auto intro!: mat_cong)
qed

lemma forward_step:
  assumes "k < n"
  shows "plu_forward (mat n n f) c (mat n c g) k = Inr (mat n c (\<lambda>p q. if k < p then g p q - f p k * g k q else g p q))"
proof -
  have "plu_forward (mat n n f) c (mat n c g) k =
      Inr (mat n c (\<lambda>p q. if \<exists>i \<in> set [k + 1..<n]. (p, q) \<in> {i} \<times> {..<c} then g p q + g k q * (- f p k) else g p q))"
    unfolding plu_forward_def mat_dims using assms
    by (intro fold_blocks) (auto simp: matd row_add_ok intro!: mat_cong)
  then show ?thesis by (auto intro!: mat_cong)
qed

lemma back_step:
  assumes "k < n" "f k k \<noteq> 0"
  shows "plu_back (mat n n f) c (mat n c g) k =
    Inr (mat n c (\<lambda>p q. if p = k then g k q / f k k else if p < k then g p q - f p k * (g k q / f k k) else g p q))"
proof -
  let ?h = "\<lambda>p q. if (p, q) \<in> {k} \<times> {..<c} then g p q * (1 / f k k) else g p q"
  have 1: "foldE (\<lambda>x t. bindE (MATD_EL x k t) (\<lambda>w. matd_el_set x k t (w * (1 / f k k)))) [0..<c] (mat n c g) = Inr (mat n c ?h)"
  proof -
    have "foldE (\<lambda>x t. bindE (MATD_EL x k t) (\<lambda>w. matd_el_set x k t (w * (1 / f k k)))) [0..<c] (mat n c g) =
        Inr (mat n c (\<lambda>p q. if \<exists>t \<in> set [0..<c]. (p, q) \<in> {(k, t)} then g p q * (1 / f k k) else g p q))"
      using assms(1) by (intro fold_blocks) (auto simp: matd upd_block intro!: mat_cong)
    then show ?thesis by (auto intro!: mat_cong)
  qed
  have "foldE (\<lambda>x i. bindE (MATD_EL (mat n n f) i k) (\<lambda>v. row_add c x i k (- v))) [0..<k] (mat n c ?h) =
      Inr (mat n c (\<lambda>p q. if \<exists>i \<in> set [0..<k]. (p, q) \<in> {i} \<times> {..<c} then ?h p q + ?h k q * (- f p k) else ?h p q))"
    using assms(1) by (intro fold_blocks) (auto simp: matd row_add_ok intro!: mat_cong)
  also have "\<dots> = Inr (mat n c (\<lambda>p q. if p = k then g k q / f k k else if p < k then g p q - f p k * (g k q / f k k) else g p q))"
    by (auto intro!: mat_cong)
  finally show ?thesis using assms by (simp add: plu_back_def mat_el cmem 1 del: times_divide_eq_right)
qed

lemma forward_ok:
  obtains y where "foldE (plu_forward (mat n n f) c) [0..<n] (mat n c b) = Inr (mat n c y)"
    "\<forall>p < n. \<forall>q. y p q = b p q - (\<Sum>k<p. f p k * y k q)"
proof -
  have "\<exists>y. foldE (plu_forward (mat n n f) c) [0..<m] (mat n c b) = Inr (mat n c y) \<and>
      (\<forall>p < n. \<forall>q. y p q = b p q - (\<Sum>k<min p m. f p k * y k q))" if "m \<le> n" for m
    using that
  proof (induction m)
    case (Suc m)
    then obtain y where y: "foldE (plu_forward (mat n n f) c) [0..<m] (mat n c b) = Inr (mat n c y)"
      "\<And>p q. p < n \<Longrightarrow> y p q = b p q - (\<Sum>k<min p m. f p k * y k q)" by auto
    let ?z = "\<lambda>p q. if m < p then y p q - f p m * y m q else y p q"
    have "?z p q = b p q - (\<Sum>k<min p (Suc m). f p k * ?z k q)" if "p < n" for p q
    proof -
      have "(\<Sum>k<min p (Suc m). f p k * ?z k q) = (\<Sum>k<min p (Suc m). f p k * y k q)" by (intro sum.cong) auto
      moreover have "min p (Suc m) = (if m < p then Suc (min p m) else min p m)" by auto
      ultimately show ?thesis using y(2) [OF that, of q] by (auto simp: min_def)
    qed
    then show ?case using Suc.prems unfolding foldE_upt_Suc [OF le0] y(1)
      by (intro exI [of _ ?z] conjI allI impI) (simp_all add: forward_step)
  qed auto
  from this [of n] obtain y where y: "foldE (plu_forward (mat n n f) c) [0..<n] (mat n c b) = Inr (mat n c y)"
    "\<forall>p < n. \<forall>q. y p q = b p q - (\<Sum>k<min p n. f p k * y k q)" by blast
  have "min p n = p" if "p < n" for p using that by simp
  then show thesis using y by (intro that) auto
qed

lemma back_ok:
  assumes nz: "\<forall>k < n. f k k \<noteq> 0"
  obtains z where "foldE (plu_back (mat n n f) c) (rev [0..<n]) (mat n c y) = Inr (mat n c z)"
    "\<forall>p < n. \<forall>q. (\<Sum>k=p..<n. f p k * z k q) = y p q"
proof -
  have "\<exists>z. foldE (plu_back (mat n n f) c) (rev [m..<n]) (mat n c y) = Inr (mat n c z) \<and>
      (\<forall>p < m. \<forall>q. z p q = y p q - (\<Sum>k=m..<n. f p k * z k q)) \<and> (\<forall>p. m \<le> p \<longrightarrow> p < n \<longrightarrow> (\<forall>q. (\<Sum>k=p..<n. f p k * z k q) = y p q))"
    if "m \<le> n" for m
    using that
  proof (induction m rule: inc_induct)
    case (step m)
    then obtain z where z: "foldE (plu_back (mat n n f) c) (rev [Suc m..<n]) (mat n c y) = Inr (mat n c z)"
      "\<And>p q. p < Suc m \<Longrightarrow> z p q = y p q - (\<Sum>k=Suc m..<n. f p k * z k q)"
      "\<And>p q. Suc m \<le> p \<Longrightarrow> p < n \<Longrightarrow> (\<Sum>k=p..<n. f p k * z k q) = y p q" by auto
    let ?w = "\<lambda>p q. if p = m then z m q / f m m else if p < m then z p q - f p m * (z m q / f m m) else z p q"
    have tail: "(\<Sum>k=l..<n. f p k * ?w k q) = (\<Sum>k=l..<n. f p k * z k q)" if "m < l" for p q l
      using that by (intro sum.cong) auto
    have split: "(\<Sum>k=m..<n. f p k * ?w k q) = f p m * (z m q / f m m) + (\<Sum>k=Suc m..<n. f p k * z k q)" for p q
      using step(2) tail [of "Suc m" p q] by (simp add: sum.atLeast_Suc_lessThan)
    have "?w p q = y p q - (\<Sum>k=m..<n. f p k * ?w k q)" if "p < m" for p q
      using z(2) [of p q] that unfolding split by simp
    moreover have "(\<Sum>k=p..<n. f p k * ?w k q) = y p q" if "m \<le> p" "p < n" for p q
    proof (cases "p = m")
      case True
      then show ?thesis using split [of m q] z(2) [of m q] nz step(2) by simp
    next
      case False
      then show ?thesis using tail [of p p q] z(3) [of p q] that by simp
    qed
    moreover have "rev [m..<n] = rev [Suc m..<n] @ [m]" using step(2) by (simp add: upt_conv_Cons)
    moreover have "plu_back (mat n n f) c (mat n c z) m = Inr (mat n c ?w)" using step(2) nz by (simp add: back_step)
    ultimately show ?case using z(1) by (intro exI [of _ ?w] conjI allI impI) (simp_all add: foldE_append foldE_single del: foldE.simps)
  next
    case base
    show ?case by (rule exI [of _ y]) simp
  qed
  from this [of 0] have "\<exists>z. foldE (plu_back (mat n n f) c) (rev [0..<n]) (mat n c y) = Inr (mat n c z) \<and>
      (\<forall>p < n. \<forall>q. (\<Sum>k=p..<n. f p k * z k q) = y p q)" by simp
  then show thesis using that by blast
qed

lemma plu_solve_ok:
  assumes v: "plu_inv a n n piv f" and nz: "\<forall>k < n. f k k \<noteq> 0" and d: "dims_ok n c"
  obtains x where "matd_plu_solve \<lparr>plu_singular = s, plu_piv = piv, plu_pivsign = sg, plu_lu = mat n n f\<rparr> (mat n c b) = Inr (mat n c x)"
    "\<forall>p < n. \<forall>q. (\<Sum>k<n. a p k * x k q) = b p q"
proof -
  have piv: "length piv = n" "distinct piv" "set piv = {..<n}" and el: "\<And>i l. i < n \<Longrightarrow> l < n \<Longrightarrow> a (piv ! i) l = plu_prod f i l"
    using v by (simp_all add: plu_inv_def)
  obtain y where y: "foldE (plu_forward (mat n n f) c) [0..<n] (mat n c (\<lambda>p q. b (piv ! p) q)) = Inr (mat n c y)"
    "\<forall>p < n. \<forall>q. y p q = b (piv ! p) q - (\<Sum>k<p. f p k * y k q)" by (rule forward_ok)
  obtain x where x: "foldE (plu_back (mat n n f) c) (rev [0..<n]) (mat n c y) = Inr (mat n c x)"
    "\<forall>p < n. \<forall>q. (\<Sum>k=p..<n. f p k * x k q) = y p q" by (rule back_ok [where f = f, OF nz])
  have u: "(\<Sum>k<n. upper f p k * x k q) = y p q" if "p < n" for p q
  proof -
    have "(\<Sum>k<n. upper f p k * x k q) = (\<Sum>k=p..<n. f p k * x k q)"
      using that by (intro sum.mono_neutral_cong_right) (auto simp: upper_def)
    then show ?thesis using x(2) that by simp
  qed
  have l: "(\<Sum>k<n. lower f p k * y k q) = b (piv ! p) q" if "p < n" for p q
  proof -
    have "(\<Sum>k<n. lower f p k * y k q) = (\<Sum>k<Suc p. lower f p k * y k q)"
      using that by (intro sum.mono_neutral_right) (auto simp: lower_def)
    also have "\<dots> = (\<Sum>k<p. f p k * y k q) + y p q" by (auto simp: lower_def intro!: sum.cong)
    finally show ?thesis using y(2) that by simp
  qed
  have "(\<Sum>k<n. a p k * x k q) = b p q" if "p < n" for p q
  proof -
    have "p \<in> set piv" using that piv(3) by simp
    then obtain i where i: "i < n" "piv ! i = p" unfolding in_set_conv_nth piv(1) by blast
    have "(\<Sum>k<n. a p k * x k q) = (\<Sum>k<n. (\<Sum>m<n. lower f i m * upper f m k) * x k q)"
    proof (rule sum.cong)
      fix k assume "k \<in> {..<n}"
      then have k: "k < n" by simp
      have "a p k = (\<Sum>m<n. lower f i m * upper f m k)" using el [OF i(1) k] unfolding i(2) prod_lower_upper [OF i(1) k] .
      then show "a p k * x k q = (\<Sum>m<n. lower f i m * upper f m k) * x k q" by (rule arg_cong)
    qed (rule refl)
    also have "\<dots> = (\<Sum>k<n. \<Sum>m<n. lower f i m * (upper f m k * x k q))" by (simp add: sum_distrib_right mult.assoc)
    also have "\<dots> = (\<Sum>m<n. \<Sum>k<n. lower f i m * (upper f m k * x k q))" by (rule sum.swap)
    also have "\<dots> = (\<Sum>m<n. lower f i m * (\<Sum>k<n. upper f m k * x k q))" by (simp add: sum_distrib_left)
    also have "\<dots> = (\<Sum>m<n. lower f i m * y m q)" using u by (intro sum.cong) auto
    also have "\<dots> = b p q" using l [OF i(1)] i by simp
    finally show ?thesis .
  qed
  then show thesis using x(1) y(1) by (intro that [of x])
    (simp_all add: matd_plu_solve_def mat_copy [OF d] permute_ok [OF piv(1,3)])
qed

subsection \<open>Equations and inverses\<close>

lemma MATD_EPS_pos: "0 < (MATD_EPS :: 'f::linordered_field)"
  by (simp add: MATD_EPS_def)

text \<open>\<open>matd_solve\<close> solves every system of linear equations with one or more right-hand sides whose matrix is not reported singular:
  the product of the matrix and the result is the right-hand side.\<close>

lemma matd_solve_correct:
  fixes a b :: "nat \<Rightarrow> nat \<Rightarrow> 'f::linordered_field"
  assumes n: "dims_ok n n" "1 < n" "dims_ok n c"
    and plu: "matd_plu (mat n n a) = Inr mlu" "\<not> plu_singular mlu"
  shows "\<exists>x. matd_solve (mat n n a) (mat n c b) = Inr x \<and> matd_multiply (mat n n a) x = Inr (mat n c b)"
proof -
  obtain piv f s sg where p: "matd_plu (mat n n a) = Inr \<lparr>plu_singular = s, plu_piv = piv, plu_pivsign = sg, plu_lu = mat n n f\<rparr>"
    "plu_inv a n n piv f" "s \<longleftrightarrow> (\<exists>l < n. \<bar>f l l\<bar> < MATD_EPS)" by (rule plu_ok [OF n(1)])
  have "\<forall>k < n. f k k \<noteq> 0" using p plu MATD_EPS_pos [where 'f = 'f] by auto
  then obtain x where x: "matd_plu_solve \<lparr>plu_singular = s, plu_piv = piv, plu_pivsign = sg, plu_lu = mat n n f\<rparr> (mat n c b) = Inr (mat n c x)"
    "\<forall>p < n. \<forall>q. (\<Sum>k<n. a p k * x k q) = b p q" by (rule plu_solve_ok [OF p(2) _ n(3)])
  have "big n n" "big n c" using n(2) by (simp_all add: big_def)
  then have "matd_multiply (mat n n a) (mat n c x) = Inr (mat n c (\<lambda>i j. \<Sum>k<n. a i k * x k j))" by (rule mat_multiply [OF n(3)])
  also have "\<dots> = Inr (mat n c b)" using x(2) by (auto intro!: mat_cong)
  finally show ?thesis using p(1) x(1) by (simp add: matd_solve_def)
qed

lemma two_by_two: "arr_get (matd_data (mat 2 2 a)) k = (if k < 4 then Inr (a (k div 2) (k mod 2)) else Inl OutOfBounds)"
  by (simp add: arr_get_def mat_def)

lemma inverse_2:
  fixes a :: "nat \<Rightarrow> nat \<Rightarrow> 'f::linordered_field"
  defines "d \<equiv> a 0 0 * a 1 1 - a 0 1 * a 1 0"
  shows "matd_inverse (mat 2 2 a) = (if d = 0 then Inr None
    else Inr (Some (mat 2 2 (\<lambda>i j. if i = 0 then if j = 0 then a 1 1 / d else - a 0 1 / d else if j = 0 then - a 1 0 / d else a 0 0 / d))))"
proof -
  have c: "matd_create 2 2 = Inr (mat 2 2 (\<lambda>_ _. 0 :: 'f))" using mat_create [of 2 2] by (simp add: dims_ok_def)
  have "mat 2 2 (upd (upd (upd (upd (\<lambda>_ _. 0) 0 0 p) 0 1 q) 1 0 r) 1 1 s) =
      mat 2 2 (\<lambda>i j. if i = 0 then if j = 0 then p else q else if j = 0 then r else s)" for p q r s :: 'f
    by (rule mat_cong) (auto simp: upd_def less_2_cases_iff)
  then show ?thesis
    by (simp add: matd_inverse_def big_def two_by_two c mat_el mat_el_set cmem Let_def d_def) (auto simp: d_def intro!: mat_cong)
qed

lemma inverse_ok:
  fixes a :: "nat \<Rightarrow> nat \<Rightarrow> 'f::linordered_field"
  assumes n: "dims_ok n n" "2 < n"
  obtains mlu where "matd_inverse (mat n n a) = Inr None" "matd_plu (mat n n a) = Inr mlu" "plu_singular mlu"
  | x where "matd_inverse (mat n n a) = Inr (Some x)" "matd_multiply (mat n n a) x = matd_identity (int n)"
proof -
  obtain piv f s sg where p: "matd_plu (mat n n a) = Inr \<lparr>plu_singular = s, plu_piv = piv, plu_pivsign = sg, plu_lu = mat n n f\<rparr>"
    "plu_inv a n n piv f" "s \<longleftrightarrow> (\<exists>l < n. \<bar>f l l\<bar> < MATD_EPS)" by (rule plu_ok [OF n(1)])
  have b: "big n n" using n(2) by (simp add: big_def)
  have inv: "matd_inverse (mat n n a) = (if s then Inr None
      else bindE (matd_plu_solve \<lparr>plu_singular = s, plu_piv = piv, plu_pivsign = sg, plu_lu = mat n n f\<rparr>
        (mat n n (\<lambda>i j. if i = j then 1 else 0))) (\<lambda>inv. Inr (Some inv)))"
    using b n(2) p(1) by (simp add: matd_inverse_def mat_identity [OF n(1)])
  show thesis
  proof (cases s)
    case True
    then show thesis using inv by (intro that(1) [OF _ p(1)]) simp_all
  next
    case False
    then have "\<forall>k < n. f k k \<noteq> 0" using p(3) MATD_EPS_pos [where 'f = 'f] by auto
    then obtain x where x: "matd_plu_solve \<lparr>plu_singular = s, plu_piv = piv, plu_pivsign = sg, plu_lu = mat n n f\<rparr>
        (mat n n (\<lambda>i j. if i = j then 1 else 0)) = Inr (mat n n x)"
      "\<forall>p < n. \<forall>q. (\<Sum>k<n. a p k * x k q) = (if p = q then 1 else 0)" by (rule plu_solve_ok [OF p(2) _ n(1)])
    have "matd_multiply (mat n n a) (mat n n x) = matd_identity (int n)"
      unfolding mat_multiply [OF n(1) b b] mat_identity [OF n(1)] using x(2) by (auto intro!: mat_cong)
    then show thesis using inv x(1) False by (intro that(2)) simp_all
  qed
qed

text \<open>C28: \<open>matd_inverse\<close> of a square matrix of at least two rows either returns a matrix whose product with the given one is
  the identity, or \<open>NULL\<close>; it returns \<open>NULL\<close> only if the determinant of a matrix of two rows is zero, or a larger matrix is reported
  singular.\<close>

theorem matd_inverse_correct:
  fixes a :: "nat \<Rightarrow> nat \<Rightarrow> 'f::linordered_field"
  assumes n: "dims_ok n n" "1 < n"
  shows "(\<exists>x. matd_inverse (mat n n a) = Inr (Some x) \<and> matd_multiply (mat n n a) x = matd_identity (int n)) \<or>
    matd_inverse (mat n n a) = Inr None \<and>
      (if n = 2 then a 0 0 * a 1 1 = a 0 1 * a 1 0 else \<exists>mlu. matd_plu (mat n n a) = Inr mlu \<and> plu_singular mlu)"
proof (cases "n = 2")
  case True
  define d where "d = a 0 0 * a 1 1 - a 0 1 * a 1 0"
  have b: "big 2 2" "dims_ok 2 2" by (simp_all add: big_def dims_ok_def)
  let ?x = "\<lambda>i j :: nat. if i = 0 then if j = 0 then a 1 1 / d else - a 0 1 / d else if j = 0 then - a 1 0 / d else a 0 0 / d"
  have "(\<Sum>k<2. a i k * ?x k j) = (if i = j then 1 else 0)" if ij: "i < 2" "j < 2" "d \<noteq> 0" for i j
  proof -
    have e: "(a 0 0 * a 1 1 - a 0 1 * a 1 0) / d = 1" using ij(3) by (simp add: d_def)
    consider "i = 0" "j = 0" | "i = 0" "j = 1" | "i = 1" "j = 0" | "i = 1" "j = 1" using ij(1,2) by (auto simp: less_2_cases_iff)
    then show ?thesis by cases (use e in \<open>simp_all add: numeral_2_eq_2 diff_divide_distrib mult.commute\<close>)
  qed
  then have "matd_multiply (mat 2 2 a) (mat 2 2 ?x) = matd_identity (int 2)" if "d \<noteq> 0"
    using that unfolding mat_multiply [OF b(2,1,1)] mat_identity [OF b(2)] by (auto intro!: mat_cong)
  then show ?thesis using inverse_2 [of a] unfolding True d_def [symmetric]
    by (cases "d = 0") (auto simp: d_def)
next
  case False
  then have "2 < n" using n(2) by simp
  show ?thesis by (rule inverse_ok [OF n(1) \<open>2 < n\<close>, of a]) (use False in auto)
qed

text \<open>A matrix of which an inverse is returned sends no other vector to zero.\<close>

lemma plu_kernel:
  assumes v: "plu_inv a n n piv f" and nz: "\<forall>k < n. f k k \<noteq> 0" and z: "\<forall>p < n. (\<Sum>k<n. a p k * v k) = 0"
  shows "k < n \<Longrightarrow> v k = 0"
proof -
  have piv: "length piv = n" "set piv = {..<n}" and el: "\<And>i l. i < n \<Longrightarrow> l < n \<Longrightarrow> a (piv ! i) l = plu_prod f i l"
    using v by (simp_all add: plu_inv_def)
  define w where "w m = (\<Sum>k<n. upper f m k * v k)" for m
  have lw: "(\<Sum>m<n. lower f i m * w m) = 0" if i: "i < n" for i
  proof -
    have "piv ! i < n" using nth_mem [of i piv] piv i by simp
    then have "0 = (\<Sum>k<n. a (piv ! i) k * v k)" using z by simp
    also have "\<dots> = (\<Sum>k<n. (\<Sum>m<n. lower f i m * upper f m k) * v k)"
      by (rule sum.cong) (simp_all add: el [OF i] prod_lower_upper [OF i])
    also have "\<dots> = (\<Sum>k<n. \<Sum>m<n. lower f i m * (upper f m k * v k))" by (simp add: sum_distrib_right mult.assoc)
    also have "\<dots> = (\<Sum>m<n. \<Sum>k<n. lower f i m * (upper f m k * v k))" by (rule sum.swap)
    also have "\<dots> = (\<Sum>m<n. lower f i m * w m)" by (simp add: w_def sum_distrib_left)
    finally show ?thesis by simp
  qed
  have w0: "w i = 0" if "i < n" for i
    using that
  proof (induction i rule: less_induct)
    case (less i)
    have "(\<Sum>m<n. lower f i m * w m) = (\<Sum>m \<in> {i}. lower f i m * w m)"
      using less by (intro sum.mono_neutral_right) (auto simp: lower_def)
    then show ?case using lw [OF less.prems] by (simp add: lower_def)
  qed
  have "v k = 0" if "k < n" for k
    using that
  proof (induction "n - k" arbitrary: k rule: less_induct)
    case less
    have "(\<Sum>l<n. upper f k l * v l) = (\<Sum>l \<in> {k}. upper f k l * v l)"
      using less by (intro sum.mono_neutral_right) (auto simp: upper_def)
    then show ?case using w0 [OF less.prems] nz less.prems by (simp add: w_def upper_def)
  qed
  then show "k < n \<Longrightarrow> v k = 0" .
qed

lemma inverse_kernel:
  fixes a :: "nat \<Rightarrow> nat \<Rightarrow> 'f::linordered_field"
  assumes "matd_inverse (mat n n a) = Inr (Some x)" "dims_ok n n" "2 < n" "\<forall>p < n. (\<Sum>k<n. a p k * v k) = 0" "k < n"
  shows "v k = 0"
proof -
  obtain piv f s sg where p: "matd_plu (mat n n a) = Inr \<lparr>plu_singular = s, plu_piv = piv, plu_pivsign = sg, plu_lu = mat n n f\<rparr>"
    "plu_inv a n n piv f" "s \<longleftrightarrow> (\<exists>l < n. \<bar>f l l\<bar> < MATD_EPS)" by (rule plu_ok [OF assms(2)])
  have "\<not> s" using assms(1,3) p(1) by (auto simp: matd_inverse_def big_def split: if_splits)
  then have "\<forall>k < n. f k k \<noteq> 0" using p(3) MATD_EPS_pos [where 'f = 'f] by auto
  then show ?thesis using plu_kernel [OF p(2) _ assms(4)] assms(5) by blast
qed

lemma matd_inverse_correct_witness:
  "(\<exists>x. matd_inverse (mat 3 3 (\<lambda>i j. of_nat (i + j) :: rat)) = Inr (Some x) \<and>
      matd_multiply (mat 3 3 (\<lambda>i j. of_nat (i + j))) x = matd_identity 3) \<or>
   matd_inverse (mat 3 3 (\<lambda>i j. of_nat (i + j) :: rat)) = Inr None"
proof -
  have "dims_ok 3 3" "1 < (3 :: nat)" by (simp_all add: dims_ok_def)
  from matd_inverse_correct [OF this, of "\<lambda>i j. of_nat (i + j) :: rat"] show ?thesis by auto
qed

end
