(* ===== verification/Homography.thy ===== *)
theory Homography
  imports MatdPlu
begin

text \<open>
  The homography of a quadrilateral (\<open>homography_compute2\<close> and \<open>quad_update_homographies\<close> of \<open>apriltag.c\<close>, \<open>homography_project\<close>
  of \<open>common/homography.h\<close>): the projection that maps the corners of a tag, at -1 and 1, to the corners of the quadrilateral. It is
  found by eliminating eight linear equations. Elements are those of an ordered field, without rounding.
\<close>

subsection \<open>The code\<close>

record 'f quad =
  quad_p :: "('f \<times> 'f) list"
  quad_reversed_border :: bool
  quad_H :: "'f matd option"
  quad_Hinv :: "'f matd option"

type_synonym 'f corr = "'f \<times> 'f \<times> 'f \<times> 'f"

text \<open>Two rows for each correspondence \<open>c[k]\<close>.\<close>

definition homography_rows :: "'f::linordered_field corr list \<Rightarrow> 'f list" where
  "homography_rows c = concat (map (\<lambda>(c0, c1, c2, c3).
     [c0, c1, 1, 0, 0, 0, - c0 * c2, - c1 * c2, c2,
      0, 0, 0, c0, c1, 1, - c0 * c3, - c1 * c3, c3]) c)"

definition epsilon :: "'f::linordered_field" where
  "epsilon = 1 / 10 ^ 10"

text \<open>The row with the largest element of the column, -1 if all are zero.\<close>

definition best_row :: "'f::linordered_field list \<Rightarrow> nat \<Rightarrow> cerr + 'f \<times> int" where
  "best_row A col =
     foldE (\<lambda>(max_val, max_val_idx) row. bindE (arr_get A (row * 9 + col)) (\<lambda>v.
       let val = \<bar>v\<bar> in Inr (if val > max_val then (val, int row) else (max_val, max_val_idx)))) [col..<8] (0, - 1)"

definition swap_best :: "'f list \<Rightarrow> nat \<Rightarrow> nat \<Rightarrow> cerr + 'f list" where
  "swap_best A col max_val_idx =
     foldE (\<lambda>A i. bindE (arr_get A (col * 9 + i)) (\<lambda>tmp. bindE (arr_get A (max_val_idx * 9 + i)) (\<lambda>v.
       bindE (arr_set A (col * 9 + i) v) (\<lambda>A. arr_set A (max_val_idx * 9 + i) tmp)))) [col..<9] A"

definition eliminate_row :: "nat \<Rightarrow> 'f::linordered_field list \<Rightarrow> nat \<Rightarrow> cerr + 'f list" where
  "eliminate_row col A i =
     bindE (arr_get A (i * 9 + col)) (\<lambda>x. bindE (arr_get A (col * 9 + col)) (\<lambda>y. bindE (fdiv x y) (\<lambda>f.
     bindE (arr_set A (i * 9 + col) 0) (\<lambda>A.
     foldE (\<lambda>A j. bindE (arr_get A (i * 9 + j)) (\<lambda>v. bindE (arr_get A (col * 9 + j)) (\<lambda>w.
       arr_set A (i * 9 + j) (v - f * w)))) [col + 1..<9] A))))"

text \<open>One column; \<open>None\<close> is the early return of \<open>NULL\<close>.\<close>

definition eliminate :: "'f::linordered_field list \<Rightarrow> nat \<Rightarrow> cerr + 'f list option" where
  "eliminate A col =
     bindE (best_row A col) (\<lambda>(max_val, max_val_idx).
     bindE (assertE (max_val_idx \<ge> 0)) (\<lambda>_.
     if max_val < epsilon then Inr None
     else
       bindE (if max_val_idx \<noteq> int col then swap_best A col (nat max_val_idx) else Inr A) (\<lambda>A.
       bindE (foldE (eliminate_row col) [col + 1..<8] A) (\<lambda>A. Inr (Some A)))))"

definition back_solve :: "'f::linordered_field list \<Rightarrow> nat \<Rightarrow> cerr + 'f list" where
  "back_solve A col =
     bindE (foldE (\<lambda>s i. bindE (arr_get A (col * 9 + i)) (\<lambda>x. bindE (arr_get A (i * 9 + 8)) (\<lambda>y. Inr (s + x * y)))) [col + 1..<8] 0) (\<lambda>s.
     bindE (arr_get A (col * 9 + 8)) (\<lambda>v. bindE (arr_get A (col * 9 + col)) (\<lambda>d. bindE (fdiv (v - s) d) (\<lambda>q.
     arr_set A (col * 9 + 8) q))))"

definition homography_compute2 :: "'f::linordered_field corr list \<Rightarrow> cerr + 'f matd option" where
  "homography_compute2 c =
     bindE (foldE (\<lambda>r col. case r of None \<Rightarrow> Inr None | Some A \<Rightarrow> eliminate A col) [0..<8] (Some (homography_rows c))) (\<lambda>r.
     case r of
       None \<Rightarrow> Inr None
     | Some A \<Rightarrow>
         bindE (foldE back_solve (rev [0..<8]) A) (\<lambda>A.
         bindE (foldE (\<lambda>h k. bindE (arr_get A (k * 9 + 8)) (\<lambda>v. Inr (h @ [v]))) [0..<8] []) (\<lambda>h.
         bindE (matd_create_data 3 3 (h @ [1])) (\<lambda>H. Inr (Some H)))))"

definition corr_arr :: "('f::linordered_field \<times> 'f) list \<Rightarrow> cerr + 'f corr list" where
  "corr_arr p =
     foldE (\<lambda>c i. bindE (arr_get p i) (\<lambda>(px, py).
       Inr (c @ [(if i = 0 \<or> i = 3 then - 1 else 1, if i = 0 \<or> i = 1 then - 1 else 1, px, py)]))) [0..<4] []"

text \<open>The result is not zero if an error occurs.\<close>

definition quad_update_homographies :: "'f::linordered_field quad \<Rightarrow> cerr + int \<times> 'f quad" where
  "quad_update_homographies quad =
     bindE (corr_arr (quad_p quad)) (\<lambda>c. bindE (homography_compute2 c) (\<lambda>r.
     case r of
       None \<Rightarrow> Inr (- 1, quad\<lparr>quad_H := None\<rparr>)
     | Some H \<Rightarrow>
         bindE (matd_inverse H) (\<lambda>inv.
         case inv of
           Some Hinv \<Rightarrow> Inr (0, quad\<lparr>quad_H := Some H, quad_Hinv := Some Hinv\<rparr>)
         | None \<Rightarrow> Inr (- 1, quad\<lparr>quad_H := None, quad_Hinv := None\<rparr>))))"

definition homography_project :: "'f::linordered_field matd \<Rightarrow> 'f \<Rightarrow> 'f \<Rightarrow> cerr + 'f \<times> 'f" where
  "homography_project H x y =
     bindE (MATD_EL H 0 0) (\<lambda>h00. bindE (MATD_EL H 0 1) (\<lambda>h01. bindE (MATD_EL H 0 2) (\<lambda>h02.
     bindE (MATD_EL H 1 0) (\<lambda>h10. bindE (MATD_EL H 1 1) (\<lambda>h11. bindE (MATD_EL H 1 2) (\<lambda>h12.
     bindE (MATD_EL H 2 0) (\<lambda>h20. bindE (MATD_EL H 2 1) (\<lambda>h21. bindE (MATD_EL H 2 2) (\<lambda>h22.
     let xx = h00 * x + h01 * y + h02; yy = h10 * x + h11 * y + h12; zz = h20 * x + h21 * y + h22 in
     bindE (fdiv xx zz) (\<lambda>ox. bindE (fdiv yy zz) (\<lambda>oy. Inr (ox, oy))))))))))))"

subsection \<open>Elimination\<close>

text \<open>The array as a function of row and column.\<close>

abbreviation sys :: "(nat \<Rightarrow> nat \<Rightarrow> 'f) \<Rightarrow> 'f list" where
  "sys f \<equiv> matd_data (mat 8 9 f)"

lemma sys_get [cmem]: "i < 8 \<Longrightarrow> j < 9 \<Longrightarrow> arr_get (sys f) (i * 9 + j) = Inr (f i j)"
  using mat_el [of i 8 j 9 f] by (simp add: MATD_EL_def)

lemma sys_set [cmem]: "i < 8 \<Longrightarrow> j < 9 \<Longrightarrow> arr_set (sys f) (i * 9 + j) v = Inr (sys (upd f i j v))"
  using mat_el_set [of i 8 j 9 f v] el_index [of i 8 j 9] by (simp add: matd_el_set_def mat_def arr_set_def)

lemma sys_cong: "(\<And>i j. i < 8 \<Longrightarrow> j < 9 \<Longrightarrow> f i j = g i j) \<Longrightarrow> sys f = sys g"
  using mat_cong [of 8 8 9 9 f g] by simp

lemmas fold_sys = fold_parts [where m = sys]

lemma best_row_ok:
  assumes "col < 8"
  obtains "best_row (sys f) col = Inr (0, - 1)" "\<forall>i. col \<le> i \<longrightarrow> i < 8 \<longrightarrow> f i col = 0"
  | p where "best_row (sys f) col = Inr (\<bar>f p col\<bar>, int p)" "col \<le> p" "p < 8" "f p col \<noteq> 0"
proof -
  let ?step = "\<lambda>(max_val, max_val_idx) row. bindE (arr_get (sys f) (row * 9 + col)) (\<lambda>v.
       let val = \<bar>v\<bar> in Inr (if val > max_val then (val, int row) else (max_val, max_val_idx)))"
  have "foldE ?step [col..<m] (0, - 1) = Inr (0, - 1) \<and> (\<forall>i. col \<le> i \<longrightarrow> i < m \<longrightarrow> f i col = 0) \<or>
      (\<exists>p. foldE ?step [col..<m] (0, - 1) = Inr (\<bar>f p col\<bar>, int p) \<and> col \<le> p \<and> p < m \<and> f p col \<noteq> 0)" if "col \<le> m" "m \<le> 8" for m
    using that
  proof (induction m rule: dec_induct)
    case (step m)
    have next_step: "foldE ?step [col..<Suc m] (0, - 1) = bindE (foldE ?step [col..<m] (0, - 1)) (\<lambda>t. ?step t m)"
      using step(1) by (rule foldE_upt_Suc)
    have get: "arr_get (sys f) (m * 9 + col) = Inr (f m col)" using step assms by (intro sys_get) simp_all
    from step consider "foldE ?step [col..<m] (0, - 1) = Inr (0, - 1)" "\<forall>i. col \<le> i \<longrightarrow> i < m \<longrightarrow> f i col = 0"
      | p where "foldE ?step [col..<m] (0, - 1) = Inr (\<bar>f p col\<bar>, int p)" "col \<le> p" "p < m" "f p col \<noteq> 0" by auto
    then show ?case
    proof cases
      case 1
      then show ?thesis unfolding next_step 1(1) using step(1) by (cases "f m col = 0") (auto simp: get Let_def less_Suc_eq)
    next
      case 2
      show ?thesis
      proof (cases "\<bar>f p col\<bar> < \<bar>f m col\<bar>")
        case True
        then show ?thesis unfolding next_step 2(1) using step(1) by (intro disjI2 exI [of _ m]) (auto simp: get Let_def)
      next
        case False
        then show ?thesis unfolding next_step 2(1) using 2 by (intro disjI2 exI [of _ p]) (auto simp: get Let_def)
      qed
    qed
  qed simp
  from this [of 8] assms that show thesis by (auto simp: best_row_def)
qed

lemma swap_best_ok:
  assumes "col < 8" "p < 8" "col < p"
  shows "swap_best (sys f) col p = Inr (sys (\<lambda>i j. if col \<le> j then f (swp p col i) j else f i j))"
proof -
  have "swap_best (sys f) col p =
      Inr (sys (\<lambda>i j. if \<exists>k \<in> set [col..<9]. (i, j) \<in> {(col, k), (p, k)} then f (swp p col i) j else f i j))"
    unfolding swap_best_def
  proof (rule fold_sys)
    fix k g assume k: "k \<in> set [col..<9]"
      and g: "\<And>i j. (i, j) \<in> {(col, k), (p, k)} \<or> (\<forall>y \<in> set [col..<9]. (i, j) \<notin> {(col, y), (p, y)}) \<Longrightarrow> g i j = f i j"
    have "g col k = f col k" "g p k = f p k" by (rule g, simp)+
    then have "upd (upd g col k (g p k)) p k (g col k) = (\<lambda>i j. if (i, j) \<in> {(col, k), (p, k)} then f (swp p col i) j else g i j)"
      using assms(3) by (intro ext) (auto simp: upd_def swp_def)
    then show "bindE (arr_get (sys g) (col * 9 + k)) (\<lambda>tmp. bindE (arr_get (sys g) (p * 9 + k)) (\<lambda>v.
       bindE (arr_set (sys g) (col * 9 + k) v) (\<lambda>A. arr_set A (p * 9 + k) tmp))) =
       Inr (sys (\<lambda>i j. if (i, j) \<in> {(col, k), (p, k)} then f (swp p col i) j else g i j))"
      using k assms by (simp add: cmem)
  qed auto
  moreover have "(\<exists>k \<in> set [col..<9]. (i, j) \<in> {(col, k), (p, k)}) \<longleftrightarrow> (i = col \<or> i = p) \<and> col \<le> j \<and> j < 9" for i j by auto
  ultimately show ?thesis by (auto simp: swp_def intro!: sys_cong)
qed

lemma eliminate_row_ok:
  assumes "col < i" "i < 8" "f col col \<noteq> 0"
  shows "eliminate_row col (sys f) i = Inr (sys (\<lambda>k j. if k = i \<and> col \<le> j then if j = col then 0 else f i j - f i col / f col col * f col j else f k j))"
proof -
  let ?q = "f i col / f col col"
  have "foldE (\<lambda>A j. bindE (arr_get A (i * 9 + j)) (\<lambda>v. bindE (arr_get A (col * 9 + j)) (\<lambda>w. arr_set A (i * 9 + j) (v - ?q * w))))
      [col + 1..<9] (sys (upd f i col 0)) =
      Inr (sys (\<lambda>k j. if \<exists>l \<in> set [col + 1..<9]. (k, j) \<in> {(i, l)} then f i j - ?q * f col j else upd f i col 0 k j))"
  proof (rule fold_sys)
    fix l g assume l: "l \<in> set [col + 1..<9]"
      and g: "\<And>k j. (k, j) \<in> {(i, l)} \<or> (\<forall>y \<in> set [col + 1..<9]. (k, j) \<notin> {(i, y)}) \<Longrightarrow> g k j = upd f i col 0 k j"
    have "g i l = f i l" "g col l = f col l" using g [of i l] g [of col l] l assms(1) by (auto simp: upd_def)
    then show "bindE (arr_get (sys g) (i * 9 + l)) (\<lambda>v. bindE (arr_get (sys g) (col * 9 + l)) (\<lambda>w. arr_set (sys g) (i * 9 + l) (v - ?q * w))) =
        Inr (sys (\<lambda>k j. if (k, j) \<in> {(i, l)} then f i j - ?q * f col j else g k j))"
      using l assms by (auto simp: cmem upd_block intro!: sys_cong)
  qed auto
  also have "\<dots> = Inr (sys (\<lambda>k j. if k = i \<and> col \<le> j then if j = col then 0 else f i j - ?q * f col j else f k j))"
    by (auto simp: upd_def intro!: sys_cong)
  finally show ?thesis using assms sys_get [of col col f] by (simp add: eliminate_row_def cmem)
qed

text \<open>After \<open>col\<close> columns the rows are zero left of the diagonal, and the pivots are not.\<close>

definition reduced :: "nat \<Rightarrow> (nat \<Rightarrow> nat \<Rightarrow> 'f::linordered_field) \<Rightarrow> bool" where
  "reduced col f \<longleftrightarrow> (\<forall>i < 8. \<forall>j < col. j < i \<longrightarrow> f i j = 0) \<and> (\<forall>j < col. f j j \<noteq> 0)"

text \<open>With \<open>c = 1\<close> the solutions of the equations, with \<open>c = 0\<close> those of the homogeneous ones.\<close>

definition solves :: "'f::linordered_field \<Rightarrow> (nat \<Rightarrow> 'f) \<Rightarrow> (nat \<Rightarrow> nat \<Rightarrow> 'f) \<Rightarrow> bool" where
  "solves c x f \<longleftrightarrow> (\<forall>i < 8. (\<Sum>k<8. f i k * x k) = c * f i 8)"

text \<open>Without a pivot in the next column the homogeneous equations have a solution.\<close>

lemma no_pivot:
  assumes red: "reduced col f" and col: "col < 8" "\<forall>i. col \<le> i \<longrightarrow> i < 8 \<longrightarrow> f i col = 0"
  shows "\<exists>x. x col = 1 \<and> solves 0 x f"
proof -
  have nz: "f i i \<noteq> 0" if "i < col" for i using red that by (simp add: reduced_def)
  have "\<exists>x. x col = 1 \<and> (\<forall>k > col. x k = 0) \<and> (\<forall>i. m \<le> i \<longrightarrow> i < 8 \<longrightarrow> (\<Sum>k=i..<8. f i k * x k) = 0)" if "m \<le> col" for m
    using that
  proof (induction m rule: inc_induct)
    case base
    let ?x = "\<lambda>k. if k = col then 1 else 0"
    have "(\<Sum>k=i..<8. f i k * ?x k) = 0" if "col \<le> i" "i < 8" for i
      using col(2) that by (intro sum.neutral) auto
    then show ?case using col(2) by (intro exI [of _ ?x]) auto
  next
    case (step m)
    then obtain x where x: "x col = 1" "\<forall>k > col. x k = 0"
      "\<And>i. Suc m \<le> i \<Longrightarrow> i < 8 \<Longrightarrow> (\<Sum>k=i..<8. f i k * x k) = 0" by auto
    let ?y = "x(m := - (\<Sum>k=Suc m..<8. f m k * x k) / f m m)"
    have tail: "(\<Sum>k=i..<8. f j k * ?y k) = (\<Sum>k=i..<8. f j k * x k)" if "Suc m \<le> i" for i j
      using that by (intro sum.cong) auto
    have "(\<Sum>k=m..<8. f m k * ?y k) = f m m * ?y m + (\<Sum>k=Suc m..<8. f m k * ?y k)"
      using step(2) col(1) by (simp add: sum.atLeast_Suc_lessThan)
    then have "(\<Sum>k=m..<8. f m k * ?y k) = 0" using tail [of "Suc m" m] nz [of m] step(2) by simp
    moreover have "(\<Sum>k=i..<8. f i k * ?y k) = 0" if "Suc m \<le> i" "i < 8" for i
      using x(3) [OF that] tail [OF that(1), of i] by simp
    ultimately have "\<forall>i. m \<le> i \<longrightarrow> i < 8 \<longrightarrow> (\<Sum>k=i..<8. f i k * ?y k) = 0"
      using step(2) by (metis Suc_leI le_neq_implies_less not_less_iff_gr_or_eq add.right_neutral)
    then show ?case using x(1,2) step(2) by (intro exI [of _ ?y]) simp
  qed
  from this [of 0] obtain x where x: "x col = 1" "\<forall>k > col. x k = 0"
    "\<And>i. i < 8 \<Longrightarrow> (\<Sum>k=i..<8. f i k * x k) = 0" by auto
  have "(\<Sum>k<8. f i k * x k) = 0" if i: "i < 8" for i
  proof -
    have z: "f i k * x k = 0" if "k < i" for k
      using that red i col x(2) by (cases k col rule: linorder_cases) (auto simp: reduced_def)
    have "(\<Sum>k<8. f i k * x k) = (\<Sum>k=i..<8. f i k * x k)" 
    proof (intro sum.mono_neutral_right ballI)
      fix k assume "k \<in> {..<8} - {i..<8}"
      then show "f i k * x k = 0" by (intro z) auto
    qed auto
    then show ?thesis using x(3) [OF i] col(2) i by (simp split: if_splits)
  qed
  then show ?thesis using x(1) by (auto simp: solves_def)
qed

lemma eliminate_ok:
  assumes col: "col < 8" and red: "reduced col f"
  obtains x where "eliminate (sys f) col = Inl AssertFail" "solves 0 x f" "x col = 1" | "eliminate (sys f) col = Inr None"
  | g where "eliminate (sys f) col = Inr (Some (sys g))" "reduced (Suc col) g" "\<And>c x. solves c x g \<Longrightarrow> solves c x f"
proof (rule best_row_ok [OF col, of f])
  assume "best_row (sys f) col = Inr (0, - 1)" "\<forall>i. col \<le> i \<longrightarrow> i < 8 \<longrightarrow> f i col = 0"
  moreover from this(2) obtain x where "x col = 1" "solves 0 x f" using no_pivot [OF red col] by blast
  ultimately show thesis by (intro that(1) [of x]) (simp_all add: eliminate_def)
next
  fix p assume p: "best_row (sys f) col = Inr (\<bar>f p col\<bar>, int p)" "col \<le> p" "p < 8" "f p col \<noteq> 0"
  show thesis
  proof (cases "\<bar>f p col\<bar> < epsilon")
    case True
    then show thesis using p(1) by (intro that(2)) (simp add: eliminate_def)
  next
    case False
    let ?s = "swp p col" let ?f = "\<lambda>i. f (?s i)"
    let ?g = "\<lambda>i j. if col < i \<and> col \<le> j then if j = col then 0 else ?f i j - ?f i col / ?f col col * ?f col j else ?f i j"
    have s: "?s i < 8" "?s (?s i) = i" if "i < 8" for i using that p(3) col by (auto simp: swp_def)
    have low: "?s i = i" if "i < col" for i using that p(2) by (auto simp: swp_def)
    have high: "col \<le> ?s i \<longleftrightarrow> col \<le> i" for i using p(2) by (auto simp: swp_def)
    have piv: "?f col col = f p col" using p(2) by (auto simp: swp_def)
    have red': "reduced col ?f" unfolding reduced_def
    proof (intro conjI allI impI)
      fix i j assume "i < 8" "j < col" "j < i"
      then show "f (?s i) j = 0" using red s(1) low [of i] high [of i] unfolding reduced_def by (metis not_less order_less_le_trans)
    qed (use red low in \<open>simp add: reduced_def\<close>)
    have sw: "(if int p \<noteq> int col then swap_best (sys f) col (nat (int p)) else Inr (sys f)) = Inr (sys ?f)"
    proof (cases "p = col")
      case True
      then have "?s i = i" for i by (simp add: swp_def)
      then show ?thesis using True by simp
    next
      case False
      have "swap_best (sys f) col p = Inr (sys (\<lambda>i j. if col \<le> j then f (?s i) j else f i j))"
        using False p(2,3) col by (intro swap_best_ok) simp_all
      also have "\<dots> = Inr (sys ?f)"
      proof (intro arg_cong [of _ _ Inr] sys_cong)
        fix i j :: nat assume ij: "i < 8" "j < 9"
        have "f (?s i) j = f i j" if "j < col"
        proof (cases "i < col")
          case False
          then show ?thesis using red red' that ij unfolding reduced_def by simp
        qed (simp add: low)
        then show "(if col \<le> j then f (?s i) j else f i j) = f (?s i) j" by simp
      qed
      finally show ?thesis using False by simp
    qed
    have "foldE (eliminate_row col) [col + 1..<8] (sys ?f) =
        Inr (sys (\<lambda>i j. if \<exists>k \<in> set [col + 1..<8]. (i, j) \<in> {k} \<times> {col..<9} then ?g i j else ?f i j))"
    proof (rule fold_sys [where h = "\<lambda>i j _. ?g i j"])
      fix k h assume k: "k \<in> set [col + 1..<8]"
        and h: "\<And>i j. (i, j) \<in> {k} \<times> {col..<9} \<or> (\<forall>y \<in> set [col + 1..<8]. (i, j) \<notin> {y} \<times> {col..<9}) \<Longrightarrow> h i j = ?f i j"
      have hk: "h k j = ?f k j" if "j < 9" for j using that h [of k j] by (cases "col \<le> j") auto
      have hc: "h col j = ?f col j" for j using h [of col j] by auto
      have "h col col \<noteq> 0" using hc piv p(4) by simp
      then show "eliminate_row col (sys h) k = Inr (sys (\<lambda>i j. if (i, j) \<in> {k} \<times> {col..<9} then ?g i j else h i j))"
        using k hk hc col by (subst eliminate_row_ok) (auto intro!: sys_cong)
    qed auto
    also have "\<dots> = Inr (sys ?g)" by (auto intro!: sys_cong)
    finally have el: "eliminate (sys f) col = Inr (Some (sys ?g))"
      using p(1) False sw by (simp add: eliminate_def del: nat_int of_nat_eq_iff)
    have r: "reduced (Suc col) ?g" using red' piv p(4) by (auto simp: reduced_def less_Suc_eq)
    have sv: "solves c x f" if g: "solves c x ?g" for c x
    proof -
      have row: "(\<Sum>k<8. ?f i k * x k) = c * ?f i 8" if i: "i < 8" for i
      proof (cases "col < i")
        case False
        then have "?g i k = ?f i k" for k by simp
        then show ?thesis using g i unfolding solves_def by auto
      next
        case True
        let ?q = "?f i col / ?f col col"
        have c: "(\<Sum>k<8. ?f col k * x k) = c * ?f col 8" using g col unfolding solves_def by auto
        have gi: "?g i k = ?f i k - ?q * ?f col k" if "k < 9" for k
        proof (cases "k < col")
          case True
          then have "?f i k = 0" "?f col k = 0" using red' i col \<open>col < i\<close> by (simp_all add: reduced_def)
          then show ?thesis using True by simp
        next
          case False
          then show ?thesis using piv p(4) \<open>col < i\<close> by auto
        qed
        have "(\<Sum>k<8. ?g i k * x k) = c * ?g i 8" using g i unfolding solves_def by blast
        moreover have "(\<Sum>k<8. ?g i k * x k) = (\<Sum>k<8. ?f i k * x k) - ?q * (\<Sum>k<8. ?f col k * x k)"
          unfolding sum_distrib_left sum_subtractf [symmetric] by (intro sum.cong) (simp_all add: gi algebra_simps)
        ultimately show ?thesis using gi [of 8] c by (simp add: algebra_simps)
      qed
      then have "(\<Sum>k<8. f i k * x k) = c * f i 8" if "i < 8" for i using row [OF s(1) [OF that]] s(2) [OF that] by simp
      then show ?thesis by (simp add: solves_def)
    qed
    show thesis by (rule that(3) [OF el r sv])
  qed
qed

lemma back_solve_ok:
  assumes red: "reduced 8 f"
  obtains x where "foldE back_solve (rev [0..<8]) (sys f) = Inr (sys (\<lambda>i j. if j = 8 then x i else f i j))" "solves 1 x f"
proof -
  let ?x = "\<lambda>m x i j. if j = 8 \<and> m \<le> i then x i else f i j"
  have nz: "f i i \<noteq> 0" if "i < 8" for i using red that by (simp add: reduced_def)
  have "\<exists>x. foldE back_solve (rev [m..<8]) (sys f) = Inr (sys (?x m x)) \<and> (\<forall>i. m \<le> i \<longrightarrow> i < 8 \<longrightarrow> (\<Sum>k=i..<8. f i k * x k) = f i 8)"
    if "m \<le> 8" for m :: nat
    using that
  proof (induction m rule: inc_induct)
    case base
    show ?case by (auto intro!: sys_cong)
  next
    case (step m)
    then obtain x where x: "foldE back_solve (rev [Suc m..<8]) (sys f) = Inr (sys (?x (Suc m) x))"
      "\<And>i. Suc m \<le> i \<Longrightarrow> i < 8 \<Longrightarrow> (\<Sum>k=i..<8. f i k * x k) = f i 8" by auto
    let ?s = "\<Sum>k=Suc m..<8. f m k * x k"
    let ?y = "x(m := (f m 8 - ?s) / f m m)"
    have "foldE (\<lambda>s i. bindE (arr_get (sys (?x (Suc m) x)) (m * 9 + i)) (\<lambda>v. bindE (arr_get (sys (?x (Suc m) x)) (i * 9 + 8)) (\<lambda>w. Inr (s + v * w))))
        [m + 1..<8] 0 = Inr (0 + (\<Sum>k=m + 1..<8. f m k * x k))"
      using step(2) by (intro foldE_sum_from) (simp_all add: cmem)
    moreover have "upd (?x (Suc m) x) m 8 ((f m 8 - ?s) / f m m) i j = ?x m ?y i j" for i j by (auto simp: upd_def)
    then have "upd (?x (Suc m) x) m 8 ((f m 8 - ?s) / f m m) = ?x m ?y" by (intro ext)
    ultimately have b: "back_solve (sys (?x (Suc m) x)) m = Inr (sys (?x m ?y))"
      using step(2) nz [of m] sys_get [of m m "?x (Suc m) x"] sys_get [of m 8 "?x (Suc m) x"] sys_set [of m 8 "?x (Suc m) x"]
      by (simp add: back_solve_def fdiv_ok)
    have tail: "(\<Sum>k=i..<8. f j k * ?y k) = (\<Sum>k=i..<8. f j k * x k)" if "Suc m \<le> i" for i j
      using that by (intro sum.cong) auto
    have "(\<Sum>k=i..<8. f i k * ?y k) = f i 8" if "m \<le> i" "i < 8" for i
    proof (cases "i = m")
      case True
      then have "(\<Sum>k=i..<8. f i k * ?y k) = f m m * ?y m + (\<Sum>k=Suc m..<8. f m k * ?y k)"
        using step(2) by (simp add: sum.atLeast_Suc_lessThan)
      then show ?thesis using True tail [of "Suc m" m] nz [of m] step(2) by simp
    next
      case False
      then show ?thesis using that tail [of i i] x(2) by simp
    qed
    moreover have "rev [m..<8] = rev [Suc m..<8] @ [m]" using step(2) by (simp add: upt_conv_Cons)
    ultimately show ?case using x(1) b by (intro exI [of _ ?y]) (simp add: foldE_append foldE_single del: foldE.simps)
  qed
  from this [of 0] obtain x where x: "foldE back_solve (rev [0..<8]) (sys f) = Inr (sys (?x 0 x))"
    "\<forall>i. 0 \<le> i \<longrightarrow> i < 8 \<longrightarrow> (\<Sum>k=i..<8. f i k * x k) = f i 8" by blast
  have "(\<Sum>k<8. f i k * x k) = f i 8" if "i < 8" for i
  proof -
    have "(\<Sum>k<8. f i k * x k) = (\<Sum>k=i..<8. f i k * x k)"
      using red that by (intro sum.mono_neutral_right) (auto simp: reduced_def)
    then show ?thesis using x(2) that by simp
  qed
  then show thesis using x(1) by (intro that [of x]) (simp_all add: solves_def)
qed

subsection \<open>The homography\<close>

text \<open>The eight equations: the point \<open>(x, y)\<close> goes to \<open>(u, v)\<close>, when the denominator is not zero.\<close>

definition sends :: "(nat \<Rightarrow> nat \<Rightarrow> 'f::linordered_field) \<Rightarrow> 'f corr \<Rightarrow> bool" where
  "sends h = (\<lambda>(x, y, u, v). h 0 0 * x + h 0 1 * y + h 0 2 = u * (h 2 0 * x + h 2 1 * y + h 2 2) \<and>
     h 1 0 * x + h 1 1 * y + h 1 2 = v * (h 2 0 * x + h 2 1 * y + h 2 2))"

lemma eliminations_ok:
  obtains x k where "foldE (\<lambda>r col. case r of None \<Rightarrow> Inr None | Some A \<Rightarrow> eliminate A col) [0..<8] (Some (sys f)) = Inl AssertFail"
    "solves 0 x f" "k < 8" "x k \<noteq> 0"
  | "foldE (\<lambda>r col. case r of None \<Rightarrow> Inr None | Some A \<Rightarrow> eliminate A col) [0..<8] (Some (sys f)) = Inr None"
  | g where "foldE (\<lambda>r col. case r of None \<Rightarrow> Inr None | Some A \<Rightarrow> eliminate A col) [0..<8] (Some (sys f)) = Inr (Some (sys g))"
    "reduced 8 g" "\<And>c x. solves c x g \<Longrightarrow> solves c x f"
proof -
  let ?step = "\<lambda>r col. case r of None \<Rightarrow> Inr None | Some A \<Rightarrow> eliminate A col"
  have "foldE ?step [0..<m] (Some (sys f)) = Inl AssertFail \<and> (\<exists>x. \<exists>k < 8. solves 0 x f \<and> x k \<noteq> 0) \<or> foldE ?step [0..<m] (Some (sys f)) = Inr None \<or>
      (\<exists>g. foldE ?step [0..<m] (Some (sys f)) = Inr (Some (sys g)) \<and> reduced m g \<and> (\<forall>c x. solves c x g \<longrightarrow> solves c x f))" if "m \<le> 8" for m
    using that
  proof (induction m)
    case (Suc m)
    then consider "foldE ?step [0..<m] (Some (sys f)) = Inl AssertFail" "\<exists>x. \<exists>k < 8. solves 0 x f \<and> x k \<noteq> 0" | "foldE ?step [0..<m] (Some (sys f)) = Inr None"
      | g where "foldE ?step [0..<m] (Some (sys f)) = Inr (Some (sys g))" "reduced m g" "\<forall>c x. solves c x g \<longrightarrow> solves c x f" by auto
    then show ?case
    proof cases
      case 3
      have m: "m < 8" using Suc.prems by simp
      show ?thesis unfolding foldE_upt_Suc [OF le0] 3(1) 
        by (rule eliminate_ok [OF m 3(2)]) (use 3(3) m in \<open>auto 0 4 intro: exI [of _ m]\<close>)
    qed (auto simp: foldE_append foldE_single simp del: foldE.simps)
  next
    case 0
    show ?case by (auto intro!: exI [of _ f] simp: reduced_def)
  qed
  from this [of 8] that show thesis by blast
qed

lemma homography_system:
  assumes "length c = 4"
  obtains f where "homography_rows c = sys f"
    "\<And>c' x h. solves c' x f \<Longrightarrow> h = (\<lambda>i j. if 3 * i + j = 8 then c' else x (3 * i + j)) \<Longrightarrow> \<forall>p \<in> set c. sends h p"
proof -
  obtain a0 b0 u0 v0 a1 b1 u1 v1 a2 b2 u2 v2 a3 b3 u3 v3
    where c: "c = [(a0, b0, u0, v0), (a1, b1, u1, v1), (a2, b2, u2, v2), (a3, b3, u3, v3)]"
    using assms by (auto simp: numeral_eq_Suc length_Suc_conv)
  define f where "f i j = homography_rows c ! (i * 9 + j)" for i j
  have l: "length (homography_rows c) = 72" by (simp add: homography_rows_def c)
  have "homography_rows c = sys f" by (rule nth_equalityI) (simp_all add: l mat_def f_def)
  moreover have "\<forall>p \<in> set c. sends h p" if s: "solves c' x f" and h: "h = (\<lambda>i j. if 3 * i + j = 8 then c' else x (3 * i + j))" for c' x h
  proof -
    have r: "(\<Sum>k<8. f i k * x k) = c' * f i 8" if "i < 8" for i using s that by (simp add: solves_def)
    have e8: "(\<Sum>k<8. g k) = g 0 + g 1 + g 2 + g 3 + g 4 + g 5 + g 6 + g 7" for g :: "nat \<Rightarrow> 'a"
      by (simp add: eval_nat_numeral)
    show ?thesis
      using r [of 0] r [of 1] r [of 2] r [of 3] r [of 4] r [of 5] r [of 6] r [of 7]
      by (simp add: e8 f_def c homography_rows_def sends_def h numeral_2_eq_2 algebra_simps)
  qed
  ultimately show thesis by (rule that)
qed

lemma homography_compute2_ok:
  assumes c: "length c = 4"
  obtains h i j where "homography_compute2 c = Inl AssertFail" "h 2 2 = 0" "\<forall>p \<in> set c. sends h p" "i < 3" "j < 3" "h i j \<noteq> 0" | "homography_compute2 c = Inr None"
  | h where "homography_compute2 c = Inr (Some (mat 3 3 h))" "h 2 2 = 1" "\<forall>p \<in> set c. sends h p"
proof -
  obtain f where f: "homography_rows c = sys f"
    "\<And>c' x h. solves c' x f \<Longrightarrow> h = (\<lambda>i j. if 3 * i + j = 8 then c' else x (3 * i + j)) \<Longrightarrow> \<forall>p \<in> set c. sends h p"
    using homography_system [OF c] by blast
  show thesis
  proof (rule eliminations_ok [of f])
    fix g assume g: "foldE (\<lambda>r col. case r of None \<Rightarrow> Inr None | Some A \<Rightarrow> eliminate A col) [0..<8] (Some (sys f)) = Inr (Some (sys g))"
      "reduced 8 g" "\<And>c x. solves c x g \<Longrightarrow> solves c x f"
    obtain x where x: "foldE back_solve (rev [0..<8]) (sys g) = Inr (sys (\<lambda>i j. if j = 8 then x i else g i j))" "solves 1 x g"
      by (rule back_solve_ok [OF g(2)])
    let ?h = "\<lambda>i j. if 3 * i + j = 8 then 1 else x (3 * i + j)"
    have "foldE (\<lambda>h k. bindE (arr_get (sys (\<lambda>i j. if j = 8 then x i else g i j)) (k * 9 + 8)) (\<lambda>v. Inr (h @ [v]))) [0..<m] [] = Inr (map x [0..<m])"
      if "m \<le> 8" for m
      using that by (induction m) (simp_all add: foldE_append foldE_single cmem del: foldE.simps(2))
    then have "homography_compute2 c = bindE (matd_create_data 3 3 (map x [0..<8] @ [1])) (\<lambda>H. Inr (Some H))"
      using g(1) x(1) by (simp add: homography_compute2_def f(1))
    also have "matd_create_data 3 3 (map x [0..<8] @ [1]) = Inr (mat 3 3 (\<lambda>i j. (map x [0..<8] @ [1]) ! (i * 3 + j)))"
      using create_data_ok [of 3 3 "map x [0..<8] @ [1]"] by (simp add: dims_ok_def)
    also have "mat 3 3 (\<lambda>i j. (map x [0..<8] @ [1]) ! (i * 3 + j)) = mat 3 3 ?h"
      by (rule mat_cong) (auto simp: nth_append mult.commute)
    finally show thesis using f(2) [OF g(3) [OF x(2)], of ?h] by (intro that(3) [of ?h]) simp_all
  next
    fix x k assume a: "foldE (\<lambda>r col. case r of None \<Rightarrow> Inr None | Some A \<Rightarrow> eliminate A col) [0..<8] (Some (sys f)) = Inl AssertFail"
      and x: "solves 0 x f" "k < 8" "x k \<noteq> 0"
    let ?h = "\<lambda>i j. if 3 * i + j = 8 then 0 else x (3 * i + j)"
    have "?h (k div 3) (k mod 3) \<noteq> 0" using x(2,3) by simp
    moreover have "k div 3 < 3" using x(2) by simp
    ultimately show thesis using a f(2) [OF x(1), of ?h] by (intro that(1) [of ?h "k div 3" "k mod 3"]) (simp_all add: homography_compute2_def f(1))
  qed (use that in \<open>simp_all add: homography_compute2_def f(1)\<close>)
qed

lemma project_ok [matd]:
  "homography_project (mat 3 3 h) x y =
    (let zz = h 2 0 * x + h 2 1 * y + h 2 2 in
     bindE (fdiv (h 0 0 * x + h 0 1 * y + h 0 2) zz) (\<lambda>ox. bindE (fdiv (h 1 0 * x + h 1 1 * y + h 1 2) zz) (\<lambda>oy. Inr (ox, oy))))"
  by (simp add: homography_project_def matd Let_def)

lemma sends_project:
  assumes "sends h (x, y, w)" "h 2 0 * x + h 2 1 * y + h 2 2 \<noteq> 0"
  shows "homography_project (mat 3 3 h) x y = Inr w"
  using assms by (cases w) (simp add: project_ok sends_def fdiv_ok)

lemma corr_arr_ok:
  assumes "length p = 4"
  shows "corr_arr p = Inr [(- 1, - 1, fst (p ! 0), snd (p ! 0)), (1, - 1, fst (p ! 1), snd (p ! 1)),
    (1, 1, fst (p ! 2), snd (p ! 2)), (- 1, 1, fst (p ! 3), snd (p ! 3))]"
proof -
  have "[0..<4] = [0, 1, 2, 3]" by (simp add: upt_rec)
  then show ?thesis using assms by (simp add: corr_arr_def arr_get_ok split_beta)
qed

text \<open>A corner of the tag and the one of the quadrilateral it belongs to.\<close>

definition tag_corner :: "nat \<Rightarrow> 'f::linordered_field \<times> 'f" where
  "tag_corner i = (if i = 0 \<or> i = 3 then - 1 else 1, if i = 0 \<or> i = 1 then - 1 else 1)"

text \<open>The diagonals of a convex quadrilateral meet in one point, so they are not parallel.\<close>

definition parallel_diagonals :: "('f::linordered_field \<times> 'f) list \<Rightarrow> bool" where
  "parallel_diagonals p \<longleftrightarrow> (fst (p ! 0) - fst (p ! 2)) * (snd (p ! 1) - snd (p ! 3)) = (snd (p ! 0) - snd (p ! 2)) * (fst (p ! 1) - fst (p ! 3))"

lemma line_zero:
  fixes a b c :: "'f::linordered_field"
  shows "- a - b + c = 0 \<Longrightarrow> a - b + c = 0 \<Longrightarrow> a + b + c = 0 \<Longrightarrow> a = 0 \<and> b = 0 \<and> c = 0"
  by (intro conjI; linarith)

lemma cross_zero:
  fixes a b :: "'f::linordered_field"
  assumes "u * a = u' * b" "v * a = v' * b" "a \<noteq> 0 \<or> b \<noteq> 0"
  shows "u * v' = v * u'"
proof -
  have "a * (u * v') = (u * a) * v'" by (simp only: ac_simps)
  also have "\<dots> = (v' * b) * u'" unfolding assms(1) by (simp only: ac_simps)
  also have "\<dots> = a * (v * u')" unfolding assms(2) [symmetric] by (simp only: ac_simps)
  finally have a: "a * (u * v') = a * (v * u')" .
  have "b * (u * v') = u * (v' * b)" by (simp only: ac_simps)
  also have "\<dots> = v * (u * a)" unfolding assms(2) [symmetric] by (simp only: ac_simps)
  also have "\<dots> = b * (v * u')" unfolding assms(1) by (simp only: ac_simps)
  finally have b: "b * (u * v') = b * (v * u')" .
  show ?thesis using assms(3) a b by auto
qed

lemma singular_parallel:
  assumes s: "\<And>i. i < 4 \<Longrightarrow> sends h (fst (tag_corner i), snd (tag_corner i), p ! i)"
    and h: "h 2 2 = 0" "i < 3" "j < 3" "h i j \<noteq> 0"
  shows "parallel_diagonals p"
proof -
  let ?a = "- h 2 0 - h 2 1" let ?b = "h 2 0 - h 2 1"
  let ?u = "\<lambda>i. fst (p ! i)" let ?v = "\<lambda>i. snd (p ! i)"
  have e: "- h 0 0 - h 0 1 + h 0 2 = ?u 0 * ?a" "h 0 0 - h 0 1 + h 0 2 = ?u 1 * ?b" "h 0 0 + h 0 1 + h 0 2 = - ?u 2 * ?a"
    "- h 0 0 + h 0 1 + h 0 2 = - ?u 3 * ?b"
    "- h 1 0 - h 1 1 + h 1 2 = ?v 0 * ?a" "h 1 0 - h 1 1 + h 1 2 = ?v 1 * ?b" "h 1 0 + h 1 1 + h 1 2 = - ?v 2 * ?a"
    "- h 1 0 + h 1 1 + h 1 2 = - ?v 3 * ?b"
    using s [of 0] s [of 1] s [of 2] s [of 3] h(1) by (auto simp: sends_def tag_corner_def split_beta algebra_simps)
  have u: "(?u 0 - ?u 2) * ?a = (?u 1 - ?u 3) * ?b" and v: "(?v 0 - ?v 2) * ?a = (?v 1 - ?v 3) * ?b"
    using e by (simp_all add: algebra_simps)
  have "?a \<noteq> 0 \<or> ?b \<noteq> 0"
  proof (rule ccontr)
    assume "\<not> ?thesis"
    then have z: "h 2 0 = 0" "h 2 1 = 0" by (simp_all add: algebra_simps)
    then have "- h p 0 - h p 1 + h p 2 = 0" "h p 0 - h p 1 + h p 2 = 0" "h p 0 + h p 1 + h p 2 = 0" if "p = 0 \<or> p = 1" for p
      using e that by auto
    then have "h p 0 = 0 \<and> h p 1 = 0 \<and> h p 2 = 0" if "p = 0 \<or> p = 1" for p
      using that line_zero [of "h p 0" "h p 1" "h p 2"] by blast
    from this [of 0] this [of 1] have "h 0 0 = 0" "h 0 1 = 0" "h 0 2 = 0" "h 1 0 = 0" "h 1 1 = 0" "h 1 2 = 0" by simp_all
    moreover have "i = 0 \<or> i = 1 \<or> i = 2" "j = 0 \<or> j = 1 \<or> j = 2" using h(2,3) by linarith+
    ultimately show False using z h(1,4) by auto
  qed
  then show ?thesis using cross_zero [OF u v] by (simp add: parallel_diagonals_def)
qed

lemma update_ok:
  fixes q :: "'f::linordered_field quad"
  assumes p: "length (quad_p q) = 4"
  obtains "quad_update_homographies q = Inl AssertFail" "parallel_diagonals (quad_p q)"
  | q' where "quad_update_homographies q = Inr (- 1, q')" "quad_H q' = None"
  | h x where "quad_update_homographies q = Inr (0, q\<lparr>quad_H := Some (mat 3 3 h), quad_Hinv := Some x\<rparr>)" "h 2 2 = 1"
    "matd_multiply (mat 3 3 h) x = matd_identity 3"
    "\<And>i. i < 4 \<Longrightarrow> sends h (fst (tag_corner i), snd (tag_corner i), quad_p q ! i)"
    "\<And>i. i < 4 \<Longrightarrow> homography_project (mat 3 3 h) (fst (tag_corner i)) (snd (tag_corner i)) = Inr (quad_p q ! i)"
proof -
  let ?c = "[(- 1, - 1, fst (quad_p q ! 0), snd (quad_p q ! 0)), (1, - 1, fst (quad_p q ! 1), snd (quad_p q ! 1)),
    (1, 1, fst (quad_p q ! 2), snd (quad_p q ! 2)), (- 1, 1, fst (quad_p q ! 3), snd (quad_p q ! 3))]"
  have d: "dims_ok 3 3" by (simp add: dims_ok_def)
  have corners: "sends h (fst (tag_corner i), snd (tag_corner i), quad_p q ! i)" if "\<forall>p \<in> set ?c. sends h p" "i < 4" for h i
  proof -
    from \<open>i < 4\<close> consider "i = 0" | "i = 1" | "i = 2" | "i = 3" by linarith
    then show ?thesis using that(1) by cases (simp_all add: tag_corner_def)
  qed
  show thesis
  proof (rule homography_compute2_ok [of ?c])
    fix h i j assume h: "homography_compute2 ?c = Inl AssertFail" "h 2 2 = 0" "\<forall>p \<in> set ?c. sends h p" "i < 3" "j < 3" "h i j \<noteq> 0"
    show thesis
      by (rule that(1)) (use h singular_parallel [OF corners [OF h(3)] h(2,4,5,6)] in \<open>simp_all add: quad_update_homographies_def corr_arr_ok [OF p]\<close>)
  next
    fix h assume h: "homography_compute2 ?c = Inr (Some (mat 3 3 h))" "h 2 2 = 1" "\<forall>p \<in> set ?c. sends h p"
    note se = corners [OF h(3)]
    consider "matd_inverse (mat 3 3 h) = Inr None"
      | x where "matd_inverse (mat 3 3 h) = Inr (Some x)" "matd_multiply (mat 3 3 h) x = matd_identity 3"
      by (rule inverse_ok [OF d, of h]) simp_all
    then show thesis
    proof cases
      case 1
      then have "quad_update_homographies q = Inr (- 1, q\<lparr>quad_H := None, quad_Hinv := None\<rparr>)"
        using h(1) by (simp add: quad_update_homographies_def corr_arr_ok [OF p])
      then show thesis by (rule that(2)) simp
    next
      case 2
      have pr: "homography_project (mat 3 3 h) x y = Inr w" if s: "sends h (x, y, w)" for x y w
      proof (rule sends_project [OF s], rule notI)
        assume z: "h 2 0 * x + h 2 1 * y + h 2 2 = 0"
        let ?v = "\<lambda>k. if k = 0 then x else if k = 1 then y else 1 :: 'f"
        have "(\<Sum>k<3. h p k * ?v k) = h p 0 * x + h p 1 * y + h p 2" for p by (simp add: eval_nat_numeral)
        then have "\<forall>p < 3. (\<Sum>k<3. h p k * ?v k) = 0"
          using s z by (cases w) (auto simp: sends_def less_Suc_eq numeral_3_eq_3 numeral_2_eq_2)
        from inverse_kernel [OF 2(1) d _ this, of 2] show False by simp
      qed
      have "quad_update_homographies q = Inr (0, q\<lparr>quad_H := Some (mat 3 3 h), quad_Hinv := Some x\<rparr>)"
        using h(1) 2(1) by (simp add: quad_update_homographies_def corr_arr_ok [OF p])
      then show thesis using h(2) 2(2) se pr [OF se] by (rule that(3))
    qed
  qed (simp_all add: quad_update_homographies_def corr_arr_ok [OF p] that)
qed

text \<open>C29: \<open>quad_update_homographies\<close> fails only by its assertion, and this only for quadrilaterals with parallel diagonals, which
  are not convex. When it reports success, the homography it has computed
  projects the four corners of the tag exactly to the four corners of the quadrilateral, without dividing by zero, and its
  inverse is one; when it reports an error there is no homography.\<close>

theorem homography_maps_corners:
  fixes q :: "'f::linordered_field quad"
  assumes p: "length (quad_p q) = 4"
  shows "quad_update_homographies q = Inl AssertFail \<and> parallel_diagonals (quad_p q) \<or> (\<exists>q'. quad_update_homographies q = Inr (- 1, q') \<and> quad_H q' = None) \<or>
    (\<exists>q' H Hinv. quad_update_homographies q = Inr (0, q') \<and> quad_p q' = quad_p q \<and> quad_H q' = Some H \<and> quad_Hinv q' = Some Hinv \<and>
      homography_project H (- 1) (- 1) = Inr (quad_p q ! 0) \<and> homography_project H 1 (- 1) = Inr (quad_p q ! 1) \<and>
      homography_project H 1 1 = Inr (quad_p q ! 2) \<and> homography_project H (- 1) 1 = Inr (quad_p q ! 3) \<and>
      matd_multiply H Hinv = matd_identity 3)"
proof (rule update_ok [OF p])
  fix h x
  assume u: "quad_update_homographies q = Inr (0, q\<lparr>quad_H := Some (mat 3 3 h), quad_Hinv := Some x\<rparr>)"
    and m: "matd_multiply (mat 3 3 h) x = matd_identity 3"
    and pr: "\<And>i. i < 4 \<Longrightarrow> homography_project (mat 3 3 h) (fst (tag_corner i)) (snd (tag_corner i)) = Inr (quad_p q ! i)"
  show ?thesis using pr [of 0] pr [of 1] pr [of 2] pr [of 3] u m
    by (intro disjI2 exI [of _ "q\<lparr>quad_H := Some (mat 3 3 h), quad_Hinv := Some x\<rparr>"]) (simp add: tag_corner_def)
qed auto

text \<open>The evaluation of the elimination on numbers.\<close>

lemma upt8: "[0..<8] = [0, 1, 2, 3, 4, 5, 6, 7]"
  by (simp add: upt_rec)

lemmas run_homography = homography_compute2_def homography_rows_def upt8 eliminate_def best_row_def swap_best_def eliminate_row_def
  back_solve_def upt_rec arr_get_def arr_set_def fdiv_def epsilon_def Let_def

lemmas run_inverse = matd_inverse_def matd_is_scalar_def matd_plu_def matd_copy_def matd_create_def cint_def INT_MAX_def INT_MIN_def mem_read_def
  mem_write_def plu_step_def plu_column_def plu_dot_def plu_pivot_def plu_exchange_def plu_divide_def MATD_EL_def matd_el_set_def
  MATD_EPS_def matd_identity_def matd_plu_solve_def plu_permute_def plu_forward_def plu_back_def row_add_def upt_rec arr_get_def arr_set_def
  fdiv_def Let_def

text \<open>The unit square.\<close>

lemma unit_homography:
  "homography_compute2 [(- 1, - 1, - 1, - 1), (1, - 1, 1, - 1), (1, 1, 1, 1), (- 1, 1, - 1, 1)] =
    bindE (matd_create_data 3 3 [1, 0, 0, 0, 1, 0, 0, 0, 1]) (\<lambda>H. Inr (Some H :: real matd option))"
  by (simp add: run_homography)

definition unit_quad :: "real quad" where
  "unit_quad = \<lparr>quad_p = [(- 1, - 1), (1, - 1), (1, 1), (- 1, 1)], quad_reversed_border = False, quad_H = None, quad_Hinv = None\<rparr>"

lemma unit_inverse:
  "case matd_inverse (\<lparr>matd_nrows = 3, matd_ncols = 3, matd_data = [1, 0, 0, 0, 1, 0, 0, 0, 1]\<rparr> :: real matd) of
     Inr (Some _) \<Rightarrow> True | _ \<Rightarrow> False"
  by (simp add: run_inverse)

lemma unit_update: "\<exists>q'. quad_update_homographies unit_quad = Inr (0, q')"
proof -
  have "matd_create_data 3 3 [1, 0, 0, 0, 1, 0, 0, 0, 1] =
      Inr (\<lparr>matd_nrows = 3, matd_ncols = 3, matd_data = [1, 0, 0, 0, 1, 0, 0, 0, 1]\<rparr> :: real matd)"
    by (simp add: matd_create_data_def matd_create_def cint_def INT_MAX_def INT_MIN_def upt_rec arr_get_def arr_set_def eval_nat_numeral)
  then show ?thesis using unit_homography unit_inverse
    by (auto simp: quad_update_homographies_def unit_quad_def corr_arr_ok split: sum.splits option.splits)
qed

lemma homography_maps_corners_witness:
  "\<exists>q' H Hinv. quad_update_homographies unit_quad = Inr (0, q') \<and> quad_H q' = Some H \<and> quad_Hinv q' = Some Hinv \<and>
    homography_project H (- 1) (- 1) = Inr (- 1, - 1) \<and> homography_project H 1 1 = Inr (1, 1) \<and> matd_multiply H Hinv = matd_identity 3"
proof -
  have "length (quad_p unit_quad) = 4" by (simp add: unit_quad_def)
  from homography_maps_corners [OF this] unit_update show ?thesis by (auto simp: unit_quad_def)
qed

text \<open>A quadrilateral whose corners are one point makes a column zero: the assertion fails, before \<open>NULL\<close> can be returned.\<close>

lemma collapsed_quad:
  "homography_compute2 [(- 1, - 1, 0, 0), (1, - 1, 0, 0), (1, 1, 0, 0), (- 1, 1, 0, 0)] = (Inl AssertFail :: cerr + real matd option)"
  by (simp add: run_homography)

end
