(* ===== verification/GrayModel.thy ===== *)
theory GrayModel
  imports Homography
begin

text \<open>
  The model of brightness that \<open>quad_decode\<close> fits to the cells of one colour (\<open>graymodel_*\<close> of \<open>apriltag.c\<close>, \<open>apriltag_math.h\<close>):
  a plane through samples, found by least squares with a Cholesky decomposition. Floats are real numbers here.
\<close>

subsection \<open>The code\<close>

definition fsqrt :: "real \<Rightarrow> cerr + real" where
  "fsqrt x = (if x < 0 then Inl NotANumber else Inr (sqrt x))"

text \<open>The functions of \<open>apriltag_math.h\<close> write into arrays of nine elements that are not initialised, \<open>R\<close>.\<close>

definition mat33_chol :: "real list \<Rightarrow> real list \<Rightarrow> cerr + real list" where
  "mat33_chol A R =
     bindE (fsqrt (A ! 0)) (\<lambda>r. let R = R[0 := r] in
     bindE (fdiv (A ! 1) (R ! 0)) (\<lambda>r. let R = R[3 := r] in
     bindE (fdiv (A ! 2) (R ! 0)) (\<lambda>r. let R = R[6 := r] in
     bindE (fsqrt (A ! 4 - R ! 3 * R ! 3)) (\<lambda>r. let R = R[4 := r] in
     bindE (fdiv (A ! 5 - R ! 3 * R ! 6) (R ! 4)) (\<lambda>r. let R = R[7 := r] in
     bindE (fsqrt (A ! 8 - R ! 6 * R ! 6 - R ! 7 * R ! 7)) (\<lambda>r. let R = R[8 := r] in
     Inr (R[1 := 0, 2 := 0, 5 := 0])))))))"

definition mat33_lower_tri_inv :: "real list \<Rightarrow> real list \<Rightarrow> cerr + real list" where
  "mat33_lower_tri_inv A R =
     bindE (fdiv 1 (A ! 0)) (\<lambda>r. let R = R[0 := r] in
     bindE (fdiv (- (A ! 3) * R ! 0) (A ! 4)) (\<lambda>r. let R = R[3 := r] in
     bindE (fdiv 1 (A ! 4)) (\<lambda>r. let R = R[4 := r] in
     bindE (fdiv (- (A ! 6) * R ! 0 - A ! 7 * R ! 3) (A ! 8)) (\<lambda>r. let R = R[6 := r] in
     bindE (fdiv (- (A ! 7) * R ! 4) (A ! 8)) (\<lambda>r. let R = R[7 := r] in
     bindE (fdiv 1 (A ! 8)) (\<lambda>r. let R = R[8 := r] in
     Inr R))))))"

definition mat33_sym_solve :: "real list \<Rightarrow> real list \<Rightarrow> real list \<Rightarrow> cerr + real list" where
  "mat33_sym_solve junk A B =
     bindE (mat33_chol A junk) (\<lambda>L. bindE (mat33_lower_tri_inv L junk) (\<lambda>M.
     let tmp0 = M ! 0 * B ! 0;
         tmp1 = M ! 3 * B ! 0 + M ! 4 * B ! 1;
         tmp2 = M ! 6 * B ! 0 + M ! 7 * B ! 1 + M ! 8 * B ! 2
     in Inr [M ! 0 * tmp0 + M ! 3 * tmp1 + M ! 6 * tmp2, M ! 4 * tmp1 + M ! 7 * tmp2, M ! 8 * tmp2]))"

text \<open>The rows of \<open>A\<close> one after the other.\<close>

record graymodel =
  gm_A :: "real list"
  gm_B :: "real list"
  gm_C :: "real list"

definition graymodel_init :: graymodel where
  "graymodel_init = \<lparr>gm_A = replicate 9 0, gm_B = replicate 3 0, gm_C = replicate 3 0\<rparr>"

definition graymodel_add :: "graymodel \<Rightarrow> real \<Rightarrow> real \<Rightarrow> real \<Rightarrow> graymodel" where
  "graymodel_add gm x y gray =
     (let A = gm_A gm; B = gm_B gm in
      gm\<lparr>gm_A := A[0 := A ! 0 + x * x, 1 := A ! 1 + x * y, 2 := A ! 2 + x, 4 := A ! 4 + y * y, 5 := A ! 5 + y, 8 := A ! 8 + 1],
         gm_B := B[0 := B ! 0 + x * gray, 1 := B ! 1 + y * gray, 2 := B ! 2 + gray]\<rparr>)"

definition graymodel_solve :: "real list \<Rightarrow> graymodel \<Rightarrow> cerr + graymodel" where
  "graymodel_solve junk gm = bindE (mat33_sym_solve junk (gm_A gm) (gm_B gm)) (\<lambda>C. Inr (gm\<lparr>gm_C := C\<rparr>))"

definition graymodel_interpolate :: "graymodel \<Rightarrow> real \<Rightarrow> real \<Rightarrow> real" where
  "graymodel_interpolate gm x y = gm_C gm ! 0 * x + gm_C gm ! 1 * y + gm_C gm ! 2"

subsection \<open>Symmetric equations\<close>

lemma chol_solve:
  assumes l: "l0 \<noteq> 0" "l4 \<noteq> 0" "l8 \<noteq> 0" and j: "length junk = 9"
    and b: "b0 = l0 * (l0 * v0 + l3 * v1 + l6 * v2)" "b1 = l3 * (l0 * v0 + l3 * v1 + l6 * v2) + l4 * (l4 * v1 + l7 * v2)"
      "b2 = l6 * (l0 * v0 + l3 * v1 + l6 * v2) + l7 * (l4 * v1 + l7 * v2) + l8 * (l8 * v2)"
  shows "bindE (mat33_lower_tri_inv [l0, 0, 0, l3, l4, 0, l6, l7, l8] junk) (\<lambda>M.
     let tmp0 = M ! 0 * b0; tmp1 = M ! 3 * b0 + M ! 4 * b1; tmp2 = M ! 6 * b0 + M ! 7 * b1 + M ! 8 * b2
     in Inr [M ! 0 * tmp0 + M ! 3 * tmp1 + M ! 6 * tmp2, M ! 4 * tmp1 + M ! 7 * tmp2, M ! 8 * tmp2]) = Inr [v0, v1, v2 :: real]"
proof -
  define t0 t1 t2 where t: "t0 = l0 * v0 + l3 * v1 + l6 * v2" "t1 = l4 * v1 + l7 * v2" "t2 = l8 * v2"
  let ?m0 = "1 / l0" and ?m4 = "1 / l4" and ?m8 = "1 / l8"
  let ?m3 = "- (l3 * ?m0) / l4" let ?m7 = "- (l7 * ?m4) / l8" let ?m6 = "(- (l6 * ?m0) - l7 * ?m3) / l8"
  have b': "b0 = l0 * t0" "b1 = l3 * t0 + l4 * t1" "b2 = l6 * t0 + l7 * t1 + l8 * t2" using b by (simp_all add: t)
  have e: "?m0 * b0 = t0" "?m3 * b0 + ?m4 * b1 = t1" "?m6 * b0 + ?m7 * b1 + ?m8 * b2 = t2"
    unfolding b' using l by (simp_all add: field_simps)
  have "?m0 * t0 + ?m3 * t1 + ?m6 * t2 = v0" "?m4 * t1 + ?m7 * t2 = v1" "?m8 * t2 = v2"
    unfolding t using l by (simp_all add: field_simps)
  then show ?thesis using l j e by (simp add: mat33_lower_tri_inv_def fdiv_ok Let_def)
qed

text \<open>A positive definite matrix, given by its upper triangle.\<close>

lemma sym_solve_ok:
  fixes v0 v1 v2 :: real
  assumes A: "length A = 9" "a0 = A ! 0" "a1 = A ! 1" "a2 = A ! 2" "a4 = A ! 4" "a5 = A ! 5" "a8 = A ! 8" and j: "length junk = 9"
    and pos: "0 < a0" "0 < a4 - a1 * a1 / a0" "0 < a8 - a2 * a2 / a0 - (a5 - a1 * a2 / a0) * (a5 - a1 * a2 / a0) / (a4 - a1 * a1 / a0)"
    and B: "B = [a0 * v0 + a1 * v1 + a2 * v2, a1 * v0 + a4 * v1 + a5 * v2, a2 * v0 + a5 * v1 + a8 * v2]"
  shows "mat33_sym_solve junk A B = Inr [v0, v1, v2]"
proof -
  define s1 where "s1 = a4 - a1 * a1 / a0"
  define s2 where "s2 = a8 - a2 * a2 / a0 - (a5 - a1 * a2 / a0) * (a5 - a1 * a2 / a0) / s1"
  define l0 l3 l6 where l: "l0 = sqrt a0" "l3 = a1 / l0" "l6 = a2 / l0"
  define l4 where l4: "l4 = sqrt s1"
  define l7 where l7: "l7 = (a5 - l3 * l6) / l4"
  define l8 where l8: "l8 = sqrt s2"
  have sq: "l0 * l0 = a0" "l4 * l4 = s1" "l8 * l8 = s2" using pos by (simp_all add: l l4 l8 s1_def s2_def)
  have nz: "l0 \<noteq> 0" "l4 \<noteq> 0" "l8 \<noteq> 0" using sq pos by (auto simp: s1_def s2_def)
  have p: "l3 * l3 = a1 * a1 / a0" "l3 * l6 = a1 * a2 / a0" "l6 * l6 = a2 * a2 / a0" by (simp_all only: l(2,3) times_divide_times_eq sq(1))
  have l7l7: "l7 * l7 = (a5 - a1 * a2 / a0) * (a5 - a1 * a2 / a0) / s1" by (simp only: l7 times_divide_times_eq sq(2) p(2))
  have chol: "mat33_chol A junk = Inr [l0, 0, 0, l3, l4, 0, l6, l7, l8]"
  proof -
    obtain j0 j1 j2 j3 j4 j5 j6 j7 j8 where jj: "junk = [j0, j1, j2, j3, j4, j5, j6, j7, j8]"
      using j by (auto simp: numeral_eq_Suc length_Suc_conv)
    have "\<not> a0 < 0" "\<not> a4 - l3 * l3 < 0" "\<not> a8 - l6 * l6 - l7 * l7 < 0" using pos by (simp_all add: p l7l7 s1_def)
    moreover have "sqrt (a4 - l3 * l3) = l4" "sqrt (a8 - l6 * l6 - l7 * l7) = l8" by (simp_all add: l4 l8 p l7l7 s1_def s2_def)
    moreover have "sqrt a0 = l0" "a1 / l0 = l3" "a2 / l0 = l6" "(a5 - l3 * l6) / l4 = l7" "\<not> a0 < 0"
      using pos(1) by (simp_all add: l(1) l7) (simp_all add: l(2,3) l(1))
    ultimately show ?thesis using nz unfolding mat33_chol_def A(2-7) [symmetric] jj
      by (simp add: fsqrt_def fdiv_ok Let_def)
  qed
  have "a1 = l0 * l3" "a2 = l0 * l6" "a4 = l3 * l3 + l4 * l4" "a5 = l3 * l6 + l4 * l7" "a8 = l6 * l6 + l7 * l7 + l8 * l8"
    using nz sq p l7l7 by (simp_all add: l(2,3) s1_def s2_def l7)
  then have b: "B ! 0 = l0 * (l0 * v0 + l3 * v1 + l6 * v2)" "B ! 1 = l3 * (l0 * v0 + l3 * v1 + l6 * v2) + l4 * (l4 * v1 + l7 * v2)"
    "B ! 2 = l6 * (l0 * v0 + l3 * v1 + l6 * v2) + l7 * (l4 * v1 + l7 * v2) + l8 * (l8 * v2)"
    unfolding B using sq(1) by (simp_all add: algebra_simps)
  show ?thesis unfolding mat33_sym_solve_def chol bindE.simps by (rule chol_solve [OF nz j b])
qed

subsection \<open>The sums over the samples\<close>

type_synonym sample = "real \<times> real \<times> real"

abbreviation total :: "(sample \<Rightarrow> real) \<Rightarrow> sample list \<Rightarrow> real" where
  "total f S \<equiv> sum_list (map f S)"

definition gray_sums :: "sample list \<Rightarrow> graymodel" where
  "gray_sums S =
     \<lparr>gm_A = [total (\<lambda>(x, y, v). x * x) S, total (\<lambda>(x, y, v). x * y) S, total (\<lambda>(x, y, v). x) S,
        0, total (\<lambda>(x, y, v). y * y) S, total (\<lambda>(x, y, v). y) S, 0, 0, real (length S)],
      gm_B = [total (\<lambda>(x, y, v). x * v) S, total (\<lambda>(x, y, v). y * v) S, total (\<lambda>(x, y, v). v) S], gm_C = [0, 0, 0]\<rparr>"

lemma init_sums: "graymodel_init = gray_sums []"
  by (simp add: graymodel_init_def gray_sums_def eval_nat_numeral)

lemma add_sums: "graymodel_add (gray_sums S) x y v = gray_sums (S @ [(x, y, v)])"
  by (simp add: graymodel_add_def gray_sums_def Let_def)

text \<open>The samples are not on one line.\<close>

definition spread :: "sample list \<Rightarrow> bool" where
  "spread S \<longleftrightarrow> (\<forall>p q r. (\<forall>(x, y, v) \<in> set S. p * x + q * y + r = 0) \<longrightarrow> p = 0 \<and> q = 0 \<and> r = 0)"

lemma spread_three:
  assumes "(x1, y1, v1) \<in> set S" "(x2, y2, v2) \<in> set S" "(x3, y3, v3) \<in> set S"
    "(x2 - x1) * (y3 - y1) \<noteq> (x3 - x1) * (y2 - y1)"
  shows "spread S"
  unfolding spread_def
proof (intro allI impI)
  fix p q r assume a: "\<forall>(x, y, v) \<in> set S. p * x + q * y + r = 0"
  have e: "p * x1 + q * y1 + r = 0" "p * x2 + q * y2 + r = 0" "p * x3 + q * y3 + r = 0" using assms(1-3) a by auto
  let ?d = "(x2 - x1) * (y3 - y1) - (x3 - x1) * (y2 - y1)"
  have "p * ?d = (p * (x2 - x1) + q * (y2 - y1)) * (y3 - y1) - (p * (x3 - x1) + q * (y3 - y1)) * (y2 - y1)" by (simp add: algebra_simps)
  also have "p * (x2 - x1) + q * (y2 - y1) = 0" using e(1,2) by (simp add: algebra_simps)
  also have "p * (x3 - x1) + q * (y3 - y1) = 0" using e(1,3) by (simp add: algebra_simps)
  finally have p: "p = 0" using assms(4) by simp
  have "q * ?d = (p * (x3 - x1) + q * (y3 - y1)) * (x2 - x1) - (p * (x2 - x1) + q * (y2 - y1)) * (x3 - x1)" by (simp add: algebra_simps)
  also have "p * (x2 - x1) + q * (y2 - y1) = 0" using e(1,2) by (simp add: algebra_simps)
  also have "p * (x3 - x1) + q * (y3 - y1) = 0" using e(1,3) by (simp add: algebra_simps)
  finally have q: "q = 0" using assms(4) by simp
  show "p = 0 \<and> q = 0 \<and> r = 0" using p q e(1) by simp
qed

text \<open>The squared distances of the samples from a line, as a form of its coefficients.\<close>

lemma total_form:
  "total (\<lambda>(x, y, v). (p * x + q * y + r) * (p * x + q * y + r)) S =
    p * p * total (\<lambda>(x, y, v). x * x) S + 2 * p * q * total (\<lambda>(x, y, v). x * y) S + 2 * p * r * total (\<lambda>(x, y, v). x) S +
    q * q * total (\<lambda>(x, y, v). y * y) S + 2 * q * r * total (\<lambda>(x, y, v). y) S + r * r * real (length S)"
  by (induction S) (auto simp: algebra_simps)

lemma total_pos:
  assumes "spread S" "\<not> (p = 0 \<and> q = 0 \<and> r = 0)"
  shows "0 < total (\<lambda>(x, y, v). (p * x + q * y + r) * (p * x + q * y + r)) S"
proof -
  let ?f = "\<lambda>(x, y, v). (p * x + q * y + r) * (p * x + q * y + r)"
  have nn: "0 \<le> ?f s" for s by (auto split: prod.splits)
  have "\<not> (\<forall>(x, y, v) \<in> set S. p * x + q * y + r = 0)" using assms unfolding spread_def by blast
  then obtain s where s: "s \<in> set S" "\<not> (case s of (x, y, v) \<Rightarrow> p * x + q * y + r = 0)" by blast
  have "?f s \<noteq> 0" using s(2) by (cases s) simp
  then have "0 < ?f s" using nn [of s] by linarith
  then show ?thesis using s(1)
  proof (induction S)
    case (Cons t S)
    have "0 \<le> total ?f S" using nn by (intro sum_list_nonneg) auto
    then show ?case using Cons nn [of t] by (auto simp: add_pos_nonneg add_nonneg_pos simp del: split_paired_All)
  qed simp
qed

text \<open>Samples on a plane that do not lie on a line determine it: the model is that plane.\<close>

lemma solve_plane:
  assumes S: "spread S" and plane: "\<forall>(x, y, v) \<in> set S. v = \<alpha> * x + \<beta> * y + \<gamma>" and j: "length junk = 9"
  shows "graymodel_solve junk (gray_sums S) = Inr (gray_sums S\<lparr>gm_C := [\<alpha>, \<beta>, \<gamma>]\<rparr>)"
proof -
  define a0 a1 a2 a4 a5 a8 where d: "a0 = total (\<lambda>(x, y, v). x * x) S" "a1 = total (\<lambda>(x, y, v). x * y) S" "a2 = total (\<lambda>(x, y, v). x) S"
    "a4 = total (\<lambda>(x, y, v). y * y) S" "a5 = total (\<lambda>(x, y, v). y) S" "a8 = real (length S)"
  have form: "0 < p * p * a0 + 2 * p * q * a1 + 2 * p * r * a2 + q * q * a4 + 2 * q * r * a5 + r * r * a8"
    if "\<not> (p = 0 \<and> q = 0 \<and> r = 0)" for p q r
    using total_pos [OF S that] unfolding total_form d .
  have 0: "0 < a0" using form [of 1 0 0] by simp
  have 1: "0 < a4 - a1 * a1 / a0" using form [of "- a1 / a0" 1 0] 0 by (simp add: field_simps)
  define s1 where "s1 = a4 - a1 * a1 / a0"
  define t where "t = a5 - a1 * a2 / a0"
  have 2: "0 < a8 - a2 * a2 / a0 - t * t / s1"
  proof -
    define q where "q = - t / s1"
    define p where "p = - (a2 + a1 * q) / a0"
    have pa: "p * a0 = - (a2 + a1 * q)" using 0 by (simp add: p_def)
    have qs: "q * s1 = - t" using 1 by (simp add: q_def s1_def)
    have a4: "a4 = s1 + a1 * a1 / a0" and a5: "a5 = t + a1 * a2 / a0" by (simp_all add: s1_def t_def)
    have "p * p * a0 + 2 * p * q * a1 + 2 * p * a2 = p * (p * a0 + 2 * (a2 + a1 * q))" by (simp add: algebra_simps)
    also have "\<dots> = p * (a2 + a1 * q)" unfolding pa by simp
    also have "\<dots> = - (a2 + a1 * q) * (a2 + a1 * q) / a0" by (simp add: p_def)
    finally have e1: "p * p * a0 + 2 * p * q * a1 + 2 * p * a2 = - (a2 + a1 * q) * (a2 + a1 * q) / a0" .
    have e2: "q * q * a4 + 2 * q * a5 = q * (q * s1) + 2 * q * t + (q * q * a1 * a1 + 2 * q * a1 * a2) / a0"
      using 0 by (simp add: a4 a5 algebra_simps add_divide_distrib)
    have e3: "q * (q * s1) + 2 * q * t = - t * t / s1" unfolding qs by (simp add: q_def)
    have "p * p * a0 + 2 * p * q * a1 + 2 * p * 1 * a2 + q * q * a4 + 2 * q * 1 * a5 + 1 * 1 * a8 =
        (p * p * a0 + 2 * p * q * a1 + 2 * p * a2) + (q * q * a4 + 2 * q * a5) + a8" by simp
    also have "\<dots> = a8 - a2 * a2 / a0 - t * t / s1" unfolding e1 e2 e3 using 0 by (simp add: algebra_simps add_divide_distrib diff_divide_distrib)
    finally show ?thesis using form [of p q 1] by simp
  qed
  have B: "gm_B (gray_sums S) = [a0 * \<alpha> + a1 * \<beta> + a2 * \<gamma>, a1 * \<alpha> + a4 * \<beta> + a5 * \<gamma>, a2 * \<alpha> + a5 * \<beta> + a8 * \<gamma>]"
    using plane unfolding gray_sums_def d by (induction S) (auto simp: algebra_simps)
  have "mat33_sym_solve junk (gm_A (gray_sums S)) (gm_B (gray_sums S)) = Inr [\<alpha>, \<beta>, \<gamma>]"
    by (rule sym_solve_ok [OF _ _ _ _ _ _ _ j 0 1 _ B]) (use 2 in \<open>simp_all add: gray_sums_def d s1_def t_def\<close>)
  then show ?thesis by (simp add: graymodel_solve_def)
qed

text \<open>C30: The model of brightness is exact under even or linearly changing light. If the samples lie on a plane and not all on a
  line, adding them and solving succeeds, and the model interpolates that plane everywhere.\<close>

theorem graymodel_exact:
  assumes "spread S" "\<forall>(x, y, v) \<in> set S. v = \<alpha> * x + \<beta> * y + \<gamma>" "length junk = 9"
  shows "\<exists>gm. graymodel_solve junk (foldl (\<lambda>gm (x, y, v). graymodel_add gm x y v) graymodel_init S) = Inr gm \<and>
    graymodel_interpolate gm x y = \<alpha> * x + \<beta> * y + \<gamma>"
proof -
  have "foldl (\<lambda>gm (x, y, v). graymodel_add gm x y v) (gray_sums R) S = gray_sums (R @ S)" for R
    by (induction S arbitrary: R) (auto simp: add_sums)
  from this [of "[]"] show ?thesis using solve_plane [OF assms] by (simp add: init_sums graymodel_interpolate_def)
qed

lemma graymodel_exact_witness:
  "\<exists>gm. graymodel_solve [0, 0, 0, 0, 0, 0, 0, 0, 0] (foldl (\<lambda>gm (x, y, v). graymodel_add gm x y v) graymodel_init
      [(0, 0, 10), (1, 0, 12), (0, 1, 13), (1, 1, 15)]) = Inr gm \<and> graymodel_interpolate gm 2 2 = 20"
proof -
  have "spread [(0, 0, 10), (1, 0, 12), (0, 1, 13), (1, 1, 15)]"
    by (rule spread_three [of 0 0 10 _ 1 0 12 0 1 13]) simp_all
  from graymodel_exact [OF this, of 2 3 10 "[0, 0, 0, 0, 0, 0, 0, 0, 0]" 2 2] show ?thesis by simp
qed

end
