(* ===== verification/Probing.thy ===== *)
theory Probing
  imports Prelude "HOL-Library.Multiset"
begin

text \<open>
  Open addressing with linear probing, which the quick-decode table of \<open>apriltag.c\<close> and the
  hash table of \<open>zhash.c\<close> share: the probe loop, the layout a table keeps (every slot between
  an entry's home and the slot it sits in is taken), what a search finds, and how insertion,
  replacement and removal with re-insertion keep the layout. The locale \<open>probing\<close> states it
  for any entry type, key and home function; both tables interpret it.
\<close>

subsection \<open>The probe loop\<close>

text \<open>
  \<open>while (!stop(t[i])) i = next(i)\<close>. The loop changes nothing but \<open>i\<close>, and \<open>next\<close> walks round
  the table, so a loop that has not stopped after one round never stops: the fuel is the
  number of slots.
\<close>

fun probe :: "nat \<Rightarrow> (nat \<Rightarrow> nat) \<Rightarrow> ('e \<Rightarrow> bool) \<Rightarrow> 'e list \<Rightarrow> nat \<Rightarrow> cerr + nat" where
  "probe 0 next stop t i = Inl Diverges"
| "probe (Suc f) next stop t i =
     bindE (arr_get t i) (\<lambda>e. if stop e then Inr i else probe f next stop t (next i))"

definition round_next :: "nat \<Rightarrow> nat \<Rightarrow> nat" where
  "round_next n i = (if Suc i = n then 0 else Suc i)"

lemma round_next_mod: "i < n \<Longrightarrow> (i + 1) mod n = round_next n i"
  by (auto simp: round_next_def)

text \<open>The number of steps round a table of \<open>n\<close> slots from \<open>i\<close> to \<open>j\<close>.\<close>

definition dist :: "nat \<Rightarrow> nat \<Rightarrow> nat \<Rightarrow> nat" where
  "dist n i j = (if i \<le> j then j - i else n - i + j)"

lemma dist_less: "i < n \<Longrightarrow> j < n \<Longrightarrow> dist n i j < n"
  by (auto simp: dist_def)

lemma dist_self [simp]: "dist n i i = 0"
  by (simp add: dist_def)

lemma dist_0: "i < n \<Longrightarrow> j < n \<Longrightarrow> dist n i j = 0 \<longleftrightarrow> i = j"
  by (auto simp: dist_def split: if_splits)

lemma dist_inj: "i < n \<Longrightarrow> j < n \<Longrightarrow> k < n \<Longrightarrow> dist n i j = dist n i k \<Longrightarrow> j = k"
  by (auto simp: dist_def split: if_splits)

lemma dist_ex: "i < n \<Longrightarrow> d < n \<Longrightarrow> \<exists>j < n. dist n i j = d"
  by (rule exI [of _ "if i + d < n then i + d else i + d - n"]) (auto simp: dist_def)

lemma round_next_less: "i < n \<Longrightarrow> round_next n i < n"
  by (auto simp: round_next_def)

lemma dist_next: "i < n \<Longrightarrow> j < n \<Longrightarrow> i \<noteq> j \<Longrightarrow> dist n i j = Suc (dist n (round_next n i) j)"
  by (auto simp: dist_def round_next_def)

lemma dist_next_other:
  "i < n \<Longrightarrow> j < n \<Longrightarrow> e < n \<Longrightarrow> round_next n i \<noteq> e \<Longrightarrow> dist n e (round_next n i) = Suc (dist n e i)"
  by (auto simp: dist_def round_next_def)

text \<open>On a round that starts after \<open>e\<close>, the way from \<open>h\<close> to \<open>x\<close> is an interval.\<close>

lemma dist_linear:
  "e < n \<Longrightarrow> h < n \<Longrightarrow> x < n \<Longrightarrow> z < n \<Longrightarrow> dist n e h \<le> dist n e x \<Longrightarrow>
   dist n h z < dist n h x \<longleftrightarrow> dist n e h \<le> dist n e z \<and> dist n e z < dist n e x"
  by (auto simp: dist_def split: if_splits)

lemma dist_wraps:
  "e < n \<Longrightarrow> h < n \<Longrightarrow> x < n \<Longrightarrow> dist n e x < dist n e h \<Longrightarrow> dist n h e \<le> dist n h x"
  by (auto simp: dist_def split: if_splits)

lemma probe_cong_next:
  assumes "\<And>i. i < length t \<Longrightarrow> next i = next' i" "\<And>i. i < length t \<Longrightarrow> next' i < length t" "i < length t"
  shows "probe f next stop t i = probe f next' stop t i"
  using assms(3)
proof (induction f arbitrary: i)
  case (Suc f)
  then show ?case using assms by (auto simp: cmem)
qed simp

text \<open>A probe ends at the first slot of the round that stops it.\<close>

lemma probe_fuel:
  assumes "i < length t" "j < length t" "stop (t ! j)" "dist (length t) i j < f"
    "\<And>z. z < length t \<Longrightarrow> dist (length t) i z < dist (length t) i j \<Longrightarrow> \<not> stop (t ! z)"
  shows "probe f (round_next (length t)) stop t i = Inr j"
  using assms
proof (induction f arbitrary: i)
  case (Suc f)
  let ?n = "length t" and ?i' = "round_next (length t) i"
  show ?case
  proof (cases "i = j")
    case True
    then show ?thesis using Suc.prems by (simp add: cmem)
  next
    case False
    have d: "dist ?n i j = Suc (dist ?n ?i' j)" using Suc.prems False by (intro dist_next)
    have "\<not> stop (t ! i)" using Suc.prems(5) [of i] Suc.prems(1) d by simp
    moreover have "\<not> stop (t ! z)" if "z < ?n" "dist ?n ?i' z < dist ?n ?i' j" for z
    proof (cases "z = i")
      case False
      then have "dist ?n i z = Suc (dist ?n ?i' z)" using Suc.prems(1) that by (intro dist_next) auto
      then show ?thesis using Suc.prems(5) that d by simp
    qed (use \<open>\<not> stop (t ! i)\<close> in simp)
    ultimately show ?thesis using Suc.IH [of ?i'] Suc.prems d round_next_less [of i ?n] by (simp add: cmem)
  qed
qed simp

lemma first_stop:
  assumes "i < n" "j < n" "P j"
  obtains k where "k < n" "P k" "\<And>z. z < n \<Longrightarrow> dist n i z < dist n i k \<Longrightarrow> \<not> P z"
proof -
  define k where "k = arg_min (dist n i) (\<lambda>z. z < n \<and> P z)"
  have "k < n \<and> P k" unfolding k_def by (rule arg_min_natI [of _ j]) (use assms in simp)
  moreover have "dist n i k \<le> dist n i z" if "z < n" "P z" for z
    unfolding k_def by (rule arg_min_nat_le) (use that in simp)
  ultimately show thesis using that [of k] by (meson leD)
qed

lemma probe_ok:
  assumes "i < length t" "j < length t" "stop (t ! j)"
  obtains k where "probe (length t) (round_next (length t)) stop t i = Inr k" "k < length t" "stop (t ! k)"
    "\<And>z. z < length t \<Longrightarrow> dist (length t) i z < dist (length t) i k \<Longrightarrow> \<not> stop (t ! z)"
proof -
  obtain k where k: "k < length t" "stop (t ! k)"
      "\<And>z. z < length t \<Longrightarrow> dist (length t) i z < dist (length t) i k \<Longrightarrow> \<not> stop (t ! z)"
    using first_stop [of i "length t" j "\<lambda>z. stop (t ! z)"] assms by blast
  moreover have "probe (length t) (round_next (length t)) stop t i = Inr k"
    using probe_fuel [of i t k stop "length t"] k assms(1) dist_less by blast
  ultimately show thesis using that by blast
qed


lemma probe_Diverges:
  assumes "i < length t" "\<And>z. z < length t \<Longrightarrow> \<not> stop (t ! z)"
  shows "probe f (round_next (length t)) stop t i = Inl Diverges"
  using assms(1)
proof (induction f arbitrary: i)
  case (Suc f)
  then show ?case using assms(2) round_next_less [of i "length t"] by (simp add: cmem)
qed simp

subsection \<open>The layout of a table\<close>

definition pr_wf :: "('e \<Rightarrow> bool) \<Rightarrow> ('e \<Rightarrow> 'k) \<Rightarrow> (nat \<Rightarrow> 'k \<Rightarrow> nat) \<Rightarrow> 'e list \<Rightarrow> bool" where
  "pr_wf occ key home t =
     (\<forall>x < length t. occ (t ! x) \<longrightarrow>
        (\<forall>z < length t. dist (length t) (home (length t) (key (t ! x))) z
           < dist (length t) (home (length t) (key (t ! x))) x \<longrightarrow> occ (t ! z)))"

text \<open>What a search for a key finds: the first entry with that key on its probe path.\<close>

definition pr_find :: "('e \<Rightarrow> bool) \<Rightarrow> ('e \<Rightarrow> 'k) \<Rightarrow> (nat \<Rightarrow> 'k \<Rightarrow> nat) \<Rightarrow> 'e list \<Rightarrow> 'k \<Rightarrow> cerr + nat" where
  "pr_find occ key home t k =
     probe (length t) (round_next (length t)) (\<lambda>e. \<not> occ e \<or> key e = k) t (home (length t) k)"

definition pr_get :: "('e \<Rightarrow> bool) \<Rightarrow> ('e \<Rightarrow> 'k) \<Rightarrow> (nat \<Rightarrow> 'k \<Rightarrow> nat) \<Rightarrow> 'e list \<Rightarrow> 'k \<Rightarrow> 'e option" where
  "pr_get occ key home t k =
     (case pr_find occ key home t k of Inl _ \<Rightarrow> None | Inr j \<Rightarrow> if occ (t ! j) then Some (t ! j) else None)"

definition pr_bag :: "('e \<Rightarrow> bool) \<Rightarrow> 'e list \<Rightarrow> 'e multiset" where
  "pr_bag occ t = filter_mset occ (mset t)"

lemma pr_bag_update:
  "j < length t \<Longrightarrow> pr_bag occ (t[j := e]) =
     (if occ e then {#e#} else {#}) + (pr_bag occ t - (if occ (t ! j) then {#t ! j#} else {#}))"
  by (simp add: pr_bag_def mset_update)

lemma pr_bag_iff: "e \<in># pr_bag occ t \<longleftrightarrow> (\<exists>x < length t. t ! x = e \<and> occ (t ! x))"
  by (auto simp: pr_bag_def in_set_conv_nth)

lemma pr_bag_room:
  assumes "size (pr_bag occ t) < length t"
  obtains y where "y < length t" "\<not> occ (t ! y)"
proof -
  have "\<not> (\<forall>e \<in> set t. occ e)"
  proof
    assume "\<forall>e \<in> set t. occ e"
    then have "pr_bag occ t = mset t" by (simp add: pr_bag_def filter_mset_eq_conv)
    with assms show False by simp
  qed
  then show thesis using that by (auto simp: in_set_conv_nth)
qed

text \<open>
  While a removal re-inserts the run of entries behind the removed one: \<open>e\<close> is the free slot that
  ends the run, positions are counted from \<open>e\<close>, and the entries before position \<open>p\<close> are in place.
\<close>

definition pr_hole :: "('e \<Rightarrow> bool) \<Rightarrow> ('e \<Rightarrow> 'k) \<Rightarrow> (nat \<Rightarrow> 'k \<Rightarrow> nat) \<Rightarrow> 'e list \<Rightarrow> nat \<Rightarrow> nat \<Rightarrow> bool" where
  "pr_hole occ key home t e p =
     (let n = length t; L = dist n e; H = \<lambda>x. home n (key (t ! x)) in
      e < n \<and> \<not> occ (t ! e) \<and> 0 < p \<and> p \<le> n \<and>
      (\<forall>x < n. occ (t ! x) \<longrightarrow> H x \<noteq> e \<and> L (H x) \<le> L x \<and>
         (L x < p \<longrightarrow> (\<forall>z < n. L (H x) \<le> L z \<and> L z < L x \<longrightarrow> occ (t ! z)))) \<and>
      (\<forall>z < n. p \<le> L z \<longrightarrow> occ (t ! z)))"

locale probing =
  fixes occ :: "'e \<Rightarrow> bool" and key :: "'e \<Rightarrow> 'k" and home :: "nat \<Rightarrow> 'k \<Rightarrow> nat"
  assumes home_less: "0 < n \<Longrightarrow> home n k < n"
begin

lemma home_bound: "y < n \<Longrightarrow> home n k < n"
  using home_less [of n k] by simp

lemma find_ok:
  assumes wf: "pr_wf occ key home t" and y: "y < length t" "\<not> occ (t ! y)"
  obtains j where "pr_find occ key home t k = Inr j" "j < length t"
    "occ (t ! j) \<and> key (t ! j) = k \<or> \<not> occ (t ! j) \<and> (\<forall>x < length t. occ (t ! x) \<longrightarrow> key (t ! x) \<noteq> k)"
    "\<And>z. z < length t \<Longrightarrow> dist (length t) (home (length t) k) z < dist (length t) (home (length t) k) j
       \<Longrightarrow> occ (t ! z) \<and> key (t ! z) \<noteq> k"
proof -
  let ?n = "length t"
  have h: "home ?n k < ?n" using y(1) by (rule home_bound)
  obtain j where j: "pr_find occ key home t k = Inr j" "j < ?n" "\<not> occ (t ! j) \<or> key (t ! j) = k"
      "\<And>z. z < ?n \<Longrightarrow> dist ?n (home ?n k) z < dist ?n (home ?n k) j \<Longrightarrow> occ (t ! z) \<and> key (t ! z) \<noteq> k"
    using probe_ok [OF h y(1), of "\<lambda>e. \<not> occ e \<or> key e = k"] y(2) unfolding pr_find_def by (metis (no_types, lifting))
  have "key (t ! x) \<noteq> k" if "\<not> occ (t ! j)" "x < ?n" "occ (t ! x)" for x
  proof
    assume k: "key (t ! x) = k"
    have "\<not> dist ?n (home ?n k) j < dist ?n (home ?n k) x"
      using wf that k j(2) unfolding pr_wf_def by blast
    moreover have "\<not> dist ?n (home ?n k) x < dist ?n (home ?n k) j" using j(4) [OF that(2)] k by blast
    ultimately have "x = j" using dist_inj [OF h that(2) j(2)] by simp
    then show False using that by simp
  qed
  then show thesis using that [of j] j by blast
qed

lemma get_None:
  assumes "pr_wf occ key home t" "y < length t" "\<not> occ (t ! y)"
  shows "pr_get occ key home t k = None \<longleftrightarrow> (\<forall>x < length t. occ (t ! x) \<longrightarrow> key (t ! x) \<noteq> k)"
proof -
  obtain j where j: "pr_find occ key home t k = Inr j" "j < length t"
    "occ (t ! j) \<and> key (t ! j) = k \<or> \<not> occ (t ! j) \<and> (\<forall>x < length t. occ (t ! x) \<longrightarrow> key (t ! x) \<noteq> k)"
    by (rule find_ok [OF assms, of k]) (rule that)
  have "pr_get occ key home t k = (if occ (t ! j) then Some (t ! j) else None)" using j(1) by (simp add: pr_get_def)
  then have "pr_get occ key home t k = None \<longleftrightarrow> \<not> occ (t ! j)" by simp
  with j(2,3) show ?thesis by blast
qed

lemma get_Some:
  assumes "pr_wf occ key home t" "y < length t" "\<not> occ (t ! y)" "pr_get occ key home t k = Some e"
  obtains j where "j < length t" "t ! j = e" "occ e" "key e = k"
    "\<And>z. z < length t \<Longrightarrow> dist (length t) (home (length t) k) z < dist (length t) (home (length t) k) j
       \<Longrightarrow> occ (t ! z) \<and> key (t ! z) \<noteq> k"
proof -
  obtain j where j: "pr_find occ key home t k = Inr j" "j < length t"
    "occ (t ! j) \<and> key (t ! j) = k \<or> \<not> occ (t ! j) \<and> (\<forall>x < length t. occ (t ! x) \<longrightarrow> key (t ! x) \<noteq> k)"
    "\<And>z. z < length t \<Longrightarrow> dist (length t) (home (length t) k) z < dist (length t) (home (length t) k) j
       \<Longrightarrow> occ (t ! z) \<and> key (t ! z) \<noteq> k"
    using find_ok [OF assms(1-3), of k] by blast
  have e: "occ (t ! j)" "t ! j = e" using assms(4) j(1) by (simp_all add: pr_get_def split: if_splits)
  have "key e = k" using j(3) e by blast
  show thesis by (rule that [OF j(2) e(2) _ \<open>key e = k\<close> j(4)]) (use e in simp_all)
qed

lemma get_first:
  assumes "j < length t" "occ (t ! j)" "key (t ! j) = k"
    "\<And>z. z < length t \<Longrightarrow> dist (length t) (home (length t) k) z < dist (length t) (home (length t) k) j
       \<Longrightarrow> occ (t ! z) \<and> key (t ! z) \<noteq> k"
  shows "pr_get occ key home t k = Some (t ! j)"
proof -
  let ?n = "length t"
  have h: "home ?n k < ?n" using assms(1) by (rule home_bound)
  have "pr_find occ key home t k = Inr j"
    unfolding pr_find_def
    by (rule probe_fuel [OF h assms(1)]) (use assms h in \<open>auto simp: dist_less\<close>)
  then show ?thesis using assms(2) by (simp add: pr_get_def)
qed

lemma get_empty:
  assumes "t \<noteq> []" "\<And>x. x < length t \<Longrightarrow> \<not> occ (t ! x)"
  shows "pr_wf occ key home t" "pr_get occ key home t k = None"
proof -
  show wf: "pr_wf occ key home t" using assms by (simp add: pr_wf_def)
  show "pr_get occ key home t k = None"
    using get_None [OF wf, of 0 k] assms by simp
qed

text \<open>Inserting at the first free slot of the probe path.\<close>

lemma insert_ok:
  assumes wf: "pr_wf occ key home t" and y: "y < length t" "\<not> occ (t ! y)" and e: "occ e"
  obtains j where
    "probe (length t) (round_next (length t)) (\<lambda>e. \<not> occ e) t (home (length t) (key e)) = Inr j"
    "j < length t" "\<not> occ (t ! j)" "pr_wf occ key home (t[j := e])"
    "pr_bag occ (t[j := e]) = add_mset e (pr_bag occ t)"
    "\<And>z. z < length t \<Longrightarrow> dist (length t) (home (length t) (key e)) z < dist (length t) (home (length t) (key e)) j
      \<Longrightarrow> occ (t ! z)"
proof -
  let ?n = "length t"
  have h: "home ?n (key e) < ?n" using y(1) by (rule home_bound)
  obtain j where j: "probe ?n (round_next ?n) (\<lambda>e. \<not> occ e) t (home ?n (key e)) = Inr j"
    "j < ?n" "\<not> occ (t ! j)"
    "\<And>z. z < ?n \<Longrightarrow> dist ?n (home ?n (key e)) z < dist ?n (home ?n (key e)) j \<Longrightarrow> occ (t ! z)"
    using probe_ok [OF h y(1), of "\<lambda>e. \<not> occ e"] y(2) by (metis (no_types, lifting))
  have "pr_wf occ key home (t[j := e])"
    unfolding pr_wf_def length_list_update
  proof (intro allI impI)
    fix x z
    assume x: "x < ?n" "occ (t[j := e] ! x)" "z < ?n"
      "dist ?n (home ?n (key (t[j := e] ! x))) z < dist ?n (home ?n (key (t[j := e] ! x))) x"
    show "occ (t[j := e] ! z)"
    proof (cases "z = j")
      case False
      show ?thesis
      proof (cases "x = j")
        case True
        then show ?thesis using x j False by simp
      next
        case xj: False
        then show ?thesis using x False wf [unfolded pr_wf_def, rule_format, of x z] by simp
      qed
    qed (use e j in simp)
  qed
  moreover have "pr_bag occ (t[j := e]) = add_mset e (pr_bag occ t)"
    using j(2,3) e by (simp add: pr_bag_update)
  ultimately show thesis using that [OF j(1-3)] j(4) by blast
qed

lemma insert_get:
  assumes wf: "pr_wf occ key home t" and j: "j < length t" "\<not> occ (t ! j)"
    and path: "\<And>z. z < length t \<Longrightarrow> dist (length t) (home (length t) (key e)) z
        < dist (length t) (home (length t) (key e)) j \<Longrightarrow> occ (t ! z)"
    and e: "occ e" and wf': "pr_wf occ key home (t[j := e])" and room: "y < length t" "y \<noteq> j" "\<not> occ (t ! y)"
  shows "pr_get occ key home (t[j := e]) k =
    (case pr_get occ key home t k of None \<Rightarrow> if k = key e then Some e else None | Some e' \<Rightarrow> Some e')"
proof (cases "pr_get occ key home t k")
  case (Some e')
  let ?n = "length t"
  obtain i where i: "i < ?n" "t ! i = e'" "occ e'" "key e' = k"
    "\<And>z. z < ?n \<Longrightarrow> dist ?n (home ?n k) z < dist ?n (home ?n k) i \<Longrightarrow> occ (t ! z) \<and> key (t ! z) \<noteq> k"
    using get_Some [OF wf j Some] by blast
  have "i \<noteq> j" using i j by auto
  have "pr_get occ key home (t[j := e]) k = Some (t[j := e] ! i)"
  proof (rule get_first)
    fix z assume z: "z < length (t[j := e])"
      "dist (length (t[j := e])) (home (length (t[j := e])) k) z < dist (length (t[j := e])) (home (length (t[j := e])) k) i"
    then have "z \<noteq> j" using i(5) j(2) by auto
    with z show "occ (t[j := e] ! z) \<and> key (t[j := e] ! z) \<noteq> k" using i(5) by simp
  qed (use i \<open>i \<noteq> j\<close> in auto)
  then show ?thesis using Some i \<open>i \<noteq> j\<close> by simp
next
  case None
  then have old: "\<And>x. x < length t \<Longrightarrow> occ (t ! x) \<Longrightarrow> key (t ! x) \<noteq> k" using get_None [OF wf j] by blast
  show ?thesis
  proof (cases "k = key e")
    case True
    have "pr_get occ key home (t[j := e]) k = Some (t[j := e] ! j)"
      by (rule get_first) (use j e True path old in \<open>auto simp: nth_list_update\<close>)
    then show ?thesis using None True j by simp
  next
    case False
    have "key (t[j := e] ! x) \<noteq> k" if "x < length t" "occ (t[j := e] ! x)" for x
      using that old [of x] False by (cases "x = j") auto
    then have "pr_get occ key home (t[j := e]) k = None"
      using get_None [OF wf', of y k] room by simp
    then show ?thesis using None False by simp
  qed
qed


text \<open>Replacing an entry by one with the same key.\<close>

lemma replace_ok:
  assumes wf: "pr_wf occ key home t" and j: "j < length t" "occ (t ! j)" and e: "occ e" "key e = key (t ! j)"
  shows "pr_wf occ key home (t[j := e])"
proof -
  have k: "key (t[j := e] ! x) = key (t ! x)" "occ (t[j := e] ! x) = occ (t ! x)" if "x < length t" for x
    using that e j by (cases "x = j"; simp)+
  show ?thesis using wf unfolding pr_wf_def length_list_update by (simp add: k)
qed

text \<open>Removal: what remains to be re-inserted at the start, at each step and at the end.\<close>

lemma hole_start:
  assumes wf: "pr_wf occ key home t" and j: "j < length t" "occ (t ! j)" and c: "\<not> occ c"
    and e: "e < length t" "\<not> occ (t ! e)"
      "\<And>z. z < length t \<Longrightarrow> dist (length t) j z < dist (length t) j e \<Longrightarrow> occ (t ! z)"
  shows "pr_hole occ key home (t[j := c]) e (Suc (dist (length t) e j))"
proof -
  let ?n = "length t" and ?t = "t[j := c]"
  let ?H = "\<lambda>x. home ?n (key (t ! x))" and ?L = "dist ?n e"
  have "e \<noteq> j" using e j by auto
  have old: "x \<noteq> j \<and> occ (t ! x)" if "x < ?n" "occ (?t ! x)" for x
    using that c by (cases "x = j") auto
  have lin: "?H x \<noteq> e" "?L (?H x) \<le> ?L x" "\<And>z. z < ?n \<Longrightarrow> ?L (?H x) \<le> ?L z \<Longrightarrow> ?L z < ?L x \<Longrightarrow> occ (t ! z)"
    if x: "x < ?n" "occ (t ! x)" for x
  proof -
    have h: "?H x < ?n" using x(1) by (rule home_bound)
    have path: "occ (t ! z)" if "z < ?n" "dist ?n (?H x) z < dist ?n (?H x) x" for z
      using wf x that unfolding pr_wf_def by blast
    have "x \<noteq> e" using x e by auto
    have out: "\<not> dist ?n (?H x) e < dist ?n (?H x) x" using path e by blast
    then have "dist ?n (?H x) x < dist ?n (?H x) e"
      using \<open>x \<noteq> e\<close> dist_inj [OF h x(1) e(1)] by linarith
    then show "?H x \<noteq> e" by auto
    show le: "?L (?H x) \<le> ?L x"
      using dist_wraps [OF e(1) h x(1)] \<open>dist ?n (?H x) x < dist ?n (?H x) e\<close> by linarith
    show "occ (t ! z)" if "z < ?n" "?L (?H x) \<le> ?L z" "?L z < ?L x" for z
      using path [OF that(1)] dist_linear [OF e(1) h x(1) that(1) le] that by blast
  qed
  have run: "occ (t ! z)" if z: "z < ?n" "?L j < ?L z" for z
  proof -
    have "dist ?n j z < dist ?n j e"
      using z j(1) e(1) \<open>e \<noteq> j\<close> by (auto simp: dist_def split: if_splits)
    then show ?thesis using e(3) z(1) by blast
  qed
  have keep: "occ (?t ! z)" if "z < ?n" "z \<noteq> j" "occ (t ! z)" for z using that by simp
  have same: "?t ! x = t ! x" if "x < ?n" "occ (?t ! x)" for x
    using that c by (cases "x = j") auto
  show ?thesis
    unfolding pr_hole_def Let_def length_list_update
  proof (intro conjI allI impI)
    show "\<not> occ (?t ! e)" using e \<open>e \<noteq> j\<close> by simp
    show "Suc (?L j) \<le> ?n" using dist_less [OF e(1) j(1)] by simp
    fix x assume x: "x < ?n" "occ (?t ! x)"
    note o = old [OF x] lin [OF x(1)] same [OF x]
    show "home ?n (key (?t ! x)) \<noteq> e" "?L (home ?n (key (?t ! x))) \<le> ?L x" using o by simp_all
    fix z assume z: "?L x < Suc (?L j)" "z < ?n" "?L (home ?n (key (?t ! x))) \<le> ?L z \<and> ?L z < ?L x"
    then have "z \<noteq> j" by auto
    moreover have "occ (t ! z)" using o z by simp
    ultimately show "occ (?t ! z)" using keep z(2) by blast
  next
    fix z assume z: "z < ?n" "Suc (?L j) \<le> ?L z"
    then have "z \<noteq> j" by auto
    then show "occ (?t ! z)" using z run [of z] keep [of z] by simp
  qed (use e in simp_all)
qed

lemma hole_end:
  assumes "pr_hole occ key home t e (length t)"
  shows "pr_wf occ key home t" "e < length t" "\<not> occ (t ! e)"
proof -
  let ?n = "length t"
  let ?H = "\<lambda>x. home ?n (key (t ! x))" and ?L = "dist ?n e"
  show e: "e < ?n" and "\<not> occ (t ! e)" using assms by (simp_all add: pr_hole_def Let_def)
  show "pr_wf occ key home t"
    unfolding pr_wf_def
  proof (intro allI impI)
    fix x z assume x: "x < ?n" "occ (t ! x)" "z < ?n" "dist ?n (?H x) z < dist ?n (?H x) x"
    then have le: "?L (?H x) \<le> ?L x" and all: "?L (?H x) \<le> ?L z \<and> ?L z < ?L x \<longrightarrow> occ (t ! z)"
      using assms dist_less [OF e] unfolding pr_hole_def Let_def by blast+
    show "occ (t ! z)"
      using all dist_linear [OF e home_bound [OF x(1)] x(1,3) le] x(4) by blast
  qed
qed

lemma hole_next:
  assumes "pr_hole occ key home t e p" "i < length t" "dist (length t) e i = p"
  shows "p < length t" "occ (t ! i)" "round_next (length t) i \<noteq> e \<Longrightarrow> dist (length t) e (round_next (length t) i) = Suc p"
    "round_next (length t) i = e \<Longrightarrow> Suc p = length t"
proof -
  have e: "e < length t" "0 < p" using assms(1) by (simp_all add: pr_hole_def Let_def)
  show "p < length t" using dist_less [OF e(1) assms(2)] assms(3) by simp
  show "occ (t ! i)" using assms unfolding pr_hole_def Let_def by blast
  show "round_next (length t) i \<noteq> e \<Longrightarrow> dist (length t) e (round_next (length t) i) = Suc p"
    using dist_next_other [OF assms(2,2) e(1)] assms(3) by blast
  show "round_next (length t) i = e \<Longrightarrow> Suc p = length t"
    using assms(2,3) e by (auto simp: round_next_def dist_def split: if_splits)
qed

lemma hole_step:
  assumes hole: "pr_hole occ key home t e p" and i: "i < length t" "dist (length t) e i = p"
    and c: "\<not> occ c"
  obtains y where
    "probe (length t) (round_next (length t)) (\<lambda>e. \<not> occ e) (t[i := c]) (home (length t) (key (t ! i))) = Inr y"
    "y < length t" "\<not> occ (t[i := c] ! y)" "pr_hole occ key home (t[i := c, y := t ! i]) e (Suc p)"
    "pr_bag occ (t[i := c, y := t ! i]) = pr_bag occ t"
    "\<And>z. z < length t \<Longrightarrow> dist (length t) (home (length t) (key (t ! i))) z
        < dist (length t) (home (length t) (key (t ! i))) y \<Longrightarrow> occ (t[i := c] ! z)"
proof -
  let ?n = "length t" and ?t = "t[i := c]" and ?L = "dist (length t) e"
  let ?H = "\<lambda>x. home ?n (key (t ! x))"
  note p = hole_next [OF hole i]
  have e: "e < ?n" "\<not> occ (t ! e)" "0 < p"
    and inv: "\<And>x. x < ?n \<Longrightarrow> occ (t ! x) \<Longrightarrow> ?H x \<noteq> e \<and> ?L (?H x) \<le> ?L x"
    and path: "\<And>x z. x < ?n \<Longrightarrow> occ (t ! x) \<Longrightarrow> ?L x < p \<Longrightarrow> z < ?n \<Longrightarrow> ?L (?H x) \<le> ?L z \<Longrightarrow> ?L z < ?L x \<Longrightarrow> occ (t ! z)"
    and run: "\<And>z. z < ?n \<Longrightarrow> p \<le> ?L z \<Longrightarrow> occ (t ! z)"
    using hole unfolding pr_hole_def Let_def by blast+
  have h: "?H i < ?n" using i(1) by (rule home_bound)
  obtain y where y: "probe ?n (round_next ?n) (\<lambda>e. \<not> occ e) ?t (?H i) = Inr y"
    "y < ?n" "\<not> occ (?t ! y)" "\<And>z. z < ?n \<Longrightarrow> dist ?n (?H i) z < dist ?n (?H i) y \<Longrightarrow> occ (?t ! z)"
    using probe_ok [of "?H i" ?t i "\<lambda>e. \<not> occ e"] h i(1) c by (metis length_list_update nth_list_update_eq)
  have leH: "?L (?H i) \<le> ?L i" "?H i \<noteq> e" using inv [OF i(1) p(2)] by auto
  have "\<not> dist ?n (?H i) i < dist ?n (?H i) y" using y(4) [OF i(1)] i(1) c by auto
  then have yi: "dist ?n (?H i) y \<le> dist ?n (?H i) i" by simp
  have Ly: "?L (?H i) \<le> ?L y \<and> ?L y \<le> ?L i"
  proof (cases "y = i")
    case False
    then have "dist ?n (?H i) y < dist ?n (?H i) i" using yi dist_inj [OF h y(2) i(1)] by linarith
    then show ?thesis using dist_linear [OF e(1) h i(1) y(2) leH(1)] by simp
  qed (use leH in simp)
  have "?L (?H i) \<noteq> 0" using dist_0 [OF e(1) h] leH(2) by simp
  then have ye: "y \<noteq> e" using Ly by auto
  let ?t2 = "?t[y := t ! i]"
  have old: "x = y \<or> x \<noteq> i \<and> ?t2 ! x = t ! x" if "x < ?n" "occ (?t2 ! x)" for x
    using that i(1) c by (cases "x = y"; cases "x = i") auto
  have keep: "occ (?t2 ! z)" if "z < ?n" "z \<noteq> i" "occ (t ! z)" for z
    using that p(2) by (cases "z = y") auto
  have "pr_hole occ key home ?t2 e (Suc p)"
    unfolding pr_hole_def Let_def length_list_update
  proof (intro conjI allI impI)
    show "\<not> occ (?t2 ! e)" using e ye p(2) by (cases "e = i") auto
    fix x assume x: "x < ?n" "occ (?t2 ! x)"
    show "home ?n (key (?t2 ! x)) \<noteq> e" "?L (home ?n (key (?t2 ! x))) \<le> ?L x"
      using old [OF x] x inv [of x] leH Ly y(2) by (cases "x = y"; simp)+
    fix z assume z: "?L x < Suc p" "z < ?n" "?L (home ?n (key (?t2 ! x))) \<le> ?L z \<and> ?L z < ?L x"
    show "occ (?t2 ! z)"
    proof (cases "x = y")
      case True
      have "dist ?n (?H i) z < dist ?n (?H i) y"
        using dist_linear [OF e(1) h y(2) z(2) conjunct1 [OF Ly]] z True y(2) by simp
      moreover have "z \<noteq> y" using z True by auto
      ultimately show ?thesis using y(4) z(2) by simp
    next
      case False
      with old [OF x] have o: "x \<noteq> i" "?t2 ! x = t ! x" by auto
      have "?L x \<noteq> p" using dist_inj [OF e(1) x(1) i(1)] o i(2) by auto
      then have "?L x < p" using z(1) by simp
      moreover from this have "z \<noteq> i" using z i(2) by auto
      ultimately show ?thesis using path [of x z] x z o keep by auto
    qed
  next
    fix z assume z: "z < ?n" "Suc p \<le> ?L z"
    then have "z \<noteq> i" using i(2) by auto
    then show "occ (?t2 ! z)" using z run [of z] keep by simp
  qed (use e p in auto)
  moreover have "pr_bag occ ?t2 = pr_bag occ t"
  proof -
    have "t ! i \<in># pr_bag occ t" using i(1) p(2) by (auto simp: pr_bag_iff)
    then show ?thesis using y(2,3) i(1) p(2) c by (simp add: pr_bag_update)
  qed
  ultimately show thesis using that [OF y(1-3)] y(4) by blast
qed

end

subsection \<open>Distinct keys\<close>

text \<open>With distinct keys a table is the finite map of its bag of entries.\<close>

definition pr_distinct :: "('e \<Rightarrow> 'k) \<Rightarrow> 'e multiset \<Rightarrow> bool" where
  "pr_distinct key M = (\<forall>k. count (image_mset key M) k \<le> 1)"

lemma pr_distinct_pair: "pr_distinct key (add_mset e (add_mset x N)) \<Longrightarrow> key x \<noteq> key e"
  unfolding pr_distinct_def by (metis One_nat_def Suc_le_mono add_mset_commute count_add_mset image_mset_add_mset le_zero_eq nat.simps(3))

lemma pr_distinct_unique:
  assumes "pr_distinct key M" "e \<in># M" "e' \<in># M" "key e = key e'"
  shows "e = e'"
proof (rule ccontr)
  assume ne: "e \<noteq> e'"
  obtain N where N: "M = add_mset e N" using assms(2) by (metis mset_add)
  with assms(3) ne have "e' \<in># N" by simp
  then obtain N' where "N = add_mset e' N'" by (metis mset_add)
  then show False using pr_distinct_pair [of key e e' N'] N assms(1,4) by simp
qed

lemma pr_distinct_empty [simp]: "pr_distinct key {#}"
  by (simp add: pr_distinct_def)

lemma pr_distinct_add:
  assumes "pr_distinct key M" "\<And>x. x \<in># M \<Longrightarrow> key x \<noteq> key e"
  shows "pr_distinct key (add_mset e M)"
proof -
  have "count (image_mset key M) (key e) = 0"
    using assms(2) by (simp add: count_eq_zero_iff image_iff) (metis)
  then show ?thesis using assms(1) by (auto simp: pr_distinct_def)
qed

lemma pr_distinct_sub: "pr_distinct key M \<Longrightarrow> N \<subseteq># M \<Longrightarrow> pr_distinct key N"
  unfolding pr_distinct_def by (meson image_mset_subseteq_mono mset_subset_eq_count order_trans)

lemma pr_distinct_remove:
  assumes "pr_distinct key M" "e \<in># M" "x \<in># M - {#e#}"
  shows "x \<in># M" "key x \<noteq> key e"
proof -
  show x: "x \<in># M" using assms(3) by (rule in_diffD)
  obtain N where N: "M = add_mset e N" using assms(2) by (metis mset_add)
  with assms(3) obtain N' where "N = add_mset x N'" by (metis add_mset_remove_trivial mset_add)
  then show "key x \<noteq> key e" using pr_distinct_pair [of key e x N'] N assms(1) by simp
qed

lemma pr_distinct_filter:
  assumes "pr_distinct key M" "e \<in># M"
  shows "filter_mset (\<lambda>x. key x \<noteq> key e) M = M - {#e#}"
proof -
  obtain N where N: "M = add_mset e N" using assms(2) by (metis mset_add)
  have "key x \<noteq> key e" if "x \<in># N" for x
  proof -
    obtain N' where "N = add_mset x N'" using \<open>x \<in># N\<close> by (metis mset_add)
    with pr_distinct_pair [of key e x N'] assms(1) N show ?thesis by simp
  qed
  then show ?thesis using N by (simp add: filter_mset_eq_conv)
qed

context probing begin

lemma get_distinct:
  assumes "pr_wf occ key home t" "y < length t" "\<not> occ (t ! y)" "pr_distinct key (pr_bag occ t)"
  shows "pr_get occ key home t k = Some e \<longleftrightarrow> e \<in># pr_bag occ t \<and> key e = k"
proof
  assume g: "pr_get occ key home t k = Some e"
  obtain j where "j < length t" "t ! j = e" "occ e" "key e = k"
    using get_Some [OF assms(1-3) g] by blast
  then show "e \<in># pr_bag occ t \<and> key e = k" by (auto simp: pr_bag_iff)
next
  assume e: "e \<in># pr_bag occ t \<and> key e = k"
  then have "pr_get occ key home t k \<noteq> None"
    using get_None [OF assms(1-3), of k] by (auto simp: pr_bag_iff)
  then obtain e' where e': "pr_get occ key home t k = Some e'" by blast
  then obtain j where "j < length t" "t ! j = e'" "occ e'" "key e' = k"
    using get_Some [OF assms(1-3)] by metis
  then have "e' \<in># pr_bag occ t" "key e' = k" by (auto simp: pr_bag_iff)
  then show "pr_get occ key home t k = Some e"
    using pr_distinct_unique [OF assms(4), of e e'] e e' by simp
qed

end

end
