(* ===== verification/QuickDecode.thy ===== *)
theory QuickDecode
  imports Probing
begin

text \<open>
  The quick-decode table of \<open>apriltag.c\<close>: tag families, the rotation of a code word, the hash
  table of every code within \<open>maxhamming\<close> bit errors of a tag of the family, and the decoding
  of an observed word under its four rotations. The lemmas show that the table is filled
  without running out of slots, that decoding finds a word exactly when one of its rotations
  is within the corrected distance of a tag, and which tag it finds.
\<close>

subsection \<open>Families and tables\<close>

record quick_decode_entry =
  qe_rcode :: u64
  qe_id :: u16
  qe_hamming :: u8
  qe_rotation :: u8

record quick_decode =
  qd_nentries :: int
  qd_entries :: "quick_decode_entry list"

text \<open>
  \<open>uint32_t\<close> counts are naturals; the arithmetic the code does with them is on words. The bit
  locations stay words, as some families store negative coordinates in them.
\<close>

record apriltag_family =
  fam_ncodes :: nat
  fam_codes :: "u64 list"
  fam_width_at_border :: int
  fam_total_width :: int
  fam_reversed_border :: bool
  fam_nbits :: nat
  fam_bit_x :: "u32 list"
  fam_bit_y :: "u32 list"
  fam_h :: nat
  fam_name :: string
  fam_impl :: "quick_decode option"

definition UINT64_MAX :: u64 where
  "UINT64_MAX = 0xFFFFFFFFFFFFFFFF"

definition rotate90 :: "u64 \<Rightarrow> nat \<Rightarrow> u64" where
  "rotate90 w numBits =
     (let p = (if numBits mod 4 = 1 then numBits - 1 else numBits);
          l = (if numBits mod 4 = 1 then 1 else 0);
          w = push_bit (p div 4 + l) (drop_bit l w) OR push_bit l (drop_bit (3 * p div 4 + l) w) OR (w AND of_nat l)
      in w AND (push_bit numBits 1 - 1))"

text \<open>The slot a code hashes to: \<open>code % nentries\<close>.\<close>

definition qd_home :: "nat \<Rightarrow> u64 \<Rightarrow> nat" where
  "qd_home n code = unat code mod n"

definition qd_next :: "nat \<Rightarrow> nat \<Rightarrow> nat" where
  "qd_next n bucket = (bucket + 1) mod n"

definition quick_decode_add :: "quick_decode \<Rightarrow> u64 \<Rightarrow> nat \<Rightarrow> nat \<Rightarrow> cerr + quick_decode" where
  "quick_decode_add qd code nd hamming =
     (let n = nat (qd_nentries qd) in
      if n = 0 then Inl DivByZero
      else bindE (probe n (qd_next n) (\<lambda>e. qe_rcode e = UINT64_MAX) (qd_entries qd) (qd_home n code)) (\<lambda>bucket.
        bindE (arr_get (qd_entries qd) bucket) (\<lambda>e.
        bindE (arr_set (qd_entries qd) bucket
                 (e\<lparr>qe_rcode := code, qe_id := of_nat nd, qe_hamming := of_nat hamming\<rparr>)) (\<lambda>es.
        Inr (qd\<lparr>qd_entries := es\<rparr>)))))"

definition quick_decode_uninit :: "apriltag_family \<Rightarrow> apriltag_family" where
  "quick_decode_uninit fam = (case fam_impl fam of None \<Rightarrow> fam | Some qd \<Rightarrow> fam\<lparr>fam_impl := None\<rparr>)"

text \<open>One code of the family and its neighbours: the body of the loop over the codes.\<close>

definition quick_decode_code :: "apriltag_family \<Rightarrow> int \<Rightarrow> quick_decode \<Rightarrow> nat \<Rightarrow> cerr + quick_decode" where
  "quick_decode_code family maxhamming qd i =
     (let nbits = fam_nbits family in
      bindE (arr_get (fam_codes family) i) (\<lambda>code.
      bindE (quick_decode_add qd code i 0) (\<lambda>qd.
      bindE (if maxhamming \<ge> 1
             then foldE (\<lambda>qd j. quick_decode_add qd (code XOR push_bit j 1) i 1) [0..<nbits] qd
             else Inr qd) (\<lambda>qd.
      bindE (if maxhamming \<ge> 2
             then foldE (\<lambda>qd j. foldE (\<lambda>qd k.
                    quick_decode_add qd (code XOR push_bit j 1 XOR push_bit k 1) i 2) [0..<j] qd) [0..<nbits] qd
             else Inr qd) (\<lambda>qd.
      if maxhamming \<ge> 3
      then foldE (\<lambda>qd j. foldE (\<lambda>qd k. foldE (\<lambda>qd m.
             quick_decode_add qd (code XOR push_bit j 1 XOR push_bit k 1 XOR push_bit m 1) i 3)
               [0..<k] qd) [0..<j] qd) [0..<nbits] qd
      else Inr qd)))))"

text \<open>The loop over the codes; \<open>None\<close> is the early return for more than three errors.\<close>

fun quick_decode_codes :: "apriltag_family \<Rightarrow> int \<Rightarrow> nat list \<Rightarrow> quick_decode \<Rightarrow> cerr + quick_decode option" where
  "quick_decode_codes family maxhamming [] qd = Inr (Some qd)"
| "quick_decode_codes family maxhamming (i # is) qd =
     bindE (quick_decode_code family maxhamming qd i) (\<lambda>qd.
     if maxhamming > 3 then Inr None else quick_decode_codes family maxhamming is qd)"

definition qd_capacity :: "apriltag_family \<Rightarrow> int \<Rightarrow> u32" where
  "qd_capacity family maxhamming =
     (let n = of_nat (fam_ncodes family); nbits = of_nat (fam_nbits family) in
      n + (if maxhamming \<ge> 1 then n * nbits else 0)
        + (if maxhamming \<ge> 2 then n * nbits * (nbits - 1) else 0)
        + (if maxhamming \<ge> 3 then n * nbits * (nbits - 1) * (nbits - 2) else 0))"

text \<open>
  What \<open>errno\<close> is left at, and whether \<open>calloc\<close> of that many entries succeeds: the argument
  \<open>alloc\<close>.
\<close>

datatype qd_errno = NoError | ENOMEM | EINVAL

definition quick_decode_init ::
  "(int \<Rightarrow> bool) \<Rightarrow> apriltag_family \<Rightarrow> int \<Rightarrow> cerr + apriltag_family \<times> qd_errno" where
  "quick_decode_init alloc family maxhamming =
     bindE (assertE (fam_impl family = None)) (\<lambda>_.
     bindE (assertE (fam_ncodes family < 65536)) (\<lambda>_.
     bindE (cint (sint (qd_capacity family maxhamming) * 3)) (\<lambda>nentries.
     if \<not> alloc nentries then Inr (family, ENOMEM)
     else
       let qd = \<lparr>qd_nentries = nentries,
                 qd_entries = replicate (nat nentries)
                   \<lparr>qe_rcode = UINT64_MAX, qe_id = 0, qe_hamming = 0, qe_rotation = 0\<rparr>\<rparr>
       in bindE (quick_decode_codes family maxhamming [0..<fam_ncodes family] qd) (\<lambda>r.
          case r of None \<Rightarrow> Inr (family, EINVAL)
          | Some qd \<Rightarrow> Inr (family\<lparr>fam_impl := Some qd\<rparr>, NoError)))))"

definition qd_no_entry :: quick_decode_entry where
  "qd_no_entry = \<lparr>qe_rcode = 0, qe_id = 65535, qe_hamming = 255, qe_rotation = 0\<rparr>"

fun quick_decode_rounds :: "quick_decode \<Rightarrow> nat \<Rightarrow> nat list \<Rightarrow> u64 \<Rightarrow> cerr + quick_decode_entry" where
  "quick_decode_rounds qd nbits [] rcode = Inr qd_no_entry"
| "quick_decode_rounds qd nbits (ridx # rs) rcode =
     (let n = nat (qd_nentries qd) in
      if n = 0 then Inl DivByZero
      else bindE (probe n (qd_next n) (\<lambda>e. qe_rcode e = UINT64_MAX \<or> qe_rcode e = rcode)
                    (qd_entries qd) (qd_home n rcode)) (\<lambda>bucket.
        bindE (arr_get (qd_entries qd) bucket) (\<lambda>e.
        if qe_rcode e \<noteq> UINT64_MAX then Inr (e\<lparr>qe_rotation := of_nat ridx\<rparr>)
        else quick_decode_rounds qd nbits rs (rotate90 rcode nbits))))"

definition quick_decode_codeword :: "apriltag_family \<Rightarrow> u64 \<Rightarrow> cerr + quick_decode_entry" where
  "quick_decode_codeword tf rcode =
     (case fam_impl tf of None \<Rightarrow> Inr qd_no_entry
      | Some qd \<Rightarrow> quick_decode_rounds qd (fam_nbits tf) [0..<4] rcode)"

subsection \<open>The table as a map\<close>

abbreviation qd_occ :: "quick_decode_entry \<Rightarrow> bool" where
  "qd_occ e \<equiv> qe_rcode e \<noteq> UINT64_MAX"

interpretation qdp: probing qd_occ qe_rcode qd_home
  by unfold_locales (simp add: qd_home_def)

definition qd_inv :: "quick_decode \<Rightarrow> bool" where
  "qd_inv qd \<longleftrightarrow> qd_nentries qd = int (length (qd_entries qd)) \<and> qd_entries qd \<noteq> [] \<and>
     pr_wf qd_occ qe_rcode qd_home (qd_entries qd) \<and> (\<forall>e \<in> set (qd_entries qd). qe_rotation e = 0)"

definition qd_get :: "quick_decode \<Rightarrow> u64 \<Rightarrow> quick_decode_entry option" where
  "qd_get qd code = pr_get qd_occ qe_rcode qd_home (qd_entries qd) code"

definition qd_used :: "quick_decode \<Rightarrow> nat" where
  "qd_used qd = size (pr_bag qd_occ (qd_entries qd))"

definition qd_entry :: "u64 \<times> nat \<times> nat \<Rightarrow> quick_decode_entry" where
  "qd_entry t = (case t of (code, i, h) \<Rightarrow>
     \<lparr>qe_rcode = code, qe_id = of_nat i, qe_hamming = of_nat h, qe_rotation = 0\<rparr>)"

lemma probe_qd_next:
  assumes "i < length t"
  shows "probe f (qd_next (length t)) stop t i = probe f (round_next (length t)) stop t i"
  using assms by (intro probe_cong_next) (simp_all add: qd_next_def round_next_mod [simplified] round_next_less)

lemma qd_room:
  assumes "qd_used qd < length (qd_entries qd)"
  obtains y where "y < length (qd_entries qd)" "\<not> qd_occ (qd_entries qd ! y)"
  using pr_bag_room [of qd_occ "qd_entries qd"] assms unfolding qd_used_def by blast

lemma quick_decode_add_ok:
  assumes inv: "qd_inv qd" and room: "Suc (qd_used qd) < length (qd_entries qd)" and code: "code \<noteq> UINT64_MAX"
  obtains qd' where "quick_decode_add qd code i h = Inr qd'" "qd_inv qd'"
    "length (qd_entries qd') = length (qd_entries qd)" "qd_used qd' = Suc (qd_used qd)"
    "\<And>k. qd_get qd' k = (case qd_get qd k of None \<Rightarrow> if k = code then Some (qd_entry (code, i, h)) else None
                          | Some e \<Rightarrow> Some e)"
proof -
  let ?t = "qd_entries qd" and ?e = "qd_entry (code, i, h)"
  have t: "?t \<noteq> []" "nat (qd_nentries qd) = length ?t" and wf: "pr_wf qd_occ qe_rcode qd_home ?t"
    and rot: "\<And>x. x < length ?t \<Longrightarrow> qe_rotation (?t ! x) = 0" using inv by (auto simp: qd_inv_def)
  have key: "qe_rcode ?e = code" "qd_occ ?e" using code by (simp_all add: qd_entry_def)
  obtain y where y: "y < length ?t" "\<not> qd_occ (?t ! y)" using qd_room [of qd] room by auto
  obtain j where j: "probe (length ?t) (round_next (length ?t)) (\<lambda>e. \<not> qd_occ e) ?t (qd_home (length ?t) (qe_rcode ?e)) = Inr j"
    "j < length ?t" "\<not> qd_occ (?t ! j)" "pr_wf qd_occ qe_rcode qd_home (?t[j := ?e])"
    "pr_bag qd_occ (?t[j := ?e]) = add_mset ?e (pr_bag qd_occ ?t)"
    "\<And>z. z < length ?t \<Longrightarrow> dist (length ?t) (qd_home (length ?t) (qe_rcode ?e)) z
        < dist (length ?t) (qd_home (length ?t) (qe_rcode ?e)) j \<Longrightarrow> qd_occ (?t ! z)"
    using qdp.insert_ok [OF wf y key(2)] by blast
  define qd' where "qd' = qd\<lparr>qd_entries := ?t[j := ?e]\<rparr>"
  have ent: "(?t ! j)\<lparr>qe_rcode := code, qe_id := of_nat i, qe_hamming := of_nat h\<rparr> = ?e"
    using rot [OF j(2)] by (simp add: qd_entry_def)
  have h: "qd_home (length ?t) code < length ?t" using t by (simp add: qd_home_def)
  have "probe (length ?t) (qd_next (length ?t)) (\<lambda>e. qe_rcode e = UINT64_MAX) ?t (qd_home (length ?t) code) = Inr j"
    using j(1) key(1) by (simp add: probe_qd_next [OF h])
  then have run: "quick_decode_add qd code i h = Inr qd'"
    using t j(2) ent by (simp add: quick_decode_add_def Let_def cmem qd'_def)
  have inv': "qd_inv qd'"
    using inv j(4) by (auto simp: qd_inv_def qd'_def qd_entry_def dest!: set_update_subset_insert [THEN subsetD])
  have used: "qd_used qd' = Suc (qd_used qd)" by (simp add: qd_used_def qd'_def j(5))
  obtain z where z: "z < length ?t" "\<not> qd_occ (?t[j := ?e] ! z)"
    using qd_room [of qd'] used room by (auto simp: qd'_def)
  then have z': "z \<noteq> j" "\<not> qd_occ (?t ! z)" using key(2) j(2) by (cases "z = j"; simp)+
  have get: "qd_get qd' k = (case qd_get qd k of None \<Rightarrow> if k = code then Some ?e else None | Some e \<Rightarrow> Some e)" for k
    using qdp.insert_get [OF wf j(2,3,6) key(2) j(4) z(1) z', of k] key(1) by (simp add: qd_get_def qd'_def)
  show thesis by (rule that [OF run inv' _ used get]) (simp add: qd'_def)
qed

definition qd_insert :: "quick_decode \<Rightarrow> u64 \<times> nat \<times> nat \<Rightarrow> cerr + quick_decode" where
  "qd_insert qd t = (case t of (code, i, h) \<Rightarrow> quick_decode_add qd code i h)"

lemma qd_inserts_ok:
  assumes "qd_inv qd" "qd_used qd + length ts < length (qd_entries qd)" "\<And>c. c \<in> fst ` set ts \<Longrightarrow> c \<noteq> UINT64_MAX"
  shows "\<exists>qd'. foldE qd_insert ts qd = Inr qd' \<and> qd_inv qd' \<and> length (qd_entries qd') = length (qd_entries qd) \<and>
    qd_used qd' = qd_used qd + length ts \<and>
    (\<forall>k. qd_get qd' k = (case qd_get qd k of None \<Rightarrow> find (\<lambda>e. qe_rcode e = k) (map qd_entry ts) | Some e \<Rightarrow> Some e))"
  using assms
proof (induction ts arbitrary: qd)
  case Nil
  then show ?case by (simp split: option.split)
next
  case (Cons t ts)
  obtain c i h where t: "t = (c, i, h)" by (cases t)
  have "c \<noteq> UINT64_MAX" using Cons.prems(3) [of c] t by simp
  moreover have "Suc (qd_used qd) < length (qd_entries qd)" using Cons.prems(2) by simp
  ultimately obtain qd1 where q1: "quick_decode_add qd c i h = Inr qd1" "qd_inv qd1"
    "length (qd_entries qd1) = length (qd_entries qd)" "qd_used qd1 = Suc (qd_used qd)"
    "\<And>k. qd_get qd1 k = (case qd_get qd k of None \<Rightarrow> if k = c then Some (qd_entry (c, i, h)) else None
                          | Some e \<Rightarrow> Some e)"
    using quick_decode_add_ok [OF Cons.prems(1)] by blast
  obtain qd' where q': "foldE qd_insert ts qd1 = Inr qd'" "qd_inv qd'" "length (qd_entries qd') = length (qd_entries qd1)"
    "qd_used qd' = qd_used qd1 + length ts"
    "\<And>k. qd_get qd' k = (case qd_get qd1 k of None \<Rightarrow> find (\<lambda>e. qe_rcode e = k) (map qd_entry ts) | Some e \<Rightarrow> Some e)"
    using Cons.IH [OF q1(2)] Cons.prems(2,3) q1(3,4) by auto
  have "qd_get qd' k = (case qd_get qd k of None \<Rightarrow> find (\<lambda>e. qe_rcode e = k) (map qd_entry (t # ts)) | Some e \<Rightarrow> Some e)" for k
    using q'(5) [of k] q1(5) [of k] t by (auto split: option.splits simp: qd_entry_def)
  moreover have "foldE qd_insert (t # ts) qd = Inr qd'" using q1(1) q'(1) t by (simp add: qd_insert_def)
  ultimately show ?case using q' q1(3,4) by auto
qed

subsection \<open>Words as bit sets\<close>

definition hweight :: "u64 \<Rightarrow> nat" where
  "hweight w = length (filter (bit w) [0..<64])"

definition hdist :: "u64 \<Rightarrow> u64 \<Rightarrow> nat" where
  "hdist a b = hweight (a XOR b)"

definition wbits :: "u64 \<Rightarrow> nat set" where
  "wbits w = {i. bit w i}"

lemma wbits_less: "i \<in> wbits w \<Longrightarrow> i < 64"
  using bit_imp_le_length [of w i] by (simp add: wbits_def)

lemma finite_wbits [simp]: "finite (wbits w)"
  by (rule finite_subset [of _ "{..<64}"]) (auto dest: wbits_less)

lemma wbits_inj: "wbits a = wbits b \<longleftrightarrow> a = b"
  by (auto simp: wbits_def set_eq_iff intro: bit_eqI)

lemma hweight_card: "hweight w = card (wbits w)"
proof -
  have "wbits w = set (filter (bit w) [0..<64])" by (auto simp: wbits_def dest: wbits_less [unfolded wbits_def, simplified])
  then show ?thesis by (simp only: hweight_def) (simp only: distinct_card distinct_filter distinct_upt)
qed

lemma wbits_xor: "wbits (a XOR b) = (wbits a - wbits b) \<union> (wbits b - wbits a)"
  by (auto simp: wbits_def bit_xor_iff)

lemma wbits_1: "j < 64 \<Longrightarrow> wbits (push_bit j 1) = {j}"
  by (auto simp: wbits_def push_bit_eq_mult bit_exp_iff possible_bit_word)

lemma wbits_0 [simp]: "wbits 0 = {}"
  by (simp add: wbits_def)

lemma fits_bits: "unat (w :: u64) < 2 ^ n \<longleftrightarrow> (\<forall>i. bit w i \<longrightarrow> i < n)"
proof -
  have "unat w < 2 ^ n \<longleftrightarrow> take_bit n (unat w) = unat w" by (simp only: take_bit_nat_eq_self_iff)
  also have "\<dots> \<longleftrightarrow> take_bit n w = w" by (metis unsigned_take_bit_eq unsigned_word_eqI)
  also have "\<dots> \<longleftrightarrow> (\<forall>i. bit w i \<longrightarrow> i < n)"
    using bit_imp_le_length [of w] by (auto simp: bit_eq_iff bit_take_bit_iff)
  finally show ?thesis .
qed

lemma fits_wbits: "unat (w :: u64) < 2 ^ n \<longleftrightarrow> wbits w \<subseteq> {..<n}"
  by (auto simp: fits_bits wbits_def)

lemma fits_xor: "unat (a :: u64) < 2 ^ n \<Longrightarrow> unat b < 2 ^ n \<Longrightarrow> unat (a XOR b) < 2 ^ n"
  by (auto simp: fits_wbits wbits_xor)

lemma fits_not_max: "unat (w :: u64) < 2 ^ n \<Longrightarrow> n < 64 \<Longrightarrow> w \<noteq> UINT64_MAX"
proof
  assume "unat w < 2 ^ n" "n < 64" "w = UINT64_MAX"
  then have "bit (UINT64_MAX :: u64) n \<longrightarrow> n < n" unfolding fits_bits by blast
  moreover have "bit (mask 64 :: u64) n" using \<open>n < 64\<close> by (simp add: bit_mask_iff)
  then have "bit UINT64_MAX n" by (simp add: UINT64_MAX_def mask_eq_exp_minus_1)
  ultimately show False by blast
qed

lemma hdist_sym: "hdist a b = hdist b a"
  by (simp add: hdist_def xor.commute)

lemma hdist_triangle: "hdist a c \<le> hdist a b + hdist b c"
proof -
  have "wbits (a XOR c) \<subseteq> wbits (a XOR b) \<union> wbits (b XOR c)" by (auto simp: wbits_xor)
  then have "card (wbits (a XOR c)) \<le> card (wbits (a XOR b) \<union> wbits (b XOR c))" by (simp add: card_mono)
  also have "\<dots> \<le> card (wbits (a XOR b)) + card (wbits (b XOR c))" by (rule card_Un_le)
  finally show ?thesis by (simp add: hdist_def hweight_card)
qed

subsection \<open>Rotation\<close>

text \<open>Where bit \<open>i\<close> of the rotated word comes from: \<open>l\<close> is 1 when there is a middle bit, which stays.\<close>

definition rot_src :: "nat \<Rightarrow> nat \<Rightarrow> nat" where
  "rot_src nb i = (let l = nb mod 4; q = nb div 4 in
     if i < l then i else if i < q + l then i + 3 * q else i - q)"

lemma rot_src_cases:
  assumes "nb mod 4 \<le> 1"
  obtains q l where "nb div 4 = q" "nb mod 4 = l" "nb = 4 * q + l" "l \<le> 1"
    "\<And>i. rot_src nb i = (if i < l then i else if i < q + l then i + 3 * q else i - q)"
  by (rule that [of "nb div 4" "nb mod 4"]) (use assms in \<open>simp_all add: rot_src_def Let_def mult_div_mod_eq\<close>)

lemma rot_src_less: "nb mod 4 \<le> 1 \<Longrightarrow> i < nb \<Longrightarrow> rot_src nb i < nb"
  by (erule rot_src_cases) auto

lemma rot_src_4: "nb mod 4 \<le> 1 \<Longrightarrow> i < nb \<Longrightarrow> rot_src nb (rot_src nb (rot_src nb (rot_src nb i))) = i"
proof (erule rot_src_cases)
  fix q l
  assume "i < nb" "nb = 4 * q + l" and src: "\<And>i. rot_src nb i = (if i < l then i else if i < q + l then i + 3 * q else i - q)"
  show ?thesis
  proof (cases "i < l")
    case False
    define k d where "k = (i - l) div q" and "d = (i - l) mod q"
    have e: "i - l < 4 * q" using \<open>i < nb\<close> \<open>nb = 4 * q + l\<close> False by linarith
    then have "k < 4" unfolding k_def by (rule less_mult_imp_div_less)
    moreover have "d < q" using e by (simp add: d_def)
    moreover have "i = l + (q * k + d)" using False by (simp add: k_def d_def)
    ultimately show ?thesis
      by (auto simp: src less_Suc_eq numeral_eq_Suc)
  qed (simp add: src)
qed

lemma bit_rotate90:
  assumes "nb mod 4 \<le> 1" "nb < 64" "unat w < 2 ^ nb"
  shows "bit (rotate90 w nb) i \<longleftrightarrow> i < nb \<and> bit w (rot_src nb i)"
proof -
  obtain q l where q: "nb div 4 = q" "nb mod 4 = l" "nb = 4 * q + l" "l \<le> 1"
    and src: "\<And>i. rot_src nb i = (if i < l then i else if i < q + l then i + 3 * q else i - q)"
    using assms(1) by (rule rot_src_cases) (rule that)
  have fit: "\<And>i. bit w i \<Longrightarrow> i < 4 * q + l" using assms(3) q(3) by (simp add: fits_bits)
  have l01: "l = 0 \<or> l = 1" using q(4) by linarith
  have pl: "(if nb mod 4 = 1 then nb - 1 else nb) = 4 * q" "(if nb mod 4 = 1 then 1 else 0) = l"
    using q l01 by auto
  have eq: "rotate90 w nb = (push_bit (q + l) (drop_bit l w) OR push_bit l (drop_bit (3 * q + l) w) OR (w AND of_nat l))
      AND mask nb"
    unfolding rotate90_def pl Let_def by (simp add: mask_eq_exp_minus_1 push_bit_eq_mult)
  have "(w AND of_nat l) = (if l = 1 then w AND 1 else 0)" using l01 by auto
  then have "bit (w AND of_nat l) i \<longleftrightarrow> i < l \<and> bit w i"
    using l01 by (auto simp: bit_and_iff bit_1_iff)
  then have b: "bit (rotate90 w nb) i \<longleftrightarrow> i < nb \<and>
      (q + l \<le> i \<and> bit w (i - q) \<or> l \<le> i \<and> bit w (i + 3 * q) \<or> i < l \<and> bit w i)"
    using assms(2) by (auto simp: eq bit_and_iff bit_or_iff bit_mask_iff bit_push_bit_iff bit_drop_bit_eq ac_simps
        Nat.diff_add_assoc)
  consider "i < l" | "l \<le> i" "i < q + l" | "q + l \<le> i" by linarith
  then show ?thesis
  proof cases
    case 3
    then have "\<not> bit w (i + 3 * q)" using fit [of "i + 3 * q"] by auto
    with 3 show ?thesis by (simp add: b src)
  qed (simp_all add: b src)
qed

lemma rotate90_fits:
  assumes "nb mod 4 \<le> 1" "nb < 64" "unat w < 2 ^ nb"
  shows "unat (rotate90 w nb) < 2 ^ nb"
  using bit_rotate90 [OF assms] by (simp add: fits_bits)

definition rot90s :: "nat \<Rightarrow> nat \<Rightarrow> u64 \<Rightarrow> u64" where
  "rot90s nb r w = ((\<lambda>w. rotate90 w nb) ^^ r) w"

lemma rot90s_simps [simp]:
  "rot90s nb 0 w = w" "rot90s nb (Suc r) w = rotate90 (rot90s nb r w) nb"
  by (simp_all add: rot90s_def)

lemma rot90s_add: "rot90s nb (r + s) w = rot90s nb r (rot90s nb s w)"
  by (simp add: rot90s_def funpow_add)

lemma rot90s_fits:
  "nb mod 4 \<le> 1 \<Longrightarrow> nb < 64 \<Longrightarrow> unat w < 2 ^ nb \<Longrightarrow> unat (rot90s nb r w) < 2 ^ nb"
  by (induction r) (simp_all add: rotate90_fits)

lemma rot90s_4:
  assumes "nb mod 4 \<le> 1" "nb < 64" "unat w < 2 ^ nb"
  shows "rot90s nb 4 w = w"
proof (rule bit_eqI)
  fix i
  have b: "bit (rot90s nb (Suc r) w) i \<longleftrightarrow> i < nb \<and> bit (rot90s nb r w) (rot_src nb i)" for r i
    using bit_rotate90 [OF assms(1,2) rot90s_fits [OF assms]] by simp
  have "bit (rot90s nb (Suc (Suc (Suc (Suc 0)))) w) i \<longleftrightarrow> i < nb \<and> bit w i"
    using rot_src_less [OF assms(1)] rot_src_4 [OF assms(1)] by (auto simp: b simp del: rot90s_simps(2))
  moreover have "4 = Suc (Suc (Suc (Suc 0)))" by simp
  ultimately show "bit (rot90s nb 4 w) i = bit w i"
    using assms(3) [unfolded fits_bits] by metis
qed

lemma hweight_rotate90:
  assumes "nb mod 4 \<le> 1" "nb < 64" "unat w < 2 ^ nb"
  shows "hweight (rotate90 w nb) = hweight w"
proof -
  have inv: "rot_src nb (rot_src nb (rot_src nb (rot_src nb i))) = i" "rot_src nb i < nb" if "i < nb" for i
    using rot_src_4 [OF assms(1) that] rot_src_less [OF assms(1) that] by simp_all
  let ?f = "rot_src nb" and ?g = "\<lambda>i. rot_src nb (rot_src nb (rot_src nb i))"
  have "bij_betw ?f (wbits (rotate90 w nb)) (wbits w)"
  proof (rule bij_betw_byWitness [where f' = ?g])
    show "\<forall>a\<in>wbits (rotate90 w nb). ?g (?f a) = a" "\<forall>a\<in>wbits w. ?f (?g a) = a"
      using inv assms(3) by (auto simp: wbits_def bit_rotate90 [OF assms] fits_bits)
    show "?f ` wbits (rotate90 w nb) \<subseteq> wbits w" by (auto simp: wbits_def bit_rotate90 [OF assms])
    show "?g ` wbits w \<subseteq> wbits (rotate90 w nb)"
      using inv assms(3) by (auto simp: wbits_def bit_rotate90 [OF assms] fits_bits)
  qed
  then show ?thesis using bij_betw_same_card by (auto simp: hweight_card)
qed

lemma hdist_rotate90:
  assumes "nb mod 4 \<le> 1" "nb < 64" "unat a < 2 ^ nb" "unat b < 2 ^ nb"
  shows "hdist (rotate90 a nb) (rotate90 b nb) = hdist a b"
proof -
  have "rotate90 a nb XOR rotate90 b nb = rotate90 (a XOR b) nb"
    using assms by (intro bit_eqI) (auto simp: bit_xor_iff bit_rotate90 fits_xor)
  then show ?thesis using hweight_rotate90 [OF assms(1,2) fits_xor [OF assms(3,4)]] by (simp add: hdist_def)
qed

lemma hdist_rot90s:
  assumes "nb mod 4 \<le> 1" "nb < 64" "unat a < 2 ^ nb" "unat b < 2 ^ nb"
  shows "hdist (rot90s nb r a) (rot90s nb r b) = hdist a b"
  using assms by (induction r) (simp_all add: hdist_rotate90 rot90s_fits)

subsection \<open>Filling the table\<close>

text \<open>The error patterns the loops add for one code, with their weights, in the order of the code.\<close>

definition err1 :: "nat \<Rightarrow> u64 list" where
  "err1 nb = map (\<lambda>j. push_bit j 1) [0..<nb]"

definition err2 :: "nat \<Rightarrow> u64 list" where
  "err2 nb = concat (map (\<lambda>j. map (\<lambda>k. push_bit j 1 XOR push_bit k 1) [0..<j]) [0..<nb])"

definition err3 :: "nat \<Rightarrow> u64 list" where
  "err3 nb = concat (map (\<lambda>j. concat (map (\<lambda>k. map (\<lambda>m.
     push_bit j 1 XOR push_bit k 1 XOR push_bit m 1) [0..<k]) [0..<j])) [0..<nb])"

definition qd_masks :: "nat \<Rightarrow> int \<Rightarrow> (u64 \<times> nat) list" where
  "qd_masks nb h = [(0, 0)] @ (if h \<ge> 1 then map (\<lambda>m. (m, 1)) (err1 nb) else []) @
     (if h \<ge> 2 then map (\<lambda>m. (m, 2)) (err2 nb) else []) @ (if h \<ge> 3 then map (\<lambda>m. (m, 3)) (err3 nb) else [])"

definition qd_near :: "u64 \<Rightarrow> nat \<Rightarrow> (u64 \<times> nat) list \<Rightarrow> (u64 \<times> nat \<times> nat) list" where
  "qd_near code i ms = map (\<lambda>(m, w). (code XOR m, i, w)) ms"

definition qd_targets :: "apriltag_family \<Rightarrow> int \<Rightarrow> (u64 \<times> nat \<times> nat) list" where
  "qd_targets fam h =
     concat (map (\<lambda>i. qd_near (fam_codes fam ! i) i (qd_masks (fam_nbits fam) h)) [0..<fam_ncodes fam])"

lemma foldE_concat: "foldE f (concat xss) s = foldE (\<lambda>s xs. foldE f xs s) xss s"
  by (induction xss arbitrary: s) (auto simp: foldE_append intro!: bindE_cong)

lemma foldE_Nil: "foldE f [] = Inr"
  by (rule ext) simp

lemma quick_decode_code_eq:
  assumes "i < length (fam_codes fam)"
  shows "quick_decode_code fam h qd i =
    foldE qd_insert (qd_near (fam_codes fam ! i) i (qd_masks (fam_nbits fam) h)) qd"
  using assms
  by (auto simp: quick_decode_code_def qd_masks_def err1_def err2_def err3_def qd_near_def Let_def cmem foldE_append foldE_Nil
      foldE_map foldE_concat qd_insert_def map_concat comp_def xor.assoc intro!: bindE_cong)

lemma quick_decode_codes_eq:
  assumes "h \<le> 3" "\<forall>i \<in> set is. i < length (fam_codes fam)"
  shows "quick_decode_codes fam h is qd =
    bindE (foldE qd_insert (concat (map (\<lambda>i. qd_near (fam_codes fam ! i) i (qd_masks (fam_nbits fam) h)) is)) qd)
      (\<lambda>qd. Inr (Some qd))"
  using assms(2)
proof (induction "is" arbitrary: qd)
  case (Cons i "is")
  then show ?case using assms(1) by (auto simp: quick_decode_code_eq foldE_append bindE_assoc intro!: bindE_cong)
qed simp

lemma length_err1: "length (err1 nb) = nb"
  by (simp add: err1_def)

lemma length_err2: "length (err2 nb) \<le> nb * (nb - 1)"
proof (induction nb)
  case (Suc nb)
  then have "length (err2 (Suc nb)) \<le> nb * (nb - 1) + nb" by (simp add: err2_def)
  also have "\<dots> \<le> Suc nb * (Suc nb - 1)" by (cases nb) auto
  finally show ?case .
qed (simp add: err2_def)

lemma length_err3: "length (err3 nb) \<le> nb * (nb - 1) * (nb - 2)"
proof (induction nb)
  case (Suc nb)
  have "length (err3 (Suc nb)) = length (err3 nb) + length (err2 nb)"
    by (simp add: err3_def err2_def length_concat comp_def)
  also have "\<dots> \<le> nb * (nb - 1) * (nb - 2) + nb * (nb - 1)" using Suc length_err2 [of nb] by simp
  also have "\<dots> \<le> nb * (nb - 1) * (nb - 2) + 3 * (nb * (nb - 1))" by simp
  also have "\<dots> = Suc nb * (Suc nb - 1) * (Suc nb - 2)"
  proof (cases nb)
    case (Suc n)
    then show ?thesis by (cases n) (simp_all add: algebra_simps)
  qed simp
  finally show ?case .
qed (simp add: err3_def)

definition qd_cap :: "apriltag_family \<Rightarrow> int \<Rightarrow> nat" where
  "qd_cap fam h = (let n = fam_ncodes fam; nb = fam_nbits fam in
     n + (if h \<ge> 1 then n * nb else 0) + (if h \<ge> 2 then n * nb * (nb - 1) else 0)
       + (if h \<ge> 3 then n * nb * (nb - 1) * (nb - 2) else 0))"

lemma of_nat_falling:
  "(of_nat (nb * (nb - 1)) :: u32) = of_nat nb * (of_nat nb - 1)"
  "(of_nat (nb * (nb - 1) * (nb - 2)) :: u32) = of_nat nb * (of_nat nb - 1) * (of_nat nb - 2)"
proof -
  show one: "(of_nat (nb * (nb - 1)) :: u32) = of_nat nb * (of_nat nb - 1)" by (cases nb) (simp_all add: algebra_simps)
  show "(of_nat (nb * (nb - 1) * (nb - 2)) :: u32) = of_nat nb * (of_nat nb - 1) * (of_nat nb - 2)"
  proof (cases "nb < 2")
    case True
    then have "nb = 0 \<or> nb = 1" by linarith
    then show ?thesis by auto
  next
    case False
    then have "(of_nat (nb - 2) :: u32) = of_nat nb - 2" by simp
    then show ?thesis by (simp only: of_nat_mult [of "nb * (nb - 1)"] one)
  qed
qed

lemma qd_capacity_eq: "qd_capacity fam h = of_nat (qd_cap fam h)"
proof -
  have two: "(of_nat (n * nb * (nb - 1)) :: u32) = of_nat n * of_nat nb * (of_nat nb - 1)" for n nb
    using of_nat_falling(1) [of nb] by (simp only: mult.assoc of_nat_mult [of n])
  have three: "(of_nat (n * nb * (nb - 1) * (nb - 2)) :: u32) = of_nat n * of_nat nb * (of_nat nb - 1) * (of_nat nb - 2)" for n nb
    using of_nat_falling(2) [of nb] by (simp only: mult.assoc of_nat_mult [of n])
  show ?thesis
    unfolding qd_capacity_def qd_cap_def Let_def of_nat_add
    by (simp only: if_distrib [of of_nat] two three) simp
qed

lemma length_targets: "length (qd_targets fam h) \<le> qd_cap fam h"
proof -
  let ?n = "fam_ncodes fam" and ?nb = "fam_nbits fam"
  have "length (qd_targets fam h) = ?n * length (qd_masks ?nb h)"
    by (simp add: qd_targets_def qd_near_def length_concat comp_def sum_list_triv)
  also have "length (qd_masks ?nb h) \<le> 1 + (if h \<ge> 1 then ?nb else 0) + (if h \<ge> 2 then ?nb * (?nb - 1) else 0) +
      (if h \<ge> 3 then ?nb * (?nb - 1) * (?nb - 2) else 0)"
    using length_err2 [of ?nb] length_err3 [of ?nb] by (simp add: qd_masks_def length_err1)
  finally show ?thesis
    by (cases "h \<ge> 1"; cases "h \<ge> 2"; cases "h \<ge> 3") (simp_all add: qd_cap_def Let_def distrib_left mult.assoc)
qed

text \<open>A family the table can be built for: what the tag constructors set up.\<close>

definition fam_ok :: "apriltag_family \<Rightarrow> bool" where
  "fam_ok fam \<longleftrightarrow> fam_ncodes fam = length (fam_codes fam) \<and> 0 < fam_ncodes fam \<and> fam_ncodes fam < 65536 \<and>
     fam_nbits fam mod 4 \<le> 1 \<and> fam_nbits fam < 64 \<and> (\<forall>c \<in> set (fam_codes fam). unat c < 2 ^ fam_nbits fam)"

lemma err_wbits:
  assumes "nb < 64"
  shows "wbits ` set (err1 nb) = {B. B \<subseteq> {..<nb} \<and> card B = 1}"
    "wbits ` set (err2 nb) = {B. B \<subseteq> {..<nb} \<and> card B = 2}"
    "wbits ` set (err3 nb) = {B. B \<subseteq> {..<nb} \<and> card B = 3}"
proof -
  have one: "wbits (push_bit j 1) = {j}" if "j < nb" for j using that assms by (intro wbits_1) simp
  have two: "wbits (push_bit j 1 XOR push_bit k 1) = {j, k}" if "j < nb" "k < j" for j k
    using that one [of j] one [of k] by (auto simp: wbits_xor)
  have three: "wbits (push_bit j 1 XOR push_bit k 1 XOR push_bit m 1) = {j, k, m}" if "j < nb" "k < j" "m < k" for j k m
    using that two [of j k] one [of m] by (auto simp: wbits_xor xor.assoc [symmetric])
  show "wbits ` set (err1 nb) = {B. B \<subseteq> {..<nb} \<and> card B = 1}"
    using one by (force simp: err1_def card_1_singleton_iff image_iff)
  have "wbits ` set (err2 nb) = {{j, k} | j k. j < nb \<and> k < j}"
  proof -
    have "wbits ` set (err2 nb) = (\<lambda>(j, k). wbits (push_bit j 1 XOR push_bit k 1)) ` {(j, k). j < nb \<and> k < j}"
      by (force simp: err2_def)
    also have "\<dots> = (\<lambda>(j, k). {j, k}) ` {(j, k). j < nb \<and> k < j}"
      using two by (intro image_cong) auto
    finally show ?thesis by auto
  qed
  also have "\<dots> = {B. B \<subseteq> {..<nb} \<and> card B = 2}"
  proof (intro equalityI subsetI)
    fix B assume "B \<in> {B. B \<subseteq> {..<nb} \<and> card B = 2}"
    then obtain x y where "B = {x, y}" "x \<noteq> y" "x < nb" "y < nb" by (auto simp: card_2_iff)
    then obtain j k where "B = {j, k}" "j < nb" "k < j" by (metis insert_commute linorder_neqE_nat)
    then show "B \<in> {{j, k} | j k. j < nb \<and> k < j}" by blast
  qed auto
  finally show "wbits ` set (err2 nb) = {B. B \<subseteq> {..<nb} \<and> card B = 2}" .
  have "wbits ` set (err3 nb) = {{j, k, m} | j k m. j < nb \<and> k < j \<and> m < k}"
  proof -
    have "wbits ` set (err3 nb) =
        (\<lambda>(j, k, m). wbits (push_bit j 1 XOR push_bit k 1 XOR push_bit m 1)) ` {(j, k, m). j < nb \<and> k < j \<and> m < k}"
      by (force simp: err3_def)
    also have "\<dots> = (\<lambda>(j, k, m). {j, k, m}) ` {(j, k, m). j < nb \<and> k < j \<and> m < k}"
      using three by (intro image_cong) auto
    finally show ?thesis by auto
  qed
  also have "\<dots> = {B. B \<subseteq> {..<nb} \<and> card B = 3}"
  proof (intro equalityI subsetI)
    fix B assume "B \<in> {B. B \<subseteq> {..<nb} \<and> card B = 3}"
    then obtain x y z where B: "B = {x, y, z}" "x \<noteq> y" "y \<noteq> z" "x \<noteq> z" "x < nb" "y < nb" "z < nb"
      by (auto simp: card_3_iff)
    have mem: "B \<in> {{j, k, m} | j k m. j < nb \<and> k < j \<and> m < k}" if "B = {j, k, m}" "j < nb" "k < j" "m < k" for j k m
      using that by blast
    from B(2-4) consider "x < y" "y < z" | "x < z" "z < y" | "y < x" "x < z" | "y < z" "z < x" | "z < x" "x < y" | "z < y" "y < x"
      by linarith
    then show "B \<in> {{j, k, m} | j k m. j < nb \<and> k < j \<and> m < k}"
    proof cases
      case 1 show ?thesis by (rule mem [of z y x]) (use B 1 in auto)
    next
      case 2 show ?thesis by (rule mem [of y z x]) (use B 2 in auto)
    next
      case 3 show ?thesis by (rule mem [of z x y]) (use B 3 in auto)
    next
      case 4 show ?thesis by (rule mem [of x z y]) (use B 4 in auto)
    next
      case 5 show ?thesis by (rule mem [of y x z]) (use B 5 in auto)
    next
      case 6 show ?thesis by (rule mem [of x y z]) (use B 6 in auto)
    qed
  qed auto
  finally show "wbits ` set (err3 nb) = {B. B \<subseteq> {..<nb} \<and> card B = 3}" .
qed

lemma set_errs:
  assumes "nb < 64"
  shows "e \<in> set (err1 nb) \<longleftrightarrow> unat e < 2 ^ nb \<and> hweight e = 1"
    "e \<in> set (err2 nb) \<longleftrightarrow> unat e < 2 ^ nb \<and> hweight e = 2"
    "e \<in> set (err3 nb) \<longleftrightarrow> unat e < 2 ^ nb \<and> hweight e = 3"
proof -
  have "e \<in> S \<longleftrightarrow> wbits e \<in> wbits ` S" for S :: "u64 set" by (auto simp: wbits_inj)
  then show "e \<in> set (err1 nb) \<longleftrightarrow> unat e < 2 ^ nb \<and> hweight e = 1"
    "e \<in> set (err2 nb) \<longleftrightarrow> unat e < 2 ^ nb \<and> hweight e = 2"
    "e \<in> set (err3 nb) \<longleftrightarrow> unat e < 2 ^ nb \<and> hweight e = 3"
    by (simp_all only: err_wbits [OF assms] fits_wbits hweight_card mem_Collect_eq)
qed

lemma set_masks:
  assumes "nb < 64" "0 \<le> h" "h \<le> 3"
  shows "(m, w) \<in> set (qd_masks nb h) \<longleftrightarrow> unat m < 2 ^ nb \<and> hweight m = w \<and> int w \<le> h"
proof -
  have z: "hweight m = 0 \<longleftrightarrow> m = 0" by (simp add: hweight_card wbits_inj [symmetric])
  have "(m, w) \<in> set (qd_masks nb h) \<longleftrightarrow> (m = 0 \<and> w = 0) \<or> (h \<ge> 1 \<and> w = 1 \<and> m \<in> set (err1 nb)) \<or>
      (h \<ge> 2 \<and> w = 2 \<and> m \<in> set (err2 nb)) \<or> (h \<ge> 3 \<and> w = 3 \<and> m \<in> set (err3 nb))"
    by (auto simp: qd_masks_def)
  also have "\<dots> \<longleftrightarrow> unat m < 2 ^ nb \<and> hweight m = w \<and> int w \<le> h"
  proof (cases "w \<le> 3")
    case True
    then have "w = 0 \<or> w = 1 \<or> w = 2 \<or> w = 3" by linarith
    then show ?thesis using assms(2) z by (elim disjE) (auto simp: set_errs [OF assms(1)])
  next
    case False
    then show ?thesis using assms(3) by auto
  qed
  finally show ?thesis .
qed

subsection \<open>The table after initialisation\<close>

text \<open>The table fits: it is allocated, and its size does not overflow.\<close>

definition qd_fits :: "(int \<Rightarrow> bool) \<Rightarrow> apriltag_family \<Rightarrow> int \<Rightarrow> bool" where
  "qd_fits alloc fam h \<longleftrightarrow> int (3 * qd_cap fam h) \<le> INT_MAX \<and> alloc (int (3 * qd_cap fam h))"

text \<open>What a finished table answers: the first target, in the order of insertion, with that code.\<close>

definition qd_full :: "apriltag_family \<Rightarrow> int \<Rightarrow> quick_decode \<Rightarrow> bool" where
  "qd_full fam h qd \<longleftrightarrow> qd_inv qd \<and> qd_used qd < length (qd_entries qd) \<and>
     (\<forall>k. qd_get qd k = find (\<lambda>e. qe_rcode e = k) (map qd_entry (qd_targets fam h)))"

lemma sint_of_nat_small: "int n \<le> INT_MAX \<Longrightarrow> sint (of_nat n :: u32) = int n"
  by (simp add: signed_of_nat signed_take_bit_int_eq_self INT_MAX_def)

lemma targets_fit:
  assumes "fam_ok fam" "0 \<le> h" "h \<le> 3" "(c, i, w) \<in> set (qd_targets fam h)"
  shows "i < fam_ncodes fam" "int w \<le> h" "hdist c (fam_codes fam ! i) = w" "unat c < 2 ^ fam_nbits fam" "c \<noteq> UINT64_MAX"
proof -
  obtain m where m: "i < fam_ncodes fam" "(m, w) \<in> set (qd_masks (fam_nbits fam) h)" "c = fam_codes fam ! i XOR m"
    using assms(4) by (auto simp: qd_targets_def qd_near_def)
  have nb: "fam_nbits fam < 64" and code: "unat (fam_codes fam ! i) < 2 ^ fam_nbits fam"
    using assms(1) m(1) by (auto simp: fam_ok_def)
  note mw = set_masks [OF nb assms(2,3), of m w] m(2)
  have x: "c XOR fam_codes fam ! i = m" using m(3) by (simp add: xor.left_commute xor.commute)
  show "i < fam_ncodes fam" by (rule m(1))
  show "int w \<le> h" "hdist c (fam_codes fam ! i) = w" using mw x by (simp_all add: hdist_def)
  show fit: "unat c < 2 ^ fam_nbits fam" using mw fits_xor [OF code] m(3) by simp
  show "c \<noteq> UINT64_MAX" by (rule fits_not_max [OF fit nb])
qed

lemma targets_complete:
  assumes "fam_ok fam" "0 \<le> h" "h \<le> 3" "i < fam_ncodes fam" "unat c < 2 ^ fam_nbits fam"
    "int (hdist c (fam_codes fam ! i)) \<le> h"
  shows "(c, i, hdist c (fam_codes fam ! i)) \<in> set (qd_targets fam h)"
proof -
  let ?x = "fam_codes fam ! i" and ?m = "c XOR fam_codes fam ! i"
  have nb: "fam_nbits fam < 64" and code: "unat ?x < 2 ^ fam_nbits fam"
    using assms(1,4) by (auto simp: fam_ok_def)
  have "(?m, hdist c ?x) \<in> set (qd_masks (fam_nbits fam) h)"
    using set_masks [OF nb assms(2,3)] fits_xor [OF assms(5) code] assms(6) by (simp add: hdist_def)
  moreover have "c = ?x XOR ?m" by (simp add: xor.left_commute)
  ultimately show ?thesis using assms(4) by (force simp: qd_targets_def qd_near_def)
qed

lemma quick_decode_init_full:
  assumes fam: "fam_ok fam" "fam_impl fam = None" and h: "0 \<le> h" "h \<le> 3" and fits: "qd_fits alloc fam h"
  obtains qd where "quick_decode_init alloc fam h = Inr (fam\<lparr>fam_impl := Some qd\<rparr>, NoError)" "qd_full fam h qd"
proof -
  let ?n = "3 * qd_cap fam h"
  let ?e = "\<lparr>qe_rcode = UINT64_MAX, qe_id = 0, qe_hamming = 0, qe_rotation = 0\<rparr>"
  define qd0 where "qd0 = \<lparr>qd_nentries = int ?n, qd_entries = replicate ?n ?e\<rparr>"
  have n: "int ?n \<le> INT_MAX" "alloc (int ?n)" using fits by (simp_all add: qd_fits_def)
  have cap: "0 < qd_cap fam h" using fam(1) by (auto simp: qd_cap_def fam_ok_def Let_def)
  then have ne: "replicate ?n ?e \<noteq> []" by simp
  have un: "\<not> qd_occ (replicate ?n ?e ! x)" if "x < length (replicate ?n ?e)" for x using that by simp
  have bag: "pr_bag qd_occ (replicate ?n ?e) = {#}" by (simp add: pr_bag_def)
  have inv0: "qd_inv qd0" and get0: "\<And>k. qd_get qd0 k = None" and used0: "qd_used qd0 = 0"
    using qdp.get_empty [OF ne un] ne bag by (auto simp: qd_inv_def qd0_def qd_get_def qd_used_def)
  have sz: "length (qd_targets fam h) < length (qd_entries qd0)"
    using length_targets [of fam h] cap by (simp add: qd0_def)
  have ok: "c \<noteq> UINT64_MAX" if "c \<in> fst ` set (qd_targets fam h)" for c
    using that targets_fit(5) [OF fam(1) h] by auto
  obtain qd where qd: "foldE qd_insert (qd_targets fam h) qd0 = Inr qd" "qd_inv qd" "length (qd_entries qd) = length (qd_entries qd0)"
    "qd_used qd = qd_used qd0 + length (qd_targets fam h)"
    "\<And>k. qd_get qd k = (case qd_get qd0 k of None \<Rightarrow> find (\<lambda>e. qe_rcode e = k) (map qd_entry (qd_targets fam h)) | Some e \<Rightarrow> Some e)"
    using qd_inserts_ok [OF inv0 _ ok] used0 sz by auto
  have "sint (qd_capacity fam h) * 3 = int ?n"
    using n(1) by (simp add: qd_capacity_eq sint_of_nat_small)
  then have "cint (sint (qd_capacity fam h) * 3) = Inr (int ?n)"
    using n(1) by (simp add: cint_ok INT_MIN_def)
  moreover have "quick_decode_codes fam h [0..<fam_ncodes fam] qd0 = Inr (Some qd)"
    using quick_decode_codes_eq [OF h(2), of "[0..<fam_ncodes fam]" fam qd0] fam(1) qd(1)
    by (auto simp: fam_ok_def qd_targets_def)
  ultimately have "quick_decode_init alloc fam h = Inr (fam\<lparr>fam_impl := Some qd\<rparr>, NoError)"
    using fam n(2) by (simp add: quick_decode_init_def fam_ok_def qd0_def Let_def del: of_nat_mult)
  moreover have "qd_full fam h qd"
    unfolding qd_full_def using qd get0 used0 sz by simp
  ultimately show thesis by (rule that)
qed

subsection \<open>Decoding\<close>

lemma quick_decode_rounds_Cons:
  assumes inv: "qd_inv qd" and room: "qd_used qd < length (qd_entries qd)"
  shows "quick_decode_rounds qd nb (r # rs) rcode =
    (case qd_get qd rcode of Some e \<Rightarrow> Inr (e\<lparr>qe_rotation := of_nat r\<rparr>)
     | None \<Rightarrow> quick_decode_rounds qd nb rs (rotate90 rcode nb))"
proof -
  let ?t = "qd_entries qd"
  have t: "?t \<noteq> []" "nat (qd_nentries qd) = length ?t" and wf: "pr_wf qd_occ qe_rcode qd_home ?t"
    using inv by (auto simp: qd_inv_def)
  obtain y where y: "y < length ?t" "\<not> qd_occ (?t ! y)" using qd_room [OF room] .
  obtain j where j: "pr_find qd_occ qe_rcode qd_home ?t rcode = Inr j" "j < length ?t"
    by (rule qdp.find_ok [OF wf y, of rcode]) (rule that)
  have h: "qd_home (length ?t) rcode < length ?t" using t by (simp add: qd_home_def)
  have "probe (length ?t) (qd_next (length ?t)) (\<lambda>e. qe_rcode e = UINT64_MAX \<or> qe_rcode e = rcode) ?t
      (qd_home (length ?t) rcode) = Inr j"
    using j(1) by (simp add: pr_find_def probe_qd_next [OF h])
  then show ?thesis using j t by (simp add: Let_def cmem qd_get_def pr_get_def)
qed

text \<open>The tags whose code some rotation of the observed word is within \<open>h\<close> bit errors of.\<close>

definition in_ball :: "apriltag_family \<Rightarrow> int \<Rightarrow> nat \<Rightarrow> u64 \<Rightarrow> nat \<Rightarrow> bool" where
  "in_ball fam h r rcode i \<longleftrightarrow>
     i < fam_ncodes fam \<and> int (hdist (rot90s (fam_nbits fam) r rcode) (fam_codes fam ! i)) \<le> h"

text \<open>A decoded entry names a tag of the family, the rotation and the number of corrected bits.\<close>

definition decodes_to :: "apriltag_family \<Rightarrow> int \<Rightarrow> u64 \<Rightarrow> quick_decode_entry \<Rightarrow> nat \<Rightarrow> nat \<Rightarrow> bool" where
  "decodes_to fam h rcode e r i \<longleftrightarrow> in_ball fam h r rcode i \<and>
     qe_rcode e = rot90s (fam_nbits fam) r rcode \<and> unat (qe_id e) = i \<and> unat (qe_rotation e) = r \<and>
     unat (qe_hamming e) = hdist (rot90s (fam_nbits fam) r rcode) (fam_codes fam ! i) \<and>
     (\<forall>r' < r. \<forall>i. \<not> in_ball fam h r' rcode i) \<and> (\<forall>i' < i. \<not> in_ball fam h r rcode i')"

lemma find_SomeD: "find P xs = Some x \<Longrightarrow> x \<in> set xs \<and> P x"
  by (induction xs) (auto split: if_splits)

lemma find_map: "find P (map f xs) = map_option f (find (P \<circ> f) xs)"
  by (induction xs) auto

lemma find_append: "find P (xs @ ys) = (case find P xs of None \<Rightarrow> find P ys | Some x \<Rightarrow> Some x)"
  by (induction xs) auto

lemma find_concat:
  "find P (concat (map f [0..<n])) = Some x \<Longrightarrow>
   \<exists>i<n. x \<in> set (f i) \<and> P x \<and> (\<forall>i'<i. \<forall>y \<in> set (f i'). \<not> P y)"
proof (induction n)
  case (Suc n)
  show ?case
  proof (cases "find P (concat (map f [0..<n]))")
    case None
    then have "find P (f n) = Some x" using Suc.prems by (simp add: find_append)
    moreover have "\<forall>i'<n. \<forall>y \<in> set (f i'). \<not> P y" using None by (fastforce simp: find_None_iff)
    ultimately show ?thesis using find_SomeD [of P "f n" x] by blast
  next
    case (Some y)
    then show ?thesis using Suc by (auto simp: find_append intro: less_SucI)
  qed
qed simp

lemma qd_full_get:
  assumes "qd_full fam h qd" "fam_ok fam" "0 \<le> h" "h \<le> 3" "unat c < 2 ^ fam_nbits fam"
  shows "case qd_get qd c of
      None \<Rightarrow> \<forall>i < fam_ncodes fam. \<not> int (hdist c (fam_codes fam ! i)) \<le> h
    | Some e \<Rightarrow> \<exists>i < fam_ncodes fam. int (hdist c (fam_codes fam ! i)) \<le> h \<and>
        (\<forall>i' < i. \<not> int (hdist c (fam_codes fam ! i')) \<le> h) \<and>
        e = qd_entry (c, i, hdist c (fam_codes fam ! i))"
proof -
  let ?P = "\<lambda>t :: u64 \<times> nat \<times> nat. fst t = c"
  have "(\<lambda>e. qe_rcode e = c) \<circ> qd_entry = ?P" by (auto simp: qd_entry_def fun_eq_iff)
  then have g: "qd_get qd c = map_option qd_entry (find ?P (qd_targets fam h))"
    using assms(1) by (simp add: qd_full_def find_map)
  show ?thesis
  proof (cases "find ?P (qd_targets fam h)")
    case None
    have "\<not> int (hdist c (fam_codes fam ! i)) \<le> h" if "i < fam_ncodes fam" for i
      using targets_complete [OF assms(2-4) that assms(5)] None by (auto simp: find_None_iff)
    with None g show ?thesis by simp
  next
    case (Some t)
    then obtain i where i: "i < fam_ncodes fam" "t \<in> set (qd_near (fam_codes fam ! i) i (qd_masks (fam_nbits fam) h))" "?P t"
      and first: "\<forall>i' < i. \<forall>y \<in> set (qd_near (fam_codes fam ! i') i' (qd_masks (fam_nbits fam) h)). \<not> ?P y"
      using find_concat [of ?P "\<lambda>i. qd_near (fam_codes fam ! i) i (qd_masks (fam_nbits fam) h)"]
      unfolding qd_targets_def by blast
    from i(2,3) obtain w where t: "t = (c, i, w)" by (auto simp: qd_near_def)
    have "(c, i, w) \<in> set (qd_targets fam h)" using i(1,2) unfolding t qd_targets_def by auto
    note tf = targets_fit [OF assms(2-4) this]
    have "\<not> int (hdist c (fam_codes fam ! i')) \<le> h" if i': "i' < i" for i'
    proof
      assume "int (hdist c (fam_codes fam ! i')) \<le> h"
      then have "(c, i', hdist c (fam_codes fam ! i')) \<in> set (qd_targets fam h)"
        using targets_complete [OF assms(2-4) _ assms(5)] i' i(1) by simp
      then have "\<exists>y \<in> set (qd_near (fam_codes fam ! i') i' (qd_masks (fam_nbits fam) h)). ?P y"
        unfolding qd_targets_def by (auto simp: qd_near_def split_beta intro!: bexI)
      with first i' show False by blast
    qed
    then show ?thesis using g Some tf t by auto
  qed
qed

lemma quick_decode_rounds_ok:
  assumes full: "qd_full fam h qd" and fam: "fam_ok fam" and h: "0 \<le> h" "h \<le> 3"
    and c: "unat c < 2 ^ fam_nbits fam" and r: "r + n = 4"
    and before: "\<forall>r' < r. \<forall>i. \<not> in_ball fam h r' c i"
  shows "\<exists>e. quick_decode_rounds qd (fam_nbits fam) [r..<4] (rot90s (fam_nbits fam) r c) = Inr e \<and>
    (if \<exists>r<4. \<exists>i. in_ball fam h r c i then \<exists>r<4. \<exists>i. decodes_to fam h c e r i else e = qd_no_entry)"
  using r before
proof (induction n arbitrary: r)
  case 0
  then show ?case by auto
next
  case (Suc n)
  let ?nb = "fam_nbits fam" and ?c = "rot90s (fam_nbits fam) r c"
  have nb: "?nb mod 4 \<le> 1" "?nb < 64" using fam by (simp_all add: fam_ok_def)
  have fit: "unat ?c < 2 ^ ?nb" using rot90s_fits [OF nb c] .
  note get = qd_full_get [OF full fam h fit]
  have inv: "qd_inv qd" "qd_used qd < length (qd_entries qd)" using full by (simp_all add: qd_full_def)
  have upt: "[r..<4] = r # [Suc r..<4]" using Suc.prems(1) by (simp add: upt_rec)
  note step = quick_decode_rounds_Cons [OF inv, of ?nb r "[Suc r..<4]" ?c, folded upt]
  show ?case
  proof (cases "qd_get qd ?c")
    case None
    then have "\<forall>i. \<not> in_ball fam h r c i" using get by (auto simp: in_ball_def)
    then have "\<forall>r' < Suc r. \<forall>i. \<not> in_ball fam h r' c i" using Suc.prems(2) by (auto simp: less_Suc_eq)
    from Suc.IH [OF _ this] Suc.prems(1) show ?thesis using step None by simp
  next
    case (Some e)
    then obtain i where i: "i < fam_ncodes fam" "int (hdist ?c (fam_codes fam ! i)) \<le> h"
        "\<forall>i' < i. \<not> int (hdist ?c (fam_codes fam ! i')) \<le> h" "e = qd_entry (?c, i, hdist ?c (fam_codes fam ! i))" using get by auto
    have "i < 65536" using i(1) fam by (simp add: fam_ok_def)
    then have "unat (of_nat i :: u16) = i" by (simp add: unat_of_nat take_bit_nat_eq_self_iff)
    moreover have "unat (of_nat r :: u8) = r" using Suc.prems(1) by (simp add: unat_of_nat take_bit_nat_eq_self_iff)
    moreover have "hdist ?c (fam_codes fam ! i) < 256" using i(2) h by linarith
    then have "unat (of_nat (hdist ?c (fam_codes fam ! i)) :: u8) = hdist ?c (fam_codes fam ! i)"
      by (simp add: unat_of_nat take_bit_nat_eq_self_iff)
    ultimately have d: "decodes_to fam h c (e\<lparr>qe_rotation := of_nat r\<rparr>) r i"
      using i Suc.prems(2) by (simp add: decodes_to_def in_ball_def qd_entry_def)
    moreover have "in_ball fam h r c i" using i by (simp add: in_ball_def)
    moreover have "r < 4" using Suc.prems(1) by simp
    ultimately show ?thesis using step Some by auto
  qed
qed

text \<open>
  Initialising a family and decoding: a word decodes exactly when one of its rotations is
  within the corrected distance of a tag, and then to the first such tag at the first such rotation.
\<close>

lemma quick_decode_ok:
  assumes "fam_ok fam" "fam_impl fam = None" "0 \<le> h" "h \<le> 3" "qd_fits alloc fam h" "unat c < 2 ^ fam_nbits fam"
  shows "\<exists>fam' e. quick_decode_init alloc fam h = Inr (fam', NoError) \<and> quick_decode_codeword fam' c = Inr e \<and>
    (if \<exists>r<4. \<exists>i. in_ball fam h r c i then \<exists>r<4. \<exists>i. decodes_to fam h c e r i else e = qd_no_entry)"
proof -
  obtain qd where qd: "quick_decode_init alloc fam h = Inr (fam\<lparr>fam_impl := Some qd\<rparr>, NoError)" "qd_full fam h qd"
    using quick_decode_init_full [OF assms(1-5)] .
  show ?thesis
    using quick_decode_rounds_ok [OF qd(2) assms(1,3,4,6), of 0 4] qd(1) by (simp add: quick_decode_codeword_def)
qed

subsection \<open>Families whose codes are far apart\<close>

definition fam_separated :: "apriltag_family \<Rightarrow> nat \<Rightarrow> bool" where
  "fam_separated fam d \<longleftrightarrow> (\<forall>i < fam_ncodes fam. \<forall>j < fam_ncodes fam. \<forall>r < 4. (i \<noteq> j \<or> r \<noteq> 0) \<longrightarrow>
     d \<le> hdist (fam_codes fam ! i) (rot90s (fam_nbits fam) r (fam_codes fam ! j)))"

lemma ball_unique:
  assumes fam: "fam_ok fam" "fam_separated fam d" "2 * h < int d" and c: "unat c < 2 ^ fam_nbits fam"
    and b: "in_ball fam h r c i" "in_ball fam h r' c i'" and r: "r < 4" "r' < 4"
  shows "r = r' \<and> i = i'"
proof -
  let ?nb = "fam_nbits fam" and ?x = "fam_codes fam ! i" and ?y = "fam_codes fam ! i'"
  define s where "s = (if r' \<le> r then r - r' else 4 + r - r')"
  have nb: "?nb mod 4 \<le> 1" "?nb < 64" using fam(1) by (simp_all add: fam_ok_def)
  have i: "i < fam_ncodes fam" "i' < fam_ncodes fam" using b by (simp_all add: in_ball_def)
  have fy: "unat ?y < 2 ^ ?nb" using fam(1) i by (auto simp: fam_ok_def)
  have turn: "rot90s ?nb s (rot90s ?nb r' c) = rot90s ?nb r c"
    using r rot90s_add [of ?nb s r' c] rot90s_add [of ?nb r 4 c] rot90s_4 [OF nb c]
    by (auto simp: s_def add.commute simp del: rot90s_simps split: if_splits)
  have "int (hdist (rot90s ?nb r c) (rot90s ?nb s ?y)) \<le> h"
    using b(2) hdist_rot90s [OF nb rot90s_fits [OF nb c] fy, of s r'] by (simp add: in_ball_def turn)
  moreover have "int (hdist ?x (rot90s ?nb r c)) \<le> h" using b(1) by (simp add: in_ball_def hdist_sym)
  ultimately have "int (hdist ?x (rot90s ?nb s ?y)) < int d"
    using hdist_triangle [of ?x "rot90s ?nb s ?y" "rot90s ?nb r c"] fam(3) by linarith
  moreover have "s < 4" using r by (auto simp: s_def)
  ultimately have "i = i' \<and> s = 0" using fam(2) i unfolding fam_separated_def by force
  then show ?thesis using r by (auto simp: s_def split: if_splits)
qed

lemma decode_separated:
  assumes fam: "fam_ok fam" "fam_impl fam = None" "fam_separated fam d" and h: "0 \<le> h" "h \<le> 3" "2 * h < int d"
    and fits: "qd_fits alloc fam h" and c: "unat c < 2 ^ fam_nbits fam" and ball: "in_ball fam h r c i" "r < 4"
  shows "\<exists>fam' e. quick_decode_init alloc fam h = Inr (fam', NoError) \<and> quick_decode_codeword fam' c = Inr e \<and>
    unat (qe_id e) = i \<and> unat (qe_rotation e) = r \<and>
    unat (qe_hamming e) = hdist (rot90s (fam_nbits fam) r c) (fam_codes fam ! i)"
proof -
  obtain fam' e r' i' where e: "quick_decode_init alloc fam h = Inr (fam', NoError)" "quick_decode_codeword fam' c = Inr e"
      "r' < 4" "decodes_to fam h c e r' i'"
    using quick_decode_ok [OF fam(1,2) h(1,2) fits c] ball(1,2) by (smt (verit, best))
  then have "in_ball fam h r' c i'" by (simp add: decodes_to_def)
  then have "r = r' \<and> i = i'" using ball_unique [OF fam(1,3) h(3) c ball(1) _ ball(2) e(3)] by simp
  then show ?thesis using e by (auto simp: decodes_to_def)
qed

subsection \<open>Properties\<close>

text \<open>C12: For any well-formed family whose table size does not overflow, initialisation with up to three
  corrected bits fills the table without running out of slots, and decoding then answers for every
  word: no entry when no quarter turn of the word is within the corrected distance of a tag, and
  otherwise the first such tag at the first such turn, with the number of wrong bits.\<close>

theorem quick_decode_correct:
  assumes "fam_ok fam" "fam_impl fam = None" "0 \<le> h" "h \<le> 3" "qd_fits alloc fam h" "unat c < 2 ^ fam_nbits fam"
  shows "\<exists>fam' e. quick_decode_init alloc fam h = Inr (fam', NoError) \<and> quick_decode_codeword fam' c = Inr e \<and>
    (if \<exists>r<4. \<exists>i. in_ball fam h r c i then \<exists>r<4. \<exists>i. decodes_to fam h c e r i else e = qd_no_entry)"
  by (rule quick_decode_ok [OF assms])

definition two_codes :: apriltag_family where
  "two_codes = \<lparr>fam_ncodes = 2, fam_codes = [3, 12], fam_width_at_border = 2, fam_total_width = 4, fam_reversed_border = False,
     fam_nbits = 4, fam_bit_x = [0, 1, 1, 0], fam_bit_y = [0, 0, 1, 1], fam_h = 4, fam_name = ''two'', fam_impl = None\<rparr>"

lemma quick_decode_correct_witness:
  "\<exists>fam' e. quick_decode_init (\<lambda>_. True) two_codes 1 = Inr (fam', NoError) \<and> quick_decode_codeword fam' 7 = Inr e \<and>
    (if \<exists>r<4. \<exists>i. in_ball two_codes 1 r 7 i then \<exists>r<4. \<exists>i. decodes_to two_codes 1 7 e r i else e = qd_no_entry)"
  by (rule quick_decode_correct) (simp_all add: two_codes_def fam_ok_def qd_fits_def qd_cap_def Let_def INT_MAX_def)

text \<open>Rotating a word of a family four times gives the word back, keeps it within the family's bits, and
  keeps the Hamming distance between any two words.\<close>

theorem rotate90_correct:
  assumes "nb mod 4 \<le> 1" "nb < 64" "unat a < 2 ^ nb" "unat b < 2 ^ nb"
  shows "rotate90 (rotate90 (rotate90 (rotate90 a nb) nb) nb) nb = a \<and> unat (rotate90 a nb) < 2 ^ nb \<and>
    hdist (rotate90 a nb) (rotate90 b nb) = hdist a b"
  using rot90s_4 [OF assms(1-3)] rotate90_fits [OF assms(1-3)] hdist_rotate90 [OF assms]
  by (simp add: numeral_eq_Suc)

lemma rotate90_correct_witness:
  "rotate90 (rotate90 (rotate90 (rotate90 0x156f1f4 25) 25) 25) 25 = 0x156f1f4 \<and> unat (rotate90 0x156f1f4 25) < 2 ^ 25 \<and>
    hdist (rotate90 0x156f1f4 25) (rotate90 3 25) = hdist 0x156f1f4 3"
  by (rule rotate90_correct) simp_all

end
