(* ===== verification/Families.thy ===== *)
theory Families
  imports QuickDecode
begin

text \<open>
  The tag families of \<open>tag16h5.c\<close>, \<open>tag25h9.c\<close>, \<open>tag36h11.c\<close>, \<open>tag36h10.c\<close> and
  \<open>tagCircle21h7.c\<close>: their tables as the constructors set them up, and the checks, by kernel
  evaluation, that the codes of a family keep the Hamming distance its name promises under
  all rotations. With the decoding theorem this says how many bit errors each family corrects.
\<close>

subsection \<open>The tables\<close>

definition tag16h5_codes :: "u64 list" where
  "tag16h5_codes =
   [0x27c8, 0x31b6, 0x3859, 0x569c, 0x6c76, 0x7ddb, 0xaf09, 0xf5a1,
    0xfb8b, 0x1cb9, 0x28ca, 0xe8dc, 0x1426, 0x5770, 0x9253, 0xb702,
    0x63a, 0x8f34, 0xb4c0, 0x51ec, 0xe6f0, 0x5fa4, 0xdd43, 0x1aaa,
    0xe62f, 0x6dbc, 0xb6eb, 0xde10, 0x154d, 0xb57a]"

definition tag16h5_create :: apriltag_family where
  "tag16h5_create =
     \<lparr>fam_ncodes = 30, fam_codes = tag16h5_codes,
      fam_width_at_border = 6, fam_total_width = 8, fam_reversed_border = False,
      fam_nbits = 16,
      fam_bit_x = [1, 2, 3, 2, 4, 4, 4, 3, 4, 3, 2, 3, 1, 1, 1, 2],
      fam_bit_y = [1, 1, 1, 2, 1, 2, 3, 2, 4, 4, 4, 3, 4, 3, 2, 3],
      fam_h = 5, fam_name = ''tag16h5'', fam_impl = None\<rparr>"

definition tag25h9_codes :: "u64 list" where
  "tag25h9_codes =
   [0x156f1f4, 0x1f28cd5, 0x16ce32c, 0x1ea379c, 0x1390f89, 0x34fad0, 0x7dcdb5, 0x119ba95,
    0x1ae9daa, 0xdf02aa, 0x82fc15, 0x465123, 0xceee98, 0x1f17260, 0x14429cd, 0x17248a8,
    0x16ad452, 0x9670ad, 0x16f65b2, 0xb8322b, 0x5d715b, 0x1a1c7e7, 0xd7890d, 0x1813522,
    0x1c9c611, 0x99e4a4, 0x855234, 0x17b81c0, 0xc294bb, 0x89fae3, 0x44df5f, 0x1360159,
    0xec31e8, 0x1bcc0f6, 0xa64f8d]"

definition tag25h9_create :: apriltag_family where
  "tag25h9_create =
     \<lparr>fam_ncodes = 35, fam_codes = tag25h9_codes,
      fam_width_at_border = 7, fam_total_width = 9, fam_reversed_border = False,
      fam_nbits = 25,
      fam_bit_x = [1, 2, 3, 4, 2, 3, 5, 5, 5, 5, 4, 4, 5, 4, 3, 2, 4, 3, 1, 1, 1, 1, 2, 2, 3],
      fam_bit_y = [1, 1, 1, 1, 2, 2, 1, 2, 3, 4, 2, 3, 5, 5, 5, 5, 4, 4, 5, 4, 3, 2, 4, 3, 3],
      fam_h = 9, fam_name = ''tag25h9'', fam_impl = None\<rparr>"

definition tag36h11_codes :: "u64 list" where
  "tag36h11_codes =
   [0xd7e00984b, 0xdda664ca7, 0xdc4a1c821, 0xe17b470e9, 0xef91d01b1, 0xf429cdd73, 0x5da29225, 0x1106cba43,
    0x223bed79d, 0x21f51213c, 0x33eb19ca6, 0x3f76eb0f8, 0x469a97414, 0x45dcfe0b0, 0x4a6465f72, 0x51801db96,
    0x5eb946b4e, 0x68a7cc2ec, 0x6f0ba2652, 0x78765559d, 0x87b83d129, 0x86cc4a5c5, 0x8b64df90f, 0x9c577b611,
    0xa3810f2f5, 0xaf4d75b83, 0xb59a03fef, 0xbb1096f85, 0xd1b92fc76, 0xd0dd509d2, 0xe2cfda160, 0x2ff497c63,
    0x47240671b, 0x5047a2e55, 0x635ca87c7]"

definition tag36h11_create :: apriltag_family where
  "tag36h11_create =
     \<lparr>fam_ncodes = 35, fam_codes = tag36h11_codes,
      fam_width_at_border = 8, fam_total_width = 10, fam_reversed_border = False,
      fam_nbits = 36,
      fam_bit_x = [1, 2, 3, 4, 5, 2, 3, 4, 3, 6, 6, 6, 6, 6, 5, 5, 5, 4, 6, 5, 4, 3, 2, 5, 4, 3, 4, 1, 1, 1, 1, 1, 2, 2, 2, 3],
      fam_bit_y = [1, 1, 1, 1, 1, 2, 2, 2, 3, 1, 2, 3, 4, 5, 2, 3, 4, 3, 6, 6, 6, 6, 6, 5, 5, 5, 4, 6, 5, 4, 3, 2, 5, 4, 3, 4],
      fam_h = 11, fam_name = ''tag36h11'', fam_impl = None\<rparr>"

definition tag36h10_codes :: "u64 list" where
  "tag36h10_codes =
   [0x1a42f9469, 0x21a48c08d, 0x26dfdbc5d, 0x2d19b78fb, 0x31c5557df, 0x3f2b3d349, 0x3e6d4a7a5, 0x43d6dfb6d,
    0x5688d2aff, 0x54663b474, 0x67fd759e4, 0x73b196d82, 0x7de71c630, 0x8492722d4, 0x835407afa, 0x893a6fe16,
    0x95668d348, 0x9c20e37a4, 0xa19bb676c, 0xad1355c1b, 0xb2ab4ac53, 0xb14f27095, 0xbef6b014d, 0xc9ecbadc7,
    0xe1996a6bd, 0xedc588fcb, 0xf26d9d7a1, 0x35e79c1a, 0x1644f74a8, 0x1bfda85e0, 0x20573db2a, 0x27614bfd6,
    0x2daf26b72, 0x332930a98, 0x3176c5674, 0x3892ad2d0, 0x3fd4d26ac, 0x4b88a1fca, 0x555b6b579, 0x6103880d7,
    0x6045e58fb, 0x6dedf28a3, 0x72766f249, 0x7e4a0c77f, 0x973ba8e61, 0x965fd5285, 0x9d99bd6a9, 0xa221264e6,
    0xa1455fcca, 0xa7cb3193e, 0xaead44d92, 0xad50ac954, 0xb2f0bb19c, 0xcba043aa2, 0xd73d7f6b4, 0xd6d189310,
    0xf41278885, 0x1c45306af, 0x222b4420b, 0x2d70ceeb1, 0x392cb439f, 0x45d1179ee] @ replicate 2258 0"

definition tag36h10_create :: apriltag_family where
  "tag36h10_create =
     \<lparr>fam_ncodes = 2320, fam_codes = tag36h10_codes,
      fam_width_at_border = 8, fam_total_width = 10, fam_reversed_border = False,
      fam_nbits = 36,
      fam_bit_x = [1, 2, 3, 4, 5, 2, 3, 4, 3, 6, 6, 6, 6, 6, 5, 5, 5, 4, 6, 5, 4, 3, 2, 5, 4, 3, 4, 1, 1, 1, 1, 1, 2, 2, 2, 3],
      fam_bit_y = [1, 1, 1, 1, 1, 2, 2, 2, 3, 1, 2, 3, 4, 5, 2, 3, 4, 3, 6, 6, 6, 6, 6, 5, 5, 5, 4, 6, 5, 4, 3, 2, 5, 4, 3, 4],
      fam_h = 10, fam_name = ''tag36h10'', fam_impl = None\<rparr>"

definition tagCircle21h7_codes :: "u64 list" where
  "tagCircle21h7_codes =
   [0x157863, 0x47e28, 0x1383ed, 0x953c, 0xda68b, 0x1cac50, 0xbb215, 0x16ceee,
    0x5d4b3, 0x1ff751, 0xefd16, 0x72b3e, 0x163103, 0x106e56, 0x1996b9, 0xc0234,
    0x624d2, 0x1fa985, 0x344a5, 0x762fb, 0x19e92b, 0x43755, 0x1a4f4, 0x10fad8,
    0x1b52, 0x17e59f, 0xe6f70, 0xed47a, 0xc9931, 0x14df2, 0xa06f1, 0xe5041,
    0x12ec03, 0x16724e, 0xaf1a5, 0x8a8ac, 0x15b39, 0x1ec1e3]"

definition tagCircle21h7_create :: apriltag_family where
  "tagCircle21h7_create =
     \<lparr>fam_ncodes = 38, fam_codes = tagCircle21h7_codes,
      fam_width_at_border = 5, fam_total_width = 9, fam_reversed_border = True,
      fam_nbits = 21,
      fam_bit_x = [1, 2, 3, 1, 2, 6, 6, 6, 3, 3, 3, 2, 1, 3, 2, - 2, - 2, - 2, 1, 1, 2],
      fam_bit_y = [- 2, - 2, - 2, 1, 1, 1, 2, 3, 1, 2, 6, 6, 6, 3, 3, 3, 2, 1, 3, 2, 2],
      fam_h = 7, fam_name = ''tagCircle21h7'', fam_impl = None\<rparr>"

subsection \<open>Codes as bit lists\<close>

text \<open>Distances are evaluated on bit lists, stopping at the distance asked for.\<close>

definition bools :: "nat \<Rightarrow> u64 \<Rightarrow> bool list" where
  "bools n w = map (bit w) [0..<n]"

definition rot_bools :: "nat \<Rightarrow> bool list \<Rightarrow> bool list" where
  "rot_bools n bs = (let l = n mod 4; q = n div 4 in
     take l bs @ drop (l + 3 * q) bs @ take (3 * q) (drop l bs))"

fun apart :: "nat \<Rightarrow> bool list \<Rightarrow> bool list \<Rightarrow> bool" where
  "apart 0 xs ys = True"
| "apart (Suc d) (x # xs) (y # ys) = (if x = y then apart (Suc d) xs ys else apart d xs ys)"
| "apart (Suc d) _ _ = False"

lemma apart_iff: "length xs = length ys \<Longrightarrow> apart d xs ys \<longleftrightarrow> d \<le> length (filter (\<lambda>(x, y). x \<noteq> y) (zip xs ys))"
  by (induction d xs ys rule: apart.induct) auto

lemma apart_hdist:
  assumes "unat a < 2 ^ n" "unat b < 2 ^ n" "n < 64"
  shows "apart d (bools n a) (bools n b) \<longleftrightarrow> d \<le> hdist a b"
proof -
  have x: "bit (a XOR b) = (\<lambda>i. bit a i = (\<not> bit b i))" by (auto simp: fun_eq_iff bit_xor_iff)
  have "length (filter (\<lambda>(x, y). x \<noteq> y) (zip (bools n a) (bools n b))) = length (filter (bit (a XOR b)) [0..<n])"
    unfolding x by (simp add: bools_def zip_map_map filter_map comp_def zip_same_conv_map)
  also have "\<dots> = card (wbits (a XOR b))"
  proof -
    have "wbits (a XOR b) = set (filter (bit (a XOR b)) [0..<n])"
      using fits_xor [OF assms(1,2)] by (auto simp: fits_bits wbits_def)
    then show ?thesis by (simp only: distinct_card distinct_filter distinct_upt)
  qed
  finally show ?thesis by (simp add: apart_iff hdist_def hweight_card bools_def)
qed

lemma bools_rotate90:
  assumes "n mod 4 \<le> 1" "n < 64" "unat w < 2 ^ n"
  shows "bools n (rotate90 w n) = rot_bools n (bools n w)"
proof -
  obtain q l where q: "n div 4 = q" "n mod 4 = l" "n = 4 * q + l" "l \<le> 1"
    and src: "\<And>i. rot_src n i = (if i < l then i else if i < q + l then i + 3 * q else i - q)"
    using assms(1) by (rule rot_src_cases) (rule that)
  show ?thesis
  proof (rule nth_equalityI)
    show len: "length (bools n (rotate90 w n)) = length (rot_bools n (bools n w))"
      using q(3) by (simp add: bools_def rot_bools_def Let_def q(1,2))
    fix i assume "i < length (bools n (rotate90 w n))"
    then have i: "i < n" by (simp add: bools_def)
    have "bools n (rotate90 w n) ! i = bit w (rot_src n i)"
      using i by (simp add: bools_def bit_rotate90 [OF assms])
    moreover have "rot_bools n (bools n w) ! i = bit w (rot_src n i)"
    proof -
      have len: "length (bools n w) = 4 * q + l" using q(3) by (simp add: bools_def)
      have nth: "bools n w ! k = bit w k" if "k < 4 * q + l" for k using that q(3) by (simp add: bools_def)
      have rb: "rot_bools n (bools n w) = take l (bools n w) @ drop (l + 3 * q) (bools n w) @ take (3 * q) (drop l (bools n w))"
        by (simp only: rot_bools_def Let_def q(1,2))
      consider "i < l" | "l \<le> i" "i < q + l" | "q + l \<le> i" "i < 4 * q + l" using i q(3) by linarith
      then show ?thesis
        by cases (simp_all add: rb src nth_append len nth less_diff_conv2 add.commute)
    qed
    ultimately show "bools n (rotate90 w n) ! i = rot_bools n (bools n w) ! i" by simp
  qed
qed

lemma bools_rot90s:
  assumes "n mod 4 \<le> 1" "n < 64" "unat w < 2 ^ n"
  shows "bools n (rot90s n r w) = (rot_bools n ^^ r) (bools n w)"
  using assms by (induction r) (simp_all add: bools_rotate90 rot90s_fits)

subsection \<open>The check\<close>

definition turns :: "nat \<Rightarrow> u64 \<Rightarrow> bool list list" where
  "turns n w = (let b = bools n w; b1 = rot_bools n b; b2 = rot_bools n b1 in [b, b1, b2, rot_bools n b2])"

fun far_all :: "nat \<Rightarrow> bool list list list \<Rightarrow> bool" where
  "far_all d [] = True"
| "far_all d (q # qs) = (list_all (apart d (hd q)) (tl q) \<and> list_all (list_all (apart d (hd q))) qs \<and> far_all d qs)"

lemma turns_nth:
  assumes "n mod 4 \<le> 1" "n < 64" "unat w < 2 ^ n"
  shows "turns n w = map (\<lambda>r. bools n (rot90s n r w)) [0, 1, 2, 3]"
  by (simp add: turns_def Let_def bools_rot90s [OF assms] numeral_eq_Suc)

lemma far_all_iff:
  assumes n: "n mod 4 \<le> 1" "n < 64" and cs: "\<forall>c \<in> set cs. unat c < 2 ^ n"
  shows "far_all d (map (turns n) cs) \<longleftrightarrow>
    (\<forall>i < length cs. \<forall>j < length cs. \<forall>r < 4. i \<le> j \<and> (i \<noteq> j \<or> r \<noteq> 0) \<longrightarrow> d \<le> hdist (cs ! i) (rot90s n r (cs ! j)))"
  using cs
proof (induction cs)
  case (Cons c cs)
  have four: "(\<forall>r < 4. P r) \<longleftrightarrow> P 0 \<and> P (1::nat) \<and> P 2 \<and> P 3" for P
    by (auto simp: numeral_eq_Suc less_Suc_eq)
  have fit: "unat (rot90s n r x) < 2 ^ n" if "x \<in> set (c # cs)" for r x
    using rot90s_fits [OF n] Cons.prems that by blast
  have ap: "apart d (bools n c) (bools n (rot90s n r x)) \<longleftrightarrow> d \<le> hdist c (rot90s n r x)" if "x \<in> set (c # cs)" for r x
    using apart_hdist [OF _ fit [OF that] n(2)] Cons.prems by simp
  have t: "turns n x = map (\<lambda>r. bools n (rot90s n r x)) [0, 1, 2, 3]" if "x \<in> set (c # cs)" for x
    using turns_nth [OF n] Cons.prems that by blast
  have hd: "hd (turns n c) = bools n c" "tl (turns n c) = map (\<lambda>r. bools n (rot90s n r c)) [1, 2, 3]"
    using t [of c] by (simp_all del: rot90s_simps add: rot90s_def)
  have own: "list_all (apart d (hd (turns n c))) (tl (turns n c)) \<longleftrightarrow> (\<forall>r < 4. r \<noteq> 0 \<longrightarrow> d \<le> hdist c (rot90s n r c))"
    using ap [of c] by (simp add: hd four del: rot90s_simps)
  have "list_all (apart d (hd (turns n c))) (turns n x) \<longleftrightarrow> (\<forall>r < 4. d \<le> hdist c (rot90s n r x))"
    if "x \<in> set cs" for x
    using ap [of x] t [of x] that by (simp add: hd four del: rot90s_simps)
  then have oth: "list_all (list_all (apart d (hd (turns n c)))) (map (turns n) cs) \<longleftrightarrow>
      (\<forall>j < length cs. \<forall>r < 4. d \<le> hdist c (rot90s n r (cs ! j)))"
    by (auto simp: list_all_iff all_set_conv_all_nth)
  have "far_all d (map (turns n) (c # cs)) \<longleftrightarrow>
      (\<forall>r < 4. r \<noteq> 0 \<longrightarrow> d \<le> hdist c (rot90s n r c)) \<and> (\<forall>j < length cs. \<forall>r < 4. d \<le> hdist c (rot90s n r (cs ! j))) \<and>
      (\<forall>i < length cs. \<forall>j < length cs. \<forall>r < 4. i \<le> j \<and> (i \<noteq> j \<or> r \<noteq> 0) \<longrightarrow> d \<le> hdist (cs ! i) (rot90s n r (cs ! j)))"
    using Cons.IH Cons.prems own oth by simp
  also have "\<dots> \<longleftrightarrow> (\<forall>i < length (c # cs). \<forall>j < length (c # cs). \<forall>r < 4. i \<le> j \<and> (i \<noteq> j \<or> r \<noteq> 0) \<longrightarrow>
      d \<le> hdist ((c # cs) ! i) (rot90s n r ((c # cs) ! j)))"
    unfolding length_Cons All_less_Suc2 by auto
  finally show ?case .
qed simp

lemma far_all_separated:
  assumes fam: "fam_ok fam" and far: "far_all d (map (turns (fam_nbits fam)) (fam_codes fam))"
  shows "fam_separated fam d"
  unfolding fam_separated_def
proof (intro allI impI)
  fix i j r :: nat
  let ?nb = "fam_nbits fam" and ?cs = "fam_codes fam"
  assume a: "i < fam_ncodes fam" "j < fam_ncodes fam" "r < 4" "i \<noteq> j \<or> r \<noteq> 0"
  have nb: "?nb mod 4 \<le> 1" "?nb < 64" and fit: "\<forall>c \<in> set ?cs. unat c < 2 ^ ?nb" and len: "fam_ncodes fam = length ?cs"
    using fam by (simp_all add: fam_ok_def)
  note all = far_all_iff [OF nb fit, of d, THEN iffD1, OF far, rule_format]
  show "d \<le> hdist (?cs ! i) (rot90s ?nb r (?cs ! j))"
  proof (cases "i \<le> j")
    case True
    then show ?thesis using all [of i j r] a len by simp
  next
    case False
    have c: "unat (?cs ! i) < 2 ^ ?nb" "unat (?cs ! j) < 2 ^ ?nb" using fit a len by simp_all
    show ?thesis
    proof (cases "r = 0")
      case True
      then show ?thesis using all [of j i 0] a len False by (simp add: hdist_sym)
    next
      case r: False
      have "hdist (?cs ! i) (rot90s ?nb r (?cs ! j)) =
          hdist (rot90s ?nb (4 - r) (?cs ! i)) (rot90s ?nb (4 - r) (rot90s ?nb r (?cs ! j)))"
        using hdist_rot90s [OF nb c(1) rot90s_fits [OF nb c(2)]] by simp
      also have "rot90s ?nb (4 - r) (rot90s ?nb r (?cs ! j)) = ?cs ! j"
        using rot90s_add [of ?nb "4 - r" r] rot90s_4 [OF nb c(2)] a(3) by simp
      finally show ?thesis using all [of j i "4 - r"] a len False r by (simp add: hdist_sym)
    qed
  qed
qed

subsection \<open>The families are well formed and keep their distance\<close>

definition codes_ok :: "apriltag_family \<Rightarrow> bool" where
  "codes_ok fam = list_all (\<lambda>c. c < push_bit (fam_nbits fam) 1) (fam_codes fam)"

lemma codes_ok_fits:
  assumes "codes_ok fam" "fam_nbits fam < 64" "c \<in> set (fam_codes fam)"
  shows "unat c < 2 ^ fam_nbits fam"
proof -
  have "c < push_bit (fam_nbits fam) 1" using assms(1,3) by (simp add: codes_ok_def list_all_iff)
  then have "unat c < unat (push_bit (fam_nbits fam) 1 :: u64)" by (simp add: word_less_nat_alt)
  also have "(push_bit (fam_nbits fam) 1 :: u64) = of_nat (2 ^ fam_nbits fam)" by simp
  also have "unat (of_nat (2 ^ fam_nbits fam) :: u64) \<le> 2 ^ fam_nbits fam"
    by (simp only: unsigned_of_nat of_nat_id) (rule take_bit_nat_less_eq_self)
  finally show ?thesis .
qed

lemma codes_ok_fam:
  assumes "codes_ok fam" "fam_nbits fam < 64" "fam_nbits fam mod 4 \<le> 1" "fam_ncodes fam = length (fam_codes fam)"
    "0 < fam_ncodes fam" "fam_ncodes fam < 65536"
  shows "fam_ok fam"
  unfolding fam_ok_def using assms codes_ok_fits [OF assms(1,2)] by blast

lemmas fam_creates = tag16h5_create_def tag25h9_create_def tag36h11_create_def tag36h10_create_def tagCircle21h7_create_def

lemma codes_ok_tables:
  "codes_ok tag16h5_create" "codes_ok tag25h9_create" "codes_ok tag36h11_create" "codes_ok tagCircle21h7_create"
  by code_simp+

lemma codes_ok_tag36h10: "codes_ok tag36h10_create"
  unfolding codes_ok_def tag36h10_create_def tag36h10_codes_def apriltag_family.simps list_all_append
proof
  show "list_all (\<lambda>c. c < push_bit 36 1) (replicate 2258 (0 :: u64))" by (simp add: list_all_iff)
qed code_simp

lemma fam_lengths:
  "length tag16h5_codes = 30" "length tag25h9_codes = 35" "length tag36h11_codes = 35"
  "length tag36h10_codes = 2320" "length tagCircle21h7_codes = 38"
  by (simp_all add: tag16h5_codes_def tag25h9_codes_def tag36h11_codes_def tag36h10_codes_def tagCircle21h7_codes_def)

lemma fam_oks:
  "fam_ok tag16h5_create" "fam_ok tag25h9_create" "fam_ok tag36h11_create" "fam_ok tagCircle21h7_create"
  "fam_ok tag36h10_create"
  by ((rule codes_ok_fam, rule codes_ok_tables codes_ok_tag36h10, simp_all add: fam_creates fam_lengths)[1])+

lemma far_tag16h5: "far_all 5 (map (turns 16) tag16h5_codes)"
  by code_simp

lemma far_tag25h9: "far_all 9 (map (turns 25) tag25h9_codes)"
  by code_simp

lemma far_tag36h11: "far_all 11 (map (turns 36) tag36h11_codes)"
  by code_simp

lemma far_tagCircle21h7: "far_all 7 (map (turns 21) tagCircle21h7_codes)"
  by code_simp

text \<open>The distance the name of the family gives, over all pairs of codes and all rotations.\<close>

lemma fam_distances:
  "fam_separated tag16h5_create 5" "fam_separated tag25h9_create 9" "fam_separated tag36h11_create 11"
  "fam_separated tagCircle21h7_create 7"
  by (rule far_all_separated [OF fam_oks(1)], simp add: far_tag16h5 fam_creates)
    (rule far_all_separated [OF fam_oks(2)], simp add: far_tag25h9 fam_creates,
     rule far_all_separated [OF fam_oks(3)], simp add: far_tag36h11 fam_creates,
     rule far_all_separated [OF fam_oks(4)], simp add: far_tagCircle21h7 fam_creates)

text \<open>The families with the number of bit errors each is decoded with here.\<close>

definition fam_corrected :: "(apriltag_family \<times> nat) list" where
  "fam_corrected = [(tag16h5_create, 2), (tag25h9_create, 3), (tag36h11_create, 3), (tagCircle21h7_create, 3)]"

lemma fam_corrected_ok:
  assumes "(fam, h) \<in> set fam_corrected"
  shows "fam_ok fam" "fam_impl fam = None" "fam_separated fam (fam_h fam)" "h \<le> 3" "2 * h < fam_h fam"
    "int (3 * qd_cap fam (int h)) \<le> INT_MAX"
proof -
  from assms consider "fam = tag16h5_create \<and> h = 2" | "fam = tag25h9_create \<and> h = 3" | "fam = tag36h11_create \<and> h = 3"
    | "fam = tagCircle21h7_create \<and> h = 3" by (auto simp: fam_corrected_def)
  note cs = this
  have H: "fam_h tag16h5_create = 5" "fam_h tag25h9_create = 9" "fam_h tag36h11_create = 11" "fam_h tagCircle21h7_create = 7"
    by (simp_all add: fam_creates)
  from cs show "fam_ok fam" using fam_oks by cases auto
  from cs show "fam_impl fam = None" by cases (auto simp: fam_creates)
  from cs show "fam_separated fam (fam_h fam)" using fam_distances by cases (auto simp: H)
  from cs show "h \<le> 3" by cases auto
  from cs show "2 * h < fam_h fam" by cases (auto simp: H)
  from cs show "int (3 * qd_cap fam (int h)) \<le> INT_MAX"
    by cases (auto simp: fam_creates qd_cap_def Let_def INT_MAX_def)
qed

subsection \<open>What the families correct\<close>

text \<open>C13: A family decoded with the number of bit errors its Hamming distance allows corrects them: any
  observed word that, after some quarter turns, is within that distance of a tag decodes to that
  tag, with that rotation and the exact number of corrected bits.\<close>

theorem families_correct:
  assumes "(fam, h) \<in> set fam_corrected" "alloc (int (3 * qd_cap fam (int h)))" "unat c < 2 ^ fam_nbits fam"
    "r < 4" "i < fam_ncodes fam" "hdist (rot90s (fam_nbits fam) r c) (fam_codes fam ! i) \<le> h"
  shows "\<exists>fam' e. quick_decode_init alloc fam (int h) = Inr (fam', NoError) \<and> quick_decode_codeword fam' c = Inr e \<and>
    unat (qe_id e) = i \<and> unat (qe_rotation e) = r \<and>
    unat (qe_hamming e) = hdist (rot90s (fam_nbits fam) r c) (fam_codes fam ! i)"
proof (rule decode_separated)
  note ok = fam_corrected_ok [OF assms(1)]
  show "fam_ok fam" "fam_impl fam = None" "fam_separated fam (fam_h fam)" by (rule ok)+
  show "0 \<le> int h" "int h \<le> 3" "2 * int h < int (fam_h fam)" using ok by auto
  show "qd_fits alloc fam (int h)" using ok assms(2) by (simp add: qd_fits_def)
  show "in_ball fam (int h) r c i" using assms(5,6) by (simp add: in_ball_def)
qed (use assms in auto)

lemma families_correct_witness:
  "\<exists>fam' e. quick_decode_init (\<lambda>_. True) tag16h5_create (int 2) = Inr (fam', NoError) \<and>
    quick_decode_codeword fam' 0x27cb = Inr e \<and> unat (qe_id e) = 0 \<and> unat (qe_rotation e) = 0 \<and>
    unat (qe_hamming e) = hdist (rot90s (fam_nbits tag16h5_create) 0 0x27cb) (fam_codes tag16h5_create ! 0)"
proof (rule families_correct)
  have d: "hdist 0x27cb 0x27c8 \<le> 2" by code_simp
  have t: "tag16h5_codes ! 0 = 0x27c8" by (simp add: tag16h5_codes_def)
  show "hdist (rot90s (fam_nbits tag16h5_create) 0 0x27cb) (fam_codes tag16h5_create ! 0) \<le> 2"
    using d by (simp add: fam_creates t)
qed (simp_all add: fam_corrected_def fam_creates)

lemma tag36h10_nth:
  "62 \<le> i \<Longrightarrow> i < 2320 \<Longrightarrow> tag36h10_codes ! i = 0"
  "i < 62 \<Longrightarrow> tag36h10_codes ! i \<in> set (take 62 tag36h10_codes)"
proof -
  show "62 \<le> i \<Longrightarrow> i < 2320 \<Longrightarrow> tag36h10_codes ! i = 0" by (simp add: tag36h10_codes_def nth_append)
  show "i < 62 \<Longrightarrow> tag36h10_codes ! i \<in> set (take 62 tag36h10_codes)"
    using nth_mem [of i "take 62 tag36h10_codes"] by (simp add: fam_lengths)
qed

lemma tag36h10_far: "list_all (\<lambda>c. apart 3 (bools 36 0) (bools 36 c)) (take 62 tag36h10_codes)"
  by (simp add: tag36h10_codes_def) code_simp

text \<open>The table of tag36h10 declares 2320 codes and lists 62; the rest are zero. The zero word therefore
  decodes as tag 62, and no word ever decodes as one of the tags from 63 on.\<close>

lemma tag36h10_truncated:
  assumes "alloc (int (3 * qd_cap tag36h10_create 2))" "unat c < 2 ^ 36"
  shows "\<exists>fam' e. quick_decode_init alloc tag36h10_create 2 = Inr (fam', NoError) \<and> quick_decode_codeword fam' c = Inr e \<and>
    (e = qd_no_entry \<or> unat (qe_id e) \<le> 62) \<and> (c = 0 \<longrightarrow> unat (qe_id e) = 62)"
proof -
  let ?f = tag36h10_create
  have f: "fam_nbits ?f = 36" "fam_codes ?f = tag36h10_codes" "fam_ncodes ?f = 2320" "fam_impl ?f = None"
    by (simp_all add: fam_creates)
  have fits: "qd_fits alloc ?f 2"
    using assms(1) by (simp add: qd_fits_def qd_cap_def Let_def f INT_MAX_def)
  obtain fam' e where e: "quick_decode_init alloc ?f 2 = Inr (fam', NoError)" "quick_decode_codeword fam' c = Inr e"
      "if \<exists>r<4. \<exists>i. in_ball ?f 2 r c i then \<exists>r<4. \<exists>i. decodes_to ?f 2 c e r i else e = qd_no_entry"
    using quick_decode_ok [OF fam_oks(5) f(4) _ _ fits, of c] assms(2) f(1) by auto
  have low: "i \<le> 62" if d: "decodes_to ?f 2 c e r i" for r i
  proof (rule ccontr)
    assume "\<not> i \<le> 62"
    moreover have "in_ball ?f 2 r c i" using d by (simp add: decodes_to_def)
    ultimately have "in_ball ?f 2 r c 62" using tag36h10_nth(1) [of i] tag36h10_nth(1) [of 62]
      by (simp add: in_ball_def f)
    then show False using d \<open>\<not> i \<le> 62\<close> by (simp add: decodes_to_def)
  qed
  have "unat (qe_id e) = 62" if "c = 0"
  proof -
    have z: "rot90s 36 r 0 = 0" for r by (induction r) (simp_all add: rotate90_def)
    have "in_ball ?f 2 0 c 62" using that tag36h10_nth(1) [of 62] by (simp add: in_ball_def f hdist_def hweight_def)
    then obtain r i where d: "decodes_to ?f 2 c e r i" using e(3) by (auto split: if_splits)
    have far: "3 \<le> hdist 0 (tag36h10_codes ! k)" if k: "k < 62" for k
    proof -
      have "apart 3 (bools 36 0) (bools 36 (tag36h10_codes ! k))"
        using tag36h10_far tag36h10_nth(2) [OF k] unfolding list_all_iff by blast
      moreover have "unat (tag36h10_codes ! k) < 2 ^ 36"
        using fam_oks(5) k f by (simp add: fam_ok_def)
      ultimately show ?thesis using apart_hdist [of 0 36 "tag36h10_codes ! k" 3] by simp
    qed
    have "hdist 0 (tag36h10_codes ! i) \<le> 2" using d that z by (simp add: decodes_to_def in_ball_def f)
    then have "\<not> i < 62" using far [of i] by linarith
    then show ?thesis using low [OF d] d by (simp add: decodes_to_def)
  qed
  moreover have "e = qd_no_entry \<or> unat (qe_id e) \<le> 62"
  proof (cases "\<exists>r<4. \<exists>i. in_ball ?f 2 r c i")
    case True
    then obtain r i where d: "decodes_to ?f 2 c e r i" using e(3) by auto
    then show ?thesis using low [OF d] by (simp add: decodes_to_def)
  next
    case False
    then show ?thesis using e(3) by simp
  qed
  ultimately show ?thesis using e(1,2) by blast
qed

end
