(* ===== verification/Components.thy ===== *)
theory Components
  imports UnionFind "HOL-Library.Multiset"
begin

text \<open>
  Images and the connected components of the thresholded image, \<open>connected_components\<close> of
  \<open>apriltag_quad_thresh.c\<close>: 255 is white, 0 is black and 127 is left out. Each pixel of the
  columns 1 to \<open>w - 2\<close> is joined with its equal neighbours to the left and above; joins that earlier ones
  imply are skipped. The specification is the adjacency of pixels, 4-connected for black and
  8-connected for white. Images are below 2 GiB, so that \<open>y * stride + x\<close> does not overflow.
\<close>

record image_u8 =
  im_width :: int
  im_height :: int
  im_stride :: int
  im_buf :: bytes

definition imin :: "int \<Rightarrow> int \<Rightarrow> int" where
  "imin a b = (if a < b then a else b)"

text \<open>\<open>if (im->buf[(y + dy)*s + x + dx] == v) unionfind_connect(uf, y*w + x, (y + dy)*w + x + dx)\<close>\<close>

definition DO_UNIONFIND2 :: "image_u8 \<Rightarrow> int \<Rightarrow> int \<Rightarrow> int \<Rightarrow> int \<Rightarrow> u8 \<Rightarrow> int \<Rightarrow> int \<Rightarrow> unionfind \<Rightarrow> cerr + unionfind" where
  "DO_UNIONFIND2 im w s y x v dx dy uf =
     bindE (vget (im_buf im) ((y + dy) * s + x + dx)) (\<lambda>u.
     if u = v
     then bindE (unionfind_connect uf (nat (y * w + x)) (nat ((y + dy) * w + x + dx))) (\<lambda>(uf, _). Inr uf)
     else Inr uf)"

definition do_unionfind_first_line :: "unionfind \<Rightarrow> image_u8 \<Rightarrow> int \<Rightarrow> int \<Rightarrow> cerr + unionfind" where
  "do_unionfind_first_line uf im w s =
     foldE (\<lambda>uf x.
       bindE (vget (im_buf im) (0 * s + x)) (\<lambda>v.
       if v = 127 then Inr uf else DO_UNIONFIND2 im w s 0 x v (- 1) 0 uf)) [1..w - 2] uf"

text \<open>
  One pixel of \<open>do_unionfind_line2\<close>. The loop carries the forest and the values above, above to the
  right of and at the previous pixel.
\<close>

definition line2_step ::
  "image_u8 \<Rightarrow> int \<Rightarrow> int \<Rightarrow> int \<Rightarrow> unionfind \<times> u8 \<times> u8 \<times> u8 \<Rightarrow> int \<Rightarrow> cerr + unionfind \<times> u8 \<times> u8 \<times> u8" where
  "line2_step im w s y = (\<lambda>(uf, v_0_m1, v_1_m1, v) x.
     let v_m1_m1 = v_0_m1; v_0_m1 = v_1_m1 in
     bindE (vget (im_buf im) ((y - 1) * s + x + 1)) (\<lambda>v_1_m1.
     let v_m1_0 = v in
     bindE (vget (im_buf im) (y * s + x)) (\<lambda>v.
     if v = 127 then Inr (uf, v_0_m1, v_1_m1, v)
     else
       bindE (DO_UNIONFIND2 im w s y x v (- 1) 0 uf) (\<lambda>uf.
       bindE (if x = 1 \<or> \<not> (v_m1_0 = v_m1_m1 \<and> v_m1_m1 = v_0_m1)
              then DO_UNIONFIND2 im w s y x v 0 (- 1) uf else Inr uf) (\<lambda>uf.
       bindE (if v = 255
              then bindE (if x = 1 \<or> \<not> (v_m1_0 = v_m1_m1 \<or> v_0_m1 = v_m1_m1)
                          then DO_UNIONFIND2 im w s y x v (- 1) (- 1) uf else Inr uf) (\<lambda>uf.
                   if \<not> v_0_m1 = v_1_m1 then DO_UNIONFIND2 im w s y x v 1 (- 1) uf else Inr uf)
              else Inr uf) (\<lambda>uf.
       Inr (uf, v_0_m1, v_1_m1, v)))))))"

definition do_unionfind_line2 :: "unionfind \<Rightarrow> image_u8 \<Rightarrow> int \<Rightarrow> int \<Rightarrow> int \<Rightarrow> cerr + unionfind" where
  "do_unionfind_line2 uf im w s y =
     bindE (assertE (0 < y)) (\<lambda>_.
     bindE (vget (im_buf im) ((y - 1) * s)) (\<lambda>v_0_m1.
     bindE (vget (im_buf im) ((y - 1) * s + 1)) (\<lambda>v_1_m1.
     bindE (vget (im_buf im) (y * s)) (\<lambda>v.
     bindE (foldE (line2_step im w s y) [1..w - 2] (uf, v_0_m1, v_1_m1, v)) (\<lambda>(uf, _).
     Inr uf)))))"

record unionfind_task =
  ut_y0 :: int
  ut_y1 :: int

definition do_unionfind_task2 :: "image_u8 \<Rightarrow> int \<Rightarrow> int \<Rightarrow> unionfind_task \<Rightarrow> unionfind \<Rightarrow> cerr + unionfind" where
  "do_unionfind_task2 im w s task uf =
     foldE (\<lambda>uf y. do_unionfind_line2 uf im w s y) [ut_y0 task..ut_y1 task - 1] uf"

definition APRILTAG_TASKS_PER_THREAD_TARGET :: int where
  "APRILTAG_TASKS_PER_THREAD_TARGET = 10"

text \<open>The tasks: \<open>for (i = 1; i < sz; i += chunksize)\<close>.\<close>

function uf_tasks :: "int \<Rightarrow> int \<Rightarrow> int \<Rightarrow> unionfind_task list" where
  "uf_tasks sz chunksize i =
     (if i < sz \<and> 0 < chunksize
      then \<lparr>ut_y0 = i, ut_y1 = imin sz (i + chunksize - 1)\<rparr> # uf_tasks sz chunksize (i + chunksize) else [])"
  by pat_completeness auto
termination
  by (relation "measure (\<lambda>(sz, chunksize, i). nat (sz - i))") auto

declare uf_tasks.simps [simp del]

text \<open>
  \<open>sched\<close> is the order in which the worker pool runs the tasks; as they touch disjoint rows of the
  forest, an interleaving amounts to some order.
\<close>

definition connected_components ::
  "int \<Rightarrow> (unionfind_task list \<Rightarrow> unionfind_task list) \<Rightarrow> image_u8 \<Rightarrow> int \<Rightarrow> int \<Rightarrow> int \<Rightarrow> cerr + unionfind" where
  "connected_components nthreads sched threshim w h ts =
     (let uf = unionfind_create (nat (w * h)) in
      if nthreads \<le> 1
      then bindE (do_unionfind_first_line uf threshim w ts)
             (foldE (\<lambda>uf y. do_unionfind_line2 uf threshim w ts y) [1..h - 1])
      else
        bindE (do_unionfind_first_line uf threshim w ts) (\<lambda>uf.
        let sz = h;
            chunksize = 1 + sz div (APRILTAG_TASKS_PER_THREAD_TARGET * nthreads);
            tasks = uf_tasks sz chunksize 1
        in bindE (foldE (\<lambda>uf t. do_unionfind_task2 threshim w ts t uf) (sched tasks) uf) (\<lambda>uf.
           foldE (\<lambda>uf t. do_unionfind_line2 uf threshim w ts (ut_y0 t - 1)) (tl tasks) uf)))"

subsection \<open>The joins as a list of edges\<close>

text \<open>The colour of a pixel and its node, and the joins the code makes at a pixel.\<close>

definition col :: "image_u8 \<Rightarrow> nat \<Rightarrow> nat \<Rightarrow> u8" where
  "col im x y = im_buf im ! (y * nat (im_stride im) + x)"

definition node :: "nat \<Rightarrow> nat \<Rightarrow> nat \<Rightarrow> nat" where
  "node w x y = y * w + x"

text \<open>The bounds of an image of which the first \<open>w\<close> columns and \<open>h\<close> rows are looked at.\<close>

definition im_ok :: "image_u8 \<Rightarrow> nat \<Rightarrow> nat \<Rightarrow> bool" where
  "im_ok im w h \<longleftrightarrow> 2 \<le> w \<and> 1 \<le> h \<and> int w \<le> im_stride im \<and> h * nat (im_stride im) \<le> length (im_buf im) \<and> h * nat (im_stride im) < 2 ^ 31"

lemma im_index:
  assumes "im_ok im w h" "x < w" "y < h"
  shows "y * nat (im_stride im) + x < length (im_buf im)"
proof -
  have "x < nat (im_stride im)" using assms(1,2) unfolding im_ok_def by linarith
  then have "y * nat (im_stride im) + x < Suc y * nat (im_stride im)" by simp
  also have "\<dots> \<le> h * nat (im_stride im)" using assms(3) by (intro mult_le_mono1) simp
  finally show ?thesis using assms(1) by (simp add: im_ok_def)
qed

lemma im_get:
  assumes "im_ok im w h" "x < w" "y < h"
  shows "vget (im_buf im) (int y * im_stride im + int x) = Inr (col im x y)"
proof -
  have "int y * im_stride im + int x = int (y * nat (im_stride im) + x)" using assms(1) by (simp add: im_ok_def)
  then show ?thesis using vget_ok [OF im_index [OF assms]] by (simp only: col_def)
qed

definition join :: "image_u8 \<Rightarrow> nat \<Rightarrow> nat \<Rightarrow> nat \<Rightarrow> nat \<Rightarrow> nat \<Rightarrow> (nat \<times> nat) list" where
  "join im w x y x' y' = (if col im x' y' = col im x y then [(node w x y, node w x' y')] else [])"

lemma do_unionfind2_join:
  assumes "im_ok im w h" "x' < w" "y' < h" "int x' = int x + dx" "int y' = int y + dy"
  shows "DO_UNIONFIND2 im (int w) (im_stride im) (int y) (int x) (col im x y) dx dy uf = foldE connect_step (join im w x y x' y') uf"
proof -
  have "(int y + dy) * im_stride im + int x + dx = int y' * im_stride im + int x'" using assms(4,5) by simp
  then have g: "vget (im_buf im) ((int y + dy) * im_stride im + int x + dx) = Inr (col im x' y')"
    using im_get [OF assms(1-3)] by simp
  have "nat (int y * int w + int x) = node w x y" by (simp add: node_def nat_eq_iff)
  moreover have "(int y + dy) * int w + int x + dx = int (node w x' y')" using assms(4,5) by (simp add: node_def)
  then have "nat ((int y + dy) * int w + int x + dx) = node w x' y'" by (simp only: nat_int)
  ultimately show ?thesis using g
    by (cases "unionfind_connect uf (node w x y) (node w x' y')") (auto simp: DO_UNIONFIND2_def join_def connect_step_def)
qed

definition row0_edges :: "image_u8 \<Rightarrow> nat \<Rightarrow> nat \<Rightarrow> (nat \<times> nat) list" where
  "row0_edges im w x = (if col im x 0 = 127 then [] else join im w x 0 (x - 1) 0)"

definition row_edges :: "image_u8 \<Rightarrow> nat \<Rightarrow> nat \<Rightarrow> nat \<Rightarrow> (nat \<times> nat) list" where
  "row_edges im w y x =
     (if col im x y = 127 then []
      else join im w x y (x - 1) y @
        (if x = 1 \<or> \<not> (col im (x - 1) y = col im (x - 1) (y - 1) \<and> col im (x - 1) (y - 1) = col im x (y - 1))
         then join im w x y x (y - 1) else []) @
        (if col im x y = 255
         then (if x = 1 \<or> \<not> (col im (x - 1) y = col im (x - 1) (y - 1) \<or> col im x (y - 1) = col im (x - 1) (y - 1))
               then join im w x y (x - 1) (y - 1) else []) @
           (if col im x (y - 1) \<noteq> col im (x + 1) (y - 1) then join im w x y (x + 1) (y - 1) else [])
         else []))"

lemma map_int_upt: "map int [a..<b] = [int a..int b - 1]"
  by (induction b) (auto simp: upto_rec2)

lemma int_upto: "[1..int w - 2] = map int [1..<w - 1]"
  by (cases "1 \<le> w") (simp_all add: map_int_upt of_nat_diff)

lemma first_line_edges:
  assumes "im_ok im w h"
  shows "do_unionfind_first_line uf im (int w) (im_stride im) = foldE connect_step (concat (map (row0_edges im w) [1..<w - 1])) uf"
proof -
  have "bindE (vget (im_buf im) (0 * im_stride im + int x)) (\<lambda>v. if v = 127 then Inr uf
      else DO_UNIONFIND2 im (int w) (im_stride im) 0 (int x) v (- 1) 0 uf) = foldE connect_step (row0_edges im w x) uf"
    if "x \<in> set [1..<w - 1]" for x uf
  proof -
    have x: "x < w" "x - 1 < w" "int (x - 1) = int x + - 1" using that by auto
    have h: "0 < h" using assms by (simp add: im_ok_def)
    show ?thesis using im_get [OF assms x(1) h] do_unionfind2_join [OF assms x(2) h x(3), of 0 0 uf]
      by (simp add: row0_edges_def)
  qed
  then have "foldE (\<lambda>uf x. bindE (vget (im_buf im) (0 * im_stride im + int x)) (\<lambda>v. if v = 127 then Inr uf
      else DO_UNIONFIND2 im (int w) (im_stride im) 0 (int x) v (- 1) 0 uf)) xs uf =
      foldE connect_step (concat (map (row0_edges im w) xs)) uf" if "set xs \<subseteq> set [1..<w - 1]" for xs
    using that by (induction xs arbitrary: uf) (auto simp: foldE_append intro!: bindE_cong)
  then show ?thesis by (simp add: do_unionfind_first_line_def int_upto foldE_map)
qed

text \<open>The values the loop carries are the colours around the pixel.\<close>

lemma line2_step_edges:
  assumes ok: "im_ok im w h" and y: "1 \<le> y" "y < h" and x: "1 \<le> x" "x < w - 1"
  shows "line2_step im (int w) (im_stride im) (int y) (uf, col im (x - 1) (y - 1), col im x (y - 1), col im (x - 1) y) (int x) =
    bindE (foldE connect_step (row_edges im w y x) uf) (\<lambda>uf. Inr (uf, col im x (y - 1), col im (x + 1) (y - 1), col im x y))"
proof -
  have ix: "x < w" "x - 1 < w" "x + 1 < w" "y - 1 < h" using x y by auto
  have "int y - 1 = int (y - 1)" using y by simp
  then have g: "vget (im_buf im) ((int y - 1) * im_stride im + int x + 1) = Inr (col im (x + 1) (y - 1))"
    using im_get [OF ok ix(3,4)] by (simp only: of_nat_add of_nat_1 add.assoc)
  have d: "DO_UNIONFIND2 im (int w) (im_stride im) (int y) (int x) (col im x y) (- 1) 0 uf = foldE connect_step (join im w x y (x - 1) y) uf"
    "DO_UNIONFIND2 im (int w) (im_stride im) (int y) (int x) (col im x y) 0 (- 1) uf = foldE connect_step (join im w x y x (y - 1)) uf"
    "DO_UNIONFIND2 im (int w) (im_stride im) (int y) (int x) (col im x y) (- 1) (- 1) uf = foldE connect_step (join im w x y (x - 1) (y - 1)) uf"
    "DO_UNIONFIND2 im (int w) (im_stride im) (int y) (int x) (col im x y) 1 (- 1) uf = foldE connect_step (join im w x y (x + 1) (y - 1)) uf"
    for uf
    using x y ix by (auto intro!: do_unionfind2_join [OF ok])
  have one: "int x = 1 \<longleftrightarrow> x = 1" by simp
  show ?thesis
    unfolding line2_step_def row_edges_def prod.case Let_def g im_get [OF ok ix(1) y(2)] bindE.simps d one
    by (simp add: foldE_append bindE_assoc)
qed

lemma line2_edges:
  assumes ok: "im_ok im w h" and y: "1 \<le> y" "y < h"
  shows "do_unionfind_line2 uf im (int w) (im_stride im) (int y) = foldE connect_step (concat (map (row_edges im w y) [1..<w - 1])) uf"
proof -
  have w: "2 \<le> w" using ok by (simp add: im_ok_def)
  have "foldE (line2_step im (int w) (im_stride im) (int y)) (map int [1..<n]) (uf, col im 0 (y - 1), col im 1 (y - 1), col im 0 y) =
      bindE (foldE connect_step (concat (map (row_edges im w y) [1..<n])) uf)
        (\<lambda>uf. Inr (uf, col im (n - 1) (y - 1), col im n (y - 1), col im (n - 1) y))" if "1 \<le> n" "n \<le> w - 1" for n
    using that
  proof (induction n rule: dec_induct)
    case base
    then show ?case by simp
  next
    case (step n)
    then have "[1..<Suc n] = [1..<n] @ [n]" by simp
    moreover have "1 \<le> n" "n < w - 1" using step by auto
    note line2_step_edges [OF ok y this]
    ultimately show ?case using step by (simp add: foldE_append bindE_assoc)
  qed
  from this [of "w - 1"] w have "foldE (line2_step im (int w) (im_stride im) (int y)) [1..int w - 2]
      (uf, col im 0 (y - 1), col im 1 (y - 1), col im 0 y) =
      bindE (foldE connect_step (concat (map (row_edges im w y) [1..<w - 1])) uf)
        (\<lambda>uf. Inr (uf, col im (w - 1 - 1) (y - 1), col im (w - 1) (y - 1), col im (w - 1 - 1) y))"
    by (simp add: int_upto)
  moreover have "vget (im_buf im) ((int y - 1) * im_stride im) = Inr (col im 0 (y - 1))"
    "vget (im_buf im) ((int y - 1) * im_stride im + 1) = Inr (col im 1 (y - 1))"
    "vget (im_buf im) (int y * im_stride im) = Inr (col im 0 y)"
    using im_get [OF ok, of 0 "y - 1"] im_get [OF ok, of 1 "y - 1"] im_get [OF ok, of 0 y] w y by (simp_all add: of_nat_diff)
  ultimately show ?thesis using y by (simp add: do_unionfind_line2_def bindE_assoc)
qed

definition rows_edges :: "image_u8 \<Rightarrow> nat \<Rightarrow> nat list \<Rightarrow> (nat \<times> nat) list" where
  "rows_edges im w rows = concat (map (\<lambda>y. concat (map (row_edges im w y) [1..<w - 1])) rows)"

definition uf_edges :: "image_u8 \<Rightarrow> nat \<Rightarrow> nat list \<Rightarrow> (nat \<times> nat) list" where
  "uf_edges im w rows = concat (map (row0_edges im w) [1..<w - 1]) @ rows_edges im w rows"

lemma rows_edges_simps [simp]:
  "rows_edges im w [] = []"
  "rows_edges im w (y # ys) = concat (map (row_edges im w y) [1..<w - 1]) @ rows_edges im w ys"
  "rows_edges im w (ys @ zs) = rows_edges im w ys @ rows_edges im w zs"
  by (simp_all add: rows_edges_def)

lemma rows_fold:
  assumes "im_ok im w h" "set rows \<subseteq> {1..<h}"
  shows "foldE (\<lambda>uf y. do_unionfind_line2 uf im (int w) (im_stride im) y) (map int rows) uf = foldE connect_step (rows_edges im w rows) uf"
  using assms(2) by (induction rows arbitrary: uf) (auto simp: foldE_append line2_edges [OF assms(1)] intro!: bindE_cong)

subsection \<open>The rows the tasks cover\<close>

lemma uf_tasks_set:
  "t \<in> set (uf_tasks sz c i) \<longleftrightarrow>
     (\<exists>k::nat. 0 < c \<and> ut_y0 t = i + int k * c \<and> i + int k * c < sz \<and> ut_y1 t = imin sz (i + int k * c + c - 1))"
proof (induction sz c i rule: uf_tasks.induct)
  case (1 sz c i)
  let ?Q = "\<lambda>k::nat. ut_y0 t = i + int k * c \<and> i + int k * c < sz \<and> ut_y1 t = imin sz (i + int k * c + c - 1)"
  have split: "(\<exists>k. ?Q k) \<longleftrightarrow> ?Q 0 \<or> (\<exists>k. ?Q (Suc k))" by (metis not0_implies_Suc)
  have t: "t = \<lparr>ut_y0 = a, ut_y1 = b\<rparr> \<longleftrightarrow> ut_y0 t = a \<and> ut_y1 t = b" for a b by (cases t) simp
  show ?case
  proof (cases "i < sz \<and> 0 < c")
    case True
    then have "t \<in> set (uf_tasks sz c (i + c)) \<longleftrightarrow> (\<exists>k. ?Q (Suc k))"
      using 1 [OF True] by (simp add: algebra_simps)
    then have "t \<in> set (uf_tasks sz c i) \<longleftrightarrow> ?Q 0 \<or> (\<exists>k. ?Q (Suc k))"
      using True t by (subst uf_tasks.simps) simp
    then show ?thesis using split True by blast
  next
    case False
    moreover have "\<not> i + int k * c < sz" if "0 < c" "\<not> i < sz" for k using that by (simp add: add_nonneg_nonneg not_less add_increasing2)
    ultimately show ?thesis by (subst uf_tasks.simps) auto
  qed
qed

definition task_rows :: "unionfind_task \<Rightarrow> nat list" where
  "task_rows t = [nat (ut_y0 t)..<nat (ut_y1 t)]"

definition pool_rows :: "unionfind_task list \<Rightarrow> unionfind_task list \<Rightarrow> nat list" where
  "pool_rows ts stitch = concat (map task_rows ts) @ map (\<lambda>t. nat (ut_y0 t - 1)) stitch"

lemma rows_cover:
  assumes "0 < c"
  shows "(\<exists>k::nat. 1 + k * c < h \<and> 1 + k * c \<le> y \<and> y < h \<and> y < k * c + c) \<or> (\<exists>k::nat. 1 + c + k * c < h \<and> y = c + k * c) \<longleftrightarrow>
    1 \<le> y \<and> y < h \<and> \<not> (y + 1 = h \<and> c dvd y)" (is "?a \<or> ?b \<longleftrightarrow> ?c")
proof
  assume "?a \<or> ?b"
  then show ?c
  proof
    assume ?a
    then obtain k where k: "1 + k * c \<le> y" "y < h" "y < k * c + c" by blast
    have "\<not> c dvd y"
    proof
      assume "c dvd y"
      then obtain m where "y = c * m" by blast
      then have "k * c < m * c" "m * c < Suc k * c" using k by (simp_all only: mult.commute [of c m] mult_Suc)
      then show False by (simp only: mult_less_cancel2) linarith
    qed
    then show ?c using k by auto
  next
    assume ?b
    then show ?c using assms by auto
  qed
next
  assume c: ?c
  have dm: "y div c * c + y mod c = y" by simp
  show "?a \<or> ?b"
  proof (cases "c dvd y")
    case True
    then obtain k where "y = c * Suc k" using c by (metis One_nat_def dvd_def mult_0_right not0_implies_Suc not_one_le_zero)
    then have "1 + c + k * c < h \<and> y = c + k * c" using c True by (auto simp: algebra_simps)
    then show ?thesis by blast
  next
    case False
    then have "0 < y mod c" by (simp add: mod_greater_zero_iff_not_dvd)
    moreover have "y mod c < c" using assms by simp
    ultimately have "1 + y div c * c < h \<and> 1 + y div c * c \<le> y \<and> y < h \<and> y < y div c * c + c" using dm c by linarith
    then show ?thesis by blast
  qed
qed

lemma pool_rows_set:
  assumes h: "1 \<le> h" and c: "0 < c" and ts: "set ts = set (uf_tasks (int h) (int c) 1)"
  shows "set (pool_rows ts (tl (uf_tasks (int h) (int c) 1))) = {y. 1 \<le> y \<and> y < h \<and> \<not> (y + 1 = h \<and> c dvd y)}"
proof -
  have tl: "set (tl (uf_tasks (int h) (int c) 1)) = set (uf_tasks (int h) (int c) (1 + int c))"
  proof (cases "1 < h")
    case False
    then have "uf_tasks (int h) (int c) 1 = []" "uf_tasks (int h) (int c) (1 + int c) = []"
      by (subst uf_tasks.simps; simp)+
    then show ?thesis by simp
  qed (use c in \<open>subst uf_tasks.simps, simp\<close>)
  have t1: "t \<in> set (uf_tasks (int h) (int c) 1) \<longleftrightarrow>
      (\<exists>k::nat. ut_y0 t = int (1 + k * c) \<and> 1 + k * c < h \<and> ut_y1 t = imin (int h) (int (k * c + c)))" for t
    using c by (simp add: uf_tasks_set) (simp flip: of_nat_mult of_nat_add of_nat_Suc add: algebra_simps)
  have t2: "t \<in> set (uf_tasks (int h) (int c) (1 + int c)) \<longleftrightarrow>
      (\<exists>k::nat. ut_y0 t = int (1 + c + k * c) \<and> 1 + c + k * c < h \<and> ut_y1 t = imin (int h) (int (c + k * c + c)))" for t
    using c by (simp add: uf_tasks_set) (simp flip: of_nat_mult of_nat_add of_nat_Suc add: algebra_simps)
  have ex: "(\<exists>t. (\<exists>k::nat. ut_y0 t = f k \<and> P k \<and> ut_y1 t = g k) \<and> Q (ut_y0 t) (ut_y1 t)) \<longleftrightarrow> (\<exists>k. P k \<and> Q (f k) (g k))" for f g :: "nat \<Rightarrow> int" and P Q
  proof
    assume "\<exists>k. P k \<and> Q (f k) (g k)"
    then obtain k where "P k" "Q (f k) (g k)" by blast
    then show "\<exists>t. (\<exists>k. ut_y0 t = f k \<and> P k \<and> ut_y1 t = g k) \<and> Q (ut_y0 t) (ut_y1 t)"
      by (metis unionfind_task.select_convs)
  qed metis
  have "y \<in> set (pool_rows ts (tl (uf_tasks (int h) (int c) 1))) \<longleftrightarrow>
      (\<exists>t. t \<in> set (uf_tasks (int h) (int c) 1) \<and> nat (ut_y0 t) \<le> y \<and> y < nat (ut_y1 t)) \<or>
      (\<exists>t. t \<in> set (uf_tasks (int h) (int c) (1 + int c)) \<and> y = nat (ut_y0 t - 1))" for y
    by (auto simp: pool_rows_def task_rows_def ts tl)
  also have "\<dots> y \<longleftrightarrow> (\<exists>k::nat. 1 + k * c < h \<and> 1 + k * c \<le> y \<and> y < h \<and> y < k * c + c) \<or> (\<exists>k::nat. 1 + c + k * c < h \<and> y = c + k * c)" for y
  proof -
    have im: "nat (imin (int h) (int a)) = min h a" and s1: "nat (int (1 + c + a) - 1) = c + a" for a by (simp_all add: imin_def)
    show ?thesis
      unfolding t1 t2 ex [of _ _ _ "\<lambda>a b. nat a \<le> y \<and> y < nat b"] ex [of _ _ _ "\<lambda>a b. y = nat (a - 1)"]
        im s1 nat_int min_less_iff_conj by blast
  qed
  finally show ?thesis unfolding rows_cover [OF c] by blast
qed

subsection \<open>The edges link exactly the adjacent pixels\<close>

definition interior :: "nat \<Rightarrow> nat \<Rightarrow> nat \<times> nat \<Rightarrow> bool" where
  "interior w h = (\<lambda>(x, y). 1 \<le> x \<and> x < w - 1 \<and> y < h)"

definition linked :: "image_u8 \<Rightarrow> nat \<times> nat \<Rightarrow> nat \<times> nat \<Rightarrow> bool" where
  "linked im = (\<lambda>(x, y) (x', y').
     col im x y = col im x' y' \<and> col im x y \<noteq> 127 \<and>
     (let dx = x = x' + 1 \<or> x' = x + 1; dy = y = y' + 1 \<or> y' = y + 1
      in dx \<and> y = y' \<or> dy \<and> x = x' \<or> col im x y = 255 \<and> dx \<and> dy))"

definition links :: "image_u8 \<Rightarrow> nat \<Rightarrow> nat \<Rightarrow> ((nat \<times> nat) \<times> nat \<times> nat) set" where
  "links im w h = {(p, q). interior w h p \<and> interior w h q \<and> linked im p q}"

lemma linked_sym: "linked im p q \<Longrightarrow> linked im q p"
  by (cases p; cases q) (auto simp: linked_def Let_def)

lemma node_inj:
  assumes "x < w" "x' < w"
  shows "node w x y = node w x' y' \<longleftrightarrow> x = x' \<and> y = y'"
proof -
  have "node w a b mod w = a \<and> node w a b div w = b" if "a < w" for a b using that by (simp add: node_def)
  from this [OF assms(1), of y] this [OF assms(2), of y'] show ?thesis by metis
qed

lemma uf_edges_iff:
  "e \<in> set (uf_edges im w rows) \<longleftrightarrow>
     (\<exists>x. 1 \<le> x \<and> x < w - 1 \<and> (e \<in> set (row0_edges im w x) \<or> (\<exists>y \<in> set rows. e \<in> set (row_edges im w y x))))"
  by (auto simp: uf_edges_def rows_edges_def)

lemma join_left:
  assumes "set rows = {1..<H}" "1 \<le> x" "x < w - 1" "y < H" "col im x y \<noteq> 127" "col im (x - 1) y = col im x y"
  shows "(node w x y, node w (x - 1) y) \<in> pairs_closure (uf_edges im w rows)"
proof -
  have "(node w x y, node w (x - 1) y) \<in> set (uf_edges im w rows)"
  proof (cases "y = 0")
    case True
    then show ?thesis using assms by (auto simp: uf_edges_iff row0_edges_def join_def)
  next
    case False
    then have "y \<in> set rows" using assms by simp
    moreover have "(node w x y, node w (x - 1) y) \<in> set (row_edges im w y x)"
      using assms by (simp add: row_edges_def join_def)
    ultimately show ?thesis using assms(2,3) uf_edges_iff by blast
  qed
  then show ?thesis by (auto simp: pairs_closure_def)
qed

lemma row_edge_closure:
  assumes "e \<in> set (row_edges im w y x)" "y \<in> set rows" "1 \<le> x" "x < w - 1"
  shows "e \<in> pairs_closure (uf_edges im w rows)"
proof -
  have "e \<in> set (uf_edges im w rows)" using assms uf_edges_iff by blast
  then show ?thesis unfolding pairs_closure_def by (cases e) auto
qed

text \<open>The upward join is skipped only where the left neighbours already link the two pixels.\<close>

lemma join_up:
  assumes r: "set rows = {1..<H}" and y: "1 \<le> y" "y < H"
    and "1 \<le> x" "x < w - 1" "col im x y \<noteq> 127" "col im x (y - 1) = col im x y"
  shows "(node w x y, node w x (y - 1)) \<in> pairs_closure (uf_edges im w rows)"
  using assms(4-)
proof (induction x)
  case (Suc x)
  show ?case
  proof (cases "x = 0 \<or> \<not> (col im x y = col im x (y - 1) \<and> col im x (y - 1) = col im (Suc x) (y - 1))")
    case True
    then have "(node w (Suc x) y, node w (Suc x) (y - 1)) \<in> set (row_edges im w y (Suc x))"
      using Suc.prems by (auto simp: row_edges_def join_def)
    then show ?thesis using row_edge_closure [of _ im w y "Suc x" rows] r y Suc.prems by auto
  next
    case False
    then have "(node w x y, node w x (y - 1)) \<in> pairs_closure (uf_edges im w rows)" using Suc by auto
    moreover have "(node w (Suc x) y, node w x y) \<in> pairs_closure (uf_edges im w rows)"
      using join_left [OF r Suc.prems(1,2) y(2)] False Suc.prems by simp
    moreover have "(node w (Suc x) (y - 1), node w x (y - 1)) \<in> pairs_closure (uf_edges im w rows)"
      using join_left [OF r Suc.prems(1,2), of "y - 1" im] False Suc.prems y by simp
    ultimately show ?thesis using pairs_closure_trans pairs_closure_sym by blast
  qed
qed simp

lemma join_diag:
  assumes r: "set rows = {1..<H}" and y: "1 \<le> y" "y < H"
    and x: "interior w H (x, y)" "interior w H (x', y - 1)" "x = x' + 1 \<or> x' = x + 1"
    and v: "col im x y = 255" "col im x' (y - 1) = 255"
  shows "(node w x y, node w x' (y - 1)) \<in> pairs_closure (uf_edges im w rows)"
proof -
  note x1 = x(1) [unfolded interior_def prod.case] and x2 = x(2) [unfolded interior_def prod.case]
  have up: "(node w x y, node w x' (y - 1)) \<in> pairs_closure (uf_edges im w rows)" if "col im x (y - 1) = 255"
  proof -
    have "(node w x y, node w x (y - 1)) \<in> pairs_closure (uf_edges im w rows)"
      using join_up [OF r y] x1 v that by simp
    moreover have "(node w x (y - 1), node w x' (y - 1)) \<in> pairs_closure (uf_edges im w rows)"
      using x(3) join_left [OF r, of x w "y - 1" im] join_left [OF r, of x' w "y - 1" im] x1 x2 v that
        pairs_closure_sym [of "node w x' (y - 1)"] by auto
    ultimately show ?thesis by (rule pairs_closure_trans)
  qed
  have row: ?thesis if "(node w x y, node w x' (y - 1)) \<in> set (row_edges im w y x)"
    using row_edge_closure [OF that] r y x1 by simp
  show ?thesis
  proof (cases "x' = x + 1")
    case True
    show ?thesis
    proof (cases "col im x (y - 1) = 255")
      case False
      then show ?thesis using v True by (intro row) (simp add: row_edges_def join_def)
    qed (rule up)
  next
    case False
    then have x': "x' = x - 1" "x \<noteq> 1" using x(3) x2 by auto
    show ?thesis
    proof (cases "col im x' y = 255")
      case True
      have "(node w x y, node w x' y) \<in> pairs_closure (uf_edges im w rows)"
        using join_left [OF r, of x w y im] x1 v True x' by simp
      moreover have "(node w x' y, node w x' (y - 1)) \<in> pairs_closure (uf_edges im w rows)"
        using join_up [OF r y, of x' w im] x2 v True by simp
      ultimately show ?thesis by (rule pairs_closure_trans)
    next
      case F: False
      show ?thesis
      proof (cases "col im x (y - 1) = 255")
        case False
        then show ?thesis using v x' F by (intro row) (simp add: row_edges_def join_def)
      qed (rule up)
    qed
  qed
qed

text \<open>Where an edge ends: at a linked pixel inside, or at a linked pixel of the first or last column.\<close>

lemma uf_edge_shape:
  assumes r: "set rows = {1..<H}" and H: "1 \<le> H" and e: "e \<in> set (uf_edges im w rows)"
  shows "\<exists>x y x' y'. e = (node w x y, node w x' y') \<and> interior w H (x, y) \<and> linked im (x, y) (x', y') \<and>
    (interior w H (x', y') \<or> x' = 0 \<and> x = 1 \<and> (y' = y \<or> y = y' + 1) \<or> x' = w - 1 \<and> x = w - 2 \<and> y = y' + 1)"
proof -
  obtain x y where x: "1 \<le> x" "x < w - 1" "y < H" "e \<in> set (row0_edges im w x) \<and> y = 0 \<or> 1 \<le> y \<and> e \<in> set (row_edges im w y x)"
    using e H by (auto simp: uf_edges_iff r)
  have in1: "interior w H (x, y)" using x by (simp add: interior_def)
  have left: "interior w H (x - 1, y') \<or> x - 1 = 0 \<and> x = 1" if "y' < H" for y' using x that by (auto simp: interior_def)
  from x(4) consider
      "e = (node w x y, node w (x - 1) y)" "linked im (x, y) (x - 1, y)"
    | "1 \<le> y" "e = (node w x y, node w x (y - 1))" "linked im (x, y) (x, y - 1)"
    | "1 \<le> y" "e = (node w x y, node w (x - 1) (y - 1))" "linked im (x, y) (x - 1, y - 1)"
    | "1 \<le> y" "e = (node w x y, node w (x + 1) (y - 1))" "linked im (x, y) (x + 1, y - 1)"
    using x(1) by (auto simp: row0_edges_def row_edges_def join_def linked_def Let_def split: if_splits)
  then show ?thesis
  proof cases
    case 1
    then show ?thesis using in1 left [OF x(3)] by blast
  next
    case 2
    moreover have "interior w H (x, y - 1)" using x by (simp add: interior_def)
    ultimately show ?thesis using in1 by blast
  next
    case 3
    then have "y - 1 < H" "y = (y - 1) + 1" using x by auto
    then show ?thesis using in1 left [of "y - 1"] 3 by blast
  next
    case 4
    have "interior w H (x + 1, y - 1) \<or> x + 1 = w - 1 \<and> x = w - 2 \<and> y = (y - 1) + 1"
      using x 4 by (auto simp: interior_def)
    then show ?thesis using in1 4 by blast
  qed
qed

text \<open>Two inner pixels joined to one pixel of the first or last column are linked anyway.\<close>

lemma links_via_border:
  assumes r: "set rows = {1..<H}" and H: "1 \<le> H"
    and p: "interior w H p" "(node w (fst p) (snd p), n) \<in> set (uf_edges im w rows)"
    and q: "interior w h q" "(node w (fst q) (snd q), n) \<in> set (uf_edges im w rows)"
    and n: "\<And>s. interior w H s \<Longrightarrow> n \<noteq> node w (fst s) (snd s)"
  shows "(p, q) \<in> (links im w H)\<^sup>*"
proof -
  have ends: "interior w H s \<and> (\<exists>x' y'. n = node w x' y' \<and> linked im s (x', y') \<and>
      (x' = 0 \<and> fst s = 1 \<and> (y' = snd s \<or> snd s = y' + 1) \<or> x' = w - 1 \<and> fst s = w - 2 \<and> snd s = y' + 1))"
    if s: "interior w h s" "(node w (fst s) (snd s), n) \<in> set (uf_edges im w rows)" for s h
  proof -
    obtain x y x' y' where e: "node w (fst s) (snd s) = node w x y" "n = node w x' y'" "interior w H (x, y)" "linked im (x, y) (x', y')"
      "interior w H (x', y') \<or> x' = 0 \<and> x = 1 \<and> (y' = y \<or> y = y' + 1) \<or> x' = w - 1 \<and> x = w - 2 \<and> y = y' + 1"
      using uf_edge_shape [OF r H s(2)] by auto
    have l: "fst s < w" "x < w" using s(1) e(3) by (auto simp: interior_def)
    have "s = (x, y)" using e(1) node_inj [OF l, of "snd s" y] by (cases s) auto
    then show ?thesis using e n [of "(x', y')"] by auto
  qed
  obtain xp yp where ep: "n = node w xp yp" "linked im p (xp, yp)"
      "xp = 0 \<and> fst p = 1 \<and> (yp = snd p \<or> snd p = yp + 1) \<or> xp = w - 1 \<and> fst p = w - 2 \<and> snd p = yp + 1"
    using ends [OF p] by blast
  obtain xq yq where eq: "n = node w xq yq" "linked im q (xq, yq)" "interior w H q"
      "xq = 0 \<and> fst q = 1 \<and> (yq = snd q \<or> snd q = yq + 1) \<or> xq = w - 1 \<and> fst q = w - 2 \<and> snd q = yq + 1"
    using ends [OF q] by blast
  have w: "3 \<le> w" using p(1) by (auto simp: interior_def)
  then have l: "xp < w" "xq < w" using ep(3) eq(4) by auto
  have xy: "xp = xq" "yp = yq" using ep(1) eq(1) node_inj [OF l, of yp yq] by auto
  have c: "col im (fst p) (snd p) = col im (fst q) (snd q)" "col im (fst p) (snd p) \<noteq> 127"
    using ep(2) eq(2) xy by (auto simp: linked_def split: prod.splits)
  have "fst p = fst q" "snd p = snd q \<or> snd p = snd q + 1 \<or> snd q = snd p + 1"
    using w ep(3) eq(4) unfolding xy by linarith+
  then have "p = q \<or> linked im p q" using c by (cases p; cases q) (auto simp: linked_def)
  then show ?thesis using p(1) eq(3) by (auto simp: links_def)
qed

lemma links_closure:
  assumes r: "set rows = {1..<H}" and pq: "(p, q) \<in> links im w H"
  shows "(node w (fst p) (snd p), node w (fst q) (snd q)) \<in> pairs_closure (uf_edges im w rows)"
proof -
  obtain x y x' y' where p: "p = (x, y)" and q: "q = (x', y')" by (cases p; cases q)
  have i: "interior w H (x, y)" "interior w H (x', y')" "linked im (x, y) (x', y')" using pq p q by (auto simp: links_def)
  then have c: "col im x' y' = col im x y" "col im x y \<noteq> 127" by (auto simp: linked_def)
  note j = i [unfolded interior_def prod.case]
  have "(node w x y, node w x' y') \<in> pairs_closure (uf_edges im w rows)"
  proof (cases "y = y'")
    case True
    then have "x = x' + 1 \<or> x' = x + 1" using i(3) by (auto simp: linked_def Let_def)
    then show ?thesis
      using join_left [OF r, of x w y im] join_left [OF r, of x' w y im] j True c pairs_closure_sym [of "node w x' y"] by auto
  next
    case False
    then have dy: "y = y' + 1 \<or> y' = y + 1" and "x = x' \<or> col im x y = 255 \<and> (x = x' + 1 \<or> x' = x + 1)"
      using i(3) by (auto simp: linked_def Let_def)
    then consider "x = x'" | "col im x y = 255" "x = x' + 1 \<or> x' = x + 1" by blast
    then show ?thesis
    proof cases
      case 1
      then show ?thesis
        using dy join_up [OF r, of y x w im] join_up [OF r, of y' x w im] j c pairs_closure_sym [of "node w x y'"] by auto
    next
      case 2
      then show ?thesis
        using dy join_diag [OF r, of y w x x' im] join_diag [OF r, of y' w x' x im] i j c
          pairs_closure_sym [of "node w x' y'" "node w x y"] by auto
    qed
  qed
  then show ?thesis by (simp add: p q)
qed

text \<open>A pixel's node is written \<open>pixel w s\<close>.\<close>

definition pixel :: "nat \<Rightarrow> nat \<times> nat \<Rightarrow> nat" where
  "pixel w s = node w (fst s) (snd s)"

lemma pixel_inj: "interior w k s \<Longrightarrow> interior w l t \<Longrightarrow> pixel w s = pixel w t \<Longrightarrow> s = t"
  using node_inj [of "fst s" w "fst t" "snd s" "snd t"] by (auto simp: interior_def pixel_def prod_eq_iff)

lemma uf_edge_ends:
  assumes r: "set rows = {1..<H}" and H: "1 \<le> H" and e: "(n, m) \<in> set (uf_edges im w rows)"
  shows "\<exists>a b. n = pixel w a \<and> m = pixel w b \<and> interior w H a \<and> linked im a b \<and>
    (interior w H b \<or> (\<forall>t. interior w k t \<longrightarrow> m \<noteq> pixel w t))"
proof -
  obtain x y x' y' where s: "n = node w x y" "m = node w x' y'" "interior w H (x, y)" "linked im (x, y) (x', y')"
    "interior w H (x', y') \<or> x' = 0 \<and> x = 1 \<and> (y' = y \<or> y = y' + 1) \<or> x' = w - 1 \<and> x = w - 2 \<and> y = y' + 1"
    using uf_edge_shape [OF r H e] by auto
  have "m \<noteq> pixel w t" if "\<not> interior w H (x', y')" "interior w k t" for t
  proof -
    have l: "x' < w" "fst t < w" "x' \<noteq> fst t" using that s(3,5) by (auto simp: interior_def)
    show ?thesis using node_inj [OF l(1,2), of y' "snd t"] l(3) s(2) by (simp add: pixel_def)
  qed
  then have nb: "interior w H (x', y') \<or> (\<forall>t. interior w k t \<longrightarrow> m \<noteq> pixel w t)" by blast
  show ?thesis
    by (rule exI [of _ "(x, y)"], rule exI [of _ "(x', y')"], intro conjI nb s(3,4)) (simp_all add: s(1,2) pixel_def)
qed

text \<open>The joins of the rows below \<open>H\<close> link two inner pixels exactly when they are connected.\<close>

lemma closure_links:
  assumes r: "set rows = {1..<H}" and H: "1 \<le> H" "H \<le> h" and p: "interior w h p"
    and c: "(pixel w p, n) \<in> pairs_closure (uf_edges im w rows)"
    and s: "interior w h s" "n = pixel w s \<or> (\<forall>t. interior w h t \<longrightarrow> n \<noteq> pixel w t) \<and> (pixel w s, n) \<in> set (uf_edges im w rows)"
  shows "(p, s) \<in> (links im w H)\<^sup>*"
  using c s unfolding pairs_closure_def
proof (induction arbitrary: s rule: rtrancl_induct)
  case base
  then show ?case using pixel_inj [OF p] p by blast
next
  case (step n m)
  have mono: "interior w H a \<Longrightarrow> interior w h a" for a using H(2) by (auto simp: interior_def)
  from step(2) show ?case
  proof
    assume "(n, m) \<in> set (uf_edges im w rows)"
    then obtain a b where e: "n = pixel w a" "m = pixel w b" "interior w H a" "linked im a b" and
        b: "interior w H b \<or> (\<forall>t. interior w h t \<longrightarrow> m \<noteq> pixel w t)" and nm: "(pixel w a, m) \<in> set (uf_edges im w rows)"
      using uf_edge_ends [OF r H(1), of n m im w h] by blast
    have pa: "(p, a) \<in> (links im w H)\<^sup>*" using step.IH [OF mono [OF e(3)]] e(1) by blast
    from b show ?thesis
    proof
      assume b: "interior w H b"
      then have "s = b" using step.prems e(2) mono pixel_inj by blast
      moreover have "(a, b) \<in> links im w H" using e(3,4) b by (simp add: links_def)
      ultimately show ?thesis using pa by auto
    next
      assume b: "\<forall>t. interior w h t \<longrightarrow> m \<noteq> pixel w t"
      then have "(pixel w s, m) \<in> set (uf_edges im w rows)" using step.prems by blast
      then have "(a, s) \<in> (links im w H)\<^sup>*"
        using links_via_border [OF r H(1) e(3) _ step.prems(1)] nm b mono by (simp add: pixel_def)
      with pa show ?thesis by (rule rtrancl_trans)
    qed
  next
    assume "(n, m) \<in> (set (uf_edges im w rows))\<inverse>"
    then have mn: "(m, n) \<in> set (uf_edges im w rows)" by simp
    then obtain a b where e: "m = pixel w a" "n = pixel w b" "interior w H a" "linked im a b" and
        b: "interior w H b \<or> (\<forall>t. interior w h t \<longrightarrow> n \<noteq> pixel w t)"
      using uf_edge_ends [OF r H(1), of m n im w h] by blast
    have "s = a" using step.prems e(1,3) mono pixel_inj by blast
    moreover from b have "(p, a) \<in> (links im w H)\<^sup>*"
    proof
      assume b: "interior w H b"
      then have "(p, b) \<in> (links im w H)\<^sup>*" using step.IH [OF mono [OF b]] e(2) by blast
      moreover have "(b, a) \<in> links im w H" using b e(3,4) linked_sym by (simp add: links_def)
      ultimately show ?thesis by (rule rtrancl_into_rtrancl)
    next
      assume "\<forall>t. interior w h t \<longrightarrow> n \<noteq> pixel w t"
      then show ?thesis using step.IH [OF mono [OF e(3)]] mn e(1) by blast
    qed
    ultimately show ?thesis by simp
  qed
qed

lemma uf_edges_components:
  assumes r: "set rows = {1..<H}" and H: "1 \<le> H" "H \<le> h" and p: "interior w h p" and q: "interior w h q"
  shows "(pixel w p, pixel w q) \<in> pairs_closure (uf_edges im w rows) \<longleftrightarrow> (p, q) \<in> (links im w H)\<^sup>*"
proof
  assume "(p, q) \<in> (links im w H)\<^sup>*"
  then show "(pixel w p, pixel w q) \<in> pairs_closure (uf_edges im w rows)"
  proof (induction rule: rtrancl_induct)
    case (step s t)
    then show ?case using links_closure [OF r step(2)] pairs_closure_trans unfolding pixel_def by blast
  qed (simp add: pairs_closure_def)
qed (use closure_links [OF r H p _ q] in blast)

subsection \<open>The whole function\<close>

text \<open>The rows the code joins to their upper neighbours, and the number of rows it joins in all.\<close>

definition cc_chunk :: "int \<Rightarrow> nat \<Rightarrow> nat" where
  "cc_chunk nthreads h = nat (1 + int h div (APRILTAG_TASKS_PER_THREAD_TARGET * nthreads))"

definition rows_joined :: "int \<Rightarrow> nat \<Rightarrow> nat" where
  "rows_joined nthreads h = (if 1 < nthreads \<and> 1 < h \<and> cc_chunk nthreads h dvd h - 1 then h - 1 else h)"

lemma task2_fold:
  assumes ok: "im_ok im w h" and t: "1 \<le> ut_y0 t" "ut_y1 t \<le> int h"
  shows "do_unionfind_task2 im (int w) (im_stride im) t uf = foldE connect_step (rows_edges im w (task_rows t)) uf"
proof -
  have "[ut_y0 t..ut_y1 t - 1] = map int (task_rows t)"
    using t by (simp add: task_rows_def map_int_upt)
  moreover have "set (task_rows t) \<subseteq> {1..<h}" using t by (auto simp: task_rows_def)
  ultimately show ?thesis using rows_fold [OF ok] by (simp add: do_unionfind_task2_def)
qed

lemma tasks_fold:
  assumes ok: "im_ok im w h" and ts: "\<forall>t \<in> set ts. 1 \<le> ut_y0 t \<and> ut_y1 t \<le> int h"
  shows "foldE (\<lambda>uf t. do_unionfind_task2 im (int w) (im_stride im) t uf) ts uf =
    foldE connect_step (rows_edges im w (concat (map task_rows ts))) uf"
  using ts by (induction ts arbitrary: uf) (auto simp: task2_fold [OF ok] foldE_append intro!: bindE_cong)

lemma cc_edges:
  assumes ok: "im_ok im w h" and sched: "\<And>ts. set (sched ts) = set ts"
  shows "\<exists>rows. set rows = {1..<rows_joined nthreads h} \<and>
    connected_components nthreads sched im (int w) (int h) (im_stride im) =
      foldE connect_step (uf_edges im w rows) (unionfind_create (w * h))"
proof -
  have n: "nat (int w * int h) = w * h" by (simp add: nat_mult_distrib)
  have h: "1 \<le> h" using ok by (simp add: im_ok_def)
  show ?thesis
  proof (cases "nthreads \<le> 1")
    case True
    have "[1..int h - 1] = map int [1..<h]" using h by (simp add: map_int_upt)
    moreover have "foldE (\<lambda>uf y. do_unionfind_line2 uf im (int w) (im_stride im) y) (map int [1..<h]) =
        foldE connect_step (rows_edges im w [1..<h])"
      by (rule ext) (rule rows_fold [OF ok], simp)
    ultimately have "connected_components nthreads sched im (int w) (int h) (im_stride im) =
        foldE connect_step (uf_edges im w [1..<h]) (unionfind_create (w * h))"
      using True n
      by (simp add: connected_components_def Let_def first_line_edges [OF ok] uf_edges_def foldE_append)
    moreover have "set [1..<h] = {1..<rows_joined nthreads h}" using True by (simp add: rows_joined_def)
    ultimately show ?thesis by blast
  next
    case False
    let ?c = "cc_chunk nthreads h" and ?ts = "uf_tasks (int h) (int (cc_chunk nthreads h)) 1"
    have c: "0 < ?c" "1 + int h div (APRILTAG_TASKS_PER_THREAD_TARGET * nthreads) = int ?c"
    proof -
      have "0 \<le> int h div (APRILTAG_TASKS_PER_THREAD_TARGET * nthreads)"
        using False by (simp add: APRILTAG_TASKS_PER_THREAD_TARGET_def pos_imp_zdiv_nonneg_iff)
      then show "0 < ?c" "1 + int h div (APRILTAG_TASKS_PER_THREAD_TARGET * nthreads) = int ?c" by (simp_all add: cc_chunk_def)
    qed
    have b: "1 \<le> ut_y0 t \<and> ut_y1 t \<le> int h \<and> ut_y0 t < int h" if "t \<in> set ?ts" for t
      using that c(1) by (auto simp: uf_tasks_set imin_def)
    have y0: "ut_y0 t - 1 = int (nat (ut_y0 t - 1)) \<and> 1 \<le> nat (ut_y0 t - 1) \<and> nat (ut_y0 t - 1) < h" if "t \<in> set (tl ?ts)" for t
    proof -
      have "t \<in> set (uf_tasks (int h) (int ?c) (1 + int ?c))"
        using that by (subst (asm) uf_tasks.simps) (auto split: if_splits)
      then obtain k where k: "ut_y0 t = 1 + int ?c + int k * int ?c" "1 + int ?c + int k * int ?c < int h"
        by (auto simp: uf_tasks_set)
      have "1 + int ?c + int k * int ?c = int (1 + ?c + k * ?c)" by simp
      then have e: "ut_y0 t - 1 = int (?c + k * ?c)" "1 + ?c + k * ?c < h" using k by linarith+
      then show ?thesis using c(1) unfolding e(1) nat_int by linarith
    qed
    have stitch: "map (\<lambda>t. ut_y0 t - 1) (tl ?ts) = map int (map (\<lambda>t. nat (ut_y0 t - 1)) (tl ?ts))"
      using y0 by simp
    have s: "set (map (\<lambda>t. nat (ut_y0 t - 1)) (tl ?ts)) \<subseteq> {1..<h}" using y0 by auto
    have st: "foldE (\<lambda>uf t. do_unionfind_line2 uf im (int w) (im_stride im) (ut_y0 t - 1)) (tl ?ts) uf =
        foldE connect_step (rows_edges im w (map (\<lambda>t. nat (ut_y0 t - 1)) (tl ?ts))) uf" for uf
      using rows_fold [OF ok s, of uf] foldE_map [of "\<lambda>uf y. do_unionfind_line2 uf im (int w) (im_stride im) y" "\<lambda>t. ut_y0 t - 1" "tl ?ts" uf]
      unfolding stitch by (simp add: foldE_map)
    then have stf: "foldE (\<lambda>uf t. do_unionfind_line2 uf im (int w) (im_stride im) (ut_y0 t - 1)) (tl ?ts) =
        foldE connect_step (rows_edges im w (map (\<lambda>t. nat (ut_y0 t - 1)) (tl ?ts)))" by (rule ext)
    have "connected_components nthreads sched im (int w) (int h) (im_stride im) =
        foldE connect_step (uf_edges im w (pool_rows (sched ?ts) (tl ?ts))) (unionfind_create (w * h))"
      using False n b tasks_fold [OF ok, of "sched ?ts"] sched [of ?ts]
      by (simp add: connected_components_def Let_def c(2) first_line_edges [OF ok] uf_edges_def foldE_append stf pool_rows_def)
        (intro bindE_cong refl, simp add: foldE_append)
    moreover have "1 \<le> y \<and> y < h \<and> \<not> (y + 1 = h \<and> ?c dvd y) \<longleftrightarrow> 1 \<le> y \<and> y < rows_joined nthreads h" for y
    proof (cases "y + 1 = h")
      case True
      then have "h - 1 = y" by simp
      then show ?thesis using True False by (auto simp: rows_joined_def)
    next
      case F: False
      then have "y < h \<longleftrightarrow> y < h - 1" by linarith
      then show ?thesis using F by (simp add: rows_joined_def)
    qed
    then have "set (pool_rows (sched ?ts) (tl ?ts)) = {1..<rows_joined nthreads h}"
      unfolding pool_rows_set [OF h c(1) sched] atLeastLessThan_def lessThan_def atLeast_def by blast
    ultimately show ?thesis by blast
  qed
qed

text \<open>Whether two nodes are in one set, as the callers find out.\<close>

definition same_set :: "unionfind \<Rightarrow> nat \<Rightarrow> nat \<Rightarrow> cerr + bool" where
  "same_set uf i j =
     bindE (unionfind_get_representative uf i) (\<lambda>(uf, a).
     bindE (unionfind_get_representative uf j) (\<lambda>(_, b). Inr (a = b)))"

lemma same_set_rep:
  assumes "uf_inv uf" "i < length (uf_parent uf)" "j < length (uf_parent uf)"
  shows "same_set uf i j = Inr (uf_rep uf i = uf_rep uf j)"
  using ufp.two_reps [OF assms] by (auto simp: same_set_def)

lemma pixel_bound:
  assumes "interior w h p"
  shows "pixel w p < w * h"
proof -
  have "fst p < w" "Suc (snd p) \<le> h" using assms by (auto simp: interior_def)
  then have "snd p * w + fst p < Suc (snd p) * w" "Suc (snd p) * w \<le> h * w" by (simp, simp only: mult_le_mono1)
  then show ?thesis by (simp add: pixel_def node_def mult.commute)
qed

lemma cc_result:
  assumes ok: "im_ok im w h" and sched: "\<And>ts. set (sched ts) = set ts"
  shows "\<exists>uf. connected_components nthreads sched im (int w) (int h) (im_stride im) = Inr uf \<and>
    uf_inv uf \<and> length (uf_parent uf) = Suc (w * h) \<and>
    (\<forall>p q. interior w h p \<longrightarrow> interior w h q \<longrightarrow>
       uf_rep uf (pixel w p) = uf_rep uf (pixel w q) \<longleftrightarrow> (p, q) \<in> (links im w (rows_joined nthreads h))\<^sup>*)"
proof -
  let ?H = "rows_joined nthreads h"
  have H: "1 \<le> ?H" "?H \<le> h" using ok by (auto simp: rows_joined_def im_ok_def)
  obtain rows where rows: "set rows = {1..<?H}"
    and cc: "connected_components nthreads sched im (int w) (int h) (im_stride im) = foldE connect_step (uf_edges im w rows) (unionfind_create (w * h))"
    using cc_edges [OF ok sched] by blast
  have "w * h \<le> h * nat (im_stride im)" using ok by (auto simp: im_ok_def mult.commute intro: mult_le_mono1)
  moreover have "h * nat (im_stride im) < 2 ^ 31" using ok by (simp add: im_ok_def)
  ultimately have "w * h < 2 ^ 31" by (rule le_less_trans)
  then have wh: "w * h < UF_NONE" by (simp add: UF_NONE_def)
  have node: "node w x y \<le> w * h" if "x < w" "y < h" for x y
  proof -
    have "y * w + x < Suc y * w" "Suc y * w \<le> h * w" using that by (simp, intro mult_le_mono1) simp
    then show ?thesis by (simp add: node_def mult.commute)
  qed
  have "a \<le> w * h \<and> b \<le> w * h" if ab: "(a, b) \<in> set (uf_edges im w rows)" for a b
  proof -
    obtain x y x' y' where e: "a = node w x y" "b = node w x' y'" "interior w ?H (x, y)"
      "interior w ?H (x', y') \<or> x' = 0 \<and> x = 1 \<and> (y' = y \<or> y = y' + 1) \<or> x' = w - 1 \<and> x = w - 2 \<and> y = y' + 1"
      using uf_edge_shape [OF rows H(1) ab] by auto
    have xy: "1 \<le> x" "x < w - 1" "y < h" using e(3) H(2) by (simp_all add: interior_def)
    have "x' < w \<and> y' < h" using e(4)
    proof (elim disjE conjE)
      assume "interior w ?H (x', y')"
      then have "x' < w - 1" "y' < ?H" by (simp_all add: interior_def)
      then show ?thesis using H(2) by linarith
    qed (use xy in linarith)+
    then have l: "x < w" "y < h" "x' < w" "y' < h" using xy by linarith+
    show ?thesis using node [OF l(1,2)] node [OF l(3,4)] e(1,2) by simp
  qed
  then have bound: "\<forall>(a, b) \<in> set (uf_edges im w rows). a \<le> w * h \<and> b \<le> w * h" by blast
  obtain uf where uf: "foldE connect_step (uf_edges im w rows) (unionfind_create (w * h)) = Inr uf" "uf_inv uf"
      "length (uf_parent uf) = Suc (w * h)"
      "\<forall>i \<le> w * h. \<forall>j \<le> w * h. uf_rep uf i = uf_rep uf j \<longleftrightarrow> (i, j) \<in> pairs_closure (uf_edges im w rows)"
    using connects_ok [OF wh bound] by (elim exE conjE)
  have "uf_rep uf (pixel w p) = uf_rep uf (pixel w q) \<longleftrightarrow> (p, q) \<in> (links im w ?H)\<^sup>*" if "interior w h p" "interior w h q" for p q
    using pixel_bound [OF that(1)] pixel_bound [OF that(2)] uf(4) uf_edges_components [OF rows H that] by simp
  then show ?thesis using uf(1-3) cc by simp
qed

lemma cc_components:
  assumes ok: "im_ok im w h" and sched: "\<And>ts. set (sched ts) = set ts"
  shows "\<exists>uf. connected_components nthreads sched im (int w) (int h) (im_stride im) = Inr uf \<and>
    (\<forall>p q. interior w h p \<longrightarrow> interior w h q \<longrightarrow>
       same_set uf (pixel w p) (pixel w q) = Inr ((p, q) \<in> (links im w (rows_joined nthreads h))\<^sup>*))"
proof -
  obtain uf where uf: "connected_components nthreads sched im (int w) (int h) (im_stride im) = Inr uf" "uf_inv uf"
      "length (uf_parent uf) = Suc (w * h)"
      "\<forall>p q. interior w h p \<longrightarrow> interior w h q \<longrightarrow>
         uf_rep uf (pixel w p) = uf_rep uf (pixel w q) \<longleftrightarrow> (p, q) \<in> (links im w (rows_joined nthreads h))\<^sup>*"
    using cc_result [OF ok sched, of nthreads] by (elim exE conjE)
  have "same_set uf (pixel w p) (pixel w q) = Inr ((p, q) \<in> (links im w (rows_joined nthreads h))\<^sup>*)" if "interior w h p" "interior w h q" for p q
    using same_set_rep [OF uf(2), of "pixel w p" "pixel w q"] pixel_bound [OF that(1)] pixel_bound [OF that(2)] uf(3,4) that by simp
  then show ?thesis using uf(1) by blast
qed

text \<open>A row that is not joined has no links.\<close>

lemma last_row_isolated:
  assumes "(p, q) \<in> (links im w H)\<^sup>*" "H \<le> snd p"
  shows "p = q"
  using assms by (cases rule: converse_rtranclE) (auto simp: links_def interior_def)

subsection \<open>Properties\<close>

text \<open>C18: With one thread, \<open>connected_components\<close> returns a forest in which two inner pixels have the
  same representative exactly when a chain of adjacent pixels of one colour, 4-connected for black and
  8-connected for white, leads from one to the other.\<close>

theorem connected_components_correct:
  assumes "im_ok im w h" "nthreads \<le> 1"
  shows "\<exists>uf. connected_components nthreads sched im (int w) (int h) (im_stride im) = Inr uf \<and>
    (\<forall>p q. interior w h p \<longrightarrow> interior w h q \<longrightarrow> same_set uf (pixel w p) (pixel w q) = Inr ((p, q) \<in> (links im w h)\<^sup>*))"
proof -
  have "connected_components nthreads sched = connected_components nthreads id"
    using assms(2) by (intro ext) (simp add: connected_components_def)
  moreover have "rows_joined nthreads h = h" using assms(2) by (simp add: rows_joined_def)
  ultimately show ?thesis using cc_components [OF assms(1), of id nthreads] by simp
qed

text \<open>C34: Whatever the number of threads and the order in which the worker pool runs the tasks, the parallel
  version finds the components of the sequential one, unless the chunk size divides \<open>h - 1\<close>.\<close>

theorem connected_components_parallel:
  assumes "im_ok im w h" "1 < nthreads" "\<And>ts. mset (sched ts) = mset ts" "h = 1 \<or> \<not> cc_chunk nthreads h dvd h - 1"
  shows "\<exists>uf uf'. connected_components nthreads sched im (int w) (int h) (im_stride im) = Inr uf \<and>
    connected_components 1 id im (int w) (int h) (im_stride im) = Inr uf' \<and>
    (\<forall>p q. interior w h p \<longrightarrow> interior w h q \<longrightarrow>
       same_set uf (pixel w p) (pixel w q) = same_set uf' (pixel w p) (pixel w q))"
proof -
  have "rows_joined nthreads h = h" "rows_joined 1 h = h" using assms(4) by (auto simp: rows_joined_def)
  with cc_components [OF assms(1) mset_eq_setD [OF assms(3)], of nthreads] cc_components [OF assms(1), of id 1]
  show ?thesis by auto
qed

text \<open>C36: When the chunk size divides \<open>h - 1\<close>, no task and no stitching step joins the last row: its
  inner pixels stay alone whatever the image.\<close>

theorem last_row_unjoined:
  assumes "im_ok im w h" "1 < nthreads" "\<And>ts. mset (sched ts) = mset ts" "1 < h" "cc_chunk nthreads h dvd h - 1"
  shows "\<exists>uf. connected_components nthreads sched im (int w) (int h) (im_stride im) = Inr uf \<and>
    (\<forall>x q. interior w h (x, h - 1) \<longrightarrow> interior w h q \<longrightarrow>
       same_set uf (pixel w (x, h - 1)) (pixel w q) = Inr (q = (x, h - 1)))"
proof -
  have "rows_joined nthreads h = h - 1" using assms by (simp add: rows_joined_def)
  moreover have "((x, h - 1), q) \<in> (links im w (h - 1))\<^sup>* \<longleftrightarrow> q = (x, h - 1)" for x q
    using last_row_isolated [of "(x, h - 1)" q im w "h - 1"] by auto
  moreover obtain uf where "connected_components nthreads sched im (int w) (int h) (im_stride im) = Inr uf"
    "\<And>p q. interior w h p \<Longrightarrow> interior w h q \<Longrightarrow>
       same_set uf (pixel w p) (pixel w q) = Inr ((p, q) \<in> (links im w (rows_joined nthreads h))\<^sup>*)"
    using cc_components [OF assms(1) mset_eq_setD [OF assms(3)], of nthreads] by blast
  ultimately show ?thesis by (intro exI [of _ uf]) simp
qed

text \<open>All-white pictures for the witnesses.\<close>

definition white_image :: "nat \<Rightarrow> nat \<Rightarrow> image_u8" where
  "white_image w h = \<lparr>im_width = int w, im_height = int h, im_stride = int w, im_buf = replicate (w * h) 255\<rparr>"

lemma white_ok: "2 \<le> w \<Longrightarrow> 1 \<le> h \<Longrightarrow> w * h < 2 ^ 31 \<Longrightarrow> im_ok (white_image w h) w h"
  by (simp add: im_ok_def white_image_def mult.commute)

lemma connected_components_correct_witness:
  "\<exists>uf. connected_components 1 id (white_image 5 3) (int 5) (int 3) (im_stride (white_image 5 3)) = Inr uf \<and>
    (\<forall>p q. interior 5 3 p \<longrightarrow> interior 5 3 q \<longrightarrow>
       same_set uf (pixel 5 p) (pixel 5 q) = Inr ((p, q) \<in> (links (white_image 5 3) 5 3)\<^sup>*))"
  by (rule connected_components_correct) (simp_all add: white_ok)

lemma connected_components_parallel_witness:
  "\<exists>uf uf'. connected_components 4 rev (white_image 320 240) (int 320) (int 240) (im_stride (white_image 320 240)) = Inr uf \<and>
    connected_components 1 id (white_image 320 240) (int 320) (int 240) (im_stride (white_image 320 240)) = Inr uf' \<and>
    (\<forall>p q. interior 320 240 p \<longrightarrow> interior 320 240 q \<longrightarrow>
       same_set uf (pixel 320 p) (pixel 320 q) = same_set uf' (pixel 320 p) (pixel 320 q))"
  by (rule connected_components_parallel) (simp_all add: white_ok cc_chunk_def APRILTAG_TASKS_PER_THREAD_TARGET_def)

lemma last_row_unjoined_witness:
  "\<exists>uf. connected_components 2 rev (white_image 160 120) (int 160) (int 120) (im_stride (white_image 160 120)) = Inr uf \<and>
    (\<forall>x q. interior 160 120 (x, 120 - 1) \<longrightarrow> interior 160 120 q \<longrightarrow>
       same_set uf (pixel 160 (x, 120 - 1)) (pixel 160 q) = Inr (q = (x, 120 - 1)))"
  by (rule last_row_unjoined) (simp_all add: white_ok cc_chunk_def APRILTAG_TASKS_PER_THREAD_TARGET_def)

end
