(* ===== verification/Threshold.thy ===== *)
theory Threshold
  imports Components
begin

text \<open>
  The adaptive threshold of \<open>apriltag_quad_thresh.c\<close>: the extremes of tiles of 4 by 4 pixels, their spread over the
  neighbouring tiles, and the comparison of every pixel with the middle of its window; 127 marks
  windows of low contrast. Pixels beyond the last full tile use that tile. Images come from \<open>common/image_u8.c\<close>.
\<close>

subsection \<open>Images\<close>

definition DEFAULT_ALIGNMENT_U8 :: int where
  "DEFAULT_ALIGNMENT_U8 = 96"

definition image_u8_create_stride :: "int \<Rightarrow> int \<Rightarrow> int \<Rightarrow> image_u8" where
  "image_u8_create_stride width height stride =
     \<lparr>im_width = width, im_height = height, im_stride = stride, im_buf = replicate (nat (height * stride)) 0\<rparr>"

definition image_u8_create_alignment :: "int \<Rightarrow> int \<Rightarrow> int \<Rightarrow> cerr + image_u8" where
  "image_u8_create_alignment width height alignment =
     (if alignment = 0 then Inl DivByZero
      else
        let stride = (if width mod alignment \<noteq> 0 then width + (alignment - width mod alignment) else width)
        in Inr (image_u8_create_stride width height stride))"

definition image_u8_create :: "int \<Rightarrow> int \<Rightarrow> cerr + image_u8" where
  "image_u8_create width height = image_u8_create_alignment width height DEFAULT_ALIGNMENT_U8"

subsection \<open>The three passes over the tiles\<close>

definition tilesz :: int where
  "tilesz = 4"

text \<open>The extremes kept while pixels or tiles are looked at: \<open>max\<close>, then \<open>min\<close>.\<close>

definition widen :: "u8 \<times> u8 \<Rightarrow> u8 \<Rightarrow> u8 \<Rightarrow> u8 \<times> u8" where
  "widen = (\<lambda>(mx, mn) hi lo. (if hi > mx then hi else mx, if lo < mn then lo else mn))"

definition minmax_tile :: "image_u8 \<Rightarrow> int \<Rightarrow> int \<Rightarrow> cerr + u8 \<times> u8" where
  "minmax_tile im ty tx =
     foldE (\<lambda>m dy. foldE (\<lambda>m dx.
         bindE (vget (im_buf im) ((ty * tilesz + dy) * im_stride im + tx * tilesz + dx)) (\<lambda>v. Inr (widen m v v)))
       [0..tilesz - 1] m) [0..tilesz - 1] (0, 255)"

text \<open>The extremes of the whole image are two arrays; each task writes the tiles of its row.\<close>

definition put2 :: "bytes \<times> bytes \<Rightarrow> int \<Rightarrow> u8 \<times> u8 \<Rightarrow> cerr + bytes \<times> bytes" where
  "put2 = (\<lambda>(im_max, im_min) i (mx, mn).
     bindE (vset im_max i mx) (\<lambda>im_max. bindE (vset im_min i mn) (\<lambda>im_min. Inr (im_max, im_min))))"

definition do_minmax_task :: "image_u8 \<Rightarrow> bytes \<times> bytes \<Rightarrow> int \<Rightarrow> cerr + bytes \<times> bytes" where
  "do_minmax_task im a ty =
     (let tw = im_width im div tilesz in
      foldE (\<lambda>a tx. bindE (minmax_tile im ty tx) (\<lambda>m. put2 a (ty * tw + tx) m)) [0..tw - 1] a)"

definition blur_tile :: "bytes \<times> bytes \<Rightarrow> int \<Rightarrow> int \<Rightarrow> int \<Rightarrow> int \<Rightarrow> cerr + u8 \<times> u8" where
  "blur_tile = (\<lambda>(im_max, im_min) tw th ty tx.
     foldE (\<lambda>m dy.
         if ty + dy < 0 \<or> ty + dy \<ge> th then Inr m
         else foldE (\<lambda>m dx.
             if tx + dx < 0 \<or> tx + dx \<ge> tw then Inr m
             else
               bindE (vget im_max ((ty + dy) * tw + tx + dx)) (\<lambda>hi.
               bindE (vget im_min ((ty + dy) * tw + tx + dx)) (\<lambda>lo. Inr (widen m hi lo)))) [- 1..1] m)
       [- 1..1] (0, 255))"

definition do_blur_task :: "image_u8 \<Rightarrow> bytes \<times> bytes \<Rightarrow> bytes \<times> bytes \<Rightarrow> int \<Rightarrow> cerr + bytes \<times> bytes" where
  "do_blur_task im a tmp ty =
     (let tw = im_width im div tilesz; th = im_height im div tilesz in
      foldE (\<lambda>tmp tx. bindE (blur_tile a tw th ty tx) (\<lambda>m. put2 tmp (ty * tw + tx) m)) [0..tw - 1] tmp)"

text \<open>The 16 pixels of a tile, and what is written to each.\<close>

definition do_threshold_task :: "image_u8 \<Rightarrow> int \<Rightarrow> bytes \<times> bytes \<Rightarrow> bytes \<Rightarrow> int \<Rightarrow> cerr + bytes" where
  "do_threshold_task im min_white_black_diff = (\<lambda>(im_max, im_min) out ty.
     let tw = im_width im div tilesz; s = im_stride im in
     foldE (\<lambda>out tx.
       bindE (vget im_min (ty * tw + tx)) (\<lambda>mn.
       bindE (vget im_max (ty * tw + tx)) (\<lambda>mx.
       if int (unat mx) - int (unat mn) < min_white_black_diff
       then foldE (\<lambda>out dy. foldE (\<lambda>out dx.
           vset out ((ty * tilesz + dy) * s + (tx * tilesz + dx)) 127) [0..tilesz - 1] out) [0..tilesz - 1] out
       else
         let thresh = of_int (int (unat mn) + (int (unat mx) - int (unat mn)) div 2) :: u8 in
         foldE (\<lambda>out dy. foldE (\<lambda>out dx.
           bindE (vget (im_buf im) ((ty * tilesz + dy) * s + (tx * tilesz + dx))) (\<lambda>v.
           vset out ((ty * tilesz + dy) * s + (tx * tilesz + dx)) (if v > thresh then 255 else 0))) [0..tilesz - 1] out) [0..tilesz - 1] out)))
     [0..tw - 1] out)"

text \<open>The pixels beyond the full tiles.\<close>

definition threshold_rest :: "image_u8 \<Rightarrow> bytes \<times> bytes \<Rightarrow> bytes \<Rightarrow> cerr + bytes" where
  "threshold_rest im = (\<lambda>(im_max, im_min) out.
     let w = im_width im; h = im_height im; s = im_stride im; tw = w div tilesz; th = h div tilesz in
     foldE (\<lambda>out y.
       let x0 = (if y \<ge> th * tilesz then 0 else tw * tilesz);
           ty = (if y div tilesz \<ge> th then th - 1 else y div tilesz) in
       foldE (\<lambda>out x.
         let tx = (if x div tilesz \<ge> tw then tw - 1 else x div tilesz) in
         bindE (vget im_max (ty * tw + tx)) (\<lambda>mx.
         bindE (vget im_min (ty * tw + tx)) (\<lambda>mn.
         let thresh = int (unat mn) + (int (unat mx) - int (unat mn)) div 2 in
         bindE (vget (im_buf im) (y * s + x)) (\<lambda>v.
         vset out (y * s + x) (if int (unat v) > thresh then 255 else 0))))) [x0..w - 1] out) [0..h - 1] out)"

text \<open>The optional deglitching, a dilation into \<open>tmp\<close> and an erosion back; the indices use the stride of the input.\<close>

definition extreme3 :: "(u8 \<Rightarrow> u8 \<Rightarrow> u8) \<Rightarrow> u8 \<Rightarrow> bytes \<Rightarrow> int \<Rightarrow> int \<Rightarrow> int \<Rightarrow> cerr + u8" where
  "extreme3 f a buf s y x =
     foldE (\<lambda>m dy. foldE (\<lambda>m dx. bindE (vget buf ((y + dy) * s + x + dx)) (\<lambda>v. Inr (f m v))) [- 1..1] m) [- 1..1] a"

definition deglitch_pass :: "(u8 \<Rightarrow> u8 \<Rightarrow> u8) \<Rightarrow> u8 \<Rightarrow> int \<Rightarrow> int \<Rightarrow> int \<Rightarrow> bytes \<Rightarrow> bytes \<Rightarrow> cerr + bytes" where
  "deglitch_pass f a w h s src dst =
     foldE (\<lambda>dst y. foldE (\<lambda>dst x.
       bindE (extreme3 f a src s y x) (\<lambda>m. vset dst (y * s + x) m)) [1..w - 2] dst) [1..h - 2] dst"

definition deglitch :: "image_u8 \<Rightarrow> bytes \<Rightarrow> cerr + bytes" where
  "deglitch im out =
     (let w = im_width im; h = im_height im; s = im_stride im in
      bindE (image_u8_create w h) (\<lambda>tmp.
      bindE (deglitch_pass (\<lambda>m v. if v > m then v else m) 0 w h s out (im_buf tmp)) (\<lambda>tmp.
      deglitch_pass (\<lambda>m v. if v < m then v else m) 255 w h s tmp out)))"

text \<open>
  \<open>sched\<close> is the order in which the worker pool runs the rows of tiles, once for each of the three passes.
\<close>

definition threshold :: "(nat \<Rightarrow> int list \<Rightarrow> int list) \<Rightarrow> bool \<Rightarrow> int \<Rightarrow> image_u8 \<Rightarrow> cerr + image_u8" where
  "threshold sched deglitching min_white_black_diff im =
     (let w = im_width im; h = im_height im; s = im_stride im in
      bindE (assertE (w < 32768)) (\<lambda>_.
      bindE (assertE (h < 32768)) (\<lambda>_.
      bindE (image_u8_create_alignment w h s) (\<lambda>threshim.
      bindE (assertE (im_stride threshim = s)) (\<lambda>_.
      let tw = w div tilesz; th = h div tilesz;
          zeros = replicate (nat (tw * th)) 0 in
      bindE (foldE (do_minmax_task im) (sched 0 [0..th - 1]) (zeros, zeros)) (\<lambda>a.
      bindE (foldE (do_blur_task im a) (sched 1 [0..th - 1]) (zeros, zeros)) (\<lambda>a.
      bindE (foldE (do_threshold_task im min_white_black_diff a) (sched 2 [0..th - 1]) (im_buf threshim)) (\<lambda>out.
      bindE (threshold_rest im a out) (\<lambda>out.
      bindE (if deglitching then deglitch im out else Inr out) (\<lambda>out.
      Inr (threshim\<lparr>im_buf := out\<rparr>)))))))))))"

subsection \<open>Loops that write each cell at most once\<close>

text \<open>The cells \<open>J\<close> of an array set to the values \<open>V\<close>.\<close>

definition wrote :: "(nat \<Rightarrow> 'a) \<Rightarrow> nat set \<Rightarrow> 'a list \<Rightarrow> 'a list" where
  "wrote V J a = map (\<lambda>j. if j \<in> J then V j else a ! j) [0..<length a]"

lemma length_wrote [simp]: "length (wrote V J a) = length a"
  by (simp add: wrote_def)

lemma nth_wrote [simp]: "j < length a \<Longrightarrow> wrote V J a ! j = (if j \<in> J then V j else a ! j)"
  by (simp add: wrote_def)

lemma wrote_empty [simp]: "wrote V {} a = a"
  by (rule nth_equalityI) simp_all

lemma wrote_wrote: "wrote V J (wrote V K a) = wrote V (K \<union> J) a"
  by (rule nth_equalityI) auto

lemma wrote_one: "j < length a \<Longrightarrow> a[j := V j] = wrote V {j} a"
  by (rule nth_equalityI) (auto simp: nth_list_update)

lemma foldE_wrote:
  assumes "length a = n" "\<And>x a. x \<in> set xs \<Longrightarrow> length a = n \<Longrightarrow> f a x = Inr (wrote V (I x) a)"
  shows "foldE f xs a = Inr (wrote V (\<Union>x \<in> set xs. I x) a)"
  using assms by (induction xs arbitrary: a) (simp_all add: wrote_wrote)

definition wrote2 :: "(nat \<Rightarrow> 'a \<times> 'b) \<Rightarrow> nat set \<Rightarrow> 'a list \<times> 'b list \<Rightarrow> 'a list \<times> 'b list" where
  "wrote2 V J = (\<lambda>(a, b). (wrote (fst \<circ> V) J a, wrote (snd \<circ> V) J b))"

lemma foldE_wrote2:
  assumes "length (fst a) = n" "length (snd a) = n"
    "\<And>x a. x \<in> set xs \<Longrightarrow> length (fst a) = n \<Longrightarrow> length (snd a) = n \<Longrightarrow> f a x = Inr (wrote2 V (I x) a)"
  shows "foldE f xs a = Inr (wrote2 V (\<Union>x \<in> set xs. I x) a)"
  using assms
proof (induction xs arbitrary: a)
  case (Cons x xs)
  have l: "length (fst (wrote2 V (I x) a)) = n" "length (snd (wrote2 V (I x) a)) = n"
    using Cons.prems(1,2) by (cases a; simp add: wrote2_def)+
  have "wrote2 V (\<Union>y \<in> set xs. I y) (wrote2 V (I x) a) = wrote2 V (I x \<union> (\<Union>y \<in> set xs. I y)) a"
    by (simp add: wrote2_def wrote_wrote split: prod.split)
  moreover have "f a x = Inr (wrote2 V (I x) a)" using Cons.prems(1,2) by (intro Cons.prems(3)) simp_all
  moreover have "foldE f xs (wrote2 V (I x) a) = Inr (wrote2 V (\<Union>y \<in> set xs. I y) (wrote2 V (I x) a))"
    by (rule Cons.IH [OF l]) (rule Cons.prems(3), simp_all)
  ultimately show ?case by simp
qed (simp add: wrote2_def split: prod.split)

subsection \<open>Extremes of sets of colours\<close>

definition hi :: "u8 set \<Rightarrow> u8" where
  "hi S = Max (insert 0 S)"

definition lo :: "u8 set \<Rightarrow> u8" where
  "lo S = Min (insert 255 S)"

lemma u8_le: "(v::u8) \<le> 255"
proof -
  have "unat v < 2 ^ LENGTH(8)" by (rule unsigned_less)
  then show ?thesis by (simp add: word_le_nat_alt)
qed

lemma hi_lo_simps [simp]: "hi {} = 0" "lo {} = 255" "hi {v} = v" "lo {v} = v"
  using u8_le [of v] by (simp_all add: hi_def lo_def max_def min_def)

lemma hi_lo_Un:
  assumes "finite A" "finite B"
  shows "hi (A \<union> B) = max (hi A) (hi B)" "lo (A \<union> B) = min (lo A) (lo B)"
proof -
  have "insert 0 (A \<union> B) = insert 0 A \<union> insert 0 B" "insert 255 (A \<union> B) = insert 255 A \<union> insert 255 B" by auto
  then show "hi (A \<union> B) = max (hi A) (hi B)" "lo (A \<union> B) = min (lo A) (lo B)"
    using assms by (simp_all only: hi_def lo_def Max_Un Min_Un finite_insert insert_not_empty not_False_eq_True)
qed

lemma hi_lo_mem: "finite S \<Longrightarrow> v \<in> S \<Longrightarrow> v \<le> hi S \<and> lo S \<le> v"
  by (simp add: hi_def lo_def)

text \<open>The extremes so far, widened by those of a set.\<close>

definition widenS :: "u8 \<times> u8 \<Rightarrow> u8 set \<Rightarrow> u8 \<times> u8" where
  "widenS m S = widen m (hi S) (lo S)"

lemma widen_eq: "widen (a, b) h l = (max a h, min b l)"
  by (auto simp: widen_def max_def min_def)

lemma widenS_simps [simp]: "widenS m {} = m" "widen m v v = widenS m {v}"
  using u8_le by (cases m; simp add: widenS_def widen_eq max_def min_def)+

lemma widenS_widenS: "finite A \<Longrightarrow> finite B \<Longrightarrow> widenS (widenS m A) B = widenS m (A \<union> B)"
  by (cases m) (simp add: widenS_def widen_eq hi_lo_Un max.assoc min.assoc)

lemma foldE_widen:
  assumes "\<And>x m. x \<in> set xs \<Longrightarrow> f m x = Inr (widenS m (S x))" "\<And>x. x \<in> set xs \<Longrightarrow> finite (S x)"
  shows "foldE f xs m = Inr (widenS m (\<Union>x \<in> set xs. S x))"
  using assms by (induction xs arbitrary: m) (simp_all add: widenS_widenS)

definition extremes :: "u8 set \<Rightarrow> u8 \<times> u8" where
  "extremes S = (hi S, lo S)"

lemma widenS_start: "widenS (0, 255) S = extremes S"
  using u8_le [of "lo S"] by (simp add: widenS_def widen_eq extremes_def max_def min_def)

subsection \<open>The specification\<close>

text \<open>The colours of a full tile and of the tiles around it.\<close>

definition tile_px :: "image_u8 \<Rightarrow> nat \<Rightarrow> nat \<Rightarrow> u8 set" where
  "tile_px im tx ty = (\<Union>dy \<in> {..<4}. \<Union>dx \<in> {..<4}. {col im (4 * tx + dx) (4 * ty + dy)})"

definition window :: "image_u8 \<Rightarrow> nat \<Rightarrow> nat \<Rightarrow> nat \<Rightarrow> nat \<Rightarrow> u8 set" where
  "window im tw th tx ty =
     (\<Union>ty' \<in> {t \<in> {..<th}. t \<le> ty + 1 \<and> ty \<le> t + 1}. \<Union>tx' \<in> {t \<in> {..<tw}. t \<le> tx + 1 \<and> tx \<le> t + 1}. tile_px im tx' ty')"

definition thr_spec :: "int \<Rightarrow> image_u8 \<Rightarrow> nat \<Rightarrow> nat \<Rightarrow> nat \<Rightarrow> nat \<Rightarrow> u8" where
  "thr_spec diff im w h x y =
     (let tw = w div 4; th = h div 4;
          S = window im tw th (min (x div 4) (tw - 1)) (min (y div 4) (th - 1));
          mx = int (unat (hi S)); mn = int (unat (lo S)) in
      if x < 4 * tw \<and> y < 4 * th \<and> mx - mn < diff then 127
      else if int (unat (col im x y)) > mn + (mx - mn) div 2 then 255 else 0)"

lemma tile_px_finite [simp]: "finite (tile_px im tx ty)"
  by (simp add: tile_px_def)

lemma window_finite [simp]: "finite (window im tw th tx ty)"
  by (simp add: window_def)

text \<open>An image as \<open>threshold\<close> takes it.\<close>

definition thr_ok :: "image_u8 \<Rightarrow> nat \<Rightarrow> nat \<Rightarrow> bool" where
  "thr_ok im w h \<longleftrightarrow> im_ok im w h \<and> im_width im = int w \<and> im_height im = int h \<and> 4 \<le> w \<and> 4 \<le> h \<and> w < 32768 \<and> h < 32768"

subsection \<open>The passes\<close>

lemma upto_nat: "[0..int n - 1] = map int [0..<n]"
  using map_int_upt [of 0 n] by simp

lemma tile_upto: "[0..tilesz - 1] = map int [0..<4]"
  using upto_nat [of 4] by (simp add: tilesz_def)

lemma minmax_tile_ok:
  assumes ok: "im_ok im w h" and t: "4 * tx + 3 < w" "4 * ty + 3 < h"
  shows "minmax_tile im (int ty) (int tx) = Inr (extremes (tile_px im tx ty))"
proof -
  have g: "vget (im_buf im) ((int ty * tilesz + int dy) * im_stride im + int tx * tilesz + int dx) = Inr (col im (4 * tx + dx) (4 * ty + dy))"
    if "dx < 4" "dy < 4" for dx dy
  proof -
    have "(int ty * tilesz + int dy) * im_stride im + int tx * tilesz + int dx = int (4 * ty + dy) * im_stride im + int (4 * tx + dx)"
      by (simp add: tilesz_def algebra_simps)
    moreover have "4 * tx + dx < w" "4 * ty + dy < h" using t that by linarith+
    ultimately show ?thesis using im_get [OF ok] by (simp only:)
  qed
  have row: "foldE (\<lambda>m dx. bindE (vget (im_buf im) ((int ty * tilesz + int dy) * im_stride im + int tx * tilesz + int dx)) (\<lambda>v. Inr (widen m v v))) [0..<4] m =
      Inr (widenS m (\<Union>dx \<in> set [0..<4]. {col im (4 * tx + dx) (4 * ty + dy)}))" if "dy < 4" for dy m
    by (rule foldE_widen) (simp_all add: g that)
  have "minmax_tile im (int ty) (int tx) = Inr (widenS (0, 255) (\<Union>dy \<in> set [0..<4]. \<Union>dx \<in> set [0..<4]. {col im (4 * tx + dx) (4 * ty + dy)}))"
    unfolding minmax_tile_def tile_upto foldE_map by (rule foldE_widen) (simp_all only: row set_upt atLeastLessThan_iff, simp)
  then show ?thesis by (simp add: widenS_start tile_px_def atLeast0LessThan)
qed

text \<open>What a pass over the tiles leaves in the two arrays.\<close>

definition tiles :: "(nat \<Rightarrow> nat \<Rightarrow> 'a) \<Rightarrow> nat \<Rightarrow> nat \<Rightarrow> 'a" where
  "tiles M tw j = M (j mod tw) (j div tw)"

lemma tile_index: "(tx::nat) < tw \<Longrightarrow> ty < th \<Longrightarrow> ty * tw + tx < tw * th"
proof -
  assume "tx < tw" "ty < th"
  then have "ty * tw + tx < Suc ty * tw" "Suc ty * tw \<le> th * tw" by (simp, intro mult_le_mono1) simp
  then show ?thesis by (simp add: mult.commute)
qed

lemma put2_ok:
  assumes "tx < tw" "ty < th" "length (fst a) = tw * th" "length (snd a) = tw * th"
  shows "put2 a (int ty * int tw + int tx) (M tx ty) = Inr (wrote2 (tiles M tw) {ty * tw + tx} a)"
proof -
  have i: "int ty * int tw + int tx = int (ty * tw + tx)" by simp
  have "tiles M tw (ty * tw + tx) = M tx ty" using assms(1) by (simp add: tiles_def)
  moreover obtain p q where a: "a = (p, q)" by (cases a)
  have "ty * tw + tx < length p" "ty * tw + tx < length q" using tile_index [OF assms(1,2)] assms(3,4) a by simp_all
  note vset_ok [OF this(1)] vset_ok [OF this(2)] wrote_one [OF this(1), of "fst \<circ> tiles M tw"] wrote_one [OF this(2), of "snd \<circ> tiles M tw"]
  ultimately show ?thesis
    unfolding put2_def i a by (cases "M tx ty") (simp add: wrote2_def)
qed

lemma tiles_pass:
  assumes t: "\<And>tx ty a. tx < tw \<Longrightarrow> ty < th \<Longrightarrow> tile (int ty) (int tx) = Inr (M tx ty)"
    and a: "length (fst a) = tw * th" "length (snd a) = tw * th" and rows: "mset rows = mset (map int [0..<th])"
  shows "foldE (\<lambda>a ty. foldE (\<lambda>a tx. bindE (tile ty tx) (\<lambda>m. put2 a (ty * int tw + tx) m)) [0..int tw - 1] a) rows a =
    Inr (map (fst \<circ> tiles M tw) [0..<tw * th], map (snd \<circ> tiles M tw) [0..<tw * th])"
proof -
  have row: "foldE (\<lambda>a tx. bindE (tile ty tx) (\<lambda>m. put2 a (ty * int tw + tx) m)) [0..int tw - 1] a =
      Inr (wrote2 (tiles M tw) (\<Union>tx \<in> set [0..<tw]. {nat ty * tw + tx}) a)"
    if ty: "ty \<in> set rows" and l: "length (fst a) = tw * th" "length (snd a) = tw * th" for ty a
  proof -
    obtain y where y: "ty = int y" "y < th" using ty mset_eq_setD [OF rows] by auto
    show ?thesis
      unfolding upto_nat foldE_map
      by (rule foldE_wrote2 [OF l]) (use t y put2_ok in \<open>simp_all\<close>)
  qed
  have "foldE (\<lambda>a ty. foldE (\<lambda>a tx. bindE (tile ty tx) (\<lambda>m. put2 a (ty * int tw + tx) m)) [0..int tw - 1] a) rows a =
      Inr (wrote2 (tiles M tw) (\<Union>ty \<in> set rows. \<Union>tx \<in> set [0..<tw]. {nat ty * tw + tx}) a)"
    by (rule foldE_wrote2 [OF a row])
  moreover have "j \<in> (\<Union>ty \<in> set rows. \<Union>tx \<in> set [0..<tw]. {nat ty * tw + tx})" if "j < tw * th" for j
  proof -
    have "0 < tw" using that by (cases tw) auto
    then have "j mod tw < tw" "j div tw < th" using that by (simp_all add: less_mult_imp_div_less mult.commute)
    moreover have "j = j div tw * tw + j mod tw" by simp
    moreover have "int (j div tw) \<in> set rows" using mset_eq_setD [OF rows] calculation(2) by auto
    ultimately show ?thesis by force
  qed
  then have "wrote2 (tiles M tw) (\<Union>ty \<in> set rows. \<Union>tx \<in> set [0..<tw]. {nat ty * tw + tx}) a =
      (map (fst \<circ> tiles M tw) [0..<tw * th], map (snd \<circ> tiles M tw) [0..<tw * th])"
    using a by (cases a) (auto simp: wrote2_def intro!: nth_equalityI)
  ultimately show ?thesis by simp
qed

lemma tiles_get:
  assumes "tx < tw" "ty < th"
  shows "vget (map (F \<circ> tiles M tw) [0..<tw * th]) (int ty * int tw + int tx) = Inr (F (M tx ty))"
proof -
  have i: "int ty * int tw + int tx = int (ty * tw + tx)" by simp
  have "tiles M tw (ty * tw + tx) = M tx ty" using assms(1) by (simp add: tiles_def)
  moreover have "ty * tw + tx < length (map (F \<circ> tiles M tw) [0..<tw * th])" using tile_index [OF assms] by simp
  note vget_ok [OF this]
  ultimately show ?thesis unfolding i using tile_index [OF assms] by simp
qed

definition tile_extremes :: "image_u8 \<Rightarrow> nat \<Rightarrow> nat \<Rightarrow> u8 \<times> u8" where
  "tile_extremes im tx ty = extremes (tile_px im tx ty)"

lemma blur_tile_ok:
  assumes t: "tx < tw" "ty < th"
  shows "blur_tile (map (fst \<circ> tiles (tile_extremes im) tw) [0..<tw * th], map (snd \<circ> tiles (tile_extremes im) tw) [0..<tw * th])
      (int tw) (int th) (int ty) (int tx) = Inr (extremes (window im tw th tx ty))"
proof -
  let ?mx = "map (fst \<circ> tiles (tile_extremes im) tw) [0..<tw * th]" and ?mn = "map (snd \<circ> tiles (tile_extremes im) tw) [0..<tw * th]"
  let ?S = "\<lambda>dy dx. if int ty + dy < 0 \<or> int ty + dy \<ge> int th \<or> int tx + dx < 0 \<or> int tx + dx \<ge> int tw then {}
      else tile_px im (nat (int tx + dx)) (nat (int ty + dy))"
  have px: "bindE (vget ?mx ((int ty + dy) * int tw + int tx + dx)) (\<lambda>hi. bindE (vget ?mn ((int ty + dy) * int tw + int tx + dx)) (\<lambda>lo. Inr (widen m hi lo))) =
      Inr (widenS m (tile_px im (nat (int tx + dx)) (nat (int ty + dy))))"
    if d: "0 \<le> int ty + dy" "int ty + dy < int th" "0 \<le> int tx + dx" "int tx + dx < int tw" for dx dy m
  proof -
    have i: "(int ty + dy) * int tw + int tx + dx = int (nat (int ty + dy)) * int tw + int (nat (int tx + dx))" using d by simp
    have b: "nat (int tx + dx) < tw" "nat (int ty + dy) < th" using d by linarith+
    show ?thesis unfolding i tiles_get [OF b] by (simp add: tile_extremes_def extremes_def widenS_def)
  qed
  have row: "foldE (\<lambda>m dx. if int tx + dx < 0 \<or> int tx + dx \<ge> int tw then Inr m
        else bindE (vget ?mx ((int ty + dy) * int tw + int tx + dx)) (\<lambda>hi. bindE (vget ?mn ((int ty + dy) * int tw + int tx + dx)) (\<lambda>lo. Inr (widen m hi lo)))) [- 1..1] m =
      Inr (widenS m (\<Union>dx \<in> set [- 1..1]. ?S dy dx))" if d: "0 \<le> int ty + dy" "int ty + dy < int th" for dy m
  proof (rule foldE_widen)
    fix dx m
    show "(if int tx + dx < 0 \<or> int tx + dx \<ge> int tw then Inr m
        else bindE (vget ?mx ((int ty + dy) * int tw + int tx + dx)) (\<lambda>hi. bindE (vget ?mn ((int ty + dy) * int tw + int tx + dx)) (\<lambda>lo. Inr (widen m hi lo)))) =
      Inr (widenS m (?S dy dx))"
    proof (cases "int tx + dx < 0 \<or> int tx + dx \<ge> int tw")
      case False
      then show ?thesis using px [OF d, of dx m] d by simp
    qed simp
  qed simp
  have "blur_tile (?mx, ?mn) (int tw) (int th) (int ty) (int tx) = Inr (widenS (0, 255) (\<Union>dy \<in> set [- 1..1]. \<Union>dx \<in> set [- 1..1]. ?S dy dx))"
    unfolding blur_tile_def prod.case
  proof (rule foldE_widen)
    fix dy m
    show "(if int ty + dy < 0 \<or> int ty + dy \<ge> int th then Inr m
        else foldE (\<lambda>m dx. if int tx + dx < 0 \<or> int tx + dx \<ge> int tw then Inr m
          else bindE (vget ?mx ((int ty + dy) * int tw + int tx + dx)) (\<lambda>hi. bindE (vget ?mn ((int ty + dy) * int tw + int tx + dx)) (\<lambda>lo. Inr (widen m hi lo)))) [- 1..1] m) =
      Inr (widenS m (\<Union>dx \<in> set [- 1..1]. ?S dy dx))"
    proof (cases "int ty + dy < 0 \<or> int ty + dy \<ge> int th")
      case False
      then have "0 \<le> int ty + dy" "int ty + dy < int th" by linarith+
      then show ?thesis using row [of dy m] False by (simp only: if_False)
    next
      case True
      then have "(\<Union>dx \<in> set [- 1..1]. ?S dy dx) = {}" by auto
      then show ?thesis using True by (simp only: if_True widenS_simps)
    qed
  qed simp
  moreover have "(\<Union>dy \<in> set [- 1..1]. \<Union>dx \<in> set [- 1..1]. ?S dy dx) = window im tw th tx ty"
  proof (rule equalityI; rule subsetI)
    fix v assume "v \<in> (\<Union>dy \<in> set [- 1..1]. \<Union>dx \<in> set [- 1..1]. ?S dy dx)"
    then obtain dy dx where d: "dy \<in> {- 1..1}" "dx \<in> {- 1..1}" "v \<in> ?S dy dx" by auto
    then have "0 \<le> int ty + dy" "int ty + dy < int th" "0 \<le> int tx + dx" "int tx + dx < int tw"
      and v: "v \<in> tile_px im (nat (int tx + dx)) (nat (int ty + dy))" by (auto split: if_splits)
    then have "nat (int ty + dy) \<in> {t \<in> {..<th}. t \<le> ty + 1 \<and> ty \<le> t + 1}" "nat (int tx + dx) \<in> {t \<in> {..<tw}. t \<le> tx + 1 \<and> tx \<le> t + 1}"
      using d(1,2) by auto
    then show "v \<in> window im tw th tx ty" using v unfolding window_def by blast
  next
    fix v assume "v \<in> window im tw th tx ty"
    then obtain y x where yx: "y < th" "y \<le> ty + 1" "ty \<le> y + 1" "x < tw" "x \<le> tx + 1" "tx \<le> x + 1" "v \<in> tile_px im x y"
      by (auto simp: window_def)
    define dy dx where "dy = int y - int ty" and "dx = int x - int tx"
    have d: "int ty + dy = int y" "int tx + dx = int x" "dy \<in> set [- 1..1]" "dx \<in> set [- 1..1]" using yx by (auto simp: dy_def dx_def)
    have "v \<in> ?S dy dx" unfolding d(1,2) using yx by simp
    then show "v \<in> (\<Union>dy \<in> set [- 1..1]. \<Union>dx \<in> set [- 1..1]. ?S dy dx)" using d(3,4) by blast
  qed
  ultimately show ?thesis by (simp add: widenS_start)
qed

text \<open>The value of each cell of the result.\<close>

definition thr_cell :: "int \<Rightarrow> image_u8 \<Rightarrow> nat \<Rightarrow> nat \<Rightarrow> nat \<Rightarrow> u8" where
  "thr_cell diff im w h j = thr_spec diff im w h (j mod nat (im_stride im)) (j div nat (im_stride im))"

lemma thr_cell_at:
  assumes "im_ok im w h" "x < w"
  shows "thr_cell diff im w h (y * nat (im_stride im) + x) = thr_spec diff im w h x y"
proof -
  have "x < nat (im_stride im)" using assms unfolding im_ok_def by linarith
  then show ?thesis by (simp add: thr_cell_def)
qed

lemma pixel_write:
  assumes ok: "im_ok im w h" and xy: "x < w" "y < h" and out: "length out = h * nat (im_stride im)"
  shows "vset out (int y * im_stride im + int x) (thr_spec diff im w h x y) = Inr (wrote (thr_cell diff im w h) {y * nat (im_stride im) + x} out)"
proof -
  let ?s = "nat (im_stride im)"
  have s: "int y * im_stride im + int x = int (y * ?s + x)" using ok by (simp add: im_ok_def)
  have "x < ?s" using ok xy(1) unfolding im_ok_def by linarith
  then have "y * ?s + x < Suc y * ?s" "Suc y * ?s \<le> h * ?s" using xy(2) by (simp, intro mult_le_mono1) simp
  then have l: "y * ?s + x < length out" using out by linarith
  show ?thesis
    unfolding s vset_ok [OF l] using wrote_one [OF l, of "thr_cell diff im w h"] thr_cell_at [OF ok xy(1)] by simp
qed

text \<open>The middle of the extremes as a byte.\<close>

lemma thresh_byte:
  fixes mn mx v :: u8
  assumes "mn \<le> mx"
  shows "(v > (of_int (int (unat mn) + (int (unat mx) - int (unat mn)) div 2) :: u8)) \<longleftrightarrow>
    int (unat v) > int (unat mn) + (int (unat mx) - int (unat mn)) div 2"
proof -
  let ?t = "int (unat mn) + (int (unat mx) - int (unat mn)) div 2"
  have "unat mn \<le> unat mx" using assms by (simp add: word_le_nat_alt)
  moreover have "unat mx < 2 ^ LENGTH(8)" by (rule unsigned_less)
  ultimately obtain a b where ab: "unat mn = a" "unat mx = b" "a \<le> b" "b < 256" by simp
  define t where "t = ?t"
  have t: "0 \<le> t" "t < 256" using ab(3,4) unfolding t_def ab(1,2) by linarith+
  then have "unat (of_int t :: u8) = nat t"
    by (simp add: unat_eq_nat_uint uint_word_of_int_eq take_bit_int_eq_self)
  then have "(v > (of_int t :: u8)) \<longleftrightarrow> nat t < unat v" by (simp only: word_less_nat_alt)
  also have "\<dots> \<longleftrightarrow> t < int (unat v)" using t(1) by linarith
  finally show ?thesis unfolding t_def .
qed

lemma window_nonempty:
  assumes "tx < tw" "ty < th"
  shows "lo (window im tw th tx ty) \<le> hi (window im tw th tx ty)"
proof -
  have "col im (4 * tx + 0) (4 * ty + 0) \<in> tile_px im tx ty"
    unfolding tile_px_def by (rule UN_I [of 0], simp, rule UN_I [of 0]) simp_all
  then have "col im (4 * tx + 0) (4 * ty + 0) \<in> window im tw th tx ty"
    unfolding window_def using assms by (intro UN_I [of ty] UN_I [of tx]) simp_all
  from hi_lo_mem [OF window_finite this] show ?thesis by (meson order_trans)
qed

definition window_extremes :: "image_u8 \<Rightarrow> nat \<Rightarrow> nat \<Rightarrow> nat \<Rightarrow> nat \<Rightarrow> u8 \<times> u8" where
  "window_extremes im tw th tx ty = extremes (window im tw th tx ty)"

lemma threshold_tile_ok:
  assumes ok: "im_ok im w h" and t: "tx < w div 4" "ty < h div 4" and out: "length out = h * nat (im_stride im)"
    and m: "mx = hi (window im (w div 4) (h div 4) tx ty)" "mn = lo (window im (w div 4) (h div 4) tx ty)"
  shows "(if int (unat mx) - int (unat mn) < diff
       then foldE (\<lambda>out dy. foldE (\<lambda>out dx.
           vset out ((int ty * tilesz + dy) * im_stride im + (int tx * tilesz + dx)) 127) [0..tilesz - 1] out) [0..tilesz - 1] out
       else
         let thresh = of_int (int (unat mn) + (int (unat mx) - int (unat mn)) div 2) :: u8 in
         foldE (\<lambda>out dy. foldE (\<lambda>out dx.
           bindE (vget (im_buf im) ((int ty * tilesz + dy) * im_stride im + (int tx * tilesz + dx))) (\<lambda>v.
           vset out ((int ty * tilesz + dy) * im_stride im + (int tx * tilesz + dx)) (if v > thresh then 255 else 0))) [0..tilesz - 1] out) [0..tilesz - 1] out) =
    Inr (wrote (thr_cell diff im w h) (\<Union>dy \<in> set [0..<4]. \<Union>dx \<in> set [0..<4]. {(4 * ty + dy) * nat (im_stride im) + (4 * tx + dx)}) out)"
    (is "(if ?low then ?A else ?B) = Inr (wrote ?V ?J out)")
proof -
  let ?s = "nat (im_stride im)"
  have b: "4 * tx + dx < w" "4 * ty + dy < h" if "dx < 4" "dy < 4" for dx dy using t that by linarith+
  have i: "(int ty * tilesz + int dy) * im_stride im + (int tx * tilesz + int dx) = int (4 * ty + dy) * im_stride im + int (4 * tx + dx)" for dx dy
    by (simp add: tilesz_def)
  have spec: "thr_spec diff im w h (4 * tx + dx) (4 * ty + dy) =
      (if ?low then 127 else if int (unat (col im (4 * tx + dx) (4 * ty + dy))) > int (unat mn) + (int (unat mx) - int (unat mn)) div 2 then 255 else 0)"
    if "dx < 4" "dy < 4" for dx dy
  proof -
    have "(4 * tx + dx) div 4 = tx" "(4 * ty + dy) div 4 = ty" "4 * tx + dx < 4 * (w div 4)" "4 * ty + dy < 4 * (h div 4)"
      "min tx (w div 4 - 1) = tx" "min ty (h div 4 - 1) = ty" using that t by linarith+
    then show ?thesis by (simp add: thr_spec_def Let_def m)
  qed
  have two: "foldE (\<lambda>out dy. foldE (\<lambda>out dx. f out dy dx) [0..tilesz - 1] out) [0..tilesz - 1] out = Inr (wrote ?V ?J out)"
    if f: "\<And>out dy dx. dy < 4 \<Longrightarrow> dx < 4 \<Longrightarrow> length out = h * ?s \<Longrightarrow> f out (int dy) (int dx) = Inr (wrote ?V {(4 * ty + dy) * ?s + (4 * tx + dx)} out)" for f
    unfolding tile_upto foldE_map
    by (rule foldE_wrote [OF out], rule foldE_wrote, assumption) (simp add: f)
  show ?thesis
  proof (cases ?low)
    case True
    have "?A = Inr (wrote ?V ?J out)"
    proof (rule two)
      fix out :: bytes and dy dx assume d: "dy < (4::nat)" "dx < (4::nat)" "length out = h * ?s"
      have "thr_spec diff im w h (4 * tx + dx) (4 * ty + dy) = 127" using spec [OF d(2,1)] True by simp
      then show "vset out ((int ty * tilesz + int dy) * im_stride im + (int tx * tilesz + int dx)) 127 = Inr (wrote ?V {(4 * ty + dy) * ?s + (4 * tx + dx)} out)"
        using pixel_write [OF ok b [OF d(2,1)] d(3), of diff] unfolding i by simp
    qed
    then show ?thesis using True by simp
  next
    case False
    have le: "mn \<le> mx" using window_nonempty [OF t] m by simp
    have "?B = Inr (wrote ?V ?J out)"
      unfolding Let_def
    proof (rule two)
      fix out :: bytes and dy dx assume d: "dy < (4::nat)" "dx < (4::nat)" "length out = h * ?s"
      have "vget (im_buf im) (int (4 * ty + dy) * im_stride im + int (4 * tx + dx)) = Inr (col im (4 * tx + dx) (4 * ty + dy))"
        using im_get [OF ok b [OF d(2,1)]] .
      then show "bindE (vget (im_buf im) ((int ty * tilesz + int dy) * im_stride im + (int tx * tilesz + int dx))) (\<lambda>v.
           vset out ((int ty * tilesz + int dy) * im_stride im + (int tx * tilesz + int dx))
             (if v > (of_int (int (unat mn) + (int (unat mx) - int (unat mn)) div 2) :: u8) then 255 else 0)) =
          Inr (wrote ?V {(4 * ty + dy) * ?s + (4 * tx + dx)} out)"
        using pixel_write [OF ok b [OF d(2,1)] d(3), of diff] spec [OF d(2,1)] False unfolding i thresh_byte [OF le] by simp
    qed
    then show ?thesis using False by simp
  qed
qed


text \<open>The tiles of a row, the rows, and the pixels beyond them.\<close>

definition window_arrays :: "image_u8 \<Rightarrow> nat \<Rightarrow> nat \<Rightarrow> bytes \<times> bytes" where
  "window_arrays im tw th =
     (map (fst \<circ> tiles (window_extremes im tw th) tw) [0..<tw * th], map (snd \<circ> tiles (window_extremes im tw th) tw) [0..<tw * th])"

lemma div_tilesz: "int n div tilesz = int (n div 4)"
  by (simp add: tilesz_def)

definition row_cells :: "image_u8 \<Rightarrow> nat \<Rightarrow> nat \<Rightarrow> nat set" where
  "row_cells im w ty = (\<Union>tx \<in> set [0..<w div 4]. \<Union>dy \<in> set [0..<4]. \<Union>dx \<in> set [0..<4]. {(4 * ty + dy) * nat (im_stride im) + (4 * tx + dx)})"

lemma threshold_row_ok:
  assumes ok: "thr_ok im w h" and ty: "ty < h div 4" and out: "length out = h * nat (im_stride im)"
  shows "do_threshold_task im diff (window_arrays im (w div 4) (h div 4)) out (int ty) = Inr (wrote (thr_cell diff im w h) (row_cells im w ty) out)"
proof -
  have i: "im_ok im w h" and w: "im_width im div tilesz = int (w div 4)" using ok by (simp_all add: thr_ok_def div_tilesz)
  show ?thesis
    unfolding do_threshold_task_def window_arrays_def prod.case w Let_def upto_nat foldE_map row_cells_def
  proof (rule foldE_wrote [OF out], goal_cases)
    case (1 tx a)
    then have tx: "tx < w div 4" by simp
    show ?case
      unfolding tiles_get [OF tx ty] bindE.simps
      using threshold_tile_ok [OF i tx ty 1(2) refl refl, of diff] unfolding Let_def window_extremes_def extremes_def fst_conv snd_conv .
  qed
qed

definition rest_cells :: "image_u8 \<Rightarrow> nat \<Rightarrow> nat \<Rightarrow> nat set" where
  "rest_cells im w h = (\<Union>y \<in> set [0..<h]. \<Union>x \<in> set [if 4 * (h div 4) \<le> y then 0 else 4 * (w div 4)..<w]. {y * nat (im_stride im) + x})"

lemma threshold_rest_ok:
  assumes ok: "thr_ok im w h" and out: "length out = h * nat (im_stride im)"
  shows "threshold_rest im (window_arrays im (w div 4) (h div 4)) out = Inr (wrote (thr_cell diff im w h) (rest_cells im w h) out)"
proof -
  let ?tw = "w div 4" and ?th = "h div 4"
  have i: "im_ok im w h" and w: "im_width im = int w" "im_height im = int h"
    using ok by (simp_all add: thr_ok_def)
  have pos: "1 \<le> ?tw" "1 \<le> ?th" using ok unfolding thr_ok_def by linarith+
  have x0: "(if int y \<ge> int ?th * tilesz then 0 else int ?tw * tilesz) = int (if 4 * ?th \<le> y then 0 else 4 * ?tw)" for y
    by (simp add: tilesz_def)
  have up: "[int a..int b - 1] = map int [a..<b]" for a b using map_int_upt [of a b] by simp
  have cl: "(if int z \<ge> int n then int n - 1 else int z) = int (min z (n - 1))" if "1 \<le> n" for z n :: nat
    using that by auto
  have cell: "bindE (vget (map (fst \<circ> tiles (window_extremes im ?tw ?th) ?tw) [0..<?tw * ?th]) (int (min (y div 4) (?th - 1)) * int ?tw + int (min (x div 4) (?tw - 1)))) (\<lambda>mx.
      bindE (vget (map (snd \<circ> tiles (window_extremes im ?tw ?th) ?tw) [0..<?tw * ?th]) (int (min (y div 4) (?th - 1)) * int ?tw + int (min (x div 4) (?tw - 1)))) (\<lambda>mn.
      bindE (vget (im_buf im) (int y * im_stride im + int x)) (\<lambda>v.
      vset out (int y * im_stride im + int x) (if int (unat v) > int (unat mn) + (int (unat mx) - int (unat mn)) div 2 then 255 else 0)))) =
    Inr (wrote (thr_cell diff im w h) {y * nat (im_stride im) + x} out)"
    if "y < h" "x < w" "(if 4 * ?th \<le> y then 0 else 4 * ?tw) \<le> x" "length out = h * nat (im_stride im)" for x y out
  proof -
    have b: "min (x div 4) (?tw - 1) < ?tw" "min (y div 4) (?th - 1) < ?th" using pos by linarith+
    have "\<not> (x < 4 * ?tw \<and> y < 4 * ?th)" using that(3) by (auto split: if_splits)
    then have "thr_spec diff im w h x y = (let S = window im ?tw ?th (min (x div 4) (?tw - 1)) (min (y div 4) (?th - 1)) in
        if int (unat (col im x y)) > int (unat (lo S)) + (int (unat (hi S)) - int (unat (lo S))) div 2 then 255 else 0)"
      unfolding thr_spec_def Let_def by (intro if_not_P) blast
    then show ?thesis
      using pixel_write [OF i that(2,1,4), of diff]
      unfolding tiles_get [OF b] im_get [OF i that(2,1)] bindE.simps window_extremes_def extremes_def fst_conv snd_conv Let_def by simp
  qed
  show ?thesis
    unfolding threshold_rest_def window_arrays_def prod.case w div_tilesz Let_def upto_nat foldE_map x0 up rest_cells_def cl [OF pos(1)] cl [OF pos(2)]
  proof (rule foldE_wrote [OF out], goal_cases)
    case (1 y a)
    show ?case
      by (rule foldE_wrote [OF 1(2)], rule cell) (use 1 in auto)
  qed
qed


lemma cells_cover:
  assumes "x < w" "y < h"
  shows "y * nat (im_stride im) + x \<in> (\<Union>ty \<in> set [0..<h div 4]. row_cells im w ty) \<union> rest_cells im w h"
proof (cases "x < 4 * (w div 4) \<and> y < 4 * (h div 4)")
  case True
  have "y = 4 * (y div 4) + y mod 4" "x = 4 * (x div 4) + x mod 4" by simp_all
  then have "y * nat (im_stride im) + x \<in> row_cells im w (y div 4)"
    unfolding row_cells_def using True
    by (intro UN_I [of "x div 4"] UN_I [of "y mod 4"] UN_I [of "x mod 4"]) (auto simp: div_less_iff_less_mult)
  then show ?thesis using True by (auto intro!: bexI [of _ "y div 4"])
next
  case False
  then show ?thesis unfolding rest_cells_def using assms by (intro UnI2 UN_I [of y] UN_I [of x]) (auto split: if_splits)
qed

lemma create_alignment_ok:
  assumes "0 < w" "w \<le> s"
  shows "image_u8_create_alignment w h s = Inr (image_u8_create_stride w h s)"
proof (cases "w = s")
  case False
  then have "w mod s = w" using assms by (intro mod_pos_pos_trivial) linarith+
  then show ?thesis using assms by (simp add: image_u8_create_alignment_def Let_def)
qed (use assms in \<open>simp add: image_u8_create_alignment_def Let_def\<close>)

lemma threshold_result:
  assumes ok: "thr_ok im w h" and s: "\<And>k rows. mset (sched k rows) = mset rows"
  shows "threshold sched False diff im = Inr ((image_u8_create_stride (int w) (int h) (im_stride im))
    \<lparr>im_buf := wrote (thr_cell diff im w h) ((\<Union>ty \<in> set [0..<h div 4]. row_cells im w ty) \<union> rest_cells im w h)
      (replicate (nat (int h * im_stride im)) 0)\<rparr>)"
proof -
  let ?tw = "w div 4" and ?th = "h div 4"
  let ?z = "replicate (nat (int ?tw * int ?th)) 0 :: bytes" and ?o = "replicate (nat (int h * im_stride im)) 0 :: bytes"
  let ?ex = "(map (fst \<circ> tiles (tile_extremes im) ?tw) [0..<?tw * ?th], map (snd \<circ> tiles (tile_extremes im) ?tw) [0..<?tw * ?th])"
  have i: "im_ok im w h" and w: "im_width im = int w" "im_height im = int h" and l: "int w < 32768" "int h < 32768"
    using ok by (simp_all add: thr_ok_def)
  have st: "0 < int w" "int w \<le> im_stride im" using i by (simp_all add: im_ok_def)
  have z: "length (fst (?z, ?z)) = ?tw * ?th" "length (snd (?z, ?z)) = ?tw * ?th" by (simp_all add: nat_mult_distrib)
  have o': "length ?o = h * nat (im_stride im)" by (simp add: nat_mult_distrib)
  have rows: "mset (sched k (map int [0..<?th])) = mset (map int [0..<?th])" for k by (rule s)
  have p0: "foldE (do_minmax_task im) (sched 0 (map int [0..<?th])) (?z, ?z) = Inr ?ex"
    unfolding do_minmax_task_def w Let_def div_tilesz
  proof (rule tiles_pass [OF _ z rows])
    fix tx ty assume t: "tx < ?tw" "ty < ?th"
    then have "4 * tx + 3 < w" "4 * ty + 3 < h" by linarith+
    from minmax_tile_ok [OF i this] show "minmax_tile im (int ty) (int tx) = Inr (tile_extremes im tx ty)" unfolding tile_extremes_def .
  qed
  have p1: "foldE (do_blur_task im ?ex) (sched 1 (map int [0..<?th])) (?z, ?z) = Inr (window_arrays im ?tw ?th)"
    unfolding do_blur_task_def w Let_def div_tilesz window_arrays_def
  proof (rule tiles_pass [OF _ z rows])
    fix tx ty assume t: "tx < ?tw" "ty < ?th"
    from blur_tile_ok [OF t] show "blur_tile ?ex (int ?tw) (int ?th) (int ty) (int tx) = Inr (window_extremes im ?tw ?th tx ty)" unfolding window_extremes_def .
  qed
  have "foldE (do_threshold_task im diff (window_arrays im ?tw ?th)) (sched 2 (map int [0..<?th])) ?o =
      Inr (wrote (thr_cell diff im w h) (\<Union>ty \<in> set (sched 2 (map int [0..<?th])). row_cells im w (nat ty)) ?o)"
  proof (rule foldE_wrote [OF o'])
    fix ty and out :: bytes assume t: "ty \<in> set (sched 2 (map int [0..<?th]))" "length out = h * nat (im_stride im)"
    then obtain y where "ty = int y" "y < ?th" using mset_eq_setD [OF rows [of 2]] by auto
    then show "do_threshold_task im diff (window_arrays im ?tw ?th) out ty = Inr (wrote (thr_cell diff im w h) (row_cells im w (nat ty)) out)"
      using threshold_row_ok [OF ok _ t(2)] by simp
  qed
  moreover have "(\<Union>ty \<in> set (sched 2 (map int [0..<?th])). row_cells im w (nat ty)) = (\<Union>ty \<in> set [0..<?th]. row_cells im w ty)"
    using mset_eq_setD [OF rows [of 2]] by auto
  ultimately have p2: "foldE (do_threshold_task im diff (window_arrays im ?tw ?th)) (sched 2 (map int [0..<?th])) ?o =
      Inr (wrote (thr_cell diff im w h) (\<Union>ty \<in> set [0..<?th]. row_cells im w ty) ?o)" by (simp only:)
  have "threshold_rest im (window_arrays im ?tw ?th) (wrote (thr_cell diff im w h) (\<Union>ty \<in> set [0..<?th]. row_cells im w ty) ?o) =
      Inr (wrote (thr_cell diff im w h) ((\<Union>ty \<in> set [0..<?th]. row_cells im w ty) \<union> rest_cells im w h) ?o)"
    using threshold_rest_ok [OF ok, of "wrote (thr_cell diff im w h) (\<Union>ty \<in> set [0..<?th]. row_cells im w ty) ?o" diff] o' unfolding length_wrote wrote_wrote by simp
  note p3 = this
  have sb: "im_stride (image_u8_create_stride (int w) (int h) (im_stride im)) = im_stride im"
    "im_buf (image_u8_create_stride (int w) (int h) (im_stride im)) = ?o" by (simp_all add: image_u8_create_stride_def)
  have as: "assertE (int w < 32768) = Inr ()" "assertE (int h < 32768) = Inr ()" "assertE (im_stride im = im_stride im) = Inr ()" using l by (simp_all add: assertE_def)
  show ?thesis
    unfolding threshold_def Let_def w as bindE.simps create_alignment_ok [OF st] sb div_tilesz upto_nat p0 p1 p2 p3 if_False ..
qed


text \<open>The thresholded image again fits its bounds, and its colours are those of \<open>thr_spec\<close>.\<close>

lemma threshold_image:
  assumes ok: "thr_ok im w h" and s: "\<And>k rows. mset (sched k rows) = mset rows" and t: "threshold sched False diff im = Inr t"
  shows "im_ok t w h" "im_width t = int w" "im_height t = int h" "im_stride t = im_stride im"
    "x < w \<Longrightarrow> y < h \<Longrightarrow> col t x y = thr_spec diff im w h x y"
proof -
  let ?J = "(\<Union>ty \<in> set [0..<h div 4]. row_cells im w ty) \<union> rest_cells im w h"
  have i: "im_ok im w h" using ok by (simp add: thr_ok_def)
  have t: "t = (image_u8_create_stride (int w) (int h) (im_stride im))
      \<lparr>im_buf := wrote (thr_cell diff im w h) ?J (replicate (nat (int h * im_stride im)) 0)\<rparr>"
    using threshold_result [OF ok, of sched diff] s t by simp
  have l: "length (im_buf t) = h * nat (im_stride im)" unfolding t by (simp add: nat_mult_distrib)
  show m: "im_width t = int w" "im_height t = int h" "im_stride t = im_stride im" unfolding t by (simp_all add: image_u8_create_stride_def)
  show o': "im_ok t w h" using i l unfolding im_ok_def m by simp
  show "col t x y = thr_spec diff im w h x y" if xy: "x < w" "y < h"
  proof -
    have b: "y * nat (im_stride im) + x < length (im_buf t)" using im_index [OF o' xy] unfolding m .
    have "im_buf t = wrote (thr_cell diff im w h) ?J (replicate (nat (int h * im_stride im)) 0)" unfolding t by simp
    then have "im_buf t ! (y * nat (im_stride im) + x) = thr_cell diff im w h (y * nat (im_stride im) + x)"
      using b nth_wrote cells_cover [OF xy, of im] by simp
    then show ?thesis unfolding col_def m thr_cell_at [OF i xy(1)] .
  qed
qed

text \<open>Images smaller than one tile.\<close>

lemma foldE_id: "(\<And>x. x \<in> set xs \<Longrightarrow> f a x = Inr a) \<Longrightarrow> foldE f xs a = Inr a"
  by (induction xs) simp_all

lemma foldE_error: "xs = x # ys \<Longrightarrow> f a x = Inl e \<Longrightarrow> foldE f xs a = Inl e"
  by simp

subsection \<open>Properties\<close>

text \<open>C15: \<open>threshold\<close> returns for every image of at least one tile, in whatever order the pool runs the rows of
  tiles. Every pixel, also one beyond the last full tile, is compared with the middle of the extremes of the three by three
  tiles around its own; pixels of full tiles whose window has too little contrast become 127.\<close>

theorem threshold_correct:
  assumes "thr_ok im w h" "\<And>k rows. mset (sched k rows) = mset rows"
  shows "\<exists>t. threshold sched False diff im = Inr t \<and> im_width t = int w \<and> im_height t = int h \<and> im_stride t = im_stride im \<and>
    im_ok t w h \<and> (\<forall>x y. x < w \<longrightarrow> y < h \<longrightarrow> col t x y = thr_spec diff im w h x y)"
proof -
  obtain t where "threshold sched False diff im = Inr t" using threshold_result [OF assms(1), of sched] assms(2) by blast
  moreover note threshold_image [OF assms this]
  ultimately show ?thesis by blast
qed

text \<open>An image with fewer than four columns or rows has no full tile: the clamped tile index is then -1 and
  \<open>threshold\<close> reads before the array of extremes.\<close>

theorem threshold_small:
  assumes "1 \<le> w" "1 \<le> h" "w < 4 \<or> h < 4" "int w \<le> im_stride im" "im_width im = int w" "im_height im = int h" "w < 32768" "h < 32768"
    and "\<And>k rows. mset (sched k rows) = mset rows"
  shows "threshold sched deglitching diff im = Inl OutOfBounds"
proof -
  let ?tw = "w div 4" and ?th = "h div 4"
  have n: "?tw = 0 \<or> ?th = 0" using assms(3) by linarith
  have none: "foldE f (sched k (map int [0..<?th])) a = Inr a" if "\<And>y. ?tw = 0 \<Longrightarrow> f a y = Inr a" for f k a
  proof (rule foldE_id)
    fix x assume "x \<in> set (sched k (map int [0..<?th]))"
    then have "x \<in> set (map int [0..<?th])" using mset_eq_setD [OF assms(9)] by simp
    then show "f a x = Inr a" using n that by auto
  qed
  have st: "0 < int w" using assms(1) by simp
  have d: "int w div tilesz = int ?tw" "int h div tilesz = int ?th" by (simp_all add: div_tilesz)
  have "[0..int h - 1] = 0 # [1..int h - 1]" "[0..int w - 1] = 0 # [1..int w - 1]"
    using assms(1,2) by (simp_all add: upto_rec1)
  moreover have "(if 0 div tilesz \<ge> int ?th then int ?th - 1 else 0 div tilesz) * int ?tw +
      (if 0 div tilesz \<ge> int ?tw then int ?tw - 1 else 0 div tilesz) < 0"
  proof (cases "?tw = 0")
    case False
    then have "?th = 0" using n by simp
    then show ?thesis using False by (simp add: tilesz_def)
  qed (simp add: tilesz_def)
  moreover have "(if (0::int) \<ge> int ?th * tilesz then 0 else int ?tw * tilesz) = 0"
    using n by (auto simp: tilesz_def)
  ultimately have rest: "threshold_rest im a out = Inl OutOfBounds" for a out
    by (cases a) (simp add: threshold_rest_def assms(5,6) d vget_def)
  have "foldE (do_minmax_task im) (sched 0 (map int [0..<?th])) z = Inr z"
    "foldE (do_blur_task im z) (sched 1 (map int [0..<?th])) z = Inr z"
    "foldE (do_threshold_task im diff z) (sched 2 (map int [0..<?th])) out = Inr out" for z out
    by (rule none; simp add: do_minmax_task_def do_blur_task_def do_threshold_task_def assms(5,6) d split: prod.split)+
  then show ?thesis
    unfolding threshold_def Let_def assms(5,6) create_alignment_ok [OF st assms(4)] d upto_nat
    using assms(7,8) rest by (simp add: image_u8_create_stride_def)
qed

subsection \<open>Witnesses\<close>

text \<open>Five columns and six rows, the lower three white.\<close>

definition stripe_image :: image_u8 where
  "stripe_image = \<lparr>im_width = 5, im_height = 6, im_stride = 5, im_buf = replicate 15 0 @ replicate 15 255\<rparr>"

lemma threshold_correct_witness:
  "\<exists>t. threshold (\<lambda>k rows. rev rows) False 5 stripe_image = Inr t \<and> im_width t = 5 \<and> im_height t = 6 \<and> im_stride t = 5 \<and>
    im_ok t 5 6 \<and> (\<forall>x y. x < 5 \<longrightarrow> y < 6 \<longrightarrow> col t x y = thr_spec 5 stripe_image 5 6 x y)"
proof -
  have "thr_ok stripe_image 5 6" by (simp add: thr_ok_def im_ok_def stripe_image_def)
  from threshold_correct [OF this, of "\<lambda>k rows. rev rows" 5] show ?thesis by (simp add: stripe_image_def)
qed

lemma threshold_small_witness:
  "threshold (\<lambda>k rows. rows) True 5 (stripe_image\<lparr>im_width := 3\<rparr>) = Inl OutOfBounds"
  by (rule threshold_small [of 3 6]) (simp_all add: stripe_image_def)

end
