(* ===== verification/ImageOps.thy ===== *)
theory ImageOps
  imports Complex_Main Threshold
begin

text \<open>
  The operations of \<open>common/image_u8.c\<close> that prepare a frame for the detector, and the first step of
  \<open>apriltag_detector_detect\<close> in \<open>apriltag.c\<close>: the image is made smaller and blurred or sharpened.
\<close>

subsection \<open>The operations\<close>

definition image_u8_copy :: "image_u8 \<Rightarrow> cerr + image_u8" where
  "image_u8_copy im = bindE (mem_read (im_buf im) 0 (im_height im * im_stride im)) (\<lambda>buf. Inr (im\<lparr>im_buf := buf\<rparr>))"

definition image_u8_darken :: "image_u8 \<Rightarrow> cerr + image_u8" where
  "image_u8_darken im =
     bindE (foldE (\<lambda>buf y. foldE (\<lambda>buf x.
       bindE (vget buf (im_stride im * y + x)) (\<lambda>v. vset buf (im_stride im * y + x) (v div 2)))
       [0..im_width im - 1] buf) [0..im_height im - 1] (im_buf im)) (\<lambda>buf. Inr (im\<lparr>im_buf := buf\<rparr>))"

text \<open>The values of \<open>for (x = x0; x < n; x += f)\<close>, for a positive \<open>f\<close>.\<close>

function up_by :: "int \<Rightarrow> int \<Rightarrow> int \<Rightarrow> int list" where
  "up_by f x n = (if 0 < f \<and> x < n then x # up_by f (x + f) n else [])"
  by auto
termination by (relation "measure (\<lambda>(f, x, n). nat (n - x))") auto

declare up_by.simps [simp del]

text \<open>Four neighbours of a block of three by three pixels are one pixel of the result.\<close>

definition mix9 :: "u8 \<Rightarrow> u8 \<Rightarrow> u8 \<Rightarrow> u8 \<Rightarrow> u8" where
  "mix9 a b d e = of_int ((4 * int (unat a) + 2 * int (unat b) + 2 * int (unat d) + int (unat e)) div 9)"

definition decimate_block :: "image_u8 \<Rightarrow> int \<Rightarrow> bytes \<Rightarrow> int \<Rightarrow> int \<Rightarrow> int \<Rightarrow> int \<Rightarrow> cerr + bytes" where
  "decimate_block im s buf sy y sx x =
     (let px = (\<lambda>dy dx. vget (im_buf im) ((y + dy) * im_stride im + (x + dx))) in
      bindE (px 0 0) (\<lambda>a. bindE (px 0 1) (\<lambda>b. bindE (px 0 2) (\<lambda>c.
      bindE (px 1 0) (\<lambda>d. bindE (px 1 1) (\<lambda>e. bindE (px 1 2) (\<lambda>f.
      bindE (px 2 0) (\<lambda>g. bindE (px 2 1) (\<lambda>h. bindE (px 2 2) (\<lambda>i.
      bindE (vset buf ((sy + 0) * s + (sx + 0)) (mix9 a b d e)) (\<lambda>buf.
      bindE (vset buf ((sy + 0) * s + (sx + 1)) (mix9 c b f e)) (\<lambda>buf.
      bindE (vset buf ((sy + 1) * s + (sx + 0)) (mix9 g d h e)) (\<lambda>buf.
      vset buf ((sy + 1) * s + (sx + 1)) (mix9 i f h e))))))))))))))"

definition decimate_3_2 :: "image_u8 \<Rightarrow> cerr + image_u8" where
  "decimate_3_2 im =
     (let swidth = im_width im div 3 * 2; sheight = im_height im div 3 * 2 in
      bindE (image_u8_create swidth sheight) (\<lambda>decim.
      bindE (foldE (\<lambda>buf (j, sy). foldE (\<lambda>buf (i, sx).
          decimate_block im (im_stride decim) buf sy (3 * int j) sx (3 * int i))
        (enumerate 0 (up_by 2 0 swidth)) buf) (enumerate 0 (up_by 2 0 sheight)) (im_buf decim)) (\<lambda>buf.
      Inr (decim\<lparr>im_buf := buf\<rparr>))))"

text \<open>The caller passes a factor above one.\<close>

definition image_u8_decimate :: "image_u8 \<Rightarrow> rat \<Rightarrow> cerr + image_u8" where
  "image_u8_decimate im ffactor =
     (if ffactor = 3 / 2 then decimate_3_2 im
      else
        let width = im_width im; height = im_height im; factor = \<lfloor>ffactor\<rfloor> in
        if factor = 0 then Inl DivByZero
        else
          let swidth = 1 + (width - 1) div factor; sheight = 1 + (height - 1) div factor in
          bindE (image_u8_create swidth sheight) (\<lambda>decim.
          bindE (foldE (\<lambda>buf (sy, y). foldE (\<lambda>buf (sx, x).
              bindE (vget (im_buf im) (y * im_stride im + x)) (\<lambda>v. vset buf (int sy * im_stride decim + int sx) v))
            (enumerate 0 (up_by factor 0 width)) buf) (enumerate 0 (up_by factor 0 height)) (im_buf decim)) (\<lambda>buf.
          Inr (decim\<lparr>im_buf := buf\<rparr>))))"

text \<open>
  \<open>y\<close> points into the buffer of the image or to memory of its own; here it is the buffer and the offset \<open>off\<close>.
\<close>

definition convolve :: "bytes \<Rightarrow> bytes \<Rightarrow> int \<Rightarrow> int \<Rightarrow> bytes \<Rightarrow> cerr + bytes" where
  "convolve x y off sz k =
     (let ksz = int (length k) in
      bindE (assertE (ksz mod 2 = 1)) (\<lambda>_.
      bindE (foldE (\<lambda>y i. bindE (vget x i) (\<lambda>v. vset y (off + i) v)) [0..min (ksz div 2) sz - 1] y) (\<lambda>y.
      bindE (foldE (\<lambda>y i.
          bindE (foldE (\<lambda>acc j. bindE (vget k j) (\<lambda>kj. bindE (vget x (i + j)) (\<lambda>v. Inr (acc + ucast kj * ucast v)))) [0..ksz - 1] (0 :: u32)) (\<lambda>acc.
          vset y (off + (ksz div 2 + i)) (ucast (drop_bit 8 acc)))) [0..sz - ksz - 1] y) (\<lambda>y.
      foldE (\<lambda>y i. bindE (vget x i) (\<lambda>v. vset y (off + i) v)) [sz - ksz + ksz div 2..sz - 1] y))))"

text \<open>\<open>junk\<close> is what \<open>malloc\<close> returns.\<close>

definition image_u8_convolve_2D :: "(nat \<Rightarrow> u8) \<Rightarrow> bytes \<Rightarrow> image_u8 \<Rightarrow> cerr + image_u8" where
  "image_u8_convolve_2D junk k im =
     (let w = im_width im; h = im_height im; s = im_stride im; mem = map junk [0..<nat h] in
      bindE (assertE (int (length k) mod 2 = 1)) (\<lambda>_.
      bindE (foldE (\<lambda>buf y.
          bindE (mem_read buf (y * s) s) (\<lambda>x. convolve x buf (y * s) w k)) [0..h - 1] (im_buf im)) (\<lambda>buf.
      bindE (foldE (\<lambda>buf x.
          bindE (foldE (\<lambda>xb y. bindE (vget buf (y * s + x)) (\<lambda>v. vset xb y v)) [0..h - 1] mem) (\<lambda>xb.
          bindE (convolve xb mem 0 h k) (\<lambda>yb.
          foldE (\<lambda>buf y. bindE (vget yb y) (\<lambda>v. vset buf (y * s + x) v)) [0..h - 1] buf))) [0..w - 1] buf) (\<lambda>buf.
      Inr (im\<lparr>im_buf := buf\<rparr>)))))"

text \<open>Sharpening subtracts what the blur leaves.\<close>

definition sharpen_im :: "image_u8 \<Rightarrow> image_u8 \<Rightarrow> cerr + image_u8" where
  "sharpen_im orig quad_im =
     bindE (foldE (\<lambda>buf y. foldE (\<lambda>buf x.
         bindE (vget (im_buf orig) (y * im_stride orig + x)) (\<lambda>vorig.
         bindE (vget buf (y * im_stride quad_im + x)) (\<lambda>vblur.
         let v = 2 * int (unat vorig) - int (unat vblur);
             v = (if v < 0 then 0 else v);
             v = (if v > 255 then 255 else v)
         in vset buf (y * im_stride quad_im + x) (of_int v))))
       [0..im_width orig - 1] buf) [0..im_height orig - 1] (im_buf quad_im)) (\<lambda>buf. Inr (quad_im\<lparr>im_buf := buf\<rparr>))"

text \<open>
  \<open>gauss\<close> gives the bytes of the Gaussian kernel for a width and a size, which \<open>image_u8_gaussian_blur\<close> computes with
  \<open>exp\<close> on floats.
\<close>

definition blur_size :: "rat \<Rightarrow> int" where
  "blur_size quad_sigma = (let ksz = \<lfloor>4 * \<bar>quad_sigma\<bar>\<rfloor> in if ksz mod 2 = 0 then ksz + 1 else ksz)"

definition quad_preprocess :: "(rat \<Rightarrow> int \<Rightarrow> bytes) \<Rightarrow> (nat \<Rightarrow> u8) \<Rightarrow> rat \<Rightarrow> rat \<Rightarrow> image_u8 \<Rightarrow> cerr + image_u8" where
  "quad_preprocess gauss junk quad_decimate quad_sigma im_orig =
     bindE (if quad_decimate > 1 then image_u8_decimate im_orig quad_decimate else Inr im_orig) (\<lambda>quad_im.
     let ksz = blur_size quad_sigma; k = gauss \<bar>quad_sigma\<bar> ksz in
     if quad_sigma \<noteq> 0 \<and> ksz > 1
     then if quad_sigma > 0
       then image_u8_convolve_2D junk k quad_im
       else
         bindE (image_u8_copy quad_im) (\<lambda>orig.
         bindE (image_u8_convolve_2D junk k quad_im) (\<lambda>quad_im.
         sharpen_im orig quad_im))
     else Inr quad_im)"

subsection \<open>Decimation\<close>

lemma up_by_eq:
  assumes "0 < f"
  shows "up_by (int f) (int (f * k)) (int n) = map (\<lambda>i. int (f * i)) [k..<(n + f - 1) div f]"
proof (induction "n - f * k" arbitrary: k rule: less_induct)
  case less
  show ?case
  proof (cases "f * k < n")
    case True
    have "n - f * Suc k < n - f * k" using True assms by simp
    from less [OF this] have "up_by (int f) (int (f * k) + int f) (int n) = map (\<lambda>i. int (f * i)) [Suc k..<(n + f - 1) div f]"
      by (simp add: algebra_simps)
    moreover have "k < (n + f - 1) div f"
      using True assms by (simp add: Suc_le_eq [symmetric] less_eq_div_iff_mult_less_eq algebra_simps)
    moreover have "int (f * k) < int n" using True by (simp only: of_nat_less_iff)
    then have "up_by (int f) (int (f * k)) (int n) = int (f * k) # up_by (int f) (int (f * k) + int f) (int n)"
      using assms by (subst up_by.simps) simp
    ultimately show ?thesis by (simp add: upt_conv_Cons)
  next
    case False
    then have "n + f - 1 < f * Suc k" using assms by simp
    then have "(n + f - 1) div f < Suc k" using assms by (simp add: div_less_iff_less_mult mult.commute)
    moreover have "\<not> int (f * k) < int n" using False by (simp only: of_nat_less_iff not_False_eq_True)
    ultimately show ?thesis by (subst up_by.simps) simp
  qed
qed

lemma enumerate_map_upt: "enumerate 0 (map g [0..<m]) = map (\<lambda>i. (i, g i)) [0..<m]"
  by (rule nth_equalityI) (simp_all add: nth_enumerate_eq)

definition small :: "nat \<Rightarrow> nat \<Rightarrow> nat" where
  "small f n = 1 + (n - 1) div f"

lemma strides:
  assumes "0 < f" "0 < n"
  shows "enumerate 0 (up_by (int f) 0 (int n)) = map (\<lambda>i. (i, int (f * i))) [0..<small f n]"
proof -
  have "n + f - 1 = (n - 1) + f" using assms by simp
  then have "(n + f - 1) div f = small f n" using assms by (simp only: small_def div_add_self2)
  then show ?thesis using up_by_eq [OF assms(1), of 0 n] enumerate_map_upt by simp
qed

lemma small_less: "0 < f \<Longrightarrow> 0 < n \<Longrightarrow> i < small f n \<Longrightarrow> f * i < n"
proof -
  assume a: "0 < f" "0 < n" "i < small f n"
  then have "f * i \<le> f * ((n - 1) div f)" by (simp add: small_def)
  also have "\<dots> \<le> n - 1" by simp
  finally show ?thesis using a(2) by linarith
qed

lemma create_ok:
  assumes "0 < w" "0 \<le> h"
  obtains s where "image_u8_create w h = Inr (image_u8_create_stride w h s)" "w \<le> s" "s < w + 96"
proof -
  have "w mod 96 < 96" "0 \<le> w mod 96" by simp_all
  then have "w \<le> w + (96 - w mod 96)" "w mod 96 \<noteq> 0 \<Longrightarrow> w + (96 - w mod 96) < w + 96" by linarith+
  then show thesis
    using that [of "if w mod 96 \<noteq> 0 then w + (96 - w mod 96) else w"]
    by (auto simp: image_u8_create_def image_u8_create_alignment_def DEFAULT_ALIGNMENT_U8_def Let_def)
qed

text \<open>Writing every pixel of an image.\<close>

lemma foldE_pixels:
  assumes f: "\<And>x y buf. x < w \<Longrightarrow> y < h \<Longrightarrow> length buf = n \<Longrightarrow> f buf y x = Inr (wrote V {y * s + x} buf)" and n: "length buf = n"
  shows "foldE (\<lambda>buf y. foldE (\<lambda>buf x. f buf y x) [0..<w] buf) [0..<h] buf =
    Inr (wrote V (\<Union>y \<in> set [0..<h]. \<Union>x \<in> set [0..<w]. {y * s + x}) buf)"
proof (rule foldE_wrote [OF n])
  fix y and b :: "'a list" assume y: "y \<in> set [0..<h]" and b: "length b = n"
  then have "y < h" by simp
  then show "foldE (\<lambda>buf x. f buf y x) [0..<w] b = Inr (wrote V (\<Union>x \<in> set [0..<w]. {y * s + x}) b)"
    by (intro foldE_wrote [OF b] f) auto
qed

lemma pixels_at:
  assumes "x < w" "y < h" "w \<le> s" "h * s \<le> length buf"
  shows "wrote V (\<Union>y \<in> set [0..<h]. \<Union>x \<in> set [0..<w]. {y * s + x}) buf ! (y * s + x) = V (y * s + x)" "y * s + x < length buf"
proof -
  have "y * s + x < Suc y * s" "Suc y * s \<le> h * s" using assms by (simp, intro mult_le_mono1) simp
  then show l: "y * s + x < length buf" using assms(4) by linarith
  have mem: "y * s + x \<in> (\<Union>y \<in> set [0..<h]. \<Union>x \<in> set [0..<w]. {y * s + x})"
    using assms(1,2) by (intro UN_I [of y] UN_I [of x]) simp_all
  from l show "wrote V (\<Union>y \<in> set [0..<h]. \<Union>x \<in> set [0..<w]. {y * s + x}) buf ! (y * s + x) = V (y * s + x)"
    using mem by (simp only: nth_wrote if_True)
qed

lemma vset_wrote:
  assumes "x < w" "y < h" "w \<le> s" "h * s \<le> length buf" "V (y * s + x) = v"
  shows "vset buf (int y * int s + int x) v = Inr (wrote V {y * s + x} buf)"
proof -
  have l: "y * s + x < length buf" by (rule pixels_at(2) [OF assms(1-4)])
  have i: "int y * int s + int x = int (y * s + x)" by simp
  show ?thesis unfolding i using vset_ok [OF l] wrote_one [OF l, of V] assms(5) by simp
qed

text \<open>A value for each pixel as a value for each cell.\<close>

definition cells :: "nat \<Rightarrow> (nat \<Rightarrow> nat \<Rightarrow> 'a) \<Rightarrow> nat \<Rightarrow> 'a" where
  "cells s C p = C (p mod s) (p div s)"

lemma cells_at: "x < s \<Longrightarrow> cells s C (y * s + x) = C x y"
  by (simp add: cells_def)

lemma decimate_ok:
  assumes ok: "im_ok im w h" and wh: "im_width im = int w" "im_height im = int h" and f: "0 < f"
  obtains d where "image_u8_decimate im (of_nat f) = Inr d" "im_width d = int (small f w)" "im_height d = int (small f h)"
    "int (small f w) \<le> im_stride d" "im_stride d < int (small f w) + 96" "length (im_buf d) = small f h * nat (im_stride d)"
    "\<And>x y. x < small f w \<Longrightarrow> y < small f h \<Longrightarrow> col d x y = col im (f * x) (f * y)"
proof -
  let ?w = "small f w" and ?h = "small f h"
  have pos: "0 < w" "0 < h" using ok by (simp_all add: im_ok_def)
  obtain s where s: "image_u8_create (int ?w) (int ?h) = Inr (image_u8_create_stride (int ?w) (int ?h) s)" "int ?w \<le> s" "s < int ?w + 96"
    by (rule create_ok [of "int ?w" "int ?h"]) (simp_all add: small_def)
  obtain s' where s': "s = int s'" using s(2) by (metis nonneg_int_cases of_nat_0_le_iff order_trans)
  let ?d = "image_u8_create_stride (int ?w) (int ?h) s" and ?V = "cells s' (\<lambda>x y. col im (f * x) (f * y))"
  have d: "im_stride ?d = int s'" "im_buf ?d = replicate (?h * s') 0" by (simp_all add: image_u8_create_stride_def s' flip: of_nat_mult)
  have nf: "\<lfloor>of_nat f :: rat\<rfloor> = int f" "(of_nat f :: rat) \<noteq> 3 / 2"
  proof -
    show "\<lfloor>of_nat f :: rat\<rfloor> = int f" by simp
    show "(of_nat f :: rat) \<noteq> 3 / 2"
    proof
      assume "(of_nat f :: rat) = 3 / 2"
      then have "of_nat (2 * f) = (of_nat 3 :: rat)" by simp
      then show False unfolding of_nat_eq_iff by presburger
    qed
  qed
  have dim: "1 + (int n - 1) div int f = int (small f n)" if "0 < n" for n
    using that by (simp add: small_def of_nat_diff zdiv_int)
  have "foldE (\<lambda>buf y. foldE (\<lambda>buf x.
      bindE (vget (im_buf im) (int (f * y) * im_stride im + int (f * x))) (\<lambda>v. vset buf (int y * int s' + int x) v)) [0..<?w] buf) [0..<?h]
      (replicate (?h * s') 0) = Inr (wrote ?V (\<Union>y \<in> set [0..<?h]. \<Union>x \<in> set [0..<?w]. {y * s' + x}) (replicate (?h * s') 0))"
  proof (rule foldE_pixels)
    fix x y and buf :: bytes assume xy: "x < ?w" "y < ?h" and l: "length buf = ?h * s'"
    have sw: "?w \<le> s'" using s(2) s' by simp
    then have V: "?V (y * s' + x) = col im (f * x) (f * y)" using xy by (intro cells_at) simp
    have g: "vget (im_buf im) (int (f * y) * im_stride im + int (f * x)) = Inr (col im (f * x) (f * y))"
      by (rule im_get [OF ok]) (rule small_less [OF f pos(1) xy(1)] small_less [OF f pos(2) xy(2)])+
    have le: "?h * s' \<le> length buf" using l by simp
    show "bindE (vget (im_buf im) (int (f * y) * im_stride im + int (f * x))) (\<lambda>v. vset buf (int y * int s' + int x) v) =
      Inr (wrote ?V {y * s' + x} buf)"
      unfolding g bindE.simps by (rule vset_wrote [where V = ?V, OF xy sw le V])
  qed simp
  then have "image_u8_decimate im (of_nat f) = Inr (?d\<lparr>im_buf := wrote ?V (\<Union>y \<in> set [0..<?h]. \<Union>x \<in> set [0..<?w]. {y * s' + x}) (replicate (?h * s') 0)\<rparr>)"
    using f nf s(1) unfolding image_u8_decimate_def Let_def wh dim [OF pos(1)] dim [OF pos(2)] strides [OF f pos(1)] strides [OF f pos(2)] nf
    by (simp add: foldE_map d strides [OF f pos(1)] strides [OF f pos(2)] dim [OF pos(1)] dim [OF pos(2)])
  moreover have "col (?d\<lparr>im_buf := wrote ?V (\<Union>y \<in> set [0..<?h]. \<Union>x \<in> set [0..<?w]. {y * s' + x}) (replicate (?h * s') 0)\<rparr>) x y = col im (f * x) (f * y)"
    if xy: "x < ?w" "y < ?h" for x y
  proof -
    have "x < s'" "?w \<le> s'" using xy s(2) s' by simp_all
    then show ?thesis using pixels_at(1) [OF xy \<open>?w \<le> s'\<close>, of "replicate (?h * s') 0" ?V] d(1) by (simp add: col_def cells_at)
  qed
  ultimately show thesis using that s(2,3) d(1) by (simp add: image_u8_create_stride_def s')
qed

subsection \<open>Convolution\<close>

text \<open>One line of \<open>n\<close> values: the weighted means inside, the values themselves at the ends.\<close>

definition conv_sum :: "bytes \<Rightarrow> (nat \<Rightarrow> u8) \<Rightarrow> nat \<Rightarrow> nat" where
  "conv_sum k f i = (\<Sum>j < length k. unat (k ! j) * unat (f (i + j)))"

definition conv :: "bytes \<Rightarrow> (nat \<Rightarrow> u8) \<Rightarrow> nat \<Rightarrow> nat \<Rightarrow> u8" where
  "conv k f n i =
     (let r = length k div 2 in
      if i < r \<or> n - length k + r \<le> i then f i else of_nat (conv_sum k f (i - r) div 256))"

lemma unat_u8: "unat (v :: u8) \<le> 255"
proof -
  have "unat v < 2 ^ LENGTH(8)" by (rule unsigned_less)
  then show ?thesis by simp
qed

lemma conv_sum_le: "conv_sum k f i \<le> (\<Sum>j < length k. unat (k ! j)) * 255"
  unfolding conv_sum_def sum_distrib_right by (intro sum_mono mult_le_mono unat_u8 order_refl)

lemma conv_sum_less: "length k < 65536 \<Longrightarrow> conv_sum k f i < 2 ^ 32"
proof -
  assume k: "length k < 65536"
  have "(\<Sum>j < length k. unat (k ! j)) \<le> (\<Sum>j < length k. 255)" by (intro sum_mono unat_u8)
  then have "conv_sum k f i \<le> length k * 255 * 255" using conv_sum_le [of k f i] by simp
  then show ?thesis using k by simp
qed

lemma acc_loop:
  assumes "m \<le> length k" "i + m \<le> length x"
  shows "foldE (\<lambda>acc j. bindE (vget k j) (\<lambda>kj. bindE (vget x (int i + j)) (\<lambda>v. Inr (acc + ucast kj * ucast v)))) (map int [0..<m]) (0 :: u32) =
    Inr (of_nat (\<Sum>j < m. unat (k ! j) * unat (x ! (i + j))))"
  using assms
proof (induction m)
  case (Suc m)
  have g: "vget k (int m) = Inr (k ! m)" "vget x (int i + int m) = Inr (x ! (i + m))"
    using vget_ok [of m k] vget_ok [of "i + m" x] Suc.prems by simp_all
  have "(of_nat (unat a) :: u32) = ucast a" for a :: u8 by (simp add: unsigned_of_nat)
  then show ?case using Suc g by (simp add: foldE_append)
qed simp

lemma shift_acc: "S < 2 ^ 32 \<Longrightarrow> (ucast (drop_bit 8 (of_nat S :: u32)) :: u8) = of_nat (S div 256)"
proof -
  assume S: "S < 2 ^ 32"
  have u: "unat (of_nat S :: u32) = S" using S by (simp add: unat_of_nat take_bit_nat_eq_self)
  have "unat (drop_bit 8 (of_nat S :: u32)) = S div 256" unfolding unat_drop_bit_eq u by (simp add: drop_bit_eq_div)
  moreover have "(ucast (drop_bit 8 (of_nat S :: u32)) :: u8) = of_nat (unat (drop_bit 8 (of_nat S :: u32)))" by simp
  ultimately show ?thesis by simp
qed

lemma convolve_ok:
  assumes k: "odd (length k)" "length k \<le> sz" "length k < 65536" and x: "sz \<le> length x" and y: "off + sz \<le> length y"
  shows "convolve x y (int off) (int sz) k = Inr (wrote (\<lambda>p. conv k ((!) x) sz (p - off)) (set [off..<off + sz]) y)"
proof -
  let ?n = "length k" and ?r = "length k div 2" and ?V = "\<lambda>p. conv k ((!) x) sz (p - off)"
  have r: "?r + ?r < ?n" using k(1) by presburger
  have w: "vset y' (int off + int i) v = Inr (wrote ?V {off + i} y')" if "off + i < length y'" "?V (off + i) = v" for y' i v
  proof -
    have "int off + int i = int (off + i)" by simp
    then show ?thesis using vset_ok [OF that(1)] wrote_one [OF that(1), of ?V] that(2) by (simp only:)
  qed
  have ends: "foldE (\<lambda>y i. bindE (vget x i) (\<lambda>v. vset y (int off + i) v)) (map int [a..<b]) y' =
      Inr (wrote ?V (\<Union>i \<in> set [a..<b]. {off + i}) y')"
    if b: "b \<le> sz" "length y' = length y" and e: "\<And>i. a \<le> i \<Longrightarrow> i < b \<Longrightarrow> i < ?r \<or> sz - ?n + ?r \<le> i" for a b y'
    unfolding foldE_map
  proof (rule foldE_wrote [OF b(2)])
    fix i and y'' :: bytes assume i: "i \<in> set [a..<b]" and l: "length y'' = length y"
    have "?V (off + i) = x ! i" using e [of i] i by (auto simp: conv_def Let_def)
    moreover have "off + i < length y''" "i < length x" using i l b y x by auto
    ultimately show "bindE (vget x (int i)) (\<lambda>v. vset y'' (int off + int i) v) = Inr (wrote ?V {off + i} y'')"
      using w by (simp add: vget_ok)
  qed
  have mid: "foldE (\<lambda>y i.
        bindE (foldE (\<lambda>acc j. bindE (vget k j) (\<lambda>kj. bindE (vget x (i + j)) (\<lambda>v. Inr (acc + ucast kj * ucast v)))) [0..int ?n - 1] (0 :: u32)) (\<lambda>acc.
        vset y (int off + (int ?n div 2 + i)) (ucast (drop_bit 8 acc)))) (map int [0..<sz - ?n]) y' =
      Inr (wrote ?V (\<Union>i \<in> set [0..<sz - ?n]. {off + (?r + i)}) y')" if y': "length y' = length y" for y'
    unfolding foldE_map upto_nat
  proof (rule foldE_wrote [OF y'])
    fix i and y'' :: bytes assume i: "i \<in> set [0..<sz - ?n]" and l: "length y'' = length y"
    have "i + ?n \<le> length x" using i x by auto
    note acc = acc_loop [OF order_refl this, unfolded foldE_map]
    have V: "?V (off + (?r + i)) = of_nat (conv_sum k ((!) x) i div 256)" using i r by (auto simp: conv_def Let_def)
    have c: "of_nat (\<Sum>j < ?n. unat (k ! j) * unat (x ! (i + j))) = (of_nat (conv_sum k ((!) x) i) :: u32)" by (simp only: conv_sum_def)
    have ix: "int ?n div 2 + int i = int (?r + i)" by simp
    have "off + (?r + i) < length y''" using i r l y by auto
    from w [OF this V] show "bindE (foldE (\<lambda>acc j. bindE (vget k (int j)) (\<lambda>kj. bindE (vget x (int i + int j)) (\<lambda>v. Inr (acc + ucast kj * ucast v)))) [0..<?n] (0 :: u32)) (\<lambda>acc.
        vset y'' (int off + (int ?n div 2 + int i)) (ucast (drop_bit 8 acc))) = Inr (wrote ?V {off + (?r + i)} y'')"
      unfolding acc bindE.simps c shift_acc [OF conv_sum_less [OF k(3)]] ix .
  qed
  have b1: "[0..min (int ?n div 2) (int sz) - 1] = map int [0..<?r]"
  proof -
    have "min (int ?n div 2) (int sz) = int ?r" using k(2) by simp
    then show ?thesis using upto_nat [of ?r] by (simp only:)
  qed
  have b2: "[0..int sz - int ?n - 1] = map int [0..<sz - ?n]" using upto_nat [of "sz - ?n"] k(2) by (simp add: of_nat_diff)
  have b3: "[int sz - int ?n + int ?n div 2..int sz - 1] = map int [sz - ?n + ?r..<sz]"
  proof -
    have "int sz - int ?n + int ?n div 2 = int (sz - ?n + ?r)" using k(2) by (simp add: of_nat_diff zdiv_int)
    then show ?thesis using map_int_upt [of "sz - ?n + ?r" sz] by (simp only:)
  qed
  have odd: "int ?n mod 2 = 1" using k(1) by presburger
  have U: "(\<Union>i \<in> set [0..<?r]. {off + i}) \<union> ((\<Union>i \<in> set [0..<sz - ?n]. {off + (?r + i)}) \<union> (\<Union>i \<in> set [sz - ?n + ?r..<sz]. {off + i})) = set [off..<off + sz]"
  proof (rule equalityI; rule subsetI)
    fix p assume "p \<in> set [off..<off + sz]"
    then obtain i where i: "p = off + i" "i < sz" by (auto simp: le_iff_add)
    consider "i < ?r" | "?r \<le> i" "i < sz - ?n + ?r" | "sz - ?n + ?r \<le> i" by linarith
    then show "p \<in> (\<Union>i \<in> set [0..<?r]. {off + i}) \<union> ((\<Union>i \<in> set [0..<sz - ?n]. {off + (?r + i)}) \<union> (\<Union>i \<in> set [sz - ?n + ?r..<sz]. {off + i}))"
    proof cases
      case 2
      then have "p \<in> (\<Union>i \<in> set [0..<sz - ?n]. {off + (?r + i)})" using i by (intro UN_I [of "i - ?r"]) auto
      then show ?thesis by blast
    qed (use i in auto)
  qed (use k(2) r in auto)
  have l1: "length (wrote ?V J y') = length y'" for J and y' :: bytes by simp
  show ?thesis
    unfolding convolve_def Let_def b1 b2 b3
    using odd k(2) U
    by (simp only: assertE_True bindE.simps ends mid l1 wrote_wrote) (simp add: ends mid Un_assoc wrote_wrote)
qed

text \<open>Loops whose steps read the array they write: each step finds what the steps before it wrote.\<close>

lemma foldE_wrote_from:
  assumes "\<And>xs1 x xs2. xs = xs1 @ x # xs2 \<Longrightarrow>
    f (wrote V (\<Union>x \<in> set xs1. I x) a) x = Inr (wrote V ((\<Union>x \<in> set xs1. I x) \<union> I x) a)"
  shows "foldE f xs a = Inr (wrote V (\<Union>x \<in> set xs. I x) a)"
  using assms
proof (induction xs rule: rev_induct)
  case (snoc x xs)
  have "foldE f xs a = Inr (wrote V (\<Union>x \<in> set xs. I x) a)"
  proof (rule snoc.IH)
    fix xs1 z xs2 assume "xs = xs1 @ z # xs2"
    then have "xs @ [x] = xs1 @ z # (xs2 @ [x])" by simp
    then show "f (wrote V (\<Union>x \<in> set xs1. I x) a) z = Inr (wrote V ((\<Union>x \<in> set xs1. I x) \<union> I z) a)" by (rule snoc.prems)
  qed
  moreover have "(\<Union>y \<in> set (xs @ [x]). I y) = (\<Union>y \<in> set xs. I y) \<union> I x" by auto
  ultimately show ?case using snoc.prems [of xs x "[]"] by (simp add: foldE_append)
qed simp

lemma upt_split: "[0..<n] = xs1 @ x # xs2 \<Longrightarrow> x < n \<and> set xs1 = {..<x}"
proof -
  assume e: "[0..<n] = xs1 @ x # xs2"
  have l: "length xs1 < n" using arg_cong [OF e, of length] by simp
  have "[0..<n] ! length xs1 = x" unfolding e by simp
  then have "x = length xs1" using l by simp
  moreover have "xs1 = take (length xs1) [0..<n]" unfolding e by simp
  then have "xs1 = [0..<length xs1]" using l by simp
  then have "set xs1 = {..<length xs1}" by (metis atLeast_upt lessThan_atLeast0)
  ultimately show ?thesis using l by simp
qed

lemma wrote_cong: "(\<And>p. p \<in> J \<Longrightarrow> V p = W p) \<Longrightarrow> wrote V J a = wrote W J a"
  by (simp add: wrote_def)

text \<open>The rows of an image.\<close>

definition conv_rows :: "bytes \<Rightarrow> nat \<Rightarrow> (nat \<Rightarrow> nat \<Rightarrow> u8) \<Rightarrow> nat \<Rightarrow> nat \<Rightarrow> u8" where
  "conv_rows k w C x y = conv k (\<lambda>i. C i y) w x"

definition conv_cols :: "bytes \<Rightarrow> nat \<Rightarrow> (nat \<Rightarrow> nat \<Rightarrow> u8) \<Rightarrow> nat \<Rightarrow> nat \<Rightarrow> u8" where
  "conv_cols k h C x y = conv k (C x) h y"

lemma conv_cong:
  assumes "\<And>i. i < n \<Longrightarrow> f i = g i" "odd (length k)" "length k \<le> n" "i < n"
  shows "conv k f n i = conv k g n i"
proof -
  let ?r = "length k div 2"
  have "conv_sum k f (i - ?r) = conv_sum k g (i - ?r)" if "?r \<le> i" "i < n - length k + ?r"
    unfolding conv_sum_def
  proof (rule sum.cong [OF refl])
    fix j assume "j \<in> {..<length k}"
    then have "i - ?r + j < n" using that assms(3) by auto
    then show "unat (k ! j) * unat (f (i - ?r + j)) = unat (k ! j) * unat (g (i - ?r + j))" by (simp add: assms(1))
  qed
  then show ?thesis using assms(1) [OF assms(4)] by (simp add: conv_def Let_def)
qed

lemma rows_ok:
  assumes k: "odd (length k)" "length k \<le> w" "length k < 65536" and s: "w \<le> s" "h * s \<le> length buf"
  shows "foldE (\<lambda>buf y. bindE (mem_read buf (y * int s) (int s)) (\<lambda>x. convolve x buf (y * int s) (int w) k)) [0..int h - 1] buf =
    Inr (wrote (cells s (conv_rows k w (\<lambda>x y. buf ! (y * s + x)))) (\<Union>y \<in> set [0..<h]. set [y * s..<y * s + w]) buf)"
  unfolding upto_nat foldE_map
proof (rule foldE_wrote_from)
  let ?C = "\<lambda>x y. buf ! (y * s + x)"
  let ?V = "cells s (conv_rows k w ?C)"
  fix xs1 y xs2 assume "[0..<h] = xs1 @ y # xs2"
  then have y: "y < h" and xs1: "set xs1 = {..<y}" using upt_split by blast+
  let ?b = "wrote ?V (\<Union>y \<in> set xs1. set [y * s..<y * s + w]) buf"
  have "Suc y * s \<le> h * s" using y by (intro mult_le_mono1) simp
  then have l: "y * s + s \<le> length buf" using s(2) by simp
  have same: "?b ! (y * s + i) = buf ! (y * s + i)" if "i < s" for i
  proof -
    have "y' * s + w \<le> y * s" if "y' < y" for y'
    proof -
      have "Suc y' * s \<le> y * s" using that by (intro mult_le_mono1) simp
      then show ?thesis using s(1) by simp
    qed
    then have "y * s + i \<notin> (\<Union>y \<in> set xs1. set [y * s..<y * s + w])" unfolding xs1 by fastforce
    moreover have "y * s + i < length buf" using that l by linarith
    ultimately show ?thesis by (simp only: nth_wrote if_False)
  qed
  let ?x = "take s (drop (y * s) ?b)"
  have ys: "int y * int s = int (y * s)" by simp
  have rd: "mem_read ?b (int (y * s)) (int s) = Inr ?x" using l by (intro mem_read_nat) simp
  have x: "?x ! i = ?C i y" "i < length ?x" if "i < w" for i using same [of i] that s(1) l by simp_all
  have c: "convolve ?x ?b (int (y * s)) (int w) k = Inr (wrote (\<lambda>p. conv k ((!) ?x) w (p - y * s)) (set [y * s..<y * s + w]) ?b)"
    using l s(1) by (intro convolve_ok k) simp_all
  have "wrote (\<lambda>p. conv k ((!) ?x) w (p - y * s)) (set [y * s..<y * s + w]) ?b = wrote ?V (set [y * s..<y * s + w]) ?b"
  proof (rule wrote_cong)
    fix p assume "p \<in> set [y * s..<y * s + w]"
    then obtain i where i: "p = y * s + i" "i < w" by (auto simp: le_iff_add)
    have "conv k ((!) ?x) w i = conv k (\<lambda>i. ?C i y) w i" by (rule conv_cong [OF x(1) k(1,2) i(2)])
    then show "conv k ((!) ?x) w (p - y * s) = ?V p" using i s(1) by (simp add: cells_at conv_rows_def)
  qed
  then show "bindE (mem_read ?b (int y * int s) (int s)) (\<lambda>x. convolve x ?b (int y * int s) (int w) k) =
      Inr (wrote ?V ((\<Union>y \<in> set xs1. set [y * s..<y * s + w]) \<union> set [y * s..<y * s + w]) buf)"
    unfolding ys rd bindE.simps c by (simp only: wrote_wrote)
qed

text \<open>The columns.\<close>

lemma wrote_all: "length a = n \<Longrightarrow> wrote V (set [0..<n]) a = map V [0..<n]"
  by (rule nth_equalityI) simp_all

lemma read_column:
  assumes "\<And>y. y < h \<Longrightarrow> y * s + x < length buf" "length mem = h"
  shows "foldE (\<lambda>xb y. bindE (vget buf (y * int s + int x)) (\<lambda>v. vset xb y v)) (map int [0..<h]) mem = Inr (map (\<lambda>y. buf ! (y * s + x)) [0..<h])"
proof -
  let ?V = "\<lambda>y. buf ! (y * s + x)"
  have "foldE (\<lambda>xb y. bindE (vget buf (int y * int s + int x)) (\<lambda>v. vset xb (int y) v)) [0..<h] mem = Inr (wrote ?V (\<Union>y \<in> set [0..<h]. {y}) mem)"
  proof (rule foldE_wrote [OF assms(2)])
    fix y and xb :: "'a list" assume y: "y \<in> set [0..<h]" and l: "length xb = h"
    have i: "int y * int s + int x = int (y * s + x)" by simp
    have "y * s + x < length buf" "y < length xb" using y l assms(1) by simp_all
    then show "bindE (vget buf (int y * int s + int x)) (\<lambda>v. vset xb (int y) v) = Inr (wrote ?V {y} xb)"
      unfolding i using wrote_one [of y xb ?V] by (simp only: vget_ok vset_ok bindE.simps)
  qed
  moreover have "(\<Union>y \<in> set [0..<h]. {y}) = set [0..<h]" by auto
  ultimately show ?thesis unfolding foldE_map using wrote_all [OF assms(2), of ?V] by (simp only:)
qed

lemma cell_eq: "x < s \<Longrightarrow> x' < s \<Longrightarrow> y * s + x = y' * s + x' \<Longrightarrow> x = x'" for x :: nat
  by (metis mod_less mod_mult_self3)

lemma cols_ok:
  assumes k: "odd (length k)" "length k \<le> h" "length k < 65536" and s: "w \<le> s" "h * s \<le> length buf" and mem: "length mem = h"
  shows "foldE (\<lambda>buf x.
        bindE (foldE (\<lambda>xb y. bindE (vget buf (y * int s + x)) (\<lambda>v. vset xb y v)) [0..int h - 1] mem) (\<lambda>xb.
        bindE (convolve xb mem 0 (int h) k) (\<lambda>yb.
        foldE (\<lambda>buf y. bindE (vget yb y) (\<lambda>v. vset buf (y * int s + x) v)) [0..int h - 1] buf))) [0..int w - 1] buf =
    Inr (wrote (cells s (conv_cols k h (\<lambda>x y. buf ! (y * s + x)))) (\<Union>x \<in> set [0..<w]. \<Union>y \<in> set [0..<h]. {y * s + x}) buf)"
  unfolding upto_nat foldE_map [where g = int and xs = "[0..<w]"]
proof (rule foldE_wrote_from)
  let ?C = "\<lambda>x y. buf ! (y * s + x)"
  let ?V = "cells s (conv_cols k h ?C)"
  let ?I = "\<lambda>x. \<Union>y \<in> set [0..<h]. {y * s + x}"
  fix xs1 x xs2 assume "[0..<w] = xs1 @ x # xs2"
  then have x: "x < w" and xs1: "set xs1 = {..<x}" using upt_split by blast+
  let ?b = "wrote ?V (\<Union>x \<in> set xs1. ?I x) buf"
  have l: "y * s + x < length ?b" if "y < h" for y
  proof -
    have "y * s + x < Suc y * s" "Suc y * s \<le> h * s" using that x s(1) by (simp, intro mult_le_mono1) simp
    then show ?thesis using s(2) by simp
  qed
  have same: "?b ! (y * s + x) = ?C x y" if "y < h" for y
  proof -
    have "y * s + x \<noteq> y' * s + x'" if "x' < x" for x' y' using cell_eq [of x s x' y y'] that x s(1) by auto
    then have "y * s + x \<notin> (\<Union>x \<in> set xs1. ?I x)" unfolding xs1 by auto
    then show ?thesis using l [OF that] by simp
  qed
  let ?xb = "map (?C x) [0..<h]"
  have "map (\<lambda>y. ?b ! (y * s + x)) [0..<h] = ?xb" using same by simp
  then have rd: "foldE (\<lambda>xb y. bindE (vget ?b (y * int s + int x)) (\<lambda>v. vset xb y v)) (map int [0..<h]) mem = Inr ?xb"
    using read_column [where buf = ?b and s = s and x = x, OF l mem] by (simp only:)
  have "convolve ?xb mem (int 0) (int h) k = Inr (wrote (\<lambda>p. conv k ((!) ?xb) h (p - 0)) (set [0..<0 + h]) mem)"
    using mem by (intro convolve_ok k) simp_all
  then have cv: "convolve ?xb mem 0 (int h) k = Inr (map (conv k ((!) ?xb) h) [0..<h])" using wrote_all [OF mem] by simp
  let ?yb = "map (conv k ((!) ?xb) h) [0..<h]"
  have "foldE (\<lambda>buf y. bindE (vget ?yb (int y)) (\<lambda>v. vset buf (int y * int s + int x) v)) [0..<h] ?b = Inr (wrote ?V (?I x) ?b)"
  proof (rule foldE_wrote [OF refl])
    fix y and b :: bytes assume y: "y \<in> set [0..<h]" and lb: "length b = length ?b"
    have i: "int y * int s + int x = int (y * s + x)" by simp
    have yl: "y < length ?yb" using y by simp
    have "conv k ((!) ?xb) h y = conv k (?C x) h y" using y k(1,2) by (intro conv_cong) simp_all
    then have v: "?yb ! y = ?V (y * s + x)" using y x s(1) by (simp add: cells_at conv_cols_def)
    have "y * s + x < length b" using l lb y by simp
    then show "bindE (vget ?yb (int y)) (\<lambda>v. vset b (int y * int s + int x) v) = Inr (wrote ?V {y * s + x} b)"
      unfolding i vget_ok [OF yl] bindE.simps v using wrote_one [of "y * s + x" b ?V] by (simp only: vset_ok)
  qed
  then have wb: "foldE (\<lambda>buf y. bindE (vget ?yb y) (\<lambda>v. vset buf (y * int s + int x) v)) (map int [0..<h]) ?b = Inr (wrote ?V (?I x) ?b)"
    unfolding foldE_map .
  show "bindE (foldE (\<lambda>xb y. bindE (vget ?b (y * int s + int x)) (\<lambda>v. vset xb y v)) (map int [0..<h]) mem) (\<lambda>xb.
        bindE (convolve xb mem 0 (int h) k) (\<lambda>yb.
        foldE (\<lambda>buf y. bindE (vget yb y) (\<lambda>v. vset buf (y * int s + int x) v)) (map int [0..<h]) ?b)) =
      Inr (wrote ?V ((\<Union>x \<in> set xs1. ?I x) \<union> ?I x) buf)"
    unfolding rd bindE.simps cv wb by (simp only: wrote_wrote)
qed

text \<open>The convolution of the image.\<close>

definition blurred :: "bytes \<Rightarrow> nat \<Rightarrow> nat \<Rightarrow> (nat \<Rightarrow> nat \<Rightarrow> u8) \<Rightarrow> nat \<Rightarrow> nat \<Rightarrow> u8" where
  "blurred k w h C = conv_cols k h (conv_rows k w C)"

lemma convolve_2D_ok:
  assumes ok: "im_ok im w h" and wh: "im_width im = int w" "im_height im = int h"
    and k: "odd (length k)" "length k \<le> w" "length k \<le> h" "length k < 65536"
  obtains b where "image_u8_convolve_2D junk k im = Inr b" "im_ok b w h" "im_width b = int w" "im_height b = int h"
    "im_stride b = im_stride im" "\<And>x y. x < w \<Longrightarrow> y < h \<Longrightarrow> col b x y = blurred k w h (col im) x y"
proof -
  define s where "s = nat (im_stride im)"
  have s: "im_stride im = int s" "w \<le> s" "h * s \<le> length (im_buf im)" using ok unfolding im_ok_def s_def by linarith+
  let ?C = "col im" and ?mem = "map junk [0..<h]"
  have C: "?C = (\<lambda>x y. im_buf im ! (y * s + x))" by (simp add: col_def s_def fun_eq_iff)
  let ?b1 = "wrote (cells s (conv_rows k w ?C)) (\<Union>y \<in> set [0..<h]. set [y * s..<y * s + w]) (im_buf im)"
  have l1: "h * s \<le> length ?b1" using s(3) by simp
  let ?R = "\<lambda>x y. ?b1 ! (y * s + x)"
  let ?b2 = "wrote (cells s (conv_cols k h ?R)) (\<Union>x \<in> set [0..<w]. \<Union>y \<in> set [0..<h]. {y * s + x}) ?b1"
  have odd: "int (length k) mod 2 = 1" using k(1) by presburger
  have "image_u8_convolve_2D junk k im = Inr (im\<lparr>im_buf := ?b2\<rparr>)"
    unfolding image_u8_convolve_2D_def Let_def wh s(1) nat_int assertE_True [OF odd] bindE.simps
      rows_ok [OF k(1,2,4) s(2,3)] C [symmetric] cols_ok [OF k(1,3,4) s(2) l1, of ?mem, simplified length_map length_upt diff_zero, OF refl] ..
  moreover have at: "y * s + x < length (im_buf im)" if "x < w" "y < h" for x y by (rule pixels_at(2) [OF that s(2,3)])
  have R: "?R x y = conv_rows k w ?C x y" if xy: "x < w" "y < h" for x y
  proof -
    have "y * s + x \<in> (\<Union>y \<in> set [0..<h]. set [y * s..<y * s + w])" using xy by (intro UN_I [of y]) simp_all
    then show ?thesis using at [OF xy] xy s(2) by (simp only: nth_wrote if_True cells_at)
  qed
  moreover have "col (im\<lparr>im_buf := ?b2\<rparr>) x y = blurred k w h ?C x y" if xy: "x < w" "y < h" for x y
  proof -
    have "y * s + x \<in> (\<Union>x \<in> set [0..<w]. \<Union>y \<in> set [0..<h]. {y * s + x})" using xy by (intro UN_I [of x] UN_I [of y]) simp_all
    then have "col (im\<lparr>im_buf := ?b2\<rparr>) x y = cells s (conv_cols k h ?R) (y * s + x)"
      using at [OF xy] unfolding col_def by (simp add: s_def [symmetric] del: UN_iff)
    also have "\<dots> = conv k (?R x) h y" using xy s(2) by (simp add: cells_at conv_cols_def)
    also have "\<dots> = conv k (conv_rows k w ?C x) h y" using R xy k(1,3) by (intro conv_cong) simp_all
    finally show ?thesis by (simp add: blurred_def conv_cols_def)
  qed
  moreover have "im_ok (im\<lparr>im_buf := ?b2\<rparr>) w h" using ok by (simp add: im_ok_def)
  ultimately show thesis using that wh by simp
qed

text \<open>With weights of at most 256 together no byte wraps, and nothing gets brighter than the brightest pixel.\<close>

lemma conv_le:
  assumes k: "(\<Sum>j < length k. unat (k ! j)) \<le> 256" "odd (length k)" "length k \<le> n" and i: "i < n"
    and f: "\<And>i. i < n \<Longrightarrow> f i \<le> M"
  shows "conv k f n i \<le> M"
proof -
  let ?r = "length k div 2"
  have "of_nat (conv_sum k f (i - ?r) div 256) \<le> M" if m: "?r \<le> i" "i < n - length k + ?r"
  proof -
    have "conv_sum k f (i - ?r) \<le> (\<Sum>j < length k. unat (k ! j) * unat M)"
      unfolding conv_sum_def
    proof (rule sum_mono)
      fix j assume "j \<in> {..<length k}"
      then have "i - ?r + j < n" using m k(3) by auto
      then show "unat (k ! j) * unat (f (i - ?r + j)) \<le> unat (k ! j) * unat M" using f by (simp add: word_le_nat_alt)
    qed
    also have "\<dots> = (\<Sum>j < length k. unat (k ! j)) * unat M" by (simp only: sum_distrib_right)
    also have "\<dots> \<le> 256 * unat M" using k(1) by (rule mult_le_mono1)
    finally have le: "conv_sum k f (i - ?r) div 256 \<le> unat M" by linarith
    then have "conv_sum k f (i - ?r) div 256 \<le> 255" using unat_u8 [of M] by linarith
    then have "unat (of_nat (conv_sum k f (i - ?r) div 256) :: u8) = conv_sum k f (i - ?r) div 256"
      by (simp add: unat_of_nat take_bit_nat_eq_self)
    then show ?thesis using le by (simp add: word_le_nat_alt)
  qed
  then show ?thesis using f [OF i] by (simp add: conv_def Let_def)
qed

lemma blurred_le:
  assumes "(\<Sum>j < length k. unat (k ! j)) \<le> 256" "odd (length k)" "length k \<le> w" "length k \<le> h" "x < w" "y < h"
    and C: "\<And>x y. x < w \<Longrightarrow> y < h \<Longrightarrow> C x y \<le> M"
  shows "blurred k w h C x y \<le> M"
  unfolding blurred_def conv_cols_def conv_rows_def
  by (intro conv_le assms(1-6) C) assumption+

subsection \<open>Sharpening\<close>

definition sharpened :: "(nat \<Rightarrow> nat \<Rightarrow> u8) \<Rightarrow> (nat \<Rightarrow> nat \<Rightarrow> u8) \<Rightarrow> nat \<Rightarrow> nat \<Rightarrow> u8" where
  "sharpened C B x y = of_int (min 255 (max 0 (2 * int (unat (C x y)) - int (unat (B x y)))))"

lemma image_copy_ok:
  assumes "im_ok im w h" "im_height im = int h"
  shows "image_u8_copy im = Inr (im\<lparr>im_buf := take (h * nat (im_stride im)) (im_buf im)\<rparr>)"
proof -
  have s: "im_stride im = int (nat (im_stride im))" using assms(1) by (simp add: im_ok_def)
  then have n: "im_height im * im_stride im = int (h * nat (im_stride im))" using assms(2) by simp
  have "mem_read (im_buf im) (int 0) (int (h * nat (im_stride im))) = Inr (take (h * nat (im_stride im)) (drop 0 (im_buf im)))"
    using assms(1) by (intro mem_read_nat) (simp add: im_ok_def)
  then show ?thesis by (simp add: image_u8_copy_def n)
qed

text \<open>The same over all pixels, when each step reads only the pixel it writes.\<close>

lemma foldE_pixels_from:
  assumes s: "w \<le> s" "h * s \<le> length a"
    and step: "\<And>x y buf. x < w \<Longrightarrow> y < h \<Longrightarrow> length buf = length a \<Longrightarrow> buf ! (y * s + x) = a ! (y * s + x) \<Longrightarrow>
      f buf y x = Inr (wrote V {y * s + x} buf)"
  shows "foldE (\<lambda>buf y. foldE (\<lambda>buf x. f buf y x) [0..<w] buf) [0..<h] a =
    Inr (wrote V (\<Union>y \<in> set [0..<h]. \<Union>x \<in> set [0..<w]. {y * s + x}) a)"
proof (rule foldE_wrote_from)
  let ?J = "\<lambda>y. \<Union>x \<in> set [0..<w]. {y * s + x}"
  fix ys1 y ys2 assume "[0..<h] = ys1 @ y # ys2"
  then have y: "y < h" and ys1: "set ys1 = {..<y}" using upt_split by blast+
  let ?b = "wrote V (\<Union>y \<in> set ys1. ?J y) a"
  have "foldE (\<lambda>buf x. f buf y x) [0..<w] ?b = Inr (wrote V (?J y) ?b)"
  proof (rule foldE_wrote_from)
    fix xs1 x xs2 assume "[0..<w] = xs1 @ x # xs2"
    then have x: "x < w" and xs1: "set xs1 = {..<x}" using upt_split by blast+
    let ?c = "wrote V (\<Union>x \<in> set xs1. {y * s + x}) ?b"
    have n1: "y * s + x \<notin> (\<Union>x \<in> set xs1. {y * s + x})" unfolding xs1 by auto
    have "y * s + x \<noteq> y' * s + x'" if "y' < y" "x' < w" for x' y'
    proof
      assume e: "y * s + x = y' * s + x'"
      have "y' * s + x' < Suc y' * s" "Suc y' * s \<le> y * s" using that s(1) by (simp, intro mult_le_mono1) simp
      then show False using e by linarith
    qed
    then have n2: "y * s + x \<notin> (\<Union>y \<in> set ys1. ?J y)" unfolding ys1 by fastforce
    have l: "y * s + x < length a" by (rule pixels_at(2) [OF x y s])
    have "?c ! (y * s + x) = a ! (y * s + x)" using n1 n2 l by (simp only: nth_wrote length_wrote if_False)
    then have "f ?c y x = Inr (wrote V {y * s + x} ?c)" by (intro step [OF x y]) simp_all
    then show "f ?c y x = Inr (wrote V ((\<Union>x \<in> set xs1. {y * s + x}) \<union> {y * s + x}) ?b)" by (simp only: wrote_wrote Un_ac)
  qed
  then show "foldE (\<lambda>buf x. f buf y x) [0..<w] ?b = Inr (wrote V ((\<Union>y \<in> set ys1. ?J y) \<union> ?J y) a)"
    by (simp only: wrote_wrote Un_ac)
qed

lemma sharpen_ok:
  assumes im: "im_ok im w h" "im_width im = int w" "im_height im = int h"
    and b: "im_ok b w h" "im_width b = int w" "im_height b = int h"
  obtains t where "sharpen_im im b = Inr t" "im_ok t w h" "im_width t = int w" "im_height t = int h"
    "\<And>x y. x < w \<Longrightarrow> y < h \<Longrightarrow> col t x y = sharpened (col im) (col b) x y"
proof -
  define s where "s = nat (im_stride b)"
  have s: "im_stride b = int s" "w \<le> s" "h * s \<le> length (im_buf b)" using b(1) unfolding im_ok_def s_def by linarith+
  let ?V = "cells s (sharpened (col im) (col b))"
  let ?J = "\<lambda>y. \<Union>x \<in> set [0..<w]. {y * s + x}"
  let ?px = "\<lambda>buf y x. bindE (vget (im_buf im) (y * im_stride im + x)) (\<lambda>vorig.
         bindE (vget buf (y * int s + x)) (\<lambda>vblur.
         let v = 2 * int (unat vorig) - int (unat vblur);
             v = (if v < 0 then 0 else v);
             v = (if v > 255 then 255 else v)
         in vset buf (y * int s + x) (of_int v)))"
  have "foldE (\<lambda>buf y. foldE (\<lambda>buf x. ?px buf (int y) (int x)) [0..<w] buf) [0..<h] (im_buf b) =
      Inr (wrote ?V (\<Union>y \<in> set [0..<h]. ?J y) (im_buf b))"
  proof (rule foldE_pixels_from [OF s(2,3)])
    fix x y and c :: bytes assume x: "x < w" and y: "y < h" and c: "length c = length (im_buf b)" "c ! (y * s + x) = im_buf b ! (y * s + x)"
    have le: "h * s \<le> length c" using s(3) c(1) by simp
    have "c ! (y * s + x) = col b x y" using c(2) by (simp only: col_def s_def)
    then have g: "vget c (int y * int s + int x) = Inr (col b x y)"
      using vget_ok [of "y * s + x" c] pixels_at(2) [OF x y s(2,3)] c(1) by (simp only: of_nat_add of_nat_mult)
    have "(if v < 0 then 0 else v) > 255 \<longleftrightarrow> v > 255" for v :: int by simp
    then have v: "(let v = 2 * int (unat a) - int (unat e); v = (if v < 0 then 0 else v); v = (if v > 255 then 255 else v)
         in vset c i (of_int v)) = vset c i (of_int (min 255 (max 0 (2 * int (unat a) - int (unat e)))))" for a e i
      unfolding Let_def by (auto simp: min_def max_def)
    have V: "?V (y * s + x) = of_int (min 255 (max 0 (2 * int (unat (col im x y)) - int (unat (col b x y)))))"
      using x s(2) by (simp add: cells_at sharpened_def)
    show "?px c (int y) (int x) = Inr (wrote ?V {y * s + x} c)"
      unfolding im_get [OF im(1) x y] g bindE.simps v by (rule vset_wrote [where V = ?V, OF x y s(2) le V])
  qed
  then have "sharpen_im im b = Inr (b\<lparr>im_buf := wrote ?V (\<Union>y \<in> set [0..<h]. ?J y) (im_buf b)\<rparr>)"
    unfolding sharpen_im_def im(2,3) s(1) upto_nat foldE_map by (simp only: bindE.simps)
  moreover have "col (b\<lparr>im_buf := wrote ?V (\<Union>y \<in> set [0..<h]. ?J y) (im_buf b)\<rparr>) x y = sharpened (col im) (col b) x y" if "x < w" "y < h" for x y
  proof -
    have "x < s" using that s(2) by simp
    then show ?thesis using pixels_at(1) [OF that s(2,3), of ?V] by (simp add: col_def s_def [symmetric] cells_at)
  qed
  moreover have "im_ok (b\<lparr>im_buf := wrote ?V (\<Union>y \<in> set [0..<h]. ?J y) (im_buf b)\<rparr>) w h" using b(1) by (simp add: im_ok_def)
  ultimately show thesis using that b(2,3) by simp
qed

subsection \<open>The preparation of a frame\<close>

text \<open>The picture the detector works on: every \<open>f\<close>-th pixel, blurred for a positive \<open>sigma\<close>, sharpened for a negative one.\<close>

definition prepared :: "bytes \<Rightarrow> rat \<Rightarrow> nat \<Rightarrow> nat \<Rightarrow> nat \<Rightarrow> (nat \<Rightarrow> nat \<Rightarrow> u8) \<Rightarrow> nat \<Rightarrow> nat \<Rightarrow> u8" where
  "prepared k sigma f w h C =
     (let D = (\<lambda>x y. C (f * x) (f * y)) in
      if sigma = 0 \<or> blur_size sigma \<le> 1 then D
      else if sigma > 0 then blurred k (small f w) (small f h) D
      else sharpened D (blurred k (small f w) (small f h) D))"

lemma conv_cols_cong:
  assumes "\<And>x y. x < w \<Longrightarrow> y < h \<Longrightarrow> C x y = D x y" "odd (length k)" "length k \<le> w" "length k \<le> h" "x < w" "y < h"
  shows "blurred k w h C x y = blurred k w h D x y"
  unfolding blurred_def conv_cols_def conv_rows_def
  by (intro conv_cong assms) assumption+

lemma preprocess_ok:
  assumes ok: "im_ok im w h" "im_width im = int w" "im_height im = int h" and f: "2 \<le> f"
    and d: "2 \<le> small f w" "small f h * (small f w + 96) < 2 ^ 31"
    and k: "int (length (gauss \<bar>sigma\<bar> (blur_size sigma))) = blur_size sigma" "blur_size sigma \<le> int (small f w)" "blur_size sigma \<le> int (small f h)"
      "blur_size sigma < 65536"
  obtains p where "quad_preprocess gauss junk (of_nat f) sigma im = Inr p" "im_ok p (small f w) (small f h)"
    "im_width p = int (small f w)" "im_height p = int (small f h)"
    "\<And>x y. x < small f w \<Longrightarrow> y < small f h \<Longrightarrow> col p x y = prepared (gauss \<bar>sigma\<bar> (blur_size sigma)) sigma f w h (col im) x y"
proof -
  let ?w = "small f w" and ?h = "small f h" and ?k = "gauss \<bar>sigma\<bar> (blur_size sigma)"
  let ?D = "\<lambda>x y. col im (f * x) (f * y)"
  have f1: "0 < f" and dec: "(of_nat f :: rat) > 1" using f by simp_all
  obtain q where q: "image_u8_decimate im (of_nat f) = Inr q" "im_width q = int ?w" "im_height q = int ?h"
    "int ?w \<le> im_stride q" "im_stride q < int ?w + 96" "length (im_buf q) = ?h * nat (im_stride q)"
    "\<And>x y. x < ?w \<Longrightarrow> y < ?h \<Longrightarrow> col q x y = ?D x y"
    by (rule decimate_ok [OF ok f1]) blast
  have "?h * nat (im_stride q) \<le> ?h * (?w + 96)" using q(5) by (intro mult_le_mono2) linarith
  then have qi: "im_ok q ?w ?h" using d q(4,6) by (simp add: im_ok_def small_def)
  show thesis
  proof (cases "sigma = 0 \<or> blur_size sigma \<le> 1")
    case True
    then have "quad_preprocess gauss junk (of_nat f) sigma im = Inr q" using q(1) dec by (auto simp: quad_preprocess_def Let_def)
    then show thesis using that qi q(2,3,7) True by (auto simp: prepared_def Let_def)
  next
    case False
    have "blur_size sigma mod 2 = 1" by (simp add: blur_size_def Let_def) presburger
    then have odd: "odd (length ?k)" using k(1) by presburger
    have kl: "length ?k \<le> ?w" "length ?k \<le> ?h" "length ?k < 65536" using k by linarith+
    obtain b where b: "image_u8_convolve_2D junk ?k q = Inr b" "im_ok b ?w ?h" "im_width b = int ?w" "im_height b = int ?h"
      "im_stride b = im_stride q" "\<And>x y. x < ?w \<Longrightarrow> y < ?h \<Longrightarrow> col b x y = blurred ?k ?w ?h (col q) x y"
      by (rule convolve_2D_ok [OF qi q(2,3) odd kl, of junk]) blast
    have bl: "col b x y = blurred ?k ?w ?h ?D x y" if "x < ?w" "y < ?h" for x y
      using b(6) [OF that] conv_cols_cong [OF q(7) odd kl(1,2) that] by simp
    show thesis
    proof (cases "sigma > 0")
      case True
      then have "quad_preprocess gauss junk (of_nat f) sigma im = Inr b" using q(1) b(1) dec False by (simp add: quad_preprocess_def Let_def)
      then show thesis using that b(2-4) bl True False by (simp add: prepared_def Let_def)
    next
      case neg: False
      let ?o = "q\<lparr>im_buf := take (?h * nat (im_stride q)) (im_buf q)\<rparr>"
      have o': "?o = q" using q(6) by simp
      obtain t where t: "sharpen_im q b = Inr t" "im_ok t ?w ?h" "im_width t = int ?w" "im_height t = int ?h"
        "\<And>x y. x < ?w \<Longrightarrow> y < ?h \<Longrightarrow> col t x y = sharpened (col q) (col b) x y"
        by (rule sharpen_ok [OF qi q(2,3) b(2-4)]) blast
      have "quad_preprocess gauss junk (of_nat f) sigma im = Inr t"
        using q(1) b(1) t(1) dec False neg image_copy_ok [OF qi q(3)] o' by (simp add: quad_preprocess_def Let_def)
      moreover have "col t x y = prepared ?k sigma f w h (col im) x y" if "x < ?w" "y < ?h" for x y
        using t(5) [OF that] q(7) [OF that] bl [OF that] False neg by (simp add: prepared_def Let_def sharpened_def)
      ultimately show thesis using that t(2-4) by blast
    qed
  qed
qed

text \<open>Decimation by one and a half.\<close>

definition dec32 :: "image_u8 \<Rightarrow> nat \<Rightarrow> nat \<Rightarrow> u8" where
  "dec32 im x y =
     (let i = 3 * (x div 2); j = 3 * (y div 2); cx = i + 2 * (x mod 2); cy = j + 2 * (y mod 2) in
      mix9 (col im cx cy) (col im (i + 1) cy) (col im cx (j + 1)) (col im (i + 1) (j + 1)))"

lemma mix9_comm: "mix9 a b d e = mix9 a d b e"
  by (simp add: mix9_def add.commute add.left_commute)

lemma decimate_block_ok:
  assumes ok: "im_ok im w h" and ij: "i < w div 3" "j < h div 3" and s: "2 * (w div 3) \<le> s" "2 * (h div 3) * s \<le> length buf"
  shows "decimate_block im (int s) buf (int (2 * j)) (3 * int j) (int (2 * i)) (3 * int i) =
    Inr (wrote (cells s (dec32 im)) {2 * j * s + 2 * i, 2 * j * s + (2 * i + 1), (2 * j + 1) * s + 2 * i, (2 * j + 1) * s + (2 * i + 1)} buf)"
proof -
  let ?V = "cells s (dec32 im)"
  have b: "3 * i + dx < w" "3 * j + dy < h" if "dx < 3" "dy < 3" for dx dy using ij that by linarith+
  have g: "vget (im_buf im) ((3 * int j + int dy) * im_stride im + (3 * int i + int dx)) = Inr (col im (3 * i + dx) (3 * j + dy))"
    if "dx < 3" "dy < 3" for dx dy using im_get [OF ok b [OF that]] by simp
  note g9 = g [of 0 0] g [of 1 0] g [of 2 0] g [of 0 1] g [of 1 1] g [of 2 1] g [of 0 2] g [of 1 2] g [of 2 2]
  have w: "vset buf' ((int (2 * j) + int dy) * int s + (int (2 * i) + int dx)) v = Inr (wrote ?V {(2 * j + dy) * s + (2 * i + dx)} buf')"
    if "dx < 2" "dy < 2" "length buf' = length buf" "dec32 im (2 * i + dx) (2 * j + dy) = v" for dx dy buf' v
  proof -
    have x: "2 * i + dx < 2 * (w div 3)" "2 * j + dy < 2 * (h div 3)" using ij that(1,2) by linarith+
    have le: "2 * (h div 3) * s \<le> length buf'" using s(2) that(3) by simp
    have V: "?V ((2 * j + dy) * s + (2 * i + dx)) = v" using x(1) s(1) that(4) by (simp add: cells_at)
    show ?thesis using vset_wrote [where V = ?V, OF x s(1) le V] by (simp only: of_nat_add)
  qed
  note w4 = w [of 0 0] w [of 1 0] w [of 0 1] w [of 1 1]
  have D: "dec32 im (2 * i) (2 * j) = mix9 (col im (3 * i) (3 * j)) (col im (3 * i + 1) (3 * j)) (col im (3 * i) (3 * j + 1)) (col im (3 * i + 1) (3 * j + 1))"
    "dec32 im (2 * i + 1) (2 * j) = mix9 (col im (3 * i + 2) (3 * j)) (col im (3 * i + 1) (3 * j)) (col im (3 * i + 2) (3 * j + 1)) (col im (3 * i + 1) (3 * j + 1))"
    "dec32 im (2 * i) (2 * j + 1) = mix9 (col im (3 * i) (3 * j + 2)) (col im (3 * i) (3 * j + 1)) (col im (3 * i + 1) (3 * j + 2)) (col im (3 * i + 1) (3 * j + 1))"
    "dec32 im (2 * i + 1) (2 * j + 1) = mix9 (col im (3 * i + 2) (3 * j + 2)) (col im (3 * i + 2) (3 * j + 1)) (col im (3 * i + 1) (3 * j + 2)) (col im (3 * i + 1) (3 * j + 1))"
    by (simp add: dec32_def Let_def, simp add: dec32_def Let_def)
      (simp add: dec32_def Let_def, rule mix9_comm, simp add: dec32_def Let_def, rule mix9_comm)
  show ?thesis
    unfolding decimate_block_def Let_def
    using g9 w4 D by (simp add: wrote_wrote insert_commute Un_insert_right)
qed

lemma decimate_3_2_ok:
  assumes ok: "im_ok im w h" and wh: "im_width im = int w" "im_height im = int h" and three: "3 \<le> w" "3 \<le> h"
  obtains d where "image_u8_decimate im (3 / 2) = Inr d" "im_width d = int (2 * (w div 3))" "im_height d = int (2 * (h div 3))"
    "int (2 * (w div 3)) \<le> im_stride d" "\<And>x y. x < 2 * (w div 3) \<Longrightarrow> y < 2 * (h div 3) \<Longrightarrow> col d x y = dec32 im x y"
proof -
  let ?m = "w div 3" and ?n = "h div 3"
  have pos: "0 < ?m" "0 < ?n" using three by simp_all
  obtain s where s: "image_u8_create (int (2 * ?m)) (int (2 * ?n)) = Inr (image_u8_create_stride (int (2 * ?m)) (int (2 * ?n)) s)" "int (2 * ?m) \<le> s"
    by (rule create_ok [of "int (2 * ?m)" "int (2 * ?n)"]) (use pos in simp_all)
  obtain s' where s': "s = int s'" using s(2) by (metis nonneg_int_cases of_nat_0_le_iff order_trans)
  have sw: "2 * ?m \<le> s'" using s(2) s' by simp
  let ?d = "image_u8_create_stride (int (2 * ?m)) (int (2 * ?n)) s" and ?V = "cells s' (dec32 im)"
  let ?o = "replicate (2 * ?n * s') 0 :: bytes"
  let ?I = "\<lambda>j i. {2 * j * s' + 2 * i, 2 * j * s' + (2 * i + 1), (2 * j + 1) * s' + 2 * i, (2 * j + 1) * s' + (2 * i + 1)}"
  let ?J = "\<Union>j \<in> set [0..<?n]. \<Union>i \<in> set [0..<?m]. ?I j i"
  have dim: "int n div 3 * 2 = int (2 * (n div 3))" for n by simp
  have two: "enumerate 0 (up_by 2 0 (int (2 * n))) = map (\<lambda>i. (i, int (2 * i))) [0..<n]" if "0 < n" for n
  proof -
    have "2 * n - 1 = 2 * (n - 1) + 1" using that by simp
    then have "small 2 (2 * n) = n" using that by (simp add: small_def)
    then show ?thesis using strides [of 2 "2 * n"] that by simp
  qed
  have st: "im_stride ?d = int s'" "im_buf ?d = ?o"
    by (simp_all add: image_u8_create_stride_def s' flip: of_nat_mult)
  have "foldE (\<lambda>buf j. foldE (\<lambda>buf i. decimate_block im (int s') buf (int (2 * j)) (3 * int j) (int (2 * i)) (3 * int i)) [0..<?m] buf) [0..<?n] ?o =
      Inr (wrote ?V ?J ?o)"
  proof (rule foldE_wrote [where n = "2 * ?n * s'"])
    fix j and b :: bytes assume j: "j \<in> set [0..<?n]" and b: "length b = 2 * ?n * s'"
    show "foldE (\<lambda>buf i. decimate_block im (int s') buf (int (2 * j)) (3 * int j) (int (2 * i)) (3 * int i)) [0..<?m] b =
        Inr (wrote ?V (\<Union>i \<in> set [0..<?m]. ?I j i) b)"
    proof (rule foldE_wrote [OF b])
      fix i and c :: bytes assume i: "i \<in> set [0..<?m]" and c: "length c = 2 * ?n * s'"
      show "decimate_block im (int s') c (int (2 * j)) (3 * int j) (int (2 * i)) (3 * int i) = Inr (wrote ?V (?I j i) c)"
        by (rule decimate_block_ok [OF ok _ _ sw]) (use i j c in simp_all)
    qed
  qed simp
  moreover have "image_u8_decimate im (3 / 2) =
      bindE (foldE (\<lambda>buf j. foldE (\<lambda>buf i. decimate_block im (int s') buf (int (2 * j)) (3 * int j) (int (2 * i)) (3 * int i)) [0..<?m] buf) [0..<?n] ?o)
        (\<lambda>buf. Inr (?d\<lparr>im_buf := buf\<rparr>))"
    unfolding image_u8_decimate_def decimate_3_2_def Let_def wh dim s(1) bindE.simps two [OF pos(1)] two [OF pos(2)] foldE_map st prod.case by simp
  ultimately have r: "image_u8_decimate im (3 / 2) = Inr (?d\<lparr>im_buf := wrote ?V ?J ?o\<rparr>)" by (simp only: bindE.simps)
  have "col (?d\<lparr>im_buf := wrote ?V ?J ?o\<rparr>) x y = dec32 im x y" if xy: "x < 2 * ?m" "y < 2 * ?n" for x y
  proof -
    have l: "y * s' + x < length ?o" using pixels_at(2) [OF xy sw, of ?o] by simp
    have p: "x = 2 * (x div 2) + x mod 2" "y = 2 * (y div 2) + y mod 2" "x mod 2 = 0 \<or> x mod 2 = 1" "y mod 2 = 0 \<or> y mod 2 = 1" by auto
    then have "y * s' + x \<in> ?I (y div 2) (x div 2)" by (metis add.right_neutral insertCI)
    then have "y * s' + x \<in> ?J" using xy by (intro UN_I [of "y div 2"] UN_I [of "x div 2"]) auto
    then have "wrote ?V ?J ?o ! (y * s' + x) = ?V (y * s' + x)" using l by (simp only: nth_wrote if_True)
    moreover have "x < s'" using xy(1) sw by simp
    moreover have "nat (im_stride ?d) = s'" unfolding st by simp
    ultimately show ?thesis by (simp add: col_def cells_at)
  qed
  then show thesis using that r s(2) by (simp add: image_u8_create_stride_def)
qed

subsection \<open>Properties\<close>

text \<open>\<open>image_u8_decimate\<close> by an integer keeps every \<open>f\<close>-th pixel of every \<open>f\<close>-th row, the last one included; by one
  and a half it mixes each full block of three by three pixels into two by two. The rows of the result fit its stride, and
  no access is outside the images.\<close>

theorem decimate_correct:
  assumes "im_ok im w h" "im_width im = int w" "im_height im = int h" "1 \<le> f" "3 \<le> w" "3 \<le> h"
  shows "\<exists>d e. image_u8_decimate im (of_nat f) = Inr d \<and> im_width d = int (1 + (w - 1) div f) \<and> im_height d = int (1 + (h - 1) div f) \<and>
      im_width d \<le> im_stride d \<and> (\<forall>x < 1 + (w - 1) div f. \<forall>y < 1 + (h - 1) div f. col d x y = col im (f * x) (f * y)) \<and>
    image_u8_decimate im (3 / 2) = Inr e \<and> im_width e = int (2 * (w div 3)) \<and> im_height e = int (2 * (h div 3)) \<and>
      im_width e \<le> im_stride e \<and> (\<forall>x < 2 * (w div 3). \<forall>y < 2 * (h div 3). col e x y = dec32 im x y)"
proof -
  have f: "0 < f" using assms(4) by simp
  obtain d where d: "image_u8_decimate im (of_nat f) = Inr d" "im_width d = int (small f w)" "im_height d = int (small f h)"
    "int (small f w) \<le> im_stride d" "\<And>x y. x < small f w \<Longrightarrow> y < small f h \<Longrightarrow> col d x y = col im (f * x) (f * y)"
    by (rule decimate_ok [OF assms(1-3) f]) blast
  obtain e where e: "image_u8_decimate im (3 / 2) = Inr e" "im_width e = int (2 * (w div 3))" "im_height e = int (2 * (h div 3))"
    "int (2 * (w div 3)) \<le> im_stride e" "\<And>x y. x < 2 * (w div 3) \<Longrightarrow> y < 2 * (h div 3) \<Longrightarrow> col e x y = dec32 im x y"
    by (rule decimate_3_2_ok [OF assms(1-3,5,6)]) blast
  show ?thesis
    by (intro exI [of _ d] exI [of _ e] conjI allI impI e(1-3) d(1,2,3) [unfolded small_def] d(5) [unfolded small_def] e(5)) (use d(2,4) e(2,4) in simp_all)
qed

text \<open>C35: The convolution with an odd kernel no larger than the image computes the weighted means of the rows and then of
  the columns, leaving the borders as they are, and reads and writes inside the image; with weights of at most 256 together no
  pixel gets brighter than the brightest one.\<close>

theorem blur_correct:
  assumes "im_ok im w h" "im_width im = int w" "im_height im = int h"
    and "odd (length k)" "length k \<le> w" "length k \<le> h" "length k < 65536"
  shows "\<exists>b. image_u8_convolve_2D junk k im = Inr b \<and> im_ok b w h \<and>
    (\<forall>x < w. \<forall>y < h. col b x y = conv_cols k h (conv_rows k w (col im)) x y) \<and>
    ((\<Sum>j < length k. unat (k ! j)) \<le> 256 \<longrightarrow> (\<forall>M. (\<forall>x < w. \<forall>y < h. col im x y \<le> M) \<longrightarrow> (\<forall>x < w. \<forall>y < h. col b x y \<le> M)))"
proof -
  obtain b where b: "image_u8_convolve_2D junk k im = Inr b" "im_ok b w h" "\<And>x y. x < w \<Longrightarrow> y < h \<Longrightarrow> col b x y = blurred k w h (col im) x y"
    by (rule convolve_2D_ok [OF assms, of junk]) blast
  have "col b x y \<le> M" if "(\<Sum>j < length k. unat (k ! j)) \<le> 256" "\<forall>x < w. \<forall>y < h. col im x y \<le> M" "x < w" "y < h" for M x y
    using b(3) [OF that(3,4)] blurred_le [OF that(1) assms(4-6) that(3,4), of "col im" M] that(2) by simp
  then show ?thesis using b by (intro exI [of _ b]) (simp add: blurred_def)
qed

subsection \<open>Witnesses\<close>

lemma decimate_correct_witness:
  "\<exists>d e. image_u8_decimate stripe_image 2 = Inr d \<and> im_width d = 3 \<and> im_height d = 3 \<and>
    (\<forall>x < 3. \<forall>y < 3. col d x y = col stripe_image (2 * x) (2 * y)) \<and>
    image_u8_decimate stripe_image (3 / 2) = Inr e \<and> (\<forall>x < 2. \<forall>y < 4. col e x y = dec32 stripe_image x y)"
proof -
  have "im_ok stripe_image 5 6" "im_width stripe_image = int 5" "im_height stripe_image = int 6" by (simp_all add: im_ok_def stripe_image_def)
  from decimate_correct [OF this, of 2] show ?thesis by fastforce
qed

lemma blur_correct_witness:
  "\<exists>b. image_u8_convolve_2D (\<lambda>_. 0) [42, 170, 42] stripe_image = Inr b \<and> im_ok b 5 6 \<and>
    (\<forall>x < 5. \<forall>y < 6. col b x y \<le> 255)"
proof -
  have i: "im_ok stripe_image 5 6" "im_width stripe_image = int 5" "im_height stripe_image = int 6" by (simp_all add: im_ok_def stripe_image_def)
  have "(\<Sum>j < length [42, 170, 42 :: u8]. unat ([42, 170, 42 :: u8] ! j)) \<le> 256" by (simp add: sum.lessThan_Suc)
  then show ?thesis using blur_correct [OF i, of "[42, 170, 42]" "\<lambda>_. 0"] u8_le by auto
qed

end
