(* ===== verification/TagImage.thy ===== *)
theory TagImage
  imports Families ImageOps "HOL-Library.Signed_Division"
begin

text \<open>
  Where the bits of a tag are: the cells of a family, what a quarter turn does to them, and \<open>apriltag_to_image\<close> of \<open>apriltag.c\<close>, which
  draws a tag.
\<close>

subsection \<open>Drawing\<close>

definition draw_border :: "int \<Rightarrow> int \<Rightarrow> int \<Rightarrow> int \<Rightarrow> bytes \<Rightarrow> cerr + bytes" where
  "draw_border stride total_width white_border_width white_border_start =
     foldE (\<lambda>buf i.
       bindE (vset buf (white_border_start * stride + white_border_start + i) 255) (\<lambda>buf.
       bindE (vset buf ((white_border_start + i) * stride + total_width - 1 - white_border_start) 255) (\<lambda>buf.
       bindE (vset buf ((total_width - 1 - white_border_start) * stride + white_border_start + i + 1) 255) (\<lambda>buf.
       vset buf ((white_border_start + 1 + i) * stride + white_border_start) 255)))) [0..white_border_width - 2]"

text \<open>The coordinates of a bit are unsigned, so the index is computed modulo \<open>2 ^ 32\<close>.\<close>

definition bit_index :: "apriltag_family \<Rightarrow> int \<Rightarrow> int \<Rightarrow> nat \<Rightarrow> cerr + int" where
  "bit_index fam stride border_start i =
     bindE (arr_get (fam_bit_y fam) i) (\<lambda>by. bindE (arr_get (fam_bit_x fam) i) (\<lambda>bx.
     Inr (uint ((by + of_int border_start) * of_int stride + bx + of_int border_start))))"

definition apriltag_to_image :: "apriltag_family \<Rightarrow> nat \<Rightarrow> cerr + image_u8" where
  "apriltag_to_image fam idx =
     bindE (assertE (idx < fam_ncodes fam)) (\<lambda>_.
     bindE (arr_get (fam_codes fam) idx) (\<lambda>code.
     bindE (image_u8_create (fam_total_width fam) (fam_total_width fam)) (\<lambda>im.
     let white_border_width = fam_width_at_border fam + (if fam_reversed_border fam then 0 else 2);
         white_border_start = (fam_total_width fam - white_border_width) sdiv 2;
         border_start = (fam_total_width fam - fam_width_at_border fam) sdiv 2
     in
     bindE (draw_border (im_stride im) (fam_total_width fam) white_border_width white_border_start (im_buf im)) (\<lambda>buf.
     bindE (foldE (\<lambda>buf i.
         if code AND push_bit (fam_nbits fam - i - 1) 1 \<noteq> 0
         then bindE (bit_index fam (im_stride im) border_start i) (\<lambda>k. vset buf k 255)
         else Inr buf) [0..<fam_nbits fam] buf) (\<lambda>buf.
     Inr (im\<lparr>im_buf := buf\<rparr>))))))"

subsection \<open>Where the bits of a family are\<close>

definition bpos :: "apriltag_family \<Rightarrow> nat \<Rightarrow> int \<times> int" where
  "bpos fam i = (sint (fam_bit_x fam ! i), sint (fam_bit_y fam ! i))"

definition margin_width :: "apriltag_family \<Rightarrow> int" where
  "margin_width fam = (fam_total_width fam - fam_width_at_border fam) div 2"

text \<open>A quarter turn of the plane about the centre of the tag.\<close>

definition turn_pos :: "apriltag_family \<Rightarrow> int \<times> int \<Rightarrow> int \<times> int" where
  "turn_pos fam = (\<lambda>(x, y). (fam_width_at_border fam - 1 - y, x))"

definition white_start :: "apriltag_family \<Rightarrow> int" where
  "white_start fam = (if fam_reversed_border fam then margin_width fam else margin_width fam - 1)"

text \<open>The cell of the picture that shows a bit.\<close>

definition cell :: "apriltag_family \<Rightarrow> nat \<Rightarrow> nat \<times> nat" where
  "cell fam i = (nat (fst (bpos fam i) + margin_width fam), nat (snd (bpos fam i) + margin_width fam))"

text \<open>The square frame \<open>b\<close> cells inside a picture of \<open>n\<close> by \<open>n\<close> cells.\<close>

definition on_ring :: "nat \<Rightarrow> nat \<Rightarrow> nat \<times> nat \<Rightarrow> bool" where
  "on_ring b n = (\<lambda>(x, y). b \<le> x \<and> x + b < n \<and> b \<le> y \<and> y + b < n \<and> (x = b \<or> x + b + 1 = n \<or> y = b \<or> y + b + 1 = n))"

definition ring :: "nat \<Rightarrow> nat \<Rightarrow> (nat \<times> nat) set" where
  "ring b n = Collect (on_ring b n)"

text \<open>
  The bit cells lie in the picture, apart and away from the white border, and a quarter turn permutes them as \<open>rotate90\<close>
  permutes the bits.
\<close>

definition cells_ok :: "apriltag_family \<Rightarrow> bool" where
  "cells_ok fam \<longleftrightarrow>
     (let nb = fam_nbits fam; m = margin_width fam; t = fam_total_width fam in
      length (fam_bit_x fam) = nb \<and> length (fam_bit_y fam) = nb \<and> 0 \<le> white_start fam \<and> 2 * white_start fam + 2 \<le> t \<and>
      t = fam_width_at_border fam + 2 * m \<and> t \<le> 10 \<and>
      distinct (map (bpos fam) [0..<nb]) \<and>
      list_all (\<lambda>i. \<not> on_ring (nat (white_start fam)) (nat t) (cell fam i)) [0..<nb] \<and>
      list_all (\<lambda>i. - m \<le> fst (bpos fam i) \<and> fst (bpos fam i) < t - m \<and> - m \<le> snd (bpos fam i) \<and> snd (bpos fam i) < t - m) [0..<nb] \<and>
      list_all (\<lambda>i. turn_pos fam (bpos fam i) = bpos fam (nb - 1 - rot_src nb (nb - 1 - i))) [0..<nb])"

lemma cells_ok_families: "cells_ok tag16h5_create" "cells_ok tag25h9_create" "cells_ok tag36h11_create" "cells_ok tagCircle21h7_create"
  by code_simp+

lemma cells_ok_facts:
  assumes "cells_ok fam"
  shows "length (fam_bit_x fam) = fam_nbits fam" "length (fam_bit_y fam) = fam_nbits fam" "0 \<le> white_start fam"
    "2 * white_start fam + 2 \<le> fam_total_width fam" "fam_total_width fam = fam_width_at_border fam + 2 * margin_width fam"
    "fam_total_width fam \<le> 10" "distinct (map (bpos fam) [0..<fam_nbits fam])"
    "i < fam_nbits fam \<Longrightarrow> \<not> on_ring (nat (white_start fam)) (nat (fam_total_width fam)) (cell fam i)"
    "i < fam_nbits fam \<Longrightarrow> - margin_width fam \<le> fst (bpos fam i)" "i < fam_nbits fam \<Longrightarrow> fst (bpos fam i) < fam_total_width fam - margin_width fam"
    "i < fam_nbits fam \<Longrightarrow> - margin_width fam \<le> snd (bpos fam i)" "i < fam_nbits fam \<Longrightarrow> snd (bpos fam i) < fam_total_width fam - margin_width fam"
    "i < fam_nbits fam \<Longrightarrow> turn_pos fam (bpos fam i) = bpos fam (fam_nbits fam - 1 - rot_src (fam_nbits fam) (fam_nbits fam - 1 - i))"
  using assms unfolding cells_ok_def Let_def list_all_iff set_upt atLeast0LessThan Ball_def lessThan_iff by blast+

lemma cells_okD:
  assumes "cells_ok fam"
  obtains T m b where "fam_total_width fam = int T" "fam_width_at_border fam = int T - 2 * int m" "margin_width fam = int m"
    "white_start fam = int b" "2 * b + 2 \<le> T" "T \<le> 10"
proof
  note f = cells_ok_facts [OF assms]
  have m: "0 \<le> margin_width fam" and t: "0 \<le> fam_total_width fam" using f(3,4) by (auto simp: white_start_def split: if_splits)
  then show "fam_total_width fam = int (nat (fam_total_width fam))" "margin_width fam = int (nat (margin_width fam))" by simp_all
  show "white_start fam = int (nat (white_start fam))" using f(3) by simp
  show "fam_width_at_border fam = int (nat (fam_total_width fam)) - 2 * int (nat (margin_width fam))" using f(5) m t by simp
  show "2 * nat (white_start fam) + 2 \<le> nat (fam_total_width fam)" using f(3,4) by linarith
  show "nat (fam_total_width fam) \<le> 10" using f(6) by simp
qed

lemma cell_bounds:
  assumes "cells_ok fam" "i < fam_nbits fam"
  shows "fst (cell fam i) < nat (fam_total_width fam)" "snd (cell fam i) < nat (fam_total_width fam)"
    "fst (bpos fam i) + margin_width fam = int (fst (cell fam i))" "snd (bpos fam i) + margin_width fam = int (snd (cell fam i))"
  using cells_ok_facts(9-12) [OF assms(1,2)] by (simp_all add: cell_def)

lemma cell_inj:
  assumes "cells_ok fam" "i < fam_nbits fam" "j < fam_nbits fam" "cell fam i = cell fam j"
  shows "i = j"
proof -
  have "bpos fam i = bpos fam j"
    using cell_bounds(3,4) [OF assms(1,2)] cell_bounds(3,4) [OF assms(1,3)] assms(4) by (simp add: prod_eq_iff)
  then show ?thesis using cells_ok_facts(7) [OF assms(1)] assms(2,3) by (auto simp: distinct_conv_nth)
qed

subsection \<open>The drawn picture\<close>

text \<open>Everything that is drawn is white, so the order does not matter.\<close>

abbreviation white :: "nat \<Rightarrow> u8" where
  "white \<equiv> \<lambda>_. 255"

lemma draw_one: "k = int j \<Longrightarrow> j < length buf \<Longrightarrow> vset buf k 255 = Inr (wrote white {j} buf)"
  using vset_ok [of j buf 255] wrote_one [of j buf white] by simp

lemma draw_four:
  assumes "k1 = int j1" "k2 = int j2" "k3 = int j3" "k4 = int j4" "{j1, j2, j3, j4} \<subseteq> {..<length buf}"
  shows "bindE (vset buf k1 255) (\<lambda>buf. bindE (vset buf k2 255) (\<lambda>buf. bindE (vset buf k3 255) (\<lambda>buf. vset buf k4 255))) =
    Inr (wrote white {j1, j2, j3, j4} buf)"
  using assms by (simp add: draw_one wrote_wrote insert_commute)

text \<open>The index of a pixel.\<close>

definition pix :: "nat \<Rightarrow> nat \<times> nat \<Rightarrow> nat" where
  "pix s = (\<lambda>(x, y). y * s + x)"

lemma pix_less: "x < T \<Longrightarrow> y < T \<Longrightarrow> T \<le> s \<Longrightarrow> pix s (x, y) < T * s"
proof -
  assume a: "x < T" "y < T" "T \<le> s"
  have "y * s + x < Suc y * s" using a by simp
  also have "\<dots> \<le> T * s" using a by (intro mult_le_mono1) simp
  finally show ?thesis by (simp add: pix_def)
qed

lemma pix_inj: "fst p < s \<Longrightarrow> fst q < s \<Longrightarrow> pix s p = pix s q \<Longrightarrow> p = q"
proof -
  assume a: "fst p < s" "fst q < s" "pix s p = pix s q"
  have "pix s p div s = snd p" "pix s p mod s = fst p" "pix s q div s = snd q" "pix s q mod s = fst q"
    using a(1,2) by (simp_all add: pix_def split_beta)
  then show ?thesis using a(3) by (metis prod_eq_iff)
qed

lemma ring_sides:
  assumes "2 * b + 2 \<le> T"
  shows "(\<Union>i \<in> set [0..<T - 1 - 2 * b]. {(b + i, b), (T - 1 - b, b + i), (b + i + 1, T - 1 - b), (b, b + 1 + i)}) = ring b T" (is "?A = _")
proof (intro equalityI subsetI)
  fix p assume "p \<in> ?A"
  then show "p \<in> ring b T" using assms by (auto simp: ring_def on_ring_def)
next
  fix p assume "p \<in> ring b T"
  then obtain x y where p: "p = (x, y)" "b \<le> x" "x + b < T" "b \<le> y" "y + b < T" "x = b \<or> x + b + 1 = T \<or> y = b \<or> y + b + 1 = T"
    by (auto simp: ring_def on_ring_def)
  have e: "p \<in> ?A" if "i < T - 1 - 2 * b" "p \<in> {(b + i, b), (T - 1 - b, b + i), (b + i + 1, T - 1 - b), (b, b + 1 + i)}" for i
    using that by (intro UN_I [of i]) simp_all
  consider "y = b" "x + b + 1 < T" | "x + b + 1 = T" "y + b + 1 < T" | "y + b + 1 = T" "b < x" | "x = b" "b < y" using p assms by linarith
  then show "p \<in> ?A"
  proof cases
    case 1 then show ?thesis using e [of "x - b"] p by auto
  next
    case 2 then show ?thesis using e [of "y - b"] p by auto
  next
    case 3 then show ?thesis using e [of "x - b - 1"] p by auto
  next
    case 4 then show ?thesis using e [of "y - b - 1"] p by auto
  qed
qed

lemma draw_border_ok:
  assumes "2 * b + 2 \<le> T" "T \<le> s" "length buf = T * s"
  shows "draw_border (int s) (int T) (int T - 2 * int b) (int b) buf = Inr (wrote white (pix s ` ring b T) buf)"
proof -
  define n where "n = T - 1 - 2 * b"
  have n: "[0..int T - 2 * int b - 2] = map int [0..<n]" using assms(1) upto_nat [of n] by (simp add: n_def of_nat_diff algebra_simps)
  let ?I = "\<lambda>i. {(b + i, b), (T - 1 - b, b + i), (b + i + 1, T - 1 - b), (b, b + 1 + i)}"
  have "draw_border (int s) (int T) (int T - 2 * int b) (int b) buf = Inr (wrote white (\<Union>i \<in> set [0..<n]. pix s ` ?I i) buf)"
    unfolding draw_border_def n foldE_map
  proof (rule foldE_wrote [OF assms(3)])
    fix i and buf :: bytes assume i: "i \<in> set [0..<n]" and l: "length buf = T * s"
    have "pix s (b + i, b) < T * s" "pix s (T - 1 - b, b + i) < T * s" "pix s (b + i + 1, T - 1 - b) < T * s" "pix s (b, b + 1 + i) < T * s"
      using i n_def assms(1,2) by (auto intro!: pix_less)
    then show "bindE (vset buf (int b * int s + int b + int i) 255) (\<lambda>buf.
       bindE (vset buf ((int b + int i) * int s + int T - 1 - int b) 255) (\<lambda>buf.
       bindE (vset buf ((int T - 1 - int b) * int s + int b + int i + 1) 255) (\<lambda>buf.
       vset buf ((int b + 1 + int i) * int s + int b) 255))) = Inr (wrote white (pix s ` ?I i) buf)"
      using assms(1) l unfolding image_insert image_empty by (intro draw_four) (simp_all add: pix_def of_nat_diff algebra_simps)
  qed
  also have "(\<Union>i \<in> set [0..<n]. pix s ` ?I i) = pix s ` ring b T" unfolding ring_sides [OF assms(1), symmetric] n_def by blast
  finally show ?thesis .
qed

lemma bit_index_ok:
  assumes ok: "cells_ok fam" and i: "i < fam_nbits fam" and s: "s \<le> 200"
  shows "bit_index fam (int s) (margin_width fam) i = Inr (int (pix s (cell fam i)))"
proof -
  have l: "i < length (fam_bit_y fam)" "i < length (fam_bit_x fam)" using cells_ok_facts(1,2) [OF ok] i by simp_all
  obtain T where T: "fam_total_width fam = int T" "T \<le> 10" by (rule cells_okD [OF ok]) blast
  have x: "fst (cell fam i) < 10" and y: "snd (cell fam i) < 10" using cell_bounds(1,2) [OF ok i] T by simp_all
  let ?k = "int (snd (cell fam i)) * int s + int (fst (cell fam i))"
  have "(fam_bit_y fam ! i + of_int (margin_width fam)) * of_int (int s) + fam_bit_x fam ! i + of_int (margin_width fam) =
      (of_int ((snd (bpos fam i) + margin_width fam) * int s + (fst (bpos fam i) + margin_width fam)) :: u32)"
    by (simp add: bpos_def algebra_simps)
  also have "\<dots> = of_int ?k" unfolding cell_bounds(3,4) [OF ok i] ..
  finally have w: "(fam_bit_y fam ! i + of_int (margin_width fam)) * of_int (int s) + fam_bit_x fam ! i + of_int (margin_width fam) = (of_int ?k :: u32)" .
  have "snd (cell fam i) * s \<le> 9 * 200" using y s by (intro mult_le_mono) simp_all
  then have "snd (cell fam i) * s + fst (cell fam i) < 2 ^ 32" using x by simp
  then have "int (snd (cell fam i) * s + fst (cell fam i)) < 2 ^ 32" by (metis of_nat_less_iff of_nat_numeral of_nat_power)
  then have k: "0 \<le> ?k" "?k < 2 ^ 32" by simp_all
  have "uint (of_int k :: u32) = k" if "0 \<le> k" "k < 2 ^ 32" for k using that by (simp add: unsigned_of_int take_bit_int_eq_self)
  from this [OF k] have "uint (of_int ?k :: u32) = ?k" .
  then show ?thesis unfolding bit_index_def arr_get_ok [OF l(1)] arr_get_ok [OF l(2)] bindE.simps w by (simp add: pix_def split_beta)
qed

lemma bit_mask_iff_word: "i < nb \<Longrightarrow> nb \<le> 64 \<Longrightarrow> (c :: u64) AND push_bit (nb - i - 1) 1 \<noteq> 0 \<longleftrightarrow> bit c (nb - 1 - i)"
  by (simp add: and_exp_eq_0_iff_not_bit push_bit_eq_mult)

text \<open>What \<open>apriltag_to_image\<close> draws: the white frame and the ones of the code, each in its cell.\<close>

definition drawn :: "apriltag_family \<Rightarrow> nat \<Rightarrow> (nat \<times> nat) set" where
  "drawn fam idx = ring (nat (white_start fam)) (nat (fam_total_width fam)) \<union>
     cell fam ` {i. i < fam_nbits fam \<and> bit (fam_codes fam ! idx) (fam_nbits fam - 1 - i)}"

lemma apriltag_to_image_ok:
  assumes ok: "cells_ok fam" "fam_ok fam" and idx: "idx < fam_ncodes fam"
  obtains im where "apriltag_to_image fam idx = Inr im" "im_width im = fam_total_width fam" "im_height im = fam_total_width fam"
    "im_width im \<le> im_stride im"
    "\<And>x y. x < nat (fam_total_width fam) \<Longrightarrow> y < nat (fam_total_width fam) \<Longrightarrow> col im x y = (if (x, y) \<in> drawn fam idx then 255 else 0)"
proof -
  obtain T m b where f: "fam_total_width fam = int T" "fam_width_at_border fam = int T - 2 * int m" "margin_width fam = int m"
    "white_start fam = int b" "2 * b + 2 \<le> T" "T \<le> 10" by (rule cells_okD [OF ok(1)])
  let ?nb = "fam_nbits fam" and ?c = "fam_codes fam ! idx"
  have c: "idx < length (fam_codes fam)" and nb: "?nb \<le> 64" using ok(2) idx by (simp_all add: fam_ok_def)
  obtain z where z: "image_u8_create (int T) (int T) = Inr (image_u8_create_stride (int T) (int T) z)" "int T \<le> z" "z < int T + 96"
    by (rule create_ok [of "int T" "int T"]) (use f(5) in simp_all)
  define s where "s = nat z"
  have s: "z = int s" "T \<le> s" "s \<le> 200" using z(2,3) f(6) by (simp_all add: s_def)
  let ?buf = "replicate (T * s) (0 :: u8)"
  have bs: "(int T - (int T - 2 * int m)) sdiv 2 = int m" by (simp add: signed_divide_int_def sgn_if)
  have ws: "(int T - (int T - 2 * int b)) sdiv 2 = int b" by (simp add: signed_divide_int_def sgn_if)
  have ww: "int T - 2 * int m + (if fam_reversed_border fam then 0 else 2) = int T - 2 * int b" using f(3,4) by (auto simp: white_start_def)
  define R where "R = pix s ` ring b T"
  have ring: "draw_border (int s) (int T) (int T - 2 * int b) (int b) ?buf = Inr (wrote white R ?buf)"
    unfolding R_def by (rule draw_border_ok [OF f(5) s(2)]) simp
  let ?J = "\<lambda>i. if bit ?c (?nb - 1 - i) then {pix s (cell fam i)} else {}"
  have cells: "foldE (\<lambda>buf i. if ?c AND push_bit (?nb - i - 1) 1 \<noteq> 0 then bindE (bit_index fam (int s) (int m) i) (\<lambda>k. vset buf k 255) else Inr buf)
      [0..<?nb] (wrote white R ?buf) = Inr (wrote white (\<Union>i \<in> set [0..<?nb]. ?J i) (wrote white R ?buf))"
  proof (rule foldE_wrote [where n = "T * s"])
    fix i and buf :: bytes assume i: "i \<in> set [0..<?nb]" and l: "length buf = T * s"
    then have i': "i < ?nb" by simp
    have p: "pix s (cell fam i) < length buf"
      using cell_bounds(1,2) [OF ok(1) i'] pix_less [of "fst (cell fam i)" T "snd (cell fam i)" s] f(1) s(2) l by simp
    show "(if ?c AND push_bit (?nb - i - 1) 1 \<noteq> 0 then bindE (bit_index fam (int s) (int m) i) (\<lambda>k. vset buf k 255) else Inr buf) = Inr (wrote white (?J i) buf)"
      unfolding bit_mask_iff_word [OF i' nb] bit_index_ok [OF ok(1) i' s(3), unfolded f(3)] using draw_one [OF refl p] by simp
  qed simp
  let ?im = "image_u8_create_stride (int T) (int T) z"
  let ?res = "?im\<lparr>im_buf := wrote white (\<Union>i \<in> set [0..<?nb]. ?J i) (wrote white R ?buf)\<rparr>"
  have fields: "im_stride ?im = int s" "im_buf ?im = ?buf" "im_width ?im = int T" "im_height ?im = int T"
    by (simp_all add: image_u8_create_stride_def s(1) nat_mult_distrib)
  have "apriltag_to_image fam idx = Inr ?res"
    unfolding apriltag_to_image_def arr_get_ok [OF c] assertE_True [OF idx] bindE.simps Let_def f(1,2) bs ww ws z(1) fields ring cells ..
  moreover have "col ?res x y = (if (x, y) \<in> drawn fam idx then 255 else 0)" if xy: "x < T" "y < T" for x y
  proof -
    have l: "pix s (x, y) < T * s" by (rule pix_less [OF xy s(2)])
    have inj: "pix s (x, y) = pix s p \<longleftrightarrow> (x, y) = p" if "fst p < T" for p
      using pix_inj [of "(x, y)" s p] xy that s(2) by auto
    have r: "pix s (x, y) \<in> R \<longleftrightarrow> (x, y) \<in> ring b T"
    proof -
      have "fst p < T" if "p \<in> ring b T" for p using that by (auto simp: ring_def on_ring_def)
      then show ?thesis unfolding R_def image_iff using inj by blast
    qed
    have j: "pix s (x, y) \<in> (\<Union>i \<in> set [0..<?nb]. ?J i) \<longleftrightarrow> (x, y) \<in> cell fam ` {i. i < ?nb \<and> bit ?c (?nb - 1 - i)}"
      using inj cell_bounds(1) [OF ok(1)] f(1) by (auto split: if_splits)
    have "col ?res x y = (wrote white (\<Union>i \<in> set [0..<?nb]. ?J i) (wrote white R ?buf)) ! pix s (x, y)"
      by (simp add: col_def pix_def image_u8_create_stride_def s(1))
    also have "\<dots> = (if pix s (x, y) \<in> (\<Union>i \<in> set [0..<?nb]. ?J i) \<or> pix s (x, y) \<in> R then 255 else 0)" using l by simp
    also have "\<dots> = (if (x, y) \<in> drawn fam idx then 255 else 0)" unfolding j r drawn_def f(1,4) nat_int by auto
    finally show ?thesis .
  qed
  ultimately show thesis using that [of ?res] fields z(2) by (simp add: f(1) s(1))
qed

end
