(* ===== verification/TagReading.thy ===== *)
theory TagReading
  imports TagImage
begin

text \<open>
  \<open>quad_decode\<close> of \<open>apriltag.c\<close> reads the bits of a quadrilateral in the order the family lists them and looks the word up. The
  theory shows that a drawn tag is read back, however it is turned, with the number of bits read wrong.

  The picture is sampled in floats; what the sampling finds is an argument (\<open>quad_view\<close>). The sharpening and the scores
  are computed here in an ordered field, without rounding.
\<close>

subsection \<open>The code\<close>

text \<open>
  What the sampling of the picture says of a quadrilateral: whether the grey levels of the two borders are those of the
  family, and for each bit cell how much brighter it is than the threshold there, or \<open>None\<close> when it is outside the picture.
\<close>

record 'f quad_view =
  qv_polarity :: bool
  qv_value :: "int \<Rightarrow> int \<Rightarrow> 'f option"

definition bit_values :: "apriltag_family \<Rightarrow> 'f quad_view \<Rightarrow> 'f::linordered_field list \<Rightarrow> cerr + 'f list" where
  "bit_values family view =
     (let min_coord = (fam_width_at_border family - fam_total_width family) sdiv 2 in
      foldE (\<lambda>values i.
        bindE (arr_get (fam_bit_y family) i) (\<lambda>by. bindE (arr_get (fam_bit_x family) i) (\<lambda>bx.
        let bity = sint by; bitx = sint bx in
        case qv_value view bitx bity of
          None \<Rightarrow> Inr values
        | Some v \<Rightarrow> vset values (fam_total_width family * (bity - min_coord) + bitx - min_coord) v))) [0..<fam_nbits family])"

text \<open>The kernel of the sharpening.\<close>

definition sharpen_kernel :: "'f::linordered_field list" where
  "sharpen_kernel = [0, - 1, 0, - 1, 4, - 1, 0, - 1, 0]"

definition sharpen_cell :: "'f::linordered_field list \<Rightarrow> int \<Rightarrow> int \<Rightarrow> int \<Rightarrow> cerr + 'f" where
  "sharpen_cell values sz y x =
     foldE (\<lambda>acc i. foldE (\<lambda>acc j.
       if y + i - 1 < 0 \<or> y + i - 1 > sz - 1 \<or> x + j - 1 < 0 \<or> x + j - 1 > sz - 1 then Inr acc
       else bindE (vget values ((y + i - 1) * sz + (x + j - 1))) (\<lambda>v.
         bindE (vget sharpen_kernel (i * 3 + j)) (\<lambda>k. Inr (acc + v * k)))) [0..2] acc) [0..2] 0"

definition sharpen :: "'f::linordered_field \<Rightarrow> 'f list \<Rightarrow> int \<Rightarrow> cerr + 'f list" where
  "sharpen decode_sharpening values sz =
     bindE (foldE (\<lambda>sharpened y. foldE (\<lambda>sharpened x.
         bindE (sharpen_cell values sz y x) (\<lambda>s. vset sharpened (y * sz + x) s))
       [0..sz - 1] sharpened) [0..sz - 1] (replicate (nat (sz * sz)) 0)) (\<lambda>sharpened.
     foldE (\<lambda>values y. foldE (\<lambda>values x.
         bindE (vget values (y * sz + x)) (\<lambda>v. bindE (vget sharpened (y * sz + x)) (\<lambda>s.
         vset values (y * sz + x) (v + decode_sharpening * s))))
       [0..sz - 1] values) [0..sz - 1] values)"

text \<open>The scores and their counts, and the word.\<close>

record 'f scores =
  sc_white :: 'f
  sc_white_count :: 'f
  sc_black :: 'f
  sc_black_count :: 'f
  sc_rcode :: u64

definition score_bit :: "apriltag_family \<Rightarrow> 'f::linordered_field list \<Rightarrow> 'f scores \<Rightarrow> nat \<Rightarrow> cerr + 'f scores" where
  "score_bit family values sc i =
     (let min_coord = (fam_width_at_border family - fam_total_width family) sdiv 2 in
      bindE (arr_get (fam_bit_y family) i) (\<lambda>by. bindE (arr_get (fam_bit_x family) i) (\<lambda>bx.
      let bity = sint by; bitx = sint bx; rcode = push_bit 1 (sc_rcode sc) in
      bindE (vget values ((bity - min_coord) * fam_total_width family + bitx - min_coord)) (\<lambda>v.
      if v > 0 then Inr (sc\<lparr>sc_white := sc_white sc + v, sc_white_count := sc_white_count sc + 1, sc_rcode := rcode OR 1\<rparr>)
      else Inr (sc\<lparr>sc_black := sc_black sc - v, sc_black_count := sc_black_count sc + 1, sc_rcode := rcode\<rparr>)))))"

text \<open>The decision margin and the entry, which an early return leaves as it was.\<close>

definition quad_decode :: "'f::linordered_field \<Rightarrow> apriltag_family \<Rightarrow> 'f quad_view \<Rightarrow> quick_decode_entry \<Rightarrow> cerr + 'f \<times> quick_decode_entry" where
  "quad_decode decode_sharpening family view entry =
     (if \<not> qv_polarity view then Inr (- 1, entry)
      else
        bindE (bit_values family view (replicate (nat (fam_total_width family * fam_total_width family)) 0)) (\<lambda>values.
        bindE (sharpen decode_sharpening values (fam_total_width family)) (\<lambda>values.
        bindE (foldE (score_bit family values) [0..<fam_nbits family]
          \<lparr>sc_white = 0, sc_white_count = 1, sc_black = 0, sc_black_count = 1, sc_rcode = 0\<rparr>) (\<lambda>sc.
        bindE (quick_decode_codeword family (sc_rcode sc)) (\<lambda>entry.
        Inr (min (sc_white sc / sc_white_count sc) (sc_black sc / sc_black_count sc), entry))))))"

subsection \<open>The cells as a grid\<close>

lemma vget_pix:
  assumes "0 \<le> x" "x < int T" "0 \<le> y" "y < int T" "length vs = T * T"
  shows "vget vs (y * int T + x) = Inr (vs ! pix T (nat x, nat y))"
proof -
  have "pix T (nat x, nat y) < length vs" using assms pix_less [of "nat x" T "nat y" T] by simp
  moreover have "y * int T + x = int (pix T (nat x, nat y))" using assms by (simp add: pix_def)
  ultimately show ?thesis by (simp add: vget_ok)
qed

lemma foldE_cong: "(\<And>x s. x \<in> set xs \<Longrightarrow> f s x = g s x) \<Longrightarrow> foldE f xs s = foldE g xs s"
proof (induction xs arbitrary: s)
  case (Cons x xs)
  have "foldE f xs t = foldE g xs t" for t by (rule Cons.IH) (simp add: Cons.prems)
  then have "foldE f xs = foldE g xs" by (rule ext)
  then show ?case using Cons.prems [of x s] by simp
qed simp

text \<open>The grid value at signed coordinates, nothing outside.\<close>

definition grid :: "nat \<Rightarrow> 'f::linordered_field list \<Rightarrow> int \<Rightarrow> int \<Rightarrow> 'f" where
  "grid T vs y x = (if 0 \<le> x \<and> x < int T \<and> 0 \<le> y \<and> y < int T then vs ! pix T (nat x, nat y) else 0)"

lemma sharpen_cell_ok:
  fixes vs :: "'f::linordered_field list"
  assumes "length vs = T * T"
  shows "sharpen_cell vs (int T) y x =
    Inr (4 * grid T vs y x - grid T vs (y - 1) x - grid T vs (y + 1) x - grid T vs y (x - 1) - grid T vs y (x + 1))"
proof -
  let ?k = "\<lambda>i j. (sharpen_kernel :: 'f list) ! nat (i * 3 + j)"
  let ?step = "\<lambda>i acc j. if y + i - 1 < 0 \<or> y + i - 1 > int T - 1 \<or> x + j - 1 < 0 \<or> x + j - 1 > int T - 1 then Inr acc
       else bindE (vget vs ((y + i - 1) * int T + (x + j - 1))) (\<lambda>v. bindE (vget sharpen_kernel (i * 3 + j)) (\<lambda>k. Inr (acc + v * k)))"
  have step: "?step i acc j = Inr (acc + grid T vs (y + i - 1) (x + j - 1) * ?k i j)" if "i \<in> {0, 1, 2}" "j \<in> {0, 1, 2}" for i j acc
  proof (cases "y + i - 1 < 0 \<or> y + i - 1 > int T - 1 \<or> x + j - 1 < 0 \<or> x + j - 1 > int T - 1")
    case True
    then have "grid T vs (y + i - 1) (x + j - 1) = 0" unfolding grid_def by auto
    then show ?thesis using True by simp
  next
    case False
    then have r: "0 \<le> x + j - 1" "x + j - 1 < int T" "0 \<le> y + i - 1" "y + i - 1 < int T" by auto
    have "vget (sharpen_kernel :: 'f list) (i * 3 + j) = Inr (?k i j)" using that by (auto simp: vget_def arr_get_def sharpen_kernel_def)
    then show ?thesis using False r vget_pix [OF r assms] by (simp add: grid_def)
  qed
  have l: "[0..2] = [0, 1, 2 :: int]" by (simp add: upto.simps)
  have "sharpen_cell vs (int T) y x = foldE (\<lambda>acc i. foldE (\<lambda>acc j. Inr (acc + grid T vs (y + i - 1) (x + j - 1) * ?k i j)) [0, 1, 2] acc) [0, 1, 2] 0"
    unfolding sharpen_cell_def l by (intro foldE_cong step) simp_all
  also have "\<dots> = Inr (4 * grid T vs y x - grid T vs (y - 1) x - grid T vs (y + 1) x - grid T vs y (x - 1) - grid T vs y (x + 1))"
    by (simp add: sharpen_kernel_def algebra_simps)
  finally show ?thesis .
qed

lemma sharpen_values_ok:
  fixes vs :: "'f::linordered_field list"
  assumes "length vs = T * T"
  obtains ws where "sharpen d vs (int T) = Inr ws" "length ws = T * T"
    "\<And>x y. x < T \<Longrightarrow> y < T \<Longrightarrow> ws ! pix T (x, y) = grid T vs (int y) (int x) + d * (4 * grid T vs (int y) (int x) -
      grid T vs (int y - 1) (int x) - grid T vs (int y + 1) (int x) - grid T vs (int y) (int x - 1) - grid T vs (int y) (int x + 1))"
proof -
  define S where "S x y = 4 * grid T vs (int y) (int x) -
      grid T vs (int y - 1) (int x) - grid T vs (int y + 1) (int x) - grid T vs (int y) (int x - 1) - grid T vs (int y) (int x + 1)" for x y
  let ?V = "cells T S" and ?W = "cells T (\<lambda>x y. grid T vs (int y) (int x) + d * S x y)"
  let ?J = "\<Union>y \<in> set [0..<T]. \<Union>x \<in> set [0..<T]. {y * T + x}"
  let ?z = "replicate (T * T) (0 :: 'f)"
  have one: "foldE (\<lambda>sharpened y. foldE (\<lambda>sharpened x. bindE (sharpen_cell vs (int T) (int y) (int x)) (\<lambda>s. vset sharpened (int y * int T + int x) s))
      [0..<T] sharpened) [0..<T] ?z = Inr (wrote ?V ?J ?z)"
  proof (rule foldE_pixels)
    fix x y and buf :: "'f list" assume a: "x < T" "y < T" "length buf = T * T"
    then show "bindE (sharpen_cell vs (int T) (int y) (int x)) (\<lambda>s. vset buf (int y * int T + int x) s) = Inr (wrote ?V {y * T + x} buf)"
      using vset_wrote [of x T y T T buf ?V "S x y"] by (simp add: sharpen_cell_ok [OF assms] S_def [symmetric] cells_at)
  qed simp
  have get: "vget buf (int y * int T + int x) = Inr (buf ! (y * T + x))" if "x < T" "y < T" "length buf = T * T" for x y and buf :: "'f list"
    using vget_pix [of "int x" T "int y" buf] that by (simp add: pix_def)
  have two: "foldE (\<lambda>vs y. foldE (\<lambda>vs x. bindE (vget vs (int y * int T + int x)) (\<lambda>v. bindE (vget (wrote ?V ?J ?z) (int y * int T + int x)) (\<lambda>s.
      vset vs (int y * int T + int x) (v + d * s)))) [0..<T] vs) [0..<T] vs = Inr (wrote ?W ?J vs)"
  proof (rule foldE_pixels_from)
    fix x y and buf :: "'f list" assume a: "x < T" "y < T" "length buf = length vs" "buf ! (y * T + x) = vs ! (y * T + x)"
    have l: "length buf = T * T" using a(3) assms by simp
    have g: "buf ! (y * T + x) = grid T vs (int y) (int x)" using a by (simp add: grid_def pix_def)
    have w: "wrote ?V ?J ?z ! (y * T + x) = S x y" using pixels_at(1) [OF a(1,2), of T ?z ?V] a(1) by (simp add: cells_at)
    show "bindE (vget buf (int y * int T + int x)) (\<lambda>v. bindE (vget (wrote ?V ?J ?z) (int y * int T + int x)) (\<lambda>s.
        vset buf (int y * int T + int x) (v + d * s))) = Inr (wrote ?W {y * T + x} buf)"
      unfolding get [OF a(1,2) l] bindE.simps g
      using get [OF a(1,2), of "wrote ?V ?J ?z"] vset_wrote [of x T y T T buf ?W "grid T vs (int y) (int x) + d * S x y"] a(1,2) l w by (simp add: cells_at)
  qed (simp_all add: assms)
  have "sharpen d vs (int T) = Inr (wrote ?W ?J vs)"
    using one two unfolding sharpen_def upto_nat foldE_map by (simp add: nat_mult_distrib)
  moreover have "wrote ?W ?J vs ! pix T (x, y) = grid T vs (int y) (int x) + d * S x y" if "x < T" "y < T" for x y
    using pixels_at(1) [OF that, of T vs ?W] that(1) assms by (simp add: cells_at pix_def)
  ultimately show thesis using that assms unfolding S_def by simp
qed

subsection \<open>The values of the cells\<close>

definition cell_value :: "'f::linordered_field quad_view \<Rightarrow> apriltag_family \<Rightarrow> nat \<Rightarrow> 'f" where
  "cell_value view fam i = (case qv_value view (fst (bpos fam i)) (snd (bpos fam i)) of None \<Rightarrow> 0 | Some v \<Rightarrow> v)"

lemma min_coord:
  assumes "cells_ok fam"
  shows "(fam_width_at_border fam - fam_total_width fam) sdiv 2 = - margin_width fam"
proof -
  obtain T m b where f: "fam_total_width fam = int T" "fam_width_at_border fam = int T - 2 * int m" "margin_width fam = int m"
    by (rule cells_okD [OF assms]) blast
  have "int T - 2 * int m - int T = - 2 * int m" by simp
  then show ?thesis unfolding f by (simp add: signed_divide_int_def sgn_if)
qed

lemma bit_values_ok:
  assumes ok: "cells_ok fam" and T: "fam_total_width fam = int T"
  obtains vs where "bit_values fam view (replicate (T * T) 0) = Inr vs" "length vs = T * T"
    "\<And>i. i < fam_nbits fam \<Longrightarrow> vs ! pix T (cell fam i) = cell_value view fam i"
    "\<And>x y. x < T \<Longrightarrow> y < T \<Longrightarrow> (x, y) \<notin> cell fam ` {..<fam_nbits fam} \<Longrightarrow> vs ! pix T (x, y) = 0"
proof -
  let ?m = "margin_width fam" and ?nb = "fam_nbits fam"
  define V where "V k = the (qv_value view (int (k mod T) - ?m) (int (k div T) - ?m))" for k
  define J where "J i = (if qv_value view (fst (bpos fam i)) (snd (bpos fam i)) = None then {} else {pix T (cell fam i)})" for i
  have c: "fst (cell fam i) < T" "snd (cell fam i) < T" "fst (bpos fam i) = int (fst (cell fam i)) - ?m" "snd (bpos fam i) = int (snd (cell fam i)) - ?m"
    if "i < ?nb" for i using cell_bounds [OF ok that] T by simp_all
  have V: "V (pix T (cell fam i)) = the (qv_value view (fst (bpos fam i)) (snd (bpos fam i)))" if "i < ?nb" for i
    using c [OF that] by (simp add: V_def pix_def split_beta)
  have p: "pix T (cell fam i) < T * T" if "i < ?nb" for i using c(1,2) [OF that] pix_less [of "fst (cell fam i)" T "snd (cell fam i)" T] by simp
  have inj: "pix T (cell fam i) = pix T q \<longleftrightarrow> cell fam i = q" if "i < ?nb" "fst q < T" for i q
    using pix_inj [of "cell fam i" T q] c(1) [OF that(1)] that(2) by auto
  let ?z = "replicate (T * T) 0"
  have "bit_values fam view ?z = Inr (wrote V (\<Union>i \<in> set [0..<?nb]. J i) ?z)"
    unfolding bit_values_def Let_def min_coord [OF ok]
  proof (rule foldE_wrote [where n = "T * T"])
    fix i and vs :: "'a list" assume i: "i \<in> set [0..<?nb]" and l: "length vs = T * T"
    then have i': "i < ?nb" by simp
    then have len: "i < length (fam_bit_y fam)" "i < length (fam_bit_x fam)" using cells_ok_facts(1,2) [OF ok] by simp_all
    have k: "int T * (sint (fam_bit_y fam ! i) - - ?m) + sint (fam_bit_x fam ! i) - - ?m = int (pix T (cell fam i))"
      using cell_bounds(3,4) [OF ok i'] by (simp add: bpos_def pix_def split_beta algebra_simps)
    have w: "vset vs (int (pix T (cell fam i))) v = Inr (wrote V {pix T (cell fam i)} vs)"
      if "qv_value view (fst (bpos fam i)) (snd (bpos fam i)) = Some v" for v
      using vset_ok [of "pix T (cell fam i)" vs v] wrote_one [of "pix T (cell fam i)" vs V] p [OF i'] l V [OF i'] that by simp
    show "bindE (arr_get (fam_bit_y fam) i) (\<lambda>by. bindE (arr_get (fam_bit_x fam) i) (\<lambda>bx.
        case qv_value view (sint bx) (sint by) of None \<Rightarrow> Inr vs
        | Some v \<Rightarrow> vset vs (fam_total_width fam * (sint by - - ?m) + sint bx - - ?m) v)) = Inr (wrote V (J i) vs)"
      unfolding arr_get_ok [OF len(1)] arr_get_ok [OF len(2)] bindE.simps T k using w
      by (auto simp: J_def bpos_def split: option.splits)
  qed simp
  moreover have "wrote V (\<Union>i \<in> set [0..<?nb]. J i) ?z ! pix T (cell fam i) = cell_value view fam i" if i: "i < ?nb" for i
  proof -
    have "pix T (cell fam i) \<in> (\<Union>i \<in> set [0..<?nb]. J i) \<longleftrightarrow> qv_value view (fst (bpos fam i)) (snd (bpos fam i)) \<noteq> None"
    proof -
      have "pix T (cell fam i) \<in> J j \<longleftrightarrow> j = i \<and> qv_value view (fst (bpos fam i)) (snd (bpos fam i)) \<noteq> None" if j: "j < ?nb" for j
      proof (cases "j = i")
        case False
        then have "cell fam j \<noteq> cell fam i" using cell_inj [OF ok j i] by blast
        then show ?thesis using inj [OF j c(1) [OF i]] False by (simp add: J_def)
      qed (simp add: J_def)
      then show ?thesis using i by auto
    qed
    then show ?thesis using p [OF i] V [OF i] by (auto simp: cell_value_def split: option.splits)
  qed
  moreover have "wrote V (\<Union>i \<in> set [0..<?nb]. J i) ?z ! pix T (x, y) = 0" if "x < T" "y < T" "(x, y) \<notin> cell fam ` {..<?nb}" for x y
  proof -
    have "pix T (x, y) \<notin> (\<Union>i \<in> set [0..<?nb]. J i)" 
    proof
      assume "pix T (x, y) \<in> (\<Union>i \<in> set [0..<?nb]. J i)"
      then obtain i where i: "i < ?nb" "pix T (x, y) = pix T (cell fam i)" by (auto simp: J_def split: if_splits)
      then have "cell fam i = (x, y)" using inj [OF i(1), of "(x, y)"] that(1) by simp
      then show False using that(3) i(1) by (metis imageI lessThan_iff)
    qed
    then show ?thesis using pix_less [OF that(1,2), of T] by simp
  qed
  ultimately show thesis by (intro that [of "wrote V (\<Union>i \<in> set [0..<?nb]. J i) ?z"]) (simp_all only: length_wrote length_replicate)
qed

subsection \<open>The word\<close>

definition reads :: "nat \<Rightarrow> (nat \<Rightarrow> bool) \<Rightarrow> u64 \<Rightarrow> bool" where
  "reads n P c \<longleftrightarrow> (\<forall>j. bit c j \<longleftrightarrow> j < n \<and> P (n - 1 - j))"

lemma reads_shift:
  assumes "n < 64" "reads n P c"
  shows "P n \<Longrightarrow> reads (Suc n) P (push_bit 1 c OR 1)" "\<not> P n \<Longrightarrow> reads (Suc n) P (push_bit 1 c)"
proof -
  have b: "bit (push_bit 1 c) j \<longleftrightarrow> (\<exists>k. j = Suc k \<and> k < n \<and> P (n - 1 - k))" for j
  proof (cases j)
    case (Suc k)
    have "bit c k \<longleftrightarrow> k < n \<and> P (n - 1 - k)" using assms(2) unfolding reads_def by (rule spec)
    moreover have "bit (push_bit 1 c) (Suc k) \<longleftrightarrow> Suc k < 64 \<and> bit c k" unfolding bit_push_bit_iff by (simp add: possible_bit_word)
    ultimately show ?thesis using assms(1) Suc by (metis Suc_inject Suc_lessI less_trans not_less_eq)
  next
    case 0
    then show ?thesis unfolding bit_push_bit_iff by simp
  qed
  have r: "(j < Suc n \<and> P (Suc n - 1 - j)) \<longleftrightarrow> (j = 0 \<and> P n) \<or> (\<exists>k. j = Suc k \<and> k < n \<and> P (n - 1 - k))" for j
    by (cases j) auto
  show "P n \<Longrightarrow> reads (Suc n) P (push_bit 1 c OR 1)" unfolding reads_def r bit_or_iff b by (auto simp: bit_1_iff)
  show "\<not> P n \<Longrightarrow> reads (Suc n) P (push_bit 1 c)" unfolding reads_def r b by blast
qed

lemma score_ok:
  fixes vs :: "'f::linordered_field list"
  assumes ok: "cells_ok fam" and T: "fam_total_width fam = int T" and l: "length vs = T * T" and n: "n \<le> fam_nbits fam" "n \<le> 64"
  shows "\<exists>sc. foldE (score_bit fam vs) [0..<n] \<lparr>sc_white = 0, sc_white_count = 1, sc_black = 0, sc_black_count = 1, sc_rcode = 0\<rparr> = Inr sc \<and>
    0 \<le> sc_white sc \<and> 0 < sc_white_count sc \<and> 0 \<le> sc_black sc \<and> 0 < sc_black_count sc \<and> reads n (\<lambda>i. 0 < vs ! pix T (cell fam i)) (sc_rcode sc)"
  using n
proof (induction n)
  case 0
  then show ?case by (simp add: reads_def)
next
  case (Suc n)
  let ?m = "margin_width fam"
  from Suc obtain sc where sc: "foldE (score_bit fam vs) [0..<n] \<lparr>sc_white = 0, sc_white_count = 1, sc_black = 0, sc_black_count = 1, sc_rcode = 0\<rparr> = Inr sc"
    "0 \<le> sc_white sc" "0 < sc_white_count sc" "0 \<le> sc_black sc" "0 < sc_black_count sc" "reads n (\<lambda>i. 0 < vs ! pix T (cell fam i)) (sc_rcode sc)" by auto
  have i: "n < fam_nbits fam" "n < 64" using Suc.prems by simp_all
  then have len: "n < length (fam_bit_y fam)" "n < length (fam_bit_x fam)" using cells_ok_facts(1,2) [OF ok] by simp_all
  have p: "pix T (cell fam n) < length vs"
    using cell_bounds(1,2) [OF ok i(1)] T l pix_less [of "fst (cell fam n)" T "snd (cell fam n)" T] by simp
  have k: "(sint (fam_bit_y fam ! n) - - ?m) * int T + sint (fam_bit_x fam ! n) - - ?m = int (pix T (cell fam n))"
    using cell_bounds(3,4) [OF ok i(1)] by (simp add: bpos_def pix_def split_beta algebra_simps)
  let ?v = "vs ! pix T (cell fam n)"
  have step: "score_bit fam vs sc n =
      (if ?v > 0 then Inr (sc\<lparr>sc_white := sc_white sc + ?v, sc_white_count := sc_white_count sc + 1, sc_rcode := push_bit 1 (sc_rcode sc) OR 1\<rparr>)
      else Inr (sc\<lparr>sc_black := sc_black sc - ?v, sc_black_count := sc_black_count sc + 1, sc_rcode := push_bit 1 (sc_rcode sc)\<rparr>))"
    unfolding score_bit_def Let_def T min_coord [OF ok, unfolded T] arr_get_ok [OF len(1)] arr_get_ok [OF len(2)] bindE.simps k vget_ok [OF p] ..
  show ?case
    using sc reads_shift [OF i(2) sc(6)] by (simp add: foldE_append step add_nonneg_pos add_pos_pos add_nonneg_nonneg)
qed

lemma reads_fits: "reads n P c \<Longrightarrow> unat c < 2 ^ n"
  by (simp add: fits_bits reads_def)

lemma reads_hdist:
  assumes "reads n P c" "reads n Q d"
  shows "hdist c d = card {i. i < n \<and> P i \<noteq> Q i}"
proof -
  have "wbits (c XOR d) = (\<lambda>i. n - 1 - i) ` {i. i < n \<and> P i \<noteq> Q i}" (is "_ = ?f ` ?A")
  proof (intro equalityI subsetI)
    fix j assume "j \<in> wbits (c XOR d)"
    then have "j < n" "P (n - 1 - j) \<noteq> Q (n - 1 - j)" using assms by (auto simp: wbits_def bit_xor_iff reads_def)
    then show "j \<in> ?f ` ?A" by (intro image_eqI [of _ _ "n - 1 - j"]) auto
  next
    fix j assume "j \<in> ?f ` ?A"
    then obtain i where i: "i < n" "P i \<noteq> Q i" "j = n - 1 - i" by auto
    then have "n - 1 - j = i" "j < n" by auto
    then show "j \<in> wbits (c XOR d)" using assms i(2) by (auto simp: wbits_def bit_xor_iff reads_def)
  qed
  moreover have "inj_on ?f ?A" by (auto simp: inj_on_def)
  ultimately show ?thesis by (simp add: hdist_def hweight_card card_image)
qed

subsection \<open>The turned picture\<close>

text \<open>Whether a picture of a tag is white at signed coordinates.\<close>

definition white_at :: "apriltag_family \<Rightarrow> image_u8 \<Rightarrow> int \<times> int \<Rightarrow> bool" where
  "white_at fam im = (\<lambda>(x, y). col im (nat (x + margin_width fam)) (nat (y + margin_width fam)) = 255)"

lemma drawn_cell:
  assumes "cells_ok fam" "i < fam_nbits fam"
  shows "cell fam i \<in> drawn fam idx \<longleftrightarrow> bit (fam_codes fam ! idx) (fam_nbits fam - 1 - i)"
  using cell_inj [OF assms] cells_ok_facts(8) [OF assms] assms(2) unfolding drawn_def ring_def by fast

lemma drawn_reads:
  assumes ok: "cells_ok fam" "fam_ok fam" and idx: "idx < fam_ncodes fam"
    and im: "\<And>x y. x < nat (fam_total_width fam) \<Longrightarrow> y < nat (fam_total_width fam) \<Longrightarrow> col im x y = (if (x, y) \<in> drawn fam idx then 255 else 0)"
  shows "reads (fam_nbits fam) (\<lambda>i. white_at fam im ((turn_pos fam ^^ r) (bpos fam i))) (rot90s (fam_nbits fam) r (fam_codes fam ! idx))"
proof -
  let ?nb = "fam_nbits fam" and ?c = "fam_codes fam ! idx"
  have nb: "?nb mod 4 \<le> 1" "?nb < 64" and c: "unat ?c < 2 ^ ?nb" using ok(2) idx by (simp_all add: fam_ok_def)
  have fits: "unat (rot90s ?nb r ?c) < 2 ^ ?nb" for r by (rule rot90s_fits [OF nb c])
  have "white_at fam im ((turn_pos fam ^^ r) (bpos fam i)) \<longleftrightarrow> bit (rot90s ?nb r ?c) (?nb - 1 - i)" if "i < ?nb" for i
    using that
  proof (induction r arbitrary: i)
    case 0
    have "white_at fam im (bpos fam i) \<longleftrightarrow> cell fam i \<in> drawn fam idx"
      using im [OF cell_bounds(1,2) [OF ok(1) 0]] cell_bounds(3,4) [OF ok(1) 0] by (simp add: white_at_def split_beta)
    then show ?case using drawn_cell [OF ok(1) 0] by simp
  next
    case (Suc r)
    let ?k = "?nb - 1 - rot_src ?nb (?nb - 1 - i)"
    have src: "rot_src ?nb (?nb - 1 - i) < ?nb" by (rule rot_src_less [OF nb(1)]) (use Suc.prems in simp)
    then have k: "?k < ?nb" "?nb - 1 - ?k = rot_src ?nb (?nb - 1 - i)" by simp_all
    have "(turn_pos fam ^^ Suc r) (bpos fam i) = (turn_pos fam ^^ r) (bpos fam ?k)"
      using cells_ok_facts(13) [OF ok(1) Suc.prems] by (simp add: funpow_swap1)
    then have "white_at fam im ((turn_pos fam ^^ Suc r) (bpos fam i)) \<longleftrightarrow> bit (rot90s ?nb r ?c) (rot_src ?nb (?nb - 1 - i))"
      using Suc.IH [OF k(1)] unfolding k(2) by simp
    then show ?case using bit_rotate90 [OF nb fits, of r "?nb - 1 - i"] Suc.prems by simp
  qed
  moreover have "j < ?nb" if "bit (rot90s ?nb r ?c) j" for j using fits that by (simp add: fits_bits)
  ultimately show ?thesis unfolding reads_def by (metis (no_types, lifting) Suc_pred diff_diff_cancel diff_less_Suc diff_Suc_1 less_Suc_eq_le less_imp_Suc_add zero_less_Suc)
qed

subsection \<open>The contrast\<close>

text \<open>No bit is so much fainter than the others that the sharpening, which subtracts its neighbours, changes its sign.\<close>

definition contrast :: "'f::linordered_field \<Rightarrow> apriltag_family \<Rightarrow> 'f quad_view \<Rightarrow> bool" where
  "contrast d fam view \<longleftrightarrow> 0 \<le> d \<and> (\<exists>low high. 4 * d * high < (1 + 4 * d) * low \<and>
     (\<forall>i < fam_nbits fam. low \<le> \<bar>cell_value view fam i\<bar> \<and> \<bar>cell_value view fam i\<bar> \<le> high))"

lemma sharpen_sign:
  fixes v d low high :: "'f::linordered_field"
  assumes d: "0 \<le> d" and l: "4 * d * high < (1 + 4 * d) * low" and v: "low \<le> \<bar>v\<bar>"
    and n: "\<bar>n1\<bar> \<le> high" "\<bar>n2\<bar> \<le> high" "\<bar>n3\<bar> \<le> high" "\<bar>n4\<bar> \<le> high"
  shows "0 < v + d * (4 * v - n1 - n2 - n3 - n4) \<longleftrightarrow> 0 < v"
proof -
  have e: "v + d * (4 * v - n1 - n2 - n3 - n4) = (1 + 4 * d) * v - d * (n1 + n2 + n3 + n4)" by (simp add: algebra_simps)
  have "\<bar>n1 + n2 + n3 + n4\<bar> \<le> 4 * high" using n by (simp add: abs_le_iff)
  then have "\<bar>d * (n1 + n2 + n3 + n4)\<bar> \<le> d * (4 * high)" using d by (simp add: abs_mult mult_left_mono)
  moreover have "(1 + 4 * d) * low \<le> (1 + 4 * d) * \<bar>v\<bar>" using d v by (intro mult_left_mono) simp_all
  ultimately have b: "\<bar>d * (n1 + n2 + n3 + n4)\<bar> < (1 + 4 * d) * \<bar>v\<bar>" using l by (simp add: algebra_simps)
  show ?thesis
  proof (cases "0 < v")
    case True
    then show ?thesis using b unfolding e by (simp add: abs_less_iff)
  next
    case False
    then have "\<bar>v\<bar> = - v" by simp
    then show ?thesis using b False unfolding e by (simp add: abs_less_iff)
  qed
qed

lemma quad_decode_reads:
  fixes view :: "'f::linordered_field quad_view"
  assumes ok: "cells_ok fam" "fam_nbits fam \<le> 64" and view: "qv_polarity view" "contrast d fam view"
  obtains c margin where "reads (fam_nbits fam) (\<lambda>i. 0 < cell_value view fam i) c" "0 \<le> margin"
    "quad_decode d fam view entry = bindE (quick_decode_codeword fam c) (\<lambda>entry. Inr (margin, entry))"
proof -
  obtain T where T: "fam_total_width fam = int T" by (rule cells_okD [OF ok(1)]) blast
  obtain vs where vs: "bit_values fam view (replicate (T * T) 0) = Inr vs" "length vs = T * T"
    "\<And>i. i < fam_nbits fam \<Longrightarrow> vs ! pix T (cell fam i) = cell_value view fam i"
    "\<And>x y. x < T \<Longrightarrow> y < T \<Longrightarrow> (x, y) \<notin> cell fam ` {..<fam_nbits fam} \<Longrightarrow> vs ! pix T (x, y) = 0"
    by (rule bit_values_ok [OF ok(1) T]) blast
  obtain ws where ws: "sharpen d vs (int T) = Inr ws" "length ws = T * T"
    "\<And>x y. x < T \<Longrightarrow> y < T \<Longrightarrow> ws ! pix T (x, y) = grid T vs (int y) (int x) + d * (4 * grid T vs (int y) (int x) -
      grid T vs (int y - 1) (int x) - grid T vs (int y + 1) (int x) - grid T vs (int y) (int x - 1) - grid T vs (int y) (int x + 1))"
    by (rule sharpen_values_ok [OF vs(2)]) blast
  from view(2) obtain low high where d: "0 \<le> d" "4 * d * high < (1 + 4 * d) * low"
    and b: "\<And>i. i < fam_nbits fam \<Longrightarrow> low \<le> \<bar>cell_value view fam i\<bar> \<and> \<bar>cell_value view fam i\<bar> \<le> high" unfolding contrast_def by blast
  have sign: "0 < ws ! pix T (cell fam i) \<longleftrightarrow> 0 < cell_value view fam i" if i: "i < fam_nbits fam" for i
  proof -
    have "0 \<le> high" using b [OF i] abs_ge_zero order_trans by blast
    then have g: "\<bar>grid T vs y x\<bar> \<le> high" for x y
    proof (cases "(nat x, nat y) \<in> cell fam ` {..<fam_nbits fam}")
      case True
      then show ?thesis using vs(3) b \<open>0 \<le> high\<close> by (auto simp: grid_def)
    next
      case False
      have "nat x < T" if "0 \<le> x" "x < int T" for x using that by linarith
      then have "grid T vs y x = 0" unfolding grid_def using vs(4) [OF _ _ False] by simp
      then show ?thesis using \<open>0 \<le> high\<close> by simp
    qed
    obtain x y where xy: "cell fam i = (x, y)" by (cases "cell fam i")
    then have l: "x < T" "y < T" using cell_bounds(1,2) [OF ok(1) i] T by simp_all
    have e: "grid T vs (int y) (int x) = cell_value view fam i" using vs(3) [OF i] l xy by (simp add: grid_def)
    show ?thesis unfolding xy ws(3) [OF l] e by (rule sharpen_sign [OF d _ g g g g]) (use b [OF i] in blast)
  qed
  obtain sc where sc: "foldE (score_bit fam ws) [0..<fam_nbits fam] \<lparr>sc_white = 0, sc_white_count = 1, sc_black = 0, sc_black_count = 1, sc_rcode = 0\<rparr> = Inr sc"
    "0 \<le> sc_white sc" "0 < sc_white_count sc" "0 \<le> sc_black sc" "0 < sc_black_count sc" "reads (fam_nbits fam) (\<lambda>i. 0 < ws ! pix T (cell fam i)) (sc_rcode sc)"
    using score_ok [OF ok(1) T ws(2) order_refl ok(2)] by blast
  have "reads (fam_nbits fam) (\<lambda>i. 0 < cell_value view fam i) (sc_rcode sc)"
  proof -
    have "fam_nbits fam - 1 - j < fam_nbits fam" if "j < fam_nbits fam" for j using that by simp
    then show ?thesis using sc(6) sign unfolding reads_def by blast
  qed
  moreover have "0 \<le> min (sc_white sc / sc_white_count sc) (sc_black sc / sc_black_count sc)" using sc(2-5) by simp
  moreover have "quad_decode d fam view entry =
      bindE (quick_decode_codeword fam (sc_rcode sc)) (\<lambda>entry. Inr (min (sc_white sc / sc_white_count sc) (sc_black sc / sc_black_count sc), entry))"
    unfolding quad_decode_def T using view(1) vs(1) ws(1) sc(1) by (simp add: nat_mult_distrib)
  ultimately show thesis by (rule that)
qed

subsection \<open>The property\<close>

lemma fam_corrected_cells: "(fam, h) \<in> set fam_corrected \<Longrightarrow> cells_ok fam"
  using cells_ok_families by (auto simp: fam_corrected_def)

lemma cells_ok_impl: "cells_ok (fam\<lparr>fam_impl := x\<rparr>) = cells_ok fam"
proof -
  let ?fam = "fam\<lparr>fam_impl := x\<rparr>"
  have b: "bpos ?fam = bpos fam" and m: "margin_width ?fam = margin_width fam" and w: "white_start ?fam = white_start fam"
    by (simp_all add: fun_eq_iff bpos_def margin_width_def white_start_def)
  have c: "cell ?fam = cell fam" and t: "turn_pos ?fam = turn_pos fam" by (simp_all add: fun_eq_iff cell_def turn_pos_def b m)
  show ?thesis unfolding cells_ok_def b c m t w by simp
qed

lemma read_back:
  fixes view :: "'f::linordered_field quad_view"
  assumes "(fam, h) \<in> set fam_corrected" "alloc (int (3 * qd_cap fam (int h)))" "i < fam_ncodes fam" "r < 4"
    and "qv_polarity view" "contrast d fam view"
  shows "\<exists>im fam'. apriltag_to_image fam i = Inr im \<and> quick_decode_init alloc fam (int h) = Inr (fam', NoError) \<and>
    (let wrong = card {k. k < fam_nbits fam \<and> (0 < cell_value view fam k) \<noteq> white_at fam im ((turn_pos fam ^^ r) (bpos fam k))} in
      wrong \<le> h \<longrightarrow> (\<exists>margin e. quad_decode d fam' view entry = Inr (margin, e) \<and> 0 \<le> margin \<and>
        unat (qe_id e) = i \<and> unat (qe_rotation e) = (4 - r) mod 4 \<and> unat (qe_hamming e) = wrong))"
proof -
  note ok = fam_corrected_ok [OF assms(1)] and cells = fam_corrected_cells [OF assms(1)]
  let ?nb = "fam_nbits fam" and ?c = "fam_codes fam ! i" and ?s = "(4 - r) mod 4"
  have nb: "?nb mod 4 \<le> 1" "?nb < 64" and fit: "unat ?c < 2 ^ ?nb" using ok(1) assms(3) by (simp_all add: fam_ok_def)
  obtain im where im: "apriltag_to_image fam i = Inr im"
    "\<And>x y. x < nat (fam_total_width fam) \<Longrightarrow> y < nat (fam_total_width fam) \<Longrightarrow> col im x y = (if (x, y) \<in> drawn fam i then 255 else 0)"
    by (rule apriltag_to_image_ok [OF cells ok(1) assms(3)]) blast
  have fits: "qd_fits alloc fam (int h)" using ok(6) assms(2) by (simp add: qd_fits_def)
  obtain qd where qd: "quick_decode_init alloc fam (int h) = Inr (fam\<lparr>fam_impl := Some qd\<rparr>, NoError)"
    by (rule quick_decode_init_full [OF ok(1,2) _ _ fits]) (use ok(4) in auto)
  let ?fam = "fam\<lparr>fam_impl := Some qd\<rparr>"
  have same: "cell_value view ?fam = cell_value view fam" by (simp add: fun_eq_iff cell_value_def bpos_def)
  have "cells_ok ?fam" using cells by (simp only: cells_ok_impl)
  moreover have "contrast d ?fam view" using assms(6) by (simp add: contrast_def same)
  ultimately have *: "cells_ok ?fam" "contrast d ?fam view" by blast+
  obtain c margin where c: "reads ?nb (\<lambda>i. 0 < cell_value view fam i) c" "0 \<le> margin"
    "quad_decode d ?fam view entry = bindE (quick_decode_codeword ?fam c) (\<lambda>entry. Inr (margin, entry))"
    by (rule quad_decode_reads [OF *(1) _ assms(5) *(2), of entry, unfolded same]) (use nb in simp_all)
  define wrong where "wrong = card {k. k < ?nb \<and> (0 < cell_value view fam k) \<noteq> white_at fam im ((turn_pos fam ^^ r) (bpos fam k))}"
  have "\<exists>margin e. quad_decode d ?fam view entry = Inr (margin, e) \<and> 0 \<le> margin \<and>
        unat (qe_id e) = i \<and> unat (qe_rotation e) = ?s \<and> unat (qe_hamming e) = wrong" if w: "wrong \<le> h"
  proof -
    have "?s + r = 0 \<or> ?s + r = 4" using assms(4) by (cases "r = 0") auto
    then have "rot90s ?nb ?s (rot90s ?nb r ?c) = ?c" using rot90s_4 [OF nb fit] rot90s_add [of ?nb ?s r ?c] by (metis rot90s_simps(1))
    then have "hdist (rot90s ?nb ?s c) ?c = hdist (rot90s ?nb ?s c) (rot90s ?nb ?s (rot90s ?nb r ?c))" by simp
    also have "\<dots> = hdist c (rot90s ?nb r ?c)" by (rule hdist_rot90s [OF nb reads_fits [OF c(1)] rot90s_fits [OF nb fit]])
    also have "\<dots> = wrong" unfolding wrong_def by (rule reads_hdist [OF c(1) drawn_reads [OF cells ok(1) assms(3) im(2)]])
    finally have dist: "hdist (rot90s ?nb ?s c) ?c = wrong" .
    then have "in_ball fam (int h) ?s c i" using w assms(3) by (simp add: in_ball_def)
    from decode_separated [OF ok(1-3) _ _ _ fits reads_fits [OF c(1)] this] obtain e where
      "quick_decode_codeword ?fam c = Inr e" "unat (qe_id e) = i" "unat (qe_rotation e) = ?s" "unat (qe_hamming e) = wrong"
      using ok(4,5) qd dist by auto
    then show ?thesis using c(2,3) by auto
  qed
  then show ?thesis using im(1) qd unfolding wrong_def Let_def by blast
qed

text \<open>C9: A drawn tag is read back. For every tag of the four complete families, turned by any number of quarter turns and
  sampled with even contrast, \<open>quad_decode\<close> finds the number of the tag, the rotation that turns it upright and the number of
  bits that were read wrong, as long as the family corrects that many.\<close>

theorem tag_read_back:
  fixes view :: "'f::linordered_field quad_view"
  assumes "(fam, h) \<in> set fam_corrected" "alloc (int (3 * qd_cap fam (int h)))" "i < fam_ncodes fam" "r < 4"
    and "qv_polarity view" "contrast d fam view"
  shows "\<exists>im fam'. apriltag_to_image fam i = Inr im \<and> quick_decode_init alloc fam (int h) = Inr (fam', NoError) \<and>
    (let wrong = card {k. k < fam_nbits fam \<and> (0 < cell_value view fam k) \<noteq> white_at fam im ((turn_pos fam ^^ r) (bpos fam k))} in
      wrong \<le> h \<longrightarrow> (\<exists>margin e. quad_decode d fam' view entry = Inr (margin, e) \<and> 0 \<le> margin \<and>
        unat (qe_id e) = i \<and> unat (qe_rotation e) = (4 - r) mod 4 \<and> unat (qe_hamming e) = wrong))"
  using assms by (rule read_back)

subsection \<open>Witness\<close>

text \<open>A quadrilateral in which the bits of a word are seen with full contrast.\<close>

definition view_of :: "apriltag_family \<Rightarrow> u64 \<Rightarrow> rat quad_view" where
  "view_of fam w = \<lparr>qv_polarity = True,
     qv_value = (\<lambda>x y. Some (if \<exists>k < fam_nbits fam. bpos fam k = (x, y) \<and> bit w (fam_nbits fam - 1 - k) then 100 else - 100))\<rparr>"

lemma view_of_value:
  assumes "cells_ok fam" "k < fam_nbits fam"
  shows "cell_value (view_of fam w) fam k = (if bit w (fam_nbits fam - 1 - k) then 100 else - 100)"
proof -
  have "bpos fam j = bpos fam k \<longleftrightarrow> j = k" if "j < fam_nbits fam" for j
    using cells_ok_facts(7) [OF assms(1)] that assms(2) by (auto simp: distinct_conv_nth)
  then have "(\<exists>j < fam_nbits fam. bpos fam j = bpos fam k \<and> bit w (fam_nbits fam - 1 - j)) \<longleftrightarrow> bit w (fam_nbits fam - 1 - k)"
    using assms(2) by auto
  then show ?thesis by (simp add: cell_value_def view_of_def)
qed

text \<open>Tag 0 of tag16h5, lying on its side and with one bit read wrong.\<close>

abbreviation side_view :: "rat quad_view" where
  "side_view \<equiv> view_of tag16h5_create (rotate90 0x27c8 16 XOR 1)"

lemma side_view_ok:
  assumes "apriltag_to_image tag16h5_create 0 = Inr im"
  shows "contrast (1 / 4) tag16h5_create side_view"
    "card {k. k < 16 \<and> (0 < cell_value side_view tag16h5_create k) \<noteq>
      white_at tag16h5_create im ((turn_pos tag16h5_create ^^ 1) (bpos tag16h5_create k))} = 1"
proof -
  let ?w = "rotate90 0x27c8 16 XOR 1" and ?fam = tag16h5_create
  let ?view = "view_of ?fam ?w"
  have ok: "cells_ok ?fam" "fam_ok ?fam" "0 < fam_ncodes ?fam" by (simp_all add: cells_ok_families fam_oks) (simp add: fam_creates)
  have nb: "fam_nbits ?fam = 16" and code: "fam_codes ?fam ! 0 = 0x27c8" by (simp_all add: fam_creates tag16h5_codes_def)
  have v: "cell_value ?view ?fam k = (if bit ?w (15 - k) then 100 else - 100)" if "k < 16" for k
    using view_of_value [OF ok(1), of k ?w] that nb by simp
  have w: "unat ?w < 2 ^ 16" by (intro fits_xor rotate90_fits) simp_all
  have "?w XOR rotate90 0x27c8 16 = push_bit 0 1" by (simp add: xor.assoc xor.left_commute)
  then have dist: "hdist ?w (rotate90 0x27c8 16) = 1" by (simp only: hdist_def hweight_card wbits_1) simp
  have reads: "reads 16 (\<lambda>k. 0 < cell_value ?view ?fam k) ?w"
  proof -
    have "bit ?w j \<longleftrightarrow> j < 16 \<and> 0 < cell_value ?view ?fam (16 - 1 - j)" for j
    proof (cases "j < 16")
      case True
      then have "15 - (15 - j) = j" "16 - 1 - j = 15 - j" "15 - j < 16" by simp_all
      then show ?thesis using v [of "15 - j"] True by simp
    next
      case False
      then show ?thesis using w unfolding fits_bits by blast
    qed
    then show ?thesis unfolding reads_def by blast
  qed
  show "contrast (1 / 4) ?fam ?view" unfolding contrast_def nb by (intro conjI exI [of _ 100]) (auto simp: v)
  obtain im0 where im0: "apriltag_to_image ?fam 0 = Inr im0"
    "\<And>x y. x < nat (fam_total_width ?fam) \<Longrightarrow> y < nat (fam_total_width ?fam) \<Longrightarrow> col im0 x y = (if (x, y) \<in> drawn ?fam 0 then 255 else 0)"
    by (rule apriltag_to_image_ok [OF ok]) blast
  have im: "im0 = im" using im0(1) assms by simp
  have "reads 16 (\<lambda>k. white_at ?fam im ((turn_pos ?fam ^^ 1) (bpos ?fam k))) (rotate90 0x27c8 16)"
    using drawn_reads [OF ok im0(2), of 1] nb code by (simp add: im)
  then show "card {k. k < 16 \<and> (0 < cell_value ?view ?fam k) \<noteq> white_at ?fam im ((turn_pos ?fam ^^ 1) (bpos ?fam k))} = 1"
    using reads_hdist [OF reads] dist by simp
qed

lemma tag_read_back_witness:
  "\<exists>fam' margin e. quick_decode_init (\<lambda>_. True) tag16h5_create (int 2) = Inr (fam', NoError) \<and>
    quad_decode (1 / 4) fam' side_view qd_no_entry = Inr (margin, e) \<and> 0 \<le> margin \<and>
    unat (qe_id e) = 0 \<and> unat (qe_rotation e) = 3 \<and> unat (qe_hamming e) = 1"
proof -
  let ?fam = tag16h5_create and ?view = side_view
  have ok: "cells_ok ?fam" "fam_ok ?fam" "0 < fam_ncodes ?fam" by (simp_all add: cells_ok_families fam_oks) (simp add: fam_creates)
  have nb: "fam_nbits ?fam = 16" by (simp add: fam_creates)
  have f: "(?fam, 2) \<in> set fam_corrected" and p: "qv_polarity ?view" and r: "(1 :: nat) < 4"
    by (simp_all add: fam_corrected_def view_of_def)
  obtain im0 where im0: "apriltag_to_image ?fam 0 = Inr im0" by (rule apriltag_to_image_ok [OF ok]) blast
  note side = side_view_ok [OF im0]
  from tag_read_back [OF f _ ok(3) r p side(1), of "\<lambda>_. True" qd_no_entry] obtain im fam' where t: "apriltag_to_image ?fam 0 = Inr im"
    "quick_decode_init (\<lambda>_. True) ?fam (int 2) = Inr (fam', NoError)"
    "card {k. k < 16 \<and> (0 < cell_value ?view ?fam k) \<noteq> white_at ?fam im ((turn_pos ?fam ^^ 1) (bpos ?fam k))} \<le> 2 \<longrightarrow>
      (\<exists>margin e. quad_decode (1 / 4) fam' ?view qd_no_entry = Inr (margin, e) \<and> 0 \<le> margin \<and> unat (qe_id e) = 0 \<and>
        unat (qe_rotation e) = (4 - 1) mod 4 \<and>
        unat (qe_hamming e) = card {k. k < 16 \<and> (0 < cell_value ?view ?fam k) \<noteq> white_at ?fam im ((turn_pos ?fam ^^ 1) (bpos ?fam k))})"
    unfolding Let_def nb by blast
  have "\<exists>margin e. quad_decode (1 / 4) fam' ?view qd_no_entry = Inr (margin, e) \<and> 0 \<le> margin \<and> unat (qe_id e) = 0 \<and>
        unat (qe_rotation e) = (4 - 1) mod 4 \<and> unat (qe_hamming e) = 1" using t(3) unfolding side_view_ok(2) [OF t(1)] by simp
  then show ?thesis using t(2) by (intro exI [of _ fam']) simp
qed

end
