(* ===== verification/TargetDetector.thy ===== *)
theory TargetDetector
  imports Prelude Complex_Main "HOL-Library.Sublist"
begin

text \<open>
  The landing logic of \<open>target_detector.cpp\<close>: the table of tracked tags with its timeouts, the
  hysteresis of the lock on the target tag, the landing target computed from a tag, and the
  handling of one camera frame. The clock \<open>hal_millis\<close> is a sequence of readings: every call takes
  the next one. The arithmetic of \<open>float\<close> and \<open>double\<close> is an argument, a record of its operations;
  the detections a frame yields are the result of \<open>apriltag_detector_detect\<close> and come as a list.
\<close>

subsection \<open>Readings of the clock\<close>

type_synonym clock = "nat \<Rightarrow> u32"

text \<open>\<open>hal_millis()\<close>: the reading and the number of calls made so far.\<close>

definition hal_millis :: "clock \<Rightarrow> nat \<Rightarrow> u32 \<times> nat" where
  "hal_millis clk n = (clk n, Suc n)"

subsection \<open>Tags\<close>

record 'f point_2f =
  px :: 'f
  py :: 'f

record 'f tag_t =
  tag_id :: u16
  tag_lastSeen :: u32
  tag_center :: "'f point_2f"
  tag_p :: "'f point_2f list"

definition MAX_TAGS :: nat where
  "MAX_TAGS = 10"

definition TIMEOUT_MS :: u32 where
  "TIMEOUT_MS = 500"

record 'f tag_tracker =
  tt_tags :: "'f tag_t list"
  tt_count :: nat

text \<open>The constructor leaves the array as it is: \<open>junk\<close>.\<close>

definition TagTracker :: "'f tag_t list \<Rightarrow> 'f tag_tracker" where
  "TagTracker junk = \<lparr>tt_tags = junk, tt_count = 0\<rparr>"

definition tagExists :: "'f tag_tracker \<Rightarrow> int \<Rightarrow> bool" where
  "tagExists tt nd = list_ex (\<lambda>i. uint (tag_id (tt_tags tt ! i)) = nd) [0..<tt_count tt]"

text \<open>\<open>for (i = index; i < tag_count - 1; i++) tags[i] = tags[i + 1]; tag_count--\<close>\<close>

definition removeAt :: "'f tag_tracker \<Rightarrow> nat \<Rightarrow> 'f tag_tracker" where
  "removeAt tt index =
     tt\<lparr>tt_tags := fold (\<lambda>i ts. ts[i := ts ! (i + 1)]) [index..<tt_count tt - 1] (tt_tags tt),
        tt_count := tt_count tt - 1\<rparr>"

function removeOldTags_from :: "clock \<Rightarrow> 'f tag_tracker \<Rightarrow> nat \<Rightarrow> nat \<Rightarrow> 'f tag_tracker \<times> nat" where
  "removeOldTags_from clk tt i n =
     (if i < tt_count tt then
        (let (now, n) = hal_millis clk n in
         if now - tag_lastSeen (tt_tags tt ! i) > TIMEOUT_MS
         then removeOldTags_from clk (removeAt tt i) i n
         else removeOldTags_from clk tt (i + 1) n)
      else (tt, n))"
  by pat_completeness auto
termination
  by (relation "measure (\<lambda>(clk, tt, i, n). tt_count tt - i)") (auto simp: removeAt_def)

declare removeOldTags_from.simps [simp del]

definition removeOldTags :: "clock \<Rightarrow> 'f tag_tracker \<Rightarrow> nat \<Rightarrow> 'f tag_tracker \<times> nat" where
  "removeOldTags clk tt n = removeOldTags_from clk tt 0 n"

text \<open>The search loops of \<open>updateTag\<close> and \<open>getTag\<close>.\<close>

definition find_tag :: "'f tag_tracker \<Rightarrow> u16 \<Rightarrow> nat option" where
  "find_tag tt nd = find (\<lambda>i. tag_id (tt_tags tt ! i) = nd) [0..<tt_count tt]"

definition updateTag :: "clock \<Rightarrow> 'f tag_tracker \<Rightarrow> 'f tag_t \<Rightarrow> nat \<Rightarrow> 'f tag_tracker \<times> nat" where
  "updateTag clk tt tag n =
     (case find_tag tt (tag_id tag) of
        Some i \<Rightarrow>
          (let (now, n) = hal_millis clk n
           in (tt\<lparr>tt_tags := (tt_tags tt)[i := tag\<lparr>tag_lastSeen := now\<rparr>]\<rparr>, n))
      | None \<Rightarrow>
          (if tt_count tt < MAX_TAGS
           then (tt\<lparr>tt_tags := (tt_tags tt)[tt_count tt := tag], tt_count := tt_count tt + 1\<rparr>, n)
           else (tt, n)))"

text \<open>
  \<open>getTag(id, tag)\<close> compares with the identifier of the tag it is to fill in, not with its
  argument \<open>id\<close>.
\<close>

definition getTag :: "'f tag_tracker \<Rightarrow> u16 \<Rightarrow> 'f tag_t \<Rightarrow> 'f tag_t \<times> bool" where
  "getTag tt nd tag =
     (case find_tag tt (tag_id tag) of
        Some i \<Rightarrow> (tt_tags tt ! i, True)
      | None \<Rightarrow> (tag, False))"

subsection \<open>The lock\<close>

record hysteresis_lock =
  hl_framesRequiredForLock :: u32
  hl_allowedMissedFrames :: u32
  hl_missedConsecutiveFrames :: u32
  hl_okFrames :: u32

text \<open>The constructor does not set \<open>okFrames\<close>: it keeps the value the memory held.\<close>

definition HysteresisLock :: "u32 \<Rightarrow> u32 \<Rightarrow> u32 \<Rightarrow> hysteresis_lock" where
  "HysteresisLock framesRequiredForLock allowedMissedFrames junk =
     \<lparr>hl_framesRequiredForLock = framesRequiredForLock, hl_allowedMissedFrames = allowedMissedFrames,
      hl_missedConsecutiveFrames = 0, hl_okFrames = junk\<rparr>"

definition lock_hasLock :: "hysteresis_lock \<Rightarrow> bool" where
  "lock_hasLock hl = (hl_okFrames hl \<ge> hl_framesRequiredForLock hl)"

definition lock_update :: "hysteresis_lock \<Rightarrow> bool \<Rightarrow> hysteresis_lock \<times> bool" where
  "lock_update hl tagIdAvailable =
     (let hl' =
        (if tagIdAvailable
         then hl\<lparr>hl_missedConsecutiveFrames := 0, hl_okFrames := hl_okFrames hl + 1\<rparr>
         else
           (let hl = hl\<lparr>hl_missedConsecutiveFrames := hl_missedConsecutiveFrames hl + 1\<rparr>
            in if hl_missedConsecutiveFrames hl \<ge> hl_allowedMissedFrames hl
               then hl\<lparr>hl_okFrames := 0\<rparr> else hl))
      in (hl', lock_hasLock hl'))"

subsection \<open>The landing target\<close>

text \<open>
  The floating-point operations: conversions from integers, the arithmetic in \<open>double\<close>, and \<open>single\<close>,
  the rounding of a \<open>double\<close> to \<open>float\<close>, which every assignment to a \<open>float\<close> and every operation on two
  \<open>float\<close>s applies. \<open>f_dec m e\<close> is the literal \<open>m\<close> times ten to the \<open>e\<close>.
\<close>

record 'f fpu =
  f_int :: "int \<Rightarrow> 'f"
  f_dec :: "int \<Rightarrow> int \<Rightarrow> 'f"
  f_single :: "'f \<Rightarrow> 'f"
  f_add :: "'f \<Rightarrow> 'f \<Rightarrow> 'f"
  f_sub :: "'f \<Rightarrow> 'f \<Rightarrow> 'f"
  f_mul :: "'f \<Rightarrow> 'f \<Rightarrow> 'f"
  f_div :: "'f \<Rightarrow> 'f \<Rightarrow> 'f"
  f_sqrt :: "'f \<Rightarrow> 'f"
  f_tan :: "'f \<Rightarrow> 'f"
  f_pow :: "'f \<Rightarrow> int \<Rightarrow> 'f"

record 'f landing_target_t =
  lt_angle_x :: 'f
  lt_angle_y :: 'f
  lt_distance :: 'f
  lt_size_x :: 'f
  lt_size_y :: 'f
  lt_id :: u16

record 'f detector_config =
  dc_img_width :: u16
  dc_img_height :: u16
  dc_camera_fov :: u8

definition calculateLandingTarget ::
  "'f fpu \<Rightarrow> 'f detector_config \<Rightarrow> 'f tag_t \<Rightarrow> 'f landing_target_t \<Rightarrow> 'f landing_target_t" where
  "calculateLandingTarget F dc tag lt =
     (let single = f_single F; sub = f_sub F; mul = f_mul F; quo = f_div F; add = f_add F;
          two = f_int F 2;
          img_width = single (f_int F (uint (dc_img_width dc)));
          img_height = single (f_int F (uint (dc_img_height dc)));
          camera_fov = single (f_int F (uint (dc_camera_fov dc)));
          tag_real_width = single (f_dec F 1 (-1));
          tag_x = px (tag_center tag); tag_y = py (tag_center tag);
          x_offset = single (quo (sub tag_x (quo img_width two)) (quo img_width two));
          y_offset = single (quo (sub tag_y (quo img_height two)) (quo img_height two));
          angle_x = single (mul x_offset (quo camera_fov two));
          angle_y = single (mul y_offset (quo camera_fov two));
          p = (\<lambda>i. tag_p tag ! i);
          tag_pixel_width = single (f_sqrt F (add
            (f_pow F (single (sub (px (p 1)) (px (p 0)))) 2) (f_pow F (single (sub (py (p 1)) (py (p 0)))) 2)));
          tag_pixel_height = single (f_sqrt F (add
            (f_pow F (single (sub (px (p 2)) (px (p 1)))) 2) (f_pow F (single (sub (py (p 2)) (py (p 1)))) 2)));
          size_x = single (mul (single (quo tag_pixel_width img_width)) camera_fov);
          size_y = single (mul (single (quo tag_pixel_height img_height)) camera_fov);
          focal_length_px = single (quo (quo img_width two) (f_tan F (quo camera_fov two)));
          distance = single (quo (single (mul tag_real_width focal_length_px)) tag_pixel_width)
      in lt\<lparr>lt_angle_x := angle_x, lt_angle_y := angle_y, lt_distance := distance,
            lt_size_x := size_x, lt_size_y := size_y\<rparr>)"

subsection \<open>One frame\<close>

record 'f target_detector =
  td_config :: "'f detector_config"
  td_nbr_of_tags_detected :: u8
  td_landing_target :: "'f landing_target_t"
  td_targetTagId :: u16
  td_tagLock :: hysteresis_lock
  td_tagTracker :: "'f tag_tracker"

text \<open>The constructor, on the memory the object is placed in.\<close>

definition TargetDetector_new :: "'f target_detector \<Rightarrow> 'f target_detector" where
  "TargetDetector_new mem =
     mem\<lparr>td_tagLock := HysteresisLock 5 2 (hl_okFrames (td_tagLock mem)), td_targetTagId := 0,
         td_tagTracker := TagTracker (tt_tags (td_tagTracker mem))\<rparr>"

definition TargetDetector_init :: "'f target_detector \<Rightarrow> u16 \<Rightarrow> u16 \<Rightarrow> u8 \<Rightarrow> 'f target_detector" where
  "TargetDetector_init td img_width img_height camera_fov =
     td\<lparr>td_config := \<lparr>dc_img_width = img_width, dc_img_height = img_height, dc_camera_fov = camera_fov\<rparr>\<rparr>"

record 'f detection =
  det_id :: int
  det_c :: "'f point_2f"
  det_p :: "'f point_2f list"

definition isTargetTag :: "'f target_detector \<Rightarrow> u16 \<Rightarrow> bool" where
  "isTargetTag td nd = (nd = td_targetTagId td)"

definition getLockedTag :: "'f target_detector \<Rightarrow> 'f tag_t \<Rightarrow> 'f tag_t \<times> bool" where
  "getLockedTag td tag = getTag (td_tagTracker td) (td_targetTagId td) tag"

definition td_hasLock :: "'f target_detector \<Rightarrow> bool" where
  "td_hasLock td = lock_hasLock (td_tagLock td)"

definition getTagsDetected :: "'f target_detector \<Rightarrow> 'f tag_t list \<times> u8" where
  "getTagsDetected td =
     (let tt = td_tagTracker td in (take (tt_count tt) (tt_tags tt), of_nat (tt_count tt)))"

definition getLandingTarget :: "'f target_detector \<Rightarrow> 'f landing_target_t" where
  "getLandingTarget td = td_landing_target td"

text \<open>The body of the loop over the detections: the local \<open>tag\<close>, whether the target was seen, the clock.\<close>

definition detect_step ::
  "clock \<Rightarrow> 'f target_detector \<times> 'f tag_t \<times> bool \<times> nat \<Rightarrow> 'f detection
     \<Rightarrow> 'f target_detector \<times> 'f tag_t \<times> bool \<times> nat" where
  "detect_step clk s det = (case s of (td, tag, targetTagFound, n) \<Rightarrow>
     (let (now, n) = hal_millis clk n;
          tag = tag\<lparr>tag_p := take 4 (det_p det), tag_center := det_c det, tag_id := word_of_int (det_id det),
                    tag_lastSeen := now\<rparr>;
          (tt, n) = updateTag clk (td_tagTracker td) tag n
      in (td\<lparr>td_tagTracker := tt\<rparr>, tag, targetTagFound \<or> isTargetTag td (tag_id tag), n)))"

text \<open>
  \<open>junk\<close> is the local \<open>tag\<close> before the loop sets it. The number of detections is kept in eight
  bits.
\<close>

definition detectTagsInImage ::
  "'f fpu \<Rightarrow> clock \<Rightarrow> 'f tag_t \<Rightarrow> 'f target_detector \<Rightarrow> 'f detection list \<Rightarrow> nat \<Rightarrow> 'f target_detector \<times> nat" where
  "detectTagsInImage F clk junk td detections n =
     (let (tt, n) = removeOldTags clk (td_tagTracker td) n;
          td = td\<lparr>td_tagTracker := tt, td_nbr_of_tags_detected := of_nat (length detections)\<rparr>;
          (td, tag, targetTagFound, n) =
            foldl (detect_step clk) (td, junk, False, n) (take (unat (td_nbr_of_tags_detected td)) detections);
          (lock, locked) = lock_update (td_tagLock td) targetTagFound;
          td = td\<lparr>td_tagLock := lock\<rparr>
      in if locked
         then (td\<lparr>td_landing_target :=
                 calculateLandingTarget F (td_config td) (fst (getLockedTag td tag)) (td_landing_target td)\<rparr>, n)
         else (td, n))"

subsection \<open>The table of tracked tags\<close>

definition tracked :: "'f tag_tracker \<Rightarrow> 'f tag_t list" where
  "tracked tt = take (tt_count tt) (tt_tags tt)"

definition tt_inv :: "'f tag_tracker \<Rightarrow> bool" where
  "tt_inv tt \<longleftrightarrow> length (tt_tags tt) = MAX_TAGS \<and> tt_count tt \<le> MAX_TAGS \<and> distinct (map tag_id (tracked tt))"

lemma length_tracked: "tt_inv tt \<Longrightarrow> length (tracked tt) = tt_count tt"
  by (simp add: tt_inv_def tracked_def)

lemma tracked_nth: "i < tt_count tt \<Longrightarrow> tracked tt ! i = tt_tags tt ! i"
  by (simp add: tracked_def)

lemma shift_left:
  "a \<le> b \<Longrightarrow> b < length ts \<Longrightarrow> length (fold (\<lambda>i ts. ts[i := ts ! (i + 1)]) [a..<b] ts) = length ts \<and>
   (\<forall>i < length ts. fold (\<lambda>i ts. ts[i := ts ! (i + 1)]) [a..<b] ts ! i = (if a \<le> i \<and> i < b then ts ! (i + 1) else ts ! i))"
proof (induction b)
  case (Suc b)
  show ?case
  proof (cases "a = Suc b")
    case False
    with Suc show ?thesis by (auto simp: nth_list_update less_Suc_eq)
  qed (use Suc.prems in auto)
qed simp

lemma distinct_remove: "distinct xs \<Longrightarrow> distinct (take i xs @ drop (Suc i) xs)"
  using set_take_disj_set_drop_if_distinct [of xs i "Suc i"] by simp

lemma removeAt_ok:
  assumes "tt_inv tt" "i < tt_count tt"
  shows "tt_inv (removeAt tt i)" "tracked (removeAt tt i) = take i (tracked tt) @ drop (Suc i) (tracked tt)"
    "tt_count (removeAt tt i) = tt_count tt - 1"
proof -
  have c: "tt_count tt \<le> length (tt_tags tt)" and d: "distinct (map tag_id (tracked tt))"
    using assms by (auto simp: tt_inv_def)
  have sh: "length (tt_tags (removeAt tt i)) = length (tt_tags tt)"
    "\<And>k. k < length (tt_tags tt) \<Longrightarrow> tt_tags (removeAt tt i) ! k =
        (if i \<le> k \<and> k < tt_count tt - 1 then tt_tags tt ! (k + 1) else tt_tags tt ! k)"
    using shift_left [of i "tt_count tt - 1" "tt_tags tt"] assms c by (simp_all add: removeAt_def)
  show n: "tt_count (removeAt tt i) = tt_count tt - 1" by (simp add: removeAt_def)
  show tr: "tracked (removeAt tt i) = take i (tracked tt) @ drop (Suc i) (tracked tt)"
  proof (rule nth_equalityI)
    fix k assume "k < length (tracked (removeAt tt i))"
    then have k: "k < tt_count tt - 1" using c by (simp add: tracked_def n sh(1))
    then show "tracked (removeAt tt i) ! k = (take i (tracked tt) @ drop (Suc i) (tracked tt)) ! k"
      using assms c by (auto simp: tracked_def n sh nth_append)
  qed (use assms c in \<open>simp add: tracked_def n sh(1)\<close>)
  have "distinct (map tag_id (take i (tracked tt) @ drop (Suc i) (tracked tt)))"
    using distinct_remove [OF d, of i] by (simp add: take_map drop_map)
  moreover have "tt_count tt - 1 \<le> MAX_TAGS" using assms(1) unfolding tt_inv_def by linarith
  ultimately show "tt_inv (removeAt tt i)" using assms c by (simp add: tt_inv_def tr n sh(1))
qed

text \<open>The tags that are not timed out when they are looked at, one clock reading for each.\<close>

fun keep_fresh :: "clock \<Rightarrow> nat \<Rightarrow> 'f tag_t list \<Rightarrow> 'f tag_t list" where
  "keep_fresh clk n [] = []"
| "keep_fresh clk n (g # gs) =
     (if clk n - tag_lastSeen g > TIMEOUT_MS then keep_fresh clk (Suc n) gs else g # keep_fresh clk (Suc n) gs)"

lemma removeOldTags_from_ok:
  assumes "tt_inv tt" "i \<le> tt_count tt"
  shows "tt_inv (fst (removeOldTags_from clk tt i n)) \<and>
    tracked (fst (removeOldTags_from clk tt i n)) = take i (tracked tt) @ keep_fresh clk n (drop i (tracked tt)) \<and>
    snd (removeOldTags_from clk tt i n) = n + (tt_count tt - i)"
  using assms
proof (induction clk tt i n rule: removeOldTags_from.induct)
  case (1 clk tt i n)
  show ?case
  proof (cases "i < tt_count tt")
    case True
    note simps = removeOldTags_from.simps [of clk tt i n]
    have len: "length (tracked tt) = tt_count tt" using 1 by (simp add: length_tracked)
    have d: "drop i (tracked tt) = tt_tags tt ! i # drop (Suc i) (tracked tt)"
      using True len by (simp add: Cons_nth_drop_Suc [symmetric] tracked_nth)
    show ?thesis
    proof (cases "clk n - tag_lastSeen (tt_tags tt ! i) > TIMEOUT_MS")
      case old: True
      note r = removeAt_ok [OF 1(3) True]
      have "i \<le> tt_count (removeAt tt i)" using r True by simp
      from 1(1) [OF True _ _ _ r(1) this] True old r len show ?thesis
        by (simp add: simps hal_millis_def d Let_def)
    next
      case fresh: False
      from 1(2) [OF True _ _ fresh 1(3)] True fresh len show ?thesis
        by (simp add: simps hal_millis_def d take_Suc_conv_app_nth tracked_nth)
    qed
  next
    case False
    then have "removeOldTags_from clk tt i n = (tt, n)" by (subst removeOldTags_from.simps) simp
    with 1 False show ?thesis by (simp add: length_tracked)
  qed
qed

lemma removeOldTags_ok:
  assumes "tt_inv tt"
  shows "tt_inv (fst (removeOldTags clk tt n))" "tracked (fst (removeOldTags clk tt n)) = keep_fresh clk n (tracked tt)"
    "snd (removeOldTags clk tt n) = n + tt_count tt"
  using removeOldTags_from_ok [OF assms, of 0 clk n] by (simp_all add: removeOldTags_def)

lemma tracked_ids: "tt_inv tt \<Longrightarrow> nd \<in> tag_id ` set (tracked tt) \<longleftrightarrow> (\<exists>i < tt_count tt. tag_id (tt_tags tt ! i) = nd)"
  unfolding image_iff Bex_def in_set_conv_nth by (auto simp: length_tracked tracked_nth)

lemma find_tag_None: "tt_inv tt \<Longrightarrow> find_tag tt nd = None \<longleftrightarrow> nd \<notin> tag_id ` set (tracked tt)"
  by (auto simp: find_tag_def find_None_iff tracked_ids)

lemma find_tag_Some:
  "find_tag tt nd = Some i \<Longrightarrow> i < tt_count tt \<and> tag_id (tt_tags tt ! i) = nd"
  by (auto simp: find_tag_def find_Some_iff)

text \<open>A tracked tag is replaced in place; a new one is appended while there is room.\<close>

definition track :: "u32 \<Rightarrow> 'f tag_t list \<Rightarrow> 'f tag_t \<Rightarrow> 'f tag_t list" where
  "track now gs tag =
     (if tag_id tag \<in> tag_id ` set gs
      then map (\<lambda>g. if tag_id g = tag_id tag then tag\<lparr>tag_lastSeen := now\<rparr> else g) gs
      else if length gs < MAX_TAGS then gs @ [tag] else gs)"

lemma map_update_unique:
  "distinct (map f xs) \<Longrightarrow> i < length xs \<Longrightarrow> f (xs ! i) = k \<Longrightarrow>
   map (\<lambda>x. if f x = k then y else x) xs = xs[i := y]"
  by (rule nth_equalityI) (auto simp: nth_list_update distinct_conv_nth)

lemma updateTag_ok:
  assumes inv: "tt_inv tt"
  shows "tt_inv (fst (updateTag clk tt tag n))" (is ?A)
    "tracked (fst (updateTag clk tt tag n)) = track (clk n) (tracked tt) tag" (is ?B)
    "snd (updateTag clk tt tag n) = (if tag_id tag \<in> tag_id ` set (tracked tt) then Suc n else n)" (is ?C)
proof -
  note len = length_tracked [OF inv]
  have l: "length (tt_tags tt) = MAX_TAGS" "tt_count tt \<le> MAX_TAGS" and d: "distinct (map tag_id (tracked tt))"
    using inv by (simp_all add: tt_inv_def)
  have "?A \<and> ?B \<and> ?C"
  proof (cases "find_tag tt (tag_id tag)")
    case None
    then have new: "tag_id tag \<notin> tag_id ` set (tracked tt)" using find_tag_None [OF inv, of "tag_id tag"] by simp
    show ?thesis
    proof (cases "tt_count tt < MAX_TAGS")
      case True
      have tr: "tracked (tt\<lparr>tt_tags := (tt_tags tt)[tt_count tt := tag], tt_count := tt_count tt + 1\<rparr>) = tracked tt @ [tag]"
        using True l by (simp add: tracked_def take_Suc_conv_app_nth)
      have "tt_inv (tt\<lparr>tt_tags := (tt_tags tt)[tt_count tt := tag], tt_count := tt_count tt + 1\<rparr>)"
        unfolding tt_inv_def tr using l True d new by simp
      then show ?thesis using tr None new True len by (simp add: updateTag_def track_def)
    next
      case False
      then show ?thesis using None new inv len by (simp add: updateTag_def track_def)
    qed
  next
    case (Some i)
    note i = find_tag_Some [OF Some]
    have mem: "tag_id tag \<in> tag_id ` set (tracked tt)" using find_tag_None [OF inv, of "tag_id tag"] Some by simp
    let ?g = "tag\<lparr>tag_lastSeen := clk n\<rparr>"
    have tr: "tracked (tt\<lparr>tt_tags := (tt_tags tt)[i := ?g]\<rparr>) = (tracked tt)[i := ?g]"
      by (simp add: tracked_def take_update_swap)
    have "tag_id (tracked tt ! i) = tag_id ?g" using i by (simp add: tracked_nth)
    then have ids: "map tag_id ((tracked tt)[i := ?g]) = map tag_id (tracked tt)"
      using i len by (simp add: map_update list_update_same_conv)
    have "tt_inv (tt\<lparr>tt_tags := (tt_tags tt)[i := ?g]\<rparr>)"
      unfolding tt_inv_def tr ids using l d by simp
    moreover have "(tracked tt)[i := ?g] = track (clk n) (tracked tt) tag"
      using map_update_unique [OF d, of i "tag_id tag" ?g] i len mem by (simp add: track_def tracked_nth)
    ultimately show ?thesis using Some mem tr by (simp add: updateTag_def hal_millis_def)
  qed
  then show ?A ?B ?C by simp_all
qed

text \<open>Elapsed time is measured correctly across the wrap of the 32-bit clock.\<close>

lemma elapsed_wrap:
  assumes "e < 2 ^ 32"
  shows "(of_nat (t + e) - of_nat t :: u32) > TIMEOUT_MS \<longleftrightarrow> e > 500"
proof -
  have "(of_nat (t + e) - of_nat t :: u32) = of_nat e" by simp
  moreover have "unat (of_nat e :: u32) = e" using assms by (simp add: unat_of_nat take_bit_nat_eq_self_iff)
  ultimately show ?thesis by (simp add: TIMEOUT_MS_def word_less_nat_alt)
qed

subsection \<open>What the lock means\<close>

text \<open>
  The history of frames, oldest first. A recent stretch is a suffix without as many misses in a row
  as end the lock.
\<close>

definition locked_on :: "nat \<Rightarrow> nat \<Rightarrow> bool list \<Rightarrow> bool" where
  "locked_on k a h \<longleftrightarrow> (\<exists>s. suffix s h \<and> \<not> sublist (replicate a False) s \<and> k \<le> count_list s True)"

definition misses :: "bool list \<Rightarrow> nat" where
  "misses h = length (takeWhile Not (rev h))"

lemma misses_simps [simp]:
  "misses [] = 0" "misses (h @ [True]) = 0" "misses (h @ [False]) = Suc (misses h)"
  by (simp_all add: misses_def)

lemma misses_le: "misses h \<le> length h"
  unfolding misses_def by (metis length_rev length_takeWhile_le)

lemma suffix_misses: "suffix (replicate a False) h \<longleftrightarrow> a \<le> misses h"
proof (induction h arbitrary: a rule: rev_induct)
  case Nil
  show ?case by (cases a) auto
next
  case (snoc b h)
  show ?case
  proof (cases a)
    case (Suc m)
    have "replicate (Suc m) False = replicate m False @ [False]" by (simp add: replicate_append_same)
    then show ?thesis using Suc snoc [of m] by (cases b) (auto simp del: replicate.simps)
  qed simp
qed

lemma avoid_snoc:
  "\<not> sublist (replicate a False) (s @ [b]) \<longleftrightarrow> \<not> sublist (replicate a False) s \<and> misses (s @ [b]) < a"
  by (simp only: sublist_snoc suffix_misses) auto

lemma misses_suffix: "suffix s h \<Longrightarrow> misses h \<ge> length s \<Longrightarrow> count_list s True = 0"
proof (induction h arbitrary: s rule: rev_induct)
  case (snoc b h)
  show ?case
  proof (cases s rule: rev_cases)
    case (snoc s' c)
    with snoc.prems have "suffix s' h" "c = b" by auto
    moreover have "b = False" using snoc.prems snoc by (cases b) auto
    ultimately show ?thesis using snoc.IH [of s'] snoc.prems snoc by simp
  qed simp
qed simp

lemma locked_on_zero: "0 < a \<Longrightarrow> locked_on 0 a h"
  unfolding locked_on_def by (rule exI [of _ "[]"]) (cases a, auto)

lemma locked_on_True: "0 < a \<Longrightarrow> locked_on (Suc k) a (h @ [True]) \<longleftrightarrow> locked_on k a h"
proof
  assume a: "0 < a" and "locked_on (Suc k) a (h @ [True])"
  then obtain s where s: "suffix s (h @ [True])" "\<not> sublist (replicate a False) s" "Suc k \<le> count_list s True"
    unfolding locked_on_def by blast
  from s(3) obtain s' b where s': "s = s' @ [b]" by (cases s rule: rev_cases) auto
  with s(1) have "b = True" "suffix s' h" by auto
  with s s' show "locked_on k a h" unfolding locked_on_def by (intro exI [of _ s']) (auto simp: avoid_snoc)
next
  assume a: "0 < a" and "locked_on k a h"
  then obtain s where "suffix s h" "\<not> sublist (replicate a False) s" "k \<le> count_list s True"
    unfolding locked_on_def by blast
  with a show "locked_on (Suc k) a (h @ [True])"
    unfolding locked_on_def by (intro exI [of _ "s @ [True]"]) (auto simp: avoid_snoc)
qed

lemma locked_on_False:
  assumes "0 < a"
  shows "locked_on k a (h @ [False]) \<longleftrightarrow> (if a \<le> Suc (misses h) then k = 0 else locked_on k a h)"
proof (cases "a \<le> Suc (misses h)")
  case True
  have "k = 0" if "locked_on k a (h @ [False])"
  proof -
    from that obtain s where s: "suffix s (h @ [False])" "\<not> sublist (replicate a False) s" "k \<le> count_list s True"
      unfolding locked_on_def by blast
    have "length s \<le> misses (h @ [False])"
    proof (rule ccontr)
      assume "\<not> length s \<le> misses (h @ [False])"
      then have "a \<le> length s" using True by simp
      moreover have "suffix (replicate a False) (h @ [False])" using True by (simp only: suffix_misses misses_simps)
      ultimately have "suffix (replicate a False) s" using s(1) by (metis length_replicate suffix_length_suffix)
      then show False using s(2) suffix_imp_sublist by blast
    qed
    then show "k = 0" using misses_suffix [OF s(1)] s(3) by simp
  qed
  then show ?thesis using True locked_on_zero [OF assms] by auto
next
  case False
  have "locked_on k a (h @ [False]) \<longleftrightarrow> locked_on k a h"
  proof
    assume "locked_on k a (h @ [False])"
    then obtain s where s: "suffix s (h @ [False])" "\<not> sublist (replicate a False) s" "k \<le> count_list s True"
      unfolding locked_on_def by blast
    show "locked_on k a h"
    proof (cases s rule: rev_cases)
      case Nil
      then show ?thesis using s(3) locked_on_zero [OF assms] by simp
    next
      case (snoc s' b)
      with s have "suffix s' h" "\<not> sublist (replicate a False) s'" "k \<le> count_list s' True" by (auto simp: avoid_snoc)
      then show ?thesis unfolding locked_on_def by blast
    qed
  next
    assume "locked_on k a h"
    then obtain s where s: "suffix s h" "\<not> sublist (replicate a False) s" "k \<le> count_list s True"
      unfolding locked_on_def by blast
    have "misses s \<le> misses h"
      using s(1) suffix_misses [of "misses s" s] suffix_misses [of "misses s" h] suffix_order.trans by blast
    with s False show "locked_on k a (h @ [False])"
      unfolding locked_on_def by (intro exI [of _ "s @ [False]"]) (auto simp: avoid_snoc)
  qed
  with False show ?thesis by simp
qed

definition lock_frames :: "hysteresis_lock \<Rightarrow> bool list \<Rightarrow> hysteresis_lock" where
  "lock_frames hl h = foldl (\<lambda>hl b. fst (lock_update hl b)) hl h"

lemma unat_Suc_small:
  assumes "unat (x :: u32) < n" "n < 2 ^ 32"
  shows "unat (x + 1) = Suc (unat x)"
proof -
  have "x + 1 = of_nat (Suc (unat x))" by simp
  also have "unat (of_nat (Suc (unat x)) :: u32) = Suc (unat x)"
    using assms by (simp only: unsigned_of_nat of_nat_id) (simp add: take_bit_nat_eq_self_iff)
  finally show ?thesis .
qed

text \<open>The counters after any history of fewer than \<open>2 ^ 32\<close> frames from a cleared state.\<close>

lemma lock_frames_ok:
  assumes "length h < 2 ^ 32" "0 < unat allowed"
  shows "hl_framesRequiredForLock (lock_frames (HysteresisLock required allowed 0) h) = required \<and>
    hl_allowedMissedFrames (lock_frames (HysteresisLock required allowed 0) h) = allowed \<and>
    unat (hl_missedConsecutiveFrames (lock_frames (HysteresisLock required allowed 0) h)) = misses h \<and>
    unat (hl_okFrames (lock_frames (HysteresisLock required allowed 0) h)) \<le> length h \<and>
    (\<forall>k. locked_on k (unat allowed) h \<longleftrightarrow> k \<le> unat (hl_okFrames (lock_frames (HysteresisLock required allowed 0) h)))"
  using assms(1)
proof (induction h rule: rev_induct)
  case Nil
  have "locked_on k (unat allowed) [] \<longleftrightarrow> k = 0" for k
    using locked_on_zero [OF assms(2), of "[]"] by (auto simp: locked_on_def)
  then show ?case by (simp add: lock_frames_def HysteresisLock_def)
next
  case (snoc b h)
  let ?hl = "lock_frames (HysteresisLock required allowed 0) h"
  from snoc have IH: "hl_framesRequiredForLock ?hl = required" "hl_allowedMissedFrames ?hl = allowed"
    "unat (hl_missedConsecutiveFrames ?hl) = misses h" "unat (hl_okFrames ?hl) \<le> length h"
    "\<And>k. locked_on k (unat allowed) h \<longleftrightarrow> k \<le> unat (hl_okFrames ?hl)" by auto
  have step: "lock_frames (HysteresisLock required allowed 0) (h @ [b]) = fst (lock_update ?hl b)"
    by (simp add: lock_frames_def)
  have len: "Suc (length h) < 2 ^ 32" using snoc.prems by simp
  show ?case
  proof (cases b)
    case True
    have ok: "unat (hl_okFrames ?hl + 1) = Suc (unat (hl_okFrames ?hl))"
      using unat_Suc_small [OF _ len, of "hl_okFrames ?hl"] IH(4) by simp
    have "locked_on k (unat allowed) (h @ [True]) \<longleftrightarrow> k \<le> Suc (unat (hl_okFrames ?hl))" for k
      using locked_on_zero [OF assms(2)] locked_on_True [OF assms(2)] IH(5) by (cases k) auto
    then show ?thesis unfolding step using True IH ok by (simp add: lock_update_def Let_def)
  next
    case False
    have "misses h < Suc (length h)" using misses_le [of h] by simp
    then have m: "unat (hl_missedConsecutiveFrames ?hl + 1) = Suc (misses h)"
      using unat_Suc_small [OF _ len, of "hl_missedConsecutiveFrames ?hl"] IH(3) by simp
    then have le: "allowed \<le> hl_missedConsecutiveFrames ?hl + 1 \<longleftrightarrow> unat allowed \<le> Suc (misses h)"
      by (simp add: word_le_nat_alt)
    show ?thesis
      unfolding step using False IH m by (simp add: lock_update_def Let_def le locked_on_False [OF assms(2)])
  qed
qed

text \<open>
  The detector has a lock exactly when the target was seen often enough in a stretch of recent
  frames without too many misses in a row.
\<close>

lemma lock_meaning:
  assumes "length h < 2 ^ 32" "0 < unat allowed"
  shows "lock_hasLock (lock_frames (HysteresisLock required allowed 0) h) \<longleftrightarrow> locked_on (unat required) (unat allowed) h"
  using lock_frames_ok [OF assms, of required] by (simp add: lock_hasLock_def word_le_nat_alt)

subsection \<open>Frames\<close>

text \<open>The detections a frame handles, and whether the target is among them.\<close>

definition frame_dets :: "'f detection list \<Rightarrow> 'f detection list" where
  "frame_dets ds = take (length ds mod 256) ds"

definition sees :: "u16 \<Rightarrow> 'f detection list \<Rightarrow> bool" where
  "sees target ds \<longleftrightarrow> (\<exists>d \<in> set (frame_dets ds). word_of_int (det_id d) = target)"

definition det_tag :: "'f detection \<Rightarrow> 'f tag_t \<Rightarrow> bool" where
  "det_tag d tag \<longleftrightarrow> tag_id tag = word_of_int (det_id d) \<and> tag_center tag = det_c d \<and> tag_p tag = take 4 (det_p d)"

definition same_td :: "'f target_detector \<Rightarrow> 'f target_detector \<Rightarrow> bool" where
  "same_td td td' \<longleftrightarrow> td_config td' = td_config td \<and> td_landing_target td' = td_landing_target td \<and>
     td_targetTagId td' = td_targetTagId td \<and> td_tagLock td' = td_tagLock td"

lemma detect_step_ok:
  assumes "tt_inv (td_tagTracker td)"
  obtains td' tag' n' where "detect_step clk (td, tag, f, n) d = (td', tag', f \<or> word_of_int (det_id d) = td_targetTagId td, n')"
    "same_td td td'" "tt_inv (td_tagTracker td')" "det_tag d tag'"
    "det_tag d (fst (getTag (td_tagTracker td') x tag'))"
proof -
  define tag' where "tag' = tag\<lparr>tag_p := take 4 (det_p d), tag_center := det_c d, tag_id := word_of_int (det_id d), tag_lastSeen := clk n\<rparr>"
  define tt where "tt = fst (updateTag clk (td_tagTracker td) tag' (Suc n))"
  define n' where "n' = snd (updateTag clk (td_tagTracker td) tag' (Suc n))"
  note up = updateTag_ok [OF assms, of clk tag' "Suc n"]
  have tag': "det_tag d tag'" by (simp add: det_tag_def tag'_def)
  have "det_tag d (fst (getTag tt x tag'))"
  proof (cases "find_tag tt (tag_id tag')")
    case None
    then show ?thesis using tag' by (simp add: getTag_def)
  next
    case (Some i)
    have inv: "tt_inv tt" using up(1) by (simp add: tt_def)
    from find_tag_Some [OF Some] have i: "i < tt_count tt" "tag_id (tt_tags tt ! i) = tag_id tag'" by auto
    then have "tt_tags tt ! i \<in> set (tracked tt)" using length_tracked [OF inv] by (metis nth_mem tracked_nth)
    then have "tt_tags tt ! i \<in> set (track (clk (Suc n)) (tracked (td_tagTracker td)) tag')"
      using up(2) by (simp add: tt_def)
    then have "tt_tags tt ! i = tag' \<or> tt_tags tt ! i = tag'\<lparr>tag_lastSeen := clk (Suc n)\<rparr>"
      using i(2) by (auto simp: track_def image_iff split: if_splits)
    then show ?thesis using tag' Some by (auto simp: getTag_def det_tag_def)
  qed
  moreover have "detect_step clk (td, tag, f, n) d =
      (td\<lparr>td_tagTracker := tt\<rparr>, tag', f \<or> word_of_int (det_id d) = td_targetTagId td, n')"
    by (simp add: detect_step_def hal_millis_def Let_def tag'_def tt_def n'_def isTargetTag_def split_beta)
  ultimately show thesis using that [of "td\<lparr>td_tagTracker := tt\<rparr>" tag' n'] tag' up(1) by (simp add: tt_def same_td_def)
qed

lemma detect_steps_ok:
  assumes "tt_inv (td_tagTracker td)"
  shows "\<exists>td' tag' n'. foldl (detect_step clk) (td, tag, f, n) ds =
      (td', tag', f \<or> (\<exists>d \<in> set ds. word_of_int (det_id d) = td_targetTagId td), n') \<and>
    same_td td td' \<and> tt_inv (td_tagTracker td') \<and>
    (ds \<noteq> [] \<longrightarrow> det_tag (last ds) tag' \<and> det_tag (last ds) (fst (getTag (td_tagTracker td') x tag')))"
proof (induction ds rule: rev_induct)
  case Nil
  then show ?case using assms by (simp add: same_td_def)
next
  case (snoc d ds)
  then obtain td1 tag1 n1 where s: "foldl (detect_step clk) (td, tag, f, n) ds =
      (td1, tag1, f \<or> (\<exists>d \<in> set ds. word_of_int (det_id d) = td_targetTagId td), n1)"
    "same_td td td1" "tt_inv (td_tagTracker td1)" by blast
  from s(2) have tgt: "td_targetTagId td1 = td_targetTagId td" by (simp add: same_td_def)
  obtain td' tag' n' where t: "detect_step clk (td1, tag1, f \<or> (\<exists>d \<in> set ds. word_of_int (det_id d) = td_targetTagId td), n1) d =
      (td', tag', (f \<or> (\<exists>d \<in> set ds. word_of_int (det_id d) = td_targetTagId td)) \<or> word_of_int (det_id d) = td_targetTagId td1, n')"
    "same_td td1 td'" "tt_inv (td_tagTracker td')" "det_tag d tag'"
    "det_tag d (fst (getTag (td_tagTracker td') x tag'))"
    by (rule detect_step_ok [OF s(3)])
  have "same_td td td'" using s(2) t(2) by (simp add: same_td_def)
  then show ?case using s(1) t tgt by auto
qed

text \<open>One frame: the tracker stays well formed, the lock takes the frame's verdict, the target is recomputed under lock.\<close>

lemma detectTagsInImage_ok:
  assumes inv: "tt_inv (td_tagTracker td)"
  obtains td' n' where "detectTagsInImage F clk junk td ds n = (td', n')" "tt_inv (td_tagTracker td')"
    "td_tagLock td' = fst (lock_update (td_tagLock td) (sees (td_targetTagId td) ds))"
    "td_targetTagId td' = td_targetTagId td" "td_config td' = td_config td"
    "td_landing_target td' \<noteq> td_landing_target td \<Longrightarrow> td_hasLock td'"
    "\<And>g. td_hasLock td' \<Longrightarrow> frame_dets ds \<noteq> [] \<Longrightarrow> det_tag (last (frame_dets ds)) g \<Longrightarrow>
       td_landing_target td' = calculateLandingTarget F (td_config td) g (td_landing_target td)"
proof -
  obtain tt n1 where o: "removeOldTags clk (td_tagTracker td) n = (tt, n1)" by fastforce
  have inv1: "tt_inv tt" using removeOldTags_ok(1) [OF inv, of clk n] o by simp
  define td1 where "td1 = td\<lparr>td_tagTracker := tt, td_nbr_of_tags_detected := of_nat (length ds)\<rparr>"
  have nb: "take (unat (td_nbr_of_tags_detected td1)) ds = frame_dets ds"
    by (simp add: td1_def frame_dets_def unat_of_nat take_bit_nat_def)
  have "tt_inv (td_tagTracker td1)" using inv1 by (simp add: td1_def)
  from detect_steps_ok [OF this, of clk junk False n1 "frame_dets ds" "td_targetTagId td"]
  obtain td2 tag n2 where s: "foldl (detect_step clk) (td1, junk, False, n1) (frame_dets ds) =
      (td2, tag, sees (td_targetTagId td) ds, n2)"
    "same_td td1 td2" "tt_inv (td_tagTracker td2)"
    "frame_dets ds \<noteq> [] \<Longrightarrow> det_tag (last (frame_dets ds)) (fst (getTag (td_tagTracker td2) (td_targetTagId td) tag))"
    by (auto simp: sees_def td1_def)
  define lk where "lk = fst (lock_update (td_tagLock td) (sees (td_targetTagId td) ds))"
  have lk: "lock_update (td_tagLock td2) (sees (td_targetTagId td) ds) = (lk, lock_hasLock lk)"
    using s(2) by (simp add: same_td_def td1_def lk_def lock_update_def Let_def)
  define g where "g = fst (getTag (td_tagTracker td2) (td_targetTagId td) tag)"
  define td3 where "td3 = td2\<lparr>td_tagLock := lk\<rparr>"
  have f: "td_targetTagId td3 = td_targetTagId td" "td_config td3 = td_config td" "td_landing_target td3 = td_landing_target td"
    "td_tagTracker td3 = td_tagTracker td2" "td_tagLock td3 = lk"
    using s(2) by (simp_all add: td3_def td1_def same_td_def)
  define td' where "td' = (if lock_hasLock lk
    then td3\<lparr>td_landing_target := calculateLandingTarget F (td_config td) g (td_landing_target td)\<rparr> else td3)"
  have run: "detectTagsInImage F clk junk td ds n = (td', n2)"
    unfolding detectTagsInImage_def Let_def o prod.case td1_def [symmetric] nb s(1) lk td3_def [symmetric]
    using f by (simp add: td'_def getLockedTag_def g_def)
  have same: "calculateLandingTarget F dc t lt = calculateLandingTarget F dc u lt" if "det_tag d t" "det_tag d u" for dc t u lt d
    using that by (simp add: calculateLandingTarget_def det_tag_def)
  show thesis
  proof (rule that [OF run])
    show "tt_inv (td_tagTracker td')" "td_targetTagId td' = td_targetTagId td" "td_config td' = td_config td"
      using s(3) f by (simp_all add: td'_def)
    show "td_tagLock td' = fst (lock_update (td_tagLock td) (sees (td_targetTagId td) ds))"
      using f by (simp add: td'_def lk_def)
    show "td_landing_target td' \<noteq> td_landing_target td \<Longrightarrow> td_hasLock td'"
      using f by (simp add: td'_def td_hasLock_def split: if_splits)
    fix g' assume "td_hasLock td'" "frame_dets ds \<noteq> []" "det_tag (last (frame_dets ds)) g'"
    then show "td_landing_target td' = calculateLandingTarget F (td_config td) g' (td_landing_target td)"
      using same [OF s(4), of g'] f by (simp add: td'_def td_hasLock_def g_def split: if_splits)
  qed
qed

fun td_frames :: "'f fpu \<Rightarrow> clock \<Rightarrow> ('f tag_t \<times> 'f detection list) list \<Rightarrow> 'f target_detector \<times> nat \<Rightarrow> 'f target_detector \<times> nat" where
  "td_frames F clk [] s = s"
| "td_frames F clk ((junk, ds) # fs) (td, n) = td_frames F clk fs (detectTagsInImage F clk junk td ds n)"

lemma td_frames_ok:
  assumes "tt_inv (td_tagTracker td)"
  shows "\<exists>td' n'. td_frames F clk fs (td, n) = (td', n') \<and> tt_inv (td_tagTracker td') \<and>
    td_tagLock td' = lock_frames (td_tagLock td) (map (\<lambda>(junk, ds). sees (td_targetTagId td) ds) fs)"
  using assms
proof (induction fs arbitrary: td n)
  case Nil
  then show ?case by (simp add: lock_frames_def)
next
  case (Cons jd fs)
  obtain junk ds where jd: "jd = (junk, ds)" by (cases jd)
  obtain td1 n1 where d: "detectTagsInImage F clk junk td ds n = (td1, n1)" "tt_inv (td_tagTracker td1)"
    "td_tagLock td1 = fst (lock_update (td_tagLock td) (sees (td_targetTagId td) ds))" "td_targetTagId td1 = td_targetTagId td"
    by (rule detectTagsInImage_ok [OF Cons.prems, of F clk junk ds n]) (rule that)
  from Cons.IH [OF d(2), of n1] show ?case using d by (auto simp: jd lock_frames_def)
qed

subsection \<open>The landing target in exact arithmetic\<close>

definition real_fpu :: "real fpu" where
  "real_fpu = \<lparr>f_int = of_int, f_dec = (\<lambda>m e. of_int m * 10 powr of_int e), f_single = (\<lambda>x. x),
     f_add = (+), f_sub = (-), f_mul = (*), f_div = (/), f_sqrt = sqrt, f_tan = tan, f_pow = (\<lambda>x n. x ^ nat n)\<rparr>"

lemma arctan_le_5:
  assumes "0 \<le> x"
  shows "arctan x \<le> x - x ^ 3 / 3 + x ^ 5 / 5"
proof -
  have "0 - 0 ^ 3 / 3 + 0 ^ 5 / 5 - arctan 0 \<le> x - x ^ 3 / 3 + x ^ 5 / 5 - arctan x"
  proof (rule DERIV_nonneg_imp_nondecreasing [OF assms])
    fix t :: real
    have "((\<lambda>t. t - t ^ 3 / 3 + t ^ 5 / 5 - arctan t) has_real_derivative 1 - t\<^sup>2 + t ^ 4 - inverse (1 + t\<^sup>2)) (at t)"
      by (auto intro!: derivative_eq_intros)
    moreover have "1 - t\<^sup>2 + t ^ 4 - inverse (1 + t\<^sup>2) = t ^ 6 / (1 + t\<^sup>2)"
    proof -
      have "1 + t\<^sup>2 > 0" by (simp add: add_pos_nonneg)
      then show ?thesis by (simp add: field_simps power2_eq_square power_numeral_reduce)
    qed
    moreover have "0 \<le> t ^ 6 / (1 + t\<^sup>2)" by (simp add: zero_le_even_power)
    ultimately show "\<exists>y. ((\<lambda>t. t - t ^ 3 / 3 + t ^ 5 / 5 - arctan t) has_real_derivative y) (at t) \<and> 0 \<le> y"
      by (intro exI [of _ "1 - t\<^sup>2 + t ^ 4 - inverse (1 + t\<^sup>2)"] conjI) (simp_all only:)
  qed
  then show ?thesis by simp
qed

lemma arctan_ge_3:
  assumes "0 \<le> x"
  shows "x - x ^ 3 / 3 \<le> arctan x"
proof -
  have "arctan 0 - 0 + 0 ^ 3 / 3 \<le> arctan x - x + x ^ 3 / 3"
  proof (rule DERIV_nonneg_imp_nondecreasing [OF assms])
    fix t :: real
    have "((\<lambda>t. arctan t - t + t ^ 3 / 3) has_real_derivative inverse (1 + t\<^sup>2) - 1 + t\<^sup>2) (at t)"
      by (auto intro!: derivative_eq_intros)
    moreover have "inverse (1 + t\<^sup>2) - 1 + t\<^sup>2 = t ^ 4 / (1 + t\<^sup>2)"
    proof -
      have "1 + t\<^sup>2 > 0" by (simp add: add_pos_nonneg)
      then show ?thesis by (simp add: field_simps power2_eq_square power_numeral_reduce)
    qed
    moreover have "0 \<le> t ^ 4 / (1 + t\<^sup>2)" by (simp add: zero_le_even_power)
    ultimately show "\<exists>y. ((\<lambda>t. arctan t - t + t ^ 3 / 3) has_real_derivative y) (at t) \<and> 0 \<le> y"
      by (intro exI [of _ "inverse (1 + t\<^sup>2) - 1 + t\<^sup>2"] conjI) (simp_all only:)
  qed
  then show ?thesis by simp
qed

lemma arctan_le_self: "0 \<le> x \<Longrightarrow> x \<le> 1 \<Longrightarrow> arctan x \<le> x"
proof -
  assume x: "0 \<le> x" "x \<le> 1"
  then have "x ^ 5 \<le> x ^ 3" by (intro power_decreasing) auto
  moreover have "0 \<le> x ^ 3" using x(1) by (rule zero_le_power)
  ultimately show ?thesis using arctan_le_5 [OF x(1)] by linarith
qed

lemma pi_bounds: "3 < pi" "pi < 22 / 7"
proof -
  have m: "pi = 16 * arctan (1 / 5) - 4 * arctan (1 / 239)" using machin by simp
  have a: "1 / 5 - (1 / 5) ^ 3 / 3 \<le> arctan (1 / 5)" "arctan (1 / 5) \<le> 1 / 5 - (1 / 5) ^ 3 / 3 + (1 / 5) ^ 5 / 5"
    by (rule arctan_ge_3 arctan_le_5; simp)+
  have b: "1 / 239 - (1 / 239) ^ 3 / 3 \<le> arctan (1 / 239)" "arctan (1 / 239) \<le> 1 / 239"
    by (rule arctan_ge_3 arctan_le_self; simp)+
  show "3 < pi" using m a b by (simp add: power_numeral_reduce)
  show "pi < 22 / 7" using m a b by (simp add: power_numeral_reduce)
qed

lemma tan_33_neg: "tan 33 < (0 :: real)"
proof -
  have "tan (33 - 11 * pi) < 0"
    using pi_bounds by (intro tan_less_zero) auto
  moreover have "tan (33 - 11 * pi + of_int 11 * pi) = tan (33 - 11 * pi)" by (rule tan_periodic_int)
  ultimately show ?thesis by simp
qed

subsection \<open>Properties\<close>

text \<open>C4: After any sequence of camera frames from power-up, the detector holds at most ten tags with distinct
  identifiers, and it reports a lock exactly when the target tag was seen in at least five frames of
  a stretch of recent frames in which it was never missed twice in a row.\<close>

theorem detector_lock_correct:
  assumes "length (tt_tags (td_tagTracker mem)) = MAX_TAGS" "hl_okFrames (td_tagLock mem) = 0" "length fs < 2 ^ 32"
  shows "\<exists>td n'. td_frames F clk fs (TargetDetector_new mem, n) = (td, n') \<and>
    (td_hasLock td \<longleftrightarrow> locked_on 5 2 (map (\<lambda>(junk, ds). sees 0 ds) fs)) \<and>
    length (fst (getTagsDetected td)) \<le> 10 \<and> distinct (map tag_id (fst (getTagsDetected td)))"
proof -
  let ?td = "TargetDetector_new mem"
  have new: "td_tagTracker ?td = TagTracker (tt_tags (td_tagTracker mem))" "td_targetTagId ?td = 0"
    "td_tagLock ?td = HysteresisLock 5 2 0"
    using assms(2) by (simp_all add: TargetDetector_new_def)
  have "tt_inv (td_tagTracker ?td)"
    using assms(1) by (simp add: new tt_inv_def TagTracker_def tracked_def)
  from td_frames_ok [OF this, of F clk fs n] obtain td n' where
    r: "td_frames F clk fs (?td, n) = (td, n')" "tt_inv (td_tagTracker td)"
      "td_tagLock td = lock_frames (HysteresisLock 5 2 0) (map (\<lambda>(junk, ds). sees 0 ds) fs)"
    unfolding new by blast
  have "length (map (\<lambda>(junk, ds). sees 0 ds) fs) < 2 ^ 32" using assms(3) by simp
  from lock_meaning [OF this, of 2 5] have "td_hasLock td \<longleftrightarrow> locked_on 5 2 (map (\<lambda>(junk, ds). sees 0 ds) fs)"
    by (simp add: td_hasLock_def r(3))
  moreover have "fst (getTagsDetected td) = tracked (td_tagTracker td)" by (simp add: getTagsDetected_def tracked_def Let_def)
  ultimately show ?thesis
    using r(1,2) length_tracked [OF r(2)] by (auto simp: tt_inv_def MAX_TAGS_def)
qed

definition blank_detector :: "real target_detector" where
  "blank_detector =
    (let z = \<lparr>px = 0, py = 0\<rparr> in
     \<lparr>td_config = \<lparr>dc_img_width = 0, dc_img_height = 0, dc_camera_fov = 0\<rparr>, td_nbr_of_tags_detected = 0,
      td_landing_target = \<lparr>lt_angle_x = 0, lt_angle_y = 0, lt_distance = 0, lt_size_x = 0, lt_size_y = 0, lt_id = 0\<rparr>,
      td_targetTagId = 0, td_tagLock = HysteresisLock 0 0 0,
      td_tagTracker = TagTracker (replicate 10 \<lparr>tag_id = 0, tag_lastSeen = 0, tag_center = z, tag_p = [z, z, z, z]\<rparr>)\<rparr>)"

definition two_frames :: "(real tag_t \<times> real detection list) list" where
  "two_frames = (let junk = hd (tt_tags (td_tagTracker blank_detector)) in
     [(junk, []), (junk, [\<lparr>det_id = 0, det_c = \<lparr>px = 1, py = 1\<rparr>, det_p = []\<rparr>])])"

lemma detector_lock_correct_witness:
  "\<exists>td n'. td_frames real_fpu of_nat two_frames (TargetDetector_new blank_detector, 0) = (td, n') \<and>
    (td_hasLock td \<longleftrightarrow> locked_on 5 2 (map (\<lambda>(junk, ds). sees 0 ds) two_frames)) \<and>
    length (fst (getTagsDetected td)) \<le> 10 \<and> distinct (map tag_id (fst (getTagsDetected td)))"
  by (rule detector_lock_correct)
    (simp_all add: blank_detector_def HysteresisLock_def TagTracker_def MAX_TAGS_def Let_def two_frames_def)

text \<open>C25: Old tags are removed exactly when more than 500 ms have passed since they were seen, also when the
  32-bit millisecond clock has wrapped in between; the others keep their order.\<close>

theorem removeOldTags_correct:
  assumes "tt_inv tt" "\<And>g. g \<in> set (tracked tt) \<Longrightarrow> tag_lastSeen g = of_nat (seen g)"
    "\<And>g. g \<in> set (tracked tt) \<Longrightarrow> seen g \<le> now \<and> now - seen g < 2 ^ 32" "\<And>k. clk k = of_nat now"
  shows "tracked (fst (removeOldTags clk tt n)) = filter (\<lambda>g. now - seen g \<le> 500) (tracked tt) \<and>
    tt_inv (fst (removeOldTags clk tt n))"
proof -
  have "keep_fresh clk n gs = filter (\<lambda>g. now - seen g \<le> 500) gs" if "set gs \<subseteq> set (tracked tt)" for gs
    using that
  proof (induction gs arbitrary: n)
    case (Cons g gs)
    then have g: "g \<in> set (tracked tt)" by simp
    have "clk n - tag_lastSeen g > TIMEOUT_MS \<longleftrightarrow> now - seen g > 500"
      using elapsed_wrap [of "now - seen g" "seen g"] assms(2) [OF g] assms(3) [OF g] assms(4) [of n] by simp
    then show ?case using Cons by auto
  qed simp
  then show ?thesis using removeOldTags_ok [OF assms(1)] by simp
qed

definition aged_tracker :: "real tag_tracker" where
  "aged_tracker = (td_tagTracker blank_detector)\<lparr>tt_tags := (let g = hd (tt_tags (td_tagTracker blank_detector)) in
     [g\<lparr>tag_lastSeen := of_nat 4294967100\<rparr>, g\<lparr>tag_id := 1, tag_lastSeen := of_nat 4294966000\<rparr>] @ replicate 8 g), tt_count := 2\<rparr>"

text \<open>The clock has wrapped: it reads 204 at millisecond 4294967500.\<close>

lemma removeOldTags_correct_witness:
  "tracked (fst (removeOldTags (\<lambda>_. of_nat 4294967500) aged_tracker 0)) =
     filter (\<lambda>g. 4294967500 - (if tag_id g = 0 then 4294967100 else 4294966000) \<le> (500 :: nat)) (tracked aged_tracker) \<and>
   tt_inv (fst (removeOldTags (\<lambda>_. of_nat 4294967500) aged_tracker 0))"
  by (rule removeOldTags_correct)
    (auto simp: aged_tracker_def blank_detector_def TagTracker_def Let_def tt_inv_def MAX_TAGS_def tracked_def)

text \<open>While the detector has a lock, the landing target of a frame with detections is computed from the
  last detection of the frame, whatever its identifier, and not from the tag the lock is on:
  \<open>getTag\<close> looks up the identifier of the local tag it is passed instead of its argument.\<close>

lemma landing_target_from_last:
  assumes "tt_inv (td_tagTracker td)" "detectTagsInImage F clk junk td ds n = (td', n')" "td_hasLock td'"
    "frame_dets ds \<noteq> []" "det_tag (last (frame_dets ds)) g"
  shows "td_landing_target td' = calculateLandingTarget F (td_config td) g (td_landing_target td)"
proof -
  obtain td2 n2 where d: "detectTagsInImage F clk junk td ds n = (td2, n2)"
    "\<And>g. td_hasLock td2 \<Longrightarrow> frame_dets ds \<noteq> [] \<Longrightarrow> det_tag (last (frame_dets ds)) g \<Longrightarrow>
       td_landing_target td2 = calculateLandingTarget F (td_config td) g (td_landing_target td)"
    by (rule detectTagsInImage_ok [OF assms(1), of F clk junk ds n]) (rule that)
  then show ?thesis using assms(2-5) by simp
qed

text \<open>A detector with a lock on tag 0 that sees tag 0 and then tag 7.\<close>

definition seven_frame :: "real detection list" where
  "seven_frame = [\<lparr>det_id = 0, det_c = \<lparr>px = 160, py = 120\<rparr>, det_p = []\<rparr>,
                  \<lparr>det_id = 7, det_c = \<lparr>px = 10, py = 20\<rparr>, det_p = []\<rparr>]"

definition locked_detector :: "real target_detector" where
  "locked_detector = (TargetDetector_new blank_detector)\<lparr>td_tagLock := HysteresisLock 5 2 6\<rparr>"

lemma landing_target_of_seven:
  "\<exists>td' n' g. detectTagsInImage real_fpu of_nat (hd (tt_tags (td_tagTracker blank_detector))) locked_detector seven_frame 0 = (td', n') \<and>
    tag_id g = 7 \<and> tag_center g = \<lparr>px = 10, py = 20\<rparr> \<and>
    td_landing_target td' = calculateLandingTarget real_fpu (td_config locked_detector) g (td_landing_target locked_detector)"
proof -
  let ?j = "hd (tt_tags (td_tagTracker blank_detector))" and ?td = locked_detector
  have inv: "tt_inv (td_tagTracker ?td)"
    by (simp add: locked_detector_def TargetDetector_new_def blank_detector_def TagTracker_def Let_def tt_inv_def MAX_TAGS_def tracked_def)
  obtain td' n' where d: "detectTagsInImage real_fpu of_nat ?j ?td seven_frame 0 = (td', n')"
    "td_tagLock td' = fst (lock_update (td_tagLock ?td) (sees (td_targetTagId ?td) seven_frame))"
    by (rule detectTagsInImage_ok [OF inv, of real_fpu of_nat ?j seven_frame 0]) (rule that)
  have lock: "td_hasLock td'"
    by (simp add: td_hasLock_def d(2) lock_update_def lock_hasLock_def Let_def locked_detector_def HysteresisLock_def sees_def
        seven_frame_def frame_dets_def TargetDetector_new_def)
  let ?g = "?j\<lparr>tag_id := 7, tag_center := \<lparr>px = 10, py = 20\<rparr>, tag_p := []\<rparr>"
  have "td_landing_target td' = calculateLandingTarget real_fpu (td_config ?td) ?g (td_landing_target ?td)"
    by (rule landing_target_from_last [OF inv d(1) lock]) (simp_all add: seven_frame_def frame_dets_def det_tag_def)
  then show ?thesis using d(1) by (intro exI [of _ td'] exI [of _ n'] exI [of _ ?g]) simp
qed

text \<open>C38: In exact arithmetic, with the field of view of 66 degrees the camera reports, a tag inside the image gets
  offset angles between -33 and 33 that vanish at the centre, but the distance computed for every
  tag is negative: the tangent is taken of degrees as if they were radians.\<close>

theorem landing_target_exact:
  assumes "0 < dc_img_width dc" "0 < dc_img_height dc" "dc_camera_fov dc = 66"
    "0 \<le> px (tag_center g)" "px (tag_center g) \<le> of_int (uint (dc_img_width dc))"
    "0 \<le> py (tag_center g)" "py (tag_center g) \<le> of_int (uint (dc_img_height dc))"
    "px (tag_p g ! 0) \<noteq> px (tag_p g ! 1) \<or> py (tag_p g ! 0) \<noteq> py (tag_p g ! 1)"
    "lt = calculateLandingTarget real_fpu dc g lt0"
  shows "\<bar>lt_angle_x lt\<bar> \<le> 33 \<and> \<bar>lt_angle_y lt\<bar> \<le> 33 \<and>
    (lt_angle_x lt = 0 \<longleftrightarrow> px (tag_center g) = of_int (uint (dc_img_width dc)) / 2) \<and>
    (lt_angle_y lt = 0 \<longleftrightarrow> py (tag_center g) = of_int (uint (dc_img_height dc)) / 2) \<and> lt_distance lt < 0"
proof -
  let ?w = "of_int (uint (dc_img_width dc)) :: real" and ?h = "of_int (uint (dc_img_height dc)) :: real"
  have "0 < uint (dc_img_width dc)" "0 < uint (dc_img_height dc)" using assms(1,2) by (simp_all add: word_less_def)
  then have wh: "0 < ?w" "0 < ?h" by (simp_all only: of_int_0_less_iff)
  have ang: "\<bar>(x - w / 2) / (w / 2) * 33\<bar> \<le> 33 \<and> ((x - w / 2) / (w / 2) * 33 = 0 \<longleftrightarrow> x = w / 2)"
    if "0 < w" "0 \<le> x" "x \<le> w" for x w :: real
  proof -
    have le: "\<bar>x - w / 2\<bar> \<le> w / 2" using that by linarith
    have "0 < w / 2" using that(1) by simp
    then have "\<bar>(x - w / 2) / (w / 2)\<bar> \<le> 1" using le by (simp only: abs_divide abs_of_pos divide_le_eq_1_pos)
    then have "\<bar>(x - w / 2) / (w / 2)\<bar> * 33 \<le> 1 * 33" by (rule mult_right_mono) simp
    then have "\<bar>(x - w / 2) / (w / 2) * 33\<bar> \<le> 33" by (simp only: abs_mult abs_numeral mult_1)
    moreover have "(x - w / 2) / (w / 2) * 33 = 0 \<longleftrightarrow> x = w / 2" using that(1) by (auto simp: field_simps)
    ultimately show ?thesis by blast
  qed
  have fov: "of_int (uint (dc_camera_fov dc)) / 2 = (33 :: real)" by (simp add: assms(3))
  have "lt_angle_x lt = (px (tag_center g) - ?w / 2) / (?w / 2) * (of_int (uint (dc_camera_fov dc)) / 2)"
    "lt_angle_y lt = (py (tag_center g) - ?h / 2) / (?h / 2) * (of_int (uint (dc_camera_fov dc)) / 2)"
    by (simp_all add: assms(9) calculateLandingTarget_def Let_def real_fpu_def)
  then have lx: "lt_angle_x lt = (px (tag_center g) - ?w / 2) / (?w / 2) * 33"
    and ly: "lt_angle_y lt = (py (tag_center g) - ?h / 2) / (?h / 2) * 33" by (simp_all only: fov)
  define s where "s = sqrt ((px (tag_p g ! 1) - px (tag_p g ! 0)) ^ 2 + (py (tag_p g ! 1) - py (tag_p g ! 0)) ^ 2)"
  have "0 < s"
    using assms(8) by (auto simp: s_def sum_power2_gt_zero_iff)
  have dec: "of_int 1 * 10 powr of_int (- 1) = (1 / 10 :: real)" by (simp add: powr_minus)
  have "lt_distance lt = of_int 1 * 10 powr of_int (- 1) * (?w / 2 / tan (of_int (uint (dc_camera_fov dc)) / 2)) / s"
    unfolding assms(9) calculateLandingTarget_def Let_def real_fpu_def s_def by simp
  then have "lt_distance lt = 1 / 10 * (?w / 2 / tan 33) / s" by (simp only: dec fov)
  moreover have "1 / 10 * (?w / 2 / tan 33) / s < 0"
  proof (rule divide_neg_pos [OF mult_pos_neg \<open>0 < s\<close>])
    show "?w / 2 / tan 33 < 0" by (rule divide_pos_neg [OF _ tan_33_neg]) (use wh(1) in simp)
  qed simp
  ultimately show ?thesis
    unfolding lx ly using ang [OF wh(1) assms(4,5)] ang [OF wh(2) assms(6,7)] by simp
qed

definition vga_config :: "real detector_config" where
  "vga_config = \<lparr>dc_img_width = 320, dc_img_height = 240, dc_camera_fov = 66\<rparr>"

definition seen_tag :: "real tag_t" where
  "seen_tag = \<lparr>tag_id = 0, tag_lastSeen = 0, tag_center = \<lparr>px = 160, py = 60\<rparr>,
     tag_p = [\<lparr>px = 150, py = 50\<rparr>, \<lparr>px = 170, py = 50\<rparr>, \<lparr>px = 170, py = 70\<rparr>, \<lparr>px = 150, py = 70\<rparr>]\<rparr>"

lemma landing_target_exact_witness:
  "\<exists>lt. lt = calculateLandingTarget real_fpu vga_config seen_tag (td_landing_target blank_detector) \<and>
    \<bar>lt_angle_x lt\<bar> \<le> 33 \<and> \<bar>lt_angle_y lt\<bar> \<le> 33 \<and>
    (lt_angle_x lt = 0 \<longleftrightarrow> px (tag_center seen_tag) = of_int (uint (dc_img_width vga_config)) / 2) \<and>
    (lt_angle_y lt = 0 \<longleftrightarrow> py (tag_center seen_tag) = of_int (uint (dc_img_height vga_config)) / 2) \<and> lt_distance lt < 0"
  by (rule exI, rule conjI [OF refl], rule landing_target_exact [OF _ _ _ _ _ _ _ _ refl])
    (simp_all add: vga_config_def seen_tag_def)

end
