(* ===== verification/Detections.thy ===== *)
theory Detections
  imports TargetDetector ZArray
begin

text \<open>
  The last step of \<open>apriltag_detector_detect\<close> in \<open>apriltag.c\<close>: of overlapping detections of one tag only one is kept. The list
  shrinks while two nested loops walk over it by index; a removed entry is replaced by the last one.
\<close>

text \<open>The structure of the library: also the fields the companion does not read, except for the homography \<open>H\<close>.\<close>

record 'f apriltag_detection = "'f detection" +
  ad_family :: nat
  ad_hamming :: int
  ad_decision_margin :: 'f

text \<open>
  What is used of floats: the order, the negation and the conversion of an \<open>int\<close>; and \<open>g2d_polygon_overlaps_polygon\<close>, which
  computes with floats, on the corners.
\<close>

record 'f float_ops =
  fo_less :: "'f \<Rightarrow> 'f \<Rightarrow> bool"
  fo_neg :: "'f \<Rightarrow> 'f"
  fo_int :: "int \<Rightarrow> 'f"
  fo_overlaps :: "'f point_2f list \<Rightarrow> 'f point_2f list \<Rightarrow> bool"

definition prefer_smaller :: "'f float_ops \<Rightarrow> int \<Rightarrow> 'f \<Rightarrow> 'f \<Rightarrow> int" where
  "prefer_smaller F pref q0 q1 =
     (if pref \<noteq> 0 then pref
      else if fo_less F q0 q1 then - 1
      else if fo_less F q1 q0 then 1
      else 0)"

definition preference :: "'f float_ops \<Rightarrow> 'f apriltag_detection \<Rightarrow> 'f apriltag_detection \<Rightarrow> int" where
  "preference F det0 det1 =
     (let pref = 0;
          pref = prefer_smaller F pref (fo_int F (ad_hamming det0)) (fo_int F (ad_hamming det1));
          pref = prefer_smaller F pref (fo_neg F (ad_decision_margin det0)) (fo_neg F (ad_decision_margin det1))
      in foldl (\<lambda>pref i.
           let pref = prefer_smaller F pref (px (det_p det0 ! i)) (px (det_p det1 ! i))
           in prefer_smaller F pref (py (det_p det0 ! i)) (py (det_p det1 ! i))) pref [0..<4])"

text \<open>The loop over \<open>i1\<close>; the result says whether \<open>det0\<close> was removed.\<close>

function reconcile_inner :: "'f float_ops \<Rightarrow> 'f apriltag_detection list \<Rightarrow> nat \<Rightarrow> nat \<Rightarrow> 'f apriltag_detection list \<times> bool" where
  "reconcile_inner F detections i0 i1 =
     (if i1 < length detections
      then
        let det0 = detections ! i0; det1 = detections ! i1 in
        if det_id det0 \<noteq> det_id det1 \<or> ad_family det0 \<noteq> ad_family det1 then reconcile_inner F detections i0 (i1 + 1)
        else if fo_overlaps F (det_p det0) (det_p det1)
        then
          if preference F det0 det1 < 0 then reconcile_inner F (list_remove detections i1 True) i0 i1
          else (list_remove detections i0 True, True)
        else reconcile_inner F detections i0 (i1 + 1)
      else (detections, False))"
  by auto
termination
  by (relation "measure (\<lambda>(F, detections, i0, i1). length detections - i1)") (auto simp: length_list_remove)

declare reconcile_inner.simps [simp del]

text \<open>Two detections of one tag that overlap, in the order in which the loops compare them.\<close>

definition conflict :: "'f float_ops \<Rightarrow> 'f apriltag_detection \<Rightarrow> 'f apriltag_detection \<Rightarrow> bool" where
  "conflict F a b \<longleftrightarrow> det_id a = det_id b \<and> ad_family a = ad_family b \<and> fo_overlaps F (det_p a) (det_p b)"

lemma inner_steps:
  "\<not> i1 < length ds \<Longrightarrow> reconcile_inner F ds i0 i1 = (ds, False)"
  "i1 < length ds \<Longrightarrow> \<not> conflict F (ds ! i0) (ds ! i1) \<Longrightarrow> reconcile_inner F ds i0 i1 = reconcile_inner F ds i0 (i1 + 1)"
  "i1 < length ds \<Longrightarrow> conflict F (ds ! i0) (ds ! i1) \<Longrightarrow> preference F (ds ! i0) (ds ! i1) < 0 \<Longrightarrow>
    reconcile_inner F ds i0 i1 = reconcile_inner F (list_remove ds i1 True) i0 i1"
  "i1 < length ds \<Longrightarrow> conflict F (ds ! i0) (ds ! i1) \<Longrightarrow> \<not> preference F (ds ! i0) (ds ! i1) < 0 \<Longrightarrow>
    reconcile_inner F ds i0 i1 = (list_remove ds i0 True, True)"
  by (auto simp: reconcile_inner.simps [of F ds i0 i1] conflict_def Let_def)

lemma inner_induct [consumes 1, case_names finish skip drop1 drop0]:
  assumes "i0 < i1"
    and finish: "\<And>ds i1. \<not> i1 < length ds \<Longrightarrow> P ds i1 (ds, False)"
    and skip: "\<And>ds i1. i0 < i1 \<Longrightarrow> i1 < length ds \<Longrightarrow> \<not> conflict F (ds ! i0) (ds ! i1) \<Longrightarrow>
      P ds (i1 + 1) (reconcile_inner F ds i0 (i1 + 1)) \<Longrightarrow> P ds i1 (reconcile_inner F ds i0 (i1 + 1))"
    and drop1: "\<And>ds i1. i0 < i1 \<Longrightarrow> i1 < length ds \<Longrightarrow> conflict F (ds ! i0) (ds ! i1) \<Longrightarrow> preference F (ds ! i0) (ds ! i1) < 0 \<Longrightarrow>
      P (list_remove ds i1 True) i1 (reconcile_inner F (list_remove ds i1 True) i0 i1) \<Longrightarrow>
      P ds i1 (reconcile_inner F (list_remove ds i1 True) i0 i1)"
    and drop0: "\<And>ds i1. i0 < i1 \<Longrightarrow> i1 < length ds \<Longrightarrow> conflict F (ds ! i0) (ds ! i1) \<Longrightarrow> \<not> preference F (ds ! i0) (ds ! i1) < 0 \<Longrightarrow>
      P ds i1 (list_remove ds i0 True, True)"
  shows "P ds i1 (reconcile_inner F ds i0 i1)"
  using assms(1)
proof (induction "length ds - i1" arbitrary: ds i1 rule: less_induct)
  case less
  consider "\<not> i1 < length ds" | "i1 < length ds" "\<not> conflict F (ds ! i0) (ds ! i1)"
    | "i1 < length ds" "conflict F (ds ! i0) (ds ! i1)" "preference F (ds ! i0) (ds ! i1) < 0"
    | "i1 < length ds" "conflict F (ds ! i0) (ds ! i1)" "\<not> preference F (ds ! i0) (ds ! i1) < 0" by blast
  then show ?case
  proof cases
    case 1
    then show ?thesis using finish by (simp add: inner_steps)
  next
    case 2
    have "P ds (i1 + 1) (reconcile_inner F ds i0 (i1 + 1))" using 2 less.prems by (intro less.hyps) simp_all
    from skip [OF less.prems 2 this] show ?thesis unfolding inner_steps(2) [OF 2] .
  next
    case 3
    have "P (list_remove ds i1 True) i1 (reconcile_inner F (list_remove ds i1 True) i0 i1)"
      using 3(1) less.prems by (intro less.hyps) (simp_all add: length_list_remove)
    from drop1 [OF less.prems 3 this] show ?thesis unfolding inner_steps(3) [OF 3] .
  next
    case 4
    from drop0 [OF less.prems 4] show ?thesis unfolding inner_steps(4) [OF 4] .
  qed
qed

lemma inner_length:
  assumes "i0 < i1"
  shows "length (fst (reconcile_inner F ds i0 i1)) + (if snd (reconcile_inner F ds i0 i1) then 1 else 0) \<le> length ds"
  using assms
  by (induction rule: inner_induct [where P = "\<lambda>ds i1 r. length (fst r) + (if snd r then 1 else 0) \<le> length ds"])
    (simp_all add: length_list_remove)

text \<open>The loop over \<open>i0\<close>.\<close>

function reconcile_from :: "'f float_ops \<Rightarrow> 'f apriltag_detection list \<Rightarrow> nat \<Rightarrow> 'f apriltag_detection list" where
  "reconcile_from F detections i0 =
     (if i0 < length detections
      then
        let r = reconcile_inner F detections i0 (i0 + 1)
        in reconcile_from F (fst r) (if snd r then i0 else i0 + 1)
      else detections)"
  by auto
termination
proof (relation "measure (\<lambda>(F, detections, i0). length detections - i0)"; clarify?)
  fix F :: "'f float_ops" and ds i0 r assume "i0 < length ds" "r = reconcile_inner F ds i0 (i0 + 1)"
  then show "((F, fst r, if snd r then i0 else i0 + 1), F, ds, i0) \<in> measure (\<lambda>(F, detections, i0). length detections - i0)"
    using inner_length [of i0 "i0 + 1" F ds] by (auto split: if_splits)
qed

declare reconcile_from.simps [simp del]

definition reconcile :: "'f float_ops \<Rightarrow> 'f apriltag_detection list \<Rightarrow> 'f apriltag_detection list" where
  "reconcile F detections = reconcile_from F detections 0"

subsection \<open>What the loops keep\<close>

lemma nth_list_remove:
  assumes "i < length xs" "j < length xs - 1"
  shows "list_remove xs i True ! j = (if j = i then last xs else xs ! j)"
  using assms by (simp add: list_remove_def nth_butlast nth_list_update)

text \<open>The entries before \<open>n\<close> conflict with nothing behind them.\<close>

definition clean :: "'f float_ops \<Rightarrow> nat \<Rightarrow> 'f apriltag_detection list \<Rightarrow> bool" where
  "clean F n ds \<longleftrightarrow> (\<forall>a b. a < n \<longrightarrow> a < b \<longrightarrow> b < length ds \<longrightarrow> \<not> conflict F (ds ! a) (ds ! b))"

lemma clean_remove:
  assumes "clean F n ds" "n \<le> i" "i < length ds"
  shows "clean F n (list_remove ds i True)"
proof -
  have "\<not> conflict F (list_remove ds i True ! a) (list_remove ds i True ! b)" if ab: "a < n" "a < b" "b < length ds - 1" for a b
  proof -
    have l: "last ds = ds ! (length ds - 1)" using assms(3) by (intro last_conv_nth) auto
    have na: "list_remove ds i True ! a = ds ! a" using ab assms by (simp add: nth_list_remove)
    have no: "\<not> conflict F (ds ! a) (ds ! c)" if "a < c" "c < length ds" for c
      using assms(1) ab(1) that unfolding clean_def by blast
    show ?thesis
    proof (cases "b = i")
      case True
      then have "list_remove ds i True ! b = ds ! (length ds - 1)" using ab assms(3) l by (simp add: nth_list_remove)
      then show ?thesis using na no [of "length ds - 1"] ab by simp
    next
      case False
      then have "list_remove ds i True ! b = ds ! b" using ab assms(3) by (simp add: nth_list_remove)
      then show ?thesis using na no [of b] ab by simp
    qed
  qed
  then show ?thesis using assms(3) by (auto simp: clean_def length_list_remove)
qed

text \<open>
  \<open>e\<close> was preferred to \<open>d\<close> when the two were compared; \<open>lost\<close> collects the entries that are gone.
\<close>

definition beaten :: "'f float_ops \<Rightarrow> 'f apriltag_detection \<Rightarrow> 'f apriltag_detection \<Rightarrow> bool" where
  "beaten F d e \<longleftrightarrow> conflict F e d \<and> preference F e d < 0 \<or> conflict F d e \<and> \<not> preference F d e < 0"

text \<open>One list comes from another by removing beaten entries while the ones that beat them are there.\<close>

inductive shrinks :: "'f float_ops \<Rightarrow> 'f apriltag_detection list \<Rightarrow> 'f apriltag_detection list \<Rightarrow> bool" for F where
  shrinks_refl: "shrinks F ds ds"
| shrinks_remove: "\<lbrakk>shrinks F (list_remove ds i True) es; i < length ds; j < length ds; i \<noteq> j; beaten F (ds ! i) (ds ! j)\<rbrakk> \<Longrightarrow> shrinks F ds es"

lemma shrinks_trans: "shrinks F ds es \<Longrightarrow> shrinks F es fs \<Longrightarrow> shrinks F ds fs"
  by (induction rule: shrinks.induct) (auto intro: shrinks_remove)

definition scanned :: "'f float_ops \<Rightarrow> nat \<Rightarrow> nat \<Rightarrow> 'f apriltag_detection list \<Rightarrow> bool" where
  "scanned F i0 i1 ds \<longleftrightarrow> clean F i0 ds \<and> i0 < length ds \<and> (\<forall>b. i0 < b \<longrightarrow> b < i1 \<longrightarrow> b < length ds \<longrightarrow> \<not> conflict F (ds ! i0) (ds ! b))"

lemma inner_ok:
  assumes "i0 < i1"
  shows "scanned F i0 i1 ds \<longrightarrow> shrinks F ds (fst (reconcile_inner F ds i0 i1)) \<and>
    clean F (if snd (reconcile_inner F ds i0 i1) then i0 else i0 + 1) (fst (reconcile_inner F ds i0 i1))"
  using assms
proof (induction rule: inner_induct [where P = "\<lambda>ds i1 r. scanned F i0 i1 ds \<longrightarrow>
    shrinks F ds (fst r) \<and> clean F (if snd r then i0 else i0 + 1) (fst r)"])
  case (finish ds i1)
  then show ?case by (auto simp: scanned_def clean_def less_Suc_eq intro: shrinks_refl)
next
  case (skip ds i1)
  have "scanned F i0 i1 ds \<longrightarrow> scanned F i0 (i1 + 1) ds" using skip by (auto simp: scanned_def less_Suc_eq)
  then show ?case using skip.IH by blast
next
  case (drop1 ds i1)
  have h: "i0 < i1" "i1 < length ds" "conflict F (ds ! i0) (ds ! i1)" "preference F (ds ! i0) (ds ! i1) < 0" using drop1 by simp_all
  let ?ds = "list_remove ds i1 True"
  have l: "length ?ds = length ds - 1" using h(2) by (rule length_list_remove)
  have "scanned F i0 i1 ?ds" if s: "scanned F i0 i1 ds"
  proof -
    have "\<not> conflict F (?ds ! i0) (?ds ! b)" if b: "i0 < b" "b < i1" "b < length ?ds" for b
      using s b l h(1,2) by (simp add: nth_list_remove scanned_def)
    moreover have "clean F i0 ?ds" using s h(1,2) unfolding scanned_def by (intro clean_remove) simp_all
    moreover have "i0 < length ?ds" using h(1,2) l by linarith
    ultimately show ?thesis unfolding scanned_def by blast
  qed
  moreover have "shrinks F ds es" if "shrinks F ?ds es" "scanned F i0 i1 ds" for es
    using that h by (intro shrinks_remove [OF that(1) h(2), of i0]) (simp_all add: beaten_def scanned_def)
  ultimately show ?case using drop1.IH by blast
next
  case (drop0 ds i1)
  have h: "i0 < i1" "i1 < length ds" "conflict F (ds ! i0) (ds ! i1)" "\<not> preference F (ds ! i0) (ds ! i1) < 0" using drop0 by simp_all
  have "shrinks F ds (list_remove ds i0 True)" if "i0 < length ds"
    using that h by (intro shrinks_remove [OF shrinks_refl that h(2)]) (simp_all add: beaten_def)
  moreover have "clean F i0 ds \<Longrightarrow> i0 < length ds \<Longrightarrow> clean F i0 (list_remove ds i0 True)" by (intro clean_remove) simp_all
  ultimately show ?case by (simp add: scanned_def)
qed

lemma from_ok: "clean F i0 ds \<Longrightarrow> shrinks F ds (reconcile_from F ds i0) \<and> clean F (length (reconcile_from F ds i0)) (reconcile_from F ds i0)"
proof (induction F ds i0 rule: reconcile_from.induct)
  case (1 F ds i0)
  show ?case
  proof (cases "i0 < length ds")
    case True
    let ?r = "reconcile_inner F ds i0 (i0 + 1)"
    have "scanned F i0 (i0 + 1) ds" using 1(2) True by (auto simp: scanned_def)
    then have r: "shrinks F ds (fst ?r)" "clean F (if snd ?r then i0 else i0 + 1) (fst ?r)" using inner_ok [of i0 "i0 + 1" F ds] by auto
    have e: "reconcile_from F ds i0 = reconcile_from F (fst ?r) (if snd ?r then i0 else i0 + 1)"
      using True by (subst reconcile_from.simps) (simp add: Let_def)
    show ?thesis unfolding e using 1(1) [OF True refl r(2)] shrinks_trans [OF r(1)] by blast
  next
    case False
    then have "reconcile_from F ds i0 = ds" by (subst reconcile_from.simps) simp
    then show ?thesis using 1(2) False by (auto simp: clean_def intro: shrinks_refl)
  qed
qed

subsection \<open>What is kept of the detections\<close>

definition tag_of :: "'f apriltag_detection \<Rightarrow> nat \<times> int" where
  "tag_of d = (ad_family d, det_id d)"

lemma beaten_tag: "beaten F d e \<Longrightarrow> tag_of e = tag_of d"
  by (auto simp: beaten_def conflict_def tag_of_def)

lemma removed_other:
  assumes "i < length ds" "j < length ds" "i \<noteq> j"
  shows "ds ! j \<in> set (list_remove ds i True)"
proof -
  define k where "k = (if j = length ds - 1 then i else j)"
  have k: "k < length ds - 1" using assms by (auto simp: k_def)
  have "list_remove ds i True ! k = ds ! j"
  proof (cases "j = length ds - 1")
    case True
    have "last ds = ds ! j" unfolding True by (rule last_conv_nth) (use assms in auto)
    then show ?thesis using k assms(1) True by (simp add: nth_list_remove k_def)
  next
    case False
    then show ?thesis using k assms by (simp add: nth_list_remove k_def)
  qed
  then show ?thesis using k assms(1) by (metis length_list_remove nth_mem)
qed

lemma shrinks_mset: "shrinks F ds es \<Longrightarrow> mset es \<subseteq># mset ds"
proof (induction rule: shrinks.induct)
  case (shrinks_remove ds i es j)
  then show ?case using mset_list_remove [of i ds True] by (metis diff_subset_eq_self subset_mset.order_trans)
qed simp

lemma shrinks_tags: "shrinks F ds es \<Longrightarrow> tag_of ` set es = tag_of ` set ds"
proof (induction rule: shrinks.induct)
  case (shrinks_remove ds i es j)
  have "set (list_remove ds i True) \<subseteq> set ds"
    using mset_list_remove [OF shrinks_remove(2), of True] by (metis diff_subset_eq_self set_mset_mono set_mset_mset)
  moreover have "set ds \<subseteq> insert (ds ! i) (set (list_remove ds i True))"
    using mset_list_remove [OF shrinks_remove(2), of True] by (metis insert_DiffM nth_mem set_mset_add_mset_insert set_mset_mset shrinks_remove(2) subset_refl)
  moreover have "tag_of (ds ! i) \<in> tag_of ` set (list_remove ds i True)"
    using removed_other [OF shrinks_remove(2-4)] beaten_tag [OF shrinks_remove(5)] by (metis imageI)
  ultimately have "tag_of ` set (list_remove ds i True) = tag_of ` set ds" by blast
  then show ?case using shrinks_remove by simp
qed simp

lemma shrinks_beaten: "shrinks F ds es \<Longrightarrow> d \<in># mset ds - mset es \<Longrightarrow> \<exists>e \<in># mset ds - {#d#}. beaten F d e"
proof (induction rule: shrinks.induct)
  case (shrinks_remove ds i es j)
  let ?r = "list_remove ds i True"
  have m: "mset ds = add_mset (ds ! i) (mset ?r)" using mset_list_remove [OF shrinks_remove(2), of True] shrinks_remove(2) by simp
  have "mset es \<subseteq># mset ?r" using shrinks_remove(1) by (rule shrinks_mset)
  then have "mset ds - mset es = add_mset (ds ! i) (mset ?r - mset es)" unfolding m
    by (metis add_mset_add_single subset_mset.add_diff_assoc2)
  then consider "d = ds ! i" | "d \<in># mset ?r - mset es" using shrinks_remove.prems by auto
  then show ?case
  proof cases
    case 1
    have "ds ! j \<in># mset ds - {#d#}" using removed_other [OF shrinks_remove.hyps(2-4)] by (simp add: m 1)
    then show ?thesis using shrinks_remove.hyps(5) 1 by blast
  next
    case 2
    from shrinks_remove.IH [OF this] obtain e where "e \<in># mset ?r - {#d#}" "beaten F d e" by blast
    moreover from this(1) have "e \<in># mset ds - {#d#}" unfolding m by (simp add: in_diff_count split: if_splits)
    ultimately show ?thesis by blast
  qed
qed simp

text \<open>Conversion of small integers is exact, so that hamming distances are compared as such.\<close>

definition exact_ints :: "'f float_ops \<Rightarrow> bool" where
  "exact_ints F \<longleftrightarrow> (\<forall>a b. 0 \<le> a \<longrightarrow> a < 256 \<longrightarrow> 0 \<le> b \<longrightarrow> b < 256 \<longrightarrow> fo_less F (fo_int F a) (fo_int F b) = (a < b))"

lemma prefer_done [simp]: "pref \<noteq> 0 \<Longrightarrow> prefer_smaller F pref q0 q1 = pref"
  by (simp add: prefer_smaller_def)

lemma preference_hamming:
  assumes "exact_ints F" "0 \<le> ad_hamming a" "ad_hamming a < 256" "0 \<le> ad_hamming b" "ad_hamming b < 256"
  shows "ad_hamming a < ad_hamming b \<Longrightarrow> preference F a b = - 1" "ad_hamming b < ad_hamming a \<Longrightarrow> preference F a b = 1"
proof -
  have fold: "foldl (\<lambda>pref i. let pref = prefer_smaller F pref (px (det_p a ! i)) (px (det_p b ! i))
      in prefer_smaller F pref (py (det_p a ! i)) (py (det_p b ! i))) pref is = pref" if "pref \<noteq> 0" for pref "is"
    using that by (induction "is") simp_all
  have h: "fo_less F (fo_int F (ad_hamming a)) (fo_int F (ad_hamming b)) = (ad_hamming a < ad_hamming b)"
    "fo_less F (fo_int F (ad_hamming b)) (fo_int F (ad_hamming a)) = (ad_hamming b < ad_hamming a)"
    using assms by (simp_all add: exact_ints_def)
  {
    assume "ad_hamming a < ad_hamming b"
    then have "prefer_smaller F 0 (fo_int F (ad_hamming a)) (fo_int F (ad_hamming b)) = - 1" using h by (simp add: prefer_smaller_def)
    then show "preference F a b = - 1" by (simp add: preference_def Let_def fold [unfolded Let_def])
  next
    assume "ad_hamming b < ad_hamming a"
    then have "prefer_smaller F 0 (fo_int F (ad_hamming a)) (fo_int F (ad_hamming b)) = 1" using h by (simp add: prefer_smaller_def)
    then show "preference F a b = 1" by (simp add: preference_def Let_def fold [unfolded Let_def])
  }
qed

definition hamming_ok :: "'f apriltag_detection \<Rightarrow> bool" where
  "hamming_ok d \<longleftrightarrow> 0 \<le> ad_hamming d \<and> ad_hamming d < 256"

lemma beaten_hamming:
  assumes "exact_ints F" "hamming_ok d" "hamming_ok e" "beaten F d e"
  shows "ad_hamming e \<le> ad_hamming d"
proof (rule ccontr)
  assume "\<not> ad_hamming e \<le> ad_hamming d"
  then have l: "ad_hamming d < ad_hamming e" by simp
  have b: "0 \<le> ad_hamming d" "ad_hamming d < 256" "0 \<le> ad_hamming e" "ad_hamming e < 256"
    using assms(2,3) by (simp_all add: hamming_ok_def)
  have "preference F d e = - 1" by (rule preference_hamming(1) [OF assms(1) b l])
  moreover have "preference F e d = 1" by (rule preference_hamming(2) [OF assms(1) b(3,4,1,2) l])
  ultimately show False using assms(4) by (simp add: beaten_def)
qed

lemma shrinks_hamming:
  assumes "shrinks F ds es" "exact_ints F"
  shows "\<forall>d \<in> set ds. hamming_ok d \<Longrightarrow> d \<in> set ds \<Longrightarrow> \<exists>e \<in> set es. tag_of e = tag_of d \<and> ad_hamming e \<le> ad_hamming d"
  using assms(1)
proof (induction arbitrary: d rule: shrinks.induct)
  case (shrinks_remove ds i es j)
  let ?r = "list_remove ds i True"
  have m: "mset ds = add_mset (ds ! i) (mset ?r)" using mset_list_remove [OF shrinks_remove(2), of True] shrinks_remove(2) by simp
  have s: "set ds = insert (ds ! i) (set ?r)" using arg_cong [OF m, of set_mset] by simp
  have h: "\<forall>d \<in> set ?r. hamming_ok d" using shrinks_remove.prems(1) s by simp
  show ?case
  proof (cases "d \<in> set ?r")
    case True
    from shrinks_remove.IH [OF h True] show ?thesis .
  next
    case False
    then have d: "d = ds ! i" using shrinks_remove.prems(2) s by simp
    have j: "ds ! j \<in> set ?r" by (rule removed_other [OF shrinks_remove.hyps(2-4)])
    obtain e where "e \<in> set es" "tag_of e = tag_of (ds ! j)" "ad_hamming e \<le> ad_hamming (ds ! j)" using shrinks_remove.IH [OF h j] by blast
    moreover have "ad_hamming (ds ! j) \<le> ad_hamming d"
      unfolding d by (rule beaten_hamming [OF assms(2) _ _ shrinks_remove.hyps(5)]) (use shrinks_remove.prems(1) shrinks_remove.hyps(2,3) in simp_all)
    ultimately show ?thesis using beaten_tag [OF shrinks_remove.hyps(5)] d by auto
  qed
qed blast

lemma sees_truncate: "length xs < 256 \<Longrightarrow> sees target (map detection.truncate xs) \<longleftrightarrow> target \<in> (word_of_int \<circ> snd) ` tag_of ` set xs"
  by (auto simp: sees_def frame_dets_def detection.truncate_def tag_of_def image_image)

lemma clean_sorted: "clean F (length ds) ds \<Longrightarrow> sorted_wrt (\<lambda>a b. \<not> conflict F a b) ds"
  by (simp add: clean_def sorted_wrt_iff_nth_less)

lemma reconcile_ok:
  shows "shrinks F ds (reconcile F ds)" "sorted_wrt (\<lambda>a b. \<not> conflict F a b) (reconcile F ds)"
proof -
  have "clean F 0 ds" by (simp add: clean_def)
  then show "shrinks F ds (reconcile F ds)" "sorted_wrt (\<lambda>a b. \<not> conflict F a b) (reconcile F ds)"
    using from_ok clean_sorted unfolding reconcile_def by blast+
qed

subsection \<open>Properties\<close>

text \<open>C14: Of the detections of a frame no two of one tag that overlap are left, those that are left are some of the detections,
  and each one removed was beaten by another entry of the list. No tag is lost: for each a detection with the smallest number of corrected bits
  stays. When fewer than 256 are left, the target is seen exactly when it was detected at all; with 256 the count of
  the companion, a \<open>uint8_t\<close>, is zero and nothing is seen.\<close>

theorem reconcile_correct:
  assumes "exact_ints F" "\<forall>d \<in> set ds. hamming_ok d"
  shows "sorted_wrt (\<lambda>a b. \<not> conflict F a b) (reconcile F ds) \<and> mset (reconcile F ds) \<subseteq># mset ds \<and>
    (\<forall>d. d \<in># mset ds - mset (reconcile F ds) \<longrightarrow> (\<exists>e \<in># mset ds - {#d#}. beaten F d e)) \<and>
    (\<forall>d \<in> set ds. \<exists>e \<in> set (reconcile F ds). tag_of e = tag_of d \<and> ad_hamming e \<le> ad_hamming d) \<and>
    (length (reconcile F ds) < 256 \<longrightarrow> sees target (map detection.truncate (reconcile F ds)) = (\<exists>d \<in> set ds. word_of_int (det_id d) = target)) \<and>
    (length (reconcile F ds) = 256 \<longrightarrow> \<not> sees target (map detection.truncate (reconcile F ds)))"
proof -
  note s = reconcile_ok(1) [of F ds]
  have "sees target (map detection.truncate (reconcile F ds)) = (\<exists>d \<in> set ds. word_of_int (det_id d) = target)" if "length (reconcile F ds) < 256"
    using sees_truncate [OF that] unfolding shrinks_tags [OF s] by (force simp: tag_of_def)
  moreover have "\<not> sees target (map detection.truncate (reconcile F ds))" if "length (reconcile F ds) = 256"
    using that by (simp add: sees_def frame_dets_def)
  ultimately show ?thesis
    using reconcile_ok(2) [of F ds] shrinks_mset [OF s] shrinks_beaten [OF s] shrinks_hamming [OF s assms]
    by (intro conjI allI ballI impI) simp_all
qed

subsection \<open>Witness\<close>

definition int_ops :: "int float_ops" where
  "int_ops = \<lparr>fo_less = (<), fo_neg = uminus, fo_int = id, fo_overlaps = (\<lambda>p q. True)\<rparr>"

definition det :: "int \<Rightarrow> int \<Rightarrow> int \<Rightarrow> int apriltag_detection" where
  "det i h m = \<lparr>det_id = i, det_c = \<lparr>px = 0, py = 0\<rparr>, det_p = replicate 4 \<lparr>px = m, py = 0\<rparr>, ad_family = 1, ad_hamming = h, ad_decision_margin = m\<rparr>"

lemma reconcile_correct_witness:
  "(\<exists>e \<in> set (reconcile int_ops [det 3 1 40, det 5 0 50, det 3 0 60]). tag_of e = (1, 3) \<and> ad_hamming e \<le> 0) \<and>
    sees 3 (map detection.truncate (reconcile int_ops [det 3 1 40, det 5 0 50, det 3 0 60]))"
proof -
  let ?ds = "[det 3 1 40, det 5 0 50, det 3 0 60]"
  have e: "exact_ints int_ops" by (simp add: exact_ints_def int_ops_def)
  have h: "\<forall>d \<in> set ?ds. hamming_ok d" by (simp add: hamming_ok_def det_def)
  note c = reconcile_correct [OF e h, where target = 3]
  note r = c [THEN conjunct2, THEN conjunct1] c [THEN conjunct2, THEN conjunct2, THEN conjunct2, THEN conjunct1]
    c [THEN conjunct2, THEN conjunct2, THEN conjunct2, THEN conjunct2, THEN conjunct1]
  have "length (reconcile int_ops ?ds) < 256" using size_mset_mono [OF r(1)] by simp
  moreover have "det 3 0 60 \<in> set ?ds" "tag_of (det 3 0 60) = (1, 3)" "ad_hamming (det 3 0 60) = 0" "word_of_int (det_id (det 3 0 60)) = (3 :: u16)"
    by (simp_all add: det_def tag_of_def)
  ultimately show ?thesis using r(2,3) by metis
qed

end
