(* ===== verification/PtSort.thy ===== *)
theory PtSort
  imports Prelude "HOL-Library.Multiset"
begin

text \<open>
  \<open>ptsort\<close> of \<open>apriltag_quad_thresh.c\<close>, which orders the boundary points of a cluster by the slope
  of the line to its centre: sorting networks for up to five points, and above that a merge
  sort whose merge loop is unrolled eight times while both halves have more than eight points left.
  Slopes are finite floats, elements of any linear order.
\<close>

text \<open>The coordinates are twice the actual ones; the gradients are signed 16-bit numbers, read by \<open>sint\<close>.\<close>

record 'v pt =
  pt_x :: u16
  pt_y :: u16
  pt_gx :: u16
  pt_gy :: u16
  pt_slope :: 'v

text \<open>The sign of the difference of the slopes, which is all that is used of it.\<close>

definition pt_compare_angle :: "'v::linorder pt \<Rightarrow> 'v pt \<Rightarrow> int" where
  "pt_compare_angle a b =
     (if pt_slope a < pt_slope b then -1 else if pt_slope b < pt_slope a then 1 else 0)"

definition MAYBE_SWAP :: "nat \<Rightarrow> nat \<Rightarrow> 'v::linorder pt list \<Rightarrow> cerr + 'v pt list" where
  "MAYBE_SWAP apos bpos arr =
     bindE (arr_get arr apos) (\<lambda>a.
     bindE (arr_get arr bpos) (\<lambda>b.
     if pt_compare_angle a b > 0
     then bindE (arr_set arr apos b) (\<lambda>arr. arr_set arr bpos a)
     else Inr arr))"

text \<open>A sorting network: its exchanges in order.\<close>

definition network :: "(nat \<times> nat) list \<Rightarrow> 'v::linorder pt list \<Rightarrow> cerr + 'v pt list" where
  "network ps arr = foldE (\<lambda>arr (a, b). MAYBE_SWAP a b arr) ps arr"

text \<open>The state of the merge: the output array and the three positions.\<close>

record 'v merge =
  mg_pts :: "'v pt list"
  mg_apos :: nat
  mg_bpos :: nat
  mg_outpos :: nat

definition MERGE :: "'v::linorder pt list \<Rightarrow> 'v pt list \<Rightarrow> 'v merge \<Rightarrow> cerr + 'v merge" where
  "MERGE as bs m =
     bindE (arr_get as (mg_apos m)) (\<lambda>a.
     bindE (arr_get bs (mg_bpos m)) (\<lambda>b.
     if pt_compare_angle a b < 0
     then bindE (arr_set (mg_pts m) (mg_outpos m) a) (\<lambda>pts.
          Inr (m\<lparr>mg_pts := pts, mg_outpos := mg_outpos m + 1, mg_apos := mg_apos m + 1\<rparr>))
     else bindE (arr_set (mg_pts m) (mg_outpos m) b) (\<lambda>pts.
          Inr (m\<lparr>mg_pts := pts, mg_outpos := mg_outpos m + 1, mg_bpos := mg_bpos m + 1\<rparr>))))"

fun MERGEs :: "nat \<Rightarrow> 'v::linorder pt list \<Rightarrow> 'v pt list \<Rightarrow> 'v merge \<Rightarrow> cerr + 'v merge" where
  "MERGEs 0 as bs m = Inr m"
| "MERGEs (Suc n) as bs m = bindE (MERGE as bs m) (MERGEs n as bs)"

lemma MERGE_pos: "MERGE as bs m = Inr m' \<Longrightarrow> mg_apos m' + mg_bpos m' = Suc (mg_apos m + mg_bpos m)"
  by (auto simp: MERGE_def split: if_splits)

lemma MERGEs_pos: "MERGEs n as bs m = Inr m' \<Longrightarrow> mg_apos m' + mg_bpos m' = n + (mg_apos m + mg_bpos m)"
  by (induction n arbitrary: m) (auto dest!: MERGE_pos)

function merge_unrolled :: "'v::linorder pt list \<Rightarrow> 'v pt list \<Rightarrow> 'v merge \<Rightarrow> cerr + 'v merge" where
  "merge_unrolled as bs m =
     (if mg_apos m + 8 < length as \<and> mg_bpos m + 8 < length bs
      then bindE (MERGEs 8 as bs m) (merge_unrolled as bs) else Inr m)"
  by pat_completeness auto
termination
  by (relation "measure (\<lambda>(as, bs, m). length as + length bs - (mg_apos m + mg_bpos m))")
    (auto dest: MERGEs_pos simp del: MERGEs.simps)

function merge_rest :: "'v::linorder pt list \<Rightarrow> 'v pt list \<Rightarrow> 'v merge \<Rightarrow> cerr + 'v merge" where
  "merge_rest as bs m =
     (if mg_apos m < length as \<and> mg_bpos m < length bs
      then bindE (MERGE as bs m) (merge_rest as bs) else Inr m)"
  by pat_completeness auto
termination
  by (relation "measure (\<lambda>(as, bs, m). length as + length bs - (mg_apos m + mg_bpos m))")
    (auto dest: MERGE_pos)

declare merge_unrolled.simps [simp del] merge_rest.simps [simp del]

text \<open>\<open>memcpy\<close> of the points \<open>xs\<close> to position \<open>i\<close>.\<close>

definition pts_copy :: "'v pt list \<Rightarrow> nat \<Rightarrow> 'v pt list \<Rightarrow> cerr + 'v pt list" where
  "pts_copy pts i xs = mem_write pts (int i) xs"

function ptsort :: "'v::linorder pt list \<Rightarrow> cerr + 'v pt list" where
  "ptsort pts =
     (let sz = length pts in
      if sz \<le> 1 then Inr pts
      else if sz = 2 then network [(0, 1)] pts
      else if sz = 3 then network [(0, 1), (1, 2), (0, 1)] pts
      else if sz = 4 then network [(0, 1), (2, 3), (0, 2), (1, 3), (1, 2)] pts
      else if sz = 5 then network [(0, 1), (3, 4), (1, 2), (0, 1), (0, 3), (2, 4), (1, 2), (2, 3), (1, 2)] pts
      else
        let asz = sz div 2 in
        bindE (ptsort (take asz pts)) (\<lambda>as.
        bindE (ptsort (drop asz pts)) (\<lambda>bs.
        bindE (merge_unrolled as bs \<lparr>mg_pts = pts, mg_apos = 0, mg_bpos = 0, mg_outpos = 0\<rparr>) (\<lambda>m.
        bindE (merge_rest as bs m) (\<lambda>m.
        bindE (if mg_apos m < length as then pts_copy (mg_pts m) (mg_outpos m) (drop (mg_apos m) as) else Inr (mg_pts m)) (\<lambda>pts.
        if mg_bpos m < length bs then pts_copy pts (mg_outpos m) (drop (mg_bpos m) bs) else Inr pts))))))"
  by pat_completeness auto
termination
  by (relation "measure length") auto

declare ptsort.simps [simp del]

subsection \<open>The networks\<close>

text \<open>An exchange on a list it fits, as a function, and what it does to the order of the two positions.\<close>

lemma MAYBE_SWAP_ok:
  "a < length arr \<Longrightarrow> b < length arr \<Longrightarrow> MAYBE_SWAP a b arr =
     Inr (if pt_slope (arr ! b) < pt_slope (arr ! a) then arr[a := arr ! b, b := arr ! a] else arr)"
  by (auto simp: MAYBE_SWAP_def cmem pt_compare_angle_def)

text \<open>A sorting network sorts every list of its width: checked on the comparisons of symbolic points.\<close>

definition sorts :: "'v::linorder pt list \<Rightarrow> cerr + 'v pt list \<Rightarrow> bool" where
  "sorts pts r \<longleftrightarrow> (\<exists>pts'. r = Inr pts' \<and> mset pts' = mset pts \<and> sorted (map pt_slope pts'))"

lemma network_Nil: "network [] arr = Inr arr"
  by (simp add: network_def)

lemma network_Cons: "network ((a, b) # ps) arr = bindE (MAYBE_SWAP a b arr) (network ps)"
  by (simp add: network_def) (cases "MAYBE_SWAP a b arr"; simp add: network_def)

lemma network2: "sorts [a, b] (network [(0, 1)] [a, b])"
  by (auto simp: sorts_def network_Nil network_Cons MAYBE_SWAP_ok)

lemma network3: "sorts [a, b, c] (network [(0, 1), (1, 2), (0, 1)] [a, b, c])"
  by (auto simp: sorts_def network_Nil network_Cons MAYBE_SWAP_ok)

lemma network4: "sorts [a, b, c, d] (network [(0, 1), (2, 3), (0, 2), (1, 3), (1, 2)] [a, b, c, d])"
  by (auto simp: sorts_def network_Nil network_Cons MAYBE_SWAP_ok)

text \<open>The network for five points sorts the first three and the last two, then merges them.\<close>

lemma network_append: "network (ps @ qs) arr = bindE (network ps arr) (network qs)"
  by (simp add: network_def foldE_append) (cases "foldE (\<lambda>arr (a, b). MAYBE_SWAP a b arr) ps arr"; simp add: network_def)

lemma network5_split:
  "\<exists>a' b' c' d' e'. network [(0, 1), (3, 4), (1, 2), (0, 1)] [a, b, c, d, e] = Inr [a', b', c', d', e'] \<and>
     mset [a', b', c', d', e'] = mset [a, b, c, d, e] \<and>
     pt_slope a' \<le> pt_slope b' \<and> pt_slope b' \<le> pt_slope c' \<and> pt_slope d' \<le> pt_slope e'"
  by (simp add: network_Nil network_Cons MAYBE_SWAP_ok) (auto simp: add_mset_commute)

lemma network5_merge:
  "pt_slope a \<le> pt_slope b \<Longrightarrow> pt_slope b \<le> pt_slope c \<Longrightarrow> pt_slope d \<le> pt_slope e \<Longrightarrow>
   sorts [a, b, c, d, e] (network [(0, 3), (2, 4), (1, 2), (2, 3), (1, 2)] [a, b, c, d, e])"
  by (auto simp: sorts_def network_Nil network_Cons MAYBE_SWAP_ok)

lemma network5:
  "sorts [a, b, c, d, e] (network [(0, 1), (3, 4), (1, 2), (0, 1), (0, 3), (2, 4), (1, 2), (2, 3), (1, 2)] [a, b, c, d, e])"
proof -
  obtain a' b' c' d' e' where n: "network [(0, 1), (3, 4), (1, 2), (0, 1)] [a, b, c, d, e] = Inr [a', b', c', d', e']"
    "mset [a', b', c', d', e'] = mset [a, b, c, d, e]"
    "pt_slope a' \<le> pt_slope b'" "pt_slope b' \<le> pt_slope c'" "pt_slope d' \<le> pt_slope e'"
    using network5_split by blast
  have "sorts [a', b', c', d', e'] (network [(0, 3), (2, 4), (1, 2), (2, 3), (1, 2)] [a', b', c', d', e'])"
    by (rule network5_merge [OF n(3-5)])
  then show ?thesis
    using n(1,2) network_append [of "[(0, 1), (3, 4), (1, 2), (0, 1)]" "[(0, 3), (2, 4), (1, 2), (2, 3), (1, 2)]" "[a, b, c, d, e]"]
    by (simp add: sorts_def)
qed

subsection \<open>The merge\<close>

text \<open>The merge as a function on lists; a tie takes the point of the second list.\<close>

fun pmerge :: "'v::linorder pt list \<Rightarrow> 'v pt list \<Rightarrow> 'v pt list" where
  "pmerge [] bs = bs"
| "pmerge as [] = as"
| "pmerge (a # as) (b # bs) =
     (if pt_slope a < pt_slope b then a # pmerge as (b # bs) else b # pmerge (a # as) bs)"

lemma pmerge_Nil [simp]: "pmerge as [] = as"
  by (cases as) auto

lemma mset_pmerge: "mset (pmerge as bs) = mset as + mset bs"
  by (induction as bs rule: pmerge.induct) auto

lemma set_pmerge: "set (pmerge as bs) = set as \<union> set bs"
  using mset_pmerge [of as bs] by (metis set_mset_mset set_mset_union)

lemma sorted_pmerge:
  "sorted (map pt_slope as) \<Longrightarrow> sorted (map pt_slope bs) \<Longrightarrow> sorted (map pt_slope (pmerge as bs))"
  by (induction as bs rule: pmerge.induct) (auto simp: set_pmerge intro: less_imp_le order_trans)

text \<open>
  The invariant of the merge loops: what is written so far and the merge of what remains are the
  merge of the two lists.
\<close>

definition merge_inv :: "'v::linorder pt list \<Rightarrow> 'v pt list \<Rightarrow> 'v merge \<Rightarrow> bool" where
  "merge_inv as bs m \<longleftrightarrow>
     length (mg_pts m) = length as + length bs \<and> mg_apos m \<le> length as \<and> mg_bpos m \<le> length bs \<and>
     mg_outpos m = mg_apos m + mg_bpos m \<and>
     take (mg_outpos m) (mg_pts m) @ pmerge (drop (mg_apos m) as) (drop (mg_bpos m) bs) = pmerge as bs"

lemma MERGE_ok:
  assumes inv: "merge_inv as bs m" and pos: "mg_apos m < length as" "mg_bpos m < length bs"
  shows "\<exists>m'. MERGE as bs m = Inr m' \<and> merge_inv as bs m' \<and> mg_apos m' \<le> Suc (mg_apos m) \<and> mg_bpos m' \<le> Suc (mg_bpos m)"
proof -
  let ?a = "as ! mg_apos m" and ?b = "bs ! mg_bpos m"
  have d: "drop (mg_apos m) as = ?a # drop (Suc (mg_apos m)) as" "drop (mg_bpos m) bs = ?b # drop (Suc (mg_bpos m)) bs"
    using pos by (simp_all add: Cons_nth_drop_Suc)
  have out: "mg_outpos m < length (mg_pts m)" using inv pos by (simp add: merge_inv_def)
  then have tk: "take (Suc (mg_outpos m)) ((mg_pts m)[mg_outpos m := x]) = take (mg_outpos m) (mg_pts m) @ [x]" for x
    by (simp add: take_Suc_conv_app_nth)
  show ?thesis
  proof (cases "pt_slope ?a < pt_slope ?b")
    case True
    then have "MERGE as bs m = Inr (m\<lparr>mg_pts := (mg_pts m)[mg_outpos m := ?a], mg_outpos := mg_outpos m + 1, mg_apos := mg_apos m + 1\<rparr>)"
      using pos out by (simp add: MERGE_def cmem pt_compare_angle_def)
    then show ?thesis using inv True pos tk [of ?a] by (auto simp: merge_inv_def d)
  next
    case False
    then have "MERGE as bs m = Inr (m\<lparr>mg_pts := (mg_pts m)[mg_outpos m := ?b], mg_outpos := mg_outpos m + 1, mg_bpos := mg_bpos m + 1\<rparr>)"
      using pos out by (auto simp: MERGE_def cmem pt_compare_angle_def)
    then show ?thesis using inv False pos tk [of ?b] by (auto simp: merge_inv_def d)
  qed
qed

text \<open>Unrolling is safe while more than as many points are left in both lists.\<close>

lemma MERGEs_ok:
  "merge_inv as bs m \<Longrightarrow> mg_apos m + n \<le> length as \<Longrightarrow> mg_bpos m + n \<le> length bs \<Longrightarrow>
   \<exists>m'. MERGEs n as bs m = Inr m' \<and> merge_inv as bs m'"
proof (induction n arbitrary: m)
  case (Suc n)
  obtain m' where m': "MERGE as bs m = Inr m'" "merge_inv as bs m'" "mg_apos m' \<le> Suc (mg_apos m)" "mg_bpos m' \<le> Suc (mg_bpos m)"
    using MERGE_ok [OF Suc.prems(1)] Suc.prems by auto
  with Suc.IH [of m'] Suc.prems show ?case by simp
qed simp

lemma merge_unrolled_ok:
  "merge_inv as bs m \<Longrightarrow> \<exists>m'. merge_unrolled as bs m = Inr m' \<and> merge_inv as bs m'"
proof (induction as bs m rule: merge_unrolled.induct)
  case (1 as bs m)
  show ?case
  proof (cases "mg_apos m + 8 < length as \<and> mg_bpos m + 8 < length bs")
    case True
    then obtain m' where m': "MERGEs 8 as bs m = Inr m'" "merge_inv as bs m'"
      using MERGEs_ok [OF "1.prems", of 8] by auto
    then show ?thesis using "1.IH" [OF True m'(1) m'(2)] True by (subst merge_unrolled.simps) simp
  next
    case False
    then have "merge_unrolled as bs m = Inr m" by (subst merge_unrolled.simps) (rule if_not_P)
    with "1.prems" show ?thesis by simp
  qed
qed

lemma merge_rest_ok:
  "merge_inv as bs m \<Longrightarrow> \<exists>m'. merge_rest as bs m = Inr m' \<and> merge_inv as bs m' \<and>
     (mg_apos m' = length as \<or> mg_bpos m' = length bs)"
proof (induction as bs m rule: merge_rest.induct)
  case (1 as bs m)
  show ?case
  proof (cases "mg_apos m < length as \<and> mg_bpos m < length bs")
    case True
    then obtain m' where m': "MERGE as bs m = Inr m'" "merge_inv as bs m'"
      using MERGE_ok [OF "1.prems"] by auto
    then show ?thesis using "1.IH" [OF True m'(1) m'(2)] True by (subst merge_rest.simps) simp
  next
    case False
    then show ?thesis using "1.prems" by (subst merge_rest.simps) (auto simp: merge_inv_def)
  qed
qed

lemma pts_copy_end: "i + length xs = length pts \<Longrightarrow> pts_copy pts i xs = Inr (take i pts @ xs)"
  by (simp add: pts_copy_def mem_write_nat)

text \<open>The tail of the list that is not used up.\<close>

lemma merge_tail:
  assumes "merge_inv as bs m" "mg_apos m = length as \<or> mg_bpos m = length bs"
  shows "bindE (if mg_apos m < length as then pts_copy (mg_pts m) (mg_outpos m) (drop (mg_apos m) as) else Inr (mg_pts m))
     (\<lambda>pts. if mg_bpos m < length bs then pts_copy pts (mg_outpos m) (drop (mg_bpos m) bs) else Inr pts) = Inr (pmerge as bs)"
proof (cases "mg_apos m < length as")
  case True
  then show ?thesis using assms by (auto simp: merge_inv_def pts_copy_end)
next
  case False
  then show ?thesis using assms by (cases "mg_bpos m < length bs") (auto simp: merge_inv_def pts_copy_end)
qed

subsection \<open>Properties\<close>

text \<open>C37: \<open>ptsort\<close> of any number of points returns the same points in ascending order of their slopes, without an
  access outside its arrays: the networks for up to five points as well as the unrolled merge sort.\<close>

theorem ptsort_sorts:
  "\<exists>pts'. ptsort pts = Inr pts' \<and> mset pts' = mset pts \<and> sorted (map pt_slope pts')"
proof (induction pts rule: ptsort.induct)
  case (1 pts)
  consider "length pts \<le> 1" | "length pts = 2" | "length pts = 3" | "length pts = 4" | "length pts = 5" | "5 < length pts"
    by linarith
  then show ?case
  proof cases
    case 1
    then show ?thesis by (subst ptsort.simps) (cases pts; auto)
  next
    case 2
    then show ?thesis using network2 by (subst ptsort.simps) (auto simp: sorts_def numeral_eq_Suc length_Suc_conv)
  next
    case 3
    then show ?thesis using network3 by (subst ptsort.simps) (auto simp: sorts_def numeral_eq_Suc length_Suc_conv)
  next
    case 4
    then show ?thesis using network4 by (subst ptsort.simps) (auto simp: sorts_def numeral_eq_Suc length_Suc_conv)
  next
    case 5
    then show ?thesis using network5 by (subst ptsort.simps) (auto simp: sorts_def numeral_eq_Suc length_Suc_conv)
  next
    case 6
    then have big: "\<not> length pts \<le> 1" "length pts \<noteq> 2" "length pts \<noteq> 3" "length pts \<noteq> 4" "length pts \<noteq> 5" by auto
    let ?k = "length pts div 2"
    obtain as where as: "ptsort (take ?k pts) = Inr as" "mset as = mset (take ?k pts)" "sorted (map pt_slope as)"
      using "1.IH"(1) [OF refl big refl] by blast
    obtain bs where bs: "ptsort (drop ?k pts) = Inr bs" "mset bs = mset (drop ?k pts)" "sorted (map pt_slope bs)"
      using "1.IH"(2) [OF refl big refl as(1)] by blast
    have ms: "mset as + mset bs = mset pts" using as(2) bs(2) by (metis append_take_drop_id mset_append)
    then have "length pts = length as + length bs" by (metis size_mset size_union)
    then have "merge_inv as bs \<lparr>mg_pts = pts, mg_apos = 0, mg_bpos = 0, mg_outpos = 0\<rparr>" by (simp add: merge_inv_def)
    then obtain m1 where m1: "merge_unrolled as bs \<lparr>mg_pts = pts, mg_apos = 0, mg_bpos = 0, mg_outpos = 0\<rparr> = Inr m1" "merge_inv as bs m1"
      using merge_unrolled_ok by blast
    obtain m where m: "merge_rest as bs m1 = Inr m" "merge_inv as bs m" "mg_apos m = length as \<or> mg_bpos m = length bs"
      using merge_rest_ok [OF m1(2)] by blast
    have "ptsort pts = Inr (pmerge as bs)"
      using big as(1) bs(1) m1(1) m(1) merge_tail [OF m(2,3)] by (subst ptsort.simps) (simp add: Let_def)
    then show ?thesis using sorted_pmerge [OF as(3) bs(3)] ms by (simp add: mset_pmerge)
  qed
qed

end
