(* ===== verification/Clusters.thy ===== *)
theory Clusters
  imports Components PtSort
begin

text \<open>
  The boundary points between black and white regions, \<open>do_gradient_clusters\<close>, \<open>merge_clusters\<close> and
  \<open>gradient_clusters\<close> of \<open>apriltag_quad_thresh.c\<close>: every pair of adjacent pixels of opposite colour whose
  components both have at least 25 pixels gives a point in the cluster of the two components. Each
  task collects the clusters of some rows in a hash table of chains and hands them out in
  the order of hash and id; the lists of the tasks are merged pairwise. Arrays that only grow (\<open>zarray\<close>) are
  lists here, which \<open>zarray_ops_correct\<close> shows they implement.
\<close>

subsection \<open>The hash table of clusters\<close>

definition u64hash_2 :: "u64 \<Rightarrow> u32" where
  "u64hash_2 x = ucast (drop_bit 32 (2654435761 * x))"

record 'v uint64_zarray_entry =
  ze_id :: u64
  ze_cluster :: "'v pt list"

text \<open>
  The locals of \<open>do_gradient_clusters\<close>: the forest, the chains of \<open>clustermap\<close>, the position in the
  memory pools and the flag \<open>connected\<close>.
\<close>

record 'v gc =
  gc_uf :: unionfind
  gc_map :: "'v uint64_zarray_entry list list"
  gc_pool_idx :: nat
  gc_pool_loc :: nat
  gc_connected :: bool

text \<open>The walk along a chain to the entry of a cluster and the point added there, or \<open>None\<close> at its end.\<close>

primrec chain_add :: "u64 \<Rightarrow> 'v pt \<Rightarrow> 'v uint64_zarray_entry list \<Rightarrow> 'v uint64_zarray_entry list option" where
  "chain_add i p [] = None"
| "chain_add i p (e # es) =
     (if ze_id e = i then Some (e\<lparr>ze_cluster := ze_cluster e @ [p]\<rparr> # es)
      else map_option ((#) e) (chain_add i p es))"

definition mem_chunk_size :: nat where
  "mem_chunk_size = 2048"

text \<open>\<open>mem_pools\<close> has room for this many pools.\<close>

definition n_pools :: "nat \<Rightarrow> nat" where
  "n_pools nclustermap = 1 + 2 * nclustermap div mem_chunk_size"

definition pool_alloc :: "nat \<Rightarrow> 'v gc \<Rightarrow> cerr + 'v gc" where
  "pool_alloc nclustermap st =
     (if gc_pool_loc st = mem_chunk_size
      then if gc_pool_idx st + 1 < n_pools nclustermap
           then Inr (st\<lparr>gc_pool_loc := 1, gc_pool_idx := gc_pool_idx st + 1\<rparr>) else Inl OutOfBounds
      else Inr (st\<lparr>gc_pool_loc := gc_pool_loc st + 1\<rparr>))"

definition bucket :: "nat \<Rightarrow> u64 \<Rightarrow> u32" where
  "bucket nclustermap i = u64hash_2 i mod of_nat nclustermap"

definition cluster_add :: "nat \<Rightarrow> u64 \<Rightarrow> 'v pt \<Rightarrow> 'v gc \<Rightarrow> cerr + 'v gc" where
  "cluster_add nclustermap clusterid p st =
     (if nclustermap = 0 then Inl DivByZero
      else
        let b = unat (bucket nclustermap clusterid) in
        bindE (arr_get (gc_map st) b) (\<lambda>chain.
        bindE (case chain_add clusterid p chain of
                 Some chain \<Rightarrow> Inr (chain, st)
               | None \<Rightarrow> bindE (pool_alloc nclustermap st) (\<lambda>st.
                   Inr (\<lparr>ze_id = clusterid, ze_cluster = [p]\<rparr> # chain, st))) (\<lambda>(chain, st).
        bindE (arr_set (gc_map st) b chain) (\<lambda>m.
        Inr (st\<lparr>gc_map := m, gc_connected := True\<rparr>)))))"

subsection \<open>The scan\<close>

definition clusterid :: "nat \<Rightarrow> nat \<Rightarrow> u64" where
  "clusterid rep0 rep1 =
     (if rep0 < rep1 then push_bit 32 (of_nat rep1) + of_nat rep0 else push_bit 32 (of_nat rep0) + of_nat rep1)"

definition grad_pt :: "int \<Rightarrow> int \<Rightarrow> int \<Rightarrow> int \<Rightarrow> u8 \<Rightarrow> u8 \<Rightarrow> 'v::zero pt" where
  "grad_pt x y dx dy v0 v1 =
     \<lparr>pt_x = of_int (2 * x + dx), pt_y = of_int (2 * y + dy),
      pt_gx = of_int (dx * (int (unat v1) - int (unat v0))), pt_gy = of_int (dy * (int (unat v1) - int (unat v0))), pt_slope = 0\<rparr>"

definition DO_CONN ::
  "image_u8 \<Rightarrow> int \<Rightarrow> int \<Rightarrow> nat \<Rightarrow> int \<Rightarrow> int \<Rightarrow> u8 \<Rightarrow> nat \<Rightarrow> int \<Rightarrow> int \<Rightarrow> 'v::zero gc \<Rightarrow> cerr + 'v gc" where
  "DO_CONN threshim ts w nclustermap y x v0 rep0 dx dy st =
     bindE (vget (im_buf threshim) ((y + dy) * ts + x + dx)) (\<lambda>v1.
     if unat v0 + unat v1 = 255
     then
       bindE (unionfind_get_representative (gc_uf st) (nat ((y + dy) * w + x + dx))) (\<lambda>(uf, rep1).
       bindE (unionfind_get_set_size uf rep1) (\<lambda>(uf, size).
       let st = st\<lparr>gc_uf := uf\<rparr> in
       if size > 24 then cluster_add nclustermap (clusterid rep0 rep1) (grad_pt x y dx dy v0 v1) st else Inr st))
     else Inr st)"

text \<open>One pixel; the flag is \<open>connected_last\<close>.\<close>

definition gc_pixel :: "image_u8 \<Rightarrow> int \<Rightarrow> int \<Rightarrow> nat \<Rightarrow> int \<Rightarrow> bool \<times> 'v::zero gc \<Rightarrow> int \<Rightarrow> cerr + bool \<times> 'v gc" where
  "gc_pixel threshim ts w nclustermap y = (\<lambda>(connected_last, st) x.
     bindE (vget (im_buf threshim) (y * ts + x)) (\<lambda>v0.
     if v0 = 127 then Inr (False, st)
     else
       bindE (unionfind_get_representative (gc_uf st) (nat (y * w + x))) (\<lambda>(uf, rep0).
       bindE (unionfind_get_set_size uf rep0) (\<lambda>(uf, size).
       let st = st\<lparr>gc_uf := uf\<rparr> in
       if size < 25 then Inr (False, st)
       else
         bindE (DO_CONN threshim ts w nclustermap y x v0 rep0 1 0 st) (\<lambda>st.
         bindE (DO_CONN threshim ts w nclustermap y x v0 rep0 0 1 st) (\<lambda>st.
         bindE (if \<not> connected_last then DO_CONN threshim ts w nclustermap y x v0 rep0 (- 1) 1 st else Inr st) (\<lambda>st.
         bindE (DO_CONN threshim ts w nclustermap y x v0 rep0 1 1 (st\<lparr>gc_connected := False\<rparr>)) (\<lambda>st.
         Inr (gc_connected st, st)))))))))"

subsection \<open>The clusters in order\<close>

record 'v cluster_hash =
  ch_hash :: u32
  ch_id :: u64
  ch_data :: "'v pt list"

definition mk_cluster :: "nat \<Rightarrow> 'v uint64_zarray_entry \<Rightarrow> 'v cluster_hash" where
  "mk_cluster n e = \<lparr>ch_hash = bucket n (ze_id e), ch_id = ze_id e, ch_data = ze_cluster e\<rparr>"

text \<open>The bubble sort of the clusters of one bucket, which exchanges what the pointers point to.\<close>

definition bubble_step :: "nat \<Rightarrow> 'v cluster_hash list \<Rightarrow> nat \<Rightarrow> cerr + 'v cluster_hash list" where
  "bubble_step start clusters k =
     bindE (arr_get clusters (start + k)) (\<lambda>hash1.
     bindE (arr_get clusters (start + k + 1)) (\<lambda>hash2.
     if ch_id hash1 > ch_id hash2
     then bindE (arr_set clusters (start + k + 1) hash1) (\<lambda>clusters. arr_set clusters (start + k) hash2)
     else Inr clusters))"

definition bubble_sort :: "nat \<Rightarrow> nat \<Rightarrow> 'v cluster_hash list \<Rightarrow> cerr + 'v cluster_hash list" where
  "bubble_sort start n = foldE (\<lambda>clusters j. foldE (bubble_step start) [0..<n - j - 1] clusters) [0..<n - 1]"

definition bucket_out :: "nat \<Rightarrow> 'v cluster_hash list \<Rightarrow> 'v uint64_zarray_entry list \<Rightarrow> cerr + 'v cluster_hash list" where
  "bucket_out nclustermap clusters chain =
     (let start = length clusters;
          clusters = clusters @ map (mk_cluster nclustermap) chain
      in bubble_sort start (length clusters - start) clusters)"

definition do_gradient_clusters ::
  "image_u8 \<Rightarrow> int \<Rightarrow> int \<Rightarrow> int \<Rightarrow> int \<Rightarrow> nat \<Rightarrow> unionfind \<Rightarrow> 'v::zero cluster_hash list \<Rightarrow> cerr + unionfind \<times> 'v cluster_hash list" where
  "do_gradient_clusters threshim ts y0 y1 w nclustermap uf clusters =
     bindE (foldE (\<lambda>st y.
         bindE (foldE (gc_pixel threshim ts w nclustermap y) [1..w - 2] (False, st)) (\<lambda>(_, st). Inr st)) [y0..y1 - 1]
       \<lparr>gc_uf = uf, gc_map = replicate nclustermap [], gc_pool_idx = 0, gc_pool_loc = 0, gc_connected = False\<rparr>) (\<lambda>st.
     bindE (foldE (bucket_out nclustermap) (gc_map st) clusters) (\<lambda>clusters.
     Inr (gc_uf st, clusters)))"

text \<open>Two clusters with the same id become one; its points are those of the first, then the second.\<close>

fun merge_clusters :: "'v cluster_hash list \<Rightarrow> 'v cluster_hash list \<Rightarrow> 'v cluster_hash list" where
  "merge_clusters (h1 # c1) (h2 # c2) =
     (if ch_hash h1 = ch_hash h2 \<and> ch_id h1 = ch_id h2
      then h1\<lparr>ch_data := ch_data h1 @ ch_data h2\<rparr> # merge_clusters c1 c2
      else if ch_hash h2 < ch_hash h1 \<or> ch_hash h2 = ch_hash h1 \<and> ch_id h2 < ch_id h1
      then h2 # merge_clusters (h1 # c1) c2
      else h1 # merge_clusters c1 (h2 # c2))"
| "merge_clusters c1 [] = c1"
| "merge_clusters [] c2 = c2"

record 'v cluster_task =
  ct_y0 :: int
  ct_y1 :: int
  ct_nclustermap :: nat
  ct_clusters :: "'v cluster_hash list"

definition do_cluster_task ::
  "image_u8 \<Rightarrow> int \<Rightarrow> int \<Rightarrow> unionfind \<Rightarrow> 'v::zero cluster_task \<Rightarrow> cerr + unionfind \<times> 'v cluster_task" where
  "do_cluster_task im s w uf task =
     bindE (do_gradient_clusters im s (ct_y0 task) (ct_y1 task) w (ct_nclustermap task) uf (ct_clusters task)) (\<lambda>(uf, clusters).
     Inr (uf, task\<lparr>ct_clusters := clusters\<rparr>))"

function cluster_tasks :: "nat \<Rightarrow> int \<Rightarrow> int \<Rightarrow> int \<Rightarrow> 'v cluster_task list" where
  "cluster_tasks n sz chunksize i =
     (if i < sz \<and> 0 < chunksize
      then \<lparr>ct_y0 = i, ct_y1 = imin sz (i + chunksize), ct_nclustermap = n, ct_clusters = []\<rparr> #
        cluster_tasks n sz chunksize (i + chunksize)
      else [])"
  by pat_completeness auto
termination
  by (relation "measure (\<lambda>(n, sz, chunksize, i). nat (sz - i))") auto

declare cluster_tasks.simps [simp del]

text \<open>One round of the pairwise merging, and the rounds until one list is left.\<close>

fun merge_round :: "'v cluster_hash list list \<Rightarrow> 'v cluster_hash list list" where
  "merge_round (a # b # cs) = merge_clusters a b # merge_round cs"
| "merge_round cs = cs"

lemma length_merge_round: "length (merge_round cs) = (length cs + 1) div 2"
  by (induction cs rule: merge_round.induct) auto

function merge_rounds :: "'v cluster_hash list list \<Rightarrow> 'v cluster_hash list list" where
  "merge_rounds cs = (if length cs > 1 then merge_rounds (merge_round cs) else cs)"
  by pat_completeness auto
termination
  by (relation "measure length") (auto simp: length_merge_round)

declare merge_rounds.simps [simp del]

text \<open>The worker pool runs the task with a number, which leaves its clusters in the task.\<close>

definition run_task :: "image_u8 \<Rightarrow> int \<Rightarrow> int \<Rightarrow> unionfind \<times> 'v::zero cluster_task list \<Rightarrow> nat \<Rightarrow> cerr + unionfind \<times> 'v cluster_task list" where
  "run_task im s w = (\<lambda>(uf, tasks) i.
          bindE (arr_get tasks i) (\<lambda>task.
          bindE (do_cluster_task im s w uf task) (\<lambda>(uf, task).
          bindE (arr_set tasks i task) (\<lambda>tasks. Inr (uf, tasks)))))"

text \<open>
  \<open>nclustermap\<close> is the value of the floating-point product \<open>0.2*w*h\<close>. The worker pool runs the tasks with the numbers
  \<open>sched ntasks\<close>, in this order; the tasks share the forest, in which they only compress paths. Without
  tasks, \<open>clusters_list[0]\<close> is read uninitialised.
\<close>

definition gradient_clusters ::
  "int \<Rightarrow> (nat \<Rightarrow> nat list) \<Rightarrow> nat \<Rightarrow> image_u8 \<Rightarrow> int \<Rightarrow> int \<Rightarrow> int \<Rightarrow> unionfind \<Rightarrow> cerr + unionfind \<times> 'v::zero pt list list" where
  "gradient_clusters nthreads sched nclustermap threshim w h ts uf =
     (let sz = h - 1;
          chunksize = 1 + sz div (APRILTAG_TASKS_PER_THREAD_TARGET * nthreads);
          tasks = cluster_tasks (nclustermap div nat (sz div chunksize + 1)) sz chunksize 1
      in
      bindE (foldE (run_task threshim ts w) (sched (length tasks)) (uf, tasks)) (\<lambda>(uf, tasks).
      bindE (arr_get (merge_rounds (map ct_clusters tasks)) 0) (\<lambda>clusters.
      Inr (uf, map ch_data clusters))))"

subsection \<open>The bubble sort\<close>

definition bub :: "'v cluster_hash list \<Rightarrow> nat \<Rightarrow> 'v cluster_hash list" where
  "bub xs k = (if ch_id (xs ! k) > ch_id (xs ! Suc k) then xs[Suc k := xs ! k, k := xs ! Suc k] else xs)"

lemma bubble_step_bub:
  assumes "Suc k < length xs"
  shows "bubble_step (length pre) (pre @ xs) k = Inr (pre @ bub xs k)"
  using assms by (auto simp: bubble_step_def bub_def cmem nth_append list_update_append)

lemma length_bub [simp]: "length (bub xs k) = length xs"
  by (simp add: bub_def)

lemma mset_bub: "Suc k < length xs \<Longrightarrow> mset (bub xs k) = mset xs"
  using mset_swap [of k xs "Suc k"] by (simp add: bub_def)

text \<open>A pass moves a greatest of the first \<open>r + 1\<close> elements to position \<open>r\<close>.\<close>

lemma bubble_pass:
  assumes "r < length xs"
  shows "\<exists>ys. foldE (bubble_step (length pre)) [0..<r] (pre @ xs) = Inr (pre @ ys) \<and> mset ys = mset xs \<and> length ys = length xs \<and>
    (\<forall>i. r < i \<longrightarrow> ys ! i = xs ! i) \<and> (\<forall>a \<le> r. \<exists>b \<le> r. ys ! a = xs ! b) \<and> (\<forall>a \<le> r. ch_id (ys ! a) \<le> ch_id (ys ! r))"
  using assms
proof (induction r)
  case 0
  then show ?case by auto
next
  case (Suc r)
  then obtain ys where ys: "foldE (bubble_step (length pre)) [0..<r] (pre @ xs) = Inr (pre @ ys)" "mset ys = mset xs" "length ys = length xs"
    "\<forall>i. r < i \<longrightarrow> ys ! i = xs ! i" "\<forall>a \<le> r. \<exists>b \<le> r. ys ! a = xs ! b" "\<forall>a \<le> r. ch_id (ys ! a) \<le> ch_id (ys ! r)"
    by auto
  have r: "Suc r < length ys" using Suc.prems ys(3) by simp
  have "foldE (bubble_step (length pre)) [0..<Suc r] (pre @ xs) = Inr (pre @ bub ys r)"
    using ys(1) bubble_step_bub [OF r] by (simp add: foldE_append)
  moreover have "\<forall>i. Suc r < i \<longrightarrow> bub ys r ! i = xs ! i" using ys(4) by (auto simp: bub_def)
  moreover have "\<exists>b \<le> Suc r. bub ys r ! a = xs ! b" if "a \<le> Suc r" for a
  proof -
    have "bub ys r ! a \<in> {ys ! a, ys ! r, ys ! Suc r}" using r by (auto simp: bub_def nth_list_update)
    moreover have "ys ! Suc r = xs ! Suc r" using ys(4) by simp
    moreover have "\<exists>b \<le> Suc r. ys ! c = xs ! b" if "c \<le> r" for c using ys(5) that le_SucI by blast
    ultimately show ?thesis using that le_Suc_eq by (metis insert_iff order_refl empty_iff)
  qed
  moreover have "ch_id (bub ys r ! a) \<le> ch_id (bub ys r ! Suc r)" if "a \<le> Suc r" for a
  proof (cases "ch_id (ys ! r) > ch_id (ys ! Suc r)")
    case True
    then have "bub ys r ! Suc r = ys ! r" "bub ys r ! r = ys ! Suc r" "a < r \<Longrightarrow> bub ys r ! a = ys ! a"
      using r by (auto simp: bub_def)
    then show ?thesis using that ys(6) True by (cases "a < r") (auto simp: le_Suc_eq)
  next
    case False
    then have "bub ys r = ys" by (simp add: bub_def)
    then show ?thesis using that ys(6) False by (auto simp: le_Suc_eq intro: order_trans)
  qed
  ultimately show ?case using ys(2,3) mset_bub [OF r] by auto
qed

lemma bubble_sort_ok:
  assumes "n = length xs"
  shows "\<exists>ys. bubble_sort (length pre) n (pre @ xs) = Inr (pre @ ys) \<and> mset ys = mset xs \<and> sorted (map ch_id ys)"
proof -
  let ?f = "\<lambda>clusters j. foldE (bubble_step (length pre)) [0..<n - j - 1] clusters"
  have "\<exists>ys. foldE ?f [0..<j] (pre @ xs) = Inr (pre @ ys) \<and> mset ys = mset xs \<and> length ys = n \<and>
      (\<forall>a b. a \<le> b \<longrightarrow> b < n \<longrightarrow> n \<le> b + j \<longrightarrow> ch_id (ys ! a) \<le> ch_id (ys ! b))" if "j \<le> n - 1" for j
    using that
  proof (induction j)
    case 0
    then show ?case using assms by auto
  next
    case (Suc j)
    then obtain ys where ys: "foldE ?f [0..<j] (pre @ xs) = Inr (pre @ ys)" "mset ys = mset xs" "length ys = n"
      "\<And>a b. a \<le> b \<Longrightarrow> b < n \<Longrightarrow> n \<le> b + j \<Longrightarrow> ch_id (ys ! a) \<le> ch_id (ys ! b)" by auto
    define r where "r = n - j - 1"
    have r: "r < length ys" "n = r + j + 1" using Suc.prems ys(3) by (auto simp: r_def)
    obtain zs where zs: "foldE (bubble_step (length pre)) [0..<r] (pre @ ys) = Inr (pre @ zs)" "mset zs = mset ys" "length zs = length ys"
      "\<And>i. r < i \<Longrightarrow> zs ! i = ys ! i" "\<And>a. a \<le> r \<Longrightarrow> \<exists>b \<le> r. zs ! a = ys ! b" "\<And>a. a \<le> r \<Longrightarrow> ch_id (zs ! a) \<le> ch_id (zs ! r)"
      using bubble_pass [OF r(1), of pre] by blast
    have "ch_id (zs ! a) \<le> ch_id (zs ! b)" if ab: "a \<le> b" "b < n" "n \<le> b + Suc j" for a b
    proof (cases "b = r")
      case True
      then show ?thesis using zs(6) ab(1) by simp
    next
      case False
      then have b: "r < b" using ab r(2) by simp
      show ?thesis
      proof (cases "a \<le> r")
        case True
        then obtain c where "c \<le> r" "zs ! a = ys ! c" using zs(5) by blast
        then show ?thesis using ys(4) [of c b] zs(4) [OF b] b ab r(2) by simp
      next
        case False
        then show ?thesis using ys(4) [of a b] zs(4) [OF b] zs(4) [of a] ab b r(2) by simp
      qed
    qed
    moreover have "foldE ?f [0..<Suc j] (pre @ xs) = Inr (pre @ zs)" using ys(1) zs(1) by (simp add: foldE_append r_def)
    ultimately show ?case using zs(2,3) ys(2,3) by auto
  qed
  from this [of "n - 1"] obtain ys where ys: "foldE ?f [0..<n - 1] (pre @ xs) = Inr (pre @ ys)" "mset ys = mset xs" "length ys = n"
      "\<And>a b. a \<le> b \<Longrightarrow> b < n \<Longrightarrow> n \<le> b + (n - 1) \<Longrightarrow> ch_id (ys ! a) \<le> ch_id (ys ! b)" by auto
  have "ch_id (ys ! a) \<le> ch_id (ys ! b)" if "a \<le> b" "b < n" for a b
    using that ys(4) [of a b] by (cases "b = 0") auto
  then have "sorted (map ch_id ys)" using ys(3) by (simp add: sorted_iff_nth_mono)
  then show ?thesis using ys(1,2) by (auto simp: bubble_sort_def)
qed

subsection \<open>Merging\<close>

definition cl_less :: "'v cluster_hash \<Rightarrow> 'v cluster_hash \<Rightarrow> bool" where
  "cl_less a b \<longleftrightarrow> ch_hash a < ch_hash b \<or> ch_hash a = ch_hash b \<and> ch_id a < ch_id b"

definition hashed :: "nat \<Rightarrow> 'v cluster_hash list \<Rightarrow> bool" where
  "hashed n cl \<longleftrightarrow> (\<forall>c \<in> set cl. ch_hash c = bucket n (ch_id c))"

text \<open>All points of one id.\<close>

definition look :: "'v cluster_hash list \<Rightarrow> u64 \<Rightarrow> 'v pt list" where
  "look cl i = concat (map ch_data (filter (\<lambda>c. ch_id c = i) cl))"

lemma look_simps [simp]:
  "look [] i = []" "look (c # cl) i = (if ch_id c = i then ch_data c else []) @ look cl i"
  "look (cl @ cl') i = look cl i @ look cl' i"
  by (simp_all add: look_def)

lemma look_none: "i \<notin> ch_id ` set cl \<Longrightarrow> look cl i = []"
  by (induction cl) auto

lemma cl_less_data [simp]: "cl_less h (c\<lparr>ch_data := d\<rparr>) = cl_less h c" "cl_less (c\<lparr>ch_data := d\<rparr>) h = cl_less c h"
  by (simp_all add: cl_less_def)

lemma cl_cases: "ch_hash a = ch_hash b \<and> ch_id a = ch_id b \<or> cl_less b a \<or> cl_less a b"
  unfolding cl_less_def using less_linear [of "ch_hash a" "ch_hash b"] less_linear [of "ch_id a" "ch_id b"] by argo

lemma cl_less_trans: "cl_less a b \<Longrightarrow> cl_less b c \<Longrightarrow> cl_less a c"
  by (auto simp: cl_less_def)

lemma look_after:
  assumes "sorted_wrt cl_less (h # cl)" "hashed n (h # cl)"
  shows "look cl (ch_id h) = []"
proof (rule look_none)
  show "ch_id h \<notin> ch_id ` set cl"
  proof
    assume "ch_id h \<in> ch_id ` set cl"
    then obtain c where c: "c \<in> set cl" "ch_id c = ch_id h" by auto
    then have "cl_less h c" "ch_hash c = ch_hash h" using assms by (simp_all add: hashed_def)
    then show False using c(2) by (simp add: cl_less_def)
  qed
qed

lemma merge_step:
  "ch_hash h1 = ch_hash h2 \<and> ch_id h1 = ch_id h2 \<Longrightarrow>
    merge_clusters (h1 # c1) (h2 # c2) = h1\<lparr>ch_data := ch_data h1 @ ch_data h2\<rparr> # merge_clusters c1 c2"
  "cl_less h2 h1 \<Longrightarrow> merge_clusters (h1 # c1) (h2 # c2) = h2 # merge_clusters (h1 # c1) c2"
  "cl_less h1 h2 \<Longrightarrow> merge_clusters (h1 # c1) (h2 # c2) = h1 # merge_clusters c1 (h2 # c2)"
proof -
  show "merge_clusters (h1 # c1) (h2 # c2) = h1\<lparr>ch_data := ch_data h1 @ ch_data h2\<rparr> # merge_clusters c1 c2"
    if "ch_hash h1 = ch_hash h2 \<and> ch_id h1 = ch_id h2" using that by (simp only: merge_clusters.simps if_True simp_thms)
  show "merge_clusters (h1 # c1) (h2 # c2) = h2 # merge_clusters (h1 # c1) c2" if l: "cl_less h2 h1"
  proof -
    have "\<not> (ch_hash h1 = ch_hash h2 \<and> ch_id h1 = ch_id h2)" using l unfolding cl_less_def by (metis less_irrefl)
    then show ?thesis using l by (simp only: merge_clusters.simps if_False if_True cl_less_def)
  qed
  show "merge_clusters (h1 # c1) (h2 # c2) = h1 # merge_clusters c1 (h2 # c2)" if l: "cl_less h1 h2"
  proof -
    have "\<not> (ch_hash h1 = ch_hash h2 \<and> ch_id h1 = ch_id h2)"
      "\<not> (ch_hash h2 < ch_hash h1 \<or> ch_hash h2 = ch_hash h1 \<and> ch_id h2 < ch_id h1)"
      using l unfolding cl_less_def by (metis less_irrefl, metis less_asym less_irrefl)
    then show ?thesis by (simp only: merge_clusters.simps if_False)
  qed
qed

lemma merge_nil [simp]: "merge_clusters [] c2 = c2"
  by (cases c2) simp_all

declare merge_clusters.simps(1) [simp del]

text \<open>The merging by the order of the two heads.\<close>

lemma merge_induct [case_names eq less greater nil1 nil2]:
  assumes "\<And>h1 c1 h2 c2. ch_hash h1 = ch_hash h2 \<Longrightarrow> ch_id h1 = ch_id h2 \<Longrightarrow> P c1 c2 \<Longrightarrow> P (h1 # c1) (h2 # c2)"
    "\<And>h1 c1 h2 c2. cl_less h2 h1 \<Longrightarrow> P (h1 # c1) c2 \<Longrightarrow> P (h1 # c1) (h2 # c2)"
    "\<And>h1 c1 h2 c2. cl_less h1 h2 \<Longrightarrow> P c1 (h2 # c2) \<Longrightarrow> P (h1 # c1) (h2 # c2)"
    "\<And>c1. P c1 []" "\<And>c2. P [] c2"
  shows "P c1 c2"
proof (induction "length c1 + length c2" arbitrary: c1 c2 rule: less_induct)
  case less
  show ?case
  proof (cases "c1 = [] \<or> c2 = []")
    case False
    then obtain h1 d1 h2 d2 where c: "c1 = h1 # d1" "c2 = h2 # d2" by (meson neq_Nil_conv)
    then have "P d1 d2" "P (h1 # d1) d2" "P d1 (h2 # d2)" using less by simp_all
    then show ?thesis using cl_cases [of h1 h2] assms(1-3) c by blast
  qed (use assms(4,5) in blast)
qed

lemma merge_ids: "ch_id ` set (merge_clusters c1 c2) = ch_id ` set c1 \<union> ch_id ` set c2"
proof (induction c1 c2 rule: merge_induct)
  case (eq h1 c1 h2 c2)
  then show ?case by (simp add: merge_step)
next
  case (less h1 c1 h2 c2)
  then show ?case by (simp add: merge_step insert_commute)
next
  case (greater h1 c1 h2 c2)
  then show ?case by (simp add: merge_step insert_commute)
qed simp_all

lemma hashed_simps [simp]:
  "hashed n []" "hashed n (c # cl) \<longleftrightarrow> ch_hash c = bucket n (ch_id c) \<and> hashed n cl"
  "hashed n (cl @ cl') \<longleftrightarrow> hashed n cl \<and> hashed n cl'"
  by (auto simp: hashed_def)

lemma merge_hashed: "hashed n c1 \<Longrightarrow> hashed n c2 \<Longrightarrow> hashed n (merge_clusters c1 c2)"
proof (induction c1 c2 rule: merge_induct)
  case (eq h1 c1 h2 c2)
  then have "hashed n (merge_clusters c1 c2)" "ch_hash h1 = bucket n (ch_id h1)" by simp_all
  then show ?case using eq(1,2) by (simp add: merge_step)
qed (simp_all add: merge_step)

lemma merge_below:
  "\<forall>c \<in> set c1. cl_less h c \<Longrightarrow> \<forall>c \<in> set c2. cl_less h c \<Longrightarrow> \<forall>c \<in> set (merge_clusters c1 c2). cl_less h c"
  by (induction c1 c2 rule: merge_induct) (simp_all add: merge_step)

lemma cl_less_eq:
  "ch_hash a = ch_hash b \<Longrightarrow> ch_id a = ch_id b \<Longrightarrow> cl_less a c = cl_less b c"
  by (simp add: cl_less_def)

lemma merge_sorted:
  "sorted_wrt cl_less c1 \<Longrightarrow> sorted_wrt cl_less c2 \<Longrightarrow> sorted_wrt cl_less (merge_clusters c1 c2)"
proof (induction c1 c2 rule: merge_induct)
  case (eq h1 c1 h2 c2)
  then have "\<forall>c \<in> set (merge_clusters c1 c2). cl_less h1 c"
    using cl_less_eq [OF eq(1,2)] by (intro merge_below) simp_all
  then show ?case using eq by (simp add: merge_step)
next
  case (less h1 c1 h2 c2)
  then have "\<forall>c \<in> set (merge_clusters (h1 # c1) c2). cl_less h2 c"
    using cl_less_trans [OF less(1)] by (intro merge_below) simp_all
  then show ?case using less by (simp add: merge_step)
next
  case (greater h1 c1 h2 c2)
  then have "\<forall>c \<in> set (merge_clusters c1 (h2 # c2)). cl_less h1 c"
    using cl_less_trans [OF greater(1)] by (intro merge_below) simp_all
  then show ?case using greater by (simp add: merge_step)
qed simp_all

lemma merge_look:
  "sorted_wrt cl_less c1 \<Longrightarrow> sorted_wrt cl_less c2 \<Longrightarrow> hashed n c1 \<Longrightarrow> hashed n c2 \<Longrightarrow>
   look (merge_clusters c1 c2) i = look c1 i @ look c2 i"
proof (induction c1 c2 rule: merge_induct)
  case (eq h1 c1 h2 c2)
  then have "look (merge_clusters c1 c2) i = look c1 i @ look c2 i" by (simp add: hashed_def)
  then show ?case using look_after [OF eq(4,6)] eq(1,2) by (cases "i = ch_id h1") (simp_all add: merge_step)
next
  case (less h1 c1 h2 c2)
  then have s: "sorted_wrt cl_less (h2 # h1 # c1)" "hashed n (h2 # h1 # c1)"
    using cl_less_trans [OF less(1)] by (simp_all add: hashed_def)
  have "look (merge_clusters (h1 # c1) c2) i = look (h1 # c1) i @ look c2 i"
    using less by (simp add: hashed_def)
  then show ?case using look_after [OF s] less(1) by (auto simp: merge_step)
next
  case (greater h1 c1 h2 c2)
  then have "look (merge_clusters c1 (h2 # c2)) i = look c1 i @ look (h2 # c2) i" by (simp add: hashed_def)
  then show ?case using greater(1) by (simp add: merge_step)
qed simp_all

subsection \<open>What a scan adds\<close>

text \<open>The points a list of additions gives one cluster, and the list of clusters in order that belongs to it.\<close>

definition pts :: "(u64 \<times> 'v pt) list \<Rightarrow> u64 \<Rightarrow> 'v pt list" where
  "pts em i = map snd (filter (\<lambda>e. fst e = i) em)"

lemma pts_simps [simp]:
  "pts [] i = []" "pts (e # em) i = (if fst e = i then snd e # pts em i else pts em i)"
  "pts (em @ em') i = pts em i @ pts em' i"
  by (simp_all add: pts_def)

lemma pts_none: "i \<notin> fst ` set em \<Longrightarrow> pts em i = []"
  by (induction em) auto

definition clusters_ok :: "nat \<Rightarrow> (u64 \<times> 'v pt) list \<Rightarrow> 'v cluster_hash list \<Rightarrow> bool" where
  "clusters_ok n em cl \<longleftrightarrow> sorted_wrt cl_less cl \<and> hashed n cl \<and> ch_id ` set cl = fst ` set em \<and> (\<forall>i. look cl i = pts em i)"

lemma merge_clusters_ok:
  assumes "clusters_ok n em1 c1" "clusters_ok n em2 c2"
  shows "clusters_ok n (em1 @ em2) (merge_clusters c1 c2)"
  using assms by (auto simp: clusters_ok_def merge_ids merge_sorted merge_hashed merge_look image_Un)

lemma look_in:
  assumes "sorted_wrt cl_less cl" "hashed n cl" "c \<in> set cl"
  shows "look cl (ch_id c) = ch_data c"
  using assms
proof (induction cl)
  case (Cons h cl)
  show ?case
  proof (cases "c = h")
    case True
    then show ?thesis using look_after [OF Cons.prems(1,2)] by simp
  next
    case False
    then have c: "c \<in> set cl" using Cons.prems(3) by simp
    then have "cl_less h c" "ch_hash c = bucket n (ch_id c)" using Cons.prems(1,2) by (auto simp: hashed_def)
    then have "ch_id h \<noteq> ch_id c" using Cons.prems(2) by (auto simp: cl_less_def)
    then show ?thesis using Cons.IH Cons.prems c by simp
  qed
qed simp

subsection \<open>The hash table\<close>

definition pools_used :: "'v gc \<Rightarrow> nat" where
  "pools_used st = gc_pool_idx st * mem_chunk_size + gc_pool_loc st"

definition chain_ok :: "nat \<Rightarrow> (u64 \<times> 'v pt) list \<Rightarrow> nat \<Rightarrow> 'v uint64_zarray_entry list \<Rightarrow> bool" where
  "chain_ok n em b es \<longleftrightarrow> distinct (map ze_id es) \<and>
     (\<forall>e \<in> set es. unat (bucket n (ze_id e)) = b \<and> ze_cluster e = pts em (ze_id e) \<and> ze_id e \<in> fst ` set em) \<and>
     (\<forall>i \<in> fst ` set em. unat (bucket n i) = b \<longrightarrow> i \<in> ze_id ` set es)"

definition table_ok :: "nat \<Rightarrow> (u64 \<times> 'v pt) list \<Rightarrow> 'v gc \<Rightarrow> bool" where
  "table_ok n em st \<longleftrightarrow> length (gc_map st) = n \<and> (\<forall>b < n. chain_ok n em b (gc_map st ! b)) \<and>
     pools_used st = card (fst ` set em) \<and> gc_pool_loc st \<le> mem_chunk_size"

lemma bucket_less: "0 < n \<Longrightarrow> n < 2 ^ 32 \<Longrightarrow> unat (bucket n i) < n"
  by (simp add: bucket_def unat_mod_distrib unat_of_nat take_bit_nat_eq_self)

lemma chain_add_None: "chain_add i p es = None \<longleftrightarrow> i \<notin> ze_id ` set es"
  by (induction es) auto

lemma chain_add_Some:
  "chain_add i p es = Some es' \<Longrightarrow> distinct (map ze_id es) \<Longrightarrow>
   es' = map (\<lambda>e. if ze_id e = i then e\<lparr>ze_cluster := ze_cluster e @ [p]\<rparr> else e) es"
proof (induction es arbitrary: es')
  case (Cons e es)
  show ?case
  proof (cases "ze_id e = i")
    case True
    then have "\<forall>e' \<in> set es. ze_id e' \<noteq> i" using Cons.prems(2) by (metis distinct.simps(2) image_eqI list.set_map list.simps(9))
    then show ?thesis using Cons.prems(1) True by (auto intro!: map_idI [symmetric])
  next
    case False
    then show ?thesis using Cons by auto
  qed
qed simp

lemma chain_ok_add:
  assumes "chain_ok n em b es" "unat (bucket n i) = b" "chain_add i p es = Some es'"
  shows "chain_ok n (em @ [(i, p)]) b es'"
proof -
  have es': "es' = map (\<lambda>e. if ze_id e = i then e\<lparr>ze_cluster := ze_cluster e @ [p]\<rparr> else e) es"
    using assms by (intro chain_add_Some) (simp_all add: chain_ok_def)
  have ids: "map ze_id es' = map ze_id es" by (simp add: es')
  have "i \<in> ze_id ` set es" using assms(3) chain_add_None [of i p es] by auto
  moreover have "ze_id ` set es' = ze_id ` set es" using ids by (metis list.set_map)
  moreover have "ze_cluster e = pts (em @ [(i, p)]) (ze_id e) \<and> unat (bucket n (ze_id e)) = b \<and> ze_id e \<in> fst ` set (em @ [(i, p)])"
    if "e \<in> set es'" for e
    using that assms(1) unfolding chain_ok_def es' by (auto split: if_splits)
  ultimately show ?thesis using assms(1) unfolding chain_ok_def ids by simp
qed

lemma chain_ok_new:
  assumes "chain_ok n em b es" "unat (bucket n i) = b" "i \<notin> ze_id ` set es"
  shows "chain_ok n (em @ [(i, p)]) b (\<lparr>ze_id = i, ze_cluster = [p]\<rparr> # es)"
proof -
  have "i \<notin> fst ` set em" using assms unfolding chain_ok_def by blast
  then show ?thesis using assms pts_none [of i em] unfolding chain_ok_def by auto
qed

lemma chain_ok_other: "chain_ok n em b es \<Longrightarrow> unat (bucket n i) \<noteq> b \<Longrightarrow> chain_ok n (em @ [(i, p)]) b es"
  unfolding chain_ok_def by auto

lemma cluster_add_ok:
  assumes t: "table_ok n em st" and n: "0 < n" "n < 2 ^ 32"
    and room: "card (fst ` set (em @ [(i, p)])) \<le> mem_chunk_size * n_pools n"
  shows "\<exists>st'. cluster_add n i p st = Inr st' \<and> table_ok n (em @ [(i, p)]) st' \<and> gc_uf st' = gc_uf st \<and> gc_connected st'"
proof -
  let ?b = "unat (bucket n i)" and ?m = "gc_map st"
  have b: "?b < length ?m" "length ?m = n" using t bucket_less [OF n] by (simp_all add: table_ok_def)
  have ch: "chain_ok n em ?b (?m ! ?b)" using t b by (simp add: table_ok_def)
  have upd: "table_ok n (em @ [(i, p)]) (st'\<lparr>gc_map := ?m[?b := es], gc_connected := True\<rparr>)"
    if "chain_ok n (em @ [(i, p)]) ?b es" "pools_used st' = card (fst ` set (em @ [(i, p)]))" "gc_pool_loc st' \<le> mem_chunk_size" for st' es
    using t that b chain_ok_other [of n em _ _ i p] by (auto simp: table_ok_def nth_list_update pools_used_def)
  show ?thesis
  proof (cases "chain_add i p (?m ! ?b)")
    case (Some es)
    then have "i \<in> ze_id ` set (?m ! ?b)" using chain_add_None [of i p "?m ! ?b"] by auto
    then have "i \<in> fst ` set em" using ch unfolding chain_ok_def by auto
    then have "fst ` set (em @ [(i, p)]) = fst ` set em" by auto
    then show ?thesis
      using upd [OF chain_ok_add [OF ch refl Some], of st] t n b Some by (simp add: cluster_add_def Let_def cmem table_ok_def)
  next
    case None
    then have i: "i \<notin> ze_id ` set (?m ! ?b)" by (simp add: chain_add_None)
    then have "i \<notin> fst ` set em" using ch unfolding chain_ok_def by blast
    then have card: "card (fst ` set (em @ [(i, p)])) = Suc (card (fst ` set em))" by simp
    have used: "gc_pool_idx st * mem_chunk_size + gc_pool_loc st = card (fst ` set em)" "gc_pool_loc st \<le> mem_chunk_size"
      using t by (simp_all add: table_ok_def pools_used_def)
    have "\<exists>st'. pool_alloc n st = Inr st' \<and> pools_used st' = Suc (card (fst ` set em)) \<and> gc_pool_loc st' \<le> mem_chunk_size \<and>
        gc_map st' = ?m \<and> gc_uf st' = gc_uf st"
    proof (cases "gc_pool_loc st = mem_chunk_size")
      case True
      then have "(gc_pool_idx st + 1) * mem_chunk_size < n_pools n * mem_chunk_size"
        using used(1) room card by (simp add: mult.commute)
      then have "gc_pool_idx st + 1 < n_pools n" by (simp only: mult_less_cancel2)
      then show ?thesis using True used by (simp add: pool_alloc_def pools_used_def mem_chunk_size_def)
    next
      case False
      then show ?thesis using used by (simp add: pool_alloc_def pools_used_def)
    qed
    then obtain st' where st': "pool_alloc n st = Inr st'" "pools_used st' = card (fst ` set (em @ [(i, p)]))"
        "gc_pool_loc st' \<le> mem_chunk_size" "gc_map st' = ?m" "gc_uf st' = gc_uf st"
      using card by auto
    then show ?thesis
      using upd [OF chain_ok_new [OF ch refl i] st'(2,3)] n b None by (simp add: cluster_add_def Let_def cmem)
  qed
qed

subsection \<open>The table as a sorted list\<close>

lemma bucket_out_ok:
  assumes "chain_ok n em b es"
  shows "\<exists>out. bucket_out n cl es = Inr (cl @ out) \<and> set out = mk_cluster n ` set es \<and> sorted_wrt cl_less out"
proof -
  obtain ys where ys: "bubble_sort (length cl) (length es) (cl @ map (mk_cluster n) es) = Inr (cl @ ys)"
      "mset ys = mset (map (mk_cluster n) es)" "sorted (map ch_id ys)"
    using bubble_sort_ok [of "length es" "map (mk_cluster n) es" cl] by auto
  have set: "set ys = mk_cluster n ` set es" using ys(2) mset_eq_setD by fastforce
  have "mset (map ch_id ys) = mset (map ze_id es)" using ys(2) by (simp add: mk_cluster_def multiset.map_comp comp_def)
  then have "distinct (map ch_id ys)" using assms mset_eq_imp_distinct_iff unfolding chain_ok_def by blast
  then have lt: "sorted_wrt (\<lambda>a b. ch_id a < ch_id b) ys"
    using ys(3) by (simp add: sorted_wrt_map [symmetric] strict_sorted_iff)
  have same: "ch_hash a = ch_hash c" if ac: "a \<in> set ys" "c \<in> set ys" for a c
  proof -
    have "unat (ch_hash d) = b" if "d \<in> set ys" for d
      using that assms unfolding set chain_ok_def by (auto simp: mk_cluster_def)
    then show ?thesis using ac by (metis unsigned_word_eqI)
  qed
  have "sorted_wrt cl_less ys"
    by (rule sorted_wrt_mono_rel [OF _ lt]) (unfold cl_less_def, blast intro: same)
  moreover have "bucket_out n cl es = Inr (cl @ ys)"
    using ys(1) by (simp add: bucket_out_def Let_def)
  ultimately show ?thesis using set by blast
qed

lemma buckets_out_ok:
  assumes "\<forall>k < length ms. chain_ok n em (b + k) (ms ! k)"
  shows "\<exists>out. foldE (bucket_out n) ms cl = Inr (cl @ out) \<and> set out = mk_cluster n ` (\<Union>(set ` set ms)) \<and> sorted_wrt cl_less out"
  using assms
proof (induction ms arbitrary: b cl)
  case (Cons es ms)
  have es: "chain_ok n em b es" using Cons.prems [rule_format, of 0] by simp
  obtain o1 where o1: "bucket_out n cl es = Inr (cl @ o1)" "set o1 = mk_cluster n ` set es" "sorted_wrt cl_less o1"
    using bucket_out_ok [OF es] by blast
  have ms: "\<forall>k < length ms. chain_ok n em (Suc b + k) (ms ! k)"
    using Cons.prems [rule_format, of "Suc _"] by simp
  obtain o2 where o2: "foldE (bucket_out n) ms (cl @ o1) = Inr ((cl @ o1) @ o2)" "set o2 = mk_cluster n ` (\<Union>(set ` set ms))" "sorted_wrt cl_less o2"
    using Cons.IH [OF ms, of "cl @ o1"] by (elim exE conjE)
  have "cl_less a c" if ac: "a \<in> set o1" "c \<in> set o2" for a c
  proof -
    have "unat (ch_hash a) = b" using ac(1) es unfolding o1(2) chain_ok_def by (auto simp: mk_cluster_def)
    moreover obtain fs e where "fs \<in> set ms" and e: "e \<in> set fs" "c = mk_cluster n e"
      using ac(2) unfolding o2(2) by blast
    then obtain k where "k < length ms" "e \<in> set (ms ! k)" "c = mk_cluster n e" by (auto simp: in_set_conv_nth)
    then have "unat (ch_hash c) = Suc b + k" using ms unfolding chain_ok_def by (auto simp: mk_cluster_def)
    ultimately show ?thesis by (simp add: cl_less_def word_less_nat_alt)
  qed
  then have "sorted_wrt cl_less (o1 @ o2)" using o1(3) o2(3) by (simp add: sorted_wrt_append)
  then show ?case using o1(1,2) o2(1,2) by (auto intro!: exI [of _ "o1 @ o2"])
qed simp

lemma table_out_ok:
  assumes t: "table_ok n em st" and n: "0 < n" "n < 2 ^ 32"
  shows "\<exists>out. foldE (bucket_out n) (gc_map st) cl = Inr (cl @ out) \<and> clusters_ok n em out"
proof -
  have len: "length (gc_map st) = n" and ch: "\<And>b. b < n \<Longrightarrow> chain_ok n em b (gc_map st ! b)" using t by (simp_all add: table_ok_def)
  obtain out where out: "foldE (bucket_out n) (gc_map st) cl = Inr (cl @ out)"
      "set out = mk_cluster n ` (\<Union>(set ` set (gc_map st)))" "sorted_wrt cl_less out"
    using buckets_out_ok [of "gc_map st" n em 0 cl] ch len by auto
  have elem: "ch_hash c = bucket n (ch_id c) \<and> ch_data c = pts em (ch_id c) \<and> ch_id c \<in> fst ` set em" if c: "c \<in> set out" for c
  proof -
    obtain es e where "es \<in> set (gc_map st)" and e: "e \<in> set es" "c = mk_cluster n e"
      using c unfolding out(2) by blast
    then obtain b where "b < n" "gc_map st ! b = es" using len by (auto simp: in_set_conv_nth)
    then show ?thesis using ch [of b] e unfolding chain_ok_def by (auto simp: mk_cluster_def)
  qed
  then have h: "hashed n out" by (simp add: hashed_def)
  have ids: "ch_id ` set out = fst ` set em"
  proof (rule equalityI)
    show "fst ` set em \<subseteq> ch_id ` set out"
    proof
      fix i assume i: "i \<in> fst ` set em"
      let ?b = "unat (bucket n i)"
      have b: "?b < n" by (rule bucket_less [OF n])
      have "i \<in> ze_id ` set (gc_map st ! ?b)" using ch [OF b, unfolded chain_ok_def, THEN conjunct2, THEN conjunct2] i by blast
      then obtain e where e: "e \<in> set (gc_map st ! ?b)" "ze_id e = i" by auto
      have "gc_map st ! ?b \<in> set (gc_map st)" using b len by simp
      then have "mk_cluster n e \<in> set out" using e(1) unfolding out(2) by blast
      moreover have "ch_id (mk_cluster n e) = i" using e(2) by (simp add: mk_cluster_def)
      ultimately show "i \<in> ch_id ` set out" by blast
    qed
    show "ch_id ` set out \<subseteq> fst ` set em" by (rule image_subsetI) (rule elem [THEN conjunct2, THEN conjunct2])
  qed
  have "look out i = pts em i" for i
  proof (cases "i \<in> ch_id ` set out")
    case True
    then obtain c where c: "c \<in> set out" "ch_id c = i" by auto
    then show ?thesis using look_in [OF out(3) h c(1)] elem [OF c(1)] by simp
  next
    case False
    then show ?thesis using look_none [of i out] pts_none [of i em] ids by simp
  qed
  then show ?thesis using out(1,3) h ids unfolding clusters_ok_def by blast
qed

subsection \<open>What the scan adds\<close>

text \<open>
  The additions of a pixel, a row and some rows over a fixed partition: the same case distinctions without
  the hash table, the forest and the bounds checks.
\<close>

definition conn :: "image_u8 \<Rightarrow> nat \<Rightarrow> unionfind \<Rightarrow> nat \<Rightarrow> nat \<Rightarrow> int \<Rightarrow> int \<Rightarrow> (u64 \<times> 'v::zero pt) list" where
  "conn im w uf x y dx dy =
     (let x' = nat (int x + dx); y' = nat (int y + dy); v0 = col im x y; v1 = col im x' y' in
      if unat v0 + unat v1 = 255 \<and> csize uf (node w x' y') > 24
      then [(clusterid (uf_rep uf (node w x y)) (uf_rep uf (node w x' y')), grad_pt (int x) (int y) dx dy v0 v1)] else [])"

definition eligible :: "image_u8 \<Rightarrow> nat \<Rightarrow> unionfind \<Rightarrow> nat \<Rightarrow> nat \<Rightarrow> bool" where
  "eligible im w uf x y \<longleftrightarrow> col im x y \<noteq> 127 \<and> 25 \<le> csize uf (node w x y)"

primrec row_adds :: "image_u8 \<Rightarrow> nat \<Rightarrow> unionfind \<Rightarrow> nat \<Rightarrow> nat list \<Rightarrow> bool \<Rightarrow> (u64 \<times> 'v::zero pt) list" where
  "row_adds im w uf y [] connected_last = []"
| "row_adds im w uf y (x # xs) connected_last =
     (if eligible im w uf x y
      then conn im w uf x y 1 0 @ conn im w uf x y 0 1 @ (if connected_last then [] else conn im w uf x y (- 1) 1) @
        conn im w uf x y 1 1 @ row_adds im w uf y xs ((conn im w uf x y 1 1 :: (u64 \<times> 'v pt) list) \<noteq> [])
      else row_adds im w uf y xs False)"

definition rows_adds :: "image_u8 \<Rightarrow> nat \<Rightarrow> unionfind \<Rightarrow> nat list \<Rightarrow> (u64 \<times> 'v::zero pt) list" where
  "rows_adds im w uf ys = concat (map (\<lambda>y. row_adds im w uf y [1..<w - 1] False) ys)"

lemma rep_size_ok:
  assumes "uf_inv uf" "i < length (uf_parent uf)"
  shows "\<exists>u v. unionfind_get_representative uf i = Inr (u, uf_rep uf i) \<and>
    unionfind_get_set_size u (uf_rep uf i) = Inr (v, csize uf i) \<and> uf_inv v \<and> uf_same uf v"
  using ufp.rep_then_size [OF assms] unfolding uf_same_iff by blast

lemma uf_same_csize:
  "uf_same uf u \<Longrightarrow> i < length (uf_parent uf) \<Longrightarrow> csize u i = csize uf i \<and> uf_rep u i = uf_rep uf i"
  by (simp add: uf_same_iff)

lemma uf_same_trans: "uf_same u v \<Longrightarrow> uf_same v w \<Longrightarrow> uf_same u w"
  by (simp add: uf_same_def)

text \<open>The invariant of the scan: the table holds the additions so far and the partition is the given one.\<close>

definition scan_ok :: "nat \<Rightarrow> unionfind \<Rightarrow> (u64 \<times> 'v pt) list \<Rightarrow> 'v gc \<Rightarrow> bool" where
  "scan_ok n uf em st \<longleftrightarrow> table_ok n em st \<and> uf_inv (gc_uf st) \<and> uf_same uf (gc_uf st)"

text \<open>The table has buckets and the pools room for the clusters.\<close>

definition room :: "nat \<Rightarrow> u64 set \<Rightarrow> bool" where
  "room n ids \<longleftrightarrow> 0 < n \<and> n < 2 ^ 32 \<and> finite ids \<and> card ids \<le> mem_chunk_size * n_pools n"

lemma scan_add:
  assumes "scan_ok n uf em st" "room n ids" "fst ` set (em @ [(i, p)]) \<subseteq> ids"
  shows "\<exists>st'. cluster_add n i p st = Inr st' \<and> scan_ok n uf (em @ [(i, p)]) st' \<and> gc_connected st'"
proof -
  have "card (fst ` set (em @ [(i, p)])) \<le> mem_chunk_size * n_pools n"
    using assms(2,3) card_mono [of ids "fst ` set (em @ [(i, p)])"] by (simp add: room_def)
  then show ?thesis
    using cluster_add_ok [of n em st i p] assms(1,2) unfolding scan_ok_def room_def by auto
qed

lemma scan_uf: "scan_ok n uf em st \<Longrightarrow> uf_inv u \<Longrightarrow> uf_same (gc_uf st) u \<Longrightarrow> scan_ok n uf em (st\<lparr>gc_uf := u\<rparr>)"
  using uf_same_trans by (auto simp: scan_ok_def table_ok_def pools_used_def)

lemma scan_flag: "scan_ok n uf em st \<Longrightarrow> scan_ok n uf em (st\<lparr>gc_connected := b\<rparr>)"
  by (auto simp: scan_ok_def table_ok_def pools_used_def)

lemma DO_CONN_ok:
  fixes st :: "'v::zero gc"
  assumes ok: "im_ok im w h" and len: "length (uf_parent uf) = Suc (w * h)"
    and st: "scan_ok n uf em st" "room n ids"
    and xy: "x < w" "y < h" and x': "nat (int x + dx) < w" "0 \<le> int x + dx" and y': "nat (int y + dy) < h" "0 \<le> int y + dy"
    and ids: "fst ` set (em @ conn im w uf x y dx dy) \<subseteq> ids"
  shows "\<exists>st'. DO_CONN im (im_stride im) (int w) n (int y) (int x) (col im x y) (uf_rep uf (node w x y)) dx dy st = Inr st' \<and>
    scan_ok n uf (em @ conn im w uf x y dx dy) st' \<and>
    (gc_connected st' \<longleftrightarrow> gc_connected st \<or> (conn im w uf x y dx dy :: (u64 \<times> 'v pt) list) \<noteq> [])"
proof -
  let ?x = "nat (int x + dx)" and ?y = "nat (int y + dy)"
  let ?i = "node w ?x ?y"
  have "(int y + dy) * im_stride im + int x + dx = int ?y * im_stride im + int ?x" using x'(2) y'(2) by simp
  then have g: "vget (im_buf im) ((int y + dy) * im_stride im + int x + dx) = Inr (col im ?x ?y)"
    using im_get [OF ok x'(1) y'(1)] by simp
  have "(int y + dy) * int w + int x + dx = int ?i" using x'(2) y'(2) by (simp add: node_def)
  then have nn: "nat ((int y + dy) * int w + int x + dx) = ?i" by (simp only: nat_int)
  have "?y * w + ?x < Suc ?y * w" "Suc ?y * w \<le> h * w" using x'(1) y'(1) by (simp, intro mult_le_mono1) simp
  then have i: "?i < length (uf_parent uf)" by (simp add: node_def len mult.commute)
  have same: "uf_inv (gc_uf st)" "uf_same uf (gc_uf st)" using st(1) by (simp_all add: scan_ok_def)
  then obtain u v where uv: "unionfind_get_representative (gc_uf st) ?i = Inr (u, uf_rep uf ?i)"
      "unionfind_get_set_size u (uf_rep uf ?i) = Inr (v, csize uf ?i)" "uf_inv v" "uf_same (gc_uf st) v"
    using rep_size_ok [of "gc_uf st" ?i] uf_same_csize [OF same(2) i] i by (auto simp: uf_same_def)
  have sv: "scan_ok n uf em (st\<lparr>gc_uf := v\<rparr>)" by (rule scan_uf [OF st(1) uv(3,4)])
  show ?thesis
  proof (cases "unat (col im x y) + unat (col im ?x ?y) = 255 \<and> csize uf ?i > 24")
    case True
    let ?id = "clusterid (uf_rep uf (node w x y)) (uf_rep uf ?i)" and ?p = "grad_pt (int x) (int y) dx dy (col im x y) (col im ?x ?y) :: 'v pt"
    have c: "conn im w uf x y dx dy = [(?id, ?p)]" using True by (simp add: conn_def Let_def)
    have "DO_CONN im (im_stride im) (int w) n (int y) (int x) (col im x y) (uf_rep uf (node w x y)) dx dy st =
        cluster_add n ?id ?p (st\<lparr>gc_uf := v\<rparr>)"
      unfolding DO_CONN_def g bindE.simps nn uv(1) using True uv(2) by (simp add: Let_def)
    moreover have "fst ` set (em @ [(?id, ?p)]) \<subseteq> ids" using ids unfolding c .
    note scan_add [OF sv st(2) this]
    ultimately show ?thesis unfolding c by auto
  next
    case False
    then have "conn im w uf x y dx dy = ([] :: (u64 \<times> 'v pt) list)" by (auto simp: conn_def Let_def)
    moreover have "\<exists>st'. DO_CONN im (im_stride im) (int w) n (int y) (int x) (col im x y) (uf_rep uf (node w x y)) dx dy st = Inr st' \<and>
        scan_ok n uf em st' \<and> gc_connected st' = gc_connected st"
      unfolding DO_CONN_def g bindE.simps nn uv(1) using False uv(2) sv st(1) by (simp add: Let_def)
    ultimately show ?thesis by auto
  qed
qed

lemma gc_pixel_ok:
  fixes st :: "'v::zero gc"
  assumes ok: "im_ok im w h" and len: "length (uf_parent uf) = Suc (w * h)"
    and st: "scan_ok n uf em st" "room n ids"
    and xy: "1 \<le> x" "x < w - 1" "y + 1 < h"
    and ids: "fst ` set (em @ row_adds im w uf y (x # xs) cl) \<subseteq> ids"
  shows "\<exists>st' px cl'. gc_pixel im (im_stride im) (int w) n (int y) (cl, st) (int x) = Inr (cl', st') \<and>
    scan_ok n uf (em @ px) st' \<and> (row_adds im w uf y (x # xs) cl :: (u64 \<times> 'v pt) list) = px @ row_adds im w uf y xs cl'"
proof -
  let ?i = "node w x y"
  have g: "vget (im_buf im) (int y * im_stride im + int x) = Inr (col im x y)"
    using im_get [OF ok, of x y] xy by simp
  have nn: "nat (int y * int w + int x) = ?i" by (simp add: node_def nat_eq_iff)
  have "y * w + x < Suc y * w" "Suc y * w \<le> h * w" using xy by (simp, intro mult_le_mono1) simp
  then have i: "?i < length (uf_parent uf)" by (simp add: node_def len mult.commute)
  have same: "uf_inv (gc_uf st)" "uf_same uf (gc_uf st)" using st(1) by (simp_all add: scan_ok_def)
  then obtain u v where uv: "unionfind_get_representative (gc_uf st) ?i = Inr (u, uf_rep uf ?i)"
      "unionfind_get_set_size u (uf_rep uf ?i) = Inr (v, csize uf ?i)" "uf_inv v" "uf_same (gc_uf st) v"
    using rep_size_ok [of "gc_uf st" ?i] uf_same_csize [OF same(2) i] i by (auto simp: uf_same_def)
  have sv: "scan_ok n uf em (st\<lparr>gc_uf := v\<rparr>)" by (rule scan_uf [OF st(1) uv(3,4)])
  show ?thesis
  proof (cases "eligible im w uf x y")
    case False
    then have "gc_pixel im (im_stride im) (int w) n (int y) (cl, st) (int x) =
        Inr (False, if col im x y = 127 then st else st\<lparr>gc_uf := v\<rparr>)"
      unfolding gc_pixel_def prod.case g bindE.simps nn uv(1,2) by (auto simp: eligible_def uv(2) Let_def)
    moreover have "scan_ok n uf (em @ []) (if col im x y = 127 then st else st\<lparr>gc_uf := v\<rparr>)" using st(1) sv by simp
    moreover have "row_adds im w uf y (x # xs) cl = [] @ row_adds im w uf y xs False" using False by simp
    ultimately show ?thesis by blast
  next
    case True
    let ?c = "\<lambda>dx dy. conn im w uf x y dx dy :: (u64 \<times> 'v pt) list"
    let ?d = "if cl then [] else ?c (- 1) 1"
    let ?D = "DO_CONN im (im_stride im) (int w) n (int y) (int x) (col im x y) (uf_rep uf ?i)"
    note conn_ok = DO_CONN_ok [OF ok len _ st(2), of _ _ x y]
    have ids': "fst ` set (em @ ?c 1 0 @ ?c 0 1 @ ?d @ ?c 1 1) \<subseteq> ids"
      using ids True by (cases cl) (simp_all add: image_Un)
    have b: "x < w" "y < h" "nat (int x + 1) < w" "nat (int x + 0) < w" "nat (int x + - 1) < w" "0 \<le> int x + - 1"
      "nat (int y + 1) < h" "nat (int y + 0) < h" using xy by linarith+
    obtain s1 where s1: "?D 1 0 (st\<lparr>gc_uf := v\<rparr>) = Inr s1" "scan_ok n uf (em @ ?c 1 0) s1"
      using conn_ok [OF sv, of 1 0] ids' b by auto
    obtain s2 where s2: "?D 0 1 s1 = Inr s2" "scan_ok n uf ((em @ ?c 1 0) @ ?c 0 1) s2"
      using conn_ok [OF s1(2), of 0 1] ids' b by auto
    obtain s3 where s3: "(if \<not> cl then ?D (- 1) 1 s2 else Inr s2) = Inr s3" "scan_ok n uf (((em @ ?c 1 0) @ ?c 0 1) @ ?d) s3"
    proof (cases cl)
      case True
      then show ?thesis using that s2(2) by simp
    next
      case False
      then show ?thesis using that conn_ok [OF s2(2), of "- 1" 1] ids' b by auto
    qed
    obtain s4 where s4: "?D 1 1 (s3\<lparr>gc_connected := False\<rparr>) = Inr s4"
      "scan_ok n uf ((((em @ ?c 1 0) @ ?c 0 1) @ ?d) @ ?c 1 1) s4" "gc_connected s4 \<longleftrightarrow> ?c 1 1 \<noteq> []"
      using conn_ok [OF scan_flag [OF s3(2), of False], of 1 1] ids' b by auto
    have "gc_pixel im (im_stride im) (int w) n (int y) (cl, st) (int x) = Inr (?c 1 1 \<noteq> [], s4)"
      using True unfolding gc_pixel_def prod.case g bindE.simps nn uv(1) eligible_def
      by (simp add: uv(2) Let_def s1(1) s2(1) s4(1,3) s3(1) [simplified])
    moreover have "scan_ok n uf (em @ ?c 1 0 @ ?c 0 1 @ ?d @ ?c 1 1) s4" using s4(2) by simp
    moreover have "row_adds im w uf y (x # xs) cl = (?c 1 0 @ ?c 0 1 @ ?d @ ?c 1 1) @ row_adds im w uf y xs (?c 1 1 \<noteq> [])"
      using True by simp
    ultimately show ?thesis by blast
  qed
qed

lemma gc_row_ok:
  fixes st :: "'v::zero gc"
  assumes ok: "im_ok im w h" and len: "length (uf_parent uf) = Suc (w * h)" and st: "scan_ok n uf em st" "room n ids"
    and y: "y + 1 < h" and xs: "set xs \<subseteq> {1..<w - 1}" and ids: "fst ` set (em @ row_adds im w uf y xs cl) \<subseteq> ids"
  shows "\<exists>cl' st'. foldE (gc_pixel im (im_stride im) (int w) n (int y)) (map int xs) (cl, st) = Inr (cl', st') \<and>
    scan_ok n uf (em @ row_adds im w uf y xs cl) st'"
  using st(1) xs ids
proof (induction xs arbitrary: em cl st)
  case (Cons x xs)
  have x: "1 \<le> x" "x < w - 1" using Cons.prems(2) by auto
  obtain st' px cl' where p: "gc_pixel im (im_stride im) (int w) n (int y) (cl, st) (int x) = Inr (cl', st')"
      "scan_ok n uf (em @ px) st'" "row_adds im w uf y (x # xs) cl = px @ row_adds im w uf y xs cl'"
    using gc_pixel_ok [OF ok len Cons.prems(1) st(2) x y Cons.prems(3)] by blast
  have "fst ` set ((em @ px) @ row_adds im w uf y xs cl') \<subseteq> ids" using Cons.prems(3) unfolding p(3) by simp
  from Cons.IH [OF p(2) _ this] Cons.prems(2) p(1,3) show ?case by simp
qed auto

lemma gc_rows_ok:
  fixes st :: "'v::zero gc"
  assumes ok: "im_ok im w h" and len: "length (uf_parent uf) = Suc (w * h)" and st: "scan_ok n uf em st" "room n ids"
    and ys: "\<forall>y \<in> set ys. y + 1 < h" and ids: "fst ` set (em @ rows_adds im w uf ys) \<subseteq> ids"
  shows "\<exists>st'. foldE (\<lambda>st y.
      bindE (foldE (gc_pixel im (im_stride im) (int w) n y) [1..int w - 2] (False, st)) (\<lambda>(_, st). Inr st)) (map int ys) st = Inr st' \<and>
    scan_ok n uf (em @ rows_adds im w uf ys) st'"
  using st(1) ys ids
proof (induction ys arbitrary: em st)
  case (Cons y ys)
  let ?r = "row_adds im w uf y [1..<w - 1] False :: (u64 \<times> 'v pt) list"
  have split: "rows_adds im w uf (y # ys) = ?r @ rows_adds im w uf ys" by (simp add: rows_adds_def)
  have "y + 1 < h" "set [1..<w - 1] \<subseteq> {1..<w - 1}" "fst ` set (em @ ?r) \<subseteq> ids" using Cons.prems(2,3) unfolding split by auto
  from gc_row_ok [OF ok len Cons.prems(1) st(2) this] obtain cl' st' where
    p: "foldE (gc_pixel im (im_stride im) (int w) n (int y)) [1..int w - 2] (False, st) = Inr (cl', st')" "scan_ok n uf (em @ ?r) st'"
    unfolding int_upto by blast
  have "fst ` set ((em @ ?r) @ rows_adds im w uf ys) \<subseteq> ids" using Cons.prems(3) unfolding split by simp
  from Cons.IH [OF p(2) _ this] Cons.prems(2) p(1) show ?case by (simp add: split)
qed (auto simp: rows_adds_def)

lemma do_gradient_clusters_ok:
  assumes ok: "im_ok im w h" and uf: "length (uf_parent uf0) = Suc (w * h)" "uf_inv uf" "uf_same uf0 uf"
    and y: "1 \<le> y0" "y1 < h" and room: "room n (fst ` set (rows_adds im w uf0 [y0..<y1] :: (u64 \<times> 'v::zero pt) list))"
  shows "\<exists>uf' out. do_gradient_clusters im (im_stride im) (int y0) (int y1) (int w) n uf cl = Inr (uf', cl @ out) \<and>
    uf_inv uf' \<and> uf_same uf0 uf' \<and> clusters_ok n (rows_adds im w uf0 [y0..<y1] :: (u64 \<times> 'v pt) list) out"
proof -
  let ?st = "\<lparr>gc_uf = uf, gc_map = replicate n [], gc_pool_idx = 0, gc_pool_loc = 0, gc_connected = False\<rparr> :: 'v gc"
  have n: "0 < n" "n < 2 ^ 32" using room by (simp_all add: room_def)
  have "scan_ok n uf0 [] ?st" using uf by (simp add: scan_ok_def table_ok_def chain_ok_def pools_used_def)
  moreover have "\<forall>y \<in> set [y0..<y1]. y + 1 < h" using y by auto
  moreover have "fst ` set ([] @ rows_adds im w uf0 [y0..<y1] :: (u64 \<times> 'v pt) list) \<subseteq> fst ` set (rows_adds im w uf0 [y0..<y1] :: (u64 \<times> 'v pt) list)" by simp
  ultimately obtain st where st: "foldE (\<lambda>st y.
      bindE (foldE (gc_pixel im (im_stride im) (int w) n y) [1..int w - 2] (False, st)) (\<lambda>(_, st). Inr st)) [int y0..int y1 - 1] ?st = Inr st"
      "scan_ok n uf0 (rows_adds im w uf0 [y0..<y1]) st"
    using gc_rows_ok [OF ok uf(1) _ room, of "[]" ?st "[y0..<y1]"] by (auto simp: map_int_upt)
  obtain out where out: "foldE (bucket_out n) (gc_map st) cl = Inr (cl @ out)" "clusters_ok n (rows_adds im w uf0 [y0..<y1]) out"
    using table_out_ok [OF _ n] st(2) unfolding scan_ok_def by blast
  show ?thesis
    using st out by (auto simp: do_gradient_clusters_def scan_ok_def)
qed

subsection \<open>Tasks and the pairwise merging\<close>

lemma cluster_tasks_rows:
  "0 \<le> i \<Longrightarrow> 0 < c \<Longrightarrow> concat (map (\<lambda>t. [nat (ct_y0 t)..<nat (ct_y1 t)]) (cluster_tasks n sz c i :: 'v cluster_task list)) = [nat i..<nat sz]"
proof (induction n sz c i rule: cluster_tasks.induct)
  case (1 n sz c i)
  show ?case
  proof (cases "i < sz")
    case True
    let ?m = "nat (imin sz (i + c))"
    have m: "nat i \<le> ?m" "?m \<le> nat sz" using True 1(3) by (auto simp: imin_def)
    have "concat (map (\<lambda>t. [nat (ct_y0 t)..<nat (ct_y1 t)]) (cluster_tasks n sz c (i + c) :: 'v cluster_task list)) = [nat (i + c)..<nat sz]"
      using 1 True by simp
    moreover have "[nat (i + c)..<nat sz] = [?m..<nat sz]" using True by (auto simp: imin_def)
    moreover have "[nat i..<nat sz] = [nat i..<?m] @ [?m..<nat sz]"
      using upt_add_eq_append [of "nat i" ?m "nat sz - ?m"] m by simp
    ultimately show ?thesis using True 1(3) by (subst cluster_tasks.simps) simp
  qed (subst cluster_tasks.simps, simp)
qed

lemma cluster_tasks_task:
  "t \<in> set (cluster_tasks n sz c i) \<Longrightarrow> i \<le> ct_y0 t \<and> ct_y1 t \<le> sz \<and> ct_nclustermap t = n \<and> ct_clusters t = []"
proof (induction n sz c i rule: cluster_tasks.induct)
  case (1 n sz c i)
  show ?case
  proof (cases "i < sz \<and> 0 < c")
    case True
    then have "t = \<lparr>ct_y0 = i, ct_y1 = imin sz (i + c), ct_nclustermap = n, ct_clusters = []\<rparr> \<or> t \<in> set (cluster_tasks n sz c (i + c))"
      using 1(2) by (subst (asm) cluster_tasks.simps) simp
    then show ?thesis using 1(1) [OF True] True by (auto simp: imin_def)
  qed (use 1(2) in \<open>subst (asm) cluster_tasks.simps, simp\<close>)
qed

lemma merge_round_ok:
  "list_all2 (clusters_ok n) ems cs \<Longrightarrow> \<exists>ems'. list_all2 (clusters_ok n) ems' (merge_round cs) \<and> concat ems' = concat ems"
proof (induction cs arbitrary: ems rule: merge_round.induct)
  case (1 a b cs)
  then obtain ea eb es where e: "ems = ea # eb # es" "clusters_ok n ea a" "clusters_ok n eb b" "list_all2 (clusters_ok n) es cs"
    by (auto simp: list_all2_Cons2)
  obtain es' where "list_all2 (clusters_ok n) es' (merge_round cs)" "concat es' = concat es" using 1(1) [OF e(4)] by blast
  then show ?case using merge_clusters_ok [OF e(2,3)] e(1) by (intro exI [of _ "(ea @ eb) # es'"]) simp
qed auto

lemma merge_rounds_ok:
  "list_all2 (clusters_ok n) ems cs \<Longrightarrow> cs \<noteq> [] \<Longrightarrow> \<exists>c. merge_rounds cs = [c] \<and> clusters_ok n (concat ems) c"
proof (induction cs arbitrary: ems rule: merge_rounds.induct)
  case (1 cs)
  show ?case
  proof (cases "length cs > 1")
    case True
    obtain ems' where e: "list_all2 (clusters_ok n) ems' (merge_round cs)" "concat ems' = concat ems"
      using merge_round_ok [OF 1(2)] by blast
    have "merge_round cs \<noteq> []" using True length_merge_round [of cs] by auto
    then show ?thesis using 1(1) [OF True e(1)] e(2) True by (subst merge_rounds.simps) simp
  next
    case False
    then obtain c where "cs = [c]" using 1(3) by (cases cs) auto
    then show ?thesis using 1(2) by (subst merge_rounds.simps) (auto simp: list_all2_Cons2)
  qed
qed

text \<open>The tasks of any set of distinct numbers, run in their order.\<close>

definition cl_rows :: "'v cluster_task \<Rightarrow> nat list" where
  "cl_rows t = [nat (ct_y0 t)..<nat (ct_y1 t)]"

lemma run_task_ok:
  fixes tasks :: "'v::zero cluster_task list"
  assumes ok: "im_ok im w h" and uf: "length (uf_parent uf0) = Suc (w * h)" "uf_inv uf" "uf_same uf0 uf" and i: "i < length tasks"
    and t: "1 \<le> ct_y0 (tasks ! i)" "ct_y1 (tasks ! i) \<le> int h - 1" "ct_nclustermap (tasks ! i) = n" "ct_clusters (tasks ! i) = []"
    and room: "room n ids" "fst ` set (rows_adds im w uf0 (cl_rows (tasks ! i)) :: (u64 \<times> 'v pt) list) \<subseteq> ids"
  shows "\<exists>uf' out. run_task im (im_stride im) (int w) (uf, tasks) i = Inr (uf', tasks[i := (tasks ! i)\<lparr>ct_clusters := out\<rparr>]) \<and>
    uf_inv uf' \<and> uf_same uf0 uf' \<and> clusters_ok n (rows_adds im w uf0 (cl_rows (tasks ! i))) out"
proof -
  let ?t = "tasks ! i"
  define y0 y1 where "y0 = nat (ct_y0 ?t)" and "y1 = nat (max 0 (ct_y1 ?t))"
  have r: "cl_rows ?t = [y0..<y1]" by (simp add: cl_rows_def y0_def y1_def max_def)
  have "finite ids" "card ids \<le> mem_chunk_size * n_pools n" "0 < n" "n < 2 ^ 32" using room(1) by (simp_all add: room_def)
  then have rm: "room n (fst ` set (rows_adds im w uf0 [y0..<y1] :: (u64 \<times> 'v pt) list))"
    using card_mono [OF \<open>finite ids\<close> room(2)] r by (simp add: room_def)
  have "1 \<le> h" using ok by (simp add: im_ok_def)
  then have y: "1 \<le> y0" "y1 < h" using t(1,2) by (auto simp: y0_def y1_def)
  have "[ct_y0 ?t..ct_y1 ?t - 1] = [int y0..int y1 - 1]"
    using t(1) by (cases "0 \<le> ct_y1 ?t") (simp_all add: y0_def y1_def)
  then have "do_gradient_clusters im (im_stride im) (ct_y0 ?t) (ct_y1 ?t) (int w) n uf [] =
      do_gradient_clusters im (im_stride im) (int y0) (int y1) (int w) n uf ([] :: 'v cluster_hash list)"
    by (simp add: do_gradient_clusters_def)
  then show ?thesis
    using do_gradient_clusters_ok [OF ok uf y rm, of "[]"] i t(3,4)
    by (auto simp: run_task_def do_cluster_task_def cmem r)
qed

lemma run_tasks_ok:
  fixes tasks :: "'v::zero cluster_task list"
  assumes ok: "im_ok im w h" and uf: "length (uf_parent uf0) = Suc (w * h)" "uf_inv uf" "uf_same uf0 uf"
    and js: "distinct js" "set js \<subseteq> {..<length tasks}"
    and t: "\<forall>i \<in> set js. 1 \<le> ct_y0 (tasks ! i) \<and> ct_y1 (tasks ! i) \<le> int h - 1 \<and> ct_nclustermap (tasks ! i) = n \<and> ct_clusters (tasks ! i) = [] \<and>
      fst ` set (rows_adds im w uf0 (cl_rows (tasks ! i)) :: (u64 \<times> 'v pt) list) \<subseteq> ids"
    and room: "room n ids"
  shows "\<exists>uf' tasks'. foldE (run_task im (im_stride im) (int w)) js (uf, tasks) = Inr (uf', tasks') \<and>
    uf_inv uf' \<and> uf_same uf0 uf' \<and> length tasks' = length tasks \<and>
    (\<forall>i < length tasks. if i \<in> set js then clusters_ok n (rows_adds im w uf0 (cl_rows (tasks ! i))) (ct_clusters (tasks' ! i)) else tasks' ! i = tasks ! i)"
  using uf(2,3) js t
proof (induction js arbitrary: uf tasks)
  case (Cons j js)
  have j: "j < length tasks" using Cons.prems(4) by simp
  obtain uf1 out where r: "run_task im (im_stride im) (int w) (uf, tasks) j = Inr (uf1, tasks[j := (tasks ! j)\<lparr>ct_clusters := out\<rparr>])"
      "uf_inv uf1" "uf_same uf0 uf1" "clusters_ok n (rows_adds im w uf0 (cl_rows (tasks ! j))) out"
    using run_task_ok [OF ok uf(1) Cons.prems(1,2) j _ _ _ _ room] Cons.prems(5) by auto
  let ?T = "tasks[j := (tasks ! j)\<lparr>ct_clusters := out\<rparr>]"
  have other: "?T ! i = tasks ! i" if "i \<in> set js" for i using that Cons.prems(3) by (cases "i = j") auto
  have T: "\<forall>i \<in> set js. 1 \<le> ct_y0 (?T ! i) \<and> ct_y1 (?T ! i) \<le> int h - 1 \<and> ct_nclustermap (?T ! i) = n \<and> ct_clusters (?T ! i) = [] \<and>
      fst ` set (rows_adds im w uf0 (cl_rows (?T ! i)) :: (u64 \<times> 'v pt) list) \<subseteq> ids"
    using Cons.prems(5) other by simp
  have d: "distinct js" "set js \<subseteq> {..<length ?T}" using Cons.prems(3,4) by simp_all
  obtain uf2 T2 where s: "foldE (run_task im (im_stride im) (int w)) js (uf1, ?T) = Inr (uf2, T2)" "uf_inv uf2" "uf_same uf0 uf2"
      "length T2 = length tasks"
      "\<forall>i < length tasks. if i \<in> set js then clusters_ok n (rows_adds im w uf0 (cl_rows (?T ! i))) (ct_clusters (T2 ! i)) else T2 ! i = ?T ! i"
    using Cons.IH [OF r(2,3) d T] unfolding length_list_update by (elim exE conjE)
  have "if i \<in> set (j # js) then clusters_ok n (rows_adds im w uf0 (cl_rows (tasks ! i))) (ct_clusters (T2 ! i)) else T2 ! i = tasks ! i"
    if i: "i < length tasks" for i
  proof (cases "i = j")
    case True
    then have "T2 ! i = (tasks ! j)\<lparr>ct_clusters := out\<rparr>" using s(5) i Cons.prems(3) by auto
    then show ?thesis using True r(4) by simp
  next
    case False
    then show ?thesis using s(5) i by (auto split: if_splits)
  qed
  then show ?case using r(1) s(1-4) by (intro exI [of _ uf2] exI [of _ T2]) simp
qed auto

text \<open>The number of buckets of a task.\<close>

definition task_buckets :: "int \<Rightarrow> nat \<Rightarrow> nat \<Rightarrow> nat" where
  "task_buckets nthreads nclustermap h =
     nclustermap div nat ((int h - 1) div (1 + (int h - 1) div (APRILTAG_TASKS_PER_THREAD_TARGET * nthreads)) + 1)"

lemma rows_adds_concat: "rows_adds im w uf (concat yss) = concat (map (rows_adds im w uf) yss)"
  by (induction yss) (simp_all add: rows_adds_def)

lemma rows_adds_set: "set ys \<subseteq> set zs \<Longrightarrow> set (rows_adds im w uf ys) \<subseteq> set (rows_adds im w uf zs)"
  by (auto simp: rows_adds_def)

lemma gradient_clusters_ok:
  fixes em :: "(u64 \<times> 'v::zero pt) list" and nclustermap :: nat
  assumes ok: "im_ok im w h" "3 \<le> h" "1 \<le> nthreads" and uf: "length (uf_parent uf) = Suc (w * h)" "uf_inv uf"
    and sched: "\<And>k. mset (sched k) = mset [0..<k]"
  defines "n \<equiv> task_buckets nthreads nclustermap h" and "em \<equiv> rows_adds im w uf [1..<h - 1]"
  assumes room: "room n (fst ` set em)"
  shows "\<exists>uf' cl. gradient_clusters nthreads sched nclustermap im (int w) (int h) (im_stride im) uf = Inr (uf', map ch_data cl) \<and>
    clusters_ok n em cl"
proof -
  define c where "c = 1 + (int h - 1) div (APRILTAG_TASKS_PER_THREAD_TARGET * nthreads)"
  have c: "0 < c" using ok(2,3) by (simp add: c_def APRILTAG_TASKS_PER_THREAD_TARGET_def pos_imp_zdiv_nonneg_iff add_pos_nonneg)
  define T where "T = (cluster_tasks n (int h - 1) c 1 :: 'v cluster_task list)"
  have T: "1 \<le> ct_y0 (T ! i) \<and> ct_y1 (T ! i) \<le> int h - 1 \<and> ct_nclustermap (T ! i) = n \<and> ct_clusters (T ! i) = []" if "i < length T" for i
    using cluster_tasks_task [of "T ! i" n "int h - 1" c 1] that nth_mem unfolding T_def by blast
  have rows: "concat (map cl_rows T) = [1..<h - 1]"
    using cluster_tasks_rows [of 1 c n "int h - 1"] c ok(2) by (simp add: T_def cl_rows_def [abs_def] nat_diff_distrib)
  have sub: "fst ` set (rows_adds im w uf (cl_rows (T ! i)) :: (u64 \<times> 'v pt) list) \<subseteq> fst ` set em" if "i < length T" for i
  proof -
    have "set (cl_rows (T ! i)) \<subseteq> set (concat (map cl_rows T))" using nth_mem [OF that] by auto
    then have "set (cl_rows (T ! i)) \<subseteq> set [1..<h - 1]" unfolding rows .
    then show ?thesis using rows_adds_set [of _ _ im w uf] unfolding em_def by blast
  qed
  have js: "distinct (sched (length T))" "set (sched (length T)) = {..<length T}"
    using sched [of "length T"] mset_eq_imp_distinct_iff mset_eq_setD by (fastforce, fastforce)
  have same: "uf_same uf uf" by (simp add: uf_same_def)
  have t: "\<forall>i \<in> set (sched (length T)). 1 \<le> ct_y0 (T ! i) \<and> ct_y1 (T ! i) \<le> int h - 1 \<and> ct_nclustermap (T ! i) = n \<and> ct_clusters (T ! i) = [] \<and>
      fst ` set (rows_adds im w uf (cl_rows (T ! i)) :: (u64 \<times> 'v pt) list) \<subseteq> fst ` set em"
    using T sub js(2) by simp
  have le: "set (sched (length T)) \<subseteq> {..<length T}" using js(2) by simp
  obtain uf' T' where r: "foldE (run_task im (im_stride im) (int w)) (sched (length T)) (uf, T) = Inr (uf', T')" "length T' = length T"
      "\<forall>i < length T. if i \<in> set (sched (length T)) then clusters_ok n (rows_adds im w uf (cl_rows (T ! i))) (ct_clusters (T' ! i)) else T' ! i = T ! i"
    using run_tasks_ok [OF ok(1) uf same js(1) le t room] by (elim exE conjE)
  have "list_all2 (clusters_ok n) (map (rows_adds im w uf) (map cl_rows T)) (map ct_clusters T')"
    using r(2,3) js(2) by (simp add: list_all2_conv_all_nth)
  moreover have "T \<noteq> []" using ok(2) c by (subst T_def, subst cluster_tasks.simps) simp
  then have "map ct_clusters T' \<noteq> []" using r(2) by auto
  ultimately obtain cl where cl: "merge_rounds (map ct_clusters T') = [cl]" "clusters_ok n (concat (map (rows_adds im w uf) (map cl_rows T))) cl"
    using merge_rounds_ok by blast
  have "concat (map (rows_adds im w uf) (map cl_rows T)) = em"
    by (simp only: rows_adds_concat [symmetric] rows em_def)
  then have "clusters_ok n em cl" using cl(2) by simp
  moreover have "gradient_clusters nthreads sched nclustermap im (int w) (int h) (im_stride im) uf = Inr (uf', map ch_data cl)"
    using r(1) cl(1) by (simp add: gradient_clusters_def Let_def c_def [symmetric] n_def [unfolded task_buckets_def, folded c_def, symmetric] T_def [symmetric] cmem)
  ultimately show ?thesis by blast
qed

subsection \<open>The positions of the points\<close>

text \<open>The position of a point, in halves of a pixel.\<close>

definition pos :: "'v pt \<Rightarrow> nat \<times> nat" where
  "pos p = (unat (pt_x p), unat (pt_y p))"

text \<open>Two pixels of opposite colour in components that are large enough.\<close>

definition boundary :: "image_u8 \<Rightarrow> nat \<Rightarrow> unionfind \<Rightarrow> nat \<Rightarrow> nat \<Rightarrow> nat \<Rightarrow> nat \<Rightarrow> bool" where
  "boundary im w uf x y x' y' \<longleftrightarrow>
     unat (col im x y) + unat (col im x' y') = 255 \<and> csize uf (node w x' y') > 24"

lemma pos_grad:
  assumes "0 \<le> 2 * x + dx" "2 * x + dx < 65536" "0 \<le> 2 * y + dy" "2 * y + dy < 65536"
  shows "pos (grad_pt x y dx dy v0 v1) = (nat (2 * x + dx), nat (2 * y + dy))"
proof -
  have "unat (of_int i :: 16 word) = nat i" if "0 \<le> i" "i < 65536" for i
    using that by (simp add: unat_eq_nat_uint uint_word_of_int_eq take_bit_int_eq_self)
  then show ?thesis using assms by (simp only: pos_def grad_pt_def pt.select_convs)
qed

text \<open>The points a pixel adds.\<close>

lemma conn_pos1:
  assumes "0 \<le> 2 * int x + dx" "2 * int x + dx < 65536" "0 \<le> 2 * int y + dy" "2 * int y + dy < 65536"
    "nat (int x + dx) = x'" "nat (int y + dy) = y'" "nat (2 * int x + dx) = px" "nat (2 * int y + dy) = py"
  shows "map (pos \<circ> snd) (conn im w uf x y dx dy :: (u64 \<times> 'v::zero pt) list) = (if boundary im w uf x y x' y' then [(px, py)] else []) \<and>
    ((conn im w uf x y dx dy :: (u64 \<times> 'v pt) list) \<noteq> [] \<longleftrightarrow> boundary im w uf x y x' y')"
proof -
  have "pos (grad_pt (int x) (int y) dx dy v0 v1 :: 'v pt) = (px, py)" for v0 v1
    using pos_grad [OF assms(1-4)] assms(7,8) by simp
  then show ?thesis unfolding conn_def boundary_def Let_def assms(5,6) by simp
qed

lemma conn_pos:
  assumes "1 \<le> x" "x < w" "w \<le> 32767" "1 \<le> y" "y < 32767"
  shows "map (pos \<circ> snd) (conn im w uf x y 1 0 :: (u64 \<times> 'v::zero pt) list) = (if boundary im w uf x y (x + 1) y then [(2 * x + 1, 2 * y)] else [])"
    "map (pos \<circ> snd) (conn im w uf x y 0 1 :: (u64 \<times> 'v pt) list) = (if boundary im w uf x y x (y + 1) then [(2 * x, 2 * y + 1)] else [])"
    "map (pos \<circ> snd) (conn im w uf x y (- 1) 1 :: (u64 \<times> 'v pt) list) = (if boundary im w uf x y (x - 1) (y + 1) then [(2 * x - 1, 2 * y + 1)] else [])"
    "map (pos \<circ> snd) (conn im w uf x y 1 1 :: (u64 \<times> 'v pt) list) = (if boundary im w uf x y (x + 1) (y + 1) then [(2 * x + 1, 2 * y + 1)] else [])"
    "(conn im w uf x y 1 1 :: (u64 \<times> 'v pt) list) \<noteq> [] \<longleftrightarrow> boundary im w uf x y (x + 1) (y + 1)"
  using assms by (intro conn_pos1 [THEN conjunct1] conn_pos1 [where px = "2 * x + 1" and py = "2 * y + 1", THEN conjunct2]; linarith)+

text \<open>The positions at which the pixel \<open>(x, y)\<close> sees a boundary.\<close>

definition sees :: "image_u8 \<Rightarrow> nat \<Rightarrow> unionfind \<Rightarrow> nat \<Rightarrow> nat \<Rightarrow> (nat \<times> nat) set" where
  "sees im w uf y x =
     (if eligible im w uf x y
      then (if boundary im w uf x y (x + 1) y then {(2 * x + 1, 2 * y)} else {}) \<union>
        (if boundary im w uf x y x (y + 1) then {(2 * x, 2 * y + 1)} else {}) \<union>
        (if boundary im w uf x y (x - 1) (y + 1) then {(2 * x - 1, 2 * y + 1)} else {}) \<union>
        (if boundary im w uf x y (x + 1) (y + 1) then {(2 * x + 1, 2 * y + 1)} else {})
      else {})"

lemma row_positions:
  assumes "1 \<le> a" "b \<le> w" "w \<le> 32767" "1 \<le> y" "y < 32767"
  shows "distinct (map (pos \<circ> snd) (row_adds im w uf y [a..<b] cl :: (u64 \<times> 'v::zero pt) list)) \<and>
    set (map (pos \<circ> snd) (row_adds im w uf y [a..<b] cl :: (u64 \<times> 'v pt) list)) \<union> (if cl then {(2 * a - 1, 2 * y + 1)} else {}) =
      (\<Union>x \<in> {a..<b}. sees im w uf y x) \<union> (if cl then {(2 * a - 1, 2 * y + 1)} else {}) \<and>
    (cl \<longrightarrow> (2 * a - 1, 2 * y + 1) \<notin> set (map (pos \<circ> snd) (row_adds im w uf y [a..<b] cl :: (u64 \<times> 'v pt) list)))"
  using assms(1)
proof (induction "b - a" arbitrary: a cl)
  case 0
  then show ?case by simp
next
  case (Suc n)
  then have ab: "a < b" by simp
  then have up: "[a..<b] = a # [Suc a..<b]" by (simp add: upt_conv_Cons)
  have ivl: "{a..<b} = insert a {Suc a..<b}" using ab by auto
  have low: "q \<in> sees im w uf y x \<Longrightarrow> Suc a \<le> x \<Longrightarrow> 2 * a + 1 \<le> fst q \<and> (snd q = 2 * y \<longrightarrow> 2 * a + 3 \<le> fst q)" for q x
    by (auto simp: sees_def split: if_splits)
  have n: "n = b - Suc a" "1 \<le> Suc a" "a < w" using Suc ab assms(2) by auto
  note c = conn_pos [OF Suc.prems n(3) assms(3-5), of im uf]
  note IH = Suc.hyps(1) [OF n(1,2)]
  show ?case
  proof (cases "eligible im w uf a y")
    case False
    have e: "sees im w uf y a = {}" using False by (simp add: sees_def)
    have "(2 * a - 1, 2 * y + 1) \<notin> (\<Union>x \<in> {Suc a..<b}. sees im w uf y x)" using low Suc.prems by fastforce
    then show ?thesis using IH [of False] False e unfolding up ivl by simp
  next
    case True
    let ?d = "boundary im w uf a y (a + 1) (y + 1)"
    define R where "R = map (pos \<circ> snd) (row_adds im w uf y [Suc a..<b] ?d :: (u64 \<times> 'v pt) list)"
    have R: "distinct R" "set R \<union> (if ?d then {(2 * a + 1, 2 * y + 1)} else {}) =
        (\<Union>x \<in> {Suc a..<b}. sees im w uf y x) \<union> (if ?d then {(2 * a + 1, 2 * y + 1)} else {})"
        "?d \<longrightarrow> (2 * a + 1, 2 * y + 1) \<notin> set R"
    proof -
      have "2 * Suc a - 1 = 2 * a + 1" by simp
      note IH [of ?d, unfolded this, folded R_def]
      then show "distinct R" "set R \<union> (if ?d then {(2 * a + 1, 2 * y + 1)} else {}) =
          (\<Union>x \<in> {Suc a..<b}. sees im w uf y x) \<union> (if ?d then {(2 * a + 1, 2 * y + 1)} else {})"
        "?d \<longrightarrow> (2 * a + 1, 2 * y + 1) \<notin> set R" by blast+
    qed
    have lowR: "2 * a + 1 \<le> fst q \<and> (snd q = 2 * y \<longrightarrow> 2 * a + 3 \<le> fst q)" if q: "q \<in> set R" for q
    proof -
      have "q \<in> (\<Union>x \<in> {Suc a..<b}. sees im w uf y x) \<or> q = (2 * a + 1, 2 * y + 1)"
      proof -
        have "q \<in> (\<Union>x \<in> {Suc a..<b}. sees im w uf y x) \<union> (if ?d then {(2 * a + 1, 2 * y + 1)} else {})"
          unfolding R(2) [symmetric] using q by (rule UnI1)
        then show ?thesis by (auto split: if_splits)
      qed
      then show ?thesis
      proof
        assume "q \<in> (\<Union>x \<in> {Suc a..<b}. sees im w uf y x)"
        then obtain x where "q \<in> sees im w uf y x" "Suc a \<le> x" by auto
        then show ?thesis by (rule low)
      qed simp
    qed
    have m: "map (pos \<circ> snd) (row_adds im w uf y [a..<b] cl :: (u64 \<times> 'v pt) list) =
        (if boundary im w uf a y (a + 1) y then [(2 * a + 1, 2 * y)] else []) @
        (if boundary im w uf a y a (y + 1) then [(2 * a, 2 * y + 1)] else []) @
        (if cl then [] else if boundary im w uf a y (a - 1) (y + 1) then [(2 * a - 1, 2 * y + 1)] else []) @
        (if ?d then [(2 * a + 1, 2 * y + 1)] else []) @ R"
      unfolding up R_def using True by (simp add: c del: comp_apply)
    have nin: "(2 * a + 1, 2 * y) \<notin> set R" "(2 * a, 2 * y + 1) \<notin> set R" "(2 * a - 1, 2 * y + 1) \<notin> set R"
      using lowR by fastforce+
    have "distinct (map (pos \<circ> snd) (row_adds im w uf y [a..<b] cl :: (u64 \<times> 'v pt) list))"
      unfolding m using R(1,3) nin Suc.prems by auto
    moreover have "cl \<longrightarrow> (2 * a - 1, 2 * y + 1) \<notin> set (map (pos \<circ> snd) (row_adds im w uf y [a..<b] cl :: (u64 \<times> 'v pt) list))"
      unfolding m using nin Suc.prems by auto
    moreover have "set (map (pos \<circ> snd) (row_adds im w uf y [a..<b] cl :: (u64 \<times> 'v pt) list)) \<union> (if cl then {(2 * a - 1, 2 * y + 1)} else {}) =
      (\<Union>x \<in> {a..<b}. sees im w uf y x) \<union> (if cl then {(2 * a - 1, 2 * y + 1)} else {})"
    proof -
      let ?C = "if cl then {(2 * a - 1, 2 * y + 1)} else {}" and ?S4 = "if ?d then {(2 * a + 1, 2 * y + 1)} else {}"
      let ?S12 = "(if boundary im w uf a y (a + 1) y then {(2 * a + 1, 2 * y)} else {}) \<union> (if boundary im w uf a y a (y + 1) then {(2 * a, 2 * y + 1)} else {})"
      let ?S3 = "if boundary im w uf a y (a - 1) (y + 1) then {(2 * a - 1, 2 * y + 1)} else {}"
      have "set (map (pos \<circ> snd) (row_adds im w uf y [a..<b] cl :: (u64 \<times> 'v pt) list)) = ?S12 \<union> (if cl then {} else ?S3) \<union> (set R \<union> ?S4)"
        unfolding m by auto
      moreover have "sees im w uf y a = ?S12 \<union> ?S3 \<union> ?S4" using True by (simp add: sees_def)
      moreover have "(if cl then {} else ?S3) \<union> ?C = ?S3 \<union> ?C" by auto
      ultimately show ?thesis unfolding ivl R(2) by blast
    qed
    ultimately show ?thesis by blast
  qed
qed

lemma rows_positions:
  assumes "set ys \<subseteq> {1..<32767}" "distinct ys" "w \<le> 32767"
  shows "distinct (map (pos \<circ> snd) (rows_adds im w uf ys :: (u64 \<times> 'v::zero pt) list)) \<and>
    set (map (pos \<circ> snd) (rows_adds im w uf ys :: (u64 \<times> 'v pt) list)) = (\<Union>y \<in> set ys. \<Union>x \<in> {1..<w - 1}. sees im w uf y x)"
  using assms(1,2)
proof (induction ys)
  case Nil
  then show ?case by (simp add: rows_adds_def)
next
  case (Cons y ys)
  let ?P = "\<lambda>zs. map (pos \<circ> snd) (zs :: (u64 \<times> 'v pt) list)"
  have split: "?P (rows_adds im w uf (y # ys)) = ?P (row_adds im w uf y [1..<w - 1] False) @ ?P (rows_adds im w uf ys)"
    by (simp add: rows_adds_def)
  have row: "distinct (?P (row_adds im w uf y [1..<w - 1] False))"
    "set (?P (row_adds im w uf y [1..<w - 1] False)) = (\<Union>x \<in> {1..<w - 1}. sees im w uf y x)"
    using row_positions [where ?'v = 'v, of 1 "w - 1" w y im uf False] Cons.prems assms(3) by simp_all
  have IH: "distinct (?P (rows_adds im w uf ys))" "set (?P (rows_adds im w uf ys)) = (\<Union>y \<in> set ys. \<Union>x \<in> {1..<w - 1}. sees im w uf y x)"
  proof -
    have "set ys \<subseteq> {1..<32767}" "distinct ys" using Cons.prems by simp_all
    from Cons.IH [OF this] show "distinct (?P (rows_adds im w uf ys))"
      "set (?P (rows_adds im w uf ys)) = (\<Union>y \<in> set ys. \<Union>x \<in> {1..<w - 1}. sees im w uf y x)" by blast+
  qed
  have div: "snd q div 2 = z" if "q \<in> sees im w uf z x" for q z x using that by (auto simp: sees_def split: if_splits)
  have "set (?P (row_adds im w uf y [1..<w - 1] False)) \<inter> set (?P (rows_adds im w uf ys)) = {}"
  proof (rule ccontr)
    assume "\<not> ?thesis"
    then obtain q x z x' where "q \<in> sees im w uf y x" "q \<in> sees im w uf z x'" "z \<in> set ys" unfolding row(2) IH(2) by blast
    then have "y = z" using div [of q y x] div [of q z x'] by simp
    then show False using \<open>z \<in> set ys\<close> Cons.prems(2) by simp
  qed
  then show ?case unfolding split using row IH by (simp add: Int_commute)
qed

subsection \<open>The pixels of a point\<close>

lemma clusterid_unat:
  assumes "r < 2 ^ 32" "s < 2 ^ 32"
  shows "unat (clusterid r s) = max r s * 2 ^ 32 + min r s"
proof -
  have "unat (push_bit 32 (of_nat a) + of_nat b :: u64) = a * 2 ^ 32 + b" if "a < 2 ^ 32" "b < 2 ^ 32" for a b
  proof -
    have l: "a * 2 ^ 32 + b < 2 ^ 64" using that by simp
    have "push_bit 32 (of_nat a) + of_nat b = (of_nat (a * 2 ^ 32 + b) :: u64)" by (simp add: push_bit_eq_mult mult.commute)
    then show ?thesis using l by (simp only: unat_of_nat take_bit_nat_eq_self)  (simp add: take_bit_nat_eq_self)
  qed
  then show ?thesis using assms by (simp add: clusterid_def max_def min_def)
qed

lemma clusterid_eq:
  assumes "r < 2 ^ 32" "s < 2 ^ 32" "t < 2 ^ 32" "u < 2 ^ 32"
  shows "clusterid r s = clusterid t u \<longleftrightarrow> r = t \<and> s = u \<or> r = u \<and> s = t"
proof
  assume "clusterid r s = clusterid t u"
  then have e: "max r s * 2 ^ 32 + min r s = max t u * 2 ^ 32 + min t u"
    using clusterid_unat [OF assms(1,2)] clusterid_unat [OF assms(3,4)] by metis
  have "(a * 2 ^ 32 + b) div 2 ^ 32 = a \<and> (a * 2 ^ 32 + b) mod 2 ^ 32 = b" if "b < 2 ^ 32" for a b :: nat
    using that by simp
  from this [of "min r s" "max r s"] this [of "min t u" "max t u"] e assms have mx: "max r s = max t u"
    by (simp add: min_less_iff_disj)
  with e have "min r s = min t u" by simp
  with mx show "r = t \<and> s = u \<or> r = u \<and> s = t" by (auto simp: max_def min_def split: if_splits)
qed (auto simp: clusterid_def)

text \<open>A point stands between two neighbours of opposite colour, and its cluster is that of their sets.\<close>

definition near :: "nat \<times> nat \<Rightarrow> nat \<times> nat \<Rightarrow> bool" where
  "near a b \<longleftrightarrow> fst b \<le> fst a + 1 \<and> fst a \<le> fst b + 1 \<and> snd a \<le> snd b \<and> snd b \<le> snd a + 1"

definition between :: "image_u8 \<Rightarrow> nat \<Rightarrow> nat \<Rightarrow> unionfind \<Rightarrow> u64 \<times> 'v pt \<Rightarrow> (nat \<times> nat) \<times> nat \<times> nat \<Rightarrow> bool" where
  "between im w h uf e = (\<lambda>(a, b).
     interior w h a \<and> fst b < w \<and> snd b < h \<and> near a b \<and> boundary im w uf (fst a) (snd a) (fst b) (snd b) \<and>
     pos (snd e) = (fst a + fst b, snd a + snd b) \<and> fst e = clusterid (uf_rep uf (pixel w a)) (uf_rep uf (pixel w b)))"

lemma conn_between:
  assumes e: "e \<in> set (conn im w uf x y dx dy)" and xy: "1 \<le> x" "x < w - 1" "w \<le> 32767" "1 \<le> y" "y < h - 1" "h \<le> 32767"
    and d: "dx \<in> {- 1, 0, 1}" "dy \<in> {0, 1}"
  shows "\<exists>q. between im w h uf e q"
proof -
  let ?x = "nat (int x + dx)" and ?y = "nat (int y + dy)"
  have p: "pos (grad_pt (int x) (int y) dx dy v0 v1) = (x + ?x, y + ?y)" for v0 v1
  proof -
    have "0 \<le> 2 * int x + dx" "2 * int x + dx < 65536" "0 \<le> 2 * int y + dy" "2 * int y + dy < 65536"
      "nat (2 * int x + dx) = x + ?x" "nat (2 * int y + dy) = y + ?y" using xy d by auto
    then show ?thesis using pos_grad by metis
  qed
  have "?x < w" "?y < h" "near (x, y) (?x, ?y)" using xy d by (auto simp: near_def)
  then have "between im w h uf e ((x, y), (?x, ?y))"
    using e p xy by (auto simp: conn_def Let_def between_def boundary_def interior_def pixel_def split: if_splits)
  then show ?thesis by blast
qed

lemma rows_between:
  assumes "e \<in> set (rows_adds im w uf [1..<h - 1])" "w \<le> 32767" "h \<le> 32767"
  shows "\<exists>q. between im w h uf e q"
proof -
  obtain y where y: "1 \<le> y" "y < h - 1" "e \<in> set (row_adds im w uf y [1..<w - 1] False)" using assms(1) by (auto simp: rows_adds_def)
  have "\<exists>x \<in> set xs. \<exists>dx \<in> {- 1, 0, 1}. \<exists>dy \<in> {0, 1}. e \<in> set (conn im w uf x y dx dy)" if "e \<in> set (row_adds im w uf y xs cl)" for xs cl
    using that by (induction xs arbitrary: cl) (auto split: if_splits)
  from this [OF y(3)] obtain x dx dy where x: "x \<in> set [1..<w - 1]" and d: "dx \<in> {- 1, 0, 1}" "dy \<in> {0, 1}" and c: "e \<in> set (conn im w uf x y dx dy)"
    by blast
  have "1 \<le> x" "x < w - 1" using x by simp_all
  from conn_between [OF c this assms(2) y(1,2) assms(3) d] show ?thesis .
qed

subsection \<open>Properties\<close>

lemma cc_forest:
  assumes ok: "im_ok im w h" and sched: "\<And>ts. mset (sched ts) = mset ts"
    and cc: "connected_components nthreads sched im (int w) (int h) (im_stride im) = Inr uf"
  shows "uf_inv uf" "length (uf_parent uf) = Suc (w * h)"
    "interior w h p \<Longrightarrow> interior w h q \<Longrightarrow>
       uf_rep uf (pixel w p) = uf_rep uf (pixel w q) \<longleftrightarrow> (p, q) \<in> (links im w (rows_joined nthreads h))\<^sup>*"
proof -
  obtain uf' where r: "connected_components nthreads sched im (int w) (int h) (im_stride im) = Inr uf'" "uf_inv uf'"
      "length (uf_parent uf') = Suc (w * h)"
      "\<forall>p q. interior w h p \<longrightarrow> interior w h q \<longrightarrow>
         uf_rep uf' (pixel w p) = uf_rep uf' (pixel w q) \<longleftrightarrow> (p, q) \<in> (links im w (rows_joined nthreads h))\<^sup>*"
    using cc_result [OF ok mset_eq_setD [OF sched], of nthreads] by (elim exE conjE)
  have "uf' = uf" using r(1) cc by simp
  then show "uf_inv uf" "length (uf_parent uf) = Suc (w * h)"
    "interior w h p \<Longrightarrow> interior w h q \<Longrightarrow>
       uf_rep uf (pixel w p) = uf_rep uf (pixel w q) \<longleftrightarrow> (p, q) \<in> (links im w (rows_joined nthreads h))\<^sup>*"
    using r(2-4) unfolding \<open>uf' = uf\<close> by blast+
qed

text \<open>The clusters as the points of distinct ids in the order of hash and id.\<close>

lemma clusters_ok_ids:
  assumes "clusters_ok n em cl"
  shows "distinct (map ch_id cl)" "set (map ch_id cl) = fst ` set em" "map ch_data cl = map (pts em) (map ch_id cl)"
    "sorted_wrt (\<lambda>i j. bucket n i < bucket n j \<or> bucket n i = bucket n j \<and> i < j) (map ch_id cl)"
proof -
  have s: "sorted_wrt cl_less cl" and h: "hashed n cl" and l: "\<forall>i. look cl i = pts em i"
    and ids: "ch_id ` set cl = fst ` set em" using assms by (simp_all add: clusters_ok_def)
  have data: "ch_data c = pts em (ch_id c)" if "c \<in> set cl" for c
    using look_in [OF s h that] l by simp
  show "set (map ch_id cl) = fst ` set em" using ids by simp
  show "map ch_data cl = map (pts em) (map ch_id cl)" using data by simp
  have "sorted_wrt (\<lambda>a b. bucket n (ch_id a) < bucket n (ch_id b) \<or> bucket n (ch_id a) = bucket n (ch_id b) \<and> ch_id a < ch_id b) cl"
  proof (rule sorted_wrt_mono_rel [OF _ s])
    fix a b assume "a \<in> set cl" "b \<in> set cl" "cl_less a b"
    then show "bucket n (ch_id a) < bucket n (ch_id b) \<or> bucket n (ch_id a) = bucket n (ch_id b) \<and> ch_id a < ch_id b"
      using h by (simp add: cl_less_def hashed_def)
  qed
  then show sid: "sorted_wrt (\<lambda>i j. bucket n i < bucket n j \<or> bucket n i = bucket n j \<and> i < j) (map ch_id cl)"
    by (simp add: sorted_wrt_map)
  show "distinct (map ch_id cl)"
    unfolding distinct_conv_nth
  proof (intro allI impI)
    fix a b assume ab: "a < length (map ch_id cl)" "b < length (map ch_id cl)" "a \<noteq> b"
    have "map ch_id cl ! a \<noteq> map ch_id cl ! b" if "a < b" "b < length (map ch_id cl)" for a b
      using sorted_wrt_nth_less [OF sid that] by auto
    then show "map ch_id cl ! a \<noteq> map ch_id cl ! b" using ab by (metis linorder_neqE_nat)
  qed
qed

lemma pts_parts:
  assumes "distinct ids" "set ids = fst ` set em"
  shows "mset (concat (map (pts em) ids)) = mset (map snd em)"
proof -
  have "mset (concat (map (\<lambda>i. map snd (filter (\<lambda>e. fst e = i) em)) ids)) = mset (map snd (filter (\<lambda>e. fst e \<in> set ids) em))"
    using assms(1)
  proof (induction ids)
    case (Cons i ids)
    have "mset (filter (\<lambda>e. fst e \<in> set (i # ids)) em) = mset (filter (\<lambda>e. fst e = i) em) + mset (filter (\<lambda>e. fst e \<in> set ids) em)"
      using Cons.prems by (induction em) auto
    then show ?case using Cons by simp
  qed simp
  moreover have "filter (\<lambda>e. fst e \<in> set ids) em = em" using assms(2) by (auto simp: filter_id_conv)
  ultimately show ?thesis by (simp add: pts_def [abs_def])
qed

text \<open>C20: Whatever the number of threads, the order of the tasks and the size of the tables, \<open>gradient_clusters\<close> returns
  the points of one scan of all rows, one list for each pair of components, ordered by hash and id.\<close>

theorem gradient_clusters_correct:
  fixes nclustermap :: nat
  assumes "im_ok im w h" "3 \<le> h" "1 \<le> nthreads" "\<And>ts. mset (sched ts) = mset ts" "\<And>k. mset (sched' k) = mset [0..<k]"
    and "connected_components nthreads sched im (int w) (int h) (im_stride im) = Inr uf"
    and "room (task_buckets nthreads nclustermap h) (fst ` set (rows_adds im w uf [1..<h - 1] :: (u64 \<times> 'v::zero pt) list))"
  shows "\<exists>uf' ids. gradient_clusters nthreads sched' nclustermap im (int w) (int h) (im_stride im) uf =
      Inr (uf', map (pts (rows_adds im w uf [1..<h - 1] :: (u64 \<times> 'v pt) list)) ids) \<and>
    distinct ids \<and> set ids = fst ` set (rows_adds im w uf [1..<h - 1] :: (u64 \<times> 'v pt) list) \<and>
    sorted_wrt (\<lambda>i j. bucket (task_buckets nthreads nclustermap h) i < bucket (task_buckets nthreads nclustermap h) j \<or>
      bucket (task_buckets nthreads nclustermap h) i = bucket (task_buckets nthreads nclustermap h) j \<and> i < j) ids"
proof -
  note f = cc_forest [OF assms(1,4,6)]
  from gradient_clusters_ok [OF assms(1-3) f(2,1) assms(5,7)] obtain uf' cl where
    g: "gradient_clusters nthreads sched' nclustermap im (int w) (int h) (im_stride im) uf = Inr (uf', map ch_data cl)"
    "clusters_ok (task_buckets nthreads nclustermap h) (rows_adds im w uf [1..<h - 1] :: (u64 \<times> 'v pt) list) cl" by blast
  note ids = clusters_ok_ids [OF g(2)]
  show ?thesis
    by (rule exI [of _ uf'], rule exI [of _ "map ch_id cl"]) (intro conjI ids(1,2,4) g(1) [unfolded ids(3)])
qed

text \<open>No position occurs twice in the clusters, although every pixel looks at its neighbours in four directions,
  and every position between two pixels of opposite colour in large components occurs.\<close>

theorem cluster_points_once:
  fixes nclustermap :: nat
  assumes "im_ok im w h" "3 \<le> h" "h \<le> 32767" "w \<le> 32767" "1 \<le> nthreads" "\<And>ts. mset (sched ts) = mset ts" "\<And>k. mset (sched' k) = mset [0..<k]"
    and "connected_components nthreads sched im (int w) (int h) (im_stride im) = Inr uf"
    and "room (task_buckets nthreads nclustermap h) (fst ` set (rows_adds im w uf [1..<h - 1] :: (u64 \<times> 'v::zero pt) list))"
  shows "\<exists>uf' cls. gradient_clusters nthreads sched' nclustermap im (int w) (int h) (im_stride im) uf = Inr (uf', cls :: 'v pt list list) \<and>
    distinct (map pos (concat cls)) \<and>
    set (map pos (concat cls)) = (\<Union>y \<in> {1..<h - 1}. \<Union>x \<in> {1..<w - 1}. sees im w uf y x)"
proof -
  let ?em = "rows_adds im w uf [1..<h - 1] :: (u64 \<times> 'v pt) list"
  note f = cc_forest [OF assms(1,6,8)]
  from gradient_clusters_ok [OF assms(1,2,5) f(2,1) assms(7,9)] obtain uf' cl where
    g: "gradient_clusters nthreads sched' nclustermap im (int w) (int h) (im_stride im) uf = Inr (uf', map ch_data cl)"
    "clusters_ok (task_buckets nthreads nclustermap h) ?em cl" by blast
  note ids = clusters_ok_ids [OF g(2)]
  have m: "mset (map pos (concat (map ch_data cl))) = mset (map (pos \<circ> snd) ?em)"
    using pts_parts [OF ids(1,2)] unfolding ids(3) by (simp flip: map_map)
  have p: "distinct (map (pos \<circ> snd) ?em) \<and> set (map (pos \<circ> snd) ?em) = (\<Union>y \<in> set [1..<h - 1]. \<Union>x \<in> {1..<w - 1}. sees im w uf y x)"
    using assms(3,4) by (intro rows_positions) auto
  have "distinct (map pos (concat (map ch_data cl)))" using m p mset_eq_imp_distinct_iff by blast
  moreover have "set (map pos (concat (map ch_data cl))) = (\<Union>y \<in> {1..<h - 1}. \<Union>x \<in> {1..<w - 1}. sees im w uf y x)"
    using mset_eq_setD [OF m] p by simp
  ultimately show ?thesis using g(1) by blast
qed

text \<open>What the clusters say of an image: every point lies half-way between two neighbouring pixels of opposite colour, and two
  points share a cluster exactly when the pixels on their two sides are linked. The loops leave out the first and the last
  column, so a pixel \<open>b\<close> there is in no set.\<close>

definition clustered :: "(nat \<Rightarrow> nat \<Rightarrow> u8) \<Rightarrow> nat \<Rightarrow> nat \<Rightarrow> ((nat \<times> nat) \<times> nat \<times> nat) set \<Rightarrow> 'v pt list list \<Rightarrow> bool" where
  "clustered colour w h L cls \<longleftrightarrow>
     (\<exists>src. \<forall>c \<in> set cls. \<forall>c' \<in> set cls. \<forall>p \<in> set c. \<forall>p' \<in> set c'. case (src p, src p') of ((a, b), (a', b')) \<Rightarrow>
       interior w h a \<and> fst b < w \<and> snd b < h \<and> near a b \<and> pos p = (fst a + fst b, snd a + snd b) \<and>
       unat (colour (fst a) (snd a)) + unat (colour (fst b) (snd b)) = 255 \<and>
       (interior w h b \<longrightarrow> interior w h b' \<longrightarrow>
         (c = c' \<longleftrightarrow> (a, a') \<in> L\<^sup>* \<and> (b, b') \<in> L\<^sup>* \<or> (a, b') \<in> L\<^sup>* \<and> (b, a') \<in> L\<^sup>*)))"

lemma clustered_colours:
  assumes "clustered colour w h L cls" "\<And>x y. x < w \<Longrightarrow> y < h \<Longrightarrow> colour x y = colour' x y"
  shows "clustered colour' w h L cls"
proof -
  have b: "colour (fst b) (snd b) = colour' (fst b) (snd b)" if "fst b < w" "snd b < h" for b by (rule assms(2) [OF that])
  have a: "colour (fst a) (snd a) = colour' (fst a) (snd a)" if "interior w h a" for a
    using b [of a] that by (auto simp: interior_def)
  have eq: "interior w h a \<and> fst b < w \<and> snd b < h \<and> near a b \<and> P \<and> unat (colour (fst a) (snd a)) + unat (colour (fst b) (snd b)) = 255 \<and> Q \<longleftrightarrow>
      interior w h a \<and> fst b < w \<and> snd b < h \<and> near a b \<and> P \<and> unat (colour' (fst a) (snd a)) + unat (colour' (fst b) (snd b)) = 255 \<and> Q" for a b P Q
    by (intro conj_cong refl) (simp add: a b)
  show ?thesis using assms(1) unfolding clustered_def eq .
qed

lemma clusters_components:
  fixes nclustermap :: nat
  assumes "im_ok im w h" "3 \<le> h" "h \<le> 32767" "w \<le> 32767" "1 \<le> nthreads" "\<And>ts. mset (sched ts) = mset ts" "\<And>k. mset (sched' k) = mset [0..<k]"
    and "connected_components nthreads sched im (int w) (int h) (im_stride im) = Inr uf"
    and "room (task_buckets nthreads nclustermap h) (fst ` set (rows_adds im w uf [1..<h - 1] :: (u64 \<times> 'v::zero pt) list))"
  shows "\<exists>uf' cls. gradient_clusters nthreads sched' nclustermap im (int w) (int h) (im_stride im) uf = Inr (uf', cls :: 'v pt list list) \<and>
    clustered (col im) w h (links im w (rows_joined nthreads h)) cls"
proof -
  let ?em = "rows_adds im w uf [1..<h - 1] :: (u64 \<times> 'v pt) list" and ?L = "(links im w (rows_joined nthreads h))\<^sup>*"
  note f = cc_forest [OF assms(1,6,8)]
  from gradient_clusters_ok [OF assms(1,2,5) f(2,1) assms(7,9)] obtain uf' cl where
    g: "gradient_clusters nthreads sched' nclustermap im (int w) (int h) (im_stride im) uf = Inr (uf', map ch_data cl)"
    "clusters_ok (task_buckets nthreads nclustermap h) ?em cl" by blast
  note ids = clusters_ok_ids [OF g(2)]
  define src where "src p = (SOME q. \<exists>i. (i, p) \<in> set ?em \<and> between im w h uf (i, p) q)" for p
  have src: "\<exists>i. (i, p) \<in> set ?em \<and> between im w h uf (i, p) (src p)" if e: "(i, p) \<in> set ?em" for i p
  proof -
    obtain q where "between im w h uf (i, p) q" using rows_between [OF e assms(4,3)] by blast
    then have "\<exists>i. (i, p) \<in> set ?em \<and> between im w h uf (i, p) q" using e by blast
    then show ?thesis unfolding src_def by (rule someI [where P = "\<lambda>q. \<exists>i. (i, p) \<in> set ?em \<and> between im w h uf (i, p) q"])
  qed
  have "distinct (map (pos \<circ> snd) ?em)" 
    using assms(3,4) by (intro rows_positions [THEN conjunct1]) auto
  then have inj: "inj_on (pos \<circ> snd) (set ?em)" by (simp add: distinct_map)
  have uniq: "i = j" if "(i, p) \<in> set ?em" "(j, p) \<in> set ?em" for i j p using inj_onD [OF inj _ that] by simp
  have mem: "\<exists>i. c = pts ?em i \<and> (\<forall>p \<in> set c. (i, p) \<in> set ?em \<and> between im w h uf (i, p) (src p))" if "c \<in> set (map ch_data cl)" for c
  proof -
    obtain i where c: "c = pts ?em i" using \<open>c \<in> set (map ch_data cl)\<close> unfolding ids(3) by auto
    have "(i, p) \<in> set ?em \<and> between im w h uf (i, p) (src p)" if "p \<in> set c" for p
    proof -
      have "(i, p) \<in> set ?em" using that unfolding c pts_def by auto
      then show ?thesis using src uniq by blast
    qed
    then show ?thesis using c by blast
  qed
  have rep: "uf_rep uf (pixel w a) < 2 ^ 32" if "fst a < w" "snd a < h" for a
  proof -
    have "snd a * w + fst a < Suc (snd a) * w" "Suc (snd a) * w \<le> h * w" using that by (simp, intro mult_le_mono1) simp
    then have "pixel w a < length (uf_parent uf)" by (simp add: pixel_def node_def f(2) mult.commute)
    then show ?thesis using f(1) uf_rep_bound [of uf "pixel w a"] by (auto simp: uf_inv_def uf_forest_def UF_NONE_def)
  qed
  have key: "interior w h a \<and> fst b < w \<and> snd b < h \<and> near a b \<and> pos p = (fst a + fst b, snd a + snd b) \<and> unat (col im (fst a) (snd a)) + unat (col im (fst b) (snd b)) = 255 \<and>
      (interior w h b \<longrightarrow> interior w h b' \<longrightarrow> (c = c' \<longleftrightarrow> (a, a') \<in> ?L \<and> (b, b') \<in> ?L \<or> (a, b') \<in> ?L \<and> (b, a') \<in> ?L))"
    if c: "c \<in> set (map ch_data cl)" "c' \<in> set (map ch_data cl)" "p \<in> set c" "p' \<in> set c'" and s: "src p = (a, b)" "src p' = (a', b')"
    for c c' p p' a b a' b'
  proof -
    obtain i i' where i: "c = pts ?em i" "c' = pts ?em i'" and m: "(i, p) \<in> set ?em" "(i', p') \<in> set ?em" and
      b: "between im w h uf (i, p) (a, b)" "between im w h uf (i', p') (a', b')"
      using mem [OF c(1)] mem [OF c(2)] c(3,4) s by metis
    note b' = b [unfolded between_def prod.case, simplified]
    have eq: "c = c' \<longleftrightarrow> i = i'"
    proof
      assume "c = c'"
      then have "(i', p) \<in> set ?em" using c(3) unfolding i(2) pts_def by auto
      then show "i = i'" using uniq m(1) by blast
    qed (simp add: i)
    have "i = i' \<longleftrightarrow> (a, a') \<in> ?L \<and> (b, b') \<in> ?L \<or> (a, b') \<in> ?L \<and> (b, a') \<in> ?L" if bi: "interior w h b" "interior w h b'"
    proof -
      have ai: "interior w h a" "interior w h a'" using b' by simp_all
      have lt: "fst s < w \<and> snd s < h" if "interior w h s" for s using that by (auto simp: interior_def)
      have "i = clusterid (uf_rep uf (pixel w a)) (uf_rep uf (pixel w b))" "i' = clusterid (uf_rep uf (pixel w a')) (uf_rep uf (pixel w b'))"
        using b' by simp_all
      then show ?thesis
        using clusterid_eq [OF rep rep rep rep, of a b a' b'] lt ai bi f(3) by simp
    qed
    then show ?thesis using b' eq by (auto simp: boundary_def)
  qed
  have "clustered (col im) w h (links im w (rows_joined nthreads h)) (map ch_data cl)"
    unfolding clustered_def
  proof (intro exI [of _ src] ballI)
    fix c c' p p' assume c: "c \<in> set (map ch_data cl)" "c' \<in> set (map ch_data cl)" "p \<in> set c" "p' \<in> set c'"
    obtain a b a' b' where s: "src p = (a, b)" "src p' = (a', b')" by (meson surj_pair)
    show "case (src p, src p') of ((a, b), (a', b')) \<Rightarrow>
       interior w h a \<and> fst b < w \<and> snd b < h \<and> near a b \<and> pos p = (fst a + fst b, snd a + snd b) \<and>
       unat (col im (fst a) (snd a)) + unat (col im (fst b) (snd b)) = 255 \<and>
       (interior w h b \<longrightarrow> interior w h b' \<longrightarrow> (c = c' \<longleftrightarrow> (a, a') \<in> ?L \<and> (b, b') \<in> ?L \<or> (a, b') \<in> ?L \<and> (b, a') \<in> ?L))"
      unfolding s prod.case by (rule key [OF c s])
  qed
  then show ?thesis using g(1) by blast
qed

text \<open>C19: Two points are in one cluster exactly when the components on their two sides are the same: every point lies
  half-way between two pixels of opposite colour, and the pairs of pixels of two points are linked by chains of adjacent
  pixels of one colour exactly when the points share a cluster.\<close>

theorem clusters_by_components:
  fixes nclustermap :: nat
  assumes "im_ok im w h" "3 \<le> h" "h \<le> 32767" "w \<le> 32767" "1 \<le> nthreads" "\<And>ts. mset (sched ts) = mset ts" "\<And>k. mset (sched' k) = mset [0..<k]"
    and "connected_components nthreads sched im (int w) (int h) (im_stride im) = Inr uf"
    and "room (task_buckets nthreads nclustermap h) (fst ` set (rows_adds im w uf [1..<h - 1] :: (u64 \<times> 'v::zero pt) list))"
  shows "\<exists>uf' cls. gradient_clusters nthreads sched' nclustermap im (int w) (int h) (im_stride im) uf = Inr (uf', cls :: 'v pt list list) \<and>
    clustered (col im) w h (links im w (rows_joined nthreads h)) cls"
  by (rule clusters_components [OF assms])

text \<open>A picture whose left half is black and whose right half is white, for the witnesses.\<close>

definition half_image :: "nat \<Rightarrow> nat \<Rightarrow> image_u8" where
  "half_image w h = \<lparr>im_width = int (2 * w), im_height = int h, im_stride = int (2 * w),
     im_buf = concat (replicate h (replicate w 0 @ replicate w 255))\<rparr>"

lemma half_ok: "1 \<le> w \<Longrightarrow> 1 \<le> h \<Longrightarrow> h * (2 * w) < 2 ^ 31 \<Longrightarrow> im_ok (half_image w h) (2 * w) h"
  by (simp add: im_ok_def half_image_def length_concat sum_list_replicate nat_mult_distrib)

lemma length_conn: "length (conn im w uf x y dx dy) \<le> 1"
  by (simp add: conn_def Let_def)

lemma length_rows_adds: "length (rows_adds im w uf ys :: (u64 \<times> 'v::zero pt) list) \<le> length ys * (4 * w)"
proof -
  have "length (row_adds im w uf y xs cl :: (u64 \<times> 'v pt) list) \<le> 4 * length xs" for y xs cl
  proof (induction xs arbitrary: cl)
    case (Cons x xs)
    have "length (conn im w uf x y dx dy :: (u64 \<times> 'v pt) list) \<le> 1" for dx dy by (rule length_conn)
    from this [of 1 0] this [of 0 1] this [of "- 1" 1] this [of 1 1] show ?case
      using Cons.IH [of False] Cons.IH [of "(conn im w uf x y 1 1 :: (u64 \<times> 'v pt) list) \<noteq> []"] by simp
  qed simp
  from this [of _ "[1..<w - 1]" False] have r: "length (row_adds im w uf y [1..<w - 1] False :: (u64 \<times> 'v pt) list) \<le> 4 * w" for y
    by (rule le_trans) simp
  show ?thesis
  proof (induction ys)
    case (Cons y ys)
    then show ?case using r [of y] by (simp add: rows_adds_def)
  qed (simp add: rows_adds_def)
qed

lemma room_small:
  assumes "0 < n" "n < 2 ^ 32" "length ys * (4 * w) \<le> 2048"
  shows "room n (fst ` set (rows_adds im w uf ys :: (u64 \<times> 'v::zero pt) list))"
proof -
  have "card (set (map fst (rows_adds im w uf ys :: (u64 \<times> 'v pt) list))) \<le> length (map fst (rows_adds im w uf ys :: (u64 \<times> 'v pt) list))"
    by (rule card_length)
  also have "\<dots> \<le> 2048" using length_rows_adds [where ?'v = 'v, of im w uf ys] assms(3) unfolding length_map by (rule le_trans)
  also have "2048 \<le> mem_chunk_size * n_pools n" by (simp add: n_pools_def mem_chunk_size_def)
  finally show ?thesis using assms(1,2) by (simp add: room_def)
qed

lemma half_forest: "\<exists>uf. connected_components 1 id (half_image 6 6) (int 12) (int 6) (im_stride (half_image 6 6)) = Inr uf"
  using cc_result [of "half_image 6 6" 12 6 id 1] half_ok [of 6 6] by auto

lemma gradient_clusters_correct_witness:
  "\<exists>uf. connected_components 1 id (half_image 6 6) (int 12) (int 6) (im_stride (half_image 6 6)) = Inr uf \<and>
    (\<exists>uf' ids. gradient_clusters 1 (\<lambda>k. [0..<k]) 14 (half_image 6 6) (int 12) (int 6) (im_stride (half_image 6 6)) uf =
      Inr (uf', map (pts (rows_adds (half_image 6 6) 12 uf [1..<6 - 1] :: (u64 \<times> int pt) list)) ids) \<and>
    distinct ids \<and> set ids = fst ` set (rows_adds (half_image 6 6) 12 uf [1..<6 - 1] :: (u64 \<times> int pt) list) \<and>
    sorted_wrt (\<lambda>i j. bucket (task_buckets 1 14 6) i < bucket (task_buckets 1 14 6) j \<or>
      bucket (task_buckets 1 14 6) i = bucket (task_buckets 1 14 6) j \<and> i < j) ids)"
proof -
  obtain uf where uf: "connected_components 1 id (half_image 6 6) (int 12) (int 6) (im_stride (half_image 6 6)) = Inr uf" using half_forest by blast
  have "im_ok (half_image 6 6) 12 6" using half_ok [of 6 6] by simp
  moreover have "room (task_buckets 1 14 6) (fst ` set (rows_adds (half_image 6 6) 12 uf [1..<6 - 1] :: (u64 \<times> int pt) list))"
    by (rule room_small) (simp_all add: task_buckets_def APRILTAG_TASKS_PER_THREAD_TARGET_def)
  ultimately show ?thesis
    using uf gradient_clusters_correct [of "half_image 6 6" 12 6 1 id "\<lambda>k. [0..<k]" uf 14] by auto
qed

lemma cluster_points_once_witness:
  "\<exists>uf uf' cls. connected_components 1 id (half_image 6 6) (int 12) (int 6) (im_stride (half_image 6 6)) = Inr uf \<and>
    gradient_clusters 1 (\<lambda>k. [0..<k]) 14 (half_image 6 6) (int 12) (int 6) (im_stride (half_image 6 6)) uf = Inr (uf', cls :: int pt list list) \<and>
    distinct (map pos (concat cls)) \<and>
    set (map pos (concat cls)) = (\<Union>y \<in> {1..<6 - 1}. \<Union>x \<in> {1..<12 - 1}. sees (half_image 6 6) 12 uf y x)"
proof -
  obtain uf where uf: "connected_components 1 id (half_image 6 6) (int 12) (int 6) (im_stride (half_image 6 6)) = Inr uf" using half_forest by blast
  have "im_ok (half_image 6 6) 12 6" using half_ok [of 6 6] by simp
  moreover have "room (task_buckets 1 14 6) (fst ` set (rows_adds (half_image 6 6) 12 uf [1..<6 - 1] :: (u64 \<times> int pt) list))"
    by (rule room_small) (simp_all add: task_buckets_def APRILTAG_TASKS_PER_THREAD_TARGET_def)
  ultimately show ?thesis
    using uf cluster_points_once [of "half_image 6 6" 12 6 1 id "\<lambda>k. [0..<k]" uf 14] by auto
qed

lemma clusters_by_components_witness:
  "\<exists>uf uf' cls. connected_components 1 id (half_image 6 6) (int 12) (int 6) (im_stride (half_image 6 6)) = Inr uf \<and>
    gradient_clusters 1 (\<lambda>k. [0..<k]) 14 (half_image 6 6) (int 12) (int 6) (im_stride (half_image 6 6)) uf = Inr (uf', cls :: int pt list list) \<and>
    clustered (col (half_image 6 6)) 12 6 (links (half_image 6 6) 12 (rows_joined 1 6)) cls"
proof -
  obtain uf where uf: "connected_components 1 id (half_image 6 6) (int 12) (int 6) (im_stride (half_image 6 6)) = Inr uf" using half_forest by blast
  have "im_ok (half_image 6 6) 12 6" using half_ok [of 6 6] by simp
  moreover have "room (task_buckets 1 14 6) (fst ` set (rows_adds (half_image 6 6) 12 uf [1..<6 - 1] :: (u64 \<times> int pt) list))"
    by (rule room_small) (simp_all add: task_buckets_def APRILTAG_TASKS_PER_THREAD_TARGET_def)
  ultimately show ?thesis
    using uf clusters_by_components [of "half_image 6 6" 12 6 1 id "\<lambda>k. [0..<k]" uf 14] by auto
qed

end
