(* ===== verification/QuadThresh.thy ===== *)
theory QuadThresh
  imports Threshold Clusters WorkerPool
begin

text \<open>
  The first two steps of \<open>apriltag_quad_thresh\<close>: the image is thresholded, the components of the result are
  joined, and the points between black and white components are collected in clusters. The clusters are then described
  by the input image alone.
\<close>

text \<open>
  The three schedules are the orders in which the worker pool calls the tasks (\<open>pool_order\<close>); the tasks of one run
  write different tiles, trees and clusters. \<open>nclustermap\<close> is \<open>0.2 * w * h\<close>.
\<close>

definition quad_thresh_components ::
  "int \<Rightarrow> (nat \<Rightarrow> int list \<Rightarrow> int list) \<Rightarrow> (unionfind_task list \<Rightarrow> unionfind_task list) \<Rightarrow> bool \<Rightarrow> int \<Rightarrow> image_u8 \<Rightarrow> cerr + image_u8 \<times> unionfind" where
  "quad_thresh_components nthreads sched1 sched2 deglitching min_white_black_diff im =
     (let w = im_width im; h = im_height im in
      bindE (threshold sched1 deglitching min_white_black_diff im) (\<lambda>threshim.
      let ts = im_stride threshim in
      bindE (connected_components nthreads sched2 threshim w h ts) (\<lambda>uf. Inr (threshim, uf))))"

definition quad_thresh_clusters ::
  "int \<Rightarrow> (nat \<Rightarrow> int list \<Rightarrow> int list) \<Rightarrow> (unionfind_task list \<Rightarrow> unionfind_task list) \<Rightarrow> (nat \<Rightarrow> nat list) \<Rightarrow>
   bool \<Rightarrow> int \<Rightarrow> nat \<Rightarrow> image_u8 \<Rightarrow> cerr + unionfind \<times> 'v::zero pt list list" where
  "quad_thresh_clusters nthreads sched1 sched2 sched3 deglitching min_white_black_diff nclustermap im =
     bindE (quad_thresh_components nthreads sched1 sched2 deglitching min_white_black_diff im) (\<lambda>(threshim, uf).
     gradient_clusters nthreads sched3 nclustermap threshim (im_width im) (im_height im) (im_stride threshim) uf)"

lemma quad_clusters:
  fixes nclustermap :: nat
  assumes "thr_ok im w h" "1 \<le> nthreads"
    and pool: "\<And>k rows. pool_order nthreads rows (sched1 k rows)" "\<And>ts. pool_order nthreads ts (sched2 ts)" "\<And>k. pool_order nthreads [0..<k] (sched3 k)"
    and room: "\<And>t uf. threshold sched1 False diff im = Inr t \<Longrightarrow> connected_components nthreads sched2 t (int w) (int h) (im_stride t) = Inr uf \<Longrightarrow>
      room (task_buckets nthreads nclustermap h) (fst ` set (rows_adds t w uf [1..<h - 1] :: (u64 \<times> 'v::zero pt) list))"
  shows "\<exists>t uf cls. threshold sched1 False diff im = Inr t \<and>
    quad_thresh_clusters nthreads sched1 sched2 sched3 False diff nclustermap im = Inr (uf, cls :: 'v pt list list) \<and>
    clustered (thr_spec diff im w h) w h (links t w (rows_joined nthreads h)) cls"
proof -
  note m = pool_order_mset [OF pool(1)] pool_order_mset [OF pool(2)] pool_order_mset [OF pool(3)]
  have b: "3 \<le> h" "h \<le> 32767" "w \<le> 32767" and wh: "im_width im = int w" "im_height im = int h" using assms(1) by (simp_all add: thr_ok_def)
  obtain t where t: "threshold sched1 False diff im = Inr t" using threshold_result [OF assms(1), of sched1] m(1) by blast
  note i = threshold_image [OF assms(1) m(1) t]
  obtain uf where uf: "connected_components nthreads sched2 t (int w) (int h) (im_stride t) = Inr uf"
    using cc_result [OF i(1) mset_eq_setD [OF m(2)], of nthreads] by blast
  obtain uf' cls where c: "gradient_clusters nthreads sched3 nclustermap t (int w) (int h) (im_stride t) uf = Inr (uf', cls :: 'v pt list list)"
    "clustered (col t) w h (links t w (rows_joined nthreads h)) cls"
    using clusters_components [OF i(1) b assms(2) m(2,3) uf room [OF t uf]] by (elim exE conjE)
  have "clustered (thr_spec diff im w h) w h (links t w (rows_joined nthreads h)) cls" by (rule clustered_colours [OF c(2) i(5)])
  moreover have "quad_thresh_clusters nthreads sched1 sched2 sched3 False diff nclustermap im = Inr (uf', cls)"
    using t uf c(1) by (simp add: quad_thresh_clusters_def quad_thresh_components_def wh)
  ultimately show ?thesis using t by blast
qed

text \<open>For every image, number of threads and scheduling of the worker pool the two steps return clusters, and these are those of the
  picture \<open>thr_spec\<close>: every point lies between two neighbouring pixels of which one is brighter than the middle of its
  window and the other is not, and two points share a cluster exactly when the pixels on their sides are connected.\<close>

theorem quad_clusters_correct:
  fixes nclustermap :: nat
  assumes "thr_ok im w h" "1 \<le> nthreads"
    and pool: "\<And>k rows. pool_order nthreads rows (sched1 k rows)" "\<And>ts. pool_order nthreads ts (sched2 ts)" "\<And>k. pool_order nthreads [0..<k] (sched3 k)"
    and room: "\<And>t uf. threshold sched1 False diff im = Inr t \<Longrightarrow> connected_components nthreads sched2 t (int w) (int h) (im_stride t) = Inr uf \<Longrightarrow>
      room (task_buckets nthreads nclustermap h) (fst ` set (rows_adds t w uf [1..<h - 1] :: (u64 \<times> 'v::zero pt) list))"
  shows "\<exists>t uf cls. threshold sched1 False diff im = Inr t \<and>
    quad_thresh_clusters nthreads sched1 sched2 sched3 False diff nclustermap im = Inr (uf, cls :: 'v pt list list) \<and>
    clustered (thr_spec diff im w h) w h (links t w (rows_joined nthreads h)) cls"
  by (rule quad_clusters [OF assms])

lemma quad_clusters_correct_witness:
  "\<exists>sched1 sched2 sched3 t uf cls. threshold sched1 False 5 (half_image 6 6) = Inr t \<and>
    quad_thresh_clusters 2 sched1 sched2 sched3 False 5 14 (half_image 6 6) = Inr (uf, cls :: int pt list list) \<and>
    clustered (thr_spec 5 (half_image 6 6) 12 6) 12 6 (links t 12 (rows_joined 2 6)) cls"
proof -
  obtain f1 :: "int list \<Rightarrow> int list" and f2 :: "unionfind_task list \<Rightarrow> unionfind_task list" and f3 :: "nat list \<Rightarrow> nat list"
    where f: "\<forall>rows. pool_order 2 rows (f1 rows)" "\<forall>ts. pool_order 2 ts (f2 ts)" "\<forall>ks. pool_order 2 ks (f3 ks)"
    using pool_schedule [of 2] pool_schedule [of 2] pool_schedule [of 2] by (elim exE) rule
  have s: "pool_order 2 rows (f1 rows)" "pool_order 2 ts (f2 ts)" "pool_order 2 [0..<k] (f3 [0..<k])" for rows ts k
    using f by simp_all
  have i: "thr_ok (half_image 6 6) 12 6" using half_ok [of 6 6] by (simp add: thr_ok_def half_image_def)
  have "room (task_buckets 2 14 6) (fst ` set (rows_adds t 12 uf [1..<6 - 1] :: (u64 \<times> int pt) list))" for t uf
    by (rule room_small) (simp_all add: task_buckets_def APRILTAG_TASKS_PER_THREAD_TARGET_def)
  from quad_clusters_correct [OF i _ s this, where diff = 5] show ?thesis
    by (intro exI [of _ "\<lambda>k rows. f1 rows"] exI [of _ f2] exI [of _ "\<lambda>k. f3 [0..<k]"]) simp
qed

end
