(* ===== verification/FrontEnd.thy ===== *)
theory FrontEnd
  imports QuadThresh ImageOps
begin

text \<open>
  The way of a camera frame through \<open>apriltag_detector_detect\<close> up to the fitting of quadrilaterals: it is made smaller and blurred,
  thresholded, segmented, and the borders of the segments are collected. The companion uses every fourth pixel, a blur
  of 0.6 and one thread.
\<close>

text \<open>For every frame of which at least four columns and rows are left after decimation these steps return: the picture they work
  on consists of every \<open>f\<close>-th pixel, blurred or sharpened, and the clusters are the borders between the components of that
  picture after the threshold.\<close>

lemma frame_clusters:
  fixes nclustermap :: nat
  assumes im: "im_ok im w h" "im_width im = int w" "im_height im = int h"
    and f: "2 \<le> f" "4 \<le> small f w" "small f w < 32768" "4 \<le> small f h" "small f h < 32768"
    and k: "int (length (gauss \<bar>sigma\<bar> (blur_size sigma))) = blur_size sigma" "blur_size sigma \<le> int (small f w)" "blur_size sigma \<le> int (small f h)"
    and n: "1 \<le> nthreads"
    and pool: "\<And>k rows. pool_order nthreads rows (sched1 k rows)" "\<And>ts. pool_order nthreads ts (sched2 ts)" "\<And>k. pool_order nthreads [0..<k] (sched3 k)"
    and room: "\<And>t uf. connected_components nthreads sched2 t (int (small f w)) (int (small f h)) (im_stride t) = Inr uf \<Longrightarrow>
      room (task_buckets nthreads nclustermap (small f h)) (fst ` set (rows_adds t (small f w) uf [1..<small f h - 1] :: (u64 \<times> 'v::zero pt) list))"
  shows "\<exists>p t uf cls. quad_preprocess gauss junk (of_nat f) sigma im = Inr p \<and>
    (\<forall>x < small f w. \<forall>y < small f h. col p x y = prepared (gauss \<bar>sigma\<bar> (blur_size sigma)) sigma f w h (col im) x y) \<and>
    threshold sched1 False diff p = Inr t \<and>
    quad_thresh_clusters nthreads sched1 sched2 sched3 False diff nclustermap p = Inr (uf, cls :: 'v pt list list) \<and>
    clustered (thr_spec diff p (small f w) (small f h)) (small f w) (small f h) (links t (small f w) (rows_joined nthreads (small f h))) cls"
proof -
  have "small f h * (small f w + 96) \<le> 32767 * (32767 + 96)" using f(3,5) by (intro mult_le_mono) simp_all
  then have d: "2 \<le> small f w" "small f h * (small f w + 96) < 2 ^ 31" "blur_size sigma < 65536" using f(2,3) k(2) by simp_all
  obtain p where p: "quad_preprocess gauss junk (of_nat f) sigma im = Inr p" "im_ok p (small f w) (small f h)"
    "im_width p = int (small f w)" "im_height p = int (small f h)"
    "\<And>x y. x < small f w \<Longrightarrow> y < small f h \<Longrightarrow> col p x y = prepared (gauss \<bar>sigma\<bar> (blur_size sigma)) sigma f w h (col im) x y"
    by (rule preprocess_ok [where gauss = gauss and sigma = sigma and junk = junk, OF im f(1) d(1,2) k d(3)]) blast
  have "thr_ok p (small f w) (small f h)" using p(2-4) f by (simp add: thr_ok_def)
  from quad_clusters [where ?sched1.0 = sched1 and ?sched2.0 = sched2 and ?sched3.0 = sched3 and diff = diff and nclustermap = nclustermap and ?'v = 'v, OF this n pool room]
  obtain t uf cls where c: "threshold sched1 False diff p = Inr t"
    "quad_thresh_clusters nthreads sched1 sched2 sched3 False diff nclustermap p = Inr (uf, cls :: 'v pt list list)"
    "clustered (thr_spec diff p (small f w) (small f h)) (small f w) (small f h) (links t (small f w) (rows_joined nthreads (small f h))) cls" by blast
  show ?thesis using p(1,5) c by blast
qed

end
