(* ===== verification/Detector.thy ===== *)
theory Detector
  imports TagReading Detections FrontEnd
begin

text \<open>
  The detector object of \<open>apriltag.c\<close>: its tag families, and the second half of \<open>apriltag_detector_detect\<close>, which decodes the
  quadrilaterals in parallel, reconciles the detections and sorts them.

  A family is known by its address; the store maps addresses to families. What is computed of a quadrilateral in floats
  (its refined edges, its homography, the sampled bits, the corners) is an argument, \<open>quad_ops\<close>; the homography and the sampling
  may fail, as the assertion of \<open>homography_compute2\<close> does.
\<close>

subsection \<open>The families of a detector\<close>

record 'f apriltag_detector =
  at_nthreads :: int
  at_quad_decimate :: rat
  at_quad_sigma :: rat
  at_refine_edges :: bool
  at_decode_sharpening :: 'f
  at_debug :: bool
  at_min_cluster_pixels :: int
  at_max_nmaxima :: int
  at_min_white_black_diff :: int
  at_deglitch :: bool
  at_tag_families :: "nat list"

definition apriltag_detector_create :: "'f::linordered_field apriltag_detector" where
  "apriltag_detector_create =
     \<lparr>at_nthreads = 1, at_quad_decimate = 2, at_quad_sigma = 0, at_refine_edges = True, at_decode_sharpening = 1 / 4,
      at_debug = False, at_min_cluster_pixels = 5, at_max_nmaxima = 10, at_min_white_black_diff = 5, at_deglitch = False,
      at_tag_families = []\<rparr>"

type_synonym fam_store = "nat \<Rightarrow> apriltag_family"

definition apriltag_detector_add_family_bits ::
  "(int \<Rightarrow> bool) \<Rightarrow> 'f apriltag_detector \<Rightarrow> fam_store \<Rightarrow> nat \<Rightarrow> int \<Rightarrow> cerr + 'f apriltag_detector \<times> fam_store" where
  "apriltag_detector_add_family_bits alloc td fs fam bits_corrected =
     (let td = td\<lparr>at_tag_families := at_tag_families td @ [fam]\<rparr> in
      if fam_impl (fs fam) = None
      then bindE (quick_decode_init alloc (fs fam) bits_corrected) (\<lambda>(f, err). Inr (td, fs(fam := f)))
      else Inr (td, fs))"

definition apriltag_detector_add_family ::
  "(int \<Rightarrow> bool) \<Rightarrow> 'f apriltag_detector \<Rightarrow> fam_store \<Rightarrow> nat \<Rightarrow> cerr + 'f apriltag_detector \<times> fam_store" where
  "apriltag_detector_add_family alloc td fs fam = apriltag_detector_add_family_bits alloc td fs fam 2"

definition apriltag_detector_remove_family :: "'f apriltag_detector \<Rightarrow> fam_store \<Rightarrow> nat \<Rightarrow> 'f apriltag_detector \<times> fam_store" where
  "apriltag_detector_remove_family td fs fam =
     (td\<lparr>at_tag_families := remove1 fam (at_tag_families td)\<rparr>, fs(fam := quick_decode_uninit (fs fam)))"

definition apriltag_detector_clear_families :: "'f apriltag_detector \<Rightarrow> fam_store \<Rightarrow> 'f apriltag_detector \<times> fam_store" where
  "apriltag_detector_clear_families td fs =
     (td\<lparr>at_tag_families := []\<rparr>, foldl (\<lambda>fs fam. fs(fam := quick_decode_uninit (fs fam))) fs (at_tag_families td))"

text \<open>The detector of the companion: \<open>TargetDetector::init\<close>, with \<open>tf\<close> the address of the new family.\<close>

definition init_detector ::
  "(int \<Rightarrow> bool) \<Rightarrow> fam_store \<Rightarrow> nat \<Rightarrow> cerr + 'f::linordered_field apriltag_detector \<times> fam_store" where
  "init_detector alloc fs tf =
     bindE (apriltag_detector_add_family alloc apriltag_detector_create (fs(tf := tag16h5_create)) tf) (\<lambda>(td, fs).
     Inr (td\<lparr>at_quad_sigma := 3 / 5, at_quad_decimate := 4, at_refine_edges := True, at_decode_sharpening := 1 / 4,
            at_nthreads := 1, at_debug := False\<rparr>, fs))"

subsection \<open>Decoding quadrilaterals\<close>

record ('q, 'f) quad_ops =
  qo_refine :: "'q \<Rightarrow> 'q"
  qo_homography :: "'q \<Rightarrow> cerr + 'q option"
  qo_reversed :: "'q \<Rightarrow> bool"
  qo_view :: "'q \<Rightarrow> apriltag_family \<Rightarrow> cerr + 'f quad_view"
  qo_corners :: "'q \<Rightarrow> quick_decode_entry \<Rightarrow> 'f point_2f \<times> 'f point_2f list"

text \<open>One family; \<open>junk\<close> is the local \<open>entry\<close> before it is set.\<close>

definition decode_family ::
  "('q, 'f) quad_ops \<Rightarrow> 'f::linordered_field apriltag_detector \<Rightarrow> fam_store \<Rightarrow> quick_decode_entry \<Rightarrow> 'q \<Rightarrow>
   'f apriltag_detection list \<Rightarrow> nat \<Rightarrow> cerr + 'f apriltag_detection list" where
  "decode_family ops td fs junk quad dets f =
     (let family = fs f in
      if fam_reversed_border family \<noteq> qo_reversed ops quad then Inr dets
      else bindE (qo_view ops quad family) (\<lambda>view. bindE (quad_decode (at_decode_sharpening td) family view junk) (\<lambda>(decision_margin, entry).
        if decision_margin \<ge> 0 \<and> unat (qe_hamming entry) < 255
        then Inr (dets @
          [\<lparr>det_id = int (unat (qe_id entry)), det_c = fst (qo_corners ops quad entry), det_p = snd (qo_corners ops quad entry),
            ad_family = f, ad_hamming = int (unat (qe_hamming entry)), ad_decision_margin = decision_margin\<rparr>])
        else Inr dets)))"

definition decode_quad ::
  "('q, 'f) quad_ops \<Rightarrow> 'f::linordered_field apriltag_detector \<Rightarrow> fam_store \<Rightarrow> quick_decode_entry \<Rightarrow> 'q \<Rightarrow>
   cerr + 'q \<times> 'f apriltag_detection list" where
  "decode_quad ops td fs junk quad =
     (let quad = (if at_refine_edges td then qo_refine ops quad else quad) in
      bindE (qo_homography ops quad) (\<lambda>res. case res of
        None \<Rightarrow> Inr (quad, [])
      | Some quad \<Rightarrow> bindE (foldE (decode_family ops td fs junk quad) (at_tag_families td) []) (\<lambda>dets. Inr (quad, dets))))"

text \<open>A task: the quadrilaterals it works on in place and the detections it adds to the common list.\<close>

definition quad_decode_task ::
  "('q, 'f) quad_ops \<Rightarrow> 'f::linordered_field apriltag_detector \<Rightarrow> fam_store \<Rightarrow> quick_decode_entry \<Rightarrow> int \<times> int \<Rightarrow> 'q list \<Rightarrow>
   cerr + 'q list \<times> 'f apriltag_detection list" where
  "quad_decode_task ops td fs junk = (\<lambda>(i0, i1) quads.
     foldE (\<lambda>(quads, dets) quadidx.
       bindE (vget quads quadidx) (\<lambda>quad.
       bindE (decode_quad ops td fs junk quad) (\<lambda>(quad, new).
       bindE (vset quads quadidx quad) (\<lambda>quads. Inr (quads, dets @ new))))) [i0..i1 - 1] (quads, []))"

definition decode_tasks :: "int \<Rightarrow> int \<Rightarrow> cerr + (int \<times> int) list" where
  "decode_tasks n nthreads =
     (if nthreads = 0 then Inl DivByZero
      else
        let chunksize = 1 + n div (APRILTAG_TASKS_PER_THREAD_TARGET * nthreads);
            tasks = map (\<lambda>i. (i, imin n (i + chunksize))) (up_by chunksize 0 n)
        in if int (length tasks) \<le> n div chunksize + 1 then Inr tasks else Inl OutOfBounds)"

text \<open>
  The pool calls the tasks in the order \<open>sched\<close>; each addition to the common list is made under the mutex of the detector, and
  \<open>mix\<close> is the order in which those of different tasks come.
\<close>

definition decode_quads ::
  "('q, 'f) quad_ops \<Rightarrow> 'f::linordered_field apriltag_detector \<Rightarrow> fam_store \<Rightarrow> quick_decode_entry \<Rightarrow> ((int \<times> int) list \<Rightarrow> (int \<times> int) list) \<Rightarrow>
   ('f apriltag_detection list list \<Rightarrow> 'f apriltag_detection list) \<Rightarrow> 'q list \<Rightarrow> cerr + 'f apriltag_detection list" where
  "decode_quads ops td fs junk sched mix quads =
     bindE (decode_tasks (int (length quads)) (at_nthreads td)) (\<lambda>tasks.
     bindE (foldE (\<lambda>(quads, added) task.
         bindE (quad_decode_task ops td fs junk task quads) (\<lambda>(quads, dets). Inr (quads, added @ [dets]))) (sched tasks) (quads, [])) (\<lambda>(quads, added).
     Inr (mix added)))"

definition detection_compare_function :: "'f apriltag_detection \<Rightarrow> 'f apriltag_detection \<Rightarrow> int" where
  "detection_compare_function a b = det_id a - det_id b"

text \<open>Comparison, negation and conversion are those of the field; \<open>qsorted\<close> is \<open>qsort\<close>, which says nothing of the order of equal elements.\<close>

definition field_ops :: "('f point_2f list \<Rightarrow> 'f point_2f list \<Rightarrow> bool) \<Rightarrow> 'f::linordered_field float_ops" where
  "field_ops overlaps = \<lparr>fo_less = (<), fo_neg = uminus, fo_int = of_int, fo_overlaps = overlaps\<rparr>"

definition detect_in_quads ::
  "('q, 'f) quad_ops \<Rightarrow> ('f point_2f list \<Rightarrow> 'f point_2f list \<Rightarrow> bool) \<Rightarrow> 'f::linordered_field apriltag_detector \<Rightarrow> fam_store \<Rightarrow> quick_decode_entry \<Rightarrow>
   ((int \<times> int) list \<Rightarrow> (int \<times> int) list) \<Rightarrow> ('f apriltag_detection list list \<Rightarrow> 'f apriltag_detection list) \<Rightarrow>
   ('f apriltag_detection list \<Rightarrow> 'f apriltag_detection list) \<Rightarrow> 'q list \<Rightarrow> cerr + 'f apriltag_detection list" where
  "detect_in_quads ops overlaps td fs junk sched mix qsorted quads =
     bindE (decode_quads ops td fs junk sched mix quads) (\<lambda>detections.
     Inr (qsorted (reconcile (field_ops overlaps) detections)))"

text \<open>
  The whole of \<open>apriltag_detector_detect\<close>. The quadrilaterals are fitted to the clusters and scaled to the frame by \<open>fit\<close>. They are
  decoded in the frame, which the blur has changed when it was not made smaller first. \<open>wp\<close> says whether there is a thread pool:
  when \<open>workerpool_create\<close> fails nothing is detected.
\<close>

definition apriltag_detector_detect where
  "apriltag_detector_detect wp gauss mem sched1 sched2 sched3 nclustermap fit ops overlaps td fs junk sched mix qsorted im_orig =
     (if at_tag_families td = [] then Inr []
      else if \<not> wp then Inr []
      else
        bindE (quad_preprocess gauss mem (at_quad_decimate td) (at_quad_sigma td) im_orig) (\<lambda>quad_im.
        bindE (quad_thresh_clusters (at_nthreads td) sched1 sched2 sched3 (at_deglitch td) (at_min_white_black_diff td) nclustermap quad_im) (\<lambda>(uf, clusters).
        let im = (if at_quad_decimate td > 1 then im_orig else quad_im)
        in detect_in_quads (ops im) overlaps td fs junk sched mix qsorted (fit clusters))))"

subsection \<open>Families with their tables\<close>

definition fam_typed :: "apriltag_family \<Rightarrow> bool" where
  "fam_typed fam \<longleftrightarrow> fam_ok fam \<and> (\<forall>qd. fam_impl fam = Some qd \<longrightarrow> (\<exists>h. 0 \<le> h \<and> h \<le> 3 \<and> qd_full fam h qd))"

lemma same_codes [simp]:
  "qd_full (fam\<lparr>fam_impl := x\<rparr>) = qd_full fam" "fam_ok (fam\<lparr>fam_impl := x\<rparr>) = fam_ok fam" "qd_cap (fam\<lparr>fam_impl := x\<rparr>) = qd_cap fam"
  by (simp_all add: fun_eq_iff qd_full_def qd_targets_def fam_ok_def qd_cap_def)

lemma fam_impl_unchanged: "fam\<lparr>fam_impl := fam_impl fam\<rparr> = fam"
  by simp

lemma typed_init:
  assumes fam: "fam_ok fam" "fam_impl fam = None" and h: "0 \<le> h" "h \<le> 3" and size: "int (3 * qd_cap fam h) \<le> INT_MAX"
  obtains x err where "quick_decode_init alloc fam h = Inr (fam\<lparr>fam_impl := x\<rparr>, err)" "fam_typed (fam\<lparr>fam_impl := x\<rparr>)"
proof (cases "alloc (int (3 * qd_cap fam h))")
  case True
  then have "qd_fits alloc fam h" using size by (simp add: qd_fits_def)
  then obtain qd where "quick_decode_init alloc fam h = Inr (fam\<lparr>fam_impl := Some qd\<rparr>, NoError)" "qd_full fam h qd"
    by (rule quick_decode_init_full [OF fam h])
  then show ?thesis using that [of "Some qd"] fam(1) h by (auto simp: fam_typed_def)
next
  case False
  have "sint (qd_capacity fam h) * 3 = int (3 * qd_cap fam h)" using size by (simp add: qd_capacity_eq sint_of_nat_small)
  then have "cint (sint (qd_capacity fam h) * 3) = Inr (int (3 * qd_cap fam h))" using size by (simp add: cint_def INT_MIN_def)
  then have "quick_decode_init alloc fam h = Inr (fam, ENOMEM)" using fam False by (simp add: quick_decode_init_def fam_ok_def)
  moreover have "fam = fam\<lparr>fam_impl := None\<rparr>" using fam(2) by (metis fam_impl_unchanged)
  ultimately show ?thesis using that [of None ENOMEM] fam by (simp add: fam_typed_def)
qed

lemma typed_decodes:
  assumes "fam_typed fam" "unat c < 2 ^ fam_nbits fam"
  obtains e where "quick_decode_codeword fam c = Inr e"
proof (cases "fam_impl fam")
  case (Some qd)
  then obtain h where h: "0 \<le> h" "h \<le> 3" "qd_full fam h qd" "fam_ok fam" using assms(1) by (auto simp: fam_typed_def)
  then show ?thesis using quick_decode_rounds_ok [OF h(3,4,1,2) assms(2), of 0 4] that Some by (auto simp: quick_decode_codeword_def)
qed (use that in \<open>simp add: quick_decode_codeword_def\<close>)

lemma typed_uninit: "fam_typed fam \<Longrightarrow> fam_typed (quick_decode_uninit fam)"
  by (auto simp: quick_decode_uninit_def fam_typed_def split: option.splits)

text \<open>What a caller does with the families of a detector.\<close>

datatype family_op = Add nat int | Remove nat | Clear

definition run_family_op :: "(int \<Rightarrow> bool) \<Rightarrow> 'f apriltag_detector \<times> fam_store \<Rightarrow> family_op \<Rightarrow> cerr + 'f apriltag_detector \<times> fam_store" where
  "run_family_op alloc = (\<lambda>(td, fs) oper. case oper of
     Add fam bits_corrected \<Rightarrow> apriltag_detector_add_family_bits alloc td fs fam bits_corrected
   | Remove fam \<Rightarrow> Inr (apriltag_detector_remove_family td fs fam)
   | Clear \<Rightarrow> Inr (apriltag_detector_clear_families td fs))"

fun listed :: "nat list \<Rightarrow> family_op list \<Rightarrow> nat list" where
  "listed fams [] = fams"
| "listed fams (Add fam h # opers) = listed (fams @ [fam]) opers"
| "listed fams (Remove fam # opers) = listed (remove1 fam fams) opers"
| "listed fams (Clear # opers) = listed [] opers"

text \<open>The families are well formed and small enough for the numbers of errors they are added with.\<close>

definition families_fit :: "fam_store \<Rightarrow> family_op list \<Rightarrow> bool" where
  "families_fit fs opers \<longleftrightarrow> (\<forall>fam. fam_ok (fs fam)) \<and>
     (\<forall>fam h. Add fam h \<in> set opers \<longrightarrow> 0 \<le> h \<and> h \<le> 3 \<and> int (3 * qd_cap (fs fam) h) \<le> INT_MAX)"

definition store_typed :: "fam_store \<Rightarrow> fam_store \<Rightarrow> bool" where
  "store_typed fs0 fs \<longleftrightarrow> (\<forall>fam. fam_typed (fs fam) \<and> (\<exists>x. fs fam = (fs0 fam)\<lparr>fam_impl := x\<rparr>))"

lemma store_typed_upd:
  assumes "store_typed fs0 fs" "fam_typed ((fs fam)\<lparr>fam_impl := x\<rparr>)"
  shows "store_typed fs0 (fs(fam := (fs fam)\<lparr>fam_impl := x\<rparr>))"
  unfolding store_typed_def
proof
  fix f
  obtain y where "fs f = (fs0 f)\<lparr>fam_impl := y\<rparr>" "fam_typed (fs f)" using assms(1) unfolding store_typed_def by blast
  then show "fam_typed ((fs(fam := (fs fam)\<lparr>fam_impl := x\<rparr>)) f) \<and> (\<exists>z. (fs(fam := (fs fam)\<lparr>fam_impl := x\<rparr>)) f = (fs0 f)\<lparr>fam_impl := z\<rparr>)"
    using assms(2) by auto
qed

lemma uninit_upd: "quick_decode_uninit fam = fam\<lparr>fam_impl := None\<rparr>"
  by (cases fam) (auto simp: quick_decode_uninit_def split: option.splits)

lemma store_typed_uninit: "store_typed fs0 fs \<Longrightarrow> store_typed fs0 (fs(fam := quick_decode_uninit (fs fam)))"
  unfolding uninit_upd by (intro store_typed_upd) (auto simp: store_typed_def fam_typed_def)

lemma family_op_typed:
  assumes typed: "store_typed fs0 fs" and fit: "families_fit fs0 [oper]"
  obtains fs' where "run_family_op alloc (td, fs) oper = Inr (td\<lparr>at_tag_families := listed (at_tag_families td) [oper]\<rparr>, fs')" "store_typed fs0 fs'"
proof (cases oper)
  case (Add fam h)
  have h: "0 \<le> h" "h \<le> 3" "int (3 * qd_cap (fs0 fam) h) \<le> INT_MAX" using fit Add by (auto simp: families_fit_def)
  have f: "fam_ok (fs fam)" "int (3 * qd_cap (fs fam) h) \<le> INT_MAX"
    using typed h(3) unfolding store_typed_def fam_typed_def by (metis, metis same_codes(3))
  show thesis
  proof (cases "fam_impl (fs fam) = None")
    case True
    obtain x err where "quick_decode_init alloc (fs fam) h = Inr ((fs fam)\<lparr>fam_impl := x\<rparr>, err)" "fam_typed ((fs fam)\<lparr>fam_impl := x\<rparr>)"
      by (rule typed_init [OF f(1) True h(1,2) f(2)])
    then show thesis using that [of "fs(fam := (fs fam)\<lparr>fam_impl := x\<rparr>)"] store_typed_upd [OF typed] True Add
      by (simp add: run_family_op_def apriltag_detector_add_family_bits_def)
  next
    case False
    then obtain qd where "fam_impl (fs fam) = Some qd" by blast
    then show thesis using that [of fs] typed Add by (simp add: Let_def run_family_op_def apriltag_detector_add_family_bits_def)
  qed
next
  case (Remove fam)
  then show thesis using that [OF _ store_typed_uninit [OF typed, of fam]]
    by (simp add: run_family_op_def apriltag_detector_remove_family_def)
next
  case Clear
  have "store_typed fs0 (foldl (\<lambda>fs fam. fs(fam := quick_decode_uninit (fs fam))) fs fams)" for fams
    using typed by (induction fams arbitrary: fs) (simp_all add: store_typed_uninit)
  then show thesis using that Clear by (simp add: run_family_op_def apriltag_detector_clear_families_def)
qed

lemma listed_step: "listed fams (oper # opers) = listed (listed fams [oper]) opers"
  by (cases oper) simp_all

lemma family_ops_typed:
  assumes "store_typed fs0 fs" "families_fit fs0 opers"
  shows "\<exists>fs'. foldE (run_family_op alloc) opers (td, fs) = Inr (td\<lparr>at_tag_families := listed (at_tag_families td) opers\<rparr>, fs') \<and> store_typed fs0 fs'"
  using assms
proof (induction opers arbitrary: td fs)
  case Nil
  then show ?case by simp
next
  case (Cons oper opers)
  have fit: "families_fit fs0 [oper]" "families_fit fs0 opers" using Cons.prems(2) by (auto simp: families_fit_def)
  obtain fs1 where one: "run_family_op alloc (td, fs) oper = Inr (td\<lparr>at_tag_families := listed (at_tag_families td) [oper]\<rparr>, fs1)" "store_typed fs0 fs1"
    by (rule family_op_typed [OF Cons.prems(1) fit(1)])
  from Cons.IH [OF one(2) fit(2), of "td\<lparr>at_tag_families := listed (at_tag_families td) [oper]\<rparr>"]
  show ?case using one(1) listed_step [of "at_tag_families td" oper opers] by (auto simp del: listed.simps)
qed

text \<open>C31: After any sequence of adding, removing and clearing families the detector lists those added and not removed, every table
  belongs to its family, whether allocations succeed or not, and looking any word up in any family, listed or not, returns
  without an error.\<close>

theorem families_typed:
  assumes "families_fit fs opers" "\<forall>fam. fam_impl (fs fam) = None"
  shows "\<exists>td fs'. foldE (run_family_op alloc) opers (apriltag_detector_create :: 'f::linordered_field apriltag_detector, fs) = Inr (td, fs') \<and>
    at_tag_families td = listed [] opers \<and> store_typed fs fs' \<and>
    (\<forall>fam c. unat c < 2 ^ fam_nbits (fs fam) \<longrightarrow> (\<exists>e. quick_decode_codeword (fs' fam) c = Inr e))"
proof -
  have "store_typed fs fs" using assms fam_impl_unchanged unfolding store_typed_def families_fit_def fam_typed_def by (metis option.distinct(1))
  from family_ops_typed [OF this assms(1), of alloc "apriltag_detector_create :: 'f apriltag_detector"]
  obtain fs' where fs': "foldE (run_family_op alloc) opers (apriltag_detector_create :: 'f apriltag_detector, fs) =
      Inr (apriltag_detector_create\<lparr>at_tag_families := listed [] opers\<rparr>, fs')" "store_typed fs fs'"
    by (auto simp: apriltag_detector_create_def)
  have "\<exists>e. quick_decode_codeword (fs' fam) c = Inr e" if "unat c < 2 ^ fam_nbits (fs fam)" for fam c
  proof -
    obtain x where "fam_typed (fs' fam)" "fs' fam = (fs fam)\<lparr>fam_impl := x\<rparr>" using fs'(2) unfolding store_typed_def by blast
    then show ?thesis using typed_decodes [of "fs' fam" c] that by (metis apriltag_family.select_convs(6) apriltag_family.update_convs(11) apriltag_family.surjective)
  qed
  then show ?thesis using fs' by auto
qed

text \<open>Adding one family twice and removing it once.\<close>

lemma families_typed_witness:
  "\<exists>td fs'. foldE (run_family_op (\<lambda>_. True)) [Add 0 2, Add 1 1, Add 0 2, Remove 0] (apriltag_detector_create :: rat apriltag_detector, \<lambda>_. tag16h5_create) = Inr (td, fs') \<and>
    at_tag_families td = [1, 0] \<and> (\<exists>e. quick_decode_codeword (fs' 0) 0x27c8 = Inr e)"
proof -
  have cap: "int (3 * qd_cap tag16h5_create h) \<le> INT_MAX" if "h = 1 \<or> h = 2" for h
    using that by (auto simp: fam_creates qd_cap_def Let_def INT_MAX_def)
  have "families_fit (\<lambda>_. tag16h5_create) [Add 0 2, Add 1 1, Add 0 2, Remove 0]"
    using cap fam_oks(1) by (auto simp: families_fit_def)
  moreover have "\<forall>fam. fam_impl ((\<lambda>_. tag16h5_create) fam) = None" by (simp add: fam_creates)
  moreover have "unat (0x27c8 :: u64) < 2 ^ fam_nbits tag16h5_create" by (simp add: fam_creates)
  ultimately obtain td fs' where "foldE (run_family_op (\<lambda>_. True)) [Add 0 2, Add 1 1, Add 0 2, Remove 0]
      (apriltag_detector_create :: rat apriltag_detector, \<lambda>_. tag16h5_create) = Inr (td, fs')"
    "at_tag_families td = listed [] [Add 0 2, Add 1 1, Add 0 2, Remove 0]" "\<exists>e. quick_decode_codeword (fs' 0) 0x27c8 = Inr e"
    using families_typed [of "\<lambda>_. tag16h5_create" "[Add 0 2, Add 1 1, Add 0 2, Remove 0]" "\<lambda>_. True", where ?'f = rat] by blast
  then show ?thesis by (intro exI [of _ td] exI [of _ fs'] conjI) simp_all
qed

subsection \<open>Decoding fails only with the homography or the sampling\<close>

definition family_ready :: "apriltag_family \<Rightarrow> bool" where
  "family_ready fam \<longleftrightarrow> cells_ok fam \<and> fam_typed fam"

lemma quad_decode_total:
  fixes view :: "'f::linordered_field quad_view"
  assumes "family_ready fam"
  obtains r where "quad_decode d fam view entry = Inr r"
proof (cases "qv_polarity view")
  case True
  have cells: "cells_ok fam" and typed: "fam_typed fam" using assms by (simp_all add: family_ready_def)
  have nb: "fam_nbits fam \<le> 64" using typed by (simp add: fam_typed_def fam_ok_def)
  obtain T where T: "fam_total_width fam = int T" by (rule cells_okD [OF cells]) blast
  obtain vs where vs: "bit_values fam view (replicate (T * T) 0) = Inr vs" "length vs = T * T" by (rule bit_values_ok [OF cells T]) blast
  obtain ws where ws: "sharpen d vs (int T) = Inr ws" "length ws = T * T" by (rule sharpen_values_ok [OF vs(2)]) blast
  obtain sc where sc: "foldE (score_bit fam ws) [0..<fam_nbits fam] \<lparr>sc_white = 0, sc_white_count = 1, sc_black = 0, sc_black_count = 1, sc_rcode = 0\<rparr> = Inr sc"
    "reads (fam_nbits fam) (\<lambda>i. 0 < ws ! pix T (cell fam i)) (sc_rcode sc)"
    using score_ok [OF cells T ws(2) order_refl nb] by blast
  obtain e where "quick_decode_codeword fam (sc_rcode sc) = Inr e" by (rule typed_decodes [OF typed reads_fits [OF sc(2)]])
  then show ?thesis using that True vs(1) ws(1) sc(1) T by (simp add: quad_decode_def nat_mult_distrib)
qed (use that in \<open>simp add: quad_decode_def\<close>)

definition families_ready :: "'f apriltag_detector \<Rightarrow> fam_store \<Rightarrow> bool" where
  "families_ready td fs \<longleftrightarrow> (\<forall>f \<in> set (at_tag_families td). family_ready (fs f))"

text \<open>The detection a family gives, if any, and those of a quadrilateral.\<close>

definition family_dets ::
  "('q, 'f) quad_ops \<Rightarrow> 'f::linordered_field apriltag_detector \<Rightarrow> fam_store \<Rightarrow> quick_decode_entry \<Rightarrow> 'q \<Rightarrow> nat \<Rightarrow> 'f apriltag_detection list" where
  "family_dets ops td fs junk quad f = (case decode_family ops td fs junk quad [] f of Inr ds \<Rightarrow> ds | Inl e \<Rightarrow> [])"

definition quad_dets ::
  "('q, 'f) quad_ops \<Rightarrow> 'f::linordered_field apriltag_detector \<Rightarrow> fam_store \<Rightarrow> quick_decode_entry \<Rightarrow> 'q \<Rightarrow> 'f apriltag_detection list" where
  "quad_dets ops td fs junk quad = (case decode_quad ops td fs junk quad of Inr (q, ds) \<Rightarrow> ds | Inl e \<Rightarrow> [])"

text \<open>The homography and the sampling of a quadrilateral do not fail.\<close>

definition family_runs :: "('q, 'f) quad_ops \<Rightarrow> fam_store \<Rightarrow> 'q \<Rightarrow> nat \<Rightarrow> bool" where
  "family_runs ops fs quad f \<longleftrightarrow> fam_reversed_border (fs f) = qo_reversed ops quad \<longrightarrow> (\<exists>view. qo_view ops quad (fs f) = Inr view)"

definition quad_runs :: "('q, 'f) quad_ops \<Rightarrow> 'f apriltag_detector \<Rightarrow> fam_store \<Rightarrow> 'q \<Rightarrow> bool" where
  "quad_runs ops td fs quad \<longleftrightarrow>
     (case qo_homography ops (if at_refine_edges td then qo_refine ops quad else quad) of
        Inl e \<Rightarrow> False
      | Inr None \<Rightarrow> True
      | Inr (Some quad) \<Rightarrow> \<forall>f \<in> set (at_tag_families td). family_runs ops fs quad f)"

lemma decode_family_ok:
  assumes "family_ready (fs f)"
  shows "if family_runs ops fs quad f then decode_family ops td fs junk quad dets f = Inr (dets @ family_dets ops td fs junk quad f)
    else \<exists>e. decode_family ops td fs junk quad dets f = Inl e"
proof (cases "fam_reversed_border (fs f) = qo_reversed ops quad")
  case border: True
  show ?thesis
  proof (cases "qo_view ops quad (fs f)")
    case (Inl e)
    then show ?thesis using border by (auto simp: family_runs_def decode_family_def Let_def)
  next
    case (Inr view)
    obtain m e where "quad_decode (at_decode_sharpening td) (fs f) view junk = Inr (m, e)"
      by (rule quad_decode_total [OF assms, of "at_decode_sharpening td" view junk]) (metis surj_pair)
    then show ?thesis using Inr by (simp add: family_runs_def family_dets_def decode_family_def Let_def)
  qed
qed (simp add: family_runs_def family_dets_def decode_family_def Let_def)

lemma decode_families_ok:
  assumes "\<forall>f \<in> set fams. family_ready (fs f)"
  shows "if \<forall>f \<in> set fams. family_runs ops fs quad f
    then foldE (decode_family ops td fs junk quad) fams dets = Inr (dets @ concat (map (family_dets ops td fs junk quad) fams))
    else \<exists>e. foldE (decode_family ops td fs junk quad) fams dets = Inl e"
  using assms
proof (induction fams arbitrary: dets)
  case (Cons f fams)
  have "family_ready (fs f)" using Cons.prems by simp
  note one = decode_family_ok [where fs = fs and f = f and ops = ops and quad = quad and td = td and junk = junk and dets = dets, OF this]
  show ?case using one Cons.IH [of "dets @ family_dets ops td fs junk quad f"] Cons.prems by (cases "family_runs ops fs quad f") auto
qed simp

lemma decode_quad_ok:
  assumes "families_ready td fs"
  shows "if quad_runs ops td fs quad then \<exists>q. decode_quad ops td fs junk quad = Inr (q, quad_dets ops td fs junk quad)
    else \<exists>e. decode_quad ops td fs junk quad = Inl e"
proof -
  have "\<forall>f \<in> set (at_tag_families td). family_ready (fs f)" using assms by (simp add: families_ready_def)
  note fold = decode_families_ok [OF this, of ops _ td junk "[]"]
  show ?thesis
  proof (cases "qo_homography ops (if at_refine_edges td then qo_refine ops quad else quad)")
    case (Inr res)
    show ?thesis
    proof (cases res)
      case (Some q0)
      show ?thesis
      proof (cases "\<forall>f \<in> set (at_tag_families td). family_runs ops fs q0 f")
        case True
        then show ?thesis using fold [of q0] Inr Some by (simp add: quad_runs_def quad_dets_def decode_quad_def)
      next
        case False
        then obtain e where "foldE (decode_family ops td fs junk q0) (at_tag_families td) [] = Inl e"
          using fold [of q0] unfolding if_not_P [OF False] by blast
        then show ?thesis using False Inr Some by (simp add: quad_runs_def decode_quad_def)
      qed
    qed (use Inr in \<open>simp add: quad_runs_def quad_dets_def decode_quad_def\<close>)
  qed (simp add: quad_runs_def decode_quad_def)
qed

lemma quad_dets_eq:
  assumes "families_ready td fs" "quad_runs ops td fs quad"
    and "qo_homography ops (if at_refine_edges td then qo_refine ops quad else quad) = Inr res"
  shows "quad_dets ops td fs junk quad =
    (case res of None \<Rightarrow> [] | Some q0 \<Rightarrow> concat (map (family_dets ops td fs junk q0) (at_tag_families td)))"
proof -
  have "\<forall>f \<in> set (at_tag_families td). family_ready (fs f)" using assms(1) by (simp add: families_ready_def)
  from decode_families_ok [OF this, of ops _ td junk "[]"] show ?thesis
    using assms(2,3) by (cases res) (auto simp: quad_runs_def quad_dets_def decode_quad_def)
qed

subsection \<open>The tasks\<close>

lemma cut_concat:
  assumes "0 < c"
  shows "concat (map (\<lambda>j. [c * j..<min n (c * j + c)]) [0..<k]) = [0..<min n (c * k)]"
proof (induction k)
  case (Suc k)
  have "[0..<min n (c * k)] @ [c * k..<min n (c * k + c)] = [0..<min n (c * k + c)]"
  proof (cases "c * k \<le> n")
    case True
    then have "min n (c * k) = c * k" "c * k \<le> min n (c * k + c)" by simp_all
    then show ?thesis using upt_add_eq_append [of 0 "c * k" "min n (c * k + c) - c * k"] by simp
  qed simp
  then show ?case using Suc by (simp add: add.commute)
qed simp

definition task_range :: "int \<times> int \<Rightarrow> nat list" where
  "task_range = (\<lambda>(i0, i1). [nat i0..<nat i1])"

lemma decode_tasks_ok:
  assumes "1 \<le> nthreads"
  obtains tasks where "decode_tasks (int n) nthreads = Inr tasks" "concat (map task_range tasks) = [0..<n]"
    "\<And>t. t \<in> set tasks \<Longrightarrow> 0 \<le> fst t \<and> fst t \<le> snd t"
proof -
  define c where "c = nat (1 + int n div (10 * nthreads))"
  have "0 \<le> int n div (10 * nthreads)" using pos_imp_zdiv_nonneg_iff [of "10 * nthreads" "int n"] assms by simp
  then have c: "1 + int n div (APRILTAG_TASKS_PER_THREAD_TARGET * nthreads) = int c" "0 < c"
    by (simp_all add: c_def APRILTAG_TASKS_PER_THREAD_TARGET_def)
  define m where "m = (n + c - 1) div c"
  have up: "up_by (int c) 0 (int n) = map (\<lambda>i. int (c * i)) [0..<m]" using up_by_eq [OF c(2), of 0 n] by (simp add: m_def)
  have m: "m \<le> n div c + 1" "n \<le> c * m"
  proof -
    have "n + c - 1 \<le> n + c" by simp
    then have "m \<le> (n + c) div c" unfolding m_def by (rule div_le_mono)
    then show "m \<le> n div c + 1" using c(2) by simp
    have "c * m + (n + c - 1) mod c = n + c - 1" by (simp add: m_def)
    moreover have "(n + c - 1) mod c < c" using c(2) by simp
    ultimately show "n \<le> c * m" using c(2) by linarith
  qed
  let ?tasks = "map (\<lambda>i. (int (c * i), imin (int n) (int (c * i) + int c))) [0..<m]"
  have im: "imin (int n) (int (c * i) + int c) = int (min n (c * i + c))" for i
    by (cases "n < c * i + c") (simp_all add: imin_def flip: of_nat_add of_nat_mult)
  have "int m \<le> int n div int c + 1" using m(1) by (simp add: zdiv_int [symmetric])
  then have "decode_tasks (int n) nthreads = Inr ?tasks" using assms by (simp add: decode_tasks_def Let_def c(1) up comp_def)
  moreover have "concat (map task_range ?tasks) = [0..<n]"
  proof -
    have e: "map task_range ?tasks = map (\<lambda>j. [c * j..<min n (c * j + c)]) [0..<m]" unfolding im by (simp add: task_range_def comp_def del: of_nat_mult of_nat_add)
    show ?thesis unfolding e cut_concat [OF c(2)] using m(2) by simp
  qed
  moreover have "0 \<le> fst t \<and> fst t \<le> snd t" if "t \<in> set ?tasks" for t
  proof -
    from that obtain i where i: "i < m" "t = (int (c * i), int (min n (c * i + c)))" unfolding im by auto
    have "c * i < n"
    proof -
      have "c * i + c \<le> c * m" using i(1) by (metis Suc_leI add.commute mult_Suc_right mult_le_mono2)
      also have "\<dots> \<le> n + c - 1" by (simp add: m_def)
      finally show ?thesis using c(2) by linarith
    qed
    then have "c * i \<le> min n (c * i + c)" by simp
    then show ?thesis unfolding i(2) by (simp only: fst_conv snd_conv of_nat_le_iff of_nat_0_le_iff simp_thms)
  qed
  ultimately show thesis by (rule that)
qed

lemma decode_indices_ok:
  assumes ready: "families_ready td fs" and ks: "distinct ks" "\<And>k. k \<in> set ks \<Longrightarrow> k < length quads \<and> quads ! k = qs ! k"
  shows "if \<forall>k \<in> set ks. quad_runs ops td fs (qs ! k)
    then \<exists>quads'. foldE (\<lambda>s k. (case s of (quads, dets) \<Rightarrow> \<lambda>quadidx.
        bindE (vget quads quadidx) (\<lambda>quad. bindE (decode_quad ops td fs junk quad) (\<lambda>(quad, new).
        bindE (vset quads quadidx quad) (\<lambda>quads. Inr (quads, dets @ new))))) (int k)) ks (quads, dets) =
      Inr (quads', dets @ concat (map (\<lambda>k. quad_dets ops td fs junk (qs ! k)) ks)) \<and>
      length quads' = length quads \<and> (\<forall>j. j \<notin> set ks \<longrightarrow> quads' ! j = quads ! j)
    else \<exists>e. foldE (\<lambda>s k. (case s of (quads, dets) \<Rightarrow> \<lambda>quadidx.
        bindE (vget quads quadidx) (\<lambda>quad. bindE (decode_quad ops td fs junk quad) (\<lambda>(quad, new).
        bindE (vset quads quadidx quad) (\<lambda>quads. Inr (quads, dets @ new))))) (int k)) ks (quads, dets) = Inl e"
  using ks
proof (induction ks arbitrary: quads dets)
  case Nil
  then show ?case by simp
next
  case (Cons k ks)
  have k: "k < length quads" "quads ! k = qs ! k" using Cons.prems(2) by simp_all
  note one = decode_quad_ok [OF ready, of ops "qs ! k" junk]
  show ?case
  proof (cases "quad_runs ops td fs (qs ! k)")
    case True
    then obtain q where q: "decode_quad ops td fs junk (qs ! k) = Inr (q, quad_dets ops td fs junk (qs ! k))" using one by auto
    have d: "distinct ks" "k \<notin> set ks" using Cons.prems(1) by simp_all
    have "j < length (quads[k := q]) \<and> quads[k := q] ! j = qs ! j" if "j \<in> set ks" for j
    proof -
      have "j \<noteq> k" using that d(2) by blast
      then show ?thesis using Cons.prems(2) [of j] that by simp
    qed
    from Cons.IH [OF d(1) this, of "dets @ quad_dets ops td fs junk (qs ! k)"]
    show ?thesis using k q d(2) True by (auto simp: vget_ok vset_ok split: if_splits)
  next
    case False
    then obtain e where "decode_quad ops td fs junk (qs ! k) = Inl e" using one by auto
    then show ?thesis using k False by (auto simp: vget_ok)
  qed
qed

lemma int_range: "0 \<le> i0 \<Longrightarrow> i0 \<le> i1 \<Longrightarrow> [i0..i1 - 1] = map int (task_range (i0, i1))"
  using map_int_upt [of "nat i0" "nat i1"] by (simp add: task_range_def)

lemma quad_decode_task_ok:
  assumes ready: "families_ready td fs" and t: "0 \<le> fst t" "fst t \<le> snd t"
    and k: "\<And>k. k \<in> set (task_range t) \<Longrightarrow> k < length quads \<and> quads ! k = qs ! k"
  shows "if \<forall>k \<in> set (task_range t). quad_runs ops td fs (qs ! k)
    then \<exists>quads'. quad_decode_task ops td fs junk t quads = Inr (quads', concat (map (\<lambda>k. quad_dets ops td fs junk (qs ! k)) (task_range t))) \<and>
      length quads' = length quads \<and> (\<forall>j. j \<notin> set (task_range t) \<longrightarrow> quads' ! j = quads ! j)
    else \<exists>e. quad_decode_task ops td fs junk t quads = Inl e"
proof -
  obtain i0 i1 where i: "t = (i0, i1)" by (cases t)
  have r: "0 \<le> i0" "i0 \<le> i1" using t i by simp_all
  have "distinct (task_range t)" by (simp add: i task_range_def)
  from decode_indices_ok [OF ready this k, of ops junk "[]"] show ?thesis
    unfolding quad_decode_task_def i prod.case int_range [OF r] foldE_map append_Nil .
qed

lemma decode_tasks_run:
  assumes ready: "families_ready td fs" and ts: "distinct (concat (map task_range tasks))" "\<And>t. t \<in> set tasks \<Longrightarrow> 0 \<le> fst t \<and> fst t \<le> snd t"
    "\<And>k. k \<in> set (concat (map task_range tasks)) \<Longrightarrow> k < length quads \<and> quads ! k = qs ! k"
  shows "if \<forall>k \<in> set (concat (map task_range tasks)). quad_runs ops td fs (qs ! k)
    then \<exists>quads'. foldE (\<lambda>(quads, added) task. bindE (quad_decode_task ops td fs junk task quads) (\<lambda>(quads, dets). Inr (quads, added @ [dets]))) tasks (quads, added) =
      Inr (quads', added @ map (\<lambda>t. concat (map (\<lambda>k. quad_dets ops td fs junk (qs ! k)) (task_range t))) tasks)
    else \<exists>e. foldE (\<lambda>(quads, added) task. bindE (quad_decode_task ops td fs junk task quads) (\<lambda>(quads, dets). Inr (quads, added @ [dets]))) tasks (quads, added) = Inl e"
  using ts
proof (induction tasks arbitrary: quads added)
  case Nil
  then show ?case by simp
next
  case (Cons t tasks)
  let ?d = "\<lambda>t. concat (map (\<lambda>k. quad_dets ops td fs junk (qs ! k)) (task_range t))"
  let ?step = "\<lambda>(quads, added) task. bindE (quad_decode_task ops td fs junk task quads) (\<lambda>(quads, dets). Inr (quads, added @ [dets]))"
  have d: "distinct (task_range t)" "distinct (concat (map task_range tasks))" "set (task_range t) \<inter> set (concat (map task_range tasks)) = {}"
    using Cons.prems(1) by auto
  have t: "0 \<le> fst t" "fst t \<le> snd t" using Cons.prems(2) [of t] by simp_all
  have k: "k < length quads \<and> quads ! k = qs ! k" if "k \<in> set (task_range t)" for k by (rule Cons.prems(3)) (use that in simp)
  note one = quad_decode_task_ok [OF ready t k, of ops junk]
  show ?case
  proof (cases "\<forall>k \<in> set (task_range t). quad_runs ops td fs (qs ! k)")
    case True
    then obtain quads' where q: "quad_decode_task ops td fs junk t quads = Inr (quads', concat (map (\<lambda>k. quad_dets ops td fs junk (qs ! k)) (task_range t)))"
      "length quads' = length quads" "\<forall>j. j \<notin> set (task_range t) \<longrightarrow> quads' ! j = quads ! j" using one by auto
    have "k < length quads' \<and> quads' ! k = qs ! k" if "k \<in> set (concat (map task_range tasks))" for k
    proof -
      have "k \<notin> set (task_range t)" using d(3) that by blast
      moreover have "k < length quads \<and> quads ! k = qs ! k" by (rule Cons.prems(3)) (use that in simp)
      ultimately show ?thesis using q(2,3) by simp
    qed
    from Cons.IH [OF d(2) _ this, of "added @ [concat (map (\<lambda>k. quad_dets ops td fs junk (qs ! k)) (task_range t))]"]
    have ih: "if \<forall>k \<in> set (concat (map task_range tasks)). quad_runs ops td fs (qs ! k)
      then \<exists>quads''. foldE ?step tasks (quads', added @ [?d t]) = Inr (quads'', (added @ [?d t]) @ map ?d tasks)
      else \<exists>e. foldE ?step tasks (quads', added @ [?d t]) = Inl e"
      using Cons.prems(2) by auto
    show ?thesis
    proof (cases "\<forall>k \<in> set (concat (map task_range tasks)). quad_runs ops td fs (qs ! k)")
      case rest: True
      then have all: "\<forall>k \<in> set (concat (map task_range (t # tasks))). quad_runs ops td fs (qs ! k)" using True by auto
      show ?thesis unfolding if_P [OF all] using ih [unfolded if_P [OF rest]] by (simp add: q(1))
    next
      case rest: False
      then have some: "\<not> (\<forall>k \<in> set (concat (map task_range (t # tasks))). quad_runs ops td fs (qs ! k))" by auto
      show ?thesis unfolding if_not_P [OF some] using ih [unfolded if_not_P [OF rest]] by (simp add: q(1))
    qed
  next
    case False
    then obtain e where "quad_decode_task ops td fs junk t quads = Inl e" using one unfolding if_not_P [OF False] by blast
    moreover have "\<not> (\<forall>k \<in> set (concat (map task_range (t # tasks))). quad_runs ops td fs (qs ! k))" using False by auto
    ultimately show ?thesis by simp
  qed
qed

text \<open>Whatever the number of threads and the order of the tasks, each quadrilateral is decoded once.\<close>

definition any_mix :: "('a list list \<Rightarrow> 'a list) \<Rightarrow> bool" where
  "any_mix mix \<longleftrightarrow> (\<forall>xss. mset (mix xss) = mset (concat xss))"

lemma mset_concat_map: "mset ts = mset us \<Longrightarrow> mset (concat (map f ts)) = mset (concat (map f us))"
  by (simp add: mset_concat flip: mset_map) (metis mset_map sum_mset_sum_list)

lemma concat_map_concat: "concat (map (\<lambda>t. concat (map D (r t))) ts) = concat (map D (concat (map r ts)))"
  by (induction ts) simp_all

lemma decode_quads_ok:
  assumes ready: "families_ready td fs" and n: "1 \<le> at_nthreads td" and sched: "\<And>ts. pool_order (at_nthreads td) ts (sched ts)"
    and mix: "any_mix mix"
  obtains ds where "\<forall>q \<in> set quads. quad_runs ops td fs q" "decode_quads ops td fs junk sched mix quads = Inr ds"
      "mset ds = mset (concat (map (quad_dets ops td fs junk) quads))"
  | e where "\<not> (\<forall>q \<in> set quads. quad_runs ops td fs q)" "decode_quads ops td fs junk sched mix quads = Inl e"
proof -
  obtain tasks where t: "decode_tasks (int (length quads)) (at_nthreads td) = Inr tasks" "concat (map task_range tasks) = [0..<length quads]"
    "\<And>t. t \<in> set tasks \<Longrightarrow> 0 \<le> fst t \<and> fst t \<le> snd t" by (rule decode_tasks_ok [OF n, of "length quads"]) blast
  have m: "mset (sched tasks) = mset tasks" by (rule pool_order_mset [OF sched])
  have c: "mset (concat (map task_range (sched tasks))) = mset [0..<length quads]" using mset_concat_map [OF m, of task_range] t(2) by simp
  have s: "set (sched tasks) = set tasks" by (rule mset_eq_setD [OF m])
  let ?D = "\<lambda>k. quad_dets ops td fs junk (quads ! k)"
  have "distinct (concat (map task_range (sched tasks)))" using mset_eq_imp_distinct_iff [OF c] by simp
  moreover have "k < length quads \<and> quads ! k = quads ! k" if "k \<in> set (concat (map task_range (sched tasks)))" for k
    using that unfolding mset_eq_setD [OF c] by simp
  moreover have "0 \<le> fst t \<and> fst t \<le> snd t" if "t \<in> set (sched tasks)" for t using that t(3) s by blast
  moreover have all: "(\<forall>k \<in> set (concat (map task_range (sched tasks))). quad_runs ops td fs (quads ! k)) = (\<forall>q \<in> set quads. quad_runs ops td fs q)"
    unfolding mset_eq_setD [OF c] by (auto simp: all_set_conv_all_nth)
  ultimately have run: "if \<forall>q \<in> set quads. quad_runs ops td fs q
    then \<exists>quads'. foldE (\<lambda>(quads, added) task. bindE (quad_decode_task ops td fs junk task quads) (\<lambda>(quads, dets). Inr (quads, added @ [dets])))
      (sched tasks) (quads, []) = Inr (quads', [] @ map (\<lambda>t. concat (map ?D (task_range t))) (sched tasks))
    else \<exists>e. foldE (\<lambda>(quads, added) task. bindE (quad_decode_task ops td fs junk task quads) (\<lambda>(quads, dets). Inr (quads, added @ [dets])))
      (sched tasks) (quads, []) = Inl e"
    using decode_tasks_run [OF ready, of "sched tasks" quads quads ops junk "[]"] unfolding all by blast
  show thesis
  proof (cases "\<forall>q \<in> set quads. quad_runs ops td fs q")
    case True
    then have "decode_quads ops td fs junk sched mix quads = Inr (mix (map (\<lambda>t. concat (map ?D (task_range t))) (sched tasks)))"
      using t(1) run by (auto simp: decode_quads_def)
    moreover have "mset (mix (map (\<lambda>t. concat (map ?D (task_range t))) (sched tasks))) = mset (concat (map (quad_dets ops td fs junk) quads))"
    proof -
      have "mset (mix (map (\<lambda>t. concat (map ?D (task_range t))) (sched tasks))) = mset (concat (map ?D (concat (map task_range (sched tasks)))))"
        using mix by (simp add: any_mix_def concat_map_concat)
      also have "\<dots> = mset (concat (map ?D [0..<length quads]))" by (rule mset_concat_map [OF c])
      also have "map ?D [0..<length quads] = map (quad_dets ops td fs junk) quads" by (rule nth_equalityI) simp_all
      finally show ?thesis .
    qed
    ultimately show thesis by (rule that(1) [OF True])
  next
    case False
    then have "\<exists>e. decode_quads ops td fs junk sched mix quads = Inl e"
      using t(1) run [unfolded if_not_P [OF False]] by (auto simp: decode_quads_def)
    then show thesis using False that(2) by blast
  qed
qed

subsection \<open>What is detected\<close>

definition any_sort :: "('f apriltag_detection list \<Rightarrow> 'f apriltag_detection list) \<Rightarrow> bool" where
  "any_sort qsorted \<longleftrightarrow> (\<forall>ds. mset (qsorted ds) = mset ds \<and> sorted_wrt (\<lambda>a b. detection_compare_function a b \<le> 0) (qsorted ds))"

lemma sorted_wrt_pair:
  assumes "sorted_wrt P xs" "{#a, b#} \<subseteq># mset xs"
  shows "P a b \<or> P b a"
  using assms
proof (induction xs)
  case (Cons x xs)
  consider "a = x" | "b = x" | "a \<noteq> x" "b \<noteq> x" by blast
  then show ?case
  proof cases
    case 1
    then have "b \<in># mset xs" using Cons.prems(2) by simp
    then show ?thesis using Cons.prems(1) 1 by simp
  next
    case 2
    then have "{#a#} \<subseteq># mset xs" using Cons.prems(2) by (simp add: add_mset_commute [of a])
    then show ?thesis using Cons.prems(1) 2 by simp
  next
    case 3
    have "count {#a, b#} y \<le> count (mset xs) y" for y
      using mset_subset_eq_count [OF Cons.prems(2), of y] 3 by (cases "y = x") auto
    then have "{#a, b#} \<subseteq># mset xs" by (simp add: subseteq_mset_def del: count_add_mset)
    then show ?thesis using Cons by simp
  qed
qed simp

text \<open>The detections of a family in terms of what \<open>quad_decode\<close> returns.\<close>

lemma family_dets_eq:
  assumes "qo_view ops quad (fs f) = Inr view" "quad_decode (at_decode_sharpening td) (fs f) view junk = Inr (decision_margin, entry)"
  shows "family_dets ops td fs junk quad f =
    (if fam_reversed_border (fs f) = qo_reversed ops quad \<and> decision_margin \<ge> 0 \<and> unat (qe_hamming entry) < 255
     then [\<lparr>det_id = int (unat (qe_id entry)), det_c = fst (qo_corners ops quad entry), det_p = snd (qo_corners ops quad entry),
            ad_family = f, ad_hamming = int (unat (qe_hamming entry)), ad_decision_margin = decision_margin\<rparr>]
     else [])"
  using assms by (simp add: family_dets_def decode_family_def Let_def)

lemma quad_det_hamming:
  assumes ready: "families_ready td fs" and runs: "quad_runs ops td fs quad" and d: "d \<in> set (quad_dets ops td fs junk quad)"
  shows "hamming_ok d"
proof -
  obtain res where h: "qo_homography ops (if at_refine_edges td then qo_refine ops quad else quad) = Inr res"
    using runs by (auto simp: quad_runs_def split: sum.splits)
  note eq = quad_dets_eq [OF ready runs h, of junk]
  obtain q0 where q0: "res = Some q0" using d eq by (cases res) auto
  obtain f where f: "f \<in> set (at_tag_families td)" "d \<in> set (family_dets ops td fs junk q0 f)" using d eq q0 by auto
  have "family_runs ops fs q0 f" using runs h q0 f(1) by (auto simp: quad_runs_def split: if_splits)
  moreover have "fam_reversed_border (fs f) = qo_reversed ops q0" using f(2) by (auto simp: family_dets_def decode_family_def Let_def split: if_splits)
  ultimately obtain view where v: "qo_view ops q0 (fs f) = Inr view" by (auto simp: family_runs_def)
  have "family_ready (fs f)" using ready f(1) by (simp add: families_ready_def)
  then obtain r where r: "quad_decode (at_decode_sharpening td) (fs f) view junk = Inr r" by (rule quad_decode_total)
  obtain m e where "r = (m, e)" by (cases r)
  moreover have "int (unat (qe_hamming e)) < 256" if "unat (qe_hamming e) < 255" using that by linarith
  ultimately show ?thesis using f(2) family_dets_eq [of ops q0 fs f view td junk m e] v r by (auto simp: hamming_ok_def simp del: of_nat_unat split: if_splits)
qed

lemma field_exact: "exact_ints (field_ops overlaps :: 'f::linordered_field float_ops)"
  by (simp add: exact_ints_def field_ops_def)

lemma detect_in_quads_ok:
  assumes ready: "families_ready td fs" and n: "1 \<le> at_nthreads td" and sched: "\<And>ts. pool_order (at_nthreads td) ts (sched ts)"
    and mix: "any_mix mix" and sort: "any_sort qsorted"
  obtains ds us where "\<forall>q \<in> set quads. quad_runs ops td fs q" "detect_in_quads ops overlaps td fs junk sched mix qsorted quads = Inr ds"
    "mset us = mset (concat (map (quad_dets ops td fs junk) quads))" "mset ds = mset (reconcile (field_ops overlaps) us)"
    "sorted_wrt (\<lambda>a b. detection_compare_function a b \<le> 0) ds"
  | e where "\<not> (\<forall>q \<in> set quads. quad_runs ops td fs q)" "detect_in_quads ops overlaps td fs junk sched mix qsorted quads = Inl e"
proof (rule decode_quads_ok [OF ready n sched mix, where ops = ops and junk = junk and quads = quads])
  fix us assume u: "\<forall>q \<in> set quads. quad_runs ops td fs q" "decode_quads ops td fs junk sched mix quads = Inr us"
    "mset us = mset (concat (map (quad_dets ops td fs junk) quads))"
  show thesis
    by (rule that(1) [of "qsorted (reconcile (field_ops overlaps) us)" us]) (use u sort in \<open>simp_all add: detect_in_quads_def any_sort_def\<close>)
next
  fix e assume "\<not> (\<forall>q \<in> set quads. quad_runs ops td fs q)" "decode_quads ops td fs junk sched mix quads = Inl e"
  then show thesis by (intro that(2)) (simp_all add: detect_in_quads_def)
qed

text \<open>C11: The second half of \<open>apriltag_detector_detect\<close>, for any number of threads, any order of the tasks and of the additions to the
  common list, and any \<open>qsort\<close>. It fails exactly when the homography or the sampling of some quadrilateral fails. Otherwise the
  detections before reconciliation are those of all quadrilaterals, each decoded once, and the result is these reconciled, in ascending order of
  their numbers: no two of one tag overlap, each one left out was beaten by another of the same tag that it overlaps, and of each
  decoded tag one with the smallest number of corrected bits is returned. If fewer than 256 are returned, which the companion
  counts in eight bits, it sees its target exactly when some quadrilateral decodes to it.\<close>

theorem detections_correct:
  fixes td :: "'f::linordered_field apriltag_detector"
  assumes "families_ready td fs" "1 \<le> at_nthreads td" "\<And>ts. pool_order (at_nthreads td) ts (sched ts)" "any_mix mix" "any_sort qsorted"
  shows "if \<forall>q \<in> set quads. quad_runs ops td fs q
    then \<exists>ds us. detect_in_quads ops overlaps td fs junk sched mix qsorted quads = Inr ds \<and>
      mset us = mset (concat (map (quad_dets ops td fs junk) quads)) \<and> mset ds = mset (reconcile (field_ops overlaps) us) \<and>
      sorted_wrt (\<lambda>a b. det_id a \<le> det_id b) ds \<and> mset ds \<subseteq># mset us \<and>
      (\<forall>d. d \<in># mset us - mset ds \<longrightarrow> (\<exists>e \<in># mset us - {#d#}. beaten (field_ops overlaps) d e)) \<and>
      (\<forall>a b. {#a, b#} \<subseteq># mset ds \<longrightarrow> \<not> (conflict (field_ops overlaps) a b \<and> conflict (field_ops overlaps) b a)) \<and>
      (\<forall>q \<in> set quads. \<forall>d \<in> set (quad_dets ops td fs junk q). \<exists>e \<in> set ds. tag_of e = tag_of d \<and> ad_hamming e \<le> ad_hamming d) \<and>
      (length ds < 256 \<longrightarrow>
        TargetDetector.sees target (map detection.truncate ds) = (\<exists>q \<in> set quads. \<exists>d \<in> set (quad_dets ops td fs junk q). word_of_int (det_id d) = target))
    else \<exists>e. detect_in_quads ops overlaps td fs junk sched mix qsorted quads = Inl e"
proof (rule detect_in_quads_ok [OF assms, where ops = ops and overlaps = overlaps and junk = junk and quads = quads])
  let ?F = "field_ops overlaps :: 'f float_ops" and ?all = "concat (map (quad_dets ops td fs junk) quads)"
  fix ds us assume d: "\<forall>q \<in> set quads. quad_runs ops td fs q" "detect_in_quads ops overlaps td fs junk sched mix qsorted quads = Inr ds"
    "mset us = mset ?all" "mset ds = mset (reconcile ?F us)" "sorted_wrt (\<lambda>a b. detection_compare_function a b \<le> 0) ds"
  note s = reconcile_ok(1) [of ?F us] and sets = mset_eq_setD [OF d(3)] mset_eq_setD [OF d(4)]
  have sub: "mset ds \<subseteq># mset us" using shrinks_mset [OF s] d(4) by simp
  have beat: "\<forall>d. d \<in># mset us - mset ds \<longrightarrow> (\<exists>e \<in># mset us - {#d#}. beaten ?F d e)" using shrinks_beaten [OF s] d(4) by simp
  have "\<forall>u \<in> set us. hamming_ok u" using quad_det_hamming [OF assms(1) bspec [OF d(1)]] unfolding sets by auto
  then have best: "\<exists>e \<in> set ds. tag_of e = tag_of u \<and> ad_hamming e \<le> ad_hamming u" if "u \<in> set us" for u
    using shrinks_hamming [OF s field_exact] that unfolding sets by blast
  have sees: "TargetDetector.sees target (map detection.truncate ds) = (\<exists>q \<in> set quads. \<exists>u \<in> set (quad_dets ops td fs junk q). word_of_int (det_id u) = target)"
    if "length ds < 256"
  proof -
    have "TargetDetector.sees target (map detection.truncate ds) \<longleftrightarrow> target \<in> (word_of_int \<circ> snd) ` tag_of ` set ?all"
      using that shrinks_tags [OF s] by (simp only: sees_truncate sets)
    also have "\<dots> \<longleftrightarrow> (\<exists>u \<in> set ?all. word_of_int (det_id u) = target)" by (force simp: tag_of_def)
    also have "\<dots> \<longleftrightarrow> (\<exists>q \<in> set quads. \<exists>u \<in> set (quad_dets ops td fs junk q). word_of_int (det_id u) = target)" by auto
    finally show ?thesis .
  qed
  have apart: "\<not> (conflict ?F a b \<and> conflict ?F b a)" if "{#a, b#} \<subseteq># mset ds" for a b
    using sorted_wrt_pair [OF reconcile_ok(2) that [unfolded d(4)]] by blast
  have all: "\<exists>e \<in> set ds. tag_of e = tag_of u \<and> ad_hamming e \<le> ad_hamming u" if "q \<in> set quads" "u \<in> set (quad_dets ops td fs junk q)" for q u
    using best [of u] that unfolding sets by auto
  have order: "sorted_wrt (\<lambda>a b. det_id a \<le> det_id b) ds" using d(5) by (simp add: detection_compare_function_def)
  show ?thesis unfolding if_P [OF d(1)] using sees apart all
    by (intro exI [of _ ds] exI [of _ us] conjI d(2,3,4) order sub beat) blast+
qed auto

text \<open>C6: \<open>apriltag_detector_detect\<close> as a whole, for a detector with a thread pool and at least one family, without deglitching and with a whole
  decimation \<open>f\<close> of two or more, a frame of which 4 to 32767 columns and rows are left after decimation and that are not fewer than the
  filter has, any number of threads and any scheduling of the pool, under the hypothesis that the clusters fit the pools of \<open>gradient_clusters\<close>
  (\<open>room\<close>), which the code does not check. Then the picture it works on consists of every \<open>f\<close>-th pixel, blurred or sharpened, and
  quadrilaterals are fitted to the borders between the components of that picture after the threshold. If the homography or the sampling
  of one of them fails, as an assertion of the homography can, the detection fails; otherwise it returns each of the tags decoded in them,
  in ascending order of the numbers.\<close>

theorem detect_frame:
  fixes td :: "'f::linordered_field apriltag_detector" and nclustermap :: nat and fit :: "'v::zero pt list list \<Rightarrow> 'q list"
  assumes td: "families_ready td fs" "at_tag_families td \<noteq> []" "1 \<le> at_nthreads td" "at_quad_decimate td = of_nat f" "\<not> at_deglitch td"
    and im: "im_ok im w h" "im_width im = int w" "im_height im = int h"
    and f: "2 \<le> f" "4 \<le> small f w" "small f w < 32768" "4 \<le> small f h" "small f h < 32768"
    and k: "int (length (gauss \<bar>at_quad_sigma td\<bar> (blur_size (at_quad_sigma td)))) = blur_size (at_quad_sigma td)"
      "blur_size (at_quad_sigma td) \<le> int (small f w)" "blur_size (at_quad_sigma td) \<le> int (small f h)"
    and pool: "\<And>k rows. pool_order (at_nthreads td) rows (sched1 k rows)" "\<And>ts. pool_order (at_nthreads td) ts (sched2 ts)"
      "\<And>k. pool_order (at_nthreads td) [0..<k] (sched3 k)" "\<And>ts. pool_order (at_nthreads td) ts (sched ts)" "any_mix mix" "any_sort qsorted"
    and room: "\<And>t uf. connected_components (at_nthreads td) sched2 t (int (small f w)) (int (small f h)) (im_stride t) = Inr uf \<Longrightarrow>
      room (task_buckets (at_nthreads td) nclustermap (small f h)) (fst ` set (rows_adds t (small f w) uf [1..<small f h - 1] :: (u64 \<times> 'v pt) list))"
  shows "\<exists>p t uf cls. quad_preprocess gauss mem (of_nat f) (at_quad_sigma td) im = Inr p \<and>
    (\<forall>x < small f w. \<forall>y < small f h. col p x y =
      prepared (gauss \<bar>at_quad_sigma td\<bar> (blur_size (at_quad_sigma td))) (at_quad_sigma td) f w h (col im) x y) \<and>
    threshold sched1 False (at_min_white_black_diff td) p = Inr t \<and>
    clustered (thr_spec (at_min_white_black_diff td) p (small f w) (small f h)) (small f w) (small f h)
      (links t (small f w) (rows_joined (at_nthreads td) (small f h))) cls \<and>
    quad_thresh_clusters (at_nthreads td) sched1 sched2 sched3 False (at_min_white_black_diff td) nclustermap p = Inr (uf, cls) \<and>
    (if \<forall>q \<in> set (fit cls). quad_runs (ops im) td fs q
     then \<exists>ds. apriltag_detector_detect True gauss mem sched1 sched2 sched3 nclustermap fit ops overlaps td fs junk sched mix qsorted im = Inr ds \<and>
       sorted_wrt (\<lambda>a b. det_id a \<le> det_id b) ds \<and>
       tag_of ` set ds = (\<Union>q \<in> set (fit cls). tag_of ` set (quad_dets (ops im) td fs junk q))
     else \<exists>e. apriltag_detector_detect True gauss mem sched1 sched2 sched3 nclustermap fit ops overlaps td fs junk sched mix qsorted im = Inl e)"
proof -
  from frame_clusters [where gauss = gauss and sigma = "at_quad_sigma td" and junk = mem and diff = "at_min_white_black_diff td" and
      ?sched1.0 = sched1 and ?sched2.0 = sched2 and ?sched3.0 = sched3 and nclustermap = nclustermap and ?'v = 'v, OF im f k td(3) pool(1-3) room]
  obtain p t uf cls where c: "quad_preprocess gauss mem (of_nat f) (at_quad_sigma td) im = Inr p"
    "\<forall>x < small f w. \<forall>y < small f h. col p x y =
      prepared (gauss \<bar>at_quad_sigma td\<bar> (blur_size (at_quad_sigma td))) (at_quad_sigma td) f w h (col im) x y"
    "threshold sched1 False (at_min_white_black_diff td) p = Inr t"
    "quad_thresh_clusters (at_nthreads td) sched1 sched2 sched3 False (at_min_white_black_diff td) nclustermap p = Inr (uf, cls :: 'v pt list list)"
    "clustered (thr_spec (at_min_white_black_diff td) p (small f w) (small f h)) (small f w) (small f h)
      (links t (small f w) (rows_joined (at_nthreads td) (small f h))) cls" by blast
  have "(1 :: rat) < of_nat f" using f(1) by simp
  then have detect: "apriltag_detector_detect True gauss mem sched1 sched2 sched3 nclustermap fit ops overlaps td fs junk sched mix qsorted im =
      detect_in_quads (ops im) overlaps td fs junk sched mix qsorted (fit cls)"
    using td(2,4,5) c(1,4) by (simp add: apriltag_detector_detect_def)
  have "if \<forall>q \<in> set (fit cls). quad_runs (ops im) td fs q
     then \<exists>ds. detect_in_quads (ops im) overlaps td fs junk sched mix qsorted (fit cls) = Inr ds \<and> sorted_wrt (\<lambda>a b. det_id a \<le> det_id b) ds \<and>
       tag_of ` set ds = (\<Union>q \<in> set (fit cls). tag_of ` set (quad_dets (ops im) td fs junk q))
     else \<exists>e. detect_in_quads (ops im) overlaps td fs junk sched mix qsorted (fit cls) = Inl e"
  proof (rule detect_in_quads_ok [OF td(1,3) pool(4-6), where ops = "ops im" and overlaps = overlaps and junk = junk and quads = "fit cls"])
    fix ds us assume ds: "\<forall>q \<in> set (fit cls). quad_runs (ops im) td fs q"
      "detect_in_quads (ops im) overlaps td fs junk sched mix qsorted (fit cls) = Inr ds"
      "mset us = mset (concat (map (quad_dets (ops im) td fs junk) (fit cls)))" "mset ds = mset (reconcile (field_ops overlaps) us)"
      "sorted_wrt (\<lambda>a b. detection_compare_function a b \<le> 0) ds"
    have "tag_of ` set ds = (\<Union>q \<in> set (fit cls). tag_of ` set (quad_dets (ops im) td fs junk q))"
      using shrinks_tags [OF reconcile_ok(1), of "field_ops overlaps" us] unfolding mset_eq_setD [OF ds(4)] mset_eq_setD [OF ds(3)] by auto
    then show ?thesis unfolding if_P [OF ds(1)] using ds(2,5) by (simp add: detection_compare_function_def)
  qed auto
  then show ?thesis using c unfolding detect by blast
qed

subsection \<open>The companion's detector\<close>

lemma init_detector_ok:
  assumes "alloc (int (3 * qd_cap tag16h5_create 2))"
  obtains td fs' where "init_detector alloc fs tf = Inr (td :: 'f::linordered_field apriltag_detector, fs')" "families_ready td fs'"
    "at_tag_families td = [tf]" "at_nthreads td = 1" "at_refine_edges td" "at_decode_sharpening td = 1 / 4"
    "quick_decode_init alloc tag16h5_create 2 = Inr (fs' tf, NoError)" "\<exists>x. fs' tf = tag16h5_create\<lparr>fam_impl := x\<rparr>"
proof -
  have c: "(tag16h5_create, 2) \<in> set fam_corrected" by (simp add: fam_corrected_def)
  note ok = fam_corrected_ok [OF c]
  have fits: "qd_fits alloc tag16h5_create 2" using ok(6) assms by (simp add: qd_fits_def)
  obtain qd where qd: "quick_decode_init alloc tag16h5_create 2 = Inr (tag16h5_create\<lparr>fam_impl := Some qd\<rparr>, NoError)" "qd_full tag16h5_create 2 qd"
    by (rule quick_decode_init_full [OF ok(1,2) _ _ fits]) auto
  let ?fam = "tag16h5_create\<lparr>fam_impl := Some qd\<rparr>"
  have "family_ready ?fam" using ok(1) qd(2) cells_ok_families(1) exI [of "\<lambda>h. 0 \<le> h \<and> h \<le> 3 \<and> qd_full tag16h5_create h qd" 2]
    by (simp add: family_ready_def fam_typed_def cells_ok_impl)
  moreover define td :: "'f apriltag_detector" where "td = apriltag_detector_create\<lparr>at_tag_families := [tf], at_quad_sigma := 3 / 5,
      at_quad_decimate := 4, at_refine_edges := True, at_decode_sharpening := 1 / 4, at_nthreads := 1, at_debug := False\<rparr>"
  moreover have "init_detector alloc fs tf = Inr (td, fs(tf := ?fam))"
    using qd(1) ok(2) by (simp add: init_detector_def apriltag_detector_add_family_def apriltag_detector_add_family_bits_def td_def apriltag_detector_create_def)
  ultimately show thesis using qd(1) by (intro that [of td "fs(tf := ?fam)"]) (auto simp: families_ready_def)
qed

lemma companion_sees:
  fixes ops :: "('q, 'f::linordered_field) quad_ops"
  assumes alloc: "alloc (int (3 * qd_cap tag16h5_create 2))" and i: "i < fam_ncodes tag16h5_create" "r < 4"
    and im: "apriltag_to_image tag16h5_create i = Inr im"
    and runs: "\<And>q. q \<in> set quads \<Longrightarrow> \<exists>res. qo_homography ops (qo_refine ops q) = Inr res \<and>
      (\<forall>q0 x. res = Some q0 \<longrightarrow> \<not> qo_reversed ops q0 \<longrightarrow> (\<exists>v. qo_view ops q0 (tag16h5_create\<lparr>fam_impl := x\<rparr>) = Inr v))"
    and q: "q \<in> set quads" "qo_homography ops (qo_refine ops q) = Inr (Some q0)" "\<not> qo_reversed ops q0"
    and view: "\<And>x. qo_view ops q0 (tag16h5_create\<lparr>fam_impl := x\<rparr>) = Inr view" "qv_polarity view" "contrast (1 / 4) tag16h5_create view"
    and wrong: "card {k. k < fam_nbits tag16h5_create \<and>
      (0 < cell_value view tag16h5_create k) \<noteq> white_at tag16h5_create im ((turn_pos tag16h5_create ^^ r) (bpos tag16h5_create k))} = wrong" "wrong \<le> 2"
    and order: "\<And>ts. pool_order 1 ts (sched ts)" "any_mix mix" "any_sort qsorted"
  shows "\<exists>td fs' ds. init_detector alloc fs tf = Inr (td, fs') \<and> detect_in_quads ops overlaps td fs' junk sched mix qsorted quads = Inr ds \<and>
    (\<exists>d \<in> set ds. det_id d = int i \<and> ad_family d = tf \<and> ad_hamming d \<le> int wrong) \<and>
    (length ds < 256 \<longrightarrow> TargetDetector.sees (of_nat i) (map detection.truncate ds))"
proof -
  have c: "(tag16h5_create, 2) \<in> set fam_corrected" by (simp add: fam_corrected_def)
  obtain td :: "'f apriltag_detector" and fs' where td: "init_detector alloc fs tf = Inr (td, fs')" "families_ready td fs'"
    "at_tag_families td = [tf]" "at_nthreads td = 1" "at_refine_edges td" "at_decode_sharpening td = 1 / 4"
    "quick_decode_init alloc tag16h5_create 2 = Inr (fs' tf, NoError)" "\<exists>x. fs' tf = tag16h5_create\<lparr>fam_impl := x\<rparr>"
    by (rule init_detector_ok [where alloc = alloc and fs = fs and tf = tf, OF alloc])
  obtain margin e where e: "quad_decode (1 / 4) (fs' tf) view junk = Inr (margin, e)" "0 \<le> margin" "unat (qe_id e) = i" "unat (qe_hamming e) = wrong"
    using read_back [OF c _ i view(2,3), of alloc junk] alloc im td(7) wrong by (auto simp: Let_def)
  have v: "qo_view ops q0 (fs' tf) = Inr view" "fam_reversed_border (fs' tf) = qo_reversed ops q0"
    using td(8) view(1) q(3) by (auto simp: fam_creates)
  obtain d where d: "family_dets ops td fs' junk q0 tf = [d]" "det_id d = int i" "ad_family d = tf" "ad_hamming d = int wrong"
    using family_dets_eq [of ops q0 fs' tf view td junk margin e] e td(6) v wrong(2) by auto
  have all: "quad_runs ops td fs' q" if "q \<in> set quads" for q
  proof -
    have "fam_reversed_border (fs' tf) = False" using td(8) by (auto simp: fam_creates)
    then show ?thesis using runs [OF that] td(3,5,8) by (auto simp: quad_runs_def family_runs_def split: option.splits)
  qed
  have qd: "quad_dets ops td fs' junk q = [d]" using quad_dets_eq [OF td(2) all [OF q(1)], of "Some q0" junk] q(2) td(3,5) d(1) by simp
  obtain ds us where ds: "detect_in_quads ops overlaps td fs' junk sched mix qsorted quads = Inr ds"
    "mset us = mset (concat (map (quad_dets ops td fs' junk) quads))" "mset ds = mset (reconcile (field_ops overlaps) us)"
    by (rule detect_in_quads_ok [OF td(2) _ _ order(2,3), of sched quads ops overlaps junk]) (use td(4) order(1) all in auto)
  note sets = mset_eq_setD [OF ds(2)] mset_eq_setD [OF ds(3)]
  have ham: "\<forall>u \<in> set us. hamming_ok u" using quad_det_hamming [OF td(2) all] unfolding sets by auto
  have "d \<in> (\<Union>q \<in> set quads. set (quad_dets ops td fs' junk q))" using q(1) by (rule UN_I) (simp add: qd)
  then have "d \<in> set us" unfolding sets by simp
  then obtain d' where d': "d' \<in> set ds" "tag_of d' = tag_of d" "ad_hamming d' \<le> ad_hamming d"
    using shrinks_hamming [OF reconcile_ok(1) field_exact ham] unfolding sets by blast
  have "TargetDetector.sees (of_nat i) (map detection.truncate ds)" if "length ds < 256"
  proof -
    have "(of_nat i :: u16) = word_of_int (det_id d')" using d'(2) d(2) by (simp add: tag_of_def)
    then show ?thesis unfolding sees_truncate [OF that] using d'(1) by (force simp: tag_of_def)
  qed
  then show ?thesis using td(1) ds(1) d' d by (auto simp: tag_of_def)
qed

text \<open>C7: The companion sees a tag that is in view. If one of the quadrilaterals, once refined, shows the drawing of a tag of
  tag16h5, turned by any quarter turns, with even contrast and at most two bits wrong, the detector the companion sets up
  returns a detection of that tag with no more corrected bits, whatever the other quadrilaterals show, as long as the homography
  and the sampling of none fail, and with fewer than 256 detections the companion's check finds its number.\<close>

theorem tag_seen:
  fixes ops :: "('q, 'f::linordered_field) quad_ops"
  assumes alloc: "alloc (int (3 * qd_cap tag16h5_create 2))" and i: "i < fam_ncodes tag16h5_create" "r < 4"
    and im: "apriltag_to_image tag16h5_create i = Inr im"
    and runs: "\<And>q. q \<in> set quads \<Longrightarrow> \<exists>res. qo_homography ops (qo_refine ops q) = Inr res \<and>
      (\<forall>q0 x. res = Some q0 \<longrightarrow> \<not> qo_reversed ops q0 \<longrightarrow> (\<exists>v. qo_view ops q0 (tag16h5_create\<lparr>fam_impl := x\<rparr>) = Inr v))"
    and q: "q \<in> set quads" "qo_homography ops (qo_refine ops q) = Inr (Some q0)" "\<not> qo_reversed ops q0"
    and view: "\<And>x. qo_view ops q0 (tag16h5_create\<lparr>fam_impl := x\<rparr>) = Inr view" "qv_polarity view" "contrast (1 / 4) tag16h5_create view"
    and wrong: "card {k. k < fam_nbits tag16h5_create \<and>
      (0 < cell_value view tag16h5_create k) \<noteq> white_at tag16h5_create im ((turn_pos tag16h5_create ^^ r) (bpos tag16h5_create k))} = wrong" "wrong \<le> 2"
    and order: "\<And>ts. pool_order 1 ts (sched ts)" "any_mix mix" "any_sort qsorted"
  shows "\<exists>td fs' ds. init_detector alloc fs tf = Inr (td, fs') \<and> detect_in_quads ops overlaps td fs' junk sched mix qsorted quads = Inr ds \<and>
    (\<exists>d \<in> set ds. det_id d = int i \<and> ad_family d = tf \<and> ad_hamming d \<le> int wrong) \<and>
    (length ds < 256 \<longrightarrow> TargetDetector.sees (of_nat i) (map detection.truncate ds))"
  using assms by (rule companion_sees)

subsection \<open>Witnesses\<close>

text \<open>Three quadrilaterals: one without a homography, two that show tag 0 of tag16h5 on its side.\<close>

definition one_point :: "rat point_2f" where
  "one_point = \<lparr>px = 0, py = 0\<rparr>"

definition side_ops :: "(bool, rat) quad_ops" where
  "side_ops = \<lparr>qo_refine = id, qo_homography = (\<lambda>q. Inr (if q then Some q else None)), qo_reversed = (\<lambda>q. False),
     qo_view = (\<lambda>q fam. Inr side_view), qo_corners = (\<lambda>q e. (one_point, replicate 4 one_point))\<rparr>"

lemma side_runs: "quad_runs side_ops td fs q"
  by (simp add: quad_runs_def family_runs_def side_ops_def)

lemma sort_key_any: "any_sort (sort_key det_id :: 'f apriltag_detection list \<Rightarrow> 'f apriltag_detection list)"
proof -
  have "sorted_wrt (\<lambda>a b. detection_compare_function a b \<le> 0) (sort_key det_id ds)" for ds :: "'f apriltag_detection list"
    using sorted_sort_key [of det_id ds] by (simp add: detection_compare_function_def sorted_wrt_map)
  then show ?thesis by (simp add: any_sort_def)
qed

lemma concat_any: "any_mix concat"
  by (simp add: any_mix_def)

lemma detections_correct_witness:
  "\<exists>td fs' ds. init_detector (\<lambda>_. True) (\<lambda>_. tag16h5_create) 7 = Inr (td, fs') \<and>
    detect_in_quads side_ops (\<lambda>p q. True) td fs' qd_no_entry id concat (sort_key det_id) [True, False, True] = Inr ds \<and>
    sorted_wrt (\<lambda>a b. det_id a \<le> det_id b) ds"
proof -
  obtain td :: "rat apriltag_detector" and fs' where td: "init_detector (\<lambda>_. True) (\<lambda>_. tag16h5_create) 7 = Inr (td, fs')" "families_ready td fs'" "at_nthreads td = 1"
    by (rule init_detector_ok [of "\<lambda>_. True" "\<lambda>_. tag16h5_create" 7]) blast+
  have n: "1 \<le> at_nthreads td" and o: "pool_order (at_nthreads td) ts (id ts)" for ts :: "(int \<times> int) list"
    using td(3) by (simp_all add: pool_order_single)
  have runs: "\<forall>q \<in> set [True, False, True]. quad_runs side_ops td fs' q" by (simp add: side_runs)
  from detections_correct [where ops = side_ops and overlaps = "\<lambda>p q. True" and junk = qd_no_entry and quads = "[True, False, True]" and target = 0,
      OF td(2) n o concat_any sort_key_any, unfolded if_P [OF runs]]
  show ?thesis using td(1) by blast
qed

lemma tag_seen_witness:
  "\<exists>td fs' ds. init_detector (\<lambda>_. True) (\<lambda>_. tag16h5_create) 7 = Inr (td, fs') \<and>
    detect_in_quads side_ops (\<lambda>p q. True) td fs' qd_no_entry id concat (sort_key det_id) [True, False, True] = Inr ds \<and>
    (\<exists>d \<in> set ds. det_id d = 0 \<and> ad_family d = 7 \<and> ad_hamming d \<le> 1)"
proof -
  have ok: "cells_ok tag16h5_create" "fam_ok tag16h5_create" "0 < fam_ncodes tag16h5_create"
    by (simp_all add: cells_ok_families fam_oks) (simp add: fam_creates)
  obtain im where im: "apriltag_to_image tag16h5_create 0 = Inr im" by (rule apriltag_to_image_ok [OF ok]) blast
  note side = side_view_ok [OF im]
  have nb: "fam_nbits tag16h5_create = 16" by (simp add: fam_creates)
  have runs: "\<exists>res. qo_homography side_ops (qo_refine side_ops q) = Inr res \<and>
      (\<forall>q0 x. res = Some q0 \<longrightarrow> \<not> qo_reversed side_ops q0 \<longrightarrow> (\<exists>v. qo_view side_ops q0 (tag16h5_create\<lparr>fam_impl := x\<rparr>) = Inr v))" for q
    by (simp add: side_ops_def)
  have "True \<in> set [True, False, True]" "qo_homography side_ops (qo_refine side_ops True) = Inr (Some True)" "\<not> qo_reversed side_ops True"
    "\<And>x. qo_view side_ops True (tag16h5_create\<lparr>fam_impl := x\<rparr>) = Inr side_view" "qv_polarity side_view"
    by (simp_all add: side_ops_def view_of_def)
  from tag_seen [where ops = side_ops and overlaps = "\<lambda>p q. True" and junk = qd_no_entry and fs = "\<lambda>_. tag16h5_create" and tf = 7 and alloc = "\<lambda>_. True"
      and r = 1 and wrong = 1 and sched = id, OF _ ok(3) _ im runs this side(1) _ _ _ concat_any sort_key_any] side(2)
  show ?thesis by (auto simp: nb pool_order_single)
qed

text \<open>A frame with the companion's settings; two quadrilaterals are fitted to its clusters.\<close>

lemma detect_frame_witness:
  "\<exists>td fs' ds. init_detector (\<lambda>_. True) (\<lambda>_. tag16h5_create) 7 = Inr (td, fs') \<and>
    apriltag_detector_detect True (\<lambda>_ _. [42, 170, 42]) (\<lambda>_. 0) (\<lambda>_ rows. rows) id (\<lambda>k. [0..<k]) 14 (\<lambda>cls :: int pt list list. [True, True])
      (\<lambda>im. side_ops) (\<lambda>p q. True) td fs' qd_no_entry id concat (sort_key det_id) (half_image 24 24) = Inr ds \<and>
    sorted_wrt (\<lambda>a b. det_id a \<le> det_id b) ds"
proof -
  obtain td :: "rat apriltag_detector" and fs' where td: "init_detector (\<lambda>_. True) (\<lambda>_. tag16h5_create) 7 = Inr (td, fs')" "families_ready td fs'"
    "at_tag_families td = [7]" "at_nthreads td = 1"
    by (rule init_detector_ok [of "\<lambda>_. True" "\<lambda>_. tag16h5_create" 7]) blast+
  have set: "at_quad_sigma td = 3 / 5" "at_quad_decimate td = of_nat 4" "\<not> at_deglitch td"
    using td(1) by (auto simp: init_detector_def apriltag_detector_create_def apriltag_detector_add_family_def apriltag_detector_add_family_bits_def
        bindE_Inr_iff Let_def split: if_splits)
  have im: "im_ok (half_image 24 24) 48 24" "im_width (half_image 24 24) = int 48" "im_height (half_image 24 24) = int 24"
    using half_ok [of 24 24] by (simp_all add: half_image_def)
  have sm: "small 4 48 = 12" "small 4 24 = 6" by (simp_all add: small_def)
  have "\<lfloor>12 / 5 :: rat\<rfloor> = 2" by (simp add: floor_eq_iff)
  then have b: "blur_size (3 / 5) = 3" by (simp add: blur_size_def Let_def)
  have rm: "room (task_buckets 1 14 6) (fst ` set (rows_adds t 12 uf [1..<6 - 1] :: (u64 \<times> int pt) list))" for t uf
    by (rule room_small) (simp_all add: task_buckets_def APRILTAG_TASKS_PER_THREAD_TARGET_def)
  have o: "pool_order (at_nthreads td) ts ts" for ts :: "'b list" by (simp add: td(4) pool_order_single)
  have "\<exists>ds. apriltag_detector_detect True (\<lambda>_ _. [42, 170, 42]) (\<lambda>_. 0) (\<lambda>_ rows. rows) id (\<lambda>k. [0..<k]) 14 (\<lambda>cls :: int pt list list. [True, True])
      (\<lambda>im. side_ops) (\<lambda>p q. True) td fs' qd_no_entry id concat (sort_key det_id) (half_image 24 24) = Inr ds \<and>
    sorted_wrt (\<lambda>a b. det_id a \<le> det_id b) ds"
    using detect_frame [OF td(2) _ _ set(2,3) im, where gauss = "\<lambda>_ _. [42, 170, 42]" and mem = "\<lambda>_. 0" and ?sched1.0 = "\<lambda>_ rows. rows" and ?sched2.0 = id and
      ?sched3.0 = "\<lambda>k. [0..<k]" and nclustermap = 14 and fit = "\<lambda>cls :: int pt list list. [True, True]" and ops = "\<lambda>im. side_ops" and
      overlaps = "\<lambda>p q. True" and junk = qd_no_entry and sched = id and mix = concat and qsorted = "sort_key det_id"] rm
    by (simp add: td(3,4) set(1) sm b pool_order_single concat_any sort_key_any side_runs) blast
  then show ?thesis using td(1) by blast
qed

end
