(* ===== verification/Sampling.thy ===== *)
theory Sampling
  imports GrayModel Detector
begin

text \<open>
  How \<open>quad_decode\<close> of \<open>apriltag.c\<close> looks at the picture: it samples the cells of the border through the homography, fits a model of
  brightness to the white and to the black ones, and compares the middle of every bit with the threshold between them. The
  result is the \<open>quad_view\<close> that \<open>TagReading\<close> decodes. With the homography this gives the operations on quadrilaterals that
  \<open>Detector\<close> takes as an argument. Floats are real numbers here; the debug picture \<open>im_samples\<close> is left out.
\<close>

subsection \<open>The code\<close>

text \<open>Conversion of a float to \<open>int\<close>; beyond the range of \<open>int\<close> it is undefined.\<close>

definition int_of_float :: "real \<Rightarrow> cerr + int" where
  "int_of_float x = cint (if x < 0 then \<lceil>x\<rceil> else \<lfloor>x\<rfloor>)"

definition u8_real :: "u8 \<Rightarrow> real" where
  "u8_real v = real (unat v)"

definition value_for_pixel :: "image_u8 \<Rightarrow> real \<Rightarrow> real \<Rightarrow> cerr + real" where
  "value_for_pixel im xp yp =
     bindE (cint \<lfloor>xp - 1 / 2\<rfloor>) (\<lambda>x1. bindE (cint \<lceil>xp - 1 / 2\<rceil>) (\<lambda>x2.
     bindE (cint \<lfloor>yp - 1 / 2\<rfloor>) (\<lambda>y1. bindE (cint \<lceil>yp - 1 / 2\<rceil>) (\<lambda>y2.
     let x = xp - 1 / 2 - of_int x1; y = yp - 1 / 2 - of_int y1 in
     if x1 < 0 \<or> x2 \<ge> im_width im \<or> y1 < 0 \<or> y2 \<ge> im_height im then Inr (- 1)
     else
       bindE (vget (im_buf im) (y1 * im_stride im + x1)) (\<lambda>v11. bindE (vget (im_buf im) (y1 * im_stride im + x2)) (\<lambda>v12.
       bindE (vget (im_buf im) (y2 * im_stride im + x1)) (\<lambda>v21. bindE (vget (im_buf im) (y2 * im_stride im + x2)) (\<lambda>v22.
       Inr (u8_real v11 * (1 - x) * (1 - y) + u8_real v12 * x * (1 - y) + u8_real v21 * (1 - x) * y + u8_real v22 * x * y)))))))))"

text \<open>The lines of samples: start, step and whether the cells are white.\<close>

type_synonym pattern = "(real \<times> real) \<times> (real \<times> real) \<times> bool"

definition patterns :: "real \<Rightarrow> pattern list" where
  "patterns w =
     [((- 1 / 2, 1 / 2), (0, 1), True),
      ((1 / 2, 1 / 2), (0, 1), False),
      ((w + 1 / 2, 1 / 2), (0, 1), True),
      ((w - 1 / 2, 1 / 2), (0, 1), False),
      ((1 / 2, - 1 / 2), (1, 0), True),
      ((1 / 2, 1 / 2), (1, 0), False),
      ((1 / 2, w + 1 / 2), (1, 0), True),
      ((1 / 2, w - 1 / 2), (1, 0), False)]"

text \<open>From cells to -1 .. 1.\<close>

definition tag_coord :: "real \<Rightarrow> real \<Rightarrow> real" where
  "tag_coord w c = 2 * (c / w - 1 / 2)"

text \<open>One sample; samples outside the picture are left out. The models are the white and the black one.\<close>

definition border_sample ::
  "image_u8 \<Rightarrow> real matd \<Rightarrow> real \<Rightarrow> pattern \<Rightarrow> graymodel \<times> graymodel \<Rightarrow> int \<Rightarrow> cerr + graymodel \<times> graymodel" where
  "border_sample im H w = (\<lambda>((p0, p1), (d0, d1), is_white) (whitemodel, blackmodel) i.
     let tagx = tag_coord w (p0 + of_int i * d0); tagy = tag_coord w (p1 + of_int i * d1) in
     bindE (homography_project H tagx tagy) (\<lambda>(xp, yp).
     bindE (int_of_float xp) (\<lambda>ix. bindE (int_of_float yp) (\<lambda>iy.
     if ix < 0 \<or> iy < 0 \<or> ix \<ge> im_width im \<or> iy \<ge> im_height im then Inr (whitemodel, blackmodel)
     else
       bindE (vget (im_buf im) (iy * im_stride im + ix)) (\<lambda>v.
       Inr (if is_white then (graymodel_add whitemodel tagx tagy (u8_real v), blackmodel)
            else (whitemodel, graymodel_add blackmodel tagx tagy (u8_real v))))))))"

definition border_models :: "real list \<Rightarrow> apriltag_family \<Rightarrow> image_u8 \<Rightarrow> real matd \<Rightarrow> cerr + graymodel \<times> graymodel" where
  "border_models junk family im H =
     (let width_at_border = fam_width_at_border family; w = of_int width_at_border in
      bindE (foldE (\<lambda>ms p. foldE (border_sample im H w p) [0..width_at_border - 1] ms) (patterns w) (graymodel_init, graymodel_init)) (\<lambda>(whitemodel, blackmodel).
      bindE (graymodel_solve junk whitemodel) (\<lambda>whitemodel.
      if width_at_border > 1 then bindE (graymodel_solve junk blackmodel) (\<lambda>blackmodel. Inr (whitemodel, blackmodel))
      else Inr (whitemodel, blackmodel\<lparr>gm_C := [0, 0, gm_B blackmodel ! 2 / 4]\<rparr>))))"

text \<open>The brightness of a bit above the threshold.\<close>

definition bit_sample :: "image_u8 \<Rightarrow> real matd \<Rightarrow> real \<Rightarrow> graymodel \<Rightarrow> graymodel \<Rightarrow> int \<Rightarrow> int \<Rightarrow> cerr + real option" where
  "bit_sample im H w whitemodel blackmodel bitx bity =
     (let tagx = tag_coord w (of_int bitx + 1 / 2); tagy = tag_coord w (of_int bity + 1 / 2) in
      bindE (homography_project H tagx tagy) (\<lambda>(xp, yp).
      bindE (value_for_pixel im xp yp) (\<lambda>v.
      if v = - 1 then Inr None
      else
        let thresh = (graymodel_interpolate blackmodel tagx tagy + graymodel_interpolate whitemodel tagx tagy) / 2
        in Inr (Some (v - thresh)))))"

definition quad_sampling :: "real list \<Rightarrow> apriltag_family \<Rightarrow> image_u8 \<Rightarrow> real matd \<Rightarrow> cerr + real quad_view" where
  "quad_sampling junk family im H =
     bindE (border_models junk family im H) (\<lambda>(whitemodel, blackmodel).
     if (graymodel_interpolate whitemodel 0 0 - graymodel_interpolate blackmodel 0 0 < 0) \<noteq> fam_reversed_border family
     then Inr \<lparr>qv_polarity = False, qv_value = (\<lambda>_ _. None)\<rparr>
     else
       bindE (foldE (\<lambda>vs i.
           bindE (arr_get (fam_bit_y family) i) (\<lambda>by. bindE (arr_get (fam_bit_x family) i) (\<lambda>bx.
           bindE (bit_sample im H (of_int (fam_width_at_border family)) whitemodel blackmodel (sint bx) (sint by)) (\<lambda>v.
           Inr (vs @ [((sint bx, sint by), v)]))))) [0..<fam_nbits family] []) (\<lambda>vs.
       Inr \<lparr>qv_polarity = True, qv_value = (\<lambda>x y. case map_of vs (x, y) of None \<Rightarrow> None | Some v \<Rightarrow> v)\<rparr>))"

text \<open>The whole of \<open>quad_decode\<close>.\<close>

definition quad_decode_picture ::
  "real list \<Rightarrow> real \<Rightarrow> apriltag_family \<Rightarrow> image_u8 \<Rightarrow> real matd \<Rightarrow> quick_decode_entry \<Rightarrow> cerr + real \<times> quick_decode_entry" where
  "quad_decode_picture junk decode_sharpening family im H entry =
     bindE (quad_sampling junk family im H) (\<lambda>view. quad_decode decode_sharpening family view entry)"

subsection \<open>Pixels\<close>

text \<open>A point of the tag falls on a pixel of a grey level; so do all four pixels around it.\<close>

definition pixel_is :: "image_u8 \<Rightarrow> nat \<Rightarrow> nat \<Rightarrow> real matd \<Rightarrow> real \<Rightarrow> real \<Rightarrow> u8 \<Rightarrow> bool" where
  "pixel_is im w h H x y v \<longleftrightarrow> (\<exists>xp yp. homography_project H x y = Inr (xp, yp) \<and> 0 \<le> xp \<and> xp < real w \<and> 0 \<le> yp \<and> yp < real h \<and>
     col im (nat \<lfloor>xp\<rfloor>) (nat \<lfloor>yp\<rfloor>) = v)"

definition area_is :: "image_u8 \<Rightarrow> nat \<Rightarrow> nat \<Rightarrow> real matd \<Rightarrow> real \<Rightarrow> real \<Rightarrow> u8 \<Rightarrow> bool" where
  "area_is im w h H x y v \<longleftrightarrow> (\<exists>xp yp. homography_project H x y = Inr (xp, yp) \<and>
     1 / 2 \<le> xp \<and> xp \<le> real w - 1 / 2 \<and> 1 / 2 \<le> yp \<and> yp \<le> real h - 1 / 2 \<and>
     (\<forall>a \<in> {\<lfloor>xp - 1 / 2\<rfloor>, \<lceil>xp - 1 / 2\<rceil>}. \<forall>b \<in> {\<lfloor>yp - 1 / 2\<rfloor>, \<lceil>yp - 1 / 2\<rceil>}. col im (nat a) (nat b) = v))"

lemma im_get_int:
  assumes "im_ok im w h" "0 \<le> a" "a < int w" "0 \<le> b" "b < int h"
  shows "vget (im_buf im) (b * im_stride im + a) = Inr (col im (nat a) (nat b))"
  using im_get [OF assms(1), of "nat a" "nat b"] assms(2-5) by simp

lemma im_sizes: "im_ok im w h \<Longrightarrow> int w \<le> INT_MAX \<and> int h \<le> INT_MAX"
proof -
  assume ok: "im_ok im w h"
  then have s: "w \<le> nat (im_stride im)" "2 \<le> w" "1 \<le> h" "h * nat (im_stride im) < 2 ^ 31"
    by (auto simp: im_ok_def)
  have "1 * w \<le> h * nat (im_stride im)" using s by (intro mult_le_mono) simp_all
  moreover have "h * 1 \<le> h * nat (im_stride im)" using s by (intro mult_le_mono) simp_all
  ultimately have "w < 2 ^ 31" "h < 2 ^ 31" using s(4) by linarith+
  then show ?thesis by (simp add: INT_MAX_def)
qed

lemma int_of_float_ok:
  assumes "0 \<le> x" "x < real w" "int w \<le> INT_MAX"
  shows "int_of_float x = Inr \<lfloor>x\<rfloor>" "0 \<le> \<lfloor>x\<rfloor>" "\<lfloor>x\<rfloor> < int w"
proof -
  show 1: "0 \<le> \<lfloor>x\<rfloor>" "\<lfloor>x\<rfloor> < int w" using assms by (simp_all add: floor_less_iff)
  then have "INT_MIN \<le> \<lfloor>x\<rfloor>" "\<lfloor>x\<rfloor> \<le> INT_MAX" using assms(3) by (simp_all add: INT_MIN_def)
  then show "int_of_float x = Inr \<lfloor>x\<rfloor>" using assms(1) by (simp add: int_of_float_def cint_ok)
qed

text \<open>In an area of one grey level the interpolation gives this level.\<close>

lemma value_for_pixel_ok:
  assumes im: "im_ok im w h" "im_width im = int w" "im_height im = int h"
    and p: "1 / 2 \<le> xp" "xp \<le> real w - 1 / 2" "1 / 2 \<le> yp" "yp \<le> real h - 1 / 2"
    and v: "\<forall>a \<in> {\<lfloor>xp - 1 / 2\<rfloor>, \<lceil>xp - 1 / 2\<rceil>}. \<forall>b \<in> {\<lfloor>yp - 1 / 2\<rfloor>, \<lceil>yp - 1 / 2\<rceil>}. col im (nat a) (nat b) = v"
  shows "value_for_pixel im xp yp = Inr (u8_real v)"
proof -
  let ?x1 = "\<lfloor>xp - 1 / 2\<rfloor>" and ?x2 = "\<lceil>xp - 1 / 2\<rceil>" and ?y1 = "\<lfloor>yp - 1 / 2\<rfloor>" and ?y2 = "\<lceil>yp - 1 / 2\<rceil>"
  have x: "0 \<le> ?x1" "?x1 \<le> ?x2" "?x2 < int w" using p(1,2) by linarith+
  have y: "0 \<le> ?y1" "?y1 \<le> ?y2" "?y2 < int h" using p(3,4) by linarith+
  have xy: "?x1 < int w" "0 \<le> ?x2" "?y1 < int h" "0 \<le> ?y2" using x y by linarith+
  have c: "cint k = Inr k" if "0 \<le> k" "k < int w \<or> k < int h" for k
    using that im_sizes [OF im(1)] by (intro cint_ok) (auto simp: INT_MIN_def)
  have g: "vget (im_buf im) (b * im_stride im + a) = Inr v" if "a = ?x1 \<or> a = ?x2" "b = ?y1 \<or> b = ?y2" for a b
  proof -
    have "0 \<le> a" "a < int w" "0 \<le> b" "b < int h" using that x y xy by blast+
    moreover have "col im (nat a) (nat b) = v" using v that by blast
    ultimately show ?thesis using im_get_int [OF im(1)] by simp
  qed
  show ?thesis using x y xy by (simp add: value_for_pixel_def c g im(2,3) Let_def; simp add: algebra_simps)
qed

subsection \<open>The models of the border\<close>

text \<open>The samples of a line when all cells of a colour have one grey level.\<close>

definition line_samples :: "int \<Rightarrow> u8 \<Rightarrow> pattern \<Rightarrow> sample list" where
  "line_samples b v = (\<lambda>((p0, p1), (d0, d1), is_white).
     map (\<lambda>i. (tag_coord (of_int b) (p0 + of_int i * d0), tag_coord (of_int b) (p1 + of_int i * d1), u8_real v)) [0..b - 1])"

definition line_is :: "image_u8 \<Rightarrow> nat \<Rightarrow> nat \<Rightarrow> real matd \<Rightarrow> int \<Rightarrow> u8 \<Rightarrow> u8 \<Rightarrow> pattern \<Rightarrow> bool" where
  "line_is im w h H b outside inside = (\<lambda>((p0, p1), (d0, d1), is_white).
     \<forall>i \<in> {0..<b}. pixel_is im w h H (tag_coord (of_int b) (p0 + of_int i * d0)) (tag_coord (of_int b) (p1 + of_int i * d1))
       (if is_white then outside else inside))"

definition is_white_line :: "pattern \<Rightarrow> bool" where
  "is_white_line = (\<lambda>(p, d, is_white). is_white)"

lemma border_sample_ok:
  assumes im: "im_ok im w h" "im_width im = int w" "im_height im = int h"
    and p: "pixel_is im w h H (tag_coord b (p0 + of_int i * d0)) (tag_coord b (p1 + of_int i * d1)) v"
  shows "border_sample im H b ((p0, p1), (d0, d1), is_white) (gray_sums W, gray_sums B) i =
    (let s = (tag_coord b (p0 + of_int i * d0), tag_coord b (p1 + of_int i * d1), u8_real v) in
     Inr (if is_white then (gray_sums (W @ [s]), gray_sums B) else (gray_sums W, gray_sums (B @ [s]))))"
proof -
  obtain xp yp where q: "homography_project H (tag_coord b (p0 + of_int i * d0)) (tag_coord b (p1 + of_int i * d1)) = Inr (xp, yp)"
    "0 \<le> xp" "xp < real w" "0 \<le> yp" "yp < real h" "col im (nat \<lfloor>xp\<rfloor>) (nat \<lfloor>yp\<rfloor>) = v"
    using p unfolding pixel_is_def by blast
  note x = int_of_float_ok [OF q(2,3)] and y = int_of_float_ok [OF q(4,5)]
  have "vget (im_buf im) (\<lfloor>yp\<rfloor> * im_stride im + \<lfloor>xp\<rfloor>) = Inr v" using im_get_int [OF im(1)] x y q(6) im_sizes [OF im(1)] by simp
  then show ?thesis using q(1) x y im_sizes [OF im(1)] by (simp add: border_sample_def im(2,3) add_sums Let_def not_less)
qed

lemma border_line_ok:
  assumes im: "im_ok im w h" "im_width im = int w" "im_height im = int h" and p: "line_is im w h H b outside inside p"
  shows "foldE (border_sample im H (of_int b) p) [0..b - 1] (gray_sums W, gray_sums B) =
    Inr (if is_white_line p then (gray_sums (W @ line_samples b outside p), gray_sums B)
      else (gray_sums W, gray_sums (B @ line_samples b inside p)))"
proof -
  obtain p0 p1 d0 d1 c where q: "p = ((p0, p1), (d0, d1), c)" by (cases p) (metis surj_pair)
  let ?s = "\<lambda>v i. (tag_coord (of_int b) (p0 + of_int i * d0), tag_coord (of_int b) (p1 + of_int i * d1), u8_real v)"
  have "foldE (border_sample im H (of_int b) p) is (gray_sums W, gray_sums B) =
      Inr (if c then (gray_sums (W @ map (?s outside) is), gray_sums B) else (gray_sums W, gray_sums (B @ map (?s inside) is)))"
    if "set is \<subseteq> {0..<b}" for "is" W B
    using that
  proof (induction "is" arbitrary: W B)
    case (Cons i "is")
    then have "pixel_is im w h H (tag_coord (of_int b) (p0 + of_int i * d0)) (tag_coord (of_int b) (p1 + of_int i * d1)) (if c then outside else inside)"
      using p by (simp add: line_is_def q)
    note one = border_sample_ok [OF im this, of c W B]
    show ?case
    proof (cases c)
      case True
      then show ?thesis using Cons.IH [of "W @ [?s outside i]" B] Cons.prems one by (simp add: q Let_def)
    next
      case False
      then show ?thesis using Cons.IH [of W "B @ [?s inside i]"] Cons.prems one by (simp add: q Let_def)
    qed
  qed simp
  moreover have "set [0..b - 1] \<subseteq> {0..<b}" by auto
  ultimately have "foldE (border_sample im H (of_int b) p) [0..b - 1] (gray_sums W, gray_sums B) =
      Inr (if c then (gray_sums (W @ map (?s outside) [0..b - 1]), gray_sums B) else (gray_sums W, gray_sums (B @ map (?s inside) [0..b - 1])))"
    by blast
  then show ?thesis by (auto simp: q is_white_line_def line_samples_def)
qed

lemma border_lines_ok:
  assumes im: "im_ok im w h" "im_width im = int w" "im_height im = int h" and p: "\<forall>p \<in> set ps. line_is im w h H b outside inside p"
  shows "foldE (\<lambda>ms p. foldE (border_sample im H (of_int b) p) [0..b - 1] ms) ps (gray_sums W, gray_sums B) =
    Inr (gray_sums (W @ concat (map (line_samples b outside) (filter is_white_line ps))),
      gray_sums (B @ concat (map (line_samples b inside) (filter (\<lambda>p. \<not> is_white_line p) ps))))"
  using p
proof (induction ps arbitrary: W B)
  case (Cons p ps)
  then have "line_is im w h H b outside inside p" by simp
  note one = border_line_ok [OF im this, of W B]
  show ?case using Cons by (cases "is_white_line p") (simp_all add: one)
qed simp

lemma tag_coord_diff: "tag_coord w a - tag_coord w b = 2 * (a - b) / w"
  by (simp add: tag_coord_def diff_divide_distrib right_diff_distrib)

lemma pattern_samples:
  assumes "((p0, p1), (d0, d1), c) \<in> set (patterns (of_int b))" "0 < b"
  shows "(tag_coord (of_int b) p0, tag_coord (of_int b) p1, u8_real v)
    \<in> set (concat (map (line_samples b v) (filter (\<lambda>p. is_white_line p = c) (patterns (of_int b)))))"
proof -
  let ?p = "((p0, p1), (d0, d1), c)"
  have "(tag_coord (of_int b) p0, tag_coord (of_int b) p1, u8_real v) \<in> set (line_samples b v ?p)"
    using assms(2) by (auto simp: line_samples_def intro!: image_eqI [of _ _ 0])
  moreover have "is_white_line ?p = c" by (simp add: is_white_line_def)
  ultimately show ?thesis using assms(1) unfolding set_concat set_map set_filter by blast
qed

lemma white_spread:
  assumes "0 < b"
  shows "spread (concat (map (line_samples b v) (filter (\<lambda>p. is_white_line p = True) (patterns (of_int b)))))"
proof -
  let ?b = "of_int b :: real" and ?c = "tag_coord (of_int b)"
  have m: "((- 1 / 2, 1 / 2), (0, 1), True) \<in> set (patterns ?b)" "((?b + 1 / 2, 1 / 2), (0, 1), True) \<in> set (patterns ?b)"
    "((1 / 2, - 1 / 2), (1, 0), True) \<in> set (patterns ?b)" by (simp_all add: patterns_def)
  have "(?c (?b + 1 / 2) - ?c (- 1 / 2)) * (?c (- 1 / 2) - ?c (1 / 2)) \<noteq> (?c (1 / 2) - ?c (- 1 / 2)) * (?c (1 / 2) - ?c (1 / 2))"
    using assms by (simp add: tag_coord_diff)
  then show ?thesis
    by (rule spread_three [OF pattern_samples [OF m(1) assms] pattern_samples [OF m(2) assms] pattern_samples [OF m(3) assms]])
qed

lemma black_spread:
  assumes "1 < b"
  shows "spread (concat (map (line_samples b v) (filter (\<lambda>p. is_white_line p = False) (patterns (of_int b)))))"
proof -
  let ?b = "of_int b :: real" and ?c = "tag_coord (of_int b)"
  have m: "((1 / 2, 1 / 2), (0, 1), False) \<in> set (patterns ?b)" "((?b - 1 / 2, 1 / 2), (0, 1), False) \<in> set (patterns ?b)"
    "((1 / 2, ?b - 1 / 2), (1, 0), False) \<in> set (patterns ?b)" by (simp_all add: patterns_def)
  have b: "0 < b" using assms by simp
  have "(?c (?b - 1 / 2) - ?c (1 / 2)) * (?c (?b - 1 / 2) - ?c (1 / 2)) \<noteq> (?c (1 / 2) - ?c (1 / 2)) * (?c (1 / 2) - ?c (1 / 2))"
    using assms by (simp add: tag_coord_diff)
  then show ?thesis
    by (rule spread_three [OF pattern_samples [OF m(1) b] pattern_samples [OF m(2) b] pattern_samples [OF m(3) b]])
qed

lemma line_samples_level: "(x, y, u) \<in> set (line_samples b v p) \<Longrightarrow> u = u8_real v"
  by (auto simp: line_samples_def split_beta)

text \<open>With even grey levels on the border the models are these levels everywhere.\<close>

lemma border_models_ok:
  assumes im: "im_ok im w h" "im_width im = int w" "im_height im = int h" and j: "length junk = 9"
    and b: "1 < fam_width_at_border fam"
    and p: "\<forall>p \<in> set (patterns (of_int (fam_width_at_border fam))). line_is im w h H (fam_width_at_border fam) outside inside p"
  obtains wm bm where "border_models junk fam im H = Inr (wm, bm)"
    "\<And>x y. graymodel_interpolate wm x y = u8_real outside" "\<And>x y. graymodel_interpolate bm x y = u8_real inside"
proof -
  let ?b = "fam_width_at_border fam"
  let ?S = "\<lambda>c v. concat (map (line_samples ?b v) (filter (\<lambda>p. is_white_line p = c) (patterns (of_int ?b))))"
  have level: "\<forall>(x, y, u) \<in> set (?S c v). u = 0 * x + 0 * y + u8_real v" for c v by (auto dest: line_samples_level)
  have f: "foldE (\<lambda>ms p. foldE (border_sample im H (of_int ?b) p) [0..?b - 1] ms) (patterns (of_int ?b)) (graymodel_init, graymodel_init) =
      Inr (gray_sums (?S True outside), gray_sums (?S False inside))"
    using border_lines_ok [OF im p, of "[]" "[]"] by (simp add: init_sums)
  have w: "graymodel_solve junk (gray_sums (?S True outside)) = Inr (gray_sums (?S True outside)\<lparr>gm_C := [0, 0, u8_real outside]\<rparr>)"
    using b by (intro solve_plane white_spread level j) simp
  have k: "graymodel_solve junk (gray_sums (?S False inside)) = Inr (gray_sums (?S False inside)\<lparr>gm_C := [0, 0, u8_real inside]\<rparr>)"
    using b by (intro solve_plane black_spread level j)
  show thesis
    by (rule that [of "gray_sums (?S True outside)\<lparr>gm_C := [0, 0, u8_real outside]\<rparr>" "gray_sums (?S False inside)\<lparr>gm_C := [0, 0, u8_real inside]\<rparr>"])
      (use b in \<open>simp_all add: border_models_def f w k Let_def graymodel_interpolate_def del: eq_True eq_False\<close>)
qed

subsection \<open>The picture of a tag\<close>

text \<open>
  A tag is seen in a picture through the homography: on both sides of its border the pixels have the two grey levels, the
  brighter one outside unless the family has its border reversed, and so do the pixels around the middle of each bit.
\<close>

definition shows_tag ::
  "apriltag_family \<Rightarrow> image_u8 \<Rightarrow> nat \<Rightarrow> nat \<Rightarrow> real matd \<Rightarrow> u8 \<Rightarrow> u8 \<Rightarrow> (nat \<Rightarrow> bool) \<Rightarrow> bool" where
  "shows_tag fam im w h H bright dark seen \<longleftrightarrow>
     (let b = fam_width_at_border fam; outside = (if fam_reversed_border fam then dark else bright);
          inside = (if fam_reversed_border fam then bright else dark)
      in (\<forall>p \<in> set (patterns (of_int b)). line_is im w h H b outside inside p) \<and>
         (\<forall>k < fam_nbits fam. area_is im w h H (tag_coord (of_int b) (of_int (fst (bpos fam k)) + 1 / 2))
           (tag_coord (of_int b) (of_int (snd (bpos fam k)) + 1 / 2)) (if seen k then bright else dark)))"

lemma u8_real_nonneg: "0 \<le> u8_real v"
  unfolding u8_real_def by (rule of_nat_0_le_iff)

lemma corrected_wide: "(fam, h) \<in> set fam_corrected \<Longrightarrow> 1 < fam_width_at_border fam"
  by (auto simp: fam_corrected_def fam_creates)

text \<open>The distance of a bit from the threshold is half of that between the grey levels.\<close>

lemma quad_sampling_ok:
  assumes ok: "cells_ok fam" "1 < fam_width_at_border fam" and j: "length junk = 9"
    and im: "im_ok im w h" "im_width im = int w" "im_height im = int h"
    and sees: "shows_tag fam im w h H bright dark seen" "dark < bright"
  obtains view where "quad_sampling junk fam im H = Inr view" "qv_polarity view"
    "\<And>k. k < fam_nbits fam \<Longrightarrow> cell_value view fam k = (if seen k then 1 else - 1) * (u8_real bright - u8_real dark) / 2"
proof -
  let ?b = "fam_width_at_border fam" and ?nb = "fam_nbits fam" and ?rev = "fam_reversed_border fam"
  let ?out = "if ?rev then dark else bright" and ?in = "if ?rev then bright else dark"
  let ?v = "\<lambda>k. (if seen k then 1 else - 1) * (u8_real bright - u8_real dark) / 2"
  have lt: "u8_real dark < u8_real bright" using sees(2) unfolding u8_real_def word_less_nat_alt of_nat_less_iff .
  have lines: "\<forall>p \<in> set (patterns (of_int ?b)). line_is im w h H ?b ?out ?in p" using sees(1) by (simp add: shows_tag_def Let_def)
  obtain wm bm where m: "border_models junk fam im H = Inr (wm, bm)" "\<And>x y. graymodel_interpolate wm x y = u8_real ?out"
    "\<And>x y. graymodel_interpolate bm x y = u8_real ?in"
    by (rule border_models_ok [OF im j ok(2) lines]) blast
  have pol: "(graymodel_interpolate wm 0 0 - graymodel_interpolate bm 0 0 < 0) = ?rev" using lt by (simp add: m)
  have bit: "bit_sample im H (of_int ?b) wm bm (fst (bpos fam k)) (snd (bpos fam k)) = Inr (Some (?v k))" if "k < ?nb" for k
  proof -
    let ?x = "tag_coord (of_int ?b) (of_int (fst (bpos fam k)) + 1 / 2)" and ?y = "tag_coord (of_int ?b) (of_int (snd (bpos fam k)) + 1 / 2)"
    have "area_is im w h H ?x ?y (if seen k then bright else dark)" using sees(1) that by (simp add: shows_tag_def Let_def)
    then obtain xp yp where p: "homography_project H ?x ?y = Inr (xp, yp)"
      "value_for_pixel im xp yp = Inr (u8_real (if seen k then bright else dark))"
      using value_for_pixel_ok [OF im] unfolding area_is_def by blast
    have "u8_real (if seen k then bright else dark) \<noteq> - 1" using u8_real_nonneg [of "if seen k then bright else dark"] by linarith
    moreover have "u8_real (if seen k then bright else dark) - (u8_real ?in + u8_real ?out) / 2 = ?v k" by (simp add: field_simps)
    ultimately show ?thesis unfolding bit_sample_def Let_def p(1) bindE.simps split p(2) m(2,3) by simp
  qed
  let ?vs = "map (\<lambda>k. (bpos fam k, Some (?v k)))"
  have all: "foldE (\<lambda>vs i. bindE (arr_get (fam_bit_y fam) i) (\<lambda>by. bindE (arr_get (fam_bit_x fam) i) (\<lambda>bx.
      bindE (bit_sample im H (of_int ?b) wm bm (sint bx) (sint by)) (\<lambda>v. Inr (vs @ [((sint bx, sint by), v)]))))) is vs = Inr (vs @ ?vs is)"
    if "set is \<subseteq> {..<?nb}" for "is" vs
    using that
  proof (induction "is" arbitrary: vs)
    case (Cons i "is")
    then have i: "i < ?nb" by simp
    then have l: "i < length (fam_bit_y fam)" "i < length (fam_bit_x fam)" using cells_ok_facts(1,2) [OF ok(1)] by simp_all
    have e: "sint (fam_bit_x fam ! i) = fst (bpos fam i)" "sint (fam_bit_y fam ! i) = snd (bpos fam i)" by (simp_all add: bpos_def)
    show ?case using Cons by (simp add: arr_get_ok [OF l(1)] arr_get_ok [OF l(2)] e bit [OF i])
  qed simp
  let ?view = "\<lparr>qv_polarity = True, qv_value = (\<lambda>x y. case map_of (?vs [0..<?nb]) (x, y) of None \<Rightarrow> None | Some v \<Rightarrow> v)\<rparr>"
  have view: "quad_sampling junk fam im H = Inr ?view"
    using all [of "[0..<?nb]" "[]"] pol by (simp add: quad_sampling_def m(1) atLeast0LessThan)
  have "cell_value ?view fam k = ?v k" if "k < ?nb" for k
  proof -
    have "map_of (?vs [0..<?nb]) (bpos fam k) = Some (Some (?v k))"
    proof (rule map_of_is_SomeI)
      have "map fst (?vs [0..<?nb]) = map (bpos fam) [0..<?nb]" by simp
      then show "distinct (map fst (?vs [0..<?nb]))" using cells_ok_facts(7) [OF ok(1)] by (simp only:)
      show "(bpos fam k, Some (?v k)) \<in> set (?vs [0..<?nb])" using that by (auto intro!: image_eqI [of _ _ k])
    qed
    then show ?thesis by (simp add: cell_value_def)
  qed
  from that [OF view _ this] show thesis by simp
qed

lemma sampling_impl: "quad_sampling junk (fam\<lparr>fam_impl := x\<rparr>) im H = quad_sampling junk fam im H"
  by (simp add: quad_sampling_def border_models_def Let_def cong: if_cong)

text \<open>What the sampling finds in such a picture.\<close>

lemma picture_view:
  assumes fam: "(fam, h) \<in> set fam_corrected" and j: "length junk = 9"
    and im: "im_ok im w l" "im_width im = int w" "im_height im = int l"
    and sees: "shows_tag fam im w l H bright dark seen" "dark < bright" and d: "0 \<le> d"
  obtains view where "quad_sampling junk fam im H = Inr view" "qv_polarity view" "contrast d fam view"
    "\<And>k. k < fam_nbits fam \<Longrightarrow> 0 < cell_value view fam k \<longleftrightarrow> seen k"
proof -
  obtain view where v: "quad_sampling junk fam im H = Inr view" "qv_polarity view"
    "\<And>k. k < fam_nbits fam \<Longrightarrow> cell_value view fam k = (if seen k then 1 else - 1) * (u8_real bright - u8_real dark) / 2"
    by (rule quad_sampling_ok [OF fam_corrected_cells [OF fam] corrected_wide [OF fam] j im sees]) blast
  have lt: "u8_real dark < u8_real bright" using sees(2) unfolding u8_real_def word_less_nat_alt of_nat_less_iff .
  let ?c = "(u8_real bright - u8_real dark) / 2"
  have "4 * d * c < (1 + 4 * d) * c" if "0 < c" for c :: real using that by (simp add: distrib_right)
  then have "contrast d fam view" unfolding contrast_def using lt
    by (intro conjI [OF d] exI [of _ ?c]) (simp_all add: v(3))
  moreover have "0 < cell_value view fam k \<longleftrightarrow> seen k" if "k < fam_nbits fam" for k using lt by (simp add: v(3) [OF that])
  ultimately show thesis by (rule that [OF v(1,2)])
qed

text \<open>C10: A tag in the picture is decoded. Let a tag of the four complete families be seen in the frame through the homography, turned
  by any number of quarter turns, with two grey levels. Then the whole of \<open>quad_decode\<close>, from the samples of the
  border and the grey models fitted to them to the look-up in the table, runs without failure and finds the number of
  the tag, the rotation that turns it upright and the number of wrong bits, as long as the family corrects that many.\<close>

theorem tag_in_picture:
  assumes fam: "(fam, h) \<in> set fam_corrected" "alloc (int (3 * qd_cap fam (int h)))" "i < fam_ncodes fam" "r < 4"
    and im: "im_ok im w l" "im_width im = int w" "im_height im = int l" and d: "0 \<le> d" and j: "length junk = 9"
    and sees: "shows_tag fam im w l H bright dark seen" "dark < bright"
  shows "\<exists>tag fam'. apriltag_to_image fam i = Inr tag \<and> quick_decode_init alloc fam (int h) = Inr (fam', NoError) \<and>
    (let wrong = card {k. k < fam_nbits fam \<and> seen k \<noteq> white_at fam tag ((turn_pos fam ^^ r) (bpos fam k))} in
      wrong \<le> h \<longrightarrow> (\<exists>margin e. quad_decode_picture junk d fam' im H entry = Inr (margin, e) \<and> 0 \<le> margin \<and>
        unat (qe_id e) = i \<and> unat (qe_rotation e) = (4 - r) mod 4 \<and> unat (qe_hamming e) = wrong))"
proof -
  note ok = fam_corrected_ok [OF fam(1)]
  obtain view where v: "quad_sampling junk fam im H = Inr view" "qv_polarity view" "contrast d fam view"
    "\<And>k. k < fam_nbits fam \<Longrightarrow> 0 < cell_value view fam k \<longleftrightarrow> seen k"
    by (rule picture_view [OF fam(1) j im sees d]) blast
  note decoded = read_back [where entry = entry and alloc = alloc, OF fam v(2,3)]
  have "qd_fits alloc fam (int h)" using ok(6) fam(2) by (simp add: qd_fits_def)
  then obtain qd where qd: "quick_decode_init alloc fam (int h) = Inr (fam\<lparr>fam_impl := Some qd\<rparr>, NoError)"
    by (rule quick_decode_init_full [OF ok(1,2), rotated 2]) (use ok(4) in auto)
  have "quad_decode_picture junk d (fam\<lparr>fam_impl := Some qd\<rparr>) im H entry = quad_decode d (fam\<lparr>fam_impl := Some qd\<rparr>) view entry"
    by (simp add: quad_decode_picture_def sampling_impl v(1))
  moreover have "{k. k < fam_nbits fam \<and> seen k \<noteq> P k} = {k. k < fam_nbits fam \<and> (0 < cell_value view fam k) \<noteq> P k}" for P
    using v(4) by auto
  ultimately show ?thesis using decoded qd by auto
qed

subsection \<open>The companion's view of a frame\<close>

text \<open>
  The operations on quadrilaterals that the detector uses, for a frame. The refinement of edges and the corners of a
  detection stay arguments; a missing homography is a null pointer.
\<close>

definition picture_ops ::
  "(real quad \<Rightarrow> real quad) \<Rightarrow> (real quad \<Rightarrow> quick_decode_entry \<Rightarrow> real point_2f \<times> real point_2f list) \<Rightarrow> real list \<Rightarrow> image_u8 \<Rightarrow>
   (real quad, real) quad_ops" where
  "picture_ops refine corners junk im =
     \<lparr>qo_refine = refine,
      qo_homography = (\<lambda>quad. bindE (quad_update_homographies quad) (\<lambda>(err, quad). Inr (if err \<noteq> 0 then None else Some quad))),
      qo_reversed = quad_reversed_border,
      qo_view = (\<lambda>quad family. case quad_H quad of None \<Rightarrow> Inl OutOfBounds | Some H \<Rightarrow> quad_sampling junk family im H),
      qo_corners = corners\<rparr>"

text \<open>C8: A tag in the frame is found. Let one of the quadrilaterals, after refinement, have corners for which
  \<open>quad_update_homographies\<close> succeeds, and let a tag of tag16h5 be seen through this homography, turned by any quarter turns, with two grey
  levels and at most two wrong bits. If the homography and the sampling of no quadrilateral fail, the detector the companion
  sets up returns a detection of that tag with no more corrected bits, and with fewer than 256 detections the companion sees its number.\<close>

theorem tag_in_frame:
  fixes refine :: "real quad \<Rightarrow> real quad"
  assumes alloc: "alloc (int (3 * qd_cap tag16h5_create 2))" and i: "i < fam_ncodes tag16h5_create" "r < 4"
    and tag: "apriltag_to_image tag16h5_create i = Inr tag"
    and im: "im_ok im w l" "im_width im = int w" "im_height im = int l" and mem: "length mem = 9"
    and runs: "\<And>q. q \<in> set quads \<Longrightarrow> \<exists>err q0. quad_update_homographies (refine q) = Inr (err, q0) \<and>
      (err = 0 \<longrightarrow> \<not> quad_reversed_border q0 \<longrightarrow> (\<exists>H v. quad_H q0 = Some H \<and> quad_sampling mem tag16h5_create im H = Inr v))"
    and q: "q \<in> set quads" "quad_update_homographies (refine q) = Inr (0, q0)" "\<not> quad_reversed_border q0" "quad_H q0 = Some H"
    and sees: "shows_tag tag16h5_create im w l H bright dark seen" "dark < bright"
    and wrong: "card {k. k < fam_nbits tag16h5_create \<and>
      seen k \<noteq> white_at tag16h5_create tag ((turn_pos tag16h5_create ^^ r) (bpos tag16h5_create k))} = wrong" "wrong \<le> 2"
    and order: "\<And>ts. pool_order 1 ts (sched ts)" "any_mix mix" "any_sort qsorted"
  shows "\<exists>td fs' ds. init_detector alloc fs tf = Inr (td, fs') \<and>
    detect_in_quads (picture_ops refine corners mem im) overlaps td fs' junk sched mix qsorted quads = Inr ds \<and>
    (\<exists>d \<in> set ds. det_id d = int i \<and> ad_family d = tf \<and> ad_hamming d \<le> int wrong) \<and>
    (length ds < 256 \<longrightarrow> TargetDetector.sees (of_nat i) (map detection.truncate ds))"
proof -
  have c: "(tag16h5_create, 2) \<in> set fam_corrected" by (simp add: fam_corrected_def)
  obtain view where v: "quad_sampling mem tag16h5_create im H = Inr view" "qv_polarity view" "contrast (1 / 4) tag16h5_create view"
    "\<And>k. k < fam_nbits tag16h5_create \<Longrightarrow> 0 < cell_value view tag16h5_create k \<longleftrightarrow> seen k"
    by (rule picture_view [OF c mem im sees, of "1 / 4"]) simp_all
  have "{k. k < fam_nbits tag16h5_create \<and> (0 < cell_value view tag16h5_create k) \<noteq> P k} = {k. k < fam_nbits tag16h5_create \<and> seen k \<noteq> P k}" for P
    using v(4) by auto
  then have w: "card {k. k < fam_nbits tag16h5_create \<and>
      (0 < cell_value view tag16h5_create k) \<noteq> white_at tag16h5_create tag ((turn_pos tag16h5_create ^^ r) (bpos tag16h5_create k))} = wrong"
    using wrong(1) by simp
  let ?ops = "picture_ops refine corners mem im"
  have rn: "\<exists>res. qo_homography ?ops (qo_refine ?ops q) = Inr res \<and>
      (\<forall>q0 x. res = Some q0 \<longrightarrow> \<not> qo_reversed ?ops q0 \<longrightarrow> (\<exists>v. qo_view ?ops q0 (tag16h5_create\<lparr>fam_impl := x\<rparr>) = Inr v))"
    if "q \<in> set quads" for q
    using runs [OF that] by (auto simp: picture_ops_def sampling_impl split: if_splits)
  have qv: "qo_homography ?ops (qo_refine ?ops q) = Inr (Some q0)" "\<not> qo_reversed ?ops q0"
    "qo_view ?ops q0 (tag16h5_create\<lparr>fam_impl := x\<rparr>) = Inr view" for x
    using q(2-4) v(1) by (simp_all add: picture_ops_def sampling_impl)
  show ?thesis
    by (rule companion_sees [where ops = ?ops and q = q and ?q0.0 = q0 and view = view and quads = quads and alloc = alloc,
      OF alloc i tag rn q(1) qv v(2,3) w wrong(2) order])
qed

subsection \<open>Witnesses\<close>

text \<open>
  A picture with two by two pixels for each cell of tag16h5, in which tag 0 lies on its side with one bit wrong, and the
  quadrilateral at the corners of its black border.
\<close>

definition side_bit :: "nat \<Rightarrow> bool" where
  "side_bit k \<longleftrightarrow> 0 < cell_value side_view tag16h5_create k"

definition side_level :: "nat \<Rightarrow> nat \<Rightarrow> u8" where
  "side_level x y =
     (if x = 0 \<or> x = 7 \<or> y = 0 \<or> y = 7 \<or> (\<exists>k < 16. bpos tag16h5_create k = (int x - 1, int y - 1) \<and> side_bit k) then 200 else 40)"

definition side_picture :: image_u8 where
  "side_picture = \<lparr>im_width = 16, im_height = 16, im_stride = 16,
     im_buf = map (\<lambda>k. side_level (k mod 16 div 2) (k div 16 div 2)) [0..<256]\<rparr>"

definition side_matrix :: "real matd" where
  "side_matrix = \<lparr>matd_nrows = 3, matd_ncols = 3, matd_data = [6, 0, 8, 0, 6, 8, 0, 0, 1]\<rparr>"

lemma side_ok: "im_ok side_picture 16 16" "im_width side_picture = int 16" "im_height side_picture = int 16"
  by (simp_all add: im_ok_def side_picture_def)

lemma side_col:
  assumes "x < 16" "y < 16"
  shows "col side_picture x y = side_level (x div 2) (y div 2)"
proof -
  have "y * 16 + x < 256" "(y * 16 + x) mod 16 = x" "(y * 16 + x) div 16 = y" using assms by simp_all
  then show ?thesis by (simp add: col_def side_picture_def)
qed

text \<open>The point of the picture that shows a point of the tag, in cells.\<close>

lemma side_project: "homography_project side_matrix (tag_coord 6 a) (tag_coord 6 b) = Inr (2 * a + 2, 2 * b + 2)"
  by (simp add: homography_project_def side_matrix_def MATD_EL_def arr_get_def fdiv_def tag_coord_def Let_def)

lemma side_pixel:
  assumes "a = real n - 1 / 2" "b = real m - 1 / 2" "n < 8" "m < 8" "side_level n m = v"
  shows "pixel_is side_picture 16 16 side_matrix (tag_coord 6 a) (tag_coord 6 b) v"
proof -
  have pr: "homography_project side_matrix (tag_coord 6 a) (tag_coord 6 b) = Inr (real (2 * n + 1), real (2 * m + 1))"
    unfolding side_project assms(1,2) by simp
  have "(2 * k + 1) div 2 = k" for k :: nat by simp
  then have c: "2 * n + 1 < 16" "2 * m + 1 < 16" "col side_picture (2 * n + 1) (2 * m + 1) = v"
    using assms side_col [of "2 * n + 1" "2 * m + 1"] by simp_all
  show ?thesis unfolding pixel_is_def pr using c
    by (intro exI [of _ "real (2 * n + 1)"] exI [of _ "real (2 * m + 1)"] conjI refl)
      (simp_all only: floor_of_nat nat_int of_nat_0_le_iff of_nat_less_iff)
qed

lemma side_bits:
  assumes "k < 16"
  shows "1 \<le> fst (bpos tag16h5_create k)" "fst (bpos tag16h5_create k) \<le> 4" "1 \<le> snd (bpos tag16h5_create k)" "snd (bpos tag16h5_create k) \<le> 4"
proof -
  have "list_all (\<lambda>k. 1 \<le> fst (bpos tag16h5_create k) \<and> fst (bpos tag16h5_create k) \<le> 4 \<and>
      1 \<le> snd (bpos tag16h5_create k) \<and> snd (bpos tag16h5_create k) \<le> 4) [0..<16]" by code_simp
  then show "1 \<le> fst (bpos tag16h5_create k)" "fst (bpos tag16h5_create k) \<le> 4" "1 \<le> snd (bpos tag16h5_create k)" "snd (bpos tag16h5_create k) \<le> 4"
    using assms by (simp_all add: list_all_iff)
qed

lemma side_black:
  assumes "1 \<le> x" "x \<le> 6" "1 \<le> y" "y \<le> 6" "x = 1 \<or> x = 6 \<or> y = 1 \<or> y = 6"
  shows "side_level x y = 40"
proof -
  have "bpos tag16h5_create k \<noteq> (int x - 1, int y - 1)" if "k < 16" for k
  proof
    assume "bpos tag16h5_create k = (int x - 1, int y - 1)"
    then show False using side_bits [OF that] assms by auto
  qed
  then show ?thesis using assms by (auto simp: side_level_def)
qed

lemma side_column:
  assumes "p0 = real n - 1 / 2" "n < 8" "\<And>k. k < 6 \<Longrightarrow> side_level n (k + 1) = (if c then 200 else 40)"
  shows "line_is side_picture 16 16 side_matrix 6 200 40 ((p0, 1 / 2), (0, 1), c)"
proof -
  have "pixel_is side_picture 16 16 side_matrix (tag_coord 6 (p0 + of_int i * 0)) (tag_coord 6 (1 / 2 + of_int i * 1)) (if c then 200 else 40)"
    if "i \<in> {0..<6}" for i
    using that assms(1,2) assms(3) [of "nat i"] by (intro side_pixel [of _ n _ "nat i + 1"]) auto
  then show ?thesis by (simp only: line_is_def split) simp
qed

lemma side_row:
  assumes "p1 = real m - 1 / 2" "m < 8" "\<And>k. k < 6 \<Longrightarrow> side_level (k + 1) m = (if c then 200 else 40)"
  shows "line_is side_picture 16 16 side_matrix 6 200 40 ((1 / 2, p1), (1, 0), c)"
proof -
  have "pixel_is side_picture 16 16 side_matrix (tag_coord 6 (1 / 2 + of_int i * 1)) (tag_coord 6 (p1 + of_int i * 0)) (if c then 200 else 40)"
    if "i \<in> {0..<6}" for i
    using that assms(1,2) assms(3) [of "nat i"] by (intro side_pixel [of _ "nat i + 1" _ m]) auto
  then show ?thesis by (simp only: line_is_def split) simp
qed

lemma side_lines: "\<forall>p \<in> set (patterns 6). line_is side_picture 16 16 side_matrix 6 200 40 p"
proof -
  have white: "side_level 0 y = 200" "side_level 7 y = 200" "side_level x 0 = 200" "side_level x 7 = 200" for x y by (simp_all add: side_level_def)
  let ?is = "line_is side_picture 16 16 side_matrix 6 200 40"
  have columns: "?is ((- 1 / 2, 1 / 2), (0, 1), True)" "?is ((1 / 2, 1 / 2), (0, 1), False)"
    "?is ((6 + 1 / 2, 1 / 2), (0, 1), True)" "?is ((6 - 1 / 2, 1 / 2), (0, 1), False)"
    by (rule side_column [of _ 0] side_column [of _ 1] side_column [of _ 7] side_column [of _ 6]; simp add: white side_black; fail)+
  have rows: "?is ((1 / 2, - 1 / 2), (1, 0), True)" "?is ((1 / 2, 1 / 2), (1, 0), False)"
    "?is ((1 / 2, 6 + 1 / 2), (1, 0), True)" "?is ((1 / 2, 6 - 1 / 2), (1, 0), False)"
    by (rule side_row [of _ 0] side_row [of _ 1] side_row [of _ 7] side_row [of _ 6]; simp add: white side_black; fail)+
  show ?thesis unfolding patterns_def list.set ball_simps using columns rows by blast
qed

lemma side_shows: "shows_tag tag16h5_create side_picture 16 16 side_matrix 200 40 side_bit"
proof -
  have f: "fam_width_at_border tag16h5_create = 6" "\<not> fam_reversed_border tag16h5_create" "fam_nbits tag16h5_create = 16"
    by (simp_all add: fam_creates)
  have "area_is side_picture 16 16 side_matrix (tag_coord 6 (of_int (fst (bpos tag16h5_create k)) + 1 / 2))
      (tag_coord 6 (of_int (snd (bpos tag16h5_create k)) + 1 / 2)) (if side_bit k then 200 else 40)" if k: "k < 16" for k
  proof -
    define x y where "x = nat (fst (bpos tag16h5_create k))" "y = nat (snd (bpos tag16h5_create k))"
    then have xy: "bpos tag16h5_create k = (int x, int y)" "1 \<le> x" "x \<le> 4" "1 \<le> y" "y \<le> 4"
      using side_bits [OF k] by (simp_all add: prod_eq_iff)
    have eq: "j = k" if "j < 16" "bpos tag16h5_create j = bpos tag16h5_create k" for j
      using nth_eq_iff_index_eq [OF cells_ok_facts(7) [OF cells_ok_families(1)], of j k] that k f(3) by simp
    have level: "side_level (x + 1) (y + 1) = (if side_bit k then 200 else 40)"
    proof -
      have e: "(int (x + 1) - 1, int (y + 1) - 1) = bpos tag16h5_create k" using xy(1) by simp
      have "(\<exists>j < 16. bpos tag16h5_create j = bpos tag16h5_create k \<and> side_bit j) = side_bit k" using eq k by blast
      then show ?thesis using xy(2-5) unfolding side_level_def e by simp
    qed
    have fl: "\<lfloor>real (2 * n + 3) - 1 / 2\<rfloor> = int (2 * n + 2)" "\<lceil>real (2 * n + 3) - 1 / 2\<rceil> = int (2 * n + 3)" for n
      by (simp_all add: floor_eq_iff ceiling_eq_iff)
    have d: "(2 * n + 2) div 2 = n + 1" "(2 * n + 3) div 2 = n + 1" for n :: nat by simp_all
    have c: "col side_picture a b = (if side_bit k then 200 else 40)" if "a = 2 * x + 2 \<or> a = 2 * x + 3" "b = 2 * y + 2 \<or> b = 2 * y + 3" for a b
    proof -
      have "a < 16" "b < 16" "a div 2 = x + 1" "b div 2 = y + 1" using that xy d by auto
      then show ?thesis using level by (simp add: side_col)
    qed
    have pr: "homography_project side_matrix (tag_coord 6 (of_int (int x) + 1 / 2)) (tag_coord 6 (of_int (int y) + 1 / 2)) =
        Inr (real (2 * x + 3), real (2 * y + 3))"
      unfolding side_project by simp
    have "\<forall>a \<in> {\<lfloor>real (2 * x + 3) - 1 / 2\<rfloor>, \<lceil>real (2 * x + 3) - 1 / 2\<rceil>}. \<forall>b \<in> {\<lfloor>real (2 * y + 3) - 1 / 2\<rfloor>, \<lceil>real (2 * y + 3) - 1 / 2\<rceil>}.
        col side_picture (nat a) (nat b) = (if side_bit k then 200 else 40)"
      unfolding fl using c unfolding ball_simps insert_iff by (simp only: ball_simps nat_int) simp
    moreover have "1 / 2 \<le> real (2 * n + 3) \<and> real (2 * n + 3) \<le> real 16 - 1 / 2" if "n \<le> 4" for n using that by simp
    ultimately show ?thesis unfolding area_is_def xy(1) fst_conv snd_conv pr using xy(3,5) by blast
  qed
  then show ?thesis using side_lines f by (simp add: shows_tag_def Let_def)
qed

lemma tag_in_picture_witness:
  "\<exists>fam' margin e. quick_decode_init (\<lambda>_. True) tag16h5_create (int 2) = Inr (fam', NoError) \<and>
    quad_decode_picture (replicate 9 0) (1 / 4) fam' side_picture side_matrix qd_no_entry = Inr (margin, e) \<and> 0 \<le> margin \<and>
    unat (qe_id e) = 0 \<and> unat (qe_rotation e) = 3 \<and> unat (qe_hamming e) = 1"
proof -
  let ?fam = tag16h5_create
  have ok: "cells_ok ?fam" "fam_ok ?fam" "0 < fam_ncodes ?fam" by (simp_all add: cells_ok_families fam_oks) (simp add: fam_creates)
  have nb: "fam_nbits ?fam = 16" by (simp add: fam_creates)
  have f: "(?fam, 2) \<in> set fam_corrected" and r: "(1 :: nat) < 4" by (simp_all add: fam_corrected_def)
  have d: "(0 :: real) \<le> 1 / 4" and j: "length (replicate 9 (0 :: real)) = 9" and lt: "(40 :: u8) < 200" by simp_all
  from tag_in_picture [where alloc = "\<lambda>_. True" and entry = qd_no_entry, OF f TrueI ok(3) r side_ok d j side_shows lt]
  obtain tag fam' where t: "apriltag_to_image ?fam 0 = Inr tag" "quick_decode_init (\<lambda>_. True) ?fam (int 2) = Inr (fam', NoError)"
    "card {k. k < 16 \<and> side_bit k \<noteq> white_at ?fam tag ((turn_pos ?fam ^^ 1) (bpos ?fam k))} \<le> 2 \<longrightarrow>
      (\<exists>margin e. quad_decode_picture (replicate 9 0) (1 / 4) fam' side_picture side_matrix qd_no_entry = Inr (margin, e) \<and> 0 \<le> margin \<and>
        unat (qe_id e) = 0 \<and> unat (qe_rotation e) = (4 - 1) mod 4 \<and>
        unat (qe_hamming e) = card {k. k < 16 \<and> side_bit k \<noteq> white_at ?fam tag ((turn_pos ?fam ^^ 1) (bpos ?fam k))})"
    unfolding Let_def nb by blast
  have "\<exists>margin e. quad_decode_picture (replicate 9 0) (1 / 4) fam' side_picture side_matrix qd_no_entry = Inr (margin, e) \<and> 0 \<le> margin \<and>
        unat (qe_id e) = 0 \<and> unat (qe_rotation e) = (4 - 1) mod 4 \<and> unat (qe_hamming e) = 1"
    using t(3) unfolding side_bit_def side_view_ok(2) [OF t(1)] by simp
  then show ?thesis using t(2) by (intro exI [of _ fam']) simp
qed

text \<open>The homography of the corners is this matrix.\<close>

definition side_quad :: "real quad" where
  "side_quad = \<lparr>quad_p = [(2, 2), (14, 2), (14, 14), (2, 14)], quad_reversed_border = False, quad_H = None, quad_Hinv = None\<rparr>"

lemma side_homography:
  "homography_compute2 [(- 1, - 1, 2, 2), (1, - 1, 14, 2), (1, 1, 14, 14), (- 1, 1, 2, 14)] =
    bindE (matd_create_data 3 3 [6, 0, 8, 0, 6, 8, 0, 0, 1]) (\<lambda>H. Inr (Some H :: real matd option))"
  by (simp add: run_homography)

lemma side_inverse: "case matd_inverse side_matrix of Inr (Some _) \<Rightarrow> True | _ \<Rightarrow> False"
  by (simp add: side_matrix_def run_inverse)

lemma side_update: "\<exists>q0. quad_update_homographies side_quad = Inr (0, q0) \<and> quad_H q0 = Some side_matrix \<and> \<not> quad_reversed_border q0"
proof -
  have "matd_create_data 3 3 [6, 0, 8, 0, 6, 8, 0, 0, 1] = Inr side_matrix"
    by (simp add: matd_create_data_def matd_create_def cint_def INT_MAX_def INT_MIN_def upt_rec arr_get_def arr_set_def eval_nat_numeral side_matrix_def)
  then show ?thesis using side_homography side_inverse
    by (auto simp: quad_update_homographies_def side_quad_def corr_arr_ok split: sum.splits option.splits)
qed

lemma tag_in_frame_witness:
  "\<exists>td fs' ds. init_detector (\<lambda>_. True) (\<lambda>_. tag16h5_create) 7 = Inr (td, fs') \<and>
    detect_in_quads (picture_ops id (\<lambda>q e. (\<lparr>px = 0, py = 0\<rparr>, [])) (replicate 9 0) side_picture) (\<lambda>p q. True) td fs' qd_no_entry id concat
      (sort_key det_id) [side_quad] = Inr ds \<and>
    (\<exists>d \<in> set ds. det_id d = 0 \<and> ad_family d = 7 \<and> ad_hamming d \<le> 1)"
proof -
  have ok: "cells_ok tag16h5_create" "fam_ok tag16h5_create" "0 < fam_ncodes tag16h5_create"
    by (simp_all add: cells_ok_families fam_oks) (simp add: fam_creates)
  obtain tag where tag: "apriltag_to_image tag16h5_create 0 = Inr tag" by (rule apriltag_to_image_ok [OF ok]) blast
  have nb: "fam_nbits tag16h5_create = 16" by (simp add: fam_creates)
  have f: "(tag16h5_create, 2) \<in> set fam_corrected" by (simp add: fam_corrected_def)
  have mem: "length (replicate 9 (0 :: real)) = 9" and lt: "(40 :: u8) < 200" and r: "(1 :: nat) < 4" and two: "(1 :: nat) \<le> 2" by simp_all
  obtain q0 where q0: "quad_update_homographies side_quad = Inr (0, q0)" "quad_H q0 = Some side_matrix" "\<not> quad_reversed_border q0"
    using side_update by blast
  have q: "side_quad \<in> set [side_quad]" "quad_update_homographies (id side_quad) = Inr (0, q0)" using q0 by simp_all
  obtain v where v: "quad_sampling (replicate 9 0) tag16h5_create side_picture side_matrix = Inr v"
    by (rule picture_view [OF f mem side_ok side_shows lt, of 0]) simp_all
  have runs: "\<exists>err q0. quad_update_homographies (id q) = Inr (err, q0) \<and> (err = 0 \<longrightarrow> \<not> quad_reversed_border q0 \<longrightarrow>
      (\<exists>H v. quad_H q0 = Some H \<and> quad_sampling (replicate 9 0) tag16h5_create side_picture H = Inr v))" if "q \<in> set [side_quad]" for q
    using that q0 v by simp
  have wrong: "card {k. k < fam_nbits tag16h5_create \<and>
      side_bit k \<noteq> white_at tag16h5_create tag ((turn_pos tag16h5_create ^^ 1) (bpos tag16h5_create k))} = 1"
    using side_view_ok(2) [OF tag] unfolding nb side_bit_def .
  have order: "pool_order 1 ts (id ts)" for ts :: "(int \<times> int) list" by (simp add: pool_order_single)
  from tag_in_frame [where alloc = "\<lambda>_. True" and fs = "\<lambda>_. tag16h5_create" and tf = 7 and corners = "\<lambda>q e. (\<lparr>px = 0, py = 0\<rparr>, [])" and
      overlaps = "\<lambda>p q. True" and junk = qd_no_entry and refine = id and sched = id,
      OF TrueI ok(3) r tag side_ok mem runs q q0(3,2) side_shows lt wrong two order concat_any sort_key_any]
  show ?thesis by auto
qed

end
