(* ===== verification/ZMaxHeap.thy ===== *)
theory ZMaxHeap
  imports ZArray "HOL-Library.Option_ord" "HOL-Library.Signed_Division"
begin

text \<open>
  The max-heap of \<open>common/zmaxheap.c\<close>: two parallel allocations, \<open>values\<close> with the keys and
  \<open>data\<close> with the payload bytes, of which the first \<open>size\<close> entries are in use. A finite
  \<open>float\<close> key is an element of any linear order \<open>'v\<close>; an argument that may be non-finite is an
  option, and \<open>-INFINITY\<close> is \<open>None\<close>, below every finite key in the order of options. Index
  arithmetic is on \<open>int\<close> with its overflow. The operations are shown to refine sift-up and
  sift-down on a list of (key, payload) pairs; on that list they restore the heap property.
\<close>

datatype hswap = SwapNone | SwapDefault | SwapPointer

record 'v zmaxheap =
  hp_el_sz :: nat
  hp_size :: int
  hp_alloc :: int
  hp_values :: "'v list"
  hp_data :: bytes
  hp_swapper :: hswap

text \<open>\<open>sizeof(void*)\<close> on the ESP32.\<close>

definition sizeof_ptr :: nat where
  "sizeof_ptr = 4"

definition MIN_CAPACITY :: int where
  "MIN_CAPACITY = 16"

definition swap_values :: "'v list \<Rightarrow> int \<Rightarrow> int \<Rightarrow> cerr + 'v list" where
  "swap_values vs a b =
     bindE (vget vs a) (\<lambda>t.
     bindE (vget vs b) (\<lambda>vb.
     bindE (vset vs a vb) (\<lambda>vs.
     vset vs b t)))"

text \<open>The element swaps: \<open>memcpy\<close>s of \<open>el_sz\<close> bytes, or pointer-sized loads and stores.\<close>

definition swap_bytes :: "nat \<Rightarrow> bytes \<Rightarrow> int \<Rightarrow> int \<Rightarrow> cerr + bytes" where
  "swap_bytes w d a b =
     bindE (mem_read d (a * int w) (int w)) (\<lambda>tmp.
     bindE (mem_read d (b * int w) (int w)) (\<lambda>eb.
     bindE (mem_write d (a * int w) eb) (\<lambda>d.
     mem_write d (b * int w) tmp)))"

definition swap_default :: "'v zmaxheap \<Rightarrow> int \<Rightarrow> int \<Rightarrow> cerr + 'v zmaxheap" where
  "swap_default heap a b =
     bindE (swap_values (hp_values heap) a b) (\<lambda>vs.
     bindE (swap_bytes (hp_el_sz heap) (hp_data heap) a b) (\<lambda>d.
     Inr (heap\<lparr>hp_values := vs, hp_data := d\<rparr>)))"

definition swap_pointer :: "'v zmaxheap \<Rightarrow> int \<Rightarrow> int \<Rightarrow> cerr + 'v zmaxheap" where
  "swap_pointer heap a b =
     bindE (swap_values (hp_values heap) a b) (\<lambda>vs.
     bindE (swap_bytes sizeof_ptr (hp_data heap) a b) (\<lambda>d.
     Inr (heap\<lparr>hp_values := vs, hp_data := d\<rparr>)))"

text \<open>The call through the function pointer \<open>heap->swap\<close>; a call through NULL traps.\<close>

fun hp_swap :: "'v zmaxheap \<Rightarrow> int \<Rightarrow> int \<Rightarrow> cerr + 'v zmaxheap" where
  "hp_swap heap a b =
     (case hp_swapper heap of
        SwapDefault \<Rightarrow> swap_default heap a b
      | SwapPointer \<Rightarrow> swap_pointer heap a b
      | SwapNone \<Rightarrow> Inl OutOfBounds)"

declare hp_swap.simps [simp del]

definition zmaxheap_create :: "nat \<Rightarrow> 'v zmaxheap" where
  "zmaxheap_create el_sz =
     \<lparr>hp_el_sz = el_sz, hp_size = 0, hp_alloc = 0, hp_values = [], hp_data = [],
      hp_swapper = (if el_sz = sizeof_ptr then SwapPointer else SwapDefault)\<rparr>"

definition zmaxheap_destroy :: "'v zmaxheap \<Rightarrow> 'v zmaxheap" where
  "zmaxheap_destroy heap =
     \<lparr>hp_el_sz = 0, hp_size = 0, hp_alloc = 0, hp_values = [], hp_data = [], hp_swapper = SwapNone\<rparr>"

definition zmaxheap_size :: "'v zmaxheap \<Rightarrow> int" where
  "zmaxheap_size heap = hp_size heap"

text \<open>The loop of \<open>zmaxheap_ensure_capacity\<close>.\<close>

function hp_grow :: "int \<Rightarrow> int \<Rightarrow> cerr + int" where
  "hp_grow newcap capacity =
     (if newcap < capacity
      then if newcap < MIN_CAPACITY then hp_grow MIN_CAPACITY capacity
           else bindE (cint (newcap * 2)) (\<lambda>c. hp_grow c capacity)
      else Inr newcap)"
  by pat_completeness auto
termination
  by (relation "measure (\<lambda>(newcap, capacity). nat (capacity - newcap))") (auto simp: MIN_CAPACITY_def)

declare hp_grow.simps [simp del]

definition zmaxheap_ensure_capacity ::
  "(nat \<Rightarrow> 'v) \<Rightarrow> (nat \<Rightarrow> u8) \<Rightarrow> 'v zmaxheap \<Rightarrow> int \<Rightarrow> cerr + 'v zmaxheap" where
  "zmaxheap_ensure_capacity junkv junk heap capacity =
     (if hp_alloc heap \<ge> capacity then Inr heap
      else bindE (hp_grow (hp_alloc heap) capacity) (\<lambda>newcap.
           Inr (heap\<lparr>hp_values := mem_realloc junkv (hp_values heap) (nat newcap),
                     hp_data := mem_realloc junk (hp_data heap) (nat newcap * hp_el_sz heap),
                     hp_alloc := newcap\<rparr>)))"

text \<open>The upward loop of \<open>zmaxheap_add\<close>.\<close>

function hp_up :: "'v::linorder zmaxheap \<Rightarrow> int \<Rightarrow> 'v \<Rightarrow> cerr + 'v zmaxheap" where
  "hp_up heap idx v =
     (if 0 < idx
      then let parent = (idx - 1) div 2 in
           bindE (vget (hp_values heap) parent) (\<lambda>pv.
           if pv \<ge> v then Inr heap
           else bindE (hp_swap heap idx parent) (\<lambda>heap. hp_up heap parent v))
      else Inr heap)"
  by pat_completeness auto
termination
  by (relation "measure (\<lambda>(heap, idx, v). nat idx)") auto

declare hp_up.simps [simp del]

definition zmaxheap_add ::
  "(nat \<Rightarrow> 'v) \<Rightarrow> (nat \<Rightarrow> u8) \<Rightarrow> 'v::linorder zmaxheap \<Rightarrow> bytes \<Rightarrow> 'v option \<Rightarrow> cerr + 'v zmaxheap" where
  "zmaxheap_add junkv junk heap p fv =
     (case fv of
        None \<Rightarrow> Inl AssertFail
      | Some v \<Rightarrow>
          bindE (cint (hp_size heap + 1)) (\<lambda>c.
          bindE (zmaxheap_ensure_capacity junkv junk heap c) (\<lambda>heap.
          let idx = hp_size heap in
          bindE (vset (hp_values heap) idx v) (\<lambda>vs.
          bindE (mem_read p 0 (int (hp_el_sz heap))) (\<lambda>bs.
          bindE (mem_write (hp_data heap) (idx * int (hp_el_sz heap)) bs) (\<lambda>d.
          bindE (cint (idx + 1)) (\<lambda>sz.
          hp_up (heap\<lparr>hp_values := vs, hp_data := d, hp_size := sz\<rparr>) idx v)))))))"

text \<open>
  \<open>zmaxheap_vmap\<close> calls \<open>f\<close> on each stored pointer, as bytes; \<open>f\<close> acts on a state of the
  client, and a null pointer is reported by its index before the call.
\<close>

function hp_vmap_from ::
  "('s \<Rightarrow> bytes \<Rightarrow> 's) \<Rightarrow> 'v zmaxheap \<Rightarrow> int \<Rightarrow> 's \<Rightarrow> int list \<Rightarrow> cerr + 's \<times> int list" where
  "hp_vmap_from f heap idx s warn =
     (if idx < hp_size heap
      then bindE (mem_read (hp_data heap) (idx * int (hp_el_sz heap)) (int (hp_el_sz heap))) (\<lambda>p.
           hp_vmap_from f heap (idx + 1) (f s p)
             (if p = replicate sizeof_ptr 0 then warn @ [idx] else warn))
      else Inr (s, warn))"
  by pat_completeness auto
termination
  by (relation "measure (\<lambda>(f, heap, idx, s, warn). nat (hp_size heap - idx))") auto

declare hp_vmap_from.simps [simp del]

definition zmaxheap_vmap :: "('s \<Rightarrow> bytes \<Rightarrow> 's) \<Rightarrow> 'v zmaxheap \<Rightarrow> 's \<Rightarrow> cerr + 's \<times> int list" where
  "zmaxheap_vmap f heap s =
     bindE (assertE (hp_el_sz heap = sizeof_ptr)) (\<lambda>_. hp_vmap_from f heap 0 s [])"

lemma hp_swap_size: "hp_swap heap a b = Inr heap' \<Longrightarrow> hp_size heap' = hp_size heap"
  by (auto simp: hp_swap.simps swap_default_def swap_pointer_def split: hswap.splits)

text \<open>
  The downward loop of \<open>zmaxheap_remove_index\<close>; the score of the sinking node is read once.
  A missing child scores \<open>-INFINITY\<close>.
\<close>

function (sequential) hp_down :: "'v::linorder zmaxheap \<Rightarrow> int \<Rightarrow> 'v option \<Rightarrow> cerr + 'v zmaxheap" where
  "hp_down heap parent score =
     (if parent < hp_size heap
      then
        bindE (cint (2 * parent)) (\<lambda>t. bindE (cint (t + 1)) (\<lambda>left.
        bindE (cint (left + 1)) (\<lambda>right.
        bindE (if left < hp_size heap then bindE (vget (hp_values heap) left) (\<lambda>v. Inr (Some v)) else Inr None) (\<lambda>ls.
        bindE (if right < hp_size heap then bindE (vget (hp_values heap) right) (\<lambda>v. Inr (Some v)) else Inr None) (\<lambda>rs.
        if score \<ge> ls \<and> score \<ge> rs then Inr heap
        else if ls \<ge> rs
        then bindE (assertE (left < hp_size heap)) (\<lambda>_.
             bindE (hp_swap heap parent left) (\<lambda>heap. hp_down heap left score))
        else bindE (assertE (right < hp_size heap)) (\<lambda>_.
             bindE (hp_swap heap parent right) (\<lambda>heap. hp_down heap right score)))))))
      else Inr heap)"
  by pat_completeness auto
termination
  by (relation "measure (\<lambda>(heap, parent, score). nat (hp_size heap - parent))")
    (auto dest!: hp_swap_size split: if_splits)

declare hp_down.simps [simp del]

text \<open>
  The results are the heap, the return value, and what is stored through \<open>v\<close> and \<open>p\<close> when the
  caller passes a pointer for them.
\<close>

definition zmaxheap_remove_index ::
  "'v::linorder zmaxheap \<Rightarrow> int \<Rightarrow> bool \<Rightarrow> bool \<Rightarrow> cerr + 'v zmaxheap \<times> int \<times> 'v option \<times> bytes option" where
  "zmaxheap_remove_index heap idx want_p want_v =
     (if idx \<ge> hp_size heap then Inr (heap, 0, None, None)
      else
        let w = int (hp_el_sz heap) in
        bindE (if want_v then bindE (vget (hp_values heap) idx) (\<lambda>v. Inr (Some v)) else Inr None) (\<lambda>v.
        bindE (if want_p then bindE (mem_read (hp_data heap) (idx * w) w) (\<lambda>p. Inr (Some p)) else Inr None) (\<lambda>p.
        let heap = heap\<lparr>hp_size := hp_size heap - 1\<rparr> in
        if idx = hp_size heap then Inr (heap, 1, v, p)
        else
          bindE (vget (hp_values heap) (hp_size heap)) (\<lambda>lv.
          bindE (vset (hp_values heap) idx lv) (\<lambda>vs.
          bindE (mem_read (hp_data heap) (w * hp_size heap) w) (\<lambda>le.
          bindE (mem_write (hp_data heap) (idx * w) le) (\<lambda>d.
          let heap = heap\<lparr>hp_values := vs, hp_data := d\<rparr> in
          bindE (vget (hp_values heap) idx) (\<lambda>score.
          bindE (hp_down heap idx (Some score)) (\<lambda>heap.
          Inr (heap, 1, v, p))))))))))"

definition zmaxheap_remove_max ::
  "'v::linorder zmaxheap \<Rightarrow> bool \<Rightarrow> bool \<Rightarrow> cerr + 'v zmaxheap \<times> int \<times> 'v option \<times> bytes option" where
  "zmaxheap_remove_max heap want_p want_v = zmaxheap_remove_index heap 0 want_p want_v"

subsection \<open>The iterator\<close>

text \<open>An iterator holds the heap and two cursors; here the heap is passed beside it.\<close>

record zmaxheap_iterator =
  it_in :: int
  it_out :: int

definition zmaxheap_iterator_init :: "zmaxheap_iterator" where
  "zmaxheap_iterator_init = \<lparr>it_in = 0, it_out = 0\<rparr>"

text \<open>The common tail of the two \<open>next\<close> functions: keep the element and advance.\<close>

definition hp_iter_keep ::
  "'v zmaxheap \<Rightarrow> zmaxheap_iterator \<Rightarrow> cerr + 'v zmaxheap \<times> zmaxheap_iterator" where
  "hp_iter_keep heap it =
     (let w = int (hp_el_sz heap) in
      bindE (if it_in it \<noteq> it_out it
             then bindE (vget (hp_values heap) (it_in it)) (\<lambda>v.
                  bindE (vset (hp_values heap) (it_out it) v) (\<lambda>vs.
                  bindE (mem_read (hp_data heap) (it_in it * w) w) (\<lambda>e.
                  bindE (mem_write (hp_data heap) (it_out it * w) e) (\<lambda>d.
                  Inr (heap\<lparr>hp_values := vs, hp_data := d\<rparr>)))))
             else Inr heap) (\<lambda>heap.
      bindE (cint (it_in it + 1)) (\<lambda>i. bindE (cint (it_out it + 1)) (\<lambda>out.
      Inr (heap, \<lparr>it_in = i, it_out = out\<rparr>)))))"

text \<open>The result \<open>None\<close> is the return value 0; \<open>Some\<close> carries the stored key and payload.\<close>

definition zmaxheap_iterator_next ::
  "'v zmaxheap \<Rightarrow> zmaxheap_iterator \<Rightarrow> cerr + 'v zmaxheap \<times> zmaxheap_iterator \<times> ('v \<times> bytes) option" where
  "zmaxheap_iterator_next heap it =
     (if it_in it \<ge> zmaxheap_size heap then Inr (heap, it, None)
      else
        bindE (vget (hp_values heap) (it_in it)) (\<lambda>v.
        bindE (mem_read (hp_data heap) (it_in it * int (hp_el_sz heap)) (int (hp_el_sz heap))) (\<lambda>p.
        bindE (hp_iter_keep heap it) (\<lambda>(heap, it). Inr (heap, it, Some (v, p))))))"

text \<open>The volatile variant hands out the offset of the element in \<open>data\<close> instead of a copy.\<close>

definition zmaxheap_iterator_next_volatile ::
  "'v zmaxheap \<Rightarrow> zmaxheap_iterator \<Rightarrow> cerr + 'v zmaxheap \<times> zmaxheap_iterator \<times> ('v \<times> int) option" where
  "zmaxheap_iterator_next_volatile heap it =
     (if it_in it \<ge> zmaxheap_size heap then Inr (heap, it, None)
      else
        bindE (vget (hp_values heap) (it_in it)) (\<lambda>v.
        bindE (hp_iter_keep heap it) (\<lambda>(heap', it').
        Inr (heap', it', Some (v, it_in it * int (hp_el_sz heap))))))"

definition zmaxheap_iterator_remove :: "zmaxheap_iterator \<Rightarrow> cerr + zmaxheap_iterator" where
  "zmaxheap_iterator_remove it = bindE (cint (it_out it - 1)) (\<lambda>out. Inr (it\<lparr>it_out := out\<rparr>))"

text \<open>The comparison of \<open>maxheapify\<close>: the better of \<open>best\<close> and a child.\<close>

definition better_child :: "'v::linorder zmaxheap \<Rightarrow> int \<Rightarrow> int \<Rightarrow> cerr + int" where
  "better_child heap child best =
     (if child < hp_size heap
      then bindE (vget (hp_values heap) child) (\<lambda>cv.
           bindE (vget (hp_values heap) best) (\<lambda>bv.
           Inr (if cv > bv then child else best)))
      else Inr best)"

lemma better_child_InrE:
  assumes "better_child heap child best = Inr b"
  obtains "b = best" | "b = child" "0 \<le> child" "child < hp_size heap"
  using assms by (auto simp: better_child_def split: if_splits)

lemma better_child_nonneg: "better_child heap child best = Inr b \<Longrightarrow> child < hp_size heap \<Longrightarrow> 0 \<le> child"
  by (auto simp: better_child_def)

function (sequential) maxheapify :: "'v::linorder zmaxheap \<Rightarrow> int \<Rightarrow> cerr + 'v zmaxheap" where
  "maxheapify heap parent =
     bindE (cint (2 * parent)) (\<lambda>t. bindE (cint (t + 1)) (\<lambda>left. bindE (cint (t + 2)) (\<lambda>right.
     bindE (better_child heap left parent) (\<lambda>b.
     bindE (better_child heap right b) (\<lambda>betterchild.
     if betterchild \<noteq> parent
     then bindE (hp_swap heap parent betterchild) (\<lambda>heap. maxheapify heap betterchild)
     else Inr heap)))))"
  by pat_completeness auto
termination
proof (relation "measure (\<lambda>(heap, parent). nat (hp_size heap - parent))", goal_cases)
  case (2 heap parent t left right b c heap')
  have "parent < c \<and> c < hp_size heap"
    using 2 by (auto elim!: better_child_InrE dest: better_child_nonneg)
  then show ?case using hp_swap_size [OF 2(7)] by simp
qed simp

declare maxheapify.simps [simp del]

text \<open>The loop \<open>for (i = size/2 - 1; i >= 0; i--) maxheapify(heap, i)\<close>.\<close>

function hp_rebuild :: "'v::linorder zmaxheap \<Rightarrow> int \<Rightarrow> cerr + 'v zmaxheap" where
  "hp_rebuild heap i =
     (if 0 \<le> i then bindE (maxheapify heap i) (\<lambda>heap. hp_rebuild heap (i - 1)) else Inr heap)"
  by pat_completeness auto
termination
  by (relation "measure (\<lambda>(heap, i). nat (i + 1))") auto

declare hp_rebuild.simps [simp del]

definition zmaxheap_iterator_finish :: "'v::linorder zmaxheap \<Rightarrow> zmaxheap_iterator \<Rightarrow> cerr + 'v zmaxheap" where
  "zmaxheap_iterator_finish heap it =
     (if it_in it = it_out it then Inr heap
      else let heap = heap\<lparr>hp_size := it_out it\<rparr> in hp_rebuild heap (hp_size heap sdiv 2 - 1))"

text \<open>
  How the header documents the iterator's use: visit every element, remove those that
  \<open>keep\<close> rejects, finish.
\<close>

fun hp_filter_from :: "('v \<times> bytes \<Rightarrow> bool) \<Rightarrow> 'v::linorder zmaxheap \<Rightarrow> zmaxheap_iterator \<Rightarrow> nat \<Rightarrow>
    cerr + 'v zmaxheap \<times> zmaxheap_iterator" where
  "hp_filter_from keep heap it 0 = Inl Diverges"
| "hp_filter_from keep heap it (Suc n) =
     bindE (zmaxheap_iterator_next heap it) (\<lambda>(heap, it, r).
       case r of
         None \<Rightarrow> Inr (heap, it)
       | Some e \<Rightarrow> if keep e then hp_filter_from keep heap it n
                   else bindE (zmaxheap_iterator_remove it) (\<lambda>it. hp_filter_from keep heap it n))"

definition hp_filter :: "('v \<times> bytes \<Rightarrow> bool) \<Rightarrow> 'v::linorder zmaxheap \<Rightarrow> cerr + 'v zmaxheap" where
  "hp_filter keep heap =
     bindE (hp_filter_from keep heap zmaxheap_iterator_init (nat (hp_size heap) + 1)) (\<lambda>(heap, it).
     zmaxheap_iterator_finish heap it)"

subsection \<open>Heaps as lists\<close>

text \<open>The specification level: a list of (key, payload) pairs whose keys obey the heap property.\<close>

definition par :: "nat \<Rightarrow> nat" where
  "par i = (i - 1) div 2"

definition heap_on :: "('a \<Rightarrow> 'v::linorder) \<Rightarrow> 'a list \<Rightarrow> bool" where
  "heap_on k xs \<longleftrightarrow> (\<forall>i. 0 < i \<and> i < length xs \<longrightarrow> k (xs ! i) \<le> k (xs ! par i))"

lemma heap_on_code [code]: "heap_on k xs \<longleftrightarrow> (\<forall>i \<in> set [1..<length xs]. k (xs ! i) \<le> k (xs ! par i))"
  by (auto simp: heap_on_def)

text \<open>The heap property for the parents from \<open>m\<close> on, except between \<open>h\<close> and its children.\<close>

definition heap_hole :: "nat \<Rightarrow> nat \<Rightarrow> ('a \<Rightarrow> 'v::linorder) \<Rightarrow> 'a list \<Rightarrow> bool" where
  "heap_hole m h k xs \<longleftrightarrow>
     (\<forall>i. 0 < i \<and> i < length xs \<and> m \<le> par i \<and> par i \<noteq> h \<longrightarrow> k (xs ! i) \<le> k (xs ! par i)) \<and>
     (\<forall>i. 0 < i \<and> i < length xs \<and> par i = h \<and> 0 < h \<and> m \<le> par h \<longrightarrow> k (xs ! i) \<le> k (xs ! par h))"

text \<open>The heap property except between \<open>h\<close> and its parent.\<close>

definition heap_above :: "nat \<Rightarrow> ('a \<Rightarrow> 'v::linorder) \<Rightarrow> 'a list \<Rightarrow> bool" where
  "heap_above h k xs \<longleftrightarrow>
     (\<forall>i. 0 < i \<and> i < length xs \<and> i \<noteq> h \<longrightarrow> k (xs ! i) \<le> k (xs ! par i)) \<and>
     (\<forall>i. 0 < i \<and> i < length xs \<and> par i = h \<and> 0 < h \<longrightarrow> k (xs ! i) \<le> k (xs ! par h))"

definition swp :: "'a list \<Rightarrow> nat \<Rightarrow> nat \<Rightarrow> 'a list" where
  "swp xs a b = xs[a := xs ! b, b := xs ! a]"

lemma par_less: "0 < i \<Longrightarrow> par i < i"
  by (simp add: par_def)

function sift_up :: "('a \<Rightarrow> 'v::linorder) \<Rightarrow> 'a list \<Rightarrow> nat \<Rightarrow> 'a list" where
  "sift_up k xs i =
     (if 0 < i \<and> \<not> k (xs ! i) \<le> k (xs ! par i) then sift_up k (swp xs i (par i)) (par i) else xs)"
  by pat_completeness auto
termination
  by (relation "measure (\<lambda>(k, xs, i). i)") (auto dest: par_less)

definition bigger :: "('a \<Rightarrow> 'v::linorder) \<Rightarrow> 'a list \<Rightarrow> nat \<Rightarrow> nat \<Rightarrow> nat" where
  "bigger k xs c b = (if c < length xs \<and> k (xs ! b) < k (xs ! c) then c else b)"

definition big_child :: "('a \<Rightarrow> 'v::linorder) \<Rightarrow> 'a list \<Rightarrow> nat \<Rightarrow> nat" where
  "big_child k xs p = bigger k xs (2 * p + 2) (bigger k xs (2 * p + 1) p)"

lemma big_child_cases:
  assumes "p < length xs"
  obtains "big_child k xs p = p" "\<And>i. 0 < i \<Longrightarrow> i < length xs \<Longrightarrow> par i = p \<Longrightarrow> k (xs ! i) \<le> k (xs ! p)"
  | "p < big_child k xs p" "big_child k xs p < length xs" "par (big_child k xs p) = p"
    "k (xs ! p) < k (xs ! big_child k xs p)"
    "\<And>i. 0 < i \<Longrightarrow> i < length xs \<Longrightarrow> par i = p \<Longrightarrow> k (xs ! i) \<le> k (xs ! big_child k xs p)"
proof -
  have kids: "par i = p \<Longrightarrow> 0 < i \<Longrightarrow> i = 2 * p + 1 \<or> i = 2 * p + 2" for i by (auto simp: par_def)
  show thesis
  proof (cases "big_child k xs p = p")
    case True
    have "k (xs ! i) \<le> k (xs ! p)" if "0 < i" "i < length xs" "par i = p" for i
      using True kids [OF that(3,1)] that(2) by (auto simp: big_child_def bigger_def not_less split: if_splits)
    with True show thesis by (rule that(1))
  next
    case False
    show thesis
    proof (rule that(2))
      show "k (xs ! i) \<le> k (xs ! big_child k xs p)" if "0 < i" "i < length xs" "par i = p" for i
        using kids [OF that(3,1)] that(2) by (auto simp: big_child_def bigger_def)
    qed (use False in \<open>auto simp: big_child_def bigger_def par_def split: if_splits\<close>)
  qed
qed

function sift_down :: "('a \<Rightarrow> 'v::linorder) \<Rightarrow> 'a list \<Rightarrow> nat \<Rightarrow> 'a list" where
  "sift_down k xs p =
     (let c = big_child k xs p in if c = p then xs else sift_down k (swp xs p c) c)"
  by pat_completeness auto
termination
  by (relation "measure (\<lambda>(k, xs, p). length xs - p)")
    (auto simp: big_child_def bigger_def swp_def split: if_splits)

declare sift_up.simps [simp del] sift_down.simps [simp del]

lemma length_swp [simp]: "length (swp xs a b) = length xs"
  by (simp add: swp_def)

lemma nth_swp: "a < length xs \<Longrightarrow> b < length xs \<Longrightarrow>
    swp xs a b ! i = (if i = b then xs ! a else if i = a then xs ! b else xs ! i)"
  by (cases "i < length xs") (auto simp: swp_def nth_list_update)

lemma mset_swp: "a < length xs \<Longrightarrow> b < length xs \<Longrightarrow> mset (swp xs a b) = mset xs"
  unfolding swp_def by (rule mset_swap)

lemma sift_up_mset: "i < length xs \<Longrightarrow> mset (sift_up k xs i) = mset xs"
proof (induction k xs i rule: sift_up.induct)
  case (1 k xs i)
  then show ?case using par_less [of i]
    by (subst sift_up.simps) (auto simp: mset_swp)
qed

lemma sift_down_mset: "p < length xs \<Longrightarrow> mset (sift_down k xs p) = mset xs"
proof (induction k xs p rule: sift_down.induct)
  case (1 k xs p)
  show ?case
  proof (cases rule: big_child_cases [OF "1.prems", of k])
    case 1
    then show ?thesis by (subst sift_down.simps) simp
  next
    case 2
    with "1.IH" [OF refl] "1.prems" show ?thesis
      by (subst sift_down.simps) (simp add: mset_swp Let_def)
  qed
qed

lemma sift_up_heap:
  "i < length xs \<Longrightarrow> heap_above i k xs \<Longrightarrow> heap_on k (sift_up k xs i)"
proof (induction k xs i rule: sift_up.induct)
  case (1 k xs i)
  show ?case
  proof (cases "0 < i \<and> \<not> k (xs ! i) \<le> k (xs ! par i)")
    case True
    have h: "k (xs ! j) \<le> k (xs ! par j)" if "0 < j" "j < length xs" "j \<noteq> i" for j
      using "1.prems" that by (simp add: heap_above_def)
    have g: "k (xs ! j) \<le> k (xs ! par i)" if "j < length xs" "par j = i" "0 < j" for j
      using "1.prems" True that by (simp add: heap_above_def)
    have lt: "par i < i" "i < length xs" "k (xs ! par i) \<le> k (xs ! i)"
      using "1.prems"(1) True par_less by auto
    have "k (swp xs i (par i) ! j) \<le> k (swp xs i (par i) ! par j)" if "0 < j" "j < length xs" "j \<noteq> par i" for j
    proof -
      consider "par j = par i" "j \<noteq> i" | "j = i" | "par j = i" | "par j \<noteq> i" "par j \<noteq> par i" "j \<noteq> i" by blast
      then show ?thesis
      proof cases
        case 1
        then show ?thesis using order_trans [OF h [OF that(1,2)] , of "k (xs ! i)"] that lt by (simp add: nth_swp)
      qed (use h g that lt par_less [OF that(1)] in \<open>auto simp: nth_swp\<close>)
    qed
    moreover have "k (swp xs i (par i) ! j) \<le> k (swp xs i (par i) ! par (par i))"
      if "0 < j" "j < length xs" "par j = par i" "0 < par i" for j
    proof -
      have "k (xs ! par i) \<le> k (xs ! par (par i))" using h [of "par i"] that(4) lt by auto
      moreover have "k (xs ! j) \<le> k (xs ! par i)" if "j \<noteq> i" using h [of j] that \<open>0 < j\<close> \<open>j < length xs\<close> \<open>par j = par i\<close> by simp
      ultimately show ?thesis using that lt par_less [of "par i"] par_less [of j] by (auto simp: nth_swp)
    qed
    ultimately have "heap_above (par i) k (swp xs i (par i))" by (simp add: heap_above_def)
    with "1.IH" [OF True] "1.prems"(1) True par_less [of i] show ?thesis
      by (subst sift_up.simps) simp
  next
    case False
    with "1.prems" show ?thesis
      by (subst sift_up.simps) (auto simp: heap_above_def heap_on_def)
  qed
qed

definition heap_from :: "nat \<Rightarrow> ('a \<Rightarrow> 'v::linorder) \<Rightarrow> 'a list \<Rightarrow> bool" where
  "heap_from m k xs \<longleftrightarrow> (\<forall>i. 0 < i \<and> i < length xs \<and> m \<le> par i \<longrightarrow> k (xs ! i) \<le> k (xs ! par i))"

lemma heap_from_0: "heap_from 0 k xs = heap_on k xs"
  by (simp add: heap_from_def heap_on_def)

lemma sift_down_heap:
  "p < length xs \<Longrightarrow> heap_hole m p k xs \<Longrightarrow> m \<le> p \<Longrightarrow> heap_from m k (sift_down k xs p)"
proof (induction k xs p rule: sift_down.induct)
  case (1 k xs p)
  let ?c = "big_child k xs p" and ?ys = "swp xs p (big_child k xs p)"
  have h: "k (xs ! i) \<le> k (xs ! par i)" if "0 < i" "i < length xs" "m \<le> par i" "par i \<noteq> p" for i
    using "1.prems"(2) that by (simp add: heap_hole_def)
  have g: "k (xs ! i) \<le> k (xs ! par p)" if "0 < i" "i < length xs" "par i = p" "0 < p" "m \<le> par p" for i
    using "1.prems"(2) that by (simp add: heap_hole_def)
  show ?case
  proof (cases rule: big_child_cases [OF "1.prems"(1), of k])
    case 1
    then have "heap_from m k xs" unfolding heap_from_def using h by metis
    with 1 show ?thesis by (subst sift_down.simps) simp
  next
    case 2
    have up: "k (?ys ! i) \<le> k (?ys ! par i)" if "0 < i" "i < length xs" "m \<le> par i" "par i \<noteq> ?c" for i
    proof -
      consider "par i = p" | "i = p" | "par i \<noteq> p" "i \<noteq> p" by blast
      then show ?thesis
      proof cases
        case 1
        then show ?thesis using 2 that par_less [OF that(1)] "1.prems"(1) less_imp_le by (auto simp: nth_swp)
      next
        case 2
        then show ?thesis using g [OF _ \<open>?c < length xs\<close> \<open>par ?c = p\<close>] \<open>p < ?c\<close> that par_less [OF that(1)] "1.prems"(1) \<open>?c < length xs\<close>
          by (auto simp: nth_swp)
      qed (use h that 2 par_less [OF that(1)] "1.prems"(1) in \<open>auto simp: nth_swp\<close>)
    qed
    have "k (?ys ! i) \<le> k (?ys ! par ?c)" if "0 < i" "i < length xs" "par i = ?c" for i
      using h [OF that(1,2)] that 2 "1.prems" par_less [OF that(1)] by (auto simp: nth_swp)
    with up have "heap_hole m ?c k ?ys" by (simp add: heap_hole_def)
    with "1.IH" [OF refl] "1.prems" 2 have "heap_from m k (sift_down k ?ys ?c)" by simp
    with 2 show ?thesis by (subst sift_down.simps) (simp add: Let_def)
  qed
qed

text \<open>Sifting down from every inner node, the last first, makes a heap of any list.\<close>

fun heapify :: "('a \<Rightarrow> 'v::linorder) \<Rightarrow> 'a list \<Rightarrow> nat \<Rightarrow> 'a list" where
  "heapify k xs 0 = xs"
| "heapify k xs (Suc i) = heapify k (sift_down k xs i) i"

lemma length_sift [simp]:
  "i < length xs \<Longrightarrow> length (sift_up k xs i) = length xs" "i < length xs \<Longrightarrow> length (sift_down k xs i) = length xs"
  using sift_up_mset sift_down_mset by (metis size_mset)+

lemma heapify_ok:
  "n \<le> length xs \<Longrightarrow> heap_from n k xs \<Longrightarrow>
   heap_on k (heapify k xs n) \<and> mset (heapify k xs n) = mset xs"
proof (induction n arbitrary: xs)
  case (Suc n)
  have "heap_hole n n k xs"
    using Suc.prems(2) par_less unfolding heap_from_def heap_hole_def
    by (metis Suc_leI leD le_neq_implies_less)
  with Suc.prems(1) have "heap_from n k (sift_down k xs n)" by (intro sift_down_heap) auto
  with Suc.IH [of "sift_down k xs n"] Suc.prems(1) show ?case by (simp add: sift_down_mset)
qed (simp add: heap_from_0)

lemma heap_from_half: "heap_from (length xs div 2) k xs"
  by (auto simp: heap_from_def par_def)

text \<open>The root is a maximum.\<close>

lemma heap_root:
  assumes "heap_on k xs" "i < length xs"
  shows "k (xs ! i) \<le> k (xs ! 0)"
  using assms(2)
proof (induction i rule: less_induct)
  case (less i)
  show ?case
  proof (cases "i = 0")
    case False
    then have "k (xs ! i) \<le> k (xs ! par i)" "k (xs ! par i) \<le> k (xs ! 0)"
      using assms(1) less par_less [of i] by (auto simp: heap_on_def)
    then show ?thesis by (rule order_trans)
  qed simp
qed

subsection \<open>The allocations as a list\<close>

definition hp_list :: "'v zmaxheap \<Rightarrow> ('v \<times> bytes) list" where
  "hp_list h = zip (take (nat (hp_size h)) (hp_values h)) (chunks (hp_el_sz h) (nat (hp_size h)) (hp_data h))"

definition hp_inv :: "'v zmaxheap \<Rightarrow> bool" where
  "hp_inv h \<longleftrightarrow>
     0 \<le> hp_size h \<and> hp_size h \<le> hp_alloc h \<and> hp_alloc h \<le> INT_MAX \<and>
     length (hp_values h) = nat (hp_alloc h) \<and> length (hp_data h) = nat (hp_alloc h) * hp_el_sz h \<and>
     hp_swapper h = (if hp_el_sz h = sizeof_ptr then SwapPointer else SwapDefault)"

text \<open>The entries \<open>xs\<close> in use, and the keys \<open>vs\<close> and bytes \<open>r\<close> behind them.\<close>

definition hp_rep :: "'v zmaxheap \<Rightarrow> ('v \<times> bytes) list \<Rightarrow> 'v list \<Rightarrow> bytes \<Rightarrow> bool" where
  "hp_rep h xs vs r \<longleftrightarrow>
     hp_size h = int (length xs) \<and> uniform (hp_el_sz h) (map snd xs) \<and>
     hp_values h = map fst xs @ vs \<and> hp_data h = concat (map snd xs) @ r \<and> hp_inv h"

lemma hp_rep_list: "hp_rep h xs vs r \<Longrightarrow> hp_list h = xs"
  by (simp add: hp_rep_def hp_list_def chunks_concat zip_map_fst_snd)

lemma hp_rep_inv: "hp_rep h xs vs r \<Longrightarrow> hp_inv h"
  by (simp add: hp_rep_def)

lemma hp_take_values: "hp_inv h \<Longrightarrow> length (take (nat (hp_size h)) (hp_values h)) = nat (hp_size h)"
  by (simp add: hp_inv_def min_def) linarith

lemma hp_inv_rep:
  assumes "hp_inv h"
  obtains vs r where "hp_rep h (hp_list h) vs r"
proof -
  let ?n = "nat (hp_size h)" and ?w = "hp_el_sz h"
  have le: "?n * ?w \<le> length (hp_data h)"
    using assms by (simp add: hp_inv_def mult_le_mono1 nat_mono)
  have "map fst (hp_list h) = take ?n (hp_values h)" "map snd (hp_list h) = chunks ?w ?n (hp_data h)"
    using hp_take_values [OF assms] unfolding hp_list_def by (metis length_chunks map_fst_zip map_snd_zip)+
  moreover have "length (hp_list h) = ?n" using hp_take_values [OF assms] by (simp add: hp_list_def)
  ultimately have "hp_rep h (hp_list h) (drop ?n (hp_values h)) (drop (?n * ?w) (hp_data h))"
    using assms uniform_chunks [OF le] concat_chunks [OF le] by (simp add: hp_rep_def hp_inv_def)
  then show thesis by (rule that)
qed

lemma hp_size_list: "hp_inv h \<Longrightarrow> hp_size h = int (length (hp_list h))"
  using hp_take_values [of h] by (simp add: hp_list_def hp_inv_def)

text \<open>Replacing the entries by as many others of the same width.\<close>

lemma hp_rep_replace:
  assumes "hp_rep h xs vs r" "length ys = length xs" "uniform (hp_el_sz h) (map snd ys)"
  shows "hp_rep (h\<lparr>hp_values := map fst ys @ vs, hp_data := concat (map snd ys) @ r\<rparr>) ys vs r"
  using assms by (auto simp: hp_rep_def hp_inv_def length_concat_uniform)

lemma hp_rep_shrink:
  assumes "hp_rep h xs vs r" "n \<le> length xs"
  shows "hp_rep (h\<lparr>hp_size := int n\<rparr>) (take n xs) (map fst (drop n xs) @ vs) (concat (map snd (drop n xs)) @ r)"
proof -
  have "uniform (hp_el_sz h) (map snd (take n xs))"
    using assms by (auto simp: hp_rep_def uniform_def dest: in_set_takeD)
  moreover have "map f xs = map f (take n xs) @ map f (drop n xs)" for f :: "_ \<Rightarrow> 'c"
    by (metis append_take_drop_id map_append)
  moreover have "concat (map snd xs) = concat (map snd (take n xs)) @ concat (map snd (drop n xs))"
    by (metis append_take_drop_id concat_append map_append)
  ultimately show ?thesis using assms unfolding hp_rep_def hp_inv_def by auto
qed

lemma map_swp: "a < length xs \<Longrightarrow> b < length xs \<Longrightarrow> map f (swp xs a b) = swp (map f xs) a b"
  by (simp add: swp_def map_update)

lemma uniform_swp: "uniform w xs \<Longrightarrow> a < length xs \<Longrightarrow> b < length xs \<Longrightarrow> uniform w (swp xs a b)"
  by (simp add: swp_def uniform_update uniform_nth)

lemma swap_values_ok:
  "a < length xs \<Longrightarrow> b < length xs \<Longrightarrow> swap_values (xs @ vs) (int a) (int b) = Inr (swp xs a b @ vs)"
  by (simp add: swap_values_def cmem swp_def nth_append list_update_append)

lemma swap_bytes_ok:
  assumes "uniform w xs" "a < length xs" "b < length xs"
  shows "swap_bytes w (concat xs @ r) (int a) (int b) = Inr (concat (swp xs a b) @ r)"
  using assms
  by (simp add: swap_bytes_def swp_def mem_read_elem mem_write_elem uniform_nth uniform_update)

lemma hp_swap_ok:
  assumes rep: "hp_rep h xs vs r" and ab: "a < length xs" "b < length xs"
  shows "hp_swap h (int a) (int b) = Inr (h\<lparr>hp_values := map fst (swp xs a b) @ vs,
    hp_data := concat (map snd (swp xs a b)) @ r\<rparr>)"
proof -
  have u: "uniform (hp_el_sz h) (map snd xs)" using rep by (simp add: hp_rep_def)
  have "swap_values (hp_values h) (int a) (int b) = Inr (map fst (swp xs a b) @ vs)"
    using rep ab by (simp add: hp_rep_def map_swp swap_values_ok)
  moreover have "swap_bytes (hp_el_sz h) (hp_data h) (int a) (int b) = Inr (concat (map snd (swp xs a b)) @ r)"
    using rep ab swap_bytes_ok [OF u] by (simp add: hp_rep_def map_swp)
  moreover have "hp_swapper h = (if hp_el_sz h = sizeof_ptr then SwapPointer else SwapDefault)"
    using rep by (simp add: hp_rep_def hp_inv_def)
  ultimately show ?thesis
    by (auto simp: hp_swap.simps swap_default_def swap_pointer_def)
qed

lemma hp_swap_rep:
  assumes "hp_rep h xs vs r" "a < length xs" "b < length xs"
  obtains h' where "hp_swap h (int a) (int b) = Inr h'" "hp_rep h' (swp xs a b) vs r" "hp_el_sz h' = hp_el_sz h"
proof (rule that [OF hp_swap_ok [OF assms]])
  show "hp_rep (h\<lparr>hp_values := map fst (swp xs a b) @ vs, hp_data := concat (map snd (swp xs a b)) @ r\<rparr>) (swp xs a b) vs r"
    using assms by (intro hp_rep_replace) (auto simp: map_swp uniform_swp hp_rep_def)
qed simp

lemma hp_vget: "hp_rep h xs vs r \<Longrightarrow> i < length xs \<Longrightarrow> vget (hp_values h) (int i) = Inr (fst (xs ! i))"
  by (simp add: hp_rep_def cmem nth_append)

definition hp_limit :: nat where
  "hp_limit = 1073741823"

lemma int_par: "0 < i \<Longrightarrow> (int i - 1) div 2 = int (par i)"
  by (simp add: par_def zdiv_int)

lemma hp_up_rep:
  assumes "hp_rep h xs vs r" "i < length xs" "v = fst (xs ! i)"
  shows "\<exists>h'. hp_up h (int i) v = Inr h' \<and> hp_rep h' (sift_up fst xs i) vs r \<and> hp_el_sz h' = hp_el_sz h"
  using assms
proof (induction i arbitrary: h xs rule: less_induct)
  case (less i)
  show ?case
  proof (cases "0 < i \<and> \<not> v \<le> fst (xs ! par i)")
    case True
    have lt: "par i < i" "par i < length xs" using True less.prems par_less [of i] by auto
    obtain h' where h': "hp_swap h (int i) (int (par i)) = Inr h'" "hp_rep h' (swp xs i (par i)) vs r" "hp_el_sz h' = hp_el_sz h"
      using hp_swap_rep [OF less.prems(1,2) lt(2)] by blast
    have "v = fst (swp xs i (par i) ! par i)" using less.prems lt by (simp add: nth_swp)
    with less.IH [OF lt(1) h'(2)] lt h'
    show ?thesis using True hp_vget [OF less.prems(1) lt(2)] less.prems(3)
      by (subst hp_up.simps, subst sift_up.simps) (simp add: int_par)
  next
    case False
    then show ?thesis using less.prems hp_vget [OF less.prems(1), of "par i"] par_less [of i]
      by (subst hp_up.simps, subst sift_up.simps) (auto simp: int_par)
  qed
qed

text \<open>The scores the loop reads, and the choice it makes with them.\<close>

definition score :: "('v::linorder \<times> bytes) list \<Rightarrow> nat \<Rightarrow> 'v option" where
  "score xs i = (if i < length xs then Some (fst (xs ! i)) else None)"

lemma big_child_scores:
  assumes "p < length xs"
  shows "big_child fst xs p =
    (if score xs (2 * p + 1) \<le> score xs p \<and> score xs (2 * p + 2) \<le> score xs p then p
     else if score xs (2 * p + 2) \<le> score xs (2 * p + 1) then 2 * p + 1 else 2 * p + 2)"
  using assms by (auto simp: big_child_def bigger_def score_def)

lemma big_child_less: "p < length xs \<Longrightarrow> big_child k xs p < length xs"
  by (simp add: big_child_def bigger_def)

lemma hp_child_ints:
  assumes "p < length xs" "length xs \<le> hp_limit"
  shows "cint (2 * int p) = Inr (2 * int p)" "cint (2 * int p + 1) = Inr (int (2 * p + 1))"
    "cint (2 * int p + 2) = Inr (int (2 * p + 2))" "cint (int (2 * p + 1) + 1) = Inr (int (2 * p + 2))"
  using assms by (auto simp: cint_def INT_MIN_def INT_MAX_def hp_limit_def)

lemma hp_read_score:
  "hp_rep h xs vs r \<Longrightarrow>
   (if i < length xs then bindE (vget (hp_values h) (int i)) (\<lambda>v. Inr (Some v)) else Inr None) = Inr (score xs i)"
  using hp_vget [of h xs vs r i] by (auto simp: score_def hp_rep_def)

lemma hp_down_rep:
  assumes "hp_rep h xs vs r" "p < length xs" "length xs \<le> hp_limit" "s = score xs p"
  shows "\<exists>h'. hp_down h (int p) s = Inr h' \<and> hp_rep h' (sift_down fst xs p) vs r \<and> hp_el_sz h' = hp_el_sz h"
  using assms
proof (induction "length xs - p" arbitrary: h xs p rule: less_induct)
  case less
  let ?c = "big_child fst xs p"
  have size: "hp_size h = int (length xs)" using less.prems(1) by (simp add: hp_rep_def)
  have unfold: "hp_down h (int p) s =
      (if s \<ge> score xs (2 * p + 1) \<and> s \<ge> score xs (2 * p + 2) then Inr h
       else if score xs (2 * p + 1) \<ge> score xs (2 * p + 2)
       then bindE (assertE (2 * p + 1 < length xs)) (\<lambda>_.
            bindE (hp_swap h (int p) (int (2 * p + 1))) (\<lambda>heap. hp_down heap (int (2 * p + 1)) s))
       else bindE (assertE (2 * p + 2 < length xs)) (\<lambda>_.
            bindE (hp_swap h (int p) (int (2 * p + 2))) (\<lambda>heap. hp_down heap (int (2 * p + 2)) s)))"
    by (subst hp_down.simps)
      (simp only: hp_child_ints [OF less.prems(2,3)] hp_read_score [OF less.prems(1)] bindE.simps
        size of_nat_less_iff less.prems(2) if_True)
  show ?case
  proof (cases rule: big_child_cases [OF less.prems(2), of fst])
    case 1
    then show ?thesis using less.prems unfold big_child_scores [OF less.prems(2)]
      by (subst sift_down.simps) (auto split: if_splits)
  next
    case 2
    obtain h' where h': "hp_swap h (int p) (int ?c) = Inr h'" "hp_rep h' (swp xs p ?c) vs r" "hp_el_sz h' = hp_el_sz h"
      using hp_swap_rep [OF less.prems(1,2) 2(2)] by blast
    have "s = score (swp xs p ?c) ?c" using less.prems 2 by (simp add: score_def nth_swp)
    moreover have "hp_down h (int p) s = hp_down h' (int ?c) s"
      using unfold h'(1) 2 big_child_scores [OF less.prems(2)] less.prems(4)
      by (auto split: if_splits)
    ultimately show ?thesis
      using less.hyps [of "swp xs p ?c" ?c h'] h' less.prems 2
      by (subst sift_down.simps) (simp add: Let_def)
  qed
qed

text \<open>\<open>maxheapify\<close> makes the same choices.\<close>

lemma better_child_rep:
  assumes "hp_rep h xs vs r" "b < length xs"
  shows "better_child h (int c) (int b) = Inr (int (bigger fst xs c b))"
  using hp_vget [OF assms(1), of c] hp_vget [OF assms] assms(1)
  by (auto simp: better_child_def bigger_def hp_rep_def)

lemma maxheapify_rep:
  assumes "hp_rep h xs vs r" "p < length xs" "length xs \<le> hp_limit"
  shows "\<exists>h'. maxheapify h (int p) = Inr h' \<and> hp_rep h' (sift_down fst xs p) vs r \<and> hp_el_sz h' = hp_el_sz h"
  using assms
proof (induction "length xs - p" arbitrary: h xs p rule: less_induct)
  case less
  let ?c = "big_child fst xs p"
  have lt: "bigger fst xs (2 * p + 1) p < length xs" using less.prems(2) by (simp add: bigger_def)
  have unfold: "maxheapify h (int p) =
      (if ?c \<noteq> p then bindE (hp_swap h (int p) (int ?c)) (\<lambda>heap. maxheapify heap (int ?c)) else Inr h)"
    by (subst maxheapify.simps)
      (simp only: hp_child_ints [OF less.prems(2,3)] better_child_rep [OF less.prems(1)] less.prems(2) lt bindE.simps
        big_child_def of_nat_eq_iff)
  show ?case
  proof (cases rule: big_child_cases [OF less.prems(2), of fst])
    case 1
    then show ?thesis using less.prems unfold by (subst sift_down.simps) simp
  next
    case 2
    obtain h' where h': "hp_swap h (int p) (int ?c) = Inr h'" "hp_rep h' (swp xs p ?c) vs r" "hp_el_sz h' = hp_el_sz h"
      using hp_swap_rep [OF less.prems(1,2) 2(2)] by blast
    then show ?thesis
      using less.hyps [of "swp xs p ?c" ?c h'] less.prems 2 unfold
      by (subst sift_down.simps) (simp add: Let_def)
  qed
qed

lemma hp_rebuild_rep:
  assumes "hp_rep h xs vs r" "n \<le> length xs" "length xs \<le> hp_limit"
  shows "\<exists>h'. hp_rebuild h (int n - 1) = Inr h' \<and> hp_rep h' (heapify fst xs n) vs r \<and> hp_el_sz h' = hp_el_sz h"
  using assms
proof (induction n arbitrary: h xs)
  case 0
  then show ?case by (subst hp_rebuild.simps) simp
next
  case (Suc n)
  obtain h' where "maxheapify h (int n) = Inr h'" "hp_rep h' (sift_down fst xs n) vs r" "hp_el_sz h' = hp_el_sz h"
    using maxheapify_rep [OF Suc.prems(1), of n] Suc.prems by auto
  with Suc.IH [of h' "sift_down fst xs n"] Suc.prems show ?case by (subst hp_rebuild.simps) simp
qed

subsection \<open>Adding and removing\<close>

lemma hp_grow_ok:
  assumes "0 \<le> a" "a < c" "c \<le> 2 ^ 30"
  shows "\<exists>n. hp_grow a c = Inr n \<and> c \<le> n \<and> n \<le> max 16 (2 * c - 1)"
  using assms
proof (induction a c rule: hp_grow.induct)
  case (1 a c)
  have base: "c \<le> n \<Longrightarrow> hp_grow n c = Inr n" for n by (subst hp_grow.simps) simp
  show ?case
  proof (cases "a < MIN_CAPACITY")
    case True
    then have "hp_grow a c = hp_grow MIN_CAPACITY c" using "1.prems"(2) by (subst hp_grow.simps) simp
    moreover have "MIN_CAPACITY < c \<Longrightarrow> \<exists>n. hp_grow MIN_CAPACITY c = Inr n \<and> c \<le> n \<and> n \<le> max 16 (2 * c - 1)"
      using "1.IH"(1) [OF "1.prems"(2) True] "1.prems"(3) by (simp add: MIN_CAPACITY_def)
    ultimately show ?thesis using base [of MIN_CAPACITY] by (cases "MIN_CAPACITY < c") (auto simp: MIN_CAPACITY_def)
  next
    case False
    have i: "cint (a * 2) = Inr (a * 2)" using "1.prems" by (intro cint_ok) (auto simp: INT_MIN_def INT_MAX_def)
    then have "hp_grow a c = hp_grow (a * 2) c" using False "1.prems"(2) by (subst hp_grow.simps) simp
    moreover have "a * 2 < c \<Longrightarrow> \<exists>n. hp_grow (a * 2) c = Inr n \<and> c \<le> n \<and> n \<le> max 16 (2 * c - 1)"
      using "1.IH"(2) [OF "1.prems"(2) False i] "1.prems" by simp
    ultimately show ?thesis using base [of "a * 2"] "1.prems"(2) by (cases "a * 2 < c") auto
  qed
qed

text \<open>Growing keeps the entries and leaves room for the requested number.\<close>

lemma hp_ensure_rep:
  assumes rep: "hp_rep h xs vs r" and c: "c \<le> 2 ^ 30"
  shows "\<exists>h' vs' r'. zmaxheap_ensure_capacity jv jb h c = Inr h' \<and> hp_rep h' xs vs' r' \<and>
    hp_el_sz h' = hp_el_sz h \<and> c \<le> hp_alloc h'"
proof (cases "c \<le> hp_alloc h")
  case True
  with rep show ?thesis by (auto simp: zmaxheap_ensure_capacity_def)
next
  case False
  let ?w = "hp_el_sz h"
  have a0: "0 \<le> hp_alloc h" using rep by (simp add: hp_rep_def hp_inv_def)
  then obtain n where n: "hp_grow (hp_alloc h) c = Inr n" "c \<le> n" "n \<le> max 16 (2 * c - 1)"
    using hp_grow_ok [of "hp_alloc h" c] False c by auto
  have le: "n \<le> INT_MAX" using n(3) c by (auto simp: INT_MAX_def)
  have len: "length (map fst xs @ vs) \<le> nat n" "length (concat (map snd xs) @ r) \<le> nat n * ?w"
  proof -
    have eq: "length (map fst xs @ vs) = nat (hp_alloc h)" "length (concat (map snd xs) @ r) = nat (hp_alloc h) * ?w"
      using rep by (auto simp: hp_rep_def hp_inv_def)
    have "nat (hp_alloc h) \<le> nat n" using False n(2) by simp
    then show "length (map fst xs @ vs) \<le> nat n" "length (concat (map snd xs) @ r) \<le> nat n * ?w"
      unfolding eq by (simp_all add: mult_le_mono1)
  qed
  have "hp_rep (h\<lparr>hp_values := mem_realloc jv (hp_values h) (nat n),
      hp_data := mem_realloc jb (hp_data h) (nat n * ?w), hp_alloc := n\<rparr>) xs
      (vs @ map jv [length (map fst xs @ vs)..<nat n]) (r @ map jb [length (concat (map snd xs) @ r)..<nat n * ?w])"
    using rep False a0 n(2) le len by (auto simp: hp_rep_def hp_inv_def mem_realloc_def)
  with n(1,2) False show ?thesis by (simp add: zmaxheap_ensure_capacity_def del: length_append) blast
qed

text \<open>An entry behind the last one in use, split off the unused keys and bytes.\<close>

lemma hp_rep_extend:
  assumes rep: "hp_rep h xs vs r" and room: "hp_size h + 1 \<le> hp_alloc h"
  obtains g vs' r' where "vs = fst g # vs'" "r = snd g @ r'" "length (snd g) = hp_el_sz h"
proof -
  let ?w = "hp_el_sz h"
  have eq: "length xs + length vs = nat (hp_alloc h)" "length xs * ?w + length r = nat (hp_alloc h) * ?w"
    using rep by (auto simp: hp_rep_def hp_inv_def length_concat_uniform)
  have "Suc (length xs) \<le> nat (hp_alloc h)" using room rep by (simp add: hp_rep_def)
  moreover from this have "Suc (length xs) * ?w \<le> nat (hp_alloc h) * ?w" by (rule mult_le_mono1)
  ultimately have len: "length vs \<noteq> 0" "?w \<le> length r" using eq by auto
  then obtain v vs' where vs: "vs = v # vs'" by (cases vs) auto
  show thesis by (rule that [of "(v, take ?w r)" vs' "drop ?w r"]) (use vs len in auto)
qed

lemma mem_write_next:
  assumes "uniform w ps" "length g = w" "length p = w"
  shows "mem_write (concat ps @ g @ r) (int (length ps) * int w) p = Inr (concat (ps @ [p]) @ r)"
  using mem_write_elem [of w "ps @ [g]" p "length ps" r] assms by simp

lemma zmaxheap_add_ok:
  assumes inv: "hp_inv h" and p: "length p = hp_el_sz h" and lim: "length (hp_list h) < hp_limit"
  shows "\<exists>h'. zmaxheap_add jv jb h p (Some v) = Inr h' \<and> hp_inv h' \<and> hp_el_sz h' = hp_el_sz h \<and>
    hp_list h' = sift_up fst (hp_list h @ [(v, p)]) (length (hp_list h))"
proof -
  let ?xs = "hp_list h" and ?w = "hp_el_sz h"
  obtain vs0 r0 where rep0: "hp_rep h ?xs vs0 r0" using inv by (rule hp_inv_rep)
  then have size: "hp_size h = int (length ?xs)" by (simp add: hp_rep_def)
  have i: "cint (hp_size h + 1) = Inr (hp_size h + 1)"
    using size lim by (intro cint_ok) (auto simp: INT_MIN_def INT_MAX_def hp_limit_def)
  obtain h1 vs r where h1: "zmaxheap_ensure_capacity jv jb h (hp_size h + 1) = Inr h1" "hp_rep h1 ?xs vs r"
      "hp_el_sz h1 = ?w" "hp_size h + 1 \<le> hp_alloc h1"
    using hp_ensure_rep [OF rep0, of "hp_size h + 1" jv jb] size lim by (auto simp: hp_limit_def)
  have s1: "hp_size h1 = int (length ?xs)" using h1(2) by (simp add: hp_rep_def)
  obtain g vs' r' where g: "vs = fst g # vs'" "r = snd g @ r'" "length (snd g) = ?w"
    using hp_rep_extend [OF h1(2)] h1(3,4) s1 size by metis
  let ?h2 = "h1\<lparr>hp_values := map fst (?xs @ [(v, p)]) @ vs', hp_data := concat (map snd (?xs @ [(v, p)])) @ r',
      hp_size := int (length ?xs) + 1\<rparr>"
  have u: "uniform ?w (map snd ?xs)" using rep0 by (simp add: hp_rep_def)
  have rep2: "hp_rep ?h2 (?xs @ [(v, p)]) vs' r'"
    using h1 g p size by (auto simp: hp_rep_def hp_inv_def)
  have "zmaxheap_add jv jb h p (Some v) = hp_up ?h2 (int (length ?xs)) v"
    using i h1(1,2) s1 size g p h1(3) mem_write_next [OF u g(3) p, of r'] mem_read_arg [OF p]
    by (simp add: zmaxheap_add_def Let_def hp_rep_def cmem list_update_append)
  moreover obtain h3 where "hp_up ?h2 (int (length ?xs)) v = Inr h3"
      "hp_rep h3 (sift_up fst (?xs @ [(v, p)]) (length ?xs)) vs' r'" "hp_el_sz h3 = hp_el_sz ?h2"
    using hp_up_rep [OF rep2, of "length ?xs" v] by auto
  ultimately show ?thesis using h1(3) by (auto simp: hp_rep_inv hp_rep_list)
qed

text \<open>Removing entry \<open>i\<close>: the last entry takes its place and sinks.\<close>

definition take_out :: "('v::linorder \<times> bytes) list \<Rightarrow> nat \<Rightarrow> ('v \<times> bytes) list" where
  "take_out xs i =
     (if i = length xs - 1 then butlast xs
      else sift_down fst ((butlast xs)[i := last xs]) i)"

lemma take_out_mset:
  assumes "i < length xs"
  shows "mset (take_out xs i) = mset xs - {#xs ! i#}"
proof -
  have ne: "xs \<noteq> []" using assms by auto
  then have xs: "mset xs = add_mset (last xs) (mset (butlast xs))"
    by (metis append_butlast_last_id union_mset_add_mset_right add.right_neutral mset.simps mset_append)
  show ?thesis
  proof (cases "i = length xs - 1")
    case True
    then have "xs ! i = last xs" using ne by (simp add: last_conv_nth)
    with True xs show ?thesis by (simp add: take_out_def)
  next
    case False
    then have i: "i < length (butlast xs)" "butlast xs ! i = xs ! i" using assms by (auto simp: nth_butlast)
    then have "xs ! i \<in># mset (butlast xs)" by (metis nth_mem_mset)
    then show ?thesis using False i xs by (simp add: take_out_def sift_down_mset mset_update)
  qed
qed

text \<open>
  The result is a heap when the entry that fills the gap is not above the gap's parent, in
  particular at the root.
\<close>

lemma take_out_heap:
  assumes h: "heap_on fst xs" and i: "i < length xs"
    and fill: "i = 0 \<or> i = length xs - 1 \<or> fst (last xs) \<le> fst (xs ! par i)"
  shows "heap_on fst (take_out xs i)"
proof (cases "i = length xs - 1")
  case True
  have "fst (butlast xs ! j) \<le> fst (butlast xs ! par j)" if "0 < j" "j < length (butlast xs)" for j
    using h that par_less [of j] by (simp add: heap_on_def nth_butlast)
  with True show ?thesis by (simp add: take_out_def heap_on_def)
next
  case False
  let ?ys = "(butlast xs)[i := last xs]"
  have lt: "i < length ?ys" using False i by simp
  have nth: "?ys ! j = (if j = i then last xs else xs ! j)" if "j < length ?ys" for j
    using that by (simp add: nth_list_update nth_butlast)
  have up: "fst (xs ! j) \<le> fst (xs ! par j)" if "0 < j" "j < length xs" for j
    using h that by (simp add: heap_on_def)
  have "fst (?ys ! j) \<le> fst (?ys ! par j)" if "0 < j" "j < length ?ys" "par j \<noteq> i" for j
    using that nth [of j] nth [of "par j"] par_less [OF that(1)] up [of j] fill False by auto
  moreover have "fst (?ys ! j) \<le> fst (?ys ! par i)" if j: "0 < j" "j < length ?ys" "par j = i" "0 < i" for j
  proof -
    have lt: "i < j" "par i < i" using j par_less by blast+
    have "fst (xs ! j) \<le> fst (xs ! i)" "fst (xs ! i) \<le> fst (xs ! par i)"
      using up [of j] up [of i] j lt by auto
    then have "fst (xs ! j) \<le> fst (xs ! par i)" by (rule order_trans)
    then show ?thesis using nth [of j] nth [of "par i"] lt j(2) by auto
  qed
  ultimately have "heap_hole 0 i fst ?ys" by (simp add: heap_hole_def)
  with lt False show ?thesis using sift_down_heap [of i ?ys 0 fst] by (simp add: take_out_def heap_from_0)
qed

lemma zmaxheap_remove_index_ok:
  assumes inv: "hp_inv h" and i: "i < length (hp_list h)" and lim: "length (hp_list h) \<le> hp_limit"
  shows "\<exists>h'. zmaxheap_remove_index h (int i) wp wv = Inr (h', 1,
      if wv then Some (fst (hp_list h ! i)) else None, if wp then Some (snd (hp_list h ! i)) else None) \<and>
    hp_inv h' \<and> hp_el_sz h' = hp_el_sz h \<and> hp_list h' = take_out (hp_list h) i"
proof -
  let ?xs = "hp_list h" and ?w = "hp_el_sz h" and ?n = "length (hp_list h) - 1"
  obtain vs r where rep: "hp_rep h ?xs vs r" using inv by (rule hp_inv_rep)
  then have size: "hp_size h = int (length ?xs)" and u: "uniform ?w (map snd ?xs)"
    and dat: "hp_data h = concat (map snd ?xs) @ r" by (simp_all add: hp_rep_def)
  have n: "?n < length ?xs" "hp_size h - 1 = int ?n" "?xs \<noteq> []" using i size by auto
  have rd: "mem_read (hp_data h) (int j * int ?w) (int ?w) = Inr (snd (?xs ! j))" if "j < length ?xs" for j
    unfolding dat using mem_read_elem [OF u, of j r] that by simp
  have shrink: "hp_rep (h\<lparr>hp_size := int ?n\<rparr>) (butlast ?xs) (map fst (drop ?n ?xs) @ vs)
      (concat (map snd (drop ?n ?xs)) @ r)"
    using hp_rep_shrink [OF rep, of ?n] by (simp add: butlast_conv_take)
  show ?thesis
  proof (cases "i = ?n")
    case True
    then have "zmaxheap_remove_index h (int i) wp wv = Inr (h\<lparr>hp_size := int ?n\<rparr>, 1,
      if wv then Some (fst (?xs ! i)) else None, if wp then Some (snd (?xs ! i)) else None)"
      using i size n(2) rd [OF i] hp_vget [OF rep i] by (simp add: zmaxheap_remove_index_def Let_def)
    then show ?thesis using True hp_rep_inv [OF shrink] hp_rep_list [OF shrink] by (simp add: take_out_def)
  next
    case False
    then have lt: "i < ?n" using i by simp
    let ?ys = "(butlast ?xs)[i := last ?xs]"
    let ?h2 = "h\<lparr>hp_size := int ?n, hp_values := map fst ?ys @ map fst (drop ?n ?xs) @ vs,
      hp_data := concat (map snd ?ys) @ concat (map snd (drop ?n ?xs)) @ r\<rparr>"
    have lst: "?xs ! ?n = last ?xs" using n by (simp add: last_conv_nth)
    have "uniform ?w (map snd ?ys)"
      using shrink uniform_nth [OF u, of ?n] n(1) lst by (simp add: hp_rep_def map_update uniform_update)
    then have rep2: "hp_rep ?h2 ?ys (map fst (drop ?n ?xs) @ vs) (concat (map snd (drop ?n ?xs)) @ r)"
      using hp_rep_replace [OF shrink, of ?ys] by simp
    have sc: "vget (hp_values ?h2) (int i) = Inr (fst (?ys ! i))"
      using hp_vget [OF rep2, of i] lt by simp
    have "Some (fst (?ys ! i)) = score ?ys i" "i < length ?ys" "length ?ys \<le> hp_limit"
      using lt lim by (simp_all add: score_def)
    note down = hp_down_rep [OF rep2 this(2,3,1)]
    have "vset (hp_values h) (int i) (fst (last ?xs)) = Inr (hp_values ?h2)"
      using shrink lt by (simp add: hp_rep_def cmem list_update_append map_update)
    moreover have "mem_write (hp_data h) (int i * int ?w) (snd (last ?xs)) = Inr (hp_data ?h2)"
      using shrink lt mem_write_elem [of ?w "map snd (butlast ?xs)" "snd (last ?xs)" i
          "concat (map snd (drop ?n ?xs)) @ r"] uniform_nth [OF u, of ?n] n(1) lst
      by (simp add: hp_rep_def map_update)
    moreover have "mem_read (hp_data h) (int ?w * int ?n) (int ?w) = Inr (snd (last ?xs))"
      using rd [OF n(1)] lst by (simp add: mult.commute)
    moreover have "vget (hp_values h) (int ?n) = Inr (fst (last ?xs))"
      using hp_vget [OF rep n(1)] lst by simp
    moreover from down obtain h3 where h3: "hp_down ?h2 (int i) (Some (fst (?ys ! i))) = Inr h3"
        "hp_rep h3 (sift_down fst ?ys i) (map fst (drop ?n ?xs) @ vs) (concat (map snd (drop ?n ?xs)) @ r)"
        "hp_el_sz h3 = ?w"
      by auto
    ultimately have "zmaxheap_remove_index h (int i) wp wv = Inr (h3, 1,
      if wv then Some (fst (?xs ! i)) else None, if wp then Some (snd (?xs ! i)) else None)"
      using i size n(2) lt rd [OF i] hp_vget [OF rep i] sc
      by (simp add: zmaxheap_remove_index_def Let_def not_le i)
    then show ?thesis using False hp_rep_inv [OF h3(2)] hp_rep_list [OF h3(2)] h3(3) by (simp add: take_out_def)
  qed
qed

lemma zmaxheap_remove_max_empty:
  "hp_inv h \<Longrightarrow> hp_list h = [] \<Longrightarrow> zmaxheap_remove_max h wp wv = Inr (h, 0, None, None)"
  using hp_size_list [of h] by (simp add: zmaxheap_remove_max_def zmaxheap_remove_index_def)

text \<open>The heap invariant, and that each operation keeps it.\<close>

definition hp_ok :: "'v::linorder zmaxheap \<Rightarrow> bool" where
  "hp_ok h \<longleftrightarrow> hp_inv h \<and> heap_on fst (hp_list h)"

lemma hp_ok_inv: "hp_ok h \<Longrightarrow> hp_inv h"
  by (simp add: hp_ok_def)

lemma zmaxheap_create_ok: "hp_ok (zmaxheap_create w) \<and> hp_list (zmaxheap_create w) = [] \<and> hp_el_sz (zmaxheap_create w) = w"
  by (simp add: hp_ok_def hp_inv_def hp_list_def zmaxheap_create_def heap_on_def INT_MAX_def chunks_def)

lemma zmaxheap_add_heap:
  assumes "hp_ok h" "length p = hp_el_sz h" "length (hp_list h) < hp_limit"
  shows "\<exists>h'. zmaxheap_add jv jb h p (Some v) = Inr h' \<and> hp_ok h' \<and> hp_el_sz h' = hp_el_sz h \<and>
    mset (hp_list h') = add_mset (v, p) (mset (hp_list h))"
proof -
  let ?xs = "hp_list h"
  have "heap_above (length ?xs) fst (?xs @ [(v, p)])"
    using assms(1) unfolding heap_above_def hp_ok_def heap_on_def
    by (auto simp: nth_append less_Suc_eq dest: par_less)
  then have "heap_on fst (sift_up fst (?xs @ [(v, p)]) (length ?xs))" by (intro sift_up_heap) auto
  moreover have "mset (sift_up fst (?xs @ [(v, p)]) (length ?xs)) = add_mset (v, p) (mset ?xs)"
    using sift_up_mset [of "length ?xs" "?xs @ [(v, p)]" fst] by simp
  ultimately show ?thesis using zmaxheap_add_ok [OF _ assms(2,3), of jv jb v] assms(1) by (auto simp: hp_ok_def)
qed

lemma zmaxheap_remove_max_heap:
  assumes "hp_ok h" "hp_list h \<noteq> []" "length (hp_list h) \<le> hp_limit"
  shows "\<exists>h' v p. zmaxheap_remove_max h True True = Inr (h', 1, Some v, Some p) \<and> hp_ok h' \<and>
    hp_el_sz h' = hp_el_sz h \<and> mset (hp_list h) = add_mset (v, p) (mset (hp_list h')) \<and>
    (\<forall>e \<in> set (hp_list h). fst e \<le> v)"
proof -
  let ?xs = "hp_list h"
  have 0: "0 < length ?xs" using assms(2) by simp
  obtain h' where "zmaxheap_remove_index h 0 True True = Inr (h', 1, Some (fst (?xs ! 0)), Some (snd (?xs ! 0)))"
      "hp_inv h'" "hp_el_sz h' = hp_el_sz h" "hp_list h' = take_out ?xs 0"
    using zmaxheap_remove_index_ok [OF _ 0 assms(3), of True True] assms(1) by (auto simp: hp_ok_def)
  moreover have "heap_on fst (take_out ?xs 0)" using assms(1) 0 by (intro take_out_heap) (auto simp: hp_ok_def)
  moreover have "fst e \<le> fst (?xs ! 0)" if "e \<in> set ?xs" for e
    using heap_root [of fst ?xs] assms(1) that by (auto simp: in_set_conv_nth hp_ok_def)
  moreover have "mset ?xs = add_mset (?xs ! 0) (mset (take_out ?xs 0))"
    using 0 by (simp add: take_out_mset)
  ultimately show ?thesis by (auto simp: zmaxheap_remove_max_def hp_ok_def)
qed

text \<open>Removal at an inner index: exactly when the result is a heap.\<close>

lemma take_out_heap_iff:
  assumes h: "heap_on fst xs" and i: "i < length xs"
  shows "heap_on fst (take_out xs i) \<longleftrightarrow> i = 0 \<or> i = length xs - 1 \<or> fst (last xs) \<le> fst (xs ! par i)"
proof
  assume t: "heap_on fst (take_out xs i)"
  show "i = 0 \<or> i = length xs - 1 \<or> fst (last xs) \<le> fst (xs ! par i)"
  proof (rule ccontr)
    assume n: "\<not> ?thesis"
    let ?ys = "(butlast xs)[i := last xs]"
    have lt: "i < length ?ys" "par i < i" using n i par_less [of i] by auto
    have nth: "?ys ! i = last xs" "?ys ! par i = xs ! par i" using lt by (simp_all add: nth_butlast)
    have kid: "fst (?ys ! j) \<le> fst (?ys ! i)" if "0 < j" "j < length ?ys" "par j = i" for j
    proof -
      have "i < j" using that par_less [of j] by simp
      then have "fst (xs ! j) \<le> fst (xs ! i)" "fst (xs ! i) \<le> fst (xs ! par i)"
        using h that n lt by (auto simp: heap_on_def)
      then have "fst (xs ! j) \<le> fst (last xs)" using n by auto
      then show ?thesis using nth \<open>i < j\<close> that(2) by (simp add: nth_butlast)
    qed
    have "big_child fst ?ys i = i"
    proof (cases rule: big_child_cases [OF lt(1), of fst])
      case 2
      then have "fst (?ys ! big_child fst ?ys i) \<le> fst (?ys ! i)" by (intro kid) auto
      with 2 show ?thesis by simp
    qed
    then have "take_out xs i = ?ys" using n unfolding take_out_def by (subst sift_down.simps) simp
    then show False using t n lt nth unfolding heap_on_def by (metis neq0_conv)
  qed
qed (use take_out_heap [OF assms] in blast)

subsection \<open>Iterating\<close>

lemma hp_iter_keep_ok:
  assumes rep: "hp_rep h ys vs r" and io: "i < length ys" "out \<le> i" and lim: "length ys \<le> hp_limit"
  shows "\<exists>h'. hp_iter_keep h \<lparr>it_in = int i, it_out = int out\<rparr> = Inr (h', \<lparr>it_in = int (i + 1), it_out = int (out + 1)\<rparr>) \<and>
    hp_rep h' (ys[out := ys ! i]) vs r \<and> hp_el_sz h' = hp_el_sz h"
proof -
  let ?w = "hp_el_sz h" and ?ys = "ys[out := ys ! i]"
  have u: "uniform ?w (map snd ys)" and dat: "hp_data h = concat (map snd ys) @ r" using rep by (simp_all add: hp_rep_def)
  have ints: "cint (int i + 1) = Inr (int (i + 1))" "cint (int out + 1) = Inr (int (out + 1))"
    using io lim by (auto simp: cint_def INT_MIN_def INT_MAX_def hp_limit_def)
  have len: "length (snd (ys ! i)) = ?w" using uniform_nth [OF u, of i] io by simp
  have "uniform ?w (map snd ?ys)" using u len by (simp add: map_update uniform_update)
  then have rep': "hp_rep (h\<lparr>hp_values := map fst ?ys @ vs, hp_data := concat (map snd ?ys) @ r\<rparr>) ?ys vs r"
    using rep by (intro hp_rep_replace) auto
  show ?thesis
  proof (cases "i = out")
    case True
    then show ?thesis using ints rep by (simp add: hp_iter_keep_def Let_def)
  next
    case False
    have "mem_read (hp_data h) (int i * int ?w) (int ?w) = Inr (snd (ys ! i))"
      unfolding dat using mem_read_elem [OF u, of i r] io by simp
    moreover have "mem_write (hp_data h) (int out * int ?w) (snd (ys ! i)) = Inr (concat (map snd ?ys) @ r)"
      unfolding dat using mem_write_elem [OF u len, of out r] io by (simp add: map_update)
    moreover have "vset (hp_values h) (int out) (fst (ys ! i)) = Inr (map fst ?ys @ vs)"
      using rep io by (simp add: hp_rep_def cmem list_update_append map_update)
    ultimately show ?thesis using ints rep' False hp_vget [OF rep io(1)] by (simp add: hp_iter_keep_def Let_def)
  qed
qed

lemma zmaxheap_iterator_next_ok:
  assumes rep: "hp_rep h ys vs r" and io: "i < length ys" "out \<le> i" and lim: "length ys \<le> hp_limit"
  shows "\<exists>h'. zmaxheap_iterator_next h \<lparr>it_in = int i, it_out = int out\<rparr> =
      Inr (h', \<lparr>it_in = int (i + 1), it_out = int (out + 1)\<rparr>, Some (ys ! i)) \<and>
    hp_rep h' (ys[out := ys ! i]) vs r \<and> hp_el_sz h' = hp_el_sz h"
proof -
  have "mem_read (hp_data h) (int i * int (hp_el_sz h)) (int (hp_el_sz h)) = Inr (snd (ys ! i))"
    using rep mem_read_elem [of "hp_el_sz h" "map snd ys" i r] io by (simp add: hp_rep_def)
  moreover have "\<not> hp_size h \<le> int i" using rep io by (simp add: hp_rep_def)
  ultimately show ?thesis using hp_iter_keep_ok [OF assms] hp_vget [OF rep io(1)]
    by (auto simp: zmaxheap_iterator_next_def zmaxheap_size_def)
qed

text \<open>
  While the iterator runs, the entries before \<open>out\<close> are the kept ones of those visited, and
  those from \<open>in\<close> on are untouched.
\<close>

lemma hp_filter_from_ok:
  assumes "hp_rep h ys vs r" "length ys \<le> hp_limit" "i \<le> length ys" "length ys = length xs"
    and "take (length (filter keep (take i xs))) ys = filter keep (take i xs)" "drop i ys = drop i xs"
    and "length xs - i < n"
  shows "\<exists>h' zs. hp_filter_from keep h \<lparr>it_in = int i, it_out = int (length (filter keep (take i xs)))\<rparr> n =
      Inr (h', \<lparr>it_in = int (length xs), it_out = int (length (filter keep xs))\<rparr>) \<and>
    hp_rep h' zs vs r \<and> hp_el_sz h' = hp_el_sz h \<and> length zs = length xs \<and>
    take (length (filter keep xs)) zs = filter keep xs"
  using assms
proof (induction n arbitrary: h ys i)
  case (Suc n)
  let ?o = "length (filter keep (take i xs))"
  have ole: "?o \<le> i" using length_filter_le [of keep "take i xs"] by simp
  show ?case
  proof (cases "i < length ys")
    case True
    let ?ys = "ys[?o := ys ! i]"
    obtain h' where h': "zmaxheap_iterator_next h \<lparr>it_in = int i, it_out = int ?o\<rparr> =
        Inr (h', \<lparr>it_in = int (i + 1), it_out = int (?o + 1)\<rparr>, Some (ys ! i))"
        "hp_rep h' ?ys vs r" "hp_el_sz h' = hp_el_sz h"
      using zmaxheap_iterator_next_ok [OF Suc.prems(1) True ole Suc.prems(2)] by blast
    have e: "ys ! i = xs ! i" using Suc.prems(3,4,6) True by (metis hd_drop_conv_nth)
    have tk: "take (Suc i) xs = take i xs @ [xs ! i]" using True Suc.prems(4) by (simp add: take_Suc_conv_app_nth)
    have d: "drop (Suc i) ?ys = drop (Suc i) xs" using Suc.prems(6) ole
      by (metis drop_Suc drop_update_cancel le_imp_less_Suc tl_drop)
    have new: "take (length (filter keep (take (Suc i) xs))) ?ys = filter keep (take (Suc i) xs)"
      using Suc.prems(5) True ole e by (simp add: tk take_Suc_conv_app_nth)
    have rm: "cint (int (?o + 1) - 1) = Inr (int ?o)"
      using ole True Suc.prems(2) by (simp add: cint_def INT_MIN_def INT_MAX_def hp_limit_def)
    have "hp_filter_from keep h \<lparr>it_in = int i, it_out = int ?o\<rparr> (Suc n) =
        hp_filter_from keep h' \<lparr>it_in = int (Suc i), it_out = int (length (filter keep (take (Suc i) xs)))\<rparr> n"
      using rm by (simp add: h'(1) tk e zmaxheap_iterator_remove_def add.commute)
    with Suc.IH [OF h'(2) _ _ _ new d] Suc.prems True h'(3) show ?thesis by simp
  next
    case False
    then have "i = length xs" using Suc.prems by simp
    moreover from this have "zmaxheap_iterator_next h \<lparr>it_in = int i, it_out = int ?o\<rparr> =
        Inr (h, \<lparr>it_in = int i, it_out = int ?o\<rparr>, None)"
      using Suc.prems(1,4) by (simp add: zmaxheap_iterator_next_def zmaxheap_size_def hp_rep_def)
    ultimately show ?thesis using Suc.prems(1,4,5) by (intro exI [of _ h] exI [of _ ys]) simp
  qed
qed simp

lemma zmaxheap_iterator_finish_ok:
  assumes rep: "hp_rep h zs vs r" and n: "n < length zs" "length zs \<le> hp_limit"
  shows "\<exists>h'. zmaxheap_iterator_finish h \<lparr>it_in = int (length zs), it_out = int n\<rparr> = Inr h' \<and> hp_ok h' \<and>
    hp_el_sz h' = hp_el_sz h \<and> mset (hp_list h') = mset (take n zs)"
proof -
  have len: "length (take n zs) = n" using n by simp
  note shrink = hp_rep_shrink [OF rep less_imp_le [OF n(1)]]
  obtain h' where h': "hp_rebuild (h\<lparr>hp_size := int n\<rparr>) (int (n div 2) - 1) = Inr h'"
      "hp_rep h' (heapify fst (take n zs) (n div 2)) (map fst (drop n zs) @ vs) (concat (map snd (drop n zs)) @ r)"
      "hp_el_sz h' = hp_el_sz h"
    using hp_rebuild_rep [OF shrink, of "n div 2"] n by auto
  have "int n sdiv 2 = int (n div 2)" by (simp add: signed_divide_int_def sgn_if zdiv_int)
  moreover have "heap_on fst (heapify fst (take n zs) (n div 2)) \<and>
      mset (heapify fst (take n zs) (n div 2)) = mset (take n zs)"
  proof (rule heapify_ok)
    show "heap_from (n div 2) fst (take n zs)" using heap_from_half [of "take n zs" fst] unfolding len .
  qed (unfold len, simp)
  ultimately show ?thesis using h' n
    by (simp add: zmaxheap_iterator_finish_def hp_ok_def hp_rep_inv hp_rep_list)
qed

subsection \<open>The priority-queue interface\<close>

text \<open>
  What a client of the heap relies on, as multisets. \<open>drain\<close> is the loop the header
  recommends, \<open>while (zmaxheap_remove_max(...)) { }\<close>, collecting what it takes out.
\<close>

fun drain :: "('q \<Rightarrow> cerr + 'q \<times> 'e option) \<Rightarrow> nat \<Rightarrow> 'q \<Rightarrow> cerr + 'e list" where
  "drain remove 0 q = Inl Diverges"
| "drain remove (Suc n) q =
     bindE (remove q) (\<lambda>(q, e). case e of None \<Rightarrow> Inr [] | Some x \<Rightarrow>
     bindE (drain remove n q) (\<lambda>xs. Inr (x # xs)))"

locale priority_queue =
  fixes new :: "nat \<Rightarrow> 'q" and add :: "'q \<Rightarrow> 'v::linorder \<times> bytes \<Rightarrow> cerr + 'q"
    and remove :: "'q \<Rightarrow> cerr + 'q \<times> ('v \<times> bytes) option"
    and contents :: "'q \<Rightarrow> ('v \<times> bytes) multiset" and width :: "'q \<Rightarrow> nat" and inv :: "'q \<Rightarrow> bool" and limit :: nat
  assumes new_ok: "inv (new w) \<and> width (new w) = w \<and> contents (new w) = {#}"
    and add_ok: "inv q \<Longrightarrow> length (snd e) = width q \<Longrightarrow> size (contents q) < limit \<Longrightarrow>
      \<exists>q'. add q e = Inr q' \<and> inv q' \<and> width q' = width q \<and> contents q' = add_mset e (contents q)"
    and remove_None: "inv q \<Longrightarrow> contents q = {#} \<Longrightarrow> remove q = Inr (q, None)"
    and remove_Some: "inv q \<Longrightarrow> contents q \<noteq> {#} \<Longrightarrow> size (contents q) \<le> limit \<Longrightarrow>
      \<exists>q' e. remove q = Inr (q', Some e) \<and> inv q' \<and> contents q = add_mset e (contents q') \<and>
        (\<forall>d \<in># contents q. fst d \<le> fst e)"
begin

lemma add_list:
  assumes "inv q" "uniform (width q) (map snd es)" "size (contents q) + length es \<le> limit"
  shows "\<exists>q'. foldE add es q = Inr q' \<and> inv q' \<and> contents q' = contents q + mset es"
  using assms
proof (induction es arbitrary: q)
  case (Cons e es)
  then obtain q' where q': "add q e = Inr q'" "inv q'" "width q' = width q" "contents q' = add_mset e (contents q)"
    using add_ok [of q e] by auto
  with Cons.IH [of q'] Cons.prems show ?case by simp
qed simp

lemma drain_sorted:
  assumes "inv q" "size (contents q) \<le> limit" "size (contents q) < n"
  shows "\<exists>es. drain remove n q = Inr es \<and> mset es = contents q \<and> sorted_wrt (\<lambda>a b. fst b \<le> fst a) es"
  using assms
proof (induction n arbitrary: q)
  case (Suc n)
  show ?case
  proof (cases "contents q = {#}")
    case True
    then show ?thesis using remove_None Suc.prems(1) by simp
  next
    case False
    then obtain q' e where q': "remove q = Inr (q', Some e)" "inv q'" "contents q = add_mset e (contents q')"
        "\<forall>d \<in># contents q. fst d \<le> fst e"
      using remove_Some [OF Suc.prems(1)] Suc.prems(2) by blast
    moreover obtain es where "drain remove n q' = Inr es" "mset es = contents q'" "sorted_wrt (\<lambda>a b. fst b \<le> fst a) es"
      using Suc.IH [OF q'(2)] Suc.prems q'(3) by auto
    ultimately show ?thesis by (auto simp flip: set_mset_mset)
  qed
qed simp

lemma sorts:
  assumes "uniform w (map snd es)" "length es \<le> limit"
  shows "\<exists>out. bindE (foldE add es (new w)) (drain remove (length es + 1)) = Inr out \<and>
    mset out = mset es \<and> sorted_wrt (\<lambda>a b. fst b \<le> fst a) out"
proof -
  obtain q where "foldE add es (new w) = Inr q" "inv q" "contents q = mset es"
    using add_list [of "new w" es] new_ok [of w] assms by auto
  with drain_sorted [of q "length es + 1"] assms(2) show ?thesis by auto
qed

end

text \<open>One call of \<open>zmaxheap_remove_max\<close> with both out-pointers given: what it stored, if it returned 1.\<close>

definition hp_take_max :: "'v::linorder zmaxheap \<Rightarrow> cerr + 'v zmaxheap \<times> ('v \<times> bytes) option" where
  "hp_take_max h = bindE (zmaxheap_remove_max h True True) (\<lambda>(h', ret, v, p).
     Inr (h', if ret = 0 then None else Some (the v, the p)))"

interpretation hp: priority_queue zmaxheap_create "\<lambda>h e. zmaxheap_add jv jb h (snd e) (Some (fst e))"
  hp_take_max "\<lambda>h. mset (hp_list h)" hp_el_sz hp_ok hp_limit for jv jb
proof
  fix h :: "'a zmaxheap" and e :: "'a \<times> bytes"
  assume "hp_ok h" "length (snd e) = hp_el_sz h" "size (mset (hp_list h)) < hp_limit"
  then show "\<exists>h'. zmaxheap_add jv jb h (snd e) (Some (fst e)) = Inr h' \<and> hp_ok h' \<and> hp_el_sz h' = hp_el_sz h \<and>
      mset (hp_list h') = add_mset e (mset (hp_list h))"
    using zmaxheap_add_heap [of h "snd e" jv jb "fst e"] by simp
next
  fix h :: "'a zmaxheap"
  assume h: "hp_ok h" "mset (hp_list h) \<noteq> {#}" "size (mset (hp_list h)) \<le> hp_limit"
  then obtain h' v p where "zmaxheap_remove_max h True True = Inr (h', 1, Some v, Some p)" "hp_ok h'"
      "mset (hp_list h) = add_mset (v, p) (mset (hp_list h'))" "\<forall>e \<in> set (hp_list h). fst e \<le> v"
    using zmaxheap_remove_max_heap [of h] by auto
  then show "\<exists>h' e. hp_take_max h = Inr (h', Some e) \<and> hp_ok h' \<and> mset (hp_list h) = add_mset e (mset (hp_list h')) \<and>
      (\<forall>d \<in># mset (hp_list h). fst d \<le> fst e)"
    by (intro exI [of _ h'] exI [of _ "(v, p)"]) (simp add: hp_take_max_def flip: set_mset_mset)
qed (simp_all add: zmaxheap_create_ok hp_take_max_def zmaxheap_remove_max_empty hp_ok_inv)

subsection \<open>Properties\<close>

text \<open>C24: Adding any entries to a new heap, up to its size limit, and then removing the maximum until the heap reports
  that it is empty returns every entry once, in descending order of the keys; no step fails.\<close>

theorem zmaxheap_sorts:
  assumes "uniform w (map snd es)" "length es \<le> hp_limit"
  shows "\<exists>out. bindE (foldE (\<lambda>h e. zmaxheap_add jv jb h (snd e) (Some (fst e))) es (zmaxheap_create w))
      (drain hp_take_max (length es + 1)) = Inr out \<and>
    mset out = mset es \<and> sorted_wrt (\<lambda>a b. fst b \<le> fst a) out"
  by (rule hp.sorts [OF assms])

lemma zmaxheap_sorts_witness:
  "\<exists>out. bindE (foldE (\<lambda>h e. zmaxheap_add (\<lambda>_. 0) (\<lambda>_. 0) h (snd e) (Some (fst e))) [(3, [1]), (7, [2]), (5::int, [3])]
      (zmaxheap_create 1)) (drain hp_take_max (length [(3::int, [1::u8]), (7, [2]), (5, [3])] + 1)) = Inr out \<and>
    mset out = mset [(3, [1]), (7, [2]), (5, [3])] \<and> sorted_wrt (\<lambda>a b. fst b \<le> fst a) out"
  by (rule zmaxheap_sorts) (simp_all add: hp_limit_def)

text \<open>Visiting a heap with the iterator, removing the entries a test rejects and finishing, leaves a heap again
  that holds exactly the other entries.\<close>

theorem zmaxheap_filter_correct:
  assumes "hp_ok h" "length (hp_list h) \<le> hp_limit"
  shows "\<exists>h'. hp_filter keep h = Inr h' \<and> hp_ok h' \<and> mset (hp_list h') = filter_mset keep (mset (hp_list h))"
proof -
  let ?xs = "hp_list h" and ?m = "length (filter keep (hp_list h))"
  obtain vs r where rep: "hp_rep h ?xs vs r" using assms(1) hp_inv_rep by (auto simp: hp_ok_def)
  then have size: "nat (hp_size h) = length ?xs" by (simp add: hp_rep_def)
  obtain h' zs where h': "hp_filter_from keep h zmaxheap_iterator_init (nat (hp_size h) + 1) =
      Inr (h', \<lparr>it_in = int (length ?xs), it_out = int ?m\<rparr>)" "hp_rep h' zs vs r" "length zs = length ?xs"
      "take ?m zs = filter keep ?xs"
    using hp_filter_from_ok [OF rep assms(2), of 0 ?xs keep "nat (hp_size h) + 1"] size
    by (auto simp: zmaxheap_iterator_init_def)
  show ?thesis
  proof (cases "?m = length ?xs")
    case True
    then have "filter keep ?xs = ?xs" by (metis filter_id_conv length_filter_less linorder_not_le order_refl)
    then have "hp_ok h'" "mset (hp_list h') = mset (filter keep ?xs)"
      using assms(1) h' True hp_rep_inv [OF h'(2)] hp_rep_list [OF h'(2)] by (simp_all add: hp_ok_def)
    then show ?thesis using h'(1) True by (simp add: hp_filter_def zmaxheap_iterator_finish_def)
  next
    case False
    then have "?m < length zs" unfolding h'(3) by (intro le_neq_implies_less length_filter_le)
    from zmaxheap_iterator_finish_ok [OF h'(2) this] assms(2) h' show ?thesis by (auto simp: hp_filter_def)
  qed
qed

lemma zmaxheap_filter_correct_witness:
  "let h = \<lparr>hp_el_sz = 1, hp_size = 3, hp_alloc = 4, hp_values = [9, 5, 7, 0::int], hp_data = [1, 2, 3, 0],
      hp_swapper = SwapDefault\<rparr> in
   \<exists>h'. hp_filter (\<lambda>e. fst e < 9) h = Inr h' \<and> hp_ok h' \<and> mset (hp_list h') = filter_mset (\<lambda>e. fst e < 9) (mset (hp_list h))"
  unfolding Let_def
  by (rule zmaxheap_filter_correct)
    (simp_all add: hp_ok_def hp_inv_def hp_list_def heap_on_code par_def hp_limit_def INT_MAX_def sizeof_ptr_def chunks_def)

text \<open>Removing an entry below the root leaves a heap exactly when it is the last one or the last one is not above
  the removed entry's parent: \<open>zmaxheap_remove_index\<close> only sinks the entry that fills the gap and never
  raises it.\<close>

theorem zmaxheap_remove_index_heap:
  assumes "hp_ok h" "0 < i" "i < length (hp_list h)" "length (hp_list h) \<le> hp_limit"
  shows "\<exists>h'. zmaxheap_remove_index h (int i) False False = Inr (h', 1, None, None) \<and>
    mset (hp_list h') = mset (hp_list h) - {#hp_list h ! i#} \<and>
    (hp_ok h' \<longleftrightarrow> i = length (hp_list h) - 1 \<or> fst (last (hp_list h)) \<le> fst (hp_list h ! ((i - 1) div 2)))"
  using zmaxheap_remove_index_ok [of h i False False] take_out_mset [OF assms(3)]
    take_out_heap_iff [of "hp_list h" i] assms
  by (auto simp: hp_ok_def par_def)

lemma zmaxheap_remove_index_heap_witness:
  "let h = \<lparr>hp_el_sz = 1, hp_size = 7, hp_alloc = 8, hp_values = [9, 1, 8, 0, 0, 7, 6, 0::int],
      hp_data = [1, 2, 3, 4, 5, 6, 7, 0], hp_swapper = SwapDefault\<rparr> in
   \<exists>h'. zmaxheap_remove_index h (int 3) False False = Inr (h', 1, None, None) \<and>
    mset (hp_list h') = mset (hp_list h) - {#hp_list h ! 3#} \<and>
    (hp_ok h' \<longleftrightarrow> 3 = length (hp_list h) - 1 \<or> fst (last (hp_list h)) \<le> fst (hp_list h ! ((3 - 1) div 2)))"
  unfolding Let_def
  by (rule zmaxheap_remove_index_heap)
    (simp_all add: hp_ok_def hp_inv_def hp_list_def heap_on_code par_def hp_limit_def INT_MAX_def sizeof_ptr_def chunks_def)

text \<open>The two implementations of sinking a node agree: the loop inlined in \<open>zmaxheap_remove_index\<close>, which
  compares scores with \<open>-INFINITY\<close> for a missing child, and the recursion of \<open>maxheapify\<close>.\<close>

theorem down_equals_maxheapify:
  assumes "hp_inv h" "p < length (hp_list h)" "length (hp_list h) \<le> hp_limit"
  shows "hp_down h (int p) (Some (fst (hp_list h ! p))) = maxheapify h (int p)"
proof -
  obtain vs r where rep: "hp_rep h (hp_list h) vs r" using assms(1) by (rule hp_inv_rep)
  obtain a where a: "hp_down h (int p) (Some (fst (hp_list h ! p))) = Inr a"
      "hp_rep a (sift_down fst (hp_list h) p) vs r" "hp_el_sz a = hp_el_sz h"
    using hp_down_rep [OF rep assms(2,3)] assms(2) by (auto simp: score_def)
  obtain b where b: "maxheapify h (int p) = Inr b" "hp_rep b (sift_down fst (hp_list h) p) vs r" "hp_el_sz b = hp_el_sz h"
    using maxheapify_rep [OF rep assms(2,3)] by auto
  have "hp_alloc a = hp_alloc b"
    using a(2) b(2) unfolding hp_rep_def hp_inv_def by (metis int_nat_eq order_trans)
  then have "a = b" using a b by (cases a; cases b) (simp add: hp_rep_def hp_inv_def)
  with a(1) b(1) show ?thesis by simp
qed

lemma down_equals_maxheapify_witness:
  "let h = \<lparr>hp_el_sz = 1, hp_size = 3, hp_alloc = 4, hp_values = [2, 5, 7, 0::int], hp_data = [1, 2, 3, 0],
      hp_swapper = SwapDefault\<rparr> in
   hp_down h (int 0) (Some (fst (hp_list h ! 0))) = maxheapify h (int 0)"
  unfolding Let_def
  by (rule down_equals_maxheapify)
    (simp_all add: hp_ok_def hp_inv_def hp_list_def heap_on_code par_def hp_limit_def INT_MAX_def sizeof_ptr_def chunks_def)

end
