(* ===== verification/ZHash.thy ===== *)
theory ZHash
  imports Probing ZArray
begin

text \<open>
  The hash table of \<open>common/zhash.c\<close>. An entry of the table, in C a valid byte followed by
  \<open>keysz\<close> and \<open>valuesz\<close> bytes at offset \<open>index * entrysz\<close>, is a record of the three; the
  table is the list of its \<open>nentries\<close> entries, of which the code keeps the number a power of two so that
  \<open>& (nentries - 1)\<close> walks round it. Pointers into an entry are its index. The tables
  considered take less than 2 GiB, so that the products \<open>index * entrysz\<close> do not overflow.
  The hash and equality functions are the caller's; the locale \<open>key_functions\<close> states what
  the table needs of them and the ones the library supplies interpret it.
\<close>

record zslot =
  zs_valid :: bool
  zs_key :: bytes
  zs_value :: bytes

record zhash =
  zh_keysz :: nat
  zh_valuesz :: nat
  zh_entrysz :: int
  zh_hash :: "bytes \<Rightarrow> u32"
  zh_equals :: "bytes \<Rightarrow> bytes \<Rightarrow> bool"
  zh_size :: int
  zh_nentries :: int
  zh_entries :: "zslot list"

definition ZHASH_FACTOR_CRITICAL :: int where
  "ZHASH_FACTOR_CRITICAL = 2"

definition ZHASH_FACTOR_REALLOC :: int where
  "ZHASH_FACTOR_REALLOC = 4"

text \<open>A zeroed entry, as \<open>calloc\<close> and \<open>memset\<close> leave it.\<close>

definition zero_slot :: "nat \<Rightarrow> nat \<Rightarrow> zslot" where
  "zero_slot keysz valuesz =
     \<lparr>zs_valid = False, zs_key = replicate keysz 0, zs_value = replicate valuesz 0\<rparr>"

text \<open>The rounding to a power of two in \<open>zhash_create_capacity\<close>.\<close>

function zh_pow2 :: "int \<Rightarrow> int \<Rightarrow> cerr + int" where
  "zh_pow2 nentries want =
     (if 0 < nentries \<and> nentries < want then bindE (cint (nentries * 2)) (\<lambda>n. zh_pow2 n want)
      else Inr nentries)"
  by pat_completeness auto
termination
  by (relation "measure (\<lambda>(n, want). nat (want - n))") auto

declare zh_pow2.simps [simp del]

definition zhash_create_capacity ::
  "nat \<Rightarrow> nat \<Rightarrow> (bytes \<Rightarrow> u32) \<Rightarrow> (bytes \<Rightarrow> bytes \<Rightarrow> bool) \<Rightarrow> int \<Rightarrow> cerr + zhash" where
  "zhash_create_capacity keysz valuesz hash equals capacity =
     bindE (cint (ZHASH_FACTOR_REALLOC * capacity)) (\<lambda>n0.
     let want = (if n0 < 8 then 8 else n0) in
     bindE (if want AND (want - 1) \<noteq> 0 then zh_pow2 8 want else Inr want) (\<lambda>nentries.
     Inr \<lparr>zh_keysz = keysz, zh_valuesz = valuesz, zh_entrysz = 1 + int keysz + int valuesz,
          zh_hash = hash, zh_equals = equals, zh_size = 0, zh_nentries = nentries,
          zh_entries = replicate (nat nentries) (zero_slot keysz valuesz)\<rparr>))"

definition zhash_create ::
  "nat \<Rightarrow> nat \<Rightarrow> (bytes \<Rightarrow> u32) \<Rightarrow> (bytes \<Rightarrow> bytes \<Rightarrow> bool) \<Rightarrow> cerr + zhash" where
  "zhash_create keysz valuesz hash equals = zhash_create_capacity keysz valuesz hash equals 8"

definition zhash_size :: "zhash \<Rightarrow> int" where
  "zhash_size zh = zh_size zh"

definition zhash_clear :: "zhash \<Rightarrow> zhash" where
  "zhash_clear zh =
     zh\<lparr>zh_entries := replicate (length (zh_entries zh)) (zero_slot (zh_keysz zh) (zh_valuesz zh)),
        zh_size := 0\<rparr>"

text \<open>\<open>code & (nentries - 1)\<close> and \<open>(entry_idx + 1) & (nentries - 1)\<close> on \<open>uint32_t\<close>.\<close>

definition zh_mask :: "int \<Rightarrow> u32 \<Rightarrow> nat" where
  "zh_mask nentries code = unat (code AND word_of_int (nentries - 1))"

definition zh_next :: "zhash \<Rightarrow> nat \<Rightarrow> nat" where
  "zh_next zh i = zh_mask (zh_nentries zh) (of_nat i + 1)"

text \<open>The search loop shared by lookup, insertion and removal: to a free entry or to the key.\<close>

definition zh_probe :: "zhash \<Rightarrow> bytes \<Rightarrow> cerr + nat" where
  "zh_probe zh key =
     probe (nat (zh_nentries zh)) (zh_next zh) (\<lambda>e. \<not> zs_valid e \<or> zh_equals zh key (zs_key e))
       (zh_entries zh) (zh_mask (zh_nentries zh) (zh_hash zh key))"

text \<open>The index of the entry whose value \<open>zhash_get_volatile\<close> points to, if it returns 1.\<close>

definition zhash_get_volatile :: "zhash \<Rightarrow> bytes \<Rightarrow> cerr + nat option" where
  "zhash_get_volatile zh key =
     bindE (zh_probe zh key) (\<lambda>i.
     bindE (arr_get (zh_entries zh) i) (\<lambda>e.
     Inr (if zs_valid e then Some i else None)))"

definition zhash_get :: "zhash \<Rightarrow> bytes \<Rightarrow> cerr + bytes option" where
  "zhash_get zh key =
     bindE (zhash_get_volatile zh key) (\<lambda>r.
     case r of
       None \<Rightarrow> Inr None
     | Some i \<Rightarrow> bindE (arr_get (zh_entries zh) i) (\<lambda>e.
                 bindE (mem_read (zs_value e) 0 (int (zh_valuesz zh))) (\<lambda>v. Inr (Some v))))"

definition zhash_contains :: "zhash \<Rightarrow> bytes \<Rightarrow> cerr + int" where
  "zhash_contains zh key = bindE (zhash_get_volatile zh key) (\<lambda>r. Inr (if r = None then 0 else 1))"

text \<open>
  The loop of \<open>zhash_put\<close> and \<open>zhash_copy\<close> that puts every entry of one table into another,
  where none may be present.
\<close>

definition zh_copy_entries ::
  "(zhash \<Rightarrow> bytes \<Rightarrow> bytes \<Rightarrow> cerr + zhash \<times> int \<times> (bytes \<times> bytes) option) \<Rightarrow> zhash \<Rightarrow> zhash \<Rightarrow> cerr + zhash" where
  "zh_copy_entries put zh newhash =
     foldE (\<lambda>new idx.
       bindE (arr_get (zh_entries zh) idx) (\<lambda>e.
       if zs_valid e
       then bindE (put new (zs_key e) (zs_value e)) (\<lambda>(new, ret, _).
            bindE (assertE (ret = 0)) (\<lambda>_. Inr new))
       else Inr new)) [0..<nat (zh_nentries zh)] newhash"

text \<open>
  \<open>zhash_put\<close> calls itself while it grows the table; the first argument bounds the depth of that
  recursion, which never exceeds one. The results are the table, the return value, and
  the previous key and value if there was one.
\<close>

primrec zhash_put_n ::
  "nat \<Rightarrow> zhash \<Rightarrow> bytes \<Rightarrow> bytes \<Rightarrow> cerr + zhash \<times> int \<times> (bytes \<times> bytes) option" where
  "zhash_put_n 0 = (\<lambda>zh key value. Inl Diverges)"
| "zhash_put_n (Suc d) = (\<lambda>zh key value.
     bindE (zh_probe zh key) (\<lambda>i.
     bindE (arr_get (zh_entries zh) i) (\<lambda>e.
     bindE (mem_read key 0 (int (zh_keysz zh))) (\<lambda>k.
     bindE (mem_read value 0 (int (zh_valuesz zh))) (\<lambda>v.
     bindE (arr_set (zh_entries zh) i \<lparr>zs_valid = True, zs_key = k, zs_value = v\<rparr>) (\<lambda>es.
     if zs_valid e then Inr (zh\<lparr>zh_entries := es\<rparr>, 1, Some (zs_key e, zs_value e))
     else
       bindE (cint (zh_size zh + 1)) (\<lambda>size.
       let zh = zh\<lparr>zh_entries := es, zh_size := size\<rparr> in
       bindE (cint (ZHASH_FACTOR_CRITICAL * zh_size zh)) (\<lambda>critical.
       if zh_nentries zh < critical
       then bindE (zhash_create_capacity (zh_keysz zh) (zh_valuesz zh) (zh_hash zh) (zh_equals zh) (zh_size zh))
              (\<lambda>newhash. bindE (zh_copy_entries (zhash_put_n d) zh newhash) (\<lambda>newhash. Inr (newhash, 0, None)))
       else Inr (zh, 0, None)))))))))"

definition zhash_put :: "zhash \<Rightarrow> bytes \<Rightarrow> bytes \<Rightarrow> cerr + zhash \<times> int \<times> (bytes \<times> bytes) option" where
  "zhash_put = zhash_put_n 2"

text \<open>Marking an entry as available.\<close>

definition zh_vacate :: "zhash \<Rightarrow> nat \<Rightarrow> cerr + zhash" where
  "zh_vacate zh i =
     bindE (arr_get (zh_entries zh) i) (\<lambda>e.
     bindE (arr_set (zh_entries zh) i (e\<lparr>zs_valid := False\<rparr>)) (\<lambda>es.
     bindE (cint (zh_size zh - 1)) (\<lambda>size.
     Inr (zh\<lparr>zh_entries := es, zh_size := size\<rparr>))))"

text \<open>Re-inserting the consecutive entries from \<open>i\<close> on; the run is shorter than the table.\<close>

fun zh_reinsert :: "nat \<Rightarrow> zhash \<Rightarrow> nat \<Rightarrow> cerr + zhash" where
  "zh_reinsert 0 zh i = Inl Diverges"
| "zh_reinsert (Suc f) zh i =
     bindE (arr_get (zh_entries zh) i) (\<lambda>e.
     if zs_valid e
     then bindE (zh_vacate zh i) (\<lambda>zh.
          bindE (zhash_put zh (zs_key e) (zs_value e)) (\<lambda>(zh, ret, _).
          bindE (assertE (ret = 0)) (\<lambda>_. zh_reinsert f zh (zh_next zh i))))
     else Inr zh)"

definition zhash_remove :: "zhash \<Rightarrow> bytes \<Rightarrow> cerr + zhash \<times> int \<times> (bytes \<times> bytes) option" where
  "zhash_remove zh key =
     bindE (zh_probe zh key) (\<lambda>i.
     bindE (arr_get (zh_entries zh) i) (\<lambda>e.
     if zs_valid e
     then bindE (zh_vacate zh i) (\<lambda>zh.
          bindE (zh_reinsert (nat (zh_nentries zh)) zh (zh_next zh i)) (\<lambda>zh.
          Inr (zh, 1, Some (zs_key e, zs_value e))))
     else Inr (zh, 0, None)))"

definition zhash_copy :: "zhash \<Rightarrow> cerr + zhash" where
  "zhash_copy zh =
     bindE (zhash_create_capacity (zh_keysz zh) (zh_valuesz zh) (zh_hash zh) (zh_equals zh) (zh_size zh)) (\<lambda>newhash.
     zh_copy_entries zhash_put zh newhash)"

subsection \<open>The iterator\<close>

text \<open>\<open>zi_const\<close>: initialised with a const table, so that the pointer for removal is null.\<close>

record zhash_iterator =
  zi_const :: bool
  zi_last :: int

definition zhash_iterator_init :: "zhash_iterator" where
  "zhash_iterator_init = \<lparr>zi_const = False, zi_last = -1\<rparr>"

definition zhash_iterator_init_const :: "zhash_iterator" where
  "zhash_iterator_init_const = \<lparr>zi_const = True, zi_last = -1\<rparr>"

text \<open>The index of the entry whose key and value are pointed to, if it returns 1.\<close>

function zhash_iterator_next_volatile ::
  "zhash \<Rightarrow> zhash_iterator \<Rightarrow> cerr + zhash_iterator \<times> nat option" where
  "zhash_iterator_next_volatile zh zit =
     bindE (cint (zi_last zit + 1)) (\<lambda>i.
     if zh_nentries zh \<le> i then Inr (zit, None)
     else
       let zit = zit\<lparr>zi_last := i\<rparr> in
       bindE (vget (zh_entries zh) (zi_last zit)) (\<lambda>e.
       if zs_valid e then Inr (zit, Some (nat i))
       else zhash_iterator_next_volatile zh zit))"
  by pat_completeness auto
termination
  by (relation "measure (\<lambda>(zh, zit). nat (zh_nentries zh - zi_last zit))") auto

declare zhash_iterator_next_volatile.simps [simp del]

definition zhash_iterator_next ::
  "zhash \<Rightarrow> zhash_iterator \<Rightarrow> cerr + zhash_iterator \<times> (bytes \<times> bytes) option" where
  "zhash_iterator_next zh zit =
     bindE (zhash_iterator_next_volatile zh zit) (\<lambda>(zit, r).
     case r of
       None \<Rightarrow> Inr (zit, None)
     | Some i \<Rightarrow>
         bindE (arr_get (zh_entries zh) i) (\<lambda>e.
         bindE (mem_read (zs_key e) 0 (int (zh_keysz zh))) (\<lambda>k.
         bindE (mem_read (zs_value e) 0 (int (zh_valuesz zh))) (\<lambda>v.
         Inr (zit, Some (k, v))))))"

definition zhash_iterator_remove :: "zhash \<Rightarrow> zhash_iterator \<Rightarrow> cerr + zhash \<times> zhash_iterator" where
  "zhash_iterator_remove zh zit =
     bindE (assertE (\<not> zi_const zit)) (\<lambda>_.
     bindE (vget (zh_entries zh) (zi_last zit)) (\<lambda>_.
     bindE (zh_vacate zh (nat (zi_last zit))) (\<lambda>zh.
     bindE (cint (zi_last zit + 1)) (\<lambda>i.
     bindE (zh_reinsert (nat (zh_nentries zh)) zh (nat (i AND (zh_nentries zh - 1)))) (\<lambda>zh.
     bindE (cint (zi_last zit - 1)) (\<lambda>l.
     Inr (zh, zit\<lparr>zi_last := l\<rparr>)))))))"

text \<open>
  The loops \<open>while (zhash_iterator_next_volatile(...)) ...\<close>: \<open>body\<close> is given the entry, may
  change it through the pointers, and acts on the caller's state.
\<close>

lemma zi_next_advances:
  "zhash_iterator_next_volatile zh zit = Inr (zit', Some i) \<Longrightarrow> zi_last zit < zi_last zit' \<and> zi_last zit' < zh_nentries zh"
proof (induction zh zit rule: zhash_iterator_next_volatile.induct)
  case (1 zh zit)
  obtain j where j: "cint (zi_last zit + 1) = Inr j" "j = zi_last zit + 1" "j < zh_nentries zh"
    using "1.prems" by (subst (asm) zhash_iterator_next_volatile.simps)
      (auto simp: bindE_Inr_iff cint_def split: if_splits)
  obtain e where e: "vget (zh_entries zh) j = Inr e"
    using "1.prems" j by (subst (asm) zhash_iterator_next_volatile.simps) (auto simp: Let_def bindE_Inr_iff del: vget_InrE)
  show ?case
  proof (cases "zs_valid e")
    case True
    then show ?thesis using "1.prems" j e by (subst (asm) zhash_iterator_next_volatile.simps) auto
  next
    case False
    have "zhash_iterator_next_volatile zh (zit\<lparr>zi_last := j\<rparr>) = Inr (zit', Some i)"
      using "1.prems" j e False by (subst (asm) zhash_iterator_next_volatile.simps) simp
    with "1.IH" [OF j(1) _ refl _ False] j e show ?thesis by simp
  qed
qed

function zh_each ::
  "(zslot \<Rightarrow> 's \<Rightarrow> cerr + zslot \<times> 's) \<Rightarrow> zhash \<Rightarrow> zhash_iterator \<Rightarrow> 's \<Rightarrow> cerr + zhash \<times> 's" where
  "zh_each body zh zit s =
     bindE (zhash_iterator_next_volatile zh zit) (\<lambda>(zit, r).
     case r of
       None \<Rightarrow> Inr (zh, s)
     | Some i \<Rightarrow>
         bindE (arr_get (zh_entries zh) i) (\<lambda>e.
         bindE (body e s) (\<lambda>(e, s).
         bindE (arr_set (zh_entries zh) i e) (\<lambda>es.
         zh_each body (zh\<lparr>zh_entries := es\<rparr>) zit s))))"
  by pat_completeness auto
termination
  by (relation "measure (\<lambda>(body, zh, zit, s). nat (zh_nentries zh - zi_last zit))")
    (auto dest!: zi_next_advances)

declare zh_each.simps [simp del]

text \<open>
  The callbacks of the four map functions. \<open>zhash_map_keys\<close> and \<open>zhash_map_values\<close> pass a
  pointer into the entry, whose bytes the callback may rewrite; the \<open>vmap\<close> functions pass the
  pointer stored there.
\<close>

definition zhash_map_keys :: "('s \<Rightarrow> bytes \<Rightarrow> 's \<times> bytes) option \<Rightarrow> zhash \<Rightarrow> 's \<Rightarrow> cerr + zhash \<times> 's" where
  "zhash_map_keys fo zh s =
     (case fo of
        None \<Rightarrow> Inr (zh, s)
      | Some f \<Rightarrow> zh_each (\<lambda>e s. case f s (zs_key e) of (s, k) \<Rightarrow> Inr (e\<lparr>zs_key := k\<rparr>, s)) zh zhash_iterator_init s)"

definition zhash_vmap_keys :: "('s \<Rightarrow> bytes \<Rightarrow> 's) option \<Rightarrow> zhash \<Rightarrow> 's \<Rightarrow> cerr + zhash \<times> 's" where
  "zhash_vmap_keys fo zh s =
     (case fo of
        None \<Rightarrow> Inr (zh, s)
      | Some f \<Rightarrow> zh_each (\<lambda>e s. bindE (mem_read (zs_key e) 0 4) (\<lambda>p. Inr (e, f s p))) zh zhash_iterator_init s)"

definition zhash_map_values :: "('s \<Rightarrow> bytes \<Rightarrow> 's \<times> bytes) option \<Rightarrow> zhash \<Rightarrow> 's \<Rightarrow> cerr + zhash \<times> 's" where
  "zhash_map_values fo zh s =
     (case fo of
        None \<Rightarrow> Inr (zh, s)
      | Some f \<Rightarrow> zh_each (\<lambda>e s. case f s (zs_value e) of (s, v) \<Rightarrow> Inr (e\<lparr>zs_value := v\<rparr>, s)) zh zhash_iterator_init s)"

definition zhash_vmap_values :: "('s \<Rightarrow> bytes \<Rightarrow> 's) option \<Rightarrow> zhash \<Rightarrow> 's \<Rightarrow> cerr + zhash \<times> 's" where
  "zhash_vmap_values fo zh s =
     (case fo of
        None \<Rightarrow> Inr (zh, s)
      | Some f \<Rightarrow> zh_each (\<lambda>e s. bindE (mem_read (zs_value e) 0 4) (\<lambda>p. Inr (e, f s p))) zh zhash_iterator_init s)"

definition zhash_keys :: "(nat \<Rightarrow> u8) \<Rightarrow> zhash \<Rightarrow> cerr + zarray" where
  "zhash_keys junk zh =
     bindE (zarray_create (zh_keysz zh)) (\<lambda>za.
     bindE (zh_each (\<lambda>e za. bindE (zarray_add junk za (zs_key e)) (\<lambda>za. Inr (e, za))) zh zhash_iterator_init_const za)
       (\<lambda>(_, za). Inr za))"

definition zhash_values :: "(nat \<Rightarrow> u8) \<Rightarrow> zhash \<Rightarrow> cerr + zarray" where
  "zhash_values junk zh =
     bindE (zarray_create (zh_valuesz zh)) (\<lambda>za.
     bindE (zh_each (\<lambda>e za. bindE (zarray_add junk za (zs_value e)) (\<lambda>za. Inr (e, za))) zh zhash_iterator_init_const za)
       (\<lambda>(_, za). Inr za))"

subsection \<open>The supplied hash and equality functions\<close>

text \<open>Little-endian loads of the key bytes.\<close>

definition key_u32 :: "bytes \<Rightarrow> u32" where
  "key_u32 a = word_rcat (rev (take 4 a))"

definition key_u64 :: "bytes \<Rightarrow> u64" where
  "key_u64 a = word_rcat (rev (take 8 a))"

definition zhash_uint32_hash :: "bytes \<Rightarrow> u32" where
  "zhash_uint32_hash a = key_u32 a"

definition zhash_uint32_equals :: "bytes \<Rightarrow> bytes \<Rightarrow> bool" where
  "zhash_uint32_equals a b = (key_u32 a = key_u32 b)"

definition zhash_uint64_hash :: "bytes \<Rightarrow> u32" where
  "zhash_uint64_hash a = ucast (key_u64 a XOR drop_bit 32 (key_u64 a))"

definition zhash_uint64_equals :: "bytes \<Rightarrow> bytes \<Rightarrow> bool" where
  "zhash_uint64_equals a b = (key_u64 a = key_u64 b)"

text \<open>Pointers have four bytes on the ESP32; the union reads them as a \<open>uint32_t\<close>.\<close>

definition zhash_ptr_hash :: "bytes \<Rightarrow> u32" where
  "zhash_ptr_hash a = (let hash = key_u32 a in hash XOR drop_bit 7 hash)"

definition zhash_ptr_equals :: "bytes \<Rightarrow> bytes \<Rightarrow> bool" where
  "zhash_ptr_equals a b = (key_u32 a = key_u32 b)"

definition zhash_int_hash :: "bytes \<Rightarrow> u32" where
  "zhash_int_hash a = word_of_int (sint (key_u32 a))"

definition zhash_int_equals :: "bytes \<Rightarrow> bytes \<Rightarrow> bool" where
  "zhash_int_equals a b = (sint (key_u32 a) = sint (key_u32 b))"

text \<open>
  String keys are pointers: \<open>str\<close> gives the characters up to the terminator at an address. A
  \<open>char\<close> is unsigned on the ESP32.
\<close>

fun str_hash_from :: "u32 \<Rightarrow> bytes \<Rightarrow> u32" where
  "str_hash_from hash [] = hash"
| "str_hash_from hash (c # cs) =
     (let hash = hash + (push_bit 1 hash + push_bit 4 hash + push_bit 7 hash + push_bit 8 hash + push_bit 24 hash)
      in str_hash_from (hash XOR ucast c) cs)"

definition zhash_str_hash :: "(u32 \<Rightarrow> bytes) \<Rightarrow> bytes \<Rightarrow> u32" where
  "zhash_str_hash str a = str_hash_from 0 (str (key_u32 a))"

definition zhash_str_equals :: "(u32 \<Rightarrow> bytes) \<Rightarrow> bytes \<Rightarrow> bytes \<Rightarrow> bool" where
  "zhash_str_equals str a b = (str (key_u32 a) = str (key_u32 b))"

subsection \<open>Powers of two\<close>

lemma zh_mask_less: "0 < n \<Longrightarrow> zh_mask (int n) code < n"
proof -
  assume n: "0 < n"
  define w where "w = (word_of_int (int n - 1) :: u32)"
  have "uint w \<le> int n - 1"
    unfolding w_def uint_word_of_int using n by (intro zmod_le_nonneg_dividend) simp
  then have "int (unat w) < int n" by simp
  moreover have "unat (code AND w) \<le> unat w" by (metis word_and_le1 word_le_nat_alt)
  ultimately show ?thesis unfolding zh_mask_def w_def [symmetric] by linarith
qed

lemma zh_mask_pow2: "zh_mask (2 ^ m) code = unat code mod 2 ^ m"
proof -
  have "(word_of_int (2 ^ m - 1) :: u32) = mask m" by (simp add: mask_eq_exp_minus_1)
  then have "zh_mask (2 ^ m) code = unat (take_bit m code)" by (simp add: zh_mask_def take_bit_eq_mask)
  also have "\<dots> = take_bit m (unat code)" by (rule unsigned_take_bit_eq)
  finally show ?thesis by (simp only: take_bit_eq_mod)
qed

lemma zh_mask_next:
  assumes "i < 2 ^ m" "m \<le> 30"
  shows "zh_mask (2 ^ m) (of_nat i + 1) = round_next (2 ^ m) i"
proof -
  have "(2::nat) ^ m \<le> 2 ^ 30" using assms(2) by (intro power_increasing) auto
  then have "unat (of_nat (i + 1) :: u32) = i + 1" using assms(1) by (intro of_nat_inverse [OF refl]) simp
  then show ?thesis using round_next_mod [OF assms(1)] by (simp add: zh_mask_pow2 add.commute)
qed

lemma and_pred_pow2: "0 < w \<Longrightarrow> w AND (w - 1) = 0 \<Longrightarrow> \<exists>m. w = 2 ^ m" for w :: int
proof (induction "nat w" arbitrary: w rule: less_induct)
  case less
  define v where "v = w div 2"
  show ?case
  proof (cases "even w")
    case True
    then have w: "w = 2 * v" by (simp add: v_def)
    have "w AND (w - 1) = 2 * (v AND (v - 1))"
    proof -
      have "(2 * v - 1) div 2 = v - 1" by simp
      then show ?thesis using w by (subst and_rec) simp
    qed
    then have "v AND (v - 1) = 0" using less.prems(2) by simp
    with less.hyps [of v] less.prems(1) w obtain m where "v = 2 ^ m" by auto
    then show ?thesis using w by (intro exI [of _ "Suc m"]) simp
  next
    case False
    then have w: "w = 2 * v + 1" by (simp add: v_def)
    then have "w AND (w - 1) = 2 * v" by (subst and_rec) simp
    then show ?thesis using less.prems(2) w by (intro exI [of _ 0]) simp
  qed
qed

lemma zh_pow2_ok:
  "k \<le> 30 \<Longrightarrow> want \<le> 2 ^ 30 \<Longrightarrow> \<exists>m. zh_pow2 (2 ^ k) want = Inr (2 ^ m) \<and> want \<le> 2 ^ m \<and> k \<le> m \<and> m \<le> 30"
proof (induction "30 - k" arbitrary: k)
  case 0
  then have "k = 30" by simp
  with 0 show ?case by (subst zh_pow2.simps) (auto intro: exI [of _ 30])
next
  case (Suc d)
  show ?case
  proof (cases "2 ^ k < want")
    case True
    have "(2::int) ^ Suc k \<le> 2 ^ 30" using Suc.hyps(2) by (intro power_increasing) auto
    then have "cint (2 ^ k * 2) = Inr (2 ^ Suc k)" by (simp add: cint_def INT_MIN_def INT_MAX_def order_trans [OF _ zero_le_power])
    then have "zh_pow2 (2 ^ k) want = zh_pow2 (2 ^ Suc k) want" using True by (subst zh_pow2.simps) simp
    with Suc.hyps(1) [of "Suc k"] Suc.hyps(2) Suc.prems show ?thesis by (metis Suc_leD Suc_leI diff_Suc_Suc Suc_diff_Suc diff_diff_cancel le_add_diff_inverse2 nat.inject not_less_eq_eq zero_less_Suc zero_less_diff)
  next
    case False
    with Suc.prems show ?thesis by (subst zh_pow2.simps) auto
  qed
qed

definition zh_limit :: nat where
  "zh_limit = 2 ^ 28"

lemma zhash_create_capacity_ok:
  assumes "0 \<le> capacity" "capacity \<le> int zh_limit"
  obtains m where "3 \<le> m" "m \<le> 30" "4 * capacity \<le> 2 ^ m"
    "zhash_create_capacity keysz valuesz hash equals capacity = Inr \<lparr>zh_keysz = keysz, zh_valuesz = valuesz,
       zh_entrysz = 1 + int keysz + int valuesz, zh_hash = hash, zh_equals = equals, zh_size = 0,
       zh_nentries = 2 ^ m, zh_entries = replicate (2 ^ m) (zero_slot keysz valuesz)\<rparr>"
proof -
  define want where "want = (if 4 * capacity < 8 then 8 else 4 * capacity)"
  have c: "cint (ZHASH_FACTOR_REALLOC * capacity) = Inr (4 * capacity)"
    using assms by (simp add: cint_def INT_MIN_def INT_MAX_def ZHASH_FACTOR_REALLOC_def zh_limit_def)
  have want: "8 \<le> want" "want \<le> 2 ^ 30" "4 * capacity \<le> want" using assms by (auto simp: want_def zh_limit_def)
  have "\<exists>m. (if want AND (want - 1) \<noteq> 0 then zh_pow2 8 want else Inr want) = Inr (2 ^ m) \<and> want \<le> 2 ^ m \<and> 3 \<le> m \<and> m \<le> 30"
  proof (cases "want AND (want - 1) = 0")
    case True
    with want obtain m where m: "want = 2 ^ m" using and_pred_pow2 [of want] by auto
    have "(2::int) ^ 3 \<le> 2 ^ m" "(2::int) ^ m \<le> 2 ^ 30" using want m by simp_all
    then have "3 \<le> m" "m \<le> 30" by (simp_all only: power_increasing_iff rel_simps)
    with True m show ?thesis by auto
  next
    case False
    with zh_pow2_ok [of 3 want] want(2) show ?thesis by simp
  qed
  then obtain m where m: "(if want AND (want - 1) \<noteq> 0 then zh_pow2 8 want else Inr want) = Inr (2 ^ m)"
    "want \<le> 2 ^ m" "3 \<le> m" "m \<le> 30" by blast
  have n: "nat ((2::int) ^ m) = 2 ^ m" by (simp add: nat_power_eq)
  have "4 * capacity \<le> 2 ^ m" using want(3) m(2) by linarith
  with m(3,4) show thesis
    by (rule that) (simp only: zhash_create_capacity_def c bindE.simps Let_def want_def [symmetric] m(1) n)
qed

subsection \<open>The table as a map\<close>

text \<open>
  \<open>can\<close> maps key bytes to the key they denote, \<open>hk\<close> hashes the denoted key. The entries in use
  are a bag; with distinct keys the bag is a finite map.
\<close>

definition zh_key :: "(bytes \<Rightarrow> 'k) \<Rightarrow> zslot \<Rightarrow> 'k" where
  "zh_key can e = can (zs_key e)"

definition zh_home :: "('k \<Rightarrow> u32) \<Rightarrow> nat \<Rightarrow> 'k \<Rightarrow> nat" where
  "zh_home hk n k = zh_mask (int n) (hk k)"

interpretation zp: probing zs_valid "zh_key can" "zh_home hk" for can hk
  by unfold_locales (simp add: zh_home_def zh_mask_less)

definition zh_bag :: "zhash \<Rightarrow> zslot multiset" where
  "zh_bag zh = pr_bag zs_valid (zh_entries zh)"

lemma zh_bag_update [simp]:
  "zh_bag (zh\<lparr>zh_entries := es\<rparr>) = pr_bag zs_valid es" "zh_bag (zh\<lparr>zh_size := s\<rparr>) = zh_bag zh"
  by (simp_all add: zh_bag_def)

definition zh_lookup :: "(bytes \<Rightarrow> 'k) \<Rightarrow> ('k \<Rightarrow> u32) \<Rightarrow> zhash \<Rightarrow> 'k \<Rightarrow> zslot option" where
  "zh_lookup can hk zh = pr_get zs_valid (zh_key can) (zh_home hk) (zh_entries zh)"

definition zh_map :: "(bytes \<Rightarrow> 'k) \<Rightarrow> ('k \<Rightarrow> u32) \<Rightarrow> zhash \<Rightarrow> 'k \<Rightarrow> (bytes \<times> bytes) option" where
  "zh_map can hk zh k = map_option (\<lambda>e. (zs_key e, zs_value e)) (zh_lookup can hk zh k)"

text \<open>The layout, without a bound on the load; \<open>zh_inv\<close> adds that the table is at most half full.\<close>

definition zh_fits :: "zhash \<Rightarrow> zslot \<Rightarrow> bool" where
  "zh_fits zh e \<longleftrightarrow> zs_valid e \<and> length (zs_key e) = zh_keysz zh \<and> length (zs_value e) = zh_valuesz zh"

definition zh_wf :: "(bytes \<Rightarrow> 'k) \<Rightarrow> ('k \<Rightarrow> u32) \<Rightarrow> zhash \<Rightarrow> bool" where
  "zh_wf can hk zh \<longleftrightarrow>
     (\<exists>m. 3 \<le> m \<and> m \<le> 30 \<and> zh_nentries zh = 2 ^ m \<and> length (zh_entries zh) = 2 ^ m) \<and>
     zh_size zh = int (size (zh_bag zh)) \<and> size (zh_bag zh) < length (zh_entries zh) \<and>
     pr_wf zs_valid (zh_key can) (zh_home hk) (zh_entries zh) \<and> pr_distinct (zh_key can) (zh_bag zh) \<and>
     (\<forall>e \<in># zh_bag zh. zh_fits zh e)"

definition zh_inv :: "(bytes \<Rightarrow> 'k) \<Rightarrow> ('k \<Rightarrow> u32) \<Rightarrow> zhash \<Rightarrow> bool" where
  "zh_inv can hk zh \<longleftrightarrow> zh_wf can hk zh \<and> 2 * zh_size zh \<le> zh_nentries zh"

lemma zh_wf_entries:
  assumes "zh_wf can hk zh"
  obtains m y where "m \<le> 30" "zh_nentries zh = 2 ^ m" "length (zh_entries zh) = 2 ^ m" "nat (zh_nentries zh) = 2 ^ m"
    "y < length (zh_entries zh)" "\<not> zs_valid (zh_entries zh ! y)"
proof -
  obtain m where m: "m \<le> 30" "zh_nentries zh = 2 ^ m" "length (zh_entries zh) = 2 ^ m"
    using assms by (auto simp: zh_wf_def)
  obtain y where "y < length (zh_entries zh)" "\<not> zs_valid (zh_entries zh ! y)"
    using assms pr_bag_room [of zs_valid "zh_entries zh"] by (auto simp: zh_wf_def zh_bag_def)
  with m show thesis using that by (simp add: nat_power_eq)
qed

lemma zh_lookup_iff:
  assumes "zh_wf can hk zh"
  shows "zh_lookup can hk zh k = Some e \<longleftrightarrow> e \<in># zh_bag zh \<and> zh_key can e = k"
proof -
  obtain y where "y < length (zh_entries zh)" "\<not> zs_valid (zh_entries zh ! y)" using assms by (rule zh_wf_entries)
  note zp.get_distinct [OF _ this, of can hk k e]
  moreover have "pr_wf zs_valid (zh_key can) (zh_home hk) (zh_entries zh)"
    "pr_distinct (zh_key can) (pr_bag zs_valid (zh_entries zh))"
    using assms by (simp_all add: zh_wf_def zh_bag_def)
  ultimately show ?thesis by (simp add: zh_lookup_def zh_bag_def)
qed

lemma zh_lookup_None:
  "zh_wf can hk zh \<Longrightarrow> zh_lookup can hk zh k = None \<longleftrightarrow> (\<forall>e \<in># zh_bag zh. zh_key can e \<noteq> k)"
  using zh_lookup_iff [of can hk zh k] by (metis not_None_eq)

text \<open>Two tables with bags that differ by one entry differ by one point as maps.\<close>

lemma zh_map_add:
  assumes "zh_wf can hk zh" "zh_wf can hk zh'"
    and "zh_bag zh' = add_mset e (filter_mset (\<lambda>x. zh_key can x \<noteq> zh_key can e) (zh_bag zh))"
  shows "zh_map can hk zh' = (zh_map can hk zh)(zh_key can e \<mapsto> (zs_key e, zs_value e))"
proof
  fix k
  show "zh_map can hk zh' k = ((zh_map can hk zh)(zh_key can e \<mapsto> (zs_key e, zs_value e))) k"
  proof (cases "k = zh_key can e")
    case True
    then have "zh_lookup can hk zh' k = Some e" using zh_lookup_iff [OF assms(2)] assms(3) by simp
    with True show ?thesis by (simp add: zh_map_def)
  next
    case False
    then have "zh_lookup can hk zh' k = Some x \<longleftrightarrow> zh_lookup can hk zh k = Some x" for x
      using zh_lookup_iff [OF assms(1)] zh_lookup_iff [OF assms(2)] assms(3) by auto
    then have "zh_lookup can hk zh' k = zh_lookup can hk zh k" by (metis not_None_eq)
    with False show ?thesis by (simp add: zh_map_def)
  qed
qed

lemma zh_map_remove:
  assumes "zh_wf can hk zh" "zh_wf can hk zh'" "zh_bag zh' = filter_mset (\<lambda>x. zh_key can x \<noteq> k) (zh_bag zh)"
  shows "zh_map can hk zh' = (zh_map can hk zh)(k := None)"
proof
  fix j
  have "zh_lookup can hk zh' j = Some x \<longleftrightarrow> zh_lookup can hk zh j = Some x \<and> j \<noteq> k" for x
    using zh_lookup_iff [OF assms(1)] zh_lookup_iff [OF assms(2)] assms(3) by auto
  then have "zh_lookup can hk zh' j = (if j = k then None else zh_lookup can hk zh j)" by (metis not_None_eq)
  then show "zh_map can hk zh' j = ((zh_map can hk zh)(k := None)) j" by (simp add: zh_map_def)
qed

text \<open>What the table needs of the caller's functions: equality is equality of the denoted keys, on which the hash depends.\<close>

locale key_functions =
  fixes hash :: "bytes \<Rightarrow> u32" and equals :: "bytes \<Rightarrow> bytes \<Rightarrow> bool" and can :: "bytes \<Rightarrow> 'k" and hk :: "'k \<Rightarrow> u32"
  assumes equals_can: "equals a b \<longleftrightarrow> can a = can b" and hash_can: "hash a = hk (can a)"
begin

definition uses :: "zhash \<Rightarrow> bool" where
  "uses zh \<longleftrightarrow> zh_hash zh = hash \<and> zh_equals zh = equals"

lemma probe_find:
  assumes "zh_wf can hk zh" "uses zh"
  shows "zh_probe zh key = pr_find zs_valid (zh_key can) (zh_home hk) (zh_entries zh) (can key)"
proof -
  obtain m where m: "m \<le> 30" "zh_nentries zh = 2 ^ m" "length (zh_entries zh) = 2 ^ m" "nat (zh_nentries zh) = 2 ^ m"
    using assms(1) by (rule zh_wf_entries)
  have stop: "(\<lambda>e. \<not> zs_valid e \<or> equals key (zs_key e)) = (\<lambda>e. \<not> zs_valid e \<or> zh_key can e = can key)"
    by (auto simp: equals_can zh_key_def)
  have home: "zh_home hk (2 ^ m) (can key) = zh_mask (2 ^ m) (hash key)"
    by (simp add: zh_home_def hash_can)
  have "probe (2 ^ m) (zh_next zh) stop' (zh_entries zh) (zh_mask (2 ^ m) (hash key)) =
      probe (2 ^ m) (round_next (2 ^ m)) stop' (zh_entries zh) (zh_mask (2 ^ m) (hash key))" for stop'
  proof (rule probe_cong_next)
    show "zh_next zh i = round_next (2 ^ m) i" if "i < length (zh_entries zh)" for i
      using that m by (simp add: zh_next_def zh_mask_next)
    show "round_next (2 ^ m) i < length (zh_entries zh)" if "i < length (zh_entries zh)" for i
      using that m round_next_less by simp
    show "zh_mask (2 ^ m) (hash key) < length (zh_entries zh)" using m zh_mask_less [of "2 ^ m"] by simp
  qed
  moreover have "nat ((2::int) ^ m) = 2 ^ m" by (simp add: nat_power_eq)
  moreover have "zh_hash zh = hash" "zh_equals zh = equals" using assms(2) by (simp_all add: uses_def)
  ultimately show ?thesis by (simp only: zh_probe_def pr_find_def m(2,3) stop home)
qed

lemma probe_cases:
  assumes wf: "zh_wf can hk zh" and u: "uses zh"
  obtains (found) j where "zh_probe zh key = Inr j" "j < length (zh_entries zh)" "zs_valid (zh_entries zh ! j)"
      "zh_key can (zh_entries zh ! j) = can key" "zh_lookup can hk zh (can key) = Some (zh_entries zh ! j)"
  | (free) j where "zh_probe zh key = Inr j" "j < length (zh_entries zh)" "\<not> zs_valid (zh_entries zh ! j)"
      "zh_lookup can hk zh (can key) = None"
      "\<And>z. z < length (zh_entries zh) \<Longrightarrow>
         dist (length (zh_entries zh)) (zh_home hk (length (zh_entries zh)) (can key)) z
           < dist (length (zh_entries zh)) (zh_home hk (length (zh_entries zh)) (can key)) j \<Longrightarrow> zs_valid (zh_entries zh ! z)"
proof -
  let ?t = "zh_entries zh"
  obtain y where y: "y < length ?t" "\<not> zs_valid (?t ! y)" using wf by (rule zh_wf_entries)
  have pw: "pr_wf zs_valid (zh_key can) (zh_home hk) ?t" using wf by (simp add: zh_wf_def)
  obtain j where j: "pr_find zs_valid (zh_key can) (zh_home hk) ?t (can key) = Inr j" "j < length ?t"
    "zs_valid (?t ! j) \<and> zh_key can (?t ! j) = can key \<or>
       \<not> zs_valid (?t ! j) \<and> (\<forall>x < length ?t. zs_valid (?t ! x) \<longrightarrow> zh_key can (?t ! x) \<noteq> can key)"
    "\<And>z. z < length ?t \<Longrightarrow> dist (length ?t) (zh_home hk (length ?t) (can key)) z
        < dist (length ?t) (zh_home hk (length ?t) (can key)) j \<Longrightarrow> zs_valid (?t ! z) \<and> zh_key can (?t ! z) \<noteq> can key"
    using zp.find_ok [OF pw y, of "can key"] by blast
  have pr: "zh_probe zh key = Inr j" using probe_find [OF wf u] j(1) by simp
  have lk: "zh_lookup can hk zh (can key) = (if zs_valid (?t ! j) then Some (?t ! j) else None)"
    using j(1) by (simp add: zh_lookup_def pr_get_def)
  show thesis
  proof (cases "zs_valid (?t ! j)")
    case True
    show thesis by (rule found [OF pr j(2)]) (use True j(3) lk in auto)
  next
    case False
    show thesis by (rule free [OF pr j(2) False]) (use False lk j(4) in auto)
  qed
qed

lemma get_ok:
  assumes "zh_inv can hk zh" "uses zh"
  shows "zhash_get zh key = Inr (map_option snd (zh_map can hk zh (can key)))"
proof -
  have wf: "zh_wf can hk zh" using assms(1) by (simp add: zh_inv_def)
  show ?thesis
  proof (cases rule: probe_cases [OF wf assms(2), of key, case_names found free])
    case (found j)
    have "zh_entries zh ! j \<in># zh_bag zh" using found by (auto simp: zh_bag_def pr_bag_iff)
    then have len: "length (zs_value (zh_entries zh ! j)) = zh_valuesz zh" using wf by (auto simp: zh_wf_def zh_fits_def)
    show ?thesis using found mem_read_arg [OF len]
      by (simp add: zhash_get_def zhash_get_volatile_def cmem zh_map_def)
  next
    case (free j)
    then show ?thesis by (simp add: zhash_get_def zhash_get_volatile_def cmem zh_map_def)
  qed
qed

text \<open>What a put of \<open>key\<close> and \<open>value\<close> leaves.\<close>

definition put_post :: "zhash \<Rightarrow> bytes \<Rightarrow> bytes \<Rightarrow> zhash \<Rightarrow> bool" where
  "put_post zh key value zh' \<longleftrightarrow>
     zh_inv can hk zh' \<and> uses zh' \<and> zh_keysz zh' = zh_keysz zh \<and> zh_valuesz zh' = zh_valuesz zh \<and>
     zh_bag zh' = add_mset \<lparr>zs_valid = True, zs_key = key, zs_value = value\<rparr>
       (filter_mset (\<lambda>x. zh_key can x \<noteq> can key) (zh_bag zh))"

lemma put_present:
  assumes inv: "zh_inv can hk zh" and u: "uses zh" and len: "length key = zh_keysz zh" "length value = zh_valuesz zh"
    and e: "zh_lookup can hk zh (can key) = Some e"
  shows "\<exists>zh'. zhash_put_n (Suc d) zh key value = Inr (zh', 1, Some (zs_key e, zs_value e)) \<and> put_post zh key value zh'"
proof -
  let ?t = "zh_entries zh" and ?e = "\<lparr>zs_valid = True, zs_key = key, zs_value = value\<rparr>"
  have wf: "zh_wf can hk zh" using inv by (simp add: zh_inv_def)
  then have dis: "pr_distinct (zh_key can) (zh_bag zh)" by (simp add: zh_wf_def)
  show ?thesis
  proof (cases rule: probe_cases [OF wf u, of key, case_names found free])
    case (found j)
    have je: "?t ! j = e" using found e by simp
    have ein: "e \<in># zh_bag zh" using found je by (auto simp: zh_bag_def pr_bag_iff)
    let ?zh = "zh\<lparr>zh_entries := ?t[j := ?e]\<rparr>"
    have bag: "zh_bag ?zh = add_mset ?e (zh_bag zh - {#e#})"
      using found je by (simp add: zh_bag_def pr_bag_update)
    have filt: "zh_bag zh - {#e#} = filter_mset (\<lambda>x. zh_key can x \<noteq> can key) (zh_bag zh)"
      using pr_distinct_filter [OF dis ein] found(4) je by simp
    have "size (zh_bag ?zh) = size (zh_bag zh)" using bag ein by (simp add: size_Diff_singleton_if size_eq_0_iff_empty)
        (metis Suc_pred empty_not_add_mset insert_DiffM nonempty_has_size)
    moreover have "pr_wf zs_valid (zh_key can) (zh_home hk) (?t[j := ?e])"
      using wf found je by (intro zp.replace_ok) (auto simp: zh_wf_def zh_key_def)
    moreover have "pr_distinct (zh_key can) (zh_bag ?zh)"
      unfolding bag filt using pr_distinct_sub [OF dis multiset_filter_subset]
      by (intro pr_distinct_add) (auto simp: zh_key_def)
    moreover have "\<forall>x \<in># zh_bag ?zh. zh_fits ?zh x"
      using wf len unfolding bag by (auto simp: zh_wf_def zh_fits_def dest: in_diffD)
    ultimately have "zh_inv can hk ?zh" using inv by (simp add: zh_inv_def zh_wf_def)
    then have "put_post zh key value ?zh" using u bag filt by (simp add: put_post_def uses_def)
    moreover have "zhash_put_n (Suc d) zh key value = Inr (?zh, 1, Some (zs_key e, zs_value e))"
      using found je mem_read_arg [OF len(1)] mem_read_arg [OF len(2)] by (simp add: cmem)
    ultimately show ?thesis by blast
  qed (use e in simp)
qed

text \<open>The table with the new entry in place, before it is checked whether it must grow.\<close>

lemma put_absent:
  assumes inv: "zh_inv can hk zh" and u: "uses zh" and len: "length key = zh_keysz zh" "length value = zh_valuesz zh"
    and e: "zh_lookup can hk zh (can key) = None" and lim: "zh_size zh < int zh_limit"
  obtains zh' where "zh_wf can hk zh'" "uses zh'" "zh_keysz zh' = zh_keysz zh" "zh_valuesz zh' = zh_valuesz zh"
    "zh_nentries zh' = zh_nentries zh" "zh_size zh' = zh_size zh + 1"
    "zh_bag zh' = add_mset \<lparr>zs_valid = True, zs_key = key, zs_value = value\<rparr> (zh_bag zh)"
    "\<And>d. zhash_put_n (Suc d) zh key value =
       (if zh_nentries zh' < 2 * zh_size zh'
        then bindE (zhash_create_capacity (zh_keysz zh') (zh_valuesz zh') (zh_hash zh') (zh_equals zh') (zh_size zh'))
               (\<lambda>newhash. bindE (zh_copy_entries (zhash_put_n d) zh' newhash) (\<lambda>newhash. Inr (newhash, 0, None)))
        else Inr (zh', 0, None))"
proof -
  let ?t = "zh_entries zh" and ?e = "\<lparr>zs_valid = True, zs_key = key, zs_value = value\<rparr>"
  have wf: "zh_wf can hk zh" using inv by (simp add: zh_inv_def)
  obtain m y where m: "m \<le> 30" "zh_nentries zh = 2 ^ m" "length ?t = 2 ^ m"
    and y: "y < length ?t" "\<not> zs_valid (?t ! y)" using wf by (rule zh_wf_entries)
  have pw: "pr_wf zs_valid (zh_key can) (zh_home hk) ?t" using wf by (simp add: zh_wf_def)
  show thesis
  proof (cases rule: probe_cases [OF wf u, of key, case_names found free])
    case (free j)
    let ?zh = "zh\<lparr>zh_entries := ?t[j := ?e], zh_size := zh_size zh + 1\<rparr>"
    have h: "zh_home hk (length ?t) (can key) < length ?t" using y(1) by (rule zp.home_bound)
    obtain i where i: "i < length ?t" "\<not> zs_valid (?t ! i)"
      "pr_wf zs_valid (zh_key can) (zh_home hk) (?t[i := ?e])" "pr_bag zs_valid (?t[i := ?e]) = add_mset ?e (pr_bag zs_valid ?t)"
      "\<And>z. z < length ?t \<Longrightarrow> dist (length ?t) (zh_home hk (length ?t) (can key)) z
          < dist (length ?t) (zh_home hk (length ?t) (can key)) i \<Longrightarrow> zs_valid (?t ! z)"
      using zp.insert_ok [OF pw y, of ?e] by (auto simp: zh_key_def)
    have "i = j" using dist_inj [OF h i(1) free(2)] i(2,5) free(2,3,5) by (metis i(1) nat_neq_iff)
    then have b: "pr_bag zs_valid (?t[j := ?e]) = add_mset ?e (zh_bag zh)" using i(4) by (simp add: zh_bag_def)
    then have bag: "zh_bag ?zh = add_mset ?e (zh_bag zh)" by simp
    have dis: "pr_distinct (zh_key can) (zh_bag ?zh)"
      unfolding bag using wf zh_lookup_None [OF wf, of "can key"] e
      by (intro pr_distinct_add) (auto simp: zh_wf_def zh_key_def)
    have sz: "zh_size zh = int (size (zh_bag zh))" "2 * zh_size zh \<le> int (length ?t)" "8 \<le> length ?t"
      using inv m by (auto simp: zh_inv_def zh_wf_def intro: power_increasing [of 3, of _ "2::nat", simplified])
    then have "size (zh_bag zh) + 1 < length ?t" by linarith
    then have "zh_wf can hk ?zh" using wf dis i(3) \<open>i = j\<close> len b
      by (auto simp: zh_wf_def zh_fits_def)
    moreover have "cint (zh_size zh + 1) = Inr (zh_size zh + 1)" "cint (ZHASH_FACTOR_CRITICAL * (zh_size zh + 1)) = Inr (2 * (zh_size zh + 1))"
      using lim sz by (simp_all add: cint_def INT_MIN_def INT_MAX_def ZHASH_FACTOR_CRITICAL_def zh_limit_def)
    ultimately show thesis using that [of ?zh] u bag free mem_read_arg [OF len(1)] mem_read_arg [OF len(2)]
      by (simp add: uses_def cmem Let_def)
  qed (use e in simp)
qed

lemma slot_eta: "zs_valid e \<Longrightarrow> \<lparr>zs_valid = True, zs_key = zs_key e, zs_value = zs_value e\<rparr> = e"
  by simp

lemma bag_replicate: "\<not> zs_valid e \<Longrightarrow> pr_bag zs_valid (replicate n e) = {#}"
  by (induction n) (simp_all add: pr_bag_def)

lemma bag_take_Suc: "n < length t \<Longrightarrow> pr_bag zs_valid (take (Suc n) t) =
    (if zs_valid (t ! n) then add_mset (t ! n) (pr_bag zs_valid (take n t)) else pr_bag zs_valid (take n t))"
  by (simp add: pr_bag_def take_Suc_conv_app_nth)

lemma bag_take_sub: "pr_bag zs_valid (take n t) \<subseteq># pr_bag zs_valid t"
  unfolding pr_bag_def by (intro multiset_filter_mono) (metis append_take_drop_id mset_append mset_subset_eq_add_left)

text \<open>Putting the entries of a table into an empty one that is large enough.\<close>

lemma copy_entries:
  assumes src: "zh_wf can hk src" and new: "zh_inv can hk new" "uses new" "zh_bag new = {#}"
    and w: "zh_keysz new = zh_keysz src" "zh_valuesz new = zh_valuesz src"
    and room: "2 * zh_size src \<le> zh_nentries new" "zh_size src \<le> int zh_limit"
  shows "\<exists>new'. zh_copy_entries (zhash_put_n (Suc d)) src new = Inr new' \<and> zh_inv can hk new' \<and> uses new' \<and>
    zh_bag new' = zh_bag src \<and> zh_keysz new' = zh_keysz src \<and> zh_valuesz new' = zh_valuesz src"
proof -
  let ?t = "zh_entries src"
  obtain m where m: "nat (zh_nentries src) = 2 ^ m" "length ?t = 2 ^ m" using src by (rule zh_wf_entries)
  define step where "step = (\<lambda>new idx. bindE (arr_get ?t idx) (\<lambda>e. if zs_valid e
       then bindE (zhash_put_n (Suc d) new (zs_key e) (zs_value e)) (\<lambda>(new, ret, _). bindE (assertE (ret = 0)) (\<lambda>_. Inr new))
       else Inr new))"
  have "\<exists>new'. foldE step [0..<n] new = Inr new' \<and> zh_inv can hk new' \<and> uses new' \<and>
      zh_bag new' = pr_bag zs_valid (take n ?t) \<and> zh_keysz new' = zh_keysz src \<and> zh_valuesz new' = zh_valuesz src \<and>
      zh_nentries new' = zh_nentries new" if "n \<le> length ?t" for n
    using that
  proof (induction n)
    case 0
    then show ?case using new w by (simp add: pr_bag_def)
  next
    case (Suc n)
    then obtain n1 where n1: "foldE step [0..<n] new = Inr n1" "zh_inv can hk n1" "uses n1"
      "zh_bag n1 = pr_bag zs_valid (take n ?t)" "zh_keysz n1 = zh_keysz src" "zh_valuesz n1 = zh_valuesz src"
      "zh_nentries n1 = zh_nentries new" by auto
    have n: "n < length ?t" using Suc.prems by simp
    show ?case
    proof (cases "zs_valid (?t ! n)")
      case False
      then show ?thesis using n1 n bag_take_Suc [OF n] by (simp add: foldE_append step_def cmem)
    next
      case True
      let ?e = "?t ! n"
      have bag: "pr_bag zs_valid (take (Suc n) ?t) = add_mset ?e (zh_bag n1)" using bag_take_Suc [OF n] True n1(4) by simp
      have sub: "add_mset ?e (zh_bag n1) \<subseteq># zh_bag src" using bag_take_sub [of "Suc n" ?t] bag by (simp add: zh_bag_def)
      then have "?e \<in># zh_bag src" by (metis mset_subset_eqD union_single_eq_member)
      then have len: "length (zs_key ?e) = zh_keysz n1" "length (zs_value ?e) = zh_valuesz n1"
        using src n1(5,6) by (auto simp: zh_wf_def zh_fits_def)
      have dis: "pr_distinct (zh_key can) (add_mset ?e (zh_bag n1))"
      proof (rule pr_distinct_sub [OF _ sub])
        show "pr_distinct (zh_key can) (zh_bag src)" using src by (simp add: zh_wf_def)
      qed
      have "zh_key can x \<noteq> can (zs_key ?e)" if x: "x \<in># zh_bag n1" for x
      proof -
        obtain N where "zh_bag n1 = add_mset x N" using x by (metis mset_add)
        with dis pr_distinct_pair [of "zh_key can" ?e x N] show ?thesis by (simp add: zh_key_def)
      qed
      then have None: "zh_lookup can hk n1 (can (zs_key ?e)) = None"
        using n1(2) by (subst zh_lookup_None) (auto simp: zh_inv_def)
      have "size (zh_bag n1) + 1 \<le> size (zh_bag src)" using size_mset_mono [OF sub] by simp
      then have sz: "zh_size n1 + 1 \<le> zh_size src" using n1(2) src by (simp add: zh_inv_def zh_wf_def)
      then have lim: "zh_size n1 < int zh_limit" using room(2) by simp
      obtain n2 where n2: "zh_wf can hk n2" "uses n2" "zh_keysz n2 = zh_keysz n1" "zh_valuesz n2 = zh_valuesz n1"
        "zh_nentries n2 = zh_nentries n1" "zh_size n2 = zh_size n1 + 1"
        "zh_bag n2 = add_mset \<lparr>zs_valid = True, zs_key = zs_key ?e, zs_value = zs_value ?e\<rparr> (zh_bag n1)"
        "\<not> zh_nentries n2 < 2 * zh_size n2 \<Longrightarrow> zhash_put_n (Suc d) n1 (zs_key ?e) (zs_value ?e) = Inr (n2, 0, None)"
        using put_absent [OF n1(2,3) len None lim] by metis
      have small: "\<not> zh_nentries n2 < 2 * zh_size n2" using n2(5,6) n1(7) sz room(1) by simp
      then have "step n1 n = Inr n2" using n2(8) n True by (simp add: step_def cmem)
      moreover have "zh_inv can hk n2" using n2(1) small by (simp add: zh_inv_def)
      ultimately show ?thesis using n1 n2 bag slot_eta [OF True] by (simp add: foldE_append)
    qed
  qed
  from this [of "length ?t"] obtain new' where new': "foldE step [0..<length ?t] new = Inr new'" "zh_inv can hk new'"
    "uses new'" "zh_bag new' = zh_bag src" "zh_keysz new' = zh_keysz src" "zh_valuesz new' = zh_valuesz src"
    by (auto simp: zh_bag_def)
  have "nat (zh_nentries src) = length ?t" using m by simp
  then have "zh_copy_entries (zhash_put_n (Suc d)) src new = Inr new'"
    using new'(1) unfolding zh_copy_entries_def step_def by simp
  with new'(2-) show ?thesis by blast
qed

text \<open>An empty table of the requested capacity.\<close>

lemma create_capacity:
  assumes "0 \<le> capacity" "capacity \<le> int zh_limit"
  shows "\<exists>zh. zhash_create_capacity keysz valuesz hash equals capacity = Inr zh \<and> zh_inv can hk zh \<and> uses zh \<and>
    zh_keysz zh = keysz \<and> zh_valuesz zh = valuesz \<and> zh_bag zh = {#} \<and> 4 * capacity \<le> zh_nentries zh"
proof -
  obtain m where m: "3 \<le> m" "m \<le> 30" "4 * capacity \<le> 2 ^ m"
    "zhash_create_capacity keysz valuesz hash equals capacity = Inr \<lparr>zh_keysz = keysz, zh_valuesz = valuesz,
       zh_entrysz = 1 + int keysz + int valuesz, zh_hash = hash, zh_equals = equals, zh_size = 0,
       zh_nentries = 2 ^ m, zh_entries = replicate (2 ^ m) (zero_slot keysz valuesz)\<rparr>"
    using assms by (rule zhash_create_capacity_ok)
  have "pr_bag zs_valid (replicate (2 ^ m) (zero_slot keysz valuesz)) = {#}"
    by (rule bag_replicate) (simp add: zero_slot_def)
  moreover have "pr_wf zs_valid (zh_key can) (zh_home hk) (replicate (2 ^ m) (zero_slot keysz valuesz))"
    by (rule zp.get_empty) (simp_all add: zero_slot_def)
  ultimately show ?thesis using m by (simp add: zh_inv_def zh_wf_def uses_def zh_bag_def)
qed

lemma put_ok:
  assumes inv: "zh_inv can hk zh" and u: "uses zh" and len: "length key = zh_keysz zh" "length value = zh_valuesz zh"
    and lim: "zh_size zh < int zh_limit"
  shows "\<exists>zh'. zhash_put zh key value =
      Inr (zh', if zh_map can hk zh (can key) = None then 0 else 1, zh_map can hk zh (can key)) \<and> put_post zh key value zh'"
proof (cases "zh_lookup can hk zh (can key)")
  case (Some e)
  with put_present [OF inv u len Some, of 1] show ?thesis by (simp add: zhash_put_def zh_map_def numeral_2_eq_2)
next
  case None
  have put: "zhash_put = zhash_put_n (Suc (Suc 0))" by (simp add: zhash_put_def numeral_2_eq_2)
  have wf: "zh_wf can hk zh" using inv by (simp add: zh_inv_def)
  have filt: "filter_mset (\<lambda>x. zh_key can x \<noteq> can key) (zh_bag zh) = zh_bag zh"
    using zh_lookup_None [OF wf, of "can key"] None by (simp add: filter_mset_eq_conv)
  obtain z where z: "zh_wf can hk z" "uses z" "zh_keysz z = zh_keysz zh" "zh_valuesz z = zh_valuesz zh"
    "zh_nentries z = zh_nentries zh" "zh_size z = zh_size zh + 1"
    "zh_bag z = add_mset \<lparr>zs_valid = True, zs_key = key, zs_value = value\<rparr> (zh_bag zh)"
    "\<And>d. zhash_put_n (Suc d) zh key value = (if zh_nentries z < 2 * zh_size z
        then bindE (zhash_create_capacity (zh_keysz z) (zh_valuesz z) (zh_hash z) (zh_equals z) (zh_size z))
               (\<lambda>newhash. bindE (zh_copy_entries (zhash_put_n d) z newhash) (\<lambda>newhash. Inr (newhash, 0, None)))
        else Inr (z, 0, None))"
    by (rule put_absent [OF inv u len None lim]) (rule that; assumption)
  note zput = z(8) [of "Suc 0", folded put]
  have sz: "0 \<le> zh_size z" "zh_size z \<le> int zh_limit" using z(1,6) lim by (auto simp: zh_wf_def)
  show ?thesis
  proof (cases "zh_nentries z < 2 * zh_size z")
    case False
    then have "put_post zh key value z" using z filt by (simp add: put_post_def zh_inv_def)
    with False zput None show ?thesis by (simp add: zh_map_def)
  next
    case True
    obtain n where n: "zhash_create_capacity (zh_keysz z) (zh_valuesz z) hash equals (zh_size z) = Inr n" "zh_inv can hk n"
      "uses n" "zh_keysz n = zh_keysz z" "zh_valuesz n = zh_valuesz z" "zh_bag n = {#}" "4 * zh_size z \<le> zh_nentries n"
      using create_capacity [OF sz] by blast
    have room: "2 * zh_size z \<le> zh_nentries n" using n(7) sz by simp
    obtain n' where "zh_copy_entries (zhash_put_n (Suc 0)) z n = Inr n'" "zh_inv can hk n'" "uses n'"
        "zh_bag n' = zh_bag z" "zh_keysz n' = zh_keysz z" "zh_valuesz n' = zh_valuesz z"
      using copy_entries [OF z(1) n(2,3,6,4,5) room sz(2)] by blast
    moreover from this have "put_post zh key value n'" using z(3,4,7) filt by (simp add: put_post_def)
    moreover have "zh_hash z = hash" "zh_equals z = equals" using z(2) by (simp_all add: uses_def)
    ultimately show ?thesis using zput n(1) True None by (simp add: zh_map_def)
  qed
qed

text \<open>
  During a removal the table has a gap, and a put must find its place in it: it goes to a free
  entry that all entries before it on the path leave to it.
\<close>

lemma put_raw:
  assumes n: "zh_nentries zh = 2 ^ m" "length (zh_entries zh) = 2 ^ m" "m \<le> 30" and u: "uses zh"
    and len: "length key = zh_keysz zh" "length value = zh_valuesz zh"
    and y: "y < 2 ^ m" "\<not> zs_valid (zh_entries zh ! y)"
      "\<And>z. z < 2 ^ m \<Longrightarrow> dist (2 ^ m) (zh_home hk (2 ^ m) (can key)) z < dist (2 ^ m) (zh_home hk (2 ^ m) (can key)) y
         \<Longrightarrow> zs_valid (zh_entries zh ! z) \<and> zh_key can (zh_entries zh ! z) \<noteq> can key"
    and sz: "- 1 \<le> zh_size zh" "2 * (zh_size zh + 1) \<le> zh_nentries zh"
  shows "zhash_put zh key value = Inr (zh\<lparr>zh_entries :=
    (zh_entries zh)[y := \<lparr>zs_valid = True, zs_key = key, zs_value = value\<rparr>], zh_size := zh_size zh + 1\<rparr>, 0, None)"
proof -
  let ?t = "zh_entries zh" and ?h = "zh_home hk (2 ^ m) (can key)"
  let ?stop = "\<lambda>e. \<not> zs_valid e \<or> equals key (zs_key e)"
  have h: "?h < 2 ^ m" using zp.home_less [of "2 ^ m"] by simp
  have "probe (2 ^ m) (zh_next zh) ?stop ?t ?h = probe (2 ^ m) (round_next (length ?t)) ?stop ?t ?h"
    using n h by (intro probe_cong_next) (simp_all add: zh_next_def zh_mask_next round_next_less)
  also have "\<dots> = Inr y"
  proof (rule probe_fuel)
    show "dist (length ?t) ?h y < 2 ^ m" using dist_less [OF h y(1)] n(2) by simp
    show "\<not> ?stop (?t ! z)" if "z < length ?t" "dist (length ?t) ?h z < dist (length ?t) ?h y" for z
      using y(3) [of z] that n(2) by (auto simp: equals_can zh_key_def)
  qed (use h y n in simp_all)
  finally have "zh_probe zh key = Inr y"
    using n u by (simp add: zh_probe_def uses_def nat_power_eq zh_home_def hash_can)
  moreover have "(2::int) ^ m \<le> 2 ^ 30" using n(3) by (intro power_increasing) auto
  then have "cint (zh_size zh + 1) = Inr (zh_size zh + 1)" "cint (ZHASH_FACTOR_CRITICAL * (zh_size zh + 1)) = Inr (2 * (zh_size zh + 1))"
    using sz n(1) by (simp_all add: cint_def INT_MIN_def INT_MAX_def ZHASH_FACTOR_CRITICAL_def)
  ultimately show ?thesis using y(1,2) n sz mem_read_arg [OF len(1)] mem_read_arg [OF len(2)]
    by (simp add: zhash_put_def numeral_2_eq_2 cmem Let_def)
qed

lemma vacate_ok:
  assumes "i < length (zh_entries zh)" "- 1 \<le> zh_size zh" "zh_size zh \<le> INT_MAX"
  shows "zh_vacate zh i = Inr (zh\<lparr>zh_entries := (zh_entries zh)[i := (zh_entries zh ! i)\<lparr>zs_valid := False\<rparr>],
    zh_size := zh_size zh - 1\<rparr>)"
proof -
  have "cint (zh_size zh - 1) = Inr (zh_size zh - 1)" using assms by (simp add: cint_def INT_MIN_def)
  then show ?thesis using assms(1) by (simp add: zh_vacate_def cmem)
qed

text \<open>Re-inserting the run behind a removed entry, up to the free entry \<open>e\<close> that ends it.\<close>

lemma reinsert_ok:
  assumes "zh_nentries zh = 2 ^ m" "length (zh_entries zh) = 2 ^ m" "m \<le> 30" "uses zh"
    and "pr_hole zs_valid (zh_key can) (zh_home hk) (zh_entries zh) e p"
    and "pr_distinct (zh_key can) (zh_bag zh)" "\<forall>x \<in># zh_bag zh. zh_fits zh x"
    and "0 \<le> zh_size zh" "2 * zh_size zh \<le> zh_nentries zh"
    and "i = e \<and> p = 2 ^ m \<or> i < 2 ^ m \<and> dist (2 ^ m) e i = p" "2 ^ m - p < f"
  shows "\<exists>t. zh_reinsert f zh i = Inr (zh\<lparr>zh_entries := t\<rparr>) \<and> length t = 2 ^ m \<and>
    pr_wf zs_valid (zh_key can) (zh_home hk) t \<and> pr_bag zs_valid t = zh_bag zh \<and> (\<exists>y < 2 ^ m. \<not> zs_valid (t ! y))"
  using assms
proof (induction f arbitrary: zh i p)
  case (Suc f)
  let ?t = "zh_entries zh" and ?N = "2 ^ m :: nat"
  note n = Suc.prems(1-3) and hole = Suc.prems(5)
  have len: "length ?t = ?N" by (rule n(2))
  show ?case
  proof (cases "i = e \<and> p = ?N")
    case True
    note he = zp.hole_end [OF hole [unfolded conjunct2 [OF True], folded len]]
    then show ?thesis using True len by (intro exI [of _ ?t]) (auto simp: cmem zh_bag_def)
  next
    case False
    then have i: "i < length ?t" "dist (length ?t) e i = p" using Suc.prems(10) len by auto
    note nx = zp.hole_next [OF hole i]
    let ?c = "(?t ! i)\<lparr>zs_valid := False\<rparr>" and ?s = "?t ! i"
    have c: "\<not> zs_valid ?c" by simp
    obtain y where y: "y < length ?t" "\<not> zs_valid (?t[i := ?c] ! y)"
      "pr_hole zs_valid (zh_key can) (zh_home hk) (?t[i := ?c, y := ?s]) e (Suc p)"
      "pr_bag zs_valid (?t[i := ?c, y := ?s]) = pr_bag zs_valid ?t"
      "\<And>z. z < length ?t \<Longrightarrow> dist (length ?t) (zh_home hk (length ?t) (zh_key can ?s)) z
        < dist (length ?t) (zh_home hk (length ?t) (zh_key can ?s)) y \<Longrightarrow> zs_valid (?t[i := ?c] ! z)"
      using zp.hole_step [OF hole i c] by blast
    have sin: "?s \<in># zh_bag zh" using i(1) nx(2) by (auto simp: zh_bag_def pr_bag_iff)
    have b: "pr_bag zs_valid (?t[i := ?c]) = zh_bag zh - {#?s#}"
      using i(1) nx(2) by (simp add: zh_bag_def pr_bag_update)
    have other: "zh_key can (?t[i := ?c] ! z) \<noteq> zh_key can ?s" if z: "z < length ?t" "zs_valid (?t[i := ?c] ! z)" for z
    proof -
      have "?t[i := ?c] ! z \<in># zh_bag zh - {#?s#}" unfolding b [symmetric] using z by (auto simp: pr_bag_iff)
      then show ?thesis using pr_distinct_remove [OF Suc.prems(6) sin] by blast
    qed
    have sz: "zh_size zh \<le> 2 ^ 30"
      using Suc.prems(8,9) n(1) power_increasing [OF n(3), of "2::int"] by simp
    have vac: "zh_vacate zh i = Inr (zh\<lparr>zh_entries := ?t[i := ?c], zh_size := zh_size zh - 1\<rparr>)"
      using i(1) Suc.prems(8) sz by (intro vacate_ok) (auto simp: INT_MAX_def)
    let ?v = "zh\<lparr>zh_entries := ?t[i := ?c], zh_size := zh_size zh - 1\<rparr>"
    let ?z = "zh\<lparr>zh_entries := ?t[i := ?c, y := ?s]\<rparr>"
    have fit: "zh_fits zh ?s" using Suc.prems(7) sin by blast
    have "zhash_put ?v (zs_key ?s) (zs_value ?s) = Inr (?v\<lparr>zh_entries :=
        (zh_entries ?v)[y := \<lparr>zs_valid = True, zs_key = zs_key ?s, zs_value = zs_value ?s\<rparr>], zh_size := zh_size ?v + 1\<rparr>, 0, None)"
    proof (rule put_raw)
      fix z assume z: "z < 2 ^ m" "dist (2 ^ m) (zh_home hk (2 ^ m) (can (zs_key ?s))) z
          < dist (2 ^ m) (zh_home hk (2 ^ m) (can (zs_key ?s))) y"
      then have "zs_valid (?t[i := ?c] ! z)" using y(5) [of z] len by (simp add: zh_key_def)
      with other [of z] z(1) len show "zs_valid (zh_entries ?v ! z) \<and> zh_key can (zh_entries ?v ! z) \<noteq> can (zs_key ?s)"
        by (simp add: zh_key_def)
    qed (use n Suc.prems(4,8,9) y(1,2) len fit in \<open>auto simp: uses_def zh_fits_def\<close>)
    then have put: "zhash_put ?v (zs_key ?s) (zs_value ?s) = Inr (?z, 0, None)"
      unfolding slot_eta [OF nx(2)] by simp
    have next_i: "zh_next ?z i = round_next ?N i" using n i(1) by (simp add: zh_next_def zh_mask_next)
    have pos: "round_next ?N i = e \<and> Suc p = ?N \<or> round_next ?N i < ?N \<and> dist ?N e (round_next ?N i) = Suc p"
      using nx(3,4) len i(1) round_next_less [of i ?N] by (cases "round_next ?N i = e") auto
    have fuel: "?N - Suc p < f" using Suc.prems(11) nx(1) len by simp
    have "\<exists>t. zh_reinsert f ?z (zh_next ?z i) = Inr (?z\<lparr>zh_entries := t\<rparr>) \<and> length t = 2 ^ m \<and>
        pr_wf zs_valid (zh_key can) (zh_home hk) t \<and> pr_bag zs_valid t = zh_bag ?z \<and> (\<exists>y < 2 ^ m. \<not> zs_valid (t ! y))"
      unfolding next_i
      by (rule Suc.IH [OF _ _ n(3) _ _ _ _ _ _ pos fuel])
        (use Suc.prems(4,6-9) n y(3,4) in \<open>auto simp: uses_def zh_bag_def zh_fits_def\<close>)
    then show ?thesis using vac put nx(2) i(1) y(4) by (auto simp: cmem zh_bag_def)
  qed
qed simp

lemma remove_ok:
  assumes inv: "zh_inv can hk zh" and u: "uses zh"
  shows "\<exists>zh'. zhash_remove zh key = Inr (zh', if zh_map can hk zh (can key) = None then 0 else 1, zh_map can hk zh (can key)) \<and>
    zh_inv can hk zh' \<and> uses zh' \<and> zh_keysz zh' = zh_keysz zh \<and> zh_valuesz zh' = zh_valuesz zh \<and>
    zh_bag zh' = filter_mset (\<lambda>x. zh_key can x \<noteq> can key) (zh_bag zh)"
proof -
  let ?t = "zh_entries zh"
  have wf: "zh_wf can hk zh" using inv by (simp add: zh_inv_def)
  obtain m y where m: "m \<le> 30" "zh_nentries zh = 2 ^ m" "length ?t = 2 ^ m" "nat (zh_nentries zh) = 2 ^ m"
    and y: "y < length ?t" "\<not> zs_valid (?t ! y)" using wf by (rule zh_wf_entries)
  have pw: "pr_wf zs_valid (zh_key can) (zh_home hk) ?t" and dis: "pr_distinct (zh_key can) (zh_bag zh)"
    and fits: "\<forall>x \<in># zh_bag zh. zh_fits zh x" and size: "zh_size zh = int (size (zh_bag zh))"
    using wf by (simp_all add: zh_wf_def)
  show ?thesis
  proof (cases rule: probe_cases [OF wf u, of key, case_names found free])
    case (free j)
    then have "filter_mset (\<lambda>x. zh_key can x \<noteq> can key) (zh_bag zh) = zh_bag zh"
      using zh_lookup_None [OF wf, of "can key"] by (simp add: filter_mset_eq_conv)
    with free inv u show ?thesis by (simp add: zhash_remove_def cmem zh_map_def)
  next
    case (found j)
    let ?c = "(?t ! j)\<lparr>zs_valid := False\<rparr>"
    obtain e where e: "e < length ?t" "\<not> zs_valid (?t ! e)"
      "\<And>z. z < length ?t \<Longrightarrow> dist (length ?t) j z < dist (length ?t) j e \<Longrightarrow> zs_valid (?t ! z)"
      by (rule first_stop [of j "length ?t" y "\<lambda>z. \<not> zs_valid (?t ! z)"]) (use found(2) y in auto)
    have hole: "pr_hole zs_valid (zh_key can) (zh_home hk) (?t[j := ?c]) e (Suc (dist (length ?t) e j))"
      by (rule zp.hole_start [OF pw found(2,3) _ e]) simp_all
    have jin: "?t ! j \<in># zh_bag zh" using found by (auto simp: zh_bag_def pr_bag_iff)
    have filt: "zh_bag zh - {#?t ! j#} = filter_mset (\<lambda>x. zh_key can x \<noteq> can key) (zh_bag zh)"
      using pr_distinct_filter [OF dis jin] found(4) by simp
    have bag: "pr_bag zs_valid (?t[j := ?c]) = zh_bag zh - {#?t ! j#}"
      using found by (simp add: zh_bag_def pr_bag_update)
    have pos0: "0 < size (zh_bag zh)" using jin by (metis nonempty_has_size empty_not_add_mset mset_add)
    have sz: "0 \<le> zh_size zh - 1" "2 * (zh_size zh - 1) \<le> zh_nentries zh" "zh_size zh \<le> 2 ^ 30"
      using size pos0 inv m power_increasing [OF m(1), of "2::int"] by (simp_all add: zh_inv_def)
    let ?v = "zh\<lparr>zh_entries := ?t[j := ?c], zh_size := zh_size zh - 1\<rparr>"
    have vac: "zh_vacate zh j = Inr ?v"
      using found(2) sz by (intro vacate_ok) (auto simp: INT_MAX_def)
    have next_j: "zh_next ?v j = round_next (2 ^ m) j" using m found(2) by (simp add: zh_next_def zh_mask_next)
    have pos: "round_next (2 ^ m) j = e \<and> Suc (dist (length ?t) e j) = 2 ^ m \<or>
        round_next (2 ^ m) j < 2 ^ m \<and> dist (2 ^ m) e (round_next (2 ^ m) j) = Suc (dist (length ?t) e j)"
      using dist_next_other [of j "2 ^ m" j e] round_next_less [of j "2 ^ m"] found(2) e(1) m(3)
      by (cases "round_next (2 ^ m) j = e") (auto simp: round_next_def dist_def split: if_splits)
    have "\<exists>t. zh_reinsert (2 ^ m) ?v (zh_next ?v j) = Inr (?v\<lparr>zh_entries := t\<rparr>) \<and> length t = 2 ^ m \<and>
        pr_wf zs_valid (zh_key can) (zh_home hk) t \<and> pr_bag zs_valid t = zh_bag ?v \<and> (\<exists>y < 2 ^ m. \<not> zs_valid (t ! y))"
      unfolding next_j
    proof (rule reinsert_ok [where m = m and e = e and p = "Suc (dist (length ?t) e j)"])
      show "pr_distinct (zh_key can) (zh_bag ?v)" using pr_distinct_sub [OF dis] bag by simp
      show "\<forall>x \<in># zh_bag ?v. zh_fits ?v x" using fits bag by (auto simp: zh_fits_def dest: in_diffD)
      show "2 ^ m - Suc (dist (length ?t) e j) < 2 ^ m" by simp
    qed (use m u hole sz pos in \<open>simp_all add: uses_def\<close>)
    then obtain t where t: "zh_reinsert (2 ^ m) ?v (zh_next ?v j) = Inr (?v\<lparr>zh_entries := t\<rparr>)" "length t = 2 ^ m"
      "pr_wf zs_valid (zh_key can) (zh_home hk) t" "pr_bag zs_valid t = zh_bag zh - {#?t ! j#}"
      using bag by auto
    let ?z = "?v\<lparr>zh_entries := t\<rparr>"
    have "size (zh_bag zh - {#?t ! j#}) = size (zh_bag zh) - 1" using jin by (simp add: size_Diff_singleton)
    moreover have "pr_distinct (zh_key can) (zh_bag zh - {#?t ! j#})" using pr_distinct_sub [OF dis] by simp
    moreover have "\<forall>x \<in># zh_bag zh - {#?t ! j#}. zh_fits zh x" using fits by (auto dest: in_diffD)
    ultimately have "zh_inv can hk ?z"
      using inv t(2-4) m(2,3) size pos0 sz(2) by (auto simp: zh_inv_def zh_wf_def zh_fits_def)
    moreover have "zhash_remove zh key = Inr (?z, 1, Some (zs_key (?t ! j), zs_value (?t ! j)))"
      using found vac t(1) m by (simp add: zhash_remove_def cmem nat_power_eq)
    ultimately show ?thesis using u found t(4) filt by (auto simp: uses_def zh_map_def)
  qed
qed

lemma copy_ok:
  assumes inv: "zh_inv can hk zh" and u: "uses zh" and lim: "zh_size zh \<le> int zh_limit"
  shows "\<exists>zh'. zhash_copy zh = Inr zh' \<and> zh_inv can hk zh' \<and> uses zh' \<and> zh_bag zh' = zh_bag zh \<and>
    zh_keysz zh' = zh_keysz zh \<and> zh_valuesz zh' = zh_valuesz zh"
proof -
  have wf: "zh_wf can hk zh" using inv by (simp add: zh_inv_def)
  then have 0: "0 \<le> zh_size zh" by (simp add: zh_wf_def)
  obtain n where n: "zhash_create_capacity (zh_keysz zh) (zh_valuesz zh) hash equals (zh_size zh) = Inr n" "zh_inv can hk n"
    "uses n" "zh_keysz n = zh_keysz zh" "zh_valuesz n = zh_valuesz zh" "zh_bag n = {#}" "4 * zh_size zh \<le> zh_nentries n"
    using create_capacity [OF 0 lim] by blast
  have room: "2 * zh_size zh \<le> zh_nentries n" using n(7) 0 by simp
  obtain n' where n': "zh_copy_entries (zhash_put_n (Suc 1)) zh n = Inr n'" "zh_inv can hk n'" "uses n'"
      "zh_bag n' = zh_bag zh" "zh_keysz n' = zh_keysz zh" "zh_valuesz n' = zh_valuesz zh"
    using copy_entries [OF wf n(2,3,6,4,5) room lim] by blast
  have "zh_hash zh = hash" "zh_equals zh = equals" using u by (simp_all add: uses_def)
  with n(1) n'(1) have "zhash_copy zh = Inr n'" by (simp add: zhash_copy_def zhash_put_def numeral_2_eq_2)
  with n'(2-) show ?thesis by blast
qed

lemma clear_ok:
  assumes "zh_inv can hk zh" "uses zh"
  shows "zh_inv can hk (zhash_clear zh)" "uses (zhash_clear zh)" "zh_bag (zhash_clear zh) = {#}"
    "zh_keysz (zhash_clear zh) = zh_keysz zh" "zh_valuesz (zhash_clear zh) = zh_valuesz zh"
proof -
  let ?e = "zero_slot (zh_keysz zh) (zh_valuesz zh)"
  have e: "\<not> zs_valid ?e" by (simp add: zero_slot_def)
  obtain m where m: "3 \<le> m" "m \<le> 30" "zh_nentries zh = 2 ^ m" "length (zh_entries zh) = 2 ^ m"
    using assms(1) by (auto simp: zh_inv_def zh_wf_def)
  show bag: "zh_bag (zhash_clear zh) = {#}" using bag_replicate [OF e] by (simp add: zhash_clear_def)
  have "pr_wf zs_valid (zh_key can) (zh_home hk) (replicate (2 ^ m) ?e)"
    by (rule zp.get_empty) (simp_all add: e)
  then show "zh_inv can hk (zhash_clear zh)"
    using m bag by (simp add: zh_inv_def zh_wf_def zhash_clear_def)
qed (use assms in \<open>simp_all add: zhash_clear_def uses_def\<close>)

end

interpretation u32k: key_functions zhash_uint32_hash zhash_uint32_equals key_u32 "\<lambda>k. k"
  by unfold_locales (simp_all add: zhash_uint32_hash_def zhash_uint32_equals_def)

interpretation u64k: key_functions zhash_uint64_hash zhash_uint64_equals key_u64 "\<lambda>k. ucast (k XOR drop_bit 32 k)"
  by unfold_locales (simp_all add: zhash_uint64_hash_def zhash_uint64_equals_def)

interpretation ptrk: key_functions zhash_ptr_hash zhash_ptr_equals key_u32 "\<lambda>k. k XOR drop_bit 7 k"
  by unfold_locales (simp_all add: zhash_ptr_hash_def zhash_ptr_equals_def Let_def)

interpretation intk: key_functions zhash_int_hash zhash_int_equals "\<lambda>a. sint (key_u32 a)" word_of_int
  by unfold_locales (simp_all add: zhash_int_hash_def zhash_int_equals_def)

interpretation strk: key_functions "zhash_str_hash str" "zhash_str_equals str" "\<lambda>a. str (key_u32 a)" "str_hash_from 0" for str
  by unfold_locales (simp_all add: zhash_str_hash_def zhash_str_equals_def)

subsection \<open>Sequences of operations\<close>

datatype zhop = HPut bytes bytes | HGet bytes | HRemove bytes | HClear | HCopy

text \<open>What a call returns: the return value with the old key and value, the value found, or nothing.\<close>

datatype zhout = OOld int "(bytes \<times> bytes) option" | OValue "bytes option" | ONothing

fun zh_run :: "zhop \<Rightarrow> zhash \<Rightarrow> cerr + zhash \<times> zhout" where
  "zh_run (HPut k v) zh = bindE (zhash_put zh k v) (\<lambda>(zh, ret, old). Inr (zh, OOld ret old))"
| "zh_run (HGet k) zh = bindE (zhash_get zh k) (\<lambda>r. Inr (zh, OValue r))"
| "zh_run (HRemove k) zh = bindE (zhash_remove zh k) (\<lambda>(zh, ret, old). Inr (zh, OOld ret old))"
| "zh_run HClear zh = Inr (zhash_clear zh, ONothing)"
| "zh_run HCopy zh = bindE (zhash_copy zh) (\<lambda>zh. Inr (zh, ONothing))"

fun zh_runs :: "zhop list \<Rightarrow> zhash \<Rightarrow> cerr + zhash \<times> zhout list" where
  "zh_runs [] zh = Inr (zh, [])"
| "zh_runs (z # zs) zh =
     bindE (zh_run z zh) (\<lambda>(zh, out). bindE (zh_runs zs zh) (\<lambda>(zh, outs). Inr (zh, out # outs)))"

fun zh_spec :: "(bytes \<Rightarrow> 'k) \<Rightarrow> zhop \<Rightarrow> ('k \<Rightarrow> (bytes \<times> bytes) option) \<Rightarrow> ('k \<Rightarrow> (bytes \<times> bytes) option) \<times> zhout" where
  "zh_spec can (HPut k v) m = (m(can k \<mapsto> (k, v)), OOld (if m (can k) = None then 0 else 1) (m (can k)))"
| "zh_spec can (HGet k) m = (m, OValue (map_option snd (m (can k))))"
| "zh_spec can (HRemove k) m = (m(can k := None), OOld (if m (can k) = None then 0 else 1) (m (can k)))"
| "zh_spec can HClear m = (Map.empty, ONothing)"
| "zh_spec can HCopy m = (m, ONothing)"

fun zh_specs :: "(bytes \<Rightarrow> 'k) \<Rightarrow> zhop list \<Rightarrow> ('k \<Rightarrow> (bytes \<times> bytes) option) \<Rightarrow>
    ('k \<Rightarrow> (bytes \<times> bytes) option) \<times> zhout list" where
  "zh_specs can [] m = (m, [])"
| "zh_specs can (z # zs) m =
     (let (m, out) = zh_spec can z m; (m, outs) = zh_specs can zs m in (m, out # outs))"

text \<open>A put is within its contract when its arguments have the sizes the table was created with.\<close>

fun zhop_ok :: "nat \<Rightarrow> nat \<Rightarrow> zhop \<Rightarrow> bool" where
  "zhop_ok keysz valuesz (HPut k v) = (length k = keysz \<and> length v = valuesz)"
| "zhop_ok keysz valuesz _ = True"

context key_functions begin

definition rel :: "nat \<Rightarrow> nat \<Rightarrow> nat \<Rightarrow> zhash \<Rightarrow> ('k \<Rightarrow> (bytes \<times> bytes) option) \<Rightarrow> bool" where
  "rel keysz valuesz n zh m \<longleftrightarrow> zh_inv can hk zh \<and> uses zh \<and> zh_keysz zh = keysz \<and> zh_valuesz zh = valuesz \<and>
     zh_map can hk zh = m \<and> size (zh_bag zh) \<le> n"

lemma map_empty: "zh_wf can hk zh \<Longrightarrow> zh_bag zh = {#} \<Longrightarrow> zh_map can hk zh = Map.empty"
  using zh_lookup_None [of can hk zh] by (auto simp: zh_map_def)

lemma map_same: "zh_wf can hk zh \<Longrightarrow> zh_wf can hk zh' \<Longrightarrow> zh_bag zh' = zh_bag zh \<Longrightarrow> zh_map can hk zh' = zh_map can hk zh"
proof
  fix k assume wf: "zh_wf can hk zh" "zh_wf can hk zh'" "zh_bag zh' = zh_bag zh"
  have "zh_lookup can hk zh' k = Some e \<longleftrightarrow> zh_lookup can hk zh k = Some e" for e
    by (simp only: zh_lookup_iff [OF wf(1)] zh_lookup_iff [OF wf(2)] wf(3))
  then have "zh_lookup can hk zh' k = zh_lookup can hk zh k" by (metis not_None_eq)
  then show "zh_map can hk zh' k = zh_map can hk zh k" by (simp add: zh_map_def)
qed

lemma run_ok:
  assumes r: "rel keysz valuesz n zh m" and z: "zhop_ok keysz valuesz z" and lim: "n < zh_limit"
  shows "\<exists>zh'. zh_run z zh = Inr (zh', snd (zh_spec can z m)) \<and> rel keysz valuesz (Suc n) zh' (fst (zh_spec can z m))"
proof -
  have inv: "zh_inv can hk zh" and u: "uses zh" and m: "m = zh_map can hk zh" and sz: "size (zh_bag zh) \<le> n"
    and wd: "zh_keysz zh = keysz" "zh_valuesz zh = valuesz"
    using r by (auto simp: rel_def)
  have wf: "zh_wf can hk zh" using inv by (simp add: zh_inv_def)
  have s: "zh_size zh < int zh_limit" using wf sz lim by (simp add: zh_wf_def)
  show ?thesis
  proof (cases z)
    case (HPut k v)
    obtain zh' where zh': "zhash_put zh k v = Inr (zh', if m (can k) = None then 0 else 1, m (can k))" "put_post zh k v zh'"
      using put_ok [OF inv u _ _ s, of k v] z HPut wd m by auto
    have wf': "zh_wf can hk zh'" and "size (zh_bag zh') \<le> Suc n"
      using zh'(2) order_trans [OF size_filter_mset_lesseq sz] by (simp_all add: put_post_def zh_inv_def)
    moreover have "zh_map can hk zh' = m(can k \<mapsto> (k, v))"
      using zh_map_add [OF wf wf', of "\<lparr>zs_valid = True, zs_key = k, zs_value = v\<rparr>"] zh'(2) m
      by (simp add: put_post_def zh_key_def)
    ultimately show ?thesis using HPut zh' wd by (auto simp: rel_def put_post_def)
  next
    case (HGet k)
    then show ?thesis using get_ok [OF inv u] r m by (simp add: rel_def)
  next
    case (HRemove k)
    obtain zh' where zh': "zhash_remove zh k = Inr (zh', if m (can k) = None then 0 else 1, m (can k))"
      "zh_inv can hk zh'" "uses zh'" "zh_keysz zh' = zh_keysz zh" "zh_valuesz zh' = zh_valuesz zh"
      "zh_bag zh' = filter_mset (\<lambda>x. zh_key can x \<noteq> can k) (zh_bag zh)"
      using remove_ok [OF inv u, of k] m by auto
    have "zh_map can hk zh' = m(can k := None)" unfolding m
      by (rule zh_map_remove [OF wf]) (use zh' in \<open>simp_all add: zh_inv_def\<close>)
    moreover have "size (zh_bag zh') \<le> Suc n"
      using zh'(6) le_SucI [OF order_trans [OF size_filter_mset_lesseq sz]] by simp
    ultimately show ?thesis using HRemove zh' wd by (auto simp: rel_def)
  next
    case HClear
    have "zh_map can hk (zhash_clear zh) = Map.empty"
      using clear_ok [OF inv u] by (intro map_empty) (simp_all add: zh_inv_def)
    with HClear show ?thesis using clear_ok [OF inv u] wd by (simp add: rel_def)
  next
    case HCopy
    obtain zh' where zh': "zhash_copy zh = Inr zh'" "zh_inv can hk zh'" "uses zh'" "zh_bag zh' = zh_bag zh"
      "zh_keysz zh' = zh_keysz zh" "zh_valuesz zh' = zh_valuesz zh"
      using copy_ok [OF inv u] s by auto
    have "zh_map can hk zh' = m" unfolding m by (rule map_same [OF wf]) (use zh' in \<open>simp_all add: zh_inv_def\<close>)
    with HCopy zh' show ?thesis using wd sz by (simp add: rel_def)
  qed
qed

lemma runs_ok:
  assumes "rel keysz valuesz n zh m" "list_all (zhop_ok keysz valuesz) zs" "n + length zs \<le> zh_limit"
  shows "\<exists>zh'. zh_runs zs zh = Inr (zh', snd (zh_specs can zs m)) \<and>
    rel keysz valuesz (n + length zs) zh' (fst (zh_specs can zs m))"
  using assms
proof (induction zs arbitrary: n zh m)
  case (Cons z zs)
  obtain zh1 where zh1: "zh_run z zh = Inr (zh1, snd (zh_spec can z m))" "rel keysz valuesz (Suc n) zh1 (fst (zh_spec can z m))"
    using run_ok [OF Cons.prems(1), of z] Cons.prems by auto
  with Cons.IH [OF zh1(2)] Cons.prems show ?case by (auto simp: case_prod_beta Let_def)
qed simp

end

subsection \<open>Iteration\<close>

text \<open>The next entry in use, and the walk over all of them when the loop's body keeps the entries.\<close>

lemma next_volatile_ok:
  assumes n: "zh_nentries zh = int (length (zh_entries zh))" "length (zh_entries zh) \<le> 2 ^ 30"
    and l: "zi_last zit = int i - 1" "i \<le> length (zh_entries zh)"
  shows "(\<exists>zit'. zhash_iterator_next_volatile zh zit = Inr (zit', None) \<and> filter zs_valid (drop i (zh_entries zh)) = []) \<or>
    (\<exists>j zit'. zhash_iterator_next_volatile zh zit = Inr (zit', Some j) \<and> j < length (zh_entries zh) \<and> i \<le> j \<and>
       zi_last zit' = int (Suc j) - 1 \<and> zi_const zit' = zi_const zit \<and>
       filter zs_valid (drop i (zh_entries zh)) = zh_entries zh ! j # filter zs_valid (drop (Suc j) (zh_entries zh)))"
  using l
proof (induction "length (zh_entries zh) - i" arbitrary: i zit rule: less_induct)
  case less
  let ?t = "zh_entries zh"
  have c: "cint (zi_last zit + 1) = Inr (int i)"
    using less.prems n(2) by (simp add: cint_def INT_MIN_def INT_MAX_def)
  show ?case
  proof (cases "i < length ?t")
    case False
    then have "zhash_iterator_next_volatile zh zit = Inr (zit, None)"
      using c n(1) by (subst zhash_iterator_next_volatile.simps) simp
    with False show ?thesis by simp
  next
    case True
    have d: "drop i ?t = ?t ! i # drop (Suc i) ?t" using True by (simp add: Cons_nth_drop_Suc)
    have step: "zhash_iterator_next_volatile zh zit = (if zs_valid (?t ! i) then Inr (zit\<lparr>zi_last := int i\<rparr>, Some i)
        else zhash_iterator_next_volatile zh (zit\<lparr>zi_last := int i\<rparr>))"
      using c n(1) True by (subst zhash_iterator_next_volatile.simps) (simp add: cmem)
    show ?thesis
    proof (cases "zs_valid (?t ! i)")
      case True
      then show ?thesis using step d \<open>i < length ?t\<close> by simp
    next
      case False
      have "length ?t - Suc i < length ?t - i" "zi_last (zit\<lparr>zi_last := int i\<rparr>) = int (Suc i) - 1" "Suc i \<le> length ?t"
        using True by simp_all
      note IH = less.hyps [OF this]
      have "filter zs_valid (drop i ?t) = filter zs_valid (drop (Suc i) ?t)" using d False by simp
      with IH step False show ?thesis by (auto dest: Suc_leD)
    qed
  qed
qed

lemma zh_each_foldE:
  assumes n: "zh_nentries zh = int (length (zh_entries zh))" "length (zh_entries zh) \<le> 2 ^ 30"
    and l: "zi_last zit = int i - 1" "i \<le> length (zh_entries zh)"
  shows "zh_each (\<lambda>e s. bindE (h s e) (\<lambda>s. Inr (e, s))) zh zit s =
    bindE (foldE h (filter zs_valid (drop i (zh_entries zh))) s) (\<lambda>s. Inr (zh, s))"
  using l
proof (induction "length (zh_entries zh) - i" arbitrary: i zit s rule: less_induct)
  case less
  let ?t = "zh_entries zh"
  from next_volatile_ok [OF n less.prems] show ?case
  proof (elim disjE exE conjE)
    fix j zit'
    assume j: "zhash_iterator_next_volatile zh zit = Inr (zit', Some j)" "j < length ?t" "i \<le> j" "zi_last zit' = int (Suc j) - 1"
      "filter zs_valid (drop i ?t) = ?t ! j # filter zs_valid (drop (Suc j) ?t)"
    have "length ?t - Suc j < length ?t - i" "Suc j \<le> length ?t" using j by auto
    note IH = less.hyps [OF this(1) j(4) this(2)]
    have "zh\<lparr>zh_entries := ?t\<rparr> = zh" by simp
    then show ?thesis using j(1,2,5) IH
      by (subst zh_each.simps, cases "h s (?t ! j)") (simp_all add: cmem bindE_assoc)
  qed (subst zh_each.simps, simp)
qed

lemma zh_each_array:
  assumes "zh_wf can hk zh" "zi_last zit = - 1"
  shows "zh_each (\<lambda>e za. bindE (zarray_add junk za (g e)) (\<lambda>za. Inr (e, za))) zh zit za =
    bindE (foldE (zarray_add junk) (map g (filter zs_valid (zh_entries zh))) za) (\<lambda>za. Inr (zh, za))"
proof -
  obtain m where m: "m \<le> 30" "zh_nentries zh = 2 ^ m" "length (zh_entries zh) = 2 ^ m" using assms(1) by (rule zh_wf_entries)
  have "(2::nat) ^ m \<le> 2 ^ 30" using m(1) by (intro power_increasing) auto
  then show ?thesis using zh_each_foldE [of zh zit 0 "\<lambda>za e. zarray_add junk za (g e)" za] m assms(2)
    by (simp add: foldE_map)
qed

lemma zh_wf_entries_bag: "mset (filter zs_valid (zh_entries zh)) = zh_bag zh"
  by (simp add: zh_bag_def pr_bag_def)

lemma zh_map_dom: "zh_wf can hk zh \<Longrightarrow> dom (zh_map can hk zh) = zh_key can ` set_mset (zh_bag zh)"
  using zh_lookup_iff [of can hk zh] zh_lookup_None [of can hk zh] by (auto simp: zh_map_def dom_def image_iff)

lemma zh_map_card:
  assumes "zh_wf can hk zh"
  shows "size (zh_bag zh) = card (dom (zh_map can hk zh))"
proof -
  let ?M = "image_mset (zh_key can) (zh_bag zh)"
  have "count ?M k \<le> 1" for k using assms by (simp add: zh_wf_def pr_distinct_def)
  then have "?M = mset_set (set_mset ?M)"
    by (intro multiset_eqI) (metis One_nat_def count_eq_zero_iff count_mset_set(1,3) finite_set_mset le_Suc_eq le_zero_eq)
  then have "size ?M = card (set_mset ?M)" by (metis size_mset_set)
  then show ?thesis by (simp add: zh_map_dom [OF assms])
qed

lemma zh_array_ok:
  assumes wf: "zh_wf can hk zh" and w: "0 < w" "\<And>e. zh_fits zh e \<Longrightarrow> length (g e) = w" and lim: "zh_size zh \<le> int zarray_limit"
    and l: "zi_last zit = - 1"
  shows "\<exists>za. bindE (zarray_create w) (\<lambda>za. bindE (zh_each (\<lambda>e za. bindE (zarray_add junk za (g e)) (\<lambda>za. Inr (e, za))) zh zit za)
      (\<lambda>(_, za). Inr za)) = Inr za \<and> zarray_inv za \<and> mset (zarray_list za) = image_mset g (zh_bag zh)"
proof -
  let ?es = "filter zs_valid (zh_entries zh)"
  have es: "set ?es = set_mset (zh_bag zh)" "length ?es = size (zh_bag zh)"
    using zh_wf_entries_bag [of zh] by (metis set_mset_mset, metis size_mset)
  have "uniform w (map g ?es)" using wf w(2) es(1) by (auto simp: uniform_def zh_wf_def)
  moreover have "length (map g ?es) \<le> zarray_limit" using wf lim es(2) by (simp add: zh_wf_def)
  ultimately obtain za where za: "bindE (zarray_create w) (foldE (zarray_add junk) (map g ?es)) = Inr za"
      "zarray_inv za" "zarray_list za = map g ?es"
    using za.collect [where junk = junk, OF w(1)] by metis
  have "mset (zarray_list za) = image_mset g (zh_bag zh)"
    unfolding za(3) mset_map zh_wf_entries_bag ..
  with za(1,2) show ?thesis
    by (cases "zarray_create w") (simp_all add: zh_each_array [OF wf l] bindE_assoc)
qed

subsection \<open>Properties\<close>

text \<open>C21: For any hash and equality functions such that equality is equality of the denoted keys and the hash depends on
  the denoted key alone, any sequence of at most \<open>2 ^ 28\<close> puts, lookups, removals, copies and clears with
  arguments of the table's sizes runs without a failed assertion, an access outside the table, an overflow or a probe that does
  not end; it returns what the same operations on a finite map return and leaves that map, and \<open>zhash_size\<close> is its size.\<close>

theorem zhash_ops_correct:
  assumes "\<And>a b. equals a b \<longleftrightarrow> can a = can b" "\<And>a. hash a = hk (can a)"
    and "list_all (zhop_ok keysz valuesz) zs" "length zs \<le> zh_limit"
  shows "\<exists>zh. bindE (zhash_create keysz valuesz hash equals) (zh_runs zs) = Inr (zh, snd (zh_specs can zs Map.empty)) \<and>
    zh_map can hk zh = fst (zh_specs can zs Map.empty) \<and> zhash_size zh = int (card (dom (fst (zh_specs can zs Map.empty))))"
proof -
  have kf: "key_functions hash equals can hk" using assms(1,2) by unfold_locales auto
  obtain z where z: "zhash_create keysz valuesz hash equals = Inr z" "zh_inv can hk z" "key_functions.uses hash equals z"
    "zh_keysz z = keysz" "zh_valuesz z = valuesz" "zh_bag z = {#}"
    using key_functions.create_capacity [OF kf, of 8 keysz valuesz] by (auto simp: zhash_create_def zh_limit_def)
  have "key_functions.rel hash equals can hk keysz valuesz 0 z Map.empty"
    using z key_functions.map_empty [OF kf, of z] by (simp add: key_functions.rel_def [OF kf] zh_inv_def)
  from key_functions.runs_ok [OF kf this assms(3)] assms(4) obtain zh where
    zh: "zh_runs zs z = Inr (zh, snd (zh_specs can zs Map.empty))" "zh_inv can hk zh" "zh_map can hk zh = fst (zh_specs can zs Map.empty)"
    by (auto simp: key_functions.rel_def [OF kf])
  then have wf: "zh_wf can hk zh" by (simp add: zh_inv_def)
  then have "zh_size zh = int (size (zh_bag zh))" by (simp add: zh_wf_def)
  then have "zhash_size zh = int (card (dom (zh_map can hk zh)))"
    by (simp only: zhash_size_def zh_map_card [OF wf])
  with zh z(1) show ?thesis by simp
qed

lemma zhash_ops_correct_witness:
  "\<exists>zh. bindE (zhash_create 4 1 zhash_uint32_hash zhash_uint32_equals)
      (zh_runs [HPut [7, 0, 0, 0] [1], HPut [39, 0, 0, 0] [2], HRemove [7, 0, 0, 0], HGet [39, 0, 0, 0]]) =
      Inr (zh, snd (zh_specs key_u32 [HPut [7, 0, 0, 0] [1], HPut [39, 0, 0, 0] [2], HRemove [7, 0, 0, 0], HGet [39, 0, 0, 0]] Map.empty)) \<and>
    zh_map key_u32 (\<lambda>k. k) zh =
      fst (zh_specs key_u32 [HPut [7, 0, 0, 0] [1], HPut [39, 0, 0, 0] [2], HRemove [7, 0, 0, 0], HGet [39, 0, 0, 0]] Map.empty) \<and>
    zhash_size zh = int (card (dom
      (fst (zh_specs key_u32 [HPut [7, 0, 0, 0] [1], HPut [39, 0, 0, 0] [2], HRemove [7, 0, 0, 0], HGet [39, 0, 0, 0]] Map.empty))))"
  by (rule zhash_ops_correct) (simp_all add: zhash_uint32_hash_def zhash_uint32_equals_def zh_limit_def)

text \<open>The array \<open>zhash_keys\<close> builds holds the key bytes of each entry once: the keys they denote are the domain of the
  map, and there are as many as entries.\<close>

theorem zhash_keys_correct:
  assumes "zh_inv can hk zh" "0 < zh_keysz zh" "zh_size zh \<le> int zarray_limit"
  shows "\<exists>za. zhash_keys junk zh = Inr za \<and> zarray_inv za \<and>
    can ` set (zarray_list za) = dom (zh_map can hk zh) \<and> length (zarray_list za) = card (dom (zh_map can hk zh))"
proof -
  have wf: "zh_wf can hk zh" using assms(1) by (simp add: zh_inv_def)
  obtain za where za: "zhash_keys junk zh = Inr za" "zarray_inv za" "mset (zarray_list za) = image_mset zs_key (zh_bag zh)"
    using zh_array_ok [OF wf assms(2), of zs_key zhash_iterator_init_const junk] assms(3)
    by (auto simp: zhash_keys_def zh_fits_def zhash_iterator_init_const_def)
  have "set (zarray_list za) = zs_key ` set_mset (zh_bag zh)" using za(3) by (metis set_image_mset set_mset_mset)
  then have "can ` set (zarray_list za) = dom (zh_map can hk zh)"
    using zh_map_dom [OF wf] by (auto simp: zh_key_def image_image)
  moreover have "length (zarray_list za) = card (dom (zh_map can hk zh))"
    using za(3) zh_map_card [OF wf] by (metis size_image_mset size_mset)
  ultimately show ?thesis using za by blast
qed

lemma zhash_keys_correct_witness:
  "\<exists>zh. (\<exists>za. zhash_keys (\<lambda>_. 0) zh = Inr za \<and> zarray_inv za \<and>
    key_u32 ` set (zarray_list za) = dom (zh_map key_u32 (\<lambda>k. k) zh) \<and>
    length (zarray_list za) = card (dom (zh_map key_u32 (\<lambda>k. k) zh))) \<and> zhash_create 4 1 zhash_uint32_hash zhash_uint32_equals = Inr zh"
proof -
  obtain zh where zh: "zhash_create 4 1 zhash_uint32_hash zhash_uint32_equals = Inr zh" "zh_inv key_u32 (\<lambda>k. k) zh"
      "zh_keysz zh = 4" "zh_bag zh = {#}"
    using u32k.create_capacity [of 8 4 1] by (auto simp: zhash_create_def zh_limit_def)
  have "zh_size zh \<le> int zarray_limit" using zh by (simp add: zh_inv_def zh_wf_def)
  then have "\<exists>za. zhash_keys (\<lambda>_. 0) zh = Inr za \<and> zarray_inv za \<and>
      key_u32 ` set (zarray_list za) = dom (zh_map key_u32 (\<lambda>k. k) zh) \<and>
      length (zarray_list za) = card (dom (zh_map key_u32 (\<lambda>k. k) zh))"
    using zh by (intro zhash_keys_correct) simp_all
  with zh(1) show ?thesis by blast
qed

text \<open>Removal through the iterator can return an entry twice: when the run of entries that wraps round the end of the
  table is moved up, an entry already visited at the front of the table is put behind the iterator's position.\<close>

theorem iterator_revisits:
  "bindE (zhash_create_capacity 4 0 zhash_uint32_hash zhash_uint32_equals 2) (\<lambda>zh.
   bindE (zhash_put zh [7, 0, 0, 0] []) (\<lambda>(zh, _, _). bindE (zhash_put zh [15, 0, 0, 0] []) (\<lambda>(zh, _, _).
   bindE (zhash_iterator_next zh zhash_iterator_init) (\<lambda>(zit, a). bindE (zhash_iterator_next zh zit) (\<lambda>(zit, b).
   bindE (zhash_iterator_remove zh zit) (\<lambda>(zh, zit). bindE (zhash_iterator_next zh zit) (\<lambda>(_, c). Inr [a, b, c]))))))) =
   Inr [Some ([15, 0, 0, 0], []), Some ([7, 0, 0, 0], []), Some ([15, 0, 0, 0], [])]"
  by code_simp

end
