(* ===== verification/Bytes.thy ===== *)
theory Bytes
  imports Prelude
begin

text \<open>
  Little-endian layout of integers in packed structures, C strings, and the decimal and
  hexadecimal output of \<open>printf\<close>. Floats travel as their 32-bit patterns.
\<close>

type_synonym float32 = "32 word"

definition le16 :: "u16 \<Rightarrow> bytes" where
  "le16 w = [ucast w, ucast (drop_bit 8 w)]"

definition le32 :: "u32 \<Rightarrow> bytes" where
  "le32 w = [ucast w, ucast (drop_bit 8 w), ucast (drop_bit 16 w), ucast (drop_bit 24 w)]"

definition un_le16 :: "bytes \<Rightarrow> u16" where
  "un_le16 bs = (ucast (bs ! 0) :: u16) OR push_bit 8 (ucast (bs ! 1))"

definition un_le32 :: "bytes \<Rightarrow> u32" where
  "un_le32 bs = (ucast (bs ! 0) :: u32) OR push_bit 8 (ucast (bs ! 1)) OR push_bit 16 (ucast (bs ! 2)) OR
     push_bit 24 (ucast (bs ! 3))"

lemma length_le [simp]: "length (le16 w) = 2" "length (le32 v) = 4"
  by (simp_all add: le16_def le32_def)

lemma word8_bit: "bit (x :: 8 word) n \<Longrightarrow> n < 8"
  using bit_imp_le_length [of x n] by simp

lemma un_le16_le16 [simp]: "un_le16 (le16 w @ bs) = w"
proof (rule bit_word_eqI)
  fix n assume n: "n < LENGTH(16)"
  show "bit (un_le16 (le16 w @ bs)) n = bit w n"
    using n by (cases "n < 8") (auto simp: un_le16_def le16_def bit_or_iff bit_push_bit_iff bit_ucast_iff bit_drop_bit_eq)
qed

lemma un_le32_le32 [simp]: "un_le32 (le32 w @ bs) = w"
proof (rule bit_word_eqI)
  fix n assume n: "n < LENGTH(32)"
  then consider "n < 8" | "8 \<le> n" "n < 16" | "16 \<le> n" "n < 24" | "24 \<le> n" "n < 32" by fastforce
  then show "bit (un_le32 (le32 w @ bs)) n = bit w n"
    by cases (auto simp: un_le32_def le32_def bit_or_iff bit_push_bit_iff bit_ucast_iff bit_drop_bit_eq)
qed

lemma un_le_alone [simp]: "un_le16 (le16 w) = w" "un_le32 (le32 v) = v"
  using un_le16_le16 [of w "[]"] un_le32_le32 [of v "[]"] by simp_all

text \<open>The bytes of a C string up to its terminator, and \<open>strncpy\<close> into a field of \<open>n\<close> bytes.\<close>

definition cstr :: "bytes \<Rightarrow> bytes" where
  "cstr bs = takeWhile (\<lambda>b. b \<noteq> 0) bs"

definition strncpy :: "bytes \<Rightarrow> nat \<Rightarrow> bytes" where
  "strncpy src n = (let s = take n (cstr src) in s @ replicate (n - length s) 0)"

lemma length_strncpy [simp]: "length (strncpy src n) = n"
  by (simp add: strncpy_def Let_def)

lemma cstr_append_0: "0 \<notin> set s \<Longrightarrow> cstr (s @ 0 # r) = s"
  by (simp add: cstr_def takeWhile_append)

lemma cstr_id: "0 \<notin> set s \<Longrightarrow> cstr s = s"
  by (auto simp: cstr_def takeWhile_eq_all_conv)

lemma cstr_nonzero: "0 \<notin> set (cstr s)"
  by (auto simp: cstr_def dest: set_takeWhileD)

lemma cstr_strncpy_0: "cstr (strncpy src n @ [0]) = take n (cstr src)"
proof -
  have z: "0 \<notin> set (take n (cstr src))" using cstr_nonzero in_set_takeD by metis
  obtain r where "strncpy src n @ [0] = take n (cstr src) @ 0 # r"
    by (cases "n - length (take n (cstr src))") (auto simp: strncpy_def Let_def replicate_append_same)
  then show ?thesis using cstr_append_0 [OF z] by simp
qed

text \<open>A literal as bytes.\<close>

definition lit :: "string \<Rightarrow> bytes" where
  "lit s = map of_char s"

definition NL :: bytes where
  "NL = [10]"

fun dec_digits :: "nat \<Rightarrow> bytes" where
  "dec_digits n = (if n < 10 then [of_nat (48 + n)] else dec_digits (n div 10) @ [of_nat (48 + n mod 10)])"

declare dec_digits.simps [simp del]

definition show_d :: "int \<Rightarrow> bytes" where
  "show_d i = (if i < 0 then 45 # dec_digits (nat (- i)) else dec_digits (nat i))"

definition hex_digit :: "nat \<Rightarrow> u8" where
  "hex_digit n = (if n < 10 then of_nat (48 + n) else of_nat (87 + n))"

definition show_02x :: "u8 \<Rightarrow> bytes" where
  "show_02x b = [hex_digit (unat b div 16), hex_digit (unat b mod 16)]"

text \<open>\<open>vsnprintf(buf, n, ...)\<close>: the text cut to \<open>n - 1\<close> bytes and a terminator.\<close>

definition vsnprintf :: "nat \<Rightarrow> bytes \<Rightarrow> bytes" where
  "vsnprintf n text = (if n = 0 then [] else take (n - 1) (cstr text) @ [0])"

end
