(* ===== verification/HalQueue.thy ===== *)
theory HalQueue
  imports Prelude
begin

text \<open>
  The bounded queue of \<open>hal.h\<close>, in the Linux implementation of \<open>linux_hal.h\<close>, and the loop that
  empties one. The interface \<open>HAL_Queue\<close> is the locale \<open>hal_queue\<close>: a first-in first-out queue
  that refuses items when it is full. Its operations take the queue's mutex for their whole body,
  so threads interleave whole operations.
\<close>

record 'a linux_queue =
  lq_queue :: "'a list"
  lq_queueSize :: nat

definition LinuxQueue :: "nat \<Rightarrow> 'a linux_queue" where
  "LinuxQueue n = \<lparr>lq_queue = [], lq_queueSize = n\<rparr>"

text \<open>
  With a timeout, \<open>wait_for\<close> gives up the mutex and returns when other threads have made the
  condition true or the time is over: \<open>wait\<close> is the contents of the queue at that moment.
\<close>

definition LinuxQueue_push :: "('a list \<Rightarrow> 'a list) \<Rightarrow> 'a linux_queue \<Rightarrow> 'a \<Rightarrow> u32 \<Rightarrow> 'a linux_queue \<times> bool" where
  "LinuxQueue_push wait q item timeoutMs =
     (let q = (if timeoutMs > 0 then q\<lparr>lq_queue := wait (lq_queue q)\<rparr> else q) in
      if length (lq_queue q) \<ge> lq_queueSize q then (q, False)
      else (q\<lparr>lq_queue := lq_queue q @ [item]\<rparr>, True))"

definition LinuxQueue_pop :: "('a list \<Rightarrow> 'a list) \<Rightarrow> 'a linux_queue \<Rightarrow> u32 \<Rightarrow> 'a linux_queue \<times> 'a option" where
  "LinuxQueue_pop wait q timeoutMs =
     (let q = (if timeoutMs > 0 then q\<lparr>lq_queue := wait (lq_queue q)\<rparr> else q) in
      case lq_queue q of [] \<Rightarrow> (q, None) | x # xs \<Rightarrow> (q\<lparr>lq_queue := xs\<rparr>, Some x))"

definition LinuxQueue_isEmpty :: "'a linux_queue \<Rightarrow> bool" where
  "LinuxQueue_isEmpty q = (lq_queue q = [])"

definition LinuxQueue_isFull :: "'a linux_queue \<Rightarrow> bool" where
  "LinuxQueue_isFull q = (length (lq_queue q) \<ge> lq_queueSize q)"

definition LinuxQueue_maxSize :: "'a linux_queue \<Rightarrow> nat" where
  "LinuxQueue_maxSize q = lq_queueSize q"

text \<open>The calls without a timeout, which is how the program uses its queues.\<close>

definition lq_push :: "'a linux_queue \<Rightarrow> 'a \<Rightarrow> 'a linux_queue \<times> bool" where
  "lq_push q x = LinuxQueue_push id q x 0"

definition lq_pop :: "'a linux_queue \<Rightarrow> 'a linux_queue \<times> 'a option" where
  "lq_pop q = LinuxQueue_pop id q 0"

subsection \<open>The interface\<close>

locale hal_queue =
  fixes push :: "'q \<Rightarrow> 'a \<Rightarrow> 'q \<times> bool" and pop :: "'q \<Rightarrow> 'q \<times> 'a option"
    and isEmpty :: "'q \<Rightarrow> bool" and items :: "'q \<Rightarrow> 'a list" and cap :: "'q \<Rightarrow> nat"
  assumes push_ok: "length (items q) < cap q \<Longrightarrow> items (fst (push q x)) = items q @ [x] \<and> snd (push q x)"
    and push_full: "\<not> length (items q) < cap q \<Longrightarrow> items (fst (push q x)) = items q \<and> \<not> snd (push q x)"
    and push_size: "cap (fst (push q x)) = cap q"
    and pop_Nil: "items q = [] \<Longrightarrow> items (fst (pop q)) = [] \<and> snd (pop q) = None"
    and pop_Cons: "items q = x # xs \<Longrightarrow> items (fst (pop q)) = xs \<and> snd (pop q) = Some x"
    and pop_size: "cap (fst (pop q)) = cap q"
    and isEmpty_ok: "isEmpty q \<longleftrightarrow> items q = []"
begin

text \<open>Pushing a list keeps its longest prefix that fits.\<close>

lemma push_all:
  assumes "length (items q) \<le> cap q"
  shows "items (foldl (\<lambda>q x. fst (push q x)) q xs) = items q @ take (cap q - length (items q)) xs"
  using assms
proof (induction xs arbitrary: q)
  case (Cons x xs)
  show ?case
  proof (cases "length (items q) < cap q")
    case True
    note p = push_ok [OF True, of x] push_size [of q x]
    have "cap q - length (items q) = Suc (cap q - Suc (length (items q)))" using True by simp
    with p Cons.IH [of "fst (push q x)"] True show ?thesis by simp
  next
    case False
    with Cons push_full [OF False, of x] push_size [of q x] show ?thesis by simp
  qed
qed simp

lemma pop_shrinks: "\<not> isEmpty q \<Longrightarrow> length (items (fst (pop q))) < length (items q)"
  using pop_Cons [of q] isEmpty_ok [of q] by (cases "items q") auto

lemma push_bound: "length (items q) \<le> cap q \<Longrightarrow> length (items (fst (push q x))) \<le> cap (fst (push q x))"
  using push_ok [of q x] push_full [of q x] push_size [of q x] by (cases "length (items q) < cap q") auto

end

interpretation lq: hal_queue lq_push lq_pop LinuxQueue_isEmpty lq_queue lq_queueSize
  by unfold_locales
    (simp_all add: lq_push_def lq_pop_def LinuxQueue_push_def LinuxQueue_pop_def LinuxQueue_isEmpty_def split: list.split)

subsection \<open>Emptying a queue\<close>

text \<open>\<open>while (!q->isEmpty()) { if (!q->pop(item, 0)) break; f(item); }\<close>\<close>

function drain_queue :: "('s \<Rightarrow> 'a \<Rightarrow> cerr + 's) \<Rightarrow> 'a linux_queue \<Rightarrow> 's \<Rightarrow> cerr + 'a linux_queue \<times> 's" where
  "drain_queue f q s =
     (if LinuxQueue_isEmpty q then Inr (q, s)
      else case lq_pop q of
        (q, None) \<Rightarrow> Inr (q, s)
      | (q', Some x) \<Rightarrow> bindE (f s x) (drain_queue f q'))"
  by pat_completeness auto
termination
  by (relation "measure (\<lambda>(f, q, s). length (lq_queue q))")
    (auto simp: lq_pop_def LinuxQueue_pop_def LinuxQueue_isEmpty_def split: list.splits)

declare drain_queue.simps [simp del]

lemma drain_queue_ok: "drain_queue f q s = bindE (foldE f (lq_queue q) s) (\<lambda>s. Inr (q\<lparr>lq_queue := []\<rparr>, s))"
proof (induction f q s rule: drain_queue.induct)
  case (1 f q s)
  show ?case
  proof (cases "lq_queue q")
    case Nil
    then have "q\<lparr>lq_queue := []\<rparr> = q" by (cases q) simp
    with Nil show ?thesis by (simp add: drain_queue.simps [of f q s] LinuxQueue_isEmpty_def)
  next
    case (Cons x xs)
    then have p: "lq_pop q = (q\<lparr>lq_queue := xs\<rparr>, Some x)" "\<not> LinuxQueue_isEmpty q"
      by (simp_all add: lq_pop_def LinuxQueue_pop_def LinuxQueue_isEmpty_def)
    show ?thesis
    proof (cases "f s x")
      case (Inr t)
      with 1 [OF p(2) p(1) [symmetric] refl Inr] show ?thesis
        by (simp add: drain_queue.simps [of f q s] p Cons)
    qed (simp add: drain_queue.simps [of f q s] p Cons)
  qed
qed

end
