(* ===== verification/Telemetry.thy ===== *)
theory Telemetry
  imports Bytes HalQueue TargetDetector
begin

text \<open>
  The telemetry link of \<open>telemetry.cpp\<close> and \<open>log.cpp\<close>: the parser of incoming commands, their
  handling, the log queue, the framing of outgoing packets and one update. The other end of
  the link, \<open>tools/telemetry_server.py\<close>, is modelled as far as it decodes what is sent and
  encodes commands. The TCP connection gives the bytes it received and takes the packets; the
  clock, the frame rate and the free heap are arguments.
\<close>

subsection \<open>Incoming packets\<close>

record telemetry_rx_packet =
  rx_type :: u8
  rx_len :: u8
  rx_data :: bytes

datatype parse_state = PARSE_STATE_TYPE | PARSE_STATE_LEN | PARSE_STATE_DATA

record telemetry_parser =
  tp_parseState :: parse_state
  tp_rxPacket :: telemetry_rx_packet
  tp_parsedDataBytes :: u32

definition resetParseState :: "telemetry_parser \<Rightarrow> telemetry_parser" where
  "resetParseState tp = tp\<lparr>tp_parseState := PARSE_STATE_TYPE, tp_parsedDataBytes := 0\<rparr>"

text \<open>The constructor, on the memory of the object.\<close>

definition TelemetryPacketParser :: "telemetry_parser \<Rightarrow> telemetry_parser" where
  "TelemetryPacketParser mem = resetParseState mem"

text \<open>The packet is copied out when it is complete.\<close>

definition parse_finish :: "telemetry_parser \<Rightarrow> bool \<Rightarrow> telemetry_parser \<times> telemetry_rx_packet option" where
  "parse_finish tp foundPacket =
     (if foundPacket then (resetParseState tp, Some (tp_rxPacket tp)) else (tp, None))"

definition parseByte :: "telemetry_parser \<Rightarrow> u8 \<Rightarrow> cerr + telemetry_parser \<times> telemetry_rx_packet option" where
  "parseByte tp byte =
     (case tp_parseState tp of
        PARSE_STATE_TYPE \<Rightarrow>
          Inr (tp\<lparr>tp_rxPacket := (tp_rxPacket tp)\<lparr>rx_type := byte\<rparr>, tp_parseState := PARSE_STATE_LEN\<rparr>, None)
      | PARSE_STATE_LEN \<Rightarrow>
          Inr (parse_finish (tp\<lparr>tp_rxPacket := (tp_rxPacket tp)\<lparr>rx_len := byte\<rparr>, tp_parseState := PARSE_STATE_DATA\<rparr>)
                 (byte = 0))
      | PARSE_STATE_DATA \<Rightarrow>
          bindE (arr_set (rx_data (tp_rxPacket tp)) (unat (tp_parsedDataBytes tp)) byte) (\<lambda>d.
          let tp' = tp\<lparr>tp_rxPacket := (tp_rxPacket tp)\<lparr>rx_data := d\<rparr>, tp_parsedDataBytes := tp_parsedDataBytes tp + 1\<rparr>
          in Inr (parse_finish tp' (tp_parsedDataBytes tp' \<ge> ucast (rx_len (tp_rxPacket tp'))))))"

subsection \<open>The log\<close>

definition TELEMTRY_LOG_MSG_MAX_SIZE :: nat where
  "TELEMTRY_LOG_MSG_MAX_SIZE = 100"

record telemetry_log =
  log_level :: u8
  log_group :: u8
  log_timestamp :: u32
  log_msg :: bytes

definition LOG_LEVEL_INFO :: u8 where "LOG_LEVEL_INFO = 1"
definition LOG_LEVEL_WARNING :: u8 where "LOG_LEVEL_WARNING = 2"
definition LOG_GROUP_MAIN :: u8 where "LOG_GROUP_MAIN = 0"

definition sendLogMsg ::
  "u32 \<Rightarrow> telemetry_log linux_queue \<Rightarrow> u8 \<Rightarrow> u8 \<Rightarrow> bytes \<Rightarrow> telemetry_log linux_queue \<times> bool" where
  "sendLogMsg now q level grp msg =
     lq_push q \<lparr>log_level = level, log_group = grp, log_timestamp = now,
                log_msg = strncpy msg TELEMTRY_LOG_MSG_MAX_SIZE @ [0]\<rparr>"

text \<open>\<open>telem_printf\<close> formats into a buffer of 100 bytes; \<open>text\<close> is the formatted message.\<close>

definition telem_printf :: "u32 \<Rightarrow> telemetry_log linux_queue \<Rightarrow> u8 \<Rightarrow> u8 \<Rightarrow> bytes \<Rightarrow> telemetry_log linux_queue" where
  "telem_printf now q level grp text = fst (sendLogMsg now q level grp (vsnprintf TELEMTRY_LOG_MSG_MAX_SIZE text))"

subsection \<open>Commands\<close>

record tag_detection_params =
  dp_quad_decimate :: float32
  dp_quad_sigma :: float32
  dp_refine_edges :: bool
  dp_decode_sharpening :: float32

text \<open>What a command asks other components to do, in order.\<close>

datatype telem_effect =
  SendCommandInt nat u8 float32 | Delay u32 | Reboot

record telemetry =
  tl_logQueue :: "telemetry_log linux_queue"
  tl_parser :: telemetry_parser
  tl_lastTelemetryPing :: u32
  tl_lockedTag :: "float32 tag_t"
  tl_params :: tag_detection_params
  tl_effects :: "telem_effect list"
  tl_ticks :: nat

text \<open>Every message takes a reading of the clock; \<open>tl_ticks\<close> counts the readings.\<close>

definition log_line :: "clock \<Rightarrow> telemetry \<Rightarrow> u8 \<Rightarrow> bytes \<Rightarrow> telemetry" where
  "log_line clk te level text =
     (let (now, n) = hal_millis clk (tl_ticks te)
      in te\<lparr>tl_logQueue := telem_printf now (tl_logQueue te) level LOG_GROUP_MAIN text, tl_ticks := n\<rparr>)"

definition info :: "clock \<Rightarrow> telemetry \<Rightarrow> bytes \<Rightarrow> telemetry" where
  "info clk te text = log_line clk te LOG_LEVEL_INFO text"

definition warning :: "clock \<Rightarrow> telemetry \<Rightarrow> bytes \<Rightarrow> telemetry" where
  "warning clk te text = log_line clk te LOG_LEVEL_WARNING text"

definition effect :: "telemetry \<Rightarrow> telem_effect \<Rightarrow> telemetry" where
  "effect te e = te\<lparr>tl_effects := tl_effects te @ [e]\<rparr>"

text \<open>The cast of the packet's data to the packed \<open>tag_detection_params_t\<close>: no length is checked.\<close>

definition cast_params :: "bytes \<Rightarrow> tag_detection_params" where
  "cast_params d =
     \<lparr>dp_quad_decimate = un_le32 d, dp_quad_sigma = un_le32 (drop 4 d), dp_refine_edges = (d ! 8 \<noteq> 0),
      dp_decode_sharpening = un_le32 (drop 9 d)\<rparr>"

definition MAV_CMD_RUN_PREARM_CHECKS :: nat where "MAV_CMD_RUN_PREARM_CHECKS = 401"
definition MAV_CMD_PREFLIGHT_REBOOT_SHUTDOWN :: nat where "MAV_CMD_PREFLIGHT_REBOOT_SHUTDOWN = 246"

text \<open>The float 1 as its bit pattern.\<close>

definition float_one :: float32 where
  "float_one = 0x3F800000"

definition handleAction :: "clock \<Rightarrow> telemetry \<Rightarrow> u8 \<Rightarrow> telemetry" where
  "handleAction clk te action =
     (if action = 0x01 then
        effect (info clk te (lit ''Running pre-arm check'' @ NL)) (SendCommandInt MAV_CMD_RUN_PREARM_CHECKS 0 0)
      else if action = 0x02 then info clk te (lit ''Arming'' @ NL)
      else if action = 0x03 then info clk te (lit ''Disarming'' @ NL)
      else if action = 0x04 then info clk te (lit ''Takeoff'' @ NL)
      else if action = 0x05 then info clk te (lit ''Landing'' @ NL)
      else if action = 0x06 then effect (effect (info clk te (lit ''Rebooting'' @ NL)) (Delay 500)) Reboot
      else if action = 0x07 then
        info clk (effect te (SendCommandInt MAV_CMD_PREFLIGHT_REBOOT_SHUTDOWN 0 float_one)) (lit ''Rebooting AP'' @ NL)
      else warning clk te (lit ''Unknown action '' @ show_d (uint action) @ NL))"

definition handleTelemetryCommand :: "clock \<Rightarrow> telemetry \<Rightarrow> telemetry_rx_packet \<Rightarrow> telemetry" where
  "handleTelemetryCommand clk te pkt =
     (if rx_type pkt = 0x30 then te\<lparr>tl_params := cast_params (rx_data pkt)\<rparr>
      else if rx_type pkt = 0x31 then handleAction clk te (rx_data pkt ! 0)
      else if rx_type pkt = 0x10 then
        (let (now, n) = hal_millis clk (tl_ticks te) in te\<lparr>tl_lastTelemetryPing := now, tl_ticks := n\<rparr>)
      else warning clk te (lit ''Unkown command type: '' @ show_02x (rx_type pkt) @ NL))"

text \<open>One received byte.\<close>

definition telemetry_rx :: "clock \<Rightarrow> telemetry \<Rightarrow> u8 \<Rightarrow> cerr + telemetry" where
  "telemetry_rx clk te byte =
     bindE (parseByte (tl_parser te) byte) (\<lambda>(tp, r).
     let te = te\<lparr>tl_parser := tp\<rparr> in
     case r of None \<Rightarrow> Inr te | Some pkt \<Rightarrow> Inr (handleTelemetryCommand clk te pkt))"

subsection \<open>Outgoing packets\<close>

definition TELEMETRY_PACKET_MAX_PAYLOAD_SIZE :: nat where
  "TELEMETRY_PACKET_MAX_PAYLOAD_SIZE = 512"

text \<open>
  \<open>sendTelemetryPacket\<close> gives the bytes it writes to the connection: the header of five bytes and
  the payload. The length is cut to sixteen bits, and the payload is copied into a buffer of 512
  bytes; \<open>data\<close> is what is readable at the pointer it is given.
\<close>

definition sendTelemetryPacket :: "u8 \<Rightarrow> bytes \<Rightarrow> u32 \<Rightarrow> cerr + bytes" where
  "sendTelemetryPacket packetType data len =
     (let txlen = ucast len :: u16 in
      bindE (mem_read data 0 (uint txlen)) (\<lambda>payload.
      bindE (mem_write (replicate TELEMETRY_PACKET_MAX_PAYLOAD_SIZE 0) 0 payload) (\<lambda>tx.
      Inr (le16 0x1234 @ [packetType] @ le16 txlen @ take (unat txlen) tx))))"

definition log_bytes :: "telemetry_log \<Rightarrow> bytes" where
  "log_bytes l = [log_level l, log_group l] @ le32 (log_timestamp l) @ log_msg l"

definition point_bytes :: "float32 point_2f \<Rightarrow> bytes" where
  "point_bytes p = le32 (px p) @ le32 (py p)"

definition tag_bytes :: "float32 tag_t \<Rightarrow> bytes" where
  "tag_bytes g = le16 (tag_id g) @ le32 (tag_lastSeen g) @ point_bytes (tag_center g) @ concat (map point_bytes (tag_p g))"

definition landing_target_bytes :: "float32 landing_target_t \<Rightarrow> bytes" where
  "landing_target_bytes t = le32 (lt_angle_x t) @ le32 (lt_angle_y t) @ le32 (lt_distance t) @
     le32 (lt_size_x t) @ le32 (lt_size_y t) @ le16 (lt_id t)"

definition zero_landing_target :: "float32 landing_target_t" where
  "zero_landing_target = \<lparr>lt_angle_x = 0, lt_angle_y = 0, lt_distance = 0, lt_size_x = 0, lt_size_y = 0, lt_id = 0\<rparr>"

text \<open>\<open>sizeof(tag_t)\<close> and \<open>sizeof(landing_target_t)\<close>.\<close>

definition TAG_SIZE :: nat where "TAG_SIZE = 46"
definition LANDING_TARGET_SIZE :: nat where "LANDING_TARGET_SIZE = 22"

text \<open>The status packet: the fields before the autopilot's, and the copy of the autopilot's state.\<close>

record telemetry_status =
  st_upTimeMs :: u32
  st_cameraFps :: u8
  st_freeHeap :: u32
  st_params :: tag_detection_params
  st_ap :: bytes

definition status_bytes :: "telemetry_status \<Rightarrow> bytes" where
  "status_bytes s = le32 (st_upTimeMs s) @ [st_cameraFps s] @ le32 (st_freeHeap s) @
     le32 (dp_quad_decimate (st_params s)) @ le32 (dp_quad_sigma (st_params s)) @
     [if dp_refine_edges (st_params s) then 1 else 0] @ le32 (dp_decode_sharpening (st_params s)) @ st_ap s"

text \<open>
  The tag packet is put together in the static buffer of 512 bytes and sent. \<open>lockedTag\<close> is static:
  it keeps its value between updates.
\<close>

definition send_tags :: "telemetry \<Rightarrow> float32 target_detector \<Rightarrow> cerr + telemetry \<times> bytes" where
  "send_tags te td =
     (let (tags, tags_detected) = getTagsDetected td;
          all_tags_size = unat tags_detected * TAG_SIZE;
          (lockedTag, hasLock) = getLockedTag td (tl_lockedTag te);
          target = (if hasLock then getLandingTarget td else zero_landing_target)
      in bindE (mem_write (replicate 512 0) 0 [tags_detected]) (\<lambda>buf.
         bindE (mem_write buf 1 [if hasLock then 1 else 0]) (\<lambda>buf.
         bindE (mem_write buf 2 (tag_bytes lockedTag)) (\<lambda>buf.
         bindE (mem_write buf (int (2 + TAG_SIZE)) (landing_target_bytes target)) (\<lambda>buf.
         bindE (mem_write buf (int (2 + TAG_SIZE + LANDING_TARGET_SIZE)) (concat (map tag_bytes tags))) (\<lambda>buf.
         bindE (sendTelemetryPacket 0x02 buf (of_nat (2 + TAG_SIZE + LANDING_TARGET_SIZE + all_tags_size))) (\<lambda>pkt.
         Inr (te\<lparr>tl_lockedTag := lockedTag\<rparr>, pkt))))))))"

text \<open>
  \<open>update\<close>: \<open>rx\<close> are the bytes \<open>readBytes\<close> returned, at most 100; the packets sent come in order.
\<close>

definition telemetry_update ::
  "clock \<Rightarrow> bool \<Rightarrow> bytes \<Rightarrow> u8 \<Rightarrow> u32 \<Rightarrow> bytes \<Rightarrow> telemetry \<Rightarrow> float32 target_detector \<Rightarrow> cerr + telemetry \<times> bytes list" where
  "telemetry_update clk conn rx fps heap ap te td =
     (if \<not> conn then Inr (te, [])
      else
        bindE (foldE (telemetry_rx clk) rx te) (\<lambda>te.
        let (now, n) = hal_millis clk (tl_ticks te); te = te\<lparr>tl_ticks := n\<rparr>;
            status = \<lparr>st_upTimeMs = now, st_cameraFps = fps, st_freeHeap = heap, st_params = tl_params te, st_ap = ap\<rparr> in
        bindE (sendTelemetryPacket 0x01 (status_bytes status) (of_nat (length (status_bytes status)))) (\<lambda>pkt.
        bindE (drain_queue (\<lambda>out l. bindE (sendTelemetryPacket 0x03 (log_bytes l) (of_nat (length (log_bytes l))))
                  (\<lambda>p. Inr (out @ [p]))) (tl_logQueue te) [pkt]) (\<lambda>(q, out).
        let te = te\<lparr>tl_logQueue := q\<rparr> in
        bindE (send_tags te td) (\<lambda>(te, p). Inr (te, out @ [p]))))))"

subsection \<open>The parser\<close>

definition parser_ok :: "telemetry_parser \<Rightarrow> bool" where
  "parser_ok tp \<longleftrightarrow> length (rx_data (tp_rxPacket tp)) = 255 \<and>
     (case tp_parseState tp of
        PARSE_STATE_DATA \<Rightarrow> unat (tp_parsedDataBytes tp) < unat (rx_len (tp_rxPacket tp))
      | _ \<Rightarrow> tp_parsedDataBytes tp = 0)"

definition parse_step ::
  "telemetry_parser \<times> telemetry_rx_packet list \<Rightarrow> u8 \<Rightarrow> cerr + telemetry_parser \<times> telemetry_rx_packet list" where
  "parse_step s b = (case s of (tp, out) \<Rightarrow>
     bindE (parseByte tp b) (\<lambda>(tp, r). Inr (tp, out @ (case r of None \<Rightarrow> [] | Some p \<Rightarrow> [p]))))"

definition parse_stream :: "telemetry_parser \<Rightarrow> bytes \<Rightarrow> cerr + telemetry_parser \<times> telemetry_rx_packet list" where
  "parse_stream tp bs = foldE parse_step bs (tp, [])"

lemma unat_u8_less: "unat (x :: u8) < 256"
  using unsigned_less [of x] by simp

lemma unat_ucast_8_32 [simp]: "unat (ucast (x :: u8) :: u32) = unat x"
  by (simp add: unsigned_ucast_eq take_bit_nat_eq_self_iff order_less_trans [OF unat_u8_less])

lemma word32_Suc: "unat (x :: u32) < 1000 \<Longrightarrow> unat (x + 1) = Suc (unat x)"
  by (rule unat_Suc_small [of x 1000]) simp_all

lemma parseByte_type:
  "tp_parseState tp = PARSE_STATE_TYPE \<Longrightarrow> parseByte tp b =
     Inr (tp\<lparr>tp_rxPacket := (tp_rxPacket tp)\<lparr>rx_type := b\<rparr>, tp_parseState := PARSE_STATE_LEN\<rparr>, None)"
  by (simp add: parseByte_def)

lemma parseByte_len:
  "tp_parseState tp = PARSE_STATE_LEN \<Longrightarrow> parseByte tp b =
     Inr (parse_finish (tp\<lparr>tp_rxPacket := (tp_rxPacket tp)\<lparr>rx_len := b\<rparr>, tp_parseState := PARSE_STATE_DATA\<rparr>) (b = 0))"
  by (simp add: parseByte_def)

lemma parseByte_data:
  assumes "parser_ok tp" "tp_parseState tp = PARSE_STATE_DATA"
  shows "unat (tp_parsedDataBytes tp) < length (rx_data (tp_rxPacket tp))"
    "unat (tp_parsedDataBytes tp + 1) = Suc (unat (tp_parsedDataBytes tp))"
    "parseByte tp b = Inr (parse_finish
       (tp\<lparr>tp_rxPacket := (tp_rxPacket tp)\<lparr>rx_data := (rx_data (tp_rxPacket tp))[unat (tp_parsedDataBytes tp) := b]\<rparr>,
           tp_parsedDataBytes := tp_parsedDataBytes tp + 1\<rparr>)
       (unat (rx_len (tp_rxPacket tp)) \<le> Suc (unat (tp_parsedDataBytes tp))))"
proof -
  let ?n = "tp_parsedDataBytes tp" and ?len = "rx_len (tp_rxPacket tp)"
  have d: "length (rx_data (tp_rxPacket tp)) = 255" and n: "unat ?n < unat ?len"
    using assms by (simp_all add: parser_ok_def)
  have l: "unat ?len < 256" by (rule unat_u8_less)
  show s: "unat (?n + 1) = Suc (unat ?n)" using n l by (intro word32_Suc) simp
  show i: "unat ?n < length (rx_data (tp_rxPacket tp))" using d n l by simp
  have le: "ucast ?len \<le> ?n + 1 \<longleftrightarrow> unat ?len \<le> Suc (unat ?n)" by (simp add: word_le_nat_alt s)
  show "parseByte tp b = Inr (parse_finish
       (tp\<lparr>tp_rxPacket := (tp_rxPacket tp)\<lparr>rx_data := (rx_data (tp_rxPacket tp))[unat ?n := b]\<rparr>,
           tp_parsedDataBytes := ?n + 1\<rparr>) (unat ?len \<le> Suc (unat ?n)))"
    using i assms(2) by (simp add: parseByte_def cmem Let_def le)
qed

text \<open>No stream of bytes makes the parser write outside its packet.\<close>

lemma parseByte_total:
  assumes ok: "parser_ok tp"
  obtains tp' r where "parseByte tp b = Inr (tp', r)" "parser_ok tp'"
proof -
  have "\<exists>tp' r. parseByte tp b = Inr (tp', r) \<and> parser_ok tp'"
  proof (cases "tp_parseState tp")
    case PARSE_STATE_TYPE
    then show ?thesis using ok by (simp add: parseByte_type parser_ok_def)
  next
    case PARSE_STATE_LEN
    then show ?thesis using ok
      by (cases "b = 0") (simp_all add: parseByte_len parser_ok_def parse_finish_def resetParseState_def unat_gt_0)
  next
    case PARSE_STATE_DATA
    note d = parseByte_data [OF ok PARSE_STATE_DATA]
    show ?thesis
      using ok PARSE_STATE_DATA d(2)
      by (cases "unat (rx_len (tp_rxPacket tp)) \<le> Suc (unat (tp_parsedDataBytes tp))")
        (simp_all add: d(3) parse_finish_def resetParseState_def parser_ok_def)
  qed
  then show thesis using that by blast
qed

text \<open>The payload bytes of a packet, from any point on.\<close>

lemma parse_data:
  assumes "parser_ok tp" "tp_parseState tp = PARSE_STATE_DATA"
    "length d = unat (rx_len (tp_rxPacket tp)) - unat (tp_parsedDataBytes tp)"
  shows "\<exists>tp' pkt. foldE parse_step d (tp, out) = Inr (tp', out @ [pkt]) \<and>
     parser_ok tp' \<and> tp_parseState tp' = PARSE_STATE_TYPE \<and> rx_type pkt = rx_type (tp_rxPacket tp) \<and>
     rx_len pkt = rx_len (tp_rxPacket tp) \<and> length (rx_data pkt) = 255 \<and>
     take (unat (rx_len pkt)) (rx_data pkt) = take (unat (tp_parsedDataBytes tp)) (rx_data (tp_rxPacket tp)) @ d"
  using assms
proof (induction d arbitrary: tp)
  case Nil
  then show ?case by (simp add: parser_ok_def)
next
  case (Cons b d)
  let ?n = "tp_parsedDataBytes tp" and ?p = "tp_rxPacket tp"
  let ?len = "rx_len ?p" and ?d = "(rx_data ?p)[unat ?n := b]"
  note pd = parseByte_data [OF Cons.prems(1,2)]
  have dl: "length (rx_data ?p) = 255" and n: "unat ?n < unat ?len"
    using Cons.prems by (simp_all add: parser_ok_def)
  let ?tp = "tp\<lparr>tp_rxPacket := ?p\<lparr>rx_data := ?d\<rparr>, tp_parsedDataBytes := ?n + 1\<rparr>"
  note s = pd(2)
  have tk: "take (Suc (unat ?n)) ?d = take (unat ?n) (rx_data ?p) @ [b]"
    using pd(1) by (simp add: take_Suc_conv_app_nth)
  have step: "parseByte tp b = Inr (parse_finish ?tp (unat ?len \<le> Suc (unat ?n)))" by (rule pd(3))
  show ?case
  proof (cases "unat ?len \<le> Suc (unat ?n)")
    case True
    then have e: "unat ?len = Suc (unat ?n)" using n by simp
    then have "d = []" using Cons.prems(3) by simp
    with True e dl tk show ?thesis
      by (simp add: parse_step_def step parse_finish_def resetParseState_def parser_ok_def)
  next
    case False
    then have ok: "parser_ok ?tp" "tp_parseState ?tp = PARSE_STATE_DATA"
      using dl Cons.prems(2) by (simp_all add: parser_ok_def s)
    have "length d = unat (rx_len (tp_rxPacket ?tp)) - unat (tp_parsedDataBytes ?tp)"
      using Cons.prems(3) by (simp add: s)
    from Cons.IH [OF ok this] show ?thesis using False tk by (simp add: parse_step_def [of "(tp, out)"] step parse_finish_def s)
  qed
qed

text \<open>A command as \<open>tools/telemetry_server.py\<close> encodes it: the type, the length, the payload.\<close>

definition py_command_bytes :: "u8 \<times> bytes \<Rightarrow> bytes" where
  "py_command_bytes c = [fst c, of_nat (length (snd c))] @ snd c"

lemma parse_command:
  assumes "parser_ok tp" "tp_parseState tp = PARSE_STATE_TYPE" "length d \<le> 255"
  shows "\<exists>tp' pkt. foldE parse_step (py_command_bytes (t, d)) (tp, out) = Inr (tp', out @ [pkt]) \<and>
     parser_ok tp' \<and> tp_parseState tp' = PARSE_STATE_TYPE \<and> rx_type pkt = t \<and>
     rx_len pkt = of_nat (length d) \<and> length (rx_data pkt) = 255 \<and> take (length d) (rx_data pkt) = d"
proof -
  let ?p = "(tp_rxPacket tp)\<lparr>rx_type := t, rx_len := of_nat (length d)\<rparr>"
  let ?tp = "tp\<lparr>tp_rxPacket := ?p, tp_parseState := PARSE_STATE_DATA\<rparr>"
  have z: "tp_parsedDataBytes tp = 0" and l: "length (rx_data (tp_rxPacket tp)) = 255"
    using assms(1,2) by (simp_all add: parser_ok_def)
  have u: "unat (of_nat (length d) :: u8) = length d"
    using assms(3) by (simp add: unat_of_nat take_bit_nat_eq_self_iff)
  show ?thesis
  proof (cases "d = []")
    case True
    then show ?thesis using assms(2) z l
      by (simp add: py_command_bytes_def parse_step_def parseByte_type parseByte_len parse_finish_def resetParseState_def parser_ok_def)
  next
    case False
    then have nz: "(of_nat (length d) :: u8) \<noteq> 0" using u by (metis length_0_conv unat_0)
    have ok: "parser_ok ?tp" "tp_parseState ?tp = PARSE_STATE_DATA" "length d = unat (rx_len (tp_rxPacket ?tp)) - unat (tp_parsedDataBytes ?tp)"
      using l z u False by (simp_all add: parser_ok_def)
    have two: "foldE parse_step (py_command_bytes (t, d)) (tp, out) = foldE parse_step d (?tp, out)"
      using assms(2) nz by (simp add: py_command_bytes_def parse_step_def [of "(_, out)"] parseByte_type parseByte_len parse_finish_def)
    from parse_data [OF ok, of out] show ?thesis unfolding two using z u by (simp cong: conj_cong)
  qed
qed

lemma parse_commands:
  assumes "parser_ok tp" "tp_parseState tp = PARSE_STATE_TYPE" "\<forall>c \<in> set cs. length (snd c) \<le> 255"
  shows "\<exists>tp' pkts. foldE parse_step (concat (map py_command_bytes cs)) (tp, out) = Inr (tp', out @ pkts) \<and>
     parser_ok tp' \<and> tp_parseState tp' = PARSE_STATE_TYPE \<and>
     map (\<lambda>p. (rx_type p, take (unat (rx_len p)) (rx_data p))) pkts = cs \<and>
     (\<forall>p \<in> set pkts. length (rx_data p) = 255)"
  using assms
proof (induction cs arbitrary: tp out)
  case (Cons c cs)
  obtain t d where c: "c = (t, d)" by (cases c)
  with Cons.prems have d: "length d \<le> 255" by simp
  obtain tp1 pkt where p: "foldE parse_step (py_command_bytes (t, d)) (tp, out) = Inr (tp1, out @ [pkt])"
     "parser_ok tp1" "tp_parseState tp1 = PARSE_STATE_TYPE" "rx_type pkt = t" "rx_len pkt = of_nat (length d)"
     "length (rx_data pkt) = 255" "take (length d) (rx_data pkt) = d"
    using parse_command [OF Cons.prems(1,2) d, of t out] by blast
  have "unat (rx_len pkt) = length d" using d by (simp add: p(5) unat_of_nat take_bit_nat_eq_self_iff)
  with Cons.IH [OF p(2,3), of "out @ [pkt]"] Cons.prems(3) p show ?case
    by (auto simp: c foldE_append intro!: exI [of _ "pkt # pkts" for pkts])
qed simp

subsection \<open>Commands reach their handlers\<close>

lemma handle_parser:
  "handleTelemetryCommand clk (te\<lparr>tl_parser := tp\<rparr>) p = (handleTelemetryCommand clk te p)\<lparr>tl_parser := tp\<rparr>"
  by (simp add: handleTelemetryCommand_def handleAction_def info_def warning_def log_line_def effect_def hal_millis_def)

lemma handle_keeps_parser: "tl_parser (handleTelemetryCommand clk te p) = tl_parser te"
  by (simp add: handleTelemetryCommand_def handleAction_def info_def warning_def log_line_def effect_def hal_millis_def)

lemma telemetry_rx_stream:
  assumes "foldE parse_step bs (tl_parser te, out) = Inr (tp', out @ pkts)"
  shows "foldE (telemetry_rx clk) bs te = Inr ((foldl (handleTelemetryCommand clk) te pkts)\<lparr>tl_parser := tp'\<rparr>)"
  using assms
proof (induction bs arbitrary: te out pkts)
  case (Cons b bs)
  then obtain tp1 r where p: "parseByte (tl_parser te) b = Inr (tp1, r)"
    "foldE parse_step bs (tp1, out @ (case r of None \<Rightarrow> [] | Some p \<Rightarrow> [p])) = Inr (tp', out @ pkts)"
    by (auto simp: parse_step_def [of "(_, out)"])
  have pre: "\<exists>q. o2 = o1 @ q" if "foldE parse_step bs (x, o1) = Inr (y, o2)" for bs x y and o1 o2 :: "telemetry_rx_packet list"
    using that
  proof (induction bs arbitrary: x o1)
    case (Cons c cs)
    then obtain x' r' where "foldE parse_step cs (x', o1 @ (case r' of None \<Rightarrow> [] | Some p \<Rightarrow> [p])) = Inr (y, o2)"
      by (auto simp: parse_step_def [of "(_, o1)"])
    from Cons.IH [OF this] show ?case by auto
  qed simp
  show ?case
  proof (cases r)
    case None
    have "foldE parse_step bs (tl_parser (te\<lparr>tl_parser := tp1\<rparr>), out) = Inr (tp', out @ pkts)" using p None by simp
    from Cons.IH [OF this] have "foldE (telemetry_rx clk) bs (te\<lparr>tl_parser := tp1\<rparr>) =
        Inr ((foldl (handleTelemetryCommand clk) (te\<lparr>tl_parser := tp1\<rparr>) pkts)\<lparr>tl_parser := tp'\<rparr>)" .
    moreover have "foldl (handleTelemetryCommand clk) (te\<lparr>tl_parser := tp1\<rparr>) pkts =
        (foldl (handleTelemetryCommand clk) te pkts)\<lparr>tl_parser := tp1\<rparr>"
      by (induction pkts rule: rev_induct) (simp_all add: handle_parser)
    ultimately show ?thesis using p(1) None by (simp add: telemetry_rx_def [of clk te])
  next
    case (Some k)
    from pre [OF p(2)] Some obtain q where q: "pkts = k # q" by auto
    let ?te = "handleTelemetryCommand clk (te\<lparr>tl_parser := tp1\<rparr>) k"
    have "foldE parse_step bs (tl_parser ?te, out @ [k]) = Inr (tp', (out @ [k]) @ q)"
      using p(2) Some q by (simp add: handle_keeps_parser)
    from Cons.IH [OF this] have "foldE (telemetry_rx clk) bs ?te =
        Inr ((foldl (handleTelemetryCommand clk) ?te q)\<lparr>tl_parser := tp'\<rparr>)" .
    moreover have "foldl (handleTelemetryCommand clk) ?te q =
        (foldl (handleTelemetryCommand clk) (handleTelemetryCommand clk te k) q)\<lparr>tl_parser := tp1\<rparr>"
      by (induction q rule: rev_induct) (simp_all add: handle_parser)
    ultimately show ?thesis using p(1) Some q by (simp add: telemetry_rx_def [of clk te])
  qed
qed simp

text \<open>The parameters as the client packs them.\<close>

definition py_params_bytes :: "tag_detection_params \<Rightarrow> bytes" where
  "py_params_bytes p = le32 (dp_quad_decimate p) @ le32 (dp_quad_sigma p) @ [if dp_refine_edges p then 1 else 0] @
     le32 (dp_decode_sharpening p)"

lemma cast_params_ok: "cast_params (py_params_bytes p @ r) = p"
  by (simp add: cast_params_def py_params_bytes_def nth_append)

subsection \<open>Framing\<close>

lemma sendTelemetryPacket_ok:
  assumes "n \<le> 512" "n \<le> length data"
  shows "sendTelemetryPacket t data (of_nat n) = Inr (le16 0x1234 @ [t] @ le16 (of_nat n) @ take n data)"
proof -
  have c: "(ucast (of_nat n :: u32) :: u16) = of_nat n" by (rule bit_word_eqI) (auto simp: bit_ucast_iff bit_of_nat_iff)
  have u: "uint (of_nat n :: u16) = int n" "unat (of_nat n :: u16) = n"
    using assms(1) by (simp_all add: unsigned_of_nat take_bit_nat_eq_self_iff)
  have w: "mem_write (replicate 512 0) 0 (take n data) = Inr (take n data @ drop n (replicate 512 (0 :: u8)))"
    using mem_write_nat [of 0 "take n data" "replicate 512 0"] assms by simp
  have r: "mem_read data 0 (int n) = Inr (take n data)" using mem_read_nat [of 0 n data] assms by simp
  have tk: "take n (take n data @ drop n (replicate 512 (0 :: u8))) = take n data" using assms by simp
  show ?thesis
    unfolding sendTelemetryPacket_def Let_def c u r TELEMETRY_PACKET_MAX_PAYLOAD_SIZE_def bindE.simps w tk ..
qed

lemma sendTelemetryPacket_prefix:
  "length p \<le> 512 \<Longrightarrow> sendTelemetryPacket t (p @ z) (of_nat (length p)) =
     Inr (le16 0x1234 @ [t] @ le16 (of_nat (length p)) @ p)"
  by (subst sendTelemetryPacket_ok) simp_all

lemma mem_write_behind:
  "length bs \<le> length rest \<Longrightarrow> n = length pre \<Longrightarrow>
   mem_write (pre @ rest) (int n) bs = Inr ((pre @ bs) @ drop (length bs) rest)"
  using mem_write_nat [of n bs "pre @ rest"] by simp

definition tag_wf :: "float32 tag_t \<Rightarrow> bool" where
  "tag_wf g \<longleftrightarrow> length (tag_p g) = 4"

lemma length_tag_bytes: "tag_wf g \<Longrightarrow> length (tag_bytes g) = 46"
proof -
  assume "tag_wf g"
  then obtain a b c d where "tag_p g = [a, b, c, d]"
    by (auto simp: tag_wf_def length_Suc_conv numeral_eq_Suc)
  then show ?thesis by (simp add: tag_bytes_def point_bytes_def)
qed

lemma length_landing_target_bytes: "length (landing_target_bytes t) = 22"
  by (simp add: landing_target_bytes_def)

lemma length_tags_bytes: "\<forall>g \<in> set gs. tag_wf g \<Longrightarrow> length (concat (map tag_bytes gs)) = length gs * 46"
  by (induction gs) (simp_all add: length_tag_bytes)

text \<open>What the tag packet carries.\<close>

definition tags_payload :: "bool \<Rightarrow> float32 tag_t \<Rightarrow> float32 landing_target_t \<Rightarrow> float32 tag_t list \<Rightarrow> bytes" where
  "tags_payload locked lockedTag target gs =
     [of_nat (length gs), if locked then 1 else 0] @ tag_bytes lockedTag @ landing_target_bytes target @ concat (map tag_bytes gs)"

lemma send_tags_ok:
  assumes inv: "tt_inv (td_tagTracker td)" and wf: "\<forall>g \<in> set (tracked (td_tagTracker td)). tag_wf g" "tag_wf (tl_lockedTag te)"
    and n: "length (tracked (td_tagTracker td)) \<le> 9"
  shows "\<exists>g locked. getLockedTag td (tl_lockedTag te) = (g, locked) \<and> tag_wf g \<and>
    send_tags te td = Inr (te\<lparr>tl_lockedTag := g\<rparr>,
      (let p = tags_payload locked g (if locked then getLandingTarget td else zero_landing_target) (tracked (td_tagTracker td))
       in le16 0x1234 @ [0x02] @ le16 (of_nat (length p)) @ p))"
proof -
  let ?gs = "tracked (td_tagTracker td)" and ?k = "tt_count (td_tagTracker td)"
  have k: "length ?gs = ?k" by (rule length_tracked [OF inv])
  obtain g locked where gl: "getLockedTag td (tl_lockedTag te) = (g, locked)" by fastforce
  have g: "tag_wf g"
  proof (cases "find_tag (td_tagTracker td) (tag_id (tl_lockedTag te))")
    case None
    then show ?thesis using gl wf(2) by (simp add: getLockedTag_def getTag_def)
  next
    case (Some i)
    then have "i < length ?gs" using find_tag_Some k by metis
    then have "?gs ! i \<in> set ?gs" by (rule nth_mem)
    moreover have "g = ?gs ! i" using gl Some find_tag_Some [OF Some]
      by (simp add: getLockedTag_def getTag_def tracked_nth)
    ultimately show ?thesis using wf(1) by simp
  qed
  define t where "t = (if locked then getLandingTarget td else zero_landing_target)"
  define cb where "cb = concat (map tag_bytes ?gs)"
  let ?h = "[of_nat ?k, if locked then 1 else 0] :: bytes"
  have gt: "getTagsDetected td = (?gs, of_nat ?k)" by (simp add: getTagsDetected_def tracked_def Let_def)
  have u: "unat (of_nat ?k :: u8) = ?k" using n k by (simp add: unat_of_nat take_bit_nat_eq_self_iff)
  have lcb: "length cb = ?k * 46" using length_tags_bytes [OF wf(1)] k by (simp add: cb_def)
  have w0: "mem_write (replicate 512 0) 0 [of_nat ?k] = Inr ([of_nat ?k] @ replicate 511 (0 :: u8))"
    using mem_write_behind [of "[of_nat ?k]" "replicate 512 (0 :: u8)" 0 "[]"] by simp
  have w1: "mem_write ([of_nat ?k] @ replicate 511 (0 :: u8)) 1 [if locked then 1 else 0] = Inr (?h @ replicate 510 0)"
    using mem_write_behind [of "[if locked then 1 else 0]" "replicate 511 (0 :: u8)" 1 "[of_nat ?k]"] by simp
  have w2: "mem_write (?h @ replicate 510 (0 :: u8)) 2 (tag_bytes g) = Inr ((?h @ tag_bytes g) @ replicate 464 0)"
    using mem_write_behind [of "tag_bytes g" "replicate 510 (0 :: u8)" 2 ?h] length_tag_bytes [OF g] by simp
  have w3: "mem_write ((?h @ tag_bytes g) @ replicate 464 (0 :: u8)) (int (2 + TAG_SIZE)) (landing_target_bytes t) =
      Inr ((?h @ tag_bytes g @ landing_target_bytes t) @ replicate 442 0)"
    using mem_write_behind [of "landing_target_bytes t" "replicate 464 (0 :: u8)" "2 + TAG_SIZE" "?h @ tag_bytes g"]
      length_tag_bytes [OF g] length_landing_target_bytes [of t] by (simp add: TAG_SIZE_def)
  let ?p = "?h @ tag_bytes g @ landing_target_bytes t @ cb"
  have w4: "mem_write ((?h @ tag_bytes g @ landing_target_bytes t) @ replicate 442 (0 :: u8))
      (int (2 + TAG_SIZE + LANDING_TARGET_SIZE)) cb = Inr (?p @ replicate (442 - ?k * 46) 0)"
    using mem_write_behind [of cb "replicate 442 (0 :: u8)" "2 + TAG_SIZE + LANDING_TARGET_SIZE" "?h @ tag_bytes g @ landing_target_bytes t"]
      length_tag_bytes [OF g] length_landing_target_bytes [of t] lcb n k by (simp add: TAG_SIZE_def LANDING_TARGET_SIZE_def)
  have lp: "length ?p = 2 + TAG_SIZE + LANDING_TARGET_SIZE + ?k * TAG_SIZE"
    using length_tag_bytes [OF g] length_landing_target_bytes [of t] lcb by (simp add: TAG_SIZE_def LANDING_TARGET_SIZE_def)
  have sp: "sendTelemetryPacket 0x02 (?p @ replicate (442 - ?k * 46) 0) (of_nat (length ?p)) =
      Inr (le16 0x1234 @ [0x02] @ le16 (of_nat (length ?p)) @ ?p)"
    by (rule sendTelemetryPacket_prefix) (unfold lp, use n k in \<open>simp add: TAG_SIZE_def LANDING_TARGET_SIZE_def\<close>)
  have "send_tags te td = Inr (te\<lparr>tl_lockedTag := g\<rparr>, le16 0x1234 @ [0x02] @ le16 (of_nat (length ?p)) @ ?p)"
    unfolding send_tags_def gt gl Let_def prod.case u t_def [symmetric] cb_def [symmetric] w0 w1 w2 w3 w4 bindE.simps
      lp [symmetric] sp ..
  moreover have pe: "?p = tags_payload locked g t ?gs" by (simp add: tags_payload_def k cb_def)
  ultimately have "send_tags te td = Inr (te\<lparr>tl_lockedTag := g\<rparr>, le16 0x1234 @ [0x02] @
      le16 (of_nat (length (tags_payload locked g t ?gs))) @ tags_payload locked g t ?gs)" by (simp only:)
  then show ?thesis using gl g unfolding t_def Let_def by blast
qed

lemma mem_write_then:
  assumes "length b = 512" "\<And>b'. length b' = 512 \<Longrightarrow> f b' = Inl OutOfBounds"
  shows "bindE (mem_write b off bs) f = Inl OutOfBounds"
proof (cases "mem_write b off bs")
  case (Inl e)
  then show ?thesis by (auto simp: mem_write_def split: if_splits)
next
  case (Inr b')
  then show ?thesis using assms length_mem_write by fastforce
qed

text \<open>With ten tracked tags the packet does not fit its buffer.\<close>

lemma send_tags_overflow:
  assumes inv: "tt_inv (td_tagTracker td)" and wf: "\<forall>g \<in> set (tracked (td_tagTracker td)). tag_wf g" "tag_wf (tl_lockedTag te)"
    and n: "length (tracked (td_tagTracker td)) = 10"
  shows "send_tags te td = Inl OutOfBounds"
proof -
  let ?gs = "tracked (td_tagTracker td)"
  have bad: "mem_write b (int (2 + TAG_SIZE + LANDING_TARGET_SIZE)) (concat (map tag_bytes ?gs)) = Inl OutOfBounds"
    if "length b = 512" for b :: bytes
    using that length_tags_bytes [OF wf(1)] n by (simp add: mem_write_def TAG_SIZE_def LANDING_TARGET_SIZE_def)
  obtain tags k where gt: "getTagsDetected td = (tags, k)" by fastforce
  have tags: "tags = ?gs" using gt by (simp add: getTagsDetected_def tracked_def Let_def)
  obtain g locked where gl: "getLockedTag td (tl_lockedTag te) = (g, locked)" by fastforce
  show ?thesis
    unfolding send_tags_def gt gl Let_def prod.case tags
    by (rule mem_write_then, simp, rule mem_write_then, assumption, rule mem_write_then, assumption,
        rule mem_write_then, assumption) (simp only: bad bindE.simps)
qed

end
