(* ===== verification/Autopilot.thy ===== *)
theory Autopilot
  imports Bytes
begin

text \<open>
  The state of the autopilot, \<open>ap_t\<close> of \<open>ap.h\<close>, and its packed layout. Floats are their 32-bit
  patterns.
\<close>

record ap_t =
  ap_last_heartbeat :: u32
  ap_mav_mode_flag :: u8
  ap_mav_state :: u8
  ap_flight_mode :: u8
  ap_roll :: float32
  ap_pitch :: float32
  ap_yaw :: float32
  ap_roll_speed :: float32
  ap_pitch_speed :: float32
  ap_yaw_speed :: float32
  ap_rngfnd_dist_m :: float32
  ap_bat_voltage :: float32
  ap_bat_perc :: u8
  ap_local_pos_x :: float32
  ap_local_pos_y :: float32
  ap_local_pos_z :: float32
  ap_local_pos_vx :: float32
  ap_local_pos_vy :: float32
  ap_local_pos_vz :: float32
  ap_relative_alt :: float32
  ap_alt :: float32
  ap_chan1_raw :: u16
  ap_chan2_raw :: u16
  ap_chan3_raw :: u16
  ap_chan4_raw :: u16
  ap_chan5_raw :: u16
  ap_chan6_raw :: u16
  ap_chan7_raw :: u16
  ap_chan8_raw :: u16
  ap_chan9_raw :: u16
  ap_chan10_raw :: u16
  ap_rssi :: u8

text \<open>The global \<open>ap\<close>, zero at the start.\<close>

definition ap_zero :: ap_t where
  "ap_zero = \<lparr>ap_last_heartbeat = 0, ap_mav_mode_flag = 0, ap_mav_state = 0, ap_flight_mode = 0,
     ap_roll = 0, ap_pitch = 0, ap_yaw = 0, ap_roll_speed = 0, ap_pitch_speed = 0, ap_yaw_speed = 0,
     ap_rngfnd_dist_m = 0, ap_bat_voltage = 0, ap_bat_perc = 0,
     ap_local_pos_x = 0, ap_local_pos_y = 0, ap_local_pos_z = 0, ap_local_pos_vx = 0, ap_local_pos_vy = 0, ap_local_pos_vz = 0,
     ap_relative_alt = 0, ap_alt = 0, ap_chan1_raw = 0, ap_chan2_raw = 0, ap_chan3_raw = 0, ap_chan4_raw = 0,
     ap_chan5_raw = 0, ap_chan6_raw = 0, ap_chan7_raw = 0, ap_chan8_raw = 0, ap_chan9_raw = 0, ap_chan10_raw = 0,
     ap_rssi = 0\<rparr>"

definition ap_bytes :: "ap_t \<Rightarrow> bytes" where
  "ap_bytes a =
     le32 (ap_last_heartbeat a) @ [ap_mav_mode_flag a] @ [ap_mav_state a] @ [ap_flight_mode a] @
     le32 (ap_roll a) @ le32 (ap_pitch a) @ le32 (ap_yaw a) @
     le32 (ap_roll_speed a) @ le32 (ap_pitch_speed a) @ le32 (ap_yaw_speed a) @
     le32 (ap_rngfnd_dist_m a) @ le32 (ap_bat_voltage a) @ [ap_bat_perc a] @
     le32 (ap_local_pos_x a) @ le32 (ap_local_pos_y a) @ le32 (ap_local_pos_z a) @
     le32 (ap_local_pos_vx a) @ le32 (ap_local_pos_vy a) @ le32 (ap_local_pos_vz a) @
     le32 (ap_relative_alt a) @ le32 (ap_alt a) @
     le16 (ap_chan1_raw a) @ le16 (ap_chan2_raw a) @ le16 (ap_chan3_raw a) @ le16 (ap_chan4_raw a) @
     le16 (ap_chan5_raw a) @ le16 (ap_chan6_raw a) @ le16 (ap_chan7_raw a) @ le16 (ap_chan8_raw a) @
     le16 (ap_chan9_raw a) @ le16 (ap_chan10_raw a) @ [ap_rssi a]"

lemma length_ap_bytes [simp]: "length (ap_bytes a) = 93"
  by (simp add: ap_bytes_def)

end
