(* ===== verification/TelemetryLink.thy ===== *)
theory TelemetryLink
  imports Telemetry Autopilot
begin

text \<open>
  The ground station's end of the telemetry link, \<open>tools/telemetry_server.py\<close>, and what the two ends
  achieve together: commands reach their handlers however the stream is cut, and the client reads
  back the status, the log messages and the tags that an update sent. Where the client raises an
  exception inside its receive loop it drops the packet, which is \<open>None\<close> here. Floats stay
  bit patterns; the connection delivers what was sent, in order.
\<close>

subsection \<open>The struct module\<close>

text \<open>Python's \<open>struct\<close> with little-endian formats; a float is read as its bit pattern.\<close>

definition code_size :: "char \<Rightarrow> nat" where
  "code_size c = (if c = CHR ''B'' \<or> c = CHR ''b'' then 1 else if c = CHR ''H'' then 2 else 4)"

definition calcsize :: "string \<Rightarrow> nat" where
  "calcsize fmt = sum_list (map code_size fmt)"

definition unpack_code :: "char \<Rightarrow> bytes \<Rightarrow> int" where
  "unpack_code c raw =
     (if c = CHR ''B'' then uint (raw ! 0) else if c = CHR ''b'' then sint (raw ! 0)
      else if c = CHR ''H'' then uint (un_le16 raw) else uint (un_le32 raw))"

fun unpack_fmt :: "string \<Rightarrow> bytes \<Rightarrow> int list" where
  "unpack_fmt [] raw = []"
| "unpack_fmt (c # cs) raw = unpack_code c raw # unpack_fmt cs (drop (code_size c) raw)"

definition struct_unpack :: "string \<Rightarrow> bytes \<Rightarrow> int list option" where
  "struct_unpack fmt raw = (if length raw = calcsize fmt then Some (unpack_fmt fmt raw) else None)"

subsection \<open>Packets of the client\<close>

record py_tag =
  py_id :: int
  py_lastSeen :: int
  py_points :: "(int \<times> int) list"

record py_log =
  py_level :: int
  py_group :: int
  py_timestamp :: int
  py_msg :: bytes

record py_tags =
  py_has_lock :: int
  py_locked_tag :: py_tag
  py_landing_target :: "int list"
  py_tag_list :: "py_tag list"

datatype py_packet = PyStatus "int list" | PyTags py_tags | PyLog py_log

definition Tag_fmt :: string where "Tag_fmt = ''HIffffffffff''"
definition LandingTarget_fmt :: string where "LandingTarget_fmt = ''fffffH''"
definition TelemetryLog_fmt :: string where "TelemetryLog_fmt = ''BBI''"
definition TelemetryStatus_fmt :: string where
  "TelemetryStatus_fmt = ''IBIffBfIBBBffffffffbffffffffHHHHHHHHHHB''"

fun pairs :: "int list \<Rightarrow> (int \<times> int) list" where
  "pairs (a # b # r) = (a, b) # pairs r"
| "pairs _ = []"

definition Tag_from_bytes :: "bytes \<Rightarrow> py_tag option" where
  "Tag_from_bytes raw =
     map_option (\<lambda>values. \<lparr>py_id = values ! 0, py_lastSeen = values ! 1, py_points = pairs (drop 2 values)\<rparr>)
       (struct_unpack Tag_fmt raw)"

text \<open>The loop over the tags: slices of the payload, from \<open>index_end\<close> on.\<close>

fun parse_tag_list :: "bytes \<Rightarrow> nat \<Rightarrow> nat \<Rightarrow> py_tag list option" where
  "parse_tag_list payload index_end 0 = Some []"
| "parse_tag_list payload index_end (Suc n) =
     (case Tag_from_bytes (take (calcsize Tag_fmt) (drop index_end payload)) of
        None \<Rightarrow> None
      | Some t \<Rightarrow> map_option ((#) t) (parse_tag_list payload (index_end + calcsize Tag_fmt) n))"

definition parse_tags :: "bytes \<Rightarrow> py_tags option" where
  "parse_tags payload =
     (if length payload < 2 then None
      else
        let index_end = 2 + calcsize Tag_fmt in
        case Tag_from_bytes (take (calcsize Tag_fmt) (drop 2 payload)) of None \<Rightarrow> None
        | Some locked_tag \<Rightarrow>
        case struct_unpack LandingTarget_fmt (take (calcsize LandingTarget_fmt) (drop index_end payload)) of None \<Rightarrow> None
        | Some landing_target \<Rightarrow>
          map_option (\<lambda>gs. \<lparr>py_has_lock = uint (payload ! 1), py_locked_tag = locked_tag,
                            py_landing_target = landing_target, py_tag_list = gs\<rparr>)
            (parse_tag_list payload (index_end + calcsize LandingTarget_fmt) (unat (payload ! 0))))"

definition rstrip0 :: "bytes \<Rightarrow> bytes" where
  "rstrip0 bs = rev (dropWhile (\<lambda>b. b = 0) (rev bs))"

definition parse_log :: "bytes \<Rightarrow> py_log option" where
  "parse_log payload =
     (let header_len = calcsize TelemetryLog_fmt; rest = drop header_len payload in
      case struct_unpack TelemetryLog_fmt (take header_len payload) of
        None \<Rightarrow> None
      | Some v \<Rightarrow>
          if list_all (\<lambda>b. b < 128) rest
          then Some \<lparr>py_level = v ! 0, py_group = v ! 1, py_timestamp = v ! 2, py_msg = rstrip0 rest\<rparr>
          else None)"

definition py_parse_packet :: "u8 \<Rightarrow> bytes \<Rightarrow> py_packet option" where
  "py_parse_packet packet_type payload =
     (if packet_type = 0x01 then map_option PyStatus (struct_unpack TelemetryStatus_fmt payload)
      else if packet_type = 0x02 then map_option PyTags (parse_tags payload)
      else if packet_type = 0x03 then map_option PyLog (parse_log payload)
      else None)"

definition py_parse_header :: "bytes \<Rightarrow> (u8 \<times> nat) option" where
  "py_parse_header header_raw =
     (if length header_raw \<noteq> 5 then None
      else
        let magic = un_le16 header_raw; packet_type = header_raw ! 2; packet_len = unat (un_le16 (drop 3 header_raw)) in
        if magic \<noteq> 0x1234 then None
        else if packet_type \<notin> {0x01, 0x02, 0x03, 0x10, 0x30, 0x31, 0xFF} then None
        else if packet_len > 10000 then None
        else Some (packet_type, packet_len))"

text \<open>
  The receive loop on the bytes of one connection: five bytes of header, then the payload. A header
  that does not parse is dropped, and so is one whose payload is larger than \<open>payload_buf\<close>.
\<close>

function client_packets :: "bytes \<Rightarrow> py_packet list" where
  "client_packets s =
     (if length s < 5 then []
      else case py_parse_header (take 5 s) of
        None \<Rightarrow> client_packets (drop 5 s)
      | Some (packet_type, n) \<Rightarrow>
          if n > 1024 then client_packets (drop 5 s)
          else if length (drop 5 s) < n then []
          else (case py_parse_packet packet_type (take n (drop 5 s)) of
                  None \<Rightarrow> client_packets (drop (5 + n) s)
                | Some p \<Rightarrow> p # client_packets (drop (5 + n) s)))"
  by pat_completeness auto
termination
  by (relation "measure length") auto

declare client_packets.simps [simp del]

subsection \<open>What the client is to read\<close>

definition py_tag_of :: "float32 tag_t \<Rightarrow> py_tag" where
  "py_tag_of g = \<lparr>py_id = uint (tag_id g), py_lastSeen = uint (tag_lastSeen g),
     py_points = map (\<lambda>p. (uint (px p), uint (py p))) (tag_center g # tag_p g)\<rparr>"

definition py_target_of :: "float32 landing_target_t \<Rightarrow> int list" where
  "py_target_of t = [uint (lt_angle_x t), uint (lt_angle_y t), uint (lt_distance t), uint (lt_size_x t),
     uint (lt_size_y t), uint (lt_id t)]"

definition py_ap_of :: "ap_t \<Rightarrow> int list" where
  "py_ap_of a =
     [uint (ap_last_heartbeat a), uint (ap_mav_mode_flag a), uint (ap_mav_state a), uint (ap_flight_mode a),
      uint (ap_roll a), uint (ap_pitch a), uint (ap_yaw a), uint (ap_roll_speed a), uint (ap_pitch_speed a),
      uint (ap_yaw_speed a), uint (ap_rngfnd_dist_m a), uint (ap_bat_voltage a), sint (ap_bat_perc a),
      uint (ap_local_pos_x a), uint (ap_local_pos_y a), uint (ap_local_pos_z a), uint (ap_local_pos_vx a),
      uint (ap_local_pos_vy a), uint (ap_local_pos_vz a), uint (ap_relative_alt a), uint (ap_alt a),
      uint (ap_chan1_raw a), uint (ap_chan2_raw a), uint (ap_chan3_raw a), uint (ap_chan4_raw a), uint (ap_chan5_raw a),
      uint (ap_chan6_raw a), uint (ap_chan7_raw a), uint (ap_chan8_raw a), uint (ap_chan9_raw a), uint (ap_chan10_raw a),
      uint (ap_rssi a)]"

lemmas unpack_simps = unpack_code_def code_size_def

lemma unpack_tag: "tag_wf g \<Longrightarrow> Tag_from_bytes (tag_bytes g) = Some (py_tag_of g)"
proof -
  assume w: "tag_wf g"
  then obtain a b c d where p: "tag_p g = [a, b, c, d]"
    by (auto simp: tag_wf_def length_Suc_conv numeral_eq_Suc)
  have "length (tag_bytes g) = calcsize Tag_fmt"
    using length_tag_bytes [OF w] by (simp add: calcsize_def Tag_fmt_def code_size_def)
  then show ?thesis
    by (simp add: Tag_from_bytes_def struct_unpack_def Tag_fmt_def tag_bytes_def point_bytes_def p unpack_simps py_tag_of_def)
qed


lemma unpack_target: "struct_unpack LandingTarget_fmt (landing_target_bytes t) = Some (py_target_of t)"
proof -
  have "length (landing_target_bytes t) = calcsize LandingTarget_fmt"
    by (simp add: length_landing_target_bytes calcsize_def LandingTarget_fmt_def code_size_def)
  then show ?thesis
    by (simp add: struct_unpack_def LandingTarget_fmt_def landing_target_bytes_def unpack_simps py_target_of_def)
qed

lemma Tag_size [simp]: "calcsize Tag_fmt = 46" and LandingTarget_size [simp]: "calcsize LandingTarget_fmt = 22"
  and TelemetryLog_size [simp]: "calcsize TelemetryLog_fmt = 6"
  and TelemetryStatus_size [simp]: "calcsize TelemetryStatus_fmt = 115"
  by (simp_all add: calcsize_def code_size_def Tag_fmt_def LandingTarget_fmt_def TelemetryLog_fmt_def TelemetryStatus_fmt_def)

lemma parse_tag_list_ok:
  assumes "\<forall>g \<in> set gs. tag_wf g" "i = length pre"
  shows "parse_tag_list (pre @ concat (map tag_bytes gs)) i (length gs) = Some (map py_tag_of gs)"
  using assms
proof (induction gs arbitrary: pre i)
  case (Cons g gs)
  then have l: "length (tag_bytes g) = 46" by (simp add: length_tag_bytes)
  have "parse_tag_list ((pre @ tag_bytes g) @ concat (map tag_bytes gs)) (i + 46) (length gs) = Some (map py_tag_of gs)"
    by (rule Cons.IH) (use Cons.prems l in simp_all)
  then show ?case using Cons.prems l by (simp add: unpack_tag)
qed simp

lemma parse_tags_ok:
  assumes g: "tag_wf g" and gs: "\<forall>g \<in> set gs. tag_wf g" and n: "length gs \<le> 255"
  shows "parse_tags (tags_payload locked g t gs) =
    Some \<lparr>py_has_lock = of_bool locked, py_locked_tag = py_tag_of g, py_landing_target = py_target_of t,
          py_tag_list = map py_tag_of gs\<rparr>"
proof -
  let ?h = "[of_nat (length gs), if locked then 1 else 0] :: bytes"
  have l: "length (tag_bytes g) = 46" "length (landing_target_bytes t) = 22"
    using g by (simp_all add: length_tag_bytes length_landing_target_bytes)
  have u: "unat (of_nat (length gs) :: u8) = length gs"
    using n by (simp add: unat_of_nat take_bit_nat_eq_self_iff)
  have p: "parse_tag_list ((?h @ tag_bytes g @ landing_target_bytes t) @ concat (map tag_bytes gs)) 70 (length gs) =
      Some (map py_tag_of gs)"
    by (rule parse_tag_list_ok [OF gs]) (simp add: l)
  then show ?thesis
    using l u by (simp add: parse_tags_def tags_payload_def unpack_tag [OF g] unpack_target)
qed

lemma unpack_status:
  "struct_unpack TelemetryStatus_fmt (status_bytes \<lparr>st_upTimeMs = up, st_cameraFps = fps, st_freeHeap = heap,
      st_params = p, st_ap = ap_bytes a\<rparr>) =
   Some ([uint up, uint fps, uint heap, uint (dp_quad_decimate p), uint (dp_quad_sigma p),
          of_bool (dp_refine_edges p), uint (dp_decode_sharpening p)] @ py_ap_of a)"
  by (simp add: struct_unpack_def)
    (simp add: TelemetryStatus_fmt_def status_bytes_def ap_bytes_def unpack_simps py_ap_of_def)

lemma rstrip0_pad: "s = [] \<or> last s \<noteq> 0 \<Longrightarrow> rstrip0 (s @ replicate n 0) = s"
proof -
  have d: "dropWhile (\<lambda>b. b = 0) (replicate n 0 @ r) = dropWhile (\<lambda>b. b = 0) r" for r :: bytes
    by (induction n) simp_all
  show "s = [] \<or> last s \<noteq> 0 \<Longrightarrow> rstrip0 (s @ replicate n 0) = s"
    by (cases s rule: rev_cases) (auto simp: rstrip0_def d)
qed


subsection \<open>Log messages\<close>

abbreviation ascii :: "bytes \<Rightarrow> bool" where
  "ascii bs \<equiv> list_all (\<lambda>b. b < 128) bs"

definition log_ok :: "telemetry_log \<Rightarrow> bool" where
  "log_ok l \<longleftrightarrow> log_msg l = strncpy (log_msg l) TELEMTRY_LOG_MSG_MAX_SIZE @ [0] \<and> ascii (log_msg l)"

definition py_log_of :: "telemetry_log \<Rightarrow> py_log" where
  "py_log_of l = \<lparr>py_level = uint (log_level l), py_group = uint (log_group l), py_timestamp = uint (log_timestamp l),
     py_msg = cstr (log_msg l)\<rparr>"

lemma ascii_cstr: "ascii s \<Longrightarrow> ascii (cstr s)"
  by (auto simp: cstr_def list_all_iff dest: set_takeWhileD)

lemma ascii_strncpy: "ascii s \<Longrightarrow> ascii (strncpy s n)"
  using ascii_cstr [of s] by (auto simp: strncpy_def Let_def list_all_iff dest: in_set_takeD)

lemma strncpy_id: "strncpy (strncpy s n @ [0]) n = strncpy s n"
  by (simp add: strncpy_def [of "_ @ _"] cstr_strncpy_0) (simp add: strncpy_def Let_def)

lemma log_ok_make:
  "ascii msg \<Longrightarrow> log_ok \<lparr>log_level = lv, log_group = gp, log_timestamp = now,
     log_msg = strncpy (vsnprintf 100 msg) TELEMTRY_LOG_MSG_MAX_SIZE @ [0]\<rparr>"
proof -
  assume "ascii msg"
  then have "ascii (vsnprintf 100 msg)"
    using ascii_cstr by (auto simp: vsnprintf_def list_all_iff dest: in_set_takeD)
  then show ?thesis by (simp add: log_ok_def strncpy_id ascii_strncpy)
qed

text \<open>What is left of a message: its first 99 bytes, up to a NUL.\<close>

lemma cstr_logged: "cstr (strncpy (vsnprintf 100 msg) TELEMTRY_LOG_MSG_MAX_SIZE @ [0]) = take 99 (cstr msg)"
proof -
  have "0 \<notin> set (take 99 (cstr msg))" using cstr_nonzero in_set_takeD by metis
  then show ?thesis by (simp add: cstr_strncpy_0 vsnprintf_def cstr_append_0 TELEMTRY_LOG_MSG_MAX_SIZE_def)
qed

lemma parse_log_ok: "log_ok l \<Longrightarrow> parse_log (log_bytes l) = Some (py_log_of l)"
proof -
  assume "log_ok l"
  then have m: "log_msg l = strncpy (log_msg l) 100 @ [0]" and a: "ascii (log_msg l)"
    by (simp_all add: log_ok_def TELEMTRY_LOG_MSG_MAX_SIZE_def)
  define s where "s = take 100 (cstr (log_msg l))"
  have z: "0 \<notin> set s" using cstr_nonzero in_set_takeD unfolding s_def by metis
  have e: "log_msg l = s @ replicate (Suc (100 - length s)) 0"
    using m unfolding strncpy_def Let_def s_def by (simp add: replicate_append_same)
  have "s = [] \<or> last s \<noteq> 0" using z by (metis last_in_set)
  from rstrip0_pad [OF this] have r: "rstrip0 (log_msg l) = s" unfolding e .
  have c: "cstr (log_msg l) = s" using cstr_append_0 [OF z] unfolding e by simp
  have u: "struct_unpack TelemetryLog_fmt (take 6 (log_bytes l)) = Some [uint (log_level l), uint (log_group l), uint (log_timestamp l)]"
    by (simp add: struct_unpack_def) (simp add: log_bytes_def TelemetryLog_fmt_def unpack_simps)
  have d: "drop 6 (log_bytes l) = log_msg l" by (simp add: log_bytes_def)
  show ?thesis by (simp add: parse_log_def u d a r c py_log_of_def)
qed

subsection \<open>The receive loop\<close>

lemma client_packet:
  assumes "t \<in> {0x01, 0x02, 0x03}" "length p \<le> 512" "py_parse_packet t p = Some q"
  shows "client_packets ((le16 0x1234 @ [t] @ le16 (of_nat (length p)) @ p) @ rest) = q # client_packets rest"
proof -
  let ?h = "le16 0x1234 @ [t] @ le16 (of_nat (length p))"
  have u: "unat (of_nat (length p) :: u16) = length p"
    using assms(2) by (simp add: unat_of_nat take_bit_nat_eq_self_iff)
  have "py_parse_header ?h = Some (t, length p)"
    using assms(1,2) by (auto simp: py_parse_header_def u nth_append)
  moreover have h: "length ?h = 5" by simp
  moreover have "take 5 ((?h @ p) @ rest) = ?h" "take (length p) (drop 5 ((?h @ p) @ rest)) = p"
    "drop (5 + length p) ((?h @ p) @ rest) = rest" "length ((?h @ p) @ rest) = 5 + length p + length rest"
    using h by (simp_all only: append_assoc take_append drop_append length_append) simp_all
  ultimately have "client_packets ((?h @ p) @ rest) = q # client_packets rest"
    using assms(2,3) by (subst client_packets.simps) (simp only: option.case prod.case if_False, simp)
  then show ?thesis by simp
qed

lemma client_packets_Nil [simp]: "client_packets [] = []"
  by (simp add: client_packets.simps)


subsection \<open>The server's state\<close>

definition te_ok :: "telemetry \<Rightarrow> bool" where
  "te_ok te \<longleftrightarrow> parser_ok (tl_parser te) \<and> list_all log_ok (lq_queue (tl_logQueue te)) \<and> tag_wf (tl_lockedTag te)"

lemma ascii_dec_digits: "ascii (dec_digits n)"
proof (induction n rule: dec_digits.induct)
  case (1 n)
  have d: "(of_nat (48 + k) :: u8) < 128" if "k < 10" for k
    using that by (simp add: word_less_nat_alt unat_of_nat take_bit_nat_eq_self_iff del: of_nat_add of_nat_numeral)
  show ?case using 1 d [of n] d [of "n mod 10"] by (subst dec_digits.simps) (simp del: of_nat_add)
qed

lemma ascii_show_d: "ascii (show_d i)"
  by (simp add: show_d_def ascii_dec_digits)

lemma ascii_show_02x: "ascii (show_02x b)"
proof -
  have "(hex_digit k :: u8) < 128" if "k < 16" for k
    using that by (auto simp: hex_digit_def word_less_nat_alt unat_of_nat take_bit_nat_eq_self_iff
        simp del: of_nat_add of_nat_numeral)
  then show ?thesis using unat_u8_less [of b] by (simp add: show_02x_def)
qed

lemma log_line_ok: "te_ok te \<Longrightarrow> ascii msg \<Longrightarrow> te_ok (log_line clk te lv msg)"
  using log_ok_make [of msg]
  by (auto simp: te_ok_def log_line_def hal_millis_def telem_printf_def sendLogMsg_def lq_push_def LinuxQueue_push_def
      Let_def TELEMTRY_LOG_MSG_MAX_SIZE_def)

lemma ascii_lits: "ascii (lit ''Running pre-arm check'')" "ascii (lit ''Arming'')" "ascii (lit ''Disarming'')"
  "ascii (lit ''Takeoff'')" "ascii (lit ''Landing'')" "ascii (lit ''Rebooting'')" "ascii (lit ''Rebooting AP'')"
  "ascii (lit ''Unknown action '')" "ascii (lit ''Unkown command type: '')" "ascii NL"
  by (simp_all add: lit_def NL_def of_char_def)

lemma effect_ok: "te_ok te \<Longrightarrow> te_ok (effect te e)"
  by (simp add: te_ok_def effect_def)

lemma handle_ok: "te_ok te \<Longrightarrow> te_ok (handleTelemetryCommand clk te p)"
proof -
  assume t: "te_ok te"
  have "te_ok (te\<lparr>tl_params := x\<rparr>)" "te_ok (te\<lparr>tl_lastTelemetryPing := y, tl_ticks := n\<rparr>)" for x y n
    using t by (simp_all add: te_ok_def)
  then show ?thesis
    by (auto simp: t handleTelemetryCommand_def handleAction_def info_def warning_def hal_millis_def
        intro!: log_line_ok effect_ok simp: ascii_lits ascii_show_d ascii_show_02x)
qed

lemma handle_keeps_locked: "tl_lockedTag (handleTelemetryCommand clk te p) = tl_lockedTag te"
  by (simp add: handleTelemetryCommand_def handleAction_def info_def warning_def log_line_def effect_def hal_millis_def)

lemma telemetry_rx_ok:
  assumes "te_ok te"
  shows "\<exists>te'. telemetry_rx clk te b = Inr te' \<and> te_ok te' \<and> tl_lockedTag te' = tl_lockedTag te"
proof -
  from assms have "parser_ok (tl_parser te)" by (simp add: te_ok_def)
  then obtain tp r where p: "parseByte (tl_parser te) b = Inr (tp, r)" "parser_ok tp" by (rule parseByte_total)
  have "te_ok (te\<lparr>tl_parser := tp\<rparr>)" using assms p(2) by (simp add: te_ok_def)
  then show ?thesis
    by (cases r) (simp_all add: telemetry_rx_def p(1) handle_ok handle_keeps_locked)
qed

lemma telemetry_rx_all:
  assumes "te_ok te"
  shows "\<exists>te'. foldE (telemetry_rx clk) bs te = Inr te' \<and> te_ok te' \<and> tl_lockedTag te' = tl_lockedTag te"
  using assms
proof (induction bs arbitrary: te)
  case (Cons b bs)
  from telemetry_rx_ok [OF Cons.prems] obtain t where t: "telemetry_rx clk te b = Inr t" "te_ok t"
    "tl_lockedTag t = tl_lockedTag te" by blast
  with Cons.IH [OF t(2)] show ?case by simp
qed simp


subsection \<open>Commands\<close>

datatype py_command = TelemetryPing | TelemetryCommandSetDetectionParams tag_detection_params | TelemetryCommandAction u8

fun to_bytes :: "py_command \<Rightarrow> bytes" where
  "to_bytes TelemetryPing = [0x10, 0]"
| "to_bytes (TelemetryCommandSetDetectionParams p) = [0x30, of_nat (length (py_params_bytes p))] @ py_params_bytes p"
| "to_bytes (TelemetryCommandAction a) = [0x31, 1, a]"

fun command_effect :: "clock \<Rightarrow> telemetry \<Rightarrow> py_command \<Rightarrow> telemetry" where
  "command_effect clk te TelemetryPing = te\<lparr>tl_lastTelemetryPing := clk (tl_ticks te), tl_ticks := Suc (tl_ticks te)\<rparr>"
| "command_effect clk te (TelemetryCommandSetDetectionParams p) = te\<lparr>tl_params := p\<rparr>"
| "command_effect clk te (TelemetryCommandAction a) = handleAction clk te a"

definition command_packet :: "py_command \<Rightarrow> u8 \<times> bytes" where
  "command_packet c = (case c of TelemetryPing \<Rightarrow> (0x10, [])
     | TelemetryCommandSetDetectionParams p \<Rightarrow> (0x30, py_params_bytes p) | TelemetryCommandAction a \<Rightarrow> (0x31, [a]))"

lemma to_bytes_packet: "to_bytes c = py_command_bytes (command_packet c)"
  by (cases c) (simp_all add: py_command_bytes_def command_packet_def)

lemma handle_command:
  assumes "(rx_type p, take (unat (rx_len p)) (rx_data p)) = command_packet c" "length (rx_data p) = 255"
  shows "handleTelemetryCommand clk te p = command_effect clk te c"
proof (cases c)
  case (TelemetryCommandSetDetectionParams q)
  then have t: "rx_type p = 0x30" and "take (unat (rx_len p)) (rx_data p) = py_params_bytes q"
    using assms(1) by (simp_all add: command_packet_def)
  then have "rx_data p = py_params_bytes q @ drop (unat (rx_len p)) (rx_data p)" by (metis append_take_drop_id)
  then have "cast_params (rx_data p) = q" by (metis cast_params_ok)
  with t TelemetryCommandSetDetectionParams show ?thesis by (simp add: handleTelemetryCommand_def)
next
  case (TelemetryCommandAction a)
  then have t: "rx_type p = 0x31" and "take (unat (rx_len p)) (rx_data p) = [a]"
    using assms(1) by (simp_all add: command_packet_def)
  then have "rx_data p ! 0 = a" by (cases "rx_data p"; cases "unat (rx_len p)") simp_all
  with t TelemetryCommandAction show ?thesis by (simp add: handleTelemetryCommand_def)
qed (use assms in \<open>simp add: command_packet_def handleTelemetryCommand_def hal_millis_def\<close>)


text \<open>The bytes of one read.\<close>

definition read_commands :: "clock \<Rightarrow> telemetry \<Rightarrow> bytes \<Rightarrow> cerr + telemetry" where
  "read_commands clk te bs = foldE (telemetry_rx clk) bs te"

lemma commands_run:
  assumes "parser_ok (tl_parser te)" "tp_parseState (tl_parser te) = PARSE_STATE_TYPE"
    and "concat reads = concat (map to_bytes cs)"
  shows "\<exists>tp. parser_ok tp \<and> tp_parseState tp = PARSE_STATE_TYPE \<and>
    foldE (read_commands clk) reads te = Inr ((foldl (command_effect clk) te cs)\<lparr>tl_parser := tp\<rparr>)"
proof -
  have l: "\<forall>c \<in> set (map command_packet cs). length (snd c) \<le> 255"
    by (auto simp: command_packet_def py_params_bytes_def split: py_command.splits)
  obtain tp pkts where p: "foldE parse_step (concat (map py_command_bytes (map command_packet cs))) (tl_parser te, []) =
      Inr (tp, [] @ pkts)" "parser_ok tp" "tp_parseState tp = PARSE_STATE_TYPE"
    "map (\<lambda>p. (rx_type p, take (unat (rx_len p)) (rx_data p))) pkts = map command_packet cs"
    "\<forall>p \<in> set pkts. length (rx_data p) = 255"
    using parse_commands [OF assms(1,2) l, of "[]"] by blast
  have b: "concat (map py_command_bytes (map command_packet cs)) = concat reads"
    by (simp add: assms(3) comp_def flip: to_bytes_packet)
  have h: "foldl (handleTelemetryCommand clk) te pkts = foldl (command_effect clk) te cs" if
    "map (\<lambda>p. (rx_type p, take (unat (rx_len p)) (rx_data p))) pkts = map command_packet cs"
    "\<forall>p \<in> set pkts. length (rx_data p) = 255" for te pkts cs
    using that
  proof (induction cs arbitrary: te pkts)
    case (Cons c cs)
    then obtain p ps where "pkts = p # ps" by (cases pkts) auto
    with Cons show ?case by (simp add: handle_command [of p c])
  qed simp
  have "foldE (telemetry_rx clk) (concat reads) te = Inr ((foldl (command_effect clk) te cs)\<lparr>tl_parser := tp\<rparr>)"
    using telemetry_rx_stream [OF p(1), of clk] h [OF p(4,5), of te] unfolding b by simp
  moreover have "foldE (read_commands clk) reads te = foldE (telemetry_rx clk) (concat reads) te"
    by (induction reads arbitrary: te) (auto simp: read_commands_def foldE_append intro!: bindE_cong)
  ultimately show ?thesis using p(2,3) by auto
qed

text \<open>C5: However the byte stream of the client's commands is cut into reads, each command takes its
  effect once, in order, and the parser is back at the start of a packet.\<close>

theorem commands_delivered:
  assumes "parser_ok (tl_parser te)" "tp_parseState (tl_parser te) = PARSE_STATE_TYPE"
    and "concat reads = concat (map to_bytes cs)"
  shows "\<exists>tp. parser_ok tp \<and> tp_parseState tp = PARSE_STATE_TYPE \<and>
    foldE (read_commands clk) reads te = Inr ((foldl (command_effect clk) te cs)\<lparr>tl_parser := tp\<rparr>)"
  using assms by (rule commands_run)

definition te_start :: telemetry where
  "te_start = \<lparr>tl_logQueue = LinuxQueue 10,
     tl_parser = TelemetryPacketParser \<lparr>tp_parseState = PARSE_STATE_TYPE,
       tp_rxPacket = \<lparr>rx_type = 0, rx_len = 0, rx_data = replicate 255 0\<rparr>, tp_parsedDataBytes = 0\<rparr>,
     tl_lastTelemetryPing = 0,
     tl_lockedTag = \<lparr>tag_id = 0, tag_lastSeen = 0, tag_center = \<lparr>px = 0, py = 0\<rparr>, tag_p = replicate 4 \<lparr>px = 0, py = 0\<rparr>\<rparr>,
     tl_params = \<lparr>dp_quad_decimate = 0, dp_quad_sigma = 0, dp_refine_edges = False, dp_decode_sharpening = 0\<rparr>,
     tl_effects = [], tl_ticks = 0\<rparr>"

lemma te_start_ok: "te_ok te_start" "parser_ok (tl_parser te_start)" "tp_parseState (tl_parser te_start) = PARSE_STATE_TYPE"
  by (simp_all add: te_start_def te_ok_def TelemetryPacketParser_def resetParseState_def parser_ok_def LinuxQueue_def tag_wf_def)

lemma commands_delivered_witness:
  "\<exists>tp. parser_ok tp \<and> tp_parseState tp = PARSE_STATE_TYPE \<and>
    foldE (read_commands (\<lambda>n. of_nat (7 * n))) [[0x10, 0, 0x31], [], [1, 0x06]] te_start =
    Inr ((foldl (command_effect (\<lambda>n. of_nat (7 * n))) te_start [TelemetryPing, TelemetryCommandAction 0x06])\<lparr>tl_parser := tp\<rparr>)"
  by (rule commands_delivered [OF te_start_ok(2,3)]) simp

text \<open>No bytes from the network make the server fail: from the constructor on, every stream is
  parsed without a write outside the packet buffer and the state stays well formed.\<close>

lemma commands_total:
  assumes "te_ok te" "length (rx_data (tp_rxPacket mem)) = 255"
  shows "\<exists>te'. foldE (telemetry_rx clk) bs (te\<lparr>tl_parser := TelemetryPacketParser mem\<rparr>) = Inr te' \<and> te_ok te'"
proof -
  have "te_ok (te\<lparr>tl_parser := TelemetryPacketParser mem\<rparr>)"
    using assms by (simp add: te_ok_def TelemetryPacketParser_def resetParseState_def parser_ok_def)
  from telemetry_rx_all [OF this] show ?thesis by blast
qed


subsection \<open>Updates\<close>

definition py_tags_of :: "bool \<Rightarrow> float32 tag_t \<Rightarrow> float32 landing_target_t \<Rightarrow> float32 tag_t list \<Rightarrow> py_tags" where
  "py_tags_of locked g t gs = \<lparr>py_has_lock = of_bool locked, py_locked_tag = py_tag_of g,
     py_landing_target = py_target_of t, py_tag_list = map py_tag_of gs\<rparr>"

definition py_status_of :: "u32 \<Rightarrow> u8 \<Rightarrow> u32 \<Rightarrow> tag_detection_params \<Rightarrow> ap_t \<Rightarrow> int list" where
  "py_status_of up fps heap p a = [uint up, uint fps, uint heap, uint (dp_quad_decimate p), uint (dp_quad_sigma p),
     of_bool (dp_refine_edges p), uint (dp_decode_sharpening p)] @ py_ap_of a"

definition packet :: "u8 \<Rightarrow> bytes \<Rightarrow> bytes" where
  "packet t p = le16 0x1234 @ [t] @ le16 (of_nat (length p)) @ p"

lemma client_packet': "t \<in> {0x01, 0x02, 0x03} \<Longrightarrow> length p \<le> 512 \<Longrightarrow> py_parse_packet t p = Some q \<Longrightarrow>
    client_packets (packet t p @ rest) = q # client_packets rest"
  unfolding packet_def by (rule client_packet)

lemma send_whole: "length p \<le> 512 \<Longrightarrow> sendTelemetryPacket t p (of_nat (length p)) = Inr (packet t p)"
  using sendTelemetryPacket_prefix [of p t "[]"] by (simp add: packet_def)

lemma length_log_bytes: "log_ok l \<Longrightarrow> length (log_bytes l) = 107"
proof -
  assume "log_ok l"
  then have "length (log_msg l) = length (strncpy (log_msg l) 100 @ [0])"
    unfolding log_ok_def TELEMTRY_LOG_MSG_MAX_SIZE_def by metis
  then show ?thesis by (simp add: log_bytes_def)
qed

lemma send_logs:
  assumes "list_all log_ok ls"
  shows "foldE (\<lambda>out l. bindE (sendTelemetryPacket 0x03 (log_bytes l) (of_nat (length (log_bytes l)))) (\<lambda>p. Inr (out @ [p]))) ls out =
    Inr (out @ map (packet 0x03 \<circ> log_bytes) ls)"
proof -
  have s: "log_ok l \<Longrightarrow> sendTelemetryPacket t (log_bytes l) (of_nat (length (log_bytes l))) = Inr (packet t (log_bytes l))" for t l
    by (rule send_whole) (simp add: length_log_bytes)
  show ?thesis using assms by (induction ls arbitrary: out) (simp_all add: s)
qed

lemma client_logs:
  assumes "list_all log_ok ls"
  shows "client_packets (concat (map (packet 0x03 \<circ> log_bytes) ls) @ rest) = map (PyLog \<circ> py_log_of) ls @ client_packets rest"
  using assms
proof (induction ls)
  case (Cons l ls)
  then have l: "log_ok l" by simp
  show ?case
    using Cons client_packet' [of "0x03" "log_bytes l" "PyLog (py_log_of l)"] length_log_bytes [OF l]
    by (simp add: py_parse_packet_def parse_log_ok [OF l])
qed simp

lemma client_status:
  "client_packets (packet 0x01 (status_bytes \<lparr>st_upTimeMs = up, st_cameraFps = fps, st_freeHeap = heap, st_params = p,
      st_ap = ap_bytes a\<rparr>) @ rest) = PyStatus (py_status_of up fps heap p a) # client_packets rest"
  by (rule client_packet') (simp_all add: py_parse_packet_def unpack_status py_status_of_def, simp add: status_bytes_def)

lemma length_tags_payload:
  "tag_wf g \<Longrightarrow> \<forall>g \<in> set gs. tag_wf g \<Longrightarrow> length (tags_payload locked g t gs) = 70 + length gs * 46"
  by (simp add: tags_payload_def length_tag_bytes length_landing_target_bytes length_tags_bytes)

lemma client_tags:
  assumes "tag_wf g" "\<forall>g \<in> set gs. tag_wf g" "length gs \<le> 9"
  shows "client_packets (packet 0x02 (tags_payload locked g t gs) @ rest) = PyTags (py_tags_of locked g t gs) # client_packets rest"
  by (rule client_packet') (use assms in \<open>simp_all add: py_parse_packet_def parse_tags_ok py_tags_of_def length_tags_payload\<close>)

lemma update_run:
  assumes te: "te_ok te" and inv: "tt_inv (td_tagTracker td)"
    and wf: "\<forall>g \<in> set (tracked (td_tagTracker td)). tag_wf g" and n: "length (tracked (td_tagTracker td)) \<le> 9"
  obtains te1 g locked where "foldE (telemetry_rx clk) rx te = Inr te1" "te_ok te1"
    "getLockedTag td (tl_lockedTag te) = (g, locked)" "tag_wf g"
    "telemetry_update clk True rx fps heap (ap_bytes a) te td = Inr
       (te1\<lparr>tl_ticks := Suc (tl_ticks te1), tl_logQueue := (tl_logQueue te1)\<lparr>lq_queue := []\<rparr>, tl_lockedTag := g\<rparr>,
        [packet 0x01 (status_bytes \<lparr>st_upTimeMs = clk (tl_ticks te1), st_cameraFps = fps, st_freeHeap = heap,
           st_params = tl_params te1, st_ap = ap_bytes a\<rparr>)] @
        map (packet 0x03 \<circ> log_bytes) (lq_queue (tl_logQueue te1)) @
        [packet 0x02 (tags_payload locked g (if locked then getLandingTarget td else zero_landing_target)
           (tracked (td_tagTracker td)))])"
proof -
  obtain te1 where t1: "foldE (telemetry_rx clk) rx te = Inr te1" "te_ok te1" "tl_lockedTag te1 = tl_lockedTag te"
    using telemetry_rx_all [OF te] by blast
  let ?status = "status_bytes \<lparr>st_upTimeMs = clk (tl_ticks te1), st_cameraFps = fps, st_freeHeap = heap,
    st_params = tl_params te1, st_ap = ap_bytes a\<rparr>"
  let ?q = "tl_logQueue te1" and ?gs = "tracked (td_tagTracker td)"
  let ?te = "te1\<lparr>tl_ticks := Suc (tl_ticks te1), tl_logQueue := ?q\<lparr>lq_queue := []\<rparr>\<rparr>"
  have lw: "tag_wf (tl_lockedTag te1)" and ls: "list_all log_ok (lq_queue ?q)" using t1(2) by (simp_all add: te_ok_def)
  obtain g locked where g: "getLockedTag td (tl_lockedTag te) = (g, locked)" "tag_wf g"
    and st: "send_tags ?te td = Inr (?te\<lparr>tl_lockedTag := g\<rparr>, packet 0x02 (tags_payload locked g
       (if locked then getLandingTarget td else zero_landing_target) ?gs))"
    using send_tags_ok [OF inv wf _ n, of ?te] lw t1(3) by (auto simp: packet_def Let_def)
  have s: "sendTelemetryPacket 0x01 ?status (of_nat (length ?status)) = Inr (packet 0x01 ?status)"
    by (rule send_whole) (simp add: status_bytes_def)
  let ?out = "[packet 0x01 ?status] @ map (packet 0x03 \<circ> log_bytes) (lq_queue ?q) @ [packet 0x02 (tags_payload locked g
       (if locked then getLandingTarget td else zero_landing_target) ?gs)]"
  have "telemetry_update clk True rx fps heap (ap_bytes a) te td = Inr (?te\<lparr>tl_lockedTag := g\<rparr>, ?out)"
    using st by (simp add: telemetry_update_def t1(1) hal_millis_def Let_def s drain_queue_ok send_logs [OF ls] del: status_bytes_def)
  from that [OF t1(1,2) g this] show thesis by simp
qed

text \<open>C1: With at most nine tracked tags an update reads its commands, empties the log queue and sends
  packets from which the client reads back the status with every field of the autopilot, the queued
  messages in order, and the lock, the landing target and all tracked tags.\<close>

theorem update_received:
  assumes te: "te_ok te" and inv: "tt_inv (td_tagTracker td)"
    and wf: "\<forall>g \<in> set (tracked (td_tagTracker td)). tag_wf g" and n: "length (tracked (td_tagTracker td)) \<le> 9"
  shows "\<exists>te1 te2 out g locked.
    read_commands clk te rx = Inr te1 \<and> getLockedTag td (tl_lockedTag te) = (g, locked) \<and>
    telemetry_update clk True rx fps heap (ap_bytes a) te td = Inr (te2, out) \<and>
    te_ok te2 \<and> lq_queue (tl_logQueue te2) = [] \<and>
    client_packets (concat out @ rest) =
      PyStatus (py_status_of (clk (tl_ticks te1)) fps heap (tl_params te1) a) #
      map (PyLog \<circ> py_log_of) (lq_queue (tl_logQueue te1)) @
      PyTags (py_tags_of locked g (if locked then getLandingTarget td else zero_landing_target) (tracked (td_tagTracker td))) #
      client_packets rest"
proof -
  obtain te1 g locked where r: "foldE (telemetry_rx clk) rx te = Inr te1" "te_ok te1"
    "getLockedTag td (tl_lockedTag te) = (g, locked)" "tag_wf g"
    "telemetry_update clk True rx fps heap (ap_bytes a) te td = Inr
       (te1\<lparr>tl_ticks := Suc (tl_ticks te1), tl_logQueue := (tl_logQueue te1)\<lparr>lq_queue := []\<rparr>, tl_lockedTag := g\<rparr>,
        [packet 0x01 (status_bytes \<lparr>st_upTimeMs = clk (tl_ticks te1), st_cameraFps = fps, st_freeHeap = heap,
           st_params = tl_params te1, st_ap = ap_bytes a\<rparr>)] @
        map (packet 0x03 \<circ> log_bytes) (lq_queue (tl_logQueue te1)) @
        [packet 0x02 (tags_payload locked g (if locked then getLandingTarget td else zero_landing_target)
           (tracked (td_tagTracker td)))])"
    by (rule update_run [OF assms])
  have ls: "list_all log_ok (lq_queue (tl_logQueue te1))" using r(2) by (simp add: te_ok_def)
  have "te_ok (te1\<lparr>tl_ticks := Suc (tl_ticks te1), tl_logQueue := (tl_logQueue te1)\<lparr>lq_queue := []\<rparr>, tl_lockedTag := g\<rparr>)"
    using r(2,4) by (simp add: te_ok_def)
  then show ?thesis using r(1,3,5) client_logs [OF ls] client_tags [OF r(4) wf n]
    by (auto simp: read_commands_def client_status)
qed

text \<open>A detector that tracks the tags 0 to \<open>n - 1\<close>.\<close>

definition td_with :: "nat \<Rightarrow> float32 target_detector" where
  "td_with n =
    (let z = \<lparr>px = 0, py = 0\<rparr> in
     \<lparr>td_config = \<lparr>dc_img_width = 0, dc_img_height = 0, dc_camera_fov = 0\<rparr>, td_nbr_of_tags_detected = 0,
      td_landing_target = zero_landing_target, td_targetTagId = 0, td_tagLock = HysteresisLock 5 2 0,
      td_tagTracker = \<lparr>tt_tags = map (\<lambda>i. \<lparr>tag_id = of_nat i, tag_lastSeen = 0, tag_center = z, tag_p = [z, z, z, z]\<rparr>) [0..<10],
        tt_count = n\<rparr>\<rparr>)"

lemma td_with_ok:
  assumes "n \<le> 10"
  shows "tt_inv (td_tagTracker (td_with n))" "\<forall>g \<in> set (tracked (td_tagTracker (td_with n))). tag_wf g"
    "length (tracked (td_tagTracker (td_with n))) = n"
proof -
  have "inj_on (\<lambda>i. of_nat i :: u16) {0..<n}"
  proof (rule inj_onI)
    fix i j assume a: "i \<in> {0..<n}" "j \<in> {0..<n}" "(of_nat i :: u16) = of_nat j"
    have u: "unat (of_nat k :: u16) = k" if "k < n" for k
      using that assms by (simp add: unat_of_nat take_bit_nat_eq_self_iff)
    from a(1,2) have "i < n" "j < n" by simp_all
    then show "i = j" by (metis u a(3))
  qed
  with assms show "tt_inv (td_tagTracker (td_with n))"
    by (simp add: tt_inv_def td_with_def Let_def MAX_TAGS_def tracked_def take_map distinct_map comp_def)
qed (use assms in \<open>auto simp: td_with_def Let_def tracked_def take_map tag_wf_def\<close>)

lemma update_received_witness:
  "\<exists>te1 te2 out g locked.
    read_commands of_nat te_start [0x31, 1, 0x02] = Inr te1 \<and> getLockedTag (td_with 9) (tl_lockedTag te_start) = (g, locked) \<and>
    telemetry_update of_nat True [0x31, 1, 0x02] 25 1000 (ap_bytes ap_zero) te_start (td_with 9) = Inr (te2, out) \<and>
    te_ok te2 \<and> lq_queue (tl_logQueue te2) = [] \<and>
    client_packets (concat out @ []) =
      PyStatus (py_status_of (of_nat (tl_ticks te1)) 25 1000 (tl_params te1) ap_zero) #
      map (PyLog \<circ> py_log_of) (lq_queue (tl_logQueue te1)) @
      PyTags (py_tags_of locked g (if locked then getLandingTarget (td_with 9) else zero_landing_target)
        (tracked (td_tagTracker (td_with 9)))) # client_packets []"
  by (rule update_received [OF te_start_ok(1)]) (use td_with_ok [of 9] in simp_all)

text \<open>C39: With ten tracked tags, which the tracker allows, the tag packet of 530 bytes is copied past
  the end of the 512-byte buffer: every such update of a connected client fails.\<close>

theorem update_overflow:
  assumes te: "te_ok te" and inv: "tt_inv (td_tagTracker td)"
    and wf: "\<forall>g \<in> set (tracked (td_tagTracker td)). tag_wf g" and n: "length (tracked (td_tagTracker td)) = 10"
  shows "telemetry_update clk True rx fps heap (ap_bytes a) te td = Inl OutOfBounds"
proof -
  obtain te1 where t1: "foldE (telemetry_rx clk) rx te = Inr te1" "te_ok te1"
    using telemetry_rx_all [OF te] by blast
  let ?te = "te1\<lparr>tl_ticks := Suc (tl_ticks te1), tl_logQueue := (tl_logQueue te1)\<lparr>lq_queue := []\<rparr>\<rparr>"
  let ?status = "status_bytes \<lparr>st_upTimeMs = clk (tl_ticks te1), st_cameraFps = fps, st_freeHeap = heap,
    st_params = tl_params te1, st_ap = ap_bytes a\<rparr>"
  have lw: "tag_wf (tl_lockedTag ?te)" and ls: "list_all log_ok (lq_queue (tl_logQueue te1))"
    using t1(2) by (simp_all add: te_ok_def)
  have s: "sendTelemetryPacket 0x01 ?status (of_nat (length ?status)) = Inr (packet 0x01 ?status)"
    by (rule send_whole) (simp add: status_bytes_def)
  have "send_tags ?te td = Inl OutOfBounds" by (rule send_tags_overflow [OF inv wf lw n])
  then show ?thesis
    by (simp add: telemetry_update_def t1(1) hal_millis_def Let_def s drain_queue_ok send_logs [OF ls])
qed

lemma update_overflow_witness:
  "telemetry_update of_nat True [] 25 1000 (ap_bytes ap_zero) te_start (td_with 10) = Inl OutOfBounds"
  by (rule update_overflow [OF te_start_ok(1)]) (use td_with_ok [of 10] in simp_all)

subsection \<open>The log\<close>

definition log_record :: "u8 \<Rightarrow> u32 \<Rightarrow> bytes \<Rightarrow> telemetry_log" where
  "log_record lv now msg = \<lparr>log_level = lv, log_group = LOG_GROUP_MAIN, log_timestamp = now,
     log_msg = strncpy (vsnprintf TELEMTRY_LOG_MSG_MAX_SIZE msg) TELEMTRY_LOG_MSG_MAX_SIZE @ [0]\<rparr>"

definition log_lines :: "clock \<Rightarrow> telemetry \<Rightarrow> (u8 \<times> bytes) list \<Rightarrow> telemetry" where
  "log_lines clk te ms = foldl (\<lambda>te (lv, msg). log_line clk te lv msg) te ms"

lemma log_lines_push:
  "tl_logQueue (log_lines clk te ms) = foldl (\<lambda>q x. fst (lq_push q x)) (tl_logQueue te)
     (map (\<lambda>(i, lv, msg). log_record lv (clk i) msg) (enumerate (tl_ticks te) ms))"
proof (induction ms arbitrary: te)
  case (Cons m ms)
  then show ?case
    by (cases m) (simp add: log_lines_def log_line_def hal_millis_def telem_printf_def sendLogMsg_def log_record_def)
qed (simp add: log_lines_def)

text \<open>The log keeps messages in order, each with the time it was written and its first 99 bytes,
  until the queue is full, and drops the later ones.\<close>

theorem log_fifo:
  assumes "length (lq_queue (tl_logQueue te)) \<le> lq_queueSize (tl_logQueue te)"
  shows "lq_queue (tl_logQueue (log_lines clk te ms)) = lq_queue (tl_logQueue te) @
      take (lq_queueSize (tl_logQueue te) - length (lq_queue (tl_logQueue te)))
        (map (\<lambda>(i, lv, msg). log_record lv (clk i) msg) (enumerate (tl_ticks te) ms)) \<and>
    py_msg (py_log_of (log_record lv now msg)) = take 99 (cstr msg)"
proof
  show "lq_queue (tl_logQueue (log_lines clk te ms)) = lq_queue (tl_logQueue te) @
      take (lq_queueSize (tl_logQueue te) - length (lq_queue (tl_logQueue te)))
        (map (\<lambda>(i, lv, msg). log_record lv (clk i) msg) (enumerate (tl_ticks te) ms))"
    unfolding log_lines_push by (rule lq.push_all [OF assms])
  show "py_msg (py_log_of (log_record lv now msg)) = take 99 (cstr msg)"
    using cstr_logged [of msg] by (simp add: py_log_of_def log_record_def TELEMTRY_LOG_MSG_MAX_SIZE_def)
qed

lemma log_fifo_witness:
  "lq_queue (tl_logQueue (log_lines of_nat te_start (replicate 12 (1, NL)))) = lq_queue (tl_logQueue te_start) @
      take (lq_queueSize (tl_logQueue te_start) - length (lq_queue (tl_logQueue te_start)))
        (map (\<lambda>(i, lv, msg). log_record lv (of_nat i) msg) (enumerate (tl_ticks te_start) (replicate 12 (1, NL)))) \<and>
    py_msg (py_log_of (log_record 1 7 (replicate 120 65))) = take 99 (cstr (replicate 120 65))"
  by (rule log_fifo) (simp add: te_start_def LinuxQueue_def)

end
