(* ===== verification/MavCom.thy ===== *)
theory MavCom
  imports Telemetry Autopilot
begin

text \<open>
  The MAVLink side, \<open>mavcom.cpp\<close>, and the UDP transport's bookkeeping, \<open>transport_udp.cpp\<close>: messages
  of the autopilot update its state and are forwarded to the ground station, messages of the
  ground station and queued commands go to the autopilot, and the proxy starts with the first
  telemetry client. The MAVLink library is the record \<open>mavlink\<close> of its functions, its state
  \<open>'p\<close> and its messages \<open>'m\<close> are type parameters; float conversions are arguments.
\<close>

subsection \<open>The MAVLink library\<close>

text \<open>The decoded fields the program uses.\<close>

record mavlink_heartbeat =
  hb_base_mode :: u8
  hb_system_status :: u8
  hb_custom_mode :: u32

record mavlink_sys_status =
  ss_battery_remaining :: u8
  ss_voltage_battery :: u16

record mavlink_attitude =
  at_roll :: float32
  at_pitch :: float32
  at_yaw :: float32
  at_rollspeed :: float32
  at_pitchspeed :: float32
  at_yawspeed :: float32

record mavlink_rc_channels =
  rc_chans :: "u16 list"
  rc_rssi :: u8

record mavlink_position =
  po_x :: float32
  po_y :: float32
  po_z :: float32
  po_vx :: float32
  po_vy :: float32
  po_vz :: float32

record command_int =
  ci_frame :: u8
  ci_command :: u16
  ci_params :: "float32 list"

text \<open>
  \<open>ml_parse_char\<close> takes the channel and a byte; the packing functions number the messages, so they
  change the state too. The last three are the conversions \<open>(float) n\<close>, \<open>(float) n / 1000.0\<close> and
  \<open>1000000.0 / n\<close>, rounded to \<open>float\<close>, and \<open>ml_show_f\<close> is what \<open>%f\<close> prints.
\<close>

record ('p, 'm) mavlink =
  ml_parse_char :: "nat \<Rightarrow> u8 \<Rightarrow> 'p \<Rightarrow> 'p \<times> 'm option"
  ml_to_send_buffer :: "'m \<Rightarrow> bytes"
  ml_command_int_pack :: "u8 \<Rightarrow> u8 \<Rightarrow> command_int \<Rightarrow> 'p \<Rightarrow> 'p \<times> 'm"
  ml_heartbeat_pack :: "u8 \<Rightarrow> u8 \<Rightarrow> u8 \<Rightarrow> u8 \<Rightarrow> u8 \<Rightarrow> u32 \<Rightarrow> u8 \<Rightarrow> 'p \<Rightarrow> 'p \<times> 'm"
  ml_msgid :: "'m \<Rightarrow> nat"
  ml_heartbeat :: "'m \<Rightarrow> mavlink_heartbeat"
  ml_sys_status :: "'m \<Rightarrow> mavlink_sys_status"
  ml_attitude :: "'m \<Rightarrow> mavlink_attitude"
  ml_rangefinder :: "'m \<Rightarrow> float32"
  ml_rc_channels :: "'m \<Rightarrow> mavlink_rc_channels"
  ml_global_position_int :: "'m \<Rightarrow> 32 word \<times> 32 word"
  ml_local_position_ned :: "'m \<Rightarrow> mavlink_position"
  ml_command_ack :: "'m \<Rightarrow> u16"
  ml_param_value :: "'m \<Rightarrow> bytes \<times> float32"
  ml_statustext :: "'m \<Rightarrow> bytes"
  ml_current_mode :: "'m \<Rightarrow> u32"
  ml_float :: "int \<Rightarrow> float32"
  ml_milli :: "int \<Rightarrow> float32"
  ml_interval :: "int \<Rightarrow> float32"
  ml_show_f :: "float32 \<Rightarrow> bytes"

text \<open>Message and command numbers of the MAVLink protocol.\<close>

definition ID_HEARTBEAT :: nat where "ID_HEARTBEAT = 0"
definition ID_SYS_STATUS :: nat where "ID_SYS_STATUS = 1"
definition ID_PARAM_VALUE :: nat where "ID_PARAM_VALUE = 22"
definition ID_ATTITUDE :: nat where "ID_ATTITUDE = 30"
definition ID_LOCAL_POSITION_NED :: nat where "ID_LOCAL_POSITION_NED = 32"
definition ID_GLOBAL_POSITION_INT :: nat where "ID_GLOBAL_POSITION_INT = 33"
definition ID_RC_CHANNELS :: nat where "ID_RC_CHANNELS = 65"
definition ID_COMMAND_ACK :: nat where "ID_COMMAND_ACK = 77"
definition ID_BATTERY_STATUS :: nat where "ID_BATTERY_STATUS = 147"
definition ID_LANDING_TARGET :: nat where "ID_LANDING_TARGET = 149"
definition ID_RANGEFINDER :: nat where "ID_RANGEFINDER = 173"
definition ID_STATUSTEXT :: nat where "ID_STATUSTEXT = 253"
definition ID_CURRENT_MODE :: nat where "ID_CURRENT_MODE = 436"
definition MAV_CMD_SET_MESSAGE_INTERVAL :: u16 where "MAV_CMD_SET_MESSAGE_INTERVAL = 511"

lemmas message_ids = ID_HEARTBEAT_def ID_SYS_STATUS_def ID_PARAM_VALUE_def ID_ATTITUDE_def ID_LOCAL_POSITION_NED_def
  ID_GLOBAL_POSITION_INT_def ID_RC_CHANNELS_def ID_COMMAND_ACK_def ID_BATTERY_STATUS_def ID_LANDING_TARGET_def
  ID_RANGEFINDER_def ID_STATUSTEXT_def ID_CURRENT_MODE_def

subsection \<open>State\<close>

record transport_udp =
  udp_remoteIP :: bytes
  udp_port :: u16
  udp_initialized :: bool

text \<open>What is done to the outside, in order.\<close>

datatype mav_effect = ApWrite bytes | UdpWrite bytes | UdpDoInit bytes | UdpDoDeInit | Printed bytes

record ('p, 'm) mavcom =
  mc_lib :: 'p
  mc_ap :: ap_t
  mc_lastSysStatus :: u32
  mc_proxyIsActive :: bool
  mc_proxyIP :: bytes
  mc_proxyPort :: u16
  mc_apTxQueue :: "'m linux_queue"
  mc_udp :: transport_udp
  mc_logQueue :: "telemetry_log linux_queue"
  mc_ticks :: nat
  mc_effects :: "mav_effect list"

definition LOG_LEVEL_DEBUG :: u8 where "LOG_LEVEL_DEBUG = 0"
definition LOG_GROUP_AP :: u8 where "LOG_GROUP_AP = 1"

definition mc_log :: "clock \<Rightarrow> u8 \<Rightarrow> u8 \<Rightarrow> bytes \<Rightarrow> ('p, 'm) mavcom \<Rightarrow> ('p, 'm) mavcom" where
  "mc_log clk level grp msg mc =
     (let (now, n) = hal_millis clk (mc_ticks mc)
      in mc\<lparr>mc_logQueue := telem_printf now (mc_logQueue mc) level grp msg, mc_ticks := n\<rparr>)"

definition mc_effect :: "mav_effect \<Rightarrow> ('p, 'm) mavcom \<Rightarrow> ('p, 'm) mavcom" where
  "mc_effect e mc = mc\<lparr>mc_effects := mc_effects mc @ [e]\<rparr>"

subsection \<open>The UDP transport\<close>

definition TransportUDP :: "u16 \<Rightarrow> bytes \<Rightarrow> transport_udp" where
  "TransportUDP port mem = \<lparr>udp_remoteIP = mem, udp_port = port, udp_initialized = False\<rparr>"

text \<open>\<open>init\<close> on the transport, the log and the clock; the platform's \<open>doInit\<close> follows with the address set.\<close>

definition udp_start ::
  "clock \<Rightarrow> bytes \<Rightarrow> transport_udp \<Rightarrow> telemetry_log linux_queue \<Rightarrow> nat \<Rightarrow> transport_udp \<times> telemetry_log linux_queue \<times> nat" where
  "udp_start clk remoteIP u q n =
     (let ip = strncpy remoteIP 16 @ [0];
          (now, n) = hal_millis clk n;
          q = telem_printf now q LOG_LEVEL_DEBUG LOG_GROUP_MAIN
                (lit ''UDP server starting at '' @ cstr ip @ lit '':'' @ show_d (uint (udp_port u)))
      in (u\<lparr>udp_remoteIP := ip, udp_initialized := True\<rparr>, q, n))"

definition udp_init :: "clock \<Rightarrow> bytes \<Rightarrow> ('p, 'm) mavcom \<Rightarrow> ('p, 'm) mavcom" where
  "udp_init clk remoteIP mc =
     (let (u, q, n) = udp_start clk remoteIP (mc_udp mc) (mc_logQueue mc) (mc_ticks mc)
      in mc_effect (UdpDoInit (udp_remoteIP u)) (mc\<lparr>mc_udp := u, mc_logQueue := q, mc_ticks := n\<rparr>))"

definition udp_deInit :: "('p, 'm) mavcom \<Rightarrow> ('p, 'm) mavcom" where
  "udp_deInit mc = (let mc = mc_effect UdpDoDeInit mc in mc\<lparr>mc_udp := (mc_udp mc)\<lparr>udp_initialized := False\<rparr>\<rparr>)"

subsection \<open>Sending\<close>

definition MavCom :: "'p \<Rightarrow> ap_t \<Rightarrow> u32 \<Rightarrow> bytes \<Rightarrow> bytes \<Rightarrow> telemetry_log linux_queue \<Rightarrow> nat \<Rightarrow> ('p, 'm) mavcom" where
  "MavCom lib ap lastSys ip udp_ip logs n =
     \<lparr>mc_lib = lib, mc_ap = ap, mc_lastSysStatus = lastSys, mc_proxyIsActive = False, mc_proxyIP = ip, mc_proxyPort = 14550,
      mc_apTxQueue = LinuxQueue 10, mc_udp = TransportUDP 14550 udp_ip, mc_logQueue = logs, mc_ticks = n, mc_effects = []\<rparr>"

definition sendMavlinkMessage :: "('p, 'm) mavlink \<Rightarrow> 'm \<Rightarrow> ('p, 'm) mavcom \<Rightarrow> ('p, 'm) mavcom" where
  "sendMavlinkMessage M msg mc = mc_effect (ApWrite (ml_to_send_buffer M msg)) mc"

definition MAVLINK_SYSTEM_ID :: u8 where "MAVLINK_SYSTEM_ID = 42"
definition MAVLINK_COMPONENT_ID :: u8 where "MAVLINK_COMPONENT_ID = 192"

definition sendCommandInt :: "('p, 'm) mavlink \<Rightarrow> u16 \<Rightarrow> u8 \<Rightarrow> float32 list \<Rightarrow> ('p, 'm) mavcom \<Rightarrow> ('p, 'm) mavcom \<times> bool" where
  "sendCommandInt M command frame params mc =
     (let (p, msg) = ml_command_int_pack M MAVLINK_SYSTEM_ID MAVLINK_COMPONENT_ID
                       \<lparr>ci_frame = frame, ci_command = command, ci_params = params\<rparr> (mc_lib mc);
          (q, ok) = lq_push (mc_apTxQueue mc) msg
      in (mc\<lparr>mc_lib := p, mc_apTxQueue := q\<rparr>, ok))"

definition sendCommandIntNoQueue :: "('p, 'm) mavlink \<Rightarrow> u16 \<Rightarrow> u8 \<Rightarrow> float32 list \<Rightarrow> ('p, 'm) mavcom \<Rightarrow> ('p, 'm) mavcom" where
  "sendCommandIntNoQueue M command frame params mc =
     (let (p, msg) = ml_command_int_pack M MAVLINK_SYSTEM_ID MAVLINK_COMPONENT_ID
                       \<lparr>ci_frame = frame, ci_command = command, ci_params = params\<rparr> (mc_lib mc)
      in sendMavlinkMessage M msg (mc\<lparr>mc_lib := p\<rparr>))"

definition setMessageInterval :: "('p, 'm) mavlink \<Rightarrow> nat \<Rightarrow> int \<Rightarrow> ('p, 'm) mavcom \<Rightarrow> ('p, 'm) mavcom" where
  "setMessageInterval M msg_id interval_hz mc =
     sendCommandIntNoQueue M MAV_CMD_SET_MESSAGE_INTERVAL 0
       [ml_float M (int msg_id), if interval_hz > 0 then ml_interval M interval_hz else ml_float M interval_hz, 0, 0, 0, 0, 0] mc"

definition streamed_ids :: "nat list" where
  "streamed_ids = [ID_ATTITUDE, ID_RANGEFINDER, ID_SYS_STATUS, ID_BATTERY_STATUS, ID_RC_CHANNELS, ID_GLOBAL_POSITION_INT]"

definition setupMessageStreaming :: "clock \<Rightarrow> ('p, 'm) mavlink \<Rightarrow> ('p, 'm) mavcom \<Rightarrow> ('p, 'm) mavcom" where
  "setupMessageStreaming clk M mc =
     fold (\<lambda>i. setMessageInterval M i 10) streamed_ids
       (mc_log clk LOG_LEVEL_INFO LOG_GROUP_MAIN (lit ''Requesting message stream rates from AP'' @ NL) mc)"

subsection \<open>The proxy\<close>

text \<open>\<open>client\<close> is the telemetry client, if one is connected, with its address if that can be found out.\<close>

definition activateProxyIfNeeded :: "clock \<Rightarrow> bytes option option \<Rightarrow> ('p, 'm) mavcom \<Rightarrow> ('p, 'm) mavcom" where
  "activateProxyIfNeeded clk client mc =
     (if \<not> mc_proxyIsActive mc \<and> client \<noteq> None then
        let mc = udp_deInit mc;
            mc = mc\<lparr>mc_proxyIsActive := True\<rparr>;
            mc = (case client of Some (Some ip) \<Rightarrow> mc\<lparr>mc_proxyIP := ip\<rparr> | _ \<Rightarrow> mc);
            mc = mc_log clk LOG_LEVEL_INFO LOG_GROUP_MAIN
                   (lit ''Starting mavproxy to '' @ cstr (mc_proxyIP mc) @ lit '':'' @ show_d (uint (mc_proxyPort mc)) @ NL) mc
        in udp_init clk (mc_proxyIP mc) mc
      else mc)"


subsection \<open>Messages from the autopilot\<close>

definition upd_ap :: "(ap_t \<Rightarrow> ap_t) \<Rightarrow> ('p, 'm) mavcom \<Rightarrow> ('p, 'm) mavcom" where
  "upd_ap f mc = mc\<lparr>mc_ap := f (mc_ap mc)\<rparr>"

definition handleMessageHeartbeat :: "clock \<Rightarrow> ('p, 'm) mavlink \<Rightarrow> 'm \<Rightarrow> ('p, 'm) mavcom \<Rightarrow> ('p, 'm) mavcom" where
  "handleMessageHeartbeat clk M msg mc =
     (let heartbeat = ml_heartbeat M msg; (now, n) = hal_millis clk (mc_ticks mc)
      in upd_ap (\<lambda>a. a\<lparr>ap_last_heartbeat := now, ap_mav_mode_flag := hb_base_mode heartbeat,
           ap_mav_state := hb_system_status heartbeat, ap_flight_mode := ucast (hb_custom_mode heartbeat)\<rparr>) (mc\<lparr>mc_ticks := n\<rparr>))"

definition handleMessageSysStatus :: "clock \<Rightarrow> ('p, 'm) mavlink \<Rightarrow> 'm \<Rightarrow> ('p, 'm) mavcom \<Rightarrow> ('p, 'm) mavcom" where
  "handleMessageSysStatus clk M msg mc =
     (let sys_status = ml_sys_status M msg;
          mc = upd_ap (\<lambda>a. a\<lparr>ap_bat_perc := ss_battery_remaining sys_status,
                 ap_bat_voltage := ml_milli M (uint (ss_voltage_battery sys_status))\<rparr>) mc;
          (now, n) = hal_millis clk (mc_ticks mc)
      in mc\<lparr>mc_lastSysStatus := now, mc_ticks := n\<rparr>)"

definition handleMessageAttitude :: "('p, 'm) mavlink \<Rightarrow> 'm \<Rightarrow> ('p, 'm) mavcom \<Rightarrow> ('p, 'm) mavcom" where
  "handleMessageAttitude M msg mc =
     (let attitude = ml_attitude M msg
      in upd_ap (\<lambda>a. a\<lparr>ap_roll := at_roll attitude, ap_pitch := at_pitch attitude, ap_yaw := at_yaw attitude,
           ap_roll_speed := at_rollspeed attitude, ap_pitch_speed := at_pitchspeed attitude,
           ap_yaw_speed := at_yawspeed attitude\<rparr>) mc)"

definition handleMessageRangefinder :: "('p, 'm) mavlink \<Rightarrow> 'm \<Rightarrow> ('p, 'm) mavcom \<Rightarrow> ('p, 'm) mavcom" where
  "handleMessageRangefinder M msg mc = upd_ap (\<lambda>a. a\<lparr>ap_rngfnd_dist_m := ml_rangefinder M msg\<rparr>) mc"

definition handleMessageRcChannels :: "('p, 'm) mavlink \<Rightarrow> 'm \<Rightarrow> ('p, 'm) mavcom \<Rightarrow> ('p, 'm) mavcom" where
  "handleMessageRcChannels M msg mc =
     (let rc_channels = ml_rc_channels M msg; chan = (\<lambda>i. rc_chans rc_channels ! i)
      in upd_ap (\<lambda>a. a\<lparr>ap_chan1_raw := chan 0, ap_chan2_raw := chan 1, ap_chan3_raw := chan 2, ap_chan4_raw := chan 3,
           ap_chan5_raw := chan 4, ap_chan6_raw := chan 5, ap_chan7_raw := chan 6, ap_chan8_raw := chan 7,
           ap_chan9_raw := chan 8, ap_chan10_raw := chan 9, ap_rssi := rc_rssi rc_channels\<rparr>) mc)"

definition handleMessageGlobalPositionInt :: "('p, 'm) mavlink \<Rightarrow> 'm \<Rightarrow> ('p, 'm) mavcom \<Rightarrow> ('p, 'm) mavcom" where
  "handleMessageGlobalPositionInt M msg mc =
     (let (relative_alt, alt) = ml_global_position_int M msg
      in upd_ap (\<lambda>a. a\<lparr>ap_relative_alt := ml_milli M (sint relative_alt), ap_alt := ml_milli M (sint alt)\<rparr>) mc)"

definition handleMessageLocalPositionNed :: "('p, 'm) mavlink \<Rightarrow> 'm \<Rightarrow> ('p, 'm) mavcom \<Rightarrow> ('p, 'm) mavcom" where
  "handleMessageLocalPositionNed M msg mc =
     (let local_position_ned = ml_local_position_ned M msg
      in upd_ap (\<lambda>a. a\<lparr>ap_local_pos_x := po_x local_position_ned, ap_local_pos_y := po_y local_position_ned,
           ap_local_pos_z := po_z local_position_ned, ap_local_pos_vx := po_vx local_position_ned,
           ap_local_pos_vy := po_vy local_position_ned, ap_local_pos_vz := po_vz local_position_ned\<rparr>) mc)"

definition handleMessageCommandAck :: "clock \<Rightarrow> ('p, 'm) mavlink \<Rightarrow> 'm \<Rightarrow> ('p, 'm) mavcom \<Rightarrow> ('p, 'm) mavcom" where
  "handleMessageCommandAck clk M msg mc =
     mc_log clk LOG_LEVEL_INFO LOG_GROUP_AP (lit ''ACK: '' @ show_d (uint (ml_command_ack M msg)) @ NL) mc"

text \<open>The name has 16 bytes and perhaps no terminator; the buffer of 17 bytes gets one.\<close>

definition handleMessageParamValue :: "clock \<Rightarrow> ('p, 'm) mavlink \<Rightarrow> 'm \<Rightarrow> ('p, 'm) mavcom \<Rightarrow> ('p, 'm) mavcom" where
  "handleMessageParamValue clk M msg mc =
     (let (param_id, param_value) = ml_param_value M msg; param_name = take (length (cstr (take 16 param_id))) param_id @ [0]
      in mc_log clk LOG_LEVEL_INFO LOG_GROUP_AP (lit ''Param: '' @ cstr param_name @ lit '': '' @ ml_show_f M param_value @ NL) mc)"

text \<open>
  The text has 50 bytes and no terminator when it fills them: \<open>%s\<close> then reads on past the array.
\<close>

definition handleMessageStatusText :: "clock \<Rightarrow> ('p, 'm) mavlink \<Rightarrow> 'm \<Rightarrow> ('p, 'm) mavcom \<Rightarrow> cerr + ('p, 'm) mavcom" where
  "handleMessageStatusText clk M msg mc =
     (let text = ml_statustext M msg in
      if 0 \<in> set text then Inr (mc_log clk LOG_LEVEL_INFO LOG_GROUP_AP (cstr text @ NL) mc) else Inl OutOfBounds)"

definition handleMessageCurrentMode :: "('p, 'm) mavlink \<Rightarrow> 'm \<Rightarrow> ('p, 'm) mavcom \<Rightarrow> ('p, 'm) mavcom" where
  "handleMessageCurrentMode M msg mc =
     mc_effect (Printed (lit ''MODE: '' @ show_d (sint (ml_current_mode M msg)) @ NL)) mc"

text \<open>
  The dispatch. The handlers that only decode their message change nothing and are left out with
  the ignored messages; the case of \<open>LANDING_TARGET\<close> has no \<open>break\<close>.
\<close>

definition handleMessage :: "clock \<Rightarrow> ('p, 'm) mavlink \<Rightarrow> 'm \<Rightarrow> ('p, 'm) mavcom \<Rightarrow> cerr + ('p, 'm) mavcom" where
  "handleMessage clk M msg mc =
     (let msgid = ml_msgid M msg in
      if msgid = ID_HEARTBEAT then Inr (handleMessageHeartbeat clk M msg mc)
      else if msgid = ID_COMMAND_ACK then Inr (handleMessageCommandAck clk M msg mc)
      else if msgid = ID_SYS_STATUS then Inr (handleMessageSysStatus clk M msg mc)
      else if msgid = ID_ATTITUDE then Inr (handleMessageAttitude M msg mc)
      else if msgid = ID_RANGEFINDER then Inr (handleMessageRangefinder M msg mc)
      else if msgid = ID_RC_CHANNELS then Inr (handleMessageRcChannels M msg mc)
      else if msgid = ID_GLOBAL_POSITION_INT then Inr (handleMessageGlobalPositionInt M msg mc)
      else if msgid = ID_LOCAL_POSITION_NED then Inr (handleMessageLocalPositionNed M msg mc)
      else if msgid = ID_LANDING_TARGET \<or> msgid = ID_CURRENT_MODE then Inr (handleMessageCurrentMode M msg mc)
      else if msgid = ID_PARAM_VALUE then Inr (handleMessageParamValue clk M msg mc)
      else if msgid = ID_STATUSTEXT then handleMessageStatusText clk M msg mc
      else Inr mc)"

subsection \<open>The updates\<close>

definition ap_rx :: "clock \<Rightarrow> ('p, 'm) mavlink \<Rightarrow> ('p, 'm) mavcom \<Rightarrow> u8 \<Rightarrow> cerr + ('p, 'm) mavcom" where
  "ap_rx clk M mc byte =
     (let (p, found) = ml_parse_char M 0 byte (mc_lib mc); mc = mc\<lparr>mc_lib := p\<rparr> in
      case found of
        None \<Rightarrow> Inr mc
      | Some msg \<Rightarrow> bindE (handleMessage clk M msg mc) (\<lambda>mc. Inr (mc_effect (UdpWrite (ml_to_send_buffer M msg)) mc)))"

definition udp_rx :: "('p, 'm) mavlink \<Rightarrow> ('p, 'm) mavcom \<Rightarrow> u8 \<Rightarrow> ('p, 'm) mavcom" where
  "udp_rx M mc byte =
     (let (p, found) = ml_parse_char M 1 byte (mc_lib mc); mc = mc\<lparr>mc_lib := p\<rparr> in
      case found of None \<Rightarrow> mc | Some msg \<Rightarrow> mc_effect (ApWrite (ml_to_send_buffer M msg)) mc)"

text \<open>\<open>ap_bytes\<close> and \<open>udp_bytes\<close> are what the two \<open>readBytes\<close> return, at most 2048 bytes each.\<close>

definition update_100hz ::
  "clock \<Rightarrow> ('p, 'm) mavlink \<Rightarrow> bytes option option \<Rightarrow> bytes \<Rightarrow> bytes \<Rightarrow> ('p, 'm) mavcom \<Rightarrow> cerr + ('p, 'm) mavcom" where
  "update_100hz clk M client rx_ap rx_udp mc =
     bindE (foldE (ap_rx clk M) rx_ap (activateProxyIfNeeded clk client mc)) (\<lambda>mc.
     let mc = foldl (udp_rx M) mc rx_udp in
     bindE (drain_queue (\<lambda>mc msg. Inr (sendMavlinkMessage M msg mc)) (mc_apTxQueue mc) mc) (\<lambda>(q, mc).
     Inr (mc\<lparr>mc_apTxQueue := q\<rparr>)))"

definition update_10hz :: "clock \<Rightarrow> bytes option option \<Rightarrow> ('p, 'm) mavcom \<Rightarrow> ('p, 'm) mavcom" where
  "update_10hz clk client mc = activateProxyIfNeeded clk client mc"

definition update_1hz :: "clock \<Rightarrow> ('p, 'm) mavlink \<Rightarrow> bytes option option \<Rightarrow> ('p, 'm) mavcom \<Rightarrow> ('p, 'm) mavcom" where
  "update_1hz clk M client mc =
     (let mc = activateProxyIfNeeded clk client mc;
          (now, n) = hal_millis clk (mc_ticks mc); mc = mc\<lparr>mc_ticks := n\<rparr>;
          mc = (if now - mc_lastSysStatus mc > 1000 then setupMessageStreaming clk M mc else mc);
          (p, msg) = ml_heartbeat_pack M MAVLINK_SYSTEM_ID MAVLINK_COMPONENT_ID 18 8 0 0 4 (mc_lib mc)
      in sendMavlinkMessage M msg (mc\<lparr>mc_lib := p\<rparr>))"

definition mavcom_init :: "clock \<Rightarrow> ('p, 'm) mavlink \<Rightarrow> ('p, 'm) mavcom \<Rightarrow> ('p, 'm) mavcom" where
  "mavcom_init clk M mc = setupMessageStreaming clk M mc"


subsection \<open>What an update forwards\<close>

text \<open>The messages the library finds in a stream of bytes.\<close>

fun parse_all :: "('p, 'm) mavlink \<Rightarrow> nat \<Rightarrow> bytes \<Rightarrow> 'p \<Rightarrow> 'p \<times> 'm list" where
  "parse_all M ch [] p = (p, [])"
| "parse_all M ch (b # bs) p =
     (let (p, found) = ml_parse_char M ch b p; (p, ms) = parse_all M ch bs p
      in (p, (case found of None \<Rightarrow> [] | Some m \<Rightarrow> [m]) @ ms))"

definition text_ok :: "('p, 'm) mavlink \<Rightarrow> 'm \<Rightarrow> bool" where
  "text_ok M m \<longleftrightarrow> (ml_msgid M m = ID_STATUSTEXT \<longrightarrow> 0 \<in> set (ml_statustext M m))"

definition printed :: "('p, 'm) mavlink \<Rightarrow> 'm \<Rightarrow> mav_effect list" where
  "printed M m = (if ml_msgid M m = ID_LANDING_TARGET \<or> ml_msgid M m = ID_CURRENT_MODE
     then [Printed (lit ''MODE: '' @ show_d (sint (ml_current_mode M m)) @ NL)] else [])"

lemmas handlers = handleMessageHeartbeat_def handleMessageSysStatus_def handleMessageAttitude_def
  handleMessageRangefinder_def handleMessageRcChannels_def handleMessageGlobalPositionInt_def
  handleMessageLocalPositionNed_def handleMessageCommandAck_def handleMessageParamValue_def
  handleMessageCurrentMode_def upd_ap_def mc_log_def mc_effect_def hal_millis_def Let_def split_beta

text \<open>A handler changes the autopilot's state, the log, the clock and what was printed, nothing else.\<close>

lemma handleMessage_ok:
  assumes "text_ok M m"
  obtains mc' where "handleMessage clk M m mc = Inr mc'" "mc_effects mc' = mc_effects mc @ printed M m"
    "mc_lib mc' = mc_lib mc" "mc_apTxQueue mc' = mc_apTxQueue mc" "mc_udp mc' = mc_udp mc"
    "mc_proxyIsActive mc' = mc_proxyIsActive mc"
proof -
  have "\<exists>mc'. handleMessage clk M m mc = Inr mc' \<and> mc_effects mc' = mc_effects mc @ printed M m \<and>
    mc_lib mc' = mc_lib mc \<and> mc_apTxQueue mc' = mc_apTxQueue mc \<and> mc_udp mc' = mc_udp mc \<and>
    mc_proxyIsActive mc' = mc_proxyIsActive mc"
    using assms by (auto simp: handleMessage_def handlers handleMessageStatusText_def printed_def text_ok_def message_ids)
  then show thesis using that by blast
qed

definition forwarded :: "('p, 'm) mavlink \<Rightarrow> 'm list \<Rightarrow> mav_effect list" where
  "forwarded M ms = concat (map (\<lambda>m. printed M m @ [UdpWrite (ml_to_send_buffer M m)]) ms)"

lemma handleMessage_bad: "\<not> text_ok M m \<Longrightarrow> handleMessage clk M m mc = Inl OutOfBounds"
  by (simp add: handleMessage_def handleMessageStatusText_def text_ok_def message_ids Let_def)

lemma handle_lib:
  assumes "handleMessage clk M m mc = Inr mc'"
  shows "text_ok M m" "mc_lib mc' = mc_lib mc" "mc_effects mc' = mc_effects mc @ printed M m"
    "mc_apTxQueue mc' = mc_apTxQueue mc" "mc_udp mc' = mc_udp mc" "mc_proxyIsActive mc' = mc_proxyIsActive mc"
proof -
  show t: "text_ok M m" using assms handleMessage_bad [of M m clk mc] by (cases "text_ok M m") auto
  show "mc_lib mc' = mc_lib mc" "mc_effects mc' = mc_effects mc @ printed M m"
    "mc_apTxQueue mc' = mc_apTxQueue mc" "mc_udp mc' = mc_udp mc" "mc_proxyIsActive mc' = mc_proxyIsActive mc"
    using handleMessage_ok [OF t, of clk mc] assms by auto
qed

text \<open>The bytes of the autopilot, message by message.\<close>

definition ap_msg :: "clock \<Rightarrow> ('p, 'm) mavlink \<Rightarrow> ('p, 'm) mavcom \<Rightarrow> 'm \<Rightarrow> cerr + ('p, 'm) mavcom" where
  "ap_msg clk M mc m = bindE (handleMessage clk M m mc) (\<lambda>mc. Inr (mc_effect (UdpWrite (ml_to_send_buffer M m)) mc))"

lemma handlers_set_lib:
  "handleMessageHeartbeat clk M m (mc\<lparr>mc_lib := p\<rparr>) = (handleMessageHeartbeat clk M m mc)\<lparr>mc_lib := p\<rparr>"
  "handleMessageSysStatus clk M m (mc\<lparr>mc_lib := p\<rparr>) = (handleMessageSysStatus clk M m mc)\<lparr>mc_lib := p\<rparr>"
  "handleMessageAttitude M m (mc\<lparr>mc_lib := p\<rparr>) = (handleMessageAttitude M m mc)\<lparr>mc_lib := p\<rparr>"
  "handleMessageRangefinder M m (mc\<lparr>mc_lib := p\<rparr>) = (handleMessageRangefinder M m mc)\<lparr>mc_lib := p\<rparr>"
  "handleMessageRcChannels M m (mc\<lparr>mc_lib := p\<rparr>) = (handleMessageRcChannels M m mc)\<lparr>mc_lib := p\<rparr>"
  "handleMessageGlobalPositionInt M m (mc\<lparr>mc_lib := p\<rparr>) = (handleMessageGlobalPositionInt M m mc)\<lparr>mc_lib := p\<rparr>"
  "handleMessageLocalPositionNed M m (mc\<lparr>mc_lib := p\<rparr>) = (handleMessageLocalPositionNed M m mc)\<lparr>mc_lib := p\<rparr>"
  "handleMessageCommandAck clk M m (mc\<lparr>mc_lib := p\<rparr>) = (handleMessageCommandAck clk M m mc)\<lparr>mc_lib := p\<rparr>"
  "handleMessageParamValue clk M m (mc\<lparr>mc_lib := p\<rparr>) = (handleMessageParamValue clk M m mc)\<lparr>mc_lib := p\<rparr>"
  "handleMessageCurrentMode M m (mc\<lparr>mc_lib := p\<rparr>) = (handleMessageCurrentMode M m mc)\<lparr>mc_lib := p\<rparr>"
  "handleMessageStatusText clk M m (mc\<lparr>mc_lib := p\<rparr>) = map_sum id (\<lambda>mc. mc\<lparr>mc_lib := p\<rparr>) (handleMessageStatusText clk M m mc)"
  by (simp_all add: handlers handleMessageStatusText_def)

lemma handle_set_lib: "handleMessage clk M m (mc\<lparr>mc_lib := p\<rparr>) = map_sum id (\<lambda>mc. mc\<lparr>mc_lib := p\<rparr>) (handleMessage clk M m mc)"
  by (simp add: handleMessage_def handlers_set_lib Let_def)

lemma ap_msg_set_lib: "ap_msg clk M (mc\<lparr>mc_lib := p\<rparr>) m = map_sum id (\<lambda>mc. mc\<lparr>mc_lib := p\<rparr>) (ap_msg clk M mc m)"
  unfolding ap_msg_def handle_set_lib by (cases "handleMessage clk M m mc") (simp_all add: mc_effect_def)

lemma ap_msgs_set_lib:
  "foldE (ap_msg clk M) ms (mc\<lparr>mc_lib := p\<rparr>) = map_sum id (\<lambda>mc. mc\<lparr>mc_lib := p\<rparr>) (foldE (ap_msg clk M) ms mc)"
proof (induction ms arbitrary: mc)
  case (Cons m ms)
  show ?case by (cases "ap_msg clk M mc m") (simp_all add: ap_msg_set_lib Cons)
qed simp

lemma ap_rx_all:
  assumes "parse_all M 0 bs (mc_lib mc) = (p, ms)" "foldE (ap_msg clk M) ms mc = Inr mc'"
  shows "foldE (ap_rx clk M) bs mc = Inr (mc'\<lparr>mc_lib := p\<rparr>)"
  using assms
proof (induction bs arbitrary: mc ms mc')
  case Nil
  then show ?case by (cases mc; cases mc') auto
next
  case (Cons b bs)
  obtain p1 found where r: "ml_parse_char M 0 b (mc_lib mc) = (p1, found)" by fastforce
  obtain p2 ms' where t: "parse_all M 0 bs p1 = (p2, ms')" by fastforce
  have ms: "ms = (case found of None \<Rightarrow> [] | Some m \<Rightarrow> [m]) @ ms'" and p: "p = p2"
    using Cons.prems(1) r t by simp_all
  have step: "ap_rx clk M mc b = (case found of None \<Rightarrow> Inr (mc\<lparr>mc_lib := p1\<rparr>) | Some m \<Rightarrow> ap_msg clk M (mc\<lparr>mc_lib := p1\<rparr>) m)"
    by (simp add: ap_rx_def r ap_msg_def split: option.split)
  show ?case
  proof (cases found)
    case None
    have "foldE (ap_msg clk M) ms' (mc\<lparr>mc_lib := p1\<rparr>) = Inr (mc'\<lparr>mc_lib := p1\<rparr>)"
      using Cons.prems(2) None by (simp add: ms ap_msgs_set_lib)
    with Cons.IH [of "mc\<lparr>mc_lib := p1\<rparr>" ms' "mc'\<lparr>mc_lib := p1\<rparr>"] t p None step show ?thesis by simp
  next
    case (Some m)
    then obtain mc1 where m: "ap_msg clk M mc m = Inr mc1" "foldE (ap_msg clk M) ms' mc1 = Inr mc'"
      using Cons.prems(2) by (auto simp: ms)
    have "ap_msg clk M (mc\<lparr>mc_lib := p1\<rparr>) m = Inr (mc1\<lparr>mc_lib := p1\<rparr>)"
      "foldE (ap_msg clk M) ms' (mc1\<lparr>mc_lib := p1\<rparr>) = Inr (mc'\<lparr>mc_lib := p1\<rparr>)"
      using m by (simp_all add: ap_msg_set_lib ap_msgs_set_lib)
    with Cons.IH [of "mc1\<lparr>mc_lib := p1\<rparr>" ms' "mc'\<lparr>mc_lib := p1\<rparr>"] t p Some step show ?thesis by simp
  qed
qed


lemma handle_all_ok:
  assumes "\<forall>m \<in> set ms. text_ok M m"
  shows "\<exists>mc'. foldE (ap_msg clk M) ms mc = Inr mc' \<and> mc_effects mc' = mc_effects mc @ forwarded M ms \<and>
    mc_lib mc' = mc_lib mc \<and> mc_apTxQueue mc' = mc_apTxQueue mc \<and> mc_udp mc' = mc_udp mc \<and>
    mc_proxyIsActive mc' = mc_proxyIsActive mc"
  using assms
proof (induction ms arbitrary: mc)
  case (Cons m ms)
  then have "text_ok M m" by simp
  then obtain mc1 where h: "handleMessage clk M m mc = Inr mc1" by (rule handleMessage_ok)
  let ?mc = "mc_effect (UdpWrite (ml_to_send_buffer M m)) mc1"
  have "\<exists>mc'. foldE (ap_msg clk M) ms ?mc = Inr mc' \<and> mc_effects mc' = mc_effects ?mc @ forwarded M ms \<and>
    mc_lib mc' = mc_lib ?mc \<and> mc_apTxQueue mc' = mc_apTxQueue ?mc \<and> mc_udp mc' = mc_udp ?mc \<and>
    mc_proxyIsActive mc' = mc_proxyIsActive ?mc"
    using Cons.prems by (intro Cons.IH) simp
  then show ?case using handle_lib [OF h] by (simp add: ap_msg_def [of clk M mc m] h mc_effect_def forwarded_def)
qed (simp add: forwarded_def)

lemma udp_rx_all:
  assumes "parse_all M 1 bs (mc_lib mc) = (p, ms)"
  shows "foldl (udp_rx M) mc bs = mc\<lparr>mc_lib := p, mc_effects := mc_effects mc @ map (ApWrite \<circ> ml_to_send_buffer M) ms\<rparr>"
  using assms
proof (induction bs arbitrary: mc ms)
  case (Cons b bs)
  obtain p1 found where r: "ml_parse_char M (Suc 0) b (mc_lib mc) = (p1, found)" by fastforce
  obtain p2 ms' where t: "parse_all M (Suc 0) bs p1 = (p2, ms')" by fastforce
  let ?mc = "udp_rx M mc b"
  have "?mc = mc\<lparr>mc_lib := p1, mc_effects := mc_effects mc @ (case found of None \<Rightarrow> [] | Some m \<Rightarrow> [ApWrite (ml_to_send_buffer M m)])\<rparr>"
    using r by (cases found; cases mc) (simp_all add: udp_rx_def mc_effect_def)
  with Cons.IH [of ?mc ms'] Cons.prems r t show ?case by (auto split: option.splits)
qed (cases mc, simp)

lemma send_queue:
  "foldE (\<lambda>mc msg. Inr (sendMavlinkMessage M msg mc)) ms mc =
     Inr (mc\<lparr>mc_effects := mc_effects mc @ map (ApWrite \<circ> ml_to_send_buffer M) ms\<rparr>)"
  by (induction ms arbitrary: mc) (simp_all add: sendMavlinkMessage_def mc_effect_def)

lemma activate_effects:
  "mc_apTxQueue (activateProxyIfNeeded clk client mc) = mc_apTxQueue mc"
  "mc_lib (activateProxyIfNeeded clk client mc) = mc_lib mc"
  "mc_proxyIsActive (activateProxyIfNeeded clk client mc) \<longleftrightarrow> mc_proxyIsActive mc \<or> client \<noteq> None"
  "mc_ap (activateProxyIfNeeded clk client mc) = mc_ap mc"
  by (auto simp: activateProxyIfNeeded_def udp_init_def udp_start_def udp_deInit_def mc_log_def mc_effect_def hal_millis_def Let_def split: option.split)

text \<open>One whole update at 100 Hz.\<close>

lemma update_100hz_run:
  assumes r: "parse_all M 0 rx_ap (mc_lib mc) = (p, ms)" and u: "parse_all M 1 rx_udp p = (p', us)"
    and ok: "\<forall>m \<in> set ms. text_ok M m"
  obtains mc1 where "foldE (ap_msg clk M) ms (activateProxyIfNeeded clk client mc) = Inr mc1"
    "update_100hz clk M client rx_ap rx_udp mc = Inr (mc1\<lparr>mc_lib := p', mc_apTxQueue := (mc_apTxQueue mc)\<lparr>lq_queue := []\<rparr>,
       mc_effects := mc_effects (activateProxyIfNeeded clk client mc) @ forwarded M ms @
         map (ApWrite \<circ> ml_to_send_buffer M) (us @ lq_queue (mc_apTxQueue mc))\<rparr>)"
    "mc_proxyIsActive mc1 = mc_proxyIsActive (activateProxyIfNeeded clk client mc)"
    "mc_udp mc1 = mc_udp (activateProxyIfNeeded clk client mc)"
proof -
  let ?a = "activateProxyIfNeeded clk client mc"
  obtain mc1 where m: "foldE (ap_msg clk M) ms ?a = Inr mc1" "mc_effects mc1 = mc_effects ?a @ forwarded M ms"
    "mc_apTxQueue mc1 = mc_apTxQueue mc" "mc_proxyIsActive mc1 = mc_proxyIsActive ?a" "mc_udp mc1 = mc_udp ?a"
    using handle_all_ok [OF ok, of clk ?a] activate_effects(1) [of clk client mc] by auto
  have rx: "foldE (ap_rx clk M) rx_ap ?a = Inr (mc1\<lparr>mc_lib := p\<rparr>)"
    using ap_rx_all [of M rx_ap ?a p ms clk mc1] r m(1) by (simp add: activate_effects)
  have "foldl (udp_rx M) (mc1\<lparr>mc_lib := p\<rparr>) rx_udp =
      mc1\<lparr>mc_lib := p', mc_effects := mc_effects ?a @ forwarded M ms @ map (ApWrite \<circ> ml_to_send_buffer M) us\<rparr>"
    using udp_rx_all [of M rx_udp "mc1\<lparr>mc_lib := p\<rparr>" p' us] u m(2) by simp
  then have "update_100hz clk M client rx_ap rx_udp mc = Inr (mc1\<lparr>mc_lib := p', mc_apTxQueue := (mc_apTxQueue mc)\<lparr>lq_queue := []\<rparr>,
       mc_effects := mc_effects ?a @ forwarded M ms @ map (ApWrite \<circ> ml_to_send_buffer M) (us @ lq_queue (mc_apTxQueue mc))\<rparr>)"
    by (simp add: update_100hz_def rx m(3) drain_queue_ok send_queue)
  from that [OF m(1) this m(4,5)] show thesis .
qed


text \<open>The value of the last message that satisfies \<open>P\<close>.\<close>

definition latest :: "('m \<Rightarrow> bool) \<Rightarrow> ('m \<Rightarrow> 'v) \<Rightarrow> 'm list \<Rightarrow> 'v \<Rightarrow> 'v" where
  "latest P v ms old = (if filter P ms = [] then old else v (last (filter P ms)))"

lemma latest_simps: "latest P v [] old = old" "latest P v (m # ms) old = latest P v ms (if P m then v m else old)"
  by (simp_all add: latest_def)

lemma latest_fold:
  assumes "foldE f ms s = Inr t" "\<And>m s t. f s m = Inr t \<Longrightarrow> g t = (if P m then v m else g s)"
  shows "g t = latest P v ms (g s)"
  using assms(1)
proof (induction ms arbitrary: s)
  case (Cons m ms)
  then obtain u where u: "f s m = Inr u" "foldE f ms u = Inr t" by auto
  show ?case using Cons.IH [OF u(2)] by (simp only: latest_simps assms(2) [OF u(1)])
qed (simp add: latest_simps)

text \<open>The groups of fields that one message sets together.\<close>

definition attitude_of where "attitude_of a = (ap_roll a, ap_pitch a, ap_yaw a, ap_roll_speed a, ap_pitch_speed a, ap_yaw_speed a)"
definition battery_of where "battery_of a = (ap_bat_perc a, ap_bat_voltage a)"
definition mode_of where "mode_of a = (ap_mav_mode_flag a, ap_mav_state a, ap_flight_mode a)"
definition local_of where "local_of a = (ap_local_pos_x a, ap_local_pos_y a, ap_local_pos_z a, ap_local_pos_vx a, ap_local_pos_vy a, ap_local_pos_vz a)"
definition altitude_of where "altitude_of a = (ap_relative_alt a, ap_alt a)"
definition rc_of where "rc_of a = ([ap_chan1_raw a, ap_chan2_raw a, ap_chan3_raw a, ap_chan4_raw a, ap_chan5_raw a, ap_chan6_raw a,
  ap_chan7_raw a, ap_chan8_raw a, ap_chan9_raw a, ap_chan10_raw a], ap_rssi a)"

lemmas groups_of = attitude_of_def battery_of_def mode_of_def local_of_def altitude_of_def rc_of_def

lemma take_10: "10 \<le> length xs \<Longrightarrow> take 10 xs = [xs ! 0, xs ! 1, xs ! 2, xs ! 3, xs ! 4, xs ! 5, xs ! 6, xs ! 7, xs ! 8, xs ! 9]"
  by (rule nth_equalityI) (auto simp: less_Suc_eq numeral_eq_Suc)

lemma ap_msg_groups:
  assumes "ap_msg clk M mc m = Inr mc'" "length (rc_chans (ml_rc_channels M m)) \<ge> 10"
  shows "attitude_of (mc_ap mc') = (if ml_msgid M m = ID_ATTITUDE then
      (let a = ml_attitude M m in (at_roll a, at_pitch a, at_yaw a, at_rollspeed a, at_pitchspeed a, at_yawspeed a))
      else attitude_of (mc_ap mc))"
    "battery_of (mc_ap mc') = (if ml_msgid M m = ID_SYS_STATUS then
      (let s = ml_sys_status M m in (ss_battery_remaining s, ml_milli M (uint (ss_voltage_battery s)))) else battery_of (mc_ap mc))"
    "mode_of (mc_ap mc') = (if ml_msgid M m = ID_HEARTBEAT then
      (let h = ml_heartbeat M m in (hb_base_mode h, hb_system_status h, ucast (hb_custom_mode h))) else mode_of (mc_ap mc))"
    "local_of (mc_ap mc') = (if ml_msgid M m = ID_LOCAL_POSITION_NED then
      (let q = ml_local_position_ned M m in (po_x q, po_y q, po_z q, po_vx q, po_vy q, po_vz q)) else local_of (mc_ap mc))"
    "altitude_of (mc_ap mc') = (if ml_msgid M m = ID_GLOBAL_POSITION_INT then
      (let (r, a) = ml_global_position_int M m in (ml_milli M (sint r), ml_milli M (sint a))) else altitude_of (mc_ap mc))"
    "rc_of (mc_ap mc') = (if ml_msgid M m = ID_RC_CHANNELS then
      (let r = ml_rc_channels M m in (take 10 (rc_chans r), rc_rssi r)) else rc_of (mc_ap mc))"
    "ap_rngfnd_dist_m (mc_ap mc') = (if ml_msgid M m = ID_RANGEFINDER then ml_rangefinder M m else ap_rngfnd_dist_m (mc_ap mc))"
  using assms(1)
  unfolding ap_msg_def handleMessage_def handleMessageStatusText_def handlers groups_of take_10 [OF assms(2)]
  by (auto simp: message_ids split: if_splits)


text \<open>A small library for examples: every byte is a message of that number.\<close>

definition toy_mavlink :: "(nat, u8) mavlink" where
  "toy_mavlink =
     \<lparr>ml_parse_char = (\<lambda>ch b n. (Suc n, Some b)), ml_to_send_buffer = (\<lambda>m. [m]),
      ml_command_int_pack = (\<lambda>sys comp c n. (Suc n, ucast (ci_command c))),
      ml_heartbeat_pack = (\<lambda>sys comp ty ap mode custom st n. (Suc n, 0)), ml_msgid = unat,
      ml_heartbeat = (\<lambda>m. \<lparr>hb_base_mode = m, hb_system_status = 4, hb_custom_mode = 0\<rparr>),
      ml_sys_status = (\<lambda>m. \<lparr>ss_battery_remaining = 50, ss_voltage_battery = 12000\<rparr>),
      ml_attitude = (\<lambda>m. \<lparr>at_roll = 1, at_pitch = 2, at_yaw = 3, at_rollspeed = 4, at_pitchspeed = 5, at_yawspeed = 6\<rparr>),
      ml_rangefinder = (\<lambda>m. 9), ml_rc_channels = (\<lambda>m. \<lparr>rc_chans = replicate 18 1500, rc_rssi = 200\<rparr>),
      ml_global_position_int = (\<lambda>m. (1000, 2000)),
      ml_local_position_ned = (\<lambda>m. \<lparr>po_x = 0, po_y = 0, po_z = 0, po_vx = 0, po_vy = 0, po_vz = 0\<rparr>),
      ml_command_ack = (\<lambda>m. 7), ml_param_value = (\<lambda>m. (replicate 16 65, 0)),
      ml_statustext = (\<lambda>m. replicate 50 65), ml_current_mode = (\<lambda>m. 0),
      ml_float = of_int, ml_milli = of_int, ml_interval = of_int, ml_show_f = (\<lambda>x. [])\<rparr>"

definition mavcom_start :: "(nat, u8) mavcom" where
  "mavcom_start = MavCom 0 ap_zero 0 (replicate 17 0) (replicate 17 0) (LinuxQueue 10) 0"

text \<open>C3: An update handles and forwards every message of the autopilot to the ground station, then
  forwards every message of the ground station and every queued command to the autopilot: all of
  them once, in the order received, and nothing else is sent.\<close>

theorem mavcom_bridge:
  assumes "parse_all M 0 rx_ap (mc_lib mc) = (p, ms)" "parse_all M 1 rx_udp p = (p', us)"
    and "\<forall>m \<in> set ms. text_ok M m"
  shows "\<exists>mc'. update_100hz clk M client rx_ap rx_udp mc = Inr mc' \<and> lq_queue (mc_apTxQueue mc') = [] \<and>
    mc_effects mc' = mc_effects (activateProxyIfNeeded clk client mc) @
      concat (map (\<lambda>m. printed M m @ [UdpWrite (ml_to_send_buffer M m)]) ms) @
      map (ApWrite \<circ> ml_to_send_buffer M) (us @ lq_queue (mc_apTxQueue mc))"
proof -
  obtain mc1 where "update_100hz clk M client rx_ap rx_udp mc = Inr (mc1\<lparr>mc_lib := p', mc_apTxQueue := (mc_apTxQueue mc)\<lparr>lq_queue := []\<rparr>,
       mc_effects := mc_effects (activateProxyIfNeeded clk client mc) @ forwarded M ms @
         map (ApWrite \<circ> ml_to_send_buffer M) (us @ lq_queue (mc_apTxQueue mc))\<rparr>)"
    by (rule update_100hz_run [OF assms, of clk client])
  then show ?thesis by (simp add: forwarded_def)
qed

lemma mavcom_bridge_witness:
  "\<exists>mc'. update_100hz of_nat toy_mavlink (Some (Some (lit ''10.0.0.2''))) [30, 1, 30] [76] mavcom_start = Inr mc' \<and>
    lq_queue (mc_apTxQueue mc') = [] \<and>
    mc_effects mc' = mc_effects (activateProxyIfNeeded of_nat (Some (Some (lit ''10.0.0.2''))) mavcom_start) @
      concat (map (\<lambda>m. printed toy_mavlink m @ [UdpWrite (ml_to_send_buffer toy_mavlink m)]) [30, 1, 30]) @
      map (ApWrite \<circ> ml_to_send_buffer toy_mavlink) ([76] @ lq_queue (mc_apTxQueue mavcom_start))"
proof -
  let ?M = toy_mavlink
  have "parse_all ?M 0 [30, 1, 30] (mc_lib mavcom_start) = (3, [30, 1, 30])" "parse_all ?M 1 [76] 3 = (4, [76])"
    by (simp_all add: toy_mavlink_def mavcom_start_def MavCom_def)
  moreover have "\<forall>m \<in> set [30, 1, 30]. text_ok ?M m" by (simp add: toy_mavlink_def text_ok_def message_ids)
  ultimately show ?thesis by (rule mavcom_bridge)
qed

text \<open>C26: After an update each part of the autopilot's state is that of the last message that carries
  it, and unchanged when there was none.\<close>

theorem ap_state_latest:
  assumes r: "parse_all M 0 rx_ap (mc_lib mc) = (p, ms)" and ok: "\<forall>m \<in> set ms. text_ok M m"
    and rc: "\<And>m. 10 \<le> length (rc_chans (ml_rc_channels M m))"
  shows "\<exists>mc'. update_100hz clk M client rx_ap rx_udp mc = Inr mc' \<and>
    attitude_of (mc_ap mc') = latest (\<lambda>m. ml_msgid M m = ID_ATTITUDE) (\<lambda>m. let a = ml_attitude M m in
      (at_roll a, at_pitch a, at_yaw a, at_rollspeed a, at_pitchspeed a, at_yawspeed a)) ms (attitude_of (mc_ap mc)) \<and>
    battery_of (mc_ap mc') = latest (\<lambda>m. ml_msgid M m = ID_SYS_STATUS) (\<lambda>m. let s = ml_sys_status M m in
      (ss_battery_remaining s, ml_milli M (uint (ss_voltage_battery s)))) ms (battery_of (mc_ap mc)) \<and>
    mode_of (mc_ap mc') = latest (\<lambda>m. ml_msgid M m = ID_HEARTBEAT) (\<lambda>m. let h = ml_heartbeat M m in
      (hb_base_mode h, hb_system_status h, ucast (hb_custom_mode h))) ms (mode_of (mc_ap mc)) \<and>
    local_of (mc_ap mc') = latest (\<lambda>m. ml_msgid M m = ID_LOCAL_POSITION_NED) (\<lambda>m. let q = ml_local_position_ned M m in
      (po_x q, po_y q, po_z q, po_vx q, po_vy q, po_vz q)) ms (local_of (mc_ap mc)) \<and>
    altitude_of (mc_ap mc') = latest (\<lambda>m. ml_msgid M m = ID_GLOBAL_POSITION_INT) (\<lambda>m.
      let (r, a) = ml_global_position_int M m in (ml_milli M (sint r), ml_milli M (sint a))) ms (altitude_of (mc_ap mc)) \<and>
    rc_of (mc_ap mc') = latest (\<lambda>m. ml_msgid M m = ID_RC_CHANNELS) (\<lambda>m. let r = ml_rc_channels M m in
      (take 10 (rc_chans r), rc_rssi r)) ms (rc_of (mc_ap mc)) \<and>
    ap_rngfnd_dist_m (mc_ap mc') = latest (\<lambda>m. ml_msgid M m = ID_RANGEFINDER) (ml_rangefinder M) ms
      (ap_rngfnd_dist_m (mc_ap mc))"
proof -
  obtain p' us where u: "parse_all M 1 rx_udp p = (p', us)" by fastforce
  let ?a = "activateProxyIfNeeded clk client mc"
  obtain mc1 mc' where f: "foldE (ap_msg clk M) ms ?a = Inr mc1" and run: "update_100hz clk M client rx_ap rx_udp mc = Inr mc'"
    and e: "mc_ap mc' = mc_ap mc1"
    by (rule update_100hz_run [OF r u ok, of clk client]) (rule that, assumption, assumption, simp)
  note g = ap_msg_groups [OF _ rc]
  have a: "mc_ap ?a = mc_ap mc" by (rule activate_effects)
  note L = latest_fold [OF f, where g = "\<lambda>mc. h (mc_ap mc)" for h, unfolded a]
  show ?thesis unfolding run e [symmetric] by (rule exI [of _ mc']) (intro conjI refl; unfold e; rule L; rule g; assumption)
qed

lemma ap_state_latest_witness:
  "\<exists>mc'. update_100hz of_nat toy_mavlink None [30, 173, 66] [] mavcom_start = Inr mc' \<and>
    ap_rngfnd_dist_m (mc_ap mc') = 9 \<and> attitude_of (mc_ap mc') = (1, 2, 3, 4, 5, 6) \<and> battery_of (mc_ap mc') = (0, 0)"
proof -
  let ?M = toy_mavlink
  have p: "parse_all ?M 0 [30, 173, 66] (mc_lib mavcom_start) = (3, [30, 173, 66])"
    by (simp add: toy_mavlink_def mavcom_start_def MavCom_def)
  have t: "\<forall>m \<in> set [30, 173, 66]. text_ok ?M m" by (simp add: toy_mavlink_def text_ok_def message_ids)
  have rc: "10 \<le> length (rc_chans (ml_rc_channels ?M m))" for m by (simp add: toy_mavlink_def)
  show ?thesis using ap_state_latest [OF p t rc, of of_nat None "[]"]
    by (auto simp: latest_def toy_mavlink_def message_ids mavcom_start_def MavCom_def groups_of ap_zero_def)
qed


subsection \<open>Reachable states\<close>

inductive mc_step :: "clock \<Rightarrow> ('p, 'm) mavlink \<Rightarrow> ('p, 'm) mavcom \<Rightarrow> ('p, 'm) mavcom \<Rightarrow> bool" for clk M where
  step_100hz: "update_100hz clk M client rx_ap rx_udp mc = Inr mc' \<Longrightarrow> mc_step clk M mc mc'"
| step_10hz: "mc_step clk M mc (update_10hz clk client mc)"
| step_1hz: "mc_step clk M mc (update_1hz clk M client mc)"
| step_command: "mc_step clk M mc (fst (sendCommandInt M command frame params mc))"

inductive mc_reach :: "clock \<Rightarrow> ('p, 'm) mavlink \<Rightarrow> ('p, 'm) mavcom \<Rightarrow> bool" for clk M where
  reach_start: "mc_reach clk M (mavcom_init clk M (MavCom lib ap lastSys ip udp_ip logs n))"
| reach_step: "mc_reach clk M mc \<Longrightarrow> mc_step clk M mc mc' \<Longrightarrow> mc_reach clk M mc'"

fun is_init :: "mav_effect \<Rightarrow> bool" where
  "is_init (UdpDoInit ip) = True"
| "is_init _ = False"

definition proxy_inv :: "('p, 'm) mavcom \<Rightarrow> bool" where
  "proxy_inv mc \<longleftrightarrow>
     filter is_init (mc_effects mc) = (if mc_proxyIsActive mc then [UdpDoInit (udp_remoteIP (mc_udp mc))] else []) \<and>
     udp_initialized (mc_udp mc) = mc_proxyIsActive mc \<and> lq_queueSize (mc_apTxQueue mc) = 10 \<and>
     length (lq_queue (mc_apTxQueue mc)) \<le> 10"

lemma proxy_inv_activate: "proxy_inv mc \<Longrightarrow> proxy_inv (activateProxyIfNeeded clk client mc)"
  by (auto simp: proxy_inv_def activateProxyIfNeeded_def udp_init_def udp_start_def udp_deInit_def mc_log_def mc_effect_def hal_millis_def
      Let_def split: option.splits)

text \<open>Whatever adds effects other than the start of the proxy and keeps the transport keeps the invariant.\<close>

lemma proxy_inv_frame:
  assumes "proxy_inv mc" "mc_effects mc' = mc_effects mc @ es" "filter is_init es = []" "mc_udp mc' = mc_udp mc"
    "mc_proxyIsActive mc' = mc_proxyIsActive mc" "mc_apTxQueue mc' = mc_apTxQueue mc"
  shows "proxy_inv mc'"
  using assms by (simp add: proxy_inv_def)

lemma filter_printed [simp]: "filter is_init (printed M m) = []"
  by (simp add: printed_def)

lemma proxy_inv_ap_rx: "proxy_inv mc \<Longrightarrow> ap_rx clk M mc b = Inr mc' \<Longrightarrow> proxy_inv mc'"
proof -
  assume i: "proxy_inv mc" and r: "ap_rx clk M mc b = Inr mc'"
  obtain p found where c: "ml_parse_char M 0 b (mc_lib mc) = (p, found)" by fastforce
  show "proxy_inv mc'"
  proof (cases found)
    case None
    then show ?thesis using i r c by (auto simp: ap_rx_def proxy_inv_def)
  next
    case (Some m)
    then obtain mc1 where h: "handleMessage clk M m (mc\<lparr>mc_lib := p\<rparr>) = Inr mc1"
      and mc': "mc' = mc_effect (UdpWrite (ml_to_send_buffer M m)) mc1" using r c by (auto simp: ap_rx_def)
    show ?thesis unfolding mc'
      by (rule proxy_inv_frame [OF i, where es = "printed M m @ [UdpWrite (ml_to_send_buffer M m)]"])
        (simp_all add: mc_effect_def handle_lib [OF h])
  qed
qed

text \<open>The messages that packing a list of commands gives.\<close>

fun pack_all :: "('p, 'm) mavlink \<Rightarrow> command_int list \<Rightarrow> 'p \<Rightarrow> 'p \<times> 'm list" where
  "pack_all M [] p = (p, [])"
| "pack_all M (c # cs) p =
     (let (p, m) = ml_command_int_pack M MAVLINK_SYSTEM_ID MAVLINK_COMPONENT_ID c p; (p, ms) = pack_all M cs p in (p, m # ms))"

lemma length_pack_all: "pack_all M cs p = (p', ms) \<Longrightarrow> length ms = length cs"
  by (induction cs arbitrary: p ms) (auto split: prod.splits)

definition interval_request :: "('p, 'm) mavlink \<Rightarrow> nat \<Rightarrow> command_int" where
  "interval_request M i = \<lparr>ci_frame = 0, ci_command = MAV_CMD_SET_MESSAGE_INTERVAL,
     ci_params = [ml_float M (int i), ml_interval M 10, 0, 0, 0, 0, 0]\<rparr>"

lemma setMessageIntervals:
  assumes "pack_all M (map (interval_request M) is) (mc_lib mc) = (p, ms)"
  shows "fold (\<lambda>i. setMessageInterval M i 10) is mc =
    mc\<lparr>mc_lib := p, mc_effects := mc_effects mc @ map (ApWrite \<circ> ml_to_send_buffer M) ms\<rparr>"
  using assms
proof (induction "is" arbitrary: mc ms)
  case (Cons i "is")
  obtain p1 m where c: "ml_command_int_pack M MAVLINK_SYSTEM_ID MAVLINK_COMPONENT_ID (interval_request M i) (mc_lib mc) = (p1, m)"
    by fastforce
  obtain p2 ms' where r: "pack_all M (map (interval_request M) is) p1 = (p2, ms')" by fastforce
  have s: "setMessageInterval M i 10 mc = mc\<lparr>mc_lib := p1, mc_effects := mc_effects mc @ [ApWrite (ml_to_send_buffer M m)]\<rparr>"
    using c by (simp add: setMessageInterval_def sendCommandIntNoQueue_def sendMavlinkMessage_def mc_effect_def interval_request_def)
  show ?case using Cons.IH [of "setMessageInterval M i 10 mc" ms'] Cons.prems c r by (auto simp: s)
qed (cases mc, simp)

lemma setup_run:
  assumes "pack_all M (map (interval_request M) streamed_ids) (mc_lib mc) = (p, ms)"
  shows "setupMessageStreaming clk M mc = (mc_log clk LOG_LEVEL_INFO LOG_GROUP_MAIN
      (lit ''Requesting message stream rates from AP'' @ NL) mc)
      \<lparr>mc_lib := p, mc_effects := mc_effects mc @ map (ApWrite \<circ> ml_to_send_buffer M) ms\<rparr>"
  unfolding setupMessageStreaming_def
  by (subst setMessageIntervals) (use assms in \<open>auto simp: mc_log_def hal_millis_def\<close>)

lemma filter_writes [simp]: "filter is_init (map (ApWrite \<circ> f) ms) = []"
  by (induction ms) simp_all

lemma proxy_inv_setup: "proxy_inv mc \<Longrightarrow> proxy_inv (setupMessageStreaming clk M mc)"
proof -
  assume i: "proxy_inv mc"
  obtain p ms where e: "pack_all M (map (interval_request M) streamed_ids) (mc_lib mc) = (p, ms)" by fastforce
  show ?thesis unfolding setup_run [OF e]
    by (rule proxy_inv_frame [OF i, where es = "map (ApWrite \<circ> ml_to_send_buffer M) ms"]) (simp_all add: mc_log_def hal_millis_def)
qed

lemma update_1hz_run:
  assumes "ml_heartbeat_pack M MAVLINK_SYSTEM_ID MAVLINK_COMPONENT_ID 18 8 0 0 4 (mc_lib mc1) = (p, msg)"
    "mc1 = (let mc = activateProxyIfNeeded clk client mc; mc = mc\<lparr>mc_ticks := Suc (mc_ticks mc)\<rparr>
       in if clk (mc_ticks mc - 1) - mc_lastSysStatus mc > 1000 then setupMessageStreaming clk M mc else mc)"
  shows "update_1hz clk M client mc = mc1\<lparr>mc_lib := p, mc_effects := mc_effects mc1 @ [ApWrite (ml_to_send_buffer M msg)]\<rparr>"
  using assms by (simp add: update_1hz_def hal_millis_def Let_def sendMavlinkMessage_def mc_effect_def)

lemma proxy_inv_1hz:
  assumes "proxy_inv mc"
  shows "proxy_inv (update_1hz clk M client mc)"
proof -
  define mc1 where "mc1 = (let mc = activateProxyIfNeeded clk client mc; mc = mc\<lparr>mc_ticks := Suc (mc_ticks mc)\<rparr>
       in if clk (mc_ticks mc - 1) - mc_lastSysStatus mc > 1000 then setupMessageStreaming clk M mc else mc)"
  obtain p msg where h: "ml_heartbeat_pack M MAVLINK_SYSTEM_ID MAVLINK_COMPONENT_ID 18 8 0 0 4 (mc_lib mc1) = (p, msg)" by fastforce
  have "proxy_inv ((activateProxyIfNeeded clk client mc)\<lparr>mc_ticks := n\<rparr>)" for n
    using proxy_inv_activate [OF assms] by (auto simp: proxy_inv_def)
  then have "proxy_inv mc1" unfolding mc1_def Let_def by (auto intro: proxy_inv_setup)
  then show ?thesis unfolding update_1hz_run [OF h mc1_def]
    by (rule proxy_inv_frame [where es = "[ApWrite (ml_to_send_buffer M msg)]"]) simp_all
qed

lemma proxy_inv_100hz:
  assumes "proxy_inv mc" "update_100hz clk M client rx_ap rx_udp mc = Inr mc'"
  shows "proxy_inv mc'"
proof -
  let ?a = "activateProxyIfNeeded clk client mc"
  obtain mc1 where r: "foldE (ap_rx clk M) rx_ap ?a = Inr mc1" using assms(2) by (auto simp: update_100hz_def)
  have i1: "proxy_inv mc1"
    by (rule foldE_inv [OF _ r]) (auto intro: proxy_inv_activate [OF assms(1)] proxy_inv_ap_rx)
  obtain p us where u: "parse_all M 1 rx_udp (mc_lib mc1) = (p, us)" by fastforce
  have "mc' = mc1\<lparr>mc_lib := p, mc_apTxQueue := (mc_apTxQueue mc1)\<lparr>lq_queue := []\<rparr>, mc_effects := mc_effects mc1 @
      map (ApWrite \<circ> ml_to_send_buffer M) (us @ lq_queue (mc_apTxQueue mc1))\<rparr>"
    using assms(2) by (auto simp: update_100hz_def r udp_rx_all [OF u] drain_queue_ok send_queue)
  then show ?thesis using i1 by (simp add: proxy_inv_def filter_writes [unfolded comp_def] comp_def)
qed

lemma proxy_inv_command:
  assumes "proxy_inv mc"
  shows "proxy_inv (fst (sendCommandInt M command frame params mc))"
  using assms by (auto simp: proxy_inv_def sendCommandInt_def Let_def lq_push_def LinuxQueue_push_def split: prod.splits)

lemma proxy_inv_reach: "mc_reach clk M mc \<Longrightarrow> proxy_inv mc"
proof (induction rule: mc_reach.induct)
  case (reach_start lib ap lastSys ip udp_ip logs n)
  show ?case unfolding mavcom_init_def
    by (rule proxy_inv_setup) (simp add: proxy_inv_def MavCom_def TransportUDP_def LinuxQueue_def)
next
  case (reach_step mc mc')
  then show ?case
    by (auto elim!: mc_step.cases intro: proxy_inv_100hz proxy_inv_1hz proxy_inv_command
        simp: update_10hz_def proxy_inv_activate)
qed


text \<open>C32: In every reachable state the ground-station proxy has been started exactly once if it is
  active and never otherwise, to the address the transport still holds, so a later client is not
  taken over; and at most ten commands are waiting.\<close>

theorem proxy_started_once:
  assumes "mc_reach clk M mc"
  shows "filter is_init (mc_effects mc) = (if mc_proxyIsActive mc then [UdpDoInit (udp_remoteIP (mc_udp mc))] else []) \<and>
    udp_initialized (mc_udp mc) = mc_proxyIsActive mc \<and> length (lq_queue (mc_apTxQueue mc)) \<le> 10"
  using proxy_inv_reach [OF assms] by (simp add: proxy_inv_def)

lemma proxy_started_once_witness:
  "\<exists>mc. mc = update_10hz of_nat (Some (Some (lit ''10.0.0.3'')))
      (update_10hz of_nat (Some (Some (lit ''10.0.0.2''))) (mavcom_init of_nat toy_mavlink mavcom_start)) \<and>
    filter is_init (mc_effects mc) = (if mc_proxyIsActive mc then [UdpDoInit (udp_remoteIP (mc_udp mc))] else []) \<and>
    udp_initialized (mc_udp mc) = mc_proxyIsActive mc \<and> length (lq_queue (mc_apTxQueue mc)) \<le> 10"
  unfolding mavcom_start_def
  by (rule exI, rule conjI [OF refl], rule proxy_started_once
      [OF mc_reach.reach_step [OF mc_reach.reach_step [OF mc_reach.reach_start mc_step.step_10hz] mc_step.step_10hz]])

subsection \<open>Commands to the autopilot\<close>

definition queue_commands :: "('p, 'm) mavlink \<Rightarrow> command_int list \<Rightarrow> ('p, 'm) mavcom \<Rightarrow> ('p, 'm) mavcom" where
  "queue_commands M cs mc = foldl (\<lambda>mc c. fst (sendCommandInt M (ci_command c) (ci_frame c) (ci_params c) mc)) mc cs"

lemma queue_commands_run:
  assumes "pack_all M cs (mc_lib mc) = (p, ms)"
  shows "queue_commands M cs mc = mc\<lparr>mc_lib := p, mc_apTxQueue := foldl (\<lambda>q m. fst (lq_push q m)) (mc_apTxQueue mc) ms\<rparr>"
  using assms
proof (induction cs arbitrary: mc ms)
  case (Cons c cs)
  obtain p1 m where c: "ml_command_int_pack M MAVLINK_SYSTEM_ID MAVLINK_COMPONENT_ID c (mc_lib mc) = (p1, m)" by fastforce
  obtain p2 ms' where r: "pack_all M cs p1 = (p2, ms')" by fastforce
  have s: "fst (sendCommandInt M (ci_command c) (ci_frame c) (ci_params c) mc) =
      mc\<lparr>mc_lib := p1, mc_apTxQueue := fst (lq_push (mc_apTxQueue mc) m)\<rparr>"
    using c by (cases c) (simp add: sendCommandInt_def Let_def split_beta)
  show ?case using Cons.IH [of "mc\<lparr>mc_lib := p1, mc_apTxQueue := fst (lq_push (mc_apTxQueue mc) m)\<rparr>" ms'] Cons.prems c r
    by (auto simp: queue_commands_def s)
qed (cases mc, simp add: queue_commands_def)

text \<open>The commands queued between two updates are written to the autopilot by the next update,
  in order and after the bytes of the ground station; those beyond the capacity of the queue are lost.\<close>

theorem commands_sent:
  assumes "pack_all M cs (mc_lib mc) = (lib, cmds)" "parse_all M 0 rx_ap lib = (p, ms)" "parse_all M 1 rx_udp p = (p', us)"
    and "\<forall>m \<in> set ms. text_ok M m" "length (lq_queue (mc_apTxQueue mc)) \<le> lq_queueSize (mc_apTxQueue mc)"
  shows "\<exists>mc' out. update_100hz clk M client rx_ap rx_udp (queue_commands M cs mc) = Inr mc' \<and>
    mc_effects mc' = out @ map (ApWrite \<circ> ml_to_send_buffer M) (us @ lq_queue (mc_apTxQueue mc) @
      take (lq_queueSize (mc_apTxQueue mc) - length (lq_queue (mc_apTxQueue mc))) cmds)"
proof -
  let ?mc = "queue_commands M cs mc"
  note q = queue_commands_run [OF assms(1)]
  have lib: "mc_lib ?mc = lib" by (simp add: q)
  have que: "lq_queue (mc_apTxQueue ?mc) = lq_queue (mc_apTxQueue mc) @
      take (lq_queueSize (mc_apTxQueue mc) - length (lq_queue (mc_apTxQueue mc))) cmds"
    using lq.push_all [OF assms(5), of cmds] by (simp add: q)
  obtain mc1 where "update_100hz clk M client rx_ap rx_udp ?mc = Inr (mc1\<lparr>mc_lib := p',
       mc_apTxQueue := (mc_apTxQueue ?mc)\<lparr>lq_queue := []\<rparr>,
       mc_effects := mc_effects (activateProxyIfNeeded clk client ?mc) @ forwarded M ms @
         map (ApWrite \<circ> ml_to_send_buffer M) (us @ lq_queue (mc_apTxQueue ?mc))\<rparr>)"
    by (rule update_100hz_run [of M rx_ap ?mc p ms rx_udp p' us clk client]) (use assms(2-4) lib in simp_all)
  then show ?thesis unfolding que by (intro exI conjI, assumption) simp
qed

definition eleven_commands :: "command_int list" where
  "eleven_commands = map (\<lambda>c. \<lparr>ci_frame = 0, ci_command = c, ci_params = []\<rparr>) [1, 2, 3, 4, 5, 6, 7, 8, 9, 10, 11]"

lemma commands_sent_witness:
  "\<exists>mc' out. update_100hz of_nat toy_mavlink None [30] [76] (queue_commands toy_mavlink eleven_commands mavcom_start) = Inr mc' \<and>
    mc_effects mc' = out @ map (ApWrite \<circ> ml_to_send_buffer toy_mavlink) ([76] @ lq_queue (mc_apTxQueue mavcom_start) @
      take (lq_queueSize (mc_apTxQueue mavcom_start) - length (lq_queue (mc_apTxQueue mavcom_start))) [1, 2, 3, 4, 5, 6, 7, 8, 9, 10, 11])"
  by (rule commands_sent [where lib = 11 and p = 12 and p' = 13 and ms = "[30]"])
    (simp_all add: toy_mavlink_def mavcom_start_def MavCom_def LinuxQueue_def text_ok_def message_ids eleven_commands_def)

text \<open>Once a second a heartbeat goes to the autopilot; before it, when the last system status is
  more than a second old (also across a wrap of the clock), the six message streams are requested again.\<close>

theorem update_1hz_requests:
  assumes "pack_all M (map (interval_request M) streamed_ids) (mc_lib mc) = (p, ms)"
    and "stale = (1000 < clk (mc_ticks (activateProxyIfNeeded clk client mc)) - mc_lastSysStatus mc)"
    and "ml_heartbeat_pack M 42 192 18 8 0 0 4 (if stale then p else mc_lib mc) = (p', hb)"
  shows "mc_effects (update_1hz clk M client mc) = mc_effects (activateProxyIfNeeded clk client mc) @
      map (ApWrite \<circ> ml_to_send_buffer M) ((if stale then ms else []) @ [hb]) \<and> length ms = 6"
proof -
  let ?a = "activateProxyIfNeeded clk client mc"
  let ?b = "?a\<lparr>mc_ticks := Suc (mc_ticks ?a)\<rparr>"
  have ls: "mc_lastSysStatus ?a = mc_lastSysStatus mc" and lib: "mc_lib ?a = mc_lib mc"
    by (auto simp: activateProxyIfNeeded_def udp_init_def udp_start_def udp_deInit_def mc_log_def mc_effect_def hal_millis_def Let_def split: option.split)
  define mc1 where "mc1 = (if stale then setupMessageStreaming clk M ?b else ?b)"
  have m1: "mc1 = (let mc = ?a; mc = mc\<lparr>mc_ticks := Suc (mc_ticks mc)\<rparr>
       in if clk (mc_ticks mc - 1) - mc_lastSysStatus mc > 1000 then setupMessageStreaming clk M mc else mc)"
    by (simp add: mc1_def assms(2) ls Let_def)
  have s: "setupMessageStreaming clk M ?b = (mc_log clk LOG_LEVEL_INFO LOG_GROUP_MAIN
      (lit ''Requesting message stream rates from AP'' @ NL) ?b)
      \<lparr>mc_lib := p, mc_effects := mc_effects ?b @ map (ApWrite \<circ> ml_to_send_buffer M) ms\<rparr>"
    by (rule setup_run) (simp add: lib assms(1))
  have e: "mc_lib mc1 = (if stale then p else mc_lib mc)"
    "mc_effects mc1 = mc_effects ?a @ map (ApWrite \<circ> ml_to_send_buffer M) (if stale then ms else [])"
    by (simp_all add: mc1_def s lib)
  have "ml_heartbeat_pack M MAVLINK_SYSTEM_ID MAVLINK_COMPONENT_ID 18 8 0 0 4 (mc_lib mc1) = (p', hb)"
    using assms(3) by (simp add: e MAVLINK_SYSTEM_ID_def MAVLINK_COMPONENT_ID_def)
  from update_1hz_run [OF this m1] show ?thesis
    using length_pack_all [OF assms(1)] by (simp add: e streamed_ids_def)
qed

lemma update_1hz_requests_witness:
  "mc_effects (update_1hz (\<lambda>n. 5000) toy_mavlink None mavcom_start) = mc_effects (activateProxyIfNeeded (\<lambda>n. 5000) None mavcom_start) @
      map (ApWrite \<circ> ml_to_send_buffer toy_mavlink) ((if True then [255, 255, 255, 255, 255, 255] else []) @ [0]) \<and>
    length [255, 255, 255, 255, 255, 255 :: u8] = 6"
  by (rule update_1hz_requests [where p = 6 and p' = 7])
    (simp_all add: toy_mavlink_def mavcom_start_def MavCom_def streamed_ids_def interval_request_def
      MAV_CMD_SET_MESSAGE_INTERVAL_def activateProxyIfNeeded_def)

text \<open>A status text that fills its 50 bytes has no terminator, and printing it reads past the
  buffer: an update that receives one fails.\<close>

theorem statustext_overread:
  assumes "parse_all M 0 rx_ap (mc_lib mc) = (p, ms @ [m])" "ml_parse_char M 0 b p = (p', Some bad)"
    and "ml_msgid M bad = ID_STATUSTEXT" "0 \<notin> set (ml_statustext M bad)" "\<forall>k \<in> set (ms @ [m]). text_ok M k"
  shows "update_100hz clk M client (rx_ap @ b # rest) rx_udp mc = Inl OutOfBounds"
proof -
  let ?a = "activateProxyIfNeeded clk client mc"
  obtain mc1 where m: "foldE (ap_msg clk M) (ms @ [m]) ?a = Inr mc1"
    using handle_all_ok [OF assms(5), of clk ?a] by auto
  have "foldE (ap_rx clk M) rx_ap ?a = Inr (mc1\<lparr>mc_lib := p\<rparr>)"
    by (rule ap_rx_all [OF _ m]) (simp add: activate_effects assms(1))
  moreover have "\<not> text_ok M bad" using assms(3,4) by (simp add: text_ok_def)
  ultimately show ?thesis
    using assms(2) by (simp add: update_100hz_def foldE_append ap_rx_def handleMessage_bad)
qed

lemma statustext_overread_witness:
  "update_100hz of_nat toy_mavlink None ([30] @ 253 # []) [] mavcom_start = Inl OutOfBounds"
  by (rule statustext_overread [where p = 1 and p' = 2 and ms = "[]" and m = 30 and bad = 253])
    (simp_all add: toy_mavlink_def mavcom_start_def MavCom_def text_ok_def message_ids)

end
