(* ===== verification/Companion.thy ===== *)
theory Companion
  imports TelemetryLink MavCom
begin

text \<open>
  The camera's bookkeeping, \<open>camera.cpp\<close>, and the main loop, \<open>main.cpp\<close>, over all components.
  The log and the clock are those in the state of \<open>MavCom\<close>; telemetry works on them during its
  update. What a loop receives from outside is the record \<open>frame_in\<close>.
\<close>

subsection \<open>The camera\<close>

record camera =
  cam_isInitialized :: bool
  cam_last_fps_update :: u32
  cam_fps :: int
  cam_fps_counter :: int
  cam_udp :: transport_udp

definition Camera :: "bytes \<Rightarrow> camera" where
  "Camera mem = \<lparr>cam_isInitialized = False, cam_last_fps_update = 0, cam_fps = 0, cam_fps_counter = 0,
     cam_udp = TransportUDP 9095 mem\<rparr>"

text \<open>The frame counter of \<open>capture\<close>; \<open>now\<close> and \<open>now'\<close> are the two readings of the clock.\<close>

definition update_fps :: "u32 \<Rightarrow> u32 \<Rightarrow> camera \<Rightarrow> cerr + camera \<times> bool" where
  "update_fps now now' c =
     bindE (cint (cam_fps_counter c + 1)) (\<lambda>k.
     let c = c\<lparr>cam_fps_counter := k\<rparr> in
     Inr (if now - cam_last_fps_update c > 1000
          then (c\<lparr>cam_last_fps_update := now', cam_fps := cam_fps_counter c, cam_fps_counter := 0\<rparr>, True)
          else (c, False)))"

text \<open>
  \<open>sendImageOverUDP\<close> of the ESP32 camera: the packets an image of \<open>len\<close> bytes is sent in.
\<close>

definition CHUNK_SIZE :: u16 where "CHUNK_SIZE = 1024"

definition sendImageOverUDP :: "bool \<Rightarrow> bytes \<Rightarrow> u32 \<Rightarrow> cerr + bytes list" where
  "sendImageOverUDP isInitialized buf len =
     (if \<not> isInitialized then Inr []
      else let size = ucast CHUNK_SIZE :: u32;
          num_chunks = len div size + (if len mod size \<noteq> 0 then 1 else 0)
      in foldE (\<lambda>out i.
           let offset = of_nat i * size;
               chunk_size = (if offset + size > len then len - offset else size)
           in bindE (mem_read buf (uint offset) (uint chunk_size)) (\<lambda>c. Inr (out @ [c])))
         [0..<unat num_chunks] [])"

subsection \<open>The main loop\<close>

record frame_in =
  fi_client :: "bytes option option"
  fi_rx_ap :: bytes
  fi_rx_udp :: bytes
  fi_rx_tel :: bytes
  fi_heap :: u32
  fi_image :: "(float32 tag_t \<times> float32 detection list) option"
  fi_ip_mem :: bytes
  fi_micros :: u32

record ('p, 'm) companion =
  co_frame :: u32
  co_next_frame :: u32
  co_last_print :: u32
  co_mavcom :: "('p, 'm) mavcom"
  co_telemetry :: telemetry
  co_detector :: "float32 target_detector"
  co_camera :: camera
  co_sent :: "bytes list"
  co_delay :: "u32 option"

definition initUdpBroadcastIfNeeded :: "clock \<Rightarrow> frame_in \<Rightarrow> camera \<Rightarrow> ('p, 'm) mavcom \<Rightarrow> camera \<times> ('p, 'm) mavcom" where
  "initUdpBroadcastIfNeeded clk i c mc =
     (if \<not> udp_initialized (cam_udp c) \<and> fi_client i \<noteq> None then
        let ip = (case fi_client i of Some (Some ip) \<Rightarrow> ip | _ \<Rightarrow> fi_ip_mem i);
            (u, q, n) = udp_start clk ip (cam_udp c) (mc_logQueue mc) (mc_ticks mc)
        in (c\<lparr>cam_udp := u\<rparr>,
            mc_log clk LOG_LEVEL_INFO LOG_GROUP_MAIN (lit ''Starting camera broadcast to '' @ cstr ip @ NL)
              (mc\<lparr>mc_logQueue := q, mc_ticks := n\<rparr>))
      else (c, mc))"

text \<open>Without an image \<open>doCapture\<close> returns early, and the frame is counted all the same.\<close>

definition camera_capture :: "clock \<Rightarrow> float32 fpu \<Rightarrow> frame_in \<Rightarrow> ('p, 'm) companion \<Rightarrow> cerr + ('p, 'm) companion" where
  "camera_capture clk F i s =
     (if \<not> cam_isInitialized (co_camera s) then Inr s
      else
        let (c, mc) = initUdpBroadcastIfNeeded clk i (co_camera s) (co_mavcom s);
            (td, n) = (case fi_image i of None \<Rightarrow> (co_detector s, mc_ticks mc)
                       | Some (junk, dets) \<Rightarrow> detectTagsInImage F clk junk (co_detector s) dets (mc_ticks mc))
        in bindE (update_fps (clk n) (clk (Suc n)) c) (\<lambda>(c, again).
           Inr (s\<lparr>co_camera := c, co_detector := td, co_mavcom := mc\<lparr>mc_ticks := if again then n + 2 else n + 1\<rparr>\<rparr>)))"

text \<open>The telemetry update, and the commands it hands to \<open>MavCom\<close>.\<close>

definition apply_effect :: "('p, 'm) mavlink \<Rightarrow> ('p, 'm) mavcom \<Rightarrow> telem_effect \<Rightarrow> ('p, 'm) mavcom" where
  "apply_effect M mc e =
     (case e of
        SendCommandInt c f p \<Rightarrow> fst (sendCommandInt M (of_nat c) f [p, 0, 0, 0, 0, 0, 0] mc)
      | Delay ms \<Rightarrow> mc
      | Reboot \<Rightarrow> mc)"

definition run_telemetry :: "clock \<Rightarrow> ('p, 'm) mavlink \<Rightarrow> frame_in \<Rightarrow> ('p, 'm) companion \<Rightarrow> cerr + ('p, 'm) companion" where
  "run_telemetry clk M i s =
     (let mc = co_mavcom s;
          te = (co_telemetry s)\<lparr>tl_logQueue := mc_logQueue mc, tl_ticks := mc_ticks mc, tl_effects := []\<rparr>
      in bindE (telemetry_update clk (fi_client i \<noteq> None) (fi_rx_tel i) (of_int (cam_fps (co_camera s))) (fi_heap i)
                  (ap_bytes (mc_ap mc)) te (co_detector s)) (\<lambda>(te, out).
         let mc = mc\<lparr>mc_logQueue := tl_logQueue te, mc_ticks := tl_ticks te\<rparr>;
             mc = foldl (apply_effect M) mc (tl_effects te)
         in Inr (s\<lparr>co_telemetry := te, co_mavcom := mc, co_sent := co_sent s @ out\<rparr>)))"

definition print_statistics :: "clock \<Rightarrow> ('p, 'm) companion \<Rightarrow> ('p, 'm) companion" where
  "print_statistics clk s =
     (let mc = co_mavcom s; (tags, tags_detected) = getTagsDetected (co_detector s); (now, n) = hal_millis clk (mc_ticks mc);
          mc = mc\<lparr>mc_ticks := n\<rparr>
      in if now - co_last_print s > 1000 then
           let mc = mc_log clk LOG_LEVEL_DEBUG LOG_GROUP_MAIN
                 (lit ''FPS: '' @ show_d (cam_fps (co_camera s)) @ lit '', Tags: '' @ show_d (uint tags_detected) @
                  lit '', Lock: '' @ show_d (of_bool (td_hasLock (co_detector s))) @ NL) mc;
               (now, n) = hal_millis clk (mc_ticks mc)
           in s\<lparr>co_mavcom := mc\<lparr>mc_ticks := n\<rparr>, co_last_print := now\<rparr>
         else s\<lparr>co_mavcom := mc\<rparr>)"

text \<open>
  The end of a loop on Linux, where \<open>long\<close> has 64 bits: the difference of two unsigned 32-bit times is
  taken as integers, and a positive one is the delay.
\<close>

definition frame_period_us :: u32 where "frame_period_us = 1000"

definition frame_delay :: "u32 \<Rightarrow> u32 \<Rightarrow> u32 \<times> u32 option" where
  "frame_delay next_frame micros =
     (let next_frame = next_frame + frame_period_us;
          time_until_next_frame = uint next_frame - uint micros
      in (next_frame, if time_until_next_frame > 0 then Some (of_int time_until_next_frame) else None))"

definition every :: "bool \<Rightarrow> ('a \<Rightarrow> cerr + 'a) \<Rightarrow> 'a \<Rightarrow> cerr + 'a" where
  "every b f s = (if b then f s else Inr s)"

definition due :: "u32 \<Rightarrow> u32 \<Rightarrow> bool" where
  "due n frame = (frame mod n = 0)"

text \<open>The loop after the telemetry update.\<close>

definition loop_rest :: "clock \<Rightarrow> float32 fpu \<Rightarrow> ('p, 'm) mavlink \<Rightarrow> frame_in \<Rightarrow> ('p, 'm) companion \<Rightarrow> cerr + ('p, 'm) companion" where
  "loop_rest clk F M i s =
     (let f = co_frame s;
          s = (if due 1000 f then s\<lparr>co_mavcom := update_1hz clk M (fi_client i) (co_mavcom s)\<rparr> else s)
      in bindE (every (due 33 f) (camera_capture clk F i) s) (\<lambda>s.
         let s = print_statistics clk s; (nf, d) = frame_delay (co_next_frame s) (fi_micros i)
         in Inr (s\<lparr>co_next_frame := nf, co_delay := d\<rparr>)))"

definition loop_step :: "clock \<Rightarrow> float32 fpu \<Rightarrow> ('p, 'm) mavlink \<Rightarrow> ('p, 'm) companion \<Rightarrow> frame_in \<Rightarrow> cerr + ('p, 'm) companion" where
  "loop_step clk F M s i =
     (let f = co_frame s + 1; s = s\<lparr>co_frame := f\<rparr> in
      bindE (every (due 10 f) (\<lambda>s. bindE (update_100hz clk M (fi_client i) (fi_rx_ap i) (fi_rx_udp i) (co_mavcom s))
               (\<lambda>mc. Inr (s\<lparr>co_mavcom := mc\<rparr>))) s) (\<lambda>s.
      bindE (every (due 20 f) (run_telemetry clk M i) s)
        (loop_rest clk F M i)))"

subsection \<open>Pacing\<close>

text \<open>The frames after \<open>f\<close>, and those of them at which something due every \<open>n\<close> frames is done.\<close>

definition frames_after :: "u32 \<Rightarrow> nat \<Rightarrow> u32 list" where
  "frames_after f k = map (\<lambda>i. f + of_nat i) [1..<Suc k]"

definition times_due :: "u32 \<Rightarrow> u32 \<Rightarrow> nat \<Rightarrow> nat" where
  "times_due n f k = length (filter (due n) (frames_after f k))"

lemma count_multiples: "0 < d \<Longrightarrow> length (filter (\<lambda>i. (n + i) mod d = 0) [1..<Suc k]) = (n + k) div d - n div (d :: nat)"
proof (induction k)
  case (Suc k)
  have "[1..<Suc (Suc k)] = [1..<Suc k] @ [Suc k]" by simp
  then show ?case using Suc div_le_mono [of n "n + k" d]
    by (simp only: filter_append length_append) (simp add: div_Suc Suc_diff_le)
qed simp

lemma times_due_count:
  assumes "unat f + k < 2 ^ 32" "n \<noteq> 0"
  shows "times_due n f k = (unat f + k) div unat n - unat f div unat n"
proof -
  have u: "unat (f + of_nat i) = unat f + i" if "i \<le> k" for i
  proof -
    have "unat (of_nat i :: u32) = i" using that assms(1) by (simp add: unat_of_nat take_bit_nat_eq_self_iff)
    then show ?thesis using that assms(1) by (subst unat_word_ariths) simp
  qed
  have m: "(f + of_nat i) mod n = 0 \<longleftrightarrow> (unat f + i) mod unat n = 0" if "i \<le> k" for i
    by (simp add: unat_eq_zero [symmetric] unat_mod u [OF that] del: unat_eq_zero)
  have "times_due n f k = length (filter (\<lambda>i. (f + of_nat i) mod n = 0) [1..<Suc k])"
    by (simp add: times_due_def frames_after_def due_def filter_map comp_def del: upt_Suc)
  also have "filter (\<lambda>i. (f + of_nat i) mod n = 0) [1..<Suc k] = filter (\<lambda>i. (unat f + i) mod unat n = 0) [1..<Suc k]"
    by (rule filter_cong [OF refl], rule m) (simp del: upt_Suc)
  finally show ?thesis using count_multiples [of "unat n" "unat f" k] assms(2) by (simp add: unat_gt_0)
qed


text \<open>While the frame counter does not wrap, a thousand loops call the autopilot's update 100 times, the
  telemetry update 50 times, the one-second update once and the camera 30 or 31 times.\<close>

theorem loop_rates:
  assumes "unat f + 1000 < 2 ^ 32"
  shows "times_due 10 f 1000 = 100 \<and> times_due 20 f 1000 = 50 \<and> times_due 1000 f 1000 = 1 \<and>
    times_due 33 f 1000 \<in> {30, 31}"
proof -
  let ?a = "unat f"
  have d: "(?a + 1000) div 10 = ?a div 10 + 100" "(?a + 1000) div 20 = ?a div 20 + 50" "(?a + 1000) div 1000 = ?a div 1000 + 1"
    "(?a + 1000) div 33 = (?a + 10) div 33 + 30" "(?a + 33) div 33 = ?a div 33 + 1"
    using div_mult_self1 [of 10 ?a 100] div_mult_self1 [of 20 ?a 50] div_mult_self1 [of 33 "?a + 10" 30] by simp_all
  have "?a div 33 \<le> (?a + 10) div 33" "(?a + 10) div 33 \<le> (?a + 33) div 33" by (simp_all add: div_le_mono)
  then have "(?a + 10) div 33 = ?a div 33 \<or> (?a + 10) div 33 = ?a div 33 + 1"
    unfolding d(5) Suc_eq_plus1 [symmetric] by (metis le_SucE le_antisym)
  then show ?thesis using assms d by (auto simp: times_due_count)
qed

lemma loop_rates_witness:
  "times_due 10 7 1000 = 100 \<and> times_due 20 7 1000 = 50 \<and> times_due 1000 7 1000 = 1 \<and> times_due 33 7 1000 \<in> {30, 31}"
  by (rule loop_rates) simp


text \<open>The loop on a clock that advances by the work of each loop and by the delay; \<open>t\<close> is the time.\<close>

fun paced :: "u32 \<Rightarrow> nat \<Rightarrow> nat list \<Rightarrow> nat list" where
  "paced next_frame t [] = []"
| "paced next_frame t (w # ws) =
     (let (nf, d) = frame_delay next_frame (of_nat (t + w));
          t = t + w + (case d of None \<Rightarrow> 0 | Some us \<Rightarrow> unat us)
      in t # paced nf t ws)"

lemma of_nat32: "n < 2 ^ 32 \<Longrightarrow> unat (of_nat n :: u32) = n" "n < 2 ^ 32 \<Longrightarrow> uint (of_nat n :: u32) = int n"
  by (simp_all add: unsigned_of_nat take_bit_nat_eq_self_iff)

lemma frame_delay_cases:
  assumes "a + 1000 < 2 ^ 32" "t < 2 ^ 32"
  shows "frame_delay (of_nat a) (of_nat t) =
    (of_nat (a + 1000), if t < a + 1000 then Some (of_nat (a + 1000 - t)) else None)"
proof -
  have p: "of_nat a + 1000 = (of_nat (a + 1000) :: u32)" by simp
  have u: "uint (of_nat a + 1000 :: u32) = int a + 1000" "uint (of_nat t :: u32) = int t"
    using of_nat32(2) [of "a + 1000"] of_nat32(2) [of t] assms unfolding p [symmetric] by simp_all
  show ?thesis
    by (simp add: frame_delay_def frame_period_us_def u Let_def of_nat_diff)
qed

text \<open>As long as each loop's work takes less than its millisecond and the clock does not wrap, the loops
  end exactly at the multiples of the period, however the work varies.\<close>

theorem loops_paced:
  assumes "\<forall>w \<in> set ws. w < 1000" "a + 1000 * length ws < 2 ^ 32"
  shows "paced (of_nat a) a ws = map (\<lambda>i. a + 1000 * i) [1..<Suc (length ws)]"
  using assms
proof (induction ws arbitrary: a)
  case (Cons w ws)
  have u: "unat (of_nat (a + 1000 - (a + w)) :: u32) = 1000 - w"
    by (subst of_nat32(1)) (use Cons.prems in simp_all)
  have "map (\<lambda>i. a + 1000 * i) [1..<Suc (length (w # ws))] = (a + 1000) # map (\<lambda>i. (a + 1000) + 1000 * i) [1..<Suc (length ws)]"
  proof -
    have "[1..<Suc (length (w # ws))] = 1 # map Suc [1..<Suc (length ws)]" by (simp add: upt_conv_Cons map_Suc_upt del: upt_Suc)
    then show ?thesis by (simp add: comp_def del: upt_Suc)
  qed
  moreover have "paced (of_nat a) a (w # ws) = (a + 1000) # paced (of_nat (a + 1000)) (a + 1000) ws"
    using frame_delay_cases [of a "a + w"] Cons.prems u by (simp add: Let_def del: of_nat_add of_nat_diff)
  ultimately show ?case using Cons.IH [of "a + 1000"] Cons.prems by simp
qed simp

lemma loops_paced_witness:
  "paced (of_nat 5000) 5000 [10, 999, 0] = map (\<lambda>i. 5000 + 1000 * i) [1..<Suc (length [10, 999, 0 :: nat])]"
  by (rule loops_paced) auto

text \<open>When a loop ends late just as the 32-bit clock wraps, the next frame's time is still before the
  wrap, and the loop sleeps for over 71 minutes.\<close>

lemma late_wrap_stalls:
  assumes "4294965296 \<le> a" "a + 1000 < 2 ^ 32" "2 ^ 32 \<le> t" "t < 2 ^ 32 + 1000"
  shows "\<exists>d. snd (frame_delay (of_nat a) (of_nat t)) = Some d \<and> unat d > 71 * 60 * 1000000"
proof -
  define t' where "t' = t - 2 ^ 32"
  have t: "t = t' + 2 ^ 32" "t' < 1000" using assms(3,4) by (simp_all add: t'_def)
  have "(of_nat t :: u32) = of_nat t'" by (simp add: t(1))
  moreover have "unat (of_nat (a + 1000 - t') :: u32) = a + 1000 - t'"
    by (rule of_nat32) (use assms(2) in simp)
  ultimately show ?thesis using frame_delay_cases [of a t'] assms(1,2) t(2) by (simp del: of_nat_diff of_nat_add)
qed


subsection \<open>Images in packets\<close>

lemma image_chunks:
  assumes l: "length buf = unat len" "unat len + 1024 < 2 ^ 32" and k: "k * 1024 < unat len + 1024"
  shows "foldE (\<lambda>out i.
           let offset = of_nat i * 1024 :: u32; chunk_size = (if offset + 1024 > len then len - offset else 1024)
           in bindE (mem_read buf (uint offset) (uint chunk_size)) (\<lambda>c. Inr (out @ [c]))) [0..<k] [] =
     Inr (map (\<lambda>i. take 1024 (drop (i * 1024) buf)) [0..<k])"
  using k
proof (induction k)
  case (Suc k)
  let ?o = "of_nat k * 1024 :: u32"
  have o: "?o = of_nat (k * 1024)" by simp
  have kl: "k * 1024 < unat len" using Suc.prems by simp
  have uo: "unat ?o = k * 1024" unfolding o by (rule of_nat32) (use kl l(2) in simp)
  have "?o + 1024 = of_nat (k * 1024 + 1024)" by simp
  then have uo': "unat (?o + 1024) = k * 1024 + 1024"
    using of_nat32(1) [of "k * 1024 + 1024"] kl l(2) by simp
  let ?c = "if ?o + 1024 > len then len - ?o else 1024"
  have uc: "unat ?c = min 1024 (unat len - k * 1024)"
  proof (cases "?o + 1024 > len")
    case True
    then have "unat (len - ?o) = unat len - k * 1024" using uo kl by (subst unat_sub) (simp_all add: word_le_nat_alt)
    with True uo' show ?thesis by (auto simp: word_less_nat_alt)
  next
    case False
    then show ?thesis using uo' by (auto simp: word_less_nat_alt)
  qed
  have "mem_read buf (uint ?o) (uint ?c) = Inr (take (unat ?c) (drop (k * 1024) buf))"
  proof -
    have "unat ?o + unat ?c \<le> length buf" unfolding uo uc using kl l(1) by simp
    from mem_read_nat [OF this] show ?thesis unfolding uo uint_nat .
  qed
  moreover have "take (unat ?c) (drop (k * 1024) buf) = take 1024 (drop (k * 1024) buf)"
    using uc l(1) by (simp add: min_def)
  ultimately show ?case using Suc.IH Suc.prems by (simp add: foldE_append Let_def)
qed simp

lemma concat_cut: "length buf \<le> k * w \<Longrightarrow> concat (map (\<lambda>i. take w (drop (i * w) buf)) [0..<k]) = (buf :: 'a list)"
proof (induction k arbitrary: buf)
  case (Suc k)
  have "[0..<Suc k] = 0 # map Suc [0..<k]" by (simp add: upt_conv_Cons map_Suc_upt del: upt_Suc)
  moreover have "concat (map (\<lambda>i. take w (drop (i * w) (drop w buf))) [0..<k]) = drop w buf"
    by (rule Suc.IH) (use Suc.prems in simp)
  ultimately show ?case by (simp add: comp_def add.commute del: upt_Suc)
qed simp

text \<open>Once its transport is up the camera sends an image as packets that together are the image, none empty and none longer
  than 1024 bytes.\<close>

theorem image_packets:
  assumes "length buf = unat len" "unat len + 1024 < 2 ^ 32"
  shows "\<exists>cs. sendImageOverUDP True buf len = Inr cs \<and> concat cs = buf \<and> (\<forall>c \<in> set cs. 0 < length c \<and> length c \<le> 1024)"
proof -
  let ?n = "len div 1024 + (if len mod 1024 \<noteq> 0 then 1 else 0)"
  let ?k = "(unat len + 1023) div 1024"
  have dm: "n = n div 1024 * 1024 + n mod 1024" "n mod 1024 < 1024" for n :: nat by simp_all
  have up: "(n + 1023) div 1024 = n div 1024 + (if n mod 1024 \<noteq> 0 then 1 else 0)" for n :: nat
  proof -
    obtain q r where "n = q * 1024 + r" "r < 1024" "n div 1024 = q" "n mod 1024 = r" using dm [of n] by blast
    then show ?thesis by (auto intro!: div_nat_eqI)
  qed
  have k: "unat ?n = ?k"
  proof -
    have d: "unat (len div 1024) = unat len div 1024" "len mod 1024 = 0 \<longleftrightarrow> unat len mod 1024 = 0"
      by (simp_all add: unat_div unat_eq_zero [symmetric] unat_mod del: unat_eq_zero)
    have "unat (len div 1024 + 1) = unat len div 1024 + 1"
      using assms(2) by (subst unat_word_ariths) (simp add: unat_div)
    then show ?thesis unfolding up by (simp add: d)
  qed
  let ?cs = "map (\<lambda>i. take 1024 (drop (i * 1024) buf)) [0..<?k]"
  have kl: "?k * 1024 < unat len + 1024" "unat len \<le> ?k * 1024" using dm [of "unat len + 1023"] by linarith+
  have s: "(ucast CHUNK_SIZE :: u32) = 1024" by (simp add: CHUNK_SIZE_def)
  have "sendImageOverUDP True buf len = Inr ?cs"
    using image_chunks [OF assms kl(1)] by (simp add: sendImageOverUDP_def s k Let_def)
  moreover have "concat ?cs = buf" by (rule concat_cut) (simp add: assms(1) kl(2))
  moreover have "0 < length c \<and> length c \<le> 1024" if "c \<in> set ?cs" for c
  proof -
    from that obtain i where "i < ?k" "c = take 1024 (drop (i * 1024) buf)" by auto
    moreover from \<open>i < ?k\<close> have "i * 1024 < unat len" using kl(1) by linarith
    ultimately show ?thesis using assms(1) by simp
  qed
  ultimately show ?thesis by blast
qed

lemma image_packets_witness:
  "\<exists>cs. sendImageOverUDP True (replicate 2500 7) 2500 = Inr cs \<and> concat cs = replicate 2500 7 \<and>
     (\<forall>c \<in> set cs. 0 < length c \<and> length c \<le> 1024)"
  by (rule image_packets) simp_all


subsection \<open>From the ground station to the autopilot\<close>

text \<open>Nothing that waits for the autopilot is lost, and the camera's counter is in range.\<close>

definition keeps :: "('p, 'm) companion \<Rightarrow> ('p, 'm) companion \<Rightarrow> bool" where
  "keeps s s' \<longleftrightarrow> mc_apTxQueue (co_mavcom s') = mc_apTxQueue (co_mavcom s) \<and>
     (\<exists>es. mc_effects (co_mavcom s') = mc_effects (co_mavcom s) @ es) \<and> co_frame s' = co_frame s \<and>
     (0 \<le> cam_fps_counter (co_camera s) \<longrightarrow> 0 \<le> cam_fps_counter (co_camera s') \<and>
       cam_fps_counter (co_camera s') \<le> cam_fps_counter (co_camera s) + 1)"

lemma every_Inr: "every b f s = (if b then f s else Inr s)"
  by (simp add: every_def)

lemma print_keeps:
  "mc_apTxQueue (co_mavcom (print_statistics clk s)) = mc_apTxQueue (co_mavcom s)"
  "mc_effects (co_mavcom (print_statistics clk s)) = mc_effects (co_mavcom s)"
  "co_frame (print_statistics clk s) = co_frame s" "co_camera (print_statistics clk s) = co_camera s"
  by (simp_all add: print_statistics_def mc_log_def hal_millis_def Let_def split_beta)

lemma capture_keeps:
  assumes "0 \<le> cam_fps_counter (co_camera s)" "cam_fps_counter (co_camera s) < INT_MAX"
  shows "\<exists>s'. camera_capture clk F i s = Inr s' \<and> keeps s s'"
proof (cases "cam_isInitialized (co_camera s)")
  case True
  obtain c mc where u: "initUdpBroadcastIfNeeded clk i (co_camera s) (co_mavcom s) = (c, mc)" by fastforce
  then have m: "cam_fps_counter c = cam_fps_counter (co_camera s)" "mc_apTxQueue mc = mc_apTxQueue (co_mavcom s)"
    "mc_effects mc = mc_effects (co_mavcom s)"
    by (auto simp: initUdpBroadcastIfNeeded_def mc_log_def hal_millis_def Let_def split_beta split: if_splits)
  obtain td n where d: "(case fi_image i of None \<Rightarrow> (co_detector s, mc_ticks mc)
      | Some (junk, dets) \<Rightarrow> detectTagsInImage F clk junk (co_detector s) dets (mc_ticks mc)) = (td, n)" by fastforce
  obtain c' again where f: "update_fps (clk n) (clk (Suc n)) c = Inr (c', again)" "0 \<le> cam_fps_counter c'"
      "cam_fps_counter c' \<le> cam_fps_counter (co_camera s) + 1"
    using assms m(1) by (cases "1000 < clk n - cam_last_fps_update c") (auto simp: update_fps_def cint_def INT_MIN_def Let_def)
  show ?thesis using True by (simp add: camera_capture_def u d f keeps_def m)
next
  case False
  then show ?thesis by (simp add: camera_capture_def keeps_def)
qed

lemma update_1hz_keeps: "mc_apTxQueue (update_1hz clk M client mc) = mc_apTxQueue mc"
  "\<exists>es. mc_effects (update_1hz clk M client mc) = mc_effects mc @ es"
proof -
  have a: "\<exists>es. mc_effects (activateProxyIfNeeded clk client mc) = mc_effects mc @ es"
    by (auto simp: activateProxyIfNeeded_def udp_init_def udp_start_def udp_deInit_def mc_log_def mc_effect_def hal_millis_def
      Let_def split: option.split)
  define mc1 where "mc1 = (let mc = activateProxyIfNeeded clk client mc; mc = mc\<lparr>mc_ticks := Suc (mc_ticks mc)\<rparr>
       in if clk (mc_ticks mc - 1) - mc_lastSysStatus mc > 1000 then setupMessageStreaming clk M mc else mc)"
  obtain p msg where h: "ml_heartbeat_pack M MAVLINK_SYSTEM_ID MAVLINK_COMPONENT_ID 18 8 0 0 4 (mc_lib mc1) = (p, msg)" by fastforce
  have st: "mc_apTxQueue (setupMessageStreaming clk M m) = mc_apTxQueue m \<and>
      (\<exists>es. mc_effects (setupMessageStreaming clk M m) = mc_effects m @ es)" for m
  proof -
    obtain q ms where e: "pack_all M (map (interval_request M) streamed_ids) (mc_lib m) = (q, ms)" by fastforce
    show ?thesis unfolding setup_run [OF e] by (simp add: mc_log_def hal_millis_def)
  qed
  have m1: "mc_apTxQueue mc1 = mc_apTxQueue mc \<and> (\<exists>es. mc_effects mc1 = mc_effects mc @ es)"
  proof -
    let ?a = "activateProxyIfNeeded clk client mc"
    let ?b = "?a\<lparr>mc_ticks := Suc (mc_ticks ?a)\<rparr>"
    have q: "mc_apTxQueue ?b = mc_apTxQueue mc" by (simp add: activate_effects)
    obtain es where e: "mc_effects ?b = mc_effects mc @ es" using a by auto
    obtain es' where e': "mc_effects (setupMessageStreaming clk M ?b) = mc_effects ?b @ es'" using st by blast
    have "mc1 = ?b \<or> mc1 = setupMessageStreaming clk M ?b" by (simp add: mc1_def Let_def)
    then show ?thesis
    proof
      assume "mc1 = ?b"
      then show ?thesis using q e by metis
    next
      assume "mc1 = setupMessageStreaming clk M ?b"
      then show ?thesis using q e e' st [of ?b] by (metis append_assoc)
    qed
  qed
  show "mc_apTxQueue (update_1hz clk M client mc) = mc_apTxQueue mc"
    "\<exists>es. mc_effects (update_1hz clk M client mc) = mc_effects mc @ es"
    using m1 by (auto simp: update_1hz_run [OF h mc1_def])
qed


lemma keeps_refl: "keeps s s" and keeps_1hz: "keeps s (s\<lparr>co_mavcom := update_1hz clk M client (co_mavcom s)\<rparr>)"
  and keeps_tail: "keeps s s' \<Longrightarrow> keeps s (print_statistics clk s'\<lparr>co_next_frame := nf, co_delay := d\<rparr>)"
  using update_1hz_keeps [of clk M client "co_mavcom s"] by (simp_all add: keeps_def print_keeps)

lemma keeps_trans: "keeps s t \<Longrightarrow> co_camera t = co_camera s \<Longrightarrow> keeps t u \<Longrightarrow> keeps s u"
  unfolding keeps_def by (metis append_assoc)

lemma loop_rest_keeps:
  assumes "0 \<le> cam_fps_counter (co_camera s)" "cam_fps_counter (co_camera s) < INT_MAX"
  obtains s' where "loop_rest clk F M i s = Inr s'" "keeps s s'"
proof -
  let ?f = "co_frame s"
  define s1 where "s1 = (if due 1000 ?f then s\<lparr>co_mavcom := update_1hz clk M (fi_client i) (co_mavcom s)\<rparr> else s)"
  have k1: "keeps s s1" "co_camera s1 = co_camera s" by (simp_all add: s1_def keeps_1hz keeps_refl)
  obtain s2 where s2: "every (due 33 ?f) (camera_capture clk F i) s1 = Inr s2" "keeps s1 s2"
    using capture_keeps [of s1 clk F i] assms keeps_refl [of s1] k1(2) by (cases "due 33 ?f") (auto simp: every_Inr)
  have k2: "keeps s s2" using k1 s2(2) by (rule keeps_trans)
  obtain nf d where f: "frame_delay (co_next_frame (print_statistics clk s2)) (fi_micros i) = (nf, d)" by fastforce
  show thesis
    by (rule that [OF _ keeps_tail [OF k2, where clk = clk and nf = nf and d = d]])
      (unfold loop_rest_def Let_def s1_def [symmetric] s2(1) bindE.simps f prod.case, rule refl)
qed

lemma quiet_loop:
  assumes "\<not> due 10 (co_frame s + 1)" "\<not> due 20 (co_frame s + 1)"
    "0 \<le> cam_fps_counter (co_camera s)" "cam_fps_counter (co_camera s) < INT_MAX"
  obtains s' where "loop_step clk F M s i = Inr s'" "keeps (s\<lparr>co_frame := co_frame s + 1\<rparr>) s'"
proof -
  have "0 \<le> cam_fps_counter (co_camera (s\<lparr>co_frame := co_frame s + 1\<rparr>))"
    "cam_fps_counter (co_camera (s\<lparr>co_frame := co_frame s + 1\<rparr>)) < INT_MAX" using assms by simp_all
  then obtain s' where "loop_rest clk F M i (s\<lparr>co_frame := co_frame s + 1\<rparr>) = Inr s'"
    "keeps (s\<lparr>co_frame := co_frame s + 1\<rparr>) s'" by (rule loop_rest_keeps)
  then show thesis using that assms by (simp add: loop_step_def every_Inr)
qed

lemma quiet_loops:
  assumes "\<And>k. 1 \<le> k \<Longrightarrow> k \<le> length is \<Longrightarrow> \<not> due 10 (co_frame s + of_nat k) \<and> \<not> due 20 (co_frame s + of_nat k)"
    "0 \<le> cam_fps_counter (co_camera s)" "cam_fps_counter (co_camera s) + int (length is) < INT_MAX"
  shows "\<exists>s'. foldE (loop_step clk F M) is s = Inr s' \<and> mc_apTxQueue (co_mavcom s') = mc_apTxQueue (co_mavcom s) \<and>
    co_frame s' = co_frame s + of_nat (length is) \<and> 0 \<le> cam_fps_counter (co_camera s') \<and>
    cam_fps_counter (co_camera s') \<le> cam_fps_counter (co_camera s) + int (length is)"
  using assms
proof (induction "is" arbitrary: s)
  case (Cons i "is")
  have q: "\<not> due 10 (co_frame s + 1)" "\<not> due 20 (co_frame s + 1)" using Cons.prems(1) [of 1] by simp_all
  obtain s1 where s1: "loop_step clk F M s i = Inr s1" "keeps (s\<lparr>co_frame := co_frame s + 1\<rparr>) s1"
    by (rule quiet_loop [OF q, of clk F M i]) (use Cons.prems(2,3) in simp_all)
  then have k: "mc_apTxQueue (co_mavcom s1) = mc_apTxQueue (co_mavcom s)" "co_frame s1 = co_frame s + 1"
    "0 \<le> cam_fps_counter (co_camera s1)" "cam_fps_counter (co_camera s1) \<le> cam_fps_counter (co_camera s) + 1"
    using Cons.prems(2) by (simp_all add: keeps_def)
  have "\<not> due 10 (co_frame s1 + of_nat k) \<and> \<not> due 20 (co_frame s1 + of_nat k)" if "1 \<le> k" "k \<le> length is" for k
    using Cons.prems(1) [of "Suc k"] that k(2) by (simp add: add.assoc)
  from Cons.IH [OF this k(3)] k Cons.prems(3) show ?case by (force simp: s1(1))
qed simp


text \<open>The telemetry part of a loop in which the client asks for a reboot of the autopilot.\<close>

lemma telemetry_reboot:
  assumes te: "parser_ok (tl_parser (co_telemetry s))" "tp_parseState (tl_parser (co_telemetry s)) = PARSE_STATE_TYPE"
      "tag_wf (tl_lockedTag (co_telemetry s))"
    and logs: "list_all log_ok (lq_queue (mc_logQueue (co_mavcom s)))"
    and td: "tt_inv (td_tagTracker (co_detector s))" "\<forall>g \<in> set (tracked (td_tagTracker (co_detector s))). tag_wf g"
      "length (tracked (td_tagTracker (co_detector s))) \<le> 9"
    and i: "fi_client i \<noteq> None" "fi_rx_tel i = to_bytes (TelemetryCommandAction 7)"
    and q: "lq_queue (mc_apTxQueue (co_mavcom s)) = []" "0 < lq_queueSize (mc_apTxQueue (co_mavcom s))"
  obtains s' where "run_telemetry clk M i s = Inr s'" "co_frame s' = co_frame s" "co_camera s' = co_camera s"
    "lq_queue (mc_apTxQueue (co_mavcom s')) =
       [snd (ml_command_int_pack M MAVLINK_SYSTEM_ID MAVLINK_COMPONENT_ID
          \<lparr>ci_frame = 0, ci_command = 246, ci_params = [float_one, 0, 0, 0, 0, 0, 0]\<rparr> (mc_lib (co_mavcom s)))]"
proof -
  let ?mc = "co_mavcom s" and ?td = "co_detector s"
  let ?te = "(co_telemetry s)\<lparr>tl_logQueue := mc_logQueue ?mc, tl_ticks := mc_ticks ?mc, tl_effects := []\<rparr>"
  have ok: "te_ok ?te" using te(1,3) logs by (simp add: te_ok_def)
  obtain te1 g locked where u: "foldE (telemetry_rx clk) (fi_rx_tel i) ?te = Inr te1"
    and up: "telemetry_update clk True (fi_rx_tel i) (of_int (cam_fps (co_camera s))) (fi_heap i) (ap_bytes (mc_ap ?mc)) ?te ?td = Inr
       (te1\<lparr>tl_ticks := Suc (tl_ticks te1), tl_logQueue := (tl_logQueue te1)\<lparr>lq_queue := []\<rparr>, tl_lockedTag := g\<rparr>,
        [packet 0x01 (status_bytes \<lparr>st_upTimeMs = clk (tl_ticks te1), st_cameraFps = of_int (cam_fps (co_camera s)), st_freeHeap = fi_heap i,
           st_params = tl_params te1, st_ap = ap_bytes (mc_ap ?mc)\<rparr>)] @
        map (packet 0x03 \<circ> log_bytes) (lq_queue (tl_logQueue te1)) @
        [packet 0x02 (tags_payload locked g (if locked then getLandingTarget ?td else zero_landing_target)
           (tracked (td_tagTracker ?td)))])"
    by (rule update_run [OF ok td])
  obtain tp where r: "foldE (read_commands clk) [fi_rx_tel i] ?te = Inr ((foldl (command_effect clk) ?te [TelemetryCommandAction 7])\<lparr>tl_parser := tp\<rparr>)"
    using commands_run [of ?te "[fi_rx_tel i]" "[TelemetryCommandAction 7]" clk] te(1,2) i(2) by auto
  have eff: "tl_effects te1 = [SendCommandInt 246 0 float_one]"
    using r u by (simp add: read_commands_def handleAction_def info_def log_line_def effect_def hal_millis_def
        MAV_CMD_PREFLIGHT_REBOOT_SHUTDOWN_def)
  obtain T out where T: "telemetry_update clk True (fi_rx_tel i) (of_int (cam_fps (co_camera s))) (fi_heap i) (ap_bytes (mc_ap ?mc)) ?te ?td = Inr (T, out)"
    "tl_effects T = [SendCommandInt 246 0 float_one]"
    using up eff by simp
  have run: "run_telemetry clk M i s = Inr (s\<lparr>co_telemetry := T,
      co_mavcom := foldl (apply_effect M) (?mc\<lparr>mc_logQueue := tl_logQueue T, mc_ticks := tl_ticks T\<rparr>) (tl_effects T),
      co_sent := co_sent s @ out\<rparr>)"
    using i(1) by (simp add: run_telemetry_def T(1))
  show thesis
    by (rule that [OF run]) (use q in \<open>simp_all add: T(2) apply_effect_def sendCommandInt_def lq_push_def
      LinuxQueue_push_def Let_def split_beta\<close>)
qed

lemma due_after:
  assumes "co_frame s + 1 = f" "due 20 f" "unat f + 10 < 2 ^ 32"
  shows "due 10 f" "1 \<le> k \<Longrightarrow> k \<le> 9 \<Longrightarrow> \<not> due 10 (f + of_nat k) \<and> \<not> due 20 (f + of_nat k)"
    "due 10 (f + 10)" "\<not> due 20 (f + 10)"
proof -
  have m: "due n (f + of_nat k) \<longleftrightarrow> (unat f + k) mod unat n = 0" if "k \<le> 10" for n k
  proof -
    have "unat (f + of_nat k) = unat f + k"
      using that assms(3) by (subst unat_word_ariths) (simp add: of_nat32)
    then show ?thesis by (simp add: due_def unat_eq_zero [symmetric] unat_mod del: unat_eq_zero)
  qed
  have f: "unat f mod 20 = 0" using assms(2) m [of 0 20] by simp
  then obtain c where c: "unat f = 20 * c" by auto
  show "due 10 f" using m [of 0 10] c by simp
  show "1 \<le> k \<Longrightarrow> k \<le> 9 \<Longrightarrow> \<not> due 10 (f + of_nat k) \<and> \<not> due 20 (f + of_nat k)"
    using m [of k 10] m [of k 20] c by (auto simp: mod_eq_0_iff_dvd) presburger+
  show "due 10 (f + 10)" using m [of 10 10] c by simp
  show "\<not> due 20 (f + 10)" using m [of 10 20] c by simp
qed


text \<open>C2: When the ground station's request to reboot the autopilot arrives in a telemetry update, the command
  is written to the autopilot ten loops later, whatever else those loops receive and the camera sees.\<close>

theorem command_reaches_autopilot:
  assumes f: "co_frame s + 1 = f" "due 20 f" "unat f + 10 < 2 ^ 32"
    and first: "update_100hz clk M (fi_client i) (fi_rx_ap i) (fi_rx_udp i) (co_mavcom s) = Inr mc"
      "list_all log_ok (lq_queue (mc_logQueue mc))" "lq_queue (mc_apTxQueue mc) = []" "0 < lq_queueSize (mc_apTxQueue mc)"
    and te: "parser_ok (tl_parser (co_telemetry s))" "tp_parseState (tl_parser (co_telemetry s)) = PARSE_STATE_TYPE"
      "tag_wf (tl_lockedTag (co_telemetry s))"
    and td: "tt_inv (td_tagTracker (co_detector s))" "\<forall>g \<in> set (tracked (td_tagTracker (co_detector s))). tag_wf g"
      "length (tracked (td_tagTracker (co_detector s))) \<le> 9"
    and i: "fi_client i \<noteq> None" "fi_rx_tel i = to_bytes (TelemetryCommandAction 7)"
    and cam: "0 \<le> cam_fps_counter (co_camera s)" "cam_fps_counter (co_camera s) < 1000"
    and j: "length is = 9" "\<And>p p' ms m. parse_all M 0 (fi_rx_ap j) p = (p', ms) \<Longrightarrow> m \<in> set ms \<Longrightarrow> text_ok M m"
  shows "\<exists>s' pre post. foldE (loop_step clk F M) (i # is @ [j]) s = Inr s' \<and>
    mc_effects (co_mavcom s') = pre @ [ApWrite (ml_to_send_buffer M (snd (ml_command_int_pack M MAVLINK_SYSTEM_ID
      MAVLINK_COMPONENT_ID \<lparr>ci_frame = 0, ci_command = 246, ci_params = [float_one, 0, 0, 0, 0, 0, 0]\<rparr> (mc_lib mc))))] @ post"
proof -
  let ?cmd = "snd (ml_command_int_pack M MAVLINK_SYSTEM_ID MAVLINK_COMPONENT_ID
    \<lparr>ci_frame = 0, ci_command = 246, ci_params = [float_one, 0, 0, 0, 0, 0, 0]\<rparr> (mc_lib mc))"
  note d = due_after [OF f]
  let ?s = "s\<lparr>co_frame := f, co_mavcom := mc\<rparr>"
  obtain s1 where s1: "run_telemetry clk M i ?s = Inr s1" "co_frame s1 = f" "co_camera s1 = co_camera s"
    "lq_queue (mc_apTxQueue (co_mavcom s1)) = [?cmd]"
    by (rule telemetry_reboot [of ?s i clk M]) (use first(2-) te td i in simp_all)
  obtain s2 where s2: "loop_rest clk F M i s1 = Inr s2" "keeps s1 s2"
    by (rule loop_rest_keeps [of s1 clk F M i]) (use s1(3) cam in \<open>simp_all add: INT_MAX_def\<close>)
  have one: "loop_step clk F M s i = Inr s2"
    using f d(1) first(1) s1(1) s2(1) by (simp add: loop_step_def every_Inr Let_def)
  have k2: "co_frame s2 = f" "mc_apTxQueue (co_mavcom s2) = mc_apTxQueue (co_mavcom s1)"
    "0 \<le> cam_fps_counter (co_camera s2)" "cam_fps_counter (co_camera s2) \<le> 1000"
    using s2(2) s1(2,3) cam by (simp_all add: keeps_def)
  obtain s3 where s3: "foldE (loop_step clk F M) is s2 = Inr s3" "mc_apTxQueue (co_mavcom s3) = mc_apTxQueue (co_mavcom s2)"
    "co_frame s3 = f + 9" "0 \<le> cam_fps_counter (co_camera s3)" "cam_fps_counter (co_camera s3) \<le> 1009"
    using quiet_loops [of "is" s2 clk F M] d(2) k2 j(1) by (force simp: INT_MAX_def)
  obtain p ms where r: "parse_all M 0 (fi_rx_ap j) (mc_lib (co_mavcom s3)) = (p, ms)" by fastforce
  obtain p' us where u: "parse_all M 1 (fi_rx_udp j) p = (p', us)" by fastforce
  obtain mc1 where up: "update_100hz clk M (fi_client j) (fi_rx_ap j) (fi_rx_udp j) (co_mavcom s3) = Inr (mc1\<lparr>mc_lib := p',
       mc_apTxQueue := (mc_apTxQueue (co_mavcom s3))\<lparr>lq_queue := []\<rparr>,
       mc_effects := mc_effects (activateProxyIfNeeded clk (fi_client j) (co_mavcom s3)) @ forwarded M ms @
         map (ApWrite \<circ> ml_to_send_buffer M) (us @ lq_queue (mc_apTxQueue (co_mavcom s3)))\<rparr>)"
    by (rule update_100hz_run [OF r u, of clk "fi_client j"]) (use j(2) [OF r] in blast, blast)
  let ?pre = "mc_effects (activateProxyIfNeeded clk (fi_client j) (co_mavcom s3)) @ forwarded M ms @ map (ApWrite \<circ> ml_to_send_buffer M) us"
  obtain mc2 where mc2: "update_100hz clk M (fi_client j) (fi_rx_ap j) (fi_rx_udp j) (co_mavcom s3) = Inr mc2"
    "mc_effects mc2 = ?pre @ [ApWrite (ml_to_send_buffer M ?cmd)]"
    using up s1(4) k2(2) s3(2) by simp
  have f10: "co_frame s3 + 1 = f + 10" by (simp add: s3(3))
  let ?s3 = "s3\<lparr>co_frame := f + 10, co_mavcom := mc2\<rparr>"
  obtain s4 where s4: "loop_rest clk F M j ?s3 = Inr s4" "keeps ?s3 s4"
    by (rule loop_rest_keeps [of ?s3 clk F M j]) (use s3(4,5) in \<open>simp_all add: INT_MAX_def\<close>)
  have "loop_step clk F M s3 j = Inr s4"
    using d(3,4) mc2(1) s4(1) by (simp add: loop_step_def every_Inr Let_def f10)
  moreover obtain es where "mc_effects (co_mavcom s4) = mc_effects (co_mavcom ?s3) @ es" using s4(2) unfolding keeps_def by blast
  then have "mc_effects (co_mavcom s4) = ?pre @ [ApWrite (ml_to_send_buffer M ?cmd)] @ es" by (simp add: mc2(2))
  ultimately show ?thesis using one s3(1) by (intro exI [of _ s4] exI [of _ ?pre] exI [of _ es]) (simp add: foldE_append)
qed


definition quiet_input :: frame_in where
  "quiet_input = \<lparr>fi_client = Some (Some (lit ''10.0.0.2'')), fi_rx_ap = [], fi_rx_udp = [], fi_rx_tel = [], fi_heap = 1000,
     fi_image = None, fi_ip_mem = replicate 17 0, fi_micros = 0\<rparr>"

definition reboot_input :: frame_in where
  "reboot_input = quiet_input\<lparr>fi_rx_tel := to_bytes (TelemetryCommandAction 7)\<rparr>"

definition active_mavcom :: "(nat, u8) mavcom" where
  "active_mavcom = mavcom_start\<lparr>mc_proxyIsActive := True\<rparr>"

definition companion_start :: "(nat, u8) companion" where
  "companion_start = \<lparr>co_frame = 19, co_next_frame = 19000, co_last_print = 0, co_mavcom = active_mavcom, co_telemetry = te_start,
     co_detector = td_with 3, co_camera = (Camera (replicate 17 0))\<lparr>cam_isInitialized := True\<rparr>, co_sent = [], co_delay = None\<rparr>"

definition word_fpu :: "float32 fpu" where
  "word_fpu = \<lparr>f_int = of_int, f_dec = (\<lambda>m e. of_int m), f_single = (\<lambda>x. x), f_add = (+), f_sub = (-), f_mul = (*),
     f_div = (div), f_sqrt = (\<lambda>x. x), f_tan = (\<lambda>x. x), f_pow = (\<lambda>x n. x ^ nat n)\<rparr>"

lemma command_reaches_autopilot_witness:
  "\<exists>s' pre post. foldE (loop_step of_nat word_fpu toy_mavlink) (reboot_input # replicate 9 quiet_input @ [quiet_input]) companion_start = Inr s' \<and>
    mc_effects (co_mavcom s') = pre @ [ApWrite (ml_to_send_buffer toy_mavlink (snd (ml_command_int_pack toy_mavlink MAVLINK_SYSTEM_ID
      MAVLINK_COMPONENT_ID \<lparr>ci_frame = 0, ci_command = 246, ci_params = [float_one, 0, 0, 0, 0, 0, 0]\<rparr> (mc_lib active_mavcom))))] @ post"
proof (rule command_reaches_autopilot [where f = 20 and mc = active_mavcom])
  show "update_100hz of_nat toy_mavlink (fi_client reboot_input) (fi_rx_ap reboot_input) (fi_rx_udp reboot_input) (co_mavcom companion_start) =
      Inr active_mavcom"
    by (simp add: update_100hz_def activateProxyIfNeeded_def active_mavcom_def mavcom_start_def MavCom_def companion_start_def
        reboot_input_def quiet_input_def drain_queue_ok LinuxQueue_def)
  show "parser_ok (tl_parser (co_telemetry companion_start))" "tp_parseState (tl_parser (co_telemetry companion_start)) = PARSE_STATE_TYPE"
    "tag_wf (tl_lockedTag (co_telemetry companion_start))"
    using te_start_ok by (simp_all add: companion_start_def te_ok_def)
  show "tt_inv (td_tagTracker (co_detector companion_start))" "\<forall>g \<in> set (tracked (td_tagTracker (co_detector companion_start))). tag_wf g"
    "length (tracked (td_tagTracker (co_detector companion_start))) \<le> 9"
    using td_with_ok [of 3] by (simp_all add: companion_start_def)
qed (auto simp: companion_start_def due_def active_mavcom_def mavcom_start_def MavCom_def LinuxQueue_def reboot_input_def
    quiet_input_def Camera_def)

end
