(* ===== verification/Spec2Isabelle.thy ===== *)
theory Spec2Isabelle
  imports ZArray UnionFind WorkerPool Sampling PtSort Families ZMaxHeap ZHash Companion
begin

text \<open>
  Precision-landing companion: a model of its program and of the parts of the AprilTag library it runs on.

  \<^bold>\<open>The program.\<close> A camera and a small computer (an ESP32-S3, or Linux) sit under a drone. The main loop
  (\<open>src/main.cpp\<close>) takes camera frames at a fixed rate, lets the AprilTag library (\<open>libraries/apriltag-esp32-master\<close>)
  find tags in them, tracks the tags and tells the autopilot over MAVLink where the landing target is. It bridges MAVLink
  messages between the autopilot and a ground station, and serves a telemetry client, which reads status, log and tags and
  sends commands. A frame goes through the detector as follows: the image is made smaller and blurred, then thresholded; regions
  of one colour are joined, the borders between regions are collected and sorted by angle, quadrilaterals are fitted to them,
  the bits read in a quadrilateral are looked up in a table of each tag family, and of overlapping detections of one tag only
  one is kept.

  \<^bold>\<open>Theories.\<close>
  \<^item> \<open>Prelude\<close>: machine integers, failures as values (\<open>cerr\<close>), sequencing (\<open>bindE\<close>, \<open>foldE\<close>), bounds-checked
    memory and the collection \<open>cmem\<close>. \<open>Bytes\<close>: little-endian layout, C strings and \<open>printf\<close> of numbers.
  \<^item> \<open>Probing\<close>: linear probing, shared by the two hash tables. Its locale \<open>probing\<close> is interpreted on the slots of the
    quick-decode table (\<open>qdp\<close>) and of \<open>zhash\<close> (\<open>zp\<close>).
  \<^item> \<open>QuickDecode\<close> (\<open>apriltag.c\<close>: \<open>rotate90\<close>, \<open>quick_decode_*\<close>) and \<open>Families\<close> (\<open>tag16h5.c\<close>, \<open>tag25h9.c\<close>, \<open>tag36h11.c\<close>,
    \<open>tag36h10.c\<close>, \<open>tagCircle21h7.c\<close>): the table is filled without running out of slots and answers exactly the first tag
    within the corrected distance; for the four complete families this tag is the only one, whatever the rotation.
  \<^item> \<open>UnionFind\<close> (\<open>common/unionfind.h\<close>): after any joins the representatives are those of the equivalence closure and the
    sizes those of its classes. The locale \<open>partition\<close> states this to the client, interpreted as \<open>ufp\<close>.
  \<^item> \<open>WorkerPool\<close> (\<open>common/workerpool.c\<close>): the threads and the caller of the pool as a step relation. A run calls every task
    once and never gets stuck. \<open>pool_order\<close> is the set of orders in which the tasks of a run may be called, which
    the theories of the detector take as the order of theirs.
  \<^item> \<open>Threshold\<close>, \<open>Components\<close>, \<open>Clusters\<close> and \<open>QuadThresh\<close> (\<open>apriltag_quad_thresh.c\<close>, \<open>common/image_u8.c\<close>): \<open>threshold\<close>
    computes \<open>thr_spec\<close>; \<open>connected_components\<close> computes reachability between pixels of one colour; \<open>gradient_clusters\<close>
    returns the points between two components, each once; \<open>QuadThresh\<close> composes the three for the input image.
    \<open>PtSort\<close>: \<open>ptsort\<close> sorts the points of a cluster.
  \<^item> \<open>ImageOps\<close> (\<open>common/image_u8.c\<close>, step 1 of \<open>apriltag_detector_detect\<close>): copy, decimation, convolution and sharpening, which
    compute the closed forms \<open>small\<close>, \<open>dec32\<close>, \<open>blurred\<close> and \<open>prepared\<close>. \<open>FrontEnd\<close> composes this step with \<open>QuadThresh\<close>: from a
    camera frame to the clusters of points.
  \<^item> \<open>TagImage\<close> (\<open>apriltag_to_image\<close>) and \<open>TagReading\<close> (\<open>sharpen\<close>, \<open>quad_decode\<close>): the drawing of a tag, where its bits are, what a
    quarter turn does to them, and the reading of a quadrilateral. A drawn tag is read back, turned in any way, with the number
    of bits read wrong.
  \<^item> \<open>Detections\<close> (step 3 of \<open>apriltag_detector_detect\<close>): overlapping detections of one tag are reconciled. It uses the removal by
    index that \<open>ZArray\<close> refines, and shows that \<open>TargetDetector\<close> sees its target as if nothing had been removed.
  \<^item> \<open>Detector\<close> (\<open>apriltag_detector_*\<close>, \<open>quad_decode_task\<close> and \<open>apriltag_detector_detect\<close> of \<open>apriltag.c\<close>, the detector's part of
    \<open>TargetDetector::init\<close>): the detector object with its families, the parallel decoding of the quadrilaterals, and the whole
    of a detection. \<open>detect_frame\<close> says what it does with a camera frame, \<open>detections_correct\<close> what it returns, and \<open>tag_seen\<close>
    that a tag in view reaches the companion's check. What is computed of one quadrilateral is an argument that may fail (\<open>quad_ops\<close>,
    \<open>quad_runs\<close>).
  \<^item> \<open>Matd\<close> and \<open>MatdPlu\<close> (\<open>common/matd.*\<close>): matrices, their arithmetic, the decomposition with pivoting, linear equations and
    inverses. The lemmas of \<open>matd\<close> rewrite operations on matrices given by their elements (\<open>mat\<close>).
  \<^item> \<open>Homography\<close> (\<open>homography_compute2\<close>, \<open>quad_update_homographies\<close>, \<open>homography_project\<close>): the homography of a quadrilateral maps
    the corners of the tag to its corners; its elimination fails only when the diagonals are parallel. \<open>GrayModel\<close> (\<open>graymodel_*\<close>,
    \<open>apriltag_math.h\<close>): the model of brightness is exact on planes. \<open>Sampling\<close> (the sampling of \<open>quad_decode\<close>,
    \<open>value_for_pixel\<close>): a tag in the picture is decoded; \<open>picture_ops\<close> gives \<open>Detector\<close> its operations on quadrilaterals from
    these three, and \<open>tag_in_frame\<close> follows a tag from the pixels of a frame to the companion.
  \<^item> \<open>ZArray\<close> (\<open>common/zarray.*\<close>), \<open>ZHash\<close> (\<open>common/zhash.*\<close>) and \<open>ZMaxHeap\<close> (\<open>common/zmaxheap.c\<close>): the containers down to their
    allocations, refined to lists, finite maps and multisets. Locales: \<open>collector\<close> (\<open>za\<close>), \<open>key_functions\<close>
    (\<open>u32k\<close>, \<open>u64k\<close>, \<open>ptrk\<close>, \<open>intk\<close>, \<open>strk\<close>) and \<open>priority_queue\<close> (\<open>hp\<close>).
  \<^item> \<open>HalQueue\<close> (\<open>hal.h\<close>, \<open>linux/linux_hal.h\<close>): the bounded queue; its locale \<open>hal_queue\<close> is interpreted as \<open>lq\<close> and used by
    the two links.
  \<^item> \<open>TargetDetector\<close> (\<open>target_detector.cpp\<close>): the table of tracked tags, the hysteresis lock, the landing target and the
    handling of a frame, for any detections.
  \<^item> \<open>Autopilot\<close>, \<open>Telemetry\<close> and \<open>TelemetryLink\<close> (\<open>ap.h\<close>, \<open>telemetry.cpp\<close>, \<open>log.cpp\<close>, \<open>tools/telemetry_server.py\<close>): the parser of
    commands, the packets of an update, and the client's decoder; what the client reads is what was sent.
  \<^item> \<open>MavCom\<close> (\<open>mavcom.cpp\<close>, \<open>transport_udp.cpp\<close>): the bridge, the messages that update the autopilot state, the commands and
    the three periodic updates, for any behaviour of the MAVLink library (a parameter, \<open>mavlink\<close>).
  \<^item> \<open>Companion\<close> (\<open>main.cpp\<close>, \<open>camera.cpp\<close>, \<open>esp32/esp32_camera.cpp\<close>): the loop over all components with its periods, the delay
    between loops and the cutting of images into packets.

  \<^bold>\<open>Conventions.\<close> A C structure is a record whose fields carry a prefix; an object with identity is passed and returned.
  Unsigned integers are words, or naturals with the wrap written out; signed ones are integers, checked by \<open>cint\<close> where they
  can overflow. A failing assertion, an access outside an allocation, a signed overflow, a division by zero and a loop without
  end are the errors \<open>AssertFail\<close>, \<open>OutOfBounds\<close>, \<open>IntOverflow\<close>, \<open>DivByZero\<close> and \<open>Diverges\<close>; so a result \<open>Inr\<close> says that none
  of them happens. Bytes of uninitialised memory are arguments (\<open>junk\<close>). Time is an arbitrary sequence of clock readings.
  Floats that are only carried are their bit patterns; the angles of the landing target are computed over the reals, since
  only signs and bounds are stated; the sharpening and the scores of \<open>quad_decode\<close>, the matrices and the homographies in an ordered field,
  the grey models and the sampling over the reals, all without rounding. An operation without a real result is the error \<open>NotANumber\<close>.
  Tag families, which detectors share, are in a store of addresses.

  \<^bold>\<open>Bounds and fuel.\<close> A probe gets as many steps as the table has slots, which a table with a free slot does not use up;
  \<open>zhash_put\<close> calls itself at most once, since the table it makes is not full; a walk in the forest gets one step more than there
  are nodes, which suffices because parents are acyclic (\<open>uf_inv\<close>). \<open>Diverges\<close> is proved not to occur. Images are
  bounded by \<open>im_ok\<close> (a buffer below \<open>2 ^ 31\<close> bytes) and, for the threshold, by the asserted 32767 pixels a side (\<open>thr_ok\<close>);
  containers by \<open>zarray_limit\<close>, \<open>zh_limit\<close> and \<open>hp_limit\<close>, below which sizes do not overflow; the clusters of a task by
  \<open>room\<close>, the size of \<open>mem_pools\<close>, which the code does not check. Each bound is a hypothesis of the theorems that need it,
  and what happens beyond it is among the error theorems where it can happen: \<open>threshold_small\<close>, \<open>update_overflow\<close>,
  \<open>reconcile_correct\<close> (256 detections), \<open>statustext_overread\<close>, \<open>last_row_unjoined\<close>.

  \<^bold>\<open>Concurrency.\<close> In \<open>WorkerPool\<close> a section under the mutex is one step. The tasks of the detector are atomic in the
  theories that use them, in any order a pool may call them: those of one run write different rows, trees or lists. The pool is
  correct when all its threads wait before the first run and no wakeup is spurious; \<open>workerpool_run_early\<close> shows that it is
  not without this.

  \<^bold>\<open>Not modelled.\<close>
  \<^item> The numerical rest of the detector: the fitting of lines and quadrilaterals (\<open>quad_segment_maxima\<close>, \<open>fit_line\<close>,
    \<open>fit_quad\<close>), the refinement of edges, the centre and corners of a detection, poses, \<open>svd22\<close>, \<open>g2d\<close>. What these compute
    depends on the rounding of floats and doubles, which exact arithmetic would not show. So they are parameters: \<open>fit\<close> in
    \<open>Detector\<close>, \<open>refine\<close> and \<open>corners\<close> of \<open>picture_ops\<close>, the bytes of the Gaussian kernel (\<open>gauss\<close> in \<open>quad_preprocess\<close>), and the comparison
    of floats and polygons (\<open>float_ops\<close> in \<open>reconcile\<close>). \<open>threshold_bayer\<close> has no caller.
  \<^item> The release of memory, the timing and the debug images of the detector.
  \<^item> Drawing and rotation of images and image files (\<open>pnm\<close>, \<open>pam\<close>, \<open>pjpeg\<close>, \<open>image_u8x3\<close>, \<open>image_u8x4\<close>), option parsing, strings, timing and debug
    output of the library's own tools, which the companion does not call.
  \<^item> The tables of \<open>tagCircle49h12\<close>, \<open>tagCustom48h12\<close>, \<open>tagStandard52h13\<close> and \<open>tagStandard41h12\<close>: generated, up to 65,000
    codes, not used by the companion.
  \<^item> Sockets, UART, WiFi, FreeRTOS and the capture of frames: the input and output of the model. The web client and the
    generator scripts under \<open>tools\<close>, apart from the client's packet decoder.
\<close>

end
